(* ===== verification/Prelude.thy ===== *)
theory Prelude
  imports Main "HOL-Library.Word"
begin

text \<open>
  Shared vocabulary of the development: the machine types of the Rust engine, the
  \<open>Result\<close> type with its sequencing operator, \<open>slice::chunks\<close>, and the little-endian
  byte conversions of \<open>uN::to_le_bytes\<close> / \<open>uN::from_le_bytes\<close>, each with the facts
  the component theories use.

  A \<open>u8\<close>, \<open>u32\<close> or \<open>u64\<close> of the source is a word of that width. An \<open>f64\<close> is its bit
  pattern (\<open>f64::to_bits\<close>), because the engine compares, stores and orders floats by their
  bits. A \<open>usize\<close> that only counts elements of a list in memory is a \<open>nat\<close>; where the source
  truncates or checks it for overflow, the bound is written out.
\<close>

unbundle bit_operations_syntax

type_synonym u8 = "8 word"
type_synonym u32 = "32 word"
type_synonym u64 = "64 word"
type_synonym f64 = "64 word"

named_theorems result_simps \<open>evaluation of results\<close>
named_theorems wf_intros \<open>introduction rules for well-formedness predicates\<close>

section \<open>Results\<close>

text \<open>
  A violated internal invariant (\<open>hegel_internal_assert!\<close> and its family in
  \<open>control.rs\<close>) is a value of type \<open>internal_error\<close>, carrying the static text of the
  assertion. \<open>Inl\<close> is Rust's \<open>Err\<close>, \<open>Inr\<close> its \<open>Ok\<close>; \<open>rbind\<close> is the question-mark operator.
  A panic (an \<open>unwrap\<close> of \<open>None\<close>, an underflowing \<open>BigUint\<close> subtraction) also ends the
  computation and is the second constructor. Debug assertions are modelled as enabled.
\<close>

datatype internal_error = InternalError string | Panicked string

type_synonym 'a internal_result = "internal_error + 'a"

definition rbind :: "'e + 'a \<Rightarrow> ('a \<Rightarrow> 'e + 'b) \<Rightarrow> 'e + 'b" where
  "rbind m f = (case m of Inl e \<Rightarrow> Inl e | Inr x \<Rightarrow> f x)"

definition hegel_internal_assert :: "bool \<Rightarrow> string \<Rightarrow> unit internal_result" where
  "hegel_internal_assert c msg = (if c then Inr () else Inl (InternalError msg))"

definition hegel_internal_unwrap :: "'a option \<Rightarrow> string \<Rightarrow> 'a internal_result" where
  "hegel_internal_unwrap v msg = (case v of Some x \<Rightarrow> Inr x | None \<Rightarrow> Inl (InternalError msg))"

definition unwrap_or_panic :: "'a option \<Rightarrow> string \<Rightarrow> 'a internal_result" where
  "unwrap_or_panic v msg = (case v of Some x \<Rightarrow> Inr x | None \<Rightarrow> Inl (Panicked msg))"

lemma rbind_Inl [simp, result_simps]: "rbind (Inl e) f = Inl e"
  by (simp add: rbind_def)

lemma rbind_Inr [simp, result_simps]: "rbind (Inr x) f = f x"
  by (simp add: rbind_def)

lemma rbind_eq_Inr [simp]: "rbind m f = Inr y \<longleftrightarrow> (\<exists>x. m = Inr x \<and> f x = Inr y)"
  by (cases m) auto

lemma rbind_eq_Inl: "rbind m f = Inl e \<longleftrightarrow> m = Inl e \<or> (\<exists>x. m = Inr x \<and> f x = Inl e)"
  by (cases m) auto

lemma rbind_assoc: "rbind (rbind m f) g = rbind m (\<lambda>x. rbind (f x) g)"
  by (cases m) auto

lemma rbind_cong [fundef_cong]:
  "m = m' \<Longrightarrow> (\<And>x. m' = Inr x \<Longrightarrow> f x = f' x) \<Longrightarrow> rbind m f = rbind m' f'"
  by (cases m') auto

lemma assert_True [simp, result_simps]: "hegel_internal_assert True msg = Inr ()"
  by (simp add: hegel_internal_assert_def)

lemma assert_False [simp, result_simps]: "hegel_internal_assert False msg = Inl (InternalError msg)"
  by (simp add: hegel_internal_assert_def)

lemma assert_eq_Inr [simp]: "hegel_internal_assert c msg = Inr u \<longleftrightarrow> c"
  by (simp add: hegel_internal_assert_def)

lemma unwrap_Some [simp, result_simps]: "hegel_internal_unwrap (Some x) msg = Inr x"
  by (simp add: hegel_internal_unwrap_def)

lemma unwrap_None [simp, result_simps]: "hegel_internal_unwrap None msg = Inl (InternalError msg)"
  by (simp add: hegel_internal_unwrap_def)

lemma unwrap_eq_Inr [simp]: "hegel_internal_unwrap v msg = Inr x \<longleftrightarrow> v = Some x"
  by (cases v) auto

lemma panic_Some [simp, result_simps]: "unwrap_or_panic (Some x) msg = Inr x"
  by (simp add: unwrap_or_panic_def)

lemma panic_None [simp, result_simps]: "unwrap_or_panic None msg = Inl (Panicked msg)"
  by (simp add: unwrap_or_panic_def)

lemma panic_eq_Inr [simp]: "unwrap_or_panic v msg = Inr x \<longleftrightarrow> v = Some x"
  by (cases v) auto

section \<open>Mapping a fallible function over a list\<close>

fun rmap :: "('a \<Rightarrow> 'e + 'b) \<Rightarrow> 'a list \<Rightarrow> 'e + 'b list" where
  "rmap f [] = Inr []"
| "rmap f (x # xs) = rbind (f x) (\<lambda>y. rbind (rmap f xs) (\<lambda>ys. Inr (y # ys)))"

lemma rmap_Inr: "(\<And>x. x \<in> set xs \<Longrightarrow> f x = Inr (g x)) \<Longrightarrow> rmap f xs = Inr (map g xs)"
  by (induction xs) auto

lemma rmap_append:
  "rmap f (xs @ ys) = rbind (rmap f xs) (\<lambda>as. rbind (rmap f ys) (\<lambda>bs. Inr (as @ bs)))"
  by (induction xs) (auto simp: rbind_assoc, auto simp: rbind_def split: sum.splits)

lemma rmap_eq_Inr_length: "rmap f xs = Inr ys \<Longrightarrow> length ys = length xs"
  by (induction xs arbitrary: ys) auto

section \<open>Three-way comparison\<close>

text \<open>\<open>core::cmp::Ordering\<close>, and \<open>Ord::cmp\<close> on a linear order.\<close>

datatype ordering = Less | Equal | Greater

definition cmp :: "'a :: linorder \<Rightarrow> 'a \<Rightarrow> ordering" where
  "cmp a b = (if a < b then Less else if a = b then Equal else Greater)"

fun reverse_ordering :: "ordering \<Rightarrow> ordering" where
  "reverse_ordering Less = Greater"
| "reverse_ordering Equal = Equal"
| "reverse_ordering Greater = Less"

lemma cmp_simps [simp]:
  "cmp a b = Less \<longleftrightarrow> a < b" "cmp a b = Equal \<longleftrightarrow> a = b" "cmp a b = Greater \<longleftrightarrow> b < a"
  by (auto simp: cmp_def)

lemma cmp_refl [simp]: "cmp a a = Equal"
  by simp

lemma cmp_reverse: "reverse_ordering (cmp a b) = cmp b a"
  by (auto simp: cmp_def)

section \<open>Chunks of a slice\<close>

fun chunks :: "nat \<Rightarrow> 'a list \<Rightarrow> 'a list list" where
  "chunks n xs = (if n = 0 \<or> xs = [] then [] else take n xs # chunks n (drop n xs))"

declare chunks.simps [simp del]

lemma chunks_Nil [simp]: "chunks n [] = []"
  by (subst chunks.simps) simp

lemma chunks_Cons:
  "0 < n \<Longrightarrow> xs \<noteq> [] \<Longrightarrow> chunks n xs = take n xs # chunks n (drop n xs)"
  by (subst chunks.simps) simp

lemma chunks_append:
  "0 < n \<Longrightarrow> length xs = n \<Longrightarrow> chunks n (xs @ ys) = xs # chunks n ys"
  by (cases xs) (auto simp: chunks_Cons)

lemma chunks_eq_Nil [simp]: "0 < n \<Longrightarrow> chunks n xs = [] \<longleftrightarrow> xs = []"
  by (subst chunks.simps) simp

section \<open>Little-endian bytes\<close>

text \<open>
  \<open>nat_to_le n v\<close> is the \<open>n\<close>-byte little-endian encoding of \<open>v\<close>, reduced modulo
  \<open>2 ^ (8 * n)\<close> as a cast to the \<open>n\<close>-byte integer type reduces it.
\<close>

fun nat_to_le :: "nat \<Rightarrow> nat \<Rightarrow> u8 list" where
  "nat_to_le 0 v = []"
| "nat_to_le (Suc n) v = of_nat v # nat_to_le n (v div 256)"

fun le_to_nat :: "u8 list \<Rightarrow> nat" where
  "le_to_nat [] = 0"
| "le_to_nat (b # bs) = unat b + 256 * le_to_nat bs"

lemma unat_u8_less [simp]: "unat (b :: u8) < 256"
  using unsigned_less [of b, where ?'a = nat] by simp

lemma length_nat_to_le [simp]: "length (nat_to_le n v) = n"
  by (induction n v rule: nat_to_le.induct) auto

lemma le_to_nat_less: "le_to_nat bs < 256 ^ length bs"
proof (induction bs)
  case (Cons b bs)
  have "unat b + 256 * le_to_nat bs < 256 * (le_to_nat bs + 1)"
    using unat_u8_less [of b] by simp
  also have "\<dots> \<le> 256 * 256 ^ length bs"
    using Cons.IH by (intro mult_le_mono) auto
  finally show ?case by simp
qed simp

lemma le_to_nat_nat_to_le: "le_to_nat (nat_to_le n v) = v mod 256 ^ n"
proof (induction n v rule: nat_to_le.induct)
  case (2 n v)
  have "v mod 256 ^ Suc n = v mod 256 + 256 * (v div 256 mod 256 ^ n)"
    by (simp add: mod_mult2_eq)
  then show ?case using 2 by (simp add: unat_of_nat)
qed simp

lemma le_to_nat_nat_to_le_small: "v < 256 ^ n \<Longrightarrow> le_to_nat (nat_to_le n v) = v"
  by (simp add: le_to_nat_nat_to_le)

lemma nat_to_le_le_to_nat: "length bs = n \<Longrightarrow> nat_to_le n (le_to_nat bs) = bs"
proof (induction bs arbitrary: n)
  case (Cons b bs)
  have "(unat b + 256 * le_to_nat bs) div 256 = le_to_nat bs"
    using unat_u8_less [of b] by simp
  moreover have "(of_nat (unat b + 256 * le_to_nat bs) :: u8) = b"
  proof -
    have z: "(of_nat 256 :: u8) = 0" by simp
    show ?thesis by (simp only: of_nat_add of_nat_mult z) simp
  qed
  ultimately show ?case using Cons by auto
qed simp

lemma le_to_nat_append: "le_to_nat (xs @ ys) = le_to_nat xs + 256 ^ length xs * le_to_nat ys"
  by (induction xs) (auto simp: algebra_simps)

lemma le_to_nat_inj: "length xs = length ys \<Longrightarrow> le_to_nat xs = le_to_nat ys \<Longrightarrow> xs = ys"
  by (metis nat_to_le_le_to_nat)

section \<open>Stateful computations that may fail\<close>

text \<open>
  A method on \<open>&mut self\<close> returning a \<open>Result\<close>: the state reached so far survives an early
  return with an error. \<open>ebind\<close> sequences two steps, \<open>lift_result\<close> runs a stateless one.
  \<open>triple P m Q E\<close> states what holds after a normal and after an early return.
\<close>

type_synonym ('s, 'e, 'a) effect = "'s \<Rightarrow> ('e + 'a) \<times> 's"

definition ret :: "'a \<Rightarrow> ('s, 'e, 'a) effect" where
  "ret x s = (Inr x, s)"

definition throw :: "'e \<Rightarrow> ('s, 'e, 'a) effect" where
  "throw e s = (Inl e, s)"

definition ebind :: "('s, 'e, 'a) effect \<Rightarrow> ('a \<Rightarrow> ('s, 'e, 'b) effect) \<Rightarrow> ('s, 'e, 'b) effect" where
  "ebind m f s = (case m s of (Inl e, s') \<Rightarrow> (Inl e, s') | (Inr x, s') \<Rightarrow> f x s')"

definition get_state :: "('s, 'e, 's) effect" where
  "get_state s = (Inr s, s)"

definition modify :: "('s \<Rightarrow> 's) \<Rightarrow> ('s, 'e, unit) effect" where
  "modify f s = (Inr (), f s)"

definition lift_result :: "(internal_error \<Rightarrow> 'e) \<Rightarrow> 'a internal_result \<Rightarrow> ('s, 'e, 'a) effect" where
  "lift_result of_internal r s = (case r of Inl e \<Rightarrow> (Inl (of_internal e), s) | Inr x \<Rightarrow> (Inr x, s))"

lemma effect_simps [simp, result_simps]:
  "ret x s = (Inr x, s)" "get_state s = (Inr s, s)" "modify f s = (Inr (), f s)"
  by (simp_all add: ret_def get_state_def modify_def)

lemma throw_simp [simp, result_simps]: "throw e s = (Inl e, s)"
  by (simp add: throw_def)

lemma lift_result_simps [simp, result_simps]:
  "lift_result oi (Inr x) s = (Inr x, s)" "lift_result oi (Inl e) s = (Inl (oi e), s)"
  by (simp_all add: lift_result_def)

lemma ebind_simps [simp, result_simps]:
  "m s = (Inl e, s') \<Longrightarrow> ebind m f s = (Inl e, s')"
  "m s = (Inr x, s') \<Longrightarrow> ebind m f s = f x s'"
  by (simp_all add: ebind_def)

lemma ebind_cong [fundef_cong]:
  assumes "s = t" "m t = m' t" "\<And>x t'. m' t = (Inr x, t') \<Longrightarrow> f x t' = f' x t'"
  shows "ebind m f s = ebind m' f' t"
  using assms by (auto simp: ebind_def split: prod.splits sum.splits)

definition triple ::
  "('s \<Rightarrow> bool) \<Rightarrow> ('s, 'e, 'a) effect \<Rightarrow> ('a \<Rightarrow> 's \<Rightarrow> bool) \<Rightarrow> ('e \<Rightarrow> 's \<Rightarrow> bool) \<Rightarrow> bool" where
  "triple P m Q E \<longleftrightarrow>
     (\<forall>s. P s \<longrightarrow> (case m s of (Inl e, s') \<Rightarrow> E e s' | (Inr x, s') \<Rightarrow> Q x s'))"

named_theorems triple_intros \<open>rules of the triple calculus\<close>

lemma tripleI:
  "(\<And>s x s'. P s \<Longrightarrow> m s = (Inr x, s') \<Longrightarrow> Q x s') \<Longrightarrow>
   (\<And>s e s'. P s \<Longrightarrow> m s = (Inl e, s') \<Longrightarrow> E e s') \<Longrightarrow> triple P m Q E"
  unfolding triple_def by (auto split: prod.splits sum.splits)

lemma tripleD: "triple P m Q E \<Longrightarrow> P s \<Longrightarrow> m s = (Inr x, s') \<Longrightarrow> Q x s'"
  unfolding triple_def by fastforce

lemma tripleD_error: "triple P m Q E \<Longrightarrow> P s \<Longrightarrow> m s = (Inl e, s') \<Longrightarrow> E e s'"
  unfolding triple_def by fastforce

lemma triple_ret [triple_intros]: "(\<And>s. P s \<Longrightarrow> Q x s) \<Longrightarrow> triple P (ret x) Q E"
  by (simp add: triple_def)

lemma triple_throw [triple_intros]: "(\<And>s. P s \<Longrightarrow> E e s) \<Longrightarrow> triple P (throw e) Q E"
  by (simp add: triple_def)

lemma triple_ebind [triple_intros]:
  assumes "triple P m R E" and "\<And>x. triple (R x) (f x) Q E"
  shows "triple P (ebind m f) Q E"
  using assms unfolding triple_def ebind_def by (fastforce split: prod.splits sum.splits)

lemma triple_if [triple_intros]:
  "(b \<Longrightarrow> triple P m Q E) \<Longrightarrow> (\<not> b \<Longrightarrow> triple P m' Q E) \<Longrightarrow> triple P (if b then m else m') Q E"
  by simp

lemma triple_weaken:
  "triple P m Q E \<Longrightarrow> (\<And>s. P' s \<Longrightarrow> P s) \<Longrightarrow> (\<And>x s. Q x s \<Longrightarrow> Q' x s) \<Longrightarrow> (\<And>e s. E e s \<Longrightarrow> E' e s)
     \<Longrightarrow> triple P' m Q' E'"
  unfolding triple_def by (fastforce split: prod.splits sum.splits)

end
