(* ===== verification/Base64.thy ===== *)
theory Base64
  imports Prelude "HOL-Library.Monad_Syntax"
begin

text \<open>
  \<open>hegel-c/src/native/base64.rs\<close>: the padded standard-alphabet base64 codec that failure
  blobs are printed with. A \<open>&str\<close> is the list of its bytes (\<open>as_bytes\<close>), which are all
  ASCII in the encoder's output.
\<close>

section \<open>The alphabet\<close>

definition B64_ALPHABET :: "u8 list" where
  "B64_ALPHABET = [
     65, 66, 67, 68, 69, 70, 71, 72, 73, 74, 75, 76, 77, 78, 79, 80, 81, 82, 83, 84, 85, 86,
     87, 88, 89, 90,
     97, 98, 99, 100, 101, 102, 103, 104, 105, 106, 107, 108, 109, 110, 111, 112, 113, 114,
     115, 116, 117, 118, 119, 120, 121, 122,
     48, 49, 50, 51, 52, 53, 54, 55, 56, 57, 43, 47]"

definition base64_value :: "u8 \<Rightarrow> u8 option" where
  "base64_value c =
     (if 65 \<le> c \<and> c \<le> 90 then Some (c - 65)
      else if 97 \<le> c \<and> c \<le> 122 then Some (c - 97 + 26)
      else if 48 \<le> c \<and> c \<le> 57 then Some (c - 48 + 52)
      else if c = 43 then Some 62
      else if c = 47 then Some 63
      else None)"

section \<open>Encoding\<close>

text \<open>One chunk of at most three bytes; the missing bytes of a short chunk read as zero.\<close>

definition base64_encode_chunk :: "u8 list \<Rightarrow> u8 list" where
  "base64_encode_chunk chunk =
     (let b0 = ucast (chunk ! 0) :: u32;
          b1 = (if 1 < length chunk then ucast (chunk ! 1) else 0) :: u32;
          b2 = (if 2 < length chunk then ucast (chunk ! 2) else 0) :: u32;
          n = (push_bit 16 b0 OR push_bit 8 b1) OR b2
      in [B64_ALPHABET ! unat (drop_bit 18 n AND 0x3f),
          B64_ALPHABET ! unat (drop_bit 12 n AND 0x3f),
          (if 1 < length chunk then B64_ALPHABET ! unat (drop_bit 6 n AND 0x3f) else 61),
          (if 2 < length chunk then B64_ALPHABET ! unat (n AND 0x3f) else 61)])"

definition base64_encode :: "u8 list \<Rightarrow> u8 list" where
  "base64_encode bytes = concat (map base64_encode_chunk (chunks 3 bytes))"

section \<open>Decoding\<close>

text \<open>
  One chunk of four bytes; \<open>islast\<close> says whether it is the final one. The checks come in
  the order of the source, each early \<open>return None\<close> a branch.
\<close>

definition base64_decode_chunk :: "bool \<Rightarrow> u8 list \<Rightarrow> u8 list option" where
  "base64_decode_chunk islast chunk =
     do {
       c0 \<leftarrow> base64_value (chunk ! 0);
       c1 \<leftarrow> base64_value (chunk ! 1);
       let pad2 = (chunk ! 2 = 61);
       let pad3 = (chunk ! 3 = 61);
       if (pad2 \<or> pad3) \<and> \<not> islast then None
       else if pad2 \<and> \<not> pad3 then None
       else do {
         c2 \<leftarrow> (if pad2 then Some 0 else base64_value (chunk ! 2));
         c3 \<leftarrow> (if pad3 then Some 0 else base64_value (chunk ! 3));
         let n = ((push_bit 18 (ucast c0) OR push_bit 12 (ucast c1))
                  OR push_bit 6 (ucast c2)) OR (ucast c3 :: u32);
         Some ([ucast (drop_bit 16 n)]
               @ (if pad2 then [] else [ucast (drop_bit 8 n)])
               @ (if pad3 then [] else [ucast n]))
       }
     }"

fun base64_decode_chunks :: "u8 list list \<Rightarrow> u8 list option" where
  "base64_decode_chunks [] = Some []"
| "base64_decode_chunks (chunk # rest) =
     do {
       out \<leftarrow> base64_decode_chunk (rest = []) chunk;
       outs \<leftarrow> base64_decode_chunks rest;
       Some (out @ outs)
     }"

definition base64_decode :: "u8 list \<Rightarrow> u8 list option" where
  "base64_decode s =
     (if length s mod 4 \<noteq> 0 then None else base64_decode_chunks (chunks 4 s))"

section \<open>The decoder inverts the encoder\<close>

lemma base64_value_alphabet_all:
  "list_all (\<lambda>k. base64_value (B64_ALPHABET ! k) = Some (of_nat k) \<and> B64_ALPHABET ! k \<noteq> 61) [0..<64]"
  by code_simp

lemma base64_value_alphabet [simp]:
  assumes "k < 64"
  shows "base64_value (B64_ALPHABET ! k) = Some (of_nat k)" and "B64_ALPHABET ! k \<noteq> 61"
  using base64_value_alphabet_all assms by (auto simp: list_all_iff)

lemma sextet_less [simp]: "unat (x AND 0x3f :: u32) < 64"
proof -
  have "unat (x AND 0x3f) \<le> unat (0x3f :: u32)"
    by (rule word_and_le1 [THEN word_le_nat_alt [THEN iffD1]])
  then show ?thesis by simp
qed

lemma sextet_value:
  "base64_value (B64_ALPHABET ! unat (x AND 0x3f :: u32)) = Some (ucast (x AND 0x3f))"
  by (simp add: unsigned_of_nat)

lemma and_0x3f: "x AND 0x3f = take_bit 6 (x :: u32)"
  by (simp add: take_bit_eq_mask mask_eq_exp_minus_1)

lemma quad_bytes:
  fixes b0 b1 b2 :: u8
  defines "n \<equiv> (push_bit 16 (ucast b0) OR push_bit 8 (ucast b1)) OR (ucast b2 :: u32)"
  defines "m \<equiv> ((push_bit 18 (ucast (ucast (drop_bit 18 n AND 0x3f) :: u8))
             OR push_bit 12 (ucast (ucast (drop_bit 12 n AND 0x3f) :: u8)))
             OR push_bit 6 (ucast (ucast (drop_bit 6 n AND 0x3f) :: u8)))
             OR (ucast (ucast (n AND 0x3f) :: u8) :: u32)"
  shows "m = n"
    and "ucast (drop_bit 16 n) = b0" and "ucast (drop_bit 8 n) = b1" and "ucast n = b2"
proof -
  have top: "bit n i \<Longrightarrow> i < 24" for i
    unfolding n_def by (auto simp: bit_simps dest: bit_imp_le_length)
  show "m = n"
  proof (rule bit_word_eqI)
    fix i assume "i < LENGTH(32)"
    show "bit m i \<longleftrightarrow> bit n i"
    proof (cases "i < 24")
      case True
      then consider "i < 6" | "6 \<le> i \<and> i < 12" | "12 \<le> i \<and> i < 18" | "18 \<le> i \<and> i < 24"
        by linarith
      then show ?thesis
        unfolding m_def and_0x3f
        by cases (auto simp: bit_or_iff bit_push_bit_iff bit_unsigned_iff bit_take_bit_iff
            bit_drop_bit_eq)
    next
      case False
      then show ?thesis
        using top [of i] unfolding m_def and_0x3f
        by (auto simp: bit_or_iff bit_push_bit_iff bit_unsigned_iff bit_take_bit_iff
            bit_drop_bit_eq)
    qed
  qed
  show "ucast (drop_bit 16 n) = b0"
    unfolding n_def by (rule bit_word_eqI) (auto simp: bit_simps dest: bit_imp_le_length)
  show "ucast (drop_bit 8 n) = b1"
    unfolding n_def by (rule bit_word_eqI) (auto simp: bit_simps dest: bit_imp_le_length)
  show "ucast n = b2"
    unfolding n_def by (rule bit_word_eqI) (auto simp: bit_simps dest: bit_imp_le_length)
qed

lemma length_encode_chunk [simp]: "length (base64_encode_chunk c) = 4"
  by (simp add: base64_encode_chunk_def Let_def)

lemma low_sextets:
  "drop_bit 6 (push_bit 16 (ucast (b0 :: u8))) AND 0x3f = (0 :: u32)"
  "(push_bit 16 (ucast (b0 :: u8)) OR push_bit 8 (ucast (b1 :: u8))) AND 0x3f = (0 :: u32)"
  "push_bit 16 (ucast (b0 :: u8)) AND 0x3f = (0 :: u32)"
  unfolding and_0x3f
  by (rule bit_word_eqI; auto simp: bit_simps dest: bit_imp_le_length)+

lemma decode_encode_chunk:
  assumes "c \<noteq> []" and "length c \<le> 3" and "length c < 3 \<Longrightarrow> islast"
  shows "base64_decode_chunk islast (base64_encode_chunk c) = Some c"
proof -
  consider b0 where "c = [b0]" | b0 b1 where "c = [b0, b1]" | b0 b1 b2 where "c = [b0, b1, b2]"
    using assms(1,2) by (auto simp: neq_Nil_conv le_Suc_eq numeral_3_eq_3 length_Suc_conv)
  then show ?thesis
  proof cases
    case 1
    define n :: u32 where "n = push_bit 16 (ucast b0)"
    note z = low_sextets(1,3) [of b0, folded n_def]
    have n: "n = (push_bit 16 (ucast b0) OR push_bit 8 (ucast (0 :: u8))) OR ucast (0 :: u8)"
      by (simp add: n_def)
    note q = quad_bytes [of b0 0 0, folded n, unfolded z unsigned_0 push_bit_of_0 or.right_neutral]
    have "base64_encode_chunk c = [B64_ALPHABET ! unat (drop_bit 18 n AND 0x3f),
        B64_ALPHABET ! unat (drop_bit 12 n AND 0x3f), 61, 61]"
      by (simp add: 1 base64_encode_chunk_def Let_def n_def)
    then show ?thesis
      using assms(3) 1 q(2) by (simp add: base64_decode_chunk_def Let_def sextet_value q(1) del: drop_bit_or)
  next
    case 2
    define n :: u32 where "n = push_bit 16 (ucast b0) OR push_bit 8 (ucast b1)"
    note z = low_sextets(2) [of b0 b1, folded n_def]
    have n: "n = (push_bit 16 (ucast b0) OR push_bit 8 (ucast b1)) OR ucast (0 :: u8)"
      by (simp add: n_def)
    note q = quad_bytes [of b0 b1 0, folded n, unfolded z unsigned_0 push_bit_of_0 or.right_neutral]
    have "base64_encode_chunk c = [B64_ALPHABET ! unat (drop_bit 18 n AND 0x3f),
        B64_ALPHABET ! unat (drop_bit 12 n AND 0x3f), B64_ALPHABET ! unat (drop_bit 6 n AND 0x3f), 61]"
      by (simp add: 2 base64_encode_chunk_def Let_def n_def)
    then show ?thesis
      using assms(3) 2 q(2,3) by (simp add: base64_decode_chunk_def Let_def sextet_value q(1) del: drop_bit_or)
  next
    case 3
    define n :: u32 where "n = (push_bit 16 (ucast b0) OR push_bit 8 (ucast b1)) OR ucast b2"
    note q = quad_bytes [of b0 b1 b2, folded n_def]
    have "base64_encode_chunk c = [B64_ALPHABET ! unat (drop_bit 18 n AND 0x3f),
        B64_ALPHABET ! unat (drop_bit 12 n AND 0x3f), B64_ALPHABET ! unat (drop_bit 6 n AND 0x3f),
        B64_ALPHABET ! unat (n AND 0x3f)]"
      by (simp add: 3 base64_encode_chunk_def Let_def n_def)
    then show ?thesis
      using 3 q(2,3,4) by (simp add: base64_decode_chunk_def Let_def sextet_value q(1) del: drop_bit_or)
  qed
qed

lemma length_base64_encode_mod: "length (base64_encode xs) mod 4 = 0"
proof (induction "length xs" arbitrary: xs rule: less_induct)
  case less
  show ?case
  proof (cases "xs = []")
    case False
    then have "length (base64_encode (drop 3 xs)) mod 4 = 0" using less by simp
    with False show ?thesis by (simp add: base64_encode_def chunks_Cons)
  qed (simp add: base64_encode_def)
qed

lemma chunks_base64_encode: "chunks 4 (base64_encode xs) = map base64_encode_chunk (chunks 3 xs)"
proof (induction "length xs" arbitrary: xs rule: less_induct)
  case less
  show ?case
  proof (cases "xs = []")
    case False
    then have "chunks 4 (base64_encode (drop 3 xs)) = map base64_encode_chunk (chunks 3 (drop 3 xs))"
      using less by simp
    with False show ?thesis by (simp add: base64_encode_def chunks_Cons chunks_append)
  qed (simp add: base64_encode_def)
qed

lemma decode_encode_chunks:
  "base64_decode_chunks (map base64_encode_chunk (chunks 3 xs)) = Some xs"
proof (induction "length xs" arbitrary: xs rule: less_induct)
  case less
  show ?case
  proof (cases "xs = []")
    case False
    then have IH: "base64_decode_chunks (map base64_encode_chunk (chunks 3 (drop 3 xs))) = Some (drop 3 xs)"
      using less by simp
    have "base64_decode_chunk (map base64_encode_chunk (chunks 3 (drop 3 xs)) = [])
            (base64_encode_chunk (take 3 xs)) = Some (take 3 xs)"
      using False by (intro decode_encode_chunk) auto
    with False IH show ?thesis by (simp add: chunks_Cons)
  qed simp
qed

lemma base64_inverse: "base64_decode (base64_encode bytes) = Some bytes"
  by (simp add: base64_decode_def length_base64_encode_mod chunks_base64_encode decode_encode_chunks)

text \<open>Decoding an encoded byte string gives the bytes back, for every byte string: the
  blob printed for a failure can be pasted back.\<close>
theorem base64_roundtrip: "base64_decode (base64_encode bytes) = Some bytes"
  by (rule base64_inverse)

end
