(* ===== verification/FloatIndex.thy ===== *)
theory FloatIndex
  imports Prelude
begin

text \<open>
  \<open>hegel-c/src/native/core/float_index.rs\<close> and \<open>floats.rs\<close>: the total order the shrinker
  puts on non-negative floats. Integral floats come first, in numeric order; every other
  float is ranked by an encoded exponent (values near 1 first) and a bit-reversed
  fraction (small denominators first). A float is its bit pattern throughout.
\<close>

section \<open>IEEE-754 double precision, on bit patterns\<close>

text \<open>
  The operations of Rust's \<open>f64\<close> the engine uses. Comparison goes through \<open>f64_key\<close>, the
  signed magnitude of the pattern, which maps both zeros to 0; NaN compares to nothing.
\<close>

definition f64_exponent :: "f64 \<Rightarrow> u64" where
  "f64_exponent v = drop_bit 52 v AND 0x7FF"

definition f64_mantissa :: "f64 \<Rightarrow> u64" where
  "f64_mantissa v = v AND (push_bit 52 1 - 1)"

definition is_sign_negative :: "f64 \<Rightarrow> bool" where
  "is_sign_negative v \<longleftrightarrow> bit v 63"

definition is_nan :: "f64 \<Rightarrow> bool" where
  "is_nan v \<longleftrightarrow> f64_exponent v = 0x7FF \<and> f64_mantissa v \<noteq> 0"

definition is_infinite :: "f64 \<Rightarrow> bool" where
  "is_infinite v \<longleftrightarrow> f64_exponent v = 0x7FF \<and> f64_mantissa v = 0"

definition is_finite :: "f64 \<Rightarrow> bool" where
  "is_finite v \<longleftrightarrow> f64_exponent v \<noteq> 0x7FF"

definition f64_magnitude :: "f64 \<Rightarrow> u64" where
  "f64_magnitude v = take_bit 63 v"

definition f64_key :: "f64 \<Rightarrow> int" where
  "f64_key v = (if is_sign_negative v then - uint (f64_magnitude v) else uint (f64_magnitude v))"

definition f64_le :: "f64 \<Rightarrow> f64 \<Rightarrow> bool" where
  "f64_le x y \<longleftrightarrow> \<not> is_nan x \<and> \<not> is_nan y \<and> f64_key x \<le> f64_key y"

definition f64_lt :: "f64 \<Rightarrow> f64 \<Rightarrow> bool" where
  "f64_lt x y \<longleftrightarrow> \<not> is_nan x \<and> \<not> is_nan y \<and> f64_key x < f64_key y"

definition f64_eq :: "f64 \<Rightarrow> f64 \<Rightarrow> bool" where
  "f64_eq x y \<longleftrightarrow> \<not> is_nan x \<and> \<not> is_nan y \<and> f64_key x = f64_key y"

definition f64_neg :: "f64 \<Rightarrow> f64" where
  "f64_neg v = v XOR push_bit 63 1"

definition f64_abs :: "f64 \<Rightarrow> f64" where
  "f64_abs v = take_bit 63 v"

definition f64_zero :: f64 where "f64_zero = 0"
definition f64_neg_zero :: f64 where "f64_neg_zero = push_bit 63 1"
definition f64_one :: f64 where "f64_one = 0x3FF0000000000000"
definition f64_infinity :: f64 where "f64_infinity = 0x7FF0000000000000"
definition f64_neg_infinity :: f64 where "f64_neg_infinity = 0xFFF0000000000000"
definition f64_NAN :: f64 where "f64_NAN = 0x7FF8000000000000"
definition f64_MAX :: f64 where "f64_MAX = 0x7FEFFFFFFFFFFFFF"

text \<open>
  \<open>v as u64\<close>: truncation toward zero, saturating, NaN to 0. The significand of a normal
  float has the hidden bit; a subnormal has exponent 1 and no hidden bit.
\<close>

definition f64_significand :: "f64 \<Rightarrow> nat" where
  "f64_significand v =
     (if f64_exponent v = 0 then unat (f64_mantissa v) else unat (f64_mantissa v) + 2 ^ 52)"

definition f64_scale :: "f64 \<Rightarrow> nat" where
  "f64_scale v = (if f64_exponent v = 0 then 1 else unat (f64_exponent v))"

definition f64_to_u64 :: "f64 \<Rightarrow> u64" where
  "f64_to_u64 v =
     (if is_nan v \<or> is_sign_negative v then 0
      else let e = f64_scale v; m = f64_significand v;
               n = (if 1075 \<le> e then m * 2 ^ (e - 1075) else m div 2 ^ (1075 - e))
           in of_nat (min n (2 ^ 64 - 1)))"

text \<open>\<open>i as f64\<close>: round to nearest, ties to even.\<close>

fun bit_len :: "nat \<Rightarrow> nat" where
  "bit_len n = (if n = 0 then 0 else Suc (bit_len (n div 2)))"

declare bit_len.simps [simp del]

definition f64_bits_of_nat :: "nat \<Rightarrow> nat" where
  "f64_bits_of_nat n =
     (let k = bit_len n - 1
      in if k \<le> 52 then (k + 1023) * 2 ^ 52 + (n * 2 ^ (52 - k) - 2 ^ 52)
         else let shift = k - 52; q = n div 2 ^ shift; r = n mod 2 ^ shift;
                  half = 2 ^ (shift - 1);
                  q' = (if half < r \<or> (r = half \<and> odd q) then q + 1 else q)
              in (k + 1023) * 2 ^ 52 + (q' - 2 ^ 52))"

definition u64_to_f64 :: "u64 \<Rightarrow> f64" where
  "u64_to_f64 i = (if i = 0 then 0 else of_nat (f64_bits_of_nat (unat i)))"

section \<open>Exponents\<close>

definition encode_exponent :: "u64 \<Rightarrow> u64" where
  "encode_exponent biased_exp =
     (if biased_exp = 2047 then 2047
      else if 1023 \<le> biased_exp then biased_exp - 1023
      else 2046 - biased_exp)"

definition decode_exponent :: "u64 \<Rightarrow> u64" where
  "decode_exponent enc =
     (if enc = 2047 then 2047
      else if enc \<le> 1023 then enc + 1023
      else 2046 - enc)"

section \<open>Bit reversal and the mantissa\<close>

definition reverse_bits :: "u64 \<Rightarrow> u64" where
  "reverse_bits v = horner_sum of_bool 2 (map (\<lambda>i. bit v (63 - i)) [0..<64])"

definition reverse_bits_n :: "u64 \<Rightarrow> nat \<Rightarrow> u64" where
  "reverse_bits_n v n = (if n = 0 then 0 else drop_bit (64 - n) (reverse_bits v))"

definition update_mantissa :: "int \<Rightarrow> u64 \<Rightarrow> u64" where
  "update_mantissa unbiased_exp mantissa =
     (if unbiased_exp \<le> 0 then reverse_bits_n mantissa 52
      else if unbiased_exp \<le> 51 then
        (let n_frac = nat (52 - unbiased_exp);
             frac_mask = push_bit n_frac 1 - 1;
             frac = mantissa AND frac_mask
         in (mantissa XOR frac) OR reverse_bits_n frac n_frac)
      else mantissa)"

section \<open>Floats to indices and back\<close>

definition is_simple_float :: "f64 \<Rightarrow> bool" where
  "is_simple_float v =
     (if is_sign_negative v \<or> \<not> is_finite v then False
      else let i = f64_to_u64 v in f64_eq (u64_to_f64 i) v \<and> i < push_bit 56 1)"

definition float_to_index :: "f64 \<Rightarrow> u64" where
  "float_to_index v =
     (if is_simple_float v then f64_to_u64 v
      else
        let biased_exp = drop_bit 52 v AND 0x7FF;
            mantissa = v AND (push_bit 52 1 - 1);
            unbiased_exp = uint biased_exp - 1023;
            mantissa_enc = update_mantissa unbiased_exp mantissa;
            exp_enc = encode_exponent biased_exp
        in (push_bit 63 1 OR push_bit 52 exp_enc) OR mantissa_enc)"

definition index_to_float :: "u64 \<Rightarrow> f64" where
  "index_to_float i =
     (if drop_bit 63 i = 0 then u64_to_f64 (i AND (push_bit 56 1 - 1))
      else
        let exp_enc = drop_bit 52 i AND 0x7FF;
            biased_exp = decode_exponent exp_enc;
            mantissa_enc = i AND (push_bit 52 1 - 1);
            unbiased_exp = uint biased_exp - 1023;
            mantissa = update_mantissa unbiased_exp mantissa_enc
        in push_bit 52 biased_exp OR mantissa)"

text \<open>
  The recursion of \<open>min_reversed_in_range\<close>: an even candidate always beats every odd one,
  since the least significant bit is the reversed value's most significant bit.
\<close>

fun min_reversed_in_range :: "nat \<Rightarrow> nat \<Rightarrow> nat \<Rightarrow> nat internal_result" where
  "min_reversed_in_range lo hi 0 =
     rbind (hegel_internal_assert ((lo, hi) = (0, 0)) ''(lo, hi) == (0, 0)'') (\<lambda>_. Inr 0)"
| "min_reversed_in_range lo hi (Suc n) =
     (let k_lo = (lo + 1) div 2; k_hi = hi div 2
      in if k_lo \<le> k_hi
         then rbind (min_reversed_in_range k_lo k_hi n) (\<lambda>x. Inr (x * 2))
         else rbind (hegel_internal_assert (lo = hi) ''lo == hi'') (\<lambda>_. Inr lo))"

text \<open>
  \<open>simplest_in_range\<close>. The rounding function \<open>libm::ceil\<close> is outside the repository and is a
  parameter. A shift by a \<open>u32\<close> count below 64 is \<open>push_bit\<close> / \<open>drop_bit\<close>; the bit patterns are
  taken apart as numbers, since none of these operations can overflow.
\<close>

definition MANTISSA_MASK :: u64 where
  "MANTISSA_MASK = push_bit 52 1 - 1"

definition simplest_in_range :: "(f64 \<Rightarrow> f64) \<Rightarrow> f64 \<Rightarrow> f64 \<Rightarrow> f64 internal_result" where
  "simplest_in_range libm_ceil lo hi =
     rbind (hegel_internal_assert (f64_lt f64_zero lo \<and> f64_le lo hi \<and> is_finite hi)
              ''lo > 0.0 && lo <= hi && hi.is_finite()'') (\<lambda>_.
     let c = libm_ceil lo
     in if f64_le c hi \<and> f64_lt c (u64_to_f64 (push_bit 56 1)) then Inr c
        else
          let lo_bits = lo; hi_bits = hi;
              e_lo = drop_bit 52 lo_bits; e_hi = drop_bit 52 hi_bits;
              m_lo = lo_bits AND MANTISSA_MASK; m_hi = hi_bits AND MANTISSA_MASK
          in rbind (if 1023 \<le> e_lo
                    then Inr (e_lo, m_lo, if e_hi = e_lo then m_hi else MANTISSA_MASK)
                    else rbind (hegel_internal_assert (e_hi < 1023) ''e_hi < 1023'') (\<lambda>_.
                           Inr (e_hi, if e_lo = e_hi then m_lo else 0, m_hi)))
               (\<lambda>(e, m_min, m_max).
             let unbiased = uint e - 1023
             in rbind (if 52 \<le> unbiased then Inr m_min
                       else
                         let n_frac = (if unbiased \<le> 0 then 52 else nat (52 - unbiased));
                             low_mask = push_bit n_frac 1 - 1;
                             h = drop_bit n_frac m_min
                         in rbind (hegel_internal_assert (drop_bit n_frac m_max = h) ''m_max >> n_frac == h'')
                              (\<lambda>_.
                              let l_lo = m_min AND low_mask; l_hi = m_max AND low_mask
                              in rbind (min_reversed_in_range (unat l_lo) (unat l_hi) n_frac)
                                   (\<lambda>l. Inr (push_bit n_frac h OR of_nat l))))
                  (\<lambda>m_best. Inr (push_bit 52 e OR m_best))))"

section \<open>Signed zeros and neighbours\<close>

definition sign_aware_lte :: "f64 \<Rightarrow> f64 \<Rightarrow> bool" where
  "sign_aware_lte x y =
     (if f64_eq x f64_zero \<and> f64_eq y f64_zero
      then (let sx = (if is_sign_negative x then -1 else 1 :: int);
                sy = (if is_sign_negative y then -1 else 1)
            in sx \<le> sy)
      else f64_le x y)"

text \<open>
  \<open>f64::next_up\<close> of the standard library: NaN and \<open>+inf\<close> are fixed, both zeros go to the
  least subnormal, and otherwise the pattern moves one step away from or towards zero.
\<close>

definition std_next_up :: "f64 \<Rightarrow> f64" where
  "std_next_up v =
     (if is_nan v \<or> v = f64_infinity then v
      else if f64_magnitude v = 0 then 1
      else if is_sign_negative v then v - 1
      else v + 1)"

definition next_up :: "f64 \<Rightarrow> f64" where
  "next_up v =
     (if f64_eq v f64_zero \<and> is_sign_negative v then f64_zero else std_next_up v)"

definition next_down :: "f64 \<Rightarrow> f64" where
  "next_down v = f64_neg (next_up (f64_neg v))"

section \<open>Facts about bits\<close>

lemma bit_reverse_bits: "bit (reverse_bits v) i \<longleftrightarrow> i < 64 \<and> bit v (63 - i)"
  by (cases "i < 64") (simp_all add: reverse_bits_def bit_horner_sum_bit_word_iff)

lemma bit_reverse_bits_n:
  assumes "n \<le> 64"
  shows "bit (reverse_bits_n v n) i \<longleftrightarrow> i < n \<and> bit v (n - 1 - i)"
proof (cases "n = 0")
  case False
  then have "63 - (64 - n + i) = n - 1 - i" and "64 - n + i < 64 \<longleftrightarrow> i < n"
    using assms by linarith+
  then show ?thesis
    using False by (simp add: reverse_bits_n_def bit_drop_bit_eq bit_reverse_bits)
qed (simp add: reverse_bits_n_def)

lemma and_mask: "v AND (push_bit n 1 - 1) = take_bit n (v :: u64)"
  by (simp add: take_bit_eq_mask mask_eq_exp_minus_1 push_bit_eq_mult)

lemma and_exp_mask: "v AND (2 ^ n - 1) = take_bit n (v :: u64)"
  by (simp add: take_bit_eq_mask mask_eq_exp_minus_1)

lemma and_7FF: "v AND 0x7FF = take_bit 11 (v :: u64)"
  by (simp add: take_bit_eq_mask mask_eq_exp_minus_1)

lemma bit_update_mantissa:
  assumes "\<And>j. bit m j \<Longrightarrow> j < 52"
  shows "bit (update_mantissa e m) i \<longleftrightarrow>
     (if e \<le> 0 then i < 52 \<and> bit m (51 - i)
      else if e \<le> 51 then
        (if i < nat (52 - e) then bit m (nat (52 - e) - 1 - i) else bit m i)
      else bit m i)"
proof -
  have n: "nat (52 - e) \<le> 64" if "0 < e" using that by simp
  show ?thesis
    by (auto simp: update_mantissa_def Let_def and_mask and_exp_mask bit_reverse_bits_n n bit_or_iff bit_xor_iff
        bit_take_bit_iff)
qed

lemma update_mantissa_less:
  assumes "\<And>j. bit m j \<Longrightarrow> j < 52"
  shows "bit (update_mantissa e m) i \<Longrightarrow> i < 52"
  using assms by (auto simp: bit_update_mantissa split: if_splits)

lemma update_mantissa_involution:
  assumes "\<And>j. bit m j \<Longrightarrow> j < 52"
  shows "update_mantissa e (update_mantissa e m) = m"
proof (rule bit_word_eqI)
  fix i assume "i < LENGTH(64)"
  have *: "\<And>j. bit (update_mantissa e m) j \<Longrightarrow> j < 52"
    using assms by (rule update_mantissa_less)
  show "bit (update_mantissa e (update_mantissa e m)) i \<longleftrightarrow> bit m i"
    using assms [of i] by (auto simp: bit_update_mantissa [OF *] bit_update_mantissa [OF assms])
qed


lemma bit_len_bounds: "0 < n \<Longrightarrow> 2 ^ (bit_len n - 1) \<le> n \<and> n < 2 ^ bit_len n \<and> 0 < bit_len n"
proof (induction n rule: bit_len.induct)
  case (1 n)
  show ?case
  proof (cases "n div 2 = 0")
    case True
    with "1.prems" have "n = 1" by simp
    then show ?thesis by (simp add: bit_len.simps)
  next
    case False
    with 1 have IH: "2 ^ (bit_len (n div 2) - 1) \<le> n div 2" "n div 2 < 2 ^ bit_len (n div 2)"
      "0 < bit_len (n div 2)" by auto
    then have "2 * 2 ^ (bit_len (n div 2) - 1) \<le> n" and "n < 2 * 2 ^ bit_len (n div 2)" by auto
    moreover have "bit_len n = Suc (bit_len (n div 2))" using "1.prems" by (simp add: bit_len.simps)
    moreover have "(2::nat) ^ bit_len (n div 2) = 2 * 2 ^ (bit_len (n div 2) - 1)"
      using IH(3) by (cases "bit_len (n div 2)") auto
    ultimately show ?thesis by simp
  qed
qed

lemma bit_len_le: "n < 2 ^ k \<Longrightarrow> bit_len n \<le> k"
proof (cases "n = 0")
  case False
  assume "n < 2 ^ k"
  with False have "(2::nat) ^ (bit_len n - 1) < 2 ^ k"
    using bit_len_bounds [of n] by linarith
  then show ?thesis by simp
qed (simp add: bit_len.simps)

text \<open>The pattern of a converted integer, as a number: its sign bit is clear.\<close>

lemma f64_bits_of_nat_less:
  assumes "0 < n" and "n < 2 ^ 64"
  shows "f64_bits_of_nat n < 2 ^ 63"
proof -
  define k where "k = bit_len n - 1"
  have len: "bit_len n = Suc k" using bit_len_bounds [OF assms(1)] by (simp add: k_def)
  have k: "2 ^ k \<le> n" "n < 2 * 2 ^ k" "k \<le> 63"
    using bit_len_bounds [OF assms(1)] bit_len_le [OF assms(2)] by (simp_all add: len)
  show ?thesis
  proof (cases "k \<le> 52")
    case True
    have "n * 2 ^ (52 - k) < 2 * 2 ^ k * 2 ^ (52 - k)" using k by simp
    also have "\<dots> = 2 * 2 ^ 52" using True by (simp flip: power_add)
    finally have "n * 2 ^ (52 - k) < 2 * 2 ^ 52" .
    with True show ?thesis by (simp add: f64_bits_of_nat_def len)
  next
    case F: False
    define q where "q = n div 2 ^ (k - 52)"
    have "(2::nat) ^ (52 + (k - 52)) = 2 ^ 52 * 2 ^ (k - 52)" by (rule power_add)
    then have "(2::nat) ^ k = 2 ^ 52 * 2 ^ (k - 52)" using F by simp
    with k(2) have "n < 2 * 2 ^ 52 * 2 ^ (k - 52)" by simp
    then have q: "q < 2 * 2 ^ 52" unfolding q_def by (simp add: less_mult_imp_div_less)
    define q' where "q' = (if 2 ^ (k - 52 - 1) < n mod 2 ^ (k - 52)
        \<or> (n mod 2 ^ (k - 52) = 2 ^ (k - 52 - 1) \<and> odd q) then q + 1 else q)"
    have "q' \<le> q + 1" by (simp add: q'_def)
    with q k(3) have less: "(k + 1023) * 2 ^ 52 + (q' - 2 ^ 52) < 2 ^ 63" by simp
    have "f64_bits_of_nat n = (k + 1023) * 2 ^ 52 + (q' - 2 ^ 52)"
      unfolding f64_bits_of_nat_def Let_def k_def [symmetric] q_def [symmetric] q'_def [symmetric]
      using F by (simp only: if_False)
    then show ?thesis using less by (simp only:)
  qed
qed

lemma unat_u64_to_f64: "i \<noteq> 0 \<Longrightarrow> unat (u64_to_f64 i) = f64_bits_of_nat (unat i)"
  using f64_bits_of_nat_less [of "unat i"] unsigned_less [of i, where ?'a = nat]
  by (simp add: u64_to_f64_def unat_of_nat unat_gt_0)

lemma unat_u64_to_f64_less: "unat (u64_to_f64 i) < 2 ^ 63"
proof (cases "i = 0")
  case False
  then show ?thesis
    using f64_bits_of_nat_less [of "unat i"] unsigned_less [of i, where ?'a = nat]
    by (simp add: unat_u64_to_f64 unat_gt_0)
qed (simp add: u64_to_f64_def)

lemma not_negative_u64_to_f64: "\<not> is_sign_negative (u64_to_f64 i)"
proof
  assume "is_sign_negative (u64_to_f64 i)"
  then have "bit (unat (u64_to_f64 i)) 63" by (simp add: is_sign_negative_def bit_unsigned_iff)
  then have "odd (unat (u64_to_f64 i) div 2 ^ 63)" by (simp add: bit_iff_odd)
  with unat_u64_to_f64_less [of i] show False by simp
qed

lemma f64_eq_nonneg_imp_eq:
  assumes "f64_eq x y" and "\<not> is_sign_negative x" and "\<not> is_sign_negative y"
  shows "x = y"
proof -
  have "uint (take_bit 63 x) = uint (take_bit 63 y)"
    using assms by (simp add: f64_eq_def f64_key_def f64_magnitude_def)
  then have eq: "take_bit 63 x = take_bit 63 y" by (simp only: word_uint_eq_iff)
  show ?thesis
  proof (rule bit_word_eqI)
    fix i assume i: "i < LENGTH(64)"
    have "bit (take_bit 63 x) i = bit (take_bit 63 y) i" using eq by simp
    with i assms(2,3) show "bit x i = bit y i"
      by (cases "i = 63") (auto simp: bit_take_bit_iff is_sign_negative_def)
  qed
qed

lemma is_simple_float_cast:
  assumes "is_simple_float v"
  shows "u64_to_f64 (f64_to_u64 v) = v" and "f64_to_u64 v < push_bit 56 1"
  using assms not_negative_u64_to_f64 f64_eq_nonneg_imp_eq
  by (auto simp: is_simple_float_def Let_def split: if_splits)

lemma encode_decode_exponent:
  assumes "e \<le> 2047"
  shows "decode_exponent (encode_exponent e) = e" and "encode_exponent e \<le> 2047"
proof -
  have "decode_exponent (encode_exponent e) = e \<and> encode_exponent e \<le> 2047"
    using assms unfolding encode_exponent_def decode_exponent_def
    by (auto simp: word_le_nat_alt word_less_nat_alt word_unat_eq_iff unat_sub unat_word_ariths)
  then show "decode_exponent (encode_exponent e) = e" and "encode_exponent e \<le> 2047" by auto
qed

section \<open>Indexing is invertible\<close>

definition pack :: "u64 \<Rightarrow> u64 \<Rightarrow> u64 \<Rightarrow> u64" where
  "pack tag e m = (push_bit 63 tag OR push_bit 52 e) OR m"

lemma pack_fields:
  assumes "\<And>j. bit e j \<Longrightarrow> j < 11" and "\<And>j. bit m j \<Longrightarrow> j < 52"
  shows "drop_bit 63 (pack 1 e m) \<noteq> 0"
    and "drop_bit 52 (pack 1 e m) AND 0x7FF = e"
    and "pack 1 e m AND (push_bit 52 1 - 1) = m"
proof -
  have "bit (drop_bit 63 (pack 1 e m)) 0"
    by (simp add: pack_def bit_drop_bit_eq bit_or_iff bit_push_bit_iff)
  then show "drop_bit 63 (pack 1 e m) \<noteq> 0" by force
  show "drop_bit 52 (pack 1 e m) AND 0x7FF = e"
    unfolding and_7FF
    by (rule bit_word_eqI)
      (use assms in \<open>fastforce simp: pack_def bit_take_bit_iff bit_drop_bit_eq bit_or_iff bit_push_bit_iff bit_1_iff\<close>)
  show "pack 1 e m AND (push_bit 52 1 - 1) = m"
    unfolding and_mask
    by (rule bit_word_eqI)
      (use assms in \<open>auto simp: pack_def bit_take_bit_iff bit_or_iff bit_push_bit_iff bit_1_iff\<close>)
qed

lemma bit_le_2047: "e \<le> 2047 \<Longrightarrow> bit (e :: u64) j \<Longrightarrow> j < 11"
proof -
  assume "e \<le> 2047" and b: "bit e j"
  then have "unat e < 2 ^ 11" by (simp add: word_le_nat_alt)
  then have "take_bit 11 (unat e) = unat e" by (simp add: take_bit_nat_eq_self_iff)
  then have "take_bit 11 e = e" by (simp add: word_unat_eq_iff unsigned_take_bit_eq)
  with b show "j < 11" by (metis bit_take_bit_iff)
qed

lemma exponent_le_2047: "take_bit 11 v \<le> (2047 :: u64)"
  by (simp add: and_7FF [symmetric] word_and_le1)

lemma index_to_float_simple:
  assumes "i < push_bit 56 1"
  shows "index_to_float i = u64_to_f64 i"
proof -
  have i: "unat i < 2 ^ 56" using assms by (simp add: word_less_nat_alt)
  then have "take_bit 56 (unat i) = unat i" by (simp add: take_bit_nat_eq_self_iff)
  then have "take_bit 56 i = i" by (simp add: word_unat_eq_iff unsigned_take_bit_eq)
  moreover have "drop_bit 63 i = 0"
  proof (rule bit_word_eqI)
    fix j assume "j < LENGTH(64)"
    have "bit (take_bit 56 i) (63 + j) \<longleftrightarrow> bit i (63 + j)" by (simp only: \<open>take_bit 56 i = i\<close>)
    then have "\<not> bit i (63 + j)" by (simp add: bit_take_bit_iff)
    then show "bit (drop_bit 63 i) j \<longleftrightarrow> bit 0 j" by (simp add: bit_drop_bit_eq)
  qed
  ultimately show ?thesis unfolding index_to_float_def and_mask by (simp only: refl if_True)
qed

lemma index_to_float_pack:
  assumes "e \<le> 2047" and "\<And>j. bit m j \<Longrightarrow> j < 52"
  shows "index_to_float (pack 1 (encode_exponent e) (update_mantissa (uint e - 1023) m))
           = push_bit 52 e OR m"
proof -
  have e: "\<And>j. bit (encode_exponent e) j \<Longrightarrow> j < 11"
    using bit_le_2047 encode_decode_exponent(2) [OF assms(1)] by blast
  have m: "\<And>j. bit (update_mantissa (uint e - 1023) m) j \<Longrightarrow> j < 52"
    using assms(2) by (rule update_mantissa_less)
  note f = pack_fields [OF e m]
  show ?thesis
    unfolding index_to_float_def Let_def
    using f by (simp only: if_False encode_decode_exponent(1) [OF assms(1)]
        update_mantissa_involution [OF assms(2)])
qed

lemma float_to_index_pack:
  "\<not> is_simple_float v \<Longrightarrow> float_to_index v =
     pack 1 (encode_exponent (f64_exponent v))
       (update_mantissa (uint (f64_exponent v) - 1023) (f64_mantissa v))"
  by (simp add: float_to_index_def pack_def Let_def f64_exponent_def f64_mantissa_def)

lemma exponent_mantissa_split:
  "\<not> is_sign_negative v \<Longrightarrow> push_bit 52 (f64_exponent v) OR f64_mantissa v = v"
proof (rule bit_word_eqI)
  fix i assume i: "i < LENGTH(64)" and pos: "\<not> is_sign_negative v"
  consider "i < 52" | "52 \<le> i" "i < 63" | "i = 63" using i by fastforce
  then show "bit (push_bit 52 (f64_exponent v) OR f64_mantissa v) i \<longleftrightarrow> bit v i"
    unfolding f64_exponent_def f64_mantissa_def and_mask and_7FF
    by cases (use pos in \<open>auto simp: is_sign_negative_def bit_or_iff bit_push_bit_iff bit_take_bit_iff
      bit_drop_bit_eq\<close>)
qed

lemma float_index_inverse:
  assumes "\<not> is_sign_negative v"
  shows "index_to_float (float_to_index v) = v"
proof (cases "is_simple_float v")
  case True
  then show ?thesis
    using index_to_float_simple [OF is_simple_float_cast(2) [OF True]]
    by (simp only: float_to_index_def if_True is_simple_float_cast(1))
next
  case False
  have m: "\<And>j. bit (f64_mantissa v) j \<Longrightarrow> j < 52"
    unfolding f64_mantissa_def and_mask by (simp add: bit_take_bit_iff)
  have "f64_exponent v \<le> 2047" by (simp add: f64_exponent_def and_7FF exponent_le_2047)
  then have "index_to_float (float_to_index v) = push_bit 52 (f64_exponent v) OR f64_mantissa v"
    unfolding float_to_index_pack [OF False] using m by (rule index_to_float_pack)
  then show ?thesis by (simp only: exponent_mantissa_split [OF assms])
qed

text \<open>Mapping any non-negative float (infinity and positive NaN patterns included) to its
  index and back gives the same bit pattern, so the index order is a linear order on them
  and the shrinker loses nothing by working with indices.\<close>
theorem float_index_roundtrip:
  "\<not> is_sign_negative v \<Longrightarrow> index_to_float (float_to_index v) = v"
  by (rule float_index_inverse)

theorem float_index_roundtrip_witness:
  "\<not> is_sign_negative f64_one \<and> index_to_float (float_to_index f64_one) = f64_one"
proof -
  have h: "\<not> is_sign_negative f64_one" by (simp add: is_sign_negative_def f64_one_def)
  from h float_index_roundtrip [OF h] show ?thesis by blast
qed

section \<open>Integers rank by their value\<close>

lemma word_fields_of_nat:
  assumes "e < 2048" and "m < 2 ^ 52"
  shows "unat (f64_exponent (of_nat (e * 2 ^ 52 + m))) = e mod 2048"
    and "unat (f64_mantissa (of_nat (e * 2 ^ 52 + m))) = m"
proof -
  have less: "e * 2 ^ 52 + m < 2 ^ 64" using assms by simp
  then have u: "unat (of_nat (e * 2 ^ 52 + m) :: u64) = e * 2 ^ 52 + m"
    by (subst unat_of_nat) simp
  have t: "take_bit LENGTH(64) (e * 2 ^ 52 + m) = e * 2 ^ 52 + m"
    using less by (simp add: take_bit_nat_eq_self_iff)
  have "unat (f64_exponent (of_nat (e * 2 ^ 52 + m))) = take_bit 11 (drop_bit 52 (e * 2 ^ 52 + m))"
    unfolding f64_exponent_def and_7FF by (simp only: unsigned_take_bit_eq unsigned_drop_bit_eq u t)
  also have "drop_bit 52 (e * 2 ^ 52 + m) = e"
    using assms(2) by (simp add: drop_bit_eq_div)
  finally show "unat (f64_exponent (of_nat (e * 2 ^ 52 + m))) = e mod 2048"
    by (simp add: take_bit_eq_mod)
  have "unat (f64_mantissa (of_nat (e * 2 ^ 52 + m))) = take_bit 52 (e * 2 ^ 52 + m)"
    unfolding f64_mantissa_def and_mask by (simp only: unsigned_take_bit_eq u)
  then show "unat (f64_mantissa (of_nat (e * 2 ^ 52 + m))) = m"
    using assms(2) by (simp add: take_bit_eq_mod)
qed

lemma f64_of_small_nat:
  assumes "0 < n" and "n < 2 ^ 53"
  defines "k \<equiv> bit_len n - 1"
  shows "f64_bits_of_nat n = (k + 1023) * 2 ^ 52 + (n * 2 ^ (52 - k) - 2 ^ 52)"
    and "n * 2 ^ (52 - k) - 2 ^ 52 < 2 ^ 52" and "2 ^ 52 \<le> n * 2 ^ (52 - k)" and "k \<le> 52"
proof -
  have len: "bit_len n = Suc k" using bit_len_bounds [OF assms(1)] by (simp add: k_def)
  have k: "2 ^ k \<le> n" "n < 2 * 2 ^ k" "k \<le> 52"
    using bit_len_bounds [OF assms(1)] bit_len_le [OF assms(2)] by (simp_all add: len)
  have p: "(2::nat) ^ 52 = 2 ^ k * 2 ^ (52 - k)" using k(3) by (simp flip: power_add)
  have "2 ^ k * 2 ^ (52 - k) \<le> n * 2 ^ (52 - k)" using k(1) by (rule mult_le_mono1)
  then show lo: "2 ^ 52 \<le> n * 2 ^ (52 - k)" by (simp only: p)
  have "n * 2 ^ (52 - k) < 2 * 2 ^ k * 2 ^ (52 - k)" using k(2) by simp
  then have "n * 2 ^ (52 - k) < 2 * 2 ^ 52" by (simp only: p mult.assoc)
  then show "n * 2 ^ (52 - k) - 2 ^ 52 < 2 ^ 52" by simp
  show "f64_bits_of_nat n = (k + 1023) * 2 ^ 52 + (n * 2 ^ (52 - k) - 2 ^ 52)"
    using k(3) by (simp add: f64_bits_of_nat_def len)
  show "k \<le> 52" by (rule k(3))
qed

lemma f64_to_u64_of_small_nat:
  assumes "n < 2 ^ 53"
  shows "f64_to_u64 (u64_to_f64 (of_nat n)) = of_nat n" and "is_finite (u64_to_f64 (of_nat n))"
proof -
  have "f64_to_u64 (u64_to_f64 (of_nat n)) = of_nat n \<and> is_finite (u64_to_f64 (of_nat n))"
  proof (cases "n = 0")
    case True
    then show ?thesis
      by (simp add: u64_to_f64_def f64_to_u64_def is_nan_def is_sign_negative_def f64_exponent_def
          f64_scale_def f64_significand_def f64_mantissa_def is_finite_def)
  next
    case False
    define k where "k = bit_len n - 1"
    define m where "m = n * 2 ^ (52 - k) - 2 ^ 52"
    note small = f64_of_small_nat [of n, folded k_def, folded m_def]
    have un: "unat (of_nat n :: u64) = n" using assms by (simp add: unat_of_nat)
    with False have nz: "(of_nat n :: u64) \<noteq> 0" by (metis unat_0)
    have v: "u64_to_f64 (of_nat n) = of_nat ((k + 1023) * 2 ^ 52 + m)"
      using nz small(1) False assms by (simp only: u64_to_f64_def if_False un)
    have e: "unat (f64_exponent (u64_to_f64 (of_nat n))) = k + 1023"
      and mm: "unat (f64_mantissa (u64_to_f64 (of_nat n))) = m"
      using word_fields_of_nat [of "k + 1023" m] small False assms by (simp_all only: v) simp_all
    have ne: "f64_exponent (u64_to_f64 (of_nat n)) \<noteq> 0" "f64_exponent (u64_to_f64 (of_nat n)) \<noteq> 0x7FF"
      using e small(4) False assms by (auto simp: word_unat_eq_iff)
    have sc: "f64_scale (u64_to_f64 (of_nat n)) = k + 1023"
      and si: "f64_significand (u64_to_f64 (of_nat n)) = n * 2 ^ (52 - k)"
      using ne e mm small False assms by (simp_all add: f64_scale_def f64_significand_def m_def)
    have "(if 1075 \<le> k + 1023 then n * 2 ^ (52 - k) * 2 ^ (k + 1023 - 1075)
           else n * 2 ^ (52 - k) div 2 ^ (1075 - (k + 1023))) = n"
      using small(4) False assms by auto
    then have "f64_to_u64 (u64_to_f64 (of_nat n)) = of_nat (min n (2 ^ 64 - 1))"
      using ne not_negative_u64_to_f64 [of "of_nat n"]
      by (simp add: f64_to_u64_def Let_def sc si is_nan_def)
    then show ?thesis using ne assms by (simp add: is_finite_def min_def)
  qed
  then show "f64_to_u64 (u64_to_f64 (of_nat n)) = of_nat n" and "is_finite (u64_to_f64 (of_nat n))"
    by auto
qed

text \<open>every natural number below \<open>2 ^ 53\<close> is its own index: the float that holds it has
  rank equal to its value, so integers shrink in numeric order and precede all fractions.
\<close>
theorem float_to_index_integer:
  assumes "n < 2 ^ 53"
  shows "float_to_index (u64_to_f64 (of_nat n)) = of_nat n"
proof -
  have "is_simple_float (u64_to_f64 (of_nat n))"
    using f64_to_u64_of_small_nat [OF assms] not_negative_u64_to_f64 assms
    by (simp add: is_simple_float_def Let_def f64_eq_def is_nan_def is_finite_def word_less_nat_alt unat_of_nat)
  then show ?thesis
    using f64_to_u64_of_small_nat [OF assms] by (simp add: float_to_index_def)
qed

theorem float_to_index_integer_witness:
  "(7::nat) < 2 ^ 53 \<and> float_to_index (u64_to_f64 (of_nat 7)) = of_nat 7"
proof -
  have h: "(7::nat) < 2 ^ 53" by simp
  from h float_to_index_integer [OF h] show ?thesis by blast
qed

section \<open>The least reversed value of a range\<close>

text \<open>\<open>rev_nat n v\<close> is the value \<open>reverse_bits_n\<close> computes, on natural numbers.\<close>

fun rev_nat :: "nat \<Rightarrow> nat \<Rightarrow> nat" where
  "rev_nat 0 v = 0"
| "rev_nat (Suc n) v = (v mod 2) * 2 ^ n + rev_nat n (v div 2)"

lemma rev_nat_less: "rev_nat n v < 2 ^ n"
proof (induction n v rule: rev_nat.induct)
  case (2 n v)
  have "(v mod 2) * 2 ^ n \<le> 1 * 2 ^ n" by (rule mult_le_mono1) simp
  with 2 show ?case by (simp only: rev_nat.simps power_Suc)
qed simp

lemma rev_nat_horner: "rev_nat n v = horner_sum of_bool 2 (map (\<lambda>i. bit v (n - 1 - i)) [0..<n])"
proof (induction n v rule: rev_nat.induct)
  case (2 n v)
  have eq: "map (\<lambda>i. bit v (Suc n - 1 - i)) [0..<n] = map (\<lambda>i. bit (v div 2) (n - 1 - i)) [0..<n]"
    by (rule map_cong) (auto simp: Suc_diff_Suc simp flip: bit_Suc)
  have "map (\<lambda>i. bit v (Suc n - 1 - i)) [0..<Suc n]
      = map (\<lambda>i. bit (v div 2) (n - 1 - i)) [0..<n] @ [odd v]"
    unfolding eq [symmetric] by (simp add: bit_0)
  then have "horner_sum of_bool 2 (map (\<lambda>i. bit v (Suc n - 1 - i)) [0..<Suc n])
      = rev_nat n (v div 2) + 2 ^ n * of_bool (odd v)"
    using 2 by (simp only: horner_sum_append) simp
  then show ?case by (simp add: mod2_eq_if)
qed simp

lemma bit_rev_nat: "bit (rev_nat n v) i \<longleftrightarrow> i < n \<and> bit v (n - 1 - i)"
  by (cases "i < n") (simp_all add: rev_nat_horner bit_horner_sum_bit_iff)

lemma reverse_bits_n_rev_nat:
  assumes "n \<le> 64"
  shows "unat (reverse_bits_n v n) = rev_nat n (unat v)"
  by (rule bit_eqI) (use assms in \<open>auto simp: bit_unsigned_iff bit_reverse_bits_n bit_rev_nat
    dest: bit_imp_le_length\<close>)

lemma rev_nat_even_less_odd:
  assumes "even l" and "odd x"
  shows "rev_nat (Suc n) l < rev_nat (Suc n) x"
  using assms rev_nat_less [of n "l div 2"] by (simp add: mod2_eq_if)

lemma min_reversed_nat:
  assumes "lo \<le> hi" and "hi < 2 ^ n"
  shows "\<exists>l. min_reversed_in_range lo hi n = Inr l \<and> lo \<le> l \<and> l \<le> hi
           \<and> (\<forall>x. lo \<le> x \<longrightarrow> x \<le> hi \<longrightarrow> rev_nat n l \<le> rev_nat n x)"
  using assms
proof (induction lo hi n rule: min_reversed_in_range.induct)
  case (1 lo hi)
  then show ?case by simp
next
  case (2 lo hi n)
  show ?case
  proof (cases "(lo + 1) div 2 \<le> hi div 2")
    case True
    then obtain l where l: "min_reversed_in_range ((lo + 1) div 2) (hi div 2) n = Inr l"
      "(lo + 1) div 2 \<le> l" "l \<le> hi div 2"
      and least: "\<And>x. (lo + 1) div 2 \<le> x \<Longrightarrow> x \<le> hi div 2 \<Longrightarrow> rev_nat n l \<le> rev_nat n x"
      using 2 by fastforce
    have "rev_nat (Suc n) (l * 2) \<le> rev_nat (Suc n) x" if "lo \<le> x" "x \<le> hi" for x
    proof (cases "even x")
      case E: True
      with that have "(lo + 1) div 2 \<le> x div 2" "x div 2 \<le> hi div 2" by auto
      from least [OF this] E show ?thesis by simp
    next
      case False
      then show ?thesis using rev_nat_even_less_odd [of "l * 2" x n] by simp
    qed
    then show ?thesis using True l by (intro exI [of _ "l * 2"]) (auto simp: Let_def)
  next
    case False
    then have "lo = hi" using 2(2) by linarith
    with False show ?thesis by auto
  qed
qed

text \<open>on a range of \<open>n\<close>-bit fractions \<open>min_reversed_in_range\<close> raises no internal error,
  stays in the range, and no fraction of the range has a smaller bit-reversed value.
\<close>
theorem min_reversed_in_range_least:
  assumes "lo \<le> hi" and "hi < 2 ^ n" and "n \<le> 64"
  shows "\<exists>l. min_reversed_in_range lo hi n = Inr l \<and> lo \<le> l \<and> l \<le> hi
           \<and> (\<forall>x. lo \<le> x \<longrightarrow> x \<le> hi \<longrightarrow>
                reverse_bits_n (of_nat l) n \<le> reverse_bits_n (of_nat x) n)"
proof -
  obtain l where l: "min_reversed_in_range lo hi n = Inr l" "lo \<le> l" "l \<le> hi"
    and least: "\<And>x. lo \<le> x \<Longrightarrow> x \<le> hi \<Longrightarrow> rev_nat n l \<le> rev_nat n x"
    using min_reversed_nat [OF assms(1,2)] by blast
  have "(2::nat) ^ n \<le> 2 ^ 64" using assms(3) by (rule power_increasing) simp
  then have u: "unat (of_nat x :: u64) = x" if "x \<le> hi" for x
    using that assms(2) by (subst unat_of_nat) simp
  have "reverse_bits_n (of_nat l) n \<le> reverse_bits_n (of_nat x) n" if "lo \<le> x" "x \<le> hi" for x
    using least [OF that] l(3) that
    by (simp add: word_le_nat_alt reverse_bits_n_rev_nat [OF assms(3)] u)
  with l show ?thesis by blast
qed

theorem min_reversed_in_range_least_witness:
  "(5::nat) \<le> 7 \<and> (7::nat) < 2 ^ 3 \<and> (3::nat) \<le> 64
   \<and> (\<exists>l. min_reversed_in_range 5 7 3 = Inr l \<and> 5 \<le> l \<and> l \<le> 7
           \<and> (\<forall>x. 5 \<le> x \<longrightarrow> x \<le> 7 \<longrightarrow>
                reverse_bits_n (of_nat l) 3 \<le> reverse_bits_n (of_nat x) 3))"
proof -
  have h: "(5::nat) \<le> 7" "(7::nat) < 2 ^ 3" "(3::nat) \<le> 64" by simp_all
  from h min_reversed_in_range_least [OF h] show ?thesis by blast
qed

end
