(* ===== verification/Intervals.thy ===== *)
theory Intervals
  imports Prelude
begin

text \<open>
  \<open>hegel-c/src/native/intervalsets.rs\<close>: sets of codepoints as sorted, disjoint, inclusive
  intervals, with positional access, set algebra, and the shrink order on characters that
  starts at \<open>'0'\<close>. A codepoint (\<open>u32\<close>) is a natural number; the \<open>u32\<close> additions of the
  source keep their width. The memo slot \<open>string_constants_mask\<close> only caches a value derived
  from the set and is left out.
\<close>

type_synonym codepoint = nat

definition u32_wrap :: "nat \<Rightarrow> nat" where
  "u32_wrap n = n mod 2 ^ 32"

definition u32_saturating_add :: "nat \<Rightarrow> nat \<Rightarrow> nat" where
  "u32_saturating_add a b = min (a + b) (2 ^ 32 - 1)"

text \<open>An ASCII literal of the source as codepoints.\<close>

definition code :: "char \<Rightarrow> codepoint" where "code c = of_char c"

definition codes :: "string \<Rightarrow> codepoint list" where "codes s = map code s"

section \<open>The data structure\<close>

record interval_set =
  intervals :: "(codepoint \<times> codepoint) list"
  offsets :: "nat list"
  iv_size :: nat
  idx_of_zero :: nat
  idx_of_z :: int

text \<open>
  The offset loop of \<open>new\<close>: the running offset before each interval, and last the total.
\<close>

fun offsets_from :: "nat \<Rightarrow> (codepoint \<times> codepoint) list \<Rightarrow> nat list internal_result" where
  "offsets_from prev [] = Inr [prev]"
| "offsets_from prev ((u, v) # ivs) =
     rbind (hegel_internal_assert (u \<le> v) ''invalid interval'') (\<lambda>_.
     rbind (offsets_from (prev + u32_wrap (v - u + 1)) ivs) (\<lambda>os. Inr (prev # os)))"

text \<open>
  \<open>partition_point\<close> on starts that are sorted is the length of the prefix below; the only
  interval that can contain \<open>e\<close> is the last one of that prefix.
\<close>

definition interval_for :: "interval_set \<Rightarrow> codepoint \<Rightarrow> nat option" where
  "interval_for s e =
     (let p = length (takeWhile (\<lambda>(start, _). start \<le> e) (intervals s))
      in if p = 0 then None else Some (p - 1))"

definition contains :: "interval_set \<Rightarrow> codepoint \<Rightarrow> bool" where
  "contains s e =
     (case interval_for s e of Some j \<Rightarrow> e \<le> snd (intervals s ! j) | None \<Rightarrow> False)"

definition iv_index :: "interval_set \<Rightarrow> codepoint \<Rightarrow> nat option" where
  "iv_index s e =
     (case interval_for s e of None \<Rightarrow> None
      | Some j \<Rightarrow>
          (let (u, v) = intervals s ! j
           in if e \<le> v then Some (offsets s ! j + (e - u)) else None))"

definition index_above :: "interval_set \<Rightarrow> codepoint \<Rightarrow> nat" where
  "index_above s e =
     (case interval_for s e of
        Some j \<Rightarrow>
          (let (u, v) = intervals s ! j
           in if e \<le> v then offsets s ! j + (e - u)
              else if j + 1 < length (intervals s) then offsets s ! (j + 1)
              else iv_size s)
      | None \<Rightarrow> 0)"

definition new :: "(codepoint \<times> codepoint) list \<Rightarrow> interval_set internal_result" where
  "new ivs =
     rbind (offsets_from 0 ivs) (\<lambda>os.
       let size = last os;
           s = \<lparr>intervals = ivs, offsets = butlast os, iv_size = size, idx_of_zero = 0, idx_of_z = -1\<rparr>;
           s1 = s\<lparr>idx_of_zero := index_above s 48\<rparr>;
           z_above = index_above s1 90
       in Inr (s1\<lparr>idx_of_z := (if size = 0 then -1 else int (min z_above (size - 1)))\<rparr>))"

section \<open>Positional access\<close>

text \<open>The binary search of \<open>get\<close> for the last offset that is at most \<open>i\<close>.\<close>

function search_offset :: "nat list \<Rightarrow> nat \<Rightarrow> nat \<Rightarrow> nat \<Rightarrow> nat" where
  "search_offset offs i lo hi =
     (if lo + 1 < hi
      then let mid = lo + (hi - lo) div 2
           in if offs ! mid \<le> i then search_offset offs i mid hi else search_offset offs i lo mid
      else lo)"
  by pat_completeness auto
termination
  by (relation "measure (\<lambda>(offs, i, lo, hi). hi - lo)") auto

declare search_offset.simps [simp del]

definition iv_get :: "interval_set \<Rightarrow> int \<Rightarrow> codepoint option" where
  "iv_get s i =
     (let resolved = (if i < 0 then int (iv_size s) + i else i)
      in if resolved < 0 \<or> int (iv_size s) \<le> resolved then None
         else
           let k = nat resolved;
               j = length (intervals s) - 1;
               j' = (if k < offsets s ! j then search_offset (offsets s) k 0 j else j)
           in Some (fst (intervals s ! j') + (k - offsets s ! j')))"

section \<open>Set algebra\<close>

definition union_push :: "(codepoint \<times> codepoint) list \<Rightarrow> codepoint \<times> codepoint
    \<Rightarrow> (codepoint \<times> codepoint) list" where
  "union_push result iv =
     (let (u, v) = iv
      in if result \<noteq> [] \<and> u \<le> u32_saturating_add (snd (last result)) 1
         then butlast result @ [(fst (last result), max (snd (last result)) v)]
         else result @ [(u, v)])"

definition union :: "interval_set \<Rightarrow> interval_set \<Rightarrow> interval_set internal_result" where
  "union s t =
     (if intervals s = [] then new (intervals t)
      else if intervals t = [] then new (intervals s)
      else new (foldl union_push [] (sort_key fst (intervals s @ intervals t))))"

text \<open>
  The two-pointer loops. The first list is \<open>x[i..]\<close>, whose head the loop may have trimmed;
  the second is \<open>y[j..]\<close>.
\<close>

fun difference_loop :: "(codepoint \<times> codepoint) list \<Rightarrow> (codepoint \<times> codepoint) list
    \<Rightarrow> (codepoint \<times> codepoint) list" where
  "difference_loop [] ys = []"
| "difference_loop xs [] = xs"
| "difference_loop ((xl, xr) # xs) ((yl, yr) # ys) =
     (if yr < xl then difference_loop ((xl, xr) # xs) ys
      else if xr < yl then (xl, xr) # difference_loop xs ((yl, yr) # ys)
      else if yl \<le> xl then
        (if xr \<le> yr then difference_loop xs ((yl, yr) # ys)
         else difference_loop ((u32_wrap (yr + 1), xr) # xs) ys)
      else (xl, yl - 1) #
        (if yr < xr then difference_loop ((u32_wrap (yr + 1), xr) # xs) ys
         else difference_loop xs ((yl, yr) # ys)))"

definition difference :: "interval_set \<Rightarrow> interval_set \<Rightarrow> interval_set internal_result" where
  "difference s t = new (difference_loop (intervals s) (intervals t))"

fun intersection_loop :: "(codepoint \<times> codepoint) list \<Rightarrow> (codepoint \<times> codepoint) list
    \<Rightarrow> (codepoint \<times> codepoint) list" where
  "intersection_loop [] ys = []"
| "intersection_loop xs [] = []"
| "intersection_loop ((u, v) # xs) ((uu, vv) # ys) =
     (if vv < u then intersection_loop ((u, v) # xs) ys
      else if v < uu then intersection_loop xs ((uu, vv) # ys)
      else (max u uu, min v vv) #
        (if v < vv then intersection_loop xs ((uu, vv) # ys)
         else intersection_loop ((u, v) # xs) ys))"

definition intersection :: "interval_set \<Rightarrow> interval_set \<Rightarrow> interval_set internal_result" where
  "intersection s t = new (intersection_loop (intervals s) (intervals t))"

section \<open>The shrink order on characters\<close>

text \<open>
  \<open>char::from_u32\<close> rejects surrogates and everything past \<open>0x10FFFF\<close>; the \<open>unwrap\<close>s of the
  source panic on \<open>None\<close>, which is \<open>None\<close> here.
\<close>

definition char_from_u32 :: "codepoint \<Rightarrow> codepoint option" where
  "char_from_u32 c = (if c \<le> 0x10FFFF \<and> \<not> (0xD800 \<le> c \<and> c \<le> 0xDFFF) then Some c else None)"

definition char_in_shrink_order :: "interval_set \<Rightarrow> nat \<Rightarrow> codepoint option" where
  "char_in_shrink_order s i =
     (let i = int i;
          i' = (if i \<le> idx_of_z s
                then let n = idx_of_z s - int (idx_of_zero s)
                     in if i \<le> n then i + int (idx_of_zero s) else int (idx_of_zero s) - (i - n)
                else i)
      in Option.bind (iv_get s i') char_from_u32)"

definition index_from_codepoint_in_shrink_order :: "interval_set \<Rightarrow> codepoint \<Rightarrow> nat option" where
  "index_from_codepoint_in_shrink_order s cp =
     Option.bind (iv_index s cp) (\<lambda>k.
       let i = int k
       in if i \<le> idx_of_z s
          then let n = idx_of_z s - int (idx_of_zero s)
               in if int (idx_of_zero s) \<le> i \<and> i \<le> idx_of_z s
                  then Some (nat (i - int (idx_of_zero s)))
                  else Some (nat (int (idx_of_zero s) - i + n))
          else Some (nat i))"

section \<open>The abstraction: the sorted list of elements\<close>

definition elements :: "(codepoint \<times> codepoint) list \<Rightarrow> codepoint list" where
  "elements ivs = concat (map (\<lambda>(u, v). [u..<Suc v]) ivs)"

definition members :: "(codepoint \<times> codepoint) list \<Rightarrow> codepoint set" where
  "members ivs = (\<Union>(u, v) \<in> set ivs. {u..v})"

definition ivs_ok :: "(codepoint \<times> codepoint) list \<Rightarrow> bool" where
  "ivs_ok ivs \<longleftrightarrow> sorted_wrt (\<lambda>(u, v) (u', v'). v < u') ivs
     \<and> (\<forall>(u, v) \<in> set ivs. u \<le> v \<and> v \<le> 0x10FFFF)"

lemma elements_simps [simp]:
  "elements [] = []"
  "elements ((u, v) # ivs) = [u..<Suc v] @ elements ivs"
  "elements (xs @ ys) = elements xs @ elements ys"
  by (simp_all add: elements_def)

lemma members_simps [simp]:
  "members [] = {}"
  "members ((u, v) # ivs) = {u..v} \<union> members ivs"
  "members (xs @ ys) = members xs \<union> members ys"
  by (auto simp: members_def)

lemma set_elements [simp]: "set (elements ivs) = members ivs"
proof (induction ivs)
  case (Cons iv ivs)
  then show ?case by (cases iv) (auto simp del: upt_Suc)
qed simp

lemma ivs_ok_Nil [simp]: "ivs_ok []"
  by (simp add: ivs_ok_def)

lemma ivs_ok_Cons:
  "ivs_ok ((u, v) # ivs) \<longleftrightarrow>
     u \<le> v \<and> v \<le> 0x10FFFF \<and> (\<forall>(u', v') \<in> set ivs. v < u') \<and> ivs_ok ivs"
  by (auto simp: ivs_ok_def)

lemma ivs_ok_append:
  "ivs_ok (xs @ ys) \<longleftrightarrow>
     ivs_ok xs \<and> ivs_ok ys \<and> (\<forall>(u, v) \<in> set xs. \<forall>(u', v') \<in> set ys. v < u')"
  by (auto simp: ivs_ok_def sorted_wrt_append)

lemma ivs_ok_take: "ivs_ok ivs \<Longrightarrow> ivs_ok (take n ivs)"
  by (metis append_take_drop_id ivs_ok_append)

lemma members_gt:
  assumes "\<forall>(u', v') \<in> set ivs. v < u'" and "x \<in> members ivs"
  shows "v < x"
  using assms by (fastforce simp: members_def)

lemma sorted_elements: "ivs_ok ivs \<Longrightarrow> sorted_wrt (<) (elements ivs)"
proof (induction ivs)
  case (Cons iv ivs)
  obtain u v where iv: "iv = (u, v)" by fastforce
  have "v < x" if "x \<in> members ivs" for x
    using Cons.prems that members_gt [of ivs v x] by (auto simp: iv ivs_ok_Cons)
  then show ?case
    using Cons by (fastforce simp: iv ivs_ok_Cons sorted_wrt_append simp del: upt_Suc)
qed simp

lemma distinct_elements: "ivs_ok ivs \<Longrightarrow> distinct (elements ivs)"
  using sorted_elements [of ivs] strict_sorted_iff by blast

section \<open>Offsets and positions\<close>

definition off :: "(codepoint \<times> codepoint) list \<Rightarrow> nat \<Rightarrow> nat" where
  "off ivs j = length (elements (take j ivs))"

lemma off_0 [simp]: "off ivs 0 = 0"
  by (simp add: off_def)

lemma off_length: "length ivs \<le> j \<Longrightarrow> off ivs j = length (elements ivs)"
  by (simp add: off_def)

lemma off_Suc:
  "ivs_ok ivs \<Longrightarrow> j < length ivs \<Longrightarrow>
     off ivs (Suc j) = off ivs j + (snd (ivs ! j) - fst (ivs ! j) + 1)"
proof -
  assume ok: "ivs_ok ivs" and j: "j < length ivs"
  obtain u v where uv: "ivs ! j = (u, v)" by fastforce
  have "u \<le> v" using ok nth_mem [OF j] uv by (auto simp: ivs_ok_def)
  then show ?thesis by (simp add: off_def take_Suc_conv_app_nth [OF j] uv)
qed

lemma off_mono: "j \<le> k \<Longrightarrow> off ivs j \<le> off ivs k"
proof -
  assume "j \<le> k"
  then have "take k ivs = take j ivs @ take (k - j) (drop j ivs)"
    by (metis le_add_diff_inverse take_add)
  then show ?thesis by (simp add: off_def)
qed

lemma offsets_from_ok:
  "ivs_ok ivs \<Longrightarrow> offsets_from a ivs = Inr (map (\<lambda>j. a + off ivs j) [0..<Suc (length ivs)])"
proof (induction ivs arbitrary: a)
  case (Cons iv ivs)
  obtain u v where iv: "iv = (u, v)" by fastforce
  have "u \<le> v" "v - u + 1 < 2 ^ 32" using Cons.prems by (auto simp: iv ivs_ok_Cons)
  moreover have "map (\<lambda>j. a + off ((u, v) # ivs) j) [0..<Suc (Suc (length ivs))]
      = a # map (\<lambda>j. a + (v - u + 1) + off ivs j) [0..<Suc (length ivs)]"
    using le_Suc_ex [OF \<open>u \<le> v\<close>] by (subst map_upt_Suc) (auto simp: off_def simp del: upt_Suc)
  ultimately show ?case
    using Cons by (simp add: iv ivs_ok_Cons u32_wrap_def del: upt_Suc)
qed simp

lemma nth_elements:
  assumes ok: "ivs_ok ivs" and j: "j < length ivs" and k: "off ivs j \<le> k" "k < off ivs (Suc j)"
  shows "elements ivs ! k = fst (ivs ! j) + (k - off ivs j)" and "k < length (elements ivs)"
proof -
  obtain u v where uv: "ivs ! j = (u, v)" by fastforce
  have "u \<le> v" using ok nth_mem [OF j] uv by (auto simp: ivs_ok_def)
  have k': "k - off ivs j < v - u + 1" using k off_Suc [OF ok j] uv by simp
  have split: "elements ivs = elements (take j ivs) @ [u..<Suc v] @ elements (drop (Suc j) ivs)"
  proof -
    have "ivs = take j ivs @ (u, v) # drop (Suc j) ivs" using id_take_nth_drop [OF j] uv by simp
    then have "elements ivs = elements (take j ivs @ (u, v) # drop (Suc j) ivs)" by (rule arg_cong)
    then show ?thesis by (simp only: elements_simps)
  qed
  have "elements ivs ! k = [u..<Suc v] ! (k - off ivs j)"
  proof -
    have len: "length (elements (take j ivs)) = off ivs j" by (simp only: off_def)
    have "k - off ivs j < length [u..<Suc v]" using k' \<open>u \<le> v\<close> by (simp del: upt_Suc)
    then show ?thesis using k(1) by (subst split) (simp only: nth_append len not_less if_True if_False, simp)
  qed
  then show "elements ivs ! k = fst (ivs ! j) + (k - off ivs j)"
    using k' \<open>u \<le> v\<close> by (simp add: uv del: upt_Suc)
  show "k < length (elements ivs)"
    using k(2) off_mono [of "Suc j" "length ivs" ivs] j by (simp add: off_length)
qed

lemma starts_increasing:
  assumes "ivs_ok ivs" and "j < k" and "k < length ivs"
  shows "snd (ivs ! j) < fst (ivs ! k)" and "fst (ivs ! j) < fst (ivs ! k)"
proof -
  show *: "snd (ivs ! j) < fst (ivs ! k)"
    using assms by (auto simp: ivs_ok_def sorted_wrt_iff_nth_less split_beta)
  have "fst (ivs ! j) \<le> snd (ivs ! j)"
    using assms by (auto simp: ivs_ok_def split_beta)
  with * show "fst (ivs ! j) < fst (ivs ! k)" by simp
qed

lemma interval_for_Some:
  assumes "ivs_ok (intervals s)" and "interval_for s e = Some j"
  shows "j < length (intervals s)" and "fst (intervals s ! j) \<le> e"
    and "\<And>k. j < k \<Longrightarrow> k < length (intervals s) \<Longrightarrow> e < fst (intervals s ! k)"
proof -
  define p where "p = length (takeWhile (\<lambda>(start, _). start \<le> e) (intervals s))"
  have p: "p = Suc j" using assms(2) by (auto simp: interval_for_def Let_def p_def split: if_splits)
  have "p \<le> length (intervals s)" unfolding p_def by (rule length_takeWhile_le)
  with p show j: "j < length (intervals s)" by simp
  show "fst (intervals s ! j) \<le> e"
    using p takeWhile_nth [of j "\<lambda>(start, _). start \<le> e" "intervals s"]
      nth_mem [of j "takeWhile (\<lambda>(start, _). start \<le> e) (intervals s)"] set_takeWhileD
    by (fastforce simp: p_def)
  fix k assume k: "j < k" "k < length (intervals s)"
  have "e < fst (intervals s ! p)"
    using k p nth_length_takeWhile [of "\<lambda>(start, _). start \<le> e" "intervals s"]
    by (auto simp: p_def split_beta)
  then show "e < fst (intervals s ! k)"
    using starts_increasing(2) [OF assms(1), of p k] k p by (cases "p = k") auto
qed

lemma interval_for_None:
  assumes "ivs_ok (intervals s)" and "interval_for s e = None" and "k < length (intervals s)"
  shows "e < fst (intervals s ! k)"
proof -
  have "takeWhile (\<lambda>(start, _). start \<le> e) (intervals s) = []"
    using assms(2) by (auto simp: interval_for_def Let_def split: if_splits)
  then have "e < fst (intervals s ! 0)"
    using assms(3) nth_length_takeWhile [of "\<lambda>(start, _). start \<le> e" "intervals s"]
    by (cases "intervals s") (auto simp: split_beta split: if_splits)
  then show ?thesis
    using starts_increasing(2) [OF assms(1), of 0 k] assms(3) by (cases "k = 0") auto
qed

section \<open>Well-formed sets\<close>

text \<open>
  What \<open>new\<close> establishes and every operation keeps: sorted disjoint intervals of codepoints,
  the offsets of the intervals, and the two anchors of the shrink order.
\<close>

definition below :: "(codepoint \<times> codepoint) list \<Rightarrow> codepoint \<Rightarrow> nat" where
  "below ivs e = length (filter (\<lambda>x. x < e) (elements ivs))"

definition tables_ok :: "interval_set \<Rightarrow> bool" where
  "tables_ok s \<longleftrightarrow> ivs_ok (intervals s)
     \<and> offsets s = map (off (intervals s)) [0..<length (intervals s)]
     \<and> iv_size s = length (elements (intervals s))"

definition iv_wf :: "interval_set \<Rightarrow> bool" where
  "iv_wf s \<longleftrightarrow> tables_ok s
     \<and> idx_of_zero s = below (intervals s) 48
     \<and> idx_of_z s = (if iv_size s = 0 then -1
                     else int (min (below (intervals s) 90) (iv_size s - 1)))"

lemma filter_less_upt: "u \<le> e \<Longrightarrow> length (filter (\<lambda>x. x < e) [u..<w]) = min e w - u"
proof (induction w)
  case (Suc w)
  then show ?case by (cases "u \<le> w") auto
qed simp

lemma split_at_interval:
  assumes "ivs_ok ivs" and "j < length ivs"
  shows "elements ivs = elements (take j ivs) @ [fst (ivs ! j)..<Suc (snd (ivs ! j))]
           @ elements (drop (Suc j) ivs)"
proof -
  have "ivs = take j ivs @ (fst (ivs ! j), snd (ivs ! j)) # drop (Suc j) ivs"
    using id_take_nth_drop [OF assms(2)] by simp
  then have "elements ivs
      = elements (take j ivs @ (fst (ivs ! j), snd (ivs ! j)) # drop (Suc j) ivs)"
    by (rule arg_cong)
  then show ?thesis by (simp only: elements_simps)
qed

lemma members_nth:
  "x \<in> members ivs \<longleftrightarrow> (\<exists>k<length ivs. fst (ivs ! k) \<le> x \<and> x \<le> snd (ivs ! k))"
proof -
  have "x \<in> members ivs \<longleftrightarrow> (\<exists>p \<in> set ivs. fst p \<le> x \<and> x \<le> snd p)"
    by (simp add: members_def split_beta Bex_def)
  also have "\<dots> \<longleftrightarrow> (\<exists>k<length ivs. fst (ivs ! k) \<le> x \<and> x \<le> snd (ivs ! k))"
    by (simp only: in_set_conv_nth Bex_def) blast
  finally show ?thesis .
qed

lemma members_take_less:
  assumes "ivs_ok ivs" and "j < length ivs" and "x \<in> members (take j ivs)"
  shows "x < fst (ivs ! j)"
proof -
  obtain k where "k < j" "x \<le> snd (ivs ! k)"
    using assms(2,3) by (auto simp: members_nth)
  with starts_increasing(1) [OF assms(1) \<open>k < j\<close> assms(2)] show ?thesis by simp
qed

lemma members_drop_greater:
  assumes "\<And>k. j < k \<Longrightarrow> k < length ivs \<Longrightarrow> e < fst (ivs ! k)"
    and "x \<in> members (drop (Suc j) ivs)"
  shows "e < x"
proof -
  obtain k where k: "k < length ivs - Suc j" "fst (ivs ! (Suc j + k)) \<le> x"
    using assms(2) by (auto simp: members_nth)
  with assms(1) [of "Suc j + k"] show ?thesis by linarith
qed

lemma index_above_below:
  assumes "tables_ok s"
  shows "index_above s e = below (intervals s) e"
proof (cases "interval_for s e")
  case None
  have "e < x" if "x \<in> members (intervals s)" for x
  proof -
    from that obtain k where "k < length (intervals s)" "fst (intervals s ! k) \<le> x"
      unfolding members_nth by blast
    then show ?thesis using interval_for_None [of s e k] None assms by (simp add: tables_ok_def)
  qed
  then have "filter (\<lambda>x. x < e) (elements (intervals s)) = []" by (fastforce simp: filter_empty_conv)
  with None show ?thesis by (simp add: index_above_def below_def)
next
  case (Some j)
  have ok: "ivs_ok (intervals s)" using assms by (simp add: tables_ok_def)
  note j = interval_for_Some [OF ok Some]
  obtain u v where uv: "intervals s ! j = (u, v)" by fastforce
  have "u \<le> v" using ok nth_mem [OF j(1)] uv by (auto simp: ivs_ok_def)
  have pre: "filter (\<lambda>x. x < e) (elements (take j (intervals s))) = elements (take j (intervals s))"
    using members_take_less [OF ok j(1)] j(2) by (fastforce simp: filter_id_conv)
  have post: "filter (\<lambda>x. x < e) (elements (drop (Suc j) (intervals s))) = []"
    using members_drop_greater [OF j(3)] by (fastforce simp: filter_empty_conv)
  have len: "length (elements (take j (intervals s))) = off (intervals s) j" by (simp only: off_def)
  have mid: "length (filter (\<lambda>x. x < e) [u..<Suc v]) = min e (Suc v) - u"
    using j(2) uv by (intro filter_less_upt) simp
  have b: "below (intervals s) e = off (intervals s) j + (min e (Suc v) - u)"
    unfolding below_def split_at_interval [OF ok j(1)] filter_append length_append pre post uv
    by (simp only: fst_conv snd_conv mid len list.size(3) add_0_right)
  have o: "offsets s ! j = off (intervals s) j" using assms j(1) by (simp add: tables_ok_def)
  show ?thesis
  proof (cases "e \<le> v")
    case True
    then show ?thesis using b o Some by (simp add: index_above_def uv)
  next
    case False
    have "off (intervals s) (Suc j) = off (intervals s) j + (v - u + 1)"
      using off_Suc [OF ok j(1)] uv by simp
    with False b \<open>u \<le> v\<close> have "below (intervals s) e = off (intervals s) (Suc j)" by simp
    then show ?thesis
      using False Some assms j(1) off_length [of "intervals s" "Suc j"]
      by (auto simp: index_above_def uv tables_ok_def simp del: upt_Suc)
  qed
qed

lemma new_ok:
  assumes "ivs_ok ivs"
  shows "\<exists>s. new ivs = Inr s \<and> iv_wf s \<and> intervals s = ivs"
proof -
  define s where "s = \<lparr>intervals = ivs, offsets = map (off ivs) [0..<length ivs],
    iv_size = length (elements ivs), idx_of_zero = 0, idx_of_z = -1\<rparr>"
  define s1 where "s1 = s\<lparr>idx_of_zero := below ivs 48\<rparr>"
  have t: "tables_ok s" "tables_ok s1" using assms by (simp_all add: s_def s1_def tables_ok_def)
  have a: "index_above s 48 = below ivs 48" "index_above s1 90 = below ivs 90"
    using index_above_below [OF t(1)] index_above_below [OF t(2)] by (simp_all add: s_def s1_def)
  have "new ivs = Inr (s1\<lparr>idx_of_z := (if iv_size s = 0 then -1
          else int (min (below ivs 90) (iv_size s - 1)))\<rparr>)"
    using offsets_from_ok [OF assms, of 0] a
    by (simp add: new_def Let_def s1_def s_def off_length)
  moreover have "iv_wf (s1\<lparr>idx_of_z := (if iv_size s = 0 then -1
          else int (min (below ivs 90) (iv_size s - 1)))\<rparr>)"
    using t by (simp add: iv_wf_def tables_ok_def s1_def s_def)
  ultimately show ?thesis by (auto simp: s1_def s_def)
qed

section \<open>Lookup\<close>

lemma contains_members:
  assumes "tables_ok s"
  shows "contains s e \<longleftrightarrow> e \<in> members (intervals s)"
proof (cases "interval_for s e")
  case None
  then have "\<not> (\<exists>k<length (intervals s). fst (intervals s ! k) \<le> e)"
    using interval_for_None [of s e] assms by (fastforce simp: tables_ok_def)
  with None show ?thesis by (auto simp: contains_def members_nth)
next
  case (Some j)
  have ok: "ivs_ok (intervals s)" using assms by (simp add: tables_ok_def)
  note j = interval_for_Some [OF ok Some]
  have "e \<le> snd (intervals s ! j)" if "k < length (intervals s)" "fst (intervals s ! k) \<le> e"
    "e \<le> snd (intervals s ! k)" for k
  proof -
    consider "k = j" | "k < j" | "j < k" by linarith
    then show ?thesis
    proof cases
      case 2
      then show ?thesis using starts_increasing(1) [OF ok 2 j(1)] j(2) that(3) by linarith
    next
      case 3
      then show ?thesis using j(3) [OF 3 that(1)] that(2) by linarith
    qed (use that in simp)
  qed
  with Some j(1,2) show ?thesis by (auto simp: contains_def members_nth)
qed

lemma offset_position:
  assumes "tables_ok s" and "j < length (intervals s)"
    and "fst (intervals s ! j) \<le> e" and "e \<le> snd (intervals s ! j)"
  shows "elements (intervals s) ! (offsets s ! j + (e - fst (intervals s ! j))) = e"
    and "offsets s ! j + (e - fst (intervals s ! j)) < iv_size s"
proof -
  have ok: "ivs_ok (intervals s)" using assms(1) by (simp add: tables_ok_def)
  have o: "offsets s ! j = off (intervals s) j" using assms(1,2) by (simp add: tables_ok_def)
  have lt: "off (intervals s) j + (e - fst (intervals s ! j)) < off (intervals s) (Suc j)"
    using assms(3,4) off_Suc [OF ok assms(2)] by linarith
  note n = nth_elements [OF ok assms(2) le_add1 lt]
  show "elements (intervals s) ! (offsets s ! j + (e - fst (intervals s ! j))) = e"
    using n(1) assms(3) by (simp only: o add_diff_cancel_left' le_add_diff_inverse)
  have "iv_size s = length (elements (intervals s))" using assms(1) by (simp add: tables_ok_def)
  then show "offsets s ! j + (e - fst (intervals s ! j)) < iv_size s"
    using n(2) by (simp only: o)
qed

lemma iv_index_Some:
  assumes "tables_ok s"
  shows "iv_index s e = Some k \<longleftrightarrow> k < iv_size s \<and> elements (intervals s) ! k = e"
proof -
  have ok: "ivs_ok (intervals s)" using assms by (simp add: tables_ok_def)
  have size: "iv_size s = length (elements (intervals s))" using assms by (simp add: tables_ok_def)
  have uniq: "k = k'" if "k < iv_size s" "k' < iv_size s"
    "elements (intervals s) ! k = elements (intervals s) ! k'" for k'
    using distinct_elements [OF ok] that by (simp add: size nth_eq_iff_index_eq)
  show ?thesis
  proof (cases "contains s e")
    case False
    then have "iv_index s e = None" and "e \<notin> set (elements (intervals s))"
      using contains_members [OF assms, of e]
      by (auto simp: iv_index_def contains_def split_beta split: option.splits)
    then show ?thesis using nth_mem [of k "elements (intervals s)"] by (auto simp: size)
  next
    case True
    then obtain j where j: "interval_for s e = Some j" "e \<le> snd (intervals s ! j)"
      by (auto simp: contains_def split: option.splits)
    note j' = interval_for_Some [OF ok j(1)]
    have "iv_index s e = Some (offsets s ! j + (e - fst (intervals s ! j)))"
      using j by (simp add: iv_index_def split_beta)
    with offset_position [OF assms j'(1,2) j(2)] uniq show ?thesis by (metis option.inject)
  qed
qed

lemma iv_index_None:
  assumes "tables_ok s"
  shows "iv_index s e = None \<longleftrightarrow> e \<notin> members (intervals s)"
proof -
  have "(\<exists>k. iv_index s e = Some k) \<longleftrightarrow> e \<in> set (elements (intervals s))"
    using iv_index_Some [OF assms] assms by (auto simp: in_set_conv_nth tables_ok_def simp del: set_elements)
  then show ?thesis by (cases "iv_index s e") auto
qed

lemma search_offset_bounds:
  "offs ! lo \<le> i \<Longrightarrow> i < offs ! hi \<Longrightarrow> lo < hi \<Longrightarrow>
     search_offset offs i lo hi < hi \<and> offs ! search_offset offs i lo hi \<le> i
     \<and> i < offs ! Suc (search_offset offs i lo hi)"
proof (induction offs i lo hi rule: search_offset.induct)
  case (1 offs i lo hi)
  show ?case
  proof (cases "lo + 1 < hi")
    case True
    define mid where "mid = lo + (hi - lo) div 2"
    have mid: "lo < mid" "mid < hi" using True by (auto simp: mid_def)
    have eq: "search_offset offs i lo hi =
        (if offs ! mid \<le> i then search_offset offs i mid hi else search_offset offs i lo mid)"
      using True by (subst search_offset.simps) (simp add: mid_def Let_def)
    show ?thesis
      using "1.IH" [OF True mid_def] "1.prems" mid by (auto simp: eq)
  next
    case False
    with "1.prems" have "hi = Suc lo" by linarith
    with False "1.prems" show ?thesis by (subst (1 2 3) search_offset.simps) simp
  qed
qed

lemma iv_get_elements:
  assumes "tables_ok s"
  shows "iv_get s i =
     (let n = int (iv_size s)
      in if 0 \<le> i \<and> i < n then Some (elements (intervals s) ! nat i)
         else if - n \<le> i \<and> i < 0 then Some (elements (intervals s) ! nat (n + i))
         else None)"
proof -
  have ok: "ivs_ok (intervals s)" using assms by (simp add: tables_ok_def)
  have size: "iv_size s = length (elements (intervals s))" using assms by (simp add: tables_ok_def)
  have get: "Some (fst (intervals s ! j') + (k - offsets s ! j')) = Some (elements (intervals s) ! k)"
    if k: "k < iv_size s" and j: "j = length (intervals s) - 1"
      and j': "j' = (if k < offsets s ! j then search_offset (offsets s) k 0 j else j)" for k j j'
  proof -
    have ne: "intervals s \<noteq> []" using k size by auto
    then have jl: "j < length (intervals s)" using j by simp
    have o: "offsets s ! m = off (intervals s) m" if "m < length (intervals s)" for m
      using that assms by (simp add: tables_ok_def)
    have "j' < length (intervals s) \<and> off (intervals s) j' \<le> k \<and> k < off (intervals s) (Suc j')"
    proof (cases "k < offsets s ! j")
      case True
      have z: "offsets s ! 0 \<le> k" using o [of 0] ne by simp
      have "0 < j" using True z by (cases "j = 0") auto
      from search_offset_bounds [OF z True this] True
      have b: "j' < j" "offsets s ! j' \<le> k" "k < offsets s ! Suc j'" by (auto simp: j')
      then have "j' < length (intervals s)" "Suc j' < length (intervals s)" using jl by simp_all
      with b show ?thesis using o [of j'] o [of "Suc j'"] by simp
    next
      case False
      have "off (intervals s) (Suc j) = iv_size s" using j ne by (simp add: off_length size)
      with False j' jl k o show ?thesis by simp
    qed
    then show ?thesis using nth_elements [OF ok, of j' k] o by simp
  qed
  show ?thesis
    unfolding iv_get_def Let_def using get [OF _ refl refl] by auto
qed

text \<open>\<open>get\<close> reads the set as the sorted sequence of its elements, with Python's negative
  positions and \<open>None\<close> outside; the binary search over the offsets never misses.\<close>
theorem interval_set_get:
  assumes "iv_wf s"
  shows "iv_get s i =
     (let n = int (iv_size s)
      in if 0 \<le> i \<and> i < n then Some (elements (intervals s) ! nat i)
         else if - n \<le> i \<and> i < 0 then Some (elements (intervals s) ! nat (n + i))
         else None)"
  using assms by (intro iv_get_elements) (simp add: iv_wf_def)

text \<open>\<open>index\<close> is the inverse of \<open>get\<close>: it finds a codepoint's position exactly when the
  codepoint is in the set.\<close>
theorem interval_set_index:
  assumes "iv_wf s"
  shows "(iv_index s e = Some k \<longleftrightarrow> k < iv_size s \<and> iv_get s (int k) = Some e)
     \<and> (iv_index s e = None \<longleftrightarrow> e \<notin> members (intervals s))
     \<and> (contains s e \<longleftrightarrow> e \<in> members (intervals s))"
proof -
  have t: "tables_ok s" using assms by (simp add: iv_wf_def)
  then show ?thesis
    by (auto simp: iv_index_Some iv_index_None contains_members iv_get_elements)
qed

section \<open>Correctness of the set algebra\<close>

lemma start_member: "ivs_ok ivs \<Longrightarrow> (u, v) \<in> set ivs \<Longrightarrow> u \<in> members ivs"
  by (auto simp: members_def ivs_ok_def intro!: bexI [of _ "(u, v)"])

lemma ivs_ok_ConsI:
  assumes "u \<le> v" and "v \<le> 0x10FFFF" and "ivs_ok ivs" and "\<And>x. x \<in> members ivs \<Longrightarrow> v < x"
  shows "ivs_ok ((u, v) # ivs)"
  using assms start_member by (fastforce simp: ivs_ok_Cons)

lemma ivs_ok_ConsD:
  assumes "ivs_ok ((u, v) # ivs)"
  shows "u \<le> v" and "v \<le> 0x10FFFF" and "ivs_ok ivs" and "x \<in> members ivs \<Longrightarrow> v < x"
  using assms members_gt [of ivs v x] by (auto simp: ivs_ok_Cons)

lemma ivs_ok_trim:
  assumes "ivs_ok ((u, v) # ivs)" and "u \<le> u'" and "u' \<le> v"
  shows "ivs_ok ((u', v) # ivs)"
  using assms by (auto simp: ivs_ok_Cons)

lemma wrap_codepoint: "v \<le> 0x10FFFF \<Longrightarrow> u32_wrap (v + 1) = v + 1"
  by (simp add: u32_wrap_def)

lemma union_push_ok:
  assumes "ivs_ok acc" and "u \<le> v" and "v \<le> 0x10FFFF"
    and "acc \<noteq> [] \<Longrightarrow> fst (last acc) \<le> u"
  shows "ivs_ok (union_push acc (u, v))"
    and "members (union_push acc (u, v)) = members acc \<union> {u..v}"
    and "fst (last (union_push acc (u, v))) \<le> u"
    and "union_push acc (u, v) \<noteq> []"
proof -
  have "ivs_ok (union_push acc (u, v)) \<and> members (union_push acc (u, v)) = members acc \<union> {u..v}
      \<and> fst (last (union_push acc (u, v))) \<le> u \<and> union_push acc (u, v) \<noteq> []"
  proof (cases acc rule: rev_cases)
    case Nil
    then show ?thesis using assms by (simp add: union_push_def ivs_ok_Cons)
  next
    case (snoc acc' l)
    obtain lu lv where l: "l = (lu, lv)" by fastforce
    have ok: "lu \<le> lv" "lv \<le> 0x10FFFF" "ivs_ok acc'" "\<forall>(u', v') \<in> set acc'. v' < lu" "lu \<le> u"
      using assms(1,4) by (auto simp: snoc l ivs_ok_append ivs_ok_Cons)
    show ?thesis
    proof (cases "u \<le> lv + 1")
      case True
      then have "union_push acc (u, v) = acc' @ [(lu, max lv v)]"
        using ok(2) by (simp add: union_push_def snoc l u32_saturating_add_def)
      moreover have "{lu..max lv v} = {lu..lv} \<union> {u..v}"
        using True ok(1,5) assms(2) by auto
      ultimately show ?thesis
        using ok assms(3) by (auto simp: snoc l ivs_ok_append ivs_ok_Cons)
    next
      case False
      then have "union_push acc (u, v) = acc' @ [(lu, lv), (u, v)]"
        using ok(2) by (simp add: union_push_def snoc l u32_saturating_add_def)
      then show ?thesis
        using ok assms(2,3) False by (auto simp: snoc l ivs_ok_append ivs_ok_Cons)
    qed
  qed
  then show "ivs_ok (union_push acc (u, v))"
    and "members (union_push acc (u, v)) = members acc \<union> {u..v}"
    and "fst (last (union_push acc (u, v))) \<le> u"
    and "union_push acc (u, v) \<noteq> []" by auto
qed

lemma foldl_union_push:
  assumes "sorted (map fst ms)" and "\<forall>(u, v) \<in> set ms. u \<le> v \<and> v \<le> 0x10FFFF"
    and "ivs_ok acc" and "\<forall>(u, v) \<in> set ms. acc \<noteq> [] \<longrightarrow> fst (last acc) \<le> u"
  shows "ivs_ok (foldl union_push acc ms)
     \<and> members (foldl union_push acc ms) = members acc \<union> members ms"
  using assms
proof (induction ms arbitrary: acc)
  case (Cons m ms)
  obtain u v where m: "m = (u, v)" by fastforce
  note push = union_push_ok [of acc u v]
  have "\<forall>(u', v') \<in> set ms. union_push acc (u, v) \<noteq> [] \<longrightarrow> fst (last (union_push acc (u, v))) \<le> u'"
    using Cons.prems push(3) by (fastforce simp: m)
  then have "ivs_ok (foldl union_push (union_push acc (u, v)) ms)
     \<and> members (foldl union_push (union_push acc (u, v)) ms) = members (union_push acc (u, v)) \<union> members ms"
    using Cons.prems push by (intro Cons.IH) (auto simp: m)
  then show ?case using push(2) Cons.prems by (auto simp: m)
qed simp

lemma difference_loop_ok:
  "ivs_ok xs \<Longrightarrow> ivs_ok ys \<Longrightarrow>
     ivs_ok (difference_loop xs ys) \<and> members (difference_loop xs ys) = members xs - members ys"
proof (induction xs ys rule: difference_loop.induct)
  case (3 xl xr xs yl yr ys)
  note x = ivs_ok_ConsD [OF "3.prems"(1)] and y = ivs_ok_ConsD [OF "3.prems"(2)]
  have wrap: "u32_wrap (Suc yr) = Suc yr" using wrap_codepoint [OF y(2)] by simp
  consider "yr < xl" | "xr < yl" "\<not> yr < xl" | "yl \<le> xl" "xl \<le> yr" "xr \<le> yr" | "yl \<le> xl" "xl \<le> yr" "yr < xr"
    | "xl < yl" "yl \<le> xr" "yr < xr" | "xl < yl" "yl \<le> xr" "xr \<le> yr"
    by linarith
  then show ?case
  proof cases
    case 1
    then have "ivs_ok (difference_loop ((xl, xr) # xs) ys)
        \<and> members (difference_loop ((xl, xr) # xs) ys) = members ((xl, xr) # xs) - members ys"
      using "3.IH"(1) "3.prems" y(3) by blast
    then show ?thesis using 1 x(1,4) by fastforce
  next
    case 2
    then have "ivs_ok (difference_loop xs ((yl, yr) # ys))
        \<and> members (difference_loop xs ((yl, yr) # ys)) = members xs - members ((yl, yr) # ys)"
      using "3.IH"(2) "3.prems" x(3) by blast
    then show ?thesis using 2 x y by (fastforce intro!: ivs_ok_ConsI)
  next
    case 3
    then have "ivs_ok (difference_loop xs ((yl, yr) # ys))
        \<and> members (difference_loop xs ((yl, yr) # ys)) = members xs - members ((yl, yr) # ys)"
      using "3.IH"(3) "3.prems" x(1,3) by simp
    then show ?thesis using 3 x y by fastforce
  next
    case 4
    have "ivs_ok ((yr + 1, xr) # xs)" using ivs_ok_trim [OF "3.prems"(1)] 4 by simp
    then have "ivs_ok (difference_loop ((yr + 1, xr) # xs) ys)
        \<and> members (difference_loop ((yr + 1, xr) # xs) ys) = members ((yr + 1, xr) # xs) - members ys"
      using "3.IH"(4) 4 y(3) by (simp add: wrap)
    then show ?thesis using 4 x y by (fastforce simp: wrap)
  next
    case 5
    have "ivs_ok ((yr + 1, xr) # xs)" using ivs_ok_trim [OF "3.prems"(1)] 5 y(1) by simp
    then have IH: "ivs_ok (difference_loop ((yr + 1, xr) # xs) ys)
        \<and> members (difference_loop ((yr + 1, xr) # xs) ys) = members ((yr + 1, xr) # xs) - members ys"
      using "3.IH"(5) 5 y(1,3) by (simp add: wrap)
    have eq: "difference_loop ((xl, xr) # xs) ((yl, yr) # ys)
        = (xl, yl - 1) # difference_loop ((yr + 1, xr) # xs) ys"
      using 5 y(1) by (simp add: wrap)
    have "members ((xl, yl - 1) # difference_loop ((yr + 1, xr) # xs) ys)
        = members ((xl, xr) # xs) - members ((yl, yr) # ys)"
      using IH 5 x y by fastforce
    moreover have "ivs_ok ((xl, yl - 1) # difference_loop ((yr + 1, xr) # xs) ys)"
      using IH 5 x y by (fastforce intro!: ivs_ok_ConsI)
    ultimately show ?thesis by (simp only: eq)
  next
    case 6
    then have IH: "ivs_ok (difference_loop xs ((yl, yr) # ys))
        \<and> members (difference_loop xs ((yl, yr) # ys)) = members xs - members ((yl, yr) # ys)"
      using "3.IH"(6) "3.prems" x(3) by simp
    have eq: "difference_loop ((xl, xr) # xs) ((yl, yr) # ys)
        = (xl, yl - 1) # difference_loop xs ((yl, yr) # ys)"
      using 6 y(1) by simp
    have "members ((xl, yl - 1) # difference_loop xs ((yl, yr) # ys))
        = members ((xl, xr) # xs) - members ((yl, yr) # ys)"
      using IH 6 x y by fastforce
    moreover have "ivs_ok ((xl, yl - 1) # difference_loop xs ((yl, yr) # ys))"
      using IH 6 x y by (fastforce intro!: ivs_ok_ConsI)
    ultimately show ?thesis by (simp only: eq)
  qed
qed auto

lemma intersection_loop_ok:
  "ivs_ok xs \<Longrightarrow> ivs_ok ys \<Longrightarrow>
     ivs_ok (intersection_loop xs ys) \<and> members (intersection_loop xs ys) = members xs \<inter> members ys"
proof (induction xs ys rule: intersection_loop.induct)
  case (3 u v xs uu vv ys)
  note x = ivs_ok_ConsD [OF "3.prems"(1)] and y = ivs_ok_ConsD [OF "3.prems"(2)]
  consider "vv < u" | "v < uu" "\<not> vv < u" | "u \<le> vv" "uu \<le> v" "v < vv" | "u \<le> vv" "uu \<le> v" "vv \<le> v"
    by linarith
  then show ?case
  proof cases
    case 1
    then have "ivs_ok (intersection_loop ((u, v) # xs) ys)
        \<and> members (intersection_loop ((u, v) # xs) ys) = members ((u, v) # xs) \<inter> members ys"
      using "3.IH"(1) "3.prems" y(3) by blast
    then show ?thesis using 1 x y by fastforce
  next
    case 2
    then have "ivs_ok (intersection_loop xs ((uu, vv) # ys))
        \<and> members (intersection_loop xs ((uu, vv) # ys)) = members xs \<inter> members ((uu, vv) # ys)"
      using "3.IH"(2) "3.prems" x(3) by blast
    then show ?thesis using 2 x y by fastforce
  next
    case 3
    then have IH: "ivs_ok (intersection_loop xs ((uu, vv) # ys))
        \<and> members (intersection_loop xs ((uu, vv) # ys)) = members xs \<inter> members ((uu, vv) # ys)"
      using "3.IH"(3) "3.prems" x(3) by simp
    have eq: "intersection_loop ((u, v) # xs) ((uu, vv) # ys)
        = (max u uu, v) # intersection_loop xs ((uu, vv) # ys)"
      using 3 by simp
    have "members ((max u uu, v) # intersection_loop xs ((uu, vv) # ys))
        = members ((u, v) # xs) \<inter> members ((uu, vv) # ys)"
      using IH 3 x y by fastforce
    moreover have "ivs_ok ((max u uu, v) # intersection_loop xs ((uu, vv) # ys))"
      using IH 3 x y by (fastforce intro!: ivs_ok_ConsI)
    ultimately show ?thesis by (simp only: eq)
  next
    case 4
    then have IH: "ivs_ok (intersection_loop ((u, v) # xs) ys)
        \<and> members (intersection_loop ((u, v) # xs) ys) = members ((u, v) # xs) \<inter> members ys"
      using "3.IH"(4) "3.prems" y(3) by simp
    have eq: "intersection_loop ((u, v) # xs) ((uu, vv) # ys)
        = (max u uu, vv) # intersection_loop ((u, v) # xs) ys"
      using 4 by simp
    have "members ((max u uu, vv) # intersection_loop ((u, v) # xs) ys)
        = members ((u, v) # xs) \<inter> members ((uu, vv) # ys)"
      using IH 4 x y by fastforce
    moreover have "ivs_ok ((max u uu, vv) # intersection_loop ((u, v) # xs) ys)"
      using IH 4 x y by (fastforce intro!: ivs_ok_ConsI)
    ultimately show ?thesis by (simp only: eq)
  qed
qed auto

lemma iv_wf_ok: "iv_wf s \<Longrightarrow> ivs_ok (intervals s)"
  by (simp add: iv_wf_def tables_ok_def)

lemma union_ok:
  assumes "iv_wf s" and "iv_wf t"
  shows "\<exists>r. union s t = Inr r \<and> iv_wf r
           \<and> members (intervals r) = members (intervals s) \<union> members (intervals t)"
proof (cases "intervals s = [] \<or> intervals t = []")
  case True
  then show ?thesis
    using new_ok [OF iv_wf_ok [OF assms(1)]] new_ok [OF iv_wf_ok [OF assms(2)]]
    by (auto simp: union_def)
next
  case False
  define ms where "ms = sort_key fst (intervals s @ intervals t)"
  have set: "set ms = set (intervals s) \<union> set (intervals t)" by (simp add: ms_def)
  then have m: "members ms = members (intervals s) \<union> members (intervals t)"
    by (auto simp: members_def)
  have "\<forall>(u, v) \<in> set ms. u \<le> v \<and> v \<le> 0x10FFFF"
    using iv_wf_ok [OF assms(1)] iv_wf_ok [OF assms(2)] unfolding set ivs_ok_def by auto
  moreover have "sorted (map fst ms)" by (simp add: ms_def)
  ultimately have "ivs_ok (foldl union_push [] ms) \<and> members (foldl union_push [] ms) = members ms"
    using foldl_union_push [of ms "[]"] by simp
  with new_ok [of "foldl union_push [] ms"] False m show ?thesis by (auto simp: union_def ms_def)
qed

lemma difference_ok:
  assumes "iv_wf s" and "iv_wf t"
  shows "\<exists>r. difference s t = Inr r \<and> iv_wf r
           \<and> members (intervals r) = members (intervals s) - members (intervals t)"
  using new_ok difference_loop_ok [OF iv_wf_ok [OF assms(1)] iv_wf_ok [OF assms(2)]]
  unfolding difference_def by metis

lemma intersection_ok:
  assumes "iv_wf s" and "iv_wf t"
  shows "\<exists>r. intersection s t = Inr r \<and> iv_wf r
           \<and> members (intervals r) = members (intervals s) \<inter> members (intervals t)"
  using new_ok intersection_loop_ok [OF iv_wf_ok [OF assms(1)] iv_wf_ok [OF assms(2)]]
  unfolding intersection_def by metis

section \<open>The shrink order is a permutation\<close>

definition printable :: "interval_set \<Rightarrow> bool" where
  "printable s \<longleftrightarrow> (\<forall>x \<in> members (intervals s). \<not> (0xD800 \<le> x \<and> x \<le> 0xDFFF))"

text \<open>The position a shrink rank stands for, and the rank of a position.\<close>

definition position_of_rank :: "nat \<Rightarrow> int \<Rightarrow> nat \<Rightarrow> nat" where
  "position_of_rank z0 z i =
     (if int i \<le> z
      then if int i \<le> z - int z0 then i + z0 else nat (int z0 - (int i - (z - int z0)))
      else i)"

definition rank_of_position :: "nat \<Rightarrow> int \<Rightarrow> nat \<Rightarrow> nat" where
  "rank_of_position z0 z k =
     (if int k \<le> z
      then if z0 \<le> k then k - z0 else nat (int z0 - int k + (z - int z0))
      else k)"

lemma rank_position_inverse:
  assumes "z < int n" and "int z0 \<le> z + 1"
  shows "i < n \<Longrightarrow> rank_of_position z0 z (position_of_rank z0 z i) = i"
    and "k < n \<Longrightarrow> position_of_rank z0 z (rank_of_position z0 z k) = k"
    and "i < n \<Longrightarrow> position_of_rank z0 z i < n"
    and "k < n \<Longrightarrow> rank_of_position z0 z k < n"
  using assms by (auto simp: rank_of_position_def position_of_rank_def)

lemma below_mono: "d \<le> e \<Longrightarrow> below ivs d \<le> below ivs e"
proof -
  assume "d \<le> e"
  then have "filter (\<lambda>x. x < d) (elements ivs) = filter (\<lambda>x. x < d) (filter (\<lambda>x. x < e) (elements ivs))"
    by (auto intro: filter_cong)
  then show ?thesis unfolding below_def by (metis length_filter_le)
qed

lemma anchors:
  assumes "iv_wf s" and "0 < iv_size s"
  shows "idx_of_z s < int (iv_size s)" and "int (idx_of_zero s) \<le> idx_of_z s + 1"
proof -
  have "below (intervals s) 48 \<le> iv_size s"
    using assms(1) by (simp add: below_def iv_wf_def tables_ok_def)
  then show "idx_of_z s < int (iv_size s)" and "int (idx_of_zero s) \<le> idx_of_z s + 1"
    using assms below_mono [of 48 90 "intervals s"] by (auto simp: iv_wf_def)
qed

lemma char_in_shrink_order_position:
  assumes "iv_wf s" and "printable s" and "i < iv_size s"
  shows "char_in_shrink_order s i
           = Some (elements (intervals s) ! position_of_rank (idx_of_zero s) (idx_of_z s) i)"
proof -
  let ?p = "position_of_rank (idx_of_zero s) (idx_of_z s) i"
  have t: "tables_ok s" using assms(1) by (simp add: iv_wf_def)
  have a: "idx_of_z s < int (iv_size s)" "int (idx_of_zero s) \<le> idx_of_z s + 1"
    using anchors assms by simp_all
  have p: "?p < iv_size s" using rank_position_inverse(3) [OF a assms(3)] .
  have "iv_get s (int ?p) = Some (elements (intervals s) ! ?p)"
    using p by (simp add: iv_get_elements [OF t])
  moreover have "elements (intervals s) ! ?p \<in> members (intervals s)"
    using p t nth_mem [of ?p "elements (intervals s)"] by (simp add: tables_ok_def)
  then have "char_from_u32 (elements (intervals s) ! ?p) = Some (elements (intervals s) ! ?p)"
    using assms(2) iv_wf_ok [OF assms(1)]
    by (fastforce simp: char_from_u32_def printable_def members_def ivs_ok_def)
  moreover have "(if int i \<le> idx_of_z s
      then if int i \<le> idx_of_z s - int (idx_of_zero s) then int i + int (idx_of_zero s)
           else int (idx_of_zero s) - (int i - (idx_of_z s - int (idx_of_zero s)))
      else int i) = int ?p"
    using a by (auto simp: position_of_rank_def)
  ultimately show ?thesis
    unfolding char_in_shrink_order_def Let_def by (simp only: Option.bind.simps)
qed

lemma index_from_codepoint_rank:
  assumes "iv_wf s" and "k < iv_size s" and "elements (intervals s) ! k = cp"
  shows "index_from_codepoint_in_shrink_order s cp
           = Some (rank_of_position (idx_of_zero s) (idx_of_z s) k)"
proof -
  have "iv_index s cp = Some k" using assms iv_index_Some [of s cp k] by (simp add: iv_wf_def)
  then show ?thesis
    by (auto simp: index_from_codepoint_in_shrink_order_def Let_def rank_of_position_def)
qed

text \<open>C39: on well-formed sets \<open>union\<close>, \<open>difference\<close> and \<open>intersection\<close> raise no internal error
  and return well-formed sets whose members are the union, difference and intersection.
\<close>
theorem interval_set_algebra:
  assumes "iv_wf s" and "iv_wf t"
  shows "(\<exists>r. union s t = Inr r \<and> iv_wf r
            \<and> members (intervals r) = members (intervals s) \<union> members (intervals t))
     \<and> (\<exists>r. difference s t = Inr r \<and> iv_wf r
            \<and> members (intervals r) = members (intervals s) - members (intervals t))
     \<and> (\<exists>r. intersection s t = Inr r \<and> iv_wf r
            \<and> members (intervals r) = members (intervals s) \<inter> members (intervals t))"
  using union_ok [OF assms] difference_ok [OF assms] intersection_ok [OF assms] by blast

lemma shrink_order_roundtrip:
  assumes "iv_wf s" and "printable s" and "i < iv_size s"
  shows "\<exists>c. char_in_shrink_order s i = Some c \<and> c \<in> members (intervals s)
           \<and> index_from_codepoint_in_shrink_order s c = Some i"
proof -
  let ?p = "position_of_rank (idx_of_zero s) (idx_of_z s) i"
  have a: "idx_of_z s < int (iv_size s)" "int (idx_of_zero s) \<le> idx_of_z s + 1"
    using anchors assms by simp_all
  have p: "?p < iv_size s" using rank_position_inverse(3) [OF a assms(3)] .
  then have "elements (intervals s) ! ?p \<in> members (intervals s)"
    using assms(1) nth_mem [of ?p "elements (intervals s)"] by (simp add: iv_wf_def tables_ok_def)
  then show ?thesis
    using char_in_shrink_order_position [OF assms] index_from_codepoint_rank [OF assms(1) p refl]
      rank_position_inverse(1) [OF a assms(3)] by simp
qed

lemma shrink_order_surj:
  assumes "iv_wf s" and "printable s" and "c \<in> members (intervals s)"
  shows "\<exists>i<iv_size s. index_from_codepoint_in_shrink_order s c = Some i
           \<and> char_in_shrink_order s i = Some c"
proof -
  obtain k where k: "k < iv_size s" "elements (intervals s) ! k = c"
    using assms(1,3) by (auto simp: iv_wf_def tables_ok_def in_set_conv_nth simp flip: set_elements)
  then have a: "idx_of_z s < int (iv_size s)" "int (idx_of_zero s) \<le> idx_of_z s + 1"
    using anchors assms by simp_all
  let ?i = "rank_of_position (idx_of_zero s) (idx_of_z s) k"
  have "?i < iv_size s" using rank_position_inverse(4) [OF a k(1)] .
  then show ?thesis
    using index_from_codepoint_rank [OF assms(1) k] char_in_shrink_order_position [OF assms(1,2)]
      rank_position_inverse(2) [OF a k(1)] k(2) by auto
qed

text \<open>In a non-empty set without surrogates the shrink order is a bijection between ranks
  and members, and \<open>'0'\<close> comes first whenever it is a member. No \<open>unwrap\<close> panics.\<close>
theorem shrink_order_bijection:
  assumes "iv_wf s" and "printable s"
  shows "(\<forall>i<iv_size s. \<exists>c. char_in_shrink_order s i = Some c \<and> c \<in> members (intervals s)
            \<and> index_from_codepoint_in_shrink_order s c = Some i)
     \<and> (\<forall>c \<in> members (intervals s). \<exists>i<iv_size s.
            index_from_codepoint_in_shrink_order s c = Some i \<and> char_in_shrink_order s i = Some c)
     \<and> (48 \<in> members (intervals s) \<longrightarrow> char_in_shrink_order s 0 = Some 48)"
proof (intro conjI allI ballI impI)
  assume zero: "48 \<in> members (intervals s)"
  then obtain k where k: "k < iv_size s" "elements (intervals s) ! k = 48"
    using assms(1) by (auto simp: iv_wf_def tables_ok_def in_set_conv_nth simp flip: set_elements)
  have t: "tables_ok s" using assms(1) by (simp add: iv_wf_def)
  then have len: "k < length (elements (intervals s))" using k by (simp add: tables_ok_def)
  have sorted: "sorted_wrt (<) (elements (intervals s))"
    using sorted_elements t by (simp add: tables_ok_def)
  have split: "elements (intervals s) = take k (elements (intervals s)) @ 48 # drop (Suc k) (elements (intervals s))"
    using id_take_nth_drop [OF len] k(2) by simp
  have "below (intervals s) 48 = k"
  proof -
    have lo: "x < 48" if "x \<in> set (take k (elements (intervals s)))" for x
      using sorted that by (subst (asm) split) (simp add: sorted_wrt_append)
    have hi: "48 < x" if "x \<in> set (drop (Suc k) (elements (intervals s)))" for x
      using sorted that by (subst (asm) split) (simp add: sorted_wrt_append)
    have "filter (\<lambda>x. x < 48) (elements (intervals s)) = take k (elements (intervals s))"
      using lo hi by (subst split) (force simp: filter_id_conv filter_empty_conv)
    then show ?thesis using len by (simp add: below_def)
  qed
  then have z0: "idx_of_zero s = k" using assms(1) by (simp add: iv_wf_def)
  have a: "idx_of_z s < int (iv_size s)" "int (idx_of_zero s) \<le> idx_of_z s + 1"
    using anchors assms k(1) by simp_all
  have "k \<le> below (intervals s) 90"
    using below_mono [of 48 90 "intervals s"] \<open>below (intervals s) 48 = k\<close> by simp
  then have "int k \<le> idx_of_z s" using assms(1) k(1) by (simp add: iv_wf_def)
  then have "index_from_codepoint_in_shrink_order s 48 = Some 0"
    using index_from_codepoint_rank [OF assms(1) k] z0 by (simp add: rank_of_position_def)
  with shrink_order_surj [OF assms zero] show "char_in_shrink_order s 0 = Some 48" by auto
next
  fix i assume "i < iv_size s"
  with shrink_order_roundtrip [OF assms] show "\<exists>c. char_in_shrink_order s i = Some c
      \<and> c \<in> members (intervals s) \<and> index_from_codepoint_in_shrink_order s c = Some i" .
next
  fix c assume "c \<in> members (intervals s)"
  with shrink_order_surj [OF assms] show "\<exists>i<iv_size s.
      index_from_codepoint_in_shrink_order s c = Some i \<and> char_in_shrink_order s i = Some c" .
qed

section \<open>Concrete sets\<close>

text \<open>The alphabets \<open>/-2\<close> and \<open>1-1\<close>, as \<open>new\<close> builds them.\<close>

definition sample_set :: interval_set where
  "sample_set = \<lparr>intervals = [(47, 50)], offsets = [0], iv_size = 4, idx_of_zero = 1, idx_of_z = 3\<rparr>"

definition sample_one :: interval_set where
  "sample_one = \<lparr>intervals = [(49, 49)], offsets = [0], iv_size = 1, idx_of_zero = 0, idx_of_z = 0\<rparr>"

lemma sample_new: "new [(47, 50)] = Inr sample_set" "new [(49, 49)] = Inr sample_one"
  by (simp_all add: new_def Let_def u32_wrap_def index_above_def interval_for_def sample_set_def sample_one_def)

lemma sample_wf [simp]: "iv_wf sample_set" "iv_wf sample_one"
  using new_ok [of "[(47, 50)]"] new_ok [of "[(49, 49)]"] sample_new
  by (auto simp: ivs_ok_def)

lemma sample_printable [simp]: "printable sample_set"
  by (simp add: printable_def sample_set_def)

theorem interval_set_get_witness:
  "iv_wf sample_set \<and> iv_get sample_set (-1) = Some 50 \<and> iv_get sample_set 4 = None"
proof -
  have e: "elements (intervals sample_set) = [47, 48, 49, 50]"
    by (simp add: sample_set_def upt_rec_numeral)
  have size: "iv_size sample_set = 4" by (simp add: sample_set_def)
  show ?thesis
    using interval_set_get [OF sample_wf(1), of "-1"] interval_set_get [OF sample_wf(1), of 4]
    by (simp add: e size numeral_3_eq_3)
qed

theorem interval_set_index_witness:
  "iv_wf sample_set \<and> iv_index sample_set 46 = None \<and> contains sample_set 48"
proof -
  have "members (intervals sample_set) = {47..50}" by (simp add: sample_set_def)
  then show ?thesis
    using interval_set_index [OF sample_wf(1), of 46] interval_set_index [OF sample_wf(1), of 48] by simp
qed

theorem interval_set_algebra_witness:
  "iv_wf sample_set \<and> iv_wf sample_one
   \<and> (\<exists>r. difference sample_set sample_one = Inr r \<and> iv_wf r
        \<and> members (intervals r) = members (intervals sample_set) - members (intervals sample_one))"
  using interval_set_algebra [OF sample_wf] by simp

theorem shrink_order_bijection_witness:
  "iv_wf sample_set \<and> printable sample_set \<and> char_in_shrink_order sample_set 0 = Some 48"
proof -
  have "48 \<in> members (intervals sample_set)" by (simp add: sample_set_def)
  then show ?thesis using shrink_order_bijection [OF sample_wf(1) sample_printable] by simp
qed

end
