(* ===== verification/Constraints.thy ===== *)
theory Constraints
  imports Intervals "HOL-Library.Product_Lexorder" "HOL-Library.List_Lexorder"
begin

text \<open>
  The integer, boolean, bytes and string constraints of \<open>hegel-c/src/native/core/choices.rs\<close>:
  for each, the simplest and second-simplest value, membership, the sort key, and the
  dense index (\<open>to_index\<close>, \<open>from_index\<close>, \<open>max_index\<close>) the index passes of the shrinker
  step through. A \<open>BigInt\<close> is an \<open>int\<close> and a \<open>BigUint\<close> a \<open>nat\<close>; tuples and vectors compare
  lexicographically, as in Rust.
\<close>

section \<open>Integers\<close>

record integer_choice =
  ic_min :: int
  ic_max :: int
  ic_shrink_towards :: int

text \<open>
  \<open>Ord::clamp\<close> asserts that its bounds are ordered; \<open>integer_wf\<close> is that assertion, and the
  draw layer rejects a range that violates it before a choice is built.
\<close>

definition integer_wf :: "integer_choice \<Rightarrow> bool" where
  "integer_wf c \<longleftrightarrow> ic_min c \<le> ic_max c"

definition clamped_shrink_towards :: "integer_choice \<Rightarrow> int" where
  "clamped_shrink_towards c =
     (if ic_shrink_towards c < ic_min c then ic_min c
      else if ic_max c < ic_shrink_towards c then ic_max c
      else ic_shrink_towards c)"

definition integer_simplest :: "integer_choice \<Rightarrow> int" where
  "integer_simplest c = clamped_shrink_towards c"

definition integer_validate :: "integer_choice \<Rightarrow> int \<Rightarrow> bool" where
  "integer_validate c v \<longleftrightarrow> ic_min c \<le> v \<and> v \<le> ic_max c"

definition integer_unit :: "integer_choice \<Rightarrow> int" where
  "integer_unit c =
     (let s = integer_simplest c
      in if integer_validate c (s + 1) then s + 1
         else if integer_validate c (s - 1) then s - 1
         else s)"

definition integer_sort_key :: "integer_choice \<Rightarrow> int \<Rightarrow> nat \<times> bool" where
  "integer_sort_key c v =
     (let target = clamped_shrink_towards c in (nat \<bar>v - target\<bar>, v < target))"

definition integer_max_index :: "integer_choice \<Rightarrow> nat" where
  "integer_max_index c = nat \<bar>ic_max c - ic_min c\<bar>"

definition integer_to_index :: "integer_choice \<Rightarrow> int \<Rightarrow> nat" where
  "integer_to_index c v =
     (let s = integer_simplest c
      in if v = s then 0
         else
           let above = nat \<bar>ic_max c - s\<bar>;
               below = nat \<bar>s - ic_min c\<bar>;
               d_abs = nat \<bar>v - s\<bar>;
               d_minus_one = d_abs - 1;
               count = min d_minus_one above + min d_minus_one below
           in if s < v then count + 1
              else (if d_abs \<le> above then count + 1 else count) + 1)"

definition integer_from_index :: "integer_choice \<Rightarrow> nat \<Rightarrow> int option" where
  "integer_from_index c index =
     (let s = integer_simplest c
      in if index = 0 then Some s
         else
           let above = nat \<bar>ic_max c - s\<bar>;
               below = nat \<bar>s - ic_min c\<bar>
           in if above + below < index then None
              else
                let two_a = push_bit 1 (min above below);
                    (d, up) = (if index \<le> two_a
                               then (drop_bit 1 (index + 1), index mod 2 \<noteq> 0)
                               else (index - min above below, below < above))
                in if up then Some (s + int d) else Some (s - int d))"

definition value_from_bigint :: "integer_choice \<Rightarrow> int \<Rightarrow> int option" where
  "value_from_bigint c v = (if integer_validate c v then Some v else None)"

section \<open>Booleans\<close>

text \<open>The probability is an \<open>f64\<close>, compared by its bits.\<close>

record boolean_choice =
  bc_p :: f64

definition boolean_simplest :: "boolean_choice \<Rightarrow> bool" where
  "boolean_simplest c = False"

definition boolean_unit :: "boolean_choice \<Rightarrow> bool" where
  "boolean_unit c = True"

definition boolean_max_index :: "boolean_choice \<Rightarrow> nat" where
  "boolean_max_index c = 1"

definition boolean_to_index :: "boolean_choice \<Rightarrow> bool \<Rightarrow> nat" where
  "boolean_to_index c v = of_bool v"

definition boolean_from_index :: "boolean_choice \<Rightarrow> nat \<Rightarrow> bool option" where
  "boolean_from_index c index =
     (if index = 0 then Some False else if index = 1 then Some True else None)"

section \<open>Shortlex indices\<close>

text \<open>
  The two loops that bytes and strings share: the Horner evaluation of a digit list, and the
  digits that repeated \<open>%\<close> and \<open>/=\<close> push, least significant first. A bucket is
  \<open>base.pow(length as u32)\<close>, so the exponent is reduced to 32 bits.
\<close>

definition bucket :: "nat \<Rightarrow> nat \<Rightarrow> nat" where
  "bucket base n = base ^ (n mod 2 ^ 32)"

definition buckets_before :: "nat \<Rightarrow> nat \<Rightarrow> nat \<Rightarrow> nat" where
  "buckets_before base lo hi = foldl (\<lambda>offset n. offset + bucket base n) 0 [lo..<hi]"

definition position_of :: "nat \<Rightarrow> nat list \<Rightarrow> nat" where
  "position_of base ds = foldl (\<lambda>position d. position * base + d) 0 ds"

fun digits_pushed :: "nat \<Rightarrow> nat \<Rightarrow> nat \<Rightarrow> nat list" where
  "digits_pushed base 0 remaining = []"
| "digits_pushed base (Suc n) remaining =
     remaining mod base # digits_pushed base n (remaining div base)"

section \<open>Bytes\<close>

record bytes_choice =
  by_min_size :: nat
  by_max_size :: nat

definition bytes_wf :: "bytes_choice \<Rightarrow> bool" where
  "bytes_wf c \<longleftrightarrow> by_min_size c \<le> by_max_size c \<and> by_max_size c < 2 ^ 32"

definition bytes_simplest :: "bytes_choice \<Rightarrow> u8 list" where
  "bytes_simplest c = replicate (by_min_size c) 0"

definition bytes_unit :: "bytes_choice \<Rightarrow> u8 list" where
  "bytes_unit c =
     (if 0 < by_min_size c then (replicate (by_min_size c) 0)[by_min_size c - 1 := 1]
      else if 0 < by_max_size c then [1]
      else bytes_simplest c)"

definition bytes_validate :: "bytes_choice \<Rightarrow> u8 list \<Rightarrow> bool" where
  "bytes_validate c v \<longleftrightarrow> by_min_size c \<le> length v \<and> length v \<le> by_max_size c"

definition bytes_to_index :: "bytes_choice \<Rightarrow> u8 list \<Rightarrow> nat" where
  "bytes_to_index c v =
     buckets_before 256 (by_min_size c) (length v) + position_of 256 (map unat v)"

definition bytes_max_index :: "bytes_choice \<Rightarrow> nat" where
  "bytes_max_index c = bytes_to_index c (replicate (by_max_size c) 0xFF)"

definition u8_try_from :: "nat \<Rightarrow> u8 option" where
  "u8_try_from n = (if n < 256 then Some (of_nat n) else None)"

fun bytes_from_index_loop :: "nat list \<Rightarrow> nat \<Rightarrow> u8 list option internal_result" where
  "bytes_from_index_loop [] remaining = Inr None"
| "bytes_from_index_loop (n # ns) remaining =
     (if remaining < bucket 256 n
      then rbind (rmap (\<lambda>d. hegel_internal_unwrap (u8_try_from d)
                              ''BytesChoice::from_index: byte digit > 255'')
                       (digits_pushed 256 n remaining)) (\<lambda>result.
           Inr (Some (rev result)))
      else bytes_from_index_loop ns (remaining - bucket 256 n))"

definition bytes_from_index :: "bytes_choice \<Rightarrow> nat \<Rightarrow> u8 list option internal_result" where
  "bytes_from_index c index =
     bytes_from_index_loop [by_min_size c..<by_max_size c + 1] index"

section \<open>Strings\<close>

text \<open>
  A string value is its list of codepoints. \<open>IntervalSet::char_in_shrink_order\<close> unwraps a
  \<open>char::from_u32\<close> and \<open>index_from_codepoint_in_shrink_order\<close> panics outside the alphabet.
\<close>

record string_choice =
  sc_intervals :: interval_set
  sc_min_size :: nat
  sc_max_size :: nat

definition string_wf :: "string_choice \<Rightarrow> bool" where
  "string_wf c \<longleftrightarrow> iv_wf (sc_intervals c) \<and> printable (sc_intervals c)
     \<and> sc_min_size c \<le> sc_max_size c \<and> sc_max_size c < 2 ^ 32
     \<and> (iv_size (sc_intervals c) = 0 \<longrightarrow> sc_max_size c = 0)"

definition codepoint_key :: "string_choice \<Rightarrow> codepoint \<Rightarrow> nat internal_result" where
  "codepoint_key c cp =
     rbind (unwrap_or_panic (index_from_codepoint_in_shrink_order (sc_intervals c) cp)
              ''codepoint not in the alphabet'') (\<lambda>i. Inr (u32_wrap i))"

definition key_to_codepoint :: "string_choice \<Rightarrow> nat \<Rightarrow> codepoint option internal_result" where
  "key_to_codepoint c key =
     (if iv_size (sc_intervals c) \<le> key then Inr None
      else rbind (unwrap_or_panic (char_in_shrink_order (sc_intervals c) key)
                    ''char::from_u32'') (\<lambda>cp. Inr (Some cp)))"

definition simplest_codepoint :: "string_choice \<Rightarrow> codepoint internal_result" where
  "simplest_codepoint c =
     rbind (hegel_internal_assert (iv_size (sc_intervals c) \<noteq> 0)
              ''StringChoice::simplest_codepoint: empty alphabet'') (\<lambda>_.
     unwrap_or_panic (char_in_shrink_order (sc_intervals c) 0) ''char::from_u32'')"

definition string_simplest :: "string_choice \<Rightarrow> codepoint list internal_result" where
  "string_simplest c =
     (if sc_min_size c = 0 then Inr []
      else rbind (simplest_codepoint c) (\<lambda>cp. Inr (replicate (sc_min_size c) cp)))"

definition string_unit :: "string_choice \<Rightarrow> codepoint list internal_result" where
  "string_unit c =
     (if iv_size (sc_intervals c) = 0 then string_simplest c
      else
        rbind (simplest_codepoint c) (\<lambda>simplest_cp.
        rbind (key_to_codepoint c 1) (\<lambda>second_cp.
        case second_cp of
          Some cp \<Rightarrow>
            if cp \<noteq> simplest_cp then
              (if 0 < sc_min_size c
               then rbind (string_simplest c) (\<lambda>v. Inr (v[length v - 1 := cp]))
               else if 0 < sc_max_size c then Inr [cp]
               else string_simplest c)
            else if sc_min_size c < sc_max_size c
                 then Inr (replicate (sc_min_size c + 1) simplest_cp)
                 else string_simplest c
        | None \<Rightarrow>
            if sc_min_size c < sc_max_size c
            then Inr (replicate (sc_min_size c + 1) simplest_cp)
            else string_simplest c)))"

definition string_validate :: "string_choice \<Rightarrow> codepoint list \<Rightarrow> bool" where
  "string_validate c v \<longleftrightarrow>
     (sc_min_size c \<le> length v \<and> length v \<le> sc_max_size c)
     \<and> list_all (contains (sc_intervals c)) v"

definition alpha_size :: "string_choice \<Rightarrow> nat" where
  "alpha_size c = iv_size (sc_intervals c)"

definition codepoint_rank :: "string_choice \<Rightarrow> codepoint \<Rightarrow> nat internal_result" where
  "codepoint_rank c cp = codepoint_key c cp"

definition codepoint_at_rank :: "string_choice \<Rightarrow> nat \<Rightarrow> codepoint internal_result" where
  "codepoint_at_rank c rank =
     rbind (key_to_codepoint c (u32_wrap rank)) (\<lambda>cp.
     hegel_internal_unwrap cp ''StringChoice::codepoint_at_rank: rank outside the alphabet'')"

definition string_max_index :: "string_choice \<Rightarrow> nat internal_result" where
  "string_max_index c =
     (let total = buckets_before (alpha_size c) (sc_min_size c) (sc_max_size c + 1)
      in if total = 0 then Inl (Panicked ''attempt to subtract with overflow'')
         else Inr (total - 1))"

definition string_to_index :: "string_choice \<Rightarrow> codepoint list \<Rightarrow> nat internal_result" where
  "string_to_index c v =
     rbind (rmap (codepoint_rank c) v) (\<lambda>ranks.
     Inr (buckets_before (alpha_size c) (sc_min_size c) (length v)
          + position_of (alpha_size c) ranks))"

definition u64_try_from :: "nat \<Rightarrow> nat option" where
  "u64_try_from n = (if n < 2 ^ 64 then Some n else None)"

fun string_from_index_loop :: "string_choice \<Rightarrow> nat list \<Rightarrow> nat
                               \<Rightarrow> codepoint list option internal_result" where
  "string_from_index_loop c [] remaining = Inr None"
| "string_from_index_loop c (n # ns) remaining =
     (if remaining < bucket (alpha_size c) n
      then rbind (rmap (\<lambda>d. rbind (hegel_internal_unwrap (u64_try_from d)
                                ''StringChoice::from_index: rank does not fit in u64'')
                              (codepoint_at_rank c))
                       (digits_pushed (alpha_size c) n remaining)) (\<lambda>cps.
           Inr (Some (rev cps)))
      else string_from_index_loop c ns (remaining - bucket (alpha_size c) n))"

definition string_from_index :: "string_choice \<Rightarrow> nat \<Rightarrow> codepoint list option internal_result" where
  "string_from_index c index =
     rbind (hegel_internal_assert (alpha_size c \<noteq> 0 \<or> sc_max_size c = 0)
              ''StringChoice::from_index: empty alphabet with nonzero max_size'') (\<lambda>_.
     string_from_index_loop c [sc_min_size c..<sc_max_size c + 1] index)"

section \<open>Integers: the index is the rank in sort-key order\<close>

lemma integer_simplest_valid: "integer_wf c \<Longrightarrow> integer_validate c (integer_simplest c)"
  by (simp add: integer_wf_def integer_validate_def integer_simplest_def clamped_shrink_towards_def)

lemma integer_unit_valid: "integer_wf c \<Longrightarrow> integer_validate c (integer_unit c)"
  by (simp add: integer_unit_def Let_def integer_simplest_valid)

lemma integer_to_index_cases:
  assumes "integer_wf c" "integer_validate c v"
  defines "s \<equiv> integer_simplest c"
  defines "a \<equiv> nat (ic_max c - s)" and "b \<equiv> nat (s - ic_min c)"
  shows "v = s \<Longrightarrow> integer_to_index c v = 0"
    and "s < v \<Longrightarrow> nat (v - s) \<le> b \<Longrightarrow> integer_to_index c v = 2 * nat (v - s) - 1"
    and "s < v \<Longrightarrow> b < nat (v - s) \<Longrightarrow> integer_to_index c v = nat (v - s) + b"
    and "v < s \<Longrightarrow> nat (s - v) \<le> a \<Longrightarrow> integer_to_index c v = 2 * nat (s - v)"
    and "v < s \<Longrightarrow> a < nat (s - v) \<Longrightarrow> integer_to_index c v = nat (s - v) + a"
proof -
  have bnd: "ic_min c \<le> s" "s \<le> ic_max c" "ic_min c \<le> v" "v \<le> ic_max c"
    using integer_simplest_valid [OF assms(1)] assms(2) by (auto simp: integer_validate_def s_def)
  note defs = integer_to_index_def s_def [symmetric] a_def b_def Let_def
  show "v = s \<Longrightarrow> integer_to_index c v = 0"
    by (simp add: defs)
  show "s < v \<Longrightarrow> nat (v - s) \<le> b \<Longrightarrow> integer_to_index c v = 2 * nat (v - s) - 1"
    using bnd unfolding defs by (auto simp: min_def mult_2)
  show "s < v \<Longrightarrow> b < nat (v - s) \<Longrightarrow> integer_to_index c v = nat (v - s) + b"
    using bnd unfolding defs by (auto simp: min_def)
  show "v < s \<Longrightarrow> nat (s - v) \<le> a \<Longrightarrow> integer_to_index c v = 2 * nat (s - v)"
    using bnd unfolding defs by (auto simp: min_def)
  show "v < s \<Longrightarrow> a < nat (s - v) \<Longrightarrow> integer_to_index c v = nat (s - v) + a"
    using bnd unfolding defs by (simp add: min_def) linarith
qed

lemma integer_from_index_cases:
  assumes "integer_wf c"
  defines "s \<equiv> integer_simplest c"
  defines "a \<equiv> nat (ic_max c - s)" and "b \<equiv> nat (s - ic_min c)"
  shows "integer_from_index c 0 = Some s"
    and "0 < d \<Longrightarrow> d \<le> min a b \<Longrightarrow> integer_from_index c (2 * d - 1) = Some (s + int d)"
    and "0 < d \<Longrightarrow> d \<le> min a b \<Longrightarrow> integer_from_index c (2 * d) = Some (s - int d)"
    and "b < d \<Longrightarrow> d \<le> a \<Longrightarrow> integer_from_index c (d + b) = Some (s + int d)"
    and "a < d \<Longrightarrow> d \<le> b \<Longrightarrow> integer_from_index c (d + a) = Some (s - int d)"
    and "a + b < i \<Longrightarrow> integer_from_index c i = None"
proof -
  have bnd: "ic_min c \<le> s" "s \<le> ic_max c"
    using integer_simplest_valid [OF assms(1)] by (auto simp: integer_validate_def s_def)
  have ab: "nat \<bar>ic_max c - s\<bar> = a" "nat \<bar>s - ic_min c\<bar> = b"
    using bnd by (auto simp: a_def b_def)
  have shift: "push_bit 1 n = 2 * n" "drop_bit 1 n = n div 2" for n :: nat
    by (simp_all add: push_bit_eq_mult drop_bit_eq_div)
  note defs = integer_from_index_def s_def [symmetric] ab Let_def shift
  show "integer_from_index c 0 = Some s"
    by (simp add: defs)
  show "0 < d \<Longrightarrow> d \<le> min a b \<Longrightarrow> integer_from_index c (2 * d - 1) = Some (s + int d)"
    unfolding defs by (auto simp: min_def split: if_splits) presburger+
  show "0 < d \<Longrightarrow> d \<le> min a b \<Longrightarrow> integer_from_index c (2 * d) = Some (s - int d)"
    unfolding defs by (auto simp: min_def split: if_splits)
  show "b < d \<Longrightarrow> d \<le> a \<Longrightarrow> integer_from_index c (d + b) = Some (s + int d)"
    unfolding defs by (auto simp: min_def)
  show "a < d \<Longrightarrow> d \<le> b \<Longrightarrow> integer_from_index c (d + a) = Some (s - int d)"
    unfolding defs by (auto simp: min_def)
  show "a + b < i \<Longrightarrow> integer_from_index c i = None"
    unfolding defs by auto
qed

lemma integer_from_to_index:
  assumes "integer_wf c" "integer_validate c v"
  shows "integer_from_index c (integer_to_index c v) = Some v"
proof -
  let ?s = "integer_simplest c"
  let ?a = "nat (ic_max c - ?s)" and ?b = "nat (?s - ic_min c)"
  have bnd: "ic_min c \<le> ?s" "?s \<le> ic_max c" "ic_min c \<le> v" "v \<le> ic_max c"
    using integer_simplest_valid [OF assms(1)] assms(2) by (auto simp: integer_validate_def)
  note to = integer_to_index_cases [OF assms] and "from" = integer_from_index_cases [OF assms(1)]
  consider "v = ?s" | "?s < v" "nat (v - ?s) \<le> ?b" | "?s < v" "?b < nat (v - ?s)"
    | "v < ?s" "nat (?s - v) \<le> ?a" | "v < ?s" "?a < nat (?s - v)"
    by linarith
  then show ?thesis
  proof cases
    case 1
    with to(1) "from"(1) show ?thesis by simp
  next
    case 2
    have "0 < nat (v - ?s)" "nat (v - ?s) \<le> min ?a ?b" using 2 bnd by auto
    from "from"(2) [OF this] show ?thesis using 2 by (simp add: to(2))
  next
    case 3
    have "nat (v - ?s) \<le> ?a" using bnd by simp
    from "from"(4) [OF 3(2) this] show ?thesis using 3(1) by (simp add: to(3) [OF 3])
  next
    case 4
    have "0 < nat (?s - v)" "nat (?s - v) \<le> min ?a ?b" using 4 bnd by auto
    from "from"(3) [OF this] show ?thesis using 4 by (simp add: to(4))
  next
    case 5
    have "nat (?s - v) \<le> ?b" using bnd by simp
    from "from"(5) [OF 5(2) this] show ?thesis using 5(1) by (simp add: to(5) [OF 5])
  qed
qed

definition signed_rank :: "nat \<Rightarrow> nat \<Rightarrow> nat \<Rightarrow> bool \<Rightarrow> nat" where
  "signed_rank a b d neg = (if d = 0 then 0 else if neg then d + min d a else d + min (d - 1) b)"

lemma signed_rank_less:
  assumes "\<not> n \<Longrightarrow> d \<le> a" "n \<Longrightarrow> 0 < d \<and> d \<le> b" "\<not> m \<Longrightarrow> e \<le> a" "m \<Longrightarrow> 0 < e \<and> e \<le> b"
  shows "signed_rank a b d n < signed_rank a b e m \<longleftrightarrow> d < e \<or> d = e \<and> \<not> n \<and> m"
  using assms unfolding signed_rank_def min_def
  by (cases n; cases m; cases "d = 0"; cases "e = 0"; simp; linarith)

lemma integer_to_index_signed_rank:
  assumes "integer_wf c" "integer_validate c v"
  defines "s \<equiv> integer_simplest c"
  shows "integer_to_index c v =
    signed_rank (nat (ic_max c - s)) (nat (s - ic_min c)) (nat \<bar>v - s\<bar>) (v < s)"
proof (cases v s rule: linorder_cases)
  case less
  let ?d = "nat (s - v)"
  have d: "nat \<bar>v - s\<bar> = ?d" "?d \<noteq> 0" "v < s" using less by auto
  show ?thesis
    using integer_to_index_cases(4,5) [OF assms(1,2), folded s_def, OF less]
    unfolding signed_rank_def d(1) by (cases "?d \<le> nat (ic_max c - s)") (use d in auto)
next
  case greater
  let ?d = "nat (v - s)"
  have d: "nat \<bar>v - s\<bar> = ?d" "?d \<noteq> 0" "\<not> v < s" using greater by auto
  have e: "2 * ?d - 1 = ?d + (?d - 1)" using d(2) by linarith
  show ?thesis
    using integer_to_index_cases(2,3) [OF assms(1,2), folded s_def, OF greater]
    unfolding signed_rank_def d(1) e by (cases "?d \<le> nat (s - ic_min c)") (use d in auto)
qed (use integer_to_index_cases(1) [OF assms(1,2)] in \<open>simp add: s_def signed_rank_def\<close>)

lemma integer_index_order:
  assumes "integer_wf c" "integer_validate c v" "integer_validate c w"
  shows "integer_to_index c v < integer_to_index c w
           \<longleftrightarrow> integer_sort_key c v < integer_sort_key c w"
proof -
  let ?s = "integer_simplest c"
  have bnd: "ic_min c \<le> ?s" "?s \<le> ic_max c"
    using integer_simplest_valid [OF assms(1)] by (auto simp: integer_validate_def)
  have key: "integer_sort_key c x = (nat \<bar>x - ?s\<bar>, x < ?s)" for x
    by (simp add: integer_sort_key_def integer_simplest_def Let_def)
  show ?thesis
    unfolding integer_to_index_signed_rank [OF assms(1,2)]
      integer_to_index_signed_rank [OF assms(1,3)] key less_prod_simp
    by (subst signed_rank_less) (use assms(2,3) bnd in \<open>auto simp: integer_validate_def\<close>)
qed

lemma integer_index_range:
  assumes "integer_wf c" "integer_validate c v"
  shows "integer_to_index c v \<le> integer_max_index c"
proof -
  let ?s = "integer_simplest c"
  have bnd: "ic_min c \<le> ?s" "?s \<le> ic_max c" "ic_min c \<le> v" "v \<le> ic_max c"
    using integer_simplest_valid [OF assms(1)] assms(2) by (auto simp: integer_validate_def)
  show ?thesis
    using bnd integer_to_index_cases [OF assms] unfolding integer_max_index_def
    by (cases v ?s rule: linorder_cases; cases "nat (v - ?s) \<le> nat (?s - ic_min c)";
        cases "nat (?s - v) \<le> nat (ic_max c - ?s)") auto
qed

section \<open>Shortlex: the index of a sequence is its rank\<close>

lemma bucket_small: "n < 2 ^ 32 \<Longrightarrow> bucket base n = base ^ n"
  by (simp add: bucket_def)

lemma buckets_before_Suc:
  "lo \<le> hi \<Longrightarrow> buckets_before base lo (Suc hi) = buckets_before base lo hi + bucket base hi"
  by (simp add: buckets_before_def)

lemma buckets_before_same [simp]: "buckets_before base lo lo = 0"
  by (simp add: buckets_before_def)

lemma foldl_add_bucket:
  "foldl (\<lambda>offset n. offset + f n) (z :: nat) ns = z + foldl (\<lambda>offset n. offset + f n) 0 ns"
proof (induction ns arbitrary: z)
  case (Cons n ns)
  show ?case using Cons [of "z + f n"] Cons [of "f n"] by simp
qed simp

lemma buckets_before_first:
  "lo < hi \<Longrightarrow> buckets_before base lo hi = bucket base lo + buckets_before base (Suc lo) hi"
  using foldl_add_bucket [of "bucket base" "bucket base lo"]
  by (simp add: buckets_before_def upt_conv_Cons)

lemma buckets_before_mono:
  assumes "lo \<le> m" "m < n"
  shows "buckets_before base lo m + bucket base m \<le> buckets_before base lo n"
  using assms(2,1)
proof (induction n)
  case (Suc n)
  show ?case
  proof (cases "m = n")
    case False
    with Suc have "buckets_before base lo m + bucket base m \<le> buckets_before base lo n" by simp
    then show ?thesis using Suc by (simp add: buckets_before_Suc)
  qed (use Suc in \<open>simp add: buckets_before_Suc\<close>)
qed simp

lemma position_of_Nil [simp]: "position_of base [] = 0"
  by (simp add: position_of_def)

lemma position_of_snoc [simp]: "position_of base (ds @ [d]) = position_of base ds * base + d"
  by (simp add: position_of_def)

lemma position_of_less: "(\<And>d. d \<in> set ds \<Longrightarrow> d < base) \<Longrightarrow> position_of base ds < base ^ length ds"
proof (induction ds rule: rev_induct)
  case (snoc d ds)
  have "position_of base ds + 1 \<le> base ^ length ds" using snoc by (simp add: Suc_leI)
  from mult_le_mono1 [OF this, of base] snoc.prems [of d] show ?case by (simp add: algebra_simps)
qed simp

lemma digits_pushed_position:
  "(\<And>d. d \<in> set ds \<Longrightarrow> d < base) \<Longrightarrow> digits_pushed base (length ds) (position_of base ds) = rev ds"
proof (induction ds rule: rev_induct)
  case (snoc d ds)
  have "d < base" "0 < base" using snoc.prems [of d] by auto
  then show ?case using snoc by simp
qed simp

lemma length_digits_pushed [simp]: "length (digits_pushed base n r) = n"
  by (induction base n r rule: digits_pushed.induct) auto

lemma digits_pushed_less:
  "0 < base \<Longrightarrow> d \<in> set (digits_pushed base n r) \<Longrightarrow> d < base"
  by (induction base n r rule: digits_pushed.induct) auto

lemma position_digits_pushed:
  "r < base ^ n \<Longrightarrow> position_of base (rev (digits_pushed base n r)) = r"
proof (induction base n r rule: digits_pushed.induct)
  case (2 base n r)
  have "r div base < base ^ n" using 2(2) by (simp add: less_mult_imp_div_less mult.commute)
  with 2(1) show ?case by (simp add: div_mult_mod_eq)
qed simp

lemma position_of_Cons:
  "position_of base (d # ds) = d * base ^ length ds + position_of base ds"
  by (induction ds rule: rev_induct) (auto simp: algebra_simps simp flip: append_Cons, simp add: position_of_def)

lemma position_of_lex:
  assumes "length ds = length es"
    and "\<And>d. d \<in> set ds \<union> set es \<Longrightarrow> d < base"
  shows "position_of base ds < position_of base es \<longleftrightarrow> ds < es"
  using assms
proof (induction ds es rule: list_induct2)
  case (Cons d ds e es)
  have lt: "position_of base ds < base ^ length es" "position_of base es < base ^ length es"
    using position_of_less [of ds base] position_of_less [of es base] Cons.hyps Cons.prems by auto
  have split: "d * b + p < e * b + q \<longleftrightarrow> d < e \<or> d = e \<and> p < q" if "p < b" "q < b" for b p q :: nat
  proof (cases d e rule: linorder_cases)
    case less
    then have "Suc d * b \<le> e * b" by (intro mult_le_mono1) simp
    with less that show ?thesis by simp
  next
    case greater
    then have "Suc e * b \<le> d * b" by (intro mult_le_mono1) simp
    with greater that show ?thesis by simp
  qed auto
  show ?case
    using Cons.IH Cons.prems Cons.hyps split [OF lt] by (auto simp: position_of_Cons)
qed simp

text \<open>
  The contract a shortlex alphabet gives: ranks below the base, and a reader of ranks that
  inverts them. Bytes satisfy it with base 256, and the codepoints of an alphabet with the
  alphabet's cardinality.
\<close>

locale shortlex =
  fixes base :: nat
    and letter :: "'a \<Rightarrow> bool"
    and rank :: "'a \<Rightarrow> nat"
    and at_rank :: "nat \<Rightarrow> 'a"
  assumes rank_less: "letter x \<Longrightarrow> rank x < base"
    and at_rank_rank: "letter x \<Longrightarrow> at_rank (rank x) = x"
    and letter_at_rank: "d < base \<Longrightarrow> letter (at_rank d)"
    and rank_at_rank: "d < base \<Longrightarrow> rank (at_rank d) = d"
begin

definition "index lo xs = buckets_before base lo (length xs) + position_of base (map rank xs)"

fun read_loop where
  "read_loop [] remaining = None"
| "read_loop (n # ns) remaining =
     (if remaining < bucket base n then Some (rev (map at_rank (digits_pushed base n remaining)))
      else read_loop ns (remaining - bucket base n))"

definition "read lo hi i = read_loop [lo..<hi + 1] i"

lemma position_less:
  "list_all letter xs \<Longrightarrow> position_of base (map rank xs) < base ^ length xs"
  using position_of_less [of "map rank xs" base] rank_less by (auto simp: list_all_iff)

lemma read_position:
  assumes "list_all letter xs"
  shows "rev (map at_rank (digits_pushed base (length xs) (position_of base (map rank xs)))) = xs"
proof -
  have "digits_pushed base (length (map rank xs)) (position_of base (map rank xs))
          = rev (map rank xs)"
    using assms rank_less by (intro digits_pushed_position) (auto simp: list_all_iff)
  moreover have "map (at_rank \<circ> rank) xs = xs"
    using assms by (intro map_idI) (simp add: list_all_iff at_rank_rank)
  ultimately show ?thesis by (simp add: rev_map [symmetric])
qed

lemma index_less_end:
  assumes "list_all letter xs" "lo \<le> length xs" "length xs \<le> hi" "hi < 2 ^ 32"
  shows "index lo xs < buckets_before base lo (hi + 1)"
proof -
  have "index lo xs < buckets_before base lo (length xs) + bucket base (length xs)"
    using position_less [OF assms(1)] assms(3,4) by (simp add: index_def bucket_small)
  also have "\<dots> \<le> buckets_before base lo (hi + 1)"
    using buckets_before_mono [of lo "length xs" "hi + 1" base] assms by simp
  finally show ?thesis .
qed

lemma read_loop_index:
  assumes "list_all letter xs" "k \<le> length xs" "length xs \<le> hi" "hi < 2 ^ 32"
  shows "read_loop [k..<hi + 1]
           (buckets_before base k (length xs) + position_of base (map rank xs)) = Some xs"
  using assms(2)
proof (induction "length xs - k" arbitrary: k)
  case 0
  then have "k = length xs" by simp
  then show ?case
    using assms position_less [OF assms(1)] read_position [OF assms(1)]
    by (simp add: upt_conv_Cons bucket_small del: upt_Suc)
next
  case (Suc m)
  have "k < length xs" using Suc by simp
  then show ?case
    using Suc assms by (simp add: upt_conv_Cons buckets_before_first del: upt_Suc)
qed

lemma read_index:
  assumes "list_all letter xs" "lo \<le> length xs" "length xs \<le> hi" "hi < 2 ^ 32"
  shows "read lo hi (index lo xs) = Some xs"
  using read_loop_index [OF assms] by (simp add: read_def index_def)

lemma read_loop_Some:
  assumes "lo \<le> hi + 1" "hi < 2 ^ 32" "i < buckets_before base lo (hi + 1)"
  shows "\<exists>xs. read_loop [lo..<hi + 1] i = Some xs \<and> list_all letter xs
           \<and> lo \<le> length xs \<and> length xs \<le> hi \<and> index lo xs = i"
  using assms
proof (induction "hi + 1 - lo" arbitrary: lo i)
  case 0
  then show ?case by simp
next
  case (Suc m)
  have lo: "lo < hi + 1" "lo < 2 ^ 32" using Suc by auto
  show ?case
  proof (cases "i < bucket base lo")
    case True
    with lo(2) have i: "i < base ^ lo" by (simp add: bucket_small)
    let ?ds = "digits_pushed base lo i"
    have ds: "d < base" if "d \<in> set ?ds" for d
    proof -
      have "0 < base"
      proof (rule ccontr)
        assume "\<not> 0 < base"
        with i that show False by (cases lo) auto
      qed
      from digits_pushed_less [OF this that] show ?thesis .
    qed
    let ?xs = "rev (map at_rank ?ds)"
    have "map rank ?xs = rev ?ds"
      using ds by (simp add: rev_map [symmetric] rank_at_rank map_idI)
    then have "index lo ?xs = i"
      using position_digits_pushed [OF i] by (simp add: index_def)
    moreover have "list_all letter ?xs"
      using ds letter_at_rank by (auto simp: list_all_iff)
    ultimately show ?thesis
      using True lo by (intro exI [of _ ?xs]) (simp add: upt_conv_Cons del: upt_Suc)
  next
    case False
    have "i - bucket base lo < buckets_before base (Suc lo) (hi + 1)"
      using False Suc.prems lo by (simp add: buckets_before_first)
    moreover have "m = hi + 1 - Suc lo" "Suc lo \<le> hi + 1" using Suc.hyps(2) lo by auto
    ultimately obtain xs where xs: "read_loop [Suc lo..<hi + 1] (i - bucket base lo) = Some xs"
      "list_all letter xs" "Suc lo \<le> length xs" "length xs \<le> hi"
      "index (Suc lo) xs = i - bucket base lo"
      using Suc.hyps(1) [of "Suc lo" "i - bucket base lo"] Suc.prems(2) by blast
    have "index lo xs = i"
      using xs(3,5) False by (simp add: index_def buckets_before_first)
    then show ?thesis
      using xs False lo by (intro exI [of _ xs]) (simp add: upt_conv_Cons del: upt_Suc)
  qed
qed

lemma index_order:
  assumes "list_all letter xs" "list_all letter ys" "lo \<le> length xs" "lo \<le> length ys"
    and "length xs < 2 ^ 32" "length ys < 2 ^ 32"
  shows "index lo xs < index lo ys
           \<longleftrightarrow> (length xs, map rank xs) < (length ys, map rank ys)"
proof -
  have mono: "index lo as < index lo bs"
    if "list_all letter as" "length as < length bs" "lo \<le> length as" "length as < 2 ^ 32" for as bs
  proof -
    have "index lo as < buckets_before base lo (length as) + bucket base (length as)"
      using position_less [OF that(1)] that(4) by (simp add: index_def bucket_small)
    also have "\<dots> \<le> index lo bs"
      using buckets_before_mono [of lo "length as" "length bs" base] that by (simp add: index_def)
    finally show ?thesis .
  qed
  consider "length xs < length ys" | "length ys < length xs" | "length xs = length ys" by linarith
  then show ?thesis
  proof cases
    case 1
    with mono [of xs ys] assms show ?thesis by simp
  next
    case 2
    with mono [of ys xs] assms show ?thesis by simp
  next
    case 3
    have "position_of base (map rank xs) < position_of base (map rank ys)
            \<longleftrightarrow> map rank xs < map rank ys"
      using 3 assms rank_less by (intro position_of_lex) (auto simp: list_all_iff)
    then show ?thesis using 3 by (simp add: index_def)
  qed
qed

end

interpretation byte_order: shortlex 256 "\<lambda>_. True" "unat :: u8 \<Rightarrow> nat" "of_nat :: nat \<Rightarrow> u8"
  by unfold_locales (simp_all add: unat_of_nat)

lemma list_all_True [simp]: "list_all (\<lambda>_. True) xs"
  by (simp add: list_all_iff)

lemma bytes_to_index_shortlex: "bytes_to_index c v = byte_order.index (by_min_size c) v"
  by (simp add: bytes_to_index_def byte_order.index_def)

lemma bytes_from_index_loop_shortlex:
  "bytes_from_index_loop ns r = Inr (byte_order.read_loop ns r)"
proof (induction ns arbitrary: r)
  case (Cons n ns)
  have "rmap (\<lambda>d. hegel_internal_unwrap (u8_try_from d) m) (digits_pushed 256 n r)
          = Inr (map of_nat (digits_pushed 256 n r))" for m
  proof (rule rmap_Inr)
    fix d
    assume "d \<in> set (digits_pushed 256 n r)"
    then have "d < 256" by (intro digits_pushed_less [of 256 d n r]) simp_all
    then show "hegel_internal_unwrap (u8_try_from d) m = Inr (of_nat d)"
      by (simp add: u8_try_from_def)
  qed
  with Cons show ?case by simp
qed simp

lemma bytes_from_index_shortlex:
  "bytes_from_index c i = Inr (byte_order.read (by_min_size c) (by_max_size c) i)"
  by (simp add: bytes_from_index_def byte_order.read_def bytes_from_index_loop_shortlex)

lemma bytes_simplest_valid: "bytes_wf c \<Longrightarrow> bytes_validate c (bytes_simplest c)"
  by (simp add: bytes_wf_def bytes_validate_def bytes_simplest_def)

lemma bytes_unit_valid: "bytes_wf c \<Longrightarrow> bytes_validate c (bytes_unit c)"
  by (auto simp: bytes_wf_def bytes_validate_def bytes_simplest_def bytes_unit_def)

lemma position_of_replicate:
  "position_of base (replicate n (base - 1)) + 1 = base ^ n" if "0 < base"
proof (induction n)
  case (Suc n)
  have "(base - 1) * base ^ n + base ^ n = base * base ^ n"
    using that by (simp add: diff_mult_distrib)
  with Suc show ?case by (simp add: position_of_Cons)
qed simp

lemma position_of_zeros: "position_of base (replicate n 0) = 0"
  by (induction n) (simp_all add: position_of_Cons)

lemma bytes_max_index_eq:
  "bytes_wf c \<Longrightarrow> bytes_max_index c + 1 = buckets_before 256 (by_min_size c) (by_max_size c + 1)"
  using position_of_replicate [of 256 "by_max_size c"]
  by (simp add: bytes_max_index_def bytes_to_index_def buckets_before_Suc bucket_small bytes_wf_def
      map_replicate_const)

lemma bytes_from_to_index:
  "bytes_wf c \<Longrightarrow> bytes_validate c v \<Longrightarrow> bytes_from_index c (bytes_to_index c v) = Inr (Some v)"
  unfolding bytes_from_index_shortlex bytes_to_index_shortlex
  by (simp add: byte_order.read_index bytes_wf_def bytes_validate_def)

lemma bytes_index_range:
  "bytes_wf c \<Longrightarrow> bytes_validate c v \<Longrightarrow> bytes_to_index c v \<le> bytes_max_index c"
  using byte_order.index_less_end [of v "by_min_size c" "by_max_size c"] bytes_max_index_eq [of c]
  by (simp add: bytes_to_index_shortlex bytes_wf_def bytes_validate_def)

lemma bytes_index_onto:
  assumes "bytes_wf c" "i \<le> bytes_max_index c"
  shows "\<exists>v. bytes_from_index c i = Inr (Some v) \<and> bytes_validate c v \<and> bytes_to_index c v = i"
proof -
  have "by_min_size c \<le> by_max_size c + 1" "by_max_size c < 2 ^ 32"
    using assms(1) by (auto simp: bytes_wf_def)
  moreover have "i < buckets_before 256 (by_min_size c) (by_max_size c + 1)"
    using assms bytes_max_index_eq [of c] by linarith
  ultimately show ?thesis
    using byte_order.read_loop_Some [of "by_min_size c" "by_max_size c" i]
    unfolding bytes_from_index_shortlex bytes_to_index_shortlex byte_order.read_def bytes_validate_def
    by blast
qed

lemma less_unat_list: "map unat v < map unat w \<longleftrightarrow> v < (w :: u8 list)"
proof (induction v arbitrary: w)
  case Nil
  then show ?case by (cases w) auto
next
  case (Cons b v)
  then show ?case
    by (cases w) (simp_all add: word_less_nat_alt [symmetric] word_unat_eq_iff [symmetric])
qed

lemma bytes_index_order:
  assumes "bytes_wf c" "bytes_validate c v" "bytes_validate c w"
  shows "bytes_to_index c v < bytes_to_index c w \<longleftrightarrow> (length v, v) < (length w, w)"
proof -
  have "length v < 2 ^ 32" "length w < 2 ^ 32"
    using assms by (auto simp: bytes_wf_def bytes_validate_def)
  then show ?thesis
    using byte_order.index_order [of v w "by_min_size c"] assms
    by (simp add: bytes_to_index_shortlex bytes_validate_def less_unat_list)
qed

section \<open>Strings: the alphabet's shrink order gives the digits\<close>

definition cp_rank :: "string_choice \<Rightarrow> codepoint \<Rightarrow> nat" where
  "cp_rank c cp = the (index_from_codepoint_in_shrink_order (sc_intervals c) cp)"

definition cp_at :: "string_choice \<Rightarrow> nat \<Rightarrow> codepoint" where
  "cp_at c i = the (char_in_shrink_order (sc_intervals c) i)"

lemma string_shortlex:
  assumes "string_wf c"
  shows "shortlex (alpha_size c) (contains (sc_intervals c)) (cp_rank c) (cp_at c)"
proof -
  have wf: "iv_wf (sc_intervals c)" "printable (sc_intervals c)"
    using assms by (auto simp: string_wf_def)
  have mem: "contains (sc_intervals c) x \<longleftrightarrow> x \<in> members (intervals (sc_intervals c))" for x
    using contains_members wf(1) by (simp add: iv_wf_def tables_ok_def)
  show ?thesis
  proof
    fix x
    assume "contains (sc_intervals c) x"
    then obtain i where "i < alpha_size c"
      "index_from_codepoint_in_shrink_order (sc_intervals c) x = Some i"
      "char_in_shrink_order (sc_intervals c) i = Some x"
      using shrink_order_surj [OF wf] by (auto simp: mem alpha_size_def)
    then show "cp_rank c x < alpha_size c" "cp_at c (cp_rank c x) = x"
      by (simp_all add: cp_rank_def cp_at_def)
  next
    fix d
    assume "d < alpha_size c"
    then show "contains (sc_intervals c) (cp_at c d)" "cp_rank c (cp_at c d) = d"
      using shrink_order_roundtrip [OF wf, of d] by (auto simp: mem cp_rank_def cp_at_def alpha_size_def)
  qed
qed

lemma length_elements_bound: "ivs_ok ivs \<Longrightarrow> length (elements ivs) \<le> 0x110000"
proof -
  assume ok: "ivs_ok ivs"
  have "members ivs \<subseteq> {..<0x110000}"
    using ok by (fastforce simp: ivs_ok_def members_def)
  then have "card (members ivs) \<le> card {..<0x110000 :: nat}" by (intro card_mono) simp_all
  then show ?thesis using distinct_card [OF distinct_elements [OF ok]] by simp
qed

lemma alpha_size_bound: "string_wf c \<Longrightarrow> alpha_size c \<le> 0x110000"
  using length_elements_bound by (simp add: string_wf_def iv_wf_def tables_ok_def alpha_size_def)

lemma codepoint_rank_ok:
  assumes "string_wf c" "contains (sc_intervals c) cp"
  shows "codepoint_rank c cp = Inr (cp_rank c cp)"
proof -
  have wf: "iv_wf (sc_intervals c)" "printable (sc_intervals c)"
    using assms by (auto simp: string_wf_def)
  have "cp \<in> members (intervals (sc_intervals c))"
    using contains_members assms(2) wf(1) by (simp add: iv_wf_def)
  then obtain i where "i < alpha_size c"
    "index_from_codepoint_in_shrink_order (sc_intervals c) cp = Some i"
    using shrink_order_surj [OF wf] by (auto simp: alpha_size_def)
  then show ?thesis
    using alpha_size_bound [OF assms(1)]
    by (simp add: codepoint_rank_def codepoint_key_def cp_rank_def u32_wrap_def)
qed

lemma codepoint_at_rank_ok:
  assumes "string_wf c" "d < alpha_size c"
  shows "codepoint_at_rank c d = Inr (cp_at c d)"
proof -
  have wf: "iv_wf (sc_intervals c)" "printable (sc_intervals c)"
    using assms by (auto simp: string_wf_def)
  obtain x where "char_in_shrink_order (sc_intervals c) d = Some x"
    using shrink_order_roundtrip [OF wf, of d] assms(2) by (auto simp: alpha_size_def)
  moreover have "u32_wrap d = d"
    using alpha_size_bound [OF assms(1)] assms(2) by (simp add: u32_wrap_def)
  ultimately show ?thesis
    using assms(2) by (simp add: codepoint_at_rank_def key_to_codepoint_def cp_at_def alpha_size_def)
qed

lemma string_to_index_ok:
  assumes "string_wf c" "string_validate c v"
  shows "string_to_index c v
           = Inr (shortlex.index (alpha_size c) (cp_rank c) (sc_min_size c) v)"
proof -
  have "rmap (codepoint_rank c) v = Inr (map (cp_rank c) v)"
    using assms by (intro rmap_Inr codepoint_rank_ok) (auto simp: string_validate_def list_all_iff)
  then show ?thesis
    by (simp add: string_to_index_def shortlex.index_def [OF string_shortlex [OF assms(1)]])
qed

lemma string_from_index_loop_ok:
  assumes "string_wf c" "alpha_size c \<noteq> 0 \<or> (\<forall>n \<in> set ns. n = 0)"
  shows "string_from_index_loop c ns r = Inr (shortlex.read_loop (alpha_size c) (cp_at c) ns r)"
  using assms(2)
proof (induction ns arbitrary: r)
  case Nil
  then show ?case by (simp add: shortlex.read_loop.simps [OF string_shortlex [OF assms(1)]])
next
  case (Cons n ns)
  have "rmap (\<lambda>d. rbind (hegel_internal_unwrap (u64_try_from d) m) (codepoint_at_rank c))
          (digits_pushed (alpha_size c) n r) = Inr (map (cp_at c) (digits_pushed (alpha_size c) n r))"
    for m
  proof (rule rmap_Inr)
    fix d
    assume d: "d \<in> set (digits_pushed (alpha_size c) n r)"
    then have "0 < alpha_size c" using Cons.prems by (cases n) auto
    with d have "d < alpha_size c" using digits_pushed_less by blast
    then show "rbind (hegel_internal_unwrap (u64_try_from d) m) (codepoint_at_rank c)
                 = Inr (cp_at c d)"
      using alpha_size_bound [OF assms(1)] codepoint_at_rank_ok [OF assms(1)]
      by (simp add: u64_try_from_def)
  qed
  moreover have "string_from_index_loop c ns r' = Inr (shortlex.read_loop (alpha_size c) (cp_at c) ns r')"
    for r' using Cons by auto
  ultimately show ?case
    by (simp add: shortlex.read_loop.simps [OF string_shortlex [OF assms(1)]])
qed

lemma string_from_index_ok:
  assumes "string_wf c"
  shows "string_from_index c i
           = Inr (shortlex.read (alpha_size c) (cp_at c) (sc_min_size c) (sc_max_size c) i)"
proof -
  have a: "alpha_size c \<noteq> 0 \<or> sc_max_size c = 0"
    using assms by (auto simp: string_wf_def alpha_size_def)
  then have "alpha_size c \<noteq> 0 \<or> (\<forall>n \<in> set [sc_min_size c..<sc_max_size c + 1]. n = 0)"
    by auto
  from string_from_index_loop_ok [OF assms this] a show ?thesis
    by (simp add: string_from_index_def shortlex.read_def [OF string_shortlex [OF assms]])
qed

lemma bucket_sum_positive:
  assumes "string_wf c"
  shows "0 < buckets_before (alpha_size c) (sc_min_size c) (sc_max_size c + 1)"
proof -
  have "0 < bucket (alpha_size c) (sc_min_size c)"
    using assms by (auto simp: string_wf_def bucket_small alpha_size_def)
  moreover have "bucket (alpha_size c) (sc_min_size c)
       \<le> buckets_before (alpha_size c) (sc_min_size c) (sc_max_size c + 1)"
    using buckets_before_mono [of "sc_min_size c" "sc_min_size c" "sc_max_size c + 1" "alpha_size c"]
      assms by (simp add: string_wf_def)
  ultimately show ?thesis by linarith
qed

lemma string_max_index_ok:
  assumes "string_wf c"
  shows "\<exists>m. string_max_index c = Inr m
           \<and> m + 1 = buckets_before (alpha_size c) (sc_min_size c) (sc_max_size c + 1)"
  using bucket_sum_positive [OF assms] by (simp add: string_max_index_def Let_def)

lemma key_to_codepoint_ok:
  assumes "string_wf c"
  shows "key_to_codepoint c d = Inr (if d < alpha_size c then Some (cp_at c d) else None)"
proof (cases "d < alpha_size c")
  case True
  have "iv_wf (sc_intervals c)" "printable (sc_intervals c)"
    using assms by (auto simp: string_wf_def)
  from shrink_order_roundtrip [OF this, of d] True show ?thesis
    by (auto simp: key_to_codepoint_def cp_at_def alpha_size_def)
qed (simp add: key_to_codepoint_def alpha_size_def)

lemma simplest_codepoint_ok:
  assumes "string_wf c" "alpha_size c \<noteq> 0"
  shows "simplest_codepoint c = Inr (cp_at c 0)"
  using key_to_codepoint_ok [OF assms(1), of 0] assms(2)
  by (auto simp: key_to_codepoint_def simplest_codepoint_def alpha_size_def)

lemma string_simplest_ok:
  assumes "string_wf c"
  shows "string_simplest c = Inr (replicate (sc_min_size c) (cp_at c 0))"
  using assms simplest_codepoint_ok [OF assms]
  by (cases "sc_min_size c = 0") (auto simp: string_simplest_def string_wf_def alpha_size_def)

lemma cp_at_contains: "string_wf c \<Longrightarrow> d < alpha_size c \<Longrightarrow> contains (sc_intervals c) (cp_at c d)"
  using shortlex.letter_at_rank [OF string_shortlex] .

lemma string_simplest_valid:
  assumes "string_wf c"
  shows "\<exists>v. string_simplest c = Inr v \<and> string_validate c v"
  using assms cp_at_contains [OF assms, of 0]
  by (auto simp: string_simplest_ok string_validate_def list_all_iff string_wf_def alpha_size_def)

lemma string_unit_valid:
  assumes wf: "string_wf c"
  shows "\<exists>v. string_unit c = Inr v \<and> string_validate c v"
proof (cases "alpha_size c = 0")
  case True
  then show ?thesis using string_simplest_valid [OF wf] by (simp add: string_unit_def alpha_size_def)
next
  case False
  have size: "sc_min_size c \<le> sc_max_size c" using wf by (simp add: string_wf_def)
  have zero: "contains (sc_intervals c) (cp_at c 0)" using cp_at_contains [OF wf] False by simp
  have one: "contains (sc_intervals c) (cp_at c 1)" if "1 < alpha_size c"
    using cp_at_contains [OF wf that] .
  have upd: "list_all (contains (sc_intervals c)) (v[n := cp_at c 1])"
    if "list_all (contains (sc_intervals c)) v" "1 < alpha_size c" for v n
    using that one by (auto simp: list_all_iff dest: subsetD [OF set_update_subset_insert])
  have rep: "list_all (contains (sc_intervals c)) (replicate n (cp_at c 0))" for n
    using zero by (simp add: list_all_iff)
  have "alpha_size c = iv_size (sc_intervals c)" by (simp add: alpha_size_def)
  with False show ?thesis
    using size zero one rep upd [OF rep]
    by (cases "1 < alpha_size c")
       (auto simp: string_unit_def simplest_codepoint_ok [OF wf] key_to_codepoint_ok [OF wf]
          string_simplest_ok [OF wf] string_validate_def)
qed

section \<open>Properties\<close>

text \<open>C17: the index of an integer choice is a bijection between the valid values and
  \<open>0..max_index\<close>, its order is the shrinker's sort-key order, the simplest value has index
  0, and indices past the range are refused.
\<close>
theorem integer_index_bijection:
  assumes "integer_wf c"
  shows "(\<forall>v. integer_validate c v \<longrightarrow>
            integer_to_index c v \<le> integer_max_index c
            \<and> integer_from_index c (integer_to_index c v) = Some v)
     \<and> (\<forall>i. (i \<le> integer_max_index c \<longrightarrow>
               (\<exists>v. integer_from_index c i = Some v \<and> integer_validate c v
                    \<and> integer_to_index c v = i))
            \<and> (integer_max_index c < i \<longrightarrow> integer_from_index c i = None))
     \<and> (\<forall>v w. integer_validate c v \<and> integer_validate c w \<longrightarrow>
            (integer_to_index c v < integer_to_index c w
               \<longleftrightarrow> integer_sort_key c v < integer_sort_key c w))
     \<and> integer_to_index c (integer_simplest c) = 0"
proof -
  have fin: "finite {v. integer_validate c v}"
  proof -
    have "{v. integer_validate c v} = {ic_min c..ic_max c}" by (auto simp: integer_validate_def)
    then show ?thesis by simp
  qed
  have inj: "inj_on (integer_to_index c) {v. integer_validate c v}"
    by (rule inj_on_inverseI [of _ "\<lambda>i. the (integer_from_index c i)"])
       (simp add: integer_from_to_index [OF assms])
  have "card {v. integer_validate c v} = integer_max_index c + 1"
  proof -
    have "{v. integer_validate c v} = {ic_min c..ic_max c}" by (auto simp: integer_validate_def)
    then show ?thesis using assms by (simp add: integer_max_index_def integer_wf_def)
  qed
  then have "card (integer_to_index c ` {v. integer_validate c v}) = card {..integer_max_index c}"
    by (simp add: card_image [OF inj])
  then have img: "integer_to_index c ` {v. integer_validate c v} = {..integer_max_index c}"
    using integer_index_range [OF assms] by (intro card_subset_eq) auto
  have onto: "\<exists>v. integer_from_index c i = Some v \<and> integer_validate c v \<and> integer_to_index c v = i"
    if "i \<le> integer_max_index c" for i
  proof -
    from that have "i \<in> integer_to_index c ` {v. integer_validate c v}" by (simp add: img)
    then obtain v where v: "integer_validate c v" "integer_to_index c v = i" by (elim imageE) simp
    from integer_from_to_index [OF assms v(1)] v show ?thesis by auto
  qed
  have none: "integer_from_index c i = None" if "integer_max_index c < i" for i
  proof -
    let ?s = "integer_simplest c"
    have "nat (ic_max c - ?s) + nat (?s - ic_min c) < i"
      using that integer_simplest_valid [OF assms]
      by (simp add: integer_max_index_def integer_validate_def) linarith
    then show ?thesis by (rule integer_from_index_cases(6) [OF assms])
  qed
  have "integer_to_index c (integer_simplest c) = 0" by (simp add: integer_to_index_def Let_def)
  with integer_index_range [OF assms] integer_from_to_index [OF assms] integer_index_order [OF assms]
    onto none show ?thesis by blast
qed

theorem integer_index_bijection_witness:
  "integer_wf \<lparr>ic_min = -2, ic_max = 5, ic_shrink_towards = 1\<rparr>
   \<and> integer_to_index \<lparr>ic_min = -2, ic_max = 5, ic_shrink_towards = 1\<rparr> (-2) = 6
   \<and> integer_from_index \<lparr>ic_min = -2, ic_max = 5, ic_shrink_towards = 1\<rparr> 6 = Some (-2)"
proof -
  let ?c = "\<lparr>ic_min = -2, ic_max = 5, ic_shrink_towards = 1\<rparr>"
  have wf: "integer_wf ?c" by (simp add: integer_wf_def)
  have valid: "integer_validate ?c (-2)" by (simp add: integer_validate_def)
  have "integer_to_index ?c (-2) = 6"
    by (simp add: integer_to_index_def integer_simplest_def clamped_shrink_towards_def)
  with integer_index_bijection [OF wf] valid wf show ?thesis by metis
qed

text \<open>C28: the index of a bytes choice is a bijection between the valid byte vectors and
  \<open>0..max_index\<close>, in shortlex order; the digit conversion never fails, and the number of
  valid vectors is one more than \<open>max_index\<close>.
\<close>
theorem bytes_index_bijection:
  assumes "bytes_wf c"
  shows "(\<forall>v. bytes_validate c v \<longrightarrow>
            bytes_to_index c v \<le> bytes_max_index c
            \<and> bytes_from_index c (bytes_to_index c v) = Inr (Some v))
     \<and> (\<forall>i \<le> bytes_max_index c. \<exists>v. bytes_from_index c i = Inr (Some v)
            \<and> bytes_validate c v \<and> bytes_to_index c v = i)
     \<and> (\<forall>v w. bytes_validate c v \<and> bytes_validate c w \<longrightarrow>
            (bytes_to_index c v < bytes_to_index c w \<longleftrightarrow> (length v, v) < (length w, w)))
     \<and> bytes_to_index c (bytes_simplest c) = 0"
proof -
  have "bytes_to_index c (bytes_simplest c) = 0"
    by (simp add: bytes_to_index_def bytes_simplest_def map_replicate_const position_of_zeros)
  with assms bytes_index_range bytes_from_to_index bytes_index_onto bytes_index_order
  show ?thesis by blast
qed

theorem bytes_index_bijection_witness:
  "bytes_wf \<lparr>by_min_size = 1, by_max_size = 2\<rparr>
   \<and> bytes_to_index \<lparr>by_min_size = 1, by_max_size = 2\<rparr> [1, 2] = 514
   \<and> bytes_from_index \<lparr>by_min_size = 1, by_max_size = 2\<rparr> 514 = Inr (Some [1, 2])"
proof -
  let ?c = "\<lparr>by_min_size = 1, by_max_size = 2\<rparr>"
  have wf: "bytes_wf ?c" by (simp add: bytes_wf_def)
  have valid: "bytes_validate ?c [1, 2]" by (simp add: bytes_validate_def)
  have "bytes_to_index ?c [1, 2] = 514"
    by (simp add: bytes_to_index_def buckets_before_def bucket_def position_of_def)
  with bytes_index_bijection [OF wf] valid wf show ?thesis by metis
qed

text \<open>C27: over an alphabet without surrogates, the index of a string choice is a bijection
  between the valid strings and \<open>0..max_index\<close>, ordered by length and then by the shrink
  ranks of the codepoints; no conversion panics or reports an internal error.
\<close>
theorem string_index_bijection:
  assumes "string_wf c"
  shows "\<exists>m. string_max_index c = Inr m
     \<and> (\<forall>v. string_validate c v \<longrightarrow>
          (\<exists>i \<le> m. string_to_index c v = Inr i \<and> string_from_index c i = Inr (Some v)))
     \<and> (\<forall>i \<le> m. \<exists>v. string_from_index c i = Inr (Some v) \<and> string_validate c v
            \<and> string_to_index c v = Inr i)
     \<and> (\<forall>v w i j. string_validate c v \<and> string_validate c w
            \<and> string_to_index c v = Inr i \<and> string_to_index c w = Inr j \<longrightarrow>
            (i < j \<longleftrightarrow> (length v, map (cp_rank c) v) < (length w, map (cp_rank c) w)))"
proof -
  note sl = string_shortlex [OF assms]
  note to = string_to_index_ok [OF assms] and "from" = string_from_index_ok [OF assms]
  have size: "sc_max_size c < 2 ^ 32" "sc_min_size c \<le> sc_max_size c + 1"
    using assms by (auto simp: string_wf_def)
  obtain m where m: "string_max_index c = Inr m"
    "m + 1 = buckets_before (alpha_size c) (sc_min_size c) (sc_max_size c + 1)"
    using string_max_index_ok [OF assms] by blast
  have valid: "list_all (contains (sc_intervals c)) v" "sc_min_size c \<le> length v"
    "length v \<le> sc_max_size c" "length v < 2 ^ 32" if "string_validate c v" for v
    using that size by (auto simp: string_validate_def)
  have a: "\<exists>i \<le> m. string_to_index c v = Inr i \<and> string_from_index c i = Inr (Some v)"
    if "string_validate c v" for v
    using shortlex.index_less_end [OF sl valid(1,2,3) [OF that] size(1)] m(2)
      shortlex.read_index [OF sl valid(1,2,3) [OF that] size(1)] that
    by (intro exI conjI, rule_tac [2] to) (auto simp: "from")
  have b: "\<exists>v. string_from_index c i = Inr (Some v) \<and> string_validate c v
            \<and> string_to_index c v = Inr i" if "i \<le> m" for i
  proof -
    have "i < buckets_before (alpha_size c) (sc_min_size c) (sc_max_size c + 1)"
      using that m(2) by linarith
    from shortlex.read_loop_Some [OF sl size(2,1) this] obtain v
      where v: "shortlex.read (alpha_size c) (cp_at c) (sc_min_size c) (sc_max_size c) i = Some v"
        "list_all (contains (sc_intervals c)) v" "sc_min_size c \<le> length v"
        "length v \<le> sc_max_size c"
        "shortlex.index (alpha_size c) (cp_rank c) (sc_min_size c) v = i"
      by (auto simp: shortlex.read_def [OF sl])
    then have "string_validate c v" by (simp add: string_validate_def)
    with v show ?thesis by (auto simp: "from" to)
  qed
  have o: "i < j \<longleftrightarrow> (length v, map (cp_rank c) v) < (length w, map (cp_rank c) w)"
    if "string_validate c v" "string_validate c w"
      "string_to_index c v = Inr i" "string_to_index c w = Inr j" for v w i j
    using shortlex.index_order [OF sl valid(1) [OF that(1)] valid(1) [OF that(2)]
        valid(2) [OF that(1)] valid(2) [OF that(2)] valid(4) [OF that(1)] valid(4) [OF that(2)]]
      that to by simp
  from m(1) a b o show ?thesis by blast
qed

definition sample_string :: string_choice where
  "sample_string = \<lparr>sc_intervals = sample_set, sc_min_size = 0, sc_max_size = 3\<rparr>"

theorem string_index_bijection_witness:
  "string_wf sample_string
   \<and> (\<exists>i. string_to_index sample_string [50, 47] = Inr i
        \<and> string_from_index sample_string i = Inr (Some [50, 47]))"
proof -
  have wf: "string_wf sample_string"
    by (simp add: string_wf_def sample_string_def) (simp add: sample_set_def)
  have "string_validate sample_string [50, 47]"
    by (simp add: string_validate_def sample_string_def contains_members iv_wf_def [THEN iffD1, OF sample_wf(1)])
       (simp add: sample_set_def)
  with string_index_bijection [OF wf] wf show ?thesis by blast
qed

end
