(* ===== verification/FloatChoice.thy ===== *)
theory FloatChoice
  imports FloatIndex Constraints
begin

text \<open>
  The float constraint of \<open>hegel-c/src/native/core/choices.rs\<close>: membership, simplest and
  second-simplest value, the sort key, and the dense global rank (finite floats by
  \<open>(float_to_index(|v|), is_neg)\<close>, then the infinities, then the NaN payloads) behind
  \<open>to_index\<close> and \<open>from_index\<close>. Functions that call \<open>simplest_in_range\<close> take the external
  rounding function \<open>libm_ceil\<close> as a parameter.
\<close>

section \<open>The constraint and its membership test\<close>

record float_choice =
  fc_min_value :: f64
  fc_max_value :: f64
  fc_allow_nan :: bool
  fc_allow_infinity :: bool
  fc_smallest_nonzero_magnitude :: f64

text \<open>\<open>f64::max\<close> and \<open>f64::min\<close>: a NaN operand is ignored.\<close>

definition f64_max :: "f64 \<Rightarrow> f64 \<Rightarrow> f64" where
  "f64_max a b = (if is_nan a then b else if is_nan b then a else if f64_lt a b then b else a)"

definition f64_min :: "f64 \<Rightarrow> f64 \<Rightarrow> f64" where
  "f64_min a b = (if is_nan a then b else if is_nan b then a else if f64_lt b a then b else a)"

definition float_validate :: "float_choice \<Rightarrow> f64 \<Rightarrow> bool" where
  "float_validate c v =
     (if is_nan v then fc_allow_nan c
      else if is_infinite v then
        (if \<not> fc_allow_infinity c then False
         else if f64_eq v f64_neg_infinity \<and> f64_lt f64_neg_infinity (fc_min_value c) then False
         else if f64_eq v f64_infinity \<and> f64_lt (fc_max_value c) f64_infinity then False
         else True)
      else if \<not> f64_eq v f64_zero \<and> f64_lt (f64_abs v) (fc_smallest_nonzero_magnitude c) then False
      else sign_aware_lte (fc_min_value c) v \<and> sign_aware_lte v (fc_max_value c))"

definition float_sort_key :: "f64 \<Rightarrow> u64 \<times> bool" where
  "float_sort_key v =
     (if is_nan v then (- 1, False)
      else
        let is_neg = is_sign_negative v;
            mag = (if is_neg then f64_neg v else v)
        in (float_to_index mag, is_neg))"

section \<open>Simplest and second-simplest values\<close>

definition float_simplest_positive ::
  "(f64 \<Rightarrow> f64) \<Rightarrow> float_choice \<Rightarrow> ((u64 \<times> bool) \<times> f64) option internal_result" where
  "float_simplest_positive libm_ceil c =
     (if f64_lt f64_zero (fc_max_value c) then
        let lo = f64_max (fc_min_value c) (fc_smallest_nonzero_magnitude c);
            hi = f64_min (fc_max_value c) f64_MAX
        in if f64_le lo hi
           then rbind (simplest_in_range libm_ceil lo hi) (\<lambda>v.
                  Inr (Some ((float_to_index v, False), v)))
           else Inr None
      else Inr None)"

definition float_simplest_negative ::
  "(f64 \<Rightarrow> f64) \<Rightarrow> float_choice \<Rightarrow> ((u64 \<times> bool) \<times> f64) option
     \<Rightarrow> ((u64 \<times> bool) \<times> f64) option internal_result" where
  "float_simplest_negative libm_ceil c best =
     (if f64_lt (fc_min_value c) f64_zero then
        let lo = f64_max (f64_neg (fc_max_value c)) (fc_smallest_nonzero_magnitude c);
            hi = f64_min (f64_neg (fc_min_value c)) f64_MAX
        in if f64_le lo hi
           then rbind (simplest_in_range libm_ceil lo hi) (\<lambda>v.
                  let key = (float_to_index v, True)
                  in case best of
                       None \<Rightarrow> Inr (Some (key, f64_neg v))
                     | Some (best_key, w) \<Rightarrow>
                         if key < best_key then Inr (Some (key, f64_neg v)) else Inr best)
           else Inr best
      else Inr best)"

definition float_simplest :: "(f64 \<Rightarrow> f64) \<Rightarrow> float_choice \<Rightarrow> f64 internal_result" where
  "float_simplest libm_ceil c =
     (if float_validate c f64_zero then Inr f64_zero
      else if float_validate c f64_neg_zero then Inr f64_neg_zero
      else
        rbind (float_simplest_positive libm_ceil c) (\<lambda>best.
        rbind (float_simplest_negative libm_ceil c best) (\<lambda>best.
        case best of
          Some (_, v) \<Rightarrow> Inr v
        | None \<Rightarrow>
            if fc_allow_infinity c \<and> float_validate c f64_infinity then Inr f64_infinity
            else if fc_allow_infinity c \<and> float_validate c f64_neg_infinity then Inr f64_neg_infinity
            else if fc_allow_nan c then Inr f64_NAN
            else Inl (InternalError ''FloatChoice::simplest: no valid float for this choice''))))"

definition float_unit :: "(f64 \<Rightarrow> f64) \<Rightarrow> float_choice \<Rightarrow> f64 internal_result" where
  "float_unit libm_ceil c =
     rbind (float_simplest libm_ceil c) (\<lambda>s.
     if is_nan s then Inr s
     else
       let base = float_to_index (f64_abs s);
           nearby = concat (map (\<lambda>offset. let v_mag = index_to_float (base + offset)
                                            in [v_mag, f64_neg v_mag]) [1, 2, 3])
       in case find (\<lambda>v. \<not> is_nan v \<and> float_validate c v) nearby of
            Some v \<Rightarrow> Inr v
          | None \<Rightarrow>
              (case find (\<lambda>v. \<not> is_nan v \<and> v \<noteq> s \<and> float_validate c v)
                      [fc_min_value c, fc_max_value c, f64_neg s] of
                 Some v \<Rightarrow> Inr v
               | None \<Rightarrow> Inr s))"

section \<open>The global rank\<close>

definition max_finite_lex :: u64 where
  "max_finite_lex = (push_bit 63 1 OR push_bit 52 2046) OR (push_bit 52 1 - 1)"

definition max_finite_global_rank :: nat where
  "max_finite_global_rank = unat max_finite_lex * 2 + 1"

definition float_global_rank :: "f64 \<Rightarrow> nat" where
  "float_global_rank v =
     (if is_nan v then
        (let nan_offset = (v AND (push_bit 52 1 - 1)) XOR push_bit 51 1;
             sign = drop_bit 63 v
         in max_finite_global_rank + 3 + unat nan_offset * 2 + unat sign)
      else if is_infinite v then
        (if f64_lt f64_zero v then max_finite_global_rank + 1 else max_finite_global_rank + 2)
      else
        (let is_neg = is_sign_negative v;
             mag = (if is_neg then f64_neg v else v);
             mag_idx = float_to_index mag
         in unat mag_idx * 2 + of_bool is_neg))"

definition float_from_global_rank :: "nat \<Rightarrow> f64 option" where
  "float_from_global_rank rank =
     (let max_finite = max_finite_global_rank
      in if max_finite < rank then
           let offset = rank - max_finite
           in if offset = 1 then Some f64_infinity
              else if offset = 2 then Some f64_neg_infinity
              else
                let nan_rel = offset - 3;
                    sign = (if nan_rel mod 2 = 1 then 1 else 0 :: u64)
                in if 2 ^ 64 \<le> nan_rel div 2 then None
                   else
                     let mantissa_base = of_nat (nan_rel div 2) :: u64
                     in if drop_bit 52 mantissa_base \<noteq> 0 then None
                        else
                          let mantissa = mantissa_base XOR push_bit 51 1;
                              v = (push_bit 63 sign OR push_bit 52 0x7FF) OR mantissa
                          in if is_nan v then Some v else None
         else
           let is_neg = (rank mod 2 = 1);
               mag_big = rank div 2
           in if 2 ^ 64 \<le> mag_big then None
              else
                let mag_idx = of_nat mag_big :: u64
                in if drop_bit 63 mag_idx = 0 \<and> drop_bit 56 mag_idx \<noteq> 0 then None
                   else
                     let mag = index_to_float mag_idx
                     in Some (if is_neg then f64_neg mag else mag))"

definition float_max_index :: "float_choice \<Rightarrow> nat" where
  "float_max_index c = max_finite_global_rank + 2 + 2 ^ 53"

text \<open>The subtraction of two \<open>BigUint\<close>s panics when it would go below zero.\<close>

definition float_to_choice_index :: "(f64 \<Rightarrow> f64) \<Rightarrow> float_choice \<Rightarrow> f64 \<Rightarrow> nat internal_result" where
  "float_to_choice_index libm_ceil c v =
     rbind (float_simplest libm_ceil c) (\<lambda>s.
     if float_global_rank v < float_global_rank s
     then Inl (Panicked ''attempt to subtract with overflow'')
     else Inr (float_global_rank v - float_global_rank s))"

definition float_from_choice_index :: "(f64 \<Rightarrow> f64) \<Rightarrow> float_choice \<Rightarrow> nat
                                       \<Rightarrow> f64 option internal_result" where
  "float_from_choice_index libm_ceil c index =
     rbind (float_simplest libm_ceil c) (\<lambda>s.
     case float_from_global_rank (float_global_rank s + index) of
       None \<Rightarrow> Inr None
     | Some v \<Rightarrow> Inr (if float_validate c v then Some v else None))"

section \<open>Numeric value of an index\<close>

lemma unat_u64_less: "unat (v :: u64) < 2 ^ 64"
  using unsigned_less [of v, where ?'a = nat] by simp

lemma unat_drop_u64: "unat (drop_bit n (v :: u64)) = unat v div 2 ^ n"
  unfolding unat_drop_bit_eq by (rule drop_bit_eq_div)

lemma unat_pack:
  assumes "\<And>j. bit e j \<Longrightarrow> j < 11" and "\<And>j. bit m j \<Longrightarrow> j < 52"
  shows "unat (pack 1 e m) = 2 ^ 63 + unat e * 2 ^ 52 + unat m"
    and "unat e < 2 ^ 11" and "unat m < 2 ^ 52"
proof -
  have e: "take_bit 11 e = e"
    by (rule bit_word_eqI) (use assms(1) in \<open>auto simp: bit_take_bit_iff\<close>)
  have m: "take_bit 52 m = m"
    by (rule bit_word_eqI) (use assms(2) in \<open>auto simp: bit_take_bit_iff\<close>)
  show ue: "unat e < 2 ^ 11"
    by (subst e [symmetric]) (simp only: unsigned_take_bit_eq take_bit_nat_less_exp)
  show um: "unat m < 2 ^ 52"
    by (subst m [symmetric]) (simp only: unsigned_take_bit_eq take_bit_nat_less_exp)
  have "pack 1 e m = push_bit 63 1 OR (push_bit 52 e OR m)"
    by (simp add: pack_def or.assoc)
  also have "push_bit 52 e OR m = push_bit 52 e + m"
    by (rule disjunctive_add [symmetric]) (auto simp: bit_push_bit_iff dest: assms(2))
  also have "push_bit 63 1 OR (push_bit 52 e + m) = push_bit 63 1 + (push_bit 52 e + m)"
  proof (rule disjunctive_add [symmetric])
    fix n
    have "push_bit 52 e + m = push_bit 52 e OR m"
      by (rule disjunctive_add) (auto simp: bit_push_bit_iff dest: assms(2))
    moreover have "bit (push_bit 63 (1 :: u64)) n \<Longrightarrow> n = 63"
      by (auto simp only: bit_push_bit_iff bit_1_iff)
    moreover have "\<not> bit (push_bit 52 e OR m) 63"
      by (auto simp: bit_or_iff bit_push_bit_iff dest: assms(1) assms(2))
    ultimately show "\<not> bit (push_bit 63 (1 :: u64)) n \<or> \<not> bit (push_bit 52 e + m) n"
      by metis
  qed
  also have "\<dots> = of_nat (2 ^ 63 + unat e * 2 ^ 52 + unat m)"
    by (simp add: push_bit_eq_mult algebra_simps)
  finally have "pack 1 e m = of_nat (2 ^ 63 + unat e * 2 ^ 52 + unat m)" .
  moreover have "2 ^ 63 + unat e * 2 ^ 52 + unat m < 2 ^ 64" using ue um by simp
  ultimately show "unat (pack 1 e m) = 2 ^ 63 + unat e * 2 ^ 52 + unat m"
    by (simp only: unat_of_nat take_bit_nat_eq_self_iff) (simp add: unat_of_nat)
qed

lemma unat_max_finite_lex: "unat max_finite_lex = 2 ^ 63 + 2046 * 2 ^ 52 + (2 ^ 52 - 1)"
  by (simp add: max_finite_lex_def)

lemma f64_mantissa_bits: "bit (f64_mantissa v) j \<Longrightarrow> j < 52"
  unfolding f64_mantissa_def and_mask by (simp add: bit_take_bit_iff)

lemma f64_exponent_le: "f64_exponent v \<le> 2047"
  by (simp add: f64_exponent_def and_7FF exponent_le_2047)

lemma encode_exponent_bits: "e \<le> 2047 \<Longrightarrow> bit (encode_exponent e) j \<Longrightarrow> j < 11"
  using bit_le_2047 encode_decode_exponent(2) by blast

lemma unat_float_to_index:
  assumes "\<not> is_simple_float v"
  defines "e \<equiv> encode_exponent (f64_exponent v)"
  defines "m \<equiv> update_mantissa (uint (f64_exponent v) - 1023) (f64_mantissa v)"
  shows "unat (float_to_index v) = 2 ^ 63 + unat e * 2 ^ 52 + unat m"
    and "unat e < 2 ^ 11" and "unat m < 2 ^ 52"
proof -
  have e: "\<And>j. bit e j \<Longrightarrow> j < 11"
    unfolding e_def by (rule encode_exponent_bits [OF f64_exponent_le])
  have m: "\<And>j. bit m j \<Longrightarrow> j < 52"
    unfolding m_def using f64_mantissa_bits by (rule update_mantissa_less)
  show "unat (float_to_index v) = 2 ^ 63 + unat e * 2 ^ 52 + unat m"
    using unat_pack(1) [OF e m] unfolding float_to_index_pack [OF assms(1)] e_def m_def .
  show "unat e < 2 ^ 11" by (rule unat_pack(2) [OF e m])
  show "unat m < 2 ^ 52" by (rule unat_pack(3) [OF e m])
qed

lemma encode_exponent_2047: "e \<le> 2047 \<Longrightarrow> encode_exponent e = 2047 \<longleftrightarrow> e = 2047"
  using encode_decode_exponent(1) [of e] by (auto simp: encode_exponent_def decode_exponent_def)

lemma unat_index_simple: "is_simple_float v \<Longrightarrow> unat (float_to_index v) < 2 ^ 56"
  using is_simple_float_cast(2) [of v] by (simp add: float_to_index_def word_less_nat_alt)

lemma finite_index_bound:
  assumes "is_finite v"
  shows "unat (float_to_index v) \<le> unat max_finite_lex"
proof (cases "is_simple_float v")
  case True
  from unat_index_simple [OF this] show ?thesis by (simp add: unat_max_finite_lex)
next
  case False
  let ?e = "encode_exponent (f64_exponent v)"
  have "?e \<noteq> 2047" using assms encode_exponent_2047 [OF f64_exponent_le] by (simp add: is_finite_def)
  then have "unat ?e \<noteq> 2047" by (simp add: word_unat_eq_iff)
  then have "unat ?e \<le> 2046" using unat_float_to_index(2) [OF False] by simp
  then show ?thesis
    using unat_float_to_index(1,3) [OF False] unfolding unat_max_finite_lex by simp
qed

lemma is_nan_or_infinite: "\<not> is_finite v \<longleftrightarrow> is_nan v \<or> is_infinite v"
  by (auto simp: is_finite_def is_nan_def is_infinite_def)

lemma nan_not_infinite: "is_nan v \<Longrightarrow> \<not> is_infinite v"
  by (simp add: is_nan_def is_infinite_def)

lemma bit_63_neg: "bit (f64_neg v) 63 \<longleftrightarrow> \<not> bit v 63"
  by (simp add: f64_neg_def bit_xor_iff bit_push_bit_iff)

lemma f64_neg_fields [simp]:
  "f64_exponent (f64_neg v) = f64_exponent v" "f64_mantissa (f64_neg v) = f64_mantissa v"
  "f64_neg (f64_neg v) = v" "is_sign_negative (f64_neg v) \<longleftrightarrow> \<not> is_sign_negative v"
proof -
  have b: "bit (f64_neg v) j \<longleftrightarrow> bit v j" if "j < 63" for j
    using that unfolding f64_neg_def by (simp only: bit_xor_iff bit_push_bit_iff bit_1_iff) auto
  show "f64_exponent (f64_neg v) = f64_exponent v"
    unfolding f64_exponent_def and_7FF
    by (rule bit_word_eqI) (auto simp: bit_take_bit_iff bit_drop_bit_eq b)
  show "f64_mantissa (f64_neg v) = f64_mantissa v"
    unfolding f64_mantissa_def and_mask by (rule bit_word_eqI) (auto simp: bit_take_bit_iff b)
  show "f64_neg (f64_neg v) = v" by (simp add: f64_neg_def xor.assoc)
  show "is_sign_negative (f64_neg v) \<longleftrightarrow> \<not> is_sign_negative v"
    by (simp add: is_sign_negative_def bit_63_neg)
qed

lemma f64_neg_class [simp]:
  "is_nan (f64_neg v) = is_nan v" "is_infinite (f64_neg v) = is_infinite v"
  "is_finite (f64_neg v) = is_finite v"
  by (simp_all add: is_nan_def is_infinite_def is_finite_def)

definition f64_mag :: "f64 \<Rightarrow> f64" where
  "f64_mag v = (if is_sign_negative v then f64_neg v else v)"

lemma f64_mag_simps [simp]:
  "\<not> is_sign_negative (f64_mag v)" "is_finite (f64_mag v) = is_finite v"
  "is_infinite (f64_mag v) = is_infinite v" "is_nan (f64_mag v) = is_nan v"
  by (simp_all add: f64_mag_def)

lemma f64_mag_inverse: "(if is_sign_negative v then f64_neg (f64_mag v) else f64_mag v) = v"
  by (simp add: f64_mag_def)

lemma infinity_bits:
  assumes "is_infinite v" "\<not> is_sign_negative v"
  shows "v = f64_infinity"
  using exponent_mantissa_split [OF assms(2)] assms(1)
  by (simp add: is_infinite_def f64_infinity_def push_bit_eq_mult)

lemma neg_infinity_bits:
  assumes "is_infinite v" "is_sign_negative v"
  shows "v = f64_neg_infinity"
proof -
  have "f64_neg v = f64_infinity" using assms by (intro infinity_bits) simp_all
  then have "f64_neg (f64_neg v) = f64_neg f64_infinity" by simp
  moreover have "f64_neg f64_infinity = f64_neg_infinity"
    by (simp add: f64_neg_def f64_infinity_def f64_neg_infinity_def)
  ultimately show ?thesis by simp
qed

lemma infinite_positive:
  "is_infinite v \<Longrightarrow> f64_lt f64_zero v \<longleftrightarrow> \<not> is_sign_negative v"
  using infinity_bits [of v] neg_infinity_bits [of v]
  by (cases "is_sign_negative v")
     (auto simp: f64_lt_def f64_zero_def f64_key_def f64_magnitude_def is_nan_def f64_exponent_def
       is_sign_negative_def f64_infinity_def f64_neg_infinity_def f64_mantissa_def)

lemma unat_index_infinity: "unat (float_to_index f64_infinity) = 2 ^ 63 + 2047 * 2 ^ 52"
proof -
  have "\<not> is_simple_float f64_infinity"
    by (simp add: is_simple_float_def is_finite_def f64_exponent_def f64_infinity_def)
  from unat_float_to_index(1) [OF this] show ?thesis
    by (simp add: f64_exponent_def f64_mantissa_def f64_infinity_def encode_exponent_def
        update_mantissa_def)
qed

text \<open>Off the NaNs the rank is twice the magnitude's index, plus one for a negative sign.\<close>

lemma global_rank_sort_key:
  assumes "\<not> is_nan v"
  shows "float_global_rank v = 2 * unat (fst (float_sort_key v)) + of_bool (snd (float_sort_key v))"
proof (cases "is_infinite v")
  case True
  have "f64_mag v = f64_infinity" using True by (intro infinity_bits) simp_all
  then have "float_sort_key v = (float_to_index f64_infinity, is_sign_negative v)"
    using assms by (simp add: float_sort_key_def Let_def f64_mag_def)
  then show ?thesis
    using True assms
    by (simp add: float_global_rank_def infinite_positive max_finite_global_rank_def
        unat_max_finite_lex unat_index_infinity)
next
  case False
  then show ?thesis
    using assms by (simp add: float_global_rank_def float_sort_key_def Let_def)
qed

lemma index_high_bits:
  "\<not> (drop_bit 63 (float_to_index v) = 0 \<and> drop_bit 56 (float_to_index v) \<noteq> 0)"
proof (cases "is_simple_float v")
  case True
  have "unat (drop_bit 56 (float_to_index v)) = 0"
    unfolding unat_drop_u64 by (rule div_less [OF unat_index_simple [OF True]])
  then show ?thesis by (simp add: word_unat_eq_iff)
next
  case False
  have "unat (drop_bit 63 (float_to_index v)) \<noteq> 0"
    unfolding unat_drop_u64 unat_float_to_index(1) [OF False] by simp
  then show ?thesis by auto
qed

lemma from_global_rank_finite:
  assumes "is_finite v"
  shows "float_from_global_rank (float_global_rank v) = Some v"
proof -
  let ?i = "float_to_index (f64_mag v)"
  have nn: "\<not> is_nan v" "\<not> is_infinite v" using assms is_nan_or_infinite by auto
  have r: "float_global_rank v = unat ?i * 2 + of_bool (is_sign_negative v)"
    using nn by (simp add: float_global_rank_def Let_def f64_mag_def)
  have "unat ?i \<le> unat max_finite_lex" using assms by (intro finite_index_bound) simp
  then have le: "\<not> max_finite_global_rank < float_global_rank v"
    unfolding r max_finite_global_rank_def by simp
  have d: "float_global_rank v div 2 = unat ?i" "float_global_rank v mod 2 = 1 \<longleftrightarrow> is_sign_negative v"
    unfolding r by simp_all
  have lt: "\<not> 2 ^ 64 \<le> unat ?i" using unat_u64_less [of ?i] by simp
  have i: "index_to_float ?i = f64_mag v" by (rule float_index_inverse) simp
  have "(of_nat (unat ?i) :: u64) = ?i" by simp
  then show ?thesis
    unfolding float_from_global_rank_def Let_def
    using le lt d index_high_bits [of "f64_mag v"] i
    by (cases "is_sign_negative v") (simp_all add: f64_mag_def)
qed

lemma from_global_rank_infinite:
  assumes "is_infinite v"
  shows "float_from_global_rank (float_global_rank v) = Some v"
proof -
  have nn: "\<not> is_nan v" using assms nan_not_infinite by blast
  show ?thesis
    using infinity_bits [OF assms] neg_infinity_bits [OF assms] assms nn
    by (cases "is_sign_negative v")
       (simp_all add: float_global_rank_def infinite_positive float_from_global_rank_def)
qed

lemma nan_bits:
  fixes v :: f64
  assumes "is_nan v"
  shows "(push_bit 63 (drop_bit 63 v) OR push_bit 52 0x7FF) OR f64_mantissa v = v"
proof -
  have e: "f64_exponent v = 0x7FF" using assms by (simp add: is_nan_def)
  show ?thesis
    unfolding e [symmetric]
  proof (rule bit_word_eqI)
    fix i assume i: "i < LENGTH(64)"
    consider "i < 52" | "52 \<le> i" "i < 63" | "i = 63" using i by fastforce
    then show "bit ((push_bit 63 (drop_bit 63 v) OR push_bit 52 (f64_exponent v)) OR f64_mantissa v) i
                 \<longleftrightarrow> bit v i"
      unfolding f64_exponent_def f64_mantissa_def and_mask and_7FF
      by cases (auto simp: bit_or_iff bit_push_bit_iff bit_take_bit_iff bit_drop_bit_eq)
  qed
qed

lemma from_global_rank_nan:
  assumes "is_nan v"
  shows "float_from_global_rank (float_global_rank v) = Some v"
proof -
  define k where "k = push_bit 51 (1 :: u64)"
  let ?off = "f64_mantissa v XOR k"
  let ?sign = "drop_bit 63 v"
  have sign: "unat ?sign < 2"
  proof -
    have "unat v div 2 ^ 63 < 2" using unat_u64_less [of v] by simp
    then show ?thesis by (simp only: unat_drop_u64)
  qed
  have r: "float_global_rank v = max_finite_global_rank + 3 + unat ?off * 2 + unat ?sign"
    using assms by (simp add: float_global_rank_def Let_def f64_mantissa_def k_def)
  have off: "bit ?off j \<Longrightarrow> j < 52" for j
  proof -
    have "bit k j \<Longrightarrow> j = 51" unfolding k_def by (auto simp only: bit_push_bit_iff bit_1_iff)
    then show "bit ?off j \<Longrightarrow> j < 52"
      unfolding bit_xor_iff using f64_mantissa_bits [of v j] by fastforce
  qed
  have hi: "drop_bit 52 ?off = 0"
  proof (rule bit_word_eqI)
    fix n
    have "\<not> bit ?off (52 + n)" using off [of "52 + n"] by auto
    then show "bit (drop_bit 52 ?off) n \<longleftrightarrow> bit 0 n" by (simp only: bit_drop_bit_eq o_apply bit_0_eq) simp
  qed
  have rel: "float_global_rank v - max_finite_global_rank - 3 = unat ?off * 2 + unat ?sign"
    unfolding r by simp
  have parts: "(unat ?off * 2 + unat ?sign) div 2 = unat ?off"
    "(unat ?off * 2 + unat ?sign) mod 2 = unat ?sign" using sign by simp_all
  have s: "(if unat ?sign = 1 then 1 else 0) = ?sign"
    using sign by (cases "unat ?sign = 0") (auto simp: word_unat_eq_iff)
  have lt: "\<not> 2 ^ 64 \<le> unat ?off" using unat_u64_less [of ?off] by simp
  have c: "max_finite_global_rank < float_global_rank v"
    "float_global_rank v - max_finite_global_rank \<noteq> 1"
    "float_global_rank v - max_finite_global_rank \<noteq> 2" unfolding r by simp_all
  have kk: "(x XOR k) XOR k = x" for x by (simp add: xor.assoc)
  show ?thesis
    unfolding float_from_global_rank_def Let_def rel k_def [symmetric]
    using c lt hi nan_bits [OF assms] assms
    unfolding parts s by (simp add: kk)
qed

section \<open>Properties\<close>

text \<open>C32: the global rank loses no float, NaN payloads and signed zeros included: reading a
  float's rank back gives its bit pattern.
\<close>
theorem float_global_rank_roundtrip:
  "float_from_global_rank (float_global_rank v) = Some v"
  using from_global_rank_finite from_global_rank_infinite from_global_rank_nan is_nan_or_infinite
  by blast

text \<open>C31: off the NaNs the global rank orders floats exactly as the shrinker's sort key, and
  every NaN ranks above every other float.
\<close>
theorem float_global_rank_order:
  assumes "\<not> is_nan v"
  shows "(\<not> is_nan w \<longrightarrow>
            (float_global_rank v < float_global_rank w \<longleftrightarrow> float_sort_key v < float_sort_key w))
     \<and> (is_nan w \<longrightarrow> float_global_rank v < float_global_rank w)"
proof (intro conjI impI)
  assume w: "\<not> is_nan w"
  obtain i n where v': "float_sort_key v = (i, n)" by force
  obtain j m where w': "float_sort_key w = (j, m)" by force
  show "float_global_rank v < float_global_rank w \<longleftrightarrow> float_sort_key v < float_sort_key w"
    using global_rank_sort_key [OF assms] global_rank_sort_key [OF w]
    by (cases n; cases m) (auto simp: v' w' word_less_nat_alt word_le_nat_alt word_unat_eq_iff)
next
  assume w: "is_nan w"
  have bound: "float_global_rank v \<le> max_finite_global_rank + 2"
  proof (cases "is_infinite v")
    case True
    then show ?thesis using assms by (simp add: float_global_rank_def)
  next
    case False
    then have "unat (float_to_index (f64_mag v)) \<le> unat max_finite_lex"
      using assms is_nan_or_infinite [of v] by (intro finite_index_bound) simp
    with False assms show ?thesis
      by (simp add: float_global_rank_def Let_def f64_mag_def max_finite_global_rank_def
          split: if_splits)
  qed
  have "max_finite_global_rank + 3 \<le> float_global_rank w"
    using w by (simp add: float_global_rank_def Let_def)
  with bound show "float_global_rank v < float_global_rank w" by linarith
qed

theorem float_global_rank_order_witness:
  "\<not> is_nan f64_one \<and> float_global_rank f64_one < float_global_rank f64_NAN"
proof -
  have h: "\<not> is_nan f64_one" "is_nan f64_NAN"
    by (simp_all add: is_nan_def f64_exponent_def f64_mantissa_def f64_one_def f64_NAN_def)
  from float_global_rank_order [OF h(1), of f64_NAN] h show ?thesis by blast
qed

text \<open>for a constraint that admits zero (so that the simplest value is 0.0), \<open>to_index\<close>
  never underflows and \<open>from_index\<close> inverts it on every valid float, whatever the external
  rounding function does.
\<close>
theorem float_index_roundtrip_zero:
  assumes "float_validate c f64_zero" and "float_validate c v"
  shows "float_to_choice_index libm_ceil c v = Inr (float_global_rank v)
     \<and> float_from_choice_index libm_ceil c (float_global_rank v) = Inr (Some v)"
proof -
  have z: "float_global_rank f64_zero = 0"
    by (simp add: float_global_rank_def f64_zero_def is_nan_def is_infinite_def f64_exponent_def
        is_sign_negative_def float_to_index_def is_simple_float_def f64_to_u64_def u64_to_f64_def
        f64_scale_def f64_significand_def f64_mantissa_def f64_eq_def is_finite_def)
  have s: "float_simplest libm_ceil c = Inr f64_zero" using assms(1) by (simp add: float_simplest_def)
  show ?thesis
    using assms(2) from_global_rank_finite [of v] from_global_rank_infinite [of v]
      from_global_rank_nan [of v] is_nan_or_infinite [of v]
    by (auto simp: float_to_choice_index_def float_from_choice_index_def s z)
qed

definition sample_float :: float_choice where
  "sample_float = \<lparr>fc_min_value = f64_zero, fc_max_value = f64_one, fc_allow_nan = False,
     fc_allow_infinity = False, fc_smallest_nonzero_magnitude = 1\<rparr>"

theorem float_index_roundtrip_zero_witness:
  "float_validate sample_float f64_zero \<and> float_validate sample_float f64_one
   \<and> float_from_choice_index (\<lambda>v. v) sample_float (float_global_rank f64_one) = Inr (Some f64_one)"
proof -
  have h: "float_validate sample_float f64_zero" "float_validate sample_float f64_one"
    by (simp_all add: float_validate_def sample_float_def is_nan_def is_infinite_def f64_exponent_def
        f64_mantissa_def f64_one_def f64_zero_def sign_aware_lte_def f64_eq_def f64_le_def f64_lt_def
        f64_key_def f64_magnitude_def f64_abs_def is_sign_negative_def)
  from float_index_roundtrip_zero [OF h] h show ?thesis by blast
qed

end
