(* ===== verification/Choices.thy ===== *)
theory Choices
  imports FloatChoice
begin

text \<open>
  \<open>hegel-c/src/native/core/choices.rs\<close>, from \<open>ChoiceKind\<close> on: choice kinds, values, the
  realized streams and records of cloned test cases, the borrowed value views with their
  equality and hashing, constraint/value pairs, choice nodes and the order the shrinker
  minimises under. An \<open>Arc\<close> is its content: sharing only serves the pointer shortcut
  of an equality that is reflexive anyway.
\<close>

section \<open>Spans, kinds, nodes and streams\<close>

text \<open>\<open>Span\<close> is declared in \<open>state.rs\<close>; a realized stream carries the spans of its execution.\<close>

record span =
  span_start :: nat
  span_end :: nat
  span_label :: string
  span_depth :: nat
  span_parent :: "nat option"
  span_discarded :: bool

datatype choice_kind =
    KInteger integer_choice
  | KBoolean boolean_choice
  | KFloat float_choice
  | KBytes bytes_choice
  | KString string_choice
  | KClone

datatype choice_data =
    DInteger integer_choice int
  | DBoolean boolean_choice bool
  | DFloat float_choice f64
  | DBytes bytes_choice "u8 list"
  | DString string_choice "codepoint list"
  | DClone realized_stream
and choice_node = ChoiceNode (node_data: choice_data) (was_forced: bool)
and realized_stream =
  RealizedStream (rs_nodes: "choice_node list") (rs_spans: "span list") (rs_flat_len: nat)

datatype choice_value =
    VInteger int
  | VBoolean bool
  | VFloat f64
  | VBytes "u8 list"
  | VString "codepoint list"
  | VClone clone_record
and clone_record =
    CRValues "choice_value list" nat
  | CRRealized realized_stream

section \<open>Realized streams and clone records\<close>

definition flattened_len :: "choice_node list \<Rightarrow> nat" where
  "flattened_len nodes =
     sum_list (map (\<lambda>n. case node_data n of DClone rs \<Rightarrow> 1 + rs_flat_len rs | _ \<Rightarrow> 1) nodes)"

definition realized_stream_new :: "choice_node list \<Rightarrow> span list \<Rightarrow> realized_stream" where
  "realized_stream_new nodes spans = RealizedStream nodes spans (flattened_len nodes)"

definition realized_stream_empty :: realized_stream where
  "realized_stream_empty = realized_stream_new [] []"

definition rs_length :: "realized_stream \<Rightarrow> nat" where
  "rs_length rs = length (rs_nodes rs)"

definition rs_is_empty :: "realized_stream \<Rightarrow> bool" where
  "rs_is_empty rs \<longleftrightarrow> rs_nodes rs = []"

fun cr_flat_len :: "clone_record \<Rightarrow> nat" where
  "cr_flat_len (CRValues values flat_len) = flat_len"
| "cr_flat_len (CRRealized stream) = rs_flat_len stream"

definition flattened_values_len :: "choice_value list \<Rightarrow> nat" where
  "flattened_values_len values =
     sum_list (map (\<lambda>v. case v of VClone record \<Rightarrow> 1 + cr_flat_len record | _ \<Rightarrow> 1) values)"

definition cr_from_values :: "choice_value list \<Rightarrow> clone_record" where
  "cr_from_values values = CRValues values (flattened_values_len values)"

definition cr_from_stream :: "realized_stream \<Rightarrow> clone_record" where
  "cr_from_stream stream = CRRealized stream"

definition cr_from_run :: "choice_node list \<Rightarrow> span list \<Rightarrow> clone_record" where
  "cr_from_run nodes spans = cr_from_stream (realized_stream_new nodes spans)"

definition cr_empty :: clone_record where
  "cr_empty = cr_from_run [] []"

fun cr_length :: "clone_record \<Rightarrow> nat" where
  "cr_length (CRValues values _) = length values"
| "cr_length (CRRealized stream) = rs_length stream"

definition cr_is_empty :: "clone_record \<Rightarrow> bool" where
  "cr_is_empty r \<longleftrightarrow> cr_length r = 0"

fun cr_realized :: "clone_record \<Rightarrow> realized_stream option" where
  "cr_realized (CRValues _ _) = None"
| "cr_realized (CRRealized stream) = Some stream"

definition cr_realized_nodes :: "clone_record \<Rightarrow> choice_node list option" where
  "cr_realized_nodes r = map_option rs_nodes (cr_realized r)"

section \<open>Choice data\<close>

fun data_kind :: "choice_data \<Rightarrow> choice_kind" where
  "data_kind (DInteger ic _) = KInteger ic"
| "data_kind (DBoolean bc _) = KBoolean bc"
| "data_kind (DFloat fc _) = KFloat fc"
| "data_kind (DBytes bc _) = KBytes bc"
| "data_kind (DString sc _) = KString sc"
| "data_kind (DClone _) = KClone"

fun data_value :: "choice_data \<Rightarrow> choice_value" where
  "data_value (DInteger _ v) = VInteger v"
| "data_value (DBoolean _ v) = VBoolean v"
| "data_value (DFloat _ v) = VFloat v"
| "data_value (DBytes _ v) = VBytes v"
| "data_value (DString _ v) = VString v"
| "data_value (DClone rs) = VClone (cr_from_stream rs)"

fun cr_owned_values :: "clone_record \<Rightarrow> choice_value list" where
  "cr_owned_values (CRValues values _) = values"
| "cr_owned_values (CRRealized stream) = map (\<lambda>n. data_value (node_data n)) (rs_nodes stream)"

section \<open>Borrowed views, equality and hashing\<close>

datatype clone_values = CVRecord clone_record | CVStream realized_stream

datatype choice_value_ref =
    RInteger int
  | RBoolean bool
  | RFloat f64
  | RBytes "u8 list"
  | RString "codepoint list"
  | RClone clone_values

fun value_ref :: "choice_value \<Rightarrow> choice_value_ref" where
  "value_ref (VInteger n) = RInteger n"
| "value_ref (VBoolean b) = RBoolean b"
| "value_ref (VFloat f) = RFloat f"
| "value_ref (VBytes v) = RBytes v"
| "value_ref (VString v) = RString v"
| "value_ref (VClone r) = RClone (CVRecord r)"

fun data_value_ref :: "choice_data \<Rightarrow> choice_value_ref" where
  "data_value_ref (DInteger _ v) = RInteger v"
| "data_value_ref (DBoolean _ v) = RBoolean v"
| "data_value_ref (DFloat _ v) = RFloat v"
| "data_value_ref (DBytes _ v) = RBytes v"
| "data_value_ref (DString _ v) = RString v"
| "data_value_ref (DClone rs) = RClone (CVStream rs)"

fun cr_values :: "clone_record \<Rightarrow> choice_value_ref list" where
  "cr_values (CRValues values _) = map value_ref values"
| "cr_values (CRRealized stream) = map (\<lambda>n. data_value_ref (node_data n)) (rs_nodes stream)"

fun cv_length :: "clone_values \<Rightarrow> nat" where
  "cv_length (CVRecord r) = cr_length r"
| "cv_length (CVStream s) = rs_length s"

fun cv_flat_len :: "clone_values \<Rightarrow> nat" where
  "cv_flat_len (CVRecord r) = cr_flat_len r"
| "cv_flat_len (CVStream s) = rs_flat_len s"

text \<open>\<open>value_at i\<close> for \<open>i\<close> in \<open>0..len\<close>, as the list \<open>values\<close> iterates over.\<close>

fun cv_values :: "clone_values \<Rightarrow> choice_value_ref list" where
  "cv_values (CVRecord r) = cr_values r"
| "cv_values (CVStream s) = map (\<lambda>n. data_value_ref (node_data n)) (rs_nodes s)"

text \<open>
  The abstraction of all views: the tree of child values. It also bounds the recursion of
  equality, hashing and serialisation.
\<close>

datatype value_tree =
    TInteger int
  | TBoolean bool
  | TFloat f64
  | TBytes "u8 list"
  | TString "codepoint list"
  | TClone "value_tree list"

primrec data_tree :: "choice_data \<Rightarrow> value_tree"
  and node_tree :: "choice_node \<Rightarrow> value_tree"
  and stream_trees :: "realized_stream \<Rightarrow> value_tree list" where
  "data_tree (DInteger _ v) = TInteger v"
| "data_tree (DBoolean _ v) = TBoolean v"
| "data_tree (DFloat _ v) = TFloat v"
| "data_tree (DBytes _ v) = TBytes v"
| "data_tree (DString _ v) = TString v"
| "data_tree (DClone rs) = TClone (stream_trees rs)"
| "node_tree (ChoiceNode d f) = data_tree d"
| "stream_trees (RealizedStream ns spans n) = map node_tree ns"

primrec choice_tree :: "choice_value \<Rightarrow> value_tree"
  and record_trees :: "clone_record \<Rightarrow> value_tree list" where
  "choice_tree (VInteger v) = TInteger v"
| "choice_tree (VBoolean v) = TBoolean v"
| "choice_tree (VFloat v) = TFloat v"
| "choice_tree (VBytes v) = TBytes v"
| "choice_tree (VString v) = TString v"
| "choice_tree (VClone r) = TClone (record_trees r)"
| "record_trees (CRValues values n) = map choice_tree values"
| "record_trees (CRRealized stream) = stream_trees stream"

fun cv_trees :: "clone_values \<Rightarrow> value_tree list" where
  "cv_trees (CVRecord r) = record_trees r"
| "cv_trees (CVStream s) = stream_trees s"

fun ref_tree :: "choice_value_ref \<Rightarrow> value_tree" where
  "ref_tree (RInteger v) = TInteger v"
| "ref_tree (RBoolean v) = TBoolean v"
| "ref_tree (RFloat v) = TFloat v"
| "ref_tree (RBytes v) = TBytes v"
| "ref_tree (RString v) = TString v"
| "ref_tree (RClone c) = TClone (cv_trees c)"

lemma data_tree_ref [simp]: "ref_tree (data_value_ref d) = data_tree d"
  by (cases d) auto

lemma node_tree_data [simp]: "data_tree (node_data n) = node_tree n"
  by (cases n) auto

lemma value_tree_ref [simp]: "ref_tree (value_ref v) = choice_tree v"
  by (cases v) auto

lemma data_value_tree [simp]: "choice_tree (data_value d) = data_tree d"
  by (cases d) (auto simp: cr_from_stream_def)

lemma stream_trees_nodes [simp]: "map node_tree (rs_nodes s) = stream_trees s"
  by (cases s) auto

lemma record_trees_values [simp]: "map ref_tree (cr_values r) = record_trees r"
  by (cases r) (auto simp: comp_def simp flip: stream_trees_nodes)

lemma cv_values_trees [simp]: "map ref_tree (cv_values c) = cv_trees c"
  by (cases c) (auto simp: comp_def simp flip: stream_trees_nodes)

lemma ref_child_size:
  assumes "x \<in> set (cv_values c)"
  shows "size (ref_tree x) < size (TClone (cv_trees c))"
proof -
  have "ref_tree x \<in> set (cv_trees c)"
    using assms by (simp flip: cv_values_trees)
  then have "size (ref_tree x) \<le> size_list size (cv_trees c)"
    by (simp add: size_list_estimation')
  then show ?thesis by simp
qed

text \<open>
  \<open>PartialEq\<close> of \<open>ChoiceValueRef\<close> and \<open>CloneValues\<close>: floats by bits; clones by the cached
  total count, the child count, and then child by child.
\<close>

function ref_eq :: "choice_value_ref \<Rightarrow> choice_value_ref \<Rightarrow> bool" where
  "ref_eq x y =
     (case (x, y) of
        (RInteger a, RInteger b) \<Rightarrow> a = b
      | (RBoolean a, RBoolean b) \<Rightarrow> a = b
      | (RFloat a, RFloat b) \<Rightarrow> a = b
      | (RBytes a, RBytes b) \<Rightarrow> a = b
      | (RString a, RString b) \<Rightarrow> a = b
      | (RClone a, RClone b) \<Rightarrow>
          cv_flat_len a = cv_flat_len b \<and> cv_length a = cv_length b
          \<and> list_all (\<lambda>(v, w). ref_eq v w) (zip (cv_values a) (cv_values b))
      | _ \<Rightarrow> False)"
  by pat_completeness auto
termination
  by (relation "measure (\<lambda>(x, y). size (ref_tree x))") (auto dest!: set_zip_leftD dest: ref_child_size)

declare ref_eq.simps [simp del]

definition cv_eq :: "clone_values \<Rightarrow> clone_values \<Rightarrow> bool" where
  "cv_eq a b \<longleftrightarrow> cv_flat_len a = cv_flat_len b \<and> cv_length a = cv_length b
     \<and> list_all (\<lambda>(v, w). ref_eq v w) (zip (cv_values a) (cv_values b))"

definition cr_eq :: "clone_record \<Rightarrow> clone_record \<Rightarrow> bool" where
  "cr_eq a b \<longleftrightarrow> cv_eq (CVRecord a) (CVRecord b)"

fun value_eq :: "choice_value \<Rightarrow> choice_value \<Rightarrow> bool" where
  "value_eq (VInteger a) (VInteger b) = (a = b)"
| "value_eq (VBoolean a) (VBoolean b) = (a = b)"
| "value_eq (VFloat a) (VFloat b) = (a = b)"
| "value_eq (VBytes a) (VBytes b) = (a = b)"
| "value_eq (VString a) (VString b) = (a = b)"
| "value_eq (VClone a) (VClone b) = cr_eq a b"
| "value_eq _ _ = False"

text \<open>
  The derived equality of constraints. An \<open>IntervalSet\<close> compares by its intervals alone; float
  fields compare by bits.
\<close>

definition string_choice_eq :: "string_choice \<Rightarrow> string_choice \<Rightarrow> bool" where
  "string_choice_eq a b \<longleftrightarrow> sc_min_size a = sc_min_size b \<and> sc_max_size a = sc_max_size b
     \<and> intervals (sc_intervals a) = intervals (sc_intervals b)"

fun kind_eq :: "choice_kind \<Rightarrow> choice_kind \<Rightarrow> bool" where
  "kind_eq (KString a) (KString b) = string_choice_eq a b"
| "kind_eq a b = (a = b)"

fun data_eq :: "choice_data \<Rightarrow> choice_data \<Rightarrow> bool" where
  "data_eq (DInteger ac av) (DInteger bc bv) = (ac = bc \<and> av = bv)"
| "data_eq (DBoolean ac av) (DBoolean bc bv) = (ac = bc \<and> av = bv)"
| "data_eq (DFloat ac av) (DFloat bc bv) = (ac = bc \<and> av = bv)"
| "data_eq (DBytes ac av) (DBytes bc bv) = (ac = bc \<and> av = bv)"
| "data_eq (DString ac av) (DString bc bv) = (string_choice_eq ac bc \<and> av = bv)"
| "data_eq (DClone a) (DClone b) = cv_eq (CVStream a) (CVStream b)"
| "data_eq _ _ = False"

text \<open>What \<open>Hash\<close> feeds the hasher: the discriminant, then the payload.\<close>

datatype hash_token = HDiscriminant nat | HU8 nat | HInt int | HBool bool | HU64 u64 | HLen nat
  | HBytes "u8 list" | HU32s "codepoint list"

function ref_hash :: "choice_value_ref \<Rightarrow> hash_token list" where
  "ref_hash x =
     (case x of
        RInteger n \<Rightarrow> [HDiscriminant 0, HInt n]
      | RBoolean b \<Rightarrow> [HDiscriminant 1, HBool b]
      | RFloat f \<Rightarrow> [HDiscriminant 2, HU64 f]
      | RBytes v \<Rightarrow> [HDiscriminant 3, HBytes v]
      | RString v \<Rightarrow> [HDiscriminant 4, HU32s v]
      | RClone c \<Rightarrow> HDiscriminant 5 # HLen (cv_length c) # concat (map ref_hash (cv_values c)))"
  by pat_completeness auto
termination
  by (relation "measure (\<lambda>x. size (ref_tree x))") (auto dest: ref_child_size)

declare ref_hash.simps [simp del]

section \<open>Choice kinds\<close>

fun kind_simplest :: "(f64 \<Rightarrow> f64) \<Rightarrow> choice_kind \<Rightarrow> choice_value internal_result" where
  "kind_simplest libm_ceil (KInteger ic) = Inr (VInteger (integer_simplest ic))"
| "kind_simplest libm_ceil (KBoolean bc) = Inr (VBoolean (boolean_simplest bc))"
| "kind_simplest libm_ceil (KFloat fc) = rbind (float_simplest libm_ceil fc) (\<lambda>v. Inr (VFloat v))"
| "kind_simplest libm_ceil (KBytes bc) = Inr (VBytes (bytes_simplest bc))"
| "kind_simplest libm_ceil (KString sc) = rbind (string_simplest sc) (\<lambda>v. Inr (VString v))"
| "kind_simplest libm_ceil KClone = Inr (VClone cr_empty)"

fun kind_unit :: "(f64 \<Rightarrow> f64) \<Rightarrow> choice_kind \<Rightarrow> choice_value internal_result" where
  "kind_unit libm_ceil (KInteger ic) = Inr (VInteger (integer_unit ic))"
| "kind_unit libm_ceil (KBoolean bc) = Inr (VBoolean (boolean_unit bc))"
| "kind_unit libm_ceil (KFloat fc) = rbind (float_unit libm_ceil fc) (\<lambda>v. Inr (VFloat v))"
| "kind_unit libm_ceil (KBytes bc) = Inr (VBytes (bytes_unit bc))"
| "kind_unit libm_ceil (KString sc) = rbind (string_unit sc) (\<lambda>v. Inr (VString v))"
| "kind_unit libm_ceil KClone = Inr (VClone cr_empty)"

text \<open>\<open>None\<close> inside the result is a clone kind; only a string's maximum can panic.\<close>

fun kind_max_index :: "choice_kind \<Rightarrow> nat option internal_result" where
  "kind_max_index (KInteger ic) = Inr (Some (integer_max_index ic))"
| "kind_max_index (KBoolean bc) = Inr (Some (boolean_max_index bc))"
| "kind_max_index (KFloat fc) = Inr (Some (float_max_index fc))"
| "kind_max_index (KBytes bc) = Inr (Some (bytes_max_index bc))"
| "kind_max_index (KString sc) = rbind (string_max_index sc) (\<lambda>i. Inr (Some i))"
| "kind_max_index KClone = Inr None"

fun kind_from_index :: "(f64 \<Rightarrow> f64) \<Rightarrow> choice_kind \<Rightarrow> nat \<Rightarrow> choice_value option internal_result" where
  "kind_from_index libm_ceil (KInteger ic) index = Inr (map_option VInteger (integer_from_index ic index))"
| "kind_from_index libm_ceil (KBoolean bc) index = Inr (map_option VBoolean (boolean_from_index bc index))"
| "kind_from_index libm_ceil (KFloat fc) index =
     rbind (float_from_choice_index libm_ceil fc index) (\<lambda>v. Inr (map_option VFloat v))"
| "kind_from_index libm_ceil (KBytes bc) index =
     rbind (bytes_from_index bc index) (\<lambda>v. Inr (map_option VBytes v))"
| "kind_from_index libm_ceil (KString sc) index =
     rbind (string_from_index sc index) (\<lambda>v. Inr (map_option VString v))"
| "kind_from_index libm_ceil KClone index = Inr None"

fun kind_resolve :: "choice_kind \<Rightarrow> choice_value \<Rightarrow> choice_data option" where
  "kind_resolve (KInteger ic) (VInteger v) =
     (if integer_validate ic v then Some (DInteger ic v) else None)"
| "kind_resolve (KBoolean bc) (VBoolean v) = Some (DBoolean bc v)"
| "kind_resolve (KFloat fc) (VFloat v) = (if float_validate fc v then Some (DFloat fc v) else None)"
| "kind_resolve (KBytes bc) (VBytes v) = (if bytes_validate bc v then Some (DBytes bc v) else None)"
| "kind_resolve (KString sc) (VString v) = (if string_validate sc v then Some (DString sc v) else None)"
| "kind_resolve _ _ = None"

section \<open>Operations on choice data and nodes\<close>

definition data_simplest_value :: "(f64 \<Rightarrow> f64) \<Rightarrow> choice_data \<Rightarrow> choice_value internal_result" where
  "data_simplest_value libm_ceil d = kind_simplest libm_ceil (data_kind d)"

fun data_is_simplest :: "(f64 \<Rightarrow> f64) \<Rightarrow> choice_data \<Rightarrow> bool internal_result" where
  "data_is_simplest libm_ceil (DInteger ic v) = Inr (v = integer_simplest ic)"
| "data_is_simplest libm_ceil (DBoolean _ v) = Inr (\<not> v)"
| "data_is_simplest libm_ceil (DFloat fc v) = rbind (float_simplest libm_ceil fc) (\<lambda>s. Inr (v = s))"
| "data_is_simplest libm_ceil (DBytes bc v) = Inr (v = bytes_simplest bc)"
| "data_is_simplest libm_ceil (DString sc v) = rbind (string_simplest sc) (\<lambda>s. Inr (v = s))"
| "data_is_simplest libm_ceil (DClone rs) = Inr (rs_is_empty rs)"

fun data_with_simplest :: "(f64 \<Rightarrow> f64) \<Rightarrow> choice_data \<Rightarrow> choice_data internal_result" where
  "data_with_simplest libm_ceil (DInteger ic _) = Inr (DInteger ic (integer_simplest ic))"
| "data_with_simplest libm_ceil (DBoolean bc _) = Inr (DBoolean bc False)"
| "data_with_simplest libm_ceil (DFloat fc _) =
     rbind (float_simplest libm_ceil fc) (\<lambda>s. Inr (DFloat fc s))"
| "data_with_simplest libm_ceil (DBytes bc _) = Inr (DBytes bc (bytes_simplest bc))"
| "data_with_simplest libm_ceil (DString sc _) = rbind (string_simplest sc) (\<lambda>s. Inr (DString sc s))"
| "data_with_simplest libm_ceil (DClone _) = Inr (DClone realized_stream_empty)"

fun data_with_value :: "choice_data \<Rightarrow> choice_value \<Rightarrow> choice_data option" where
  "data_with_value (DClone _) (VClone r) = map_option DClone (cr_realized r)"
| "data_with_value d v = kind_resolve (data_kind d) v"

fun data_to_index :: "(f64 \<Rightarrow> f64) \<Rightarrow> choice_data \<Rightarrow> nat option internal_result" where
  "data_to_index libm_ceil (DInteger ic v) = Inr (Some (integer_to_index ic v))"
| "data_to_index libm_ceil (DBoolean bc v) = Inr (Some (boolean_to_index bc v))"
| "data_to_index libm_ceil (DFloat fc v) = rbind (float_to_choice_index libm_ceil fc v) (\<lambda>i. Inr (Some i))"
| "data_to_index libm_ceil (DBytes bc v) = Inr (Some (bytes_to_index bc v))"
| "data_to_index libm_ceil (DString sc v) = rbind (string_to_index sc v) (\<lambda>i. Inr (Some i))"
| "data_to_index libm_ceil (DClone _) = Inr None"

definition data_from_index :: "(f64 \<Rightarrow> f64) \<Rightarrow> choice_data \<Rightarrow> nat \<Rightarrow> choice_value option internal_result" where
  "data_from_index libm_ceil d index = kind_from_index libm_ceil (data_kind d) index"

definition data_max_index :: "choice_data \<Rightarrow> nat option internal_result" where
  "data_max_index d = kind_max_index (data_kind d)"

fun as_integer :: "choice_data \<Rightarrow> (integer_choice \<times> int) option" where
  "as_integer (DInteger ic v) = Some (ic, v)"
| "as_integer _ = None"

fun as_float :: "choice_data \<Rightarrow> (float_choice \<times> f64) option" where
  "as_float (DFloat fc v) = Some (fc, v)"
| "as_float _ = None"

fun as_bytes :: "choice_data \<Rightarrow> (bytes_choice \<times> u8 list) option" where
  "as_bytes (DBytes bc v) = Some (bc, v)"
| "as_bytes _ = None"

fun as_string :: "choice_data \<Rightarrow> (string_choice \<times> codepoint list) option" where
  "as_string (DString sc v) = Some (sc, v)"
| "as_string _ = None"

fun as_clone :: "choice_data \<Rightarrow> realized_stream option" where
  "as_clone (DClone rs) = Some rs"
| "as_clone _ = None"

definition node_kind :: "choice_node \<Rightarrow> choice_kind" where
  "node_kind n = data_kind (node_data n)"

definition node_value :: "choice_node \<Rightarrow> choice_value" where
  "node_value n = data_value (node_data n)"

definition node_with_value :: "choice_node \<Rightarrow> choice_value \<Rightarrow> choice_node option" where
  "node_with_value n v =
     map_option (\<lambda>d. ChoiceNode d (was_forced n)) (data_with_value (node_data n) v)"

definition node_with_simplest :: "(f64 \<Rightarrow> f64) \<Rightarrow> choice_node \<Rightarrow> choice_node internal_result" where
  "node_with_simplest libm_ceil n =
     rbind (data_with_simplest libm_ceil (node_data n)) (\<lambda>d. Inr (ChoiceNode d (was_forced n)))"

section \<open>Templates, statuses and errors\<close>

datatype choice_template_kind = TemplateSimplest

record choice_template =
  ct_kind :: choice_template_kind
  ct_count :: "nat option"

definition template_simplest :: "nat option \<Rightarrow> choice_template internal_result" where
  "template_simplest count =
     rbind (case count of
              Some n \<Rightarrow> hegel_internal_assert (0 < n) ''ChoiceTemplate count must be positive (got 0)''
            | None \<Rightarrow> Inr ()) (\<lambda>_.
     Inr \<lparr>ct_kind = TemplateSimplest, ct_count = count\<rparr>)"

datatype status = EarlyStop | Invalid | Valid | Interesting

fun status_code :: "status \<Rightarrow> nat" where
  "status_code EarlyStop = 0"
| "status_code Invalid = 1"
| "status_code Valid = 2"
| "status_code Interesting = 3"

instantiation status :: linorder
begin

definition "less_eq_status a b \<longleftrightarrow> status_code a \<le> status_code b"
definition "less_status a b \<longleftrightarrow> status_code a < status_code b"

instance
proof
  fix a b :: status
  show "a \<le> b \<Longrightarrow> b \<le> a \<Longrightarrow> a = b"
    by (cases a; cases b) (auto simp: less_eq_status_def)
qed (auto simp: less_eq_status_def less_status_def)

end

definition MAX_CLONE_DEPTH :: nat where
  "MAX_CLONE_DEPTH = 100"

datatype engine_error =
    Overrun
  | InvalidTestCase
  | AssumeViolation
  | InvalidArgument string
  | EngineInternal internal_error

section \<open>The order the shrinker minimises under\<close>

datatype seq_keys = SeqBytes "u8 list" | SeqString string_choice "codepoint list"

datatype node_sort_key =
    KeyScalar nat bool
  | KeySeq seq_keys
  | KeyClone realized_stream

fun seq_length :: "seq_keys \<Rightarrow> nat" where
  "seq_length (SeqBytes b) = length b"
| "seq_length (SeqString _ cps) = length cps"

fun seq_key_at :: "seq_keys \<Rightarrow> nat \<Rightarrow> nat internal_result" where
  "seq_key_at (SeqBytes b) i = Inr (unat (b ! i))"
| "seq_key_at (SeqString sc cps) i = codepoint_key sc (cps ! i)"

fun sort_key_category :: "node_sort_key \<Rightarrow> nat" where
  "sort_key_category (KeyScalar _ _) = 0"
| "sort_key_category (KeySeq _) = 1"
| "sort_key_category (KeyClone _) = 2"

fun sort_key_ref :: "choice_node \<Rightarrow> node_sort_key" where
  "sort_key_ref (ChoiceNode (DInteger ic v) _) =
     (case integer_sort_key ic v of (mag, neg) \<Rightarrow> KeyScalar mag neg)"
| "sort_key_ref (ChoiceNode (DBoolean _ v) _) = KeyScalar (of_bool v) False"
| "sort_key_ref (ChoiceNode (DFloat fc v) _) =
     (case float_sort_key v of (mag, neg) \<Rightarrow> KeyScalar (unat mag) neg)"
| "sort_key_ref (ChoiceNode (DBytes _ v) _) = KeySeq (SeqBytes v)"
| "sort_key_ref (ChoiceNode (DString sc v) _) = KeySeq (SeqString sc v)"
| "sort_key_ref (ChoiceNode (DClone rs) _) = KeyClone rs"

text \<open>The element loop of \<open>Ord for NodeSortKeyRef\<close> over the indices still to visit.\<close>

fun seq_cmp_from :: "seq_keys \<Rightarrow> seq_keys \<Rightarrow> nat list \<Rightarrow> ordering internal_result" where
  "seq_cmp_from a b [] = Inr Equal"
| "seq_cmp_from a b (i # is) =
     rbind (seq_key_at a i) (\<lambda>x. rbind (seq_key_at b i) (\<lambda>y.
     case cmp x y of Equal \<Rightarrow> seq_cmp_from a b is | ord \<Rightarrow> Inr ord))"

definition seq_cmp :: "seq_keys \<Rightarrow> seq_keys \<Rightarrow> ordering internal_result" where
  "seq_cmp a b =
     (case cmp (seq_length a) (seq_length b) of
        Equal \<Rightarrow> seq_cmp_from a b [0..<seq_length a]
      | ord \<Rightarrow> Inr ord)"

lemma sort_key_clone: "sort_key_ref n = KeyClone r \<longleftrightarrow> (\<exists>f. n = ChoiceNode (DClone r) f)"
  by (cases n rule: sort_key_ref.cases) (auto split: prod.splits)

lemma clone_nodes_size:
  "KeyClone r = sort_key_ref n \<Longrightarrow> size_list size (rs_nodes r) < Suc (size n + k)"
  using sort_key_clone [of n r] by (cases r) auto

text \<open>
  \<open>realized_streams_cmp\<close> and \<open>elementwise_nodes_cmp\<close> with the comparison of two node keys
  inlined, which is where the recursion passes through.
\<close>

function elementwise_nodes_cmp :: "choice_node list \<Rightarrow> choice_node list \<Rightarrow> ordering internal_result" where
  "elementwise_nodes_cmp (na # a) (nb # b) =
     rbind (case (sort_key_ref na, sort_key_ref nb) of
              (KeyScalar am an, KeyScalar bm bn) \<Rightarrow> Inr (cmp (am, an) (bm, bn))
            | (KeyClone ra, KeyClone rb) \<Rightarrow>
                (case cmp (rs_flat_len ra) (rs_flat_len rb) of
                   Equal \<Rightarrow> (case cmp (rs_length ra) (rs_length rb) of
                       Equal \<Rightarrow> elementwise_nodes_cmp (rs_nodes ra) (rs_nodes rb)
                     | ord \<Rightarrow> Inr ord)
                 | ord \<Rightarrow> Inr ord)
            | (KeySeq sa, KeySeq sb) \<Rightarrow> seq_cmp sa sb
            | (ka, kb) \<Rightarrow> Inr (cmp (sort_key_category ka) (sort_key_category kb)))
       (\<lambda>ord. case ord of Equal \<Rightarrow> elementwise_nodes_cmp a b | _ \<Rightarrow> Inr ord)"
| "elementwise_nodes_cmp [] b = Inr Equal"
| "elementwise_nodes_cmp a [] = Inr Equal"
  by pat_completeness auto
termination
  by (relation "measure (\<lambda>(a, b). size_list size a)") (auto dest: clone_nodes_size)

definition realized_streams_cmp :: "realized_stream \<Rightarrow> realized_stream \<Rightarrow> ordering internal_result" where
  "realized_streams_cmp a b =
     (case cmp (rs_flat_len a) (rs_flat_len b) of
        Equal \<Rightarrow> (case cmp (rs_length a) (rs_length b) of
            Equal \<Rightarrow> elementwise_nodes_cmp (rs_nodes a) (rs_nodes b)
          | ord \<Rightarrow> Inr ord)
      | ord \<Rightarrow> Inr ord)"

definition node_key_cmp :: "node_sort_key \<Rightarrow> node_sort_key \<Rightarrow> ordering internal_result" where
  "node_key_cmp x y =
     (case (x, y) of
        (KeyScalar am an, KeyScalar bm bn) \<Rightarrow> Inr (cmp (am, an) (bm, bn))
      | (KeyClone ra, KeyClone rb) \<Rightarrow> realized_streams_cmp ra rb
      | (KeySeq sa, KeySeq sb) \<Rightarrow> seq_cmp sa sb
      | (ka, kb) \<Rightarrow> Inr (cmp (sort_key_category ka) (sort_key_category kb)))"

lemma elementwise_nodes_cmp_Cons:
  "elementwise_nodes_cmp (na # a) (nb # b) =
     rbind (node_key_cmp (sort_key_ref na) (sort_key_ref nb))
       (\<lambda>ord. case ord of Equal \<Rightarrow> elementwise_nodes_cmp a b | _ \<Rightarrow> Inr ord)"
  unfolding node_key_cmp_def realized_streams_cmp_def by simp

definition nodes_sort_key_cmp :: "choice_node list \<Rightarrow> choice_node list \<Rightarrow> ordering internal_result" where
  "nodes_sort_key_cmp a b =
     (case cmp (flattened_len a) (flattened_len b) of
        Equal \<Rightarrow> (case cmp (length a) (length b) of
            Equal \<Rightarrow> elementwise_nodes_cmp a b
          | ord \<Rightarrow> Inr ord)
      | ord \<Rightarrow> Inr ord)"

end
