(* ===== verification/ChoiceFacts.thy ===== *)
theory ChoiceFacts
  imports Choices
begin

text \<open>
  What makes the choice types of \<open>Choices\<close> correct: equality and hashing see exactly the tree
  of child values, resolving a value against a kind yields validated data of that kind, and
  the sort-key comparison is a linear order without errors on validated nodes.
\<close>

section \<open>Cached counts\<close>

text \<open>
  A stream or record is coherent when every cached \<open>flat_len\<close> in it is the count of its
  children; the constructors of the source establish this.
\<close>

fun tree_flat :: "value_tree \<Rightarrow> nat" where
  "tree_flat (TClone ts) = 1 + sum_list (map tree_flat ts)"
| "tree_flat _ = 1"

fun data_coherent :: "choice_data \<Rightarrow> bool"
  and node_coherent :: "choice_node \<Rightarrow> bool"
  and stream_coherent :: "realized_stream \<Rightarrow> bool" where
  "data_coherent (DClone rs) = stream_coherent rs"
| "data_coherent _ = True"
| "node_coherent (ChoiceNode d f) = data_coherent d"
| "stream_coherent (RealizedStream ns spans n) =
     (n = flattened_len ns \<and> list_all node_coherent ns)"

fun value_coherent :: "choice_value \<Rightarrow> bool"
  and record_coherent :: "clone_record \<Rightarrow> bool" where
  "value_coherent (VClone r) = record_coherent r"
| "value_coherent _ = True"
| "record_coherent (CRValues values n) =
     (n = flattened_values_len values \<and> list_all value_coherent values)"
| "record_coherent (CRRealized s) = stream_coherent s"

fun cv_coherent :: "clone_values \<Rightarrow> bool" where
  "cv_coherent (CVRecord r) = record_coherent r"
| "cv_coherent (CVStream s) = stream_coherent s"

fun ref_coherent :: "choice_value_ref \<Rightarrow> bool" where
  "ref_coherent (RClone c) = cv_coherent c"
| "ref_coherent _ = True"

lemma data_coherent_node [simp]: "data_coherent (node_data n) = node_coherent n"
  by (cases n) auto

lemma ref_coherent_data [simp]: "ref_coherent (data_value_ref d) = data_coherent d"
  by (cases d) auto

lemma ref_coherent_value [simp]: "ref_coherent (value_ref v) = value_coherent v"
  by (cases v) auto

lemma stream_coherent_nodes: "stream_coherent s \<Longrightarrow> list_all node_coherent (rs_nodes s)"
  by (cases s) auto

lemma cv_child_coherent: "cv_coherent c \<Longrightarrow> x \<in> set (cv_values c) \<Longrightarrow> ref_coherent x"
proof (cases c)
  case (CVRecord r)
  then show "cv_coherent c \<Longrightarrow> x \<in> set (cv_values c) \<Longrightarrow> ?thesis"
    by (cases r) (auto simp: list_all_iff dest!: stream_coherent_nodes)
next
  case (CVStream s)
  then show "cv_coherent c \<Longrightarrow> x \<in> set (cv_values c) \<Longrightarrow> ?thesis"
    by (auto simp: list_all_iff dest!: stream_coherent_nodes)
qed

lemma new_stream_coherent: "list_all node_coherent nodes \<Longrightarrow> stream_coherent (realized_stream_new nodes spans)"
  by (simp add: realized_stream_new_def)

lemma from_values_coherent: "list_all value_coherent vs \<Longrightarrow> record_coherent (cr_from_values vs)"
  by (simp add: cr_from_values_def)

lemma empty_record_coherent [simp]: "record_coherent cr_empty"
  by (simp add: cr_empty_def cr_from_run_def cr_from_stream_def realized_stream_new_def)

lemma flat_cached_data:
  "data_coherent d \<Longrightarrow> (case d of DClone rs \<Rightarrow> 1 + rs_flat_len rs | _ \<Rightarrow> 1) = tree_flat (data_tree d)"
  and flat_cached_node:
  "node_coherent n \<Longrightarrow> (case node_data n of DClone rs \<Rightarrow> 1 + rs_flat_len rs | _ \<Rightarrow> 1) = tree_flat (node_tree n)"
  and flat_cached_stream:
  "stream_coherent s \<Longrightarrow> rs_flat_len s = sum_list (map tree_flat (stream_trees s))"
proof (induction d and n and s)
  case (RealizedStream ns spans k)
  have "map (\<lambda>n. case node_data n of DClone rs \<Rightarrow> 1 + rs_flat_len rs | _ \<Rightarrow> 1) ns
          = map (\<lambda>n. tree_flat (node_tree n)) ns"
    using RealizedStream by (auto simp: list_all_iff)
  then have "flattened_len ns = sum_list (map (\<lambda>n. tree_flat (node_tree n)) ns)"
    unfolding flattened_len_def by (rule arg_cong)
  then show ?case using RealizedStream.prems by (simp add: comp_def)
qed auto

lemma flat_cached_value:
  "value_coherent v \<Longrightarrow> (case v of VClone r \<Rightarrow> 1 + cr_flat_len r | _ \<Rightarrow> 1) = tree_flat (choice_tree v)"
  and flat_cached_record:
  "record_coherent r \<Longrightarrow> cr_flat_len r = sum_list (map tree_flat (record_trees r))"
proof (induction v and r)
  case (CRValues vs k)
  have "map (\<lambda>v. case v of VClone r \<Rightarrow> 1 + cr_flat_len r | _ \<Rightarrow> 1) vs
          = map (\<lambda>v. tree_flat (choice_tree v)) vs"
    using CRValues by (auto simp: list_all_iff)
  then have "flattened_values_len vs = sum_list (map (\<lambda>v. tree_flat (choice_tree v)) vs)"
    unfolding flattened_values_len_def by (rule arg_cong)
  then show ?case using CRValues.prems by (simp add: comp_def)
qed (auto simp: flat_cached_stream)

lemma flat_cached_cv: "cv_coherent c \<Longrightarrow> cv_flat_len c = sum_list (map tree_flat (cv_trees c))"
  by (cases c) (auto simp: flat_cached_record flat_cached_stream)

lemma cv_length_trees: "cv_length c = length (cv_trees c)"
proof (cases c)
  case (CVRecord r)
  then show ?thesis
    by (cases r) (auto simp: rs_length_def simp flip: stream_trees_nodes)
qed (auto simp: rs_length_def simp flip: stream_trees_nodes)

lemma length_cv_values: "length (cv_values c) = cv_length c"
  by (metis cv_length_trees cv_values_trees length_map)

section \<open>Equality is equality of trees\<close>

lemma list_all_zip_trees:
  assumes "length xs = length ys"
    and "\<And>x y. (x, y) \<in> set (zip xs ys) \<Longrightarrow> ref_eq x y \<longleftrightarrow> ref_tree x = ref_tree y"
  shows "list_all (\<lambda>(x, y). ref_eq x y) (zip xs ys) \<longleftrightarrow> map ref_tree xs = map ref_tree ys"
  using assms by (induction xs ys rule: list_induct2) auto

lemma ref_eq_tree:
  "ref_coherent x \<Longrightarrow> ref_coherent y \<Longrightarrow> ref_eq x y \<longleftrightarrow> ref_tree x = ref_tree y"
proof (induction x y rule: ref_eq.induct)
  case (1 x y)
  show ?case
  proof (cases "\<exists>a b. x = RClone a \<and> y = RClone b")
    case True
    then obtain a b where xy: "x = RClone a" "y = RClone b" by blast
    have coh: "cv_coherent a" "cv_coherent b" using 1(2,3) xy by auto
    have "list_all (\<lambda>(v, w). ref_eq v w) (zip (cv_values a) (cv_values b))
            \<longleftrightarrow> map ref_tree (cv_values a) = map ref_tree (cv_values b)"
      if "cv_flat_len a = cv_flat_len b" and "cv_length a = cv_length b"
    proof (rule list_all_zip_trees)
      show "length (cv_values a) = length (cv_values b)" using that by (simp add: length_cv_values)
      fix v w
      assume vw: "(v, w) \<in> set (zip (cv_values a) (cv_values b))"
      then have "ref_coherent v" "ref_coherent w"
        using cv_child_coherent coh by (auto dest: set_zip_leftD set_zip_rightD)
      then show "ref_eq v w \<longleftrightarrow> ref_tree v = ref_tree w"
        using "1.IH" [OF refl xy vw refl] by blast
    qed
    then have "ref_eq x y \<longleftrightarrow> cv_flat_len a = cv_flat_len b \<and> cv_length a = cv_length b
                 \<and> cv_trees a = cv_trees b"
      unfolding xy by (subst ref_eq.simps) auto
    then show ?thesis
      unfolding xy by (auto simp: flat_cached_cv coh cv_length_trees)
  next
    case False
    then show ?thesis
      by (subst ref_eq.simps) (auto split: choice_value_ref.splits)
  qed
qed

fun tree_hash :: "value_tree \<Rightarrow> hash_token list" where
  "tree_hash (TInteger n) = [HDiscriminant 0, HInt n]"
| "tree_hash (TBoolean b) = [HDiscriminant 1, HBool b]"
| "tree_hash (TFloat f) = [HDiscriminant 2, HU64 f]"
| "tree_hash (TBytes v) = [HDiscriminant 3, HBytes v]"
| "tree_hash (TString v) = [HDiscriminant 4, HU32s v]"
| "tree_hash (TClone ts) = HDiscriminant 5 # HLen (length ts) # concat (map tree_hash ts)"

lemma ref_hash_tree: "ref_hash x = tree_hash (ref_tree x)"
proof (induction x rule: ref_hash.induct)
  case (1 x)
  show ?case
  proof (cases x)
    case (RClone c)
    have "map ref_hash (cv_values c) = map (\<lambda>v. tree_hash (ref_tree v)) (cv_values c)"
      using 1 RClone by (intro map_cong) auto
    also have "\<dots> = map tree_hash (cv_trees c)"
      by (simp flip: cv_values_trees add: comp_def)
    finally show ?thesis
      using RClone by (subst ref_hash.simps) (simp add: cv_length_trees)
  qed (subst ref_hash.simps; simp)+
qed

lemma ref_eq_clone: "ref_eq (RClone a) (RClone b) \<longleftrightarrow> cv_eq a b"
  by (subst ref_eq.simps) (simp add: cv_eq_def)

lemma cv_eq_trees: "cv_coherent a \<Longrightarrow> cv_coherent b \<Longrightarrow> cv_eq a b \<longleftrightarrow> cv_trees a = cv_trees b"
  using ref_eq_tree [of "RClone a" "RClone b"] by (simp add: ref_eq_clone)

lemma value_eq_trees:
  "value_coherent v \<Longrightarrow> value_coherent w \<Longrightarrow> value_eq v w \<longleftrightarrow> choice_tree v = choice_tree w"
  by (cases v; cases w) (auto simp: cr_eq_def cv_eq_trees)

lemma owned_values_trees [simp]: "map choice_tree (cr_owned_values r) = record_trees r"
  by (cases r) (auto simp: comp_def simp flip: stream_trees_nodes)

lemma owned_values_coherent: "record_coherent r \<Longrightarrow> list_all value_coherent (cr_owned_values r)"
proof (cases r)
  case (CRRealized s)
  have "value_coherent (data_value d) = data_coherent d" for d
    by (cases d) (auto simp: cr_from_stream_def)
  then show "record_coherent r \<Longrightarrow> ?thesis"
    using CRRealized by (auto simp: list_all_iff dest!: stream_coherent_nodes)
qed auto

text \<open>C35: on coherent values, \<open>PartialEq\<close> decides equality of the trees of child values, so it is
  an equivalence that ignores kinds, spans and storage shape; equal values hash alike; and a
  record rebuilt from its owned values compares equal to the original.
\<close>
theorem value_equality_by_trees:
  assumes "value_coherent v" and "value_coherent w"
  shows "(value_eq v w \<longleftrightarrow> choice_tree v = choice_tree w)
     \<and> (value_eq v w \<longrightarrow> ref_hash (value_ref v) = ref_hash (value_ref w))
     \<and> (\<forall>r. v = VClone r \<longrightarrow> value_eq v (VClone (cr_from_values (cr_owned_values r))))"
proof (intro conjI allI impI)
  show eq: "value_eq v w \<longleftrightarrow> choice_tree v = choice_tree w" by (rule value_eq_trees [OF assms])
  show "ref_hash (value_ref v) = ref_hash (value_ref w)" if "value_eq v w"
    using that eq by (simp add: ref_hash_tree)
  fix r
  assume r: "v = VClone r"
  then have "value_coherent (VClone (cr_from_values (cr_owned_values r)))"
    using assms(1) by (simp add: from_values_coherent owned_values_coherent)
  then show "value_eq v (VClone (cr_from_values (cr_owned_values r)))"
    using value_eq_trees [OF assms(1)] r by (simp del: value_eq.simps add: cr_from_values_def)
qed

definition sample_clone :: clone_record where
  "sample_clone = cr_from_run
     [ChoiceNode (DBoolean \<lparr>bc_p = 0\<rparr> True) False] []"

theorem value_equality_by_trees_witness:
  "value_eq (VClone sample_clone) (VClone (cr_from_values [VBoolean True]))
   \<and> \<not> value_eq (VClone sample_clone) (VClone cr_empty)"
proof -
  have c: "value_coherent (VClone sample_clone)" "value_coherent (VClone cr_empty)"
    "value_coherent (VClone (cr_from_values [VBoolean True]))"
    by (simp_all add: sample_clone_def cr_from_run_def cr_from_stream_def realized_stream_new_def
        cr_from_values_def)
  have t: "choice_tree (VClone sample_clone) = TClone [TBoolean True]"
    "choice_tree (VClone cr_empty) = TClone []"
    "choice_tree (VClone (cr_from_values [VBoolean True])) = TClone [TBoolean True]"
    by (simp_all add: sample_clone_def cr_from_run_def cr_from_stream_def realized_stream_new_def
        cr_from_values_def cr_empty_def)
  show ?thesis
    using value_equality_by_trees [OF c(1,3)] value_equality_by_trees [OF c(1,2)] t by simp
qed

section \<open>Validated nodes\<close>

text \<open>
  The invariant of every recorded node: the constraint is well formed, the value satisfies it
  and cached counts are right.
\<close>

fun data_valid :: "choice_data \<Rightarrow> bool"
  and node_valid :: "choice_node \<Rightarrow> bool"
  and stream_valid :: "realized_stream \<Rightarrow> bool" where
  "data_valid (DInteger ic v) = (integer_wf ic \<and> integer_validate ic v)"
| "data_valid (DBoolean bc v) = True"
| "data_valid (DFloat fc v) = float_validate fc v"
| "data_valid (DBytes bc v) = (bytes_wf bc \<and> bytes_validate bc v)"
| "data_valid (DString sc v) = (string_wf sc \<and> string_validate sc v)"
| "data_valid (DClone rs) = stream_valid rs"
| "node_valid (ChoiceNode d f) = data_valid d"
| "stream_valid (RealizedStream ns spans n) = (n = flattened_len ns \<and> list_all node_valid ns)"

fun kind_wf :: "choice_kind \<Rightarrow> bool" where
  "kind_wf (KInteger ic) = integer_wf ic"
| "kind_wf (KBytes bc) = bytes_wf bc"
| "kind_wf (KString sc) = string_wf sc"
| "kind_wf _ = True"

fun value_valid :: "choice_value \<Rightarrow> bool" where
  "value_valid (VClone (CRRealized rs)) = stream_valid rs"
| "value_valid _ = True"

lemma data_valid_node [simp]: "data_valid (node_data n) = node_valid n"
  by (cases n) auto

lemma stream_valid_nodes: "stream_valid s \<Longrightarrow> list_all node_valid (rs_nodes s)"
  by (cases s) auto

lemma stream_valid_flat: "stream_valid s \<Longrightarrow> rs_flat_len s = flattened_len (rs_nodes s)"
  by (cases s) auto

lemma data_valid_kind: "data_valid d \<Longrightarrow> kind_wf (data_kind d)"
  by (cases d) auto

lemma kind_resolve_Some:
  assumes "kind_resolve k v = Some d"
  shows "data_kind d = k" and "data_value d = v" and "kind_wf k \<Longrightarrow> data_valid d"
  using assms by (cases k; cases v; auto split: if_splits)+

lemma data_with_value_Some:
  assumes "data_with_value d v = Some d'"
  shows "data_kind d' = data_kind d" and "data_value d' = v"
    and "data_valid d \<Longrightarrow> value_valid v \<Longrightarrow> data_valid d'"
proof -
  have "data_kind d' = data_kind d \<and> data_value d' = v
          \<and> (data_valid d \<longrightarrow> value_valid v \<longrightarrow> data_valid d')"
  proof (cases "\<exists>rs r. d = DClone rs \<and> v = VClone r")
    case True
    then obtain rs r where "d = DClone rs" "v = VClone r" by blast
    then show ?thesis using assms by (cases r) (auto simp: cr_from_stream_def)
  next
    case False
    then have "kind_resolve (data_kind d) v = Some d'"
      using assms by (cases d; cases v) auto
    from kind_resolve_Some [OF this] show ?thesis by (auto dest: data_valid_kind)
  qed
  then show "data_kind d' = data_kind d" and "data_value d' = v"
    and "data_valid d \<Longrightarrow> value_valid v \<Longrightarrow> data_valid d'" by auto
qed

lemma data_value_valid: "data_valid d \<Longrightarrow> value_valid (data_value d)"
  by (cases d) (auto simp: cr_from_stream_def)

text \<open>C33: pairing a value with a node keeps the node's constraint and forced flag, carries
  exactly that value, and preserves validity; re-pairing a valid node with its own value
  gives it back.
\<close>
theorem with_value_sound:
  assumes "node_valid n"
  shows "(\<forall>v n'. node_with_value n v = Some n' \<longrightarrow>
            node_kind n' = node_kind n \<and> was_forced n' = was_forced n \<and> node_value n' = v
            \<and> (value_valid v \<longrightarrow> node_valid n'))
     \<and> node_with_value n (node_value n) = Some n"
proof (intro conjI allI impI)
  fix v n'
  assume "node_with_value n v = Some n'"
  then obtain d where d: "data_with_value (node_data n) v = Some d" "n' = ChoiceNode d (was_forced n)"
    by (auto simp: node_with_value_def)
  note facts = data_with_value_Some [OF d(1)]
  show "node_kind n' = node_kind n" "was_forced n' = was_forced n" "node_value n' = v"
    using facts(1,2) by (simp_all add: d(2) node_kind_def node_value_def)
  show "value_valid v \<Longrightarrow> node_valid n'" using facts(3) assms by (simp add: d(2))
next
  obtain d f where n: "n = ChoiceNode d f" by (cases n)
  show "node_with_value n (node_value n) = Some n"
    using assms unfolding n
    by (cases d) (auto simp: node_with_value_def node_value_def cr_from_stream_def)
qed

definition sample_integer :: integer_choice where
  "sample_integer = \<lparr>ic_min = -2, ic_max = 5, ic_shrink_towards = 0\<rparr>"

theorem with_value_sound_witness:
  "node_valid (ChoiceNode (DInteger sample_integer 4) False)
   \<and> node_with_value (ChoiceNode (DInteger sample_integer 4) False) (VInteger 4)
       = Some (ChoiceNode (DInteger sample_integer 4) False)"
proof -
  have h: "node_valid (ChoiceNode (DInteger sample_integer 4) False)"
    by (simp add: sample_integer_def integer_wf_def integer_validate_def)
  from with_value_sound [OF h] h show ?thesis by (simp add: node_value_def)
qed

section \<open>The sort-key comparison is lexicographic on a list of numbers\<close>

text \<open>
  The abstraction: a node's key as a prefix-free list of numbers (category, then the lengths
  that are compared first, then the elements). The lazy comparison of the source refines the
  lexicographic order on these lists.
\<close>

primrec data_tokens :: "choice_data \<Rightarrow> nat list"
  and node_tokens :: "choice_node \<Rightarrow> nat list"
  and stream_tokens :: "realized_stream \<Rightarrow> nat list" where
  "data_tokens (DInteger ic v) =
     [0, fst (integer_sort_key ic v), of_bool (snd (integer_sort_key ic v))]"
| "data_tokens (DBoolean bc v) = [0, of_bool v, 0]"
| "data_tokens (DFloat fc v) =
     [0, unat (fst (float_sort_key v)), of_bool (snd (float_sort_key v))]"
| "data_tokens (DBytes bc v) = 1 # length v # map unat v"
| "data_tokens (DString sc v) = 1 # length v # map (cp_rank sc) v"
| "data_tokens (DClone rs) = 2 # stream_tokens rs"
| "node_tokens (ChoiceNode d f) = data_tokens d"
| "stream_tokens (RealizedStream ns spans n) = n # length ns # concat (map node_tokens ns)"

definition nodes_tokens :: "choice_node list \<Rightarrow> nat list" where
  "nodes_tokens ns = flattened_len ns # length ns # concat (map node_tokens ns)"

fun then_cmp :: "ordering \<Rightarrow> ordering \<Rightarrow> ordering" where
  "then_cmp Equal y = y"
| "then_cmp x y = x"

lemma then_cmp_assoc: "then_cmp (then_cmp a b) c = then_cmp a (then_cmp b c)"
  by (cases a) auto

lemma then_cmp_Equal [simp]: "then_cmp a Equal = a"
  by (cases a) auto

lemma cmp_Cons: "cmp (x # xs) (y # ys) = then_cmp (cmp x y) (cmp xs ys)" for x y :: nat
  by (cases x y rule: linorder_cases) (auto simp: cmp_def)

lemma cmp_less: "x < y \<Longrightarrow> cmp x y = Less" "x < y \<Longrightarrow> cmp y x = Greater"
  by simp_all

definition refines :: "ordering internal_result \<Rightarrow> nat list \<Rightarrow> nat list \<Rightarrow> bool" where
  "refines r t u \<longleftrightarrow> (\<exists>ord. r = Inr ord \<and> (\<forall>x y. cmp (t @ x) (u @ y) = then_cmp ord (cmp x y)))"

lemma refines_Nil [simp]: "refines (Inr Equal) [] []"
  by (simp add: refines_def)

lemma refines_result: "refines r t u \<Longrightarrow> r = Inr (cmp t u)"
proof -
  assume "refines r t u"
  then obtain ord where r: "r = Inr ord" "\<And>x y. cmp (t @ x) (u @ y) = then_cmp ord (cmp x y)"
    by (auto simp: refines_def)
  from r(2) [of "[]" "[]"] r(1) show ?thesis by simp
qed

lemma refines_case_cmp:
  assumes "m = n \<Longrightarrow> refines r t u"
  shows "refines (case cmp m n of Equal \<Rightarrow> r | ord \<Rightarrow> Inr ord) (m # t) (n # u)"
proof (cases m n rule: linorder_cases)
  case equal
  with assms show ?thesis by (auto simp: refines_def cmp_Cons)
qed (simp_all add: refines_def cmp_Cons cmp_less del: cmp_simps)

lemma refines_bind:
  assumes "refines r t u" and "r = Inr Equal \<Longrightarrow> refines r' t' u'"
  shows "refines (rbind r (\<lambda>ord. case ord of Equal \<Rightarrow> r' | _ \<Rightarrow> Inr ord)) (t @ t') (u @ u')"
proof -
  obtain ord where r: "r = Inr ord" "\<And>x y. cmp (t @ x) (u @ y) = then_cmp ord (cmp x y)"
    using assms(1) by (auto simp: refines_def)
  show ?thesis
    using r assms(2) by (cases ord) (auto simp: refines_def)
qed

lemma seq_cmp_from_refines:
  assumes "length ks = length ls"
    and "\<And>i. i < length ks \<Longrightarrow> seq_key_at a i = Inr (ks ! i) \<and> seq_key_at b i = Inr (ls ! i)"
    and "n \<le> length ks"
  shows "refines (seq_cmp_from a b [n..<length ks]) (drop n ks) (drop n ls)"
  using assms(3)
proof (induction "length ks - n" arbitrary: n)
  case 0
  then show ?case using assms(1) by simp
next
  case (Suc k)
  then have n: "n < length ks" "n < length ls" using assms(1) by auto
  have "refines (seq_cmp_from a b [Suc n..<length ks]) (drop (Suc n) ks) (drop (Suc n) ls)"
    using Suc n by (intro Suc.hyps) auto
  from refines_case_cmp [OF this, of "ks ! n" "ls ! n"] show ?case
    using n assms(2) [OF n(1)] by (simp add: upt_conv_Cons Cons_nth_drop_Suc)
qed

lemma seq_cmp_refines:
  assumes "seq_length a = length ks" "seq_length b = length ls"
    and "\<And>i. i < length ks \<Longrightarrow> seq_key_at a i = Inr (ks ! i)"
    and "\<And>i. i < length ls \<Longrightarrow> seq_key_at b i = Inr (ls ! i)"
  shows "refines (seq_cmp a b) (length ks # ks) (length ls # ls)"
  unfolding seq_cmp_def assms(1,2)
  by (rule refines_case_cmp) (use seq_cmp_from_refines [of ks ls a b 0] assms in auto)

lemma codepoint_key_ok: "string_wf c \<Longrightarrow> contains (sc_intervals c) cp \<Longrightarrow> codepoint_key c cp = Inr (cp_rank c cp)"
  using codepoint_rank_ok by (simp add: codepoint_rank_def)

fun seq_keys_list :: "seq_keys \<Rightarrow> nat list" where
  "seq_keys_list (SeqBytes b) = map unat b"
| "seq_keys_list (SeqString sc cps) = map (cp_rank sc) cps"

lemma seq_keys_list_ok:
  assumes "sort_key_ref n = KeySeq s" "node_valid n"
  shows "seq_length s = length (seq_keys_list s)"
    and "i < length (seq_keys_list s) \<Longrightarrow> seq_key_at s i = Inr (seq_keys_list s ! i)"
    and "node_tokens n = 1 # length (seq_keys_list s) # seq_keys_list s"
proof -
  obtain d f where n: "n = ChoiceNode d f" by (cases n)
  have "seq_length s = length (seq_keys_list s)
     \<and> (i < length (seq_keys_list s) \<longrightarrow> seq_key_at s i = Inr (seq_keys_list s ! i))
     \<and> node_tokens n = 1 # length (seq_keys_list s) # seq_keys_list s"
    using assms unfolding n
    by (cases d) (auto simp: string_validate_def list_all_length codepoint_key_ok split: prod.splits)
  then show "seq_length s = length (seq_keys_list s)"
    "i < length (seq_keys_list s) \<Longrightarrow> seq_key_at s i = Inr (seq_keys_list s ! i)"
    "node_tokens n = 1 # length (seq_keys_list s) # seq_keys_list s" by auto
qed

lemma scalar_tokens:
  "sort_key_ref n = KeyScalar m b \<Longrightarrow> node_tokens n = [0, m, of_bool b]"
  by (cases n rule: sort_key_ref.cases) (auto split: prod.splits)

lemma clone_tokens:
  "sort_key_ref n = KeyClone r \<Longrightarrow>
     node_tokens n = 2 # rs_flat_len r # rs_length r # concat (map node_tokens (rs_nodes r))"
  by (cases r) (auto simp: sort_key_clone rs_length_def)

lemma node_valid_clone: "sort_key_ref n = KeyClone r \<Longrightarrow> node_valid n \<Longrightarrow> stream_valid r"
  by (auto simp: sort_key_clone)

lemma category_tokens:
  "node_valid n \<Longrightarrow> \<exists>t. node_tokens n = sort_key_category (sort_key_ref n) # t"
  by (cases "sort_key_ref n") (auto simp: scalar_tokens clone_tokens seq_keys_list_ok(3))

lemma refines_scalar:
  "refines (Inr (cmp (am, an) (bm, bn))) [0, am, of_bool an] [0, bm, of_bool (bn :: bool)]"
proof -
  have "cmp (am, an) (bm, bn) = then_cmp (cmp am bm) (cmp (of_bool an :: nat) (of_bool bn))" for am bm :: nat
    by (cases am bm rule: linorder_cases; cases an; cases bn) (auto simp: cmp_def)
  then show ?thesis by (simp add: refines_def cmp_Cons then_cmp_assoc)
qed

lemma refines_category:
  assumes "c \<noteq> d"
  shows "refines (Inr (cmp c d)) (c # t) (d # u)"
  using assms by (cases c d rule: linorder_cases) (simp_all add: refines_def cmp_Cons cmp_less del: cmp_simps)

lemma node_key_cmp_refines:
  assumes valid: "node_valid na" "node_valid nb"
    and nested: "\<And>ra rb. sort_key_ref na = KeyClone ra \<Longrightarrow> sort_key_ref nb = KeyClone rb \<Longrightarrow>
        length (rs_nodes ra) = length (rs_nodes rb) \<Longrightarrow>
        refines (elementwise_nodes_cmp (rs_nodes ra) (rs_nodes rb))
          (concat (map node_tokens (rs_nodes ra))) (concat (map node_tokens (rs_nodes rb)))"
  shows "refines (node_key_cmp (sort_key_ref na) (sort_key_ref nb)) (node_tokens na) (node_tokens nb)"
proof (cases "sort_key_category (sort_key_ref na) = sort_key_category (sort_key_ref nb)")
  case False
  obtain t u where "node_tokens na = sort_key_category (sort_key_ref na) # t"
    "node_tokens nb = sort_key_category (sort_key_ref nb) # u"
    using category_tokens valid by blast
  moreover have "node_key_cmp (sort_key_ref na) (sort_key_ref nb)
      = Inr (cmp (sort_key_category (sort_key_ref na)) (sort_key_category (sort_key_ref nb)))"
    using False by (cases "sort_key_ref na"; cases "sort_key_ref nb") (auto simp: node_key_cmp_def)
  ultimately show ?thesis using refines_category [OF False] by simp
next
  case True
  have drop_same: "refines r (c # t) (c # u)" if "refines r t u" for r c t u
    using that by (auto simp: refines_def cmp_Cons)
  show ?thesis
  proof (cases "sort_key_ref na")
    case (KeyScalar m b)
    with True obtain m' b' where b: "sort_key_ref nb = KeyScalar m' b'"
      by (cases "sort_key_ref nb") auto
    show ?thesis
      using refines_scalar unfolding scalar_tokens [OF KeyScalar] scalar_tokens [OF b] KeyScalar b
      by (simp add: node_key_cmp_def)
  next
    case (KeySeq s)
    with True obtain s' where b: "sort_key_ref nb = KeySeq s'"
      by (cases "sort_key_ref nb") auto
    note a = seq_keys_list_ok [OF KeySeq valid(1)] and b' = seq_keys_list_ok [OF b valid(2)]
    have "refines (seq_cmp s s') (length (seq_keys_list s) # seq_keys_list s)
            (length (seq_keys_list s') # seq_keys_list s')"
      by (rule seq_cmp_refines [OF a(1) b'(1) a(2) b'(2)])
    then show ?thesis
      unfolding a(3) b'(3) KeySeq b by (simp add: node_key_cmp_def drop_same)
  next
    case (KeyClone r)
    with True obtain r' where b: "sort_key_ref nb = KeyClone r'"
      by (cases "sort_key_ref nb") auto
    have "refines (realized_streams_cmp r r')
        (rs_flat_len r # rs_length r # concat (map node_tokens (rs_nodes r)))
        (rs_flat_len r' # rs_length r' # concat (map node_tokens (rs_nodes r')))"
      unfolding realized_streams_cmp_def
      by (intro refines_case_cmp nested [OF KeyClone b]) (simp add: rs_length_def)
    then show ?thesis
      unfolding clone_tokens [OF KeyClone] clone_tokens [OF b] KeyClone b
      by (simp add: node_key_cmp_def drop_same)
  qed
qed

lemma elementwise_refines:
  assumes "list_all node_valid a" "list_all node_valid b" "length a = length b"
  shows "refines (elementwise_nodes_cmp a b) (concat (map node_tokens a)) (concat (map node_tokens b))"
  using assms
proof (induction "size_list size a" arbitrary: a b rule: less_induct)
  case less
  show ?case
  proof (cases a)
    case Nil
    with less.prems show ?thesis by simp
  next
    case (Cons na as)
    with less.prems obtain nb bs where b: "b = nb # bs" by (cases b) auto
    have tail: "refines (elementwise_nodes_cmp as bs) (concat (map node_tokens as))
        (concat (map node_tokens bs))"
      using less.prems Cons b by (intro less.hyps) auto
    have head: "refines (node_key_cmp (sort_key_ref na) (sort_key_ref nb)) (node_tokens na) (node_tokens nb)"
    proof (rule node_key_cmp_refines)
      show "node_valid na" "node_valid nb" using less.prems Cons b by auto
      fix ra rb
      assume r: "sort_key_ref na = KeyClone ra" "sort_key_ref nb = KeyClone rb"
        "length (rs_nodes ra) = length (rs_nodes rb)"
      show "refines (elementwise_nodes_cmp (rs_nodes ra) (rs_nodes rb))
          (concat (map node_tokens (rs_nodes ra))) (concat (map node_tokens (rs_nodes rb)))"
      proof (rule less.hyps)
        show "size_list size (rs_nodes ra) < size_list size a"
          using clone_nodes_size [of ra na] r(1) Cons by simp
        show "list_all node_valid (rs_nodes ra)" "list_all node_valid (rs_nodes rb)"
          using node_valid_clone [OF r(1)] node_valid_clone [OF r(2)] less.prems Cons b
          by (auto intro: stream_valid_nodes)
      qed (rule r(3))
    qed
    show ?thesis
      unfolding Cons b elementwise_nodes_cmp_Cons
      using refines_bind [OF head tail] by simp
  qed
qed

lemma nodes_sort_key_cmp_refines:
  assumes "list_all node_valid a" "list_all node_valid b"
  shows "refines (nodes_sort_key_cmp a b) (nodes_tokens a) (nodes_tokens b)"
  unfolding nodes_sort_key_cmp_def nodes_tokens_def
  by (intro refines_case_cmp elementwise_refines assms)

lemma nodes_sort_key_cmp_eq:
  "list_all node_valid a \<Longrightarrow> list_all node_valid b \<Longrightarrow>
     nodes_sort_key_cmp a b = Inr (cmp (nodes_tokens a) (nodes_tokens b))"
  by (rule refines_result [OF nodes_sort_key_cmp_refines])

text \<open>C6: on validated sequences the sort-key comparison never fails and is the lexicographic
  order on number lists, hence a total preorder: comparing the other way reverses the
  outcome, \<open>Less\<close> is transitive, and fewer choices in total always win.
\<close>
theorem sort_key_order:
  assumes "list_all node_valid a" and "list_all node_valid b" and "list_all node_valid c"
  shows "nodes_sort_key_cmp a b = Inr (cmp (nodes_tokens a) (nodes_tokens b))
     \<and> nodes_sort_key_cmp b a = Inr (reverse_ordering (cmp (nodes_tokens a) (nodes_tokens b)))
     \<and> (nodes_sort_key_cmp a b = Inr Less \<and> nodes_sort_key_cmp b c = Inr Less
          \<longrightarrow> nodes_sort_key_cmp a c = Inr Less)
     \<and> (flattened_len a < flattened_len b \<longrightarrow> nodes_sort_key_cmp a b = Inr Less)"
  using assms by (auto simp: nodes_sort_key_cmp_eq cmp_reverse) (simp add: nodes_tokens_def)

theorem sort_key_order_witness:
  "nodes_sort_key_cmp [ChoiceNode (DInteger sample_integer 4) False]
     [ChoiceNode (DInteger sample_integer 4) False, ChoiceNode (DBytes \<lparr>by_min_size = 0, by_max_size = 2\<rparr> [7]) False]
   = Inr Less"
proof -
  have a: "list_all node_valid [ChoiceNode (DInteger sample_integer 4) False]"
    by (simp add: sample_integer_def integer_wf_def integer_validate_def)
  have b: "list_all node_valid [ChoiceNode (DInteger sample_integer 4) False,
      ChoiceNode (DBytes \<lparr>by_min_size = 0, by_max_size = 2\<rparr> [7]) False]"
    by (simp add: sample_integer_def integer_wf_def integer_validate_def bytes_wf_def bytes_validate_def)
  have "flattened_len [ChoiceNode (DInteger sample_integer 4) False]
      < flattened_len [ChoiceNode (DInteger sample_integer 4) False,
      ChoiceNode (DBytes \<lparr>by_min_size = 0, by_max_size = 2\<rparr> [7]) False]"
    by (simp add: flattened_len_def)
  with sort_key_order [OF a b a] show ?thesis by blast
qed

section \<open>The order is well founded\<close>

text \<open>A lexicographic product whose second component depends on the first.\<close>

definition dep_lex :: "('a \<Rightarrow> nat) \<Rightarrow> (nat \<Rightarrow> ('a \<times> 'a) set) \<Rightarrow> ('a \<times> 'a) set" where
  "dep_lex f S = {(x, y). f x < f y \<or> f x = f y \<and> (x, y) \<in> S (f y)}"

lemma in_dep_lex [simp]: "(x, y) \<in> dep_lex f S \<longleftrightarrow> f x < f y \<or> f x = f y \<and> (x, y) \<in> S (f y)"
  by (simp add: dep_lex_def)

lemma wf_dep_lex:
  assumes "\<And>c. wf (S c)"
  shows "wf (dep_lex f S)"
proof (rule wfI_pf)
  fix A
  assume sub: "A \<subseteq> dep_lex f S `` A"
  have "x \<notin> A" for x
  proof (induction "f x" arbitrary: x rule: less_induct)
    case outer: less
    show ?case
    proof (rule ccontr)
      assume "\<not> x \<notin> A"
      have "y \<in> A \<longrightarrow> f y = f x \<longrightarrow> False" for y
      proof (induction y rule: wf_induct_rule [OF assms [of "f x"]])
        case inner: (1 y)
        show ?case
        proof (intro impI)
          assume y: "y \<in> A" "f y = f x"
          then obtain z where z: "z \<in> A" "f z < f y \<or> f z = f y \<and> (z, y) \<in> S (f y)"
            using sub by (auto simp: dep_lex_def)
          then show False using outer inner y by fastforce
        qed
      qed
      with \<open>\<not> x \<notin> A\<close> show False by blast
    qed
  qed
  then show "A = {}" by blast
qed

lemma list_less_lex: "length t = length u \<Longrightarrow> t < u \<Longrightarrow> (t, u) \<in> lex less_than" for t u :: "nat list"
  by (induction t u rule: list_induct2) auto

definition node_flat :: "choice_node \<Rightarrow> nat" where
  "node_flat n = (case node_data n of DClone rs \<Rightarrow> 1 + rs_flat_len rs | _ \<Rightarrow> 1)"

lemma flattened_len_sum: "flattened_len ns = sum_list (map node_flat ns)"
  unfolding flattened_len_def node_flat_def by (rule refl)

definition token_lists :: "nat \<Rightarrow> nat list set" where
  "token_lists k = {node_tokens n | n. node_valid n \<and> node_flat n \<le> k}"

definition token_less :: "nat \<Rightarrow> (nat list \<times> nat list) set" where
  "token_less k = {(t, u). t \<in> token_lists k \<and> u \<in> token_lists k \<and> t < u}"

lemma node_tokens_append:
  assumes "node_valid a" "node_valid b"
  shows "cmp (node_tokens a @ x) (node_tokens b @ y)
           = then_cmp (cmp (node_tokens a) (node_tokens b)) (cmp x y)"
proof -
  have "refines (elementwise_nodes_cmp [a] [b]) (node_tokens a) (node_tokens b)"
    using elementwise_refines [of "[a]" "[b]"] assms by simp
  then obtain ord where "\<And>x y. cmp (node_tokens a @ x) (node_tokens b @ y) = then_cmp ord (cmp x y)"
    by (auto simp: refines_def)
  from this [of x y] this [of "[]" "[]"] show ?thesis by simp
qed

lemma concat_less_lex:
  assumes "list_all node_valid as" "list_all node_valid bs" "length as = length bs"
    and "\<And>n. n \<in> set as \<union> set bs \<Longrightarrow> node_flat n \<le> k"
    and "concat (map node_tokens as) < concat (map node_tokens bs)"
  shows "(map node_tokens as, map node_tokens bs) \<in> lex (token_less k)"
  using assms(3,1,2,4,5)
proof (induction as bs rule: list_induct2)
  case (Cons a as b bs)
  have cmp: "then_cmp (cmp (node_tokens a) (node_tokens b))
      (cmp (concat (map node_tokens as)) (concat (map node_tokens bs))) = Less"
    using Cons.prems node_tokens_append [of a b] by (simp flip: node_tokens_append)
  have tok: "node_tokens a \<in> token_lists k" "node_tokens b \<in> token_lists k"
    using Cons.prems by (auto simp: token_lists_def)
  show ?case
  proof (cases "node_tokens a" "node_tokens b" rule: linorder_cases)
    case less
    then show ?thesis using tok Cons.hyps by (auto simp: token_less_def)
  next
    case equal
    then have "concat (map node_tokens as) < concat (map node_tokens bs)" using cmp by simp
    then show ?thesis using Cons equal by auto
  next
    case greater
    then show ?thesis using cmp by (simp add: cmp_less del: cmp_simps)
  qed
qed simp

lemma node_flat_member: "n \<in> set ns \<Longrightarrow> node_flat n \<le> flattened_len ns"
  by (simp add: flattened_len_sum member_le_sum_list)

lemma token_list_shape:
  assumes "t \<in> token_lists k"
  shows "t ! 0 = 0 \<and> length t = 3 \<or> t ! 0 = 1 \<and> length t = t ! 1 + 2
     \<or> (\<exists>r. stream_valid r \<and> rs_flat_len r < k
          \<and> t = 2 # rs_flat_len r # rs_length r # concat (map node_tokens (rs_nodes r)))"
proof -
  obtain n where n: "node_valid n" "node_flat n \<le> k" "t = node_tokens n"
    using assms by (auto simp: token_lists_def)
  show ?thesis
  proof (cases "sort_key_ref n")
    case (KeyScalar m b)
    then show ?thesis using n by (simp add: scalar_tokens)
  next
    case (KeySeq s)
    then show ?thesis using n by (simp add: seq_keys_list_ok(3))
  next
    case (KeyClone r)
    then show ?thesis using n clone_tokens [OF KeyClone] node_valid_clone [OF KeyClone]
      by (auto simp: sort_key_clone node_flat_def)
  qed
qed

definition clone_of :: "nat \<Rightarrow> nat list \<Rightarrow> choice_node list" where
  "clone_of k t = rs_nodes (SOME r. stream_valid r \<and> rs_flat_len r < k
     \<and> t = 2 # rs_flat_len r # rs_length r # concat (map node_tokens (rs_nodes r)))"

lemma clone_of:
  assumes "t \<in> token_lists k" "t ! 0 = 2"
  shows "list_all node_valid (clone_of k t)" "flattened_len (clone_of k t) < k"
    "t = 2 # flattened_len (clone_of k t) # length (clone_of k t) # concat (map node_tokens (clone_of k t))"
proof -
  let ?P = "\<lambda>r. stream_valid r \<and> rs_flat_len r < k
     \<and> t = 2 # rs_flat_len r # rs_length r # concat (map node_tokens (rs_nodes r))"
  have "\<exists>r. ?P r" using token_list_shape [OF assms(1)] assms(2) by auto
  from someI_ex [OF this] have p: "?P (SOME r. ?P r)" .
  show "list_all node_valid (clone_of k t)" "flattened_len (clone_of k t) < k"
    using p by (auto simp: clone_of_def stream_valid_nodes simp flip: stream_valid_flat)
  show "t = 2 # flattened_len (clone_of k t) # length (clone_of k t)
          # concat (map node_tokens (clone_of k t))"
    using p by (simp add: clone_of_def rs_length_def flip: stream_valid_flat)
qed

lemma wf_token_less: "wf (token_less k)"
proof (induction k rule: less_induct)
  case (less k)
  define clones where "clones = inv_image (if k = 0 then {} else lex (token_less (k - 1)))
    (\<lambda>t. map node_tokens (clone_of k t))"
  define R where "R = dep_lex (\<lambda>t. t ! 0) (\<lambda>c.
    if c = 0 then lex less_than
    else dep_lex (\<lambda>t. t ! 1) (\<lambda>_. if c = 1 then lex less_than else dep_lex (\<lambda>t. t ! 2) (\<lambda>_. clones)))"
  have clones: "wf clones"
    unfolding clones_def using less by (intro wf_inv_image) (auto intro: wf_lex)
  have R: "wf R"
    unfolding R_def by (intro wf_dep_lex) (simp add: wf_dep_lex wf_lex clones)
  have "token_less k \<subseteq> R"
  proof (rule subrelI)
    fix t u
    assume tu: "(t, u) \<in> token_less k"
    then have mem: "t \<in> token_lists k" "u \<in> token_lists k" and lt: "t < u"
      by (auto simp: token_less_def)
    have ne: "t \<noteq> []" "u \<noteq> []" using token_list_shape mem by force+
    then have le: "t ! 0 \<le> u ! 0" using lt by (cases t; cases u) auto
    consider "t ! 0 < u ! 0" | "t ! 0 = 0" "u ! 0 = 0" | "t ! 0 = 1" "u ! 0 = 1"
      | "t ! 0 = 2" "u ! 0 = 2"
      using le token_list_shape [OF mem(1)] token_list_shape [OF mem(2)] by force
    then show "(t, u) \<in> R"
    proof cases
      case 2
      then have "length t = length u"
        using token_list_shape [OF mem(1)] token_list_shape [OF mem(2)] by force
      from list_less_lex [OF this lt] 2 show ?thesis by (simp add: R_def)
    next
      case 3
      then have len: "length t = t ! 1 + 2" "length u = u ! 1 + 2"
        using token_list_shape [OF mem(1)] token_list_shape [OF mem(2)] by force+
      obtain t1 t' u1 u' where tu': "t = 1 # t1 # t'" "u = 1 # u1 # u'"
        using 3 len by (cases t; cases "tl t"; cases u; cases "tl u") auto
      then have "t1 \<le> u1" using lt by auto
      moreover have "(t, u) \<in> lex less_than" if "t1 = u1"
        using that lt len tu' by (intro list_less_lex) auto
      ultimately show ?thesis using tu' by (auto simp: R_def)
    next
      case 4
      note t = clone_of [OF mem(1) 4(1)] and u = clone_of [OF mem(2) 4(2)]
      let ?t = "clone_of k t" and ?u = "clone_of k u"
      have k: "0 < k" using t(2) by simp
      have le: "flattened_len ?t < flattened_len ?u
          \<or> flattened_len ?t = flattened_len ?u \<and> (length ?t < length ?u
              \<or> length ?t = length ?u
                 \<and> concat (map node_tokens ?t) < concat (map node_tokens ?u))"
        using lt by (subst (asm) t(3), subst (asm) u(3)) auto
      have idx: "t ! 1 = flattened_len ?t" "t ! 2 = length ?t"
        "u ! 1 = flattened_len ?u" "u ! 2 = length ?u"
        by (subst t(3), simp)+ (subst u(3), simp)+
      have "(t, u) \<in> clones" if "length ?t = length ?u"
        "concat (map node_tokens ?t) < concat (map node_tokens ?u)"
      proof -
        have "(map node_tokens ?t, map node_tokens ?u) \<in> lex (token_less (k - 1))"
          using that t(1,2) u(1,2) node_flat_member
          by (intro concat_less_lex) (fastforce+)
        then show ?thesis using k by (simp add: clones_def)
      qed
      with le 4 idx show ?thesis by (auto simp: R_def)
    qed (simp add: R_def)
  qed
  with R show ?case by (rule wf_subset)
qed

definition shrinks_to :: "(choice_node list \<times> choice_node list) set" where
  "shrinks_to = {(a, b). list_all node_valid a \<and> list_all node_valid b
     \<and> nodes_sort_key_cmp a b = Inr Less}"

lemma wf_shrinks_to: "wf shrinks_to"
proof -
  define R where "R = dep_lex flattened_len (\<lambda>n. dep_lex length (\<lambda>_.
    inv_image (lex (token_less n)) (map node_tokens)))"
  have "wf R"
    unfolding R_def by (intro wf_dep_lex wf_inv_image wf_lex wf_token_less)
  moreover have "shrinks_to \<subseteq> R"
  proof (rule subrelI)
    fix a b
    assume "(a, b) \<in> shrinks_to"
    then have valid: "list_all node_valid a" "list_all node_valid b"
      and "nodes_tokens a < nodes_tokens b"
      by (auto simp: shrinks_to_def nodes_sort_key_cmp_eq)
    then consider "flattened_len a < flattened_len b"
      | "flattened_len a = flattened_len b" "length a < length b"
      | "flattened_len a = flattened_len b" "length a = length b"
        "concat (map node_tokens a) < concat (map node_tokens b)"
      by (auto simp: nodes_tokens_def)
    then show "(a, b) \<in> R"
    proof cases
      case 3
      have "(map node_tokens a, map node_tokens b) \<in> lex (token_less (flattened_len b))"
        using 3 valid node_flat_member by (intro concat_less_lex) fastforce+
      with 3 show ?thesis by (simp add: R_def)
    qed (simp_all add: R_def)
  qed
  ultimately show ?thesis by (rule wf_subset)
qed

text \<open>C5: there is no infinite chain of validated node sequences each strictly below the previous
  one, so accepting only strict improvements terminates, whatever candidates are tried:
  integer magnitudes and lengths are unbounded, but the order is well founded.
\<close>
theorem shrinking_terminates: "wf shrinks_to \<and> \<not> (\<exists>f. \<forall>i. (f (Suc i), f i) \<in> shrinks_to)"
  using wf_shrinks_to by (simp add: wf_iff_no_infinite_down_chain)

section \<open>The simplest value is the least\<close>

lemma integer_simplest_least:
  "integer_wf ic \<Longrightarrow> integer_sort_key ic (integer_simplest ic) \<le> integer_sort_key ic v"
  by (auto simp: integer_sort_key_def integer_simplest_def Let_def)

lemma replicate_least: "length t = n \<Longrightarrow> replicate n (0 :: nat) \<le> t"
proof (induction n arbitrary: t)
  case (Suc n)
  then obtain x u where "t = x # u" "length u = n" by (cases t) auto
  with Suc.IH show ?case by (cases x) auto
qed simp

lemma shortlex_least:
  "n \<le> length t \<Longrightarrow> n # replicate n (0 :: nat) \<le> length t # t"
  using replicate_least [of t n] by (cases "n = length t") auto

lemma data_with_simplest_ok:
  assumes "data_valid d" and "\<And>fc v. d = DFloat fc v \<Longrightarrow> float_validate fc f64_zero"
  shows "\<exists>d'. data_with_simplest libm_ceil d = Inr d' \<and> data_valid d'
           \<and> data_kind d' = data_kind d \<and> data_tokens d' \<le> data_tokens d"
proof (cases d)
  case (DInteger ic v)
  have "integer_sort_key ic (integer_simplest ic) = (0, False)"
    by (simp add: integer_sort_key_def integer_simplest_def Let_def)
  then show ?thesis
    using DInteger assms(1) integer_simplest_valid by (auto simp: le_less)
next
  case (DFloat fc v)
  have "float_simplest libm_ceil fc = Inr f64_zero"
    using assms(2) [OF DFloat] by (simp add: float_simplest_def)
  moreover have "float_sort_key f64_zero = (0, False)"
    by (simp add: float_sort_key_def f64_zero_def is_nan_def f64_exponent_def is_sign_negative_def
        float_to_index_def is_simple_float_def f64_to_u64_def u64_to_f64_def f64_scale_def
        f64_significand_def f64_mantissa_def f64_eq_def is_finite_def)
  ultimately show ?thesis
    using DFloat assms(2) [OF DFloat] by (auto simp: le_less)
next
  case (DBytes bc v)
  have "data_tokens (DBytes bc (bytes_simplest bc)) \<le> data_tokens d"
    using shortlex_least [of "by_min_size bc" "map unat v"] DBytes assms(1)
    by (simp add: bytes_simplest_def bytes_validate_def)
  then show ?thesis using DBytes assms(1) bytes_simplest_valid by auto
next
  case (DString sc v)
  have wf: "string_wf sc" "string_validate sc v" using DString assms(1) by auto
  let ?s = "replicate (sc_min_size sc) (cp_at sc 0)"
  have s: "string_simplest sc = Inr ?s" by (rule string_simplest_ok [OF wf(1)])
  have m: "map (cp_rank sc) ?s = replicate (sc_min_size sc) 0"
  proof (cases "sc_min_size sc = 0")
    case False
    then have "alpha_size sc \<noteq> 0" using wf by (auto simp: string_wf_def alpha_size_def)
    then have "cp_rank sc (cp_at sc 0) = 0"
      using shortlex.rank_at_rank [OF string_shortlex [OF wf(1)], of 0] by simp
    then show ?thesis by (simp add: map_replicate_const)
  qed simp
  have tok: "data_tokens (DString sc ?s) = 1 # sc_min_size sc # replicate (sc_min_size sc) 0"
    by (simp only: data_tokens.simps m length_replicate)
  have "data_tokens (DString sc ?s) \<le> data_tokens d"
    unfolding tok using shortlex_least [of "sc_min_size sc" "map (cp_rank sc) v"] wf(2) DString
    by (simp add: string_validate_def)
  then show ?thesis
    using DString s string_simplest_valid [OF wf(1)] wf(1) by auto
next
  case (DClone rs)
  have "data_tokens (DClone realized_stream_empty) \<le> data_tokens d"
    using DClone by (cases rs; cases "rs_nodes rs")
      (auto simp: realized_stream_empty_def realized_stream_new_def flattened_len_def)
  then show ?thesis
    using DClone by (simp add: realized_stream_empty_def realized_stream_new_def)
qed (simp add: le_less)


text \<open>C34: replacing a valid node's value by its constraint's simplest value succeeds, keeps the
  constraint, the forced flag and validity, and never raises the sort key (floats: for a
  constraint that admits zero).
\<close>
theorem with_simplest_least:
  assumes "node_valid n" and "\<And>fc v. node_data n = DFloat fc v \<Longrightarrow> float_validate fc f64_zero"
  shows "\<exists>n'. node_with_simplest libm_ceil n = Inr n' \<and> node_valid n' \<and> node_kind n' = node_kind n
     \<and> was_forced n' = was_forced n
     \<and> (nodes_sort_key_cmp [n'] [n] = Inr Less \<or> nodes_sort_key_cmp [n'] [n] = Inr Equal)"
proof -
  obtain d where d: "data_with_simplest libm_ceil (node_data n) = Inr d" "data_valid d"
    "data_kind d = data_kind (node_data n)" "data_tokens d \<le> data_tokens (node_data n)"
    using data_with_simplest_ok [of "node_data n" libm_ceil] assms by auto
  let ?n = "ChoiceNode d (was_forced n)"
  have flat: "flattened_len [?n] \<le> flattened_len [n]"
  proof (cases "node_data n")
    case (DClone rs)
    with d(1) show ?thesis
      by (auto simp: flattened_len_def realized_stream_empty_def realized_stream_new_def)
  qed (use d(1) in \<open>auto simp: flattened_len_def split: choice_data.splits\<close>)
  have "node_tokens ?n \<le> node_tokens n" using d(4) by (cases n) simp
  with flat have "nodes_tokens [?n] \<le> nodes_tokens [n]" by (auto simp: nodes_tokens_def)
  then have "cmp (nodes_tokens [?n]) (nodes_tokens [n]) \<noteq> Greater" by simp
  then have "nodes_sort_key_cmp [?n] [n] = Inr Less \<or> nodes_sort_key_cmp [?n] [n] = Inr Equal"
    using nodes_sort_key_cmp_eq [of "[?n]" "[n]"] assms(1) d(2)
    by (cases "cmp (nodes_tokens [?n]) (nodes_tokens [n])") (auto simp del: cmp_simps)
  then show ?thesis using d by (auto simp: node_with_simplest_def node_kind_def)
qed

theorem with_simplest_least_witness:
  "node_valid (ChoiceNode (DInteger sample_integer 4) False)
   \<and> (\<exists>n'. node_with_simplest (\<lambda>v. v) (ChoiceNode (DInteger sample_integer 4) False) = Inr n'
        \<and> node_valid n')"
proof -
  have h: "node_valid (ChoiceNode (DInteger sample_integer 4) False)"
    by (simp add: sample_integer_def integer_wf_def integer_validate_def)
  from with_simplest_least [OF h, of "\<lambda>v. v"] h show ?thesis by auto
qed

end
