(* ===== verification/Bignum.thy ===== *)
theory Bignum
  imports Prelude
begin

text \<open>
  \<open>hegel-c/src/native/bignum.rs\<close>: the byte encodings of arbitrary-precision integers and the
  checked narrowing conversions. \<open>BigInt\<close> is \<open>int\<close> and \<open>BigUint\<close> is \<open>nat\<close>; the byte
  conversions of the external crate \<open>dashu_int\<close> are parameters, with their documented
  behaviour as the named hypothesis \<open>dashu_ok\<close>.
\<close>

section \<open>Signs and narrowing\<close>

datatype sign = Minus | NoSign | Plus

definition bigint_sign :: "int \<Rightarrow> sign" where
  "bigint_sign v = (if v = 0 then NoSign else if v < 0 then Minus else Plus)"

definition bigint_magnitude :: "int \<Rightarrow> nat" where
  "bigint_magnitude v = nat \<bar>v\<bar>"

definition to_i64 :: "int \<Rightarrow> int option" where
  "to_i64 v = (if - (2 ^ 63) \<le> v \<and> v < 2 ^ 63 then Some v else None)"

definition to_i128 :: "int \<Rightarrow> int option" where
  "to_i128 v = (if - (2 ^ 127) \<le> v \<and> v < 2 ^ 127 then Some v else None)"

definition to_u64 :: "int \<Rightarrow> int option" where
  "to_u64 v = (if 0 \<le> v \<and> v < 2 ^ 64 then Some v else None)"

definition to_u128 :: "int \<Rightarrow> int option" where
  "to_u128 v = (if 0 \<le> v \<and> v < 2 ^ 128 then Some v else None)"

section \<open>Byte encodings\<close>

record dashu =
  ubig_to_le_bytes :: "nat \<Rightarrow> u8 list"
  ubig_from_le_bytes :: "u8 list \<Rightarrow> nat"
  ubig_to_be_bytes :: "nat \<Rightarrow> u8 list"
  ubig_from_be_bytes :: "u8 list \<Rightarrow> nat"

text \<open>
  The documentation of \<open>UBig\<close>: \<open>to_le_bytes\<close> is the little-endian representation without
  leading zero bytes, \<open>from_le_bytes\<close> reads any little-endian byte string, and the \<open>be\<close>
  forms are the same with the bytes reversed.
\<close>

definition dashu_ok :: "dashu \<Rightarrow> bool" where
  "dashu_ok D \<longleftrightarrow>
     (\<forall>n. le_to_nat (ubig_to_le_bytes D n) = n)
     \<and> (\<forall>n. 0 < n \<longrightarrow> ubig_to_le_bytes D n \<noteq> [] \<and> last (ubig_to_le_bytes D n) \<noteq> 0)
     \<and> (\<forall>bs. ubig_from_le_bytes D bs = le_to_nat bs)
     \<and> (\<forall>n. ubig_to_be_bytes D n = rev (ubig_to_le_bytes D n))
     \<and> (\<forall>bs. ubig_from_be_bytes D bs = le_to_nat (rev bs))"

definition from_bytes_be :: "dashu \<Rightarrow> sign \<Rightarrow> u8 list \<Rightarrow> int" where
  "from_bytes_be D s bytes =
     (case s of Minus \<Rightarrow> - int (ubig_from_be_bytes D bytes)
      | _ \<Rightarrow> int (ubig_from_be_bytes D bytes))"

definition to_bytes_be :: "dashu \<Rightarrow> int \<Rightarrow> sign \<times> u8 list" where
  "to_bytes_be D v = (bigint_sign v, ubig_to_be_bytes D (bigint_magnitude v))"

text \<open>\<open>twos_complement_le\<close>: bitwise NOT, then add the running carry.\<close>

fun twos_complement_from :: "bool \<Rightarrow> u8 list \<Rightarrow> u8 list" where
  "twos_complement_from carry [] = []"
| "twos_complement_from carry (b # bs) =
     (let sum = NOT b + of_bool carry;
          overflow = (256 \<le> unat (NOT b) + of_bool carry)
      in sum # twos_complement_from overflow bs)"

definition twos_complement_le :: "u8 list \<Rightarrow> u8 list" where
  "twos_complement_le bytes = twos_complement_from True bytes"

text \<open>The loop that drops redundant sign-extension bytes from the end.\<close>

function pop_sign_bytes :: "u8 list \<Rightarrow> u8 list" where
  "pop_sign_bytes bytes =
     (if 1 < length bytes \<and> last bytes = 0xFF \<and> bytes ! (length bytes - 2) AND 0x80 \<noteq> 0
      then pop_sign_bytes (butlast bytes) else bytes)"
  by pat_completeness auto
termination
  by (relation "measure length") auto

declare pop_sign_bytes.simps [simp del]

definition to_signed_bytes_le :: "dashu \<Rightarrow> int \<Rightarrow> u8 list" where
  "to_signed_bytes_le D v =
     (let mag = bigint_magnitude v
      in if mag = 0 then [0]
         else
           let bytes = ubig_to_le_bytes D mag;
               bytes = (if last bytes AND 0x80 \<noteq> 0 then bytes @ [0] else bytes)
           in if v < 0 then pop_sign_bytes (twos_complement_le bytes) else bytes)"

definition from_signed_bytes_le :: "dashu \<Rightarrow> u8 list \<Rightarrow> int" where
  "from_signed_bytes_le D bytes =
     (if bytes = [] then 0
      else if last bytes AND 0x80 = 0 then int (ubig_from_le_bytes D bytes)
      else - int (ubig_from_le_bytes D (twos_complement_le bytes)))"

section \<open>Two's complement\<close>

lemma unat_NOT_u8: "unat (NOT b) = 255 - unat (b :: u8)"
proof -
  have "NOT b = 255 - b" by (simp add: not_eq_complement)
  moreover have "b \<le> 255" using unat_u8_less [of b] by (simp add: word_le_nat_alt del: unat_u8_less)
  ultimately show ?thesis by (simp add: unat_sub)
qed

lemma high_bit_u8: "b AND 0x80 = 0 \<longleftrightarrow> unat (b :: u8) < 128"
proof -
  have "b AND 0x80 = 0 \<longleftrightarrow> \<not> bit b 7"
  proof -
    have "b AND push_bit 7 1 = 0 \<longleftrightarrow> \<not> bit b 7"
      by (metis and.commute bit_0_eq bit_and_iff bit_push_bit_iff and_exp_eq_0_iff_not_bit push_bit_of_1)
    then show ?thesis by simp
  qed
  also have "\<not> bit b 7 \<longleftrightarrow> unat b < 128"
  proof -
    have "bit b 7 \<longleftrightarrow> bit (unat b) 7" by (simp add: bit_unsigned_iff)
    also have "\<dots> \<longleftrightarrow> odd (unat b div 2 ^ 7)" by (rule bit_iff_odd)
    finally have "bit b 7 \<longleftrightarrow> odd (unat b div 2 ^ 7)" .
    moreover have "unat b div 2 ^ 7 = (if unat b < 128 then 0 else 1)"
      using unat_u8_less [of b] by (auto simp del: unat_u8_less intro: div_nat_eqI)
    ultimately show ?thesis by simp
  qed
  finally show ?thesis .
qed

lemma length_twos [simp]: "length (twos_complement_from c bs) = length bs"
  by (induction c bs rule: twos_complement_from.induct) (auto simp: Let_def)

lemma le_to_nat_twos:
  "le_to_nat (twos_complement_from c bs) + le_to_nat bs + (if c \<and> le_to_nat bs = 0 then 256 ^ length bs else 0)
     = 256 ^ length bs - 1 + of_bool c"
proof (induction c bs rule: twos_complement_from.induct)
  case (1 carry)
  then show ?case by (cases carry) simp_all
next
  case (2 c b bs)
  define s where "s = unat (NOT b + of_bool c :: u8)"
  define ov where "ov \<longleftrightarrow> 256 \<le> unat (NOT b) + of_bool c"
  have b: "unat b < 256" by simp
  have ov: "ov \<longleftrightarrow> c \<and> unat b = 0"
    using b unfolding ov_def unat_NOT_u8 by (cases c) auto
  have s: "s = (if ov then 0 else 255 - unat b + of_bool c)"
    using b unfolding s_def ov unat_word_ariths unat_NOT_u8 by (cases c) (auto simp: mod_if)
  have zero: "le_to_nat (b # bs) = 0 \<longleftrightarrow> unat b = 0 \<and> le_to_nat bs = 0" by simp
  have p: "1 \<le> (256 :: nat) ^ length bs" by simp
  have eq: "le_to_nat (twos_complement_from c (b # bs)) = s + 256 * le_to_nat (twos_complement_from ov bs)"
    by (simp add: Let_def s_def ov_def)
  have IH: "le_to_nat (twos_complement_from ov bs) + le_to_nat bs
      + (if ov \<and> le_to_nat bs = 0 then 256 ^ length bs else 0) = 256 ^ length bs - 1 + of_bool ov"
    using "2.IH" [OF refl ov_def [THEN eq_reflection, THEN meta_eq_to_obj_eq]] by simp
  show ?case
    unfolding eq s zero using IH ov b p
    by (cases c; cases "unat b = 0"; cases "le_to_nat bs = 0"; simp; linarith?)
qed

lemma twos_complement_value:
  assumes "0 < le_to_nat bs"
  shows "le_to_nat (twos_complement_le bs) = 256 ^ length bs - le_to_nat bs"
  using le_to_nat_twos [of True bs] assms by (simp add: twos_complement_le_def)

lemma length_twos_le [simp]: "length (twos_complement_le bs) = length bs"
  by (simp add: twos_complement_le_def)

text \<open>The signed reading of a little-endian byte string, which both directions preserve.\<close>

definition signed_value :: "u8 list \<Rightarrow> int" where
  "signed_value bs =
     (if bs \<noteq> [] \<and> 128 \<le> unat (last bs) then int (le_to_nat bs) - 256 ^ length bs
      else int (le_to_nat bs))"

lemma le_to_nat_last:
  "bs \<noteq> [] \<Longrightarrow> unat (last bs) * 256 ^ (length bs - 1) \<le> le_to_nat bs
     \<and> le_to_nat bs < (unat (last bs) + 1) * 256 ^ (length bs - 1)"
proof (induction bs rule: rev_induct)
  case (snoc b bs)
  show ?case using le_to_nat_less [of bs] by (simp add: le_to_nat_append algebra_simps)
qed simp

lemma last_high_iff:
  assumes "bs \<noteq> []"
  shows "128 \<le> unat (last bs) \<longleftrightarrow> 128 * 256 ^ (length bs - 1) \<le> le_to_nat bs"
proof
  let ?p = "256 ^ (length bs - 1) :: nat"
  assume "128 \<le> unat (last bs)"
  then have "128 * ?p \<le> unat (last bs) * ?p" by (rule mult_le_mono1)
  then show "128 * ?p \<le> le_to_nat bs" using le_to_nat_last [OF assms] by linarith
next
  let ?p = "256 ^ (length bs - 1) :: nat"
  assume a: "128 * ?p \<le> le_to_nat bs"
  show "128 \<le> unat (last bs)"
  proof (rule ccontr)
    assume "\<not> 128 \<le> unat (last bs)"
    then have "(unat (last bs) + 1) * ?p \<le> 128 * ?p" by (intro mult_le_mono1) simp
    then show False using a le_to_nat_last [OF assms] by linarith
  qed
qed

lemma pop_sign_bytes_value:
  "bs \<noteq> [] \<Longrightarrow> 128 \<le> unat (last bs) \<Longrightarrow>
     pop_sign_bytes bs \<noteq> [] \<and> 128 \<le> unat (last (pop_sign_bytes bs))
     \<and> signed_value (pop_sign_bytes bs) = signed_value bs \<and> length (pop_sign_bytes bs) \<le> length bs"
proof (induction bs rule: pop_sign_bytes.induct)
  case (1 bs)
  show ?case
  proof (cases "1 < length bs \<and> last bs = 0xFF \<and> bs ! (length bs - 2) AND 0x80 \<noteq> 0")
    case False
    then show ?thesis using 1(2,3) by (subst (1 2 3 4) pop_sign_bytes.simps) auto
  next
    case True
    then obtain ys b where bs: "bs = ys @ [b, 0xFF]"
    proof -
      have "bs \<noteq> []" using True by auto
      then have "bs = butlast bs @ [0xFF]" using True append_butlast_last_id [of bs] by simp
      moreover have "butlast bs = butlast (butlast bs) @ [last (butlast bs)]"
        using True by (intro append_butlast_last_id [symmetric]) (cases bs, auto)
      ultimately show ?thesis using that by (metis append.assoc append_Cons append_Nil)
    qed
    have b: "128 \<le> unat b" using True bs high_bit_u8 [of b] by (simp add: nth_append)
    have step: "pop_sign_bytes bs = pop_sign_bytes (ys @ [b])"
      using True bs by (subst pop_sign_bytes.simps) (simp add: butlast_append)
    have "signed_value (ys @ [b]) = signed_value bs"
    proof -
      have "unat (0xFF :: u8) = 255" by simp
      then show ?thesis using b by (simp add: signed_value_def bs le_to_nat_append algebra_simps del: unsigned_numeral)
    qed
    moreover have "butlast bs = ys @ [b]" by (simp add: bs butlast_append)
    ultimately show ?thesis
      using "1.IH" [OF True] b step by (simp add: bs)
  qed
qed

lemma from_signed_bytes_le_value:
  assumes "dashu_ok D"
  shows "from_signed_bytes_le D bs = signed_value bs"
proof (cases "bs = []")
  case False
  have "unat (last bs) < 128 \<or> 0 < le_to_nat bs"
    using le_to_nat_last [OF False] by (cases "unat (last bs) = 0") auto
  then show ?thesis
    using assms False le_to_nat_less [of bs] twos_complement_value [of bs]
    by (auto simp: from_signed_bytes_le_def signed_value_def dashu_ok_def high_bit_u8 of_nat_diff not_less)
qed (simp add: from_signed_bytes_le_def signed_value_def)

lemma to_signed_bytes_le_value:
  assumes D: "dashu_ok D"
  shows "signed_value (to_signed_bytes_le D v) = v" and "to_signed_bytes_le D v \<noteq> []"
    and "length (to_signed_bytes_le D v) \<le> length (ubig_to_le_bytes D (nat \<bar>v\<bar>)) + 1"
proof -
  have "signed_value (to_signed_bytes_le D v) = v \<and> to_signed_bytes_le D v \<noteq> []
     \<and> length (to_signed_bytes_le D v) \<le> length (ubig_to_le_bytes D (nat \<bar>v\<bar>)) + 1"
  proof (cases "v = 0")
    case True
    then show ?thesis by (simp add: to_signed_bytes_le_def bigint_magnitude_def signed_value_def)
  next
    case False
    let ?m = "nat \<bar>v\<bar>"
    let ?raw = "ubig_to_le_bytes D ?m"
    define bytes where "bytes = (if last ?raw AND 0x80 \<noteq> 0 then ?raw @ [0] else ?raw)"
    have m: "0 < ?m" using False by simp
    have raw: "?raw \<noteq> []" "le_to_nat ?raw = ?m" using D m by (auto simp: dashu_ok_def)
    have bytes: "bytes \<noteq> []" "le_to_nat bytes = ?m" "unat (last bytes) < 128"
      "length bytes \<le> length ?raw + 1"
      using raw by (auto simp: bytes_def le_to_nat_append high_bit_u8 not_less)
    have eq: "to_signed_bytes_le D v
        = (if v < 0 then pop_sign_bytes (twos_complement_le bytes) else bytes)"
      using m by (simp add: to_signed_bytes_le_def bigint_magnitude_def bytes_def Let_def)
    show ?thesis
    proof (cases "v < 0")
      case False
      then show ?thesis unfolding eq using bytes by (simp add: signed_value_def)
    next
      case True
      let ?tw = "twos_complement_le bytes"
      obtain k where k: "length bytes = Suc k" using bytes(1) by (cases bytes) auto
      have small: "?m < 128 * 256 ^ k"
        using last_high_iff [OF bytes(1)] bytes(2,3) k by simp
      have tw: "le_to_nat ?tw = 256 ^ Suc k - ?m"
        using twos_complement_value [of bytes] bytes(2) m k by simp
      have ne: "?tw \<noteq> []" using bytes(1) by (metis length_0_conv length_twos_le)
      have "128 * 256 ^ k \<le> le_to_nat ?tw" using small tw by simp
      then have hi: "128 \<le> unat (last ?tw)" using last_high_iff [OF ne] k by simp
      have "signed_value ?tw = v"
        using hi ne tw k small True by (simp add: signed_value_def of_nat_diff)
      with pop_sign_bytes_value [OF ne hi] show ?thesis
        unfolding eq using True bytes(4) by simp
    qed
  qed
  then show "signed_value (to_signed_bytes_le D v) = v" "to_signed_bytes_le D v \<noteq> []"
    "length (to_signed_bytes_le D v) \<le> length (ubig_to_le_bytes D (nat \<bar>v\<bar>)) + 1" by auto
qed

lemma signed_bytes_inverse: "dashu_ok D \<Longrightarrow> from_signed_bytes_le D (to_signed_bytes_le D v) = v"
  by (simp add: from_signed_bytes_le_value to_signed_bytes_le_value)

lemma be_bytes_inverse: "dashu_ok D \<Longrightarrow> (case to_bytes_be D v of (s, bs) \<Rightarrow> from_bytes_be D s bs) = v"
  by (auto simp: to_bytes_be_def from_bytes_be_def bigint_sign_def bigint_magnitude_def dashu_ok_def)

text \<open>Both byte encodings of a big integer decode to the integer they came from, sign
  extension and the redundant-byte stripping of negatives included, and the signed reader
  is the two's-complement value of any byte string.\<close>
theorem bigint_bytes_roundtrip:
  assumes "dashu_ok D"
  shows "from_signed_bytes_le D (to_signed_bytes_le D v) = v
     \<and> from_bytes_be D (fst (to_bytes_be D v)) (snd (to_bytes_be D v)) = v
     \<and> from_signed_bytes_le D bs = signed_value bs"
  using signed_bytes_inverse [OF assms] be_bytes_inverse [OF assms]
    from_signed_bytes_le_value [OF assms] by (simp add: split_beta)

text \<open>A concrete provider of the conversions.\<close>

fun minimal_le :: "nat \<Rightarrow> u8 list" where
  "minimal_le n = (if n = 0 then [] else of_nat n # minimal_le (n div 256))"

declare minimal_le.simps [simp del]

definition sample_dashu :: dashu where
  "sample_dashu = \<lparr>ubig_to_le_bytes = minimal_le, ubig_from_le_bytes = le_to_nat,
     ubig_to_be_bytes = (\<lambda>n. rev (minimal_le n)), ubig_from_be_bytes = (\<lambda>bs. le_to_nat (rev bs))\<rparr>"

lemma minimal_le_value: "le_to_nat (minimal_le n) = n"
proof (induction n rule: minimal_le.induct)
  case (1 n)
  then show ?case
    by (subst minimal_le.simps) (auto simp: unat_of_nat)
qed

lemma minimal_le_nonempty: "0 < n \<Longrightarrow> minimal_le n \<noteq> []"
  by (subst minimal_le.simps) simp

lemma minimal_le_last: "0 < n \<Longrightarrow> last (minimal_le n) \<noteq> 0"
proof (induction n rule: minimal_le.induct)
  case (1 n)
  show ?case
  proof (cases "n < 256")
    case True
    then have "minimal_le n = [of_nat n]"
      using 1(2) by (subst minimal_le.simps, subst minimal_le.simps) simp
    moreover have "(of_nat n :: u8) \<noteq> 0" using True 1(2) by (simp add: word_unat_eq_iff unat_of_nat)
    ultimately show ?thesis by simp
  next
    case False
    then have q: "0 < n div 256" by (simp add: div_greater_zero_iff)
    have "last (minimal_le n) = last (minimal_le (n div 256))"
      using 1(2) minimal_le_nonempty [OF q] by (subst minimal_le.simps) simp
    then show ?thesis using 1(1) 1(2) q by simp
  qed
qed

lemma sample_dashu_ok: "dashu_ok sample_dashu"
  by (simp add: dashu_ok_def sample_dashu_def minimal_le_value minimal_le_last minimal_le_nonempty)

theorem bigint_bytes_roundtrip_witness:
  "dashu_ok sample_dashu
   \<and> from_signed_bytes_le sample_dashu (to_signed_bytes_le sample_dashu (-200)) = -200"
  using bigint_bytes_roundtrip [OF sample_dashu_ok] sample_dashu_ok by blast

end
