(* ===== verification/Database.thy ===== *)
theory Database
  imports ChoiceFacts Bignum "HOL-Library.Monad_Syntax"
begin

text \<open>
  The codec of \<open>hegel-c/src/native/database.rs\<close>: the binary encoding of choice values that
  the replay database, the failure blobs and the execution cache share, the FNV-1a hash and
  the derived sub-corpus keys. The reader is position based and returns \<open>None\<close> on any
  malformed input, as in the source; a slice out of range is never indexed.
\<close>

section \<open>Hashing and keys\<close>

definition fnv1a :: "u8 list \<Rightarrow> u64" where
  "fnv1a s = foldl (\<lambda>hash byte. (hash XOR ucast byte) * 0x100000001b3) 0xcbf29ce484222325 s"

text \<open>\<open>format!("{:016x}", ...)\<close>: 16 lower-case hexadecimal digits, most significant first.\<close>

definition hex_digit :: "nat \<Rightarrow> char" where
  "hex_digit d = ''0123456789abcdef'' ! d"

definition fnv_hex :: "u8 list \<Rightarrow> string" where
  "fnv_hex s = map (\<lambda>i. hex_digit (unat (fnv1a s) div 16 ^ (15 - i) mod 16)) [0..<16]"

definition bytes_of_ascii :: "string \<Rightarrow> u8 list" where
  "bytes_of_ascii s = map (\<lambda>c. of_char c) s"

definition KEY_PREFIX :: "u8 list" where
  "KEY_PREFIX = bytes_of_ascii ''native:''"

definition METAKEYS_NAME :: "u8 list" where
  "METAKEYS_NAME = bytes_of_ascii ''.hegel-keys''"

definition key_hash :: "u8 list \<Rightarrow> string" where
  "key_hash key = fnv_hex (KEY_PREFIX @ key)"

definition sub_key :: "u8 list \<Rightarrow> u8 list \<Rightarrow> u8 list" where
  "sub_key database_key sub = database_key @ [46] @ sub"

section \<open>Writing\<close>

text \<open>\<open>len as u32\<close> reduces modulo \<open>2 ^ 32\<close>, which \<open>nat_to_le 4\<close> does.\<close>

definition serialize_any_integer :: "dashu \<Rightarrow> int \<Rightarrow> u8 list" where
  "serialize_any_integer D v =
     (let mag = to_signed_bytes_le D v in [10] @ nat_to_le 4 (length mag) @ mag)"

function serialize_one_choice :: "dashu \<Rightarrow> choice_value_ref \<Rightarrow> u8 list" where
  "serialize_one_choice D choice =
     (case choice of
        RInteger v \<Rightarrow> [0] @ serialize_any_integer D v
      | RBoolean v \<Rightarrow> [1, of_bool v]
      | RFloat v \<Rightarrow> [2] @ nat_to_le 8 (unat v)
      | RBytes v \<Rightarrow> [3] @ nat_to_le 4 (length v) @ v
      | RString v \<Rightarrow> [4] @ nat_to_le 4 (length v) @ concat (map (nat_to_le 4) v)
      | RClone children \<Rightarrow>
          [5] @ nat_to_le 4 (cv_length children)
            @ concat (map (serialize_one_choice D) (cv_values children)))"
  by pat_completeness auto
termination
  by (relation "measure (\<lambda>(D, x). size (ref_tree x))") (auto dest: ref_child_size)

declare serialize_one_choice.simps [simp del]

definition serialize_choice_list :: "dashu \<Rightarrow> nat \<Rightarrow> choice_value_ref list \<Rightarrow> u8 list" where
  "serialize_choice_list D count choices =
     nat_to_le 4 count @ concat (map (serialize_one_choice D) choices)"

definition serialize_choices :: "dashu \<Rightarrow> choice_value list \<Rightarrow> u8 list" where
  "serialize_choices D choices =
     serialize_choice_list D (length choices) (map value_ref choices)"

definition serialize_nodes :: "dashu \<Rightarrow> choice_node list \<Rightarrow> u8 list" where
  "serialize_nodes D nodes =
     serialize_choice_list D (length nodes) (map (\<lambda>n. data_value_ref (node_data n)) nodes)"

section \<open>Reading\<close>

text \<open>\<open>bytes.get(pos..pos + n)\<close>.\<close>

definition get_slice :: "u8 list \<Rightarrow> nat \<Rightarrow> nat \<Rightarrow> u8 list option" where
  "get_slice bytes pos n = (if pos + n \<le> length bytes then Some (take n (drop pos bytes)) else None)"

text \<open>\<open>from_le_bytes\<close> of a signed or unsigned native integer of \<open>n\<close> bytes.\<close>

definition native_from_le :: "bool \<Rightarrow> u8 list \<Rightarrow> int" where
  "native_from_le is_signed raw = (if is_signed then signed_value raw else int (le_to_nat raw))"

definition legacy_native :: "bool \<Rightarrow> nat \<Rightarrow> u8 list \<Rightarrow> nat \<Rightarrow> (int \<times> nat) option" where
  "legacy_native is_signed n bytes pos =
     do { raw \<leftarrow> get_slice bytes pos n; Some (native_from_le is_signed raw, pos + n) }"

definition deserialize_any_integer :: "dashu \<Rightarrow> u8 list \<Rightarrow> nat \<Rightarrow> (int \<times> nat) option" where
  "deserialize_any_integer D bytes pos =
     (if length bytes \<le> pos then None
      else
        let sub = bytes ! pos; pos = pos + 1
        in if sub = 0 then legacy_native True 1 bytes pos
           else if sub = 1 then legacy_native True 2 bytes pos
           else if sub = 2 then legacy_native True 4 bytes pos
           else if sub = 3 then legacy_native True 8 bytes pos
           else if sub = 4 then legacy_native True 16 bytes pos
           else if sub = 5 then legacy_native False 1 bytes pos
           else if sub = 6 then legacy_native False 2 bytes pos
           else if sub = 7 then legacy_native False 4 bytes pos
           else if sub = 8 then legacy_native False 8 bytes pos
           else if sub = 9 then legacy_native False 16 bytes pos
           else if sub = 10 then
             do { len_raw \<leftarrow> get_slice bytes pos 4;
                  mag \<leftarrow> get_slice bytes (pos + 4) (le_to_nat len_raw);
                  Some (from_signed_bytes_le D mag, pos + 4 + le_to_nat len_raw) }
           else None)"

text \<open>\<open>u32::from_le_bytes(bytes[pos..pos + 4])\<close>, where the caller has checked the range.\<close>

definition read_u32 :: "u8 list \<Rightarrow> nat \<Rightarrow> nat" where
  "read_u32 bytes pos = le_to_nat (take 4 (drop pos bytes))"

text \<open>
  One iteration of the loop of \<open>deserialize_choice_list\<close>, with the reader of a nested list as
  a parameter, and the loop over the remaining count.
\<close>

definition deserialize_one ::
  "dashu \<Rightarrow> (nat \<Rightarrow> (choice_value list \<times> nat) option) \<Rightarrow> u8 list \<Rightarrow> nat \<Rightarrow> (choice_value \<times> nat) option" where
  "deserialize_one D nested bytes pos =
     (if length bytes \<le> pos then None
      else if bytes ! pos = 0 then
        do { (v, new_pos) \<leftarrow> deserialize_any_integer D bytes (pos + 1); Some (VInteger v, new_pos) }
      else if bytes ! pos = 1 then
        (if length bytes \<le> pos + 1 then None
         else Some (VBoolean (bytes ! (pos + 1) \<noteq> 0), pos + 2))
      else if bytes ! pos = 2 then
        (if length bytes < pos + 1 + 8 then None
         else Some (VFloat (of_nat (le_to_nat (take 8 (drop (pos + 1) bytes)))), pos + 9))
      else if bytes ! pos = 3 then
        (if length bytes < pos + 1 + 4 then None
         else let len = read_u32 bytes (pos + 1)
              in if length bytes < pos + 5 + len then None
                 else Some (VBytes (take len (drop (pos + 5) bytes)), pos + 5 + len))
      else if bytes ! pos = 4 then
        (if length bytes < pos + 1 + 4 then None
         else let len = read_u32 bytes (pos + 1)
              in if 2 ^ 64 \<le> len * 4 \<or> length bytes < pos + 5 + len * 4 then None
                 else Some (VString (map (\<lambda>i. read_u32 bytes (pos + 5 + i * 4)) [0..<len]),
                            pos + 5 + len * 4))
      else if bytes ! pos = 5 then
        do { (children, new_pos) \<leftarrow> nested (pos + 1);
             Some (VClone (cr_from_values children), new_pos) }
      else None)"

fun deserialize_loop ::
  "dashu \<Rightarrow> (nat \<Rightarrow> (choice_value list \<times> nat) option) \<Rightarrow> u8 list \<Rightarrow> nat \<Rightarrow> nat
     \<Rightarrow> (choice_value list \<times> nat) option" where
  "deserialize_loop D nested bytes 0 pos = Some ([], pos)"
| "deserialize_loop D nested bytes (Suc count) pos =
     do { (v, pos') \<leftarrow> deserialize_one D nested bytes pos;
          (vs, end_pos) \<leftarrow> deserialize_loop D nested bytes count pos';
          Some (v # vs, end_pos) }"

function deserialize_choice_list ::
  "dashu \<Rightarrow> u8 list \<Rightarrow> nat \<Rightarrow> nat \<Rightarrow> (choice_value list \<times> nat) option" where
  "deserialize_choice_list D bytes start depth =
     (if MAX_CLONE_DEPTH < depth then None
      else if length bytes < start + 4 then None
      else deserialize_loop D (\<lambda>pos. deserialize_choice_list D bytes pos (depth + 1)) bytes
             (read_u32 bytes start) (start + 4))"
  by pat_completeness auto
termination
  by (relation "measure (\<lambda>(D, bytes, start, depth). MAX_CLONE_DEPTH + 1 - depth)") auto

declare deserialize_choice_list.simps [simp del]

definition deserialize_choices :: "dashu \<Rightarrow> u8 list \<Rightarrow> choice_value list option" where
  "deserialize_choices D bytes =
     do { (choices, _) \<leftarrow> deserialize_choice_list D bytes 0 0; Some choices }"

section \<open>The encoding only depends on the value tree\<close>

fun tree_bytes :: "dashu \<Rightarrow> value_tree \<Rightarrow> u8 list" where
  "tree_bytes D (TInteger v) = [0] @ serialize_any_integer D v"
| "tree_bytes D (TBoolean v) = [1, of_bool v]"
| "tree_bytes D (TFloat v) = [2] @ nat_to_le 8 (unat v)"
| "tree_bytes D (TBytes v) = [3] @ nat_to_le 4 (length v) @ v"
| "tree_bytes D (TString v) = [4] @ nat_to_le 4 (length v) @ concat (map (nat_to_le 4) v)"
| "tree_bytes D (TClone ts) = [5] @ nat_to_le 4 (length ts) @ concat (map (tree_bytes D) ts)"

lemma serialize_one_tree: "serialize_one_choice D x = tree_bytes D (ref_tree x)"
proof (induction D x rule: serialize_one_choice.induct)
  case (1 D x)
  show ?case
  proof (cases x)
    case (RClone c)
    have "map (serialize_one_choice D) (cv_values c) = map (\<lambda>v. tree_bytes D (ref_tree v)) (cv_values c)"
      using 1 RClone by (intro map_cong) auto
    also have "\<dots> = map (tree_bytes D) (cv_trees c)"
      by (simp flip: cv_values_trees add: comp_def)
    finally show ?thesis
      using RClone by (subst serialize_one_choice.simps) (simp add: cv_length_trees)
  qed (subst serialize_one_choice.simps; simp)+
qed

lemma serialize_choices_trees:
  "serialize_choices D vs = nat_to_le 4 (length vs) @ concat (map (tree_bytes D) (map choice_tree vs))"
  by (simp add: serialize_choices_def serialize_choice_list_def serialize_one_tree comp_def)

lemma serialize_nodes_trees:
  "serialize_nodes D ns = nat_to_le 4 (length ns) @ concat (map (tree_bytes D) (map node_tree ns))"
  by (simp add: serialize_nodes_def serialize_choice_list_def serialize_one_tree comp_def)

section \<open>Reading back what was written\<close>

text \<open>
  What the format can hold: every length fits in 32 bits, codepoints are 32-bit words, and
  clones nest at most as deep as the reader allows.
\<close>

fun tree_storable :: "dashu \<Rightarrow> nat \<Rightarrow> value_tree \<Rightarrow> bool" where
  "tree_storable D levels (TInteger v) = (length (to_signed_bytes_le D v) < 2 ^ 32)"
| "tree_storable D levels (TBoolean v) = True"
| "tree_storable D levels (TFloat v) = True"
| "tree_storable D levels (TBytes v) = (length v < 2 ^ 32)"
| "tree_storable D levels (TString v) = (length v < 2 ^ 32 \<and> list_all (\<lambda>cp. cp < 2 ^ 32) v)"
| "tree_storable D levels (TClone ts) =
     (0 < levels \<and> length ts < 2 ^ 32 \<and> list_all (tree_storable D (levels - 1)) ts)"

definition reads :: "(nat \<Rightarrow> (choice_value \<times> nat) option) \<Rightarrow> nat \<Rightarrow> value_tree \<Rightarrow> nat \<Rightarrow> bool" where
  "reads one pos t end_pos \<longleftrightarrow>
     (\<exists>v. one pos = Some (v, end_pos) \<and> choice_tree v = t \<and> value_coherent v)"

lemma get_slice_middle:
  "pos = length pre \<Longrightarrow> n = length mid \<Longrightarrow> get_slice (pre @ mid @ post) pos n = Some mid"
  by (simp add: get_slice_def)

lemma read_u32_middle:
  "pos = length pre \<Longrightarrow> n < 2 ^ 32 \<Longrightarrow> read_u32 (pre @ nat_to_le 4 n @ post) pos = n"
  by (simp add: read_u32_def le_to_nat_nat_to_le)

lemma read_codepoints:
  assumes "list_all (\<lambda>cp. cp < 2 ^ 32) v"
  shows "map (\<lambda>i. read_u32 (pre @ concat (map (nat_to_le 4) v) @ post) (length pre + i * 4)) [0..<length v] = v"
  using assms
proof (induction v arbitrary: pre)
  case (Cons cp v)
  let ?b = "pre @ concat (map (nat_to_le 4) (cp # v)) @ post"
  have b: "?b = (pre @ nat_to_le 4 cp) @ concat (map (nat_to_le 4) v) @ post" by simp
  have "map (\<lambda>i. read_u32 ?b (length (pre @ nat_to_le 4 cp) + i * 4)) [0..<length v] = v"
    using Cons.IH [of "pre @ nat_to_le 4 cp"] Cons.prems by (simp add: b)
  then have "map (\<lambda>i. read_u32 ?b (length pre + Suc i * 4)) [0..<length v] = v"
    by (simp add: add.assoc)
  moreover have "read_u32 ?b (length pre) = cp"
    using read_u32_middle [of "length pre" pre cp "concat (map (nat_to_le 4) v) @ post"] Cons.prems by simp
  ultimately show ?case
    by (simp add: upt_conv_Cons map_Suc_upt [symmetric] comp_def del: upt_Suc)
qed simp

lemma length_concat_le4 [simp]: "length (concat (map (nat_to_le 4) v)) = length v * 4"
  by (induction v) auto

lemma nth_middle: "pos = length pre \<Longrightarrow> (pre @ x # post) ! pos = x"
  by simp

lemma deserialize_integer_middle:
  assumes "dashu_ok D" "length (to_signed_bytes_le D v) < 2 ^ 32" "pos = length pre"
  shows "deserialize_any_integer D (pre @ serialize_any_integer D v @ post) pos
     = Some (v, pos + length (serialize_any_integer D v))"
proof -
  let ?mag = "to_signed_bytes_le D v"
  let ?bytes = "pre @ serialize_any_integer D v @ post"
  have b: "?bytes = (pre @ [10]) @ nat_to_le 4 (length ?mag) @ (?mag @ post)"
    "?bytes = (pre @ [10] @ nat_to_le 4 (length ?mag)) @ ?mag @ post"
    by (simp_all add: serialize_any_integer_def Let_def)
  have sub: "?bytes ! pos = 10" using assms(3) by (simp add: serialize_any_integer_def Let_def)
  have len: "get_slice ?bytes (pos + 1) 4 = Some (nat_to_le 4 (length ?mag))"
    unfolding b(1) by (rule get_slice_middle) (use assms(3) in simp_all)
  have mag: "get_slice ?bytes (pos + 1 + 4) (length ?mag) = Some ?mag"
    unfolding b(2) by (rule get_slice_middle) (use assms(3) in simp_all)
  have val: "le_to_nat (nat_to_le 4 (length ?mag)) = length ?mag"
    using assms(2) by (simp add: le_to_nat_nat_to_le)
  have range: "\<not> length ?bytes \<le> pos" using assms(3) by (simp add: serialize_any_integer_def Let_def)
  show ?thesis
    unfolding deserialize_any_integer_def Let_def
    using range sub len mag val signed_bytes_inverse [OF assms(1), of v]
    by (simp add: serialize_any_integer_def Let_def)
qed

lemma deserialize_loop_reads:
  assumes "\<And>t pre' post'. t \<in> set ts \<Longrightarrow> bytes = pre' @ tree_bytes D t @ post' \<Longrightarrow>
      reads (deserialize_one D nested bytes) (length pre') t (length pre' + length (tree_bytes D t))"
    and "bytes = pre @ concat (map (tree_bytes D) ts) @ post"
  shows "\<exists>vs. deserialize_loop D nested bytes (length ts) (length pre)
      = Some (vs, length pre + length (concat (map (tree_bytes D) ts)))
      \<and> map choice_tree vs = ts \<and> list_all value_coherent vs"
  using assms
proof (induction ts arbitrary: pre)
  case (Cons t ts)
  have b: "bytes = pre @ tree_bytes D t @ (concat (map (tree_bytes D) ts) @ post)"
    using Cons.prems(2) by simp
  from Cons.prems(1) [OF _ b] obtain v where
    v: "deserialize_one D nested bytes (length pre) = Some (v, length pre + length (tree_bytes D t))"
      "choice_tree v = t" "value_coherent v"
    by (auto simp: reads_def)
  have b': "bytes = (pre @ tree_bytes D t) @ concat (map (tree_bytes D) ts) @ post"
    using b by simp
  obtain vs where vs: "deserialize_loop D nested bytes (length ts) (length (pre @ tree_bytes D t))
      = Some (vs, length (pre @ tree_bytes D t) + length (concat (map (tree_bytes D) ts)))"
    "map choice_tree vs = ts" "list_all value_coherent vs"
    using Cons.IH [OF _ b'] Cons.prems(1) by (meson list.set_intros(2))
  show ?case using v vs by (auto simp: add.assoc)
qed simp

lemma deserialize_one_reads:
  assumes D: "dashu_ok D"
  shows "tree_storable D (MAX_CLONE_DEPTH - depth) t \<Longrightarrow> depth \<le> MAX_CLONE_DEPTH \<Longrightarrow>
     bytes = pre @ tree_bytes D t @ post \<Longrightarrow>
     reads (deserialize_one D (\<lambda>pos. deserialize_choice_list D bytes pos (depth + 1)) bytes)
       (length pre) t (length pre + length (tree_bytes D t))"
proof (induction t arbitrary: depth pre post)
  case (TInteger v)
  have b: "bytes = (pre @ [0]) @ serialize_any_integer D v @ post" using TInteger by simp
  have "deserialize_any_integer D bytes (length pre + 1)
      = Some (v, length pre + 1 + length (serialize_any_integer D v))"
    unfolding b by (rule deserialize_integer_middle [OF D]) (use TInteger in simp_all)
  moreover have "bytes ! length pre = 0" "length pre < length bytes" using TInteger by simp_all
  ultimately show ?case
    by (simp add: reads_def deserialize_one_def)
next
  case (TBoolean v)
  then show ?case by (simp add: reads_def deserialize_one_def nth_append)
next
  case (TFloat v)
  have "take 8 (drop (length pre + 1) bytes) = nat_to_le 8 (unat v)" using TFloat by simp
  moreover have "le_to_nat (nat_to_le 8 (unat v)) = unat v"
    using unat_u64_less [of v] by (simp add: le_to_nat_nat_to_le)
  moreover have "bytes ! length pre = 2" "length pre + 9 \<le> length bytes" using TFloat by simp_all
  ultimately show ?case by (simp add: reads_def deserialize_one_def)
next
  case (TBytes v)
  have b: "bytes = (pre @ [3]) @ nat_to_le 4 (length v) @ (v @ post)" using TBytes by simp
  have "read_u32 bytes (length pre + 1) = length v"
    unfolding b by (rule read_u32_middle) (use TBytes in simp_all)
  moreover have "take (length v) (drop (length pre + 5) bytes) = v" using TBytes by simp
  moreover have "bytes ! length pre = 3" "length pre + 5 + length v \<le> length bytes"
    using TBytes by simp_all
  ultimately show ?case by (simp add: reads_def deserialize_one_def Let_def)
next
  case (TString v)
  have b: "bytes = (pre @ [4]) @ nat_to_le 4 (length v) @ (concat (map (nat_to_le 4) v) @ post)"
    "bytes = (pre @ [4] @ nat_to_le 4 (length v)) @ concat (map (nat_to_le 4) v) @ post"
    using TString by simp_all
  have "read_u32 bytes (length pre + 1) = length v"
    unfolding b(1) by (rule read_u32_middle) (use TString in simp_all)
  moreover have "map (\<lambda>i. read_u32 bytes (length pre + 5 + i * 4)) [0..<length v] = v"
    using read_codepoints [of v "pre @ [4] @ nat_to_le 4 (length v)" post] TString
    unfolding b(2) [symmetric] by simp
  moreover have "bytes ! length pre = 4" "length pre + 5 + length v * 4 \<le> length bytes"
    "length v * 4 < 2 ^ 64" using TString by simp_all
  ultimately show ?case
    by (simp add: reads_def deserialize_one_def Let_def not_le)
next
  case (TClone ts)
  have levels: "0 < MAX_CLONE_DEPTH - depth" using TClone.prems(1) by simp
  have b: "bytes = (pre @ [5]) @ nat_to_le 4 (length ts) @ (concat (map (tree_bytes D) ts) @ post)"
    "bytes = (pre @ [5] @ nat_to_le 4 (length ts)) @ concat (map (tree_bytes D) ts) @ post"
    using TClone.prems by simp_all
  let ?nested = "\<lambda>pos. deserialize_choice_list D bytes pos (depth + 1 + 1)"
  have "\<exists>vs. deserialize_loop D ?nested bytes (length ts) (length (pre @ [5] @ nat_to_le 4 (length ts)))
      = Some (vs, length (pre @ [5] @ nat_to_le 4 (length ts)) + length (concat (map (tree_bytes D) ts)))
      \<and> map choice_tree vs = ts \<and> list_all value_coherent vs"
  proof (rule deserialize_loop_reads [OF _ b(2)])
    fix t pre' post'
    assume t: "t \<in> set ts" "bytes = pre' @ tree_bytes D t @ post'"
    have "tree_storable D (MAX_CLONE_DEPTH - (depth + 1)) t"
      using TClone.prems(1) t(1) by (simp add: list_all_iff)
    then show "reads (deserialize_one D ?nested bytes) (length pre') t (length pre' + length (tree_bytes D t))"
      using levels t by (intro TClone.IH) auto
  qed
  then obtain vs where vs: "deserialize_loop D ?nested bytes (length ts) (length pre + 5)
      = Some (vs, length pre + 5 + length (concat (map (tree_bytes D) ts)))"
    "map choice_tree vs = ts" "list_all value_coherent vs" by auto
  have count: "read_u32 bytes (length pre + 1) = length ts"
    unfolding b(1) by (rule read_u32_middle) (use TClone.prems in simp_all)
  have "deserialize_choice_list D bytes (length pre + 1) (depth + 1)
      = Some (vs, length pre + 5 + length (concat (map (tree_bytes D) ts)))"
    using levels vs(1) count TClone.prems(3)
    by (subst deserialize_choice_list.simps) (simp add: add.commute)
  moreover have "bytes ! length pre = 5" "length pre < length bytes" using TClone.prems by simp_all
  moreover have "choice_tree (VClone (cr_from_values vs)) = TClone ts"
    using vs(2) by (simp add: cr_from_values_def)
  moreover have "value_coherent (VClone (cr_from_values vs))"
    using vs(3) by (simp add: from_values_coherent)
  ultimately show ?case
    by (simp add: reads_def deserialize_one_def)
qed

lemma deserialize_serialized:
  assumes "dashu_ok D" and "length vs < 2 ^ 32"
    and "list_all (tree_storable D MAX_CLONE_DEPTH) (map choice_tree vs)"
  shows "\<exists>ws. deserialize_choices D (serialize_choices D vs) = Some ws
     \<and> map choice_tree ws = map choice_tree vs \<and> list_all value_coherent ws"
proof -
  let ?ts = "map choice_tree vs" and ?bytes = "serialize_choices D vs"
  let ?nested = "\<lambda>pos. deserialize_choice_list D ?bytes pos (0 + 1)"
  have b: "?bytes = nat_to_le 4 (length vs) @ concat (map (tree_bytes D) ?ts) @ []"
    by (simp only: serialize_choices_trees append_Nil2)
  have "\<exists>ws. deserialize_loop D ?nested ?bytes (length ?ts) (length (nat_to_le 4 (length vs)))
      = Some (ws, length (nat_to_le 4 (length vs)) + length (concat (map (tree_bytes D) ?ts)))
      \<and> map choice_tree ws = ?ts \<and> list_all value_coherent ws"
  proof (rule deserialize_loop_reads [OF _ b])
    fix t pre post
    assume t: "t \<in> set ?ts" "?bytes = pre @ tree_bytes D t @ post"
    then have "tree_storable D (MAX_CLONE_DEPTH - 0) t"
      using assms(3) by (auto simp: list_all_iff)
    from deserialize_one_reads [OF assms(1) this _ t(2)]
    show "reads (deserialize_one D ?nested ?bytes) (length pre) t (length pre + length (tree_bytes D t))"
      by simp
  qed
  then obtain ws where ws: "deserialize_loop D ?nested ?bytes (length vs) 4
      = Some (ws, 4 + length (concat (map (tree_bytes D) ?ts)))"
    "map choice_tree ws = ?ts" "list_all value_coherent ws" by auto
  have "read_u32 ?bytes 0 = length vs"
    using read_u32_middle [of 0 "[]" "length vs" "concat (map (tree_bytes D) ?ts)"] assms(2) b by simp
  moreover have "4 \<le> length ?bytes" using b by simp
  ultimately have "deserialize_choice_list D ?bytes 0 0
      = Some (ws, 4 + length (concat (map (tree_bytes D) ?ts)))"
    using ws(1) by (subst deserialize_choice_list.simps) simp
  then show ?thesis using ws(2,3) by (simp add: deserialize_choices_def)
qed

section \<open>Malformed input\<close>

fun clone_depth :: "value_tree \<Rightarrow> nat" where
  "clone_depth (TClone ts) = 1 + foldr max (map clone_depth ts) 0"
| "clone_depth _ = 0"

lemma clone_depth_le: "clone_depth (TClone ts) \<le> Suc n \<longleftrightarrow> (\<forall>t \<in> set ts. clone_depth t \<le> n)"
  by (induction ts) auto

lemma clone_depth_record: "(\<forall>v \<in> set vs. clone_depth (choice_tree v) \<le> n) \<Longrightarrow>
    clone_depth (choice_tree (VClone (cr_from_values vs))) \<le> Suc n"
  by (simp add: cr_from_values_def del: clone_depth.simps) (simp add: clone_depth_le del: clone_depth.simps)

lemma get_slice_bound: "get_slice bytes pos n = Some s \<Longrightarrow> pos + n \<le> length bytes"
  by (simp add: get_slice_def split: if_splits)

lemma legacy_native_bound:
  "legacy_native sg n bytes pos = Some (v, e) \<Longrightarrow> e \<le> length bytes \<and> pos \<le> e"
  by (auto simp: legacy_native_def dest: get_slice_bound split: Option.bind_splits)

lemma deserialize_integer_bound:
  assumes "deserialize_any_integer D bytes pos = Some (v, e)"
  shows "e \<le> length bytes \<and> pos < e"
  using assms unfolding deserialize_any_integer_def Let_def
  by (auto dest!: legacy_native_bound get_slice_bound split: if_splits Option.bind_splits)

lemma deserialize_one_bound:
  assumes "deserialize_one D nested bytes pos = Some (v, e)"
    and "\<And>p vs q. pos < p \<Longrightarrow> nested p = Some (vs, q) \<Longrightarrow> p \<le> q \<and> q \<le> length bytes
           \<and> (\<forall>v \<in> set vs. clone_depth (choice_tree v) \<le> n \<and> value_coherent v)"
  shows "pos < e \<and> e \<le> length bytes \<and> clone_depth (choice_tree v) \<le> Suc n \<and> value_coherent v"
proof -
  consider "bytes ! pos = 0" | "bytes ! pos = 5" | "bytes ! pos \<noteq> 0" "bytes ! pos \<noteq> 5" by blast
  then show ?thesis
  proof cases
    case 1
    then show ?thesis
      using assms(1) by (auto simp: deserialize_one_def dest!: deserialize_integer_bound
          split: if_splits Option.bind_splits)
  next
    case 2
    then obtain vs q where q: "nested (pos + 1) = Some (vs, q)" "v = VClone (cr_from_values vs)" "e = q"
      using assms(1) by (auto simp: deserialize_one_def split: if_splits Option.bind_splits)
    from assms(2) [OF _ q(1)] have nested: "pos + 1 \<le> q" "q \<le> length bytes"
      "\<forall>v \<in> set vs. clone_depth (choice_tree v) \<le> n \<and> value_coherent v" by auto
    have "list_all value_coherent vs" using nested(3) by (simp add: list_all_iff)
    then have "value_coherent v" by (simp add: q(2) from_values_coherent)
    moreover have "clone_depth (choice_tree v) \<le> Suc n"
      unfolding q(2) by (rule clone_depth_record) (use nested(3) in blast)
    ultimately show ?thesis using nested q(3) by simp
  next
    case 3
    then show ?thesis
      using assms(1) by (auto simp: deserialize_one_def Let_def split: if_splits)
  qed
qed

lemma deserialize_loop_bound:
  assumes "deserialize_loop D nested bytes count pos = Some (vs, e)" "pos \<le> length bytes"
    and "\<And>p vs q. pos < p \<Longrightarrow> nested p = Some (vs, q) \<Longrightarrow> p \<le> q \<and> q \<le> length bytes
           \<and> (\<forall>v \<in> set vs. clone_depth (choice_tree v) \<le> n \<and> value_coherent v)"
  shows "pos + count \<le> e \<and> e \<le> length bytes \<and> length vs = count
     \<and> (\<forall>v \<in> set vs. clone_depth (choice_tree v) \<le> Suc n \<and> value_coherent v)"
  using assms
proof (induction count arbitrary: pos vs)
  case (Suc count)
  then obtain v p ws where one: "deserialize_one D nested bytes pos = Some (v, p)"
    and loop: "deserialize_loop D nested bytes count p = Some (ws, e)" and vs: "vs = v # ws"
    by (auto split: Option.bind_splits)
  have o: "pos < p \<and> p \<le> length bytes \<and> clone_depth (choice_tree v) \<le> Suc n \<and> value_coherent v"
    by (rule deserialize_one_bound [OF one]) (rule Suc.prems(3))
  have "p + count \<le> e \<and> e \<le> length bytes \<and> length ws = count
     \<and> (\<forall>v \<in> set ws. clone_depth (choice_tree v) \<le> Suc n \<and> value_coherent v)"
  proof (rule Suc.IH [OF loop])
    show "p \<le> length bytes" using o by simp
    fix pa ws q
    assume "p < pa" "nested pa = Some (ws, q)"
    then show "pa \<le> q \<and> q \<le> length bytes
        \<and> (\<forall>v \<in> set ws. clone_depth (choice_tree v) \<le> n \<and> value_coherent v)"
      using o by (intro Suc.prems(3)) auto
  qed
  then show ?case using o vs by auto
qed auto

lemma deserialize_list_bound:
  "deserialize_choice_list D bytes start depth = Some (vs, e) \<Longrightarrow>
     start + 4 \<le> e \<and> e \<le> length bytes
     \<and> (\<forall>v \<in> set vs. clone_depth (choice_tree v) + depth \<le> MAX_CLONE_DEPTH \<and> value_coherent v)"
proof (induction D bytes start depth arbitrary: vs e rule: deserialize_choice_list.induct)
  case (1 D bytes start depth)
  have guard: "\<not> MAX_CLONE_DEPTH < depth" "\<not> length bytes < start + 4"
    and loop: "deserialize_loop D (\<lambda>pos. deserialize_choice_list D bytes pos (depth + 1)) bytes
        (read_u32 bytes start) (start + 4) = Some (vs, e)"
    using 1(2) by (simp_all add: deserialize_choice_list.simps [of D bytes start depth] split: if_splits)
  show ?case
  proof (cases "depth = MAX_CLONE_DEPTH")
    case True
    have none: "deserialize_choice_list D bytes p (depth + 1) = None" for p
      using True by (subst deserialize_choice_list.simps) simp
    have one: "clone_depth (choice_tree v) = 0 \<and> value_coherent v"
      if "deserialize_one D (\<lambda>_. None) bytes p = Some (v, q)" for p v q
      using that by (auto simp: deserialize_one_def Let_def split: if_splits Option.bind_splits)
    have "\<forall>v \<in> set vs. clone_depth (choice_tree v) = 0 \<and> value_coherent v"
      if "deserialize_loop D (\<lambda>_. None) bytes c p = Some (vs, q)" for c p vs q
      using that
    proof (induction c arbitrary: p vs)
      case (Suc c)
      then obtain w r ws where "deserialize_one D (\<lambda>_. None) bytes p = Some (w, r)"
        "deserialize_loop D (\<lambda>_. None) bytes c r = Some (ws, q)" "vs = w # ws"
        by (auto split: Option.bind_splits)
      then show ?case using Suc.IH one by simp
    qed simp
    moreover have "start + 4 \<le> e \<and> e \<le> length bytes"
      using deserialize_loop_bound [OF loop, of 0] guard none by auto
    moreover have "deserialize_loop D (\<lambda>_. None) bytes (read_u32 bytes start) (start + 4) = Some (vs, e)"
      using loop unfolding none .
    ultimately show ?thesis using True by fastforce
  next
    case False
    let ?n = "MAX_CLONE_DEPTH - depth - 1"
    have "start + 4 + read_u32 bytes start \<le> e \<and> e \<le> length bytes \<and> length vs = read_u32 bytes start
       \<and> (\<forall>v \<in> set vs. clone_depth (choice_tree v) \<le> Suc ?n \<and> value_coherent v)"
    proof (rule deserialize_loop_bound [OF loop])
      show "start + 4 \<le> length bytes" using guard by simp
      fix p ws q
      assume "deserialize_choice_list D bytes p (depth + 1) = Some (ws, q)"
      from "1.IH" [OF guard this] False guard
      show "p \<le> q \<and> q \<le> length bytes
          \<and> (\<forall>v \<in> set ws. clone_depth (choice_tree v) \<le> ?n \<and> value_coherent v)" by fastforce
    qed
    then show ?thesis using False guard by fastforce
  qed
qed

section \<open>Properties\<close>

text \<open>C16: whatever the format can hold comes back from storage with the same child values at
  every level, comparing equal to what was written; realized nodes and bare values have the
  same encoding; and the encoding is injective on what it can hold.
\<close>
theorem serialization_roundtrip:
  assumes "dashu_ok D" and "length vs < 2 ^ 32"
    and "list_all (tree_storable D MAX_CLONE_DEPTH) (map choice_tree vs)"
    and "list_all value_coherent vs"
  shows "(\<exists>ws. deserialize_choices D (serialize_choices D vs) = Some ws \<and> list_all2 value_eq vs ws)
     \<and> (\<forall>ns. map node_value ns = vs \<longrightarrow> serialize_nodes D ns = serialize_choices D vs)
     \<and> (\<forall>us. length us < 2 ^ 32 \<and> list_all (tree_storable D MAX_CLONE_DEPTH) (map choice_tree us)
            \<and> serialize_choices D us = serialize_choices D vs
            \<longrightarrow> map choice_tree us = map choice_tree vs)"
proof (intro conjI allI impI)
  from deserialize_serialized [OF assms(1-3)] obtain ws where
    ws: "deserialize_choices D (serialize_choices D vs) = Some ws"
      "map choice_tree ws = map choice_tree vs" "list_all value_coherent ws" by blast
  have "length ws = length vs" using ws(2) by (metis length_map)
  moreover have "value_eq (vs ! i) (ws ! i)" if "i < length vs" for i
  proof -
    have "choice_tree (vs ! i) = choice_tree (ws ! i)"
      using ws(2) that \<open>length ws = length vs\<close> by (metis nth_map)
    then show ?thesis
      using value_eq_trees assms(4) ws(3) that \<open>length ws = length vs\<close> by (simp add: list_all_length)
  qed
  ultimately show "\<exists>ws. deserialize_choices D (serialize_choices D vs) = Some ws
      \<and> list_all2 value_eq vs ws"
    using ws(1) by (auto simp: list_all2_conv_all_nth)
next
  fix ns
  assume "map node_value ns = vs"
  then have "map choice_tree vs = map node_tree ns" by (auto simp: node_value_def)
  moreover have "length vs = length ns" using \<open>map node_value ns = vs\<close> by auto
  ultimately show "serialize_nodes D ns = serialize_choices D vs"
    by (simp only: serialize_nodes_trees serialize_choices_trees)
next
  fix us
  assume us: "length us < 2 ^ 32 \<and> list_all (tree_storable D MAX_CLONE_DEPTH) (map choice_tree us)
    \<and> serialize_choices D us = serialize_choices D vs"
  then show "map choice_tree us = map choice_tree vs"
    using deserialize_serialized [OF assms(1), of us] deserialize_serialized [OF assms(1-3)] by auto
qed

theorem serialization_roundtrip_witness:
  "\<exists>ws. deserialize_choices sample_dashu (serialize_choices sample_dashu [VClone sample_clone]) = Some ws
     \<and> list_all2 value_eq [VClone sample_clone] ws"
proof -
  have "choice_tree (VClone sample_clone) = TClone [TBoolean True]"
    by (simp add: sample_clone_def cr_from_run_def cr_from_stream_def realized_stream_new_def)
  then have "list_all (tree_storable sample_dashu MAX_CLONE_DEPTH) (map choice_tree [VClone sample_clone])"
    by (simp add: MAX_CLONE_DEPTH_def)
  moreover have "list_all value_coherent [VClone sample_clone]"
    by (simp add: sample_clone_def cr_from_run_def cr_from_stream_def realized_stream_new_def)
  ultimately show ?thesis
    using serialization_roundtrip [OF sample_dashu_ok, of "[VClone sample_clone]"] by simp
qed

text \<open>Whatever bytes it is given, the reader accepts only values whose clones nest at most
  \<open>MAX_CLONE_DEPTH\<close> deep, with consistent cached counts; so corrupt storage cannot drive
  deeper recursion.\<close>
theorem deserialize_depth_bounded:
  assumes "deserialize_choices D bytes = Some vs"
  shows "\<forall>v \<in> set vs. clone_depth (choice_tree v) \<le> MAX_CLONE_DEPTH \<and> value_coherent v"
  using assms deserialize_list_bound [of D bytes 0 0]
  by (auto simp: deserialize_choices_def split: Option.bind_splits)

theorem deserialize_depth_bounded_witness:
  "deserialize_choices sample_dashu [1, 0, 0, 0, 1, 1] = Some [VBoolean True]
   \<and> clone_depth (choice_tree (VBoolean True)) \<le> MAX_CLONE_DEPTH"
proof -
  have d: "deserialize_choices sample_dashu [1, 0, 0, 0, 1, 1] = Some [VBoolean True]"
    by (simp add: deserialize_choices_def deserialize_choice_list.simps read_u32_def MAX_CLONE_DEPTH_def
        numeral_2_eq_2 deserialize_one_def)
  from deserialize_depth_bounded [OF d] d show ?thesis by simp
qed

end
