(* ===== verification/Blob.thy ===== *)
theory Blob
  imports Database Base64
begin

text \<open>
  \<open>hegel-c/src/native/blob.rs\<close>: failure blobs. The zlib routines of the external crate
  \<open>miniz_oxide\<close> are parameters; \<open>zlib_ok\<close> is their documented contract. The blob is the
  list of its ASCII bytes, as in \<open>Base64\<close>.
\<close>

record zlib =
  compress_to_vec_zlib :: "u8 list \<Rightarrow> nat \<Rightarrow> u8 list"
  decompress_with_limit :: "u8 list \<Rightarrow> nat \<Rightarrow> u8 list option"

definition zlib_ok :: "zlib \<Rightarrow> bool" where
  "zlib_ok Z \<longleftrightarrow> (\<forall>raw level limit. length raw \<le> limit \<longrightarrow>
     decompress_with_limit Z (compress_to_vec_zlib Z raw level) limit = Some raw)"

definition PREFIX_RAW :: u8 where "PREFIX_RAW = 0"
definition PREFIX_ZLIB :: u8 where "PREFIX_ZLIB = 1"
definition ZLIB_LEVEL :: nat where "ZLIB_LEVEL = 6"

definition MAX_DECOMPRESSED_LEN :: nat where
  "MAX_DECOMPRESSED_LEN = push_bit 20 16"

definition encode_failure :: "dashu \<Rightarrow> zlib \<Rightarrow> choice_value list \<Rightarrow> u8 list" where
  "encode_failure D Z choices =
     (let raw = serialize_choices D choices;
          compressed = compress_to_vec_zlib Z raw ZLIB_LEVEL;
          (prefix, body) =
            (if length compressed < length raw \<and> length raw \<le> MAX_DECOMPRESSED_LEN
             then (PREFIX_ZLIB, compressed) else (PREFIX_RAW, raw))
      in base64_encode (prefix # body))"

definition decode_failure :: "dashu \<Rightarrow> zlib \<Rightarrow> u8 list \<Rightarrow> choice_value list option" where
  "decode_failure D Z blob =
     do { bytes \<leftarrow> base64_decode blob;
          (case bytes of
             [] \<Rightarrow> None
           | prefix # rest \<Rightarrow>
               do { raw \<leftarrow> (if prefix = PREFIX_RAW then Some rest
                           else if prefix = PREFIX_ZLIB
                                then decompress_with_limit Z rest MAX_DECOMPRESSED_LEN
                                else None);
                    deserialize_choices D raw }) }"

lemma decode_encoded_bytes:
  assumes "zlib_ok Z"
  shows "decode_failure D Z (encode_failure D Z vs) = deserialize_choices D (serialize_choices D vs)"
  using assms
  by (simp add: encode_failure_def decode_failure_def Let_def base64_inverse zlib_ok_def
      PREFIX_RAW_def PREFIX_ZLIB_def)

text \<open>C40: a failure blob decodes to choices equal to the encoded ones: the compressed form is
  only chosen below the reader's inflation bound, so the encoder's own output is never
  rejected.
\<close>
theorem failure_blob_roundtrip:
  assumes "dashu_ok D" and "zlib_ok Z" and "length vs < 2 ^ 32"
    and "list_all (tree_storable D MAX_CLONE_DEPTH) (map choice_tree vs)"
  shows "\<exists>ws. decode_failure D Z (encode_failure D Z vs) = Some ws
     \<and> map choice_tree ws = map choice_tree vs"
  using deserialize_serialized [OF assms(1,3,4)] by (auto simp: decode_encoded_bytes [OF assms(2)])

text \<open>A provider that stores: its output is one byte longer, so the raw form is chosen.\<close>

definition stored_zlib :: zlib where
  "stored_zlib = \<lparr>compress_to_vec_zlib = (\<lambda>raw level. 0 # raw),
     decompress_with_limit = (\<lambda>bytes limit. if bytes = [] then None else Some (tl bytes))\<rparr>"

theorem failure_blob_roundtrip_witness:
  "zlib_ok stored_zlib
   \<and> (\<exists>ws. decode_failure sample_dashu stored_zlib
               (encode_failure sample_dashu stored_zlib [VBoolean True, VBytes [7]]) = Some ws
        \<and> map choice_tree ws = [TBoolean True, TBytes [7]])"
proof -
  have z: "zlib_ok stored_zlib" by (simp add: zlib_ok_def stored_zlib_def)
  from failure_blob_roundtrip [OF sample_dashu_ok z, of "[VBoolean True, VBytes [7]]"] z
  show ?thesis by simp
qed

end
