(* ===== verification/Search.thy ===== *)
theory Search
  imports Prelude
begin

text \<open>
  The adaptive searches of \<open>hegel-c/src/native/shrinker/search.rs\<close>. Each is a state with the
  source's \<open>step\<close>, \<open>probe\<close> and \<open>record\<close>; the loop a shrink pass writes around it is a driver
  whose predicate may fail and may change a state of its own, so that the passes can use it.
  A \<open>usize\<close> is a \<open>nat\<close> below \<open>USIZE\<close>, an \<open>i128\<close> an \<open>int\<close> whose arithmetic panics out of range.
\<close>

definition USIZE :: nat where "USIZE = 2 ^ 64"
definition USIZE_MAX :: nat where "USIZE_MAX = 2 ^ 64 - 1"

datatype 'a search_step = Probe 'a | Done_step 'a

section \<open>FindInteger\<close>

datatype find_integer_state =
    Linear nat
  | Grow (grow_lo: nat) (grow_hi: nat)
  | Narrow (narrow_lo: nat) (narrow_hi: nat)
  | Done nat

definition find_integer_new :: find_integer_state where
  "find_integer_new = Linear 1"

fun find_integer_step :: "find_integer_state \<Rightarrow> nat search_step" where
  "find_integer_step (Linear i) = Probe i"
| "find_integer_step (Grow lo hi) = Probe hi"
| "find_integer_step (Narrow lo hi) = Probe (lo + (hi - lo) div 2)"
| "find_integer_step (Done v) = Done_step v"

definition find_integer_probe :: "find_integer_state \<Rightarrow> nat option" where
  "find_integer_probe st = (case find_integer_step st of Probe v \<Rightarrow> Some v | Done_step _ \<Rightarrow> None)"

definition find_integer_narrow_or_done :: "nat \<Rightarrow> nat \<Rightarrow> find_integer_state" where
  "find_integer_narrow_or_done lo hi = (if lo + 1 < hi then Narrow lo hi else Done lo)"

definition usize_checked_mul :: "nat \<Rightarrow> nat \<Rightarrow> nat option" where
  "usize_checked_mul a b = (if a * b < USIZE then Some (a * b) else None)"

fun find_integer_record :: "find_integer_state \<Rightarrow> bool \<Rightarrow> find_integer_state" where
  "find_integer_record (Linear i) ok =
     (if \<not> ok then Done (i - 1) else if i < 4 then Linear (i + 1) else Grow 4 5)"
| "find_integer_record (Grow lo hi) ok =
     (if ok then (case usize_checked_mul hi 2 of Some next_hi \<Rightarrow> Grow hi next_hi | None \<Rightarrow> Done hi)
      else find_integer_narrow_or_done lo hi)"
| "find_integer_record (Narrow lo hi) ok =
     (let mid = lo + (hi - lo) div 2
      in if ok then find_integer_narrow_or_done mid hi else find_integer_narrow_or_done lo mid)"
| "find_integer_record (Done v) ok = Done v"

text \<open>
  The driver: probe, evaluate, record, until converged. Its measure counts the linear probes
  left, then the room below \<open>USIZE\<close>, then the width of the gap; every reachable state is
  \<open>find_ok\<close>, and the driver stops at once on any other.
\<close>

fun find_ok :: "find_integer_state \<Rightarrow> bool" where
  "find_ok (Linear i) = (1 \<le> i \<and> i \<le> 4)"
| "find_ok (Grow lo hi) = (4 \<le> lo \<and> lo < hi \<and> hi < USIZE)"
| "find_ok (Narrow lo hi) = (lo + 1 < hi \<and> hi < USIZE)"
| "find_ok (Done v) = (v < USIZE)"

fun find_measure :: "find_integer_state \<Rightarrow> nat" where
  "find_measure (Linear i) = 3 * USIZE - i"
| "find_measure (Grow lo hi) = 2 * USIZE - hi"
| "find_measure (Narrow lo hi) = hi - lo"
| "find_measure (Done v) = 0"

lemma find_ok_new [simp]: "find_ok find_integer_new"
  by (simp add: find_integer_new_def)

lemma find_record_ok:
  assumes "find_ok st"
  shows "find_ok (find_integer_record st ok)"
  using assms
  by (cases st) (auto simp: find_integer_narrow_or_done_def usize_checked_mul_def USIZE_def Let_def)

lemma narrow_measure: "find_measure (find_integer_narrow_or_done lo hi) \<le> hi - lo"
  by (simp add: find_integer_narrow_or_done_def)

lemma find_record_measure:
  assumes "find_ok st" "find_integer_step st = Probe v"
  shows "find_measure (find_integer_record st ok) < find_measure st"
proof (cases st)
  case (Narrow lo hi)
  then have "lo < lo + (hi - lo) div 2" "lo + (hi - lo) div 2 < hi"
    using assms(1) by auto
  then show ?thesis
    using Narrow narrow_measure [of "lo + (hi - lo) div 2" hi] narrow_measure [of lo "lo + (hi - lo) div 2"]
    by (auto simp: Let_def simp del: less_add_same_cancel1) linarith+
next
  case (Grow lo hi)
  then show ?thesis
    using assms(1) narrow_measure [of lo hi]
    by (auto simp: usize_checked_mul_def USIZE_def)
qed (use assms in \<open>auto simp: USIZE_def\<close>)

function find_integer_run ::
  "(nat \<Rightarrow> ('s, 'e, bool) effect) \<Rightarrow> find_integer_state \<Rightarrow> ('s, 'e, nat) effect" where
  "find_integer_run f st s =
     (case find_integer_step st of
        Done_step v \<Rightarrow> ret v s
      | Probe k \<Rightarrow>
          if find_ok st
          then ebind (f k) (\<lambda>ok. find_integer_run f (find_integer_record st ok)) s
          else ret 0 s)"
  by pat_completeness auto
termination
  by (relation "measure (\<lambda>(f, st, s). find_measure st)") (auto intro: find_record_measure)

declare find_integer_run.simps [simp del]

definition find_integer :: "(nat \<Rightarrow> ('s, 'e, bool) effect) \<Rightarrow> ('s, 'e, nat) effect" where
  "find_integer f = find_integer_run f find_integer_new"

section \<open>BinSearchDown\<close>

definition I128_MIN :: int where "I128_MIN = - (2 ^ 127)"
definition I128_MAX :: int where "I128_MAX = 2 ^ 127 - 1"

definition i128_checked :: "int \<Rightarrow> int option" where
  "i128_checked v = (if I128_MIN \<le> v \<and> v \<le> I128_MAX then Some v else None)"

definition i128_or_panic :: "int \<Rightarrow> int internal_result" where
  "i128_or_panic v = unwrap_or_panic (i128_checked v) ''arithmetic overflow''"

text \<open>Division by two rounds towards zero.\<close>

definition half :: "int \<Rightarrow> int" where
  "half v = (if v < 0 then - ((- v) div 2) else v div 2)"

datatype bin_search_state =
    CheckLo int int
  | BNarrow int int
  | BDone int

definition bin_search_new :: "int \<Rightarrow> int \<Rightarrow> bin_search_state" where
  "bin_search_new lo hi = CheckLo lo hi"

definition bin_search_mid :: "int \<Rightarrow> int \<Rightarrow> int internal_result" where
  "bin_search_mid lo hi = rbind (i128_or_panic (hi - lo)) (\<lambda>d. i128_or_panic (lo + half d))"

fun bin_search_probe :: "bin_search_state \<Rightarrow> int option internal_result" where
  "bin_search_probe (CheckLo lo hi) = Inr (Some lo)"
| "bin_search_probe (BNarrow lo hi) = rbind (bin_search_mid lo hi) (\<lambda>mid. Inr (Some mid))"
| "bin_search_probe (BDone v) = Inr None"

definition bin_search_narrow_or_done :: "int \<Rightarrow> int \<Rightarrow> bin_search_state" where
  "bin_search_narrow_or_done lo hi =
     (case i128_checked (lo + 1) of
        Some n \<Rightarrow> if n < hi then BNarrow lo hi else BDone hi
      | None \<Rightarrow> BDone hi)"

fun bin_search_record :: "bin_search_state \<Rightarrow> bool \<Rightarrow> bin_search_state internal_result" where
  "bin_search_record (CheckLo lo hi) ok =
     Inr (if ok then BDone lo else bin_search_narrow_or_done lo hi)"
| "bin_search_record (BNarrow lo hi) ok =
     rbind (bin_search_mid lo hi) (\<lambda>mid.
       Inr (if ok then bin_search_narrow_or_done lo mid else bin_search_narrow_or_done mid hi))"
| "bin_search_record (BDone v) ok = Inr (BDone v)"

section \<open>BinSearchDownBig\<close>

definition bin_big_mid :: "int \<Rightarrow> int \<Rightarrow> int" where
  "bin_big_mid lo hi = lo + half (hi - lo)"

fun bin_big_probe :: "bin_search_state \<Rightarrow> int option" where
  "bin_big_probe (CheckLo lo hi) = Some lo"
| "bin_big_probe (BNarrow lo hi) = Some (bin_big_mid lo hi)"
| "bin_big_probe (BDone v) = None"

definition bin_big_narrow_or_done :: "int \<Rightarrow> int \<Rightarrow> bin_search_state" where
  "bin_big_narrow_or_done lo hi = (if lo + 1 < hi then BNarrow lo hi else BDone hi)"

fun bin_big_record :: "bin_search_state \<Rightarrow> bool \<Rightarrow> bin_search_state" where
  "bin_big_record (CheckLo lo hi) ok = (if ok then BDone lo else bin_big_narrow_or_done lo hi)"
| "bin_big_record (BNarrow lo hi) ok =
     (let mid = bin_big_mid lo hi
      in if ok then bin_big_narrow_or_done lo mid else bin_big_narrow_or_done mid hi)"
| "bin_big_record (BDone v) ok = BDone v"

fun bin_ok :: "bin_search_state \<Rightarrow> bool" where
  "bin_ok (BNarrow lo hi) = (lo + 1 < hi)"
| "bin_ok _ = True"

fun bin_measure :: "bin_search_state \<Rightarrow> nat" where
  "bin_measure (CheckLo lo hi) = nat (hi - lo) + 1"
| "bin_measure (BNarrow lo hi) = nat (hi - lo)"
| "bin_measure (BDone v) = 0"

lemma mid_between: "lo + 1 < hi \<Longrightarrow> lo < bin_big_mid lo hi \<and> bin_big_mid lo hi < hi"
  by (auto simp: bin_big_mid_def half_def)

lemma bin_big_record_ok: "bin_ok st \<Longrightarrow> bin_ok (bin_big_record st ok)"
  by (cases st) (auto simp: bin_big_narrow_or_done_def Let_def)

lemma bin_narrow_measure: "bin_measure (bin_big_narrow_or_done lo hi) \<le> nat (hi - lo)"
  by (simp add: bin_big_narrow_or_done_def)

lemma bin_big_record_measure:
  assumes "bin_ok st" "bin_big_probe st = Some v"
  shows "bin_measure (bin_big_record st ok) < bin_measure st"
proof (cases st)
  case (CheckLo lo hi)
  then show ?thesis using bin_narrow_measure [of lo hi] by auto
next
  case (BNarrow lo hi)
  then have "lo < bin_big_mid lo hi" "bin_big_mid lo hi < hi" using assms(1) mid_between by auto
  then show ?thesis
    using BNarrow bin_narrow_measure [of lo "bin_big_mid lo hi"]
      bin_narrow_measure [of "bin_big_mid lo hi" hi]
    by (auto simp: Let_def)
qed (use assms in auto)

function bin_search_down_big ::
  "(int \<Rightarrow> ('s, 'e, bool) effect) \<Rightarrow> bin_search_state \<Rightarrow> ('s, 'e, int) effect" where
  "bin_search_down_big f st s =
     (case st of
        BDone v \<Rightarrow> ret v s
      | _ \<Rightarrow>
        (case bin_big_probe st of
           None \<Rightarrow> ret 0 s
         | Some k \<Rightarrow>
             if bin_ok st
             then ebind (f k) (\<lambda>ok. bin_search_down_big f (bin_big_record st ok)) s
             else ret 0 s))"
  by pat_completeness auto
termination
proof (relation "measure (\<lambda>(f, st, s). bin_measure st)")
  show "wf (measure (\<lambda>(f :: int \<Rightarrow> ('s, 'e, bool) effect, st, s :: 's). bin_measure st))" by simp
qed (auto intro: bin_big_record_measure simp del: bin_big_record.simps bin_ok.simps bin_big_probe.simps
    bin_measure.simps)

declare bin_search_down_big.simps [simp del]

section \<open>What the searches find\<close>

text \<open>A stateless predicate as a driver argument.\<close>

definition pure_pred :: "('a \<Rightarrow> bool) \<Rightarrow> 'a \<Rightarrow> (unit, internal_error, bool) effect" where
  "pure_pred f k = ret (f k)"

lemma find_integer_run_probe:
  "find_ok st \<Longrightarrow> find_integer_step st = Probe k \<Longrightarrow>
     find_integer_run f st s = ebind (f k) (\<lambda>ok. find_integer_run f (find_integer_record st ok)) s"
  by (subst find_integer_run.simps) simp

lemma find_integer_run_done [simp]: "find_integer_run f (Done v) s = (Inr v, s)"
  by (subst find_integer_run.simps) simp

text \<open>
  What a state knows of the predicate: the lower end held (or is 0), and a gap's upper end
  failed.
\<close>

fun find_knows :: "(nat \<Rightarrow> bool) \<Rightarrow> find_integer_state \<Rightarrow> bool" where
  "find_knows f (Linear i) = (i = 1 \<or> f (i - 1))"
| "find_knows f (Grow lo hi) = f lo"
| "find_knows f (Narrow lo hi) = (f lo \<and> \<not> f hi)"
| "find_knows f (Done v) = ((v = 0 \<or> f v) \<and> (\<not> f (v + 1) \<or> USIZE \<le> 2 * v))"

lemma find_knows_record:
  assumes "find_ok st" "find_knows f st" "find_integer_step st = Probe k"
  shows "find_knows f (find_integer_record st (f k))"
proof (cases st)
  case (Linear i)
  then show ?thesis using assms by (cases "i = 1") auto
next
  case (Grow lo hi)
  then show ?thesis using assms
    by (cases "lo + 1 = hi") (auto simp: usize_checked_mul_def find_integer_narrow_or_done_def not_less)
next
  case (Narrow lo hi)
  define mid where "mid = lo + (hi - lo) div 2"
  have m: "lo < mid" "mid < hi" using assms(1) Narrow by (auto simp: mid_def)
  have k: "k = mid" using assms(3) Narrow by (simp add: mid_def)
  have "find_integer_record st (f k) = (if f mid then find_integer_narrow_or_done mid hi
      else find_integer_narrow_or_done lo mid)"
    using Narrow by (simp add: k mid_def Let_def)
  moreover have "hi = mid + 1" if "\<not> mid + 1 < hi" using m that by simp
  moreover have "mid = lo + 1" if "\<not> lo + 1 < mid" using m that by simp
  ultimately show ?thesis
    using assms(2) Narrow by (auto simp: find_integer_narrow_or_done_def)
qed (use assms in auto)

lemma find_integer_run_pure:
  "find_ok st \<Longrightarrow> find_knows f st \<Longrightarrow>
     \<exists>v. find_integer_run (pure_pred f) st () = (Inr v, ()) \<and> v < USIZE \<and> find_knows f (Done v)"
proof (induction "find_measure st" arbitrary: st rule: less_induct)
  case less
  show ?case
  proof (cases "find_integer_step st")
    case (Done_step v)
    then have "st = Done v" by (cases st) auto
    then show ?thesis using less.prems by simp
  next
    case (Probe k)
    from less.hyps [OF find_record_measure [OF less.prems(1) Probe]
        find_record_ok [OF less.prems(1)] find_knows_record [OF less.prems Probe]]
    show ?thesis
      by (subst find_integer_run_probe [OF less.prems(1) Probe]) (simp add: pure_pred_def)
  qed
qed

text \<open>
  What the predicate guarantees of its own state holds of the whole search, and the answer is
  0 or a probe that was recorded as a success.
\<close>

fun find_lower :: "(nat \<Rightarrow> bool) \<Rightarrow> find_integer_state \<Rightarrow> bool" where
  "find_lower G (Linear i) = (i \<le> 1 \<or> G (i - 1))"
| "find_lower G (Grow lo hi) = G lo"
| "find_lower G (Narrow lo hi) = G lo"
| "find_lower G (Done v) = (v = 0 \<or> G v)"

lemma find_lower_record:
  assumes "find_lower G st" "find_integer_step st = Probe k" "ok \<Longrightarrow> G k" "find_ok st"
  shows "find_lower G (find_integer_record st ok)"
proof (cases st)
  case (Linear i)
  then show ?thesis using assms by (cases "i = 4") auto
qed (use assms in \<open>auto simp: usize_checked_mul_def find_integer_narrow_or_done_def Let_def\<close>)

lemma find_integer_run_triple:
  assumes "\<And>k. triple I (f k) (\<lambda>ok s. I s \<and> (ok \<longrightarrow> G k)) E"
  shows "find_ok st \<Longrightarrow> find_lower G st \<Longrightarrow>
    triple I (find_integer_run f st) (\<lambda>v s. I s \<and> (v = 0 \<or> G v)) E"
proof (induction "find_measure st" arbitrary: st rule: less_induct)
  case less
  show ?case
  proof (cases "find_integer_step st")
    case (Done_step w)
    then have "st = Done w" by (cases st) auto
    then show ?thesis using less.prems by (simp add: triple_def)
  next
    case (Probe k)
    have eq: "find_integer_run f st = ebind (f k) (\<lambda>ok. find_integer_run f (find_integer_record st ok))"
      by (rule ext) (rule find_integer_run_probe [OF less.prems(1) Probe])
    show ?thesis
      unfolding eq
    proof (rule triple_ebind [OF assms])
      fix ok
      show "triple (\<lambda>s. I s \<and> (ok \<longrightarrow> G k)) (find_integer_run f (find_integer_record st ok))
          (\<lambda>v s. I s \<and> (v = 0 \<or> G v)) E"
      proof (cases "ok \<longrightarrow> G k")
        case True
        have "find_lower G (find_integer_record st ok)"
          by (rule find_lower_record [OF less.prems(2) Probe _ less.prems(1)]) (use True in simp)
        from less.hyps [OF find_record_measure [OF less.prems(1) Probe]
            find_record_ok [OF less.prems(1)] this]
        show ?thesis by (rule triple_weaken) auto
      next
        case False
        then show ?thesis by (simp add: triple_def)
      qed
    qed
  qed
qed

lemma find_integer_triple:
  assumes "\<And>k. triple I (f k) (\<lambda>ok s. I s \<and> (ok \<longrightarrow> G k)) E"
  shows "triple I (find_integer f) (\<lambda>v s. I s \<and> (v = 0 \<or> G v)) E"
  unfolding find_integer_def
  by (rule find_integer_run_triple [OF assms]) (simp_all add: find_integer_new_def)

text \<open>C36: \<open>FindInteger\<close> always converges, on a value that is 0 or satisfies the predicate and
  whose successor fails it, unless doubling would leave \<open>usize\<close>; no monotonicity is needed.
\<close>
theorem find_integer_boundary:
  "\<exists>v. find_integer (pure_pred f) () = (Inr v, ()) \<and> v < USIZE
     \<and> (v = 0 \<or> f v) \<and> (\<not> f (v + 1) \<or> USIZE \<le> 2 * v)"
  using find_integer_run_pure [OF find_ok_new, of f]
  by (simp add: find_integer_def find_integer_new_def)

theorem find_integer_boundary_witness:
  "find_integer (pure_pred (\<lambda>n. n \<le> 6)) () = (Inr 6, ())"
proof -
  obtain v where v: "find_integer (pure_pred (\<lambda>n. n \<le> 6)) () = (Inr v, ())"
    and b: "v = 0 \<or> v \<le> 6" "\<not> v + 1 \<le> 6 \<or> USIZE \<le> 2 * v"
    using find_integer_boundary [of "\<lambda>n. n \<le> 6"] by blast
  have "v = 6" using b by (auto simp: USIZE_def)
  then show ?thesis using v by simp
qed

fun bin_knows :: "(int \<Rightarrow> bool) \<Rightarrow> int \<Rightarrow> int \<Rightarrow> bin_search_state \<Rightarrow> bool" where
  "bin_knows f lo0 hi0 (CheckLo lo hi) = (lo = lo0 \<and> hi = hi0)"
| "bin_knows f lo0 hi0 (BNarrow lo hi) =
     (lo0 \<le> lo \<and> hi \<le> hi0 \<and> \<not> f lo \<and> (hi = hi0 \<or> f hi))"
| "bin_knows f lo0 hi0 (BDone v) =
     (lo0 \<le> v \<and> v \<le> hi0 \<and> (v = hi0 \<or> f v) \<and> (lo0 < v \<longrightarrow> \<not> f (v - 1)))"

lemma bin_knows_narrow:
  assumes "lo < hi" "lo0 \<le> lo" "hi \<le> hi0" "\<not> f lo" "hi = hi0 \<or> f hi"
  shows "bin_knows f lo0 hi0 (bin_big_narrow_or_done lo hi)"
proof (cases "lo + 1 < hi")
  case False
  then have "hi = lo + 1" using assms(1) by simp
  then show ?thesis using assms by (auto simp: bin_big_narrow_or_done_def)
qed (use assms in \<open>simp add: bin_big_narrow_or_done_def\<close>)

lemma bin_knows_record:
  assumes "lo0 \<le> hi0" "bin_ok st" "bin_knows f lo0 hi0 st" "bin_big_probe st = Some k"
  shows "bin_knows f lo0 hi0 (bin_big_record st (f k))"
proof (cases st)
  case (CheckLo lo hi)
  show ?thesis
  proof (cases "f lo \<or> lo = hi")
    case True
    then show ?thesis using CheckLo assms by (auto simp: bin_big_narrow_or_done_def)
  next
    case False
    then have "bin_knows f lo0 hi0 (bin_big_narrow_or_done lo hi)"
      using CheckLo assms by (intro bin_knows_narrow) auto
    then show ?thesis using False CheckLo assms(4) by auto
  qed
next
  case (BNarrow lo hi)
  have m: "lo < bin_big_mid lo hi" "bin_big_mid lo hi < hi"
    using assms(2) BNarrow mid_between by auto
  have k: "k = bin_big_mid lo hi" using assms(4) BNarrow by simp
  show ?thesis
    using m assms(3) BNarrow by (auto simp: k Let_def intro!: bin_knows_narrow)
qed (use assms in auto)

lemma bin_search_down_big_probe:
  "bin_ok st \<Longrightarrow> bin_big_probe st = Some k \<Longrightarrow>
     bin_search_down_big f st s
       = ebind (f k) (\<lambda>ok. bin_search_down_big f (bin_big_record st ok)) s"
  by (subst bin_search_down_big.simps) (cases st; simp)

lemma bin_search_down_big_pure:
  "lo0 \<le> hi0 \<Longrightarrow> bin_ok st \<Longrightarrow> bin_knows f lo0 hi0 st \<Longrightarrow>
     \<exists>v. bin_search_down_big (pure_pred f) st () = (Inr v, ()) \<and> bin_knows f lo0 hi0 (BDone v)"
proof (induction "bin_measure st" arbitrary: st rule: less_induct)
  case less
  show ?case
  proof (cases "bin_big_probe st")
    case None
    then obtain v where "st = BDone v" by (cases st) auto
    then show ?thesis using less.prems by (subst bin_search_down_big.simps) simp
  next
    case (Some k)
    from less.hyps [OF bin_big_record_measure [OF less.prems(2) Some] less.prems(1)
        bin_big_record_ok [OF less.prems(2)] bin_knows_record [OF less.prems Some]]
    show ?thesis
      by (subst bin_search_down_big_probe [OF less.prems(2) Some]) (simp add: pure_pred_def)
  qed
qed

lemma bin_search_agrees:
  assumes "I128_MIN \<le> lo" "hi \<le> I128_MAX" "hi - lo \<le> I128_MAX" "lo + 1 < hi"
  shows "bin_search_mid lo hi = Inr (bin_big_mid lo hi)"
proof -
  have "I128_MIN \<le> hi - lo" using assms by (simp add: I128_MIN_def)
  moreover have "I128_MIN \<le> bin_big_mid lo hi" "bin_big_mid lo hi \<le> I128_MAX"
    using mid_between [OF assms(4)] assms by linarith+
  ultimately show ?thesis
    using assms by (simp add: bin_search_mid_def i128_or_panic_def i128_checked_def bin_big_mid_def)
qed

lemma bin_narrow_agrees:
  "hi \<le> I128_MAX \<Longrightarrow> bin_search_narrow_or_done lo hi = bin_big_narrow_or_done lo hi"
  if "I128_MIN \<le> lo"
  using that by (auto simp: bin_search_narrow_or_done_def bin_big_narrow_or_done_def i128_checked_def)



text \<open>The fixed-width \<open>BinSearchDown\<close> takes the same steps as the big-integer one and never
  overflows, for every range that lies in \<open>i128\<close> and is no wider than its maximum, as the
  ranges of the string, bytes and float passes are.\<close>
theorem bin_search_fixed_width:
  assumes "I128_MIN \<le> lo" and "hi \<le> I128_MAX" and "hi - lo \<le> I128_MAX"
  shows "bin_search_record (CheckLo lo hi) ok = Inr (bin_big_record (CheckLo lo hi) ok)
     \<and> (lo + 1 < hi \<longrightarrow>
          bin_search_probe (BNarrow lo hi) = Inr (bin_big_probe (BNarrow lo hi))
          \<and> bin_search_record (BNarrow lo hi) ok = Inr (bin_big_record (BNarrow lo hi) ok)
          \<and> (\<forall>l h. bin_big_record (BNarrow lo hi) ok = BNarrow l h \<longrightarrow>
               I128_MIN \<le> l \<and> h \<le> I128_MAX \<and> h - l \<le> I128_MAX))"
proof (intro conjI impI)
  show "bin_search_record (CheckLo lo hi) ok = Inr (bin_big_record (CheckLo lo hi) ok)"
    using bin_narrow_agrees [OF assms(1,2)] by simp
  assume w: "lo + 1 < hi"
  note mid = bin_search_agrees [OF assms w] and between = mid_between [OF w]
  show "bin_search_probe (BNarrow lo hi) = Inr (bin_big_probe (BNarrow lo hi))"
    by (simp add: mid)
  have "bin_search_narrow_or_done lo (bin_big_mid lo hi) = bin_big_narrow_or_done lo (bin_big_mid lo hi)"
    "bin_search_narrow_or_done (bin_big_mid lo hi) hi = bin_big_narrow_or_done (bin_big_mid lo hi) hi"
    using assms between by (intro bin_narrow_agrees; linarith)+
  then show "bin_search_record (BNarrow lo hi) ok = Inr (bin_big_record (BNarrow lo hi) ok)"
    by (simp add: mid Let_def)
  show "\<forall>l h. bin_big_record (BNarrow lo hi) ok = BNarrow l h \<longrightarrow>
      I128_MIN \<le> l \<and> h \<le> I128_MAX \<and> h - l \<le> I128_MAX"
    using assms between by (auto simp: Let_def bin_big_narrow_or_done_def split: if_splits)
qed

theorem bin_search_fixed_width_witness:
  "bin_search_probe (BNarrow 0 9) = Inr (Some 4)"
proof -
  have h: "I128_MIN \<le> 0" "9 \<le> I128_MAX" "9 - 0 \<le> I128_MAX" by (simp_all add: I128_MIN_def I128_MAX_def)
  from bin_search_fixed_width [OF h] show ?thesis by (simp add: bin_big_mid_def half_def)
qed

end
