(* ===== verification/Ordering.thy ===== *)
theory Ordering
  imports Search "HOL-Library.Multiset"
begin

text \<open>
  \<open>hegel-c/src/native/shrinker/ordering.rs\<close>: the reordering primitive. The judge is a
  stateful computation that may fail; \<open>oi\<close> embeds an internal error in its error type. Keys
  are computed by a function of the index.
\<close>

section \<open>The primitive\<close>

text \<open>Run a judge beside the local variable \<open>best\<close> of the region search.\<close>

definition beside :: "('s, 'e, 'a) effect \<Rightarrow> ('s \<times> 'b, 'e, 'a) effect" where
  "beside m = (\<lambda>(s, b). case m s of (r, s') \<Rightarrow> (r, (s', b)))"

definition sort_region ::
  "(nat \<Rightarrow> 'k :: linorder) \<Rightarrow> nat list \<Rightarrow> nat \<Rightarrow> nat \<Rightarrow> nat list" where
  "sort_region keys snapshot i k =
     take i snapshot @ sort_key keys (take k (drop i snapshot)) @ drop (i + k) snapshot"

definition region_probe ::
  "(nat \<Rightarrow> 'k :: linorder) \<Rightarrow> (nat list \<Rightarrow> ('s, 'e, bool) effect) \<Rightarrow> nat list \<Rightarrow> nat \<Rightarrow> nat
     \<Rightarrow> ('s \<times> nat list, 'e, bool) effect" where
  "region_probe keys accept snapshot i k =
     (if length snapshot < i + k then ret False
      else
        let attempt = sort_region keys snapshot i k
        in if attempt = snapshot then ret True
           else ebind (beside (accept attempt)) (\<lambda>accepted.
                  if accepted then ebind (modify (\<lambda>(s, best). (s, attempt))) (\<lambda>_. ret True)
                  else ret False))"

definition region_step ::
  "(nat \<Rightarrow> 'k :: linorder) \<Rightarrow> (nat list \<Rightarrow> ('s, 'e, bool) effect) \<Rightarrow> nat list \<Rightarrow> nat
     \<Rightarrow> ('s, 'e, nat list \<times> nat) effect" where
  "region_step keys accept current i s =
     (case find_integer (region_probe keys accept current i) (s, []) of
        (Inl e, (s', best)) \<Rightarrow> (Inl e, s')
      | (Inr k, (s', best)) \<Rightarrow> (Inr (if best \<noteq> [] then best else current, k), s'))"

text \<open>
  \<open>while i + 1 < current.len()\<close>. Every candidate is a permutation, so the length of
  \<open>current\<close> is the \<open>len\<close> the loop is started with.
\<close>

function regions_loop ::
  "(nat \<Rightarrow> 'k :: linorder) \<Rightarrow> (nat list \<Rightarrow> ('s, 'e, bool) effect) \<Rightarrow> nat \<Rightarrow> nat list \<Rightarrow> nat
     \<Rightarrow> ('s, 'e, nat list) effect" where
  "regions_loop keys accept len current i s =
     (if i + 1 < len
      then ebind (region_step keys accept current i) (\<lambda>(current', k).
             regions_loop keys accept len current' (i + max k 1)) s
      else ret current s)"
  by pat_completeness auto
termination
  by (relation "measure (\<lambda>(keys, accept, len, current, i, s). len - i)") auto

declare regions_loop.simps [simp del]

definition try_sort_around ::
  "(internal_error \<Rightarrow> 'e) \<Rightarrow> (nat \<Rightarrow> 'k :: linorder) \<Rightarrow> (nat list \<Rightarrow> ('s, 'e, bool) effect)
     \<Rightarrow> nat list \<Rightarrow> nat \<Rightarrow> nat \<Rightarrow> nat \<Rightarrow> ('s, 'e, bool) effect" where
  "try_sort_around oi keys accept snapshot a b centre =
     ebind (lift_result oi (hegel_internal_assert (a \<le> centre \<and> centre < b \<and> b \<le> length snapshot)
              ''a <= centre && centre < b && b <= snapshot.len()'')) (\<lambda>_.
     let split = centre - a;
         sides = sort_key keys (take (centre - a) (drop a snapshot)
                   @ take (b - (centre + 1)) (drop (centre + 1) snapshot));
         attempt = take a snapshot @ take split sides @ [snapshot ! centre] @ drop split sides
                     @ drop b snapshot
     in if attempt = snapshot then ret True else accept attempt)"

definition gap_right ::
  "(internal_error \<Rightarrow> 'e) \<Rightarrow> (nat \<Rightarrow> 'k :: linorder) \<Rightarrow> (nat list \<Rightarrow> ('s, 'e, bool) effect)
     \<Rightarrow> nat list \<Rightarrow> nat \<Rightarrow> nat \<Rightarrow> ('s, 'e, bool) effect" where
  "gap_right oi keys accept current i k =
     (if length current < i + 1 + k then ret False
      else try_sort_around oi keys accept current i (i + 1 + k) i)"

definition gap_left ::
  "(internal_error \<Rightarrow> 'e) \<Rightarrow> (nat \<Rightarrow> 'k :: linorder) \<Rightarrow> (nat list \<Rightarrow> ('s, 'e, bool) effect)
     \<Rightarrow> nat list \<Rightarrow> nat \<Rightarrow> nat \<Rightarrow> nat \<Rightarrow> ('s, 'e, bool) effect" where
  "gap_left oi keys accept current i right k =
     (if i < k then ret False
      else try_sort_around oi keys accept current (i - k) right i)"

definition gap_step ::
  "(internal_error \<Rightarrow> 'e) \<Rightarrow> (nat \<Rightarrow> 'k :: linorder) \<Rightarrow> (nat list \<Rightarrow> ('s, 'e, bool) effect)
     \<Rightarrow> nat list \<Rightarrow> nat \<Rightarrow> ('s, 'e, unit) effect" where
  "gap_step oi keys accept current i =
     (if keys (current ! (i - 1)) \<le> keys (current ! i) \<and> keys (current ! i) \<le> keys (current ! (i + 1))
      then ret ()
      else ebind (find_integer (gap_right oi keys accept current i)) (\<lambda>r.
           ebind (find_integer (gap_left oi keys accept current i (i + 1 + r))) (\<lambda>_. ret ())))"

fun gaps_loop ::
  "(internal_error \<Rightarrow> 'e) \<Rightarrow> (nat \<Rightarrow> 'k :: linorder) \<Rightarrow> (nat list \<Rightarrow> ('s, 'e, bool) effect)
     \<Rightarrow> nat list \<Rightarrow> nat list \<Rightarrow> ('s, 'e, unit) effect" where
  "gaps_loop oi keys accept current [] = ret ()"
| "gaps_loop oi keys accept current (i # is) =
     ebind (gap_step oi keys accept current i) (\<lambda>_. gaps_loop oi keys accept current is)"

definition regions_and_gaps ::
  "(internal_error \<Rightarrow> 'e) \<Rightarrow> (nat \<Rightarrow> 'k :: linorder) \<Rightarrow> (nat list \<Rightarrow> ('s, 'e, bool) effect)
     \<Rightarrow> nat list \<Rightarrow> ('s, 'e, unit) effect" where
  "regions_and_gaps oi keys accept current =
     ebind (regions_loop keys accept (length current) current 0) (\<lambda>current.
     let len = length current
     in if len < 3 then ret () else gaps_loop oi keys accept current [1..<len - 1])"

definition shrink_ordering ::
  "(internal_error \<Rightarrow> 'e) \<Rightarrow> nat \<Rightarrow> (nat \<Rightarrow> 'k :: linorder) \<Rightarrow> (nat list \<Rightarrow> ('s, 'e, bool) effect)
     \<Rightarrow> ('s, 'e, unit) effect" where
  "shrink_ordering oi n keys accept =
     (if n \<le> 1 then ret ()
      else
        let current = [0..<n]; sorted_candidate = sort_key keys current
        in if sorted_candidate \<noteq> current
           then ebind (accept sorted_candidate) (\<lambda>accepted.
                  if accepted then ret () else regions_and_gaps oi keys accept current)
           else regions_and_gaps oi keys accept current)"

section \<open>Only permutations are offered\<close>

lemma take_drop_split: "i + k \<le> length xs \<Longrightarrow> take i xs @ take k (drop i xs) @ drop (i + k) xs = xs"
  by (metis append_assoc append_take_drop_id take_add)

lemma mset_sort_region: "i + k \<le> length xs \<Longrightarrow> mset (sort_region keys xs i k) = mset xs"
proof -
  assume "i + k \<le> length xs"
  then have "mset xs = mset (take i xs @ take k (drop i xs) @ drop (i + k) xs)"
    by (simp only: take_drop_split)
  then show ?thesis by (simp add: sort_region_def)
qed

lemma mset_sort_around:
  assumes "a \<le> c" "c < b" "b \<le> length xs"
    and sides: "mset sides = mset (take (c - a) (drop a xs) @ take (b - (c + 1)) (drop (c + 1) xs))"
  shows "mset (take a xs @ take (c - a) sides @ [xs ! c] @ drop (c - a) sides @ drop b xs) = mset xs"
proof -
  let ?r = "take a xs @ take (c - a) (drop a xs) @ xs ! c # take (b - (c + 1)) (drop (c + 1) xs) @ drop b xs"
  have 1: "take a xs @ take (c - a) (drop a xs) = take c xs"
    using take_add [of a "c - a" xs] assms(1) by simp
  have "drop (b - (c + 1)) (drop (c + 1) xs) = drop b xs" using assms(2) by simp
  then have 2: "take (b - (c + 1)) (drop (c + 1) xs) @ drop b xs = drop (Suc c) xs"
    using append_take_drop_id [of "b - (c + 1)" "drop (c + 1) xs"] by simp
  have "?r = (take a xs @ take (c - a) (drop a xs)) @ xs ! c
      # (take (b - (c + 1)) (drop (c + 1) xs) @ drop b xs)" by simp
  also have "\<dots> = take c xs @ xs ! c # drop (Suc c) xs" by (simp only: 1 2)
  also have "\<dots> = xs" using assms(2,3) by (intro id_take_nth_drop [symmetric]) simp
  finally have "mset xs = mset ?r" by (intro arg_cong [where f = mset]) (rule sym)
  moreover have "mset sides = mset (take (c - a) sides) + mset (drop (c - a) sides)"
    by (simp flip: mset_append)
  ultimately show ?thesis using sides by (simp add: ac_simps)
qed

lemma triple_beside: "triple P m Q E \<Longrightarrow>
    triple (\<lambda>(s, b). P s \<and> R b) (beside m) (\<lambda>x (s, b). Q x s \<and> R b) (\<lambda>e (s, b). E e s)"
  unfolding triple_def beside_def by (fastforce split: prod.splits sum.splits)

definition offers_only_permutations ::
  "nat \<Rightarrow> ('s \<Rightarrow> bool) \<Rightarrow> ('e \<Rightarrow> 's \<Rightarrow> bool) \<Rightarrow> (nat list \<Rightarrow> ('s, 'e, bool) effect) \<Rightarrow> bool" where
  "offers_only_permutations n I E accept \<longleftrightarrow>
     (\<forall>p. mset p = mset [0..<n] \<longrightarrow> triple I (accept p) (\<lambda>_. I) E)"

lemma accept_triple:
  "offers_only_permutations n I E accept \<Longrightarrow> mset p = mset [0..<n] \<Longrightarrow> triple I (accept p) (\<lambda>_. I) E"
  by (simp add: offers_only_permutations_def)

lemma triple_modify: "(\<And>s. P s \<Longrightarrow> Q () (f s)) \<Longrightarrow> triple P (modify f) Q E"
  by (simp add: triple_def)

lemma region_probe_triple:
  assumes acc: "offers_only_permutations n I E accept" and cur: "mset current = mset [0..<n]"
  defines "J \<equiv> \<lambda>(s, best). I s \<and> (best = [] \<or> mset best = mset [0..<n])"
  shows "triple J (region_probe keys accept current i k) (\<lambda>ok. J) (\<lambda>e (s, b). E e s)"
proof (cases "length current < i + k \<or> sort_region keys current i k = current")
  case True
  then show ?thesis by (auto simp: region_probe_def Let_def triple_def)
next
  case False
  let ?a = "sort_region keys current i k"
  have perm: "mset ?a = mset [0..<n]" using False cur by (simp add: mset_sort_region)
  have "triple J (beside (accept ?a)) (\<lambda>x. J) (\<lambda>e (s, b). E e s)"
    using triple_beside [OF accept_triple [OF acc perm], of "\<lambda>b. b = [] \<or> mset b = mset [0..<n]"]
    by (simp add: J_def)
  moreover have "triple J (if x then ebind (modify (\<lambda>(s, best). (s, ?a))) (\<lambda>_. ret True) else ret False)
      (\<lambda>ok. J) (\<lambda>e (s, b). E e s)" for x
    using perm by (auto intro!: triple_intros triple_modify [where Q = "\<lambda>_. J"] simp: J_def)
  ultimately have "triple J (ebind (beside (accept ?a)) (\<lambda>accepted.
      if accepted then ebind (modify (\<lambda>(s, best). (s, ?a))) (\<lambda>_. ret True) else ret False))
      (\<lambda>ok. J) (\<lambda>e (s, b). E e s)"
    by (rule triple_ebind)
  then show ?thesis using False by (simp add: region_probe_def Let_def)
qed

lemma region_step_triple:
  assumes acc: "offers_only_permutations n I E accept" and cur: "mset current = mset [0..<n]"
  shows "triple I (region_step keys accept current i) (\<lambda>(c, k) s. I s \<and> mset c = mset [0..<n]) E"
proof -
  let ?J = "\<lambda>(s, best). I s \<and> (best = [] \<or> mset best = mset [0..<n])"
  have "triple ?J (region_probe keys accept current i k) (\<lambda>ok s. ?J s \<and> (ok \<longrightarrow> True)) (\<lambda>e (s, b). E e s)"
    for k using region_probe_triple [OF acc cur] by simp
  from find_integer_triple [OF this]
  have "triple ?J (find_integer (region_probe keys accept current i)) (\<lambda>v s. ?J s) (\<lambda>e (s, b). E e s)"
    by simp
  then show ?thesis
    using cur unfolding triple_def region_step_def
    by (fastforce split: prod.splits sum.splits)
qed

lemma regions_loop_triple:
  assumes acc: "offers_only_permutations n I E accept"
  shows "mset current = mset [0..<n] \<Longrightarrow>
    triple I (regions_loop keys accept len current i) (\<lambda>c s. I s \<and> mset c = mset [0..<n]) E"
proof (induction "len - i" arbitrary: current i rule: less_induct)
  case less
  show ?case
  proof (cases "i + 1 < len")
    case False
    then have "regions_loop keys accept len current i s = ret current s" for s
      by (subst regions_loop.simps) simp
    then show ?thesis using less.prems by (simp add: triple_def)
  next
    case True
    have eq: "regions_loop keys accept len current i
        = ebind (region_step keys accept current i) (\<lambda>(c, k). regions_loop keys accept len c (i + max k 1))"
      using True by (intro ext, subst regions_loop.simps) simp
    show ?thesis
      unfolding eq
    proof (rule triple_ebind [OF region_step_triple [OF acc less.prems]])
      fix r
      show "triple (case r of (c, k) \<Rightarrow> \<lambda>s. I s \<and> mset c = mset [0..<n])
          (case r of (c, k) \<Rightarrow> regions_loop keys accept len c (i + max k 1))
          (\<lambda>c s. I s \<and> mset c = mset [0..<n]) E"
      proof (cases r)
        case (Pair c k)
        show ?thesis
        proof (cases "mset c = mset [0..<n]")
          case True': True
          have "len - (i + max k 1) < len - i" using True by simp
          from less.hyps [OF this True'] show ?thesis unfolding Pair by (auto simp: triple_def)
        next
          case False
          then show ?thesis unfolding Pair by (simp add: triple_def)
        qed
      qed
    qed
  qed
qed

lemma try_sort_around_triple:
  assumes acc: "offers_only_permutations n I E accept" and cur: "mset current = mset [0..<n]"
    and "a \<le> c" "c < b" "b \<le> length current"
  shows "triple I (try_sort_around oi keys accept current a b c) (\<lambda>_. I) E"
proof -
  let ?sides = "sort_key keys (take (c - a) (drop a current)
      @ take (b - (c + 1)) (drop (c + 1) current))"
  let ?attempt = "take a current @ take (c - a) ?sides @ [current ! c] @ drop (c - a) ?sides @ drop b current"
  have "mset ?attempt = mset [0..<n]"
    using mset_sort_around [OF assms(3-5), of ?sides] cur by simp
  from accept_triple [OF acc this]
  have "triple I (if ?attempt = current then ret True else accept ?attempt) (\<lambda>_. I) E"
    by (auto simp: triple_def)
  moreover have "try_sort_around oi keys accept current a b c
      = (if ?attempt = current then ret True else accept ?attempt)"
    using assms(3-5) unfolding try_sort_around_def Let_def by (intro ext) simp
  ultimately show ?thesis by simp
qed

lemma gap_step_triple:
  assumes acc: "offers_only_permutations n I E accept" and cur: "mset current = mset [0..<n]"
    and i: "i + 1 < length current"
  shows "triple I (gap_step oi keys accept current i) (\<lambda>_. I) E"
proof -
  have "triple I (gap_right oi keys accept current i k)
      (\<lambda>ok s. I s \<and> (ok \<longrightarrow> i + 1 + k \<le> length current)) E" for k
  proof (cases "length current < i + 1 + k")
    case False
    then have "triple I (try_sort_around oi keys accept current i (i + 1 + k) i) (\<lambda>_. I) E"
      by (intro try_sort_around_triple [OF acc cur]) auto
    with False show ?thesis by (simp add: gap_right_def)
  qed (simp add: gap_right_def triple_def)
  from find_integer_triple [OF this]
  have right: "triple I (find_integer (gap_right oi keys accept current i))
      (\<lambda>r s. I s \<and> (r = 0 \<or> i + 1 + r \<le> length current)) E" .
  have "triple I (gap_left oi keys accept current i (i + 1 + r) k) (\<lambda>ok s. I s \<and> (ok \<longrightarrow> True)) E"
    if "r = 0 \<or> i + 1 + r \<le> length current" for r k
  proof (cases "i < k")
    case False
    then have "triple I (try_sort_around oi keys accept current (i - k) (i + 1 + r) i) (\<lambda>_. I) E"
      using that i by (intro try_sort_around_triple [OF acc cur]) auto
    with False show ?thesis by (simp add: gap_left_def)
  qed (simp add: gap_left_def triple_def)
  from find_integer_triple [OF this]
  have left: "triple I (find_integer (gap_left oi keys accept current i (i + 1 + r))) (\<lambda>_. I) E"
    if "r = 0 \<or> i + 1 + r \<le> length current" for r
    using that by simp
  have "triple (\<lambda>s. I s \<and> (r = 0 \<or> i + 1 + r \<le> length current))
      (ebind (find_integer (gap_left oi keys accept current i (i + 1 + r))) (\<lambda>_. ret ())) (\<lambda>_. I) E" for r
  proof (cases "r = 0 \<or> i + 1 + r \<le> length current")
    case True
    have "triple I (ebind (find_integer (gap_left oi keys accept current i (i + 1 + r))) (\<lambda>_. ret ())) (\<lambda>_. I) E"
      by (rule triple_ebind [OF left [OF True]]) (simp add: triple_def)
    then show ?thesis by (auto simp: triple_def)
  next
    case False
    then show ?thesis by (simp add: triple_def)
  qed
  from triple_ebind [OF right this]
  show ?thesis by (auto simp: gap_step_def triple_def)
qed

lemma gaps_loop_triple:
  assumes acc: "offers_only_permutations n I E accept" and cur: "mset current = mset [0..<n]"
  shows "list_all (\<lambda>i. i + 1 < length current) is \<Longrightarrow>
    triple I (gaps_loop oi keys accept current is) (\<lambda>_. I) E"
proof (induction "is")
  case (Cons i "is")
  have "triple I (gap_step oi keys accept current i) (\<lambda>_. I) E"
    by (rule gap_step_triple [OF acc cur]) (use Cons.prems in simp)
  moreover have "triple I (gaps_loop oi keys accept current is) (\<lambda>_. I) E" using Cons by simp
  ultimately show ?case unfolding gaps_loop.simps by (rule triple_ebind)
qed (simp add: triple_def)

lemma regions_and_gaps_triple:
  assumes acc: "offers_only_permutations n I E accept" and cur: "mset current = mset [0..<n]"
  shows "triple I (regions_and_gaps oi keys accept current) (\<lambda>_. I) E"
  unfolding regions_and_gaps_def Let_def
proof (rule triple_ebind [OF regions_loop_triple [OF acc cur]])
  fix c
  show "triple (\<lambda>s. I s \<and> mset c = mset [0..<n])
      (if length c < 3 then ret () else gaps_loop oi keys accept c [1..<length c - 1]) (\<lambda>_. I) E"
  proof (cases "mset c = mset [0..<n]")
    case True
    have "triple I (gaps_loop oi keys accept c [1..<length c - 1]) (\<lambda>_. I) E"
      by (rule gaps_loop_triple [OF acc True]) (auto simp: list_all_iff)
    then show ?thesis by (auto simp: triple_def)
  qed (simp add: triple_def)
qed

lemma shrink_ordering_triple:
  fixes keys :: "nat \<Rightarrow> 'k :: linorder"
  assumes "offers_only_permutations n I E accept"
  shows "triple I (shrink_ordering oi n keys accept) (\<lambda>_. I) E"
proof -
  have rest: "triple I (regions_and_gaps oi keys accept [0..<n]) (\<lambda>_. I) E"
    by (rule regions_and_gaps_triple [OF assms(1)]) simp
  have "triple I (accept (sort_key keys [0..<n])) (\<lambda>_. I) E"
    by (rule accept_triple [OF assms(1)]) simp
  moreover have "triple I (if accepted then ret () else regions_and_gaps oi keys accept [0..<n]) (\<lambda>_. I) E"
    for accepted using rest by (auto simp: triple_def)
  ultimately have "triple I (ebind (accept (sort_key keys [0..<n])) (\<lambda>accepted.
      if accepted then ret () else regions_and_gaps oi keys accept [0..<n])) (\<lambda>_. I) E"
    by (rule triple_ebind)
  with rest show ?thesis
    by (simp add: shrink_ordering_def Let_def triple_ret)
qed


text \<open>A judge that logs what it is offered and rejects everything.\<close>

definition logging_judge :: "nat list \<Rightarrow> (nat list list, internal_error, bool) effect" where
  "logging_judge p = ebind (modify (\<lambda>log. p # log)) (\<lambda>_. ret False)"


end
