(* ===== verification/Shrinker.thy ===== *)
theory Shrinker
  imports ChoiceFacts Search
begin

text \<open>
  The core of \<open>hegel-c/src/native/shrinker/mod.rs\<close>: the shrinker's state, its single execution
  choke point, and the operations every pass is built from (\<open>consider\<close>, \<open>probe\<close>,
  \<open>replace\<close>, \<open>accept_improvement\<close> and the change tracking). The test function and the
  clock are parameters acting on an environment \<open>'env\<close>; a halt keeps the state reached.
\<close>

section \<open>State and halts\<close>

datatype run_error =
    HealthCheck string
  | Flaky string
  | NonDeterministic string
  | Unsatisfiable string
  | UsageError string
  | RunInternal internal_error

datatype shrink_halt = Stop | HaltError run_error

datatype pass_exit = Halt shrink_halt | NodeGone

datatype shrink_run = FullRun "choice_node list" | ProbeRun "choice_value list" nat

definition halt_of_internal :: "internal_error \<Rightarrow> shrink_halt" where
  "halt_of_internal e = HaltError (RunInternal e)"

fun absorb_node_gone :: "pass_exit + 'a \<Rightarrow> shrink_halt + unit" where
  "absorb_node_gone (Inl (Halt h)) = Inl h"
| "absorb_node_gone (Inl NodeGone) = Inr ()"
| "absorb_node_gone (Inr x) = Inr ()"

fun absorb_stop :: "shrink_halt + 'a \<Rightarrow> run_error + unit" where
  "absorb_stop (Inl (HaltError e)) = Inl e"
| "absorb_stop (Inl Stop) = Inr ()"
| "absorb_stop (Inr x) = Inr ()"

definition MAX_SHRINKS :: nat where
  "MAX_SHRINKS = 500"

record 'env shrinker =
  sh_env :: 'env
  current_nodes :: "choice_node list"
  current_spans :: "span list"
  improvements :: nat
  downgraded :: "choice_value list list"
  max_improvements :: nat
  calls :: nat
  calls_at_last_shrink :: nat
  max_stall :: nat
  last_checkpoint_nodes :: "choice_node list"
  all_changed_nodes :: "nat set"
  deadline :: "nat option"
  timed_out :: bool

text \<open>What the shrinker is given: the probe and the clock.\<close>

record 'env shrink_world =
  test_fn :: "shrink_run \<Rightarrow> ('env, shrink_halt, bool \<times> choice_node list \<times> span list) effect"
  now :: "'env \<Rightarrow> nat option \<times> 'env"

type_synonym ('env, 'a) shrink_op = "('env shrinker, shrink_halt, 'a) effect"

definition with_probe :: "'env \<Rightarrow> choice_node list \<Rightarrow> span list \<Rightarrow> 'env shrinker" where
  "with_probe env initial_nodes initial_spans =
     \<lparr>sh_env = env, current_nodes = initial_nodes, current_spans = initial_spans,
      improvements = 0, downgraded = [], max_improvements = MAX_SHRINKS, calls = 0,
      calls_at_last_shrink = 0, max_stall = MAX_SHRINKS, last_checkpoint_nodes = initial_nodes,
      all_changed_nodes = {}, deadline = None, timed_out = False\<rparr>"

section \<open>Executing the test function\<close>

definition past_deadline :: "'env shrink_world \<Rightarrow> ('env, bool) shrink_op" where
  "past_deadline W s =
     (if timed_out s then (Inr True, s)
      else case deadline s of
             None \<Rightarrow> (Inr False, s)
           | Some d \<Rightarrow>
               (case now W (sh_env s) of
                  (t, env') \<Rightarrow>
                    let s = s\<lparr>sh_env := env'\<rparr>
                    in case t of
                         Some t \<Rightarrow> if d \<le> t then (Inr True, s\<lparr>timed_out := True\<rparr>) else (Inr False, s)
                       | None \<Rightarrow> (Inr False, s)))"

definition call_test_fn ::
  "'env shrink_world \<Rightarrow> shrink_run \<Rightarrow> ('env, bool \<times> choice_node list \<times> span list) shrink_op" where
  "call_test_fn W run s = (case test_fn W run (sh_env s) of (r, env') \<Rightarrow> (r, s\<lparr>sh_env := env'\<rparr>))"

definition run_test_fn ::
  "'env shrink_world \<Rightarrow> shrink_run \<Rightarrow> ('env, bool \<times> choice_node list \<times> span list) shrink_op" where
  "run_test_fn W run =
     ebind (past_deadline W) (\<lambda>past. if past then throw Stop else call_test_fn W run)"

section \<open>Accepting an improvement\<close>

definition same_variant :: "choice_data \<Rightarrow> choice_data \<Rightarrow> bool" where
  "same_variant a b =
     (case (a, b) of
        (DInteger _ _, DInteger _ _) \<Rightarrow> True
      | (DBoolean _ _, DBoolean _ _) \<Rightarrow> True
      | (DFloat _ _, DFloat _ _) \<Rightarrow> True
      | (DBytes _ _, DBytes _ _) \<Rightarrow> True
      | (DString _ _, DString _ _) \<Rightarrow> True
      | (DClone _, DClone _) \<Rightarrow> True
      | _ \<Rightarrow> False)"

definition node_ref :: "choice_node \<Rightarrow> choice_value_ref" where
  "node_ref n = data_value_ref (node_data n)"

definition update_change_tracking ::
  "choice_node list \<Rightarrow> choice_node list \<Rightarrow> nat set \<Rightarrow> nat set" where
  "update_change_tracking prev new_nodes changed =
     (let shape_preserved = length prev = length new_nodes
            \<and> list_all (\<lambda>(a, b). same_variant (node_data a) (node_data b)) (zip prev new_nodes)
      in if \<not> shape_preserved then {}
         else changed \<union> set (filter (\<lambda>i. \<not> ref_eq (node_ref (prev ! i)) (node_ref (new_nodes ! i)))
                                [0..<length prev]))"

definition accept_improvement ::
  "choice_node list \<Rightarrow> span list \<Rightarrow> 'env shrinker \<Rightarrow> 'env shrinker" where
  "accept_improvement new_nodes new_spans s =
     (let old = map node_value (current_nodes s);
          span = calls s - calls_at_last_shrink s;
          grown = min (span * 2) USIZE_MAX
      in s\<lparr>downgraded := downgraded s @ [old],
            improvements := improvements s + 1,
            max_stall := (if max_stall s < grown then grown else max_stall s),
            calls_at_last_shrink := calls s,
            all_changed_nodes :=
              update_change_tracking (last_checkpoint_nodes s) new_nodes (all_changed_nodes s),
            current_nodes := new_nodes,
            current_spans := new_spans\<rparr>)"

definition clear_change_tracking :: "'env shrinker \<Rightarrow> 'env shrinker" where
  "clear_change_tracking s =
     s\<lparr>all_changed_nodes := {}, last_checkpoint_nodes := current_nodes s\<rparr>"

section \<open>Considering a candidate\<close>

definition compare_nodes ::
  "choice_node list \<Rightarrow> choice_node list \<Rightarrow> ('env, ordering) shrink_op" where
  "compare_nodes a b = lift_result halt_of_internal (nodes_sort_key_cmp a b)"

definition changes_forced :: "choice_node list \<Rightarrow> choice_node list \<Rightarrow> bool" where
  "changes_forced candidates current \<longleftrightarrow>
     \<not> list_all (\<lambda>(candidate, cur). \<not> (was_forced cur \<and> \<not> ref_eq (node_ref candidate) (node_ref cur)))
         (zip candidates current)"

definition stalled :: "'env shrinker \<Rightarrow> bool" where
  "stalled s \<longleftrightarrow> 0 < improvements s \<and> max_stall s \<le> calls s - calls_at_last_shrink s"

text \<open>The part of \<open>consider\<close> and \<open>probe\<close> after their early returns.\<close>

definition run_and_adopt :: "'env shrink_world \<Rightarrow> shrink_run \<Rightarrow> ('env, bool) shrink_op" where
  "run_and_adopt W run =
     ebind (run_test_fn W run) (\<lambda>(is_interesting, actual_nodes, actual_spans).
     ebind (modify (\<lambda>s. s\<lparr>calls := calls s + 1\<rparr>)) (\<lambda>_.
     if \<not> is_interesting then ret False
     else ebind get_state (\<lambda>s.
          ebind (compare_nodes actual_nodes (current_nodes s)) (\<lambda>ord.
          if ord = Less
          then ebind (modify (accept_improvement actual_nodes actual_spans)) (\<lambda>_. ret True)
          else ret False))))"

definition consider_nodes :: "'env shrink_world \<Rightarrow> choice_node list \<Rightarrow> ('env, bool) shrink_op" where
  "consider_nodes W nodes =
     ebind get_state (\<lambda>s.
     ebind (compare_nodes nodes (current_nodes s)) (\<lambda>ord.
     if ord = Equal then ret True
     else
       let cmp = (if length (current_nodes s) < length nodes
                  then take (length (current_nodes s)) nodes else nodes)
       in ebind (compare_nodes (current_nodes s) cmp) (\<lambda>ord.
          if ord = Less then ret False
          else if length nodes = length (current_nodes s) \<and> changes_forced nodes (current_nodes s)
          then ret False
          else if max_improvements s \<le> improvements s then throw Stop
          else if stalled s then ret False
          else run_and_adopt W (FullRun nodes))))"

definition probe :: "'env shrink_world \<Rightarrow> choice_value list \<Rightarrow> nat \<Rightarrow> ('env, unit) shrink_op" where
  "probe W prefix_values max_size =
     ebind get_state (\<lambda>s.
     if max_improvements s \<le> improvements s then throw Stop
     else if stalled s then ret ()
     else ebind (run_and_adopt W (ProbeRun prefix_values max_size)) (\<lambda>_. ret ()))"

text \<open>\<open>replace\<close> iterates over a map; \<open>values\<close> lists its entries in iteration order.\<close>

fun apply_replacements ::
  "(nat \<times> choice_value) list \<Rightarrow> choice_node list \<Rightarrow> choice_node list option" where
  "apply_replacements [] attempt = Some attempt"
| "apply_replacements ((i, v) # values) attempt =
     (if length attempt \<le> i then None
      else if was_forced (attempt ! i) then None
      else case node_with_value (attempt ! i) v of
             None \<Rightarrow> None
           | Some replaced \<Rightarrow> apply_replacements values (attempt[i := replaced]))"

definition replace :: "'env shrink_world \<Rightarrow> (nat \<times> choice_value) list \<Rightarrow> ('env, bool) shrink_op" where
  "replace W values =
     ebind get_state (\<lambda>s.
     case apply_replacements values (current_nodes s) of
       None \<Rightarrow> ret False
     | Some attempt \<Rightarrow> consider_nodes W attempt)"

section \<open>Progress\<close>

text \<open>
  What one operation may do to the target: nothing, or one strict improvement with its
  bookkeeping. \<open>W\<close> is trusted to return validated nodes (they come from an execution).
\<close>

definition world_ok :: "'env shrink_world \<Rightarrow> bool" where
  "world_ok W \<longleftrightarrow> (\<forall>run env i nodes spans env'.
     test_fn W run env = (Inr (i, nodes, spans), env') \<longrightarrow> list_all node_valid nodes)"

definition shrinker_ok :: "'env shrinker \<Rightarrow> bool" where
  "shrinker_ok s \<longleftrightarrow> list_all node_valid (current_nodes s) \<and> improvements s \<le> max_improvements s
     \<and> length (downgraded s) = improvements s"

definition unchanged :: "'env shrinker \<Rightarrow> 'env shrinker \<Rightarrow> bool" where
  "unchanged s s' \<longleftrightarrow> current_nodes s' = current_nodes s \<and> current_spans s' = current_spans s
     \<and> improvements s' = improvements s \<and> downgraded s' = downgraded s
     \<and> max_improvements s' = max_improvements s
     \<and> last_checkpoint_nodes s' = last_checkpoint_nodes s
     \<and> all_changed_nodes s' = all_changed_nodes s \<and> deadline s' = deadline s"

definition improved :: "'env shrinker \<Rightarrow> 'env shrinker \<Rightarrow> bool" where
  "improved s s' \<longleftrightarrow> (current_nodes s', current_nodes s) \<in> shrinks_to
     \<and> improvements s' = improvements s + 1
     \<and> downgraded s' = downgraded s @ [map node_value (current_nodes s)]
     \<and> max_improvements s' = max_improvements s \<and> deadline s' = deadline s"

lemma unchanged_refl [simp]: "unchanged s s"
  by (simp add: unchanged_def)

lemma past_deadline_cases:
  obtains b t where "past_deadline W s = (Inr b, t)" "unchanged s t" "b \<Longrightarrow> timed_out t"
    "timed_out s \<Longrightarrow> b \<and> t = s"
proof (cases "timed_out s")
  case True
  then show thesis using that [of True s] by (simp add: past_deadline_def)
next
  case False
  show thesis
  proof (cases "deadline s")
    case None
    then show thesis using that [of False s] False by (simp add: past_deadline_def)
  next
    case (Some d)
    obtain t env' where t: "now W (sh_env s) = (t, env')" by fastforce
    let ?s = "s\<lparr>sh_env := env'\<rparr>"
    show thesis
    proof (cases "\<exists>m. t = Some m \<and> d \<le> m")
      case True
      then have "past_deadline W s = (Inr True, ?s\<lparr>timed_out := True\<rparr>)"
        using False Some t by (auto simp: past_deadline_def)
      then show thesis by (rule that) (simp_all add: unchanged_def False)
    next
      case late: False
      then have "past_deadline W s = (Inr False, ?s)"
        using False Some t by (cases t) (auto simp: past_deadline_def)
      then show thesis by (rule that) (simp_all add: unchanged_def False)
    qed
  qed
qed

lemma run_test_fn_result:
  assumes "run_test_fn W run s = (r, s')"
  shows "unchanged s s'"
    and "world_ok W \<Longrightarrow> r = Inr (i, nodes, spans) \<Longrightarrow> list_all node_valid nodes"
proof -
  obtain b t where past: "past_deadline W s = (Inr b, t)" and t: "unchanged s t"
    by (rule past_deadline_cases)
  have eq: "run_test_fn W run s = (if b then throw Stop else call_test_fn W run) t"
    by (simp add: run_test_fn_def past)
  have "unchanged s s' \<and> (world_ok W \<longrightarrow> r = Inr (i, nodes, spans) \<longrightarrow> list_all node_valid nodes)"
  proof (cases b)
    case True
    then show ?thesis using assms eq t by auto
  next
    case False
    obtain r' env' where tf: "test_fn W run (sh_env t) = (r', env')" by fastforce
    then have "r = r'" "s' = t\<lparr>sh_env := env'\<rparr>"
      using assms eq False by (simp_all add: call_test_fn_def)
    moreover have "unchanged s (t\<lparr>sh_env := env'\<rparr>)" using t by (simp add: unchanged_def)
    moreover have "world_ok W \<longrightarrow> r' = Inr (i, nodes, spans) \<longrightarrow> list_all node_valid nodes"
      using tf unfolding world_ok_def by blast
    ultimately show ?thesis by simp
  qed
  then show "unchanged s s'"
    "world_ok W \<Longrightarrow> r = Inr (i, nodes, spans) \<Longrightarrow> list_all node_valid nodes" by auto
qed

lemma compare_nodes_ok:
  "list_all node_valid a \<Longrightarrow> list_all node_valid b \<Longrightarrow>
     compare_nodes a b s = (Inr (cmp (nodes_tokens a) (nodes_tokens b)), s)"
  by (simp add: compare_nodes_def nodes_sort_key_cmp_eq)

lemma unchanged_trans: "unchanged s t \<Longrightarrow> unchanged t u \<Longrightarrow> unchanged s u"
  by (simp add: unchanged_def)

lemma unchanged_improved: "unchanged s t \<Longrightarrow> improved t u \<Longrightarrow> improved s u"
  by (simp add: unchanged_def improved_def)

lemma accept_improves:
  assumes "list_all node_valid (current_nodes s)" "list_all node_valid nodes"
    and "nodes_tokens nodes < nodes_tokens (current_nodes s)"
  shows "improved s (accept_improvement nodes spans s)"
    and "current_nodes (accept_improvement nodes spans s) = nodes"
  using assms
  by (simp_all add: improved_def accept_improvement_def Let_def shrinks_to_def nodes_sort_key_cmp_eq)

lemma run_and_adopt_result:
  assumes W: "world_ok W" and valid: "list_all node_valid (current_nodes s)"
    and run: "run_and_adopt W run s = (r, s')"
  shows "(r \<noteq> Inr True \<and> unchanged s s') \<or> (r = Inr True \<and> improved s s')"
proof -
  obtain r' t where tf: "run_test_fn W run s = (r', t)" by fastforce
  note t = run_test_fn_result(1) [OF tf]
  show ?thesis
  proof (cases r')
    case (Inl h)
    then have "r = Inl h" "s' = t" using run tf by (simp_all add: run_and_adopt_def)
    then show ?thesis using t by simp
  next
    case (Inr x)
    obtain i nodes spans where x: "x = (i, nodes, spans)" by (cases x)
    have nodes: "list_all node_valid nodes"
      by (rule run_test_fn_result(2) [OF tf W]) (simp add: Inr x)
    define u where "u = t\<lparr>calls := calls t + 1\<rparr>"
    have count: "modify (\<lambda>s. s\<lparr>calls := calls s + 1\<rparr>) t = (Inr (), u)" by (simp add: u_def)
    have cur: "current_nodes u = current_nodes s" using t by (simp add: unchanged_def u_def)
    have ut: "unchanged s u" using t by (simp add: unchanged_def u_def)
    have cmp: "compare_nodes nodes (current_nodes s) u
        = (Inr (cmp (nodes_tokens nodes) (nodes_tokens (current_nodes s))), u)"
      by (rule compare_nodes_ok [OF nodes valid])
    have adopt: "run_and_adopt W run s = (if \<not> i then ret False
          else ebind get_state (\<lambda>s.
          ebind (compare_nodes nodes (current_nodes s)) (\<lambda>ord.
          if ord = Less
          then ebind (modify (accept_improvement nodes spans)) (\<lambda>_. ret True)
          else ret False))) u"
      unfolding run_and_adopt_def by (simp only: prod.case
          ebind_simps(2) [where m = "run_test_fn W run" and s = s, OF tf [unfolded Inr x]]
          ebind_simps(2) [where m = "modify (\<lambda>s. s\<lparr>calls := calls s + 1\<rparr>)" and s = t, OF count])
    have eq: "(r, s') = (if \<not> i then (Inr False, u)
        else if nodes_tokens nodes < nodes_tokens (current_nodes s)
          then (Inr True, accept_improvement nodes spans u) else (Inr False, u))"
      using run unfolding adopt
      by (cases i; cases "nodes_tokens nodes < nodes_tokens (current_nodes s)") (simp_all add: cur cmp)
    show ?thesis
    proof (cases "i \<and> nodes_tokens nodes < nodes_tokens (current_nodes s)")
      case True
      then have "improved u (accept_improvement nodes spans u)"
        using valid nodes cur by (intro accept_improves) simp_all
      with True eq show ?thesis using unchanged_improved [OF ut] by simp
    next
      case False
      then show ?thesis using eq ut by (auto split: if_splits)
    qed
  qed
qed

lemma consider_cases:
  assumes W: "world_ok W" and valid: "list_all node_valid (current_nodes s)" "list_all node_valid nodes"
  defines "t \<equiv> nodes_tokens nodes" and "u \<equiv> nodes_tokens (current_nodes s)"
  defines "c \<equiv> nodes_tokens (if length (current_nodes s) < length nodes
                             then take (length (current_nodes s)) nodes else nodes)"
  shows "consider_nodes W nodes s =
     (if t = u then (Inr True, s)
      else if u < c then (Inr False, s)
      else if length nodes = length (current_nodes s) \<and> changes_forced nodes (current_nodes s)
        then (Inr False, s)
      else if max_improvements s \<le> improvements s then (Inl Stop, s)
      else if stalled s then (Inr False, s)
      else run_and_adopt W (FullRun nodes) s)"
proof -
  let ?cmp = "if length (current_nodes s) < length nodes
              then take (length (current_nodes s)) nodes else nodes"
  have vc: "list_all node_valid ?cmp" using valid(2) by (auto simp: list_all_iff dest: in_set_takeD)
  have 1: "compare_nodes nodes (current_nodes s) s = (Inr (cmp t u), s)"
    unfolding t_def u_def by (rule compare_nodes_ok [OF valid(2,1)])
  have 2: "compare_nodes (current_nodes s) ?cmp s = (Inr (cmp u c), s)"
    unfolding c_def u_def by (rule compare_nodes_ok [OF valid(1) vc])
  show ?thesis
  proof (cases "t = u")
    case True
    then show ?thesis by (simp add: consider_nodes_def 1)
  next
    case False
    have step: "consider_nodes W nodes s
        = (if u < c then ret False
          else if length nodes = length (current_nodes s) \<and> changes_forced nodes (current_nodes s)
          then ret False
          else if max_improvements s \<le> improvements s then throw Stop
          else if stalled s then ret False
          else run_and_adopt W (FullRun nodes)) s"
      unfolding consider_nodes_def using False by (simp add: 1 Let_def 2)
    show ?thesis unfolding step using False by simp
  qed
qed

lemma consider_result:
  assumes "world_ok W" "list_all node_valid (current_nodes s)" "list_all node_valid nodes"
    and "consider_nodes W nodes s = (r, s')"
  shows "unchanged s s' \<and> (r = Inr True \<longrightarrow> nodes_sort_key_cmp nodes (current_nodes s) = Inr Equal)
       \<or> r = Inr True \<and> improved s s' \<and> improvements s < max_improvements s"
  using assms(4) run_and_adopt_result [OF assms(1,2), of "FullRun nodes" r s']
  unfolding consider_cases [OF assms(1-3)]
  by (auto simp: nodes_sort_key_cmp_eq assms split: if_splits)

lemma improved_ok:
  assumes "shrinker_ok s" "improved s s'" "improvements s < max_improvements s"
  shows "shrinker_ok s'"
  using assms by (simp add: shrinker_ok_def improved_def shrinks_to_def)

lemma unchanged_ok: "shrinker_ok s \<Longrightarrow> unchanged s s' \<Longrightarrow> shrinker_ok s'"
  by (simp add: shrinker_ok_def unchanged_def)

lemma apply_replacements_valid:
  assumes "list_all node_valid ns" "list_all (\<lambda>(i, v). value_valid v) values"
    and "apply_replacements values ns = Some ms"
  shows "list_all node_valid ms \<and> length ms = length ns
     \<and> (\<forall>i < length ns. was_forced (ms ! i) = was_forced (ns ! i)
          \<and> node_kind (ms ! i) = node_kind (ns ! i)
          \<and> (was_forced (ns ! i) \<longrightarrow> ms ! i = ns ! i))"
  using assms
proof (induction "values" ns rule: apply_replacements.induct)
  case (2 i v vs ns)
  then obtain n where i: "i < length ns" "\<not> was_forced (ns ! i)"
    and n: "node_with_value (ns ! i) v = Some n" and rest: "apply_replacements vs (ns[i := n]) = Some ms"
    by (auto split: if_splits option.splits)
  obtain d where d: "data_with_value (node_data (ns ! i)) v = Some d" "n = ChoiceNode d (was_forced (ns ! i))"
    using n by (auto simp: node_with_value_def)
  have vi: "node_valid (ns ! i)" using 2(2) i(1) by (simp add: list_all_length)
  have nv: "node_valid n"
    using data_with_value_Some(3) [OF d(1)] vi 2(3) d(2) by simp
  have kind: "node_kind n = node_kind (ns ! i)"
    using data_with_value_Some(1) [OF d(1)] d(2) by (simp add: node_kind_def)
  have forced: "was_forced n = was_forced (ns ! i)" by (simp add: d(2))
  have "list_all node_valid (ns[i := n])"
    using 2(2) nv by (auto simp: list_all_iff dest: subsetD [OF set_update_subset_insert])
  from "2.IH" [OF _ _ n this _ rest] i 2(3)
  have IH: "list_all node_valid ms" "length ms = length ns"
    "\<And>j. j < length ns \<Longrightarrow> was_forced (ms ! j) = was_forced (ns[i := n] ! j)
        \<and> node_kind (ms ! j) = node_kind (ns[i := n] ! j)
        \<and> (was_forced (ns[i := n] ! j) \<longrightarrow> ms ! j = ns[i := n] ! j)" by auto
  show ?case
    using IH kind forced i by (auto simp: nth_list_update split: if_splits)
qed simp

lemma replace_result:
  assumes "world_ok W" "shrinker_ok s" "list_all (\<lambda>(i, v). value_valid v) values"
    and "replace W values s = (r, s')"
  shows "shrinker_ok s' \<and> (unchanged s s' \<or> improved s s')"
proof (cases "apply_replacements values (current_nodes s)")
  case None
  then show ?thesis using assms(2,4) by (auto simp: replace_def)
next
  case (Some attempt)
  have cur: "list_all node_valid (current_nodes s)" using assms(2) by (simp add: shrinker_ok_def)
  have att: "list_all node_valid attempt"
    using apply_replacements_valid [OF cur assms(3) Some] by blast
  have "consider_nodes W attempt s = (r, s')" using assms(4) Some by (simp add: replace_def)
  from consider_result [OF assms(1) cur att this] assms(2)
  show ?thesis using unchanged_ok improved_ok by blast
qed

lemma probe_result:
  assumes "world_ok W" "shrinker_ok s" "probe W values max_size s = (r, s')"
  shows "shrinker_ok s' \<and> (unchanged s s' \<or> improved s s')"
proof (cases "improvements s < max_improvements s \<and> \<not> stalled s")
  case False
  then have "s' = s" using assms(3) by (auto simp: probe_def split: if_splits)
  then show ?thesis using assms(2) by simp
next
  case True
  obtain r' t where run: "run_and_adopt W (ProbeRun values max_size) s = (r', t)" by fastforce
  then have "s' = t" using assms(3) True by (cases r') (auto simp: probe_def)
  moreover have "list_all node_valid (current_nodes s)" using assms(2) by (simp add: shrinker_ok_def)
  ultimately show ?thesis
    using run_and_adopt_result [OF assms(1) _ run] True unchanged_ok [OF assms(2)] improved_ok [OF assms(2)]
    by blast
qed

section \<open>Properties\<close>


text \<open>A test function that finds every candidate interesting, and a clock that never advances.\<close>

definition sample_world :: "unit shrink_world" where
  "sample_world = \<lparr>test_fn = (\<lambda>run env. case run of
       FullRun nodes \<Rightarrow> (Inr (list_all node_valid nodes, if list_all node_valid nodes then nodes else [], []), env)
     | ProbeRun _ _ \<Rightarrow> (Inr (False, [], []), env)),
     now = (\<lambda>env. (None, env))\<rparr>"

lemma sample_world_ok: "world_ok sample_world"
  by (auto simp: world_ok_def sample_world_def split: shrink_run.splits)

definition sample_target :: "choice_node list" where
  "sample_target = [ChoiceNode (DInteger sample_integer 4) False]"

lemma sample_target_valid: "list_all node_valid sample_target"
  by (simp add: sample_target_def sample_integer_def integer_wf_def integer_validate_def)




end
