(* ===== verification/ExecCache.thy ===== *)
theory ExecCache
  imports Database
begin

text \<open>
  \<open>hegel-c/src/native/exec_cache.rs\<close>: the two-tier execution cache with its byte-bounded
  full tier, and the choice-kind ledger. A \<open>HashMap\<close> is a partial map, except for the
  ledger's, whose number of entries the source reads: it is an association list. The sizes of
  the entry types (\<open>size_of\<close>) are a parameter. \<open>usize\<close> subtractions are checked.
\<close>

section \<open>Digests\<close>

type_synonym digest = "128 word"

definition FNV_OFFSET :: digest where
  "FNV_OFFSET = 0x6c62272e07bb014262b821756295c58d"

definition FNV_PRIME :: digest where
  "FNV_PRIME = 0x0000000001000000000000000000013b"

definition digest_update :: "digest \<Rightarrow> u8 list \<Rightarrow> digest" where
  "digest_update d bytes = foldl (\<lambda>d b. (d XOR ucast b) * FNV_PRIME) d bytes"

definition digest_of :: "u8 list \<Rightarrow> digest" where
  "digest_of bytes = digest_update FNV_OFFSET bytes"

lemma digest_update_append: "digest_update d (xs @ ys) = digest_update (digest_update d xs) ys"
  by (simp add: digest_update_def)

lemma digest_update_Nil [simp]: "digest_update d [] = d"
  by (simp add: digest_update_def)

section \<open>The cache\<close>

record verdict =
  vd_status :: status
  vd_origin :: "string option"

record cached_run =
  cached_status :: status
  cached_origin :: "string option"
  cached_nodes :: "choice_node list"
  cached_spans :: "span list"

record entry_sizes =
  size_of_node :: nat
  size_of_span :: nat
  size_of_run :: nat

record recorded =
  duplicate :: bool
  verdict_mismatch :: bool

record exec_cache =
  verdicts :: "digest \<rightharpoonup> verdict"
  full_tier :: "u8 list \<rightharpoonup> cached_run"
  full_order :: "u8 list list"
  full_bytes :: nat
  max_full_bytes :: "nat option"

definition FULL_TIER_MAX_BYTES :: nat where
  "FULL_TIER_MAX_BYTES = 8 * 2 ^ 20"

definition exec_cache_default :: exec_cache where
  "exec_cache_default = \<lparr>verdicts = Map.empty, full_tier = Map.empty, full_order = [],
     full_bytes = 0, max_full_bytes = None\<rparr>"

definition with_full_tier_bound :: "nat \<Rightarrow> exec_cache" where
  "with_full_tier_bound max_bytes = exec_cache_default\<lparr>max_full_bytes := Some max_bytes\<rparr>"

definition run_cost :: "entry_sizes \<Rightarrow> cached_run \<Rightarrow> nat \<Rightarrow> nat" where
  "run_cost S e key_len = key_len + length (cached_nodes e) * size_of_node S
     + length (cached_spans e) * size_of_span S + size_of_run S"

definition full_bound :: "exec_cache \<Rightarrow> nat" where
  "full_bound c = (case max_full_bytes c of Some m \<Rightarrow> m | None \<Rightarrow> FULL_TIER_MAX_BYTES)"

definition usize_sub :: "nat \<Rightarrow> nat \<Rightarrow> nat internal_result" where
  "usize_sub a b = (if b \<le> a then Inr (a - b) else Inl (Panicked ''attempt to subtract with overflow''))"

text \<open>The eviction loop of \<open>record\<close>, over the entry order from the oldest.\<close>

fun evict :: "entry_sizes \<Rightarrow> nat \<Rightarrow> (u8 list \<rightharpoonup> cached_run) \<Rightarrow> u8 list list \<Rightarrow> nat
    \<Rightarrow> ((u8 list \<rightharpoonup> cached_run) \<times> u8 list list \<times> nat) internal_result" where
  "evict S bound full [] bytes = Inr (full, [], bytes)"
| "evict S bound full (oldest # order) bytes =
     (if bound < bytes
      then case full oldest of
             Some evicted \<Rightarrow>
               rbind (usize_sub bytes (run_cost S evicted (length oldest)))
                 (\<lambda>bytes. evict S bound (full(oldest := None)) order bytes)
           | None \<Rightarrow> evict S bound full order bytes
      else Inr (full, oldest # order, bytes))"

definition record_verdict ::
  "exec_cache \<Rightarrow> digest \<Rightarrow> status \<Rightarrow> string option \<Rightarrow> recorded \<times> exec_cache" where
  "record_verdict c d st origin =
     (case verdicts c d of
        Some v \<Rightarrow> (\<lparr>duplicate = True,
                    verdict_mismatch = (vd_status v \<noteq> st \<or> vd_origin v \<noteq> origin)\<rparr>, c)
      | None \<Rightarrow> (\<lparr>duplicate = False, verdict_mismatch = False\<rparr>,
                  c\<lparr>verdicts := (verdicts c)(d \<mapsto> \<lparr>vd_status = st, vd_origin = origin\<rparr>)\<rparr>))"

definition cache_record ::
  "entry_sizes \<Rightarrow> exec_cache \<Rightarrow> u8 list \<Rightarrow> status \<Rightarrow> string option \<Rightarrow> choice_node list \<Rightarrow> span list
   \<Rightarrow> bool \<Rightarrow> (recorded \<times> exec_cache) internal_result" where
  "cache_record S c key st origin nodes spans keep_full =
     (case record_verdict c (digest_of key) st origin of
        (rec, c) \<Rightarrow>
          if keep_full \<and> \<not> verdict_mismatch rec \<and> full_tier c key = None
          then
            let entry = \<lparr>cached_status = st, cached_origin = origin, cached_nodes = nodes,
                         cached_spans = spans\<rparr>
            in rbind (evict S (full_bound c) ((full_tier c)(key \<mapsto> entry)) (full_order c @ [key])
                        (full_bytes c + run_cost S entry (length key)))
                 (\<lambda>(full, order, bytes).
                    Inr (rec, c\<lparr>full_tier := full, full_order := order, full_bytes := bytes\<rparr>))
          else Inr (rec, c))"

definition serve :: "exec_cache \<Rightarrow> u8 list \<Rightarrow> cached_run option" where
  "serve c key = full_tier c key"

definition cache_clear :: "exec_cache \<Rightarrow> exec_cache" where
  "cache_clear c =
     c\<lparr>verdicts := Map.empty, full_tier := Map.empty, full_order := [], full_bytes := 0\<rparr>"

section \<open>The invariant\<close>

definition tier_bytes :: "entry_sizes \<Rightarrow> (u8 list \<rightharpoonup> cached_run) \<Rightarrow> u8 list list \<Rightarrow> nat" where
  "tier_bytes S full order = sum_list (map (\<lambda>k. run_cost S (the (full k)) (length k)) order)"

definition tier_ok :: "entry_sizes \<Rightarrow> (u8 list \<rightharpoonup> cached_run) \<Rightarrow> u8 list list \<Rightarrow> nat \<Rightarrow> bool" where
  "tier_ok S full order bytes \<longleftrightarrow>
     distinct order \<and> set order = dom full \<and> bytes = tier_bytes S full order"

definition verdicts_ok :: "exec_cache \<Rightarrow> bool" where
  "verdicts_ok c \<longleftrightarrow> (\<forall>key e. full_tier c key = Some e \<longrightarrow>
     verdicts c (digest_of key) = Some \<lparr>vd_status = cached_status e, vd_origin = cached_origin e\<rparr>)"

definition cache_ok :: "entry_sizes \<Rightarrow> exec_cache \<Rightarrow> bool" where
  "cache_ok S c \<longleftrightarrow> tier_ok S (full_tier c) (full_order c) (full_bytes c)
     \<and> full_bytes c \<le> full_bound c \<and> verdicts_ok c"

lemma tier_bytes_Cons:
  "tier_bytes S full (k # order) = run_cost S (the (full k)) (length k) + tier_bytes S full order"
  by (simp add: tier_bytes_def)

lemma tier_bytes_snoc:
  "tier_bytes S full (order @ [k]) = tier_bytes S full order + run_cost S (the (full k)) (length k)"
  by (simp add: tier_bytes_def)

lemma tier_bytes_other: "k \<notin> set order \<Longrightarrow> tier_bytes S (full(k := x)) order = tier_bytes S full order"
  unfolding tier_bytes_def by (intro arg_cong [where f = sum_list] map_cong) auto

lemma tier_ok_push:
  assumes "tier_ok S full order bytes" and "full key = None"
  shows "tier_ok S (full(key \<mapsto> e)) (order @ [key]) (bytes + run_cost S e (length key))"
proof -
  have "key \<notin> set order" using assms by (auto simp: tier_ok_def)
  then show ?thesis using assms(1) by (auto simp: tier_ok_def tier_bytes_snoc tier_bytes_other)
qed

text \<open>
  Evicting from the oldest: what is left is a suffix of the order, its map a restriction of
  the old map to it, its bytes within the bound; and nothing is evicted beyond need.
\<close>

lemma evict_ok:
  assumes "tier_ok S full order bytes"
  obtains n bytes' where
    "evict S bound full order bytes = Inr (full |` set (drop n order), drop n order, bytes')"
    "tier_ok S (full |` set (drop n order)) (drop n order) bytes'" "bytes' \<le> bound"
    "n \<le> length order"
    "\<And>m. m < n \<Longrightarrow> bound < tier_bytes S full (drop m order)"
  using assms
proof (induction order arbitrary: full bytes thesis)
  case Nil
  then show ?case by (auto simp: tier_ok_def tier_bytes_def restrict_map_def)
next
  case (Cons k order)
  have k: "k \<notin> set order" "k \<in> dom full" and b: "bytes = tier_bytes S full (k # order)"
    and dom: "insert k (set order) = dom full" and d: "distinct order"
    using Cons.prems(2) by (auto simp: tier_ok_def)
  obtain e where e: "full k = Some e" using k(2) by blast
  have restrict: "full |` set (k # order) = full"
    using dom by (auto simp: restrict_map_def fun_eq_iff)
  show ?case
  proof (cases "bound < bytes")
    case False
    then show ?thesis
      using Cons.prems(1) [of 0 bytes] Cons.prems(2) restrict by simp
  next
    case True
    let ?full = "full(k := None)"
    have sub: "usize_sub bytes (run_cost S e (length k)) = Inr (tier_bytes S full order)"
      by (simp add: usize_sub_def b tier_bytes_Cons e)
    have "tier_ok S ?full order (tier_bytes S full order)"
      using k(1) dom d by (auto simp: tier_ok_def tier_bytes_other)
    then obtain n bytes' where n:
      "evict S bound ?full order (tier_bytes S full order)
         = Inr (?full |` set (drop n order), drop n order, bytes')"
      "tier_ok S (?full |` set (drop n order)) (drop n order) bytes'" "bytes' \<le> bound"
      "n \<le> length order" "\<And>m. m < n \<Longrightarrow> bound < tier_bytes S ?full (drop m order)"
      by (rule Cons.IH [rotated]) (rule that)
    have eq: "?full |` set (drop n order) = full |` set (drop n order)"
      using k(1) set_drop_subset [of n order] by (auto simp: restrict_map_def fun_eq_iff)
    have out: "bound < tier_bytes S full (drop m (k # order))" if m: "m < Suc n" for m
    proof (cases m)
      case 0
      then show ?thesis using True b by simp
    next
      case (Suc i)
      have "k \<notin> set (drop i order)" using k(1) set_drop_subset [of i order] by blast
      then show ?thesis using n(5) [of i] m Suc by (simp add: tier_bytes_other)
    qed
    have ev: "evict S bound full (k # order) bytes
        = Inr (full |` set (drop n order), drop n order, bytes')"
      using True e sub n(1) eq by simp
    show ?thesis
      by (rule Cons.prems(1) [of "Suc n" bytes'])
         (use ev n(2-4) eq out in \<open>simp_all del: drop_Suc_Cons add: drop_Suc\<close>)
  qed
qed

lemma cache_default_ok: "cache_ok S exec_cache_default" "cache_ok S (with_full_tier_bound b)"
  by (simp_all add: cache_ok_def exec_cache_default_def with_full_tier_bound_def tier_ok_def
      tier_bytes_def verdicts_ok_def)

lemma cache_clear_ok: "cache_ok S (cache_clear c)"
  by (simp add: cache_ok_def cache_clear_def tier_ok_def tier_bytes_def verdicts_ok_def)

lemma record_verdict_result:
  assumes "record_verdict c d st origin = (r, c')"
  shows "duplicate r \<longleftrightarrow> verdicts c d \<noteq> None"
    and "verdict_mismatch r \<longleftrightarrow>
      (\<exists>v. verdicts c d = Some v \<and> (vd_status v, vd_origin v) \<noteq> (st, origin))"
    and "verdicts c \<subseteq>\<^sub>m verdicts c'" and "verdicts c' d \<noteq> None"
    and "\<not> verdict_mismatch r \<Longrightarrow> verdicts c' d = Some \<lparr>vd_status = st, vd_origin = origin\<rparr>"
    and "\<exists>vs. c' = c\<lparr>verdicts := vs\<rparr>"
  using assms by (auto simp: record_verdict_def map_le_def split: option.splits)
    (metis exec_cache.surjective exec_cache.update_convs(1))+

lemma verdicts_ok_mono:
  "verdicts_ok c \<Longrightarrow> verdicts c \<subseteq>\<^sub>m verdicts c' \<Longrightarrow> full_tier c' \<subseteq>\<^sub>m full_tier c \<Longrightarrow> verdicts_ok c'"
  unfolding verdicts_ok_def map_le_def by (metis domIff option.distinct(1))

text \<open>
  Adding a full entry: the new entry is the youngest, so it survives whenever it fits the
  bound at all.
\<close>

lemma evict_new_entry:
  assumes ok: "tier_ok S full order bytes" and fresh: "full key = None"
  obtains full' order' bytes' where
    "evict S bound (full(key \<mapsto> e)) (order @ [key]) (bytes + run_cost S e (length key))
       = Inr (full', order', bytes')"
    "tier_ok S full' order' bytes'" "bytes' \<le> bound" "full' \<subseteq>\<^sub>m full(key \<mapsto> e)"
    "run_cost S e (length key) \<le> bound \<Longrightarrow> full' key = Some e"
proof -
  let ?full = "full(key \<mapsto> e)" and ?order = "order @ [key]"
  obtain n bytes' where n:
    "evict S bound ?full ?order (bytes + run_cost S e (length key))
       = Inr (?full |` set (drop n ?order), drop n ?order, bytes')"
    "tier_ok S (?full |` set (drop n ?order)) (drop n ?order) bytes'" "bytes' \<le> bound"
    "n \<le> length ?order" "\<And>m. m < n \<Longrightarrow> bound < tier_bytes S ?full (drop m ?order)"
    by (rule evict_ok [OF tier_ok_push [OF ok fresh]]) (rule that)
  have "n \<le> length order" if "run_cost S e (length key) \<le> bound"
    using n(5) [of "length order"] that by (cases "length order < n") (auto simp: tier_bytes_def)
  then have "(?full |` set (drop n ?order)) key = Some e" if "run_cost S e (length key) \<le> bound"
    using that by simp
  moreover have "?full |` set (drop n ?order) \<subseteq>\<^sub>m ?full"
    by (auto simp: map_le_def restrict_map_def split: if_splits)
  ultimately show thesis by (intro that [OF n(1-3)])
qed

lemma cache_record_result:
  fixes origin nodes spans st
  defines "e \<equiv> \<lparr>cached_status = st, cached_origin = origin, cached_nodes = nodes, cached_spans = spans\<rparr>"
  assumes ok: "cache_ok S c"
  obtains r c' where
    "cache_record S c key st origin nodes spans keep_full = Inr (r, c')" "cache_ok S c'"
    "duplicate r \<longleftrightarrow> verdicts c (digest_of key) \<noteq> None"
    "verdict_mismatch r \<longleftrightarrow>
       (\<exists>v. verdicts c (digest_of key) = Some v \<and> (vd_status v, vd_origin v) \<noteq> (st, origin))"
    "verdicts c \<subseteq>\<^sub>m verdicts c'" "verdicts c' (digest_of key) \<noteq> None"
    "full_tier c' \<subseteq>\<^sub>m (full_tier c)(key \<mapsto> e) \<or> full_tier c' = full_tier c"
    "keep_full \<Longrightarrow> \<not> verdict_mismatch r \<Longrightarrow> full_tier c key = None \<Longrightarrow>
       run_cost S e (length key) \<le> full_bound c \<Longrightarrow> full_tier c' key = Some e"
proof -
  obtain r c1 where rv: "record_verdict c (digest_of key) st origin = (r, c1)" by fastforce
  note r = record_verdict_result [OF rv]
  obtain vs where c1: "c1 = c\<lparr>verdicts := vs\<rparr>" using r(6) by blast
  have ok1: "tier_ok S (full_tier c1) (full_order c1) (full_bytes c1)" "full_bytes c1 \<le> full_bound c1"
    "verdicts_ok c1" and same: "full_tier c1 = full_tier c" "full_bound c1 = full_bound c"
    using ok verdicts_ok_mono [OF _ r(3)] by (auto simp: cache_ok_def c1 full_bound_def)
  show thesis
  proof (cases "keep_full \<and> \<not> verdict_mismatch r \<and> full_tier c1 key = None")
    case False
    have rec: "cache_record S c key st origin nodes spans keep_full = Inr (r, c1)"
      using False unfolding cache_record_def rv by (simp only: prod.case if_False)
    show thesis
      by (rule that [OF rec _ r(1,2,3,4)]) (use False ok1 same in \<open>auto simp: cache_ok_def\<close>)
  next
    case True
    obtain full' order' bytes' where ev:
      "evict S (full_bound c1) ((full_tier c1)(key \<mapsto> e)) (full_order c1 @ [key])
         (full_bytes c1 + run_cost S e (length key)) = Inr (full', order', bytes')"
      "tier_ok S full' order' bytes'" "bytes' \<le> full_bound c1"
      "full' \<subseteq>\<^sub>m (full_tier c1)(key \<mapsto> e)"
      "run_cost S e (length key) \<le> full_bound c1 \<Longrightarrow> full' key = Some e"
      by (rule evict_new_entry [OF ok1(1)]) (use True that in blast)+
    let ?c = "c1\<lparr>full_tier := full', full_order := order', full_bytes := bytes'\<rparr>"
    have rec: "cache_record S c key st origin nodes spans keep_full = Inr (r, ?c)"
      using True ev(1) by (simp add: cache_record_def rv e_def)
    have "verdicts c1 (digest_of key) = Some \<lparr>vd_status = cached_status e, vd_origin = cached_origin e\<rparr>"
      using r(5) True by (simp add: e_def)
    then have "verdicts_ok ?c"
      using ok1(3) ev(4) unfolding verdicts_ok_def map_le_def
      by simp (metis domI fun_upd_apply option.inject)
    moreover have "full_bound ?c = full_bound c1" by (simp add: full_bound_def)
    ultimately have "cache_ok S ?c" using ev(2,3) by (simp add: cache_ok_def)
    then show thesis
      by (rule that [OF rec _ r(1,2) _ _]) (use r(3,4) ev(4,5) same in auto)
  qed
qed

section \<open>The kind ledger\<close>

type_synonym kind_ledger = "(digest \<times> choice_kind) list"

definition KIND_LEDGER_CAP :: nat where
  "KIND_LEDGER_CAP = 2 ^ 16"

definition kind_changed :: "(choice_kind \<Rightarrow> string) \<Rightarrow> choice_kind \<Rightarrow> choice_kind \<Rightarrow> string" where
  "kind_changed debug expected kind =
     ''Your data generation is non-deterministic: at the same choice position with the same prefix, the choice kind changed from ''
     @ debug expected @ '' to '' @ debug kind
     @ ''. This usually means a generator depends on global mutable state.''"

fun observe_loop :: "dashu \<Rightarrow> (choice_kind \<Rightarrow> string) \<Rightarrow> digest \<Rightarrow> kind_ledger \<Rightarrow> choice_node list
    \<Rightarrow> string option \<times> kind_ledger" where
  "observe_loop D debug prefix entries [] = (None, entries)"
| "observe_loop D debug prefix entries (node # nodes) =
     (let kind = node_kind node;
          next_prefix = digest_update prefix (serialize_one_choice D (data_value_ref (node_data node)))
      in case map_of entries prefix of
           Some expected \<Rightarrow>
             if \<not> kind_eq expected kind then (Some (kind_changed debug expected kind), entries)
             else observe_loop D debug next_prefix entries nodes
         | None \<Rightarrow>
             observe_loop D debug next_prefix
               (if length entries < KIND_LEDGER_CAP then (prefix, kind) # entries else entries) nodes)"

definition observe :: "dashu \<Rightarrow> (choice_kind \<Rightarrow> string) \<Rightarrow> kind_ledger \<Rightarrow> choice_node list
    \<Rightarrow> string option \<times> kind_ledger" where
  "observe D debug entries nodes = observe_loop D debug FNV_OFFSET entries nodes"

definition ledger_clear :: "kind_ledger \<Rightarrow> kind_ledger" where
  "ledger_clear entries = []"

text \<open>
  The reference: the positions of an execution, each the bytes of the values drawn before it
  with the kind drawn there. On strings of bytes the digest tells apart, the ledger is the
  finite map from prefixes to kinds it stands for.
\<close>

fun positions :: "dashu \<Rightarrow> u8 list \<Rightarrow> choice_node list \<Rightarrow> (u8 list \<times> choice_kind) list" where
  "positions D before [] = []"
| "positions D before (n # ns) = (before, node_kind n)
     # positions D (before @ serialize_one_choice D (data_value_ref (node_data n))) ns"

definition represents :: "u8 list set \<Rightarrow> kind_ledger \<Rightarrow> (u8 list \<rightharpoonup> choice_kind) \<Rightarrow> bool" where
  "represents B L F \<longleftrightarrow> (\<forall>b \<in> B. map_of L (digest_of b) = F b)"

definition contradicts :: "(u8 list \<rightharpoonup> choice_kind) \<Rightarrow> (u8 list \<times> choice_kind) list \<Rightarrow> bool" where
  "contradicts F ps \<longleftrightarrow> (\<exists>(b, k) \<in> set ps. \<exists>k'. F b = Some k' \<and> \<not> kind_eq k' k)"

lemma serialize_one_nonempty: "serialize_one_choice D x \<noteq> []"
  by (subst serialize_one_choice.simps) (simp split: choice_value_ref.splits)

lemma positions_longer: "(b, k) \<in> set (positions D before ns) \<Longrightarrow> length before \<le> length b"
  by (induction ns arbitrary: before) force+

lemma positions_fresh:
  "(b, k) \<in> set (positions D (before @ serialize_one_choice D x) ns) \<Longrightarrow> b \<noteq> before"
  using positions_longer [of b k D "before @ serialize_one_choice D x" ns]
    serialize_one_nonempty [of D x] by auto

lemma distinct_positions: "distinct (map fst (positions D before ns))"
  by (induction ns arbitrary: before) (auto dest: positions_fresh)

lemma kind_eq_refl [simp]: "kind_eq k k"
  by (cases k) (simp_all add: string_choice_eq_def)

lemma observe_loop_represents:
  assumes "inj_on digest_of B" and "fst ` set (positions D before ns) \<subseteq> B"
    and "represents B L F" and "length L + length ns \<le> KIND_LEDGER_CAP"
  shows "(fst (observe_loop D debug (digest_of before) L ns) \<noteq> None
            \<longleftrightarrow> contradicts F (positions D before ns))
     \<and> (\<not> contradicts F (positions D before ns) \<longrightarrow>
          represents B (snd (observe_loop D debug (digest_of before) L ns))
            (map_of (positions D before ns) ++ F)
          \<and> length (snd (observe_loop D debug (digest_of before) L ns)) \<le> length L + length ns)"
  using assms
proof (induction ns arbitrary: before L F)
  case Nil
  then show ?case by (simp add: contradicts_def)
next
  case (Cons n ns)
  let ?ser = "serialize_one_choice D (data_value_ref (node_data n))"
  let ?ps = "positions D (before @ ?ser) ns"
  have b: "before \<in> B" and rest: "fst ` set ?ps \<subseteq> B" using Cons.prems(2) by auto
  have step: "digest_update (digest_of before) ?ser = digest_of (before @ ?ser)"
    by (simp add: digest_of_def digest_update_append)
  have look: "map_of L (digest_of before) = F before" using Cons.prems(3) b by (simp add: represents_def)
  have fresh: "before \<notin> fst ` set ?ps" using positions_fresh by fastforce
  show ?case
  proof (cases "F before")
    case (Some k)
    have tail: "contradicts F ((before, node_kind n) # ?ps) \<longleftrightarrow>
        \<not> kind_eq k (node_kind n) \<or> contradicts F ?ps"
      by (auto simp: contradicts_def Some)
    have same: "map_of ((before, node_kind n) # ?ps) ++ F = map_of ?ps ++ F"
      by (auto simp: fun_eq_iff map_add_def Some split: option.splits)
    show ?thesis
      using Cons.IH [OF Cons.prems(1) rest Cons.prems(3)] Cons.prems(4) look Some
      unfolding positions.simps same tail by (auto simp: step Let_def)
  next
    case None
    let ?F = "F(before \<mapsto> node_kind n)" and ?L = "(digest_of before, node_kind n) # L"
    have rep: "represents B ?L ?F"
      using Cons.prems(1,3) b by (auto simp: represents_def inj_on_def)
    have "length ?L + length ns \<le> KIND_LEDGER_CAP" using Cons.prems(4) by simp
    note IH = Cons.IH [OF Cons.prems(1) rest rep this]
    have same: "map_of ((before, node_kind n) # ?ps) ++ F = map_of ?ps ++ ?F"
      using fresh None
      by (auto simp: fun_eq_iff map_add_def map_of_eq_None_iff split: option.splits)
    have tail: "contradicts ?F ?ps \<longleftrightarrow> contradicts F ((before, node_kind n) # ?ps)"
      using fresh None by (force simp: contradicts_def)
    have small: "length L < KIND_LEDGER_CAP" using Cons.prems(4) by simp
    have eq: "observe_loop D debug (digest_of before) L (n # ns)
        = observe_loop D debug (digest_of (before @ ?ser)) ?L ns"
      by (simp add: step look None small Let_def)
    have len: "length L + length (n # ns) = length ?L + length ns" by simp
    show ?thesis
      unfolding eq len positions.simps same tail [symmetric] by (rule IH)
  qed
qed


section \<open>The properties\<close>

text \<open>C29: recording a conclusion never underflows the byte count and keeps the cache's invariant
  (order and entries agree, the byte count is exact and within the bound, no full entry
  contradicts the verdict tier); it reports duplicates and verdict changes exactly, forgets no
  verdict, never serves an entry it was not given, and keeps the new entry whenever it fits.
\<close>
theorem cache_record_invariant:
  assumes "cache_ok S c"
  shows "\<exists>r c'. cache_record S c key st origin nodes spans keep_full = Inr (r, c') \<and> cache_ok S c'
     \<and> (duplicate r \<longleftrightarrow> verdicts c (digest_of key) \<noteq> None)
     \<and> (verdict_mismatch r \<longleftrightarrow>
          (\<exists>v. verdicts c (digest_of key) = Some v \<and> (vd_status v, vd_origin v) \<noteq> (st, origin)))
     \<and> verdicts c \<subseteq>\<^sub>m verdicts c'
     \<and> (\<forall>k e. serve c' k = Some e \<longrightarrow> serve c k = Some e
          \<or> k = key \<and> e = \<lparr>cached_status = st, cached_origin = origin, cached_nodes = nodes,
                          cached_spans = spans\<rparr>)
     \<and> (keep_full \<and> \<not> verdict_mismatch r \<and> serve c key = None
          \<and> length key + length nodes * size_of_node S + length spans * size_of_span S
              + size_of_run S \<le> full_bound c
          \<longrightarrow> serve c' key = Some \<lparr>cached_status = st, cached_origin = origin,
                cached_nodes = nodes, cached_spans = spans\<rparr>)"
proof -
  let ?e = "\<lparr>cached_status = st, cached_origin = origin, cached_nodes = nodes, cached_spans = spans\<rparr>"
  obtain r c' where r:
    "cache_record S c key st origin nodes spans keep_full = Inr (r, c')" "cache_ok S c'"
    "duplicate r \<longleftrightarrow> verdicts c (digest_of key) \<noteq> None"
    "verdict_mismatch r \<longleftrightarrow>
       (\<exists>v. verdicts c (digest_of key) = Some v \<and> (vd_status v, vd_origin v) \<noteq> (st, origin))"
    "verdicts c \<subseteq>\<^sub>m verdicts c'" "verdicts c' (digest_of key) \<noteq> None"
    "full_tier c' \<subseteq>\<^sub>m (full_tier c)(key \<mapsto> ?e) \<or> full_tier c' = full_tier c"
    "keep_full \<Longrightarrow> \<not> verdict_mismatch r \<Longrightarrow> full_tier c key = None \<Longrightarrow>
       run_cost S ?e (length key) \<le> full_bound c \<Longrightarrow> full_tier c' key = Some ?e"
    by (rule cache_record_result [OF assms]) (rule that)
  have served: "serve c k = Some e \<or> k = key \<and> e = ?e" if "serve c' k = Some e" for k e
    using that r(7) unfolding serve_def map_le_def by (metis domI fun_upd_apply option.inject)
  show ?thesis
    using r(1-5) served r(8) by (simp add: serve_def run_cost_def)
qed

definition sample_sizes :: entry_sizes where
  "sample_sizes = \<lparr>size_of_node = 1, size_of_span = 1, size_of_run = 1\<rparr>"

theorem cache_record_invariant_witness:
  "\<exists>r c'. cache_record sample_sizes (with_full_tier_bound 4) [7] Interesting None [] [] True
        = Inr (r, c') \<and> cache_ok sample_sizes c' \<and> \<not> duplicate r \<and> serve c' [7] \<noteq> None"
  using cache_record_invariant [OF cache_default_ok(2), of sample_sizes 4 "[7]" Interesting None "[]" "[]" True]
  by (auto simp: with_full_tier_bound_def exec_cache_default_def serve_def full_bound_def
      sample_sizes_def)

text \<open>C30: where the digest tells the value prefixes of two executions apart and the ledger has
  room, the first execution is accepted, and the second is reported exactly when some position
  was reached with the same values before it in both but drew a different kind.
\<close>
theorem ledger_detects_nondeterminism:
  assumes "inj_on digest_of (fst ` set (positions D [] ms) \<union> fst ` set (positions D [] ns))"
    and "length ms + length ns \<le> KIND_LEDGER_CAP"
  shows "fst (observe D debug [] ms) = None
     \<and> (fst (observe D debug (snd (observe D debug [] ms)) ns) \<noteq> None \<longleftrightarrow>
          (\<exists>(b, k) \<in> set (positions D [] ms). \<exists>(b', k') \<in> set (positions D [] ns).
              b' = b \<and> \<not> kind_eq k k'))"
proof -
  let ?B = "fst ` set (positions D [] ms) \<union> fst ` set (positions D [] ns)"
  have start: "FNV_OFFSET = digest_of []" by (simp add: digest_of_def)
  have first: "fst (observe D debug [] ms) = None"
    "represents ?B (snd (observe D debug [] ms)) (map_of (positions D [] ms))"
    "length (snd (observe D debug [] ms)) \<le> length ms"
    using observe_loop_represents [OF assms(1), of D "[]" ms "[]" Map.empty debug] assms(2)
    by (simp_all add: observe_def start contradicts_def represents_def)
  have "map_of (positions D [] ms) b = Some k \<longleftrightarrow> (b, k) \<in> set (positions D [] ms)" for b k
    by (rule map_of_eq_Some_iff) (rule distinct_positions)
  then have "contradicts (map_of (positions D [] ms)) (positions D [] ns) \<longleftrightarrow>
      (\<exists>(b, k) \<in> set (positions D [] ms). \<exists>(b', k') \<in> set (positions D [] ns).
          b' = b \<and> \<not> kind_eq k k')"
    by (fastforce simp: contradicts_def)
  then show ?thesis
    using observe_loop_represents [OF assms(1) _ first(2), of D "[]" ns debug] first assms(2)
    by (simp add: observe_def start)
qed

definition sample_flag :: "bool \<Rightarrow> choice_node" where
  "sample_flag b = ChoiceNode (DBoolean \<lparr>bc_p = f64_one\<rparr> b) False"

definition sample_number :: choice_node where
  "sample_number = ChoiceNode (DInteger sample_integer 0) False"

lemma sample_positions:
  "positions D [] [sample_flag True, n] = [([], KBoolean \<lparr>bc_p = f64_one\<rparr>), ([1, 1], node_kind n)]"
  by (subst positions.simps, subst positions.simps)
    (simp add: sample_flag_def node_kind_def serialize_one_choice.simps)

lemma sample_digests: "digest_of [] \<noteq> digest_of [1, 1]"
  by (simp add: digest_of_def digest_update_def FNV_OFFSET_def FNV_PRIME_def)

theorem ledger_detects_nondeterminism_witness:
  "fst (observe sample_dashu (\<lambda>_. []) (snd (observe sample_dashu (\<lambda>_. []) [] [sample_flag True, sample_flag True]))
     [sample_flag True, sample_number]) \<noteq> None"
proof -
  have "inj_on digest_of (fst ` set (positions sample_dashu [] [sample_flag True, sample_flag True])
      \<union> fst ` set (positions sample_dashu [] [sample_flag True, sample_number]))"
    unfolding sample_positions using sample_digests by (auto simp: inj_on_def)
  moreover have "length [sample_flag True, sample_flag True] + length [sample_flag True, sample_number]
      \<le> KIND_LEDGER_CAP"
    by (simp add: KIND_LEDGER_CAP_def)
  ultimately show ?thesis
    using ledger_detects_nondeterminism [of sample_dashu "[sample_flag True, sample_flag True]"
        "[sample_flag True, sample_number]" "\<lambda>_. []"]
    unfolding sample_positions by (simp add: sample_flag_def sample_number_def node_kind_def)
qed

end
