(* ===== verification/Procs.thy ===== *)
theory Procs
  imports Search
begin

text \<open>
  Procedures that may loop: a step that ends in a state with a value or an early return, or
  does not end (\<open>None\<close>). The loops of the shrink passes are instances of \<open>ploop\<close>, so that
  their termination is a theorem and not part of their definition. The locale \<open>progress\<close> is
  the contract all passes share: from a good state a procedure ends, normally or early, in a
  state related to the first by a preorder on good states.
\<close>

section \<open>Procedures\<close>

type_synonym ('s, 'e, 'a) proc = "'s \<Rightarrow> (('e + 'a) \<times> 's) option"

definition pret :: "'a \<Rightarrow> ('s, 'e, 'a) proc" where
  "pret x s = Some (Inr x, s)"

definition pthrow :: "'e \<Rightarrow> ('s, 'e, 'a) proc" where
  "pthrow e s = Some (Inl e, s)"

definition pbind :: "('s, 'e, 'a) proc \<Rightarrow> ('a \<Rightarrow> ('s, 'e, 'b) proc) \<Rightarrow> ('s, 'e, 'b) proc" where
  "pbind m f s =
     (case m s of
        None \<Rightarrow> None
      | Some (Inl e, s') \<Rightarrow> Some (Inl e, s')
      | Some (Inr x, s') \<Rightarrow> f x s')"

definition pcall :: "('s, 'e, 'a) effect \<Rightarrow> ('s, 'e, 'a) proc" where
  "pcall m s = Some (m s)"

text \<open>Change the error type, as the question mark does through \<open>From\<close>.\<close>

definition pmap_error :: "('e \<Rightarrow> 'f) \<Rightarrow> ('s, 'e, 'a) proc \<Rightarrow> ('s, 'f, 'a) proc" where
  "pmap_error g m s =
     (case m s of
        None \<Rightarrow> None
      | Some (Inl e, s') \<Rightarrow> Some (Inl (g e), s')
      | Some (Inr x, s') \<Rightarrow> Some (Inr x, s'))"

text \<open>\<open>ploop body i\<close>: run the body, again from \<open>Inl i'\<close>, until it answers \<open>Inr r\<close>.\<close>

partial_function (option) ploop ::
  "('i \<Rightarrow> ('s, 'e, 'i + 'r) proc) \<Rightarrow> 'i \<Rightarrow> 's \<Rightarrow> (('e + 'r) \<times> 's) option" where
  "ploop body i s =
     Option.bind (body i s) (\<lambda>(r, s').
       case r of
         Inl e \<Rightarrow> Some (Inl e, s')
       | Inr (Inl i') \<Rightarrow> ploop body i' s'
       | Inr (Inr x) \<Rightarrow> Some (Inr x, s'))"

primrec pfor :: "'a list \<Rightarrow> ('a \<Rightarrow> ('s, 'e, unit) proc) \<Rightarrow> ('s, 'e, unit) proc" where
  "pfor [] f = pret ()"
| "pfor (x # xs) f = pbind (f x) (\<lambda>_. pfor xs f)"

text \<open>A \<open>for\<close> loop that stops at the first element for which the body answers \<open>True\<close>.\<close>

primrec pfor_until :: "'a list \<Rightarrow> ('a \<Rightarrow> ('s, 'e, bool) proc) \<Rightarrow> ('s, 'e, bool) proc" where
  "pfor_until [] f = pret False"
| "pfor_until (x # xs) f = pbind (f x) (\<lambda>stop. if stop then pret True else pfor_until xs f)"

text \<open>A \<open>for\<close> loop that stops at the first element for which the body answers \<open>Some\<close>.\<close>

primrec pfor_find :: "'a list \<Rightarrow> ('a \<Rightarrow> ('s, 'e, 'b option) proc) \<Rightarrow> ('s, 'e, 'b option) proc" where
  "pfor_find [] f = pret None"
| "pfor_find (x # xs) f =
     pbind (f x) (\<lambda>r. case r of Some y \<Rightarrow> pret (Some y) | None \<Rightarrow> pfor_find xs f)"

definition preturn :: "(internal_error \<Rightarrow> 'e) \<Rightarrow> 'a internal_result \<Rightarrow> ('s, 'e, 'a) proc" where
  "preturn oi r = pcall (lift_result oi r)"

lemma pret_simp [simp]: "pret x s = Some (Inr x, s)"
  by (simp add: pret_def)

lemma pthrow_simp [simp]: "pthrow e s = Some (Inl e, s)"
  by (simp add: pthrow_def)

lemma pcall_simp [simp]: "pcall m s = Some (m s)"
  by (simp add: pcall_def)

section \<open>Driving the searches\<close>

text \<open>\<open>while let Some(k) = search.probe() { ...; search.record(ok) }\<close>, and its value.\<close>

definition drive_find :: "(nat \<Rightarrow> ('s, 'e, bool) proc) \<Rightarrow> ('s, 'e, nat) proc" where
  "drive_find f =
     ploop (\<lambda>search. case find_integer_step search of
              Done_step v \<Rightarrow> pret (Inr v)
            | Probe k \<Rightarrow> pbind (f k) (\<lambda>ok. pret (Inl (find_integer_record search ok))))
       find_integer_new"

definition drive_down_big ::
  "int \<Rightarrow> int \<Rightarrow> (int \<Rightarrow> ('s, 'e, bool) proc) \<Rightarrow> ('s, 'e, unit) proc" where
  "drive_down_big lo hi f =
     ploop (\<lambda>search. case bin_big_probe search of
              None \<Rightarrow> pret (Inr ())
            | Some v \<Rightarrow> pbind (f v) (\<lambda>ok. pret (Inl (bin_big_record search ok))))
       (bin_search_new lo hi)"

definition drive_down ::
  "(internal_error \<Rightarrow> 'e) \<Rightarrow> int \<Rightarrow> int \<Rightarrow> (int \<Rightarrow> ('s, 'e, bool) proc) \<Rightarrow> ('s, 'e, unit) proc" where
  "drive_down oi lo hi f =
     ploop (\<lambda>search. pbind (preturn oi (bin_search_probe search)) (\<lambda>p.
              case p of
                None \<Rightarrow> pret (Inr ())
              | Some v \<Rightarrow> pbind (f v) (\<lambda>ok.
                  pbind (preturn oi (bin_search_record search ok)) (\<lambda>search.
                  pret (Inl search)))))
       (bin_search_new lo hi)"

lemma bin_search_mid_exact: "bin_search_mid lo hi = Inr m \<Longrightarrow> m = bin_big_mid lo hi"
  by (auto simp: bin_search_mid_def i128_or_panic_def i128_checked_def bin_big_mid_def split: if_splits)

lemma bin_narrow_exact:
  "bin_ok (bin_search_narrow_or_done lo hi)
     \<and> bin_measure (bin_search_narrow_or_done lo hi) \<le> nat (hi - lo)"
  by (auto simp: bin_search_narrow_or_done_def i128_checked_def split: option.split)

lemma bin_search_record_measure:
  assumes "bin_ok st" "bin_search_probe st = Inr (Some v)" "bin_search_record st ok = Inr st'"
  shows "bin_ok st' \<and> bin_measure st' < bin_measure st"
proof (cases st)
  case (CheckLo lo hi)
  then show ?thesis using assms(3) bin_narrow_exact [of lo hi] by auto
next
  case (BNarrow lo hi)
  then have st': "st' = (if ok then bin_search_narrow_or_done lo (bin_big_mid lo hi)
                         else bin_search_narrow_or_done (bin_big_mid lo hi) hi)"
    using assms(3) by (auto dest: bin_search_mid_exact)
  show ?thesis
    using BNarrow assms(1) mid_between [of lo hi] bin_narrow_exact [of lo "bin_big_mid lo hi"]
      bin_narrow_exact [of "bin_big_mid lo hi" hi]
    unfolding st' by auto
qed (use assms in auto)

section \<open>The contract\<close>

locale progress =
  fixes good :: "'s \<Rightarrow> bool" and step :: "'s \<Rightarrow> 's \<Rightarrow> bool"
  assumes step_refl: "good s \<Longrightarrow> step s s"
    and step_trans: "good s \<Longrightarrow> step s t \<Longrightarrow> step t u \<Longrightarrow> step s u"
    and step_good: "good s \<Longrightarrow> step s t \<Longrightarrow> good t"
begin

text \<open>\<open>safe Q m\<close>: from every good state \<open>m\<close> ends after steps only; its value satisfies \<open>Q\<close>.\<close>

definition safe :: "('a \<Rightarrow> bool) \<Rightarrow> ('s, 'e, 'a) proc \<Rightarrow> bool" where
  "safe Q m \<longleftrightarrow>
     (\<forall>s. good s \<longrightarrow> (\<exists>r t. m s = Some (r, t) \<and> step s t \<and> (\<forall>x. r = Inr x \<longrightarrow> Q x)))"

lemma safeI:
  "(\<And>s. good s \<Longrightarrow> \<exists>r t. m s = Some (r, t) \<and> step s t \<and> (\<forall>x. r = Inr x \<longrightarrow> Q x)) \<Longrightarrow> safe Q m"
  by (simp add: safe_def)

lemma safeE:
  assumes "safe Q m" "good s"
  obtains r t where "m s = Some (r, t)" "step s t" "good t" "\<And>x. r = Inr x \<Longrightarrow> Q x"
  using assms step_good unfolding safe_def by blast

lemma safe_weaken: "safe Q m \<Longrightarrow> (\<And>x. Q x \<Longrightarrow> R x) \<Longrightarrow> safe R m"
  unfolding safe_def by blast

lemma safe_pret: "Q x \<Longrightarrow> safe Q (pret x)"
  by (rule safeI) (auto intro: step_refl)

lemma safe_pthrow: "safe Q (pthrow e)"
  by (rule safeI) (auto intro: step_refl)

lemma safe_pure: "(\<And>s. snd (m s) = s) \<Longrightarrow> safe (\<lambda>_. True) (pcall m)"
  by (rule safeI) (metis pcall_simp prod.collapse step_refl)

lemma safe_get: "safe (\<lambda>_. True) (pcall get_state)"
  by (rule safe_pure) simp

lemma safe_preturn: "safe (\<lambda>_. True) (preturn oi r)"
  unfolding preturn_def by (rule safe_pure) (simp add: lift_result_def split: sum.split)

lemma safe_preturn_value: "(\<And>x. r = Inr x \<Longrightarrow> Q x) \<Longrightarrow> safe Q (preturn oi r)"
  by (rule safeI) (auto simp: preturn_def lift_result_def intro: step_refl split: sum.split)

lemma safe_pbind:
  assumes "safe P m" and "\<And>x. P x \<Longrightarrow> safe Q (f x)"
  shows "safe Q (pbind m f)"
proof (rule safeI)
  fix s assume s: "good s"
  obtain r t where m: "m s = Some (r, t)" "step s t" "good t" "\<And>x. r = Inr x \<Longrightarrow> P x"
    by (rule safeE [OF assms(1) s]) (rule that)
  show "\<exists>r t. pbind m f s = Some (r, t) \<and> step s t \<and> (\<forall>x. r = Inr x \<longrightarrow> Q x)"
  proof (cases r)
    case (Inl e)
    then show ?thesis using m by (auto simp: pbind_def)
  next
    case (Inr x)
    obtain r' u where f: "f x t = Some (r', u)" "step t u" "\<And>y. r' = Inr y \<Longrightarrow> Q y"
      by (rule safeE [OF assms(2) m(3)]) (use m(4) Inr in \<open>blast intro: that\<close>)+
    then have "pbind m f s = Some (r', u)" "step s u"
      using m(1,2) Inr step_trans [OF s] by (auto simp: pbind_def)
    then show ?thesis using f(3) by blast
  qed
qed

lemma safe_pbind_any: "safe (\<lambda>_. True) m \<Longrightarrow> (\<And>x. safe Q (f x)) \<Longrightarrow> safe Q (pbind m f)"
  by (rule safe_pbind)

text \<open>Reading the state first: the rest may use what the state is.\<close>

lemma safe_read:
  assumes "\<And>s. good s \<Longrightarrow> \<exists>r t. f s s = Some (r, t) \<and> step s t \<and> (\<forall>x. r = Inr x \<longrightarrow> Q x)"
  shows "safe Q (pbind (pcall get_state) f)"
  by (rule safeI) (use assms in \<open>simp add: pbind_def\<close>)

lemma safe_pmap_error:
  assumes "safe Q m"
  shows "safe Q (pmap_error g m)"
proof (rule safeI)
  fix s assume s: "good s"
  obtain r t where m: "m s = Some (r, t)" "step s t" "\<And>x. r = Inr x \<Longrightarrow> Q x"
    by (rule safeE [OF assms s]) (rule that)
  then show "\<exists>r t. pmap_error g m s = Some (r, t) \<and> step s t \<and> (\<forall>x. r = Inr x \<longrightarrow> Q x)"
    by (cases r) (auto simp: pmap_error_def)
qed

lemma safe_pfor: "(\<And>x. x \<in> set xs \<Longrightarrow> safe (\<lambda>_. True) (f x)) \<Longrightarrow> safe (\<lambda>_. True) (pfor xs f)"
  by (induction xs) (auto intro: safe_pret safe_pbind_any)

lemma safe_pfor_until:
  "(\<And>x. x \<in> set xs \<Longrightarrow> safe (\<lambda>_. True) (f x)) \<Longrightarrow> safe (\<lambda>_. True) (pfor_until xs f)"
  by (induction xs) (auto intro!: safe_pret safe_pbind_any)

lemma safe_pfor_find:
  "(\<And>x. x \<in> set xs \<Longrightarrow> safe (\<lambda>_. True) (f x)) \<Longrightarrow> safe (\<lambda>_. True) (pfor_find xs f)"
  by (induction xs) (auto intro!: safe_pret safe_pbind_any split: option.split)

text \<open>
  From one state, with a postcondition on value and state: what a proof about one loop round
  or one whole run needs.
\<close>

definition runs :: "('a \<Rightarrow> 's \<Rightarrow> bool) \<Rightarrow> 's \<Rightarrow> ('s, 'e, 'a) proc \<Rightarrow> bool" where
  "runs Q s m \<longleftrightarrow> (\<exists>r t. m s = Some (r, t) \<and> step s t \<and> (\<forall>x. r = Inr x \<longrightarrow> Q x t))"

lemma runsI: "m s = Some (r, t) \<Longrightarrow> step s t \<Longrightarrow> (\<And>x. r = Inr x \<Longrightarrow> Q x t) \<Longrightarrow> runs Q s m"
  by (auto simp: runs_def)

lemma runsE:
  assumes "runs Q s m"
  obtains r t where "m s = Some (r, t)" "step s t" "\<And>x. r = Inr x \<Longrightarrow> Q x t"
  using assms unfolding runs_def by blast

lemma safe_runs: "safe Q m \<Longrightarrow> good s \<Longrightarrow> runs (\<lambda>x _. Q x) s m"
  by (simp add: safe_def runs_def)

lemma runs_safe: "(\<And>s. good s \<Longrightarrow> runs (\<lambda>x _. Q x) s m) \<Longrightarrow> safe Q m"
  by (simp add: safe_def runs_def)

lemma runs_pret: "good s \<Longrightarrow> Q x s \<Longrightarrow> runs Q s (pret x)"
  by (rule runsI) (auto intro: step_refl)

lemma runs_pbind:
  assumes s: "good s" and m: "runs R s m"
    and f: "\<And>x t. good t \<Longrightarrow> step s t \<Longrightarrow> R x t \<Longrightarrow> runs Q t (f x)"
  shows "runs Q s (pbind m f)"
proof -
  obtain r t where rt: "m s = Some (r, t)" "step s t" "\<And>x. r = Inr x \<Longrightarrow> R x t"
    by (rule runsE [OF m]) (rule that)
  show ?thesis
  proof (cases r)
    case (Inl e)
    then show ?thesis using rt by (intro runsI [of _ _ "Inl e" t]) (simp_all add: pbind_def)
  next
    case (Inr x)
    obtain r' u where u: "f x t = Some (r', u)" "step t u" "\<And>y. r' = Inr y \<Longrightarrow> Q y u"
      by (rule runsE [OF f [OF step_good [OF s rt(2)] rt(2) rt(3) [OF Inr]]]) (rule that)
    show ?thesis
      by (rule runsI [of _ _ r' u]) (use rt(1) Inr u step_trans [OF s rt(2)] in \<open>simp_all add: pbind_def\<close>)
  qed
qed

lemma runs_ploop_wf:
  assumes wf: "wf R" and I: "I i s" and s: "good s"
    and body: "\<And>i s. I i s \<Longrightarrow> good s \<Longrightarrow>
       runs (\<lambda>x t. case x of Inl j \<Rightarrow> I j t \<and> ((j, t), (i, s)) \<in> R | Inr y \<Rightarrow> Q y t) s (body i)"
  shows "runs Q s (ploop body i)"
  using I s
proof (induction "(i, s)" arbitrary: i s rule: wf_induct_rule [OF wf])
  case 1
  obtain r t where b: "body i s = Some (r, t)" "step s t"
    "\<And>x. r = Inr x \<Longrightarrow> (case x of Inl j \<Rightarrow> I j t \<and> ((j, t), (i, s)) \<in> R | Inr y \<Rightarrow> Q y t)"
    by (rule runsE [OF body [OF 1(2,3)]]) (rule that)
  have t: "good t" by (rule step_good [OF 1(3) b(2)])
  show ?case
  proof (cases "\<exists>j. r = Inr (Inl j)")
    case True
    then obtain j where j: "r = Inr (Inl j)" by blast
    have again: "runs Q t (ploop body j)" by (rule 1(1)) (use b(3) j t in auto)
    obtain r' u where "ploop body j t = Some (r', u)" "step t u" "\<And>x. r' = Inr x \<Longrightarrow> Q x u"
      by (rule runsE [OF again]) (rule that)
    then show ?thesis
      using b(1) j step_trans [OF 1(3) b(2)] by (intro runsI [of _ _ r' u]) (subst ploop.simps, simp_all)
  next
    case False
    then show ?thesis
      using b(1,2,3)
      by (intro runsI [of _ _ "case r of Inl e \<Rightarrow> Inl e | Inr x \<Rightarrow> Inr (projr x)" t])
        (subst ploop.simps, auto split: sum.splits)
  qed
qed

text \<open>A loop ends when each round that goes on descends in a well-founded order.\<close>

lemma safe_ploop_wf:
  assumes wf: "wf R" and I: "I i"
    and body: "\<And>i s. I i \<Longrightarrow> good s \<Longrightarrow> \<exists>r t. body i s = Some (r, t) \<and> step s t
       \<and> (\<forall>j. r = Inr (Inl j) \<longrightarrow> I j \<and> ((j, t), (i, s)) \<in> R) \<and> (\<forall>x. r = Inr (Inr x) \<longrightarrow> Q x)"
  shows "safe Q (ploop body i)"
proof (rule runs_safe, rule runs_ploop_wf [OF wf, where I = "\<lambda>i _. I i"])
  fix i s
  assume "I i" "good s"
  then obtain r t where b: "body i s = Some (r, t)" "step s t"
    "\<And>j. r = Inr (Inl j) \<Longrightarrow> I j \<and> ((j, t), (i, s)) \<in> R" "\<And>x. r = Inr (Inr x) \<Longrightarrow> Q x"
    using body by metis
  then show "runs (\<lambda>x t. case x of Inl j \<Rightarrow> I j \<and> ((j, t), (i, s)) \<in> R | Inr y \<Rightarrow> Q y) s (body i)"
    by (intro runsI) (auto split: sum.split)
qed (use I in simp_all)

lemma safe_ploop:
  assumes "I i" and "\<And>i. I i \<Longrightarrow> safe (\<lambda>r. case r of Inl j \<Rightarrow> I j \<and> m j < (m i :: nat) | Inr x \<Rightarrow> Q x) (body i)"
  shows "safe Q (ploop body i)"
proof (rule safe_ploop_wf [where R = "inv_image (measure m) fst" and I = I])
  fix i s assume i: "I i" and s: "good s"
  obtain r t where b: "body i s = Some (r, t)" "step s t"
    "\<And>x. r = Inr x \<Longrightarrow> (case x of Inl j \<Rightarrow> I j \<and> m j < m i | Inr x \<Rightarrow> Q x)"
    by (rule safeE [OF assms(2) [OF i] s]) (rule that)
  show "\<exists>r t. body i s = Some (r, t) \<and> step s t
       \<and> (\<forall>j. r = Inr (Inl j) \<longrightarrow> I j \<and> ((j, t), (i, s)) \<in> inv_image (measure m) fst)
       \<and> (\<forall>x. r = Inr (Inr x) \<longrightarrow> Q x)"
    using b by (intro exI [of _ r] exI [of _ t]) (auto dest: b(3))
qed (use assms(1) in auto)

lemma safe_drive_find:
  assumes "\<And>k. safe (\<lambda>_. True) (f k)"
  shows "safe (\<lambda>_. True) (drive_find f)"
  unfolding drive_find_def
  by (rule safe_ploop [where I = find_ok and m = find_measure])
    (auto intro!: safe_pret safe_pbind [OF assms] find_record_ok find_record_measure
      split: search_step.split)

lemma safe_drive_down_big:
  assumes "\<And>v. safe (\<lambda>_. True) (f v)"
  shows "safe (\<lambda>_. True) (drive_down_big lo hi f)"
  unfolding drive_down_big_def
  by (rule safe_ploop [where I = bin_ok and m = bin_measure])
    (auto intro!: safe_pret safe_pbind [OF assms] bin_big_record_ok bin_big_record_measure
      simp: bin_search_new_def split: option.split)

lemma safe_drive_down:
  assumes "\<And>v. safe (\<lambda>_. True) (f v)"
  shows "safe (\<lambda>_. True) (drive_down oi lo hi f)"
  unfolding drive_down_def
proof (rule safe_ploop [where I = bin_ok and m = bin_measure])
  fix st assume ok: "bin_ok st"
  let ?Q = "\<lambda>r. case r of Inl j \<Rightarrow> bin_ok j \<and> bin_measure j < bin_measure st | Inr x \<Rightarrow> True"
  have "safe ?Q (case p of
                None \<Rightarrow> pret (Inr ())
              | Some v \<Rightarrow> pbind (f v) (\<lambda>ok. pbind (preturn oi (bin_search_record st ok)) (\<lambda>search. pret (Inl search))))"
    if p: "bin_search_probe st = Inr p" for p
  proof (cases p)
    case None
    then show ?thesis by (auto intro: safe_pret)
  next
    case (Some v)
    have "bin_search_record st b = Inr st' \<Longrightarrow> bin_ok st' \<and> bin_measure st' < bin_measure st" for b st'
      using bin_search_record_measure [OF ok p [unfolded Some]] by blast
    then show ?thesis
      unfolding Some option.case
      by (intro safe_pbind [OF assms] safe_pbind [OF safe_preturn_value] safe_pret) auto
  qed
  then show "safe ?Q (pbind (preturn oi (bin_search_probe st)) (\<lambda>p. case p of
                None \<Rightarrow> pret (Inr ())
              | Some v \<Rightarrow> pbind (f v) (\<lambda>ok. pbind (preturn oi (bin_search_record st ok)) (\<lambda>search. pret (Inl search)))))"
    by (rule safe_pbind [OF safe_preturn_value])
qed (simp add: bin_search_new_def)

end

end
