(* ===== verification/PassBase.thy ===== *)
theory PassBase
  imports Shrinker Procs
begin

text \<open>
  What the shrink passes share: the shrinker's operations as procedures, the loop shapes over
  the live target, and two contracts. A pass \<open>adopts\<close>: it leaves the target alone or
  replaces it by strictly simpler validated nodes and counts an improvement. The float pass
  only \<open>descends\<close>: it may also install an equally simple target. Both are instances of the
  locale \<open>progress\<close>, and the first implies the second.
\<close>

section \<open>Operations as procedures\<close>

type_synonym ('env, 'a) pass = "('env shrinker, shrink_halt, 'a) proc"
type_synonym ('env, 'a) node_pass = "('env shrinker, pass_exit, 'a) proc"

definition self :: "('env shrinker, 'e, 'env shrinker) proc" where
  "self = pcall get_state"

definition consider_run :: "'env shrink_world \<Rightarrow> choice_node list \<Rightarrow> ('env, bool) pass" where
  "consider_run W nodes = pcall (consider_nodes W nodes)"

definition replace_run :: "'env shrink_world \<Rightarrow> (nat \<times> choice_value) list \<Rightarrow> ('env, bool) pass" where
  "replace_run W values = pcall (replace W values)"

definition probe_run :: "'env shrink_world \<Rightarrow> choice_value list \<Rightarrow> nat \<Rightarrow> ('env, unit) pass" where
  "probe_run W prefix_values max_size = pcall (probe W prefix_values max_size)"

definition execute :: "'env shrink_world \<Rightarrow> shrink_run
    \<Rightarrow> ('env, bool \<times> choice_node list \<times> span list) pass" where
  "execute W run = pcall (run_test_fn W run)"

definition replace_int :: "'env shrink_world \<Rightarrow> nat \<Rightarrow> int \<Rightarrow> ('env, bool) pass" where
  "replace_int W i candidate = replace_run W [(i, VInteger candidate)]"

text \<open>\<open>self.calls += 1\<close>, and the adoption of a run's nodes when they are smaller.\<close>

definition count_call :: "('env, unit) pass" where
  "count_call = pcall (modify (\<lambda>s. s\<lparr>calls := calls s + 1\<rparr>))"

definition adopt_if_smaller ::
  "bool \<Rightarrow> choice_node list \<Rightarrow> span list \<Rightarrow> ('env, bool) pass" where
  "adopt_if_smaller is_interesting nodes spans =
     (if \<not> is_interesting then pret False
      else pbind self (\<lambda>s.
           pbind (pcall (compare_nodes nodes (current_nodes s))) (\<lambda>ord.
           if ord = Less
           then pbind (pcall (modify (accept_improvement nodes spans))) (\<lambda>_. pret True)
           else pret False)))"

text \<open>A panic inside a pass, and indexing a slice: out of range panics.\<close>

definition pass_panic :: "string \<Rightarrow> ('env, 'a) pass" where
  "pass_panic msg = pthrow (HaltError (RunInternal (Panicked msg)))"

definition internal :: "'a internal_result \<Rightarrow> ('env, 'a) pass" where
  "internal r = preturn halt_of_internal r"

definition index_slice :: "'a list \<Rightarrow> nat \<Rightarrow> ('env, 'a) pass" where
  "index_slice xs i =
     (if i < length xs then pret (xs ! i) else pass_panic ''index out of bounds'')"

text \<open>\<open>xs[a..b]\<close>: panics unless \<open>a \<le> b \<le> len\<close>.\<close>

definition index_range :: "'a list \<Rightarrow> nat \<Rightarrow> nat \<Rightarrow> ('env, 'a list) pass" where
  "index_range xs a b =
     (if a \<le> b \<and> b \<le> length xs then pret (take (b - a) (drop a xs))
      else pass_panic ''range out of bounds'')"

definition debug_assert :: "bool \<Rightarrow> string \<Rightarrow> ('env, unit) pass" where
  "debug_assert c msg = internal (hegel_internal_assert c msg)"

text \<open>The question mark from \<open>ShrinkResult\<close> into \<open>Result<_, PassExit>\<close>.\<close>

definition halting :: "('env, 'a) pass \<Rightarrow> ('env, 'a) node_pass" where
  "halting m = pmap_error Halt m"

definition or_gone :: "'a option \<Rightarrow> ('env, 'a) node_pass" where
  "or_gone x = (case x of Some y \<Rightarrow> pret y | None \<Rightarrow> pthrow NodeGone)"

definition absorbing :: "('env, unit) node_pass \<Rightarrow> ('env, unit) pass" where
  "absorbing m s =
     (case m s of
        None \<Rightarrow> None
      | Some (r, s') \<Rightarrow> Some (absorb_node_gone r, s'))"

text \<open>
  \<open>while cond { ... }\<close> over an index: the body answers the next index. The conditions read
  the live target, which the body may change.
\<close>

definition while_index :: "(nat \<Rightarrow> 'env shrinker \<Rightarrow> bool) \<Rightarrow> nat \<Rightarrow> (nat \<Rightarrow> ('env, nat) pass)
    \<Rightarrow> ('env, unit) pass" where
  "while_index cond start body =
     ploop (\<lambda>i. pbind self (\<lambda>s.
              if cond i s then pbind (body i) (\<lambda>i'. pret (Inl i')) else pret (Inr ()))) start"

definition each_node :: "(nat \<Rightarrow> ('env, unit) pass) \<Rightarrow> ('env, unit) pass" where
  "each_node body = while_index (\<lambda>i s. i < length (current_nodes s)) 0
     (\<lambda>i. pbind (body i) (\<lambda>_. pret (i + 1)))"

lemma pbind_Inr: "m s = Some (Inr x, t) \<Longrightarrow> pbind m f s = f x t"
  by (simp add: pbind_def)

lemma pbind_Inl: "m s = Some (Inl e, t) \<Longrightarrow> pbind m f s = Some (Inl e, t)"
  by (simp add: pbind_def)

section \<open>The contracts\<close>

text \<open>
  \<open>P\<close> is what the test function promises of the nodes of every run it calls interesting;
  they are validated in any case, as they come from an execution.
\<close>

definition world_for :: "(choice_node list \<Rightarrow> bool) \<Rightarrow> 'env shrink_world \<Rightarrow> bool" where
  "world_for P W \<longleftrightarrow> (\<forall>run env i nodes spans env'.
     test_fn W run env = (Inr (i, nodes, spans), env') \<longrightarrow> list_all node_valid nodes \<and> (i \<longrightarrow> P nodes))"

definition target_ok :: "(choice_node list \<Rightarrow> bool) \<Rightarrow> 'env shrinker \<Rightarrow> bool" where
  "target_ok P s \<longleftrightarrow> list_all node_valid (current_nodes s) \<and> P (current_nodes s)"

definition adopts :: "(choice_node list \<Rightarrow> bool) \<Rightarrow> 'env shrinker \<Rightarrow> 'env shrinker \<Rightarrow> bool" where
  "adopts P s t \<longleftrightarrow> target_ok P t \<and> max_improvements t = max_improvements s \<and> deadline t = deadline s
     \<and> (improvements t = improvements s \<and> current_nodes t = current_nodes s
          \<and> current_spans t = current_spans s
        \<or> improvements s < improvements t \<and> nodes_tokens (current_nodes t) < nodes_tokens (current_nodes s))"

definition descends :: "(choice_node list \<Rightarrow> bool) \<Rightarrow> 'env shrinker \<Rightarrow> 'env shrinker \<Rightarrow> bool" where
  "descends P s t \<longleftrightarrow> target_ok P t \<and> max_improvements t = max_improvements s \<and> deadline t = deadline s
     \<and> nodes_tokens (current_nodes t) \<le> nodes_tokens (current_nodes s)
     \<and> improvements s \<le> improvements t
     \<and> (improvements s < improvements t \<longrightarrow> nodes_tokens (current_nodes t) < nodes_tokens (current_nodes s))"

interpretation adopting: progress "target_ok P" "adopts P" for P :: "choice_node list \<Rightarrow> bool"
  by unfold_locales (auto simp: adopts_def)

interpretation descending: progress "target_ok P" "descends P" for P :: "choice_node list \<Rightarrow> bool"
  by unfold_locales (auto simp: descends_def)

lemma world_for_ok: "world_for P W \<Longrightarrow> world_ok W"
  unfolding world_for_def world_ok_def by blast

lemma adopts_descends: "adopts P s t \<Longrightarrow> descends P s t"
  by (auto simp: adopts_def descends_def)

lemma safe_descending: "adopting.safe P Q m \<Longrightarrow> descending.safe P Q m"
  unfolding adopting.safe_def descending.safe_def by (meson adopts_descends)

lemma adopts_flattened:
  "adopts P s t \<Longrightarrow> flattened_len (current_nodes t) \<le> flattened_len (current_nodes s)"
  by (auto simp: adopts_def nodes_tokens_def)

lemma descends_flattened:
  "descends P s t \<Longrightarrow> flattened_len (current_nodes t) \<le> flattened_len (current_nodes s)"
  by (auto simp: descends_def nodes_tokens_def)

lemma adopts_unchanged: "target_ok P s \<Longrightarrow> unchanged s t \<Longrightarrow> adopts P s t"
  by (simp add: adopts_def unchanged_def target_ok_def)

lemma adopts_accept:
  "target_ok P s \<Longrightarrow> list_all node_valid nodes \<Longrightarrow> P nodes \<Longrightarrow>
     nodes_tokens nodes < nodes_tokens (current_nodes s) \<Longrightarrow>
     adopts P s (accept_improvement nodes spans s)"
  by (simp add: adopts_def target_ok_def accept_improvement_def Let_def)

lemma compare_nodes_state: "snd (compare_nodes a b s) = s"
  by (simp add: compare_nodes_def lift_result_def split: sum.split)

section \<open>Every operation adopts\<close>

named_theorems adopting_intros \<open>procedures that adopt\<close>

lemma consider_split:
  assumes "consider_nodes W nodes s = (r, t)"
  shows "t = s \<and> (r = Inr True \<longrightarrow> nodes_sort_key_cmp nodes (current_nodes s) = Inr Equal)
       \<or> run_and_adopt W (FullRun nodes) s = (r, t)"
proof (cases "nodes_sort_key_cmp nodes (current_nodes s)")
  case (Inl e)
  then have "compare_nodes nodes (current_nodes s) s = (Inl (halt_of_internal e), s)"
    by (simp add: compare_nodes_def)
  then show ?thesis using assms by (auto simp: consider_nodes_def)
next
  case (Inr ord)
  then have one: "compare_nodes nodes (current_nodes s) s = (Inr ord, s)"
    by (simp add: compare_nodes_def)
  show ?thesis
  proof (cases "ord = Equal")
    case True
    then show ?thesis using assms one Inr by (auto simp: consider_nodes_def)
  next
    case ne: False
    let ?c = "if length (current_nodes s) < length nodes
              then take (length (current_nodes s)) nodes else nodes"
    obtain q where two: "compare_nodes (current_nodes s) ?c s = (q, s)"
      using compare_nodes_state by (metis prod.collapse)
    have eq: "consider_nodes W nodes s
      = ebind (compare_nodes (current_nodes s) ?c) (\<lambda>ord.
          if ord = Less then ret False
          else if length nodes = length (current_nodes s) \<and> changes_forced nodes (current_nodes s)
          then ret False
          else if max_improvements s \<le> improvements s then throw Stop
          else if stalled s then ret False
          else run_and_adopt W (FullRun nodes)) s"
      unfolding consider_nodes_def using ne by (simp add: one Let_def)
    show ?thesis
    proof (cases q)
      case (Inl e)
      then show ?thesis using assms unfolding eq by (auto simp: two)
    next
      case q: (Inr ord2)
      have "consider_nodes W nodes s = (if ord2 = Less then ret False
          else if length nodes = length (current_nodes s) \<and> changes_forced nodes (current_nodes s)
          then ret False
          else if max_improvements s \<le> improvements s then throw Stop
          else if stalled s then ret False
          else run_and_adopt W (FullRun nodes)) s"
        unfolding eq ebind_simps(2) [where m = "compare_nodes (current_nodes s) ?c" and s = s, OF two [unfolded q]] ..
      then show ?thesis using assms by (auto split: if_splits)
    qed
  qed
qed

lemma run_test_fn_interesting:
  assumes "world_for P W" "run_test_fn W run s = (Inr (True, nodes, spans), t)"
  shows "P nodes"
proof -
  obtain b u where past: "past_deadline W s = (Inr b, u)" by (rule past_deadline_cases)
  have "run_test_fn W run s = (if b then throw Stop else call_test_fn W run) u"
    by (simp add: run_test_fn_def past)
  then obtain env' where "test_fn W run (sh_env u) = (Inr (True, nodes, spans), env')"
    using assms(2) by (cases b) (auto simp: call_test_fn_def split: prod.splits)
  then show ?thesis using assms(1) unfolding world_for_def by blast
qed

lemma run_and_adopt_interesting:
  assumes W: "world_for P W" and s: "target_ok P s" and run: "run_and_adopt W run s = (r, t)"
  shows "P (current_nodes t)"
proof -
  obtain r' u where tf: "run_test_fn W run s = (r', u)" by fastforce
  have u: "current_nodes u = current_nodes s"
    using run_test_fn_result(1) [OF tf] by (simp add: unchanged_def)
  have P: "r' = Inr (True, nodes, spans) \<Longrightarrow> P nodes" for nodes spans
    using run_test_fn_interesting [OF W] tf by simp
  have "current_nodes t = current_nodes s \<or> (\<exists>nodes spans. r' = Inr (True, nodes, spans) \<and> current_nodes t = nodes)"
    using run tf u
    by (auto simp: run_and_adopt_def ebind_def modify_def get_state_def ret_def accept_improvement_def
        compare_nodes_def lift_result_def Let_def split: sum.splits prod.splits if_splits)
  then show ?thesis using P s by (auto simp: target_ok_def)
qed

lemma run_and_adopt_adopts:
  assumes "world_for P W" "target_ok P s" "run_and_adopt W run s = (r, t)"
  shows "adopts P s t" "r = Inr True \<Longrightarrow> improvements s < improvements t"
    "r \<noteq> Inr True \<Longrightarrow> improvements t = improvements s"
proof -
  have v: "list_all node_valid (current_nodes s)" using assms(2) by (simp add: target_ok_def)
  note result = run_and_adopt_result [OF world_for_ok [OF assms(1)] v assms(3)]
  from result show "adopts P s t"
  proof (elim disjE conjE)
    assume "unchanged s t"
    then show ?thesis by (rule adopts_unchanged [OF assms(2)])
  next
    assume "improved s t"
    then show ?thesis
      using run_and_adopt_interesting [OF assms]
      by (auto simp: improved_def adopts_def shrinks_to_def target_ok_def nodes_sort_key_cmp_eq v)
  qed
  from result
  show "r = Inr True \<Longrightarrow> improvements s < improvements t"
    "r \<noteq> Inr True \<Longrightarrow> improvements t = improvements s"
    by (auto simp: improved_def unchanged_def)
qed

lemma consider_adopts:
  assumes "world_for P W" "target_ok P s" "consider_nodes W nodes s = (r, t)"
  shows "adopts P s t"
    and "r = Inr True \<Longrightarrow> nodes_sort_key_cmp nodes (current_nodes s) \<noteq> Inr Equal \<Longrightarrow>
           improvements s < improvements t"
  using consider_split [OF assms(3)] run_and_adopt_adopts [OF assms(1,2)] adopting.step_refl [OF assms(2)]
  by auto

lemma safe_consider [adopting_intros]:
  assumes "world_for P W"
  shows "adopting.safe P (\<lambda>_. True) (consider_run W nodes)"
  unfolding consider_run_def
  by (rule adopting.safeI) (metis (no_types) consider_adopts(1) [OF assms] pcall_simp prod.collapse)

lemma safe_replace [adopting_intros]:
  assumes "world_for P W"
  shows "adopting.safe P (\<lambda>_. True) (replace_run W vals)"
proof (rule adopting.safeI)
  fix s :: "'a shrinker"
  assume s: "target_ok P s"
  obtain r t where rt: "replace W vals s = (r, t)" by fastforce
  have "adopts P s t"
    using rt s consider_adopts(1) [OF assms s] adopting.step_refl [OF s]
    by (auto simp: replace_def split: option.splits)
  then show "\<exists>r t. replace_run W vals s = Some (r, t) \<and> adopts P s t \<and> (\<forall>x. r = Inr x \<longrightarrow> True)"
    using rt by (simp add: replace_run_def)
qed

lemma safe_replace_int [adopting_intros]:
  "world_for P W \<Longrightarrow> adopting.safe P (\<lambda>_. True) (replace_int W i v)"
  unfolding replace_int_def by (rule safe_replace)

lemma safe_probe [adopting_intros]:
  assumes "world_for P W"
  shows "adopting.safe P (\<lambda>_. True) (probe_run W vals max_size)"
proof (rule adopting.safeI)
  fix s :: "'a shrinker"
  assume s: "target_ok P s"
  obtain r t where rt: "probe W vals max_size s = (r, t)" by fastforce
  obtain r' t' where run: "run_and_adopt W (ProbeRun vals max_size) s = (r', t')" by fastforce
  have "t = s \<or> t = t'" using rt run by (cases r') (auto simp: probe_def split: if_splits)
  then have "adopts P s t"
    using run_and_adopt_adopts(1) [OF assms s run] adopting.step_refl [OF s] by auto
  then show "\<exists>r t. probe_run W vals max_size s = Some (r, t) \<and> adopts P s t \<and> (\<forall>x. r = Inr x \<longrightarrow> True)"
    using rt by (simp add: probe_run_def)
qed

lemma safe_execute:
  assumes "world_for P W"
  shows "adopting.safe P (\<lambda>(i, nodes, _). list_all node_valid nodes \<and> (i \<longrightarrow> P nodes)) (execute W run)"
proof (rule adopting.safeI)
  fix s :: "'a shrinker"
  assume s: "target_ok P s"
  obtain r t where rt: "run_test_fn W run s = (r, t)" by fastforce
  have "r = Inr (i, nodes, spans) \<Longrightarrow> list_all node_valid nodes \<and> (i \<longrightarrow> P nodes)" for i nodes spans
    using run_test_fn_result(2) [OF rt world_for_ok [OF assms]] rt run_test_fn_interesting [OF assms, of run s]
    by auto
  then show "\<exists>r t. execute W run s = Some (r, t) \<and> adopts P s t
     \<and> (\<forall>x. r = Inr x \<longrightarrow> (case x of (i, nodes, _) \<Rightarrow> list_all node_valid nodes \<and> (i \<longrightarrow> P nodes)))"
    using rt adopts_unchanged [OF s run_test_fn_result(1) [OF rt]]
    by (auto simp: execute_def split: prod.splits)
qed

lemma safe_execute_bind:
  assumes "world_for P W"
    and "\<And>i nodes spans. list_all node_valid nodes \<Longrightarrow> i \<longrightarrow> P nodes \<Longrightarrow> adopting.safe P Q (f i nodes spans)"
  shows "adopting.safe P Q (pbind (execute W run) (\<lambda>(i, nodes, spans). f i nodes spans))"
  by (rule adopting.safe_pbind [OF safe_execute [OF assms(1)]]) (auto intro: assms(2))

lemma safe_count_call [adopting_intros]: "adopting.safe P (\<lambda>_. True) count_call"
  by (rule adopting.safeI) (simp add: count_call_def adopts_def target_ok_def)

lemma safe_self [adopting_intros]: "adopting.safe P (\<lambda>_. True) self"
  unfolding self_def by (rule adopting.safe_get)

lemma safe_adopt_if_smaller:
  assumes "list_all node_valid nodes" "b \<longrightarrow> P nodes"
  shows "adopting.safe P (\<lambda>_. True) (adopt_if_smaller b nodes spans)"
proof (rule adopting.safeI)
  fix s :: "'a shrinker"
  assume s: "target_ok P s"
  then have c: "compare_nodes nodes (current_nodes s) s
      = (Inr (cmp (nodes_tokens nodes) (nodes_tokens (current_nodes s))), s)"
    by (intro compare_nodes_ok) (auto simp: target_ok_def assms)
  show "\<exists>r t. adopt_if_smaller b nodes spans s = Some (r, t) \<and> adopts P s t \<and> (\<forall>x. r = Inr x \<longrightarrow> True)"
    using adopts_accept [OF s assms(1)] assms(2) adopting.step_refl [OF s]
    by (cases "nodes_tokens nodes < nodes_tokens (current_nodes s)")
      (auto simp: adopt_if_smaller_def self_def pbind_def c)
qed

lemma safe_panic [adopting_intros]: "adopting.safe P Q (pass_panic msg)"
  unfolding pass_panic_def by (rule adopting.safe_pthrow)

lemma safe_internal [adopting_intros]: "adopting.safe P (\<lambda>_. True) (internal r)"
  unfolding internal_def by (rule adopting.safe_preturn)

lemma safe_debug_assert [adopting_intros]: "adopting.safe P (\<lambda>_. True) (debug_assert c msg)"
  unfolding debug_assert_def by (rule safe_internal)

lemma safe_index_slice [adopting_intros]: "adopting.safe P (\<lambda>_. True) (index_slice xs i)"
  unfolding index_slice_def by (auto intro: adopting.safe_pret safe_panic)

lemma safe_index_range [adopting_intros]: "adopting.safe P (\<lambda>_. True) (index_range xs a b)"
  unfolding index_range_def by (auto intro: adopting.safe_pret safe_panic)

lemma safe_halting [adopting_intros]: "adopting.safe P Q m \<Longrightarrow> adopting.safe P Q (halting m)"
  unfolding halting_def by (rule adopting.safe_pmap_error)

lemma safe_or_gone [adopting_intros]: "adopting.safe P (\<lambda>_. True) (or_gone x)"
  unfolding or_gone_def by (auto intro: adopting.safe_pret adopting.safe_pthrow split: option.split)

lemma safe_absorbing [adopting_intros]:
  assumes "adopting.safe P (\<lambda>_. True) m"
  shows "adopting.safe P (\<lambda>_. True) (absorbing m)"
proof (rule adopting.safeI)
  fix s :: "'a shrinker"
  assume s: "target_ok P s"
  obtain r t where "m s = Some (r, t)" "adopts P s t"
    by (rule adopting.safeE [OF assms s]) (rule that)
  then show "\<exists>r t. absorbing m s = Some (r, t) \<and> adopts P s t \<and> (\<forall>x. r = Inr x \<longrightarrow> True)"
    by (simp add: absorbing_def)
qed

lemma safe_if [adopting_intros]:
  "(b \<Longrightarrow> adopting.safe P Q m) \<Longrightarrow> (\<not> b \<Longrightarrow> adopting.safe P Q n) \<Longrightarrow> adopting.safe P Q (if b then m else n)"
  by simp

lemma safe_case_option [adopting_intros]:
  "(x = None \<Longrightarrow> adopting.safe P Q m) \<Longrightarrow> (\<And>y. x = Some y \<Longrightarrow> adopting.safe P Q (f y)) \<Longrightarrow>
     adopting.safe P Q (case x of None \<Rightarrow> m | Some y \<Rightarrow> f y)"
  by (cases x) simp_all

lemma safe_case_prod [adopting_intros]:
  "(\<And>a b. x = (a, b) \<Longrightarrow> adopting.safe P Q (f a b)) \<Longrightarrow> adopting.safe P Q (case x of (a, b) \<Rightarrow> f a b)"
  by (cases x) simp

lemma safe_case_data [adopting_intros]:
  assumes "\<And>c v. d = DInteger c v \<Longrightarrow> adopting.safe P Q (fi c v)"
    and "\<And>c v. d = DBoolean c v \<Longrightarrow> adopting.safe P Q (fb c v)"
    and "\<And>c v. d = DFloat c v \<Longrightarrow> adopting.safe P Q (ff c v)"
    and "\<And>c v. d = DBytes c v \<Longrightarrow> adopting.safe P Q (fy c v)"
    and "\<And>c v. d = DString c v \<Longrightarrow> adopting.safe P Q (fs c v)"
    and "\<And>r. d = DClone r \<Longrightarrow> adopting.safe P Q (fc r)"
  shows "adopting.safe P Q (case d of DInteger c v \<Rightarrow> fi c v | DBoolean c v \<Rightarrow> fb c v | DFloat c v \<Rightarrow> ff c v
     | DBytes c v \<Rightarrow> fy c v | DString c v \<Rightarrow> fs c v | DClone r \<Rightarrow> fc r)"
  using assms by (cases d) simp_all

lemmas adopting_rules [adopting_intros] =
  adopting.safe_pret adopting.safe_pthrow adopting.safe_pbind_any adopting.safe_pfor
  adopting.safe_pfor_until adopting.safe_pfor_find adopting.safe_drive_find adopting.safe_drive_down
  adopting.safe_drive_down_big

text \<open>
  A loop over the target ends when each round that goes on improves the target or lowers a
  measure read off the loop variables and the target.
\<close>

lemma safe_loop:
  fixes body :: "'i \<Rightarrow> ('env shrinker, 'e, 'i + 'r) proc"
  assumes body: "\<And>i s. target_ok P s \<Longrightarrow> \<exists>r t. body i s = Some (r, t) \<and> adopts P s t
       \<and> (\<forall>j. r = Inr (Inl j) \<longrightarrow> improvements s < improvements t
            \<or> m j (current_nodes s) (current_spans s) < (m i (current_nodes s) (current_spans s) :: nat))"
  shows "adopting.safe P (\<lambda>_. True) (ploop body start)"
proof (rule adopting.safe_ploop_wf [where I = "\<lambda>_. True"
      and R = "inv_image (shrinks_to <*lex*> less_than)
        (\<lambda>(i, s). (current_nodes s, m i (current_nodes s) (current_spans s)))"])
  show "wf (inv_image (shrinks_to <*lex*> less_than)
        (\<lambda>(i, s). (current_nodes s, m i (current_nodes s) (current_spans s))))"
    by (intro wf_inv_image wf_lex_prod wf_shrinks_to wf_less_than)
next
  fix i and s :: "'env shrinker"
  assume s: "target_ok P s"
  let ?R = "inv_image (shrinks_to <*lex*> less_than)
        (\<lambda>(i, s). (current_nodes s, m i (current_nodes s) (current_spans s)))"
  obtain r t where b: "body i s = Some (r, t)" "adopts P s t"
    "\<And>j. r = Inr (Inl j) \<Longrightarrow> improvements s < improvements t
            \<or> m j (current_nodes s) (current_spans s) < m i (current_nodes s) (current_spans s)"
    using body [OF s] by blast
  have "((j, t), i, s) \<in> ?R" if "r = Inr (Inl j)" for j
    using b(2) b(3) [OF that] s
    by (auto simp: adopts_def shrinks_to_def nodes_sort_key_cmp_eq target_ok_def)
  then show "\<exists>r t. body i s = Some (r, t) \<and> adopts P s t
      \<and> (\<forall>j. r = Inr (Inl j) \<longrightarrow> True \<and> ((j, t), i, s) \<in> ?R) \<and> (\<forall>x. r = Inr (Inr x) \<longrightarrow> True)"
    using b(1,2) by blast
qed simp

text \<open>An index loop: the condition keeps the index below a bound read off the target.\<close>

lemma safe_while_progress:
  fixes body :: "nat \<Rightarrow> ('env, nat) pass"
  assumes bound: "\<And>i s. cond i s \<Longrightarrow> i < B (current_nodes s) (current_spans s)"
    and body: "\<And>i s. target_ok P s \<Longrightarrow> cond i s \<Longrightarrow> \<exists>r t. body i s = Some (r, t) \<and> adopts P s t
       \<and> (\<forall>j. r = Inr j \<longrightarrow> i < j \<or> improvements s < improvements t)"
  shows "adopting.safe P (\<lambda>_. True) (while_index cond start body)"
  unfolding while_index_def
proof (rule safe_loop [where m = "\<lambda>i nodes spans. B nodes spans - i"])
  fix i and s :: "'env shrinker"
  assume s: "target_ok P s"
  show "\<exists>r t. pbind self (\<lambda>s. if cond i s then pbind (body i) (\<lambda>i'. pret (Inl i')) else pret (Inr ())) s
      = Some (r, t) \<and> adopts P s t \<and> (\<forall>j. r = Inr (Inl j) \<longrightarrow> improvements s < improvements t
        \<or> B (current_nodes s) (current_spans s) - j < B (current_nodes s) (current_spans s) - i)"
  proof (cases "cond i s")
    case False
    then show ?thesis using adopting.step_refl [OF s] by (simp add: pbind_def self_def)
  next
    case True
    obtain r t where b: "body i s = Some (r, t)" "adopts P s t"
      "\<And>j. r = Inr j \<Longrightarrow> i < j \<or> improvements s < improvements t"
      using body [OF s True] by blast
    have "improvements s < improvements t
        \<or> B (current_nodes s) (current_spans s) - j < B (current_nodes s) (current_spans s) - i"
      if "r = Inr j" for j
      using b(3) [OF that] bound [OF True] by linarith
    then show ?thesis
      using True b(1,2) by (cases r) (auto simp: pbind_def self_def)
  qed
qed

lemma safe_while_index:
  fixes body :: "nat \<Rightarrow> ('env, nat) pass"
  assumes "\<And>i s. cond i s \<Longrightarrow> i < B (current_nodes s) (current_spans s)"
    and "\<And>i. adopting.safe P (\<lambda>j. i < j) (body i)"
  shows "adopting.safe P (\<lambda>_. True) (while_index cond start body)"
proof (rule safe_while_progress [where B = B, OF assms(1)])
  fix i and s :: "'env shrinker"
  assume "target_ok P s" "cond i s"
  then show "\<exists>r t. body i s = Some (r, t) \<and> adopts P s t
       \<and> (\<forall>j. r = Inr j \<longrightarrow> i < j \<or> improvements s < improvements t)"
    using adopting.safeE [OF assms(2), of s i] by metis
qed

lemma safe_each_node [adopting_intros]:
  assumes "\<And>i. adopting.safe P (\<lambda>_. True) (body i)"
  shows "adopting.safe P (\<lambda>_. True) (each_node body)"
  unfolding each_node_def
  by (rule safe_while_index [where B = "\<lambda>nodes _. length nodes"])
    (auto intro: adopting.safe_pbind_any [OF assms] adopting.safe_pret)

end
