(* ===== verification/FloatArith.thy ===== *)
theory FloatArith
  imports FloatChoice Search
begin

text \<open>
  The arithmetic of Rust's \<open>f64\<close>, which is that of IEEE 754 with rounding to nearest even, on
  bit patterns, and the conversions between floats and integers.
\<close>

section \<open>Arithmetic on floats\<close>

text \<open>The magnitude of a finite float as a ratio.\<close>

definition f64_ratio :: "f64 \<Rightarrow> nat \<times> nat" where
  "f64_ratio v =
     (let e = f64_scale v; m = f64_significand v
      in if 1075 \<le> e then (m * 2 ^ (e - 1075), 1) else (m, 2 ^ (1075 - e)))"

definition round_half_even :: "nat \<Rightarrow> nat \<Rightarrow> nat" where
  "round_half_even n d =
     (let q = n div d; r = n mod d
      in if d < 2 * r \<or> (2 * r = d \<and> odd q) then q + 1 else q)"

text \<open>The exponent \<open>e\<close> with \<open>2^e \<le> a / b < 2^(e+1)\<close>.\<close>

definition ratio_exponent :: "nat \<Rightarrow> nat \<Rightarrow> int" where
  "ratio_exponent a b =
     (let k = int (bit_len a) - int (bit_len b)
      in if b * 2 ^ nat k \<le> a * 2 ^ nat (- k) then k else k - 1)"

definition f64_of_ratio :: "nat \<Rightarrow> nat \<Rightarrow> f64" where
  "f64_of_ratio a b =
     (if a = 0 then f64_zero
      else let e = max (ratio_exponent a b) (-1022);
               significand = round_half_even (a * 2 ^ nat (52 - e)) (b * 2 ^ nat (e - 52));
               bits = nat (e + 1022) * 2 ^ 52 + significand
           in if 2047 * 2 ^ 52 \<le> bits then f64_infinity else of_nat bits)"

definition f64_signed :: "bool \<Rightarrow> f64 \<Rightarrow> f64" where
  "f64_signed negative mag = (if negative then f64_neg mag else mag)"

text \<open>\<open>i as f64\<close> and, truncating and saturating, \<open>v as i128\<close>.\<close>

definition f64_of_int :: "int \<Rightarrow> f64" where
  "f64_of_int i = f64_signed (i < 0) (f64_of_ratio (nat \<bar>i\<bar>) 1)"

definition f64_to_i128 :: "f64 \<Rightarrow> int" where
  "f64_to_i128 v =
     (if is_nan v then 0
      else if is_infinite v then (if is_sign_negative v then I128_MIN else I128_MAX)
      else let n = int (fst (f64_ratio v) div snd (f64_ratio v))
           in max I128_MIN (min I128_MAX (if is_sign_negative v then - n else n)))"

definition f64_is_zero :: "f64 \<Rightarrow> bool" where
  "f64_is_zero v \<longleftrightarrow> f64_magnitude v = 0"

definition f64_mul :: "f64 \<Rightarrow> f64 \<Rightarrow> f64" where
  "f64_mul x y =
     (let negative = (is_sign_negative x \<noteq> is_sign_negative y) in
      if is_nan x \<or> is_nan y then f64_NAN
      else if is_infinite x \<or> is_infinite y
      then (if f64_is_zero x \<or> f64_is_zero y then f64_NAN else f64_signed negative f64_infinity)
      else case (f64_ratio x, f64_ratio y) of
             ((a, b), (c, d)) \<Rightarrow> f64_signed negative (f64_of_ratio (a * c) (b * d)))"

definition f64_div :: "f64 \<Rightarrow> f64 \<Rightarrow> f64" where
  "f64_div x y =
     (let negative = (is_sign_negative x \<noteq> is_sign_negative y) in
      if is_nan x \<or> is_nan y \<or> (is_infinite x \<and> is_infinite y) \<or> (f64_is_zero x \<and> f64_is_zero y)
      then f64_NAN
      else if is_infinite x \<or> f64_is_zero y then f64_signed negative f64_infinity
      else if is_infinite y then f64_signed negative f64_zero
      else case (f64_ratio x, f64_ratio y) of
             ((a, b), (c, d)) \<Rightarrow> f64_signed negative (f64_of_ratio (a * d) (b * c)))"

definition f64_add :: "f64 \<Rightarrow> f64 \<Rightarrow> f64" where
  "f64_add x y =
     (if is_nan x \<or> is_nan y
         \<or> (is_infinite x \<and> is_infinite y \<and> is_sign_negative x \<noteq> is_sign_negative y) then f64_NAN
      else if is_infinite x then x
      else if is_infinite y then y
      else case (f64_ratio x, f64_ratio y) of
             ((a, b), (c, d)) \<Rightarrow>
               let n = (if is_sign_negative x then - 1 else 1) * int (a * d)
                       + (if is_sign_negative y then - 1 else 1) * int (c * b)
               in if n = 0
                  then f64_signed (is_sign_negative x \<and> is_sign_negative y) f64_zero
                  else f64_signed (n < 0) (f64_of_ratio (nat \<bar>n\<bar>) (b * d)))"

definition f64_sub :: "f64 \<Rightarrow> f64 \<Rightarrow> f64" where
  "f64_sub x y = f64_add x (f64_neg y)"

end
