(* ===== verification/PassFloats.thy ===== *)
theory PassFloats
  imports PassBase FloatArith
begin

text \<open>
  The float passes of \<open>hegel-c/src/native/shrinker/floats.rs\<close>. The C library's \<open>ceil\<close>, \<open>floor\<close>
  and \<open>exp2\<close> and the conversion of a big integer to a float are parameters.
\<close>

section \<open>Integer ratios\<close>

fun trailing_zeros :: "nat \<Rightarrow> nat" where
  "trailing_zeros n =
     (if n = 0 then 128 else if even n then Suc (trailing_zeros (n div 2)) else 0)"

declare trailing_zeros.simps [simp del]

text \<open>\<open>u128::checked_shl\<close> checks the shift amount only; bits shifted out are lost.\<close>

definition u128_checked_shl :: "nat \<Rightarrow> nat \<Rightarrow> nat option" where
  "u128_checked_shl n k = (if k < 128 then Some (n * 2 ^ k mod 2 ^ 128) else None)"

definition as_integer_ratio :: "f64 \<Rightarrow> (nat \<times> nat) option internal_result" where
  "as_integer_ratio v =
     rbind (hegel_internal_assert (is_finite v \<and> f64_lt f64_zero v)
              ''v.is_finite() && v > 0.0'') (\<lambda>_.
     let biased_exp = unat (f64_exponent v);
         mantissa_bits = unat (f64_mantissa v);
         num = (if biased_exp = 0 then mantissa_bits else 2 ^ 52 + mantissa_bits);
         exp = (if biased_exp = 0 then - 1074 else int biased_exp - 1023 - 52);
         trailing = trailing_zeros num;
         num = num div 2 ^ trailing;
         exp = exp + int trailing
     in Inr (if 0 \<le> exp
             then map_option (\<lambda>shifted. (shifted, 1)) (u128_checked_shl num (nat exp))
             else map_option (\<lambda>n. (num, n)) (u128_checked_shl 1 (nat (- exp)))))"

section \<open>One float node\<close>

definition MAX_PRECISE_INTEGER :: f64 where
  "MAX_PRECISE_INTEGER = u64_to_f64 (push_bit 53 1)"

definition float_at :: "nat \<Rightarrow> choice_node list \<Rightarrow> f64 option" where
  "float_at i nodes =
     (if i < length nodes then map_option snd (as_float (node_data (nodes ! i))) else None)"

definition live_float :: "nat \<Rightarrow> ('env, f64) node_pass" where
  "live_float i = pbind self (\<lambda>s. or_gone (float_at i (current_nodes s)))"

definition put_float :: "'env shrink_world \<Rightarrow> nat \<Rightarrow> f64 \<Rightarrow> ('env, bool) pass" where
  "put_float W i v = replace_run W [(i, VFloat v)]"

text \<open>Propose a float the constraint allows; the answer is whether it was adopted.\<close>

definition put_allowed :: "'env shrink_world \<Rightarrow> float_choice \<Rightarrow> nat \<Rightarrow> f64 \<Rightarrow> ('env, bool) node_pass" where
  "put_allowed W fc i v = (if float_validate fc v then halting (put_float W i v) else pret False)"

definition float_infinite_step :: "'env shrink_world \<Rightarrow> float_choice \<Rightarrow> nat \<Rightarrow> ('env, unit) node_pass" where
  "float_infinite_step W fc i =
     pbind (live_float i) (\<lambda>v.
     if is_infinite v
     then
       pbind (if f64_lt v f64_zero then put_allowed W fc i f64_infinity else pret False) (\<lambda>_.
       pbind (live_float i) (\<lambda>v.
       if is_infinite v
       then pbind (put_allowed W fc i (if f64_lt f64_zero v then f64_MAX else f64_neg f64_MAX))
              (\<lambda>_. pret ())
       else pret ()))
     else pret ())"

text \<open>
  A NaN that is not the canonical one may be replaced by the canonical one, whose sort key is
  the same: this adoption is not counted as an improvement.
\<close>

definition adopt_if_not_larger ::
  "bool \<Rightarrow> choice_node list \<Rightarrow> span list \<Rightarrow> ('env, unit) pass" where
  "adopt_if_not_larger is_interesting nodes spans =
     (if \<not> is_interesting then pret ()
      else pbind self (\<lambda>s.
           pbind (pcall (compare_nodes nodes (current_nodes s))) (\<lambda>ord.
           if ord = Greater then pret ()
           else pcall (modify (\<lambda>s. s\<lparr>current_nodes := nodes, current_spans := spans\<rparr>)))))"

definition try_nan_steps :: "'env shrink_world \<Rightarrow> float_choice \<Rightarrow> nat \<Rightarrow> ('env, bool) node_pass" where
  "try_nan_steps W fc i = pfor_until [f64_MAX, f64_infinity] (put_allowed W fc i)"

definition canonical_nan :: "'env shrink_world \<Rightarrow> float_choice \<Rightarrow> nat \<Rightarrow> ('env, unit) pass" where
  "canonical_nan W fc i =
     pbind self (\<lambda>s.
     pbind (index_slice (current_nodes s) i) (\<lambda>node.
     let attempt = (current_nodes s)[i := ChoiceNode (DFloat fc f64_NAN) (was_forced node)] in
     pbind (execute W (FullRun attempt)) (\<lambda>(is_interesting, actual_nodes, actual_spans).
     pbind count_call (\<lambda>_.
     adopt_if_not_larger is_interesting actual_nodes actual_spans))))"

definition float_nan_step :: "'env shrink_world \<Rightarrow> float_choice \<Rightarrow> nat \<Rightarrow> ('env, unit) node_pass" where
  "float_nan_step W fc i =
     pbind (live_float i) (\<lambda>v.
     if \<not> is_nan v then pret ()
     else
       pbind (try_nan_steps W fc i) (\<lambda>stepped.
       if \<not> stepped \<and> v \<noteq> f64_NAN \<and> float_validate fc f64_NAN
       then halting (canonical_nan W fc i) else pret ()))"

definition float_sign_step :: "'env shrink_world \<Rightarrow> float_choice \<Rightarrow> nat \<Rightarrow> f64 \<Rightarrow> ('env, unit) node_pass" where
  "float_sign_step W fc i v =
     (if is_sign_negative v
      then pbind (put_allowed W fc i (f64_neg v)) (\<lambda>_. pret ()) else pret ())"

definition negate_if :: "bool \<Rightarrow> f64 \<Rightarrow> f64" where
  "negate_if is_neg mag = (if is_neg then f64_neg mag else mag)"

definition float_large_step :: "(f64 \<Rightarrow> f64) \<Rightarrow> 'env shrink_world \<Rightarrow> float_choice \<Rightarrow> nat \<Rightarrow> f64
    \<Rightarrow> ('env, unit) node_pass" where
  "float_large_step libm_ceil W fc i v =
     (let is_neg = is_sign_negative v; v_abs = f64_abs v;
          base = (if f64_le (f64_of_int I128_MAX) v_abs then I128_MAX else f64_to_i128 v_abs)
      in pbind (drive_find (\<lambda>k.
           if 127 \<le> k then pret False
           else put_allowed W fc i (negate_if is_neg (f64_of_int (base div 2 ^ k))))) (\<lambda>_.
         pbind (live_float i) (\<lambda>cur.
         if \<not> is_finite cur then pret ()
         else
           let base_after = f64_to_i128 (f64_abs cur);
               lo = f64_to_i128 (libm_ceil (if is_neg
                      then f64_max (f64_neg (fc_max_value fc)) f64_zero
                      else f64_max (fc_min_value fc) f64_zero))
           in pfor [2, 1] (\<lambda>step.
                pbind (drive_find (\<lambda>n.
                  let attempt = base_after - step * int n
                  in if attempt < lo then pret False
                     else halting (put_float W i (negate_if is_neg (f64_of_int attempt)))))
                  (\<lambda>_. pret ())))))"

definition float_fraction_step :: "(f64 \<Rightarrow> f64) \<Rightarrow> (f64 \<Rightarrow> f64) \<Rightarrow> (f64 \<Rightarrow> f64) \<Rightarrow> 'env shrink_world
    \<Rightarrow> float_choice \<Rightarrow> nat \<Rightarrow> bool \<Rightarrow> ('env, unit) node_pass" where
  "float_fraction_step libm_ceil libm_floor libm_exp2 W fc i is_neg =
     pbind (live_float i) (\<lambda>cur.
     let cur_abs = f64_abs cur in
     pfor (rev [0..<11]) (\<lambda>p.
       let scale = libm_exp2 (f64_of_int (int p)); scaled = f64_mul cur_abs scale in
       pfor [libm_floor scaled, libm_ceil scaled] (\<lambda>rounded.
         let candidate_mag = f64_div rounded scale
         in if \<not> is_finite candidate_mag \<or> float_to_index cur_abs \<le> float_to_index candidate_mag
            then pret ()
            else pbind (put_allowed W fc i (negate_if is_neg candidate_mag)) (\<lambda>_. pret ()))))"

definition float_index_step :: "'env shrink_world \<Rightarrow> float_choice \<Rightarrow> nat \<Rightarrow> ('env, unit) node_pass" where
  "float_index_step W fc i =
     pbind (live_float i) (\<lambda>v.
     let current_idx = float_to_index (f64_abs v) in
     if current_idx = 0 then pret ()
     else drive_down (Halt \<circ> halt_of_internal) 0 (uint current_idx) (\<lambda>idx.
            put_allowed W fc i (negate_if (is_sign_negative v) (index_to_float (of_int idx)))))"

text \<open>\<open>m as i128\<close> of a \<open>u128\<close> and back, which reinterpret the bits.\<close>

definition u128_as_i128 :: "nat \<Rightarrow> int" where
  "u128_as_i128 m = (if 2 ^ 127 \<le> m then int m - 2 ^ 128 else int m)"

definition i128_as_u128 :: "int \<Rightarrow> nat" where
  "i128_as_u128 i = nat (i mod 2 ^ 128)"

definition float_ratio_step :: "'env shrink_world \<Rightarrow> float_choice \<Rightarrow> nat \<Rightarrow> ('env, unit) node_pass" where
  "float_ratio_step W fc i =
     pbind (live_float i) (\<lambda>v.
     if \<not> is_finite v \<or> f64_eq v f64_zero then pret ()
     else
       pbind (halting (internal (as_integer_ratio (f64_abs v)))) (\<lambda>ratio.
       case ratio of
         None \<Rightarrow> pret ()
       | Some (m, n) \<Rightarrow>
           let k_init = m div n; r = m mod n in
           if k_init = 0 then pret ()
           else drive_down (Halt \<circ> halt_of_internal) 0 (u128_as_i128 k_init) (\<lambda>k.
             let num_sum = i128_as_u128 k * n + r;
                 candidate = negate_if (is_sign_negative v)
                   (f64_div (f64_of_int (int num_sum)) (f64_of_int (int n)))
             in if \<not> float_validate fc candidate then pret False
                else
                  pbind self (\<lambda>s.
                  let epoch = improvements s in
                  pbind (halting (put_float W i candidate)) (\<lambda>_.
                  pbind self (\<lambda>s. pret (epoch < improvements s))))))) "

definition float_first_steps :: "(f64 \<Rightarrow> f64) \<Rightarrow> 'env shrink_world \<Rightarrow> float_choice \<Rightarrow> nat \<Rightarrow> f64
    \<Rightarrow> ('env, unit) node_pass" where
  "float_first_steps libm_ceil W fc i v =
     pbind (halting (internal (float_simplest libm_ceil fc))) (\<lambda>simplest.
     pbind (if \<not> value_eq (VFloat simplest) (VFloat v) then halting (put_float W i simplest)
            else pret False) (\<lambda>_.
     float_infinite_step W fc i))"

definition float_last_steps :: "(f64 \<Rightarrow> f64) \<Rightarrow> (f64 \<Rightarrow> f64) \<Rightarrow> (f64 \<Rightarrow> f64) \<Rightarrow> 'env shrink_world
    \<Rightarrow> float_choice \<Rightarrow> nat \<Rightarrow> ('env, unit) node_pass" where
  "float_last_steps libm_ceil libm_floor libm_exp2 W fc i =
     pbind (live_float i) (\<lambda>v.
     if is_nan v then pret ()
     else
       pbind (float_sign_step W fc i v) (\<lambda>_.
       pbind (live_float i) (\<lambda>v.
       let v_abs = f64_abs v in
       pbind (if is_finite v_abs \<and> f64_lt f64_zero v_abs
              then (if f64_le MAX_PRECISE_INTEGER v_abs
                    then float_large_step libm_ceil W fc i v
                    else float_fraction_step libm_ceil libm_floor libm_exp2 W fc i (is_sign_negative v))
              else pret ()) (\<lambda>_.
       pbind (float_index_step W fc i) (\<lambda>_.
       float_ratio_step W fc i)))))"

definition shrink_float_node :: "(f64 \<Rightarrow> f64) \<Rightarrow> (f64 \<Rightarrow> f64) \<Rightarrow> (f64 \<Rightarrow> f64) \<Rightarrow> 'env shrink_world
    \<Rightarrow> nat \<Rightarrow> ('env, unit) node_pass" where
  "shrink_float_node libm_ceil libm_floor libm_exp2 W i =
     pbind self (\<lambda>s.
     pbind (halting (index_slice (current_nodes s) i)) (\<lambda>node.
     case node_data node of
       DFloat fc v \<Rightarrow>
         pbind (float_first_steps libm_ceil W fc i v) (\<lambda>_.
         pbind (float_nan_step W fc i) (\<lambda>_.
         float_last_steps libm_ceil libm_floor libm_exp2 W fc i))
     | _ \<Rightarrow> pret ()))"

definition shrink_floats :: "(f64 \<Rightarrow> f64) \<Rightarrow> (f64 \<Rightarrow> f64) \<Rightarrow> (f64 \<Rightarrow> f64) \<Rightarrow> 'env shrink_world
    \<Rightarrow> ('env, unit) pass" where
  "shrink_floats libm_ceil libm_floor libm_exp2 W =
     each_node (\<lambda>i. absorbing (shrink_float_node libm_ceil libm_floor libm_exp2 W i))"

section \<open>Numeric pairs\<close>

datatype numeric = NumInteger integer_choice int | NumFloat float_choice f64

definition numeric_at :: "choice_data \<Rightarrow> numeric option" where
  "numeric_at d =
     (case d of
        DInteger ic v \<Rightarrow> Some (NumInteger ic v)
      | DFloat fc v \<Rightarrow> Some (NumFloat fc v)
      | _ \<Rightarrow> None)"

fun numeric_as_f64 :: "(int \<Rightarrow> f64) \<Rightarrow> numeric \<Rightarrow> f64" where
  "numeric_as_f64 bigint_as_f64 (NumInteger _ n) = bigint_as_f64 n"
| "numeric_as_f64 bigint_as_f64 (NumFloat _ f) = f"

fun shrink_target :: "(int \<Rightarrow> f64) \<Rightarrow> numeric \<Rightarrow> f64" where
  "shrink_target bigint_as_f64 (NumInteger ic _) = bigint_as_f64 (integer_simplest ic)"
| "shrink_target bigint_as_f64 (NumFloat _ _) = f64_zero"

fun can_choose_for_redistribute :: "numeric \<Rightarrow> bool" where
  "can_choose_for_redistribute (NumFloat _ f) \<longleftrightarrow> is_finite f \<and> f64_lt (f64_abs f) MAX_PRECISE_INTEGER"
| "can_choose_for_redistribute (NumInteger _ _) \<longleftrightarrow> True"

fun is_trivial :: "(f64 \<Rightarrow> f64) \<Rightarrow> numeric \<Rightarrow> bool internal_result" where
  "is_trivial libm_ceil (NumInteger ic v) = Inr (v = integer_simplest ic)"
| "is_trivial libm_ceil (NumFloat fc v) =
     (if \<not> is_finite v then Inr True
      else rbind (float_simplest libm_ceil fc) (\<lambda>s. Inr (f64_eq v s)))"

fun numeric_add :: "numeric \<Rightarrow> int \<Rightarrow> numeric" where
  "numeric_add (NumInteger ic n) k = NumInteger ic (n + k)"
| "numeric_add (NumFloat fc f) k = NumFloat fc (f64_add f (f64_of_int k))"

fun build_value :: "numeric \<Rightarrow> choice_value option" where
  "build_value (NumInteger ic n) = map_option VInteger (value_from_bigint ic n)"
| "build_value (NumFloat fc f) = (if float_validate fc f then Some (VFloat f) else None)"

datatype direction = LowerLeftRaiseRight | RaiseLeftLowerRight

definition apply_delta :: "numeric \<Rightarrow> numeric \<Rightarrow> int \<Rightarrow> direction \<Rightarrow> numeric \<times> numeric" where
  "apply_delta v_i v_j k dir =
     (let signed_k_i = (case dir of LowerLeftRaiseRight \<Rightarrow> - k | RaiseLeftLowerRight \<Rightarrow> k)
      in (numeric_add v_i signed_k_i, numeric_add v_j (- signed_k_i)))"

definition redistribute_pair :: "(int \<Rightarrow> f64) \<Rightarrow> 'env shrink_world \<Rightarrow> nat \<Rightarrow> numeric \<Rightarrow> nat \<Rightarrow> numeric
    \<Rightarrow> ('env, unit) pass" where
  "redistribute_pair bigint_as_f64 W i num_i j num_j =
     (let dir = (if f64_le (shrink_target bigint_as_f64 num_i) (numeric_as_f64 bigint_as_f64 num_i)
                 then LowerLeftRaiseRight else RaiseLeftLowerRight)
      in pbind (drive_find (\<lambda>k.
           case apply_delta num_i num_j (int k) dir of
             (cand_i, cand_j) \<Rightarrow>
               (case (build_value cand_i, build_value cand_j) of
                  (Some val_i, Some val_j) \<Rightarrow> replace_run W [(i, val_i), (j, val_j)]
                | _ \<Rightarrow> pret False))) (\<lambda>_. pret ()))"

definition redistribute_numeric_at :: "(f64 \<Rightarrow> f64) \<Rightarrow> (int \<Rightarrow> f64) \<Rightarrow> 'env shrink_world \<Rightarrow> nat \<Rightarrow> nat
    \<Rightarrow> ('env, bool) pass" where
  "redistribute_numeric_at libm_ceil bigint_as_f64 W i gap =
     pbind self (\<lambda>s.
     if length (current_nodes s) \<le> i + gap then pret True
     else
       case (numeric_at (node_data (current_nodes s ! i)),
             numeric_at (node_data (current_nodes s ! (i + gap)))) of
         (Some num_i, Some num_j) \<Rightarrow>
           if (case (num_i, num_j) of (NumInteger _ _, NumInteger _ _) \<Rightarrow> True | _ \<Rightarrow> False)
              \<or> \<not> can_choose_for_redistribute num_i \<or> \<not> can_choose_for_redistribute num_j
           then pret False
           else
             pbind (internal (is_trivial libm_ceil num_i)) (\<lambda>trivial.
             if trivial then pret False
             else pbind (redistribute_pair bigint_as_f64 W i num_i (i + gap) num_j) (\<lambda>_. pret False))
       | _ \<Rightarrow> pret False)"

definition redistribute_numeric_pairs ::
  "(f64 \<Rightarrow> f64) \<Rightarrow> (int \<Rightarrow> f64) \<Rightarrow> 'env shrink_world \<Rightarrow> ('env, unit) pass" where
  "redistribute_numeric_pairs libm_ceil bigint_as_f64 W =
     pbind self (\<lambda>s.
     pfor [0..<length (current_nodes s)] (\<lambda>i.
       pbind (pfor_until [1..<5] (redistribute_numeric_at libm_ceil bigint_as_f64 W i)) (\<lambda>_. pret ())))"

section \<open>The float passes descend\<close>

lemma safe_redistribute_numeric_pairs:
  assumes "world_for P W"
  shows "adopting.safe P (\<lambda>_. True) (redistribute_numeric_pairs libm_ceil bigint_as_f64 W)"
  unfolding redistribute_numeric_pairs_def redistribute_numeric_at_def redistribute_pair_def Let_def
  by (intro adopting_intros assms TrueI)

lemma safe_live_float [adopting_intros]: "adopting.safe P (\<lambda>_. True) (live_float i)"
  unfolding live_float_def by (intro adopting_intros)

lemma safe_put_float [adopting_intros]:
  "world_for P W \<Longrightarrow> adopting.safe P (\<lambda>_. True) (put_float W i v)"
  "world_for P W \<Longrightarrow> adopting.safe P (\<lambda>_. True) (put_allowed W fc i v)"
  unfolding put_allowed_def put_float_def by (intro adopting_intros TrueI; assumption)+

lemma safe_float_steps:
  assumes "world_for P W"
  shows "adopting.safe P (\<lambda>_. True) (float_first_steps libm_ceil W fc i v)"
    and "adopting.safe P (\<lambda>_. True) (try_nan_steps W fc i)"
    and "adopting.safe P (\<lambda>_. True) (float_last_steps libm_ceil libm_floor libm_exp2 W fc i)"
  unfolding float_first_steps_def float_infinite_step_def try_nan_steps_def float_last_steps_def
    float_sign_step_def float_large_step_def float_fraction_step_def float_index_step_def
    float_ratio_step_def Let_def
  by (intro adopting_intros assms TrueI)+

lemma safe_adopt_if_not_larger:
  assumes "list_all node_valid nodes" "b \<longrightarrow> P nodes"
  shows "descending.safe P (\<lambda>_. True) (adopt_if_not_larger b nodes spans)"
proof (rule descending.safeI)
  fix s :: "'a shrinker"
  assume s: "target_ok P s"
  then have c: "compare_nodes nodes (current_nodes s) s
      = (Inr (cmp (nodes_tokens nodes) (nodes_tokens (current_nodes s))), s)"
    by (intro compare_nodes_ok) (auto simp: target_ok_def assms)
  show "\<exists>r t. adopt_if_not_larger b nodes spans s = Some (r, t) \<and> descends P s t \<and> (\<forall>x. r = Inr x \<longrightarrow> True)"
    using s assms descending.step_refl [OF s]
    by (cases "nodes_tokens nodes \<le> nodes_tokens (current_nodes s)")
      (auto simp: adopt_if_not_larger_def self_def pbind_def c cmp_def descends_def target_ok_def)
qed

lemma descending_halting: "descending.safe P Q m \<Longrightarrow> descending.safe P Q (halting m)"
  unfolding halting_def by (rule descending.safe_pmap_error)

lemma descending_self: "descending.safe P (\<lambda>_. True) self"
  unfolding self_def by (rule descending.safe_get)

lemma descending_canonical_nan:
  assumes "world_for P W"
  shows "descending.safe P (\<lambda>_. True) (canonical_nan W fc i)"
  unfolding canonical_nan_def Let_def
  by (intro descending.safe_pbind_any descending_self safe_descending [OF safe_index_slice]
      descending.safe_pbind [OF safe_descending [OF safe_execute]] safe_descending [OF safe_count_call])
    (auto intro!: assms descending.safe_pbind_any safe_descending [OF safe_count_call] safe_adopt_if_not_larger
      split: prod.split)

lemma descending_float_nan_step:
  assumes "world_for P W"
  shows "descending.safe P (\<lambda>_. True) (float_nan_step W fc i)"
  unfolding float_nan_step_def
  by (auto intro!: descending.safe_pbind_any safe_descending [OF safe_live_float] descending.safe_pret
      safe_descending [OF safe_float_steps(2)] descending_halting descending_canonical_nan assms)

lemma descending_shrink_float_node:
  assumes "world_for P W"
  shows "descending.safe P (\<lambda>_. True) (shrink_float_node libm_ceil libm_floor libm_exp2 W i)"
  unfolding shrink_float_node_def
  by (auto intro!: descending.safe_pbind_any descending_self descending_halting safe_descending [OF safe_index_slice]
      safe_descending [OF safe_float_steps(1)] safe_descending [OF safe_float_steps(3)] descending.safe_pret
      descending_float_nan_step assms split: choice_data.split)

lemma descending_absorbing:
  assumes "descending.safe P (\<lambda>_. True) m"
  shows "descending.safe P (\<lambda>_. True) (absorbing m)"
proof (rule descending.safeI)
  fix s :: "'a shrinker"
  assume s: "target_ok P s"
  obtain r t where "m s = Some (r, t)" "descends P s t"
    by (rule descending.safeE [OF assms s]) (rule that)
  then show "\<exists>r t. absorbing m s = Some (r, t) \<and> descends P s t \<and> (\<forall>x. r = Inr x \<longrightarrow> True)"
    by (simp add: absorbing_def)
qed

lemma length_flattened: "length nodes \<le> flattened_len nodes"
  by (induction nodes) (auto simp: flattened_len_def split: choice_data.split)

text \<open>
  A walk over the nodes ends although adopted nodes may be as large as the old ones: it stops
  at the length, which the flattened length bounds.
\<close>

lemma descending_each_node:
  fixes body :: "nat \<Rightarrow> ('env, unit) pass"
  assumes "\<And>i. descending.safe P (\<lambda>_. True) (body i)"
  shows "descending.safe P (\<lambda>_. True) (each_node body)"
  unfolding each_node_def while_index_def
proof (rule descending.safe_ploop_wf [where I = "\<lambda>_. True"
      and R = "measure (\<lambda>(i, s). flattened_len (current_nodes s) - i)"])
  fix i and s :: "'env shrinker"
  assume s: "target_ok P s"
  obtain r t where b: "body i s = Some (r, t)" "descends P s t"
    by (rule descending.safeE [OF assms s]) (rule that)
  let ?body = "pbind self (\<lambda>s. if i < length (current_nodes s)
      then pbind (pbind (body i) (\<lambda>_. pret (i + 1))) (\<lambda>i'. pret (Inl i')) else pret (Inr ()))"
  show "\<exists>r t. ?body s = Some (r, t) \<and> descends P s t
      \<and> (\<forall>j. r = Inr (Inl j) \<longrightarrow> True
           \<and> ((j, t), i, s) \<in> measure (\<lambda>(i, s). flattened_len (current_nodes s) - i))
      \<and> (\<forall>x. r = Inr (Inr x) \<longrightarrow> True)"
    using b descending.step_refl [OF s] descends_flattened [OF b(2)] length_flattened [of "current_nodes s"]
    by (cases r) (auto simp: pbind_def self_def)
qed simp_all

lemma descending_shrink_floats:
  assumes "world_for P W"
  shows "descending.safe P (\<lambda>_. True) (shrink_floats libm_ceil libm_floor libm_exp2 W)"
  unfolding shrink_floats_def
  by (intro descending_each_node descending_absorbing descending_shrink_float_node assms)

end
