(* ===== verification/FloatRatio.thy ===== *)
theory FloatRatio
  imports PassFloats
begin

text \<open>
  What the integer-ratio step of the float pass relies on: \<open>as_integer_ratio\<close> of \<open>floats.rs\<close>
  is exact on floats below \<open>2^128\<close>, and drops the high bits of larger ones.
\<close>

lemma trailing_zeros_split:
  "0 < n \<Longrightarrow> n = n div 2 ^ trailing_zeros n * 2 ^ trailing_zeros n \<and> odd (n div 2 ^ trailing_zeros n)"
proof (induction n rule: trailing_zeros.induct)
  case (1 n)
  show ?case
  proof (cases "even n")
    case False
    then show ?thesis using 1(2) by (simp add: trailing_zeros.simps [of n])
  next
    case True
    then have pos: "0 < n div 2" using 1(2) by auto
    have tz: "trailing_zeros n = Suc (trailing_zeros (n div 2))"
      using 1(2) True by (simp add: trailing_zeros.simps [of n])
    have "n div 2 ^ trailing_zeros n = n div 2 div 2 ^ trailing_zeros (n div 2)"
      by (simp add: tz div_mult2_eq)
    then show ?thesis using 1(1) [OF _ True pos] 1(2) True tz by (auto elim!: evenE)
  qed
qed

lemma as_integer_ratio_eq:
  assumes "is_finite v" "f64_lt f64_zero v"
  defines "n \<equiv> f64_significand v"
  defines "t \<equiv> trailing_zeros n"
  defines "x \<equiv> int (f64_scale v) - 1075 + int t"
  shows "as_integer_ratio v = Inr (if 0 \<le> x
      then map_option (\<lambda>shifted. (shifted, 1)) (u128_checked_shl (n div 2 ^ t) (nat x))
      else map_option (\<lambda>q. (n div 2 ^ t, q)) (u128_checked_shl 1 (nat (- x))))"
proof -
  have "(if unat (f64_exponent v) = 0 then unat (f64_mantissa v) else 2 ^ 52 + unat (f64_mantissa v)) = n"
    by (auto simp: n_def f64_significand_def unat_eq_zero)
  moreover have "(if unat (f64_exponent v) = 0 then - 1074 else int (unat (f64_exponent v)) - 1023 - 52)
       = int (f64_scale v) - 1075"
    by (auto simp: f64_scale_def unat_eq_zero)
  ultimately show ?thesis
    using assms(1,2) unfolding as_integer_ratio_def x_def t_def
    by (simp only: hegel_internal_assert_def rbind_def sum.case if_True Let_def simp_thms)
qed

lemma positive_significand:
  assumes "f64_lt f64_zero v"
  shows "0 < f64_significand v"
proof (rule ccontr)
  assume "\<not> 0 < f64_significand v"
  then have "f64_exponent v = 0" "f64_mantissa v = 0"
    by (auto simp: f64_significand_def unat_eq_zero split: if_splits)
  then have "\<not> is_sign_negative v \<Longrightarrow> v = 0"
    using exponent_mantissa_split [of v] by simp
  moreover have "\<not> is_sign_negative v"
    using assms by (auto simp: f64_lt_def f64_key_def f64_zero_def f64_magnitude_def is_sign_negative_def
        uint_nonnegative not_less [symmetric] split: if_splits)
  ultimately show False
    using assms by (simp add: f64_lt_def f64_key_def f64_zero_def)
qed

text \<open>Below \<open>2^128\<close> the decomposition of a positive finite float into an integer ratio is
  exact and in lowest terms.\<close>
theorem as_integer_ratio_exact:
  assumes "is_finite v" "f64_lt f64_zero v" "f64_ratio v = (a, b)" "a < 2 ^ 128 * b"
    and "as_integer_ratio v = Inr (Some (p, q))"
  shows "p * b = a * q \<and> coprime p q"
proof -
  define n where "n = f64_significand v"
  define t where "t = trailing_zeros n"
  define m where "m = n div 2 ^ t"
  define x where "x = int (f64_scale v) - 1075 + int t"
  have n: "n = m * 2 ^ t" and odd: "odd m"
    using trailing_zeros_split [of n] positive_significand [OF assms(2)] by (simp_all add: n_def m_def t_def)
  have result: "as_integer_ratio v = Inr (if 0 \<le> x
      then map_option (\<lambda>shifted. (shifted, 1)) (u128_checked_shl m (nat x))
      else map_option (\<lambda>q. (m, q)) (u128_checked_shl 1 (nat (- x))))"
    using as_integer_ratio_eq [OF assms(1,2)] unfolding n_def [symmetric] t_def [symmetric]
      m_def [symmetric] x_def [symmetric] .
  have ratio: "(a, b) = (if 1075 \<le> f64_scale v then (n * 2 ^ (f64_scale v - 1075), 1)
      else (n, 2 ^ (1075 - f64_scale v)))"
    using assms(3) by (simp add: f64_ratio_def Let_def n_def split: if_splits)
  show ?thesis
  proof (cases "0 \<le> x")
    case True
    have pq: "p = m * 2 ^ nat x mod 2 ^ 128" "q = 1"
      using assms(5) result True by (auto simp: u128_checked_shl_def split: if_splits)
    have a: "a = m * 2 ^ nat x * b"
    proof (cases "1075 \<le> f64_scale v")
      case e: True
      then have "nat x = t + (f64_scale v - 1075)" unfolding x_def by linarith
      then have "(2::nat) ^ nat x = 2 ^ t * 2 ^ (f64_scale v - 1075)" by (simp only: power_add)
      then show ?thesis using ratio e by (simp add: n)
    next
      case e: False
      then have "t = nat x + (1075 - f64_scale v)" using True unfolding x_def by linarith
      then have "n = m * 2 ^ nat x * 2 ^ (1075 - f64_scale v)" using n by (simp add: power_add)
      then show ?thesis using ratio e by simp
    qed
    have "0 < b" using ratio by (auto split: if_splits)
    then have "m * 2 ^ nat x < 2 ^ 128" using assms(4) unfolding a by (simp only: mult_less_cancel2)
    then show ?thesis using pq a by simp
  next
    case False
    have q: "nat (- x) < 128" "p = m" "q = 1 * 2 ^ nat (- x) mod 2 ^ 128"
      using assms(5) result False unfolding u128_checked_shl_def
      by (simp_all del: mult_1 split: if_splits)
    moreover have "(2::nat) ^ nat (- x) < 2 ^ 128" using q(1) by (rule power_strict_increasing) simp
    ultimately have pq: "p = m" "q = 2 ^ nat (- x)" by simp_all
    have e: "\<not> 1075 \<le> f64_scale v" using False unfolding x_def by linarith
    then have "1075 - f64_scale v = t + nat (- x)" using False unfolding x_def by linarith
    then have "p * b = a * q" using ratio e pq n by (simp add: power_add)
    then show ?thesis using pq odd by (simp add: coprime_commute)
  qed
qed

text \<open>\<open>1.5\<close> is the ratio 3/2, and \<open>(2^53 - 1) * 2^80\<close> loses its high bits.\<close>

definition sample_ratio_float :: f64 where
  "sample_ratio_float = 0x3FF8000000000000"

definition wrapping_float :: f64 where
  "wrapping_float = 0x483FFFFFFFFFFFFF"

lemma sample_ratio_parts:
  "f64_significand sample_ratio_float = 3 * 2 ^ 51" "f64_scale sample_ratio_float = 1023"
  "is_finite sample_ratio_float" "f64_lt f64_zero sample_ratio_float"
  by (simp_all add: f64_significand_def f64_scale_def is_finite_def f64_lt_def f64_key_def is_nan_def
      f64_exponent_def f64_mantissa_def f64_magnitude_def is_sign_negative_def f64_zero_def
      sample_ratio_float_def)

lemma wrapping_parts:
  "f64_significand wrapping_float = 2 ^ 53 - 1" "f64_scale wrapping_float = 1155"
  "is_finite wrapping_float" "f64_lt f64_zero wrapping_float"
  by (simp_all add: f64_significand_def f64_scale_def is_finite_def f64_lt_def f64_key_def is_nan_def
      f64_exponent_def f64_mantissa_def f64_magnitude_def is_sign_negative_def f64_zero_def
      wrapping_float_def)

lemma sample_ratio: "as_integer_ratio sample_ratio_float = Inr (Some (3, 2))"
proof -
  have "trailing_zeros (3 * 2 ^ 51) = 51" by (simp add: trailing_zeros.simps)
  then show ?thesis
    by (simp add: as_integer_ratio_eq [OF sample_ratio_parts(3,4)] sample_ratio_parts u128_checked_shl_def)
qed

theorem as_integer_ratio_exact_witness:
  "as_integer_ratio sample_ratio_float = Inr (Some (3, 2)) \<and> coprime (3 :: nat) 2"
proof -
  have "f64_ratio sample_ratio_float = (3 * 2 ^ 51, 2 ^ 52)"
    by (simp add: f64_ratio_def sample_ratio_parts)
  from as_integer_ratio_exact [OF sample_ratio_parts(3,4) this _ sample_ratio]
  show ?thesis using sample_ratio by simp
qed

text \<open>
  A float above \<open>2^128\<close> that is not rejected: the numerator returned is not its value.
\<close>

theorem as_integer_ratio_wraps:
  "f64_ratio wrapping_float = ((2 ^ 53 - 1) * 2 ^ 80, 1)
   \<and> as_integer_ratio wrapping_float = Inr (Some (2 ^ 128 - 2 ^ 80, 1))"
proof -
  have "trailing_zeros (2 ^ 53 - 1) = 0" by (simp add: trailing_zeros.simps)
  then show ?thesis
    by (simp add: as_integer_ratio_eq [OF wrapping_parts(3,4)] f64_ratio_def wrapping_parts
        u128_checked_shl_def)
qed

end
