(* ===== verification/PassClones.thy ===== *)
theory PassClones
  imports PassFloats
begin

text \<open>
  Nested shrinking of cloned streams, \<open>hegel-c/src/native/shrinker/clones.rs\<close>. The nested
  shrinker runs over the same environment as the outer one, through a world that splices its
  candidates into the outer template. The recursion is tied in \<open>Scheduling\<close>: here the nested
  shrink is the parameter \<open>shrink_nested\<close>.
\<close>

section \<open>The nested world\<close>

definition splice_child :: "choice_node list \<Rightarrow> nat \<Rightarrow> choice_node list \<Rightarrow> choice_node list" where
  "splice_child template i child =
     template[i := ChoiceNode (DClone (realized_stream_new child [])) (was_forced (template ! i))]"

definition child_of_run :: "nat \<Rightarrow> bool \<Rightarrow> choice_node list \<Rightarrow> bool \<times> choice_node list \<times> span list" where
  "child_of_run i matched actual =
     (case (if i < length actual then as_clone (node_data (actual ! i)) else None) of
        Some stream \<Rightarrow> (matched, rs_nodes stream, rs_spans stream)
      | None \<Rightarrow> (False, [], []))"

definition nested_request :: "choice_node list \<Rightarrow> choice_value list \<Rightarrow> nat \<Rightarrow> shrink_run \<Rightarrow> shrink_run" where
  "nested_request template outer_values i req =
     (case req of
        FullRun child \<Rightarrow> FullRun (splice_child template i child)
      | ProbeRun pre max_size \<Rightarrow>
          let vals = outer_values[i := VClone (cr_from_values pre)];
              child_extend = max_size - length pre
          in ProbeRun vals (flattened_values_len vals + child_extend))"

definition nested_world ::
  "'env shrink_world \<Rightarrow> choice_node list \<Rightarrow> choice_value list \<Rightarrow> nat \<Rightarrow> 'env shrink_world" where
  "nested_world W template outer_values i =
     \<lparr>test_fn = (\<lambda>req. ebind (test_fn W (nested_request template outer_values i req))
                   (\<lambda>(matched, actual, _). ret (child_of_run i matched actual))),
      now = now W\<rparr>"

section \<open>Shrinking each clone\<close>

text \<open>The nested shrinker starts afresh, with the outer deadline.\<close>

definition nested_shrinker :: "'env shrinker \<Rightarrow> realized_stream \<Rightarrow> 'env shrinker" where
  "nested_shrinker s stream =
     (with_probe (sh_env s) (rs_nodes stream) (rs_spans stream))\<lparr>deadline := deadline s\<rparr>"

definition run_nested ::
  "('env shrink_world \<Rightarrow> ('env shrinker, run_error, unit) proc) \<Rightarrow> 'env shrink_world \<Rightarrow> nat
   \<Rightarrow> realized_stream \<Rightarrow> ('env, choice_node list) pass" where
  "run_nested shrink_nested W i stream s =
     (let template = current_nodes s;
          world = nested_world W template (map node_value template) i
      in case shrink_nested world (nested_shrinker s stream) of
           None \<Rightarrow> None
         | Some (Inl e, t) \<Rightarrow> Some (Inl (HaltError e), s\<lparr>sh_env := sh_env t\<rparr>)
         | Some (Inr _, t) \<Rightarrow>
             Some (Inr (current_nodes t),
                   s\<lparr>sh_env := sh_env t, timed_out := timed_out s \<or> timed_out t\<rparr>))"

definition shrink_clone_stream_at ::
  "('env shrink_world \<Rightarrow> ('env shrinker, run_error, unit) proc) \<Rightarrow> 'env shrink_world \<Rightarrow> nat
   \<Rightarrow> ('env, unit) pass" where
  "shrink_clone_stream_at shrink_nested W i =
     pbind self (\<lambda>s.
     pbind (index_slice (current_nodes s) i) (\<lambda>node.
     case as_clone (node_data node) of
       None \<Rightarrow> pret ()
     | Some stream \<Rightarrow>
         if rs_is_empty stream then pret ()
         else
           pbind (run_nested shrink_nested W i stream) (\<lambda>final_child.
           pbind self (\<lambda>s.
           pbind (consider_run W (splice_child (current_nodes s) i final_child)) (\<lambda>_. pret ())))))"

definition shrink_clone_streams ::
  "('env shrink_world \<Rightarrow> ('env shrinker, run_error, unit) proc) \<Rightarrow> 'env shrink_world
   \<Rightarrow> ('env, unit) pass" where
  "shrink_clone_streams shrink_nested W = each_node (shrink_clone_stream_at shrink_nested W)"

section \<open>Targets of bounded size\<close>

text \<open>
  A third instance of \<open>progress\<close>: targets whose flattened length is at most \<open>N\<close>. Descending
  keeps the bound, so whatever descends does so here; and a clone's stream is strictly smaller
  than the target it is part of.
\<close>

definition target_upto :: "nat \<Rightarrow> (choice_node list \<Rightarrow> bool) \<Rightarrow> 'env shrinker \<Rightarrow> bool" where
  "target_upto N P s \<longleftrightarrow> target_ok P s \<and> flattened_len (current_nodes s) \<le> N"

interpretation bounded: progress "target_upto N P" "descends P"
  for N :: nat and P :: "choice_node list \<Rightarrow> bool"
proof unfold_locales
  fix s t :: "'a shrinker"
  assume "target_upto N P s" "descends P s t"
  then show "target_upto N P t"
    using descends_flattened [of P s t] descending.step_good [of P s t]
    by (simp add: target_upto_def)
qed (auto simp: target_upto_def descends_def)

lemma safe_bounded: "descending.safe P Q m \<Longrightarrow> bounded.safe N P Q m"
  unfolding descending.safe_def bounded.safe_def target_upto_def by blast

lemma bounded_each_node:
  fixes body :: "nat \<Rightarrow> ('env, unit) pass"
  assumes "\<And>i. bounded.safe N P (\<lambda>_. True) (body i)"
  shows "bounded.safe N P (\<lambda>_. True) (each_node body)"
  unfolding each_node_def while_index_def
proof (rule bounded.safe_ploop_wf [where I = "\<lambda>_. True" and R = "measure (\<lambda>(i, s). N - i)"])
  fix i and s :: "'env shrinker"
  assume s: "target_upto N P s"
  obtain r t where b: "body i s = Some (r, t)" "descends P s t"
    by (rule bounded.safeE [OF assms s]) (rule that)
  let ?body = "pbind self (\<lambda>s. if i < length (current_nodes s)
      then pbind (pbind (body i) (\<lambda>_. pret (i + 1))) (\<lambda>i'. pret (Inl i')) else pret (Inr ()))"
  show "\<exists>r t. ?body s = Some (r, t) \<and> descends P s t
      \<and> (\<forall>j. r = Inr (Inl j) \<longrightarrow> True \<and> ((j, t), i, s) \<in> measure (\<lambda>(i, s). N - i))
      \<and> (\<forall>x. r = Inr (Inr x) \<longrightarrow> True)"
    using b bounded.step_refl [OF s] s length_flattened [of "current_nodes s"]
    by (cases r) (auto simp: pbind_def self_def target_upto_def)
qed simp_all

section \<open>The clone pass descends\<close>

lemma nested_world_ok:
  assumes "world_for P W"
  shows "world_for (\<lambda>_. True) (nested_world W template vals i)"
proof -
  have "list_all node_valid nodes"
    if "list_all node_valid actual" "child_of_run i b actual = (c, nodes, spans)" for actual b c nodes spans
  proof (cases "i < length actual")
    case True
    then have "node_valid (actual ! i)" using that(1) by (simp add: list_all_length)
    then show ?thesis
      using that(2) True
      by (cases "actual ! i"; cases "node_data (actual ! i)")
        (auto simp: child_of_run_def dest: stream_valid_nodes)
  qed (use that(2) in \<open>simp add: child_of_run_def\<close>)
  then show ?thesis
    using assms unfolding world_for_def nested_world_def
    by (auto simp: ebind_def ret_def split: prod.splits sum.splits) metis+
qed

lemma stream_smaller:
  assumes "list_all node_valid nodes" "i < length nodes" "as_clone (node_data (nodes ! i)) = Some stream"
  shows "flattened_len (rs_nodes stream) < flattened_len nodes" "list_all node_valid (rs_nodes stream)"
proof -
  have clone: "node_data (nodes ! i) = DClone stream"
    using assms(3) by (cases "node_data (nodes ! i)") simp_all
  have "node_valid (nodes ! i)" using assms(1,2) by (simp add: list_all_length)
  then have valid: "stream_valid stream" using clone by (cases "nodes ! i") simp
  then show "list_all node_valid (rs_nodes stream)" by (rule stream_valid_nodes)
  have "node_flat (nodes ! i) \<le> flattened_len nodes"
    by (rule node_flat_member) (simp add: assms(2))
  then show "flattened_len (rs_nodes stream) < flattened_len nodes"
    using clone stream_valid_flat [OF valid] by (simp add: node_flat_def)
qed

text \<open>
  If the nested shrink ends on every stream smaller than \<open>N\<close>, the pass is safe on targets up
  to \<open>N\<close>.
\<close>

lemma bounded_run_nested:
  fixes W :: "'env shrink_world"
  assumes W: "world_for P W"
    and nested: "\<And>W' t. world_for (\<lambda>_. True) W' \<Longrightarrow> target_ok (\<lambda>_. True) (t :: 'env shrinker) \<Longrightarrow>
        flattened_len (current_nodes t) < N \<Longrightarrow>
        \<exists>r u. shrink_nested W' t = Some (r, u) \<and> descends (\<lambda>_. True) t u"
  shows "bounded.safe N P (\<lambda>_. True) (shrink_clone_stream_at shrink_nested W i)"
proof (rule bounded.runs_safe)
  fix s :: "'env shrinker"
  assume s: "target_upto N P s"
  then have ok: "target_ok P s" and valid: "list_all node_valid (current_nodes s)"
    and size: "flattened_len (current_nodes s) \<le> N"
    by (auto simp: target_upto_def target_ok_def)
  have refl: "descends P s s" by (rule bounded.step_refl [OF s])
  have read: "shrink_clone_stream_at shrink_nested W i s =
      (if i < length (current_nodes s)
       then (case as_clone (node_data (current_nodes s ! i)) of
               None \<Rightarrow> pret ()
             | Some stream \<Rightarrow>
                 if rs_is_empty stream then pret ()
                 else pbind (run_nested shrink_nested W i stream) (\<lambda>final_child.
                      pbind self (\<lambda>s.
                      pbind (consider_run W (splice_child (current_nodes s) i final_child)) (\<lambda>_. pret ())))) s
       else Some (Inl (HaltError (RunInternal (Panicked ''index out of bounds''))), s))"
    by (simp add: shrink_clone_stream_at_def pbind_def self_def index_slice_def pass_panic_def)
  show "bounded.runs P (\<lambda>_ _. True) s (shrink_clone_stream_at shrink_nested W i)"
  proof (cases "i < length (current_nodes s) \<and> (\<exists>stream. as_clone (node_data (current_nodes s ! i)) = Some stream
           \<and> \<not> rs_is_empty stream)")
    case False
    then show ?thesis
      using refl by (auto simp: bounded.runs_def read split: option.splits)
  next
    case True
    then obtain stream where i: "i < length (current_nodes s)"
      and st: "as_clone (node_data (current_nodes s ! i)) = Some stream" "\<not> rs_is_empty stream"
      by blast
    let ?W = "nested_world W (current_nodes s) (map node_value (current_nodes s)) i"
    let ?t = "nested_shrinker s stream"
    have "target_ok (\<lambda>_. True) ?t" "flattened_len (current_nodes ?t) < N"
      using stream_smaller [OF valid i st(1)] size
      by (simp_all add: nested_shrinker_def with_probe_def target_ok_def)
    from nested [OF nested_world_ok [OF W] this]
    obtain r u where run: "shrink_nested ?W ?t = Some (r, u)" by blast
    have offer: "bounded.safe N P (\<lambda>_. True) (pbind self (\<lambda>s.
        pbind (consider_run W (splice_child (current_nodes s) i final_child)) (\<lambda>_. pret ())))" for final_child
      by (rule safe_bounded [OF safe_descending]) (intro adopting_intros W TrueI)
    have step: "descends P s (s\<lparr>sh_env := e, timed_out := b\<rparr>)" for e b
      using ok by (simp add: descends_def target_ok_def)
    have "bounded.runs P (\<lambda>_ _. True) s (run_nested shrink_nested W i stream)"
      using step [of "timed_out s" "sh_env u"] step [of "timed_out s \<or> timed_out u" "sh_env u"] run
      by (auto simp: bounded.runs_def run_nested_def Let_def split: sum.split)
    then have "bounded.runs P (\<lambda>_ _. True) s (pbind (run_nested shrink_nested W i stream) (\<lambda>final_child.
                      pbind self (\<lambda>s.
                      pbind (consider_run W (splice_child (current_nodes s) i final_child)) (\<lambda>_. pret ()))))"
      by (rule bounded.runs_pbind [OF s]) (rule bounded.safe_runs [OF offer])
    then show ?thesis
      by (simp add: bounded.runs_def read i st)
  qed
qed

lemma bounded_shrink_clone_streams:
  fixes W :: "'env shrink_world"
  assumes "world_for P W"
    and "\<And>W' t. world_for (\<lambda>_. True) W' \<Longrightarrow> target_ok (\<lambda>_. True) (t :: 'env shrinker) \<Longrightarrow>
        flattened_len (current_nodes t) < N \<Longrightarrow>
        \<exists>r u. shrink_nested W' t = Some (r, u) \<and> descends (\<lambda>_. True) t u"
  shows "bounded.safe N P (\<lambda>_. True) (shrink_clone_streams shrink_nested W)"
  unfolding shrink_clone_streams_def
  by (intro bounded_each_node bounded_run_nested) (use assms in auto)

end
