(* ===== verification/PassDeletion.thy ===== *)
theory PassDeletion
  imports PassBase "HOL-Library.Product_Lexorder"
begin

text \<open>
  The deletion passes of \<open>hegel-c/src/native/shrinker/deletion.rs\<close>. The \<open>rustc_hash\<close> hasher
  is a parameter \<open>fx\<close>: it only filters candidate repeats, which are compared afterwards.
\<close>

section \<open>Chunks\<close>

fun decremented :: "choice_data \<Rightarrow> choice_data option" where
  "decremented (DInteger ic v) =
     (if v \<noteq> integer_simplest ic
      then map_option (DInteger ic) (value_from_bigint ic (v - 1)) else None)"
| "decremented (DBoolean bc True) = Some (DBoolean bc False)"
| "decremented _ = None"

definition delete_chunk_at :: "'env shrink_world \<Rightarrow> nat \<Rightarrow> nat \<Rightarrow> ('env, bool) pass" where
  "delete_chunk_at W k i =
     pbind self (\<lambda>s.
     let nodes = current_nodes s in
     if length nodes \<le> i then pret True
     else
       let end = min (i + k) (length nodes);
           attempt = take i nodes @ drop end nodes
       in pbind (internal (hegel_internal_assert (length attempt < length nodes)
                   ''attempt.len() < self.current_nodes.len()'')) (\<lambda>_.
          pbind (consider_run W attempt) (\<lambda>ok.
          if \<not> ok \<and> 0 < i
          then case decremented (node_data (attempt ! (i - 1))) of
                 Some new_data \<Rightarrow>
                   pbind (consider_run W
                     (attempt[i - 1 := ChoiceNode new_data (was_forced (attempt ! (i - 1)))]))
                     (\<lambda>_. pret False)
               | None \<Rightarrow> pret False
          else pret False)))"

definition delete_chunks :: "'env shrink_world \<Rightarrow> ('env, unit) pass" where
  "delete_chunks W =
     pfor (rev [1..<9]) (\<lambda>k.
     pbind self (\<lambda>s.
     let start = length (current_nodes s) - (k + 1)
     in pbind (pfor_until (rev [0..<Suc start]) (delete_chunk_at W k)) (\<lambda>_. pret ())))"

section \<open>Deletion after lowering a value\<close>

definition try_replace_with_deletion ::
  "'env shrink_world \<Rightarrow> nat \<Rightarrow> choice_value \<Rightarrow> nat \<Rightarrow> ('env, bool) pass" where
  "try_replace_with_deletion W idx val expected_len =
     pbind (replace_run W [(idx, val)]) (\<lambda>ok.
     if ok then pret True
     else
       pbind self (\<lambda>s.
       let attempt = current_nodes s in
       case (if idx < length attempt then node_with_value (attempt ! idx) val else None) of
         None \<Rightarrow> pret False
       | Some replaced \<Rightarrow>
           let attempt = attempt[idx := replaced] in
           pbind (execute W (FullRun attempt)) (\<lambda>(_, actual_nodes, _).
           if expected_len \<le> length actual_nodes then pret False
           else
             let deficit = expected_len - length actual_nodes;
                 start = length attempt - deficit
             in if start \<le> idx then pret False
                else pfor_until (rev [idx + 1..<Suc start]) (\<lambda>j.
                       consider_run W (take j attempt @ drop (j + deficit) attempt)))))"

definition bind_deletion_at :: "'env shrink_world \<Rightarrow> nat \<Rightarrow> ('env, unit) pass" where
  "bind_deletion_at W i =
     pbind self (\<lambda>s.
     pbind (index_slice (current_nodes s) i) (\<lambda>node.
     case node_data node of
       DInteger ic current_val \<Rightarrow>
         if current_val = integer_simplest ic then pret ()
         else
           let expected_len = length (current_nodes s)
           in drive_down_big (integer_simplest ic) current_val (\<lambda>v.
                try_replace_with_deletion W i (VInteger v) expected_len)
     | _ \<Rightarrow> pret ()))"

definition bind_deletion :: "'env shrink_world \<Rightarrow> ('env, unit) pass" where
  "bind_deletion W = each_node (bind_deletion_at W)"

section \<open>Minimising one integer with deletion\<close>

definition consider_improving ::
  "'env shrink_world \<Rightarrow> nat \<Rightarrow> choice_node list \<Rightarrow> ('env, bool) pass" where
  "consider_improving W epoch nodes =
     pbind (consider_run W nodes) (\<lambda>ok.
     pbind self (\<lambda>s. pret (ok \<and> epoch < improvements s)))"

fun retry_data :: "choice_data \<Rightarrow> choice_data \<Rightarrow> choice_data option" where
  "retry_data (DString sc c) (DString _ a) =
     (if length a < length c then Some (DString sc (take (length a) c)) else None)"
| "retry_data (DBytes bc c) (DBytes _ a) =
     (if length a < length c then Some (DBytes bc (take (length a) c)) else None)"
| "retry_data _ _ = None"

definition realign :: "'env shrink_world \<Rightarrow> nat \<Rightarrow> nat \<Rightarrow> choice_node list \<Rightarrow> choice_node list
    \<Rightarrow> ('env, bool) pass" where
  "realign W epoch i lowered actual_nodes =
     pfor_until [i + 1..<min (length lowered) (length actual_nodes)] (\<lambda>k.
       case retry_data (node_data (lowered ! k)) (node_data (actual_nodes ! k)) of
         None \<Rightarrow> pret False
       | Some rd \<Rightarrow>
           consider_improving W epoch (lowered[k := ChoiceNode rd (was_forced (lowered ! k))]))"

definition delete_after :: "'env shrink_world \<Rightarrow> nat \<Rightarrow> nat \<Rightarrow> choice_node list \<Rightarrow> span list
    \<Rightarrow> ('env, unit) pass" where
  "delete_after W epoch i actual_nodes actual_spans =
     pbind (pfor_until actual_spans (\<lambda>span.
       if span_start span \<le> i \<or> length actual_nodes < span_end span \<or> span_end span \<le> span_start span
       then pret False
       else consider_improving W epoch
              (take (span_start span) actual_nodes @ drop (span_end span) actual_nodes))) (\<lambda>shrank.
     if shrank then pret ()
     else pbind (pfor_until [i + 1..<length actual_nodes] (\<lambda>j.
            consider_improving W epoch (take j actual_nodes @ drop (j + 1) actual_nodes)))
            (\<lambda>_. pret ()))"

definition minimize_choice :: "'env shrink_world \<Rightarrow> nat \<Rightarrow> ('env, unit) pass" where
  "minimize_choice W i =
     pbind self (\<lambda>s.
     pbind (index_slice (current_nodes s) i) (\<lambda>node.
     if was_forced node then pret ()
     else case node_data node of
       DInteger ic current_val \<Rightarrow>
         let simplest = integer_simplest ic in
         if current_val = simplest then pret ()
         else
           let epoch = improvements s in
           pbind (drive_down_big simplest current_val (replace_int W i)) (\<lambda>_.
           pbind self (\<lambda>s.
           if epoch < improvements s then pret ()
           else
             pbind (debug_assert (i < length (current_nodes s)) ''i < self.current_nodes.len()'') (\<lambda>_.
             let original_len = length (current_nodes s);
                 towards = (if simplest < current_val then current_val - 1 else current_val + 1);
                 lowered = (current_nodes s)[i :=
                   ChoiceNode (DInteger ic towards) (was_forced (current_nodes s ! i))]
             in pbind (execute W (FullRun lowered)) (\<lambda>(_, actual_nodes, actual_spans).
                pbind (realign W epoch i lowered actual_nodes) (\<lambda>misalignment_handled.
                if misalignment_handled then pret ()
                else if original_len \<le> length actual_nodes \<or> length actual_nodes \<le> i + 1
                then pret ()
                else delete_after W epoch i actual_nodes actual_spans)))))
     | _ \<Rightarrow> pret ()))"

definition minimize_individual_choices :: "'env shrink_world \<Rightarrow> ('env, unit) pass" where
  "minimize_individual_choices W = each_node (minimize_choice W)"

section \<open>Node programs\<close>

definition run_node_program ::
  "'env shrink_world \<Rightarrow> choice_node list \<Rightarrow> nat \<Rightarrow> nat \<Rightarrow> nat \<Rightarrow> ('env, bool) pass" where
  "run_node_program W original i program_len repeats =
     pbind (debug_assert (0 < repeats) ''repeats > 0'') (\<lambda>_.
     let total_delete = program_len * repeats in
     if length original < i + total_delete then pret False
     else
       pbind self (\<lambda>s.
       consider_improving W (improvements s) (take i original @ drop (i + total_delete) original)))"

definition run_node_program_live ::
  "'env shrink_world \<Rightarrow> nat \<Rightarrow> nat \<Rightarrow> nat \<Rightarrow> ('env, bool) pass" where
  "run_node_program_live W i program_len repeats =
     pbind self (\<lambda>s. run_node_program W (current_nodes s) i program_len repeats)"

definition node_program_at :: "'env shrink_world \<Rightarrow> nat \<Rightarrow> nat \<Rightarrow> ('env, nat) pass" where
  "node_program_at W n i =
     pbind (run_node_program_live W i n 1) (\<lambda>ok.
     if \<not> ok then pret (i + 1)
     else
       pbind (drive_find (\<lambda>k.
         if i < k * n then pret False else run_node_program_live W (i - k * n) n 1)) (\<lambda>left_offset.
       let start = i - left_offset * n in
       pbind self (\<lambda>s.
       pbind (drive_find (run_node_program W (current_nodes s) start n)) (\<lambda>_.
       pret (start + n)))))"

definition node_program :: "'env shrink_world \<Rightarrow> nat \<Rightarrow> ('env, unit) pass" where
  "node_program W n =
     (if n = 0 then pret ()
      else while_index (\<lambda>i s. i + n \<le> length (current_nodes s)) 0 (node_program_at W n))"

section \<open>Deletion between repeats\<close>

definition node_eq :: "choice_node \<Rightarrow> choice_node \<Rightarrow> bool" where
  "node_eq x y \<longleftrightarrow> data_eq (node_data x) (node_data y) \<and> was_forced x = was_forced y"

definition is_clone :: "choice_node \<Rightarrow> bool" where
  "is_clone n = (case node_data n of DClone _ \<Rightarrow> True | _ \<Rightarrow> False)"

definition grams_match :: "choice_node list \<Rightarrow> choice_node list \<Rightarrow> bool" where
  "grams_match a b = list_all (\<lambda>(x, y). is_clone x \<and> is_clone y \<or> node_eq x y) (zip a b)"

definition node_fingerprint :: "(hash_token list \<Rightarrow> u64) \<Rightarrow> choice_node \<Rightarrow> u64" where
  "node_fingerprint fx node =
     (case node_data node of
        DInteger _ v \<Rightarrow> fx [HU8 1, HInt v]
      | DBoolean _ v \<Rightarrow> fx [HU8 2, HBool v]
      | DFloat _ v \<Rightarrow> fx [HU8 3, HU64 v]
      | DBytes _ v \<Rightarrow> fx [HU8 4, HBytes v]
      | DString _ v \<Rightarrow> fx [HU8 5, HU32s v]
      | DClone _ \<Rightarrow> fx [HU8 6])"

definition window :: "'a list \<Rightarrow> nat \<Rightarrow> nat \<Rightarrow> 'a list" where
  "window xs i n = take n (drop i xs)"

definition repeat_step ::
  "(hash_token list \<Rightarrow> u64) \<Rightarrow> choice_node list \<Rightarrow> nat \<Rightarrow> nat \<Rightarrow> (u64 \<rightharpoonup> nat) \<times> (nat \<times> nat) list
   \<Rightarrow> (u64 \<rightharpoonup> nat) \<times> (nat \<times> nat) list" where
  "repeat_step fx nodes n i = (\<lambda>(last_at, proposals).
     let gram = fx (map (\<lambda>m. HU64 (node_fingerprint fx m)) (window nodes i n));
         proposals =
           (case last_at gram of
              Some prev \<Rightarrow>
                if 2 \<le> i - prev \<and> grams_match (window nodes prev n) (window nodes i n)
                   \<and> (prev, i) \<notin> set proposals
                then proposals @ [(prev, i)] else proposals
            | None \<Rightarrow> proposals)
     in (last_at(gram \<mapsto> i), proposals))"

definition repeat_proposals ::
  "(hash_token list \<Rightarrow> u64) \<Rightarrow> choice_node list \<Rightarrow> (nat \<times> nat) list" where
  "repeat_proposals fx nodes =
     fold (\<lambda>n proposals.
         if length nodes < n then proposals
         else snd (fold (repeat_step fx nodes n) [0..<Suc (length nodes - n)]
                    (Map.empty, proposals)))
       [4, 3, 2, 1] []"

definition delete_between_repeats ::
  "(hash_token list \<Rightarrow> u64) \<Rightarrow> 'env shrink_world \<Rightarrow> ('env, unit) pass" where
  "delete_between_repeats fx W =
     pbind self (\<lambda>s.
     pfor (rev (sort (repeat_proposals fx (current_nodes s)))) (\<lambda>(start, end).
       pbind self (\<lambda>s.
       if length (current_nodes s) < end then pret ()
       else pbind (index_range (current_nodes s) 0 start) (\<lambda>before.
            pbind (consider_run W (before @ drop end (current_nodes s))) (\<lambda>_. pret ())))))"

section \<open>Every deletion pass adopts\<close>


lemma safe_delete_chunks:
  assumes "world_for P W"
  shows "adopting.safe P (\<lambda>_. True) (delete_chunks W)"
  unfolding delete_chunks_def delete_chunk_at_def Let_def by (intro adopting_intros assms TrueI)

lemma safe_try_replace_with_deletion:
  assumes "world_for P W"
  shows "adopting.safe P (\<lambda>_. True) (try_replace_with_deletion W idx v expected_len)"
  unfolding try_replace_with_deletion_def Let_def
  by (intro adopting_intros assms TrueI adopting.safe_weaken [OF safe_execute])

lemma safe_bind_deletion:
  assumes "world_for P W"
  shows "adopting.safe P (\<lambda>_. True) (bind_deletion W)"
  unfolding bind_deletion_def bind_deletion_at_def Let_def
  by (intro adopting_intros assms TrueI safe_try_replace_with_deletion)

lemma safe_consider_improving [adopting_intros]:
  assumes "world_for P W"
  shows "adopting.safe P (\<lambda>_. True) (consider_improving W epoch nodes)"
  unfolding consider_improving_def by (intro adopting_intros assms TrueI)

lemma safe_minimize_individual_choices:
  assumes "world_for P W"
  shows "adopting.safe P (\<lambda>_. True) (minimize_individual_choices W)"
  unfolding minimize_individual_choices_def minimize_choice_def realign_def delete_after_def Let_def
  by (intro adopting_intros assms TrueI adopting.safe_weaken [OF safe_execute])

lemma safe_run_node_program [adopting_intros]:
  "world_for P W \<Longrightarrow> adopting.safe P (\<lambda>_. True) (run_node_program W original i n k)"
  "world_for P W \<Longrightarrow> adopting.safe P (\<lambda>_. True) (run_node_program_live W i n k)"
  unfolding run_node_program_live_def run_node_program_def Let_def
  by (intro adopting_intros TrueI; assumption)+

lemma consider_improving_value:
  assumes "consider_improving W epoch nodes s = Some (Inr True, t)"
  shows "epoch < improvements t"
  using assms by (auto simp: consider_improving_def pbind_def self_def split: prod.splits sum.splits option.splits)

lemma run_live_improves:
  assumes "run_node_program_live W i n k s = Some (Inr True, t)"
  shows "improvements s < improvements t"
proof -
  have "run_node_program_live W i n k s = run_node_program W (current_nodes s) i n k s"
    by (simp add: run_node_program_live_def pbind_def self_def)
  also have "\<dots> = (if 0 < k then (if length (current_nodes s) < i + n * k then pret False
      else consider_improving W (improvements s)
             (take i (current_nodes s) @ drop (i + n * k) (current_nodes s))) s
      else Some (Inl (halt_of_internal (InternalError ''repeats > 0'')), s))"
    by (simp add: run_node_program_def pbind_def self_def debug_assert_def internal_def preturn_def)
  finally have eq: "run_node_program_live W i n k s = \<dots>" .
  show ?thesis
    using assms consider_improving_value [of W "improvements s" _ s t] unfolding eq
    by (simp split: if_splits)
qed

lemma node_program_at_progress:
  assumes W: "world_for P W" and s: "target_ok P s"
  shows "\<exists>r t. node_program_at W n i s = Some (r, t) \<and> adopts P s t
       \<and> (\<forall>j. r = Inr j \<longrightarrow> i < j \<or> improvements s < improvements t)"
proof -
  obtain r t where live: "run_node_program_live W i n 1 s = Some (r, t)" "adopts P s t" "target_ok P t"
    by (rule adopting.safeE [OF safe_run_node_program(2) [OF W] s]) (rule that)
  let ?rest = "\<lambda>ok. if \<not> ok then pret (i + 1)
     else
       pbind (drive_find (\<lambda>k.
         if i < k * n then pret False else run_node_program_live W (i - k * n) n 1)) (\<lambda>left_offset.
       let start = i - left_offset * n in
       pbind self (\<lambda>s.
       pbind (drive_find (run_node_program W (current_nodes s) start n)) (\<lambda>_.
       pret (start + n))))"
  have rest: "adopting.safe P (\<lambda>_. True) (?rest True)"
    unfolding Let_def by (intro adopting_intros W TrueI)
  show ?thesis
  proof (cases "r = Inr True")
    case True
    obtain r' u where u: "?rest True t = Some (r', u)" "adopts P t u"
      by (rule adopting.safeE [OF rest live(3)]) (rule that)
    have "improvements s < improvements t" using live(1) True run_live_improves by blast
    moreover have "improvements t \<le> improvements u" using u(2) by (auto simp: adopts_def)
    moreover have "adopts P s u" by (rule adopting.step_trans [OF s live(2) u(2)])
    moreover have "node_program_at W n i s = Some (r', u)"
      using u(1) unfolding node_program_at_def pbind_Inr [where m = "run_node_program_live W i n 1" and s = s, OF live(1) [unfolded True]] by simp
    ultimately show ?thesis by auto
  next
    case False
    then have "node_program_at W n i s = Some (case r of Inl e \<Rightarrow> Inl e | Inr _ \<Rightarrow> Inr (i + 1), t)"
      unfolding node_program_at_def pbind_def [of "run_node_program_live W i n 1"]
      by (auto simp: live(1) simp del: One_nat_def split: sum.split)
    then show ?thesis using live(2) by (auto split: sum.splits)
  qed
qed

lemma safe_node_program:
  assumes "world_for P W"
  shows "adopting.safe P (\<lambda>_. True) (node_program W n)"
proof (cases "n = 0")
  case True
  then show ?thesis by (simp add: node_program_def adopting.safe_pret)
next
  case False
  then show ?thesis
    unfolding node_program_def
    by (auto intro!: safe_while_progress [where B = "\<lambda>nodes _. length nodes"]
        node_program_at_progress [OF assms])
qed

lemma safe_delete_between_repeats:
  assumes "world_for P W"
  shows "adopting.safe P (\<lambda>_. True) (delete_between_repeats fx W)"
  unfolding delete_between_repeats_def by (intro adopting_intros assms TrueI)

end
