(* ===== verification/PassSequence.thy ===== *)
theory PassSequence
  imports PassBase
begin

text \<open>
  \<open>hegel-c/src/native/shrinker/sequence.rs\<close>: sorting groups of same-type values and swapping
  adjacent blocks. A \<open>HashMap\<close> of replacements is the list of its entries; their order is
  immaterial to \<open>replace\<close>, whose entries have distinct positions.
\<close>

definition is_integer_data :: "choice_data \<Rightarrow> bool" where
  "is_integer_data d = (case d of DInteger _ _ \<Rightarrow> True | _ \<Rightarrow> False)"

definition is_boolean_data :: "choice_data \<Rightarrow> bool" where
  "is_boolean_data d = (case d of DBoolean _ _ \<Rightarrow> True | _ \<Rightarrow> False)"

text \<open>Integers and booleans, the only groups sorted, have scalar sort keys.\<close>

definition scalar_key :: "choice_node \<Rightarrow> nat \<times> bool" where
  "scalar_key n = (case sort_key_ref n of KeyScalar m b \<Rightarrow> (m, b) | _ \<Rightarrow> (0, False))"

definition values_eq :: "choice_value list \<Rightarrow> choice_value list \<Rightarrow> bool" where
  "values_eq vs ws = list_all2 value_eq vs ws"

definition matching_indices :: "(choice_data \<Rightarrow> bool) \<Rightarrow> choice_node list \<Rightarrow> nat list" where
  "matching_indices matches_kind nodes =
     filter (\<lambda>i. matches_kind (node_data (nodes ! i))) [0..<length nodes]"

text \<open>One step of the insertion sort; it answers whether the inner loop stops.\<close>

definition try_swap_down ::
  "'env shrink_world \<Rightarrow> (choice_data \<Rightarrow> bool) \<Rightarrow> nat list \<Rightarrow> nat \<Rightarrow> ('env, bool) pass" where
  "try_swap_down W matches_kind indices j =
     pbind self (\<lambda>s.
     let nodes = current_nodes s;
         valid = filter (\<lambda>i. i < length nodes \<and> matches_kind (node_data (nodes ! i))) indices
     in if length valid \<le> j then pret True
        else
          let idx_j = valid ! j; idx_prev = valid ! (j - 1) in
          if scalar_key (nodes ! idx_prev) \<le> scalar_key (nodes ! idx_j) then pret True
          else
            pbind (replace_run W [(idx_prev, node_value (nodes ! idx_j)),
                                  (idx_j, node_value (nodes ! idx_prev))]) (\<lambda>ok.
            pret (\<not> ok)))"

definition try_sort_group ::
  "'env shrink_world \<Rightarrow> (choice_data \<Rightarrow> bool) \<Rightarrow> ('env, unit) pass" where
  "try_sort_group W matches_kind =
     pbind self (\<lambda>s.
     let nodes = current_nodes s;
         indices = matching_indices matches_kind nodes
     in if length indices < 2 then pret ()
        else
          let vals = map (\<lambda>i. node_value (nodes ! i)) indices;
              sorted_values = map (\<lambda>i. node_value (nodes ! i))
                                (sort_key (\<lambda>i. scalar_key (nodes ! i)) indices)
          in pbind (if values_eq sorted_values vals then pret False
                    else replace_run W (zip indices sorted_values)) (\<lambda>replaced.
             if replaced then pret ()
             else pfor [1..<length indices] (\<lambda>pos.
                    pbind (pfor_until (rev [1..<Suc pos]) (try_swap_down W matches_kind indices))
                      (\<lambda>_. pret ()))))"

definition sort_values_integers :: "'env shrink_world \<Rightarrow> ('env, unit) pass" where
  "sort_values_integers W = try_sort_group W is_integer_data"

definition sort_values_booleans :: "'env shrink_world \<Rightarrow> ('env, unit) pass" where
  "sort_values_booleans W = try_sort_group W is_boolean_data"

definition sort_values :: "'env shrink_world \<Rightarrow> ('env, unit) pass" where
  "sort_values W = pbind (sort_values_integers W) (\<lambda>_. sort_values_booleans W)"

definition swap_blocks_at :: "'env shrink_world \<Rightarrow> nat \<Rightarrow> nat \<Rightarrow> ('env, nat) pass" where
  "swap_blocks_at W block_size i =
     pbind self (\<lambda>s.
     let a = take block_size (drop i (current_nodes s));
         b = take block_size (drop (i + block_size) (current_nodes s))
     in if \<not> list_all (\<lambda>(x, y). same_variant (node_data x) (node_data y)) (zip a b)
        then pret (i + 1)
        else if values_eq (map node_value a) (map node_value b) then pret (i + 1)
        else pbind (replace_run W
               (concat (map (\<lambda>k. [(i + k, node_value (b ! k)), (i + block_size + k, node_value (a ! k))])
                         [0..<block_size]))) (\<lambda>_. pret (i + 1)))"

definition swap_adjacent_blocks :: "'env shrink_world \<Rightarrow> ('env, unit) pass" where
  "swap_adjacent_blocks W =
     pfor [2..<9] (\<lambda>block_size.
       while_index (\<lambda>i s. i + 2 * block_size \<le> length (current_nodes s)) 0
         (swap_blocks_at W block_size))"

section \<open>Every sequence pass adopts\<close>

lemma safe_try_sort_group:
  assumes "world_for P W"
  shows "adopting.safe P (\<lambda>_. True) (try_sort_group W matches_kind)"
  unfolding try_sort_group_def try_swap_down_def Let_def by (intro adopting_intros assms TrueI)

lemma safe_sort_values:
  assumes "world_for P W"
  shows "adopting.safe P (\<lambda>_. True) (sort_values W)"
  unfolding sort_values_def sort_values_integers_def sort_values_booleans_def
  by (intro adopting_intros safe_try_sort_group assms)

lemma safe_swap_adjacent_blocks:
  assumes "world_for P W"
  shows "adopting.safe P (\<lambda>_. True) (swap_adjacent_blocks W)"
proof -
  have "adopting.safe P (\<lambda>j. i < j) (swap_blocks_at W b i)" for b i
    unfolding swap_blocks_at_def Let_def by (intro adopting_intros assms) simp_all
  then have "adopting.safe P (\<lambda>_. True)
      (while_index (\<lambda>i s. i + 2 * b \<le> length (current_nodes s)) 0 (swap_blocks_at W b))"
    if "0 < b" for b
    by (intro safe_while_index [where B = "\<lambda>nodes _. length nodes"]) (use that in auto)
  note blocks = this
  show ?thesis
    unfolding swap_adjacent_blocks_def
  proof (intro adopting.safe_pfor blocks)
    fix b :: nat
    assume "b \<in> set [2..<9]"
    then show "0 < b" unfolding set_upt by simp
  qed
qed

end
