(* ===== verification/PassSpans.thy ===== *)
theory PassSpans
  imports PassBase Ordering "HOL-Library.Char_ord" "HOL-Library.List_Lexorder" "HOL-Library.Product_Lexorder"
begin

text \<open>
  The span passes of \<open>hegel-c/src/native/shrinker/spans.rs\<close>, with \<open>Spans::trivial\<close> of
  \<open>core/state.rs\<close>. A label is its sequence of bytes, so a \<open>BTreeMap\<close> over labels runs through
  them in the order of \<open>sort\<close>. Slicing out of range panics, as in the source. The C library
  \<open>ceil\<close>, which simplest float values use, is the parameter \<open>libm_ceil\<close>.
\<close>

section \<open>Deleting spans\<close>

definition try_delete_span ::
  "'env shrink_world \<Rightarrow> span \<Rightarrow> nat \<Rightarrow> (nat \<times> nat) set \<Rightarrow> ('env, bool \<times> (nat \<times> nat) set) pass" where
  "try_delete_span W sp end attempted =
     pbind self (\<lambda>s.
     if span_start sp = 0 \<and> end = length (current_nodes s) \<or> (span_start sp, end) \<in> attempted
     then pret (False, attempted)
     else
       pbind (index_range (current_nodes s) 0 (span_start sp)) (\<lambda>before.
       pbind (index_range (current_nodes s) end (length (current_nodes s))) (\<lambda>rest.
       pbind (consider_run W (before @ rest)) (\<lambda>ok.
       pret (ok, insert (span_start sp, end) attempted)))))"

definition widened_end :: "span list \<Rightarrow> span \<Rightarrow> nat \<Rightarrow> nat" where
  "widened_end spans sp len =
     (case filter (\<lambda>x. span_end sp \<le> x) (map span_start spans) of
        [] \<Rightarrow> len
      | x # xs \<Rightarrow> foldl min x xs)"

definition delete_span_step :: "'env shrink_world \<Rightarrow> 'env shrinker \<Rightarrow> nat \<Rightarrow> (nat \<times> nat) set \<Rightarrow> nat
    \<Rightarrow> ('env, nat \<times> (nat \<times> nat) set \<times> nat) pass" where
  "delete_span_step W s i attempted epoch =
     (let sp = current_spans s ! i;
          attempted = (if improvements s \<noteq> epoch then {} else attempted);
          epoch = improvements s
      in if length (current_nodes s) < span_end sp \<or> span_end sp - span_start sp < 2
         then pret (i + 1, attempted, epoch)
         else
           let widened = widened_end (current_spans s) sp (length (current_nodes s)) in
           pbind (try_delete_span W sp (span_end sp) attempted) (\<lambda>(stop, attempted).
           if stop then pret (i + 1, attempted, epoch)
           else pbind (try_delete_span W sp widened attempted) (\<lambda>(_, attempted).
                pret (i + 1, attempted, epoch))))"

definition delete_spans_round :: "'env shrink_world \<Rightarrow> nat \<times> (nat \<times> nat) set \<times> nat
    \<Rightarrow> ('env, (nat \<times> (nat \<times> nat) set \<times> nat) + unit) pass" where
  "delete_spans_round W = (\<lambda>(i, attempted, epoch).
     pbind self (\<lambda>s.
     if length (current_spans s) \<le> i then pret (Inr ())
     else pbind (delete_span_step W s i attempted epoch) (\<lambda>vars. pret (Inl vars))))"

definition delete_spans :: "'env shrink_world \<Rightarrow> ('env, unit) pass" where
  "delete_spans W =
     pbind self (\<lambda>s. ploop (delete_spans_round W) (0, {}, improvements s))"

section \<open>Removing discarded spans\<close>

definition discarded_regions :: "span list \<Rightarrow> (nat \<times> nat) list" where
  "discarded_regions spans =
     foldl (\<lambda>discarded sp.
         if span_start sp < span_end sp \<and> span_discarded sp
            \<and> (discarded = [] \<or> snd (last discarded) \<le> span_start sp)
         then discarded @ [(span_start sp, span_end sp)] else discarded) [] spans"

text \<open>\<open>Vec::drain(u..v)\<close>, region by region.\<close>

fun drain_all :: "(nat \<times> nat) list \<Rightarrow> 'a list \<Rightarrow> 'a list internal_result" where
  "drain_all [] xs = Inr xs"
| "drain_all ((u, v) # regions) xs =
     (if u \<le> v \<and> v \<le> length xs then drain_all regions (take u xs @ drop v xs)
      else Inl (Panicked ''range out of bounds''))"

definition remove_discarded_round :: "'env shrink_world \<Rightarrow> ('env, unit + bool) pass" where
  "remove_discarded_round W =
     pbind self (\<lambda>s.
     let discarded = discarded_regions (current_spans s) in
     if discarded = [] then pret (Inr True)
     else
       pbind (internal (drain_all (rev discarded) (current_nodes s))) (\<lambda>attempt.
       pbind (consider_run W attempt) (\<lambda>ok.
       pret (if ok then Inl () else Inr False))))"

definition remove_discarded :: "'env shrink_world \<Rightarrow> ('env, bool) pass" where
  "remove_discarded W = ploop (\<lambda>_. remove_discarded_round W) ()"

section \<open>Trivial spans\<close>

definition node_trivial :: "(f64 \<Rightarrow> f64) \<Rightarrow> choice_node \<Rightarrow> bool internal_result" where
  "node_trivial libm_ceil n =
     (if was_forced n then Inr True else data_is_simplest libm_ceil (node_data n))"

fun all_trivial :: "(f64 \<Rightarrow> f64) \<Rightarrow> choice_node list \<Rightarrow> bool internal_result" where
  "all_trivial libm_ceil [] = Inr True"
| "all_trivial libm_ceil (n # ns) =
     rbind (node_trivial libm_ceil n) (\<lambda>b. if b then all_trivial libm_ceil ns else Inr False)"

definition spans_trivial ::
  "(f64 \<Rightarrow> f64) \<Rightarrow> span list \<Rightarrow> nat \<Rightarrow> choice_node list \<Rightarrow> bool internal_result" where
  "spans_trivial libm_ceil spans span_idx nodes =
     (if length spans \<le> span_idx then Inr False
      else
        let sp = spans ! span_idx; end = min (span_end sp) (length nodes)
        in if end < span_start sp then Inr False
           else all_trivial libm_ceil (take (end - span_start sp) (drop (span_start sp) nodes)))"

definition simplify_node :: "(f64 \<Rightarrow> f64) \<Rightarrow> choice_node \<Rightarrow> choice_node internal_result" where
  "simplify_node libm_ceil n =
     (if was_forced n then Inr n
      else rbind (data_is_simplest libm_ceil (node_data n)) (\<lambda>b.
           if b then Inr n else node_with_simplest libm_ceil n))"

definition try_trivial_span :: "(f64 \<Rightarrow> f64) \<Rightarrow> 'env shrink_world \<Rightarrow> nat \<Rightarrow> ('env, unit) pass" where
  "try_trivial_span libm_ceil W i =
     pbind self (\<lambda>s.
     let epoch_before = improvements s in
     pbind (index_slice (current_spans s) i) (\<lambda>sp.
     if length (current_nodes s) < span_end sp then pret ()
     else
       pbind (internal (spans_trivial libm_ceil (current_spans s) i (current_nodes s))) (\<lambda>already.
       if already then pret ()
       else
         let nodes = current_nodes s in
         pbind (index_range nodes (span_start sp) (span_end sp)) (\<lambda>inside.
         pbind (internal (rmap (simplify_node libm_ceil) inside)) (\<lambda>simplified.
         pbind (execute W (FullRun (take (span_start sp) nodes @ simplified @ drop (span_end sp) nodes)))
           (\<lambda>(is_interesting, actual_nodes, actual_spans).
         pbind count_call (\<lambda>_.
         pbind (adopt_if_smaller is_interesting actual_nodes actual_spans) (\<lambda>adopted.
         if adopted then pret ()
         else
           pbind self (\<lambda>s.
           if improvements s = epoch_before \<and> i < length actual_spans
              \<and> span_start (actual_spans ! i) \<le> span_end (actual_spans ! i)
              \<and> span_end (actual_spans ! i) \<le> length actual_nodes
           then
             pbind (index_range (current_nodes s) 0 (span_start sp)) (\<lambda>before.
             pbind (index_range actual_nodes (span_start (actual_spans ! i))
                      (span_end (actual_spans ! i))) (\<lambda>middle.
             pbind (index_range (current_nodes s) (span_end sp) (length (current_nodes s))) (\<lambda>rest.
             pbind (consider_run W (before @ middle @ rest)) (\<lambda>_. pret ()))))
           else pret ())))))))))"

definition try_trivial_spans :: "(f64 \<Rightarrow> f64) \<Rightarrow> 'env shrink_world \<Rightarrow> ('env, unit) pass" where
  "try_trivial_spans libm_ceil W =
     while_index (\<lambda>i s. i < length (current_spans s)) 0
       (\<lambda>i. pbind (try_trivial_span libm_ceil W i) (\<lambda>_. pret (i + 1)))"

section \<open>Descendants\<close>

definition label_groups :: "(nat \<times> string) list \<Rightarrow> (string \<times> nat list) list" where
  "label_groups entries =
     map (\<lambda>l. (l, map fst (filter (\<lambda>(_, m). m = l) entries))) (sort (remdups (map snd entries)))"

definition try_descendant :: "'env shrink_world \<Rightarrow> nat \<times> nat \<Rightarrow> nat \<times> nat \<Rightarrow> ('env, bool) pass" where
  "try_descendant W ancestor descendant =
     (case (ancestor, descendant) of
        ((a_start, a_end), (d_start, d_end)) \<Rightarrow>
          if a_end \<le> d_start then pret True
          else if d_end - d_start = 0 \<or> a_end - a_start \<le> d_end - d_start then pret False
          else
            pbind self (\<lambda>s.
            if length (current_nodes s) < a_end then pret False
            else
              pbind (debug_assert (a_start \<le> d_start \<and> d_end \<le> a_end)
                       ''d_start >= a_start && d_end <= a_end'') (\<lambda>_.
              pbind (index_range (current_nodes s) 0 a_start) (\<lambda>before.
              pbind (index_range (current_nodes s) d_start d_end) (\<lambda>middle.
              pbind (index_range (current_nodes s) a_end (length (current_nodes s))) (\<lambda>rest.
              pbind (consider_run W (before @ middle @ rest)) (\<lambda>_. pret False)))))))"

definition pass_to_descendant :: "'env shrink_world \<Rightarrow> ('env, unit) pass" where
  "pass_to_descendant W =
     pbind self (\<lambda>s.
     let extents = map (\<lambda>sp. (span_start sp, span_end sp)) (current_spans s);
         entries = zip [0..<length (current_spans s)] (map span_label (current_spans s))
     in pfor (label_groups entries) (\<lambda>(_, indices).
          if length indices < 2 then pret ()
          else pfor [0..<length indices] (\<lambda>ai.
            let ancestor = extents ! (indices ! ai) in
            if snd ancestor - fst ancestor = 0 then pret ()
            else pbind (pfor_until (drop (ai + 1) indices)
                          (\<lambda>d. try_descendant W ancestor (extents ! d))) (\<lambda>_. pret ()))))"

section \<open>Reordering siblings\<close>

text \<open>The judge: splice the children's slices in the proposed order into the snapshot.\<close>

definition slice_range :: "'a list \<Rightarrow> nat \<Rightarrow> nat \<Rightarrow> 'a list internal_result" where
  "slice_range xs a b =
     (if a \<le> b \<and> b \<le> length xs then Inr (take (b - a) (drop a xs))
      else Inl (Panicked ''range out of bounds''))"

fun spliced :: "choice_node list \<Rightarrow> (nat \<times> nat) list \<Rightarrow> nat list \<Rightarrow> (nat \<times> nat) list
    \<Rightarrow> choice_node list internal_result" where
  "spliced snapshot endpoints (src # permutation) ((_, target_end) # targets) =
     rbind (slice_range snapshot (fst (endpoints ! src)) (snd (endpoints ! src))) (\<lambda>moved.
     rbind (case targets of
              (next_start, _) # _ \<Rightarrow> slice_range snapshot target_end next_start
            | [] \<Rightarrow> slice_range snapshot target_end (length snapshot)) (\<lambda>gap.
     rbind (spliced snapshot endpoints permutation targets) (\<lambda>rest.
     Inr (moved @ gap @ rest))))"
| "spliced snapshot endpoints _ _ = Inr []"

definition reorder_judge :: "'env shrink_world \<Rightarrow> choice_node list \<Rightarrow> (nat \<times> nat) list \<Rightarrow> nat list
    \<Rightarrow> ('env shrinker, shrink_halt, bool) effect" where
  "reorder_judge W snapshot endpoints permutation =
     ebind (lift_result halt_of_internal
       (rbind (hegel_internal_assert (length permutation = length endpoints)
                 ''permutation.len() == endpoints.len()'') (\<lambda>_.
        rbind (slice_range snapshot 0 (fst (endpoints ! 0))) (\<lambda>before.
        rbind (spliced snapshot endpoints permutation endpoints) (\<lambda>attempt.
        Inr (before @ attempt)))))) (consider_nodes W)"

definition endpoints_sorted :: "(nat \<times> nat) list \<Rightarrow> bool" where
  "endpoints_sorted eps =
     (let sorted_eps = sort eps
      in list_all (\<lambda>k. snd (sorted_eps ! k) \<le> fst (sorted_eps ! (k + 1))) [0..<length eps - 1])"

text \<open>
  The sort keys are the slices' \<open>NodesSortKey\<close>, whose order on validated nodes is that of
  their token lists.
\<close>

definition reorder_group :: "'env shrink_world \<Rightarrow> nat option \<Rightarrow> string \<Rightarrow> nat list \<Rightarrow> ('env, unit) pass" where
  "reorder_group W parent label child_indices =
     pbind self (\<lambda>s.
     let spans = current_spans s; nodes = current_nodes s;
         children = filter (\<lambda>i. i < length spans \<and> span_parent (spans ! i) = parent
                                \<and> span_label (spans ! i) = label) child_indices;
         endpoints = map (\<lambda>i. (span_start (spans ! i), span_end (spans ! i))) children
     in if length children \<le> 1 then pret ()
        else if list_ex (\<lambda>(_, e). length nodes < e) endpoints then pret ()
        else
          pbind (debug_assert (endpoints_sorted endpoints) ''sibling spans overlap'') (\<lambda>_.
          pbind (internal (rmap (\<lambda>(a, b). slice_range nodes a b) endpoints)) (\<lambda>slices.
          pcall (shrink_ordering halt_of_internal (length children) (\<lambda>i. nodes_tokens (slices ! i))
                   (reorder_judge W nodes endpoints)))))"

definition parents_of :: "span list \<Rightarrow> nat option list" where
  "parents_of spans =
     (if None \<in> set (map span_parent spans) then [None] else [])
     @ map Some (sort (remdups (concat (map (\<lambda>sp. case span_parent sp of Some p \<Rightarrow> [p] | None \<Rightarrow> [])
                                            spans))))"

definition reorder_spans :: "'env shrink_world \<Rightarrow> ('env, unit) pass" where
  "reorder_spans W =
     pbind self (\<lambda>s.
     pfor (parents_of (current_spans s)) (\<lambda>parent.
       pbind self (\<lambda>s.
       let entries = filter (\<lambda>(i, _). span_parent (current_spans s ! i) = parent)
                       (zip [0..<length (current_spans s)] (map span_label (current_spans s)))
       in pfor (label_groups entries) (\<lambda>(label, child_indices).
            reorder_group W parent label child_indices))))"

section \<open>Every span pass adopts\<close>

lemma safe_try_trivial_spans:
  assumes "world_for P W"
  shows "adopting.safe P (\<lambda>_. True) (try_trivial_spans libm_ceil W)"
proof -
  have "adopting.safe P (\<lambda>_. True) (try_trivial_span libm_ceil W i)" for i
    unfolding try_trivial_span_def Let_def
    by (intro safe_execute_bind safe_adopt_if_smaller adopting_intros assms TrueI; assumption)
  then show ?thesis
    unfolding try_trivial_spans_def
    by (intro safe_while_index [where B = "\<lambda>_ spans. length spans"])
      (auto intro: adopting.safe_pbind_any adopting.safe_pret)
qed

lemma safe_pass_to_descendant:
  assumes "world_for P W"
  shows "adopting.safe P (\<lambda>_. True) (pass_to_descendant W)"
  unfolding pass_to_descendant_def try_descendant_def Let_def
  by (intro adopting_intros assms TrueI)

lemma reorder_judge_adopts:
  assumes W: "world_for P W" and s: "target_ok P s"
  shows "offers_only_permutations n (adopts P s) (\<lambda>_. adopts P s) (reorder_judge W snapshot endpoints)"
  unfolding offers_only_permutations_def
proof (intro allI impI tripleI)
  fix p :: "nat list" and t x u
  assume t: "adopts P s t" and run: "reorder_judge W snapshot endpoints p t = (Inr x, u)"
  note step = consider_adopts(1) [OF W adopting.step_good [OF s t]]
  show "adopts P s u"
    using run step adopting.step_trans [OF s t] adopting.step_refl
    by (auto simp: reorder_judge_def ebind_def lift_result_def split: sum.splits prod.splits)
next
  fix p :: "nat list" and t x u
  assume t: "adopts P s t" and run: "reorder_judge W snapshot endpoints p t = (Inl x, u)"
  note step = consider_adopts(1) [OF W adopting.step_good [OF s t]]
  show "adopts P s u"
    using run step adopting.step_trans [OF s t] t
    by (auto simp: reorder_judge_def ebind_def lift_result_def split: sum.splits prod.splits)
qed

lemma safe_shrink_ordering:
  assumes "world_for P W"
  shows "adopting.safe P (\<lambda>_. True) (pcall (shrink_ordering halt_of_internal n
     (keys :: nat \<Rightarrow> 'k :: linorder) (reorder_judge W snapshot endpoints)))"
proof (rule adopting.safeI)
  fix s :: "'a shrinker"
  assume s: "target_ok P s"
  let ?m = "shrink_ordering halt_of_internal n keys (reorder_judge W snapshot endpoints)"
  have "triple (adopts P s) ?m (\<lambda>_. adopts P s) (\<lambda>_. adopts P s)"
    by (rule shrink_ordering_triple [OF reorder_judge_adopts [OF assms s]])
  moreover obtain r t where m: "?m s = (r, t)" by fastforce
  ultimately have "adopts P s t"
    using adopting.step_refl [OF s] unfolding triple_def by (cases r) fastforce+
  then show "\<exists>r t. pcall ?m s = Some (r, t) \<and> adopts P s t \<and> (\<forall>x. r = Inr x \<longrightarrow> True)"
    using m by simp
qed

lemma safe_reorder_spans:
  assumes "world_for P W"
  shows "adopting.safe P (\<lambda>_. True) (reorder_spans W)"
  unfolding reorder_spans_def reorder_group_def Let_def
  by (intro adopting_intros safe_shrink_ordering assms TrueI)

lemma safe_delete_spans:
  assumes "world_for P W"
  shows "adopting.safe P (\<lambda>_. True) (delete_spans W)"
proof -
  let ?m = "\<lambda>(i, _, _) (_ :: choice_node list) spans. length spans - i"
  have one: "adopting.safe P (\<lambda>_. True) (try_delete_span W sp e A)" for sp e A
    unfolding try_delete_span_def by (intro adopting_intros assms TrueI)
  have step: "adopting.safe P (\<lambda>(j, _). j = i + 1) (delete_span_step W s i A epoch)" for s i A epoch
    unfolding delete_span_step_def Let_def
    by (auto intro!: adopting.safe_pret adopting.safe_pbind_any [OF one])
  have "adopting.safe P (\<lambda>_. True) (ploop (delete_spans_round W) start)" for start
  proof (rule safe_loop [where m = ?m])
    fix i :: "nat \<times> (nat \<times> nat) set \<times> nat" and s :: "'a shrinker"
    assume s: "target_ok P s"
    obtain k A epoch where i: "i = (k, A, epoch)" by (cases i)
    show "\<exists>r t. delete_spans_round W i s = Some (r, t) \<and> adopts P s t
        \<and> (\<forall>j. r = Inr (Inl j) \<longrightarrow> improvements s < improvements t
             \<or> ?m j (current_nodes s) (current_spans s) < ?m i (current_nodes s) (current_spans s))"
    proof (cases "length (current_spans s) \<le> k")
      case True
      then show ?thesis using adopting.step_refl [OF s]
        by (simp add: delete_spans_round_def i pbind_def self_def)
    next
      case False
      obtain r t where rt: "delete_span_step W s k A epoch s = Some (r, t)" "adopts P s t"
        "\<And>x. r = Inr x \<Longrightarrow> (case x of (j, _) \<Rightarrow> j = k + 1)"
        by (rule adopting.safeE [OF step s]) (rule that)
      then have "delete_spans_round W i s = Some (case r of Inl e \<Rightarrow> Inl e | Inr x \<Rightarrow> Inr (Inl x), t)"
        using False by (simp add: delete_spans_round_def i pbind_def self_def split: sum.split)
      then show ?thesis using False i rt(2,3) by (cases r) force+
    qed
  qed
  then show ?thesis
    unfolding delete_spans_def by (intro adopting_intros)
qed

lemma discarded_regions_nonempty:
  "list_all (\<lambda>(u, v). u < v) (discarded_regions spans)"
proof -
  have "list_all (\<lambda>(u, v). u < v) acc \<Longrightarrow> list_all (\<lambda>(u, v). u < v)
     (foldl (\<lambda>discarded sp.
         if span_start sp < span_end sp \<and> span_discarded sp
            \<and> (discarded = [] \<or> snd (last discarded) \<le> span_start sp)
         then discarded @ [(span_start sp, span_end sp)] else discarded) acc spans)" for acc
    by (induction spans arbitrary: acc) simp_all
  then show ?thesis by (simp add: discarded_regions_def)
qed

lemma flattened_len_drain:
  assumes "u < v" "v \<le> length xs"
  shows "flattened_len (take u xs @ drop v xs) < flattened_len xs"
proof -
  have "take u xs @ take (v - u) (drop u xs) @ drop v xs = xs"
    using take_drop_split [of u "v - u" xs] assms by simp
  from arg_cong [where f = flattened_len, OF this]
  have "flattened_len xs = flattened_len (take u xs @ drop v xs) + flattened_len (take (v - u) (drop u xs))"
    by (simp add: flattened_len_sum)
  moreover have "0 < flattened_len (take (v - u) (drop u xs))"
    using assms by (cases "take (v - u) (drop u xs)") (auto simp: flattened_len_sum node_flat_def split: choice_data.split)
  ultimately show ?thesis by simp
qed

lemma flattened_len_drain_all:
  "drain_all regions xs = Inr ys \<Longrightarrow> list_all (\<lambda>(u, v). u < v) regions \<Longrightarrow>
     flattened_len ys \<le> flattened_len xs \<and> (regions \<noteq> [] \<longrightarrow> flattened_len ys < flattened_len xs)"
  by (induction regions xs rule: drain_all.induct)
    (force dest: flattened_len_drain split: if_splits)+

lemma safe_remove_discarded:
  assumes W: "world_for P W"
  shows "adopting.safe P (\<lambda>_. True) (remove_discarded W)"
  unfolding remove_discarded_def
proof (rule safe_loop [where m = "\<lambda>_ _ _. 0"])
  fix i :: unit and s :: "'a shrinker"
  assume s: "target_ok P s"
  let ?d = "discarded_regions (current_spans s)"
  show "\<exists>r t. remove_discarded_round W s = Some (r, t) \<and> adopts P s t
     \<and> (\<forall>j. r = Inr (Inl j) \<longrightarrow> improvements s < improvements t \<or> 0 < (0 :: nat))"
  proof (cases "?d = [] \<or> (\<exists>e. drain_all (rev ?d) (current_nodes s) = Inl e)")
    case True
    then show ?thesis using adopting.step_refl [OF s]
      by (auto simp: remove_discarded_round_def pbind_def self_def internal_def preturn_def Let_def)
  next
    case False
    then obtain attempt where a: "drain_all (rev ?d) (current_nodes s) = Inr attempt"
      by (cases "drain_all (rev ?d) (current_nodes s)") auto
    obtain r t where rt: "consider_nodes W attempt s = (r, t)" by fastforce
    have "flattened_len attempt < flattened_len (current_nodes s)"
      using flattened_len_drain_all [OF a] discarded_regions_nonempty [of "current_spans s"] False by simp
    then have "nodes_sort_key_cmp attempt (current_nodes s) \<noteq> Inr Equal"
      by (simp add: nodes_sort_key_cmp_def cmp_def)
    with consider_adopts [OF W s rt]
    have t: "adopts P s t" "r = Inr True \<Longrightarrow> improvements s < improvements t" by auto
    have "remove_discarded_round W s
        = Some (case r of Inl e \<Rightarrow> Inl e | Inr ok \<Rightarrow> Inr (if ok then Inl () else Inr False), t)"
      using False a by (auto simp: remove_discarded_round_def pbind_def self_def internal_def preturn_def
          consider_run_def rt split: sum.split)
    then show ?thesis using t by (cases r) auto
  qed
qed

end
