(* ===== verification/PassIndex.thy ===== *)
theory PassIndex
  imports PassBase
begin

text \<open>
  The index passes of \<open>hegel-c/src/native/shrinker/index_passes.rs\<close>, over the dense indices
  of \<open>ChoiceData\<close>. The C library \<open>ceil\<close>, which float indices use, is a parameter.
\<close>

definition is_sequence :: "choice_data \<Rightarrow> bool" where
  "is_sequence d = (case d of DBytes _ _ \<Rightarrow> True | DString _ _ \<Rightarrow> True | _ \<Rightarrow> False)"

definition contains_value :: "choice_value list \<Rightarrow> choice_value \<Rightarrow> bool" where
  "contains_value vs v = list_ex (\<lambda>w. value_eq w v) vs"

text \<open>Push a candidate that is not the node's own value and not there yet.\<close>

definition push_candidate :: "choice_value \<Rightarrow> choice_value \<Rightarrow> choice_value list \<Rightarrow> choice_value list" where
  "push_candidate node_val v candidates =
     (if \<not> value_eq v node_val \<and> \<not> contains_value candidates v
      then candidates @ [v] else candidates)"

definition push_candidate_option ::
  "choice_value \<Rightarrow> choice_value option \<Rightarrow> choice_value list \<Rightarrow> choice_value list" where
  "push_candidate_option node_val v candidates =
     (case v of Some v \<Rightarrow> push_candidate node_val v candidates | None \<Rightarrow> candidates)"

definition simplify_after ::
  "(f64 \<Rightarrow> f64) \<Rightarrow> nat \<Rightarrow> choice_node list \<Rightarrow> choice_node list internal_result" where
  "simplify_after libm_ceil i nodes =
     rbind (rmap (node_with_simplest libm_ceil) (drop (i + 1) nodes)) (\<lambda>rest.
     Inr (take (i + 1) nodes @ rest))"

section \<open>Lowering one node and bumping a later one\<close>

definition try_bump_ij ::
  "'env shrink_world \<Rightarrow> nat \<Rightarrow> choice_value \<Rightarrow> nat \<Rightarrow> choice_value \<Rightarrow> ('env, bool) pass" where
  "try_bump_ij W i new_val j bump_val = replace_run W [(i, new_val), (j, bump_val)]"

definition decrement_targets ::
  "(f64 \<Rightarrow> f64) \<Rightarrow> choice_data \<Rightarrow> nat \<Rightarrow> choice_value list internal_result" where
  "decrement_targets libm_ceil d current_idx =
     rbind (if 1 < current_idx
            then rbind (data_from_index libm_ceil d 0) (\<lambda>v0.
                 rbind (hegel_internal_unwrap v0
                   ''lower_and_bump: from_index(0) has no value for an indexed kind'') (\<lambda>v0.
                 Inr [v0]))
            else Inr []) (\<lambda>targets.
     rbind (data_from_index libm_ceil d (current_idx - 1)) (\<lambda>v_prev.
     Inr (case v_prev of
            Some v \<Rightarrow> if contains_value targets v then targets else targets @ [v]
          | None \<Rightarrow> targets)))"

definition lower_alone :: "(f64 \<Rightarrow> f64) \<Rightarrow> 'env shrink_world \<Rightarrow> nat \<Rightarrow> choice_value \<Rightarrow> ('env, unit) pass" where
  "lower_alone libm_ceil W i new_val =
     pbind self (\<lambda>s.
     let attempt = current_nodes s in
     pbind (index_slice attempt i) (\<lambda>node.
     case node_with_value node new_val of
       None \<Rightarrow> pret ()
     | Some lowered \<Rightarrow>
         let attempt = attempt[i := lowered] in
         pbind (consider_run W attempt) (\<lambda>_.
         pbind (internal (simplify_after libm_ceil i attempt)) (\<lambda>zeroed.
         pbind (consider_run W zeroed) (\<lambda>_. pret ())))))"

definition bump_index :: "(f64 \<Rightarrow> f64) \<Rightarrow> 'env shrink_world \<Rightarrow> nat \<Rightarrow> choice_value \<Rightarrow> nat \<Rightarrow> choice_data
    \<Rightarrow> nat \<Rightarrow> ('env, bool) pass" where
  "bump_index libm_ceil W i new_val j data_j idx =
     pbind (internal (data_from_index libm_ceil data_j idx)) (\<lambda>v.
     case v of None \<Rightarrow> pret False | Some v \<Rightarrow> try_bump_ij W i new_val j v)"

definition bump_later ::
  "(f64 \<Rightarrow> f64) \<Rightarrow> 'env shrink_world \<Rightarrow> nat \<Rightarrow> choice_value \<Rightarrow> nat \<Rightarrow> ('env, unit) pass" where
  "bump_later libm_ceil W i new_val j =
     pbind self (\<lambda>s.
     if length (current_nodes s) \<le> j \<or> is_sequence (node_data (current_nodes s ! j)) then pret ()
     else
       let data_j = node_data (current_nodes s ! j);
           bump = bump_index libm_ceil W i new_val j data_j
       in pbind (internal (data_to_index libm_ceil data_j)) (\<lambda>idx.
          pbind (internal (data_max_index data_j)) (\<lambda>max_idx.
          case (idx, max_idx) of
            (Some target_idx, Some max_j) \<Rightarrow>
              pbind (pfor_until [1, 2, 4] (\<lambda>b. bump (target_idx + b))) (\<lambda>bumped_any_relative.
              if bumped_any_relative then pret ()
              else pbind (pfor_until [0..<8] (\<lambda>k.
                     if max_j < 2 ^ k then pret True
                     else pbind (bump (2 ^ k - 1)) (\<lambda>_.
                          pbind (bump (2 ^ k)) (\<lambda>_. pret False)))) (\<lambda>_. pret ()))
          | _ \<Rightarrow> pret ())))"

definition lower_and_bump_at :: "(f64 \<Rightarrow> f64) \<Rightarrow> 'env shrink_world \<Rightarrow> nat \<Rightarrow> nat \<Rightarrow> ('env, unit) pass" where
  "lower_and_bump_at libm_ceil W gap i =
     pbind self (\<lambda>s.
     pbind (index_slice (current_nodes s) i) (\<lambda>node_i.
     if is_sequence (node_data node_i) then pret ()
     else
       pbind (internal (data_to_index libm_ceil (node_data node_i))) (\<lambda>idx.
       case idx of
         None \<Rightarrow> pret ()
       | Some current_idx \<Rightarrow>
           if current_idx = 0 then pret ()
           else
             pbind (internal (decrement_targets libm_ceil (node_data node_i) current_idx)) (\<lambda>targets.
             if length (current_nodes s) \<le> i + gap then pret ()
             else pfor targets (\<lambda>new_val.
                    pbind (if gap = 1 then lower_alone libm_ceil W i new_val else pret ()) (\<lambda>_.
                    bump_later libm_ceil W i new_val (i + gap)))))))"

definition lower_and_bump :: "(f64 \<Rightarrow> f64) \<Rightarrow> 'env shrink_world \<Rightarrow> ('env, unit) pass" where
  "lower_and_bump libm_ceil W =
     pbind self (\<lambda>s.
     pfor [1..<min (length (current_nodes s)) 4] (\<lambda>gap. each_node (lower_and_bump_at libm_ceil W gap)))"

section \<open>Incrementing\<close>

definition power_candidates :: "integer_choice \<Rightarrow> choice_value option list" where
  "power_candidates ic =
     concat (map (\<lambda>e. map (\<lambda>sign. map_option VInteger (value_from_bigint ic (sign * 2 ^ e))) [1, -1])
               [0..<11])"

definition increment_candidates ::
  "(f64 \<Rightarrow> f64) \<Rightarrow> choice_node \<Rightarrow> nat \<Rightarrow> choice_value list internal_result" where
  "increment_candidates libm_ceil node current_idx =
     rbind (rmap (\<lambda>d. data_from_index libm_ceil (node_data node) (current_idx + d)) [1, 2, 4, 8, 16])
       (\<lambda>near.
     rbind (data_max_index (node_data node)) (\<lambda>max_idx.
     rbind (case max_idx of
              Some mi \<Rightarrow> data_from_index libm_ceil (node_data node) mi
            | None \<Rightarrow> Inr None) (\<lambda>top.
     Inr (fold (push_candidate_option (node_value node))
            (near @ [top] @ (case node_data node of DInteger ic _ \<Rightarrow> power_candidates ic | _ \<Rightarrow> [])) []))))"

definition try_increment :: "(f64 \<Rightarrow> f64) \<Rightarrow> 'env shrink_world \<Rightarrow> nat \<Rightarrow> choice_value \<Rightarrow> ('env, bool) pass" where
  "try_increment libm_ceil W i incremented =
     pbind self (\<lambda>s.
     if length (current_nodes s) \<le> i then pret True
     else
       case node_with_value (current_nodes s ! i) incremented of
         None \<Rightarrow> pret False
       | Some bumped \<Rightarrow>
           pbind (internal (simplify_after libm_ceil i ((current_nodes s)[i := bumped]))) (\<lambda>zeroed.
           pbind (consider_run W zeroed) (\<lambda>_. pret False)))"

definition try_shortening_at :: "(f64 \<Rightarrow> f64) \<Rightarrow> 'env shrink_world \<Rightarrow> nat \<Rightarrow> ('env, unit) pass" where
  "try_shortening_at libm_ceil W i =
     pbind self (\<lambda>s.
     pbind (index_slice (current_nodes s) i) (\<lambda>node.
     if is_sequence (node_data node) then pret ()
     else
       pbind (internal (data_to_index libm_ceil (node_data node))) (\<lambda>idx.
       case idx of
         None \<Rightarrow> pret ()
       | Some current_idx \<Rightarrow>
           pbind (internal (increment_candidates libm_ceil node current_idx)) (\<lambda>candidates.
           pbind (pfor_until candidates (try_increment libm_ceil W i)) (\<lambda>_. pret ())))))"

definition try_shortening_via_increment :: "(f64 \<Rightarrow> f64) \<Rightarrow> 'env shrink_world \<Rightarrow> ('env, unit) pass" where
  "try_shortening_via_increment libm_ceil W = each_node (try_shortening_at libm_ceil W)"

section \<open>Every index pass adopts\<close>

lemma safe_try_bump_ij [adopting_intros]:
  "world_for P W \<Longrightarrow> adopting.safe P (\<lambda>_. True) (try_bump_ij W i v j w)"
  unfolding try_bump_ij_def by (rule safe_replace)

lemma safe_lower_and_bump:
  assumes "world_for P W"
  shows "adopting.safe P (\<lambda>_. True) (lower_and_bump libm_ceil W)"
  unfolding lower_and_bump_def lower_and_bump_at_def lower_alone_def bump_later_def bump_index_def Let_def
  by (intro adopting_intros assms TrueI)

lemma safe_try_shortening_via_increment:
  assumes "world_for P W"
  shows "adopting.safe P (\<lambda>_. True) (try_shortening_via_increment libm_ceil W)"
  unfolding try_shortening_via_increment_def try_shortening_at_def try_increment_def Let_def
  by (intro adopting_intros assms TrueI)

end
