(* ===== verification/PassMutation.thy ===== *)
theory PassMutation
  imports PassIndex
begin

text \<open>
  The passes that draw fresh randomness: \<open>mutation.rs\<close> and \<open>coarse.rs\<close> of
  \<open>hegel-c/src/native/shrinker/\<close>. The randomness itself is inside the test function, in the
  environment the shrinker threads.
\<close>

section \<open>Mutation\<close>

definition RANDOM_ATTEMPTS :: nat where
  "RANDOM_ATTEMPTS = 3"

definition DIVERGENT_RANDOM_ATTEMPTS :: nat where
  "DIVERGENT_RANDOM_ATTEMPTS = 32"

definition MAX_MUTATE_NODES :: nat where
  "MAX_MUTATE_NODES = 32"

definition index_offset :: "nat \<Rightarrow> nat \<Rightarrow> int \<Rightarrow> nat option" where
  "index_offset current_idx delta sign =
     (if 0 \<le> sign then Some (current_idx + delta)
      else if current_idx < delta then None
      else Some (current_idx - delta))"

definition replay_observing_divergence ::
  "'env shrink_world \<Rightarrow> choice_node list \<Rightarrow> choice_value \<Rightarrow> nat \<Rightarrow> ('env, bool) pass" where
  "replay_observing_divergence W snapshot new_val i =
     pbind self (\<lambda>s.
     if max_improvements s \<le> improvements s then pthrow Stop
     else if stalled s then pret False
     else
       pbind (index_slice snapshot i) (\<lambda>node.
       case node_with_value node new_val of
         None \<Rightarrow> pret False
       | Some replaced \<Rightarrow>
           let expected = map (\<lambda>n. data_kind (node_data n)) snapshot in
           pbind (execute W (FullRun (snapshot[i := replaced])))
             (\<lambda>(is_interesting, actual_nodes, actual_spans).
           pbind count_call (\<lambda>_.
           let diverged = length actual_nodes = length expected
                 \<and> list_ex (\<lambda>(a, e). \<not> kind_eq (data_kind (node_data a)) e)
                     (drop (i + 1) (zip actual_nodes expected))
           in pbind (adopt_if_smaller is_interesting actual_nodes actual_spans) (\<lambda>_.
              pret diverged)))))"

definition mutation_candidates ::
  "(f64 \<Rightarrow> f64) \<Rightarrow> choice_node \<Rightarrow> nat \<Rightarrow> choice_value list internal_result" where
  "mutation_candidates libm_ceil node current_idx =
     rbind (rmap (\<lambda>(delta, sign).
              case index_offset current_idx delta sign of
                None \<Rightarrow> Inr None
              | Some new_idx \<Rightarrow> data_from_index libm_ceil (node_data node) new_idx)
              (concat (map (\<lambda>delta. [(delta, 1), (delta, -1)]) [1..<6]))) (\<lambda>found.
     Inr (fold (push_candidate_option (node_value node)) found []))"

definition two_prefix ::
  "(f64 \<Rightarrow> f64) \<Rightarrow> choice_node list \<Rightarrow> choice_value list \<Rightarrow> nat \<Rightarrow> nat \<Rightarrow> choice_value
   \<Rightarrow> choice_value list internal_result" where
  "two_prefix libm_ceil snapshot pre i j unit_val =
     rbind (rmap (\<lambda>n. data_simplest_value libm_ceil (node_data n))
              (take (j - (i + 1)) (drop (i + 1) snapshot))) (\<lambda>between.
     Inr (pre @ between @ [unit_val]))"

definition mutate_candidate ::
  "(f64 \<Rightarrow> f64) \<Rightarrow> 'env shrink_world \<Rightarrow> choice_node list \<Rightarrow> nat \<Rightarrow> choice_value \<Rightarrow> ('env, unit) pass" where
  "mutate_candidate libm_ceil W snapshot i new_val =
     (let pre = map node_value (take i snapshot) @ [new_val];
          max_size = flattened_len snapshot
      in pbind (replay_observing_divergence W snapshot new_val i) (\<lambda>diverged.
         if \<not> diverged then pret ()
         else
           pbind (pfor [0..<DIVERGENT_RANDOM_ATTEMPTS] (\<lambda>_. probe_run W pre max_size)) (\<lambda>_.
           pfor (filter (\<lambda>j. j < length snapshot) [i + 1, i + 2]) (\<lambda>j.
             pbind (internal (data_from_index libm_ceil (node_data (snapshot ! j)) 1)) (\<lambda>unit_val.
             case unit_val of
               None \<Rightarrow> pret ()
             | Some unit_val \<Rightarrow>
                 pbind (internal (two_prefix libm_ceil snapshot pre i j unit_val)) (\<lambda>both.
                 pfor [0..<RANDOM_ATTEMPTS] (\<lambda>_. probe_run W both max_size)))))))"

definition mutate_at :: "(f64 \<Rightarrow> f64) \<Rightarrow> 'env shrink_world \<Rightarrow> nat \<Rightarrow> ('env, unit) pass" where
  "mutate_at libm_ceil W i =
     pbind self (\<lambda>s.
     let snapshot = current_nodes s in
     pbind (index_slice snapshot i) (\<lambda>node.
     if was_forced node \<or> is_sequence (node_data node)
     then pret ()
     else
       pbind (internal (data_to_index libm_ceil (node_data node))) (\<lambda>idx.
       case idx of
         None \<Rightarrow> pret ()
       | Some current_idx \<Rightarrow>
           pbind (internal (mutation_candidates libm_ceil node current_idx)) (\<lambda>candidates.
           pfor candidates (mutate_candidate libm_ceil W snapshot i)))))"

definition mutate_and_shrink :: "(f64 \<Rightarrow> f64) \<Rightarrow> 'env shrink_world \<Rightarrow> ('env, unit) pass" where
  "mutate_and_shrink libm_ceil W =
     pbind self (\<lambda>s.
     if MAX_MUTATE_NODES < length (current_nodes s) then pret ()
     else each_node (mutate_at libm_ceil W))"

section \<open>Coarse reduction\<close>

definition try_lower_node_as_alternative ::
  "'env shrink_world \<Rightarrow> nat \<Rightarrow> int \<Rightarrow> ('env, bool) pass" where
  "try_lower_node_as_alternative W i v =
     pbind self (\<lambda>s.
     pbind (debug_assert (i < length (current_nodes s)) ''i < self.current_nodes.len()'') (\<lambda>_.
     pbind (replace_int W i v) (\<lambda>ok.
     if ok then pret True
     else
       pbind self (\<lambda>s.
       pbind (index_range (current_nodes s) 0 i) (\<lambda>before.
       let pre = map node_value before @ [VInteger v];
           max_size = flattened_len (current_nodes s) + 16;
           epoch = improvements s
       in pfor_until [0..<3] (\<lambda>_::nat.
            pbind (probe_run W pre max_size) (\<lambda>_.
            pbind self (\<lambda>s. pret (epoch < improvements s)))))))))"

definition reduce_alternatives_at :: "'env shrink_world \<Rightarrow> nat \<Rightarrow> ('env, unit) pass" where
  "reduce_alternatives_at W i =
     pbind self (\<lambda>s.
     pbind (index_slice (current_nodes s) i) (\<lambda>node.
     case node_data node of
       DInteger ic current_val \<Rightarrow>
         if was_forced node \<or> 10 < current_val \<or> ic_min ic \<noteq> 0 then pret ()
         else
           let zeroed = (current_nodes s)[i := ChoiceNode (DInteger ic 0) (was_forced node)] in
           pbind (execute W (FullRun zeroed)) (\<lambda>(_, zero_actual, _).
           let nodes = current_nodes s;
               shape_changed = length zero_actual \<noteq> length nodes
                 \<or> list_ex (\<lambda>j. length zero_actual \<le> j
                        \<or> \<not> same_variant (node_data (nodes ! j)) (node_data (zero_actual ! j)))
                     [i + 1..<length nodes]
           in if shape_changed
              then pbind (pfor_until (map int [0..<nat current_val]) (try_lower_node_as_alternative W i))
                     (\<lambda>_. pret ())
              else pret ())
     | _ \<Rightarrow> pret ()))"

definition initial_coarse_reduction :: "'env shrink_world \<Rightarrow> ('env, unit) pass" where
  "initial_coarse_reduction W = each_node (reduce_alternatives_at W)"

section \<open>Both passes adopt\<close>

lemma safe_replay_observing_divergence [adopting_intros]:
  assumes "world_for P W"
  shows "adopting.safe P (\<lambda>_. True) (replay_observing_divergence W snapshot v i)"
  unfolding replay_observing_divergence_def Let_def
  by (intro adopting_intros assms TrueI safe_execute_bind safe_adopt_if_smaller)

lemma safe_mutate_and_shrink:
  assumes "world_for P W"
  shows "adopting.safe P (\<lambda>_. True) (mutate_and_shrink libm_ceil W)"
  unfolding mutate_and_shrink_def mutate_at_def mutate_candidate_def Let_def
  by (intro adopting_intros assms TrueI)

lemma safe_initial_coarse_reduction:
  assumes "world_for P W"
  shows "adopting.safe P (\<lambda>_. True) (initial_coarse_reduction W)"
  unfolding initial_coarse_reduction_def reduce_alternatives_at_def
    try_lower_node_as_alternative_def Let_def
  by (intro adopting_intros assms TrueI adopting.safe_weaken [OF safe_execute])

end
