(* ===== verification/PassIntegers.thy ===== *)
theory PassIntegers
  imports PassBase
begin

text \<open>
  The integer passes of \<open>hegel-c/src/native/shrinker/integers.rs\<close>. A \<open>BigInt\<close> is an
  \<open>int\<close>; shifting right is division by a power of two, of a non-negative number here. A
  \<open>HashMap\<close> of groups that is then sorted by first index is the list of groups in order of
  their first index.
\<close>

definition low_bits :: "int \<Rightarrow> nat \<Rightarrow> int" where
  "low_bits v keep = v - \<bar>v div 2 ^ keep\<bar> * 2 ^ keep"

definition bigint_bits :: "int \<Rightarrow> nat" where
  "bigint_bits v = bit_len (nat \<bar>v\<bar>)"

definition int_value_bigint :: "'env shrinker \<Rightarrow> nat \<Rightarrow> int option" where
  "int_value_bigint s i =
     (if i < length (current_nodes s)
      then map_option snd (as_integer (node_data (current_nodes s ! i))) else None)"

definition replace_two :: "'env shrink_world \<Rightarrow> nat \<Rightarrow> int \<Rightarrow> nat \<Rightarrow> int \<Rightarrow> ('env, bool) pass" where
  "replace_two W i vi j vj = replace_run W [(i, VInteger vi), (j, VInteger vj)]"

section \<open>Zeroing blocks and flipping signs\<close>

fun halvings :: "nat \<Rightarrow> nat list" where
  "halvings k = (if k = 0 then [] else k # halvings (k div 2))"

declare halvings.simps [simp del]

definition zero_block_at :: "(f64 \<Rightarrow> f64) \<Rightarrow> 'env shrink_world \<Rightarrow> nat \<Rightarrow> nat \<Rightarrow> ('env, nat) pass" where
  "zero_block_at libm_ceil W k i =
     pbind self (\<lambda>s.
     pbind (index_slice (current_nodes s) i) (\<lambda>node.
     pbind (internal (data_is_simplest libm_ceil (node_data node))) (\<lambda>simplest.
     if simplest then pret (i + 1)
     else
       pbind (internal (rmap (\<lambda>j. rbind (data_simplest_value libm_ceil (node_data (current_nodes s ! j)))
                                   (\<lambda>v. Inr (j, v))) [i..<i + k])) (\<lambda>replacements.
       pbind (replace_run W replacements) (\<lambda>_. pret (i + k))))))"

definition zero_choices :: "(f64 \<Rightarrow> f64) \<Rightarrow> 'env shrink_world \<Rightarrow> ('env, unit) pass" where
  "zero_choices libm_ceil W =
     pbind self (\<lambda>s.
     pfor (halvings (length (current_nodes s))) (\<lambda>k.
       while_index (\<lambda>i s. i + k \<le> length (current_nodes s)) 0 (zero_block_at libm_ceil W k)))"

definition swap_sign_at :: "'env shrink_world \<Rightarrow> nat \<Rightarrow> ('env, unit) pass" where
  "swap_sign_at W i =
     pbind self (\<lambda>s.
     pbind (index_slice (current_nodes s) i) (\<lambda>node.
     case node_data node of
       DInteger ic v \<Rightarrow>
         pbind (if v \<noteq> integer_simplest ic then replace_run W [(i, VInteger (integer_simplest ic))]
                else pret False) (\<lambda>_.
         pbind self (\<lambda>s.
         case int_value_bigint s i of
           Some v \<Rightarrow> if v < 0 then pbind (replace_int W i (- v)) (\<lambda>_. pret ()) else pret ()
         | None \<Rightarrow> pret ()))
     | _ \<Rightarrow> pret ()))"

definition swap_integer_sign :: "'env shrink_world \<Rightarrow> ('env, unit) pass" where
  "swap_integer_sign W = each_node (swap_sign_at W)"

section \<open>Distance from the target\<close>

definition try_at_distance ::
  "'env shrink_world \<Rightarrow> nat \<Rightarrow> integer_choice \<Rightarrow> int \<Rightarrow> int \<Rightarrow> ('env, bool) pass" where
  "try_at_distance W i ic target d =
     pbind (if integer_validate ic (target + d) then replace_int W i (target + d) else pret False)
       (\<lambda>accepted.
     if \<not> accepted \<and> 0 < d \<and> integer_validate ic (target - d)
     then replace_int W i (target - d) else pret accepted)"

definition distance_from :: "'env shrinker \<Rightarrow> nat \<Rightarrow> int \<Rightarrow> int option" where
  "distance_from s i target = map_option (\<lambda>v. \<bar>v - target\<bar>) (int_value_bigint s i)"

definition live_distance :: "nat \<Rightarrow> int \<Rightarrow> ('env, int) node_pass" where
  "live_distance i target = pbind self (\<lambda>s. or_gone (distance_from s i target))"

text \<open>The moves of one round: shifting right, then subtracting multiples of two and of one.\<close>

definition descent_moves ::
  "'env shrink_world \<Rightarrow> nat \<Rightarrow> integer_choice \<Rightarrow> int \<Rightarrow> int \<Rightarrow> ('env, unit) node_pass" where
  "descent_moves W i ic target before =
     (let max_shift = bigint_bits before + 1
      in pbind (drive_find (\<lambda>k.
           halting (try_at_distance W i ic target (before div 2 ^ min k max_shift)))) (\<lambda>_.
         pfor [2, 1] (\<lambda>step.
           pbind (live_distance i target) (\<lambda>base.
           pbind (drive_find (\<lambda>n.
             if base < step * int n then pret False
             else halting (try_at_distance W i ic target (base - step * int n)))) (\<lambda>_. pret ())))))"

definition descent_round ::
  "'env shrink_world \<Rightarrow> nat \<Rightarrow> integer_choice \<Rightarrow> int \<Rightarrow> ('env, unit + unit) node_pass" where
  "descent_round W i ic target =
     pbind (live_distance i target) (\<lambda>before.
     if before = 0 then pret (Inr ())
     else
       pbind (descent_moves W i ic target before) (\<lambda>_.
       pbind self (\<lambda>s.
       if distance_from s i target = Some before then pret (Inr ()) else pret (Inl ()))))"

definition binary_search_node_towards_zero :: "'env shrink_world \<Rightarrow> nat \<Rightarrow> ('env, unit) node_pass" where
  "binary_search_node_towards_zero W i =
     pbind self (\<lambda>s.
     pbind (halting (index_slice (current_nodes s) i)) (\<lambda>node.
     pbind (or_gone (as_integer (node_data node))) (\<lambda>(ic, _).
     let target = clamped_shrink_towards ic; at = (\<lambda>d. halting (try_at_distance W i ic target d)) in
     pbind (at 0) (\<lambda>_.
     pbind (at 1) (\<lambda>_.
     pbind (live_distance i target) (\<lambda>base.
     let n_bits = bigint_bits base in
     pbind (drive_find (\<lambda>k. if n_bits \<le> k then pret False else at (low_bits base (n_bits - k)))) (\<lambda>_.
     pbind (live_distance i target) (\<lambda>base.
     pbind (if 8 < bigint_bits base
            then pbind (at (base div 2 ^ (bigint_bits base - 8))) (\<lambda>_. at (low_bits base 8))
            else pret False) (\<lambda>_.
     ploop (\<lambda>_. descent_round W i ic target) ())))))))))"

definition binary_search_integer_towards_zero :: "'env shrink_world \<Rightarrow> ('env, unit) pass" where
  "binary_search_integer_towards_zero W =
     each_node (\<lambda>i. absorbing (binary_search_node_towards_zero W i))"

section \<open>Pairs of integers\<close>

definition integer_entries :: "choice_node list \<Rightarrow> (nat \<times> integer_choice \<times> int) list" where
  "integer_entries nodes =
     concat (map (\<lambda>i. case as_integer (node_data (nodes ! i)) of
                        Some (ic, v) \<Rightarrow> [(i, ic, v)] | None \<Rightarrow> []) [0..<length nodes])"

definition redistribute_pair_at :: "'env shrink_world \<Rightarrow> nat \<Rightarrow> nat \<Rightarrow> ('env, unit) pass" where
  "redistribute_pair_at W gap pair_idx =
     pbind self (\<lambda>s.
     let ints = integer_entries (current_nodes s) in
     if length ints \<le> pair_idx + gap then pret ()
     else
       case (ints ! pair_idx, ints ! (pair_idx + gap)) of
         ((i, ic_i, prev_i), (j, _, prev_j)) \<Rightarrow>
           let target_i = clamped_shrink_towards ic_i; prev_dist = \<bar>prev_i - target_i\<bar> in
           if prev_dist = 0 then pret ()
           else drive_down_big 0 prev_dist (\<lambda>d.
                  let new_i = (if prev_i < target_i then target_i - d else target_i + d)
                  in replace_two W i new_i j (prev_j + (prev_i - new_i))))"

definition redistribute_integers :: "'env shrink_world \<Rightarrow> ('env, unit) pass" where
  "redistribute_integers W =
     pbind self (\<lambda>s.
     let n = length (integer_entries (current_nodes s)) in
     pfor [1..<min 8 n] (\<lambda>gap.
       pfor (rev [0..<Suc (n - (gap + 1))]) (redistribute_pair_at W gap)))"

text \<open>
  One pair of \<open>lower_integers_together\<close>: \<open>Some True\<close> is the early return of the pass,
  \<open>Some False\<close> the break of the loop over gaps.
\<close>

definition lower_pair :: "'env shrink_world \<Rightarrow> nat \<Rightarrow> nat \<Rightarrow> ('env, bool option) pass" where
  "lower_pair W pair_idx gap =
     pbind self (\<lambda>s.
     let ints = integer_entries (current_nodes s) in
     if length ints \<le> pair_idx then pret (Some True)
     else if length ints \<le> pair_idx + gap then pret (Some False)
     else
       case (ints ! pair_idx, ints ! (pair_idx + gap)) of
         ((i, ic_i, v_i), (j, _, v_j)) \<Rightarrow>
           let st_i = clamped_shrink_towards ic_i in
           pbind (if st_i < v_i
                  then drive_find (\<lambda>n. if v_i - st_i < int n then pret False
                         else replace_two W i (v_i - int n) j (v_j - int n))
                  else pret 0) (\<lambda>_.
           pbind (if v_i < st_i
                  then drive_find (\<lambda>n. if st_i - v_i < int n then pret False
                         else replace_two W i (v_i + int n) j (v_j + int n))
                  else pret 0) (\<lambda>_. pret None)))"

definition lower_together_round :: "'env shrink_world \<Rightarrow> nat \<Rightarrow> ('env, nat + unit) pass" where
  "lower_together_round W pair_idx =
     pbind (pfor_find [1, 2, 3] (lower_pair W pair_idx)) (\<lambda>exit.
     if exit = Some True then pret (Inr ()) else pret (Inl (pair_idx + 1)))"

definition lower_integers_together :: "'env shrink_world \<Rightarrow> ('env, unit) pass" where
  "lower_integers_together W = ploop (lower_together_round W) 0"

section \<open>Duplicates\<close>

fun add_to_group ::
  "('k \<Rightarrow> 'k \<Rightarrow> bool) \<Rightarrow> 'k \<Rightarrow> nat \<Rightarrow> ('k \<times> nat list) list \<Rightarrow> ('k \<times> nat list) list" where
  "add_to_group eq key i [] = [(key, [i])]"
| "add_to_group eq key i ((k, is) # groups) =
     (if eq k key then (k, is @ [i]) # groups else (k, is) # add_to_group eq key i groups)"

definition groups_of :: "('k \<Rightarrow> 'k \<Rightarrow> bool) \<Rightarrow> (nat \<times> 'k) list \<Rightarrow> ('k \<times> nat list) list" where
  "groups_of eq entries = fold (\<lambda>(i, key). add_to_group eq key i) entries []"

definition duplicate_key_eq :: "choice_data \<times> choice_value \<Rightarrow> choice_data \<times> choice_value \<Rightarrow> bool" where
  "duplicate_key_eq a b \<longleftrightarrow> same_variant (fst a) (fst b) \<and> value_eq (snd a) (snd b)"

definition simplify_group :: "(f64 \<Rightarrow> f64) \<Rightarrow> 'env shrink_world \<Rightarrow> choice_data \<Rightarrow> choice_value
    \<Rightarrow> nat list \<Rightarrow> ('env, unit) pass" where
  "simplify_group libm_ceil W kind group_value indices =
    (if length indices < 2 then pret ()
     else
       pbind self (\<lambda>s.
       let nodes = current_nodes s;
           valid = filter (\<lambda>i. i < length nodes
                      \<and> ref_eq (data_value_ref (node_data (nodes ! i))) (value_ref group_value)
                      \<and> same_variant (node_data (nodes ! i)) kind) indices
       in if length valid < 2 then pret ()
          else
            pbind (internal (data_simplest_value libm_ceil (node_data (nodes ! (valid ! 0))))) (\<lambda>simplest.
            if value_eq simplest group_value then pret ()
            else pbind (replace_run W (map (\<lambda>i. (i, simplest)) valid)) (\<lambda>_. pret ()))))"

definition group_replace :: "'env shrink_world \<Rightarrow> nat list \<Rightarrow> int \<Rightarrow> ('env, bool) pass" where
  "group_replace W valid candidate =
     pbind self (\<lambda>s.
     let current_valid = filter (\<lambda>i. i < length (current_nodes s)) valid in
     if length current_valid < 2 then pret False
     else replace_run W (map (\<lambda>i. (i, VInteger candidate)) current_valid))"

definition live_base :: "nat list \<Rightarrow> 'env shrinker \<Rightarrow> int option" where
  "live_base valid s = int_value_bigint s (valid ! 0)"

text \<open>Move the whole group by multiples of \<open>step\<close> from its live value, while that is past \<open>lo\<close>.\<close>

definition group_steps ::
  "'env shrink_world \<Rightarrow> nat list \<Rightarrow> (int \<Rightarrow> bool) \<Rightarrow> int \<Rightarrow> ('env, unit) node_pass" where
  "group_steps W valid past step =
     pbind self (\<lambda>s.
     if (case live_base valid s of Some b \<Rightarrow> past b | None \<Rightarrow> False)
     then pbind (drive_find (\<lambda>n.
            pbind self (\<lambda>s.
            pbind (or_gone (live_base valid s)) (\<lambda>base.
            halting (group_replace W valid (base + step * int n)))))) (\<lambda>_. pret ())
     else pret ())"

definition group_shift :: "'env shrink_world \<Rightarrow> nat list \<Rightarrow> int \<Rightarrow> int \<Rightarrow> int \<Rightarrow> ('env, unit) node_pass" where
  "group_shift W valid sign lo dist =
     (if 0 < dist
      then pbind (drive_find (\<lambda>k.
             halting (group_replace W valid
               (sign * (lo + dist div 2 ^ min k (bigint_bits dist + 1)))))) (\<lambda>_. pret ())
      else pret ())"

definition shrink_int_duplicate_group ::
  "'env shrink_world \<Rightarrow> int \<Rightarrow> nat list \<Rightarrow> integer_choice \<Rightarrow> ('env, unit) node_pass" where
  "shrink_int_duplicate_group W val valid ic =
     (let simplest = integer_simplest ic in
      pbind (if simplest \<noteq> val
             then halting (replace_run W (map (\<lambda>i. (i, VInteger simplest)) valid)) else pret False) (\<lambda>_.
      pbind self (\<lambda>s.
      pbind (or_gone (live_base valid s)) (\<lambda>cur_value.
      if 0 < cur_value then
        let lo = max simplest 0 in
        pbind (group_shift W valid 1 lo (cur_value - lo)) (\<lambda>_.
        pbind (group_steps W valid (\<lambda>b. lo < b) (- 2)) (\<lambda>_.
        group_steps W valid (\<lambda>b. lo < b) (- 1)))
      else if cur_value < 0 then
        let lo = max (- simplest) 0 in
        pbind (group_shift W valid (- 1) lo (max (- cur_value - lo) 0)) (\<lambda>_.
        pbind (group_steps W valid (\<lambda>b. b < - lo) 2) (\<lambda>_.
        group_steps W valid (\<lambda>b. b < - lo) 1))
      else pret ()))))"

definition shrink_int_duplicates :: "'env shrink_world \<Rightarrow> int \<times> nat list \<Rightarrow> ('env, unit) pass" where
  "shrink_int_duplicates W = (\<lambda>(val, indices).
     if length indices < 2 then pret ()
     else
       pbind self (\<lambda>s.
       let nodes = current_nodes s;
           members = concat (map (\<lambda>i.
             if i < length nodes
             then case node_data (nodes ! i) of
                    DInteger ic v \<Rightarrow> if v = val then [(i, ic)] else []
                  | _ \<Rightarrow> []
             else []) indices)
       in if length members < 2 then pret ()
          else absorbing (shrink_int_duplicate_group W val (map fst members) (snd (members ! 0)))))"

definition shrink_duplicates :: "(f64 \<Rightarrow> f64) \<Rightarrow> 'env shrink_world \<Rightarrow> ('env, unit) pass" where
  "shrink_duplicates libm_ceil W =
     pbind self (\<lambda>s.
     let nodes = current_nodes s in
     pbind (pfor (groups_of duplicate_key_eq
              (map (\<lambda>i. (i, node_data (nodes ! i), node_value (nodes ! i))) [0..<length nodes]))
            (\<lambda>(key, indices). simplify_group libm_ceil W (fst key) (snd key) indices)) (\<lambda>_.
     pbind self (\<lambda>s.
     pfor (groups_of (=) (map (\<lambda>(i, _, v). (i, v)) (integer_entries (current_nodes s))))
       (shrink_int_duplicates W))))"

section \<open>A common offset\<close>

text \<open>A changed integer away from its target: index, target, distance and sign.\<close>

definition offset_entry ::
  "choice_node list \<Rightarrow> nat \<Rightarrow> (nat \<times> int \<times> int \<times> int) list internal_result" where
  "offset_entry nodes i =
     rbind (hegel_internal_assert (i < length nodes) ''i < self.current_nodes.len()'') (\<lambda>_.
     Inr (case as_integer (node_data (nodes ! i)) of
            None \<Rightarrow> []
          | Some (ic, v) \<Rightarrow>
              let target = clamped_shrink_towards ic in
              if v = target then []
              else [(i, target, \<bar>v - target\<bar>, if target \<le> v then 1 else -1)]))"

definition offset_replacements ::
  "(nat \<times> int \<times> int \<times> int) list \<Rightarrow> int \<Rightarrow> int \<Rightarrow> int \<Rightarrow> (nat \<times> choice_value) list" where
  "offset_replacements entries offset sign_multiplier n =
     map (\<lambda>(i, target, distance, sign).
            let new_distance = (offset - n) + (distance - offset)
            in (i, VInteger (if 0 \<le> sign * sign_multiplier then target + new_distance
                             else target - new_distance))) entries"

definition lower_common_node_offset :: "'env shrink_world \<Rightarrow> ('env, unit) pass" where
  "lower_common_node_offset W =
     pbind self (\<lambda>s.
     let changed = sorted_list_of_set (all_changed_nodes s) in
     if length changed \<le> 1 then pret ()
     else
       pbind (internal (rmap (offset_entry (current_nodes s)) changed)) (\<lambda>found.
       let entries = concat found in
       if length entries \<le> 1 then pret ()
       else
         let offset = Min (set (map (\<lambda>(_, _, distance, _). distance) entries)) in
         pbind (debug_assert (0 < offset) ''offset.sign() == Sign::Plus'') (\<lambda>_.
         pbind (pfor [1, -1] (\<lambda>sign_multiplier.
           pbind (drive_find (\<lambda>n.
             if offset < int n then pret False
             else replace_run W (offset_replacements entries offset sign_multiplier (int n))))
             (\<lambda>_. pret ()))) (\<lambda>_.
         pcall (modify clear_change_tracking)))))"

section \<open>Every integer pass adopts\<close>

lemma safe_zero_choices:
  assumes "world_for P W"
  shows "adopting.safe P (\<lambda>_. True) (zero_choices libm_ceil W)"
proof -
  have at: "adopting.safe P (\<lambda>j. i < j) (zero_block_at libm_ceil W k i)" if "0 < k" for k i
    unfolding zero_block_at_def by (intro adopting_intros assms) (use that in simp_all)
  have pos: "k \<in> set (halvings n) \<Longrightarrow> 0 < k" for k n
    by (induction n rule: halvings.induct) (subst (asm) (2) halvings.simps, auto split: if_splits)
  show ?thesis
    unfolding zero_choices_def
    by (intro adopting_intros safe_while_index [where B = "\<lambda>nodes _. length nodes"] at)
      (auto dest: pos)
qed

lemma safe_swap_integer_sign:
  assumes "world_for P W"
  shows "adopting.safe P (\<lambda>_. True) (swap_integer_sign W)"
  unfolding swap_integer_sign_def swap_sign_at_def Let_def by (intro adopting_intros assms TrueI)

lemma safe_try_at_distance [adopting_intros]:
  "world_for P W \<Longrightarrow> adopting.safe P (\<lambda>_. True) (try_at_distance W i ic target d)"
  unfolding try_at_distance_def by (intro adopting_intros TrueI; assumption)

lemma safe_live_distance [adopting_intros]: "adopting.safe P (\<lambda>_. True) (live_distance i target)"
  unfolding live_distance_def by (intro adopting_intros)

lemma safe_descent_moves:
  assumes "world_for P W"
  shows "adopting.safe P (\<lambda>_. True) (descent_moves W i ic target before)"
  unfolding descent_moves_def Let_def by (intro adopting_intros assms TrueI)

text \<open>A round goes on only when the distance changed, so only after an improvement.\<close>

lemma safe_descent [adopting_intros]:
  fixes W :: "'env shrink_world"
  assumes W: "world_for P W"
  shows "adopting.safe P (\<lambda>_. True) (ploop (\<lambda>_. descent_round W i ic target) ())"
proof (rule safe_loop [where m = "\<lambda>_ _ _. 0"])
  fix u :: unit and s :: "'env shrinker"
  assume s: "target_ok P s"
  show "\<exists>r t. descent_round W i ic target s = Some (r, t) \<and> adopts P s t
       \<and> (\<forall>j. r = Inr (Inl j) \<longrightarrow> improvements s < improvements t \<or> (0::nat) < 0)"
  proof (cases "distance_from s i target")
    case None
    then show ?thesis
      using adopting.step_refl [OF s]
      by (simp add: descent_round_def live_distance_def pbind_def self_def or_gone_def)
  next
    case (Some before)
    then have live: "live_distance i target s = Some (Inr before, s)"
      by (simp add: live_distance_def pbind_def self_def or_gone_def)
    obtain r t where moves: "descent_moves W i ic target before s = Some (r, t)" "adopts P s t"
      by (rule adopting.safeE [OF safe_descent_moves [OF W] s]) (rule that)
    have "improvements s < improvements t" if "distance_from t i target \<noteq> Some before"
    proof -
      have "distance_from t i target = Some before" if "current_nodes t = current_nodes s"
        using Some unfolding distance_from_def int_value_bigint_def that .
      then show ?thesis using that moves(2) by (auto simp: adopts_def)
    qed
    then show ?thesis
      using moves adopting.step_refl [OF s]
      by (cases r) (auto simp: descent_round_def pbind_def live self_def)
  qed
qed

lemma safe_binary_search_integer_towards_zero:
  assumes "world_for P W"
  shows "adopting.safe P (\<lambda>_. True) (binary_search_integer_towards_zero W)"
  unfolding binary_search_integer_towards_zero_def binary_search_node_towards_zero_def Let_def
  by (intro adopting_intros assms TrueI)

lemma safe_replace_two [adopting_intros]:
  "world_for P W \<Longrightarrow> adopting.safe P (\<lambda>_. True) (replace_two W i vi j vj)"
  unfolding replace_two_def by (rule safe_replace)

lemma safe_redistribute_integers:
  assumes "world_for P W"
  shows "adopting.safe P (\<lambda>_. True) (redistribute_integers W)"
  unfolding redistribute_integers_def redistribute_pair_at_def Let_def
  by (intro adopting_intros assms TrueI)

lemma safe_lower_pair [adopting_intros]:
  "world_for P W \<Longrightarrow> adopting.safe P (\<lambda>_. True) (lower_pair W pair_idx gap)"
  unfolding lower_pair_def Let_def by (intro adopting_intros TrueI; assumption)

lemma integer_entries_length: "length (integer_entries nodes) \<le> length nodes"
proof -
  have "length (concat (map f xs)) \<le> length xs" if f: "\<And>x. length (f x) \<le> 1"
    for f :: "nat \<Rightarrow> (nat \<times> integer_choice \<times> int) list" and xs
  proof (induction xs)
    case (Cons a xs)
    then show ?case using f [of a] by simp
  qed simp
  from this [of _ "[0..<length nodes]"] show ?thesis
    unfolding integer_entries_def by (auto split: option.split)
qed

text \<open>A round goes on only below the number of integers of the target it starts from.\<close>

lemma safe_lower_integers_together:
  fixes W :: "'env shrink_world"
  assumes W: "world_for P W"
  shows "adopting.safe P (\<lambda>_. True) (lower_integers_together W)"
  unfolding lower_integers_together_def
proof (rule safe_loop [where m = "\<lambda>i nodes _. length nodes - i"])
  fix i and s :: "'env shrinker"
  assume s: "target_ok P s"
  have safe: "adopting.safe P (\<lambda>r. case r of Inl j \<Rightarrow> j = i + 1 | Inr _ \<Rightarrow> True)
      (lower_together_round W i)"
    unfolding lower_together_round_def by (intro adopting_intros W) auto
  show "\<exists>r t. lower_together_round W i s = Some (r, t) \<and> adopts P s t
       \<and> (\<forall>j. r = Inr (Inl j) \<longrightarrow> improvements s < improvements t
            \<or> length (current_nodes s) - j < length (current_nodes s) - i)"
  proof (cases "length (integer_entries (current_nodes s)) \<le> i")
    case True
    then have "lower_pair W i 1 s = Some (Inr (Some True), s)"
      by (simp add: lower_pair_def pbind_def self_def)
    then have "lower_together_round W i s = Some (Inr (Inr ()), s)"
      by (simp add: lower_together_round_def pbind_def)
    then show ?thesis using adopting.step_refl [OF s] by auto
  next
    case False
    then have "i < length (current_nodes s)"
      using integer_entries_length [of "current_nodes s"] by linarith
    moreover obtain r t where "lower_together_round W i s = Some (r, t)" "adopts P s t"
      "\<And>x. r = Inr x \<Longrightarrow> (case x of Inl j \<Rightarrow> j = i + 1 | Inr _ \<Rightarrow> True)"
      by (rule adopting.safeE [OF safe s]) (rule that)
    ultimately show ?thesis by fastforce
  qed
qed

lemma safe_group_replace [adopting_intros]:
  "world_for P W \<Longrightarrow> adopting.safe P (\<lambda>_. True) (group_replace W valid v)"
  unfolding group_replace_def Let_def by (intro adopting_intros TrueI; assumption)

lemma safe_group_moves [adopting_intros]:
  assumes "world_for P W"
  shows "adopting.safe P (\<lambda>_. True) (group_steps W valid past step)"
    and "adopting.safe P (\<lambda>_. True) (group_shift W valid sign lo dist)"
  unfolding group_steps_def group_shift_def by (intro adopting_intros assms TrueI)+

lemma safe_shrink_duplicates:
  assumes "world_for P W"
  shows "adopting.safe P (\<lambda>_. True) (shrink_duplicates libm_ceil W)"
  unfolding shrink_duplicates_def simplify_group_def shrink_int_duplicates_def
    shrink_int_duplicate_group_def Let_def
  by (intro adopting_intros assms TrueI)

lemma safe_lower_common_node_offset:
  assumes "world_for P W"
  shows "adopting.safe P (\<lambda>_. True) (lower_common_node_offset W)"
proof -
  have "adopting.safe P (\<lambda>_. True) (pcall (modify clear_change_tracking) :: ('b, unit) pass)"
    by (rule adopting.safeI) (simp add: clear_change_tracking_def adopts_def target_ok_def)
  then show ?thesis
    unfolding lower_common_node_offset_def Let_def by (intro adopting_intros assms TrueI)
qed

end
