(* ===== verification/PassBytes.thy ===== *)
theory PassBytes
  imports PassBase
begin

text \<open>
  The bytes passes of \<open>hegel-c/src/native/shrinker/bytes.rs\<close>, and the moves they share with
  the string passes, which are the same loops over codepoints: shortening, deleting single
  elements, sorting by insertion, and moving elements from one value to a later one. Each
  move re-reads the live value: \<open>get\<close> extracts it from the target, if the node still has the
  kind, and \<open>put\<close> proposes a value. Indexing a re-read value that got shorter panics.
\<close>

section \<open>Moves on one live sequence\<close>

definition live :: "(choice_node list \<Rightarrow> 'a option) \<Rightarrow> ('env, 'a) node_pass" where
  "live get = pbind self (\<lambda>s. or_gone (get (current_nodes s)))"

definition node_internal :: "internal_error \<Rightarrow> pass_exit" where
  "node_internal e = Halt (halt_of_internal e)"

definition shorten_search :: "(choice_node list \<Rightarrow> 'a list option) \<Rightarrow> ('a list \<Rightarrow> ('env, bool) pass)
    \<Rightarrow> nat \<Rightarrow> ('env, unit) node_pass" where
  "shorten_search get put min_size =
     pbind (live get) (\<lambda>captured.
     if min_size < length captured
     then drive_down node_internal (int min_size) (int (length captured)) (\<lambda>sz.
            halting (pbind (index_range captured 0 (nat sz)) put))
     else pret ())"

definition shorten_scan :: "(choice_node list \<Rightarrow> 'a list option) \<Rightarrow> ('a list \<Rightarrow> ('env, bool) pass)
    \<Rightarrow> nat \<Rightarrow> ('env, unit) node_pass" where
  "shorten_scan get put min_size =
     pbind (live get) (\<lambda>cur.
     pbind (pfor_until [min_size..<min (min_size + 8) (length cur)] (\<lambda>sz.
       pbind (live get) (\<lambda>cur.
       if length cur < sz then pret True
       else pbind (halting (put (take sz cur))) (\<lambda>_. pret False)))) (\<lambda>_. pret ()))"

definition delete_each :: "(choice_node list \<Rightarrow> 'a list option) \<Rightarrow> ('a list \<Rightarrow> ('env, bool) pass)
    \<Rightarrow> nat \<Rightarrow> ('env, unit) node_pass" where
  "delete_each get put min_size =
     pbind (live get) (\<lambda>cur.
     pfor (rev [0..<length cur]) (\<lambda>j.
       pbind (live get) (\<lambda>cur.
       if length cur \<le> min_size then pret ()
       else pbind (halting (index_slice cur j)) (\<lambda>_.
            pbind (halting (put (take j cur @ drop (j + 1) cur))) (\<lambda>_. pret ())))))"

text \<open>\<open>cand[j] = x\<close>: panics out of range.\<close>

definition set_live :: "(choice_node list \<Rightarrow> 'a list option) \<Rightarrow> ('a list \<Rightarrow> ('env, bool) pass)
    \<Rightarrow> nat \<Rightarrow> 'a \<Rightarrow> ('env, bool) node_pass" where
  "set_live get put j x =
     pbind (live get) (\<lambda>cand.
     pbind (halting (index_slice cand j)) (\<lambda>_.
     halting (put (cand[j := x]))))"

text \<open>One swap of the insertion sort; it answers whether the inner loop stops.\<close>

definition sort_swap :: "(choice_node list \<Rightarrow> 'a list option) \<Rightarrow> ('a list \<Rightarrow> ('env, bool) pass)
    \<Rightarrow> ('a \<Rightarrow> nat internal_result) \<Rightarrow> nat \<Rightarrow> ('env, bool) node_pass" where
  "sort_swap get put key j =
     pbind (live get) (\<lambda>cur.
     pbind (halting (index_slice cur (j - 1))) (\<lambda>prev.
     pbind (halting (internal (key prev))) (\<lambda>prev_key.
     pbind (halting (index_slice cur j)) (\<lambda>this.
     pbind (halting (internal (key this))) (\<lambda>cur_key.
     if prev_key \<le> cur_key then pret True
     else pbind (halting (put (cur[j - 1 := this, j := prev]))) (\<lambda>ok. pret (\<not> ok)))))))"

definition sort_round :: "(choice_node list \<Rightarrow> 'a list option) \<Rightarrow> ('a list \<Rightarrow> ('env, bool) pass)
    \<Rightarrow> ('a \<Rightarrow> nat internal_result) \<Rightarrow> nat \<Rightarrow> ('env, nat + unit) node_pass" where
  "sort_round get put key pos =
     pbind (live get) (\<lambda>cur.
     if length cur \<le> pos then pret (Inr ())
     else pbind (pfor_until (rev [1..<Suc pos]) (sort_swap get put key)) (\<lambda>_. pret (Inl (pos + 1))))"

definition insertion_sort :: "(choice_node list \<Rightarrow> 'a list option) \<Rightarrow> ('a list \<Rightarrow> ('env, bool) pass)
    \<Rightarrow> ('a \<Rightarrow> nat internal_result) \<Rightarrow> ('env, unit) node_pass" where
  "insertion_sort get put key = ploop (sort_round get put key) 1"

section \<open>Moving elements between two sequences\<close>

definition redistribute_pairs :: "(choice_node list \<Rightarrow> nat list)
    \<Rightarrow> (nat \<Rightarrow> nat \<Rightarrow> ('env, unit) node_pass) \<Rightarrow> ('env, unit) pass" where
  "redistribute_pairs indices_of pair =
     pfor [1, 2] (\<lambda>gap.
       while_index (\<lambda>idx s. idx + gap < length (indices_of (current_nodes s))) 0 (\<lambda>idx.
         pbind self (\<lambda>s.
         let indices = indices_of (current_nodes s) in
         pbind (absorbing (pair (indices ! idx) (indices ! (idx + gap)))) (\<lambda>_. pret (idx + 1)))))"

definition move_elements ::
  "('a list \<Rightarrow> 'a list \<Rightarrow> ('env, bool) pass) \<Rightarrow> 'a list \<Rightarrow> 'a list \<Rightarrow> ('env, unit) node_pass" where
  "move_elements try_pair s t =
     (if s = [] then pret ()
      else
        pbind (halting (try_pair [] (s @ t))) (\<lambda>ok.
        if ok then pret ()
        else
          pbind (halting (try_pair (butlast s) (last s # t))) (\<lambda>ok.
          if \<not> ok then pret ()
          else pbind (drive_find (\<lambda>extra.
                 let n = 1 + extra in
                 if length s < n then pret False
                 else halting (try_pair (take (length s - n) s) (drop (length s - n) s @ t))))
                 (\<lambda>_. pret ()))))"

section \<open>The bytes passes\<close>

definition bytes_at :: "nat \<Rightarrow> choice_node list \<Rightarrow> (bytes_choice \<times> u8 list) option" where
  "bytes_at i nodes = (if i < length nodes then as_bytes (node_data (nodes ! i)) else None)"

definition current_byte_value :: "nat \<Rightarrow> choice_node list \<Rightarrow> u8 list option" where
  "current_byte_value i nodes = map_option snd (bytes_at i nodes)"

definition put_bytes :: "'env shrink_world \<Rightarrow> nat \<Rightarrow> u8 list \<Rightarrow> ('env, bool) pass" where
  "put_bytes W i bs = replace_run W [(i, VBytes bs)]"

definition lower_byte :: "'env shrink_world \<Rightarrow> nat \<Rightarrow> nat \<Rightarrow> ('env, unit) node_pass" where
  "lower_byte W i j =
     pbind (live (current_byte_value i)) (\<lambda>cur.
     pbind (halting (index_slice cur j)) (\<lambda>b.
     if b = 0 then pret ()
     else drive_down node_internal 0 (uint b) (\<lambda>e.
            set_live (current_byte_value i) (put_bytes W i) j (of_int e))))"

definition shrink_bytes_node :: "'env shrink_world \<Rightarrow> nat \<Rightarrow> ('env, unit) node_pass" where
  "shrink_bytes_node W i =
     pbind (live (bytes_at i)) (\<lambda>(bc, current).
     let get = current_byte_value i; put = put_bytes W i; min_size = by_min_size bc;
         simplest = replicate min_size 0
     in
     pbind (if simplest \<noteq> current then halting (put simplest) else pret False) (\<lambda>_.
     pbind (shorten_search get put min_size) (\<lambda>_.
     pbind (shorten_scan get put min_size) (\<lambda>_.
     pbind (delete_each get put min_size) (\<lambda>_.
     pbind (pbind (live get) (\<lambda>cur. pfor (rev [0..<length cur]) (lower_byte W i))) (\<lambda>_.
     insertion_sort get put (\<lambda>b. Inr (unat b))))))))"

definition shrink_bytes :: "'env shrink_world \<Rightarrow> ('env, unit) pass" where
  "shrink_bytes W = each_node (\<lambda>i. absorbing (shrink_bytes_node W i))"

definition bytes_indices :: "choice_node list \<Rightarrow> nat list" where
  "bytes_indices nodes = filter (\<lambda>i. as_bytes (node_data (nodes ! i)) \<noteq> None) [0..<length nodes]"

definition try_redistribute_bytes :: "'env shrink_world \<Rightarrow> nat \<Rightarrow> nat \<Rightarrow> bytes_choice
    \<Rightarrow> u8 list \<Rightarrow> u8 list \<Rightarrow> ('env, bool) pass" where
  "try_redistribute_bytes W i j kind_j new_s new_t =
     (if \<not> bytes_validate kind_j new_t then pret False
      else replace_run W [(i, VBytes new_s), (j, VBytes new_t)])"

definition redistribute_bytes_pair :: "'env shrink_world \<Rightarrow> nat \<Rightarrow> nat \<Rightarrow> ('env, unit) node_pass" where
  "redistribute_bytes_pair W i j =
     pbind (live (current_byte_value i)) (\<lambda>s.
     pbind (live (bytes_at j)) (\<lambda>(kind_j, t).
     move_elements (try_redistribute_bytes W i j kind_j) s t))"

definition redistribute_bytes_pairs :: "'env shrink_world \<Rightarrow> ('env, unit) pass" where
  "redistribute_bytes_pairs W = redistribute_pairs bytes_indices (redistribute_bytes_pair W)"

section \<open>Every move adopts\<close>

lemma safe_live [adopting_intros]: "adopting.safe P (\<lambda>_. True) (live get)"
  unfolding live_def by (intro adopting_intros)

lemma safe_moves [adopting_intros]:
  assumes "\<And>xs. adopting.safe P (\<lambda>_. True) (put xs)"
  shows "adopting.safe P (\<lambda>_. True) (shorten_search get put min_size)"
    and "adopting.safe P (\<lambda>_. True) (shorten_scan get put min_size)"
    and "adopting.safe P (\<lambda>_. True) (delete_each get put min_size)"
    and "adopting.safe P (\<lambda>_. True) (set_live get put j x)"
    and "adopting.safe P (\<lambda>_. True) (sort_swap get put key j)"
  unfolding shorten_search_def shorten_scan_def delete_each_def set_live_def sort_swap_def
  by (intro adopting_intros assms TrueI)+

lemma safe_insertion_sort [adopting_intros]:
  fixes put :: "'a list \<Rightarrow> ('env, bool) pass"
  assumes put: "\<And>xs. adopting.safe P (\<lambda>_. True) (put xs)"
  shows "adopting.safe P (\<lambda>_. True) (insertion_sort get put key)"
  unfolding insertion_sort_def
proof (rule safe_loop [where m = "\<lambda>pos nodes _. (case get nodes of Some xs \<Rightarrow> length xs | None \<Rightarrow> 0) - pos"])
  fix pos and s :: "'env shrinker"
  assume s: "target_ok P s"
  let ?m = "\<lambda>pos. (case get (current_nodes s) of Some xs \<Rightarrow> length xs | None \<Rightarrow> 0) - pos"
  show "\<exists>r t. sort_round get put key pos s = Some (r, t) \<and> adopts P s t
       \<and> (\<forall>j. r = Inr (Inl j) \<longrightarrow> improvements s < improvements t \<or> ?m j < ?m pos)"
  proof (cases "get (current_nodes s)")
    case None
    then show ?thesis
      using adopting.step_refl [OF s] by (simp add: sort_round_def live_def pbind_def self_def or_gone_def)
  next
    case (Some cur)
    then have live: "live get s = Some (Inr cur, s)"
      by (simp add: live_def pbind_def self_def or_gone_def)
    show ?thesis
    proof (cases "length cur \<le> pos")
      case True
      then show ?thesis
        using adopting.step_refl [OF s] by (simp add: sort_round_def pbind_def live)
    next
      case False
      have "adopting.safe P (\<lambda>_. True) (pfor_until (rev [1..<Suc pos]) (sort_swap get put key))"
        by (intro adopting_intros put)
      then obtain r t where "pfor_until (rev [1..<Suc pos]) (sort_swap get put key) s = Some (r, t)"
        "adopts P s t"
        by (rule adopting.safeE [OF _ s]) (rule that)
      then show ?thesis
        using False Some by (cases r) (auto simp: sort_round_def pbind_def live simp del: upt_Suc)
    qed
  qed
qed

lemma safe_redistribute_pairs [adopting_intros]:
  assumes "\<And>i j. adopting.safe P (\<lambda>_. True) (pair i j)"
    and "\<And>nodes. length (indices_of nodes) \<le> length nodes"
  shows "adopting.safe P (\<lambda>_. True) (redistribute_pairs indices_of pair)"
proof -
  have body: "adopting.safe P (\<lambda>j. idx < j) (pbind self (\<lambda>s.
         let indices = indices_of (current_nodes s) in
         pbind (absorbing (pair (indices ! idx) (indices ! (idx + gap)))) (\<lambda>_. pret (idx + 1))))"
    for idx gap
    unfolding Let_def by (intro adopting_intros assms(1)) simp
  have bound: "idx + gap < length (indices_of nodes) \<Longrightarrow> idx < length nodes" for idx gap nodes
    using assms(2) [of nodes] by linarith
  show ?thesis
    unfolding redistribute_pairs_def
    by (intro adopting.safe_pfor safe_while_index [where B = "\<lambda>nodes _. length nodes"] body)
      (rule bound)
qed

lemma safe_move_elements [adopting_intros]:
  assumes "\<And>xs ys. adopting.safe P (\<lambda>_. True) (try_pair xs ys)"
  shows "adopting.safe P (\<lambda>_. True) (move_elements try_pair s t)"
  unfolding move_elements_def Let_def by (intro adopting_intros assms TrueI)

lemma safe_put_bytes [adopting_intros]:
  "world_for P W \<Longrightarrow> adopting.safe P (\<lambda>_. True) (put_bytes W i bs)"
  unfolding put_bytes_def by (rule safe_replace)

lemma safe_shrink_bytes:
  assumes "world_for P W"
  shows "adopting.safe P (\<lambda>_. True) (shrink_bytes W)"
  unfolding shrink_bytes_def shrink_bytes_node_def lower_byte_def Let_def
  by (intro adopting_intros assms TrueI)

lemma safe_redistribute_bytes_pairs:
  assumes "world_for P W"
  shows "adopting.safe P (\<lambda>_. True) (redistribute_bytes_pairs W)"
proof -
  have "length (bytes_indices nodes) \<le> length nodes" for nodes
    unfolding bytes_indices_def using length_filter_le [of _ "[0..<length nodes]"] by simp
  then show ?thesis
    unfolding redistribute_bytes_pairs_def redistribute_bytes_pair_def try_redistribute_bytes_def
    by (intro adopting_intros assms TrueI)
qed

end
