(* ===== verification/PassStrings.thy ===== *)
theory PassStrings
  imports PassBytes "HOL-Library.Product_Lexorder"
begin

text \<open>
  The string passes of \<open>hegel-c/src/native/shrinker/strings.rs\<close>. The Unicode tables are
  parameters: the standard library's case mappings \<open>to_lowercase\<close> and \<open>to_uppercase\<close>, and
  the generated \<open>nfd_base\<close>.
\<close>

section \<open>Candidate codepoints\<close>

definition keys_below :: "string_choice \<Rightarrow> nat \<Rightarrow> nat list \<Rightarrow> (nat \<times> codepoint) list internal_result" where
  "keys_below kind cur_key cs =
     rbind (rmap (\<lambda>c. if contains (sc_intervals kind) c
                      then rbind (codepoint_key kind c) (\<lambda>k. Inr (if k < cur_key then [(k, c)] else []))
                      else Inr []) cs) (\<lambda>kept. Inr (concat kept))"

definition natural_simpler_chars ::
  "(codepoint \<Rightarrow> codepoint list) \<Rightarrow> (codepoint \<Rightarrow> codepoint list) \<Rightarrow> (codepoint \<Rightarrow> codepoint option)
   \<Rightarrow> codepoint \<Rightarrow> string_choice \<Rightarrow> codepoint list internal_result" where
  "natural_simpler_chars to_lowercase to_uppercase nfd_base cp kind =
     rbind (codepoint_key kind cp) (\<lambda>cur_key.
     let cased = (case char_from_u32 cp of
                    Some c \<Rightarrow> to_lowercase c @ to_uppercase c | None \<Rightarrow> []);
         base = (case nfd_base cp of Some b \<Rightarrow> [b] | None \<Rightarrow> []);
         candidates = sort (remdups (filter (\<lambda>c. c \<noteq> cp) (cased @ base)))
     in rbind (keys_below kind cur_key candidates) (\<lambda>filtered.
        Inr (map snd (sort filtered))))"

definition semantic_candidates ::
  "(codepoint \<Rightarrow> codepoint option) \<Rightarrow> codepoint \<Rightarrow> string_choice \<Rightarrow> codepoint list internal_result" where
  "semantic_candidates nfd_base cp kind =
     rbind (codepoint_key kind cp) (\<lambda>cur_key.
     rbind (rmap (key_to_codepoint kind) [0..<min (min 62 (alpha_size kind)) cur_key]) (\<lambda>found.
     let out = concat (map (\<lambda>c. case c of Some c \<Rightarrow> [c] | None \<Rightarrow> []) found) in
     if 0x80 \<le> cp
     then case nfd_base cp of
            Some base \<Rightarrow>
              rbind (keys_below kind cur_key [base]) (\<lambda>kept. Inr (out @ map snd kept))
          | None \<Rightarrow> Inr out
     else Inr out))"

section \<open>One string node\<close>

definition string_at :: "nat \<Rightarrow> choice_node list \<Rightarrow> (string_choice \<times> codepoint list) option" where
  "string_at i nodes = (if i < length nodes then as_string (node_data (nodes ! i)) else None)"

definition current_string :: "nat \<Rightarrow> choice_node list \<Rightarrow> codepoint list option" where
  "current_string i nodes = map_option snd (string_at i nodes)"

definition put_string :: "'env shrink_world \<Rightarrow> nat \<Rightarrow> codepoint list \<Rightarrow> ('env, bool) pass" where
  "put_string W i cs = replace_run W [(i, VString cs)]"

text \<open>Codepoints occurring more than once, by key; sorting fewer than two asks for no key.\<close>

definition dup_codepoints :: "string_choice \<Rightarrow> codepoint list \<Rightarrow> codepoint list internal_result" where
  "dup_codepoints kind cur =
     (let dups = remdups (filter (\<lambda>c. 1 < count_list cur c) cur)
      in if length dups < 2 then Inr dups
         else rbind (rmap (codepoint_key kind) dups) (\<lambda>keys.
              Inr (map snd (sort_key fst (zip keys dups)))))"

definition try_replace_all ::
  "'env shrink_world \<Rightarrow> nat \<Rightarrow> codepoint \<Rightarrow> codepoint \<Rightarrow> ('env, bool) node_pass" where
  "try_replace_all W i val cand_cp =
     pbind (live (current_string i)) (\<lambda>str.
     if val \<in> set str
     then halting (put_string W i (map (\<lambda>c. if c = val then cand_cp else c) str))
     else pret False)"

text \<open>Probe keys from 0 below \<open>key\<close> and hand the codepoint of each to \<open>f\<close>.\<close>

definition search_keys :: "string_choice \<Rightarrow> nat \<Rightarrow> (codepoint \<Rightarrow> ('env, bool) node_pass)
    \<Rightarrow> ('env, unit) node_pass" where
  "search_keys kind key f =
     (if 0 < key
      then drive_down node_internal 0 (int key) (\<lambda>k.
             pbind (halting (internal (rbind (key_to_codepoint kind (nat k)) (\<lambda>cp.
                hegel_internal_unwrap cp ''shrink pass probed a key outside the alphabet'')))) f)
      else pret ())"

definition lower_duplicate :: "(codepoint \<Rightarrow> codepoint option) \<Rightarrow> 'env shrink_world \<Rightarrow> string_choice
    \<Rightarrow> nat \<Rightarrow> codepoint \<Rightarrow> ('env, unit) node_pass" where
  "lower_duplicate nfd_base W kind i val =
     pbind (halting (internal (codepoint_key kind val))) (\<lambda>key.
     if key = 0 then pret ()
     else
       pbind (halting (internal (semantic_candidates nfd_base val kind))) (\<lambda>candidates.
       pbind (pfor_until candidates (\<lambda>cand_cp.
         pbind (try_replace_all W i val cand_cp) (\<lambda>_.
         pbind (live (current_string i)) (\<lambda>cur. pret (val \<notin> set cur))))) (\<lambda>_.
       pbind (live (current_string i)) (\<lambda>cur.
       if val \<in> set cur
       then pbind (halting (internal (codepoint_key kind val))) (\<lambda>cur_key.
            search_keys kind cur_key (try_replace_all W i val))
       else pret ()))))"

definition live_key :: "string_choice \<Rightarrow> nat \<Rightarrow> nat \<Rightarrow> ('env, codepoint \<times> nat) node_pass" where
  "live_key kind i j =
     pbind (live (current_string i)) (\<lambda>cur.
     pbind (halting (index_slice cur j)) (\<lambda>c.
     pbind (halting (internal (codepoint_key kind c))) (\<lambda>k. pret (c, k))))"

definition lower_codepoint :: "(codepoint \<Rightarrow> codepoint option) \<Rightarrow> 'env shrink_world \<Rightarrow> string_choice
    \<Rightarrow> nat \<Rightarrow> nat \<Rightarrow> ('env, unit) node_pass" where
  "lower_codepoint nfd_base W kind i j =
     pbind (live_key kind i j) (\<lambda>(original_cp, key).
     if key = 0 then pret ()
     else
       pbind (halting (internal (semantic_candidates nfd_base original_cp kind))) (\<lambda>candidates.
       pbind (pfor candidates (\<lambda>cand_cp.
         pbind (live_key kind i j) (\<lambda>(_, cur_key).
         pbind (halting (internal (codepoint_key kind cand_cp))) (\<lambda>cand_key.
         if cur_key \<le> cand_key then pret ()
         else pbind (set_live (current_string i) (put_string W i) j cand_cp) (\<lambda>_. pret ()))))) (\<lambda>_.
       pbind (live_key kind i j) (\<lambda>(_, cur_key).
       search_keys kind cur_key (set_live (current_string i) (put_string W i) j)))))"

definition shrink_string_node ::
  "(codepoint \<Rightarrow> codepoint option) \<Rightarrow> 'env shrink_world \<Rightarrow> nat \<Rightarrow> ('env, unit) node_pass" where
  "shrink_string_node nfd_base W i =
     pbind (live (string_at i)) (\<lambda>(kind, current).
     let get = current_string i; put = put_string W i; min_size = sc_min_size kind in
     pbind (halting (internal (string_simplest kind))) (\<lambda>simplest.
     pbind (if simplest \<noteq> current then halting (put simplest) else pret False) (\<lambda>_.
     pbind (shorten_search get put min_size) (\<lambda>_.
     pbind (shorten_scan get put min_size) (\<lambda>_.
     pbind (delete_each get put min_size) (\<lambda>_.
     pbind (live get) (\<lambda>cur.
     pbind (halting (internal (dup_codepoints kind cur))) (\<lambda>dups.
     pbind (pfor dups (lower_duplicate nfd_base W kind i)) (\<lambda>_.
     pbind (pbind (live get) (\<lambda>cur. pfor (rev [0..<length cur]) (lower_codepoint nfd_base W kind i))) (\<lambda>_.
     insertion_sort get put (codepoint_key kind)))))))))))"

definition shrink_strings ::
  "(codepoint \<Rightarrow> codepoint option) \<Rightarrow> 'env shrink_world \<Rightarrow> ('env, unit) pass" where
  "shrink_strings nfd_base W = each_node (\<lambda>i. absorbing (shrink_string_node nfd_base W i))"

section \<open>Pairs of strings\<close>

definition string_indices :: "choice_node list \<Rightarrow> nat list" where
  "string_indices nodes = filter (\<lambda>i. as_string (node_data (nodes ! i)) \<noteq> None) [0..<length nodes]"

definition try_redistribute :: "'env shrink_world \<Rightarrow> nat \<Rightarrow> nat \<Rightarrow> string_choice
    \<Rightarrow> codepoint list \<Rightarrow> codepoint list \<Rightarrow> ('env, bool) pass" where
  "try_redistribute W i j kind_j new_s new_t =
     (if \<not> string_validate kind_j new_t then pret False
      else replace_run W [(i, VString new_s), (j, VString new_t)])"

definition redistribute_string_pair :: "'env shrink_world \<Rightarrow> nat \<Rightarrow> nat \<Rightarrow> ('env, unit) node_pass" where
  "redistribute_string_pair W i j =
     pbind (live (current_string i)) (\<lambda>s.
     pbind (live (string_at j)) (\<lambda>(kind_j, t).
     move_elements (try_redistribute W i j kind_j) s t))"

definition redistribute_string_pairs :: "'env shrink_world \<Rightarrow> ('env, unit) pass" where
  "redistribute_string_pairs W = redistribute_pairs string_indices (redistribute_string_pair W)"

definition substitute :: "codepoint \<Rightarrow> codepoint \<Rightarrow> codepoint list \<Rightarrow> codepoint list" where
  "substitute ch new_cp = map (\<lambda>c. if c = ch then new_cp else c)"

definition lower_shared_character :: "'env shrink_world \<Rightarrow> nat \<Rightarrow> nat
    \<Rightarrow> string_choice \<times> codepoint list \<Rightarrow> string_choice \<times> codepoint list \<Rightarrow> codepoint
    \<Rightarrow> ('env, unit) pass" where
  "lower_shared_character W i j at_i at_j ch =
     pbind (internal (codepoint_key (fst at_i) ch)) (\<lambda>original_key.
     if original_key = 0 then pret ()
     else drive_down halt_of_internal 0 (int original_key) (\<lambda>new_key.
       pbind (internal (rbind (key_to_codepoint (fst at_i) (nat new_key)) (\<lambda>cp.
         hegel_internal_unwrap cp ''shrink pass probed a key outside the alphabet''))) (\<lambda>new_cp.
       pbind (debug_assert (new_cp \<noteq> ch) ''new_cp != ch'') (\<lambda>_.
       let new_i = substitute ch new_cp (snd at_i); new_j = substitute ch new_cp (snd at_j)
       in if \<not> string_validate (fst at_i) new_i \<or> \<not> string_validate (fst at_j) new_j
          then pret False
          else replace_run W [(i, VString new_i), (j, VString new_j)]))))"

definition lower_duplicated_characters :: "'env shrink_world \<Rightarrow> ('env, unit) pass" where
  "lower_duplicated_characters W =
     pbind self (\<lambda>s.
     let len = length (current_nodes s) in
     pfor [0..<len] (\<lambda>i.
     pfor [i + 1..<min (i + 1 + 4) len] (\<lambda>j.
       pbind self (\<lambda>s.
       case (string_at i (current_nodes s), string_at j (current_nodes s)) of
         (Some at_i, Some at_j) \<Rightarrow>
           pfor (filter (\<lambda>c. c \<in> set (snd at_j)) (sort (remdups (snd at_i))))
             (lower_shared_character W i j at_i at_j)
       | _ \<Rightarrow> pret ()))))"

section \<open>Normalising characters\<close>

definition normalize_unicode_chars_at ::
  "(codepoint \<Rightarrow> string_choice \<Rightarrow> codepoint list internal_result) \<Rightarrow> 'env shrink_world \<Rightarrow> nat
   \<Rightarrow> ('env, unit) node_pass" where
  "normalize_unicode_chars_at simpler W i =
     pbind (live (string_at i)) (\<lambda>(kind, str).
     pfor [0..<length str] (\<lambda>pos.
       let cp = str ! pos in
       pbind (halting (internal (simpler cp kind))) (\<lambda>candidates.
       pbind (live (current_string i)) (\<lambda>cur.
       if length cur \<le> pos \<or> cur ! pos \<noteq> cp then pret ()
       else pbind (pfor_until candidates (\<lambda>replacement.
              let new_value = cur[pos := replacement] in
              pbind (halting (debug_assert (string_validate kind new_value)
                       ''kind.validate(&new_value)'')) (\<lambda>_.
              halting (put_string W i new_value)))) (\<lambda>_. pret ())))))"

definition normalize_unicode_chars ::
  "(codepoint \<Rightarrow> codepoint list) \<Rightarrow> (codepoint \<Rightarrow> codepoint list) \<Rightarrow> (codepoint \<Rightarrow> codepoint option)
   \<Rightarrow> 'env shrink_world \<Rightarrow> ('env, unit) pass" where
  "normalize_unicode_chars to_lowercase to_uppercase nfd_base W =
     each_node (\<lambda>i. absorbing (normalize_unicode_chars_at
       (natural_simpler_chars to_lowercase to_uppercase nfd_base) W i))"

section \<open>Every string pass adopts\<close>

lemma safe_put_string [adopting_intros]:
  "world_for P W \<Longrightarrow> adopting.safe P (\<lambda>_. True) (put_string W i cs)"
  unfolding put_string_def by (rule safe_replace)

lemma safe_try_replace_all [adopting_intros]:
  "world_for P W \<Longrightarrow> adopting.safe P (\<lambda>_. True) (try_replace_all W i val c)"
  unfolding try_replace_all_def by (intro adopting_intros TrueI; assumption)

lemma safe_search_keys [adopting_intros]:
  "(\<And>c. adopting.safe P (\<lambda>_. True) (f c)) \<Longrightarrow> adopting.safe P (\<lambda>_. True) (search_keys kind key f)"
  unfolding search_keys_def by (intro adopting_intros TrueI)

lemma safe_live_key [adopting_intros]: "adopting.safe P (\<lambda>_. True) (live_key kind i j)"
  unfolding live_key_def by (intro adopting_intros TrueI)

lemma safe_shrink_strings:
  assumes "world_for P W"
  shows "adopting.safe P (\<lambda>_. True) (shrink_strings nfd_base W)"
  unfolding shrink_strings_def shrink_string_node_def lower_duplicate_def lower_codepoint_def Let_def
  by (intro adopting_intros assms TrueI)

lemma safe_redistribute_string_pairs:
  assumes "world_for P W"
  shows "adopting.safe P (\<lambda>_. True) (redistribute_string_pairs W)"
proof -
  have "length (string_indices nodes) \<le> length nodes" for nodes
    unfolding string_indices_def using length_filter_le [of _ "[0..<length nodes]"] by simp
  then show ?thesis
    unfolding redistribute_string_pairs_def redistribute_string_pair_def try_redistribute_def
    by (intro adopting_intros assms TrueI)
qed

lemma safe_lower_duplicated_characters:
  assumes "world_for P W"
  shows "adopting.safe P (\<lambda>_. True) (lower_duplicated_characters W)"
  unfolding lower_duplicated_characters_def lower_shared_character_def Let_def
  by (intro adopting_intros assms TrueI)

lemma safe_normalize_unicode_chars:
  assumes "world_for P W"
  shows "adopting.safe P (\<lambda>_. True) (normalize_unicode_chars to_lowercase to_uppercase nfd_base W)"
  unfolding normalize_unicode_chars_def normalize_unicode_chars_at_def Let_def
  by (intro adopting_intros assms TrueI)

end
