(* ===== verification/Scheduling.thy ===== *)
theory Scheduling
  imports PassClones PassDeletion PassSequence PassSpans PassIndex PassMutation PassIntegers PassStrings
begin

text \<open>
  The pass schedule: \<open>hegel-c/src/native/shrinker/scheduling.rs\<close> and \<open>Shrinker::shrink\<close> of
  \<open>mod.rs\<close>, which runs all passes to a fixed point and recurses into cloned streams. Per-pass
  statistics are kept; the debug lines and the profile report made of them are not modelled.
  The recursion of \<open>shrink\<close> is cut by fuel, which bounds the nesting of streams.
\<close>

section \<open>The schedule\<close>

record 'env shrink_pass =
  pass_name :: string
  pass_run :: "('env, unit) pass"
  pass_calls :: nat
  pass_shrinks :: nat
  pass_deletions :: nat
  stochastic :: bool

definition new_pass :: "string \<Rightarrow> ('env, unit) pass \<Rightarrow> 'env shrink_pass" where
  "new_pass name run =
     \<lparr>pass_name = name, pass_run = run, pass_calls = 0, pass_shrinks = 0, pass_deletions = 0,
      stochastic = False\<rparr>"

definition mark_stochastic :: "'env shrink_pass \<Rightarrow> 'env shrink_pass" where
  "mark_stochastic p = p\<lparr>stochastic := True\<rparr>"

definition STOCHASTIC_MAX_FAILURES :: nat where
  "STOCHASTIC_MAX_FAILURES = 6"

definition usize_saturating :: "nat \<Rightarrow> nat" where
  "usize_saturating n = min n USIZE_MAX"

definition grow_stall :: "nat \<Rightarrow> nat \<Rightarrow> 'env shrinker \<Rightarrow> 'env shrinker" where
  "grow_stall calls_at_loop_start max_calls s =
     (let target = usize_saturating (usize_saturating (max_calls * 2) + (calls s - calls_at_loop_start))
      in if max_stall s < target then s\<lparr>max_stall := target\<rparr> else s)"

text \<open>
  One step of a pass. The loop variables are the pass, its consecutive failures, the cost of
  the dearest failing step and whether any pass of the round improved the target.
\<close>

type_synonym 'env step_vars = "'env shrink_pass \<times> nat \<times> nat \<times> bool"

definition step_pass :: "nat \<Rightarrow> nat \<Rightarrow> nat \<Rightarrow> 'env step_vars
    \<Rightarrow> ('env, 'env step_vars + 'env shrink_pass \<times> nat \<times> bool) pass" where
  "step_pass calls_at_loop_start before_len max_failures = (\<lambda>(p, failures, max_calls, any_ran).
     if max_failures \<le> failures then pret (Inr (p, max_calls, any_ran))
     else
       pbind (pcall (modify (grow_stall calls_at_loop_start max_calls))) (\<lambda>_.
       pbind self (\<lambda>before.
       pbind (pass_run p) (\<lambda>_.
       pbind self (\<lambda>after.
       let p = p\<lparr>pass_calls := pass_calls p + 1\<rparr> in
       if improvements before < improvements after
       then pret (Inl (p\<lparr>pass_shrinks := pass_shrinks p + 1,
              pass_deletions := (if length (current_nodes after) < before_len
                                 then pass_deletions p + 1 else pass_deletions p)\<rparr>,
              0, max_calls, True))
       else if calls before \<noteq> calls after
       then pret (Inl (p, failures + 1, max max_calls (calls after - calls before), any_ran))
       else pret (Inr (p, max_calls, any_ran)))))))"

text \<open>
  One pass of a round: discard first while that works, step the pass until it stops improving,
  and give it its reorder key.
\<close>

type_synonym 'env round_vars = "bool \<times> nat \<times> bool \<times> (int \<times> 'env shrink_pass) list"

definition reorder_key :: "'env shrinker \<Rightarrow> 'env shrinker \<Rightarrow> int" where
  "reorder_key before after =
     (if length (current_nodes after) < length (current_nodes before) then - 1
      else if improvements before < improvements after then 0 else 1)"

definition record_pass :: "bool \<Rightarrow> 'env shrinker \<Rightarrow> (int \<times> 'env shrink_pass) list
    \<Rightarrow> 'env shrink_pass \<times> nat \<times> bool \<Rightarrow> ('env, 'env round_vars) pass" where
  "record_pass can_discard before done = (\<lambda>(p, max_calls, any_ran).
     pbind self (\<lambda>after.
     pret (can_discard, max_calls, any_ran, done @ [(reorder_key before after, p)])))"

definition allowed_failures :: "'env shrink_pass \<Rightarrow> nat" where
  "allowed_failures p = (if stochastic p then STOCHASTIC_MAX_FAILURES else 1)"

definition schedule_pass :: "'env shrink_world \<Rightarrow> nat \<Rightarrow> 'env round_vars \<Rightarrow> 'env shrink_pass
    \<Rightarrow> ('env, 'env round_vars) pass" where
  "schedule_pass W calls_at_loop_start = (\<lambda>(can_discard, max_calls, any_ran, done) p.
     pbind (if can_discard then remove_discarded W else pret False) (\<lambda>can_discard.
     pbind self (\<lambda>before.
     pbind (ploop (step_pass calls_at_loop_start (length (current_nodes before)) (allowed_failures p))
              (p, 0, max_calls, any_ran))
       (record_pass can_discard before done))))"

primrec schedule_passes :: "'env shrink_world \<Rightarrow> nat \<Rightarrow> 'env round_vars \<Rightarrow> 'env shrink_pass list
    \<Rightarrow> ('env, 'env round_vars) pass" where
  "schedule_passes W calls_at_loop_start acc [] = pret acc"
| "schedule_passes W calls_at_loop_start acc (p # ps) =
     pbind (schedule_pass W calls_at_loop_start acc p) (\<lambda>acc.
     schedule_passes W calls_at_loop_start acc ps)"

text \<open>The passes in order of their keys, which are stable; another round if any pass improved.\<close>

definition reordered :: "'env round_vars \<Rightarrow> 'env shrink_pass list + 'env shrink_pass list" where
  "reordered = (\<lambda>(_, _, any_ran, done).
     let passes = map snd (sort_key fst done) in if any_ran then Inl passes else Inr passes)"

definition fixate_round :: "'env shrink_world \<Rightarrow> 'env shrink_pass list
    \<Rightarrow> ('env, 'env shrink_pass list + 'env shrink_pass list) pass" where
  "fixate_round W passes =
     pbind (pcall (modify (\<lambda>s. s\<lparr>calls_at_last_shrink := calls s\<rparr>))) (\<lambda>_.
     pbind (remove_discarded W) (\<lambda>can_discard.
     pbind self (\<lambda>s.
     pbind (schedule_passes W (calls s) (can_discard, 1, False, []) passes) (\<lambda>vars.
     pret (reordered vars)))))"

definition fixate_shrink_passes ::
  "'env shrink_world \<Rightarrow> 'env shrink_pass list \<Rightarrow> ('env, 'env shrink_pass list) pass" where
  "fixate_shrink_passes W passes = ploop (fixate_round W) passes"

definition pass_stats :: "'env shrink_pass list \<Rightarrow> (string \<times> nat \<times> nat \<times> nat) list" where
  "pass_stats passes = map (\<lambda>p. (pass_name p, pass_calls p, pass_shrinks p, pass_deletions p)) passes"

section \<open>All passes\<close>

text \<open>What the passes use of other libraries and tables.\<close>

record externals =
  libm_ceil :: "f64 \<Rightarrow> f64"
  libm_floor :: "f64 \<Rightarrow> f64"
  libm_exp2 :: "f64 \<Rightarrow> f64"
  bigint_as_f64 :: "int \<Rightarrow> f64"
  to_lowercase :: "codepoint \<Rightarrow> codepoint list"
  to_uppercase :: "codepoint \<Rightarrow> codepoint list"
  nfd_base :: "codepoint \<Rightarrow> codepoint option"
  fx_hash :: "hash_token list \<Rightarrow> u64"

definition all_passes :: "externals \<Rightarrow> ('env shrink_world \<Rightarrow> ('env shrinker, run_error, unit) proc)
    \<Rightarrow> 'env shrink_world \<Rightarrow> 'env shrink_pass list" where
  "all_passes X shrink_nested W =
    [new_pass ''remove_discarded'' (pbind (remove_discarded W) (\<lambda>_. pret ())),
     new_pass ''delete_spans'' (delete_spans W),
     new_pass ''try_trivial_spans'' (try_trivial_spans (libm_ceil X) W),
     new_pass ''pass_to_descendant'' (pass_to_descendant W),
     new_pass ''reorder_spans'' (reorder_spans W),
     new_pass ''node_program_5'' (node_program W 5),
     new_pass ''node_program_4'' (node_program W 4),
     new_pass ''node_program_3'' (node_program W 3),
     new_pass ''node_program_2'' (node_program W 2),
     new_pass ''node_program_1'' (node_program W 1),
     new_pass ''delete_chunks'' (delete_chunks W),
     new_pass ''delete_between_repeats'' (delete_between_repeats (fx_hash X) W),
     new_pass ''zero_choices'' (zero_choices (libm_ceil X) W),
     new_pass ''swap_integer_sign'' (swap_integer_sign W),
     new_pass ''binary_search_integer_towards_zero'' (binary_search_integer_towards_zero W),
     new_pass ''bind_deletion'' (bind_deletion W),
     new_pass ''minimize_individual_choices'' (minimize_individual_choices W),
     new_pass ''lower_common_node_offset'' (lower_common_node_offset W),
     new_pass ''redistribute_integers'' (redistribute_integers W),
     new_pass ''lower_integers_together'' (lower_integers_together W),
     new_pass ''shrink_duplicates'' (shrink_duplicates (libm_ceil X) W),
     new_pass ''sort_values'' (sort_values W),
     new_pass ''swap_adjacent_blocks'' (swap_adjacent_blocks W),
     new_pass ''shrink_floats'' (shrink_floats (libm_ceil X) (libm_floor X) (libm_exp2 X) W),
     new_pass ''redistribute_numeric_pairs''
       (redistribute_numeric_pairs (libm_ceil X) (bigint_as_f64 X) W),
     new_pass ''shrink_bytes'' (shrink_bytes W),
     new_pass ''redistribute_bytes_pairs'' (redistribute_bytes_pairs W),
     new_pass ''shrink_strings'' (shrink_strings (nfd_base X) W),
     new_pass ''lower_duplicated_characters'' (lower_duplicated_characters W),
     new_pass ''normalize_unicode_chars''
       (normalize_unicode_chars (to_lowercase X) (to_uppercase X) (nfd_base X) W),
     new_pass ''redistribute_string_pairs'' (redistribute_string_pairs W),
     new_pass ''lower_and_bump'' (lower_and_bump (libm_ceil X) W),
     new_pass ''try_shortening_via_increment'' (try_shortening_via_increment (libm_ceil X) W),
     new_pass ''shrink_clone_streams'' (shrink_clone_streams shrink_nested W),
     mark_stochastic (new_pass ''mutate_and_shrink'' (mutate_and_shrink (libm_ceil X) W))]"

text \<open>\<open>shrink\<close> returns the passes' outcome through \<open>absorb_stop\<close>.\<close>

definition absorbing_stop :: "('env, 'a) pass \<Rightarrow> ('env shrinker, run_error, unit) proc" where
  "absorbing_stop m s =
     (case m s of
        None \<Rightarrow> None
      | Some (r, t) \<Rightarrow> Some (absorb_stop r, t))"

primrec shrink :: "nat \<Rightarrow> externals \<Rightarrow> 'env shrink_world \<Rightarrow> ('env shrinker, run_error, unit) proc" where
  "shrink 0 X W = (\<lambda>s. None)"
| "shrink (Suc fuel) X W = absorbing_stop (fixate_shrink_passes W (all_passes X (shrink fuel X) W))"

section \<open>The schedule ends\<close>

text \<open>The order of the sort keys of validated targets is well founded.\<close>

definition key_less :: "(nat list \<times> nat list) set" where
  "key_less = (\<lambda>(a, b). (nodes_tokens a, nodes_tokens b)) ` shrinks_to"

lemma wf_key_less: "wf key_less"
proof -
  define rep where "rep k = (SOME a. list_all node_valid a \<and> nodes_tokens a = k)" for k
  have rep: "list_all node_valid (rep (nodes_tokens a)) \<and> nodes_tokens (rep (nodes_tokens a)) = nodes_tokens a"
    if "list_all node_valid a" for a
    unfolding rep_def by (rule someI [of _ a]) (use that in simp)
  have "(x, y) \<in> inv_image shrinks_to rep" if "(x, y) \<in> key_less" for x y
  proof -
    from that obtain a b where ab: "(a, b) \<in> shrinks_to" "x = nodes_tokens a" "y = nodes_tokens b"
      by (auto simp: key_less_def)
    then show ?thesis
      using rep [of a] rep [of b] by (auto simp: shrinks_to_def nodes_sort_key_cmp_eq)
  qed
  then have "key_less \<subseteq> inv_image shrinks_to rep" by auto
  then show ?thesis by (rule wf_subset [OF wf_inv_image [OF wf_shrinks_to]])
qed

lemma descends_key_less:
  assumes "target_ok P s" "descends P s t" "improvements s < improvements t"
  shows "(nodes_tokens (current_nodes t), nodes_tokens (current_nodes s)) \<in> key_less"
proof -
  have "(current_nodes t, current_nodes s) \<in> shrinks_to"
    using assms by (auto simp: shrinks_to_def descends_def target_ok_def nodes_sort_key_cmp_eq)
  then show ?thesis unfolding key_less_def by force
qed

lemma descends_key_cases:
  assumes "target_ok P s" "descends P s t"
  shows "nodes_tokens (current_nodes t) = nodes_tokens (current_nodes s)
       \<or> (nodes_tokens (current_nodes t), nodes_tokens (current_nodes s)) \<in> key_less"
proof (cases "nodes_tokens (current_nodes t) < nodes_tokens (current_nodes s)")
  case True
  then have "(current_nodes t, current_nodes s) \<in> shrinks_to"
    using assms by (auto simp: shrinks_to_def descends_def target_ok_def nodes_sort_key_cmp_eq)
  then show ?thesis unfolding key_less_def by force
next
  case False
  then show ?thesis using assms(2) by (auto simp: descends_def)
qed

lemma step_pass_eq:
  "step_pass c len max_failures (p, failures, max_calls, any_ran) s =
     (if max_failures \<le> failures then Some (Inr (Inr (p, max_calls, any_ran)), s)
      else case pass_run p (grow_stall c max_calls s) of
             None \<Rightarrow> None
           | Some (Inl e, t) \<Rightarrow> Some (Inl e, t)
           | Some (Inr _, t) \<Rightarrow>
               let p = p\<lparr>pass_calls := pass_calls p + 1\<rparr>
               in Some (Inr (if improvements s < improvements t
                    then Inl (p\<lparr>pass_shrinks := pass_shrinks p + 1,
                           pass_deletions := (if length (current_nodes t) < len
                              then pass_deletions p + 1 else pass_deletions p)\<rparr>, 0, max_calls, True)
                    else if calls s \<noteq> calls t
                    then Inl (p, failures + 1, max max_calls (calls t - calls s), any_ran)
                    else Inr (p, max_calls, any_ran)), t))"
  by (auto simp: step_pass_def pbind_def self_def grow_stall_def Let_def split: option.split sum.split)

definition pass_ok :: "nat \<Rightarrow> (choice_node list \<Rightarrow> bool) \<Rightarrow> 'env shrink_pass \<Rightarrow> bool" where
  "pass_ok N P p \<longleftrightarrow> bounded.safe N P (\<lambda>_. True) (pass_run p)"

lemma grow_stall_descends:
  "target_ok P s \<Longrightarrow> descends P s (grow_stall c m s)" "target_upto N P (grow_stall c m s) = target_upto N P s"
  "improvements (grow_stall c m s) = improvements s" "current_nodes (grow_stall c m s) = current_nodes s"
  by (auto simp: grow_stall_def Let_def descends_def target_ok_def target_upto_def)

definition steps_ok :: "nat \<Rightarrow> (choice_node list \<Rightarrow> bool) \<Rightarrow> bool \<Rightarrow> 'env shrinker
    \<Rightarrow> 'env shrink_pass \<times> nat \<times> bool \<Rightarrow> 'env shrinker \<Rightarrow> bool" where
  "steps_ok N P any_ran s x t \<longleftrightarrow> pass_ok N P (fst x) \<and> improvements s \<le> improvements t
     \<and> (snd (snd x) \<longrightarrow> any_ran \<or> improvements s < improvements t)"

lemma runs_steps:
  fixes p :: "'env shrink_pass"
  assumes p: "pass_ok N P p" and s: "target_upto N P s"
  shows "bounded.runs P (steps_ok N P any_ran s) s
     (ploop (step_pass c len max_failures) (p, 0, max_calls, any_ran))"
proof -
  define I :: "'env step_vars \<Rightarrow> 'env shrinker \<Rightarrow> bool"
    where "I = (\<lambda>vars u. pass_ok N P (fst vars) \<and> improvements s \<le> improvements u
      \<and> (snd (snd (snd vars)) \<longrightarrow> any_ran \<or> improvements s < improvements u))"
  let ?R = "inv_image (key_less <*lex*> less_than)
        (\<lambda>(vars, u). (nodes_tokens (current_nodes u), max_failures - fst (snd vars)))"
  have wf: "wf ?R"
    by (intro wf_inv_image wf_lex_prod wf_key_less wf_less_than)
  have body: "bounded.runs P (\<lambda>x t. case x of Inl j \<Rightarrow> I j t \<and> ((j, t), (vars, u)) \<in> ?R | Inr y \<Rightarrow> steps_ok N P any_ran s y t) u
      (step_pass c len max_failures vars)"
    if I: "I vars u" and u: "target_upto N P u" for vars u
  proof -
    obtain q f mc any' where vars: "vars = (q, f, mc, any')" by (cases vars)
    from u have ok: "target_ok P u" by (simp add: target_upto_def)
    note I = I [unfolded I_def vars, simplified]
    show ?thesis
    proof (cases "max_failures \<le> f")
      case True
      then show ?thesis
        using I bounded.step_refl [OF u] unfolding vars
        by (intro bounded.runsI) (auto simp: step_pass_eq steps_ok_def)
    next
      case False
      have "bounded.safe N P (\<lambda>_. True) (pass_run q)" using I by (simp add: vars pass_ok_def)
      then obtain r t where run: "pass_run q (grow_stall c mc u) = Some (r, t)"
        and t: "descends P (grow_stall c mc u) t"
        by (rule bounded.safeE [where s = "grow_stall c mc u"])
          (use u in \<open>simp add: grow_stall_descends(2)\<close>, rule that)
      have ut: "descends P u t"
        by (rule bounded.step_trans [OF u grow_stall_descends(1) [OF ok] t])
      have imp: "improvements u \<le> improvements t" using ut by (simp add: descends_def)
      note less = descends_key_less [OF ok ut] and cases = descends_key_cases [OF ok ut]
      show ?thesis
      proof (cases r)
        case (Inl e)
        then show ?thesis using False run ut unfolding vars
          by (intro bounded.runsI [of _ _ "Inl e" t]) (simp_all add: step_pass_eq)
      next
        case (Inr x)
        show ?thesis
          unfolding vars
          by (rule bounded.runsI [OF _ ut])
            (use False run Inr I imp less cases in
              \<open>auto simp: step_pass_eq vars Let_def pass_ok_def I_def steps_ok_def split: if_splits\<close>)
      qed
    qed
  qed
  show ?thesis
    by (rule bounded.runs_ploop_wf [OF wf _ s body]) (use p in \<open>simp_all add: I_def\<close>)
qed

lemma bounded_remove_discarded: "world_for P W \<Longrightarrow> bounded.safe N P (\<lambda>_. True) (remove_discarded W)"
  by (intro safe_bounded safe_descending safe_remove_discarded)

text \<open>One pass and a whole round: if some pass improved the target, the improvements grew.\<close>

definition round_ok :: "nat \<Rightarrow> (choice_node list \<Rightarrow> bool) \<Rightarrow> 'env shrinker \<Rightarrow> 'env round_vars
    \<Rightarrow> 'env shrinker \<Rightarrow> bool" where
  "round_ok N P s x t \<longleftrightarrow> list_all (pass_ok N P \<circ> snd) (snd (snd (snd x)))
     \<and> improvements s \<le> improvements t
     \<and> (fst (snd (snd x)) \<longrightarrow> improvements s < improvements t)"

lemma runs_schedule_pass:
  fixes W :: "'env shrink_world"
  assumes W: "world_for P W" and p: "pass_ok N P p" and u: "target_upto N P u"
    and acc: "round_ok N P s acc u"
  shows "bounded.runs P (round_ok N P s) u (schedule_pass W c acc p)"
proof -
  obtain can mc any_ran dn where vars: "acc = (can, mc, any_ran, dn)" by (cases acc)
  have first: "bounded.safe N P (\<lambda>_. True) (if can then remove_discarded W else pret False)"
    by (simp add: bounded_remove_discarded [OF W] bounded.safe_pret)
  have rest: "bounded.runs P (round_ok N P s) v (pbind self (\<lambda>before.
      pbind (ploop (step_pass c (length (current_nodes before)) (allowed_failures p)) (p, 0, mc, any_ran))
        (record_pass can' before dn)))"
    if v: "target_upto N P v" and uv: "descends P u v" for v can'
  proof -
    have uv': "improvements u \<le> improvements v" using uv by (simp add: descends_def)
    have recorded: "bounded.runs P (round_ok N P s) t (record_pass can' v dn x)"
      if "target_upto N P t" "steps_ok N P any_ran v x t" for t x
      using that acc uv' bounded.step_refl [OF that(1)]
      by (cases x) (auto simp: record_pass_def bounded.runs_def pbind_def self_def round_ok_def
          steps_ok_def vars)
    have "bounded.runs P (round_ok N P s) v
        (pbind (ploop (step_pass c (length (current_nodes v)) (allowed_failures p)) (p, 0, mc, any_ran))
          (record_pass can' v dn))"
      by (rule bounded.runs_pbind [OF v runs_steps [OF p v]]) (rule recorded)
    then show ?thesis by (simp add: bounded.runs_def pbind_def self_def)
  qed
  show ?thesis
    unfolding schedule_pass_def vars prod.case
    by (rule bounded.runs_pbind [OF u bounded.safe_runs [OF first u]]) (rule rest)
qed

lemma runs_schedule_passes:
  fixes W :: "'env shrink_world"
  assumes W: "world_for P W"
  shows "list_all (pass_ok N P) ps \<Longrightarrow> target_upto N P u \<Longrightarrow> round_ok N P s acc u \<Longrightarrow>
    bounded.runs P (round_ok N P s) u (schedule_passes W c acc ps)"
proof (induction ps arbitrary: acc u)
  case Nil
  then show ?case unfolding schedule_passes.simps by (intro bounded.runs_pret)
next
  case (Cons p ps)
  then show ?case
    by (auto intro: bounded.runs_pbind [OF Cons.prems(2) runs_schedule_pass [OF W]])
qed

lemma safe_fixate_round:
  fixes W :: "'env shrink_world"
  assumes W: "world_for P W" and ps: "list_all (pass_ok N P) ps" and s: "target_upto N P s"
  shows "bounded.runs P (\<lambda>x t. case x of
       Inl qs \<Rightarrow> list_all (pass_ok N P) qs \<and> improvements s < improvements t
     | Inr _ \<Rightarrow> True) s (fixate_round W ps)"
proof -
  let ?Q = "\<lambda>x t. case x of
       Inl qs \<Rightarrow> list_all (pass_ok N P) qs \<and> improvements s < improvements t | Inr _ \<Rightarrow> True"
  have reset: "bounded.runs P (\<lambda>_ t. improvements t = improvements s) s
      (pcall (modify (\<lambda>s. s\<lparr>calls_at_last_shrink := calls s\<rparr>)))"
    using s by (auto simp: bounded.runs_def descends_def target_upto_def target_ok_def)
  have finish: "bounded.runs P ?Q t (pret (reordered vars))"
    if "target_upto N P t" "round_ok N P s vars t" for t vars
    using that by (intro bounded.runs_pret)
      (auto simp: reordered_def round_ok_def Let_def list_all_iff split: prod.split)
  have run: "bounded.runs P ?Q v (pbind self (\<lambda>s.
      pbind (schedule_passes W (calls s) (can, 1, False, []) ps) (\<lambda>vars. pret (reordered vars))))"
    if v: "target_upto N P v" and le: "improvements s \<le> improvements v" for v can
  proof -
    have "round_ok N P s (can, 1, False, []) v" using le by (simp add: round_ok_def)
    then have "bounded.runs P (round_ok N P s) v (schedule_passes W (calls v) (can, 1, False, []) ps)"
      by (rule runs_schedule_passes [OF W ps v])
    then have "bounded.runs P ?Q v (pbind (schedule_passes W (calls v) (can, 1, False, []) ps)
        (\<lambda>vars. pret (reordered vars)))"
      by (rule bounded.runs_pbind [OF v]) (rule finish)
    then show ?thesis by (simp add: bounded.runs_def pbind_def self_def)
  qed
  have discard: "bounded.runs P ?Q u (pbind (remove_discarded W) (\<lambda>can. pbind self (\<lambda>s.
      pbind (schedule_passes W (calls s) (can, 1, False, []) ps) (\<lambda>vars. pret (reordered vars)))))"
    if u: "target_upto N P u" and eq: "improvements u = improvements s" for u
    by (rule bounded.runs_pbind [OF u bounded.safe_runs [OF bounded_remove_discarded [OF W] u]])
      (rule run, use eq in \<open>auto simp: descends_def\<close>)
  show ?thesis
    unfolding fixate_round_def by (rule bounded.runs_pbind [OF s reset]) (rule discard)
qed

lemma safe_fixate_shrink_passes:
  fixes W :: "'env shrink_world"
  assumes W: "world_for P W" and ps: "list_all (pass_ok N P) ps"
  shows "bounded.safe N P (\<lambda>_. True) (fixate_shrink_passes W ps)"
  unfolding fixate_shrink_passes_def
proof (rule bounded.runs_safe)
  fix s :: "'env shrinker"
  assume s: "target_upto N P s"
  let ?R = "inv_image key_less (\<lambda>(_, u). nodes_tokens (current_nodes u))"
  show "bounded.runs P (\<lambda>_ _. True) s (ploop (fixate_round W) ps)"
  proof (rule bounded.runs_ploop_wf [OF wf_inv_image [OF wf_key_less] _ s,
        where I = "\<lambda>ps _. list_all (pass_ok N P) ps" and f2 = "\<lambda>(_, u). nodes_tokens (current_nodes u)"])
    fix qs :: "'env shrink_pass list" and u :: "'env shrinker"
    assume qs: "list_all (pass_ok N P) qs" and u: "target_upto N P u"
    obtain r t where rt: "fixate_round W qs u = Some (r, t)" "descends P u t"
      "\<And>x. r = Inr x \<Longrightarrow> (case x of
         Inl qs \<Rightarrow> list_all (pass_ok N P) qs \<and> improvements u < improvements t | Inr _ \<Rightarrow> True)"
      by (rule bounded.runsE [OF safe_fixate_round [OF W qs u]]) (rule that)
    have "target_ok P u" using u by (simp add: target_upto_def)
    note less = descends_key_less [OF this rt(2)]
    show "bounded.runs P (\<lambda>x t. case x of
         Inl qs' \<Rightarrow> list_all (pass_ok N P) qs' \<and> ((qs', t), (qs, u)) \<in> ?R | Inr _ \<Rightarrow> True) u (fixate_round W qs)"
      by (rule bounded.runsI [where m = "fixate_round W qs" and s = u, OF rt(1,2)]) (use rt(3) less in \<open>auto split: sum.splits\<close>)
  qed (use ps in simp)
qed

section \<open>The shrink ends\<close>

lemmas adopting_passes =
  safe_delete_spans safe_try_trivial_spans safe_pass_to_descendant safe_reorder_spans
  safe_node_program safe_delete_chunks safe_delete_between_repeats safe_zero_choices
  safe_swap_integer_sign safe_binary_search_integer_towards_zero safe_bind_deletion
  safe_minimize_individual_choices safe_lower_common_node_offset safe_redistribute_integers
  safe_lower_integers_together safe_shrink_duplicates safe_sort_values
  safe_swap_adjacent_blocks safe_redistribute_numeric_pairs safe_shrink_bytes
  safe_redistribute_bytes_pairs safe_shrink_strings safe_lower_duplicated_characters
  safe_normalize_unicode_chars safe_redistribute_string_pairs safe_lower_and_bump
  safe_try_shortening_via_increment safe_mutate_and_shrink

lemma pass_ok_adopting: "adopting.safe P (\<lambda>_. True) m \<Longrightarrow> pass_ok N P (new_pass name m)"
  by (simp add: pass_ok_def new_pass_def safe_bounded safe_descending)

lemma pass_ok_descending: "bounded.safe N P (\<lambda>_. True) m \<Longrightarrow> pass_ok N P (new_pass name m)"
  by (simp add: pass_ok_def new_pass_def)

lemma pass_ok_stochastic: "pass_ok N P p \<Longrightarrow> pass_ok N P (mark_stochastic p)"
  by (simp add: pass_ok_def mark_stochastic_def)

lemma passes_ok:
  assumes W: "world_for P W"
    and clones: "bounded.safe N P (\<lambda>_. True) (shrink_clone_streams shrink_nested W)"
  shows "list_all (pass_ok N P) (all_passes X shrink_nested W)"
proof -
  have "adopting.safe P (\<lambda>_. True) (pbind (remove_discarded W) (\<lambda>_. pret ()))"
    by (intro adopting_intros safe_remove_discarded W TrueI)
  note first = pass_ok_adopting [OF this] and float = pass_ok_descending [OF safe_bounded [OF descending_shrink_floats [OF W]]]
    and clone = pass_ok_descending [OF clones] and others = adopting_passes [OF W, THEN pass_ok_adopting]
  show ?thesis
    unfolding all_passes_def by (simp only: list.pred_inject first float clone others pass_ok_stochastic simp_thms)
qed

lemma shrink_descends:
  "world_for P W \<Longrightarrow> target_ok P s \<Longrightarrow> flattened_len (current_nodes s) < fuel \<Longrightarrow>
     \<exists>r t. shrink fuel X W s = Some (r, t) \<and> descends P s t"
proof (induction fuel arbitrary: P W s)
  case 0
  then show ?case by simp
next
  case (Suc fuel)
  have "bounded.safe fuel P (\<lambda>_. True) (shrink_clone_streams (shrink fuel X) W)"
    by (rule bounded_shrink_clone_streams [OF Suc.prems(1)]) (rule Suc.IH)
  then have passes: "list_all (pass_ok fuel P) (all_passes X (shrink fuel X) W)"
    by (rule passes_ok [OF Suc.prems(1)])
  have s: "target_upto fuel P s" using Suc.prems(2,3) by (simp add: target_upto_def)
  obtain r t where "fixate_shrink_passes W (all_passes X (shrink fuel X) W) s = Some (r, t)" "descends P s t"
    by (rule bounded.safeE [OF safe_fixate_shrink_passes [OF Suc.prems(1) passes] s]) (rule that)
  then show ?case by (simp add: absorbing_stop_def)
qed

text \<open>C2: a whole shrink ends, with any test function and clock, whatever the randomness, and
  it keeps its contract: the target it leaves was validated, was called interesting by the
  test function (\<open>P\<close> is what the test function promises of such runs and what holds of the
  start), and is not larger than the start in the sort key, strictly smaller if any
  improvement was counted. The fuel bounds the nesting of cloned streams: one more than the
  flattened length of the start is enough.
\<close>
theorem shrink_terminates:
  assumes "world_for P W" "list_all node_valid nodes" "P nodes" "flattened_len nodes < fuel"
  shows "\<exists>r t. shrink fuel X W (with_probe env nodes spans) = Some (r, t)
     \<and> list_all node_valid (current_nodes t) \<and> P (current_nodes t)
     \<and> nodes_sort_key_cmp (current_nodes t) nodes \<in> {Inr Less, Inr Equal}
     \<and> (0 < improvements t \<longrightarrow> nodes_sort_key_cmp (current_nodes t) nodes = Inr Less)"
proof -
  let ?s = "with_probe env nodes spans"
  have s: "target_ok P ?s" "current_nodes ?s = nodes" "improvements ?s = 0"
    using assms(2,3) by (simp_all add: target_ok_def with_probe_def)
  obtain r t where "shrink fuel X W ?s = Some (r, t)" and t: "descends P ?s t"
    using shrink_descends [OF assms(1) s(1)] assms(4) s(2) by fastforce
  moreover have "list_all node_valid (current_nodes t)" "P (current_nodes t)"
    using t by (auto simp: descends_def target_ok_def)
  moreover from this have "nodes_sort_key_cmp (current_nodes t) nodes
      = Inr (cmp (nodes_tokens (current_nodes t)) (nodes_tokens nodes))"
    by (intro nodes_sort_key_cmp_eq assms(2))
  ultimately show ?thesis
    using t s by (auto simp: descends_def cmp_def)
qed

text \<open>A test function that replays what it is asked for, and finds non-empty runs interesting.\<close>

definition echo_world :: "unit shrink_world" where
  "echo_world =
     \<lparr>test_fn = (\<lambda>run env. case run of
        FullRun nodes \<Rightarrow>
          if list_all node_valid nodes then (Inr (nodes \<noteq> [], nodes, []), env)
          else (Inr (False, [], []), env)
      | ProbeRun pre max_size \<Rightarrow> (Inr (False, [], []), env)),
      now = (\<lambda>env. (None, env))\<rparr>"

definition sample_externals :: externals where
  "sample_externals =
     \<lparr>libm_ceil = id, libm_floor = id, libm_exp2 = id, bigint_as_f64 = of_int, to_lowercase = (\<lambda>c. [c]),
      to_uppercase = (\<lambda>c. [c]), nfd_base = (\<lambda>c. None), fx_hash = (\<lambda>_. 0)\<rparr>"

definition sample_nodes :: "choice_node list" where
  "sample_nodes = [ChoiceNode (DInteger sample_integer 4) False, ChoiceNode (DInteger sample_integer 4) False]"

lemma echo_world_for: "world_for (\<lambda>nodes. nodes \<noteq> []) echo_world"
  by (auto simp: world_for_def echo_world_def split: shrink_run.splits if_splits)

lemma sample_nodes_valid:
  "list_all node_valid sample_nodes" "sample_nodes \<noteq> []" "flattened_len sample_nodes < 3"
  by (simp_all add: sample_nodes_def sample_integer_def integer_validate_def integer_wf_def flattened_len_def)

lemma shrink_terminates_witness:
  "\<exists>r t. shrink 3 sample_externals echo_world (with_probe () sample_nodes []) = Some (r, t)
     \<and> current_nodes t \<noteq> []"
  using shrink_terminates [OF echo_world_for sample_nodes_valid] by blast

text \<open>C3: each pass of the schedule, the float and clone passes apart, ends on any valid target
  and either leaves target, spans and improvement count alone or leaves a strictly smaller
  valid interesting target with the improvement counted; the coarse reduction that precedes
  the schedule does the same.
\<close>
theorem passes_adopt:
  assumes "world_for P W" "target_ok P s"
  shows "(\<forall>p \<in> set (all_passes X shrink_nested W).
       pass_name p \<notin> {''shrink_floats'', ''shrink_clone_streams''} \<longrightarrow>
       (\<exists>r t. pass_run p s = Some (r, t) \<and> adopts P s t))
     \<and> (\<exists>r t. initial_coarse_reduction W s = Some (r, t) \<and> adopts P s t)"
proof -
  have "adopting.safe P (\<lambda>_. True) (pbind (remove_discarded W) (\<lambda>_. pret ()))"
    by (intro adopting_intros safe_remove_discarded assms(1) TrueI)
  note all = this adopting_passes [OF assms(1)]
  have "list_all (\<lambda>p. pass_name p \<in> {''shrink_floats'', ''shrink_clone_streams''}
      \<or> adopting.safe P (\<lambda>_. True) (pass_run p)) (all_passes X shrink_nested W)"
    unfolding all_passes_def
    by (simp only: list.pred_inject new_pass_def mark_stochastic_def shrink_pass.simps all simp_thms
        insert_iff)
  moreover have "\<exists>r t. m s = Some (r, t) \<and> adopts P s t" if "adopting.safe P (\<lambda>_. True) m" for m
    using that assms(2) by (simp add: adopting.safe_def)
  ultimately show ?thesis
    using safe_initial_coarse_reduction [OF assms(1)] unfolding list_all_iff by blast
qed

lemma passes_adopt_witness:
  "\<exists>r t. delete_chunks echo_world (with_probe () sample_nodes []) = Some (r, t)
     \<and> adopts (\<lambda>nodes. nodes \<noteq> []) (with_probe () sample_nodes []) t"
proof -
  let ?s = "with_probe () sample_nodes []"
  have ok: "target_ok (\<lambda>nodes. nodes \<noteq> []) ?s"
    using sample_nodes_valid by (simp add: target_ok_def with_probe_def)
  have "new_pass ''delete_chunks'' (delete_chunks echo_world)
      \<in> set (all_passes sample_externals (shrink 0 sample_externals) echo_world)"
    by (simp add: all_passes_def)
  moreover have "pass_name (new_pass ''delete_chunks'' (delete_chunks echo_world))
      \<notin> {''shrink_floats'', ''shrink_clone_streams''}" by (simp add: new_pass_def)
  ultimately have "\<exists>r t. pass_run (new_pass ''delete_chunks'' (delete_chunks echo_world)) ?s = Some (r, t)
      \<and> adopts (\<lambda>nodes. nodes \<noteq> []) ?s t"
    using passes_adopt [OF echo_world_for ok] by blast
  then show ?thesis by (simp add: new_pass_def)
qed

end
