(* ===== verification/Family.thy ===== *)
theory Family
  imports FloatArith Choices Bignum
begin

text \<open>
  The pieces of \<open>hegel-c/src/native/core/state.rs\<close> a test case is built from: the state of a
  variable-length collection and of a recursive draw, the pool of variable identifiers of
  stateful testing, the span collection, and \<open>FamilyCore\<close>, the state every stream of a test
  case family shares. The mutexes and atomics of the source serialise single operations, each
  of which is one step here.
\<close>

section \<open>Collections\<close>

definition usize_as_f64 :: "nat \<Rightarrow> f64" where
  "usize_as_f64 n = f64_of_int (int n)"

definition size_limit :: "nat option \<Rightarrow> f64" where
  "size_limit max_size = (case max_size of None \<Rightarrow> f64_infinity | Some n \<Rightarrow> usize_as_f64 n)"

definition length_p_continue :: "nat \<Rightarrow> nat option \<Rightarrow> f64" where
  "length_p_continue min_size max_size =
     (let max_f = size_limit max_size;
          min_f = usize_as_f64 min_size;
          average = f64_min (f64_max (f64_mul min_f 0x4000000000000000)
                                     (f64_add min_f 0x4014000000000000))
                            (f64_mul 0x3FE0000000000000 (f64_add min_f max_f));
          desired_extra = f64_sub average min_f;
          max_extra = f64_sub max_f min_f
      in if f64_le max_extra desired_extra then 0x3FEFAE147AE147AE
         else if is_infinite max_f
         then f64_sub f64_one (f64_div f64_one (f64_add f64_one desired_extra))
         else f64_sub f64_one (f64_div f64_one (f64_add 0x4000000000000000 desired_extra)))"

record many_state =
  many_min_size :: nat
  many_max_size :: f64
  many_p_continue :: f64
  many_count :: nat
  many_rejections :: nat
  many_force_stop :: bool

definition many_new :: "nat \<Rightarrow> nat option \<Rightarrow> many_state" where
  "many_new min_size max_size =
     \<lparr>many_min_size = min_size, many_max_size = size_limit max_size,
      many_p_continue = length_p_continue min_size max_size,
      many_count = 0, many_rejections = 0, many_force_stop = False\<rparr>"

section \<open>Recursive draws\<close>

text \<open>
  \<open>open_branches\<close> is a stack; its top, the last element of the source's vector, is the head
  of the list. The counters are \<open>u64\<close>s that count draws of one test case.
\<close>

record recursion_state =
  rc_max_depth :: nat
  rc_max_leaves :: nat
  rc_attempt :: nat
  rc_leaves :: nat
  rc_base_span_depth :: nat
  rc_target :: nat
  rc_branch_probability :: f64
  rc_closed_children :: nat
  rc_closed_branches :: nat
  rc_open_branches :: "(nat \<times> nat) list"
  rc_reprices :: nat

definition count_leaf :: "recursion_state \<Rightarrow> bool \<times> recursion_state" where
  "count_leaf r =
     (if rc_max_leaves r \<le> rc_leaves r then (False, r)
      else (True, r\<lparr>rc_leaves := rc_leaves r + 1\<rparr>))"

fun close_branches :: "(nat \<Rightarrow> bool) \<Rightarrow> (nat \<times> nat) list \<Rightarrow> nat \<Rightarrow> nat \<Rightarrow> (nat \<times> nat) list \<times> nat \<times> nat" where
  "close_branches closing [] children branches = ([], children, branches)"
| "close_branches closing ((d, n) # open) children branches =
     (if closing d then close_branches closing open (children + n) (branches + 1)
      else ((d, n) # open, children, branches))"

definition close_while :: "(nat \<Rightarrow> bool) \<Rightarrow> recursion_state \<Rightarrow> recursion_state" where
  "close_while closing r =
     (case close_branches closing (rc_open_branches r) (rc_closed_children r) (rc_closed_branches r) of
        (open, children, branches) \<Rightarrow>
          r\<lparr>rc_open_branches := open, rc_closed_children := children, rc_closed_branches := branches\<rparr>)"

fun count_child :: "(nat \<times> nat) list \<Rightarrow> (nat \<times> nat) list" where
  "count_child [] = []"
| "count_child ((d, n) # open) = (d, n + 1) # open"

definition observe_decision :: "nat \<Rightarrow> recursion_state \<Rightarrow> recursion_state" where
  "observe_decision depth r =
     (let r = close_while (\<lambda>d. depth \<le> d) r
      in if 0 < depth then r\<lparr>rc_open_branches := count_child (rc_open_branches r)\<rparr> else r)"

definition observe_branch :: "nat \<Rightarrow> recursion_state \<Rightarrow> recursion_state" where
  "observe_branch depth r = r\<lparr>rc_open_branches := (depth, 0) # rc_open_branches r\<rparr>"

definition close_remaining_branches :: "recursion_state \<Rightarrow> recursion_state" where
  "close_remaining_branches r = close_while (\<lambda>_. True) r"

definition discard_open_branches :: "recursion_state \<Rightarrow> recursion_state" where
  "discard_open_branches r = r\<lparr>rc_open_branches := []\<rparr>"

section \<open>Identifiers\<close>

text \<open>An ordered set is iterated in ascending order.\<close>

fun smallest_unused_from :: "int \<Rightarrow> int list \<Rightarrow> int" where
  "smallest_unused_from candidate [] = candidate"
| "smallest_unused_from candidate (i # is) =
     (if candidate < i then candidate
      else smallest_unused_from (if i = candidate then candidate + 1 else candidate) is)"

definition smallest_unused_id :: "int set \<Rightarrow> int" where
  "smallest_unused_id used = smallest_unused_from 0 (sorted_list_of_set used)"

text \<open>\<open>iter().next_back().copied().unwrap_or(-1)\<close>: the largest identifier.\<close>

definition largest_id :: "int set \<Rightarrow> int" where
  "largest_id used = (if used = {} then -1 else Max used)"

text \<open>The pool of variables; the last variable of the source's vector is the last of the list.\<close>

record native_variables =
  nv_variables :: "int list"
  nv_removed :: "int set"

definition variables_new :: native_variables where
  "variables_new = \<lparr>nv_variables = [], nv_removed = {}\<rparr>"

definition variables_add :: "int \<Rightarrow> native_variables \<Rightarrow> native_variables" where
  "variables_add i p = p\<lparr>nv_variables := nv_variables p @ [i]\<rparr>"

definition variables_active :: "native_variables \<Rightarrow> int list" where
  "variables_active p = filter (\<lambda>i. i \<notin> nv_removed p) (nv_variables p)"

function trim_removed :: "int list \<Rightarrow> int set \<Rightarrow> int list \<times> int set" where
  "trim_removed variables removed =
     (if variables \<noteq> [] \<and> last variables \<in> removed
      then trim_removed (butlast variables) (removed - {last variables})
      else (variables, removed))"
  by auto
termination
  by (relation "measure (\<lambda>(variables, _). length variables)") auto

declare trim_removed.simps [simp del]

definition variables_consume :: "int \<Rightarrow> native_variables \<Rightarrow> native_variables" where
  "variables_consume i p =
     (case trim_removed (nv_variables p) (insert i (nv_removed p)) of
        (variables, removed) \<Rightarrow> p\<lparr>nv_variables := variables, nv_removed := removed\<rparr>)"

section \<open>Spans\<close>

type_synonym spans = "span list"

definition MAX_DEPTH :: nat where "MAX_DEPTH = 1000"

text \<open>\<open>structural_coverage\<close> interns its tags: equal labels give the same reference.\<close>

datatype coverage_tag = CoverageTag (tag_label: u64)

definition structural_coverage :: "u64 \<Rightarrow> coverage_tag" where
  "structural_coverage label = CoverageTag label"

definition span_get :: "spans \<Rightarrow> nat \<Rightarrow> span option" where
  "span_get spans i = (if i < length spans then Some (spans ! i) else None)"

definition span_update :: "nat \<Rightarrow> (span \<Rightarrow> span) \<Rightarrow> spans \<Rightarrow> spans" where
  "span_update i f spans = (if i < length spans then spans[i := f (spans ! i)] else spans)"

fun all_trivial :: "(f64 \<Rightarrow> f64) \<Rightarrow> choice_node list \<Rightarrow> bool internal_result" where
  "all_trivial libm_ceil [] = Inr True"
| "all_trivial libm_ceil (n # ns) =
     rbind (if was_forced n then Inr True else data_is_simplest libm_ceil (node_data n)) (\<lambda>simplest.
     if simplest then all_trivial libm_ceil ns else Inr False)"

definition span_trivial ::
  "(f64 \<Rightarrow> f64) \<Rightarrow> spans \<Rightarrow> nat \<Rightarrow> choice_node list \<Rightarrow> bool internal_result" where
  "span_trivial libm_ceil spans span_idx nodes =
     (case span_get spans span_idx of
        None \<Rightarrow> Inr False
      | Some sp \<Rightarrow>
          let end = min (span_end sp) (length nodes)
          in if end < span_start sp then Inr False
             else all_trivial libm_ceil (drop (span_start sp) (take end nodes)))"

section \<open>The family\<close>

record generation_parameters =
  endpoint_probability :: f64
  interesting_probability :: f64
  diffuse_probability :: f64

definition DIRICHLET_ALPHA_ENDPOINT :: f64 where "DIRICHLET_ALPHA_ENDPOINT = 0x3FB47AE147AE147B"
definition DIRICHLET_ALPHA_INTERESTING :: f64 where "DIRICHLET_ALPHA_INTERESTING = 0x3FE999999999999A"
definition DIRICHLET_ALPHA_DIFFUSE :: f64 where "DIRICHLET_ALPHA_DIFFUSE = 0x3FBEB851EB851EB8"
definition DIRICHLET_ALPHA_MIDDLE :: f64 where "DIRICHLET_ALPHA_MIDDLE = 0x400199999999999A"

definition default_parameters :: generation_parameters where
  "default_parameters =
     (let total = f64_add (f64_add (f64_add DIRICHLET_ALPHA_ENDPOINT DIRICHLET_ALPHA_INTERESTING)
                                   DIRICHLET_ALPHA_DIFFUSE) DIRICHLET_ALPHA_MIDDLE
      in \<lparr>endpoint_probability = f64_div DIRICHLET_ALPHA_ENDPOINT total,
          interesting_probability = f64_div DIRICHLET_ALPHA_INTERESTING total,
          diffuse_probability = f64_div DIRICHLET_ALPHA_DIFFUSE total\<rparr>)"

text \<open>
  \<open>fc_concluded_status\<close> mirrors the status of \<open>fc_conclusion\<close> for the draws' fast path;
  \<open>STATUS_UNSET\<close> means that the family is still running.
\<close>

type_synonym origin = string

record family =
  fc_conclusion :: "(status \<times> origin option) option"
  fc_concluded_status :: u8
  fc_total_draws :: nat
  fc_budget :: nat
  fc_target_observations :: "string \<rightharpoonup> f64"
  fc_events :: "(string \<times> f64 option) list"
  fc_stateful_step_count :: int
  fc_concurrent_machine :: bool
  fc_reject_concurrent_machine :: bool
  fc_fresh_ids :: "int set"
  fc_generation_parameters :: "generation_parameters option"

definition STATUS_UNSET :: u8 where "STATUS_UNSET = 255"

definition family_new :: "nat \<Rightarrow> family" where
  "family_new budget =
     \<lparr>fc_conclusion = None, fc_concluded_status = STATUS_UNSET, fc_total_draws = 0,
      fc_budget = budget, fc_target_observations = Map.empty, fc_events = [],
      fc_stateful_step_count = 50, fc_concurrent_machine = False,
      fc_reject_concurrent_machine = False, fc_fresh_ids = {}, fc_generation_parameters = None\<rparr>"

definition set_concurrent_machine :: "family \<Rightarrow> family" where
  "set_concurrent_machine fam = fam\<lparr>fc_concurrent_machine := True\<rparr>"

definition set_reject_concurrent_machine :: "bool \<Rightarrow> family \<Rightarrow> family" where
  "set_reject_concurrent_machine reject fam = fam\<lparr>fc_reject_concurrent_machine := reject\<rparr>"

text \<open>\<open>OnceBox::set\<close> keeps the first value.\<close>

definition set_generation_parameters :: "generation_parameters \<Rightarrow> family \<Rightarrow> family" where
  "set_generation_parameters params fam =
     (if fc_generation_parameters fam = None then fam\<lparr>fc_generation_parameters := Some params\<rparr> else fam)"

definition family_parameters :: "family \<Rightarrow> generation_parameters" where
  "family_parameters fam =
     (case fc_generation_parameters fam of Some params \<Rightarrow> params | None \<Rightarrow> default_parameters)"

definition set_stateful_step_count :: "int \<Rightarrow> family \<Rightarrow> family" where
  "set_stateful_step_count count fam = fam\<lparr>fc_stateful_step_count := count\<rparr>"

text \<open>The \<open>unreachable!\<close> of a byte that is no discriminant is outside of the reachable states.\<close>

definition family_status :: "family \<Rightarrow> status option" where
  "family_status fam =
     (let raw = fc_concluded_status fam
      in if raw = STATUS_UNSET then None
         else if raw = 0 then Some EarlyStop
         else if raw = 1 then Some Invalid
         else if raw = 2 then Some Valid
         else Some Interesting)"

definition family_conclude :: "status \<Rightarrow> origin option \<Rightarrow> family \<Rightarrow> family" where
  "family_conclude status origin fam =
     (if fc_conclusion fam = None
      then fam\<lparr>fc_conclusion := Some (status, origin),
               fc_concluded_status := of_nat (status_code status)\<rparr>
      else fam)"

definition try_take_draw :: "family \<Rightarrow> bool \<times> family" where
  "try_take_draw fam =
     (fc_total_draws fam < fc_budget fam, fam\<lparr>fc_total_draws := fc_total_draws fam + 1\<rparr>)"

definition set_budget :: "nat \<Rightarrow> family \<Rightarrow> family" where
  "set_budget budget fam = fam\<lparr>fc_budget := budget\<rparr>"

end
