(* ===== verification/TestCase.thy ===== *)
theory TestCase
  imports Family
begin

text \<open>
  \<open>NativeTestCase\<close> of \<open>hegel-c/src/native/core/state.rs\<close>: one stream of a test case family, its
  draws and spans. A method on \<open>&mut self\<close> is an effect on the record; \<open>tc_family\<close> is the
  reference to the shared \<open>FamilyCore\<close>, so an operation of one stream reads and writes the
  family through it (\<open>Streams.thy\<close> puts several streams over one family). The observer is the
  list of the callbacks made so far, absent when none was installed.

  The random source and the samplers are the fields of \<open>sampling\<close>: a sampler maps the
  source's state to a result and the next state.
\<close>

section \<open>The state\<close>

datatype observation =
    ObsBoolean bool bool
  | ObsInteger int bool
  | ObsFloat f64 bool
  | ObsBytes "u8 list" bool
  | ObsString "codepoint list" bool
  | ObsConclude status "origin option"

type_synonym ('r, 'a) sampler = "'r \<Rightarrow> 'a internal_result \<times> 'r"

record 'r sampling =
  rng_spawn :: "'r \<Rightarrow> 'r \<times> 'r"
  draw_parameters :: "('r, generation_parameters) sampler"
  biased_integer_sample :: "integer_choice \<Rightarrow> generation_parameters \<Rightarrow> ('r, int) sampler"
  biased_float_sample :: "float_choice \<Rightarrow> ('r, f64) sampler"
  biased_bytes_sample :: "bytes_choice \<Rightarrow> ('r, u8 list) sampler"
  biased_string_sample :: "string_choice \<Rightarrow> ('r, codepoint list) sampler"
  weighted_boolean_sample :: "f64 \<Rightarrow> 'r \<Rightarrow> bool \<times> 'r"
  weighted_boolean_sample_precise :: "f64 \<Rightarrow> 'r \<Rightarrow> bool \<times> 'r"
  random_range_u64 :: "nat \<Rightarrow> nat \<Rightarrow> 'r \<Rightarrow> nat \<times> 'r"
  random_index :: "nat \<Rightarrow> 'r \<Rightarrow> nat \<times> 'r"

text \<open>The innermost open span, the last entry of the source's stacks, is the head of the lists.\<close>

record 'r test_case =
  tc_prefix :: "choice_value list"
  tc_prefix_nodes :: "choice_node list option"
  tc_rng :: "'r option"
  tc_max_size :: nat
  tc_nodes :: "choice_node list"
  tc_frozen :: bool
  tc_nondeterministic :: bool
  tc_family :: family
  tc_clone_id :: "nat list"
  tc_clone_counter :: nat
  tc_clone_children :: "(nat \<times> nat list) list"
  tc_spans :: spans
  tc_span_stack :: "nat list"
  tc_has_discards :: bool
  tc_tags :: "coverage_tag set"
  tc_labels :: "u64 set list"
  tc_observer :: "observation list option"
  tc_template :: "choice_template option"

type_synonym ('r, 'a) draw = "('r test_case, engine_error, 'a) effect"

definition BUFFER_SIZE :: nat where "BUFFER_SIZE = 8 * 1024"

section \<open>Construction\<close>

definition new_stream ::
  "choice_value list \<Rightarrow> choice_node list option \<Rightarrow> 'r option \<Rightarrow> choice_template option \<Rightarrow> nat
   \<Rightarrow> observation list option \<Rightarrow> bool \<Rightarrow> family \<Rightarrow> nat list \<Rightarrow> 'r test_case" where
  "new_stream pre pre_nodes rng template max_size observer nondeterministic fam clone_id =
     \<lparr>tc_prefix = pre, tc_prefix_nodes = pre_nodes, tc_rng = rng, tc_max_size = max_size,
      tc_nodes = [], tc_frozen = False, tc_nondeterministic = nondeterministic, tc_family = fam,
      tc_clone_id = clone_id, tc_clone_counter = 0, tc_clone_children = [], tc_spans = [],
      tc_span_stack = [], tc_has_discards = False, tc_tags = {}, tc_labels = [],
      tc_observer = observer, tc_template = template\<rparr>"

definition for_choices_and_template ::
  "choice_value list \<Rightarrow> choice_node list option \<Rightarrow> choice_template option \<Rightarrow> nat
   \<Rightarrow> observation list option \<Rightarrow> 'r test_case" where
  "for_choices_and_template choices pre_nodes trailing max_size observer =
     (let max_size = max max_size (length choices);
          budget = (if trailing \<noteq> None then max_size else USIZE_MAX)
      in new_stream choices pre_nodes None trailing max_size observer False (family_new budget) [])"

definition for_choices ::
  "choice_value list \<Rightarrow> choice_node list option \<Rightarrow> observation list option \<Rightarrow> 'r test_case" where
  "for_choices choices pre_nodes observer =
     for_choices_and_template choices pre_nodes None (length choices) observer"

definition for_simplest :: "nat \<Rightarrow> 'r test_case internal_result" where
  "for_simplest max_size =
     rbind (template_simplest None) (\<lambda>template.
     Inr (for_choices_and_template [] None (Some template) max_size None))"

definition with_random_and_params ::
  "'r test_case \<Rightarrow> 'r \<Rightarrow> generation_parameters \<Rightarrow> 'r test_case" where
  "with_random_and_params tc rng params =
     tc\<lparr>tc_rng := Some rng,
        tc_family := set_budget (tc_max_size tc) (set_generation_parameters params (tc_family tc))\<rparr>"

definition with_random :: "'r sampling \<Rightarrow> 'r test_case \<Rightarrow> 'r \<Rightarrow> 'r test_case internal_result" where
  "with_random S tc rng =
     (case draw_parameters S rng of
        (Inl e, _) \<Rightarrow> Inl e
      | (Inr params, rng) \<Rightarrow> Inr (with_random_and_params tc rng params))"

definition new_random_with_params :: "'r \<Rightarrow> generation_parameters \<Rightarrow> 'r test_case" where
  "new_random_with_params rng params =
     with_random_and_params (for_choices_and_template [] None None BUFFER_SIZE None) rng params"

definition for_probe ::
  "'r sampling \<Rightarrow> choice_value list \<Rightarrow> 'r \<Rightarrow> nat \<Rightarrow> 'r test_case internal_result" where
  "for_probe S pre rng max_size =
     with_random S (for_choices_and_template pre None None max_size None) rng"

section \<open>Conclusion, spans and freezing\<close>

definition tc_status :: "'r test_case \<Rightarrow> status option" where
  "tc_status tc = family_status (tc_family tc)"

definition set_nondeterministic :: "'r test_case \<Rightarrow> 'r test_case" where
  "set_nondeterministic tc = tc\<lparr>tc_nondeterministic := True\<rparr>"

definition conclude :: "status \<Rightarrow> origin option \<Rightarrow> 'r test_case \<Rightarrow> 'r test_case" where
  "conclude status origin tc = tc\<lparr>tc_family := family_conclude status origin (tc_family tc)\<rparr>"

definition notify :: "observation \<Rightarrow> 'r test_case \<Rightarrow> 'r test_case" where
  "notify ob tc = tc\<lparr>tc_observer := map_option (\<lambda>seen. seen @ [ob]) (tc_observer tc)\<rparr>"

fun close_spans :: "nat \<Rightarrow> nat list \<Rightarrow> spans \<Rightarrow> spans" where
  "close_spans end [] spans = spans"
| "close_spans end (idx # stack) spans =
     close_spans end stack (span_update idx (span_end_update (\<lambda>_. end)) spans)"

text \<open>The \<open>unreachable!\<close> of \<open>freeze\<close> follows its own \<open>conclude\<close>: the conclusion is there.\<close>

definition freeze :: "'r test_case \<Rightarrow> 'r test_case" where
  "freeze tc =
     (if tc_frozen tc then tc
      else let tc = tc\<lparr>tc_frozen := True,
                       tc_spans := close_spans (length (tc_nodes tc)) (tc_span_stack tc) (tc_spans tc),
                       tc_span_stack := []\<rparr>;
               tc = conclude Valid None tc
           in case fc_conclusion (tc_family tc) of
                Some (status, origin) \<Rightarrow> notify (ObsConclude status origin) tc
              | None \<Rightarrow> tc)"

text \<open>\<open>label.to_string()\<close>: the decimal digits of a \<open>u64\<close>.\<close>

function decimal :: "nat \<Rightarrow> string" where
  "decimal n =
     (if n < 10 then [char_of (n + 48)] else decimal (n div 10) @ [char_of (n mod 10 + 48)])"
  by auto
termination
  by (relation "measure id") auto

declare decimal.simps [simp del]

definition start_span :: "u64 \<Rightarrow> 'r test_case \<Rightarrow> nat \<times> 'r test_case" where
  "start_span label tc =
     (let parent = (case tc_span_stack tc of [] \<Rightarrow> None | t # _ \<Rightarrow> Some t);
          depth = length (tc_span_stack tc);
          idx = length (tc_spans tc);
          start = length (tc_nodes tc);
          span = \<lparr>span_start = start, span_end = start, span_label = decimal (unat label),
                  span_depth = depth, span_parent = parent, span_discarded = False\<rparr>;
          tc = tc\<lparr>tc_spans := tc_spans tc @ [span], tc_span_stack := idx # tc_span_stack tc,
                  tc_labels := {label} # tc_labels tc\<rparr>
      in (idx, if MAX_DEPTH < depth + 1 then freeze (conclude Invalid None tc) else tc))"

text \<open>Merging the labels of a closed span into its parent, or into the tags of the test case.\<close>

definition promote_labels :: "bool \<Rightarrow> 'r test_case \<Rightarrow> 'r test_case" where
  "promote_labels discard tc =
     (let (labels, rest) = (case tc_labels tc of [] \<Rightarrow> ({}, []) | t # rest \<Rightarrow> (t, rest));
          tc = tc\<lparr>tc_labels := rest\<rparr>
      in if discard then tc
         else case rest of
                parent # outer \<Rightarrow> tc\<lparr>tc_labels := (parent \<union> labels) # outer\<rparr>
              | [] \<Rightarrow> tc\<lparr>tc_tags := tc_tags tc \<union> structural_coverage ` labels\<rparr>)"

definition stop_span :: "bool \<Rightarrow> 'r test_case \<Rightarrow> 'r test_case" where
  "stop_span discard tc =
     (case tc_span_stack tc of
        [] \<Rightarrow> tc
      | idx # stack \<Rightarrow>
          promote_labels discard
            (tc\<lparr>tc_span_stack := stack,
                tc_spans := span_update idx
                  (\<lambda>sp. sp\<lparr>span_end := length (tc_nodes tc), span_discarded := discard\<rparr>) (tc_spans tc),
                tc_has_discards := tc_has_discards tc \<or> discard\<rparr>))"

section \<open>Resolving a choice\<close>

definition verdict_error :: "status \<Rightarrow> engine_error" where
  "verdict_error status = (case status of Invalid \<Rightarrow> InvalidTestCase | _ \<Rightarrow> Overrun)"

definition pre_choice :: "('r, unit) draw" where
  "pre_choice tc =
     (case tc_status tc of
        Some status \<Rightarrow> (Inl (verdict_error status), tc)
      | None \<Rightarrow>
          if tc_max_size tc \<le> length (tc_nodes tc) then (Inl Overrun, conclude EarlyStop None tc)
          else case try_take_draw (tc_family tc) of
                 (taken, fam) \<Rightarrow>
                   let tc = tc\<lparr>tc_family := fam\<rparr>
                   in if taken then (Inr (), tc) else (Inl Overrun, conclude EarlyStop None tc))"

abbreviation internally :: "'a internal_result \<Rightarrow> ('r, 'a) draw" where
  "internally \<equiv> lift_result EngineInternal"

text \<open>A replayed value that does not fit: pun to the draw's simplest or unit value.\<close>

definition punned ::
  "(f64 \<Rightarrow> f64) \<Rightarrow> 'v internal_result \<Rightarrow> 'v internal_result \<Rightarrow> choice_value \<Rightarrow> choice_node option
   \<Rightarrow> 'v internal_result" where
  "punned libm_ceil simplest unit_value prefix_value prefix_node =
     rbind (case prefix_node of
              Some pn \<Rightarrow> rbind (data_simplest_value libm_ceil (node_data pn))
                           (\<lambda>s. Inr (value_eq prefix_value s))
            | None \<Rightarrow> Inr False) (\<lambda>is_simplest.
     if is_simplest then simplest else unit_value)"

definition prefix_node_at :: "'r test_case \<Rightarrow> nat \<Rightarrow> choice_node option" where
  "prefix_node_at tc idx =
     (case tc_prefix_nodes tc of
        Some pn \<Rightarrow> if idx < length pn then Some (pn ! idx) else None
      | None \<Rightarrow> None)"

definition from_template :: "choice_template \<Rightarrow> 'v internal_result \<Rightarrow> ('r, 'v) draw" where
  "from_template template simplest =
     (if ct_count template = Some 0
      then ebind (modify (conclude EarlyStop None)) (\<lambda>_. throw Overrun)
      else ebind (internally (case ct_kind template of TemplateSimplest \<Rightarrow> simplest)) (\<lambda>v.
           ebind (modify (\<lambda>tc. tc\<lparr>tc_template :=
                    Some (template\<lparr>ct_count := map_option (\<lambda>c. c - 1) (ct_count template)\<rparr>)\<rparr>)) (\<lambda>_.
           ret v)))"

definition from_rng :: "('r, 'v) sampler \<Rightarrow> ('r, 'v) draw" where
  "from_rng random tc =
     (case tc_rng tc of
        None \<Rightarrow> (Inl (EngineInternal (InternalError
                   ''resolve_choice: no RNG available for random generation'')), tc)
      | Some rng \<Rightarrow>
          case random rng of
            (r, rng) \<Rightarrow> internally r (tc\<lparr>tc_rng := Some rng\<rparr>))"

definition resolve_choice ::
  "(f64 \<Rightarrow> f64) \<Rightarrow> 'v internal_result \<Rightarrow> 'v internal_result \<Rightarrow> (choice_value \<Rightarrow> 'v option)
   \<Rightarrow> ('r, 'v) sampler \<Rightarrow> ('r, 'v \<times> bool) draw" where
  "resolve_choice libm_ceil simplest unit_value from_prefix random =
     ebind pre_choice (\<lambda>_. ebind get_state (\<lambda>tc.
     let idx = length (tc_nodes tc)
     in if idx < length (tc_prefix tc)
        then case from_prefix (tc_prefix tc ! idx) of
               Some v \<Rightarrow> ret (v, False)
             | None \<Rightarrow>
                 ebind (internally (punned libm_ceil simplest unit_value (tc_prefix tc ! idx)
                                      (prefix_node_at tc idx))) (\<lambda>v. ret (v, False))
        else case tc_template tc of
               Some template \<Rightarrow> ebind (from_template template simplest) (\<lambda>v. ret (v, False))
             | None \<Rightarrow> ebind (from_rng random) (\<lambda>v. ret (v, False))))"

definition push_node :: "choice_node \<Rightarrow> 'r test_case \<Rightarrow> 'r test_case" where
  "push_node node tc = tc\<lparr>tc_nodes := tc_nodes tc @ [node]\<rparr>"

text \<open>Recording a resolved choice: the node and the observer's callback.\<close>

definition record_choice :: "choice_node \<Rightarrow> observation \<Rightarrow> ('r, unit) draw" where
  "record_choice node ob = modify (\<lambda>tc. push_node node (notify ob tc))"

section \<open>Integer draws\<close>

text \<open>\<open>integer_in lo hi\<close> is the constraint of a range with target zero.\<close>

definition integer_in :: "int \<Rightarrow> int \<Rightarrow> integer_choice" where
  "integer_in lo hi = \<lparr>ic_min = lo, ic_max = hi, ic_shrink_towards = 0\<rparr>"

definition integer_from_prefix :: "(int \<Rightarrow> bool) \<Rightarrow> choice_value \<Rightarrow> int option" where
  "integer_from_prefix admits v =
     (case v of VInteger n \<Rightarrow> if admits n then Some n else None | _ \<Rightarrow> None)"

definition draw_integer_from ::
  "(f64 \<Rightarrow> f64) \<Rightarrow> integer_choice \<Rightarrow> ('r, int) sampler \<Rightarrow> ('r, int) draw" where
  "draw_integer_from libm_ceil kind sample =
     ebind (resolve_choice libm_ceil (Inr (integer_simplest kind)) (Inr (integer_unit kind))
              (integer_from_prefix (integer_validate kind)) sample) (\<lambda>r.
     ebind (record_choice (ChoiceNode (DInteger kind (fst r)) (snd r)) (ObsInteger (fst r) (snd r))) (\<lambda>_.
     ret (fst r)))"

text \<open>The requested width \<open>T\<close> is the predicate of the integers it holds.\<close>

definition draw_integer ::
  "(f64 \<Rightarrow> f64) \<Rightarrow> 'r sampling \<Rightarrow> (int \<Rightarrow> bool) \<Rightarrow> int \<Rightarrow> int \<Rightarrow> ('r, int) draw" where
  "draw_integer libm_ceil S fits min_value max_value =
     ebind (internally (hegel_internal_assert (min_value \<le> max_value) ''Invalid range'')) (\<lambda>_.
     ebind get_state (\<lambda>tc.
     ebind (draw_integer_from libm_ceil (integer_in min_value max_value)
              (biased_integer_sample S (integer_in min_value max_value)
                 (family_parameters (tc_family tc)))) (\<lambda>v.
     internally (hegel_internal_unwrap (if fits v then Some v else None)
       ''draw_integer: validated value does not fit the requested width''))))"

definition fits_u64 :: "int \<Rightarrow> bool" where
  "fits_u64 v \<longleftrightarrow> 0 \<le> v \<and> v < 2 ^ 64"

definition draw_integer_uniform ::
  "(f64 \<Rightarrow> f64) \<Rightarrow> 'r sampling \<Rightarrow> nat \<Rightarrow> nat \<Rightarrow> ('r, nat) draw" where
  "draw_integer_uniform libm_ceil S min_value max_value =
     ebind (internally (hegel_internal_assert (min_value \<le> max_value) ''Invalid range'')) (\<lambda>_.
     ebind (draw_integer_from libm_ceil (integer_in (int min_value) (int max_value))
              (\<lambda>rng. case random_range_u64 S min_value max_value rng of (v, rng) \<Rightarrow> (Inr (int v), rng))) (\<lambda>v.
     internally (hegel_internal_unwrap (if fits_u64 v then Some (nat v) else None)
       ''draw_integer_uniform: validated value does not fit u64'')))"

definition draw_integer_forced :: "int \<Rightarrow> int \<Rightarrow> int \<Rightarrow> ('r, unit) draw" where
  "draw_integer_forced min_value max_value forced =
     ebind (internally (hegel_internal_assert (min_value \<le> forced \<and> forced \<le> max_value)
              ''forced value outside'')) (\<lambda>_.
     ebind pre_choice (\<lambda>_.
     record_choice (ChoiceNode (DInteger (integer_in min_value max_value) forced) True)
       (ObsInteger forced True)))"

section \<open>Identifier draws\<close>

definition id_in_window :: "int \<Rightarrow> int \<Rightarrow> bool" where
  "id_in_window hi n = (case to_i64 n of Some i \<Rightarrow> 0 \<le> i \<and> i \<le> hi | None \<Rightarrow> False)"

text \<open>\<open>draw_fresh_id\<close> holds the lock of the registry throughout.\<close>

definition register_id :: "int \<Rightarrow> 'r test_case \<Rightarrow> 'r test_case" where
  "register_id i tc =
     tc\<lparr>tc_family := (tc_family tc)\<lparr>fc_fresh_ids := insert i (fc_fresh_ids (tc_family tc))\<rparr>\<rparr>"

definition draw_fresh_id :: "(f64 \<Rightarrow> f64) \<Rightarrow> ('r, int) draw" where
  "draw_fresh_id libm_ceil =
     ebind get_state (\<lambda>tc.
     let used = fc_fresh_ids (tc_family tc);
         window_hi = largest_id used + 2;
         fallback = smallest_unused_id used
     in ebind (resolve_choice libm_ceil (Inr fallback) (Inr fallback)
                 (integer_from_prefix (\<lambda>n. id_in_window window_hi n \<and> n \<notin> used))
                 (\<lambda>rng. (Inr fallback, rng))) (\<lambda>r.
        ebind (modify (notify (ObsInteger (fst r) (snd r)))) (\<lambda>_.
        ebind (internally (hegel_internal_unwrap (to_i64 (fst r))
                 ''draw_fresh_id: id does not fit i64'')) (\<lambda>i.
        ebind (modify (\<lambda>tc. register_id i
                 (push_node (ChoiceNode (DInteger (integer_in 0 window_hi) (fst r)) (snd r)) tc))) (\<lambda>_.
        ret i)))))"

text \<open>\<open>slice::binary_search\<close> on a sorted slice without duplicates.\<close>

definition slice_binary_search :: "int list \<Rightarrow> int \<Rightarrow> nat + nat" where
  "slice_binary_search xs x =
     (let i = length (takeWhile (\<lambda>y. y < x) xs)
      in if i < length xs \<and> xs ! i = x then Inr i else Inl i)"

definition repair_member :: "int list \<Rightarrow> int \<Rightarrow> int" where
  "repair_member ms raw =
     (case slice_binary_search ms raw of
        Inr idx \<Rightarrow> ms ! idx
      | Inl idx \<Rightarrow> if idx = 0 then ms ! 0 else ms ! (idx - 1))"

definition draw_from_set :: "(f64 \<Rightarrow> f64) \<Rightarrow> 'r sampling \<Rightarrow> int list \<Rightarrow> ('r, int) draw" where
  "draw_from_set libm_ceil S pool =
     ebind (internally (hegel_internal_assert (pool \<noteq> [])
              ''draw_from_set requires at least one member'')) (\<lambda>_.
     let ms = sorted_list_of_set (set pool) in
     ebind (internally (hegel_internal_assert (0 \<le> ms ! 0)
              ''draw_from_set requires nonnegative members'')) (\<lambda>_.
     ebind get_state (\<lambda>tc.
     let window_hi = largest_id (fc_fresh_ids (tc_family tc)) + 1 in
     ebind (internally (hegel_internal_assert (last ms \<le> window_hi)
              ''draw_from_set members must be identifiers from draw_fresh_id'')) (\<lambda>_.
     ebind (resolve_choice libm_ceil (Inr (ms ! 0)) (Inr (ms ! 0))
              (integer_from_prefix (id_in_window window_hi))
              (\<lambda>rng. case random_index S (length ms) rng of (i, rng) \<Rightarrow> (Inr (ms ! i), rng))) (\<lambda>r.
     ebind (internally (hegel_internal_unwrap (to_i64 (fst r))
              ''draw_from_set: value does not fit i64'')) (\<lambda>raw.
     let chosen = repair_member ms raw in
     ebind (record_choice (ChoiceNode (DInteger (integer_in 0 window_hi) chosen) (snd r))
              (ObsInteger chosen (snd r))) (\<lambda>_.
     ret chosen)))))))"

section \<open>The other draws\<close>

definition draw_float ::
  "(f64 \<Rightarrow> f64) \<Rightarrow> 'r sampling \<Rightarrow> float_choice \<Rightarrow> ('r, f64) draw" where
  "draw_float libm_ceil S kind =
     ebind (resolve_choice libm_ceil (float_simplest libm_ceil kind) (float_unit libm_ceil kind)
              (\<lambda>v. case v of VFloat f \<Rightarrow> if float_validate kind f then Some f else None | _ \<Rightarrow> None)
              (biased_float_sample S kind)) (\<lambda>r.
     ebind (record_choice (ChoiceNode (DFloat kind (fst r)) (snd r)) (ObsFloat (fst r) (snd r))) (\<lambda>_.
     ret (fst r)))"

definition draw_bytes ::
  "(f64 \<Rightarrow> f64) \<Rightarrow> 'r sampling \<Rightarrow> nat \<Rightarrow> nat \<Rightarrow> ('r, u8 list) draw" where
  "draw_bytes libm_ceil S min_size max_size =
     ebind (internally (hegel_internal_assert (min_size \<le> max_size)
              ''min_size must be <= max_size'')) (\<lambda>_.
     let kind = \<lparr>by_min_size = min_size, by_max_size = max_size\<rparr> in
     ebind (resolve_choice libm_ceil (Inr (bytes_simplest kind)) (Inr (bytes_unit kind))
              (\<lambda>v. case v of VBytes b \<Rightarrow> if bytes_validate kind b then Some b else None | _ \<Rightarrow> None)
              (biased_bytes_sample S kind)) (\<lambda>r.
     ebind (record_choice (ChoiceNode (DBytes kind (fst r)) (snd r)) (ObsBytes (fst r) (snd r))) (\<lambda>_.
     ret (fst r))))"

text \<open>\<open>char::from_u32\<close> rejects the surrogates and what lies past the last codepoint.\<close>

definition is_char :: "codepoint \<Rightarrow> bool" where
  "is_char cp \<longleftrightarrow> cp < 0xD800 \<or> (0xE000 \<le> cp \<and> cp < 0x110000)"

definition codepoints_to_string :: "codepoint list \<Rightarrow> codepoint list" where
  "codepoints_to_string cps = filter is_char cps"

definition draw_string ::
  "(f64 \<Rightarrow> f64) \<Rightarrow> 'r sampling \<Rightarrow> interval_set \<Rightarrow> nat \<Rightarrow> nat \<Rightarrow> ('r, codepoint list) draw" where
  "draw_string libm_ceil S ivs min_size max_size =
     ebind (internally (hegel_internal_assert (min_size \<le> max_size) ''min_size <= max_size'')) (\<lambda>_.
     ebind (internally (hegel_internal_assert (iv_size ivs \<noteq> 0 \<or> max_size = 0)
              ''draw_string with empty alphabet must have max_size == 0'')) (\<lambda>_.
     let kind = \<lparr>sc_intervals = ivs, sc_min_size = min_size, sc_max_size = max_size\<rparr> in
     ebind (resolve_choice libm_ceil (string_simplest kind) (string_unit kind)
              (\<lambda>v. case v of VString s \<Rightarrow> if string_validate kind s then Some s else None | _ \<Rightarrow> None)
              (biased_string_sample S kind)) (\<lambda>r.
     ebind (record_choice (ChoiceNode (DString kind (fst r)) (snd r))
              (ObsString (codepoints_to_string (fst r)) (snd r))) (\<lambda>_.
     ret (codepoints_to_string (fst r))))))"

definition weighted_with ::
  "(f64 \<Rightarrow> f64) \<Rightarrow> f64 \<Rightarrow> bool option \<Rightarrow> (f64 \<Rightarrow> 'r \<Rightarrow> bool \<times> 'r) \<Rightarrow> ('r, bool) draw" where
  "weighted_with libm_ceil p forced sample =
     (let kind = \<lparr>bc_p = p\<rparr>;
          forced_value = (case forced of
                            Some b \<Rightarrow> Some b
                          | None \<Rightarrow> if f64_le p f64_zero then Some False
                                    else if f64_le f64_one p then Some True else None)
      in ebind (case forced_value of
                  Some b \<Rightarrow> ebind pre_choice (\<lambda>_. ret (b, True))
                | None \<Rightarrow>
                    resolve_choice libm_ceil (Inr (boolean_simplest kind)) (Inr (boolean_unit kind))
                      (\<lambda>v. case v of VBoolean b \<Rightarrow> Some b | _ \<Rightarrow> None)
                      (\<lambda>rng. case sample p rng of (b, rng) \<Rightarrow> (Inr b, rng))) (\<lambda>r.
         ebind (record_choice (ChoiceNode (DBoolean kind (fst r)) (snd r)) (ObsBoolean (fst r) (snd r))) (\<lambda>_.
         ret (fst r))))"

definition weighted ::
  "(f64 \<Rightarrow> f64) \<Rightarrow> 'r sampling \<Rightarrow> f64 \<Rightarrow> bool option \<Rightarrow> ('r, bool) draw" where
  "weighted libm_ceil S p forced = weighted_with libm_ceil p forced (weighted_boolean_sample S)"

definition weighted_precise ::
  "(f64 \<Rightarrow> f64) \<Rightarrow> 'r sampling \<Rightarrow> f64 \<Rightarrow> bool option \<Rightarrow> ('r, bool) draw" where
  "weighted_precise libm_ceil S p forced =
     weighted_with libm_ceil p forced (weighted_boolean_sample_precise S)"

end
