(* ===== verification/Streams.thy ===== *)
theory Streams
  imports TestCase Procs
begin

text \<open>
  The streams of one test case family. A handle \<open>Arc<Mutex<NativeTestCase>>\<close> is the stream's
  clone id, which is unique within the family; the store maps handles to streams and holds the
  one \<open>FamilyCore\<close> they share. An operation locks one stream, so threads that drive several
  streams produce some sequence of such operations. The body of a test reaches a stream through
  the requests listed here.
\<close>

section \<open>Requests\<close>

datatype request =
    DrawInteger "int \<Rightarrow> bool" int int
  | DrawUniform nat nat
  | DrawForced int int int
  | DrawFreshId
  | DrawFromSet "int list"
  | DrawFloat float_choice
  | DrawBytes nat nat
  | DrawString interval_set nat nat
  | Weighted f64 "bool option"
  | WeightedPrecise f64 "bool option"
  | StartSpan u64
  | StopSpan bool
  | Conclude status "origin option"
  | Freeze

datatype response =
    GotInteger int
  | GotFloat f64
  | GotBytes "u8 list"
  | GotString "codepoint list"
  | GotBoolean bool
  | GotIndex nat
  | GotUnit

definition emap :: "('a \<Rightarrow> 'b) \<Rightarrow> ('s, 'e, 'a) effect \<Rightarrow> ('s, 'e, 'b) effect" where
  "emap f m = ebind m (\<lambda>x. ret (f x))"

fun perform :: "(f64 \<Rightarrow> f64) \<Rightarrow> 'r sampling \<Rightarrow> request \<Rightarrow> ('r, response) draw" where
  "perform lc S (DrawInteger fits lo hi) = emap GotInteger (draw_integer lc S fits lo hi)"
| "perform lc S (DrawUniform lo hi) = emap (\<lambda>n. GotInteger (int n)) (draw_integer_uniform lc S lo hi)"
| "perform lc S (DrawForced lo hi v) = emap (\<lambda>_. GotUnit) (draw_integer_forced lo hi v)"
| "perform lc S DrawFreshId = emap GotInteger (draw_fresh_id lc)"
| "perform lc S (DrawFromSet pool) = emap GotInteger (draw_from_set lc S pool)"
| "perform lc S (DrawFloat k) = emap GotFloat (draw_float lc S k)"
| "perform lc S (DrawBytes lo hi) = emap GotBytes (draw_bytes lc S lo hi)"
| "perform lc S (DrawString ivs lo hi) = emap GotString (draw_string lc S ivs lo hi)"
| "perform lc S (Weighted p forced) = emap GotBoolean (weighted lc S p forced)"
| "perform lc S (WeightedPrecise p forced) = emap GotBoolean (weighted_precise lc S p forced)"
| "perform lc S (StartSpan label) = (\<lambda>tc. case start_span label tc of (i, t) \<Rightarrow> (Inr (GotIndex i), t))"
| "perform lc S (StopSpan discard) = (\<lambda>tc. (Inr GotUnit, stop_span discard tc))"
| "perform lc S (Conclude status origin) = (\<lambda>tc. (Inr GotUnit, conclude status origin tc))"
| "perform lc S Freeze = (\<lambda>tc. (Inr GotUnit, freeze tc))"

fun is_draw :: "request \<Rightarrow> bool" where
  "is_draw (StartSpan _) = False"
| "is_draw (StopSpan _) = False"
| "is_draw (Conclude _ _) = False"
| "is_draw Freeze = False"
| "is_draw _ = True"

section \<open>The store\<close>

type_synonym handle = "nat list"

record 'r store =
  st_family :: family
  st_streams :: "handle \<rightharpoonup> 'r test_case"

text \<open>A stream's own copy of the family is refreshed whenever the stream is locked.\<close>

definition locked :: "'r store \<Rightarrow> 'r test_case \<Rightarrow> 'r test_case" where
  "locked st tc = tc\<lparr>tc_family := st_family st\<rparr>"

definition unlock :: "handle \<Rightarrow> 'r test_case \<Rightarrow> 'r store \<Rightarrow> 'r store" where
  "unlock h tc st = st\<lparr>st_family := tc_family tc, st_streams := (st_streams st)(h \<mapsto> tc)\<rparr>"

definition on_stream :: "handle \<Rightarrow> ('r, 'a) draw \<Rightarrow> 'r store \<Rightarrow> ((engine_error + 'a) \<times> 'r store) option" where
  "on_stream h m st =
     (case st_streams st h of
        None \<Rightarrow> None
      | Some tc \<Rightarrow> case m (locked st tc) of (r, tc) \<Rightarrow> Some (r, unlock h tc st))"

definition store_of :: "'r test_case \<Rightarrow> 'r store" where
  "store_of root = \<lparr>st_family = tc_family root, st_streams = [tc_clone_id root \<mapsto> root]\<rparr>"

section \<open>Cloning\<close>

definition child_prefix :: "'r test_case \<Rightarrow> choice_value list \<times> choice_node list option" where
  "child_prefix tc =
     (let idx = length (tc_nodes tc)
      in if idx < length (tc_prefix tc)
         then (case tc_prefix tc ! idx of
                 VClone record \<Rightarrow> (cr_owned_values record, cr_realized_nodes record)
               | _ \<Rightarrow> ([], None))
         else ([], None))"

text \<open>\<open>clone_stream\<close> up to the allocation of the child's handle; it returns the child.\<close>

definition clone_child :: "'r sampling \<Rightarrow> ('r, 'r test_case) draw" where
  "clone_child S =
     ebind pre_choice (\<lambda>_. ebind get_state (\<lambda>tc.
     if MAX_CLONE_DEPTH < length (tc_clone_id tc) + 1
     then ebind (modify (\<lambda>tc. freeze (conclude Invalid None tc))) (\<lambda>_. throw InvalidTestCase)
     else
       let idx = length (tc_nodes tc);
           (pre, pre_nodes) = child_prefix tc;
           spawned = map_option (rng_spawn S) (tc_rng tc);
           child_rng = map_option fst spawned;
           child_template = map_option (\<lambda>t. \<lparr>ct_kind = ct_kind t, ct_count = None\<rparr>) (tc_template tc);
           child_max_size = (if child_rng \<noteq> None \<or> child_template \<noteq> None then USIZE_MAX else length pre);
           child_id = tc_clone_id tc @ [tc_clone_counter tc]
       in ebind (modify (\<lambda>tc. tc\<lparr>tc_rng := map_option snd spawned,
                   tc_clone_counter := tc_clone_counter tc + 1,
                   tc_nodes := tc_nodes tc @ [ChoiceNode (DClone realized_stream_empty) False],
                   tc_clone_children := tc_clone_children tc @ [(idx, child_id)]\<rparr>)) (\<lambda>_.
          ret (new_stream pre pre_nodes child_rng child_template child_max_size None
                 (tc_nondeterministic tc) (tc_family tc) child_id))))"

definition clone_stream ::
  "'r sampling \<Rightarrow> handle \<Rightarrow> 'r store \<Rightarrow> ((engine_error + handle) \<times> 'r store) option" where
  "clone_stream S h st =
     (case on_stream h (clone_child S) st of
        None \<Rightarrow> None
      | Some (Inl e, st) \<Rightarrow> Some (Inl e, st)
      | Some (Inr child, st) \<Rightarrow>
          Some (Inr (tc_clone_id child),
                st\<lparr>st_streams := (st_streams st)(tc_clone_id child \<mapsto> child)\<rparr>))"

section \<open>Reassembly\<close>

text \<open>
  The children of a stream are taken one by one: each is frozen and reassembled, and its record
  replaces the placeholder of its clone node. The recursion follows the tree of clones; the
  fuel bounds its depth, and the index into the nodes panics out of range.
\<close>

definition take_child :: "handle \<Rightarrow> nat \<times> handle \<Rightarrow> ('r store, internal_error, unit) proc" where
  "take_child h entry st =
     (case (st_streams st h, st_streams st (snd entry)) of
        (Some tc, Some child) \<Rightarrow>
          let stream = realized_stream_new (tc_nodes child) (tc_spans child)
          in if fst entry < length (tc_nodes tc)
             then Some (Inr (), unlock h (locked st tc\<lparr>tc_nodes := (tc_nodes tc)
                    [fst entry := ChoiceNode (DClone stream) (was_forced (tc_nodes tc ! fst entry))]\<rparr>) st)
             else Some (Inl (Panicked ''index out of bounds''), st)
      | _ \<Rightarrow> None)"

definition freeze_stream :: "handle \<Rightarrow> ('r store, internal_error, unit) proc" where
  "freeze_stream h st =
     map_option (\<lambda>tc. (Inr (), unlock h (freeze (locked st tc)) st)) (st_streams st h)"

definition take_children :: "handle \<Rightarrow> ('r store, internal_error, (nat \<times> handle) list) proc" where
  "take_children h st =
     map_option (\<lambda>tc. (Inr (tc_clone_children tc),
                       unlock h (locked st tc\<lparr>tc_clone_children := []\<rparr>) st)) (st_streams st h)"

fun reassemble :: "nat \<Rightarrow> handle \<Rightarrow> ('r store, internal_error, unit) proc" where
  "reassemble 0 h = (\<lambda>_. None)"
| "reassemble (Suc fuel) h =
     pbind (pcall get_state) (\<lambda>st.
     if family_status (st_family st) = None then pret ()
     else pbind (take_children h) (\<lambda>children.
          pfor children (\<lambda>entry.
            pbind (freeze_stream (snd entry)) (\<lambda>_.
            pbind (reassemble fuel (snd entry)) (\<lambda>_.
            take_child h entry)))))"

end
