(* ===== verification/TestCaseFacts.thy ===== *)
theory TestCaseFacts
  imports TestCase ChoiceFacts
begin

text \<open>
  What the draws of one stream do: the shape of every draw's outcome, from which the
  properties of the stream follow.
\<close>

section \<open>The conclusion of a family\<close>

text \<open>The status byte mirrors the conclusion.\<close>

definition mirrored :: "family \<Rightarrow> bool" where
  "mirrored fam \<longleftrightarrow> family_status fam = map_option fst (fc_conclusion fam)"

lemma mirrored_new [simp]: "mirrored (family_new budget)"
  by (simp add: mirrored_def family_status_def family_new_def)

lemma status_of_code:
  "family_status (fam\<lparr>fc_conclusion := c, fc_concluded_status := of_nat (status_code s)\<rparr>) = Some s"
  by (cases s) (simp_all add: family_status_def STATUS_UNSET_def)

lemma mirrored_conclude: "mirrored fam \<Longrightarrow> mirrored (family_conclude s orig fam)"
  by (auto simp: mirrored_def family_conclude_def status_of_code)

lemma status_conclude:
  "mirrored fam \<Longrightarrow> family_status (family_conclude s orig fam) = Some (case family_status fam of None \<Rightarrow> s | Some s' \<Rightarrow> s')"
  by (cases "fc_conclusion fam") (auto simp: mirrored_def family_conclude_def status_of_code)

lemma concluded_status: "mirrored fam \<Longrightarrow> family_status (family_conclude s orig fam) \<noteq> None"
  by (simp add: status_conclude)

lemma status_frame [simp]:
  "family_status (fam\<lparr>fc_total_draws := n\<rparr>) = family_status fam"
  "family_status (fam\<lparr>fc_fresh_ids := ids\<rparr>) = family_status fam"
  "family_status (fam\<lparr>fc_budget := b\<rparr>) = family_status fam"
  "family_status (fam\<lparr>fc_generation_parameters := g\<rparr>) = family_status fam"
  by (simp_all add: family_status_def)

lemma mirrored_frame [simp]:
  "mirrored (fam\<lparr>fc_total_draws := n\<rparr>) = mirrored fam"
  "mirrored (fam\<lparr>fc_fresh_ids := ids\<rparr>) = mirrored fam"
  by (simp_all add: mirrored_def)

section \<open>Quiet steps\<close>

text \<open>
  A step that records no choice: it may advance the random source, the template and the draw
  count, and it may conclude a running family as out of data.
\<close>

definition family_quiet :: "family \<Rightarrow> family \<Rightarrow> bool" where
  "family_quiet f g \<longleftrightarrow>
     (\<exists>n. fc_total_draws f \<le> n
        \<and> (g = f\<lparr>fc_total_draws := n\<rparr> \<or> g = family_conclude EarlyStop None (f\<lparr>fc_total_draws := n\<rparr>)))"

definition quiet :: "'r test_case \<Rightarrow> 'r test_case \<Rightarrow> bool" where
  "quiet tc t \<longleftrightarrow>
     (\<exists>rng template fam. family_quiet (tc_family tc) fam
        \<and> t = tc\<lparr>tc_rng := rng, tc_template := template, tc_family := fam\<rparr>)"

lemma family_quietI:
  "family_quiet f f"
  "family_quiet f (f\<lparr>fc_total_draws := fc_total_draws f + 1\<rparr>)"
  "family_quiet f (family_conclude EarlyStop None f)"
  "family_quiet f (family_conclude EarlyStop None (f\<lparr>fc_total_draws := fc_total_draws f + 1\<rparr>))"
  unfolding family_quiet_def
  by (rule exI [of _ "fc_total_draws f"], simp)
     (rule exI [of _ "fc_total_draws f + 1"], simp,
      rule exI [of _ "fc_total_draws f"], simp,
      rule exI [of _ "fc_total_draws f + 1"], simp)

lemma family_quiet_fields:
  assumes "family_quiet f g"
  shows "fc_budget g = fc_budget f" "fc_fresh_ids g = fc_fresh_ids f"
    "fc_total_draws f \<le> fc_total_draws g"
    "fc_generation_parameters g = fc_generation_parameters f"
    "fc_conclusion f \<noteq> None \<Longrightarrow> fc_conclusion g = fc_conclusion f"
    "mirrored f \<Longrightarrow> mirrored g"
proof -
  obtain n where n: "fc_total_draws f \<le> n"
    and g: "g = f\<lparr>fc_total_draws := n\<rparr> \<or> g = family_conclude EarlyStop None (f\<lparr>fc_total_draws := n\<rparr>)"
    using assms by (auto simp: family_quiet_def)
  show "fc_budget g = fc_budget f" "fc_fresh_ids g = fc_fresh_ids f"
    "fc_total_draws f \<le> fc_total_draws g"
    "fc_generation_parameters g = fc_generation_parameters f"
    using n g by (elim disjE; simp add: family_conclude_def)+
  show "fc_conclusion f \<noteq> None \<Longrightarrow> fc_conclusion g = fc_conclusion f"
    using g by (elim disjE; simp add: family_conclude_def)
  assume "mirrored f"
  then have "mirrored (f\<lparr>fc_total_draws := n\<rparr>)" by simp
  then show "mirrored g" using g mirrored_conclude by blast
qed

lemma quiet_family: "family_quiet (tc_family tc) fam \<Longrightarrow> quiet tc (tc\<lparr>tc_family := fam\<rparr>)"
  unfolding quiet_def
  by (intro exI [of _ "tc_rng tc"] exI [of _ "tc_template tc"] exI [of _ fam]) simp

lemma quiet_refl: "quiet tc tc"
proof -
  have "tc = tc\<lparr>tc_rng := tc_rng tc, tc_template := tc_template tc, tc_family := tc_family tc\<rparr>"
    by (cases tc) simp
  then show ?thesis using family_quietI(1) unfolding quiet_def by blast
qed

lemma quiet_fields:
  assumes "quiet tc t"
  shows "tc_prefix t = tc_prefix tc" "tc_prefix_nodes t = tc_prefix_nodes tc"
    "tc_max_size t = tc_max_size tc" "tc_nodes t = tc_nodes tc" "tc_frozen t = tc_frozen tc"
    "tc_clone_id t = tc_clone_id tc" "tc_clone_counter t = tc_clone_counter tc"
    "tc_clone_children t = tc_clone_children tc" "tc_spans t = tc_spans tc"
    "tc_span_stack t = tc_span_stack tc" "tc_tags t = tc_tags tc" "tc_labels t = tc_labels tc"
    "tc_has_discards t = tc_has_discards tc" "tc_nondeterministic t = tc_nondeterministic tc"
    "family_quiet (tc_family tc) (tc_family t)"
  using assms by (auto simp: quiet_def)

section \<open>Pre-choice and resolution\<close>

lemma pre_choice_cases:
  assumes "pre_choice tc = (r, t)"
  obtains (failed) e where "r = Inl e" "quiet tc t" "e = Overrun \<or> e = InvalidTestCase"
    "mirrored (tc_family tc) \<Longrightarrow> tc_status t \<noteq> None"
  | (room) "r = Inr ()" "tc_status tc = None" "length (tc_nodes tc) < tc_max_size tc"
      "fc_total_draws (tc_family tc) < fc_budget (tc_family tc)"
      "t = tc\<lparr>tc_family := (tc_family tc)\<lparr>fc_total_draws := fc_total_draws (tc_family tc) + 1\<rparr>\<rparr>"
proof (cases "tc_status tc")
  case (Some s)
  then have "r = Inl (verdict_error s)" "t = tc" using assms by (simp_all add: pre_choice_def)
  then show ?thesis
    by (intro failed [of "verdict_error s"])
       (auto simp: quiet_refl Some verdict_error_def split: status.split)
next
  case None
  show ?thesis
  proof (cases "length (tc_nodes tc) < tc_max_size tc \<and> fc_total_draws (tc_family tc) < fc_budget (tc_family tc)")
    case True
    then show ?thesis using assms None
      by (intro room) (simp_all add: pre_choice_def try_take_draw_def Let_def)
  next
    case False
    have t: "t = conclude EarlyStop None tc
      \<or> t = conclude EarlyStop None (tc\<lparr>tc_family := (tc_family tc)\<lparr>fc_total_draws := fc_total_draws (tc_family tc) + 1\<rparr>\<rparr>)"
      and r: "r = Inl Overrun"
      using assms None False
      by (auto simp: pre_choice_def try_take_draw_def Let_def split: if_splits)
    show ?thesis
    proof (rule failed [OF r])
      show "quiet tc t"
        using t quiet_family [OF family_quietI(3)] quiet_family [OF family_quietI(4)]
        by (auto simp: conclude_def)
      show "mirrored (tc_family tc) \<Longrightarrow> tc_status t \<noteq> None"
        using t by (auto simp: tc_status_def conclude_def status_conclude)
    qed simp
  qed
qed

text \<open>Where a resolved value comes from.\<close>

definition resolves_to ::
  "'v internal_result \<Rightarrow> 'v internal_result \<Rightarrow> (choice_value \<Rightarrow> 'v option) \<Rightarrow> ('r, 'v) sampler
   \<Rightarrow> 'v \<Rightarrow> bool" where
  "resolves_to simplest unit_value from_prefix random v \<longleftrightarrow>
     (\<exists>pv. from_prefix pv = Some v) \<or> simplest = Inr v \<or> unit_value = Inr v
     \<or> (\<exists>rng rng'. random rng = (Inr v, rng'))"

text \<open>A draw has room when its family runs and its stream and budget are not full.\<close>

definition has_room :: "'r test_case \<Rightarrow> bool" where
  "has_room tc \<longleftrightarrow> tc_status tc = None \<and> length (tc_nodes tc) < tc_max_size tc
     \<and> fc_total_draws (tc_family tc) < fc_budget (tc_family tc)"

definition advances :: "'r test_case \<Rightarrow> 'r test_case \<Rightarrow> bool" where
  "advances tc t \<longleftrightarrow>
     (\<exists>rng template. t = tc\<lparr>tc_rng := rng, tc_template := template,
        tc_family := (tc_family tc)\<lparr>fc_total_draws := fc_total_draws (tc_family tc) + 1\<rparr>\<rparr>)"

lemma punned_Inr: "punned lc simplest unit_value pv pn = Inr v \<Longrightarrow> simplest = Inr v \<or> unit_value = Inr v"
  by (auto simp: punned_def split: if_splits)

lemma internally_cases:
  assumes "internally m tc = (r, t)"
  obtains e where "m = Inl e" "r = Inl (EngineInternal e)" "t = tc"
  | x where "m = Inr x" "r = Inr x" "t = tc"
  using assms by (cases m) auto

text \<open>The two outcomes of a resolution.\<close>

lemma resolve_choice_cases:
  assumes "resolve_choice lc simplest unit_value from_prefix random tc = (r, t)"
  obtains (failed) e where "r = Inl e" "quiet tc t"
  | (resolved) v where "r = Inr (v, False)" "has_room tc" "advances tc t"
      "resolves_to simplest unit_value from_prefix random v"
proof -
  obtain r1 t1 where pre: "pre_choice tc = (r1, t1)" by fastforce
  show ?thesis
  proof (cases rule: pre_choice_cases [OF pre])
    case (1 e)
    then show ?thesis using assms pre by (intro failed [of e]) (simp_all add: resolve_choice_def)
  next
    case 2
    have room: "has_room tc" using 2 by (simp add: has_room_def)
    have adv: "advances tc (t1\<lparr>tc_rng := rng, tc_template := tpl\<rparr>)" for rng tpl
      using 2(5) unfolding advances_def by (intro exI [of _ rng] exI [of _ tpl]) simp
    have adv1: "advances tc t1" using adv [where rng = "tc_rng t1" and tpl = "tc_template t1"] by simp
    have quiet_of: "quiet tc u" if "advances tc u" for u
      using that family_quietI(2) unfolding advances_def quiet_def by blast
    have quiet_conclude: "quiet tc (conclude EarlyStop None t1)"
      using quiet_family [OF family_quietI(4)] by (simp add: 2(5) conclude_def)
    let ?pv = "tc_prefix tc ! length (tc_nodes tc)"
    let ?pun = "punned lc simplest unit_value ?pv (prefix_node_at t1 (length (tc_nodes tc)))"
    have fields: "tc_nodes t1 = tc_nodes tc" "tc_prefix t1 = tc_prefix tc" using 2(5) by simp_all
    note go = assms [unfolded resolve_choice_def, simplified, unfolded ebind_def pre 2(1), simplified, unfolded Let_def fields]
    consider (fits) v where "length (tc_nodes tc) < length (tc_prefix tc)" "from_prefix ?pv = Some v"
      | (pun) "length (tc_nodes tc) < length (tc_prefix tc)" "from_prefix ?pv = None"
      | (template) template where "\<not> length (tc_nodes tc) < length (tc_prefix tc)" "tc_template t1 = Some template"
      | (random) "\<not> length (tc_nodes tc) < length (tc_prefix tc)" "tc_template t1 = None"
      by (cases "length (tc_nodes tc) < length (tc_prefix tc)"; cases "from_prefix ?pv"; cases "tc_template t1") auto
    then show ?thesis
    proof cases
      case fits
      then have "r = Inr (v, False)" "t = t1" using go by simp_all
      then show ?thesis using fits room adv1 by (intro resolved [of v]) (auto simp: resolves_to_def)
    next
      case pun
      show ?thesis
      proof (cases ?pun)
        case (Inl e)
        then have "r = Inl (EngineInternal e)" "t = t1" using go pun by (simp_all add: ebind_def)
        then show ?thesis using quiet_of [OF adv1] by (intro failed) simp_all
      next
        case (Inr v)
        then have "r = Inr (v, False)" "t = t1" using go pun by (simp_all add: ebind_def)
        then show ?thesis using punned_Inr [OF Inr] room adv1
          by (intro resolved [of v]) (auto simp: resolves_to_def)
      qed
    next
      case template
      show ?thesis
      proof (cases "ct_count template = Some 0")
        case True
        then have "r = Inl Overrun" "t = conclude EarlyStop None t1"
          using go template by (simp_all add: ebind_def from_template_def)
        then show ?thesis using quiet_conclude by (intro failed) simp_all
      next
        case False
        show ?thesis
        proof (cases simplest)
          case (Inl e)
          then have "r = Inl (EngineInternal e)" "t = t1"
            using go template False by (simp_all add: ebind_def from_template_def split: choice_template_kind.splits)
          then show ?thesis using quiet_of [OF adv1] by (intro failed) simp_all
        next
          case (Inr v)
          then obtain tpl where "r = Inr (v, False)" "t = t1\<lparr>tc_template := tpl\<rparr>"
            using go template False by (auto simp: ebind_def from_template_def split: choice_template_kind.splits)
          then show ?thesis using Inr room adv [where rng = "tc_rng t1" and tpl = tpl]
            by (intro resolved [of v]) (simp_all add: resolves_to_def)
        qed
      qed
    next
      case random
      show ?thesis
      proof (cases "tc_rng t1")
        case None
        then have "r = Inl (EngineInternal (InternalError ''resolve_choice: no RNG available for random generation''))" "t = t1"
          using go random by (simp_all add: ebind_def from_rng_def)
        then show ?thesis using quiet_of [OF adv1] by (intro failed) simp_all
      next
        case (Some rng)
        obtain m rng' where m: "random rng = (m, rng')" by fastforce
        show ?thesis
        proof (cases m)
          case (Inl e)
          then have "r = Inl (EngineInternal e)" "t = t1\<lparr>tc_rng := Some rng'\<rparr>"
            using go random Some m by (simp_all add: ebind_def from_rng_def)
          then show ?thesis using quiet_of [OF adv [where rng = "Some rng'" and tpl = "tc_template t1"]]
            by (intro failed) simp_all
        next
          case (Inr v)
          then have "r = Inr (v, False)" "t = t1\<lparr>tc_rng := Some rng'\<rparr>"
            using go random Some m by (simp_all add: ebind_def from_rng_def)
          then show ?thesis using Inr m room adv [where rng = "Some rng'" and tpl = "tc_template t1"]
            by (intro resolved [of v]) (auto simp: resolves_to_def)
        qed
      qed
    qed
  qed
qed

section \<open>Recorded choices\<close>

text \<open>
  The outcome of a draw: an error that records nothing, or one recorded choice, which may
  register a fresh identifier. \<open>D\<close> relates the draw's result to the recorded data.
\<close>

definition ids_step :: "int set \<Rightarrow> choice_data \<Rightarrow> int set \<Rightarrow> bool" where
  "ids_step used d ids \<longleftrightarrow> ids = used \<or>
     (\<exists>v. d = DInteger (integer_in 0 (largest_id used + 2)) v \<and> v \<notin> used \<and> 0 \<le> v
        \<and> v \<le> largest_id used + 2 \<and> ids = insert v used)"

definition recorded :: "'r test_case \<Rightarrow> choice_data \<Rightarrow> 'r test_case \<Rightarrow> bool" where
  "recorded tc d t \<longleftrightarrow> has_room tc \<and>
     (\<exists>u f ob ids. advances tc u \<and> ids_step (fc_fresh_ids (tc_family tc)) d ids
        \<and> t = push_node (ChoiceNode d f)
                (notify ob (u\<lparr>tc_family := (tc_family u)\<lparr>fc_fresh_ids := ids\<rparr>\<rparr>)))"

definition records :: "(engine_error + 'a \<Rightarrow> choice_data \<Rightarrow> bool) \<Rightarrow> ('r, 'a) draw \<Rightarrow> bool" where
  "records D m \<longleftrightarrow>
     (\<forall>tc r t. m tc = (r, t) \<longrightarrow>
        (\<exists>e. r = Inl e) \<and> quiet tc t \<or> (\<exists>d. recorded tc d t \<and> D r d))"

lemma recordsI:
  "(\<And>tc r t. m tc = (r, t) \<Longrightarrow>
      (\<exists>e. r = Inl e) \<and> quiet tc t \<or> (\<exists>d. recorded tc d t \<and> D r d)) \<Longrightarrow> records D m"
  by (simp add: records_def)

lemma recordsE:
  assumes "records D m" "m tc = (r, t)"
  obtains e where "r = Inl e" "quiet tc t" | d where "recorded tc d t" "D r d"
  using assms unfolding records_def by blast

named_theorems records_intros \<open>what the draws record\<close>

lemma records_weaken: "records D m \<Longrightarrow> (\<And>r d. D r d \<Longrightarrow> D' r d) \<Longrightarrow> records D' m"
  unfolding records_def by blast

lemma records_assert [records_intros]:
  assumes "b \<Longrightarrow> records D m"
  shows "records D (ebind (internally (hegel_internal_assert b msg)) (\<lambda>_. m))"
proof (cases b)
  case True
  then show ?thesis using assms by (simp add: records_def ebind_def)
next
  case False
  then show ?thesis by (auto simp: records_def ebind_def quiet_refl)
qed

lemma records_state [records_intros]:
  "(\<And>tc. records D (f tc)) \<Longrightarrow> records D (ebind get_state f)"
  by (simp add: records_def ebind_def)

lemma recorded_push:
  assumes "has_room tc" "advances tc u"
  shows "recorded tc d (push_node (ChoiceNode d f) (notify ob u))"
proof -
  have "fc_fresh_ids (tc_family u) = fc_fresh_ids (tc_family tc)"
    using assms(2) by (auto simp: advances_def)
  moreover have "u = u\<lparr>tc_family := (tc_family u)\<lparr>fc_fresh_ids := fc_fresh_ids (tc_family u)\<rparr>\<rparr>"
    by (cases u) simp
  moreover have "ids_step used d used" for used by (simp add: ids_step_def)
  ultimately show ?thesis using assms unfolding recorded_def by metis
qed

lemma advances_quiet: "advances tc u \<Longrightarrow> quiet tc u"
  using family_quietI(2) unfolding advances_def quiet_def by blast

text \<open>Resolve, record, and then compute the result.\<close>

lemma records_resolve:
  assumes pure: "\<And>v tc. k v tc = (res v, tc)"
    and D: "\<And>v. resolves_to simplest unit_value from_prefix random v \<Longrightarrow> D (res v) (node v)"
  shows "records D
    (ebind (resolve_choice lc simplest unit_value from_prefix random) (\<lambda>r.
     ebind (record_choice (ChoiceNode (node (fst r)) (snd r)) (ob r)) (\<lambda>_. k (fst r))))"
proof (rule recordsI)
  fix tc r t
  assume m: "ebind (resolve_choice lc simplest unit_value from_prefix random) (\<lambda>r.
     ebind (record_choice (ChoiceNode (node (fst r)) (snd r)) (ob r)) (\<lambda>_. k (fst r))) tc = (r, t)"
  obtain r1 t1 where res: "resolve_choice lc simplest unit_value from_prefix random tc = (r1, t1)"
    by fastforce
  show "(\<exists>e. r = Inl e) \<and> quiet tc t \<or> (\<exists>d. recorded tc d t \<and> D r d)"
  proof (cases rule: resolve_choice_cases [OF res])
    case (1 e)
    then show ?thesis using m res by (auto simp: ebind_def)
  next
    case (2 v)
    then have "r = res v"
      "t = push_node (ChoiceNode (node v) False) (notify (ob (v, False)) t1)"
      using m res pure by (simp_all add: ebind_def record_choice_def)
    then show ?thesis using recorded_push [OF 2(2,3)] D [OF 2(4)] by blast
  qed
qed

lemma records_resolve_ret:
  assumes "\<And>v. resolves_to simplest unit_value from_prefix random v \<Longrightarrow> D (Inr (res v)) (node v)"
  shows "records D
    (ebind (resolve_choice lc simplest unit_value from_prefix random) (\<lambda>r.
     ebind (record_choice (ChoiceNode (node (fst r)) (snd r)) (ob r)) (\<lambda>_. ret (res (fst r)))))"
  by (rule records_resolve [where res = "\<lambda>v. Inr (res v)"]) (simp_all add: assms)

text \<open>A forced choice is recorded without being resolved.\<close>

lemma records_forced:
  assumes "D (Inr x) d"
  shows "records D (ebind pre_choice (\<lambda>_. ebind (record_choice (ChoiceNode d True) ob) (\<lambda>_. ret x)))"
proof (rule recordsI)
  fix tc r t
  assume m: "ebind pre_choice (\<lambda>_. ebind (record_choice (ChoiceNode d True) ob) (\<lambda>_. ret x)) tc = (r, t)"
  obtain r1 t1 where pre: "pre_choice tc = (r1, t1)" by fastforce
  show "(\<exists>e. r = Inl e) \<and> quiet tc t \<or> (\<exists>d. recorded tc d t \<and> D r d)"
  proof (cases rule: pre_choice_cases [OF pre])
    case (1 e)
    then show ?thesis using m pre by (auto simp: ebind_def)
  next
    case 2
    have "t1 = tc\<lparr>tc_rng := tc_rng tc, tc_template := tc_template tc,
        tc_family := (tc_family tc)\<lparr>fc_total_draws := fc_total_draws (tc_family tc) + 1\<rparr>\<rparr>"
      unfolding 2(5) by (cases tc) simp
    then have "advances tc t1" unfolding advances_def by blast
    moreover have "has_room tc" using 2 by (simp add: has_room_def)
    moreover have "r = Inr x" "t = push_node (ChoiceNode d True) (notify ob t1)"
      using m pre 2(1) by (simp_all add: ebind_def record_choice_def)
    ultimately show ?thesis using recorded_push assms by blast
  qed
qed

section \<open>What each draw records\<close>

text \<open>
  The contract of the samplers: a sampled value satisfies the constraint it is sampled for,
  and the random source's ranges are respected.
\<close>

definition sampling_sound :: "'r sampling \<Rightarrow> bool" where
  "sampling_sound S \<longleftrightarrow>
     (\<forall>k p rng v rng'. integer_wf k \<longrightarrow> biased_integer_sample S k p rng = (Inr v, rng') \<longrightarrow> integer_validate k v)
   \<and> (\<forall>k rng v rng'. biased_float_sample S k rng = (Inr v, rng') \<longrightarrow> float_validate k v)
   \<and> (\<forall>k rng v rng'. bytes_wf k \<longrightarrow> biased_bytes_sample S k rng = (Inr v, rng') \<longrightarrow> bytes_validate k v)
   \<and> (\<forall>k rng v rng'. string_wf k \<longrightarrow> biased_string_sample S k rng = (Inr v, rng') \<longrightarrow> string_validate k v)
   \<and> (\<forall>lo hi rng. lo \<le> hi \<longrightarrow> lo \<le> fst (random_range_u64 S lo hi rng) \<and> fst (random_range_u64 S lo hi rng) \<le> hi)
   \<and> (\<forall>n rng. 0 < n \<longrightarrow> fst (random_index S n rng) < n)"

lemma sampling_soundD:
  assumes "sampling_sound S"
  shows "integer_wf k \<Longrightarrow> biased_integer_sample S k p rng = (Inr v, rng') \<Longrightarrow> integer_validate k v"
    "biased_float_sample S fk rng = (Inr f, rng') \<Longrightarrow> float_validate fk f"
    "bytes_wf bk \<Longrightarrow> biased_bytes_sample S bk rng = (Inr b, rng') \<Longrightarrow> bytes_validate bk b"
    "string_wf sk \<Longrightarrow> biased_string_sample S sk rng = (Inr s, rng') \<Longrightarrow> string_validate sk s"
    "lo \<le> hi \<Longrightarrow> lo \<le> fst (random_range_u64 S lo hi rng) \<and> fst (random_range_u64 S lo hi rng) \<le> hi"
    "0 < m \<Longrightarrow> fst (random_index S m rng) < m"
proof -
  note A = assms [unfolded sampling_sound_def]
  note A2 = A [THEN conjunct2] and A3 = A [THEN conjunct2, THEN conjunct2]
  show "integer_wf k \<Longrightarrow> biased_integer_sample S k p rng = (Inr v, rng') \<Longrightarrow> integer_validate k v"
    by (rule A [THEN conjunct1, rule_format])
  show "biased_float_sample S fk rng = (Inr f, rng') \<Longrightarrow> float_validate fk f"
    by (rule A2 [THEN conjunct1, rule_format])
  show "bytes_wf bk \<Longrightarrow> biased_bytes_sample S bk rng = (Inr b, rng') \<Longrightarrow> bytes_validate bk b"
    by (rule A3 [THEN conjunct1, rule_format])
  show "string_wf sk \<Longrightarrow> biased_string_sample S sk rng = (Inr s, rng') \<Longrightarrow> string_validate sk s"
    by (rule A3 [THEN conjunct2, THEN conjunct1, rule_format])
  show "lo \<le> hi \<Longrightarrow> lo \<le> fst (random_range_u64 S lo hi rng) \<and> fst (random_range_u64 S lo hi rng) \<le> hi"
    by (rule A3 [THEN conjunct2, THEN conjunct2, THEN conjunct1, rule_format])
  show "0 < m \<Longrightarrow> fst (random_index S m rng) < m"
    by (rule A3 [THEN conjunct2, THEN conjunct2, THEN conjunct2, rule_format])
qed

lemma integer_in_wf: "lo \<le> hi \<Longrightarrow> integer_wf (integer_in lo hi)"
  by (simp add: integer_wf_def integer_in_def)

lemma integer_in_simps [simp]:
  "ic_min (integer_in lo hi) = lo" "ic_max (integer_in lo hi) = hi" "ic_shrink_towards (integer_in lo hi) = 0"
  by (simp_all add: integer_in_def)

lemma integer_from_prefix_Some: "integer_from_prefix admits pv = Some v \<Longrightarrow> admits v"
  by (auto simp: integer_from_prefix_def split: choice_value.splits if_splits)

lemma from_prefix_cases [simp]:
  "(case pv of VFloat f \<Rightarrow> if P f then Some f else None | _ \<Rightarrow> None) = Some f' \<longleftrightarrow> pv = VFloat f' \<and> P f'"
  "(case pv of VBytes b \<Rightarrow> if Q b then Some b else None | _ \<Rightarrow> None) = Some b' \<longleftrightarrow> pv = VBytes b' \<and> Q b'"
  "(case pv of VString s \<Rightarrow> if R s then Some s else None | _ \<Rightarrow> None) = Some s' \<longleftrightarrow> pv = VString s' \<and> R s'"
  "(case pv of VBoolean x \<Rightarrow> Some x | _ \<Rightarrow> None) = Some y \<longleftrightarrow> pv = VBoolean y"
  by (cases pv; auto)+

lemma random_range_bounds:
  "sampling_sound S \<Longrightarrow> lo \<le> hi \<Longrightarrow> random_range_u64 S lo hi rng = (n, rng') \<Longrightarrow> lo \<le> n \<and> n \<le> hi"
  using sampling_soundD(5) [of S lo hi rng] by simp

lemma random_index_bound:
  "sampling_sound S \<Longrightarrow> 0 < m \<Longrightarrow> random_index S m rng = (i, rng') \<Longrightarrow> i < m"
  using sampling_soundD(6) [of S m rng] by simp

lemma records_integer_from:
  assumes wf: "integer_wf kind"
    and sample: "\<And>rng v rng'. sample rng = (Inr v, rng') \<Longrightarrow> integer_validate kind v"
    and pure: "\<And>v tc. k v tc = (res v, tc)"
  shows "records (\<lambda>r d. \<exists>v. d = DInteger kind v \<and> integer_validate kind v \<and> r = res v)
    (ebind (draw_integer_from lc kind sample) k)"
proof -
  have eq: "ebind (draw_integer_from lc kind sample) k =
     ebind (resolve_choice lc (Inr (integer_simplest kind)) (Inr (integer_unit kind))
              (integer_from_prefix (integer_validate kind)) sample) (\<lambda>r.
     ebind (record_choice (ChoiceNode (DInteger kind (fst r)) (snd r)) (ObsInteger (fst r) (snd r))) (\<lambda>_.
     k (fst r)))"
    by (rule ext) (simp add: draw_integer_from_def ebind_def split: prod.split sum.split)
  show ?thesis unfolding eq
    by (rule records_resolve [where res = res and node = "DInteger kind"])
       (use wf sample in \<open>auto simp: pure resolves_to_def integer_simplest_valid integer_unit_valid
          dest: integer_from_prefix_Some\<close>)
qed

lemma records_draw_integer:
  assumes S: "sampling_sound S"
  shows "records (\<lambda>r d. \<exists>v. lo \<le> v \<and> v \<le> hi \<and> d = DInteger (integer_in lo hi) v
            \<and> (if fits v then r = Inr v else \<exists>e. r = Inl e))
           (draw_integer lc S fits lo hi)"
proof -
  have step: "records (\<lambda>r d. \<exists>v. lo \<le> v \<and> v \<le> hi \<and> d = DInteger (integer_in lo hi) v
            \<and> (if fits v then r = Inr v else \<exists>e. r = Inl e))
     (ebind (draw_integer_from lc (integer_in lo hi) (biased_integer_sample S (integer_in lo hi) p)) (\<lambda>v.
        internally (hegel_internal_unwrap (if fits v then Some v else None) msg)))"
    if "lo \<le> hi" for p msg
    by (rule records_weaken [OF records_integer_from [where res = "\<lambda>v. if fits v then Inr v
                else Inl (EngineInternal (InternalError msg))"]])
       (use that in \<open>auto intro: integer_in_wf dest: sampling_soundD(1) [OF S integer_in_wf]
          simp: integer_validate_def\<close>)
  show ?thesis unfolding draw_integer_def by (intro records_intros step)
qed

lemma records_draw_integer_uniform:
  assumes S: "sampling_sound S"
  shows "records (\<lambda>r d. \<exists>v. lo \<le> v \<and> v \<le> hi \<and> d = DInteger (integer_in (int lo) (int hi)) (int v)
            \<and> (if fits_u64 (int v) then r = Inr v else \<exists>e. r = Inl e))
           (draw_integer_uniform lc S lo hi)"
proof -
  have step: "records (\<lambda>r d. \<exists>v. lo \<le> v \<and> v \<le> hi \<and> d = DInteger (integer_in (int lo) (int hi)) (int v)
            \<and> (if fits_u64 (int v) then r = Inr v else \<exists>e. r = Inl e))
     (ebind (draw_integer_from lc (integer_in (int lo) (int hi))
        (\<lambda>rng. case random_range_u64 S lo hi rng of (v, rng) \<Rightarrow> (Inr (int v), rng))) (\<lambda>v.
        internally (hegel_internal_unwrap (if fits_u64 v then Some (nat v) else None) msg)))"
    if le: "lo \<le> hi" for msg
  proof (rule records_weaken [OF records_integer_from [where res = "\<lambda>v. if fits_u64 v then Inr (nat v)
                else Inl (EngineInternal (InternalError msg))"]])
    fix r d
    assume "\<exists>v. d = DInteger (integer_in (int lo) (int hi)) v \<and> integer_validate (integer_in (int lo) (int hi)) v
        \<and> r = (if fits_u64 v then Inr (nat v) else Inl (EngineInternal (InternalError msg)))"
    then obtain v where v: "d = DInteger (integer_in (int lo) (int hi)) v" "int lo \<le> v" "v \<le> int hi"
        "r = (if fits_u64 v then Inr (nat v) else Inl (EngineInternal (InternalError msg)))"
      by (auto simp: integer_validate_def)
    then show "\<exists>v. lo \<le> v \<and> v \<le> hi \<and> d = DInteger (integer_in (int lo) (int hi)) (int v)
            \<and> (if fits_u64 (int v) then r = Inr v else \<exists>e. r = Inl e)"
      by (intro exI [of _ "nat v"]) (auto simp: nat_le_iff)
  qed (use le random_range_bounds [OF S le] in \<open>auto simp: integer_validate_def integer_in_wf split: prod.splits\<close>)
  show ?thesis unfolding draw_integer_uniform_def by (intro records_intros step)
qed

lemma records_draw_integer_forced:
  "records (\<lambda>r d. d = DInteger (integer_in lo hi) forced \<and> lo \<le> forced \<and> forced \<le> hi)
     (draw_integer_forced lo hi forced)"
proof -
  have eq: "ebind pre_choice (\<lambda>_. record_choice n ob) = ebind pre_choice (\<lambda>_. ebind (record_choice n ob) (\<lambda>_. ret ()))"
    for n and ob :: observation
    by (rule ext) (simp add: ebind_def record_choice_def split: prod.split sum.split)
  show ?thesis unfolding draw_integer_forced_def eq
    by (intro records_intros records_forced) simp
qed

definition float_drawn :: "(f64 \<Rightarrow> f64) \<Rightarrow> float_choice \<Rightarrow> f64 \<Rightarrow> bool" where
  "float_drawn lc k v \<longleftrightarrow> float_validate k v \<or> float_simplest lc k = Inr v \<or> float_unit lc k = Inr v"

lemma records_draw_float:
  assumes S: "sampling_sound S"
  shows "records (\<lambda>r d. \<exists>v. d = DFloat k v \<and> float_drawn lc k v \<and> r = Inr v) (draw_float lc S k)"
  unfolding draw_float_def
  by (rule records_resolve_ret [where node = "DFloat k" and res = "\<lambda>v. v"])
     (auto simp: resolves_to_def float_drawn_def dest: sampling_soundD(2) [OF S])

lemma records_draw_bytes:
  assumes S: "sampling_sound S" and small: "hi < 2 ^ 32"
  shows "records (\<lambda>r d. \<exists>v. d = DBytes \<lparr>by_min_size = lo, by_max_size = hi\<rparr> v
             \<and> lo \<le> length v \<and> length v \<le> hi \<and> r = Inr v) (draw_bytes lc S lo hi)"
proof -
  let ?k = "\<lparr>by_min_size = lo, by_max_size = hi\<rparr>"
  have wf: "bytes_wf ?k" if "lo \<le> hi" using that small by (simp add: bytes_wf_def)
  show ?thesis unfolding draw_bytes_def Let_def
    by (intro records_intros, rule records_resolve_ret [where node = "DBytes ?k" and res = "\<lambda>v. v"])
       (use wf bytes_simplest_valid [of ?k] bytes_unit_valid [of ?k] sampling_soundD(3) [OF S, of ?k]
         in \<open>auto simp: resolves_to_def bytes_validate_def\<close>)
qed

lemma records_draw_string:
  assumes S: "sampling_sound S" and wf: "lo \<le> hi \<Longrightarrow> iv_size ivs \<noteq> 0 \<or> hi = 0 \<Longrightarrow> string_wf k"
    and k: "k = \<lparr>sc_intervals = ivs, sc_min_size = lo, sc_max_size = hi\<rparr>"
  shows "records (\<lambda>r d. string_wf k \<and> (\<exists>v. d = DString k v \<and> string_validate k v
      \<and> r = Inr (codepoints_to_string v))) (draw_string lc S ivs lo hi)"
  unfolding draw_string_def Let_def k [symmetric]
  by (intro records_intros, rule records_resolve_ret [where node = "DString k" and res = codepoints_to_string])
     (use wf string_simplest_valid [of k] string_unit_valid [of k] sampling_soundD(4) [OF S, of k]
       in \<open>auto simp: resolves_to_def\<close>)

lemma records_weighted_with:
  "records (\<lambda>r d. \<exists>b. d = DBoolean \<lparr>bc_p = p\<rparr> b \<and> r = Inr b \<and> (\<forall>v. forced = Some v \<longrightarrow> b = v))
     (weighted_with lc p forced sample)"
proof -
  define fv where "fv = (case forced of Some b \<Rightarrow> Some b
      | None \<Rightarrow> if f64_le p f64_zero then Some False else if f64_le f64_one p then Some True else None)"
  let ?D = "\<lambda>r d. \<exists>b. d = DBoolean \<lparr>bc_p = p\<rparr> b \<and> r = Inr b \<and> (\<forall>v. forced = Some v \<longrightarrow> b = v)"
  show ?thesis
  proof (cases fv)
    case (Some b)
    have eq: "ebind (ebind pre_choice (\<lambda>_. ret (b, True))) f = ebind pre_choice (\<lambda>_. f (b, True))"
      for f :: "_ \<Rightarrow> ('r, bool) draw"
      by (rule ext) (simp add: ebind_def split: prod.split sum.split)
    have "\<forall>v. forced = Some v \<longrightarrow> b = v" using Some by (auto simp: fv_def)
    then have "records ?D (ebind (ebind pre_choice (\<lambda>_. ret (b, True))) (\<lambda>r.
         ebind (record_choice (ChoiceNode (DBoolean \<lparr>bc_p = p\<rparr> (fst r)) (snd r)) (ObsBoolean (fst r) (snd r))) (\<lambda>_.
         ret (fst r))))"
      unfolding eq fst_conv snd_conv by (intro records_forced) simp
    then show ?thesis unfolding weighted_with_def Let_def fv_def [symmetric] Some by simp
  next
    case None
    then have "forced = None" by (cases forced) (simp_all add: fv_def)
    then show ?thesis unfolding weighted_with_def Let_def fv_def [symmetric] None option.case
      by (intro records_resolve_ret [where node = "DBoolean \<lparr>bc_p = p\<rparr>" and res = "\<lambda>v. v"]) simp
  qed
qed

section \<open>Identifiers\<close>

lemma smallest_unused_from:
  assumes "sorted xs" "distinct xs" "\<And>i. i \<in> set xs \<Longrightarrow> c \<le> i"
  shows "c \<le> smallest_unused_from c xs \<and> smallest_unused_from c xs \<notin> set xs
     \<and> (\<forall>j. c \<le> j \<and> j < smallest_unused_from c xs \<longrightarrow> j \<in> set xs)
     \<and> smallest_unused_from c xs \<le> c + int (length xs)"
  using assms
proof (induction xs arbitrary: c)
  case (Cons i xs)
  show ?case
  proof (cases "c < i")
    case True
    then have "smallest_unused_from c (i # xs) = c" by simp
    moreover have "c \<notin> set (i # xs)" using True Cons.prems(1) by auto
    ultimately show ?thesis by auto
  next
    case False
    then have ci: "i = c" using Cons.prems(3) [of i] by simp
    let ?s = "smallest_unused_from (c + 1) xs"
    have s: "smallest_unused_from c (i # xs) = ?s" using ci by simp
    have above: "c + 1 \<le> j" if "j \<in> set xs" for j
    proof -
      have "c \<le> j" "j \<noteq> c" using that Cons.prems(1,2) ci by auto
      then show ?thesis by simp
    qed
    have IH: "c + 1 \<le> ?s" "?s \<notin> set xs" "\<And>j. c + 1 \<le> j \<Longrightarrow> j < ?s \<Longrightarrow> j \<in> set xs"
      "?s \<le> c + 1 + int (length xs)"
      using Cons.IH [of "c + 1"] Cons.prems(1,2) above by auto
    have "j \<in> set (i # xs)" if "c \<le> j" "j < ?s" for j
      using IH(3) [of j] that ci by (cases "j = c") auto
    then show ?thesis unfolding s using IH(1,2,4) ci by auto
  qed
qed simp

lemma smallest_unused_id:
  assumes "finite used" "\<And>i. i \<in> used \<Longrightarrow> 0 \<le> i"
  shows "0 \<le> smallest_unused_id used" "smallest_unused_id used \<notin> used"
    "\<And>j. 0 \<le> j \<Longrightarrow> j < smallest_unused_id used \<Longrightarrow> j \<in> used"
    "smallest_unused_id used \<le> int (card used)"
  using smallest_unused_from [of "sorted_list_of_set used" 0] assms
  unfolding smallest_unused_id_def by auto

text \<open>
  The identifiers of a family are non-negative and dense: below twice their number. So they fit
  an \<open>i64\<close> as long as fewer than \<open>2^61\<close> were drawn.
\<close>

definition ids_ok :: "int set \<Rightarrow> bool" where
  "ids_ok used \<longleftrightarrow> finite used \<and> (\<forall>i\<in>used. 0 \<le> i \<and> i < 2 * int (card used))"

definition ids_small :: "int set \<Rightarrow> bool" where
  "ids_small used \<longleftrightarrow> card used < 2 ^ 61"

lemma ids_ok_empty [simp]: "ids_ok {}"
  by (simp add: ids_ok_def)

lemma largest_id:
  assumes "ids_ok used"
  shows "largest_id used < 2 * int (card used)" "-1 \<le> largest_id used"
    "i \<in> used \<Longrightarrow> i \<le> largest_id used"
proof -
  have fin: "finite used" using assms by (simp add: ids_ok_def)
  show "largest_id used < 2 * int (card used)" "-1 \<le> largest_id used"
  proof -
    have "-1 \<le> largest_id used \<and> largest_id used < 2 * int (card used)"
    proof (cases "used = {}")
      case False
      then have "0 \<le> Max used \<and> Max used < 2 * int (card used)"
        using assms Max_in [OF fin False] by (auto simp: ids_ok_def)
      then show ?thesis using False by (simp add: largest_id_def)
    qed (simp add: largest_id_def)
    then show "largest_id used < 2 * int (card used)" "-1 \<le> largest_id used" by simp_all
  qed
  show "i \<in> used \<Longrightarrow> i \<le> largest_id used"
    using fin by (auto simp: largest_id_def)
qed

lemma smallest_unused_in_window:
  assumes ok: "ids_ok used"
  shows "smallest_unused_id used \<le> largest_id used + 1"
proof (rule ccontr)
  assume "\<not> ?thesis"
  then have "largest_id used + 1 \<in> used"
    using smallest_unused_id(3) [of used "largest_id used + 1"] ok largest_id(2) [OF ok]
    by (auto simp: ids_ok_def)
  then show False using largest_id(3) [OF ok] by fastforce
qed

lemma ids_ok_insert:
  assumes ok: "ids_ok used" and v: "v \<notin> used" "0 \<le> v" "v \<le> largest_id used + 2"
  shows "ids_ok (insert v used)"
proof -
  have "card (insert v used) = card used + 1" using ok v by (simp add: ids_ok_def)
  then show ?thesis using ok v largest_id(1) [OF ok] by (force simp: ids_ok_def)
qed

lemma ids_step_ok: "ids_step used d ids \<Longrightarrow> ids_ok used \<Longrightarrow> ids_ok ids"
  by (auto simp: ids_step_def ids_ok_insert)

lemma to_i64_small: "0 \<le> v \<Longrightarrow> v \<le> 2 ^ 62 \<Longrightarrow> to_i64 v = Some v"
  by (simp add: to_i64_def)

lemma ids_fit: "ids_ok used \<Longrightarrow> ids_small used \<Longrightarrow> largest_id used + 2 \<le> 2 ^ 62"
  using largest_id(1) [of used] by (simp add: ids_small_def)

lemma id_in_window: "id_in_window hi v \<Longrightarrow> to_i64 v = Some v \<and> 0 \<le> v \<and> v \<le> hi"
  by (auto simp: id_in_window_def to_i64_def split: if_splits)

definition records_at :: "(engine_error + 'a \<Rightarrow> choice_data \<Rightarrow> bool) \<Rightarrow> ('r, 'a) draw \<Rightarrow> 'r test_case \<Rightarrow> bool" where
  "records_at D m tc \<longleftrightarrow>
     (\<forall>r t. m tc = (r, t) \<longrightarrow> (\<exists>e. r = Inl e) \<and> quiet tc t \<or> (\<exists>d. recorded tc d t \<and> D r d))"

lemma records_records_at: "records D m \<Longrightarrow> records_at D m tc"
  by (simp add: records_def records_at_def)

lemma draw_fresh_id_cases:
  assumes m: "draw_fresh_id lc tc = (r, t)" and ok: "ids_ok (fc_fresh_ids (tc_family tc))"
    and small: "ids_small (fc_fresh_ids (tc_family tc))"
  obtains (failed) e where "r = Inl e" "quiet tc t"
  | (drawn) v ob u where "r = Inr v" "v \<notin> fc_fresh_ids (tc_family tc)" "0 \<le> v"
      "v \<le> largest_id (fc_fresh_ids (tc_family tc)) + 2" "has_room tc" "advances tc u"
      "t = register_id v (push_node (ChoiceNode (DInteger
              (integer_in 0 (largest_id (fc_fresh_ids (tc_family tc)) + 2)) v) False) (notify ob u))"
proof -
  let ?used = "fc_fresh_ids (tc_family tc)"
  let ?fallback = "smallest_unused_id ?used"
  let ?fp = "integer_from_prefix (\<lambda>n. id_in_window (largest_id ?used + 2) n \<and> n \<notin> ?used)"
  let ?rnd = "\<lambda>rng. (Inr ?fallback, rng)"
  have fin: "finite ?used" "\<And>i. i \<in> ?used \<Longrightarrow> 0 \<le> i" using ok by (auto simp: ids_ok_def)
  obtain r1 t1 where res: "resolve_choice lc (Inr ?fallback) (Inr ?fallback) ?fp ?rnd tc = (r1, t1)"
    by fastforce
  show ?thesis
  proof (cases rule: resolve_choice_cases [OF res])
    case (1 e)
    then show ?thesis using m res by (intro failed [of e]) (auto simp: draw_fresh_id_def Let_def ebind_def)
  next
    case (2 v)
    have v: "v \<notin> ?used \<and> 0 \<le> v \<and> v \<le> largest_id ?used + 2 \<and> to_i64 v = Some v"
    proof (cases "v = ?fallback")
      case True
      then show ?thesis
        using smallest_unused_id(1,2) [OF fin] smallest_unused_in_window [OF ok]
          to_i64_small [of ?fallback] ids_fit [OF ok small] by auto
    next
      case False
      then show ?thesis using 2(4)
        by (auto simp: resolves_to_def dest!: integer_from_prefix_Some id_in_window)
    qed
    have "r = Inr v" "t = register_id v (push_node (ChoiceNode (DInteger
              (integer_in 0 (largest_id ?used + 2)) v) False) (notify (ObsInteger v False) t1))"
      using m res 2(1) v by (auto simp: draw_fresh_id_def Let_def ebind_def)
    then show ?thesis using v 2(2,3) by (intro drawn) auto
  qed
qed

lemma records_fresh_id:
  assumes ok: "ids_ok (fc_fresh_ids (tc_family tc))" and small: "ids_small (fc_fresh_ids (tc_family tc))"
  shows "records_at (\<lambda>r d. \<exists>v hi. d = DInteger (integer_in 0 hi) v \<and> 0 \<le> v \<and> v \<le> hi \<and> r = Inr v)
    (draw_fresh_id lc) tc"
  unfolding records_at_def
proof (intro allI impI)
  fix r t
  assume m: "draw_fresh_id lc tc = (r, t)"
  show "(\<exists>e. r = Inl e) \<and> quiet tc t \<or> (\<exists>d. recorded tc d t
      \<and> (\<exists>v hi. d = DInteger (integer_in 0 hi) v \<and> 0 \<le> v \<and> v \<le> hi \<and> r = Inr v))"
  proof (cases rule: draw_fresh_id_cases [OF m ok small])
    case (2 v ob u)
    let ?d = "DInteger (integer_in 0 (largest_id (fc_fresh_ids (tc_family tc)) + 2)) v"
    have ids: "fc_fresh_ids (tc_family u) = fc_fresh_ids (tc_family tc)"
      using 2(6) by (auto simp: advances_def)
    have "t = push_node (ChoiceNode ?d False) (notify ob
        (u\<lparr>tc_family := (tc_family u)\<lparr>fc_fresh_ids := insert v (fc_fresh_ids (tc_family tc))\<rparr>\<rparr>))"
      by (simp add: 2(7) register_id_def push_node_def notify_def ids)
    moreover have "ids_step (fc_fresh_ids (tc_family tc)) ?d (insert v (fc_fresh_ids (tc_family tc)))"
      using 2(2-4) by (simp add: ids_step_def)
    ultimately have "recorded tc ?d t" using 2(5,6) unfolding recorded_def by blast
    then show ?thesis using 2(1-4) by blast
  qed blast
qed

text \<open>The repair of a replayed reference.\<close>

lemma takeWhile_sorted:
  assumes "sorted xs"
  shows "i < length (takeWhile (\<lambda>y. y < x) xs) \<longleftrightarrow> i < length xs \<and> xs ! i < (x :: int)"
proof
  assume i: "i < length (takeWhile (\<lambda>y. y < x) xs)"
  then show "i < length xs \<and> xs ! i < x"
    using set_takeWhileD [of "takeWhile (\<lambda>y. y < x) xs ! i" "\<lambda>y. y < x" xs]
    by (metis length_takeWhile_le nth_mem order_less_le_trans takeWhile_nth)
next
  assume i: "i < length xs \<and> xs ! i < x"
  show "i < length (takeWhile (\<lambda>y. y < x) xs)"
  proof (rule ccontr)
    assume n: "\<not> i < length (takeWhile (\<lambda>y. y < x) xs)"
    let ?k = "length (takeWhile (\<lambda>y. y < x) xs)"
    have "?k < length xs" using n i by linarith
    then have "\<not> xs ! ?k < x" by (rule nth_length_takeWhile)
    moreover have "xs ! ?k \<le> xs ! i" using n i assms by (intro sorted_nth_mono) auto
    ultimately show False using i by simp
  qed
qed

lemma repair_member:
  assumes "sorted xs" "xs \<noteq> []"
  shows "repair_member xs raw \<in> set xs"
    and "raw \<in> set xs \<Longrightarrow> repair_member xs raw = raw"
    and "y \<in> set xs \<Longrightarrow> y \<le> raw \<Longrightarrow> y \<le> repair_member xs raw"
    and "(\<exists>y\<in>set xs. y \<le> raw) \<Longrightarrow> repair_member xs raw \<le> raw"
proof -
  let ?k = "length (takeWhile (\<lambda>y. y < raw) xs)"
  have k: "?k \<le> length xs" by (rule length_takeWhile_le)
  have pos: "0 < length xs" using assms(2) by simp
  note tw = takeWhile_sorted [OF assms(1), where x = raw]
  have cases: "repair_member xs raw =
      (if ?k < length xs \<and> xs ! ?k = raw then raw else if ?k = 0 then xs ! 0 else xs ! (?k - 1))"
    by (simp add: repair_member_def slice_binary_search_def Let_def)
  show "repair_member xs raw \<in> set xs"
  proof -
    have "xs ! 0 \<in> set xs" using pos by simp
    moreover have "?k - 1 < length xs" using pos k by linarith
    moreover have "xs ! (?k - 1) \<in> set xs" using \<open>?k - 1 < length xs\<close> by (rule nth_mem)
    moreover have "raw \<in> set xs" if "?k < length xs" "xs ! ?k = raw"
      using nth_mem [OF that(1)] that(2) by simp
    ultimately show ?thesis by (simp add: cases)
  qed
  have found: "?k < length xs \<and> xs ! ?k = raw" if raw: "raw \<in> set xs"
  proof -
    obtain i where i: "i < length xs" "xs ! i = raw" using raw by (auto simp: in_set_conv_nth)
    have "\<not> i < ?k" using tw [of i] i by simp
    moreover have "\<not> ?k < ?k" by simp
    ultimately have "?k < length xs" "raw \<le> xs ! ?k" using i tw [of ?k] by auto
    moreover have "xs ! ?k \<le> xs ! i" using \<open>\<not> i < ?k\<close> i assms(1) by (intro sorted_nth_mono) auto
    ultimately show ?thesis using i by simp
  qed
  show "raw \<in> set xs \<Longrightarrow> repair_member xs raw = raw" using found by (simp add: cases)
  show "y \<le> repair_member xs raw" if y: "y \<in> set xs" "y \<le> raw"
  proof (cases "raw \<in> set xs")
    case True
    then show ?thesis using found y by (simp add: cases)
  next
    case False
    obtain i where i: "i < length xs" "xs ! i = y" using y(1) by (auto simp: in_set_conv_nth)
    have "y < raw" using y False by (cases "y = raw") auto
    then have ik: "i < ?k" using tw [of i] i by simp
    have ne: "\<not> (?k < length xs \<and> xs ! ?k = raw)" using False nth_mem [of ?k xs] by metis
    have "xs ! i \<le> xs ! (?k - 1)" using ik k assms(1) by (intro sorted_nth_mono) auto
    then show ?thesis using i ik ne by (auto simp: cases)
  qed
  show "repair_member xs raw \<le> raw" if below: "\<exists>y\<in>set xs. y \<le> raw"
  proof (cases "raw \<in> set xs")
    case False
    obtain y where y: "y \<in> set xs" "y < raw" using below False by force
    then obtain i where i: "i < length xs" "xs ! i = y" by (auto simp: in_set_conv_nth)
    then have ik: "i < ?k" using tw [of i] y by simp
    have ne: "\<not> (?k < length xs \<and> xs ! ?k = raw)" using False nth_mem [of ?k xs] by metis
    have "?k - 1 < ?k" using ik by linarith
    then have "xs ! (?k - 1) < raw" using tw [of "?k - 1"] by blast
    then show ?thesis using ik ne by (auto simp: cases)
  qed (use found in \<open>simp add: cases\<close>)
qed

lemma records_from_set:
  assumes S: "sampling_sound S" and ok: "ids_ok (fc_fresh_ids (tc_family tc))"
    and small: "ids_small (fc_fresh_ids (tc_family tc))"
  shows "records_at (\<lambda>r d. \<exists>v hi. d = DInteger (integer_in 0 hi) v \<and> v \<in> set pool \<and> 0 \<le> v \<and> v \<le> hi \<and> r = Inr v)
    (draw_from_set lc S pool) tc"
  unfolding records_at_def
proof (intro allI impI)
  fix r t
  assume m: "draw_from_set lc S pool tc = (r, t)"
  define ms where "ms = sorted_list_of_set (set pool)"
  define hi where "hi = largest_id (fc_fresh_ids (tc_family tc)) + 1"
  let ?D = "\<lambda>r d. \<exists>v hi. d = DInteger (integer_in 0 hi) v \<and> v \<in> set pool \<and> 0 \<le> v \<and> v \<le> hi \<and> r = Inr v"
  show "(\<exists>e. r = Inl e) \<and> quiet tc t \<or> (\<exists>d. recorded tc d t \<and> ?D r d)"
  proof (cases "pool \<noteq> [] \<and> 0 \<le> ms ! 0 \<and> last ms \<le> hi")
    case False
    then have "(\<exists>e. r = Inl e) \<and> t = tc"
      using m by (auto simp: draw_from_set_def ms_def [symmetric] hi_def [symmetric] Let_def ebind_def
          hegel_internal_assert_def split: if_splits)
    then show ?thesis using quiet_refl by auto
  next
    case True
    have ms: "sorted ms" "ms \<noteq> []" "set ms = set pool" using True by (auto simp: ms_def)
    have range: "0 \<le> v \<and> v \<le> hi" if "v \<in> set ms" for v
    proof -
      obtain i where i: "i < length ms" "ms ! i = v" using \<open>v \<in> set ms\<close> by (auto simp: in_set_conv_nth)
      have "ms ! 0 \<le> ms ! i" "ms ! i \<le> last ms"
        using i ms by (auto simp: last_conv_nth intro!: sorted_nth_mono)
      then show ?thesis using True i by simp
    qed
    let ?fp = "integer_from_prefix (id_in_window hi)"
    let ?rnd = "\<lambda>rng. case random_index S (length ms) rng of (i, rng) \<Rightarrow> (Inr (ms ! i) :: int internal_result, rng)"
    obtain r1 t1 where res: "resolve_choice lc (Inr (ms ! 0)) (Inr (ms ! 0)) ?fp ?rnd tc = (r1, t1)"
      by fastforce
    have go: "draw_from_set lc S pool tc =
       ebind (resolve_choice lc (Inr (ms ! 0)) (Inr (ms ! 0)) ?fp ?rnd) (\<lambda>r.
       ebind (internally (hegel_internal_unwrap (to_i64 (fst r)) ''draw_from_set: value does not fit i64'')) (\<lambda>raw.
       ebind (record_choice (ChoiceNode (DInteger (integer_in 0 hi) (repair_member ms raw)) (snd r))
              (ObsInteger (repair_member ms raw) (snd r))) (\<lambda>_.
       ret (repair_member ms raw)))) tc"
      using True by (simp add: draw_from_set_def ms_def [symmetric] hi_def [symmetric] Let_def)
    show ?thesis
    proof (cases rule: resolve_choice_cases [OF res])
      case (1 e)
      then show ?thesis using m res by (auto simp: go ebind_def)
    next
      case (2 v)
      have "to_i64 v = Some v"
      proof (cases "v \<in> set ms")
        case True
        then show ?thesis using range to_i64_small [of v] ids_fit [OF ok small] by (force simp: hi_def)
      next
        case False
        have "ms ! i \<in> set ms" if "random_index S (length ms) rng = (i, rng')" for i rng rng'
          using random_index_bound [OF S _ that] ms(2) by simp
        moreover have "ms ! 0 \<in> set ms" using ms(2) by simp
        ultimately show ?thesis using 2(4) False
          by (auto simp: resolves_to_def split: prod.splits dest!: integer_from_prefix_Some id_in_window)
             (metis surj_pair)
      qed
      then have "r = Inr (repair_member ms v)"
        "t = push_node (ChoiceNode (DInteger (integer_in 0 hi) (repair_member ms v)) False)
               (notify (ObsInteger (repair_member ms v) False) t1)"
        using m res 2(1) by (auto simp: go ebind_def record_choice_def)
      then show ?thesis
        using recorded_push [OF 2(2,3)] repair_member(1) [OF ms(1,2), of v] range [of "repair_member ms v"] ms(3)
        by blast
    qed
  qed
qed

end
