(* ===== verification/StreamFacts.thy ===== *)
theory StreamFacts
  imports Streams TestCaseFacts
begin

text \<open>
  The invariant of a stream: the spans form a tree over the recorded choices, every recorded
  value is one its constraint admits, and the choice limit holds. Every request preserves it and
  answers with a value of the requested kind.
\<close>

section \<open>Span trees\<close>

text \<open>The open spans, innermost first, are a chain of parents.\<close>

fun stack_ok :: "spans \<Rightarrow> nat list \<Rightarrow> bool" where
  "stack_ok spans [] = True"
| "stack_ok spans (i # stack) =
     (i < length spans \<and> (\<forall>j\<in>set stack. j < i) \<and> span_depth (spans ! i) = length stack
      \<and> span_parent (spans ! i) = (case stack of [] \<Rightarrow> None | p # _ \<Rightarrow> Some p) \<and> stack_ok spans stack)"

definition span_in_parent :: "nat list \<Rightarrow> spans \<Rightarrow> nat \<Rightarrow> bool" where
  "span_in_parent stack spans i =
     (case span_parent (spans ! i) of
        None \<Rightarrow> span_depth (spans ! i) = 0
      | Some p \<Rightarrow> p < i \<and> span_depth (spans ! i) = Suc (span_depth (spans ! p))
          \<and> (p \<in> set stack \<or> i \<notin> set stack \<and> span_end (spans ! i) \<le> span_end (spans ! p)))"

definition spans_laminar :: "nat list \<Rightarrow> spans \<Rightarrow> nat \<Rightarrow> nat \<Rightarrow> bool" where
  "spans_laminar stack spans i j \<longleftrightarrow>
     span_start (spans ! i) \<le> span_start (spans ! j)
   \<and> (i \<in> set stack \<or> span_end (spans ! i) \<le> span_start (spans ! j)
      \<or> j \<notin> set stack \<and> span_end (spans ! j) \<le> span_end (spans ! i))"

definition spans_nested :: "nat \<Rightarrow> nat list \<Rightarrow> spans \<Rightarrow> bool" where
  "spans_nested n stack spans \<longleftrightarrow>
     stack_ok spans stack
   \<and> (\<forall>i<length spans. span_start (spans ! i) \<le> span_end (spans ! i) \<and> span_end (spans ! i) \<le> n)
   \<and> (\<forall>j<length spans. \<forall>i<j. spans_laminar stack spans i j)
   \<and> (\<forall>i<length spans. span_in_parent stack spans i)"

lemma spans_nestedD:
  assumes "spans_nested n stack spans"
  shows "stack_ok spans stack"
    and "i < length spans \<Longrightarrow> span_start (spans ! i) \<le> span_end (spans ! i)"
    and "i < length spans \<Longrightarrow> span_end (spans ! i) \<le> n"
    and "j < length spans \<Longrightarrow> i < j \<Longrightarrow> spans_laminar stack spans i j"
    and "i < length spans \<Longrightarrow> span_in_parent stack spans i"
  using assms by (auto simp: spans_nested_def)

lemma stack_ok_range: "stack_ok spans stack \<Longrightarrow> i \<in> set stack \<Longrightarrow> i < length spans"
  by (induction stack) auto

lemma stack_ok_cong:
  assumes "stack_ok spans stack" "length spans \<le> length spans'"
    and "\<And>i. i \<in> set stack \<Longrightarrow> span_depth (spans' ! i) = span_depth (spans ! i)
           \<and> span_parent (spans' ! i) = span_parent (spans ! i)"
  shows "stack_ok spans' stack"
  using assms by (induction stack) auto

lemma spans_nested_empty [simp]: "spans_nested n [] []"
  by (simp add: spans_nested_def)

lemma spans_nested_grow:
  assumes "spans_nested n stack spans" "n \<le> m"
  shows "spans_nested m stack spans"
  using assms(1) by (auto simp: spans_nested_def intro: le_trans [OF _ assms(2)])

text \<open>Opening a span at the current position.\<close>

lemma spans_nested_open:
  assumes ok: "spans_nested n stack spans"
    and s: "span_start s = n" "span_end s = n" "span_depth s = length stack"
      "span_parent s = (case stack of [] \<Rightarrow> None | p # _ \<Rightarrow> Some p)"
  shows "spans_nested n (length spans # stack) (spans @ [s])"
proof -
  let ?m = "length spans" and ?ss = "spans @ [s]"
  note D = spans_nestedD [OF ok]
  have old: "?ss ! i = spans ! i" if "i < ?m" for i using that by (simp add: nth_append)
  have in_range: "i \<in> set stack \<Longrightarrow> i < ?m" for i using stack_ok_range [OF D(1)] .
  have "stack_ok ?ss stack"
    by (rule stack_ok_cong [OF D(1)]) (auto simp: old dest: in_range)
  then have stack: "stack_ok ?ss (?m # stack)" using s in_range by simp
  have bounds: "span_start (?ss ! i) \<le> span_end (?ss ! i) \<and> span_end (?ss ! i) \<le> n"
    if "i < length ?ss" for i
    using that D(2,3) [of i] s by (cases "i = ?m") (auto simp: old)
  have laminar: "spans_laminar (?m # stack) ?ss i j" if j: "j < length ?ss" "i < j" for i j
  proof (cases "j = ?m")
    case True
    then have i: "i < ?m" using j by simp
    then show ?thesis using True D(2,3) [OF i] s by (simp add: spans_laminar_def old)
  next
    case False
    then have j': "j < ?m" using j by simp
    then show ?thesis using D(4) [OF j' j(2)] j(2)
      by (simp add: spans_laminar_def old)
  qed
  have parent: "span_in_parent (?m # stack) ?ss i" if i: "i < length ?ss" for i
  proof (cases "i = ?m")
    case True
    show ?thesis
    proof (cases stack)
      case Nil
      then show ?thesis using True s by (simp add: span_in_parent_def)
    next
      case (Cons p st)
      then have "p < ?m" "span_depth (spans ! p) = length st" using D(1) by simp_all
      then show ?thesis using True s Cons by (simp add: span_in_parent_def old)
    qed
  next
    case False
    then have i': "i < ?m" using i by simp
    show ?thesis using D(5) [OF i'] i'
      by (auto simp: span_in_parent_def old split: option.splits)
  qed
  show ?thesis using stack bounds laminar parent by (simp add: spans_nested_def)
qed

text \<open>Closing the innermost open span at the current position.\<close>

lemma spans_nested_close:
  assumes ok: "spans_nested n (t # stack) spans"
    and f: "\<And>s. span_start (f s) = span_start s" "\<And>s. span_end (f s) = n"
      "\<And>s. span_depth (f s) = span_depth s" "\<And>s. span_parent (f s) = span_parent s"
  shows "spans_nested n stack (span_update t f spans)"
proof -
  let ?ss = "span_update t f spans"
  note D = spans_nestedD [OF ok]
  have t: "t < length spans" "t \<notin> set stack" and st: "stack_ok spans stack" using D(1) by auto
  have len: "length ?ss = length spans" using t by (simp add: span_update_def)
  have nth: "?ss ! i = (if i = t then f (spans ! i) else spans ! i)" if "i < length spans" for i
    using that t by (auto simp: span_update_def)
  have same: "span_start (?ss ! i) = span_start (spans ! i)" "span_depth (?ss ! i) = span_depth (spans ! i)"
    "span_parent (?ss ! i) = span_parent (spans ! i)" if "i < length spans" for i
    using nth [OF that] f by simp_all
  have end_t: "span_end (?ss ! t) = n" using nth [OF t(1)] f by simp
  have end_other: "span_end (?ss ! i) = span_end (spans ! i)" if "i < length spans" "i \<noteq> t" for i
    using nth that by simp
  have end_le: "span_end (?ss ! i) \<le> n" if "i < length spans" for i
    using that end_t end_other D(3) by (cases "i = t") auto
  have stack: "stack_ok ?ss stack"
    by (rule stack_ok_cong [OF st]) (auto simp: len same dest: stack_ok_range [OF st])
  have bounds: "span_start (?ss ! i) \<le> span_end (?ss ! i)" if "i < length spans" for i
    using that D(2,3) [of i] end_other [of i] end_t same(1) by (cases "i = t") auto
  have laminar: "spans_laminar stack ?ss i j" if j: "j < length spans" "i < j" for i j
  proof -
    have i: "i < length spans" using j by simp
    have L: "spans_laminar (t # stack) spans i j" by (rule D(4) [OF j])
    show ?thesis
    proof (cases "i = t")
      case True
      have "j \<notin> set stack" using D(1) True j(2) by auto
      then show ?thesis using L True end_t end_le [OF j(1)] same(1) i j
        by (simp add: spans_laminar_def)
    next
      case False
      show ?thesis
      proof (cases "j = t")
        case True
        then show ?thesis using L False end_other [OF i False] same(1) i j
          by (auto simp: spans_laminar_def)
      next
        case jt: False
        then show ?thesis using L False end_other [OF i False] end_other [OF j(1) jt] same(1) i j
          by (auto simp: spans_laminar_def)
      qed
    qed
  qed
  have parent: "span_in_parent stack ?ss i" if i: "i < length spans" for i
  proof -
    have P: "span_in_parent (t # stack) spans i" by (rule D(5) [OF i])
    show ?thesis
    proof (cases "span_parent (spans ! i)")
      case None
      then show ?thesis using P i by (simp add: span_in_parent_def same)
    next
      case (Some p)
      then have p: "p < i" "span_depth (spans ! i) = Suc (span_depth (spans ! p))"
        and within: "p \<in> set (t # stack) \<or> i \<notin> set (t # stack) \<and> span_end (spans ! i) \<le> span_end (spans ! p)"
        using P by (simp_all add: span_in_parent_def)
      have pl: "p < length spans" using p i by simp
      have "p \<in> set stack \<or> i \<notin> set stack \<and> span_end (?ss ! i) \<le> span_end (?ss ! p)"
      proof (cases "p = t")
        case True
        have "i \<notin> set stack"
        proof
          assume "i \<in> set stack"
          then have "i < t" using D(1) by auto
          then show False using p(1) True by simp
        qed
        then show ?thesis using True end_t end_le [OF i] by simp
      next
        case pt: False
        show ?thesis
        proof (cases "i = t")
          case True
          then have "p \<in> set stack" using D(1) Some by (auto split: list.splits)
          then show ?thesis by simp
        next
          case False
          then show ?thesis using within pt end_other [OF i False] end_other [OF pl pt] by auto
        qed
      qed
      then show ?thesis using Some p i pl by (simp add: span_in_parent_def same)
    qed
  qed
  show ?thesis using stack bounds end_le laminar parent len by (simp add: spans_nested_def)
qed

lemma spans_nested_close_all:
  "spans_nested n stack spans \<Longrightarrow> spans_nested n [] (close_spans n stack spans)"
proof (induction stack arbitrary: spans)
  case (Cons t stack)
  have "spans_nested n stack (span_update t (span_end_update (\<lambda>_. n)) spans)"
    by (rule spans_nested_close [OF Cons.prems]) simp_all
  then show ?case using Cons.IH by simp
qed simp

section \<open>What a draw records and answers\<close>

text \<open>
  The admissible data of a node, as in \<open>data_valid\<close>; a float is admissible when it validates or
  is what \<open>simplest\<close> or \<open>unit\<close> of its constraint computes.
\<close>

fun data_drawn :: "(f64 \<Rightarrow> f64) \<Rightarrow> choice_data \<Rightarrow> bool"
  and node_drawn :: "(f64 \<Rightarrow> f64) \<Rightarrow> choice_node \<Rightarrow> bool"
  and stream_drawn :: "(f64 \<Rightarrow> f64) \<Rightarrow> realized_stream \<Rightarrow> bool" where
  "data_drawn lc (DInteger ic v) = (integer_wf ic \<and> integer_validate ic v)"
| "data_drawn lc (DBoolean bc v) = True"
| "data_drawn lc (DFloat fc v) = float_drawn lc fc v"
| "data_drawn lc (DBytes bc v) = (bytes_wf bc \<and> bytes_validate bc v)"
| "data_drawn lc (DString sc v) = (string_wf sc \<and> string_validate sc v)"
| "data_drawn lc (DClone rs) = stream_drawn lc rs"
| "node_drawn lc (ChoiceNode d f) = data_drawn lc d"
| "stream_drawn lc (RealizedStream ns spans n) = (n = flattened_len ns \<and> list_all (node_drawn lc) ns)"

lemma data_drawn_node [simp]: "data_drawn lc (node_data n) = node_drawn lc n"
  by (cases n) simp

lemma stream_drawn_new: "list_all (node_drawn lc) ns \<Longrightarrow> stream_drawn lc (realized_stream_new ns spans)"
  by (simp add: realized_stream_new_def)

fun request_ok :: "request \<Rightarrow> bool" where
  "request_ok (DrawBytes lo hi) = (hi < 2 ^ 32)"
| "request_ok (DrawString ivs lo hi) = (hi < 2 ^ 32 \<and> iv_wf ivs \<and> printable ivs)"
| "request_ok _ = True"

primrec answers :: "(f64 \<Rightarrow> f64) \<Rightarrow> request \<Rightarrow> choice_data \<Rightarrow> response \<Rightarrow> bool" where
  "answers lc (DrawInteger fits lo hi) d x =
     (\<exists>v. x = GotInteger v \<and> d = DInteger (integer_in lo hi) v \<and> lo \<le> v \<and> v \<le> hi \<and> fits v)"
| "answers lc (DrawUniform lo hi) d x =
     (\<exists>v. x = GotInteger v \<and> d = DInteger (integer_in (int lo) (int hi)) v
        \<and> int lo \<le> v \<and> v \<le> int hi \<and> fits_u64 v)"
| "answers lc (DrawForced lo hi v) d x =
     (x = GotUnit \<and> d = DInteger (integer_in lo hi) v \<and> lo \<le> v \<and> v \<le> hi)"
| "answers lc DrawFreshId d x =
     (\<exists>v hi. x = GotInteger v \<and> d = DInteger (integer_in 0 hi) v \<and> 0 \<le> v \<and> v \<le> hi)"
| "answers lc (DrawFromSet pool) d x =
     (\<exists>v hi. x = GotInteger v \<and> v \<in> set pool \<and> d = DInteger (integer_in 0 hi) v \<and> 0 \<le> v \<and> v \<le> hi)"
| "answers lc (DrawFloat k) d x = (\<exists>v. x = GotFloat v \<and> d = DFloat k v \<and> float_drawn lc k v)"
| "answers lc (DrawBytes lo hi) d x =
     (\<exists>v. x = GotBytes v \<and> d = DBytes \<lparr>by_min_size = lo, by_max_size = hi\<rparr> v
        \<and> lo \<le> length v \<and> length v \<le> hi)"
| "answers lc (DrawString ivs lo hi) d x =
     (\<exists>v. x = GotString (codepoints_to_string v)
        \<and> d = DString \<lparr>sc_intervals = ivs, sc_min_size = lo, sc_max_size = hi\<rparr> v
        \<and> string_validate \<lparr>sc_intervals = ivs, sc_min_size = lo, sc_max_size = hi\<rparr> v)"
| "answers lc (Weighted p forced) d x =
     (\<exists>b. x = GotBoolean b \<and> d = DBoolean \<lparr>bc_p = p\<rparr> b \<and> (\<forall>v. forced = Some v \<longrightarrow> b = v))"
| "answers lc (WeightedPrecise p forced) d x =
     (\<exists>b. x = GotBoolean b \<and> d = DBoolean \<lparr>bc_p = p\<rparr> b \<and> (\<forall>v. forced = Some v \<longrightarrow> b = v))"
| "answers lc (StartSpan label) d x = False"
| "answers lc (StopSpan discard) d x = False"
| "answers lc (Conclude status origin) d x = False"
| "answers lc Freeze d x = False"

lemma emap_result: "emap f m tc = (map_sum id f (fst (m tc)), snd (m tc))"
  by (simp add: emap_def ebind_def split: prod.split sum.split)

lemma map_sum_Inr: "map_sum id f r = Inr x \<longleftrightarrow> (\<exists>y. r = Inr y \<and> x = f y)"
  by (cases r) auto

lemma records_at_emap:
  assumes "records_at D m tc" "\<And>r d. D r d \<Longrightarrow> D' (map_sum id f r) d"
  shows "records_at D' (emap f m) tc"
  unfolding records_at_def emap_result
proof (intro allI impI)
  fix r t
  assume "(map_sum id f (fst (m tc)), snd (m tc)) = (r, t)"
  then have r: "r = map_sum id f (fst (m tc))" and t: "m tc = (fst (m tc), t)" by auto
  have "(\<exists>e. fst (m tc) = Inl e) \<and> quiet tc t \<or> (\<exists>d. recorded tc d t \<and> D (fst (m tc)) d)"
    using assms(1) t unfolding records_at_def by blast
  then show "(\<exists>e. r = Inl e) \<and> quiet tc t \<or> (\<exists>d. recorded tc d t \<and> D' r d)"
    using assms(2) unfolding r by fastforce
qed

definition answered :: "(f64 \<Rightarrow> f64) \<Rightarrow> request \<Rightarrow> engine_error + response \<Rightarrow> choice_data \<Rightarrow> bool" where
  "answered lc req r d \<longleftrightarrow> data_drawn lc d \<and> (\<forall>x. r = Inr x \<longrightarrow> answers lc req d x)"

lemma string_wf_request:
  "lo \<le> hi \<Longrightarrow> iv_size ivs \<noteq> 0 \<or> hi = 0 \<Longrightarrow> hi < 2 ^ 32 \<Longrightarrow> iv_wf ivs \<Longrightarrow> printable ivs
   \<Longrightarrow> string_wf \<lparr>sc_intervals = ivs, sc_min_size = lo, sc_max_size = hi\<rparr>"
  by (auto simp: string_wf_def)

lemma perform_records:
  assumes S: "sampling_sound S" and req: "is_draw req" "request_ok req"
    and ids: "ids_ok (fc_fresh_ids (tc_family tc))" "ids_small (fc_fresh_ids (tc_family tc))"
  shows "records_at (answered lc req) (perform lc S req) tc"
proof (cases req)
  case (DrawInteger fits lo hi)
  show ?thesis unfolding DrawInteger perform.simps
    by (rule records_at_emap [OF records_records_at [OF records_draw_integer [OF S]]])
       (auto simp: answered_def integer_in_wf integer_validate_def split: if_splits)
next
  case (DrawUniform lo hi)
  show ?thesis unfolding DrawUniform perform.simps
    by (rule records_at_emap [OF records_records_at [OF records_draw_integer_uniform [OF S]]])
       (auto simp: answered_def integer_in_wf integer_validate_def split: if_splits)
next
  case (DrawForced lo hi v)
  show ?thesis unfolding DrawForced perform.simps
    by (rule records_at_emap [OF records_records_at [OF records_draw_integer_forced]])
       (auto simp: answered_def integer_in_wf integer_validate_def map_sum_Inr)
next
  case DrawFreshId
  show ?thesis unfolding DrawFreshId perform.simps
    by (rule records_at_emap [OF records_fresh_id [OF ids]])
       (auto simp: answered_def integer_in_wf integer_validate_def)
next
  case (DrawFromSet pool)
  show ?thesis unfolding DrawFromSet perform.simps
    by (rule records_at_emap [OF records_from_set [OF S ids]])
       (auto simp: answered_def integer_in_wf integer_validate_def)
next
  case (DrawFloat k)
  show ?thesis unfolding DrawFloat perform.simps
    by (rule records_at_emap [OF records_records_at [OF records_draw_float [OF S]]])
       (auto simp: answered_def)
next
  case (DrawBytes lo hi)
  then have small: "hi < 2 ^ 32" using req(2) by simp
  show ?thesis unfolding DrawBytes perform.simps
    by (rule records_at_emap [OF records_records_at [OF records_draw_bytes [OF S small]]])
       (use small in \<open>auto simp: answered_def bytes_wf_def bytes_validate_def\<close>)
next
  case (DrawString ivs lo hi)
  let ?k = "\<lparr>sc_intervals = ivs, sc_min_size = lo, sc_max_size = hi\<rparr>"
  have rec: "records (\<lambda>r d. string_wf ?k \<and> (\<exists>v. d = DString ?k v \<and> string_validate ?k v
      \<and> r = Inr (codepoints_to_string v))) (draw_string lc S ivs lo hi)"
    by (rule records_draw_string [OF S]) (use req(2) DrawString string_wf_request in auto)
  show ?thesis unfolding DrawString perform.simps
    by (rule records_at_emap [OF records_records_at [OF rec]]) (auto simp: answered_def)
next
  case (Weighted p forced)
  show ?thesis unfolding Weighted perform.simps weighted_def
    by (rule records_at_emap [OF records_records_at [OF records_weighted_with]])
       (auto simp: answered_def)
next
  case (WeightedPrecise p forced)
  show ?thesis unfolding WeightedPrecise perform.simps weighted_precise_def
    by (rule records_at_emap [OF records_records_at [OF records_weighted_with]])
       (auto simp: answered_def)
qed (use req in simp_all)

section \<open>The stream invariant\<close>

definition stream_ok :: "(f64 \<Rightarrow> f64) \<Rightarrow> 'r test_case \<Rightarrow> bool" where
  "stream_ok lc tc \<longleftrightarrow>
     mirrored (tc_family tc) \<and> ids_ok (fc_fresh_ids (tc_family tc))
   \<and> length (tc_nodes tc) \<le> tc_max_size tc
   \<and> list_all (node_drawn lc) (tc_nodes tc)
   \<and> spans_nested (length (tc_nodes tc)) (tc_span_stack tc) (tc_spans tc)
   \<and> (tc_frozen tc \<longrightarrow> tc_status tc \<noteq> None)"

lemma stream_okI:
  assumes "mirrored (tc_family tc)" "ids_ok (fc_fresh_ids (tc_family tc))"
    "length (tc_nodes tc) \<le> tc_max_size tc" "list_all (node_drawn lc) (tc_nodes tc)"
    "spans_nested (length (tc_nodes tc)) (tc_span_stack tc) (tc_spans tc)"
    "tc_frozen tc \<Longrightarrow> tc_status tc \<noteq> None"
  shows "stream_ok lc tc"
  using assms by (simp add: stream_ok_def)

lemma stream_okD:
  assumes "stream_ok lc tc"
  shows "mirrored (tc_family tc)" "ids_ok (fc_fresh_ids (tc_family tc))"
    "length (tc_nodes tc) \<le> tc_max_size tc" "list_all (node_drawn lc) (tc_nodes tc)"
    "spans_nested (length (tc_nodes tc)) (tc_span_stack tc) (tc_spans tc)"
    "tc_frozen tc \<Longrightarrow> tc_status tc \<noteq> None"
  using assms by (simp_all add: stream_ok_def)

lemma status_mirrored: "mirrored fam \<Longrightarrow> family_status fam \<noteq> None \<longleftrightarrow> fc_conclusion fam \<noteq> None"
  by (auto simp: mirrored_def)

lemma family_quiet_status:
  assumes "family_quiet f g" "mirrored f" "family_status f \<noteq> None"
  shows "family_status g = family_status f"
  using family_quiet_fields [OF assms(1)] assms(2,3) status_mirrored [OF assms(2)]
  by (simp add: mirrored_def)

lemma quiet_ok:
  assumes "quiet tc t" "stream_ok lc tc"
  shows "stream_ok lc t"
proof -
  note q = quiet_fields [OF assms(1)] and ok = stream_okD [OF assms(2)]
  note fq = family_quiet_fields [OF q(15)]
  show ?thesis
  proof (rule stream_okI)
    assume "tc_frozen t"
    then have "tc_status tc \<noteq> None" using ok(6) q by simp
    then show "tc_status t \<noteq> None" using family_quiet_status [OF q(15) ok(1)] by (simp add: tc_status_def)
  qed (use q ok fq in simp_all)
qed

text \<open>The parts of a state after a recorded choice.\<close>

lemma recorded_fields:
  assumes "recorded tc d t"
  obtains f where "tc_nodes t = tc_nodes tc @ [ChoiceNode d f]" "has_room tc"
    "tc_spans t = tc_spans tc" "tc_span_stack t = tc_span_stack tc" "tc_max_size t = tc_max_size tc"
    "tc_frozen t = tc_frozen tc" "tc_status t = None" "tc_clone_id t = tc_clone_id tc"
    "tc_clone_counter t = tc_clone_counter tc" "tc_clone_children t = tc_clone_children tc"
    "ids_step (fc_fresh_ids (tc_family tc)) d (fc_fresh_ids (tc_family t))"
    "fc_conclusion (tc_family t) = fc_conclusion (tc_family tc)"
    "mirrored (tc_family tc) \<Longrightarrow> mirrored (tc_family t)"
    "fc_budget (tc_family t) = fc_budget (tc_family tc)"
    "fc_total_draws (tc_family t) = fc_total_draws (tc_family tc) + 1"
    "tc_labels t = tc_labels tc" "tc_tags t = tc_tags tc" "tc_prefix t = tc_prefix tc"
    "tc_prefix_nodes t = tc_prefix_nodes tc" "tc_has_discards t = tc_has_discards tc"
proof -
  obtain u f ob ids where u: "has_room tc" "advances tc u" "ids_step (fc_fresh_ids (tc_family tc)) d ids"
    and t: "t = push_node (ChoiceNode d f) (notify ob (u\<lparr>tc_family := (tc_family u)\<lparr>fc_fresh_ids := ids\<rparr>\<rparr>))"
    using assms by (auto simp: recorded_def)
  show ?thesis
    by (rule that [of f])
       (use u in \<open>auto simp: t push_node_def notify_def advances_def has_room_def tc_status_def mirrored_def\<close>)
qed

lemma recorded_ok:
  assumes rec: "recorded tc d t" and d: "data_drawn lc d" and ok: "stream_ok lc tc"
  shows "stream_ok lc t"
proof -
  note O = stream_okD [OF ok]
  show ?thesis
  proof (rule recorded_fields [OF rec])
    fix f
    assume n: "tc_nodes t = tc_nodes tc @ [ChoiceNode d f]"
      and same: "tc_spans t = tc_spans tc" "tc_span_stack t = tc_span_stack tc" "tc_max_size t = tc_max_size tc"
        "tc_frozen t = tc_frozen tc"
      and room: "has_room tc" and ids: "ids_step (fc_fresh_ids (tc_family tc)) d (fc_fresh_ids (tc_family t))"
      and mir: "mirrored (tc_family tc) \<Longrightarrow> mirrored (tc_family t)"
    have "\<not> tc_frozen tc" using O(6) room by (auto simp: has_room_def)
    moreover have "spans_nested (length (tc_nodes t)) (tc_span_stack t) (tc_spans t)"
      using spans_nested_grow [OF O(5)] n same by simp
    ultimately show ?thesis
      using n same room mir [OF O(1)] O(4) d ids_step_ok [OF ids O(2)] by (intro stream_okI) (auto simp: has_room_def)
  qed
qed

lemma conclude_fields [simp]:
  "tc_nodes (conclude s og tc) = tc_nodes tc" "tc_spans (conclude s og tc) = tc_spans tc"
  "tc_span_stack (conclude s og tc) = tc_span_stack tc" "tc_max_size (conclude s og tc) = tc_max_size tc"
  "tc_frozen (conclude s og tc) = tc_frozen tc" "tc_clone_id (conclude s og tc) = tc_clone_id tc"
  "tc_clone_counter (conclude s og tc) = tc_clone_counter tc"
  "tc_clone_children (conclude s og tc) = tc_clone_children tc"
  "tc_labels (conclude s og tc) = tc_labels tc"
  "tc_family (conclude s og tc) = family_conclude s og (tc_family tc)"
  by (simp_all add: conclude_def)

lemma family_conclude_fields [simp]:
  "fc_fresh_ids (family_conclude s og fam) = fc_fresh_ids fam"
  "fc_budget (family_conclude s og fam) = fc_budget fam"
  "fc_total_draws (family_conclude s og fam) = fc_total_draws fam"
  "fc_conclusion (family_conclude s og fam) = Some (case fc_conclusion fam of Some c \<Rightarrow> c | None \<Rightarrow> (s, og))"
  by (auto simp: family_conclude_def split: option.split)

lemma conclude_ok: "stream_ok lc tc \<Longrightarrow> stream_ok lc (conclude s og tc)"
  by (auto simp: stream_ok_def tc_status_def mirrored_conclude status_conclude)

lemma notify_fields [simp]:
  "tc_nodes (notify ob tc) = tc_nodes tc" "tc_spans (notify ob tc) = tc_spans tc"
  "tc_span_stack (notify ob tc) = tc_span_stack tc" "tc_max_size (notify ob tc) = tc_max_size tc"
  "tc_frozen (notify ob tc) = tc_frozen tc" "tc_clone_id (notify ob tc) = tc_clone_id tc"
  "tc_clone_counter (notify ob tc) = tc_clone_counter tc"
  "tc_clone_children (notify ob tc) = tc_clone_children tc" "tc_family (notify ob tc) = tc_family tc"
  "tc_labels (notify ob tc) = tc_labels tc"
  by (simp_all add: notify_def)

lemma freeze_fields [simp]:
  "tc_nodes (freeze tc) = tc_nodes tc" "tc_max_size (freeze tc) = tc_max_size tc"
  "tc_frozen (freeze tc)" "tc_clone_id (freeze tc) = tc_clone_id tc"
  "tc_clone_counter (freeze tc) = tc_clone_counter tc"
  "tc_clone_children (freeze tc) = tc_clone_children tc"
  "tc_family (freeze tc) = (if tc_frozen tc then tc_family tc else family_conclude Valid None (tc_family tc))"
  "tc_spans (freeze tc) = (if tc_frozen tc then tc_spans tc
     else close_spans (length (tc_nodes tc)) (tc_span_stack tc) (tc_spans tc))"
  "tc_span_stack (freeze tc) = (if tc_frozen tc then tc_span_stack tc else [])"
  by (auto simp: freeze_def Let_def split: option.split)

lemma freeze_ok:
  assumes "stream_ok lc tc"
  shows "stream_ok lc (freeze tc)"
proof (rule stream_okI)
  note O = stream_okD [OF assms]
  show "spans_nested (length (tc_nodes (freeze tc))) (tc_span_stack (freeze tc)) (tc_spans (freeze tc))"
    using O(5) spans_nested_close_all by simp
  show "tc_status (freeze tc) \<noteq> None"
    using O(1,6) by (auto simp: tc_status_def status_conclude)
qed (use stream_okD [OF assms] in \<open>simp_all add: mirrored_conclude\<close>)

lemma start_span_ok:
  assumes ok: "stream_ok lc tc" and m: "start_span label tc = (i, t)"
  shows "stream_ok lc t"
proof -
  note O = stream_okD [OF ok]
  let ?sp = "\<lparr>span_start = length (tc_nodes tc), span_end = length (tc_nodes tc),
      span_label = decimal (unat label), span_depth = length (tc_span_stack tc),
      span_parent = (case tc_span_stack tc of [] \<Rightarrow> None | t # _ \<Rightarrow> Some t), span_discarded = False\<rparr>"
  let ?t = "tc\<lparr>tc_spans := tc_spans tc @ [?sp], tc_span_stack := length (tc_spans tc) # tc_span_stack tc,
      tc_labels := {label} # tc_labels tc\<rparr>"
  have "stream_ok lc ?t"
  proof (rule stream_okI)
    show "spans_nested (length (tc_nodes ?t)) (tc_span_stack ?t) (tc_spans ?t)"
      using spans_nested_open [OF O(5), of ?sp] by simp
  qed (use O in \<open>simp_all add: tc_status_def\<close>)
  then have "stream_ok lc (freeze (conclude Invalid None ?t))" and "stream_ok lc ?t"
    by (auto intro: freeze_ok conclude_ok)
  then show ?thesis using m by (auto simp: start_span_def Let_def split: if_splits)
qed

lemma promote_labels_fields [simp]:
  "tc_nodes (promote_labels d tc) = tc_nodes tc" "tc_spans (promote_labels d tc) = tc_spans tc"
  "tc_span_stack (promote_labels d tc) = tc_span_stack tc" "tc_max_size (promote_labels d tc) = tc_max_size tc"
  "tc_frozen (promote_labels d tc) = tc_frozen tc" "tc_clone_id (promote_labels d tc) = tc_clone_id tc"
  "tc_clone_counter (promote_labels d tc) = tc_clone_counter tc"
  "tc_clone_children (promote_labels d tc) = tc_clone_children tc"
  "tc_family (promote_labels d tc) = tc_family tc"
  by (simp_all add: promote_labels_def Let_def split: list.split)

lemma stop_span_ok:
  assumes ok: "stream_ok lc tc"
  shows "stream_ok lc (stop_span discard tc)"
proof (cases "tc_span_stack tc")
  case Nil
  then show ?thesis using ok by (simp add: stop_span_def)
next
  case (Cons idx stack)
  note O = stream_okD [OF ok]
  show ?thesis
  proof (rule stream_okI)
    show "spans_nested (length (tc_nodes (stop_span discard tc))) (tc_span_stack (stop_span discard tc))
       (tc_spans (stop_span discard tc))"
      using O(5) Cons by (simp add: stop_span_def) (rule spans_nested_close; simp)
  qed (use O Cons in \<open>simp_all add: stop_span_def tc_status_def\<close>)
qed

lemma stop_span_fields [simp]:
  "tc_nodes (stop_span d tc) = tc_nodes tc" "tc_max_size (stop_span d tc) = tc_max_size tc"
  "tc_frozen (stop_span d tc) = tc_frozen tc" "tc_clone_id (stop_span d tc) = tc_clone_id tc"
  "tc_clone_counter (stop_span d tc) = tc_clone_counter tc"
  "tc_clone_children (stop_span d tc) = tc_clone_children tc"
  "tc_family (stop_span d tc) = tc_family tc"
  by (simp_all add: stop_span_def split: list.split)

lemma start_span_fields:
  assumes "start_span label tc = (i, t)"
  shows "tc_nodes t = tc_nodes tc" "tc_max_size t = tc_max_size tc" "tc_clone_id t = tc_clone_id tc"
    "tc_clone_counter t = tc_clone_counter tc" "tc_clone_children t = tc_clone_children tc"
    "tc_family t = tc_family tc \<or> tc_family t = family_conclude Invalid None (tc_family tc)
       \<or> tc_family t = family_conclude Valid None (family_conclude Invalid None (tc_family tc))"
  using assms by (auto simp: start_span_def Let_def split: if_splits)

text \<open>The cases of a request: nothing recorded, one choice recorded, or no draw at all.\<close>

lemma perform_cases:
  assumes S: "sampling_sound S" and req: "request_ok req" and ok: "stream_ok lc tc"
    and small: "ids_small (fc_fresh_ids (tc_family tc))" and m: "perform lc S req tc = (r, t)"
  obtains (failed) e where "is_draw req" "r = Inl e" "quiet tc t"
  | (recorded) d where "is_draw req" "recorded tc d t" "answered lc req r d"
  | (other) "\<not> is_draw req" "stream_ok lc t"
proof (cases "is_draw req")
  case True
  have "records_at (answered lc req) (perform lc S req) tc"
    by (rule perform_records [OF S True req stream_okD(2) [OF ok] small])
  then show ?thesis using m True failed recorded unfolding records_at_def by blast
next
  case False
  have "stream_ok lc t"
    using False m ok conclude_ok freeze_ok stop_span_ok start_span_ok
    by (cases req) (auto split: prod.splits)
  then show ?thesis using False other by blast
qed

lemma perform_ok:
  assumes "sampling_sound S" "request_ok req" "stream_ok lc tc"
    "ids_small (fc_fresh_ids (tc_family tc))" "perform lc S req tc = (r, t)"
  shows "stream_ok lc t"
  using perform_cases [OF assms] quiet_ok [OF _ assms(3)] recorded_ok [OF _ _ assms(3)]
  unfolding answered_def by metis

section \<open>The verdict is final\<close>

text \<open>The family only moves forward: its verdict stays and its registry grows.\<close>

definition family_evolves :: "family \<Rightarrow> family \<Rightarrow> bool" where
  "family_evolves f g \<longleftrightarrow>
     (fc_conclusion f \<noteq> None \<longrightarrow> fc_conclusion g = fc_conclusion f)
   \<and> fc_fresh_ids f \<subseteq> fc_fresh_ids g \<and> fc_total_draws f \<le> fc_total_draws g
   \<and> (mirrored f \<longrightarrow> mirrored g)"

lemma family_evolves_refl: "family_evolves f f"
  by (simp add: family_evolves_def)

lemma family_evolves_trans: "family_evolves f g \<Longrightarrow> family_evolves g h \<Longrightarrow> family_evolves f h"
  by (auto simp: family_evolves_def)

lemma family_evolves_conclude: "family_evolves f (family_conclude s og f)"
  by (auto simp: family_evolves_def mirrored_conclude)

lemma family_evolves_quiet: "family_quiet f g \<Longrightarrow> family_evolves f g"
  using family_quiet_fields [of f g] by (auto simp: family_evolves_def)

lemma family_evolves_recorded:
  assumes "recorded tc d t"
  shows "family_evolves (tc_family tc) (tc_family t)"
  by (rule recorded_fields [OF assms]) (auto simp: family_evolves_def ids_step_def)

lemma perform_evolves:
  assumes "sampling_sound S" "request_ok req" "stream_ok lc tc"
    "ids_small (fc_fresh_ids (tc_family tc))" "perform lc S req tc = (r, t)"
  shows "family_evolves (tc_family tc) (tc_family t)"
  using assms
proof (cases rule: perform_cases)
  case (failed e)
  then show ?thesis using family_evolves_quiet quiet_fields(15) by blast
next
  case (recorded d)
  then show ?thesis using family_evolves_recorded by blast
next
  case other
  show ?thesis
  proof (cases req)
    case (StartSpan label)
    then obtain i where m: "start_span label tc = (i, t)" using assms(5) by (auto split: prod.splits)
    show ?thesis using start_span_fields(6) [OF m] family_evolves_conclude family_evolves_refl
        family_evolves_trans by metis
  qed (use other assms(5) in \<open>auto simp: family_evolves_refl family_evolves_conclude\<close>)
qed

lemma pre_choice_concluded: "tc_status tc = Some s \<Longrightarrow> pre_choice tc = (Inl (verdict_error s), tc)"
  by (simp add: pre_choice_def)

text \<open>Once the family is concluded a draw fails and changes nothing.\<close>

lemma draw_concluded:
  assumes st: "tc_status tc = Some s" and d: "is_draw req"
  shows "\<exists>e. perform lc S req tc = (Inl e, tc) \<and> (e = verdict_error s \<or> (\<exists>x. e = EngineInternal x))"
proof -
  have resolve: "resolve_choice lc a b c random tc = (Inl (verdict_error s), tc)" for a b c random
    by (simp add: resolve_choice_def pre_choice_concluded [OF st])
  note defs = emap_result draw_integer_def draw_integer_from_def draw_integer_uniform_def
    draw_integer_forced_def draw_fresh_id_def draw_from_set_def draw_float_def draw_bytes_def
    draw_string_def weighted_def weighted_precise_def weighted_with_def Let_def
  show ?thesis
    using d by (cases req)
      (auto simp: defs ebind_def resolve pre_choice_concluded [OF st] hegel_internal_assert_def split: option.split)
qed

end
