(* ===== verification/FamilyRuns.thy ===== *)
theory FamilyRuns
  imports StreamFacts
begin

text \<open>
  Runs of a whole family: streams are driven in any order, each request and each clone one step
  of a transition relation on the store. What holds along every run: the invariant of the
  store, the finality of the verdict, and the uniqueness of fresh identifiers across streams.
\<close>

section \<open>Steps\<close>

datatype event =
    Request handle request "engine_error + response"
  | Clone handle "engine_error + handle"

inductive family_step ::
  "(f64 \<Rightarrow> f64) \<Rightarrow> 'r sampling \<Rightarrow> 'r store \<Rightarrow> event \<Rightarrow> 'r store \<Rightarrow> bool" for lc S where
  request: "on_stream h (perform lc S req) st = Some (r, st')
    \<Longrightarrow> family_step lc S st (Request h req r) st'"
| clone: "clone_stream S h st = Some (r, st') \<Longrightarrow> family_step lc S st (Clone h r) st'"

inductive family_run ::
  "(f64 \<Rightarrow> f64) \<Rightarrow> 'r sampling \<Rightarrow> 'r store \<Rightarrow> event list \<Rightarrow> 'r store \<Rightarrow> bool" for lc S where
  stop: "family_run lc S st [] st"
| more: "family_step lc S st e st' \<Longrightarrow> family_run lc S st' tr st'' \<Longrightarrow> family_run lc S st (e # tr) st''"

inductive_cases request_stepE: "family_step lc S st (Request h req r) st'"
inductive_cases clone_stepE: "family_step lc S st (Clone h r) st'"
inductive_cases run_NilE: "family_run lc S st [] st'"
inductive_cases run_ConsE: "family_run lc S st (e # tr) st'"

fun event_ok :: "event \<Rightarrow> bool" where
  "event_ok (Request h req r) = request_ok req"
| "event_ok (Clone h r) = True"

section \<open>Cloning\<close>

lemma family_evolves_conclude_tc: "family_evolves (tc_family tc) (tc_family (conclude s og tc))"
  by (simp add: family_evolves_conclude)

lemma family_evolves_freeze: "family_evolves (tc_family tc) (tc_family (freeze tc))"
  by (simp add: family_evolves_refl family_evolves_conclude)

lemma clone_child_cases:
  assumes m: "clone_child S tc = (r, t)" and ok: "stream_ok lc tc"
  obtains (failed) e where "r = Inl e" "stream_ok lc t" "family_evolves (tc_family tc) (tc_family t)"
      "fc_fresh_ids (tc_family t) = fc_fresh_ids (tc_family tc)"
      "tc_nodes t = tc_nodes tc" "tc_clone_counter t = tc_clone_counter tc"
      "tc_clone_children t = tc_clone_children tc" "tc_clone_id t = tc_clone_id tc"
  | (cloned) child where "r = Inr child" "has_room tc" "stream_ok lc t" "stream_ok lc child"
      "family_evolves (tc_family tc) (tc_family t)" "tc_family child = tc_family t"
      "fc_fresh_ids (tc_family t) = fc_fresh_ids (tc_family tc)"
      "fc_conclusion (tc_family t) = fc_conclusion (tc_family tc)"
      "tc_nodes t = tc_nodes tc @ [ChoiceNode (DClone realized_stream_empty) False]"
      "tc_clone_counter t = Suc (tc_clone_counter tc)"
      "tc_clone_children t = tc_clone_children tc @ [(length (tc_nodes tc), tc_clone_id child)]"
      "tc_clone_id t = tc_clone_id tc" "tc_clone_id child = tc_clone_id tc @ [tc_clone_counter tc]"
      "length (tc_clone_id child) \<le> MAX_CLONE_DEPTH"
      "tc_nodes child = []" "tc_clone_counter child = 0" "tc_clone_children child = []"
proof -
  obtain r1 u where pre: "pre_choice tc = (r1, u)" by fastforce
  note O = stream_okD [OF ok]
  show ?thesis
  proof (cases rule: pre_choice_cases [OF pre])
    case (1 e)
    then have "r = Inl e" "t = u" using m pre by (simp_all add: clone_child_def)
    then show ?thesis using 1 quiet_ok [OF _ ok] quiet_fields [of tc u]
        family_quiet_fields(2) [of "tc_family tc" "tc_family u"] family_evolves_quiet
      by (intro failed) auto
  next
    case 2
    have room: "has_room tc" using 2 by (simp add: has_room_def)
    have uok: "stream_ok lc u"
      using O 2(5) by (auto intro!: stream_okI simp: tc_status_def)
    have evu: "family_evolves (tc_family tc) (tc_family u)"
      using 2(5) by (simp add: family_evolves_def)
    have go: "clone_child S tc = ebind get_state (\<lambda>tc.
       if MAX_CLONE_DEPTH < length (tc_clone_id tc) + 1
       then ebind (modify (\<lambda>tc. freeze (conclude Invalid None tc))) (\<lambda>_. throw InvalidTestCase)
       else
         let idx = length (tc_nodes tc);
             (pre, pre_nodes) = child_prefix tc;
             spawned = map_option (rng_spawn S) (tc_rng tc);
             child_rng = map_option fst spawned;
             child_template = map_option (\<lambda>t. \<lparr>ct_kind = ct_kind t, ct_count = None\<rparr>) (tc_template tc);
             child_max_size = (if child_rng \<noteq> None \<or> child_template \<noteq> None then USIZE_MAX else length pre);
             child_id = tc_clone_id tc @ [tc_clone_counter tc]
         in ebind (modify (\<lambda>tc. tc\<lparr>tc_rng := map_option snd spawned,
                     tc_clone_counter := tc_clone_counter tc + 1,
                     tc_nodes := tc_nodes tc @ [ChoiceNode (DClone realized_stream_empty) False],
                     tc_clone_children := tc_clone_children tc @ [(idx, child_id)]\<rparr>)) (\<lambda>_.
            ret (new_stream pre pre_nodes child_rng child_template child_max_size None
                   (tc_nondeterministic tc) (tc_family tc) child_id))) u"
      using pre 2(1) by (simp add: clone_child_def)
    show ?thesis
    proof (cases "MAX_CLONE_DEPTH < length (tc_clone_id u) + 1")
      case True
      then have r: "r = Inl InvalidTestCase" and t: "t = freeze (conclude Invalid None u)"
        using m go by (simp_all add: ebind_def)
      show ?thesis
      proof (rule failed [OF r])
        show "stream_ok lc t" unfolding t by (intro freeze_ok conclude_ok uok)
        show "family_evolves (tc_family tc) (tc_family t)"
          using family_evolves_trans [OF evu family_evolves_trans [OF family_evolves_conclude_tc
              family_evolves_freeze]] unfolding t .
      qed (use 2(5) in \<open>simp_all add: t\<close>)
    next
      case False
      obtain pre pn where cp: "child_prefix u = (pre, pn)" by fastforce
      obtain rng tpl ms where
        t: "t = u\<lparr>tc_rng := rng, tc_clone_counter := tc_clone_counter u + 1,
              tc_nodes := tc_nodes u @ [ChoiceNode (DClone realized_stream_empty) False],
              tc_clone_children := tc_clone_children u @ [(length (tc_nodes u), tc_clone_id u @ [tc_clone_counter u])]\<rparr>"
        and r: "\<exists>crng. r = Inr (new_stream pre pn crng tpl ms None (tc_nondeterministic u) (tc_family u)
              (tc_clone_id u @ [tc_clone_counter u]))"
        using m go False cp by (auto simp: ebind_def Let_def)
      then obtain crng where child: "r = Inr (new_stream pre pn crng tpl ms None (tc_nondeterministic u)
          (tc_family u) (tc_clone_id u @ [tc_clone_counter u]))" by blast
      show ?thesis
      proof (rule cloned [OF child room])
        show "stream_ok lc t"
        proof (rule stream_okI)
          show "spans_nested (length (tc_nodes t)) (tc_span_stack t) (tc_spans t)"
            using spans_nested_grow [OF O(5)] 2(5) by (simp add: t)
          show "list_all (node_drawn lc) (tc_nodes t)"
            using O(4) 2(5) by (simp add: t realized_stream_empty_def stream_drawn_new)
          show "tc_frozen t \<Longrightarrow> tc_status t \<noteq> None" using O(6) 2(2,5) by (simp add: t tc_status_def)
        qed (use O 2 in \<open>simp_all add: t\<close>)
        show "stream_ok lc (new_stream pre pn crng tpl ms None (tc_nondeterministic u) (tc_family u)
            (tc_clone_id u @ [tc_clone_counter u]))"
          using stream_okD(1,2) [OF uok] by (intro stream_okI) (simp_all add: new_stream_def)
        show "family_evolves (tc_family tc) (tc_family t)" using evu by (simp add: t)
      qed (use 2(5) False in \<open>simp_all add: t new_stream_def\<close>)
    qed
  qed
qed

section \<open>The invariant of the store\<close>

text \<open>
  A stream's clones are numbered by its counter: the handle of each is recorded with the index
  of its clone node, and a handle not yet given out is free.
\<close>

definition children_ok :: "'r store \<Rightarrow> handle \<Rightarrow> 'r test_case \<Rightarrow> bool" where
  "children_ok st h tc \<longleftrightarrow>
     (\<forall>(idx, c) \<in> set (tc_clone_children tc). idx < length (tc_nodes tc) \<and> c \<in> dom (st_streams st)
        \<and> (\<exists>k. c = h @ [k]))
   \<and> distinct (map snd (tc_clone_children tc))
   \<and> (\<forall>k. h @ [k] \<in> dom (st_streams st) \<longrightarrow> k < tc_clone_counter tc)"

definition store_ok :: "(f64 \<Rightarrow> f64) \<Rightarrow> 'r store \<Rightarrow> bool" where
  "store_ok lc st \<longleftrightarrow>
     (\<forall>h tc. st_streams st h = Some tc \<longrightarrow>
        stream_ok lc (locked st tc) \<and> tc_clone_id tc = h \<and> length h \<le> MAX_CLONE_DEPTH
        \<and> children_ok st h tc)
   \<and> mirrored (st_family st) \<and> ids_ok (fc_fresh_ids (st_family st))
   \<and> [] \<in> dom (st_streams st)
   \<and> (\<forall>h k. h @ [k] \<in> dom (st_streams st) \<longrightarrow> h \<in> dom (st_streams st))"

lemma store_okD:
  assumes "store_ok lc st" "st_streams st h = Some tc"
  shows "stream_ok lc (locked st tc)" "tc_clone_id tc = h" "length h \<le> MAX_CLONE_DEPTH"
    "children_ok st h tc"
  using assms by (auto simp: store_ok_def)

lemma locked_fields [simp]:
  "tc_nodes (locked st tc) = tc_nodes tc" "tc_spans (locked st tc) = tc_spans tc"
  "tc_span_stack (locked st tc) = tc_span_stack tc" "tc_max_size (locked st tc) = tc_max_size tc"
  "tc_frozen (locked st tc) = tc_frozen tc" "tc_clone_id (locked st tc) = tc_clone_id tc"
  "tc_clone_counter (locked st tc) = tc_clone_counter tc"
  "tc_clone_children (locked st tc) = tc_clone_children tc" "tc_family (locked st tc) = st_family st"
  "tc_status (locked st tc) = family_status (st_family st)"
  by (simp_all add: locked_def tc_status_def)

lemma unlock_fields [simp]:
  "st_family (unlock h tc st) = tc_family tc" "st_streams (unlock h tc st) = (st_streams st)(h \<mapsto> tc)"
  by (simp_all add: unlock_def)

lemma locked_self: "st_family st = tc_family tc \<Longrightarrow> locked st tc = tc"
  by (cases tc) (simp add: locked_def)

text \<open>A stream at rest stays in its invariant while the family evolves.\<close>

lemma stream_ok_evolves:
  assumes ok: "stream_ok lc (locked st tc)" and ev: "family_evolves (st_family st) (st_family st')"
    and ids: "ids_ok (fc_fresh_ids (st_family st'))"
  shows "stream_ok lc (locked st' tc)"
proof -
  note O = stream_okD [OF ok]
  have mir: "mirrored (st_family st')" using ev O(1) by (simp add: family_evolves_def)
  show ?thesis
  proof (rule stream_okI)
    assume "tc_frozen (locked st' tc)"
    then have "family_status (st_family st) \<noteq> None" using O(6) by simp
    then have "fc_conclusion (st_family st) \<noteq> None" using status_mirrored O(1) by simp
    then have "fc_conclusion (st_family st') \<noteq> None" using ev by (simp add: family_evolves_def)
    then show "tc_status (locked st' tc) \<noteq> None" using status_mirrored [OF mir] by simp
  qed (use O mir ids in simp_all)
qed

lemma children_ok_cong:
  assumes "children_ok st h tc" "dom (st_streams st) \<subseteq> dom (st_streams st')"
    "tc_clone_children tc' = tc_clone_children tc" "length (tc_nodes tc) \<le> length (tc_nodes tc')"
    "\<And>k. h @ [k] \<in> dom (st_streams st') \<Longrightarrow> k < tc_clone_counter tc'"
  shows "children_ok st' h tc'"
  using assms unfolding children_ok_def by fastforce

text \<open>An operation on one stream that keeps its identity, clones and invariant.\<close>

lemma unlock_ok:
  assumes ok: "store_ok lc st" and h: "st_streams st h = Some tc"
    and t: "stream_ok lc t" "family_evolves (st_family st) (tc_family t)"
    and same: "tc_clone_id t = tc_clone_id tc" "tc_clone_counter t = tc_clone_counter tc"
      "tc_clone_children t = tc_clone_children tc" "length (tc_nodes tc) \<le> length (tc_nodes t)"
  shows "store_ok lc (unlock h t st)"
proof -
  let ?st = "unlock h t st"
  note T = stream_okD [OF t(1)]
  have dom: "dom (st_streams ?st) = dom (st_streams st)" using h by auto
  have lt: "locked ?st t = t" by (cases t) (simp add: locked_def)
  have kids: "k < tc_clone_counter tc'" if "st_streams st h' = Some tc'" "h' @ [k] \<in> dom (st_streams st)" for h' tc' k
    using store_okD(4) [OF ok that(1)] that(2) by (auto simp: children_ok_def)
  have "stream_ok lc (locked ?st tc') \<and> tc_clone_id tc' = h' \<and> length h' \<le> MAX_CLONE_DEPTH \<and> children_ok ?st h' tc'"
    if h': "st_streams ?st h' = Some tc'" for h' tc'
  proof (cases "h' = h")
    case True
    then have t': "tc' = t" using h' by simp
    have "children_ok ?st h t"
      by (rule children_ok_cong [OF store_okD(4) [OF ok h]], unfold dom)
         (use same kids [OF h] in simp_all)
    then show ?thesis using store_okD(2,3) [OF ok h] t(1) lt same(1) True t' by simp
  next
    case False
    then have old: "st_streams st h' = Some tc'" using h' by simp
    have "children_ok ?st h' tc'"
      by (rule children_ok_cong [OF store_okD(4) [OF ok old]], unfold dom)
         (use kids [OF old] in simp_all)
    then show ?thesis
      using store_okD(2,3) [OF ok old] stream_ok_evolves [OF store_okD(1) [OF ok old], of ?st] t(2) T(2)
      by simp
  qed
  moreover have "[] \<in> dom (st_streams ?st)" using ok dom by (simp add: store_ok_def)
  moreover have "\<forall>h k. h @ [k] \<in> dom (st_streams ?st) \<longrightarrow> h \<in> dom (st_streams ?st)"
    unfolding dom using ok by (simp add: store_ok_def)
  ultimately show ?thesis using T(1,2) unfolding store_ok_def by simp
qed

lemma perform_frame:
  assumes "sampling_sound S" "request_ok req" "stream_ok lc tc"
    "ids_small (fc_fresh_ids (tc_family tc))" "perform lc S req tc = (r, t)"
  shows "tc_clone_id t = tc_clone_id tc" "tc_clone_counter t = tc_clone_counter tc"
    "tc_clone_children t = tc_clone_children tc" "length (tc_nodes tc) \<le> length (tc_nodes t)"
proof -
  have "tc_clone_id t = tc_clone_id tc \<and> tc_clone_counter t = tc_clone_counter tc
     \<and> tc_clone_children t = tc_clone_children tc \<and> length (tc_nodes tc) \<le> length (tc_nodes t)"
    using assms
  proof (cases rule: perform_cases)
    case (failed e)
    then show ?thesis using quiet_fields [OF failed(3)] by simp
  next
    case (recorded d)
    show ?thesis by (rule recorded_fields [OF recorded(2)]) simp
  next
    case other
    show ?thesis
    proof (cases req)
      case (StartSpan label)
      then obtain i where m: "start_span label tc = (i, t)" using assms(5) by (auto split: prod.splits)
      show ?thesis using start_span_fields [OF m] by simp
    qed (use other assms(5) in auto)
  qed
  then show "tc_clone_id t = tc_clone_id tc" "tc_clone_counter t = tc_clone_counter tc"
    "tc_clone_children t = tc_clone_children tc" "length (tc_nodes tc) \<le> length (tc_nodes t)" by simp_all
qed

lemma perform_ids:
  assumes "sampling_sound S" "request_ok req" "stream_ok lc tc"
    "ids_small (fc_fresh_ids (tc_family tc))" "perform lc S req tc = (r, t)"
  shows "fc_fresh_ids (tc_family t) = fc_fresh_ids (tc_family tc)
     \<or> (\<exists>v. fc_fresh_ids (tc_family t) = insert v (fc_fresh_ids (tc_family tc)))"
  using assms
proof (cases rule: perform_cases)
  case (failed e)
  then show ?thesis using family_quiet_fields(2) quiet_fields(15) by blast
next
  case (recorded d)
  show ?thesis by (rule recorded_fields [OF recorded(2)]) (auto simp: ids_step_def)
next
  case other
  show ?thesis
  proof (cases req)
    case (StartSpan label)
    then obtain i where m: "start_span label tc = (i, t)" using assms(5) by (auto split: prod.splits)
    show ?thesis using start_span_fields(6) [OF m] by auto
  qed (use other assms(5) in \<open>auto split: if_splits\<close>)
qed

lemma card_insert_le_Suc: "card (insert v A) \<le> Suc (card A)"
  by (simp add: card_insert_le_m1 card_insert_if)

lemma on_stream_cases:
  assumes "on_stream h m st = Some (r, st')"
  obtains tc t where "st_streams st h = Some tc" "m (locked st tc) = (r, t)" "st' = unlock h t st"
  using assms by (auto simp: on_stream_def split: option.splits prod.splits)

text \<open>Adding the child of a clone to the store.\<close>

lemma clone_store_ok:
  assumes ok: "store_ok lc st" and h: "st_streams st h = Some tc"
    and t: "stream_ok lc t" "family_evolves (st_family st) (tc_family t)"
    and child: "stream_ok lc child" "tc_family child = tc_family t"
      "tc_clone_id child = h @ [tc_clone_counter tc]" "length (tc_clone_id child) \<le> MAX_CLONE_DEPTH"
      "tc_clone_children child = []"
    and ext: "tc_nodes t = tc_nodes tc @ [n]" "tc_clone_counter t = Suc (tc_clone_counter tc)"
      "tc_clone_children t = tc_clone_children tc @ [(length (tc_nodes tc), tc_clone_id child)]"
      "tc_clone_id t = tc_clone_id tc"
  shows "store_ok lc ((unlock h t st)\<lparr>st_streams := (st_streams (unlock h t st))(tc_clone_id child \<mapsto> child)\<rparr>)"
proof -
  let ?c = "h @ [tc_clone_counter tc]"
  let ?st = "(unlock h t st)\<lparr>st_streams := (st_streams (unlock h t st))(tc_clone_id child \<mapsto> child)\<rparr>"
  note T = stream_okD [OF t(1)]
  have kids: "k < tc_clone_counter tc'" if "st_streams st h' = Some tc'" "h' @ [k] \<in> dom (st_streams st)" for h' tc' k
    using store_okD(4) [OF ok that(1)] that(2) by (auto simp: children_ok_def)
  have new: "?c \<notin> dom (st_streams st)" using kids [OF h] by blast
  have closed: "h' \<in> dom (st_streams st)" if "h' @ [k] \<in> dom (st_streams st)" for h' k
    using ok that unfolding store_ok_def by blast
  have dom: "dom (st_streams ?st) = insert ?c (dom (st_streams st))" using h child(3) by auto
  have fam: "st_family ?st = tc_family t" by simp
  have lt: "locked ?st t = t" "locked ?st child = child"
    by (rule locked_self, simp add: child(2))+
  have hc: "h \<noteq> ?c" by simp
  have stream: "stream_ok lc (locked ?st tc') \<and> tc_clone_id tc' = h' \<and> length h' \<le> MAX_CLONE_DEPTH
      \<and> children_ok ?st h' tc'"
    if h': "st_streams ?st h' = Some tc'" for h' tc'
  proof -
    consider (fresh) "h' = ?c" "tc' = child" | (parent) "h' = h" "tc' = t"
      | (other) "h' \<noteq> h" "h' \<noteq> ?c" "st_streams st h' = Some tc'"
      using h' child(3) hc by (auto split: if_splits)
    then show ?thesis
    proof cases
      case fresh
      have "h' @ [k] \<notin> dom (st_streams ?st)" for k
        unfolding dom using closed [of ?c k] new fresh(1) by auto
      then have "children_ok ?st h' child"
        using assms(9) by (simp add: children_ok_def)
      then show ?thesis using fresh assms(5,7,8) lt by simp
    next
      case parent
      have old: "children_ok st h tc" by (rule store_okD(4) [OF ok h])
      have "?c \<notin> snd ` set (tc_clone_children tc)"
        using old new by (auto simp: children_ok_def)
      then have "children_ok ?st h t"
        unfolding children_ok_def dom using old kids [OF h] ext child(3)
        by (auto simp: children_ok_def less_Suc_eq)
      then show ?thesis using parent t(1) lt store_okD(2,3) [OF ok h] ext(4) by simp
    next
      case other
      have "children_ok ?st h' tc'"
        by (rule children_ok_cong [OF store_okD(4) [OF ok other(3)]], unfold dom)
           (use kids [OF other(3)] other(1) in auto)
      then show ?thesis
        using store_okD(2,3) [OF ok other(3)] stream_ok_evolves [OF store_okD(1) [OF ok other(3)], of ?st]
          t(2) T(2) fam by simp
    qed
  qed
  have "[] \<in> dom (st_streams ?st)" unfolding dom using ok by (simp add: store_ok_def)
  moreover have "\<forall>h k. h @ [k] \<in> dom (st_streams ?st) \<longrightarrow> h \<in> dom (st_streams ?st)"
    unfolding dom using closed h by auto
  ultimately show ?thesis using stream T(1,2) unfolding store_ok_def fam by blast
qed

lemma step_ok:
  assumes S: "sampling_sound S" and step: "family_step lc S st e st'" and e: "event_ok e"
    and ok: "store_ok lc st" and small: "ids_small (fc_fresh_ids (st_family st))"
  shows "store_ok lc st'" "family_evolves (st_family st) (st_family st')"
    "card (fc_fresh_ids (st_family st')) \<le> Suc (card (fc_fresh_ids (st_family st)))"
proof -
  have "store_ok lc st' \<and> family_evolves (st_family st) (st_family st')
     \<and> card (fc_fresh_ids (st_family st')) \<le> Suc (card (fc_fresh_ids (st_family st)))"
    using step
  proof cases
    case (request h req r)
    then have req: "request_ok req" using e by simp
    obtain tc t where h: "st_streams st h = Some tc" and m: "perform lc S req (locked st tc) = (r, t)"
      and st': "st' = unlock h t st" using request(2) by (rule on_stream_cases)
    note args = S req store_okD(1) [OF ok h] small [folded locked_fields(9) [of st tc]] m
    have "store_ok lc st'" unfolding st'
      by (rule unlock_ok [OF ok h perform_ok [OF args]])
         (use perform_evolves [OF args] perform_frame [OF args] in simp_all)
    moreover have "family_evolves (st_family st) (st_family st')"
      using perform_evolves [OF args] by (simp add: st')
    ultimately show ?thesis using perform_ids [OF args] card_insert_le_Suc by (auto simp: st')
  next
    case (clone h r)
    obtain r1 st1 where on: "on_stream h (clone_child S) st = Some (r1, st1)"
      using clone(2) by (auto simp: clone_stream_def split: option.splits sum.splits prod.splits)
    obtain tc t where h: "st_streams st h = Some tc" and m: "clone_child S (locked st tc) = (r1, t)"
      and st1: "st1 = unlock h t st" using on by (rule on_stream_cases)
    show ?thesis using m store_okD(1) [OF ok h]
    proof (cases rule: clone_child_cases)
      case (failed e)
      then have st': "st' = unlock h t st" using clone(2) on st1 by (simp add: clone_stream_def)
      have "store_ok lc st'" unfolding st'
        by (rule unlock_ok [OF ok h failed(2)]) (use failed in simp_all)
      then show ?thesis using failed by (simp add: st')
    next
      case (cloned child)
      then have st': "st' = (unlock h t st)\<lparr>st_streams := (st_streams (unlock h t st))(tc_clone_id child \<mapsto> child)\<rparr>"
        using clone(2) on st1 by (simp add: clone_stream_def)
      have "store_ok lc st'" unfolding st'
        by (rule clone_store_ok [OF ok h cloned(3)])
           (use cloned store_okD(2) [OF ok h] in simp_all)
      then show ?thesis using cloned by (simp add: st')
    qed
  qed
  then show "store_ok lc st'" "family_evolves (st_family st) (st_family st')"
    "card (fc_fresh_ids (st_family st')) \<le> Suc (card (fc_fresh_ids (st_family st)))" by simp_all
qed

lemma run_ok:
  assumes "sampling_sound S" "family_run lc S st tr st'" "list_all event_ok tr" "store_ok lc st"
    "card (fc_fresh_ids (st_family st)) + length tr < 2 ^ 61"
  shows "store_ok lc st' \<and> family_evolves (st_family st) (st_family st')
     \<and> card (fc_fresh_ids (st_family st')) \<le> card (fc_fresh_ids (st_family st)) + length tr"
  using assms(2-5)
proof (induction rule: family_run.induct)
  case (stop st)
  then show ?case by (simp add: family_evolves_refl)
next
  case (more st e st' tr st'')
  have small: "ids_small (fc_fresh_ids (st_family st))" using more.prems by (simp add: ids_small_def)
  have e: "event_ok e" using more.prems by simp
  note S = step_ok [OF assms(1) more.hyps(1) e more.prems(2) small]
  have "store_ok lc st'' \<and> family_evolves (st_family st') (st_family st'')
     \<and> card (fc_fresh_ids (st_family st'')) \<le> card (fc_fresh_ids (st_family st')) + length tr"
    by (rule more.IH) (use more.prems S in simp_all)
  then show ?case using S(3) family_evolves_trans [OF S(2)] by auto
qed

section \<open>Roots\<close>

definition root_stream :: "'r test_case \<Rightarrow> bool" where
  "root_stream root \<longleftrightarrow>
     (\<exists>choices pn tpl ms ob. root = for_choices_and_template choices pn tpl ms ob
        \<or> (\<exists>rng params. root = with_random_and_params (for_choices_and_template choices pn tpl ms ob) rng params))"

lemma root_ok:
  assumes "root_stream root"
  shows "store_ok lc (store_of root)" "fc_fresh_ids (st_family (store_of root)) = {}"
proof -
  have fields: "tc_nodes root = []" "tc_spans root = []" "tc_span_stack root = []" "tc_clone_id root = []"
    "tc_clone_counter root = 0" "tc_clone_children root = []" "tc_frozen root = False"
    "mirrored (tc_family root)" "fc_fresh_ids (tc_family root) = {}"
    using assms
    by (auto simp: root_stream_def for_choices_and_template_def new_stream_def Let_def family_new_def
        with_random_and_params_def set_budget_def set_generation_parameters_def mirrored_def
        family_status_def)
  have "stream_ok lc root" by (rule stream_okI) (simp_all add: fields)
  then show "store_ok lc (store_of root)" "fc_fresh_ids (st_family (store_of root)) = {}"
    using fields by (auto simp: store_ok_def store_of_def locked_self children_ok_def split: if_splits)
qed

section \<open>Executing a list of operations\<close>

datatype operation = DoRequest handle request | DoClone handle

fun run_operations ::
  "(f64 \<Rightarrow> f64) \<Rightarrow> 'r sampling \<Rightarrow> operation list \<Rightarrow> 'r store \<Rightarrow> (event list \<times> 'r store) option" where
  "run_operations lc S [] st = Some ([], st)"
| "run_operations lc S (DoRequest h req # ops) st =
     Option.bind (on_stream h (perform lc S req) st) (\<lambda>(r, st).
     Option.bind (run_operations lc S ops st) (\<lambda>(tr, st). Some (Request h req r # tr, st)))"
| "run_operations lc S (DoClone h # ops) st =
     Option.bind (clone_stream S h st) (\<lambda>(r, st).
     Option.bind (run_operations lc S ops st) (\<lambda>(tr, st). Some (Clone h r # tr, st)))"

lemma run_operations_run: "run_operations lc S ops st = Some (tr, st') \<Longrightarrow> family_run lc S st tr st'"
proof (induction lc S ops st arbitrary: tr st' rule: run_operations.induct)
  case (1 lc S st)
  then show ?case by (auto intro: family_run.stop)
next
  case (2 lc S h req ops st)
  then obtain r st1 tr1 where m: "on_stream h (perform lc S req) st = Some (r, st1)"
    and rest: "run_operations lc S ops st1 = Some (tr1, st')" and tr: "tr = Request h req r # tr1"
    by (auto simp: Option.bind_eq_Some_conv)
  show ?case unfolding tr
    by (rule family_run.more [OF family_step.request [OF m] 2(1) [OF m refl rest]])
next
  case (3 lc S h ops st)
  then obtain r st1 tr1 where m: "clone_stream S h st = Some (r, st1)"
    and rest: "run_operations lc S ops st1 = Some (tr1, st')" and tr: "tr = Clone h r # tr1"
    by (auto simp: Option.bind_eq_Some_conv)
  show ?case unfolding tr
    by (rule family_run.more [OF family_step.clone [OF m] 3(1) [OF m refl rest]])
qed

section \<open>Fresh identifiers and the verdict\<close>

definition fresh_answer :: "event \<Rightarrow> int option" where
  "fresh_answer e =
     (case e of
        Request h req r \<Rightarrow>
          (case req of
             DrawFreshId \<Rightarrow> (case r of Inr x \<Rightarrow> (case x of GotInteger v \<Rightarrow> Some v | _ \<Rightarrow> None) | Inl _ \<Rightarrow> None)
           | _ \<Rightarrow> None)
      | Clone h r \<Rightarrow> None)"

definition fresh_answers :: "event list \<Rightarrow> int list" where
  "fresh_answers tr = List.map_filter fresh_answer tr"

lemma fresh_answers_simps [simp]:
  "fresh_answers [] = []"
  "fresh_answers (e # tr) = (case fresh_answer e of None \<Rightarrow> fresh_answers tr | Some v \<Rightarrow> v # fresh_answers tr)"
  by (simp_all add: fresh_answers_def map_filter_simps split: option.split)

lemma fresh_answer_Some: "fresh_answer e = Some v \<longleftrightarrow> (\<exists>h. e = Request h DrawFreshId (Inr (GotInteger v)))"
  by (auto simp: fresh_answer_def split: event.splits request.splits sum.splits response.splits)

lemma fresh_step:
  assumes step: "family_step lc S st e st'" and v: "fresh_answer e = Some v" and ok: "store_ok lc st"
    and small: "ids_small (fc_fresh_ids (st_family st))"
  shows "v \<notin> fc_fresh_ids (st_family st)" "v \<in> fc_fresh_ids (st_family st')"
proof -
  obtain h where e: "e = Request h DrawFreshId (Inr (GotInteger v))" using v by (auto simp: fresh_answer_Some)
  have on: "on_stream h (perform lc S DrawFreshId) st = Some (Inr (GotInteger v), st')"
    using step unfolding e by (rule request_stepE)
  obtain tc t where h: "st_streams st h = Some tc"
    and m: "perform lc S DrawFreshId (locked st tc) = (Inr (GotInteger v), t)" and st': "st' = unlock h t st"
    using on by (rule on_stream_cases)
  obtain r where d: "draw_fresh_id lc (locked st tc) = (r, t)" and r: "map_sum id GotInteger r = Inr (GotInteger v)"
    using m by (cases "draw_fresh_id lc (locked st tc)") (auto simp: emap_result)
  have r': "r = Inr v" using r by (cases r) auto
  have ids: "ids_ok (fc_fresh_ids (tc_family (locked st tc)))" "ids_small (fc_fresh_ids (tc_family (locked st tc)))"
    using stream_okD(2) [OF store_okD(1) [OF ok h]] small by simp_all
  have "v \<notin> fc_fresh_ids (st_family st) \<and> v \<in> fc_fresh_ids (st_family st')"
    using d ids
  proof (cases rule: draw_fresh_id_cases)
    case (failed e)
    then show ?thesis using r' by simp
  next
    case (drawn w ob u)
    then show ?thesis using r' by (simp add: st' register_id_def)
  qed
  then show "v \<notin> fc_fresh_ids (st_family st)" "v \<in> fc_fresh_ids (st_family st')" by simp_all
qed

lemma run_fresh:
  assumes "sampling_sound S" "family_run lc S st tr st'" "list_all event_ok tr" "store_ok lc st"
    "card (fc_fresh_ids (st_family st)) + length tr < 2 ^ 61"
  shows "distinct (fresh_answers tr)" "set (fresh_answers tr) \<inter> fc_fresh_ids (st_family st) = {}"
    "set (fresh_answers tr) \<subseteq> fc_fresh_ids (st_family st')"
proof -
  have "distinct (fresh_answers tr) \<and> set (fresh_answers tr) \<inter> fc_fresh_ids (st_family st) = {}
     \<and> set (fresh_answers tr) \<subseteq> fc_fresh_ids (st_family st')"
    using assms(2-5)
  proof (induction rule: family_run.induct)
    case (more st e st' tr st'')
    have small: "ids_small (fc_fresh_ids (st_family st))" using more.prems by (simp add: ids_small_def)
    have e: "event_ok e" using more.prems by simp
    note S = step_ok [OF assms(1) more.hyps(1) e more.prems(2) small]
    have prems: "list_all event_ok tr" "card (fc_fresh_ids (st_family st')) + length tr < 2 ^ 61"
      using more.prems S by simp_all
    note IH = more.IH [OF prems(1) S(1) prems(2)]
    have "family_evolves (st_family st') (st_family st'')"
      using run_ok [OF assms(1) more.hyps(2) prems(1) S(1) prems(2)] by simp
    then have up: "fc_fresh_ids (st_family st) \<subseteq> fc_fresh_ids (st_family st')"
      "fc_fresh_ids (st_family st') \<subseteq> fc_fresh_ids (st_family st'')"
      using S(2) by (simp_all add: family_evolves_def)
    show ?case
    proof (cases "fresh_answer e")
      case None
      then show ?thesis using IH up by auto
    next
      case (Some v)
      note v = fresh_step [OF more.hyps(1) Some more.prems(2) small]
      show ?thesis using Some IH up v by auto
    qed
  qed simp
  then show "distinct (fresh_answers tr)" "set (fresh_answers tr) \<inter> fc_fresh_ids (st_family st) = {}"
    "set (fresh_answers tr) \<subseteq> fc_fresh_ids (st_family st')" by simp_all
qed

text \<open>What a concluded family answers.\<close>

definition refused :: "status \<Rightarrow> event \<Rightarrow> bool" where
  "refused s e =
     (case e of
        Request h req r \<Rightarrow>
          is_draw req \<longrightarrow> (\<exists>x. r = Inl x \<and> (x = verdict_error s \<or> (\<exists>i. x = EngineInternal i)))
      | Clone h r \<Rightarrow> r = Inl (verdict_error s))"

definition store_nodes :: "'r store \<Rightarrow> handle \<Rightarrow> choice_node list option" where
  "store_nodes st h = map_option tc_nodes (st_streams st h)"

lemma conclude_concluded: "fc_conclusion fam = Some c \<Longrightarrow> family_conclude s og fam = fam"
  by (simp add: family_conclude_def)

lemma step_concluded:
  assumes step: "family_step lc S st e st'" and s: "family_status (st_family st) = Some s"
    and c: "fc_conclusion (st_family st) = Some c"
  shows "refused s e" "st_family st' = st_family st" "store_nodes st' = store_nodes st"
proof -
  have "refused s e \<and> st_family st' = st_family st \<and> store_nodes st' = store_nodes st"
    using step
  proof cases
    case (request h req r)
    obtain tc t where h: "st_streams st h = Some tc" and m: "perform lc S req (locked st tc) = (r, t)"
      and st': "st' = unlock h t st" using request(2) by (rule on_stream_cases)
    have "tc_family t = st_family st \<and> tc_nodes t = tc_nodes tc \<and> refused s e"
    proof (cases "is_draw req")
      case True
      obtain x where "perform lc S req (locked st tc) = (Inl x, locked st tc)"
          "x = verdict_error s \<or> (\<exists>i. x = EngineInternal i)"
        using draw_concluded [of "locked st tc" s req lc S] s True by auto
      then show ?thesis using m by (auto simp: refused_def request(1))
    next
      case False
      show ?thesis
      proof (cases req)
        case (StartSpan label)
        then obtain i where sp: "start_span label (locked st tc) = (i, t)" using m by (auto split: prod.splits)
        show ?thesis using start_span_fields [OF sp] False
          by (auto simp: refused_def request(1) conclude_concluded [OF c])
      qed (use False m in \<open>auto simp: refused_def request(1) conclude_concluded [OF c] split: if_splits\<close>)
    qed
    then show ?thesis using h by (auto simp: st' store_nodes_def)
  next
    case (clone h r)
    obtain tc where h: "st_streams st h = Some tc"
      using clone(2) by (auto simp: clone_stream_def on_stream_def split: option.splits)
    have "clone_child S (locked st tc) = (Inl (verdict_error s), locked st tc)"
      using s by (simp add: clone_child_def pre_choice_concluded)
    then have "r = Inl (verdict_error s)" "st' = unlock h (locked st tc) st"
      using clone(2) h by (simp_all add: clone_stream_def on_stream_def)
    then show ?thesis using h by (auto simp: refused_def clone(1) store_nodes_def)
  qed
  then show "refused s e" "st_family st' = st_family st" "store_nodes st' = store_nodes st" by simp_all
qed

lemma run_concluded:
  assumes "family_run lc S st tr st'" "family_status (st_family st) = Some s"
    "fc_conclusion (st_family st) = Some c"
  shows "list_all (refused s) tr \<and> st_family st' = st_family st \<and> store_nodes st' = store_nodes st"
  using assms
proof (induction rule: family_run.induct)
  case (more st e st' tr st'')
  note S = step_concluded [OF more.hyps(1) more.prems]
  show ?case using more.IH S more.prems by simp
qed simp

section \<open>A sample family\<close>

text \<open>
  A random source that counts, samplers that give each constraint's smallest value, and a root
  that replays one value and is then all-simplest.
\<close>

definition sample_sampling :: "nat sampling" where
  "sample_sampling =
     \<lparr>rng_spawn = (\<lambda>r. (r, r + 1)),
      draw_parameters = (\<lambda>r. (Inr default_parameters, r + 1)),
      biased_integer_sample = (\<lambda>k p r. (Inr (ic_min k), r + 1)),
      biased_float_sample = (\<lambda>k r. (if float_validate k f64_zero then Inr f64_zero
                                    else Inl (InternalError ''no sample''), r + 1)),
      biased_bytes_sample = (\<lambda>k r. (Inr (bytes_simplest k), r + 1)),
      biased_string_sample = (\<lambda>k r. (string_simplest k, r + 1)),
      weighted_boolean_sample = (\<lambda>p r. (False, r + 1)),
      weighted_boolean_sample_precise = (\<lambda>p r. (False, r + 1)),
      random_range_u64 = (\<lambda>lo hi r. (lo, r + 1)),
      random_index = (\<lambda>n r. (0, r + 1))\<rparr>"

lemma sample_sampling_sound: "sampling_sound sample_sampling"
proof -
  have "string_validate k v" if "string_wf k" "string_simplest k = Inr v" for k v
    using string_simplest_valid [OF that(1)] that(2) by auto
  then show ?thesis
    unfolding sampling_sound_def sample_sampling_def
    by (auto simp: integer_wf_def integer_validate_def bytes_simplest_valid split: if_splits)
qed

definition sample_root :: "nat test_case" where
  "sample_root = for_choices_and_template [VInteger 1] None
     (Some \<lparr>ct_kind = TemplateSimplest, ct_count = None\<rparr>) 8 None"

lemma sample_root: "root_stream sample_root"
  unfolding root_stream_def sample_root_def by blast

definition sample_operations :: "operation list" where
  "sample_operations =
     [DoRequest [] DrawFreshId, DoClone [], DoRequest [0] DrawFreshId, DoRequest [] (StartSpan 1),
      DoRequest [0] (Weighted f64_one None), DoRequest [] (Conclude Interesting None)]"

definition sample_end :: "nat store" where
  "sample_end = snd (the (run_operations (\<lambda>v. v) sample_sampling sample_operations (store_of sample_root)))"

lemmas family_eval = on_stream_def perform.simps emap_def draw_fresh_id_def ebind_def resolve_choice_def
  pre_choice_def tc_status_def family_status_def largest_id_def smallest_unused_id_def integer_from_prefix_def
  id_in_window_def to_i64_def register_id_def push_node_def notify_def unlock_def locked_def
  new_stream_def family_new_def Let_def from_template_def clone_stream_def clone_child_def child_prefix_def
  start_span_def weighted_def weighted_with_def record_choice_def conclude_def family_conclude_def
  STATUS_UNSET_def USIZE_MAX_def try_take_draw_def MAX_CLONE_DEPTH_def MAX_DEPTH_def

lemma one_comparisons: "f64_le f64_one f64_zero = False" "f64_le f64_one f64_one = True"
  by code_simp+

lemmas sample_eval = family_eval sample_operations_def sample_root_def for_choices_and_template_def
  store_of_def sample_sampling_def one_comparisons

lemma sample_run:
  "run_operations (\<lambda>v. v) sample_sampling sample_operations (store_of sample_root) =
     Some ([Request [] DrawFreshId (Inr (GotInteger 1)), Clone [] (Inr [0]),
            Request [0] DrawFreshId (Inr (GotInteger 0)), Request [] (StartSpan 1) (Inr (GotIndex 0)),
            Request [0] (Weighted f64_one None) (Inr (GotBoolean True)),
            Request [] (Conclude Interesting None) (Inr GotUnit)], sample_end)
   \<and> family_status (st_family sample_end) = Some Interesting"
  unfolding sample_end_def by (simp add: sample_eval)

definition sample_after :: "nat store" where
  "sample_after = snd (the (run_operations (\<lambda>v. v) sample_sampling
     [DoRequest [0] DrawFreshId, DoClone [0]] sample_end))"

lemma sample_run_after:
  "run_operations (\<lambda>v. v) sample_sampling [DoRequest [0] DrawFreshId, DoClone [0]] sample_end =
     Some ([Request [0] DrawFreshId (Inl Overrun), Clone [0] (Inl Overrun)], sample_after)"
  unfolding sample_after_def sample_end_def by (simp add: sample_eval verdict_error_def)

section \<open>Properties\<close>



text \<open>C8: The identifiers that fresh-identifier draws return in one test case are pairwise
  distinct, whichever streams draw them and whatever values are replayed.\<close>
theorem fresh_ids_unique:
  assumes "sampling_sound S" "root_stream root" "family_run lc S (store_of root) tr st"
    "list_all event_ok tr" "length tr < 2 ^ 61"
  shows "distinct (fresh_answers tr)"
  using run_fresh(1) [OF assms(1,3,4) root_ok(1) [OF assms(2)]] root_ok(2) [OF assms(2)] assms(5) by simp

theorem fresh_ids_unique_witness:
  "fresh_answers [Request [] DrawFreshId (Inr (GotInteger 1)), Request [0] DrawFreshId (Inr (GotInteger 0))]
     = [1, 0] \<and> distinct [1 :: int, 0]"
  using fresh_ids_unique [OF sample_sampling_sound sample_root run_operations_run
      [OF sample_run [THEN conjunct1]]] by (simp add: fresh_answer_def)

text \<open>C10: The verdict of a test case is final: once the family is concluded, every later draw on
  every stream fails with the error of the verdict (or an internal one), every clone fails with
  it, and neither the conclusion nor the recorded choices of any stream change.\<close>
theorem verdict_final:
  assumes "sampling_sound S" "root_stream root" "family_run lc S (store_of root) tr st"
    "list_all event_ok tr" "length tr < 2 ^ 61"
    "family_status (st_family st) = Some s" "family_run lc S st tr' st'"
  shows "list_all (refused s) tr' \<and> fc_conclusion (st_family st') = fc_conclusion (st_family st)
     \<and> store_nodes st' = store_nodes st"
proof -
  have "store_ok lc st"
    using run_ok [OF assms(1,3,4) root_ok(1) [OF assms(2)]] root_ok(2) [OF assms(2)] assms(5) by simp
  then have "family_status (st_family st) = map_option fst (fc_conclusion (st_family st))"
    by (simp add: store_ok_def mirrored_def)
  then obtain c where "fc_conclusion (st_family st) = Some c"
    using assms(6) by (cases "fc_conclusion (st_family st)") simp_all
  then show ?thesis using run_concluded [OF assms(7,6)] by simp
qed

theorem verdict_final_witness:
  "list_all (refused Interesting) [Request [0] DrawFreshId (Inl Overrun), Clone [0] (Inl Overrun)]
     \<and> store_nodes sample_after = store_nodes sample_end"
  using verdict_final [OF sample_sampling_sound sample_root run_operations_run
      [OF sample_run [THEN conjunct1]] _ _ sample_run [THEN conjunct2] run_operations_run [OF sample_run_after]]
  by simp



end
