(* ===== verification/Reassembly.thy ===== *)
theory Reassembly
  imports FamilyRuns
begin

text \<open>
  Reassembly of a concluded family: \<open>NativeTestCase::reassemble\<close> works destructively, stream by
  stream, and is compared with a reference that reads the streams as they were left: the nodes
  of a stream with every clone node replaced by the record of the stream it stands for.
\<close>

section \<open>The reference\<close>

definition closed_spans :: "'r store \<Rightarrow> handle \<Rightarrow> spans" where
  "closed_spans st h = (case st_streams st h of None \<Rightarrow> [] | Some tc \<Rightarrow> tc_spans (freeze (locked st tc)))"

definition put_record :: "(handle \<Rightarrow> realized_stream) \<Rightarrow> choice_node list \<Rightarrow> nat \<times> handle \<Rightarrow> choice_node list" where
  "put_record record_of nodes entry =
     nodes[fst entry := ChoiceNode (DClone (record_of (snd entry))) (was_forced (nodes ! fst entry))]"

fun pieced :: "nat \<Rightarrow> 'r store \<Rightarrow> handle \<Rightarrow> choice_node list" where
  "pieced 0 st h = []"
| "pieced (Suc depth) st h =
     (case st_streams st h of
        None \<Rightarrow> []
      | Some tc \<Rightarrow> foldl (put_record (\<lambda>c. realized_stream_new (pieced depth st c) (closed_spans st c)))
                    (tc_nodes tc) (tc_clone_children tc))"

section \<open>The tree of streams\<close>

definition entries_ok :: "'r store \<Rightarrow> handle \<Rightarrow> nat \<Rightarrow> (nat \<times> handle) list \<Rightarrow> bool" where
  "entries_ok st h n entries \<longleftrightarrow>
     (\<forall>entry\<in>set entries. fst entry < n \<and> snd entry \<in> dom (st_streams st) \<and> (\<exists>k. snd entry = h @ [k]))
   \<and> distinct (map snd entries)"

definition tree_ok :: "'r store \<Rightarrow> bool" where
  "tree_ok st \<longleftrightarrow> (\<forall>h tc. st_streams st h = Some tc \<longrightarrow>
     entries_ok st h (length (tc_nodes tc)) (tc_clone_children tc) \<and> length h \<le> MAX_CLONE_DEPTH)"

lemma children_entries_ok: "children_ok st h tc \<Longrightarrow> entries_ok st h (length (tc_nodes tc)) (tc_clone_children tc)"
  unfolding children_ok_def entries_ok_def by auto

lemma store_ok_tree: "store_ok lc st \<Longrightarrow> tree_ok st"
  unfolding tree_ok_def using store_okD(3,4) children_entries_ok by blast

lemma tree_okD:
  assumes "tree_ok st" "st_streams st h = Some tc"
  shows "entries_ok st h (length (tc_nodes tc)) (tc_clone_children tc)" "length h \<le> MAX_CLONE_DEPTH"
  using assms by (auto simp: tree_ok_def)

definition below :: "handle \<Rightarrow> handle \<Rightarrow> bool" where
  "below h h' \<longleftrightarrow> (\<exists>s. h' = h @ s)"

lemma below_refl [simp]: "below h h"
  by (simp add: below_def)

lemma below_child: "below (h @ [k]) h' \<Longrightarrow> below h h' \<and> h' \<noteq> h"
  by (auto simp: below_def)

lemma below_siblings: "below (h @ [k]) h' \<Longrightarrow> below (h @ [k']) h' \<Longrightarrow> k = k'"
  by (auto simp: below_def)

text \<open>What the reference reads of a store.\<close>

definition same_tree :: "handle \<Rightarrow> 'r store \<Rightarrow> 'r store \<Rightarrow> bool" where
  "same_tree h st st' \<longleftrightarrow> st_family st' = st_family st
     \<and> (\<forall>h'. below h h' \<and> h' \<noteq> h \<longrightarrow> st_streams st' h' = st_streams st h')
     \<and> map_option (\<lambda>tc. (tc_nodes tc, tc_clone_children tc)) (st_streams st' h)
       = map_option (\<lambda>tc. (tc_nodes tc, tc_clone_children tc)) (st_streams st h)"

lemma same_tree_child: "same_tree h st st' \<Longrightarrow> same_tree (h @ [k]) st st'"
  unfolding same_tree_def using below_child [of h k] by fastforce

lemma same_tree_strong:
  "st_family st' = st_family st \<Longrightarrow> (\<And>h'. below h h' \<Longrightarrow> st_streams st' h' = st_streams st h') \<Longrightarrow> same_tree h st st'"
  by (simp add: same_tree_def)

lemma closed_spans_cong:
  "st_family st' = st_family st \<Longrightarrow> st_streams st' h = st_streams st h \<Longrightarrow> closed_spans st' h = closed_spans st h"
  by (simp add: closed_spans_def locked_def split: option.split)

lemma foldl_put_record_cong:
  "(\<And>c. c \<in> snd ` set entries \<Longrightarrow> f c = g c) \<Longrightarrow> foldl (put_record f) ns entries = foldl (put_record g) ns entries"
  by (rule foldl_cong) (auto simp: put_record_def)

lemma pieced_cong:
  "tree_ok st \<Longrightarrow> same_tree h st st' \<Longrightarrow> pieced depth st' h = pieced depth st h"
proof (induction depth arbitrary: h)
  case (Suc depth)
  show ?case
  proof (cases "st_streams st h")
    case None
    then show ?thesis using Suc.prems(2) by (simp add: same_tree_def)
  next
    case (Some tc)
    then obtain tc' where tc': "st_streams st' h = Some tc'" "tc_nodes tc' = tc_nodes tc"
        "tc_clone_children tc' = tc_clone_children tc"
      using Suc.prems(2) by (auto simp: same_tree_def)
    have "realized_stream_new (pieced depth st' c) (closed_spans st' c) =
        realized_stream_new (pieced depth st c) (closed_spans st c)"
      if c: "c \<in> snd ` set (tc_clone_children tc)" for c
    proof -
      obtain k where k: "c = h @ [k]"
        using tree_okD(1) [OF Suc.prems(1) Some] c by (auto simp: entries_ok_def)
      have "pieced depth st' c = pieced depth st c"
        unfolding k by (rule Suc.IH [OF Suc.prems(1) same_tree_child [OF Suc.prems(2)]])
      moreover have "closed_spans st' c = closed_spans st c"
        by (rule closed_spans_cong) (use Suc.prems(2) in \<open>auto simp: k same_tree_def below_def\<close>)
      ultimately show ?thesis by simp
    qed
    then have "foldl (put_record (\<lambda>c. realized_stream_new (pieced depth st' c) (closed_spans st' c)))
        (tc_nodes tc) (tc_clone_children tc) =
      foldl (put_record (\<lambda>c. realized_stream_new (pieced depth st c) (closed_spans st c)))
        (tc_nodes tc) (tc_clone_children tc)"
      by (rule foldl_put_record_cong)
    then show ?thesis using Some tc' by simp
  qed
qed simp

section \<open>Reassembling a subtree\<close>

definition concluded :: "'r store \<Rightarrow> bool" where
  "concluded st \<longleftrightarrow> family_status (st_family st) \<noteq> None \<and> fc_conclusion (st_family st) \<noteq> None"

lemma freeze_concluded: "fc_conclusion (tc_family tc) \<noteq> None \<Longrightarrow> tc_family (freeze tc) = tc_family tc"
  by (auto simp: conclude_concluded)

lemma tree_ok_update:
  assumes "tree_ok st" "st_streams st h = Some tc" "tc_clone_children t = tc_clone_children tc \<or> tc_clone_children t = []"
    "length (tc_nodes t) = length (tc_nodes tc)"
  shows "tree_ok (unlock h t st)"
proof -
  have dom: "dom (st_streams (unlock h t st)) = dom (st_streams st)" using assms(2) by auto
  have cong: "entries_ok (unlock h t st) h' n entries = entries_ok st h' n entries" for h' n entries
    unfolding entries_ok_def dom ..
  show ?thesis
    unfolding tree_ok_def cong
  proof (intro allI impI)
    fix h' tc'
    assume h': "st_streams (unlock h t st) h' = Some tc'"
    show "entries_ok st h' (length (tc_nodes tc')) (tc_clone_children tc') \<and> length h' \<le> MAX_CLONE_DEPTH"
    proof (cases "h' = h")
      case True
      then have "tc' = t" using h' by simp
      then show ?thesis using assms(3,4) tree_okD [OF assms(1,2)] True by (auto simp: entries_ok_def)
    next
      case False
      then have "st_streams st h' = Some tc'" using h' by simp
      then show ?thesis using tree_okD [OF assms(1)] by blast
    qed
  qed
qed

text \<open>The outcome of reassembling the subtree at \<open>h\<close>.\<close>

definition reassembled :: "nat \<Rightarrow> handle \<Rightarrow> 'r store \<Rightarrow> 'r store \<Rightarrow> bool" where
  "reassembled fuel h st st' \<longleftrightarrow>
     st_family st' = st_family st \<and> tree_ok st' \<and> dom (st_streams st') = dom (st_streams st)
   \<and> (\<forall>h'. \<not> below h h' \<longrightarrow> st_streams st' h' = st_streams st h')
   \<and> map_option tc_nodes (st_streams st' h) = Some (pieced fuel st h)
   \<and> map_option tc_spans (st_streams st' h) = map_option tc_spans (st_streams st h)
   \<and> map_option tc_frozen (st_streams st' h) = map_option tc_frozen (st_streams st h)"

definition reassembles :: "nat \<Rightarrow> handle \<Rightarrow> 'r store \<Rightarrow> bool" where
  "reassembles fuel h st \<longleftrightarrow> (\<exists>st'. reassemble fuel h st = Some (Inr (), st') \<and> reassembled fuel h st st')"

definition child_record :: "nat \<Rightarrow> 'r store \<Rightarrow> handle \<Rightarrow> realized_stream" where
  "child_record fuel st c = realized_stream_new (pieced fuel st c) (closed_spans st c)"

definition child_step :: "nat \<Rightarrow> handle \<Rightarrow> nat \<times> handle \<Rightarrow> ('r store, internal_error, unit) proc" where
  "child_step fuel h entry =
     pbind (freeze_stream (snd entry)) (\<lambda>_.
     pbind (reassemble fuel (snd entry)) (\<lambda>_.
     take_child h entry))"

text \<open>One child: the record goes into its slot, and nothing outside the child's subtree changes.\<close>

lemma child_step:
  fixes st :: "'r store"
  assumes sub: "\<And>st :: 'r store. tree_ok st \<Longrightarrow> concluded st \<Longrightarrow> c \<in> dom (st_streams st) \<Longrightarrow> reassembles fuel c st"
    and ok: "tree_ok st" "concluded st" and h: "st_streams st h = Some tc"
    and c: "c = h @ [k]" "c \<in> dom (st_streams st)" "idx < length (tc_nodes tc)"
  obtains st' tc' where "child_step fuel h (idx, c) st = Some (Inr (), st')"
    "tree_ok st'" "st_family st' = st_family st" "dom (st_streams st') = dom (st_streams st)"
    "st_streams st' h = Some tc'" "tc_nodes tc' = put_record (child_record fuel st) (tc_nodes tc) (idx, c)"
    "tc_spans tc' = tc_spans tc" "tc_frozen tc' = tc_frozen tc" "tc_clone_children tc' = tc_clone_children tc"
    "\<And>h'. \<not> below c h' \<Longrightarrow> h' \<noteq> h \<Longrightarrow> st_streams st' h' = st_streams st h'"
proof -
  obtain cc where cc: "st_streams st c = Some cc" using c(2) by auto
  define fz where "fz = freeze (locked st cc)"
  define st1 where "st1 = unlock c fz st"
  have fam1: "st_family st1 = st_family st"
    using ok(2) freeze_concluded [of "locked st cc"] by (simp add: st1_def fz_def concluded_def)
  have freeze: "freeze_stream c st = Some (Inr (), st1)"
    by (simp add: freeze_stream_def cc st1_def fz_def)
  have ok1: "tree_ok st1" unfolding st1_def
    by (rule tree_ok_update [OF ok(1) cc]) (simp_all add: fz_def)
  have dom1: "dom (st_streams st1) = dom (st_streams st)" using c(2) by (auto simp: st1_def)
  obtain st2 where re: "reassemble fuel c st1 = Some (Inr (), st2)" and R: "reassembled fuel c st1 st2"
    using sub [OF ok1] ok(2) c(2) dom1 fam1 unfolding reassembles_def concluded_def by auto
  have same: "same_tree c st st1"
    using fam1 by (auto simp: same_tree_def st1_def cc fz_def)
  have pieces: "pieced fuel st1 c = pieced fuel st c" by (rule pieced_cong [OF ok(1) same])
  have notbelow: "\<not> below c h" by (auto simp: c(1) below_def)
  obtain cc2 where cc2: "st_streams st2 c = Some cc2" "tc_nodes cc2 = pieced fuel st c"
      "tc_spans cc2 = closed_spans st c"
    using R pieces by (auto simp: reassembled_def st1_def fz_def closed_spans_def cc)
  have h2: "st_streams st2 h = Some tc"
    using R notbelow h c(1) by (simp add: reassembled_def st1_def)
  define tc' where "tc' = locked st2 tc\<lparr>tc_nodes := put_record (child_record fuel st) (tc_nodes tc) (idx, c)\<rparr>"
  define st3 where "st3 = unlock h tc' st2"
  have take: "take_child h (idx, c) st2 = Some (Inr (), st3)"
    using h2 cc2 c(3) by (simp add: take_child_def st3_def tc'_def put_record_def child_record_def Let_def)
  have fam2: "st_family st2 = st_family st" using R fam1 by (simp add: reassembled_def)
  have "tree_ok st3" unfolding st3_def
    by (rule tree_ok_update [OF _ h2]) (use R in \<open>simp_all add: reassembled_def tc'_def put_record_def\<close>)
  moreover have "dom (st_streams st3) = dom (st_streams st)"
    using R dom1 h by (auto simp: st3_def reassembled_def)
  moreover have "child_step fuel h (idx, c) st = Some (Inr (), st3)"
    by (simp add: child_step_def pbind_def freeze re take)
  moreover have "st_streams st3 h' = st_streams st h'" if "\<not> below c h'" "h' \<noteq> h" for h'
  proof -
    have "h' \<noteq> c" using that(1) by auto
    then show ?thesis using R that by (simp add: st3_def reassembled_def st1_def)
  qed
  ultimately show ?thesis
    by (intro that [of st3 tc']) (simp_all add: st3_def tc'_def fam2)
qed

text \<open>All children, in order.\<close>

lemma child_steps:
  fixes st :: "'r store"
  assumes sub: "\<And>(st :: 'r store) c. tree_ok st \<Longrightarrow> concluded st \<Longrightarrow> c \<in> dom (st_streams st) \<Longrightarrow> below h c \<Longrightarrow> c \<noteq> h
      \<Longrightarrow> reassembles fuel c st"
    and "tree_ok st" "concluded st" "st_streams st h = Some tc"
    and "entries_ok st h (length (tc_nodes tc)) entries"
  shows "\<exists>st' tc'. pfor entries (child_step fuel h) st = Some (Inr (), st') \<and> tree_ok st'
     \<and> st_family st' = st_family st \<and> dom (st_streams st') = dom (st_streams st)
     \<and> st_streams st' h = Some tc' \<and> tc_nodes tc' = foldl (put_record (child_record fuel st)) (tc_nodes tc) entries
     \<and> tc_spans tc' = tc_spans tc \<and> tc_frozen tc' = tc_frozen tc
     \<and> (\<forall>h'. \<not> below h h' \<longrightarrow> st_streams st' h' = st_streams st h')"
  using assms(2-5)
proof (induction entries arbitrary: st tc)
  case (Cons entry entries)
  obtain idx c where entry: "entry = (idx, c)" by fastforce
  obtain k where c: "c = h @ [k]" "c \<in> dom (st_streams st)" "idx < length (tc_nodes tc)"
    using Cons.prems(4) by (auto simp: entries_ok_def entry)
  have cb: "below h c" "c \<noteq> h" by (auto simp: c(1) below_def)
  obtain st1 tc1 where s1: "child_step fuel h (idx, c) st = Some (Inr (), st1)"
    "tree_ok st1" "st_family st1 = st_family st" "dom (st_streams st1) = dom (st_streams st)"
    "st_streams st1 h = Some tc1" "tc_nodes tc1 = put_record (child_record fuel st) (tc_nodes tc) (idx, c)"
    "tc_spans tc1 = tc_spans tc" "tc_frozen tc1 = tc_frozen tc"
    and frame: "\<And>h'. \<not> below c h' \<Longrightarrow> h' \<noteq> h \<Longrightarrow> st_streams st1 h' = st_streams st h'"
    by (rule child_step [OF sub [OF _ _ _ cb] Cons.prems(1-3) c]) blast+
  have len: "length (tc_nodes tc1) = length (tc_nodes tc)" by (simp add: s1(6) put_record_def)
  have entries1: "entries_ok st1 h (length (tc_nodes tc1)) entries"
    using Cons.prems(4) unfolding entries_ok_def s1(4) len by simp
  have con1: "concluded st1" using Cons.prems(2) by (simp add: concluded_def s1(3))
  have rec: "child_record fuel st1 c' = child_record fuel st c'" if c': "c' \<in> snd ` set entries" for c'
  proof -
    obtain k' where k': "c' = h @ [k']" using Cons.prems(4) c' by (auto simp: entries_ok_def)
    have ne: "c' \<noteq> c"
    proof
      assume "c' = c"
      then have "c \<in> snd ` set entries" using c' by simp
      then show False using Cons.prems(4) by (simp add: entries_ok_def entry)
    qed
    have "st_streams st1 h' = st_streams st h'" if "below c' h'" for h'
      by (rule frame) (use that ne below_siblings [of h k h' k'] below_child [of h k' h'] c(1) k' in auto)
    then have "same_tree c' st st1" "st_streams st1 c' = st_streams st c'"
      using s1(3) by (auto intro: same_tree_strong)
    then show ?thesis
      using pieced_cong [OF Cons.prems(1)] closed_spans_cong [OF s1(3)] by (simp add: child_record_def)
  qed
  then have fold: "foldl (put_record (child_record fuel st1)) (tc_nodes tc1) entries =
      foldl (put_record (child_record fuel st)) (tc_nodes tc1) entries"
    by (rule foldl_put_record_cong)
  have frame1: "st_streams st1 h' = st_streams st h'" if "\<not> below h h'" for h'
    by (rule frame) (use that below_child [of h k h'] c(1) in auto)
  have step: "child_step fuel h entry st = Some (Inr (), st1)" using s1(1) entry by simp
  show ?case
    using Cons.IH [OF s1(2) con1 s1(5) entries1] s1 frame1 fold
    by (auto simp: pbind_def step entry)
qed (auto simp: pret_def)

lemma reassembles_all:
  fixes st :: "'a store"
  shows "tree_ok st \<Longrightarrow> concluded st \<Longrightarrow> h \<in> dom (st_streams st) \<Longrightarrow> MAX_CLONE_DEPTH < length h + fuel
   \<Longrightarrow> reassembles fuel h st"
proof (induction fuel arbitrary: h st)
  case 0
  then obtain tc where "st_streams st h = Some tc" by auto
  then show ?case using 0 tree_okD(2) by fastforce
next
  case (Suc fuel)
  obtain tc where h: "st_streams st h = Some tc" using Suc.prems(3) by auto
  have sub: "reassembles fuel c st1"
    if "tree_ok st1" "concluded st1" "c \<in> dom (st_streams st1)" "below h c" "c \<noteq> h" for st1 :: "'a store" and c
  proof (rule Suc.IH [OF that(1-3)])
    have "length h < length c" using that(4,5) by (auto simp: below_def)
    then show "MAX_CLONE_DEPTH < length c + fuel" using Suc.prems(4) by simp
  qed
  define t where "t = locked st tc\<lparr>tc_clone_children := []\<rparr>"
  define st1 where "st1 = unlock h t st"
  have ok1: "tree_ok st1" unfolding st1_def
    by (rule tree_ok_update [OF Suc.prems(1) h]) (simp_all add: t_def)
  have fam1: "st_family st1 = st_family st" by (simp add: st1_def t_def)
  have con1: "concluded st1" using Suc.prems(2) by (simp add: concluded_def fam1)
  have h1: "st_streams st1 h = Some t" by (simp add: st1_def)
  have dom1: "dom (st_streams st1) = dom (st_streams st)" using h by (auto simp: st1_def)
  have entries: "entries_ok st1 h (length (tc_nodes t)) (tc_clone_children tc)"
    using tree_okD(1) [OF Suc.prems(1) h] unfolding entries_ok_def dom1 by (simp add: t_def)
  obtain st' tc' where run: "pfor (tc_clone_children tc) (child_step fuel h) st1 = Some (Inr (), st')"
    and res: "tree_ok st'" "st_family st' = st_family st1" "dom (st_streams st') = dom (st_streams st1)"
      "st_streams st' h = Some tc'"
      "tc_nodes tc' = foldl (put_record (child_record fuel st1)) (tc_nodes t) (tc_clone_children tc)"
      "tc_spans tc' = tc_spans t" "tc_frozen tc' = tc_frozen t"
      "\<And>h'. \<not> below h h' \<Longrightarrow> st_streams st' h' = st_streams st1 h'"
    using child_steps [OF sub ok1 con1 h1 entries] by blast
  have rec: "child_record fuel st1 c = child_record fuel st c" if c: "c \<in> snd ` set (tc_clone_children tc)" for c
  proof -
    obtain k where k: "c = h @ [k]" using entries c by (auto simp: entries_ok_def)
    have "st_streams st1 h' = st_streams st h'" if "below c h'" for h'
      using that below_child [of h k h'] by (simp add: st1_def k)
    then have "same_tree c st st1" "st_streams st1 c = st_streams st c"
      using fam1 by (auto intro: same_tree_strong)
    then show ?thesis
      using pieced_cong [OF Suc.prems(1)] closed_spans_cong [OF fam1] by (simp add: child_record_def)
  qed
  have "foldl (put_record (child_record fuel st1)) (tc_nodes tc) (tc_clone_children tc) =
      foldl (put_record (child_record fuel st)) (tc_nodes tc) (tc_clone_children tc)"
    by (rule foldl_put_record_cong) (rule rec)
  then have nodes: "tc_nodes tc' = pieced (Suc fuel) st h"
    using h by (simp add: res(5) t_def child_record_def [abs_def])
  have "reassemble (Suc fuel) h st = Some (Inr (), st')"
    using Suc.prems(2) h run
    by (auto simp: pbind_def concluded_def take_children_def child_step_def [abs_def] st1_def t_def)
  moreover have "reassembled (Suc fuel) h st st'"
    using res nodes h fam1 dom1 by (auto simp: reassembled_def st1_def t_def)
  ultimately show ?case unfolding reassembles_def by blast
qed

section \<open>Properties\<close>

text \<open>C15: Reassembling the root of a concluded family always completes, without a panic and
  within the depth limit of clones, and leaves in the root exactly the nodes it was left with,
  every clone node carrying the pieced-together nodes and the closed spans of its stream.\<close>
theorem reassembly_complete:
  assumes "sampling_sound S" "root_stream root" "family_run lc S (store_of root) tr st"
    "list_all event_ok tr" "length tr < 2 ^ 61" "family_status (st_family st) \<noteq> None"
  shows "\<exists>st'. reassemble (Suc MAX_CLONE_DEPTH) [] st = Some (Inr (), st')
     \<and> store_nodes st' [] = Some (pieced (Suc MAX_CLONE_DEPTH) st [])"
proof -
  have ok: "store_ok lc st"
    using run_ok [OF assms(1,3,4) root_ok(1) [OF assms(2)]] root_ok(2) [OF assms(2)] assms(5) by simp
  then have "concluded st" using assms(6) status_mirrored by (simp add: store_ok_def concluded_def)
  moreover have "[] \<in> dom (st_streams st)" using ok by (simp add: store_ok_def)
  ultimately have "reassembles (Suc MAX_CLONE_DEPTH) [] st"
    using reassembles_all [OF store_ok_tree [OF ok]] by simp
  then show ?thesis unfolding reassembles_def reassembled_def store_nodes_def by blast
qed

theorem reassembly_complete_witness:
  "\<exists>st'. reassemble (Suc MAX_CLONE_DEPTH) [] sample_end = Some (Inr (), st')
     \<and> store_nodes st' [] = Some (pieced (Suc MAX_CLONE_DEPTH) sample_end [])"
  by (rule reassembly_complete [OF sample_sampling_sound sample_root run_operations_run
      [OF sample_run [THEN conjunct1]]]) (use sample_run in simp_all)

end
