(* ===== verification/Replay.thy ===== *)
theory Replay
  imports FamilyRuns
begin

text \<open>
  Replaying a test case. A body of a test is a deterministic function of the answers it has
  received: it makes the next request or stops. Run on a stream that replays the values an
  earlier run recorded (\<open>NativeTestCase::for_choices\<close>), it gets the same answers and leaves the
  same choices, spans and conclusion, whatever produced the values the first time.
\<close>

section \<open>Bodies\<close>

type_synonym body = "(engine_error + response) list \<Rightarrow> request option"

fun run_body ::
  "(f64 \<Rightarrow> f64) \<Rightarrow> 'r sampling \<Rightarrow> body \<Rightarrow> nat \<Rightarrow> (engine_error + response) list \<Rightarrow> 'r test_case
   \<Rightarrow> (engine_error + response) list \<times> 'r test_case" where
  "run_body lc S body 0 hist tc = (hist, tc)"
| "run_body lc S body (Suc n) hist tc =
     (case body hist of
        None \<Rightarrow> (hist, tc)
      | Some req \<Rightarrow> (case perform lc S req tc of (r, t) \<Rightarrow> run_body lc S body n (hist @ [r]) t))"

fun is_internal :: "engine_error + 'a \<Rightarrow> bool" where
  "is_internal (Inl (EngineInternal _)) = True"
| "is_internal _ = False"

section \<open>The simulation\<close>

text \<open>\<open>ns\<close> are the nodes the first run ends with; the second stream replays their values.\<close>

definition replaying :: "choice_node list \<Rightarrow> 'r test_case \<Rightarrow> 'q test_case \<Rightarrow> bool" where
  "replaying ns tc tc' \<longleftrightarrow>
     tc_prefix tc' = map node_value ns \<and> tc_max_size tc' = length ns
   \<and> tc_nodes tc' = tc_nodes tc \<and> tc_spans tc' = tc_spans tc \<and> tc_span_stack tc' = tc_span_stack tc
   \<and> tc_labels tc' = tc_labels tc \<and> tc_tags tc' = tc_tags tc \<and> tc_has_discards tc' = tc_has_discards tc
   \<and> tc_frozen tc' = tc_frozen tc
   \<and> fc_fresh_ids (tc_family tc') = fc_fresh_ids (tc_family tc)
   \<and> fc_conclusion (tc_family tc') = fc_conclusion (tc_family tc)
   \<and> fc_concluded_status (tc_family tc') = fc_concluded_status (tc_family tc)
   \<and> fc_budget (tc_family tc') = USIZE_MAX
   \<and> (tc_status tc = None \<longrightarrow> fc_total_draws (tc_family tc') = length (tc_nodes tc))"

lemma replaying_status: "replaying ns tc tc' \<Longrightarrow> tc_status tc' = tc_status tc"
  by (simp add: replaying_def tc_status_def family_status_def)

definition counted :: "'r test_case \<Rightarrow> 'r test_case" where
  "counted tc = tc\<lparr>tc_family := (tc_family tc)\<lparr>fc_total_draws := fc_total_draws (tc_family tc) + 1\<rparr>\<rparr>"

text \<open>A stream that ran out of data.\<close>

definition overran :: "'r test_case \<Rightarrow> 'r test_case \<Rightarrow> bool" where
  "overran tc t \<longleftrightarrow> tc_status tc = None \<and>
     (\<exists>rng template n. t = tc\<lparr>tc_rng := rng, tc_template := template,
        tc_family := family_conclude EarlyStop None ((tc_family tc)\<lparr>fc_total_draws := n\<rparr>)\<rparr>)"

lemma conclude_status_byte:
  "family_status (family_conclude s og fam) = None \<Longrightarrow> family_status fam = None"
  by (auto simp: family_conclude_def status_of_code split: if_splits)

lemma replaying_conclude:
  assumes "replaying ns tc tc'"
  shows "replaying ns (conclude s og tc) (conclude s og tc')"
  using assms conclude_status_byte [of s og "tc_family tc"]
  by (auto simp: replaying_def conclude_def family_conclude_def tc_status_def)

lemma replaying_overran:
  assumes "replaying ns tc tc'" "overran tc t" "mirrored (tc_family tc)"
  shows "replaying ns t (conclude EarlyStop None tc')"
proof -
  have "fc_conclusion (tc_family tc) = None"
    using assms(2,3) by (auto simp: overran_def tc_status_def mirrored_def)
  then show ?thesis using assms(1,2) status_of_code [where s = EarlyStop]
    by (auto simp: replaying_def overran_def conclude_def family_conclude_def tc_status_def)
qed

lemma replaying_push:
  assumes "replaying ns tc tc'" "advances tc u" "tc_status tc = None"
  shows "replaying ns (push_node n (notify ob (u\<lparr>tc_family := (tc_family u)\<lparr>fc_fresh_ids := ids\<rparr>\<rparr>)))
     (push_node n (notify ob' ((counted tc')\<lparr>tc_family := (tc_family (counted tc'))\<lparr>fc_fresh_ids := ids\<rparr>\<rparr>)))"
  using assms by (auto simp: replaying_def advances_def push_node_def notify_def counted_def tc_status_def)

section \<open>Replaying one draw\<close>

lemma overranI:
  assumes "tc_status tc = None"
    "u = tc\<lparr>tc_family := family_conclude EarlyStop None ((tc_family tc)\<lparr>fc_total_draws := n\<rparr>)\<rparr>"
  shows "overran tc u"
proof -
  have "u = tc\<lparr>tc_rng := tc_rng tc, tc_template := tc_template tc,
      tc_family := family_conclude EarlyStop None ((tc_family tc)\<lparr>fc_total_draws := n\<rparr>)\<rparr>"
    unfolding assms(2) by (cases tc) simp
  then show ?thesis using assms(1) unfolding overran_def by blast
qed

lemma pre_choice_exhausted:
  assumes "replaying ns tc tc'" "tc_status tc = None" "tc_nodes tc = ns"
  shows "pre_choice tc' = (Inl Overrun, conclude EarlyStop None tc')"
  using assms replaying_status [OF assms(1)] by (simp add: pre_choice_def replaying_def)

lemma pre_choice_replay:
  assumes sim: "replaying ns tc tc'" and pre: "pre_choice tc = (r, u)" and small: "length ns \<le> USIZE_MAX"
  obtains (refused) s where "tc_status tc = Some s" "r = Inl (verdict_error s)" "u = tc"
      "pre_choice tc' = (Inl (verdict_error s), tc')"
  | (overrun) "r = Inl Overrun" "overran tc u"
      "tc_nodes tc = ns \<Longrightarrow> pre_choice tc' = (Inl Overrun, conclude EarlyStop None tc')"
  | (room) "r = Inr ()" "tc_status tc = None" "u = counted tc"
      "length (tc_nodes tc) < length ns \<Longrightarrow> pre_choice tc' = (Inr (), counted tc')"
proof (cases "tc_status tc")
  case (Some s)
  then show ?thesis using pre replaying_status [OF sim] by (intro refused) (auto simp: pre_choice_def)
next
  case None
  have st': "tc_status tc' = None" using replaying_status [OF sim] None by simp
  note over' = pre_choice_exhausted [OF sim None]
  have room': "pre_choice tc' = (Inr (), counted tc')" if "length (tc_nodes tc) < length ns"
    using sim st' None that small
    by (simp add: pre_choice_def replaying_def try_take_draw_def counted_def Let_def)
  show ?thesis
  proof (cases "length (tc_nodes tc) < tc_max_size tc \<and> fc_total_draws (tc_family tc) < fc_budget (tc_family tc)")
    case True
    then show ?thesis using pre None room'
      by (intro room) (simp_all add: pre_choice_def try_take_draw_def Let_def counted_def)
  next
    case False
    have "\<exists>n. u = tc\<lparr>tc_family := family_conclude EarlyStop None ((tc_family tc)\<lparr>fc_total_draws := n\<rparr>)\<rparr>"
    proof (cases "tc_max_size tc \<le> length (tc_nodes tc)")
      case True
      have "(tc_family tc)\<lparr>fc_total_draws := fc_total_draws (tc_family tc)\<rparr> = tc_family tc" by simp
      then have "u = tc\<lparr>tc_family := family_conclude EarlyStop None
          ((tc_family tc)\<lparr>fc_total_draws := fc_total_draws (tc_family tc)\<rparr>)\<rparr>"
        using pre None True by (simp add: pre_choice_def conclude_def)
      then show ?thesis by blast
    next
      case full: False
      then have "u = tc\<lparr>tc_family := family_conclude EarlyStop None
          ((tc_family tc)\<lparr>fc_total_draws := fc_total_draws (tc_family tc) + 1\<rparr>)\<rparr>"
        using pre None False by (simp add: pre_choice_def try_take_draw_def Let_def conclude_def)
      then show ?thesis by blast
    qed
    then have "overran tc u" using overranI [OF None] by blast
    moreover have "r = Inl Overrun"
      using pre None False by (auto simp: pre_choice_def try_take_draw_def Let_def split: if_splits)
    ultimately show ?thesis using over' overrun by blast
  qed
qed

lemma resolve_replay:
  assumes sim: "replaying ns tc tc'" and res: "resolve_choice lc (a :: 'v internal_result) b fp rnd tc = (r, u)"
    and small: "length ns \<le> USIZE_MAX"
  obtains (internal) "is_internal r"
  | (refused) s where "tc_status tc = Some s" "r = Inl (verdict_error s)" "u = tc"
      "\<And>(a :: 'v internal_result) b fp rnd. resolve_choice lc a b fp rnd tc' = (Inl (verdict_error s), tc')"
  | (overrun) "r = Inl Overrun" "overran tc u"
      "\<And>(a :: 'v internal_result) b fp rnd. tc_nodes tc = ns \<Longrightarrow> resolve_choice lc a b fp rnd tc' = (Inl Overrun, conclude EarlyStop None tc')"
  | (resolved) v where "r = Inr (v, False)" "tc_status tc = None" "advances tc u"
      "\<And>(a :: 'v internal_result) b fp rnd w. length (tc_nodes tc) < length ns \<Longrightarrow> fp (node_value (ns ! length (tc_nodes tc))) = Some w
         \<Longrightarrow> resolve_choice lc a b fp rnd tc' = (Inr (w, False), counted tc')"
proof -
  obtain r1 u1 where pre: "pre_choice tc = (r1, u1)" by fastforce
  show ?thesis
  proof (cases rule: pre_choice_replay [OF sim pre small])
    case (1 s)
    show ?thesis
      by (rule refused [OF 1(1)]) (use res pre 1 in \<open>simp_all add: resolve_choice_def\<close>)
  next
    case 2
    show ?thesis
      by (rule overrun) (use res pre 2 in \<open>simp_all add: resolve_choice_def\<close>)
  next
    case 3
    have replay: "resolve_choice lc a b fp rnd tc' = (Inr (w, False), counted tc')"
      if "length (tc_nodes tc) < length ns" "fp (node_value (ns ! length (tc_nodes tc))) = Some w" for a b fp rnd w
    proof -
      have "tc_nodes (counted tc') = tc_nodes tc" "tc_prefix (counted tc') = map node_value ns"
        using sim by (simp_all add: replaying_def counted_def)
      then show ?thesis using 3(4) [OF that(1)] that by (simp add: resolve_choice_def ebind_def)
    qed
    show ?thesis
    proof (cases r)
      case (Inr x)
      show ?thesis
      proof (cases rule: resolve_choice_cases [OF res])
        case (1 e)
        then show ?thesis using Inr by simp
      next
        case (2 v)
        show ?thesis by (rule resolved [OF 2(1) 3(2) 2(3) replay])
      qed
    next
      case (Inl e)
      show ?thesis
      proof (cases "is_internal r")
        case False
        have "e = Overrun \<and> u = conclude EarlyStop None (counted tc)"
          using res pre 3(1,2) Inl False
          by (auto simp: resolve_choice_def ebind_def Let_def lift_result_def from_rng_def from_template_def
              counted_def conclude_def 3(3)
              split: option.splits sum.splits prod.splits if_splits choice_template_kind.splits)
        then have e: "r = Inl Overrun" and "overran tc u"
          using Inl overranI [OF 3(2)] by (auto simp: conclude_def counted_def)
        then show ?thesis using pre_choice_exhausted [OF sim 3(2)]
          by (intro overrun) (simp_all add: resolve_choice_def)
      qed (rule internal)
    qed
  qed
qed


text \<open>
  How a draw of the first run is replayed: an internal error, a refusal by a concluded family, an
  overrun, or one recorded choice, which the second stream reproduces if it is the one at that
  place of \<open>ns\<close>.
\<close>

definition replayed ::
  "choice_node list \<Rightarrow> 'r test_case \<Rightarrow> 'q test_case \<Rightarrow> (engine_error + 'a) \<times> 'r test_case
   \<Rightarrow> (engine_error + 'a) \<times> 'q test_case \<Rightarrow> bool" where
  "replayed ns tc tc' out out' \<longleftrightarrow>
     is_internal (fst out)
   \<or> (tc_status tc \<noteq> None \<and> (\<exists>e. fst out = Inl e \<and> snd out = tc \<and> out' = (Inl e, tc')))
   \<or> (fst out = Inl Overrun \<and> overran tc (snd out)
      \<and> (tc_nodes tc = ns \<longrightarrow> out' = (Inl Overrun, conclude EarlyStop None tc')))
   \<or> (\<exists>n. tc_status tc = None \<and> tc_nodes (snd out) = tc_nodes tc @ [n]
      \<and> (node_valid n \<longrightarrow> length (tc_nodes tc) < length ns \<longrightarrow> ns ! length (tc_nodes tc) = n \<longrightarrow>
          (\<exists>t'. out' = (fst out, t') \<and> replaying ns (snd out) t')))"

lemma replayed_internal: "is_internal (fst out) \<Longrightarrow> replayed ns tc tc' out out'"
  by (simp add: replayed_def)

lemma is_internal_map_sum [simp]: "is_internal (map_sum id f r) = is_internal r"
  by (cases r rule: is_internal.cases) simp_all

lemma replayed_emap:
  assumes "replayed ns tc tc' (m tc) (m' tc')"
  shows "replayed ns tc tc' (emap f m tc) (emap f m' tc')"
  using assms unfolding replayed_def emap_result by (elim disjE exE conjE; fastforce)

lemma replaying_push_same:
  assumes "replaying ns tc tc'" "advances tc u" "tc_status tc = None"
  shows "replaying ns (push_node n (notify ob u)) (push_node n (notify ob' (counted tc')))"
  using assms by (auto simp: replaying_def advances_def push_node_def notify_def counted_def tc_status_def)

lemma replayed_resolve:
  assumes sim: "replaying ns tc tc'" and small: "length ns \<le> USIZE_MAX"
    and k: "\<And>v t. k v t = (res v, t)" "\<And>v t. k' v t = (res v, t)"
    and fp: "\<And>v. data_valid (node v) \<Longrightarrow> from_prefix (data_value (node v)) = Some v"
  shows "replayed ns tc tc'
    (ebind (resolve_choice lc simplest unit_value from_prefix rnd) (\<lambda>r.
     ebind (record_choice (ChoiceNode (node (fst r)) (snd r)) (ob r)) (\<lambda>_. k (fst r))) tc)
    (ebind (resolve_choice lc simplest unit_value from_prefix rnd') (\<lambda>r.
     ebind (record_choice (ChoiceNode (node (fst r)) (snd r)) (ob r)) (\<lambda>_. k' (fst r))) tc')"
proof -
  obtain r u where res: "resolve_choice lc simplest unit_value from_prefix rnd tc = (r, u)" by fastforce
  show ?thesis
  proof (cases rule: resolve_replay [OF sim res small])
    case 1
    then show ?thesis
      by (cases r rule: is_internal.cases) (auto intro!: replayed_internal simp: ebind_def res)
  next
    case (2 s)
    then show ?thesis by (simp add: replayed_def ebind_def res)
  next
    case 3
    then show ?thesis by (auto simp: replayed_def ebind_def res)
  next
    case (4 v)
    have "replaying ns (push_node n (notify o1 u)) (push_node n (notify o2 (counted tc')))" for n o1 o2
      by (rule replaying_push_same [OF sim 4(3,2)])
    moreover have "resolve_choice lc simplest unit_value from_prefix rnd' tc' = (Inr (v, False), counted tc')"
      if "length (tc_nodes tc) < length ns" "ns ! length (tc_nodes tc) = ChoiceNode (node v) False"
        "data_valid (node v)"
      by (rule 4(4)) (use that fp in \<open>simp_all add: node_value_def\<close>)
    moreover have "tc_nodes u = tc_nodes tc" using 4(3) by (auto simp: advances_def)
    ultimately show ?thesis using 4(1,2) k
      unfolding replayed_def by (auto simp: ebind_def res record_choice_def push_node_def)
  qed
qed

lemma replayed_forced:
  assumes sim: "replaying ns tc tc'" and small: "length ns \<le> USIZE_MAX"
  shows "replayed ns tc tc'
    (ebind pre_choice (\<lambda>_. ebind (record_choice (ChoiceNode d True) ob) (\<lambda>_. ret x)) tc)
    (ebind pre_choice (\<lambda>_. ebind (record_choice (ChoiceNode d True) ob) (\<lambda>_. ret x)) tc')"
proof -
  obtain r u where pre: "pre_choice tc = (r, u)" by fastforce
  show ?thesis
  proof (cases rule: pre_choice_replay [OF sim pre small])
    case (1 s)
    then show ?thesis by (simp add: replayed_def ebind_def pre)
  next
    case 2
    then show ?thesis by (auto simp: replayed_def ebind_def pre)
  next
    case 3
    have "u = tc\<lparr>tc_rng := tc_rng tc, tc_template := tc_template tc,
        tc_family := (tc_family tc)\<lparr>fc_total_draws := fc_total_draws (tc_family tc) + 1\<rparr>\<rparr>"
      unfolding 3(3) counted_def by (cases tc) simp
    then have "advances tc u" unfolding advances_def by blast
    from replaying_push_same [OF sim this 3(2)]
    have "replaying ns (push_node n (notify o1 u)) (push_node n (notify o2 (counted tc')))" for n o1 o2 .
    then show ?thesis using 3 unfolding replayed_def
      by (auto simp: ebind_def pre record_choice_def push_node_def counted_def)
  qed
qed

lemma replayed_assert:
  assumes "b \<Longrightarrow> replayed ns tc tc' (m tc) (m' tc')"
  shows "replayed ns tc tc' (ebind (internally (hegel_internal_assert b msg)) (\<lambda>_. m) tc)
     (ebind (internally (hegel_internal_assert b msg)) (\<lambda>_. m') tc')"
  using assms by (cases b) (auto intro: replayed_internal simp: ebind_def)


lemma draw_integer_from_bind:
  "ebind (draw_integer_from lc kind sample) k =
     ebind (resolve_choice lc (Inr (integer_simplest kind)) (Inr (integer_unit kind))
              (integer_from_prefix (integer_validate kind)) sample) (\<lambda>r.
     ebind (record_choice (ChoiceNode (DInteger kind (fst r)) (snd r)) (ObsInteger (fst r) (snd r))) (\<lambda>_.
     k (fst r)))"
  by (rule ext) (simp add: draw_integer_from_def ebind_def split: prod.split sum.split)

lemma draw_forced_bind:
  "draw_integer_forced lo hi v =
     ebind (internally (hegel_internal_assert (lo \<le> v \<and> v \<le> hi) ''forced value outside'')) (\<lambda>_.
     ebind pre_choice (\<lambda>_. ebind (record_choice (ChoiceNode (DInteger (integer_in lo hi) v) True)
       (ObsInteger v True)) (\<lambda>_. ret ())))"
  unfolding draw_integer_forced_def
  by (rule ext) (simp add: ebind_def record_choice_def split: prod.split sum.split)

lemma weighted_forced_bind:
  "ebind (ebind pre_choice (\<lambda>_. ret (b, True))) f = ebind pre_choice (\<lambda>_. f (b, True))"
  by (rule ext) (simp add: ebind_def split: prod.split sum.split)

lemma replayed_fresh_id:
  assumes sim: "replaying ns tc tc'" and small: "length ns \<le> USIZE_MAX"
    and ids: "ids_ok (fc_fresh_ids (tc_family tc))" "ids_small (fc_fresh_ids (tc_family tc))"
  shows "replayed ns tc tc' (draw_fresh_id lc tc) (draw_fresh_id lc tc')"
proof -
  let ?used = "fc_fresh_ids (tc_family tc)"
  let ?fb = "Inr (smallest_unused_id ?used) :: int internal_result"
  let ?fp = "integer_from_prefix (\<lambda>n. id_in_window (largest_id ?used + 2) n \<and> n \<notin> ?used)"
  let ?rnd = "\<lambda>rng. (?fb, rng)"
  have used': "fc_fresh_ids (tc_family tc') = ?used" using sim by (simp add: replaying_def)
  obtain r u where res: "resolve_choice lc ?fb ?fb ?fp ?rnd tc = (r, u)" by fastforce
  obtain r2 t where m: "draw_fresh_id lc tc = (r2, t)" by fastforce
  note go = draw_fresh_id_def ebind_def Let_def used'
  show ?thesis
  proof (cases rule: resolve_replay [OF sim res small])
    case 1
    then obtain e where "r = Inl (EngineInternal e)" by (cases r rule: is_internal.cases) simp_all
    then have "r2 = Inl (EngineInternal e)" using m res by (simp add: go)
    then show ?thesis using m by (intro replayed_internal) simp
  next
    case (2 s)
    then show ?thesis by (simp add: replayed_def go res)
  next
    case 3
    then show ?thesis by (auto simp: replayed_def go res)
  next
    case (4 v)
    show ?thesis
    proof (cases "to_i64 v")
      case None
      then have "is_internal r2" using m res 4(1) by (auto simp: go)
      then show ?thesis using m by (intro replayed_internal) simp
    next
      case (Some i)
      then have i: "i = v" by (auto simp: to_i64_def split: if_splits)
      let ?d = "DInteger (integer_in 0 (largest_id ?used + 2)) v"
      let ?t = "register_id v (push_node (ChoiceNode ?d False) (notify (ObsInteger v False) u))"
      let ?t' = "register_id v (push_node (ChoiceNode ?d False) (notify (ObsInteger v False) (counted tc')))"
      have t: "draw_fresh_id lc tc = (Inr v, ?t)" using res 4(1) Some i by (simp add: go)
      have v: "v \<notin> ?used \<and> 0 \<le> v \<and> v \<le> largest_id ?used + 2"
        by (cases rule: draw_fresh_id_cases [OF t ids]) auto
      have fp: "?fp (VInteger v) = Some v"
        using v Some i by (simp add: integer_from_prefix_def id_in_window_def)
      have "draw_fresh_id lc tc' = (Inr v, ?t')"
        if "length (tc_nodes tc) < length ns" "ns ! length (tc_nodes tc) = ChoiceNode ?d False"
      proof -
        have "resolve_choice lc ?fb ?fb ?fp ?rnd tc' = (Inr (v, False), counted tc')"
          by (rule 4(4)) (use that fp in \<open>simp_all add: node_value_def\<close>)
        then show ?thesis using Some i by (simp add: go)
      qed
      moreover have "replaying ns ?t ?t'"
        using sim 4(2,3) by (auto simp: replaying_def advances_def push_node_def notify_def counted_def
            tc_status_def register_id_def)
      moreover have "tc_nodes u = tc_nodes tc" using 4(3) by (auto simp: advances_def)
      ultimately show ?thesis using t 4(2)
        unfolding replayed_def by (auto simp: register_id_def push_node_def)
    qed
  qed
qed

lemma replayed_from_set:
  assumes sim: "replaying ns tc tc'" and small: "length ns \<le> USIZE_MAX"
    and ids: "ids_ok (fc_fresh_ids (tc_family tc))" "ids_small (fc_fresh_ids (tc_family tc))"
  shows "replayed ns tc tc' (draw_from_set lc S pool tc) (draw_from_set lc S' pool tc')"
proof -
  define ms where "ms = sorted_list_of_set (set pool)"
  define hi where "hi = largest_id (fc_fresh_ids (tc_family tc)) + 1"
  have used': "fc_fresh_ids (tc_family tc') = fc_fresh_ids (tc_family tc)"
    using sim by (simp add: replaying_def)
  let ?body = "\<lambda>S. ebind (resolve_choice lc (Inr (ms ! 0)) (Inr (ms ! 0)) (integer_from_prefix (id_in_window hi))
       (\<lambda>rng. case random_index S (length ms) rng of (i, rng) \<Rightarrow> (Inr (ms ! i), rng))) (\<lambda>r.
     ebind (internally (hegel_internal_unwrap (to_i64 (fst r)) ''draw_from_set: value does not fit i64'')) (\<lambda>raw.
     ebind (record_choice (ChoiceNode (DInteger (integer_in 0 hi) (repair_member ms raw)) (snd r))
              (ObsInteger (repair_member ms raw) (snd r))) (\<lambda>_.
     ret (repair_member ms raw))))"
  show ?thesis
  proof (cases "pool \<noteq> [] \<and> 0 \<le> ms ! 0 \<and> last ms \<le> hi")
    case False
    then have "is_internal (fst (draw_from_set lc S pool tc))"
      by (auto simp: draw_from_set_def ms_def [symmetric] hi_def [symmetric] Let_def ebind_def
          hegel_internal_assert_def split: if_splits)
    then show ?thesis by (rule replayed_internal)
  next
    case True
    have go: "draw_from_set lc S pool tc = ?body S tc" "draw_from_set lc S' pool tc' = ?body S' tc'"
      using True by (simp_all add: draw_from_set_def ms_def [symmetric] hi_def [symmetric] Let_def used')
    have ms: "sorted ms" "ms \<noteq> []" "set ms = set pool" using True by (auto simp: ms_def)
    let ?rnd = "\<lambda>rng. case random_index S (length ms) rng of (i, rng) \<Rightarrow> (Inr (ms ! i) :: int internal_result, rng)"
    obtain r u where res: "resolve_choice lc (Inr (ms ! 0)) (Inr (ms ! 0)) (integer_from_prefix (id_in_window hi)) ?rnd tc = (r, u)"
      by fastforce
    show ?thesis unfolding go
    proof (cases rule: resolve_replay [OF sim res small])
      case 1
      then obtain e where "r = Inl (EngineInternal e)" by (cases r rule: is_internal.cases) simp_all
      then show "replayed ns tc tc' (?body S tc) (?body S' tc')"
        using res by (intro replayed_internal) (simp add: ebind_def)
    next
      case (2 s)
      then show "replayed ns tc tc' (?body S tc) (?body S' tc')" by (simp add: replayed_def ebind_def res)
    next
      case 3
      then show "replayed ns tc tc' (?body S tc) (?body S' tc')" by (auto simp: replayed_def ebind_def res)
    next
      case (4 v)
      show "replayed ns tc tc' (?body S tc) (?body S' tc')"
      proof (cases "to_i64 v")
        case None
        then show ?thesis using res 4(1) by (intro replayed_internal) (simp add: ebind_def)
      next
        case (Some i)
        define c where "c = repair_member ms i"
        have c: "c \<in> set ms" unfolding c_def by (rule repair_member(1) [OF ms(1,2)])
        have again: "repair_member ms c = c" by (rule repair_member(2) [OF ms(1,2) c])
        have range: "0 \<le> c \<and> c \<le> hi"
        proof -
          obtain j where j: "j < length ms" "ms ! j = c" using c by (auto simp: in_set_conv_nth)
          have "ms ! 0 \<le> ms ! j" "ms ! j \<le> last ms"
            using j ms by (auto simp: last_conv_nth intro!: sorted_nth_mono)
          then show ?thesis using True j by simp
        qed
        have c64: "to_i64 c = Some c" using range ids_fit [OF ids] by (intro to_i64_small) (auto simp: hi_def)
        let ?n = "ChoiceNode (DInteger (integer_in 0 hi) c) False"
        let ?t = "push_node ?n (notify (ObsInteger c False) u)"
        let ?t' = "push_node ?n (notify (ObsInteger c False) (counted tc'))"
        have t: "?body S tc = (Inr c, ?t)"
          using res 4(1) Some by (simp add: ebind_def record_choice_def c_def)
        have "?body S' tc' = (Inr c, ?t')"
          if "length (tc_nodes tc) < length ns" "ns ! length (tc_nodes tc) = ?n"
        proof -
          have "integer_from_prefix (id_in_window hi) (VInteger c) = Some c"
            using range c64 by (simp add: integer_from_prefix_def id_in_window_def)
          then have "resolve_choice lc (Inr (ms ! 0)) (Inr (ms ! 0)) (integer_from_prefix (id_in_window hi))
              (\<lambda>rng. case random_index S' (length ms) rng of (i, rng) \<Rightarrow> (Inr (ms ! i), rng)) tc'
              = (Inr (c, False), counted tc')"
            by (intro 4(4)) (use that in \<open>simp_all add: node_value_def\<close>)
          then show ?thesis using c64 again by (simp add: ebind_def record_choice_def)
        qed
        moreover have "replaying ns ?t ?t'" by (rule replaying_push_same [OF sim 4(3,2)])
        moreover have "tc_nodes u = tc_nodes tc" using 4(3) by (auto simp: advances_def)
        ultimately show ?thesis using t 4(2)
          unfolding replayed_def by (auto simp: push_node_def)
      qed
    qed
  qed
qed


lemma replayed_state:
  assumes "replayed ns tc tc' (f tc tc) (f' tc' tc')"
  shows "replayed ns tc tc' (ebind get_state f tc) (ebind get_state f' tc')"
  using assms by (simp add: ebind_def)

lemma replayed_weighted:
  assumes sim: "replaying ns tc tc'" and small: "length ns \<le> USIZE_MAX"
  shows "replayed ns tc tc' (weighted_with lc p forced sample tc) (weighted_with lc p forced sample' tc')"
proof -
  define fv where "fv = (case forced of Some b \<Rightarrow> Some b
      | None \<Rightarrow> if f64_le p f64_zero then Some False else if f64_le f64_one p then Some True else None)"
  show ?thesis
  proof (cases fv)
    case (Some b)
    then show ?thesis
      unfolding weighted_with_def Let_def fv_def [symmetric] Some option.case weighted_forced_bind fst_conv snd_conv
      by (intro replayed_forced [OF sim small])
  next
    case None
    show ?thesis unfolding weighted_with_def Let_def fv_def [symmetric] None option.case
      by (rule replayed_resolve [OF sim small, where node = "DBoolean \<lparr>bc_p = p\<rparr>"]) simp_all
  qed
qed

text \<open>Every draw is replayed.\<close>

lemma perform_replayed:
  assumes sim: "replaying ns tc tc'" and small: "length ns \<le> USIZE_MAX"
    and ids: "ids_ok (fc_fresh_ids (tc_family tc))" "ids_small (fc_fresh_ids (tc_family tc))"
    and req: "is_draw req"
  shows "replayed ns tc tc' (perform lc S req tc) (perform lc S' req tc')"
proof -
  note res = replayed_resolve [OF sim small] and bind = draw_integer_from_bind
  show ?thesis
  proof (cases req)
    case (DrawInteger fits lo hi)
    show ?thesis unfolding DrawInteger perform.simps draw_integer_def
      by (intro replayed_emap replayed_assert replayed_state, unfold bind,
          rule res [where node = "DInteger (integer_in lo hi)" and res = "\<lambda>v. map_sum EngineInternal id
            (hegel_internal_unwrap (if fits v then Some v else None)
               ''draw_integer: validated value does not fit the requested width'')"])
         (auto simp: integer_from_prefix_def lift_result_def split: sum.split)
  next
    case (DrawUniform lo hi)
    show ?thesis unfolding DrawUniform perform.simps draw_integer_uniform_def
      by (intro replayed_emap replayed_assert, unfold bind,
          rule res [where node = "DInteger (integer_in (int lo) (int hi))" and res = "\<lambda>v. map_sum EngineInternal id
            (hegel_internal_unwrap (if fits_u64 v then Some (nat v) else None)
               ''draw_integer_uniform: validated value does not fit u64'')"])
         (auto simp: integer_from_prefix_def lift_result_def split: sum.split)
  next
    case (DrawForced lo hi v)
    show ?thesis unfolding DrawForced perform.simps draw_forced_bind
      by (intro replayed_emap replayed_assert replayed_forced [OF sim small])
  next
    case DrawFreshId
    show ?thesis unfolding DrawFreshId perform.simps
      by (intro replayed_emap replayed_fresh_id [OF sim small ids])
  next
    case (DrawFromSet pool)
    show ?thesis unfolding DrawFromSet perform.simps
      by (intro replayed_emap replayed_from_set [OF sim small ids])
  next
    case (DrawFloat k)
    show ?thesis unfolding DrawFloat perform.simps draw_float_def
      by (intro replayed_emap, rule res [where node = "DFloat k"]) simp_all
  next
    case (DrawBytes lo hi)
    let ?k = "\<lparr>by_min_size = lo, by_max_size = hi\<rparr>"
    show ?thesis unfolding DrawBytes perform.simps draw_bytes_def Let_def
      by (intro replayed_emap replayed_assert, rule res [where node = "DBytes ?k"]) simp_all
  next
    case (DrawString ivs lo hi)
    let ?k = "\<lparr>sc_intervals = ivs, sc_min_size = lo, sc_max_size = hi\<rparr>"
    show ?thesis unfolding DrawString perform.simps draw_string_def Let_def
      by (intro replayed_emap replayed_assert, rule res [where node = "DString ?k"]) simp_all
  next
    case (Weighted p forced)
    show ?thesis unfolding Weighted perform.simps weighted_def
      by (intro replayed_emap replayed_weighted [OF sim small])
  next
    case (WeightedPrecise p forced)
    show ?thesis unfolding WeightedPrecise perform.simps weighted_precise_def
      by (intro replayed_emap replayed_weighted [OF sim small])
  qed (use req in simp_all)
qed


section \<open>Replaying a run\<close>

lemma freeze_shape:
  assumes "\<not> tc_frozen tc"
  shows "\<exists>obs. freeze tc = (conclude Valid None (tc\<lparr>tc_frozen := True,
     tc_spans := close_spans (length (tc_nodes tc)) (tc_span_stack tc) (tc_spans tc),
     tc_span_stack := []\<rparr>))\<lparr>tc_observer := obs\<rparr>"
proof -
  let ?u = "conclude Valid None (tc\<lparr>tc_frozen := True,
     tc_spans := close_spans (length (tc_nodes tc)) (tc_span_stack tc) (tc_spans tc), tc_span_stack := []\<rparr>)"
  have same: "t = t\<lparr>tc_observer := tc_observer t\<rparr>" for t :: "'a test_case" by (cases t) simp
  have "freeze tc = ?u \<or> (\<exists>ob. freeze tc = notify ob ?u)"
    using assms by (simp add: freeze_def Let_def split: option.split) blast
  then show ?thesis
  proof
    assume "freeze tc = ?u"
    then show ?thesis using same [of ?u] by metis
  next
    assume "\<exists>ob. freeze tc = notify ob ?u"
    then show ?thesis unfolding notify_def by blast
  qed
qed

lemma replaying_observer:
  "replaying ns t t' \<Longrightarrow> replaying ns (t\<lparr>tc_observer := o1\<rparr>) (t'\<lparr>tc_observer := o2\<rparr>)"
  by (simp add: replaying_def tc_status_def)

lemma replaying_freeze:
  assumes sim: "replaying ns tc tc'"
  shows "replaying ns (freeze tc) (freeze tc')"
proof (cases "tc_frozen tc")
  case False
  then have no: "\<not> tc_frozen tc'" using sim by (simp add: replaying_def)
  obtain o1 where o1: "freeze tc = (conclude Valid None (tc\<lparr>tc_frozen := True,
     tc_spans := close_spans (length (tc_nodes tc)) (tc_span_stack tc) (tc_spans tc),
     tc_span_stack := []\<rparr>))\<lparr>tc_observer := o1\<rparr>" using freeze_shape [OF False] by blast
  obtain o2 where o2: "freeze tc' = (conclude Valid None (tc'\<lparr>tc_frozen := True,
     tc_spans := close_spans (length (tc_nodes tc')) (tc_span_stack tc') (tc_spans tc'),
     tc_span_stack := []\<rparr>))\<lparr>tc_observer := o2\<rparr>" using freeze_shape [OF no] by blast
  show ?thesis unfolding o1 o2
    by (intro replaying_observer replaying_conclude) (use sim in \<open>simp add: replaying_def tc_status_def\<close>)
next
  case True
  then show ?thesis using sim by (simp add: freeze_def replaying_def)
qed

lemma replaying_start_span:
  assumes sim: "replaying ns tc tc'" and m: "start_span label tc = (i, t)"
  shows "\<exists>t'. start_span label tc' = (i, t') \<and> replaying ns t t'"
proof -
  let ?sp = "\<lparr>span_start = length (tc_nodes tc), span_end = length (tc_nodes tc),
      span_label = decimal (unat label), span_depth = length (tc_span_stack tc),
      span_parent = (case tc_span_stack tc of [] \<Rightarrow> None | t # _ \<Rightarrow> Some t), span_discarded = False\<rparr>"
  let ?u = "tc\<lparr>tc_spans := tc_spans tc @ [?sp], tc_span_stack := length (tc_spans tc) # tc_span_stack tc,
      tc_labels := {label} # tc_labels tc\<rparr>"
  let ?u' = "tc'\<lparr>tc_spans := tc_spans tc @ [?sp], tc_span_stack := length (tc_spans tc) # tc_span_stack tc,
      tc_labels := {label} # tc_labels tc\<rparr>"
  have same: "tc_nodes tc' = tc_nodes tc" "tc_spans tc' = tc_spans tc" "tc_span_stack tc' = tc_span_stack tc"
    "tc_labels tc' = tc_labels tc" using sim by (simp_all add: replaying_def)
  have u: "replaying ns ?u ?u'" using sim by (simp add: replaying_def tc_status_def)
  have "replaying ns (freeze (conclude Invalid None ?u)) (freeze (conclude Invalid None ?u'))"
    by (intro replaying_freeze replaying_conclude u)
  moreover have "start_span label tc' = (length (tc_spans tc),
      if MAX_DEPTH < length (tc_span_stack tc) + 1 then freeze (conclude Invalid None ?u') else ?u')"
    by (simp add: start_span_def Let_def same)
  moreover have "start_span label tc = (length (tc_spans tc),
      if MAX_DEPTH < length (tc_span_stack tc) + 1 then freeze (conclude Invalid None ?u) else ?u)"
    by (simp add: start_span_def Let_def)
  ultimately show ?thesis using m u by auto
qed

lemma replaying_stop_span:
  assumes "replaying ns tc tc'"
  shows "replaying ns (stop_span d tc) (stop_span d tc')"
  using assms
  by (auto simp: replaying_def stop_span_def promote_labels_def Let_def tc_status_def split: list.split)


lemma other_replayed:
  assumes sim: "replaying ns tc tc'" and req: "\<not> is_draw req" and m: "perform lc S req tc = (r, t)"
  shows "\<exists>t'. perform lc S' req tc' = (r, t') \<and> replaying ns t t'"
proof (cases req)
  case (StartSpan label)
  obtain i where i: "start_span label tc = (i, t)" "r = Inr (GotIndex i)"
    using m StartSpan by (auto split: prod.splits)
  show ?thesis using replaying_start_span [OF sim i(1)] StartSpan i(2) by auto
qed (use req m sim replaying_freeze replaying_conclude replaying_stop_span in auto)


text \<open>A body that makes well-formed requests only.\<close>

definition body_ok :: "body \<Rightarrow> bool" where
  "body_ok body \<longleftrightarrow> (\<forall>hist req. body hist = Some req \<longrightarrow> request_ok req)"

definition family_small :: "nat \<Rightarrow> family \<Rightarrow> bool" where
  "family_small n fam \<longleftrightarrow> card (fc_fresh_ids fam) + n < 2 ^ 61"

lemma other_nodes:
  assumes "perform lc S req tc = (r, t)" "\<not> is_draw req"
  shows "tc_nodes t = tc_nodes tc"
proof (cases req)
  case (StartSpan label)
  then obtain i where m: "start_span label tc = (i, t)" using assms(1) by (auto split: prod.splits)
  show ?thesis by (rule start_span_fields(1) [OF m])
qed (use assms in auto)

lemma perform_small:
  assumes "sampling_sound S" "request_ok req" "stream_ok lc tc" "family_small (Suc n) (tc_family tc)"
    "perform lc S req tc = (r, t)"
  shows "ids_small (fc_fresh_ids (tc_family tc))" "stream_ok lc t" "family_small n (tc_family t)"
    "\<exists>ys. tc_nodes t = tc_nodes tc @ ys" "tc_status tc \<noteq> None \<Longrightarrow> tc_status t \<noteq> None \<and> tc_nodes t = tc_nodes tc"
proof -
  show small: "ids_small (fc_fresh_ids (tc_family tc))"
    using assms(4) by (simp add: family_small_def ids_small_def)
  show "stream_ok lc t" by (rule perform_ok [OF assms(1-3) small assms(5)])
  have "card (fc_fresh_ids (tc_family t)) \<le> Suc (card (fc_fresh_ids (tc_family tc)))"
    using perform_ids [OF assms(1-3) small assms(5)] card_insert_le_Suc by fastforce
  then show "family_small n (tc_family t)" using assms(4) by (simp add: family_small_def)
  show "\<exists>ys. tc_nodes t = tc_nodes tc @ ys"
    using assms(1-3) small assms(5)
  proof (cases rule: perform_cases)
    case (failed e)
    then show ?thesis using quiet_fields(4) by fastforce
  next
    case (recorded d)
    show ?thesis by (rule recorded_fields [OF recorded(2)]) simp
  qed (use other_nodes [OF assms(5)] in simp)
  assume concluded: "tc_status tc \<noteq> None"
  then obtain s where s: "tc_status tc = Some s" by blast
  show "tc_status t \<noteq> None \<and> tc_nodes t = tc_nodes tc"
  proof (cases "is_draw req")
    case True
    then show ?thesis using draw_concluded [OF s True, of lc S] assms(5) concluded by auto
  next
    case False
    have "family_evolves (tc_family tc) (tc_family t)" by (rule perform_evolves [OF assms(1-3) small assms(5)])
    then have "tc_status t \<noteq> None"
      using concluded stream_okD(1) [OF assms(3)] status_mirrored
      by (auto simp: family_evolves_def tc_status_def)
    then show ?thesis using other_nodes [OF assms(5) False] by simp
  qed
qed

lemma run_body_grows:
  assumes S: "sampling_sound S" and body: "body_ok body"
    and "stream_ok lc tc" "family_small n (tc_family tc)"
    and "run_body lc S body n hist tc = (hist', t)"
  shows "(\<exists>zs. hist' = hist @ zs) \<and> (\<exists>ys. tc_nodes t = tc_nodes tc @ ys)
     \<and> (tc_status tc \<noteq> None \<longrightarrow> tc_nodes t = tc_nodes tc)"
  using assms(3-)
proof (induction n arbitrary: hist tc)
  case (Suc n)
  show ?case
  proof (cases "body hist")
    case None
    then show ?thesis using Suc.prems by simp
  next
    case (Some req)
    obtain r u where m: "perform lc S req tc = (r, u)" by fastforce
    have req: "request_ok req" using body Some by (auto simp: body_ok_def)
    note step = perform_small [OF S req Suc.prems(1,2) m]
    have rest: "run_body lc S body n (hist @ [r]) u = (hist', t)" using Suc.prems(3) Some m by simp
    show ?thesis using Suc.IH [OF step(2,3) rest] step(4,5) by auto
  qed
qed simp

lemma run_body_replays:
  assumes S: "sampling_sound S" and body: "body_ok body" and valid: "list_all node_valid ns"
    and small: "length ns \<le> USIZE_MAX" and quiet: "\<not> list_ex is_internal hist'"
    and "stream_ok lc tc" "family_small n (tc_family tc)" "replaying ns tc tc'"
    and "run_body lc S body n hist tc = (hist', t)" "tc_nodes t = ns"
  shows "\<exists>t'. run_body lc S' body n hist tc' = (hist', t') \<and> replaying ns t t'"
  using assms(6-)
proof (induction n arbitrary: hist tc tc')
  case (Suc n)
  show ?case
  proof (cases "body hist")
    case None
    then show ?thesis using Suc.prems by auto
  next
    case (Some req)
    obtain r u where m: "perform lc S req tc = (r, u)" by fastforce
    have req: "request_ok req" using body Some by (auto simp: body_ok_def)
    note step = perform_small [OF S req Suc.prems(1,2) m]
    have rest: "run_body lc S body n (hist @ [r]) u = (hist', t)" using Suc.prems(4) Some m by simp
    note grows = run_body_grows [OF S body step(2,3) rest]
    note ok = stream_okD [OF Suc.prems(1)]
    have "\<exists>u'. perform lc S' req tc' = (r, u') \<and> replaying ns u u'"
    proof (cases "is_draw req")
      case False
      show ?thesis by (rule other_replayed [OF Suc.prems(3) False m])
    next
      case True
      have "replayed ns tc tc' (r, u) (perform lc S' req tc')"
        using perform_replayed [OF Suc.prems(3) small ok(2) step(1) True, of lc S S'] m by simp
      then consider "is_internal r" | (refused) e where "r = Inl e" "u = tc" "perform lc S' req tc' = (Inl e, tc')"
        | (overrun) "r = Inl Overrun" "overran tc u"
            "tc_nodes tc = ns \<Longrightarrow> perform lc S' req tc' = (Inl Overrun, conclude EarlyStop None tc')"
        | (drawn) n where "tc_nodes u = tc_nodes tc @ [n]"
            "node_valid n \<Longrightarrow> length (tc_nodes tc) < length ns \<Longrightarrow> ns ! length (tc_nodes tc) = n \<Longrightarrow>
              \<exists>u'. perform lc S' req tc' = (r, u') \<and> replaying ns u u'"
        unfolding replayed_def fst_conv snd_conv by blast
      then show ?thesis
      proof cases
        case 1
        then show ?thesis using grows quiet by auto
      next
        case refused
        then show ?thesis using Suc.prems(3) by simp
      next
        case overrun
        have "tc_status u \<noteq> None" "tc_nodes u = tc_nodes tc"
          using overrun(2) ok(1) by (auto simp: overran_def tc_status_def status_conclude)
        then have "tc_nodes tc = ns" using grows Suc.prems(5) by simp
        then show ?thesis using overrun replaying_overran [OF Suc.prems(3) overrun(2) ok(1)] by simp
      next
        case drawn
        obtain ys where "ns = tc_nodes tc @ n # ys" using grows Suc.prems(5) drawn(1) by auto
        then show ?thesis using drawn(2) valid by simp
      qed
    qed
    then obtain u' where u': "perform lc S' req tc' = (r, u')" "replaying ns u u'" by blast
    show ?thesis using Suc.IH [OF step(2,3) u'(2) rest Suc.prems(5)] Some u'(1) by simp
  qed
qed auto


section \<open>The property\<close>

lemma replaying_root:
  assumes "root_stream root"
  shows "replaying ns root (for_choices (map node_value ns) pn ob)" "stream_ok lc root"
    "fc_fresh_ids (tc_family root) = {}"
proof -
  have fields: "tc_nodes root = []" "tc_spans root = []" "tc_span_stack root = []" "tc_labels root = []"
    "tc_tags root = {}" "tc_has_discards root = False" "tc_frozen root = False"
    "mirrored (tc_family root)" "fc_fresh_ids (tc_family root) = {}"
    "fc_conclusion (tc_family root) = None" "fc_concluded_status (tc_family root) = STATUS_UNSET"
    using assms
    by (auto simp: root_stream_def for_choices_and_template_def new_stream_def Let_def family_new_def
        with_random_and_params_def set_budget_def set_generation_parameters_def mirrored_def
        family_status_def)
  show "replaying ns root (for_choices (map node_value ns) pn ob)"
    by (simp add: replaying_def fields for_choices_def for_choices_and_template_def new_stream_def family_new_def)
  show "stream_ok lc root" by (rule stream_okI) (simp_all add: fields)
  show "fc_fresh_ids (tc_family root) = {}" by (rule fields)
qed

text \<open>A sample body: its second request depends on the answer to its first.\<close>

definition sample_body :: body where
  "sample_body hist =
     (case hist of
        [] \<Rightarrow> Some (DrawInteger (\<lambda>_. True) 3 9)
      | [Inr (GotInteger v)] \<Rightarrow> Some (if v < 5 then DrawFreshId else StopSpan False)
      | [_, _] \<Rightarrow> Some (Conclude Interesting None)
      | _ \<Rightarrow> None)"

definition sample_random_root :: "nat test_case" where
  "sample_random_root =
     with_random_and_params (for_choices_and_template [] None None 8 None) 0 default_parameters"

lemma sample_body_ok: "body_ok sample_body"
  by (auto simp: body_ok_def sample_body_def split: list.splits sum.splits response.splits)

lemma sample_random_root: "root_stream sample_random_root"
  unfolding root_stream_def sample_random_root_def by blast

lemma sample_body_run:
  "\<exists>t. run_body (\<lambda>v. v) sample_sampling sample_body 3 [] sample_random_root =
       ([Inr (GotInteger 3), Inr (GotInteger 0), Inr GotUnit], t)
     \<and> tc_nodes t = [ChoiceNode (DInteger (integer_in 3 9) 3) False, ChoiceNode (DInteger (integer_in 0 1) 0) False]"
  by (simp add: numeral_3_eq_3 sample_body_def sample_random_root_def with_random_and_params_def
      set_budget_def set_generation_parameters_def sample_eval draw_integer_def draw_integer_from_def from_rng_def
      hegel_internal_assert_def)



end
