(* ===== verification/Draws.thy ===== *)
theory Draws
  imports TestCase
begin

text \<open>
  \<open>hegel-c/src/native/draws/mod.rs\<close>: the draws of the API surface. Each validates its request
  and runs a choice inside a labelled span; collections and recursive values keep a state of
  their own beside the test case, so their operations act on a pair.
\<close>

section \<open>Labels and spans\<close>

definition LABEL_FEATURE_FLAG :: u64 where "LABEL_FEATURE_FLAG = 16"
definition LABEL_INTEGER :: u64 where "LABEL_INTEGER = 26"
definition LABEL_FLOAT :: u64 where "LABEL_FLOAT = 27"
definition LABEL_BOOLEAN :: u64 where "LABEL_BOOLEAN = 28"
definition LABEL_BYTES :: u64 where "LABEL_BYTES = 29"
definition LABEL_STRING :: u64 where "LABEL_STRING = 30"
definition LABEL_FRESH_ID :: u64 where "LABEL_FRESH_ID = 32"
definition LABEL_SET_CHOICE :: u64 where "LABEL_SET_CHOICE = 33"
definition LABEL_CONCURRENCY :: u64 where "LABEL_CONCURRENCY = 34"

text \<open>The span is closed whether or not the body succeeds.\<close>

definition spanned :: "u64 \<Rightarrow> ('r, 'a) draw \<Rightarrow> ('r, 'a) draw" where
  "spanned label f tc =
     (case start_span label tc of
        (_, tc) \<Rightarrow> case f tc of (result, tc) \<Rightarrow> (result, stop_span False tc))"

definition invalid :: "bool \<Rightarrow> string \<Rightarrow> ('r, unit) draw" where
  "invalid bad msg = (if bad then throw (InvalidArgument msg) else ret ())"

text \<open>Indexing a slice panics out of range.\<close>

definition index_at :: "'a list \<Rightarrow> nat \<Rightarrow> ('s, engine_error, 'a) effect" where
  "index_at xs i =
     (if i < length xs then ret (xs ! i) else throw (EngineInternal (Panicked ''index out of bounds'')))"

section \<open>Single precision\<close>

type_synonym f32 = "32 word"

definition f32_to_f64 :: "f32 \<Rightarrow> f64" where
  "f32_to_f64 v =
     (let negative = bit v 31;
          e = unat (drop_bit 23 v AND 0xFF);
          m = unat (v AND 0x7FFFFF)
      in if e = 255 then (if m = 0 then f64_signed negative f64_infinity else f64_NAN)
         else let significand = (if e = 0 then m else m + 2 ^ 23);
                  scale = max e 1
              in f64_signed negative
                   (if 150 \<le> scale then f64_of_ratio (significand * 2 ^ (scale - 150)) 1
                    else f64_of_ratio significand (2 ^ (150 - scale))))"

definition f32_of_ratio :: "nat \<Rightarrow> nat \<Rightarrow> f32" where
  "f32_of_ratio a b =
     (if a = 0 then 0
      else let e = max (ratio_exponent a b) (-126);
               significand = round_half_even (a * 2 ^ nat (23 - e)) (b * 2 ^ nat (e - 23));
               bits = nat (e + 126) * 2 ^ 23 + significand
           in if 255 * 2 ^ 23 \<le> bits then 0x7F800000 else of_nat bits)"

definition f32_signed :: "bool \<Rightarrow> f32 \<Rightarrow> f32" where
  "f32_signed negative mag = (if negative then mag OR push_bit 31 1 else mag)"

definition f64_to_f32 :: "f64 \<Rightarrow> f32" where
  "f64_to_f32 v =
     (if is_nan v then 0x7FC00000
      else f32_signed (is_sign_negative v)
             (if is_infinite v then 0x7F800000
              else case f64_ratio v of (a, b) \<Rightarrow> f32_of_ratio a b))"

definition f32_MAX :: f32 where "f32_MAX = 0x7F7FFFFF"
definition f32_MIN :: f32 where "f32_MIN = 0xFF7FFFFF"

definition f32_next_up :: "f32 \<Rightarrow> f32" where
  "f32_next_up v =
     (let mag = v AND 0x7FFFFFFF
      in if 0x7F800000 < mag \<or> v = 0x7F800000 then v
         else if mag = 0 then 1
         else if bit v 31 then v - 1
         else v + 1)"

definition f32_neg :: "f32 \<Rightarrow> f32" where "f32_neg v = v XOR push_bit 31 1"

definition f32_next_down :: "f32 \<Rightarrow> f32" where
  "f32_next_down v = f32_neg (f32_next_up (f32_neg v))"

definition std_next_down :: "f64 \<Rightarrow> f64" where
  "std_next_down v = f64_neg (std_next_up (f64_neg v))"

section \<open>Floats\<close>

record float_spec =
  fs_width :: nat
  fs_min_value :: f64
  fs_max_value :: f64
  fs_allow_nan :: bool
  fs_allow_infinity :: bool
  fs_exclude_min :: bool
  fs_exclude_max :: bool
  fs_smallest_nonzero_magnitude :: f64

definition MANTISSA_MASK :: u64 where "MANTISSA_MASK = push_bit 52 1 - 1"

definition float_clamp :: "float_choice \<Rightarrow> f64 \<Rightarrow> f64" where
  "float_clamp fc raw =
     (let min_value = f64_max (fc_min_value fc) (f64_neg f64_MAX);
          max_value = f64_min (fc_max_value fc) f64_MAX;
          range_size = f64_min (f64_sub max_value min_value) f64_MAX;
          mant = f64_abs raw AND MANTISSA_MASK;
          f = f64_add min_value (f64_mul range_size
                (f64_div (u64_to_f64 mant) (u64_to_f64 MANTISSA_MASK)));
          snm = fc_smallest_nonzero_magnitude fc;
          f = (if \<not> f64_eq f f64_zero \<and> f64_lt (f64_abs f) snm
               then (if f64_lt max_value snm then f64_neg snm else snm) else f)
      in f64_min (f64_max f min_value) max_value)"

definition narrow_to_f32 :: "f64 \<Rightarrow> f64 \<Rightarrow> f64 \<Rightarrow> f64 \<Rightarrow> f64" where
  "narrow_to_f32 min_value max_value snm v =
     (let narrowed = f32_to_f64 (f64_to_f32 v)
      in if is_finite narrowed then narrowed
         else f32_to_f64 (f64_to_f32 (float_clamp
                \<lparr>fc_min_value = f64_max min_value (f32_to_f64 f32_MIN),
                 fc_max_value = f64_min max_value (f32_to_f64 f32_MAX),
                 fc_allow_nan = False, fc_allow_infinity = False,
                 fc_smallest_nonzero_magnitude = snm\<rparr> v)))"

text \<open>The bounds a float is drawn within: exclusive bounds step inwards at the width.\<close>

definition float_bounds :: "float_spec \<Rightarrow> f64 \<times> f64" where
  "float_bounds spec =
     (let narrow = (fs_width spec = 32);
          lo = fs_min_value spec; hi = fs_max_value spec;
          lo = (if fs_exclude_min spec
                then (if narrow then f32_to_f64 (f32_next_up (f64_to_f32 lo)) else std_next_up lo) else lo);
          hi = (if fs_exclude_max spec
                then (if narrow then f32_to_f64 (f32_next_down (f64_to_f32 hi)) else std_next_down hi) else hi)
      in if narrow \<and> \<not> fs_allow_infinity spec
         then (f64_max lo (f32_to_f64 f32_MIN), f64_min hi (f32_to_f64 f32_MAX)) else (lo, hi))"

definition validate_float_spec :: "float_spec \<Rightarrow> ('r, unit) draw" where
  "validate_float_spec spec =
     (let snm = fs_smallest_nonzero_magnitude spec;
          lo = fs_min_value spec; hi = fs_max_value spec
      in ebind (invalid (fs_width spec \<noteq> 32 \<and> fs_width spec \<noteq> 64) ''unsupported float width'') (\<lambda>_.
         ebind (invalid (\<not> (is_finite snm \<and> f64_lt f64_zero snm))
                  ''smallest_nonzero_magnitude must be a positive finite float'') (\<lambda>_.
         ebind (invalid (is_nan lo \<or> is_nan hi) ''float bounds must not be NaN'') (\<lambda>_.
         ebind (invalid (fs_allow_nan spec \<and> (is_finite lo \<or> is_finite hi))
                  ''Cannot have allow_nan=true with min_value or max_value'') (\<lambda>_.
         ebind (invalid (fs_allow_infinity spec \<and> is_finite lo \<and> is_finite hi)
                  ''Cannot have allow_infinity=true with both min_value and max_value'') (\<lambda>_.
         invalid (fs_width spec = 32
                  \<and> (\<not> f64_eq (f32_to_f64 (f64_to_f32 lo)) lo \<or> \<not> f64_eq (f32_to_f64 (f64_to_f32 hi)) hi))
           ''bound cannot be exactly represented as a float of width 32''))))))"

definition generate_float ::
  "(f64 \<Rightarrow> f64) \<Rightarrow> 'r sampling \<Rightarrow> float_spec \<Rightarrow> ('r, f64) draw" where
  "generate_float lc S spec =
     ebind (validate_float_spec spec) (\<lambda>_.
     case float_bounds spec of (min_value, max_value) \<Rightarrow>
       ebind (invalid (f64_lt max_value min_value) ''min_value must be <= max_value'') (\<lambda>_.
       let snm = fs_smallest_nonzero_magnitude spec in
       ebind (spanned LABEL_FLOAT (draw_float lc S
                \<lparr>fc_min_value = min_value, fc_max_value = max_value, fc_allow_nan = fs_allow_nan spec,
                 fc_allow_infinity = fs_allow_infinity spec, fc_smallest_nonzero_magnitude = snm\<rparr>)) (\<lambda>v.
       ret (if fs_width spec = 32 \<and> is_finite v then narrow_to_f32 min_value max_value snm v else v))))"

section \<open>Scalars\<close>

definition generate_integer ::
  "(f64 \<Rightarrow> f64) \<Rightarrow> 'r sampling \<Rightarrow> int \<Rightarrow> int \<Rightarrow> ('r, int) draw" where
  "generate_integer lc S min_value max_value =
     ebind (invalid (max_value < min_value) ''generate_integer requires min_value <= max_value'') (\<lambda>_.
     spanned LABEL_INTEGER (draw_integer lc S (\<lambda>_. True) min_value max_value))"

definition fresh_id :: "(f64 \<Rightarrow> f64) \<Rightarrow> ('r, int) draw" where
  "fresh_id lc = spanned LABEL_FRESH_ID (draw_fresh_id lc)"

definition choose_from :: "(f64 \<Rightarrow> f64) \<Rightarrow> 'r sampling \<Rightarrow> int list \<Rightarrow> ('r, int) draw" where
  "choose_from lc S ms = spanned LABEL_SET_CHOICE (draw_from_set lc S ms)"

definition generate_bytes ::
  "(f64 \<Rightarrow> f64) \<Rightarrow> 'r sampling \<Rightarrow> nat \<Rightarrow> nat \<Rightarrow> ('r, u8 list) draw" where
  "generate_bytes lc S min_size max_size =
     ebind (invalid (max_size < min_size) ''generate_bytes requires min_size <= max_size'') (\<lambda>_.
     spanned LABEL_BYTES (draw_bytes lc S min_size max_size))"

definition generate_boolean ::
  "(f64 \<Rightarrow> f64) \<Rightarrow> 'r sampling \<Rightarrow> f64 \<Rightarrow> bool option \<Rightarrow> ('r, bool) draw" where
  "generate_boolean lc S p forced =
     ebind (invalid (\<not> (f64_le f64_zero p \<and> f64_le p f64_one)) ''requires a probability in [0.0, 1.0]'') (\<lambda>_.
     ebind (invalid (forced = Some True \<and> f64_eq p f64_zero) ''cannot force true when p = 0.0'') (\<lambda>_.
     ebind (invalid (forced = Some False \<and> f64_eq p f64_one) ''cannot force false when p = 1.0'') (\<lambda>_.
     spanned LABEL_BOOLEAN (weighted_precise lc S p forced))))"

section \<open>Collections\<close>

text \<open>A draw beside a state of the caller.\<close>

definition with_case :: "('r, 'a) draw \<Rightarrow> ('m \<times> 'r test_case, engine_error, 'a) effect" where
  "with_case m s = (case m (snd s) of (r, tc) \<Rightarrow> (r, (fst s, tc)))"

definition many_forced :: "many_state \<Rightarrow> bool option" where
  "many_forced st =
     (if many_force_stop st then Some False
      else if many_count st < many_min_size st then Some True
      else if f64_le (many_max_size st) (usize_as_f64 (many_count st)) then Some False
      else None)"

definition many_more ::
  "(f64 \<Rightarrow> f64) \<Rightarrow> 'r sampling \<Rightarrow> (many_state \<times> 'r test_case, engine_error, bool) effect" where
  "many_more lc S =
     ebind get_state (\<lambda>s. let st = fst s in
     ebind (if f64_eq (usize_as_f64 (many_min_size st)) (many_max_size st)
            then ret (many_count st < many_min_size st)
            else with_case (weighted lc S (many_p_continue st) (many_forced st))) (\<lambda>should_continue.
     ebind (modify (apfst (\<lambda>st. if should_continue then st\<lparr>many_count := many_count st + 1\<rparr> else st))) (\<lambda>_.
     ret should_continue)))"

definition many_reject :: "(many_state \<times> 'r test_case, engine_error, unit) effect" where
  "many_reject =
     ebind get_state (\<lambda>s.
     ebind (lift_result EngineInternal (hegel_internal_assert (0 < many_count (fst s)) ''state.count > 0'')) (\<lambda>_.
     ebind (modify (apfst (\<lambda>st. st\<lparr>many_count := many_count st - 1, many_rejections := many_rejections st + 1\<rparr>))) (\<lambda>_.
     ebind get_state (\<lambda>s. let st = fst s in
     if max 3 (2 * many_count st) < many_rejections st
     then if many_count st < many_min_size st
          then ebind (modify (apsnd (conclude Invalid None))) (\<lambda>_. throw InvalidTestCase)
          else modify (apfst (\<lambda>st. st\<lparr>many_force_stop := True\<rparr>))
     else ret ()))))"

section \<open>Recursive draws\<close>

definition RECURSION_MAX_ATTEMPTS :: nat where "RECURSION_MAX_ATTEMPTS = 9"
definition RECURSION_MAX_REPRICES :: nat where "RECURSION_MAX_REPRICES = 2"
definition RECURSION_LARGE_TARGET_PROBABILITY :: f64 where
  "RECURSION_LARGE_TARGET_PROBABILITY = 0x3FE8000000000000"
definition RECURSION_PROFILE_HORIZON :: nat where "RECURSION_PROFILE_HORIZON = 4096"
definition RECURSION_PRIOR_ARITY :: f64 where "RECURSION_PRIOR_ARITY = 0x4000000000000000"
definition RECURSION_PRIOR_WEIGHT :: f64 where "RECURSION_PRIOR_WEIGHT = 0x3FD0000000000000"
definition RECURSION_MAX_BRANCH_PROBABILITY :: f64 where
  "RECURSION_MAX_BRANCH_PROBABILITY = 0x3FEE666666666666"
definition RECURSION_REPRICE_THRESHOLD :: f64 where "RECURSION_REPRICE_THRESHOLD = 0x3FA999999999999A"

definition recursion_branch_probability :: "f64 \<Rightarrow> nat \<Rightarrow> f64" where
  "recursion_branch_probability mean_arity max_leaves =
     (let k = f64_max mean_arity f64_one;
          budget = f64_of_int (int (max 2 (min max_leaves (2 ^ 32))))
      in f64_min (f64_div (f64_sub budget f64_one) (f64_sub (f64_mul budget k) f64_one))
           RECURSION_MAX_BRANCH_PROBABILITY)"

definition recursion_arity_estimate :: "recursion_state \<Rightarrow> f64" where
  "recursion_arity_estimate st =
     f64_div (f64_add (f64_mul RECURSION_PRIOR_ARITY RECURSION_PRIOR_WEIGHT)
                (f64_of_int (int (rc_closed_children st))))
       (f64_add RECURSION_PRIOR_WEIGHT (f64_of_int (int (rc_closed_branches st))))"

definition recursion_effective_target :: "recursion_state \<Rightarrow> nat" where
  "recursion_effective_target st = max 1 (rc_target st div 2 ^ rc_attempt st)"

definition recursion_priced_probability :: "recursion_state \<Rightarrow> f64" where
  "recursion_priced_probability st =
     recursion_branch_probability
       (f64_add (recursion_arity_estimate st) (f64_of_int (int (rc_attempt st))))
       (recursion_effective_target st)"

definition recursion_tail_probability :: "recursion_state \<Rightarrow> f64" where
  "recursion_tail_probability st =
     recursion_branch_probability
       (f64_add (recursion_arity_estimate st) (f64_of_int (int (rc_attempt st)))) 2"

record recursion_profile =
  rp_boundary_depth :: nat
  rp_boundary_probability :: f64
  rp_expected_leaves :: f64

definition profile_level :: "f64 \<Rightarrow> f64 \<Rightarrow> f64" where
  "profile_level arity f =
     (let grow = RECURSION_MAX_BRANCH_PROBABILITY
      in f64_add (f64_sub f64_one grow) (f64_mul (f64_mul grow arity) f))"

function profile_search :: "f64 \<Rightarrow> f64 \<Rightarrow> nat \<Rightarrow> f64 \<Rightarrow> f64 \<Rightarrow> nat \<Rightarrow> f64 \<times> f64 \<times> nat" where
  "profile_search target arity horizon lo hi boundary =
     (if f64_lt hi target \<and> boundary < horizon
      then let next = profile_level arity hi
           in if f64_lt (f64_sub next hi) 0x3E112E0BE826D695 then (lo, hi, boundary)
              else profile_search target arity horizon (profile_level arity lo) next (boundary + 1)
      else (lo, hi, boundary))"
  by auto
termination
  by (relation "measure (\<lambda>(target, arity, horizon, lo, hi, boundary). horizon - boundary)") auto

declare profile_search.simps [simp del]

definition solve_profile :: "f64 \<Rightarrow> f64 \<Rightarrow> f64 \<Rightarrow> nat \<Rightarrow> recursion_profile" where
  "solve_profile target arity tail_probability max_depth =
     (let grow = RECURSION_MAX_BRANCH_PROBABILITY in
      if max_depth = 0
      then \<lparr>rp_boundary_depth = 0, rp_boundary_probability = tail_probability, rp_expected_leaves = f64_one\<rparr>
      else let lo = f64_div (f64_sub f64_one tail_probability)
                      (f64_sub f64_one (f64_mul tail_probability arity));
               horizon = min max_depth RECURSION_PROFILE_HORIZON
           in case profile_search target arity horizon lo (profile_level arity lo) 0 of
                (lo, hi, boundary) \<Rightarrow>
                  if f64_le hi target
                  then \<lparr>rp_boundary_depth = boundary, rp_boundary_probability = grow, rp_expected_leaves = hi\<rparr>
                  else if f64_le target lo
                  then \<lparr>rp_boundary_depth = boundary, rp_boundary_probability = tail_probability,
                        rp_expected_leaves = lo\<rparr>
                  else let frac = f64_div (f64_sub target lo) (f64_sub hi lo)
                       in \<lparr>rp_boundary_depth = boundary,
                           rp_boundary_probability =
                             f64_add tail_probability (f64_mul (f64_sub grow tail_probability) frac),
                           rp_expected_leaves = target\<rparr>)"

definition recursion_decision_probability :: "recursion_state \<Rightarrow> nat \<Rightarrow> f64" where
  "recursion_decision_probability st depth =
     (let target = recursion_effective_target st in
      if target = 1 then recursion_priced_probability st
      else let tail = recursion_tail_probability st;
               profile = solve_profile (f64_of_int (int target)) (recursion_arity_estimate st) tail
                           (rc_max_depth st)
           in if depth < rp_boundary_depth profile then RECURSION_MAX_BRANCH_PROBABILITY
              else if depth = rp_boundary_depth profile then rp_boundary_probability profile
              else tail)"

definition new_recursion_state ::
  "(f64 \<Rightarrow> f64) \<Rightarrow> 'r sampling \<Rightarrow> nat \<Rightarrow> nat \<Rightarrow> ('r, recursion_state) draw" where
  "new_recursion_state lc S max_depth max_leaves =
     ebind get_state (\<lambda>tc.
     ebind (if max_leaves < 2 then ret 1
            else ebind (spanned LABEL_BOOLEAN (weighted_precise lc S RECURSION_LARGE_TARGET_PROBABILITY None)) (\<lambda>large.
                 if large then spanned LABEL_INTEGER (draw_integer_uniform lc S 2 max_leaves) else ret 1)) (\<lambda>target.
     let st = \<lparr>rc_max_depth = max_depth, rc_max_leaves = max_leaves, rc_attempt = 0, rc_leaves = 0,
               rc_base_span_depth = length (tc_span_stack tc), rc_target = target,
               rc_branch_probability = f64_zero, rc_closed_children = 0, rc_closed_branches = 0,
               rc_open_branches = [], rc_reprices = 0\<rparr>
     in ret (st\<lparr>rc_branch_probability := recursion_priced_probability st\<rparr>)))"

definition recursion_branch ::
  "(f64 \<Rightarrow> f64) \<Rightarrow> 'r sampling \<Rightarrow> nat \<Rightarrow> (recursion_state \<times> 'r test_case, engine_error, bool) effect" where
  "recursion_branch lc S depth =
     ebind (modify (apfst (observe_decision depth))) (\<lambda>_.
     ebind get_state (\<lambda>s.
     let p = (if rc_max_depth (fst s) \<le> depth then f64_zero
              else recursion_decision_probability (fst s) depth) in
     ebind (with_case (spanned LABEL_BOOLEAN (weighted_precise lc S p None))) (\<lambda>branch.
     ebind (modify (apfst (if branch then observe_branch depth else id))) (\<lambda>_.
     ret branch))))"

function close_spans_to :: "nat \<Rightarrow> 'r test_case \<Rightarrow> 'r test_case" where
  "close_spans_to depth tc =
     (if depth < length (tc_span_stack tc) then close_spans_to depth (stop_span True tc) else tc)"
  by auto
termination
  by (relation "measure (\<lambda>(depth, tc). length (tc_span_stack tc))")
     (auto simp: stop_span_def promote_labels_def Let_def split: list.split)

declare close_spans_to.simps [simp del]

definition recursion_retry :: "(recursion_state \<times> 'r test_case, engine_error, unit) effect" where
  "recursion_retry =
     ebind (modify (\<lambda>(st, tc). (st, close_spans_to (rc_base_span_depth st) tc))) (\<lambda>_.
     ebind (modify (apfst (\<lambda>st. (discard_open_branches st)\<lparr>rc_leaves := 0, rc_attempt := rc_attempt st + 1\<rparr>))) (\<lambda>_.
     ebind get_state (\<lambda>s.
     if RECURSION_MAX_ATTEMPTS \<le> rc_attempt (fst s)
     then ebind (modify (apsnd (conclude Invalid None))) (\<lambda>_. throw InvalidTestCase)
     else modify (apfst (\<lambda>st. st\<lparr>rc_branch_probability := recursion_priced_probability st\<rparr>)))))"

definition recursion_mispriced :: "recursion_state \<Rightarrow> bool" where
  "recursion_mispriced st =
     (let target = recursion_effective_target st in
      if target = 1
      then f64_lt RECURSION_REPRICE_THRESHOLD
             (f64_sub (recursion_priced_probability st) (rc_branch_probability st))
      else let reachable = rp_expected_leaves (solve_profile (f64_of_int (int target))
                             (recursion_arity_estimate st) f64_zero (rc_max_depth st))
           in min (rc_leaves st * 2) (2 ^ 64 - 1) < target
              \<and> f64_le (f64_of_int (int target)) (f64_mul 0x4000000000000000 reachable))"

definition recursion_finish :: "(recursion_state \<times> 'r test_case, engine_error, bool) effect" where
  "recursion_finish =
     ebind (modify (apfst close_remaining_branches)) (\<lambda>_.
     ebind get_state (\<lambda>s.
     if RECURSION_MAX_REPRICES \<le> rc_reprices (fst s) \<or> \<not> recursion_mispriced (fst s) then ret True
     else ebind (modify (\<lambda>(st, tc). (st, close_spans_to (rc_base_span_depth st) tc))) (\<lambda>_.
          ebind (modify (apfst (\<lambda>st. let st = st\<lparr>rc_leaves := 0, rc_reprices := rc_reprices st + 1\<rparr>
                   in st\<lparr>rc_branch_probability := recursion_priced_probability st\<rparr>))) (\<lambda>_.
          ret False))))"

end
