(* ===== verification/StateMachine.thy ===== *)
theory StateMachine
  imports Draws
begin

text \<open>
  \<open>hegel-c/src/native/core/state_machine.rs\<close>: the driver of a stateful test. Rules belong to
  concurrency groups; \<open>next_group\<close> starts a round for one grp, and every worker then pulls
  rules of that grp with \<open>next_rule\<close>. Each worker has swarm flags, which disable a random set of
  rules for the whole test case but never all rules of a grp. An operation acts on the machine
  and on the test case of the calling stream; an index out of range is a panic.
\<close>

section \<open>Draws of the machine\<close>

definition P_CONTINUE :: f64 where "P_CONTINUE = 0x3FEFFFFFFFE00000"
definition ATTEMPT_MULTIPLIER :: int where "ATTEMPT_MULTIPLIER = 10"
definition MIN_ATTEMPTS_WITHOUT_SUCCESS :: int where "MIN_ATTEMPTS_WITHOUT_SUCCESS = 1000"
definition MAX_ROUND_RULES :: int where "MAX_ROUND_RULES = 5"
definition P_MAX_CONCURRENCY :: f64 where "P_MAX_CONCURRENCY = 0x3FE8000000000000"

text \<open>\<open>to_i128().unwrap()\<close>, and the casts to \<open>i64\<close> and \<open>usize\<close>, which wrap.\<close>

definition unwrap_i128 :: "int \<Rightarrow> ('s, engine_error, int) effect" where
  "unwrap_i128 v = lift_result EngineInternal (unwrap_or_panic (to_i128 v) ''called unwrap on None'')"

definition as_i64 :: "int \<Rightarrow> int" where
  "as_i64 v = sint (word_of_int v :: 64 word)"

definition as_usize :: "int \<Rightarrow> nat" where
  "as_usize v = nat (v mod 2 ^ 64)"

definition i64_saturating_mul :: "int \<Rightarrow> int \<Rightarrow> int" where
  "i64_saturating_mul a b = max (- (2 ^ 63)) (min (2 ^ 63 - 1) (a * b))"

definition draw_concurrency ::
  "(f64 \<Rightarrow> f64) \<Rightarrow> 'r sampling \<Rightarrow> int \<Rightarrow> int \<Rightarrow> ('r, int) draw" where
  "draw_concurrency lc S min_value max_value =
     (if min_value = max_value then ret max_value
      else spanned LABEL_CONCURRENCY
        (ebind (weighted lc S P_MAX_CONCURRENCY None) (\<lambda>outright.
         if outright then ret max_value
         else ebind (draw_integer lc S (\<lambda>_. True) min_value max_value) (\<lambda>v.
              ebind (unwrap_i128 v) (\<lambda>v. ret (as_i64 v))))))"

definition draw_index :: "(f64 \<Rightarrow> f64) \<Rightarrow> 'r sampling \<Rightarrow> nat \<Rightarrow> ('r, nat) draw" where
  "draw_index lc S n =
     ebind (draw_integer lc S (\<lambda>_. True) 0 (int n - 1)) (\<lambda>i.
     ebind (unwrap_i128 i) (\<lambda>i. ret (as_usize i)))"

section \<open>Feature flags\<close>

record feature_flags =
  ff_p_disabled :: f64
  ff_is_disabled :: "bool option list"
  ff_at_least_one_of :: "nat set list"

definition flags_new ::
  "(f64 \<Rightarrow> f64) \<Rightarrow> 'r sampling \<Rightarrow> nat list list \<Rightarrow> nat \<Rightarrow> ('r, feature_flags) draw" where
  "flags_new lc S groups num_rules =
     ebind (draw_integer lc S (\<lambda>_. True) 0 254) (\<lambda>raw.
     ebind (unwrap_i128 raw) (\<lambda>raw.
     ret \<lparr>ff_p_disabled = f64_div (f64_of_int raw) 0x406FE00000000000,
          ff_is_disabled = replicate num_rules None, ff_at_least_one_of = map set groups\<rparr>))"

definition decide_flag :: "nat \<Rightarrow> nat \<Rightarrow> bool \<Rightarrow> feature_flags \<Rightarrow> feature_flags" where
  "decide_flag grp i is_disabled flags =
     (let candidates = (if is_disabled then ff_at_least_one_of flags ! grp else {})
      in flags\<lparr>ff_is_disabled := (ff_is_disabled flags)[i := Some is_disabled],
               ff_at_least_one_of := (ff_at_least_one_of flags)[grp := candidates - {i}]\<rparr>)"

definition is_enabled ::
  "(f64 \<Rightarrow> f64) \<Rightarrow> 'r sampling \<Rightarrow> nat \<Rightarrow> nat \<Rightarrow> (feature_flags \<times> 'r test_case, engine_error, bool) effect" where
  "is_enabled lc S grp i =
     ebind (modify (apsnd (\<lambda>tc. snd (start_span LABEL_FEATURE_FLAG tc)))) (\<lambda>_.
     ebind get_state (\<lambda>s. let flags = fst s in
     ebind (index_at (ff_at_least_one_of flags) grp) (\<lambda>candidates.
     ebind (if card candidates = 1 \<and> i \<in> candidates then ret (Some False)
            else index_at (ff_is_disabled flags) i) (\<lambda>forced.
     ebind (with_case (weighted lc S (ff_p_disabled flags) forced)) (\<lambda>is_disabled.
     ebind (index_at (ff_is_disabled flags) i) (\<lambda>_.
     ebind (modify (apfst (decide_flag grp i is_disabled))) (\<lambda>_.
     ebind (modify (apsnd (stop_span False))) (\<lambda>_.
     ret (\<not> is_disabled)))))))))"

section \<open>The machine\<close>

record worker_state =
  ws_flags :: feature_flags
  ws_steps_drawn :: int
  ws_steps_rejected :: int
  ws_rule_outstanding :: bool
  ws_retry_pending :: bool

record state_machine =
  sm_groups :: "nat list list"
  sm_group_ids :: "int list"
  sm_concurrency :: int
  sm_current_group :: nat
  sm_rounds_started :: int
  sm_rounds_rejected :: int
  sm_invariant_always_check :: "bool list"
  sm_workers :: "worker_state list"

type_synonym ('r, 'a) on_machine = "(state_machine \<times> 'r test_case, engine_error, 'a) effect"

fun position :: "'a \<Rightarrow> 'a list \<Rightarrow> nat option" where
  "position x [] = None"
| "position x (y # ys) = (if y = x then Some 0 else map_option Suc (position x ys))"

fun group_rules :: "nat \<Rightarrow> int list \<Rightarrow> int list \<Rightarrow> nat list list \<Rightarrow> int list \<times> nat list list" where
  "group_rules rule [] group_ids groups = (group_ids, groups)"
| "group_rules rule (i # ids) group_ids groups =
     (case position i group_ids of
        Some g \<Rightarrow> group_rules (rule + 1) ids group_ids (groups[g := groups ! g @ [rule]])
      | None \<Rightarrow> group_rules (rule + 1) ids (group_ids @ [i]) (groups @ [[rule]]))"

fun new_workers ::
  "(f64 \<Rightarrow> f64) \<Rightarrow> 'r sampling \<Rightarrow> nat list list \<Rightarrow> nat \<Rightarrow> nat \<Rightarrow> ('r, worker_state list) draw" where
  "new_workers lc S groups num_rules 0 = ret []"
| "new_workers lc S groups num_rules (Suc n) =
     ebind (flags_new lc S groups num_rules) (\<lambda>flags.
     ebind (new_workers lc S groups num_rules n) (\<lambda>workers.
     ret (\<lparr>ws_flags = flags, ws_steps_drawn = 0, ws_steps_rejected = 0,
           ws_rule_outstanding = False, ws_retry_pending = False\<rparr> # workers)))"

definition machine_new ::
  "(f64 \<Rightarrow> f64) \<Rightarrow> 'r sampling \<Rightarrow> int list \<Rightarrow> bool list \<Rightarrow> int \<Rightarrow> int \<Rightarrow> ('r, state_machine) draw" where
  "machine_new lc S rule_groups invariant_always_check min_concurrency max_concurrency =
     ebind (internally (hegel_internal_assert (rule_groups \<noteq> [])
              ''Stateful testing: there must be at least one rule'')) (\<lambda>_.
     ebind (internally (hegel_internal_assert (1 \<le> min_concurrency \<and> min_concurrency \<le> max_concurrency)
              ''Stateful testing: concurrency bounds must satisfy 1 <= min <= max'')) (\<lambda>_.
     case group_rules 0 rule_groups [] [] of (group_ids, groups) \<Rightarrow>
       ebind (draw_concurrency lc S min_concurrency max_concurrency) (\<lambda>concurrency.
       ebind (new_workers lc S groups (length rule_groups) (nat concurrency)) (\<lambda>workers.
       ret \<lparr>sm_groups = groups, sm_group_ids = group_ids, sm_concurrency = concurrency,
            sm_current_group = 0, sm_rounds_started = 0, sm_rounds_rejected = 0,
            sm_invariant_always_check = invariant_always_check, sm_workers = workers\<rparr>))))"

definition join_point :: "worker_state \<Rightarrow> worker_state" where
  "join_point w =
     w\<lparr>ws_steps_drawn := 0, ws_steps_rejected := 0, ws_rule_outstanding := False, ws_retry_pending := False\<rparr>"

definition round_forced :: "int \<Rightarrow> state_machine \<Rightarrow> bool option" where
  "round_forced step_count sm =
     (let counted_rounds = sm_rounds_started sm - sm_rounds_rejected sm;
          cap = i64_saturating_mul step_count ATTEMPT_MULTIPLIER;
          attempt_cap = (if counted_rounds = 0 then max cap MIN_ATTEMPTS_WITHOUT_SUCCESS else cap)
      in if step_count \<le> counted_rounds \<or> attempt_cap \<le> sm_rounds_started sm then Some False
         else if sm_rounds_started sm = 0 then Some True
         else None)"

definition next_group ::
  "(f64 \<Rightarrow> f64) \<Rightarrow> 'r sampling \<Rightarrow> ('r, int option) on_machine" where
  "next_group lc S =
     ebind get_state (\<lambda>s.
     let sm = fst s; step_count = fc_stateful_step_count (tc_family (snd s)) in
     ebind (with_case (weighted_precise lc S P_CONTINUE (round_forced step_count sm))) (\<lambda>continue.
     if \<not> continue then ret None
     else ebind (if length (sm_groups sm) = 1 then ret 0
                 else with_case (draw_index lc S (length (sm_groups sm)))) (\<lambda>grp.
          ebind (modify (apfst (\<lambda>sm. sm\<lparr>sm_workers := map join_point (sm_workers sm),
                   sm_current_group := grp, sm_rounds_started := sm_rounds_started sm + 1\<rparr>))) (\<lambda>_.
          ebind (index_at (sm_group_ids sm) grp) (\<lambda>i. ret (Some i))))))"

definition checked_worker :: "state_machine \<Rightarrow> int \<Rightarrow> engine_error + nat" where
  "checked_worker sm worker_index =
     (if 0 \<le> worker_index \<and> nat worker_index < length (sm_workers sm) then Inr (nat worker_index)
      else Inl (InvalidArgument ''worker_index out of range''))"

definition set_worker :: "nat \<Rightarrow> (worker_state \<Rightarrow> worker_state) \<Rightarrow> state_machine \<Rightarrow> state_machine" where
  "set_worker w f sm = sm\<lparr>sm_workers := (sm_workers sm)[w := f (sm_workers sm ! w)]\<rparr>"

definition on_flags ::
  "nat \<Rightarrow> (feature_flags \<times> 'r test_case, engine_error, 'a) effect \<Rightarrow> ('r, 'a) on_machine" where
  "on_flags w m s =
     (case m (ws_flags (sm_workers (fst s) ! w), snd s) of
        (r, (flags, tc)) \<Rightarrow> (r, (set_worker w (\<lambda>ws. ws\<lparr>ws_flags := flags\<rparr>) (fst s), tc)))"

section \<open>Selecting a rule\<close>

text \<open>A try ends the selection with a rule (\<open>Inl\<close>) or leaves the set of rejected positions.\<close>

fun select_tries ::
  "(f64 \<Rightarrow> f64) \<Rightarrow> 'r sampling \<Rightarrow> nat \<Rightarrow> nat list \<Rightarrow> nat \<Rightarrow> nat set
   \<Rightarrow> (feature_flags \<times> 'r test_case, engine_error, nat + nat set) effect" where
  "select_tries lc S grp ms 0 known_bad = ret (Inr known_bad)"
| "select_tries lc S grp ms (Suc n) known_bad =
     ebind (with_case (draw_index lc S (length ms))) (\<lambda>k.
     if k \<in> known_bad then select_tries lc S grp ms n known_bad
     else ebind (index_at ms k) (\<lambda>rule.
          ebind (is_enabled lc S grp rule) (\<lambda>enabled.
          if enabled then ret (Inl rule)
          else select_tries lc S grp ms n (insert k known_bad))))"

fun select_allowed ::
  "(f64 \<Rightarrow> f64) \<Rightarrow> 'r sampling \<Rightarrow> nat \<Rightarrow> nat \<Rightarrow> nat set \<Rightarrow> nat \<Rightarrow> (nat \<times> nat) list \<Rightarrow> nat list
   \<Rightarrow> (feature_flags \<times> 'r test_case, engine_error, nat + nat list) effect" where
  "select_allowed lc S grp n known_bad speculative [] allowed = ret (Inr allowed)"
| "select_allowed lc S grp n known_bad speculative ((k, rule) # rest) allowed =
     (if k \<in> known_bad then select_allowed lc S grp n known_bad speculative rest allowed
      else ebind (is_enabled lc S grp rule) (\<lambda>enabled.
           if \<not> enabled then select_allowed lc S grp n known_bad speculative rest allowed
           else if speculative < length (allowed @ [k])
           then ebind (with_case (draw_integer_forced 0 (int n - 1) (int k))) (\<lambda>_. ret (Inl rule))
           else select_allowed lc S grp n known_bad speculative rest (allowed @ [k])))"

definition select_fallback ::
  "(f64 \<Rightarrow> f64) \<Rightarrow> 'r sampling \<Rightarrow> nat \<Rightarrow> nat list \<Rightarrow> nat set
   \<Rightarrow> (feature_flags \<times> 'r test_case, engine_error, nat) effect" where
  "select_fallback lc S grp ms known_bad =
     (let n = length ms in
      ebind (with_case (draw_index lc S (n - card known_bad))) (\<lambda>speculative.
      ebind (select_allowed lc S grp n known_bad speculative (enumerate 0 ms) []) (\<lambda>r.
      case r of
        Inl rule \<Rightarrow> ret rule
      | Inr allowed \<Rightarrow>
          ebind (lift_result EngineInternal (hegel_internal_assert (allowed \<noteq> []) ''!allowed.is_empty()'')) (\<lambda>_.
          ebind (with_case (draw_index lc S (length allowed))) (\<lambda>j.
          ebind (index_at allowed j) (\<lambda>k.
          ebind (with_case (draw_integer_forced 0 (int n - 1) (int k))) (\<lambda>_.
          index_at ms k)))))))"

definition select_in_group ::
  "(f64 \<Rightarrow> f64) \<Rightarrow> 'r sampling \<Rightarrow> nat \<Rightarrow> nat list \<Rightarrow> (feature_flags \<times> 'r test_case, engine_error, nat) effect" where
  "select_in_group lc S grp ms =
     ebind (select_tries lc S grp ms 3 {}) (\<lambda>r.
     case r of Inl rule \<Rightarrow> ret rule | Inr known_bad \<Rightarrow> select_fallback lc S grp ms known_bad)"

definition select_rule ::
  "(f64 \<Rightarrow> f64) \<Rightarrow> 'r sampling \<Rightarrow> nat \<Rightarrow> nat \<Rightarrow> ('r, int) on_machine" where
  "select_rule lc S worker_idx grp =
     ebind get_state (\<lambda>s.
     ebind (index_at (sm_groups (fst s)) grp) (\<lambda>ms.
     ebind (on_flags worker_idx (select_in_group lc S grp ms)) (\<lambda>rule.
     ret (int rule))))"

definition p_another_rule :: "worker_state \<Rightarrow> f64" where
  "p_another_rule w =
     (let completed = ws_steps_drawn w - ws_steps_rejected w
      in if i64_saturating_mul MAX_ROUND_RULES ATTEMPT_MULTIPLIER \<le> ws_steps_drawn w
           \<or> MAX_ROUND_RULES \<le> completed then f64_zero
         else if ws_retry_pending w then f64_one
         else f64_div (f64_of_int (MAX_ROUND_RULES - completed)) (f64_of_int (MAX_ROUND_RULES - completed + 1)))"

definition next_rule ::
  "(f64 \<Rightarrow> f64) \<Rightarrow> 'r sampling \<Rightarrow> int \<Rightarrow> ('r, int option) on_machine" where
  "next_rule lc S worker_index =
     ebind get_state (\<lambda>s. let sm = fst s in
     case checked_worker sm worker_index of
       Inl e \<Rightarrow> throw e
     | Inr w \<Rightarrow>
         if sm_rounds_started sm = 0
         then throw (InvalidArgument ''state machine rule requested before the first next_group call'')
         else
           ebind (if sm_concurrency sm = 1 then ret (\<not> 1 \<le> ws_steps_drawn (sm_workers sm ! w))
                  else with_case (weighted lc S (p_another_rule (sm_workers sm ! w)) None)) (\<lambda>continue.
           if \<not> continue then ret None
           else ebind (select_rule lc S w (sm_current_group sm)) (\<lambda>index.
                ebind (modify (apfst (set_worker w (\<lambda>ws. ws\<lparr>ws_steps_drawn := ws_steps_drawn ws + 1,
                         ws_rule_outstanding := True, ws_retry_pending := False\<rparr>)))) (\<lambda>_.
                ret (Some index)))))"

definition rule_rejected :: "int \<Rightarrow> (state_machine, engine_error, unit) effect" where
  "rule_rejected worker_index sm =
     (case checked_worker sm worker_index of
        Inl e \<Rightarrow> (Inl e, sm)
      | Inr w \<Rightarrow>
          if \<not> ws_rule_outstanding (sm_workers sm ! w)
          then (Inl (InvalidArgument ''rule_rejected called with no outstanding rule''), sm)
          else let sm = set_worker w (\<lambda>ws. ws\<lparr>ws_rule_outstanding := False,
                          ws_steps_rejected := ws_steps_rejected ws + 1, ws_retry_pending := True\<rparr>) sm
               in (Inr (), if sm_concurrency sm = 1
                           then sm\<lparr>sm_rounds_rejected := sm_rounds_rejected sm + 1\<rparr> else sm))"

definition should_check_invariant ::
  "(f64 \<Rightarrow> f64) \<Rightarrow> 'r sampling \<Rightarrow> int \<Rightarrow> ('r, bool) on_machine" where
  "should_check_invariant lc S invariant_index =
     ebind get_state (\<lambda>s.
     let always = sm_invariant_always_check (fst s) in
     if \<not> (0 \<le> invariant_index \<and> nat invariant_index < length always)
     then throw (InvalidArgument ''invariant_index out of range'')
     else if always ! nat invariant_index then ret True
     else with_case (weighted_precise lc S
            (f64_div f64_one (f64_of_int (fc_stateful_step_count (tc_family (snd s))))) None))"

end
