(* ===== verification/DrawFacts.thy ===== *)
theory DrawFacts
  imports Draws StreamFacts
begin

text \<open>
  Draws that cannot fail internally: on a stream that has somewhere to take its values from, a
  draw ends with a value of its constraint, or with the error of an overrun or a verdict.
\<close>

section \<open>Sources\<close>

definition sourced :: "(f64 \<Rightarrow> f64) \<Rightarrow> 'r test_case \<Rightarrow> bool" where
  "sourced lc tc \<longleftrightarrow>
     (tc_rng tc \<noteq> None \<or> tc_template tc \<noteq> None \<or> tc_max_size tc \<le> length (tc_prefix tc))
   \<and> (\<forall>pn n. tc_prefix_nodes tc = Some pn \<longrightarrow> n \<in> set pn \<longrightarrow> (\<exists>v. data_simplest_value lc (node_data n) = Inr v))"

definition integers_total :: "'r sampling \<Rightarrow> bool" where
  "integers_total S \<longleftrightarrow>
     (\<forall>k p rng. integer_wf k \<longrightarrow> (\<exists>v rng'. biased_integer_sample S k p rng = (Inr v, rng')))"

definition ends_draw :: "engine_error \<Rightarrow> bool" where
  "ends_draw e \<longleftrightarrow> e = Overrun \<or> e = InvalidTestCase"

definition good_draw :: "(f64 \<Rightarrow> f64) \<Rightarrow> ('r, 'a) draw \<Rightarrow> ('a \<Rightarrow> bool) \<Rightarrow> bool" where
  "good_draw lc m Q \<longleftrightarrow>
     (\<forall>tc r t. sourced lc tc \<longrightarrow> m tc = (r, t) \<longrightarrow>
        sourced lc t \<and> (case r of Inr x \<Rightarrow> Q x | Inl e \<Rightarrow> ends_draw e))"

lemma good_drawI:
  "(\<And>tc r t. sourced lc tc \<Longrightarrow> m tc = (r, t) \<Longrightarrow>
      sourced lc t \<and> (case r of Inr x \<Rightarrow> Q x | Inl e \<Rightarrow> ends_draw e)) \<Longrightarrow> good_draw lc m Q"
  by (simp add: good_draw_def)

lemma good_drawE:
  assumes "good_draw lc m Q" "sourced lc tc" "m tc = (r, t)"
  obtains (failed) e where "r = Inl e" "ends_draw e" "sourced lc t"
  | (got) x where "r = Inr x" "Q x" "sourced lc t"
proof -
  have "sourced lc t \<and> (case r of Inr x \<Rightarrow> Q x | Inl e \<Rightarrow> ends_draw e)"
    using assms unfolding good_draw_def by blast
  then show ?thesis using failed got by (cases r) auto
qed

lemma good_weaken: "good_draw lc m Q \<Longrightarrow> (\<And>x. Q x \<Longrightarrow> R x) \<Longrightarrow> good_draw lc m R"
  by (rule good_drawI, erule (2) good_drawE) auto

named_theorems good_intros \<open>rules of draws that do not fail internally\<close>

lemma good_ret [good_intros]: "Q x \<Longrightarrow> good_draw lc (ret x) Q"
  by (simp add: good_draw_def)

lemma good_ebind:
  assumes "good_draw lc m P" "\<And>x. P x \<Longrightarrow> good_draw lc (f x) Q"
  shows "good_draw lc (ebind m f) Q"
proof (rule good_drawI)
  fix tc r t
  assume tc: "sourced lc tc" and m: "ebind m f tc = (r, t)"
  obtain r1 t1 where m1: "m tc = (r1, t1)" by fastforce
  from assms(1) tc m1 show "sourced lc t \<and> (case r of Inr x \<Rightarrow> Q x | Inl e \<Rightarrow> ends_draw e)"
  proof (cases rule: good_drawE)
    case (failed e)
    then show ?thesis using m m1 by (auto simp: ebind_def)
  next
    case (got x)
    have "f x t1 = (r, t)" using m m1 got(1) by (simp add: ebind_def)
    with assms(2) [OF got(2)] got(3) show ?thesis unfolding good_draw_def by blast
  qed
qed

lemma good_state: "(\<And>tc. good_draw lc (f tc) Q) \<Longrightarrow> good_draw lc (ebind get_state f) Q"
  by (simp add: good_draw_def ebind_def)

lemma good_internally: "good_draw lc (internally (Inr x)) (\<lambda>y. y = x)"
  by (simp add: good_draw_def)

lemma good_assert: "b \<Longrightarrow> good_draw lc m Q \<Longrightarrow> good_draw lc (ebind (internally (hegel_internal_assert b msg)) (\<lambda>_. m)) Q"
  by (simp add: good_draw_def ebind_def hegel_internal_assert_def)

lemma sourced_frame [simp]:
  "sourced lc (tc\<lparr>tc_family := fam\<rparr>) = sourced lc tc"
  "sourced lc (tc\<lparr>tc_nodes := ns\<rparr>) = sourced lc tc"
  "sourced lc (tc\<lparr>tc_observer := ob\<rparr>) = sourced lc tc"
  by (simp_all add: sourced_def)

lemma sourced_conclude [simp]: "sourced lc (conclude s og tc) = sourced lc tc"
  by (simp add: conclude_def)

lemma sourced_notify [simp]: "sourced lc (notify ob tc) = sourced lc tc"
  by (simp add: notify_def)

lemma sourced_push [simp]: "sourced lc (push_node n tc) = sourced lc tc"
  by (simp add: push_node_def)

lemma sourced_freeze [simp]: "sourced lc (freeze tc) = sourced lc tc"
proof -
  have "sourced lc (tc\<lparr>tc_frozen := True, tc_spans := sp, tc_span_stack := []\<rparr>) = sourced lc tc" for sp
    by (simp add: sourced_def)
  then show ?thesis by (simp add: freeze_def Let_def split: option.split)
qed

lemma sourced_start_span [simp]: "sourced lc (snd (start_span label tc)) = sourced lc tc"
proof -
  have "sourced lc (tc\<lparr>tc_spans := sp, tc_span_stack := st, tc_labels := l\<rparr>) = sourced lc tc" for sp st l
    by (simp add: sourced_def)
  then show ?thesis by (simp add: start_span_def Let_def)
qed

lemma sourced_stop_span [simp]: "sourced lc (stop_span d tc) = sourced lc tc"
proof -
  have "tc_rng (stop_span d tc) = tc_rng tc" "tc_template (stop_span d tc) = tc_template tc"
    "tc_max_size (stop_span d tc) = tc_max_size tc" "tc_prefix (stop_span d tc) = tc_prefix tc"
    "tc_prefix_nodes (stop_span d tc) = tc_prefix_nodes tc"
    by (simp_all add: stop_span_def promote_labels_def Let_def split: list.split)
  then show ?thesis by (simp add: sourced_def)
qed

section \<open>Resolution\<close>

lemma good_pre_choice: "good_draw lc pre_choice (\<lambda>_. True)"
proof (rule good_drawI)
  fix tc r t
  assume "sourced lc tc" "pre_choice tc = (r, t)"
  then show "sourced lc t \<and> (case r of Inr x \<Rightarrow> True | Inl e \<Rightarrow> ends_draw e)"
    by (auto simp: pre_choice_def try_take_draw_def Let_def ends_draw_def verdict_error_def
        split: option.splits if_splits status.splits)
qed

lemma pre_choice_room:
  assumes "pre_choice tc = (Inr (), t)"
  shows "length (tc_nodes t) < tc_max_size t" "\<exists>fam. t = tc\<lparr>tc_family := fam\<rparr>"
  using assms
  by (auto simp: pre_choice_def try_take_draw_def Let_def split: option.splits if_splits)

lemma good_resolve:
  assumes total: "\<And>rng. \<exists>v rng'. random rng = (Inr v, rng')"
  shows "good_draw lc (resolve_choice lc (Inr s) (Inr u) from_prefix random)
     (\<lambda>r. snd r = False \<and> resolves_to (Inr s) (Inr u) from_prefix random (fst r))"
proof (rule good_drawI)
  fix tc r t
  assume src: "sourced lc tc" and m: "resolve_choice lc (Inr s) (Inr u) from_prefix random tc = (r, t)"
  obtain r1 t1 where pre: "pre_choice tc = (r1, t1)" by fastforce
  show "sourced lc t \<and> (case r of Inr x \<Rightarrow> snd x = False \<and> resolves_to (Inr s) (Inr u) from_prefix random (fst x)
      | Inl e \<Rightarrow> ends_draw e)"
  proof (cases r1)
    case (Inl e)
    then have "r = Inl e" "t = t1" using m pre by (simp_all add: resolve_choice_def)
    then show ?thesis using good_pre_choice [of lc] src pre Inl unfolding good_draw_def by fastforce
  next
    case (Inr x)
    have s1: "sourced lc t1" using good_pre_choice [of lc] src pre unfolding good_draw_def by blast
    note room = pre_choice_room [OF pre [unfolded Inr [simplified]]]
    have go: "resolve_choice lc (Inr s) (Inr u) from_prefix random tc =
      (let idx = length (tc_nodes t1)
       in if idx < length (tc_prefix t1)
        then case from_prefix (tc_prefix t1 ! idx) of
               Some v \<Rightarrow> ret (v, False)
             | None \<Rightarrow> ebind (internally (punned lc (Inr s) (Inr u) (tc_prefix t1 ! idx)
                                      (prefix_node_at t1 idx))) (\<lambda>v. ret (v, False))
        else case tc_template t1 of
               Some template \<Rightarrow> ebind (from_template template (Inr s)) (\<lambda>v. ret (v, False))
             | None \<Rightarrow> ebind (from_rng random) (\<lambda>v. ret (v, False))) t1"
      using pre Inr by (simp add: resolve_choice_def ebind_def)
    show ?thesis
    proof (cases "length (tc_nodes t1) < length (tc_prefix t1)")
      case True
      show ?thesis
      proof (cases "from_prefix (tc_prefix t1 ! length (tc_nodes t1))")
        case (Some v)
        then show ?thesis using m go True s1 by (auto simp: resolves_to_def)
      next
        case None
        have "\<exists>b. punned lc (Inr s) (Inr u) (tc_prefix t1 ! length (tc_nodes t1))
            (prefix_node_at t1 (length (tc_nodes t1))) = (if b then Inr s else Inr u)"
        proof (cases "prefix_node_at t1 (length (tc_nodes t1))")
          case None
          then show ?thesis by (auto simp: punned_def)
        next
          case (Some n)
          then obtain pn where "tc_prefix_nodes t1 = Some pn" "n \<in> set pn"
            by (auto simp: prefix_node_at_def split: option.splits if_splits)
          then obtain v where "data_simplest_value lc (node_data n) = Inr v"
            using s1 by (auto simp: sourced_def)
          then show ?thesis using Some by (auto simp: punned_def)
        qed
        then obtain b where b: "punned lc (Inr s) (Inr u) (tc_prefix t1 ! length (tc_nodes t1))
            (prefix_node_at t1 (length (tc_nodes t1))) = (if b then Inr s else Inr u)" ..
        then have "r = Inr (if b then s else u, False)" "t = t1"
          using m go True None by (auto simp: ebind_def split: if_splits)
        then show ?thesis using s1 by (simp add: resolves_to_def)
      qed
    next
      case past: False
      show ?thesis
      proof (cases "tc_template t1")
        case (Some template)
        have "sourced lc (t1\<lparr>tc_template := Some tpl\<rparr>)" for tpl using s1 by (simp add: sourced_def)
        then show ?thesis using m go past Some s1
          by (cases "ct_count template = Some 0")
             (auto simp: ebind_def from_template_def resolves_to_def ends_draw_def split: choice_template_kind.splits)
      next
        case None
        have "tc_rng t1 \<noteq> None" using s1 None room past by (auto simp: sourced_def)
        then obtain rng where rng: "tc_rng t1 = Some rng" by blast
        obtain v rng' where v: "random rng = (Inr v, rng')" using total by blast
        then have "r = Inr (v, False)" "t = t1\<lparr>tc_rng := Some rng'\<rparr>"
          using m go past None rng by (simp_all add: ebind_def from_rng_def)
        then show ?thesis using s1 v by (auto simp: sourced_def resolves_to_def)
      qed
    qed
  qed
qed

lemma good_record: "good_draw lc (record_choice n ob) (\<lambda>_. True)"
  by (simp add: good_draw_def record_choice_def)

section \<open>Draws\<close>

lemma good_draw_integer:
  assumes S: "sampling_sound S" "integers_total S" and le: "lo \<le> hi"
  shows "good_draw lc (draw_integer lc S (\<lambda>_. True) lo hi) (\<lambda>v. lo \<le> v \<and> v \<le> hi)"
proof -
  let ?k = "integer_in lo hi"
  have wf: "integer_wf ?k" using le by (rule integer_in_wf)
  have resolve: "good_draw lc (resolve_choice lc (Inr (integer_simplest ?k)) (Inr (integer_unit ?k))
        (integer_from_prefix (integer_validate ?k)) (biased_integer_sample S ?k p)) (\<lambda>r. lo \<le> fst r \<and> fst r \<le> hi)" for p
  proof (rule good_weaken [OF good_resolve])
    show "\<exists>v rng'. biased_integer_sample S ?k p rng = (Inr v, rng')" for rng
      using S(2) wf by (auto simp: integers_total_def)
    fix r
    assume "snd r = False \<and> resolves_to (Inr (integer_simplest ?k)) (Inr (integer_unit ?k))
        (integer_from_prefix (integer_validate ?k)) (biased_integer_sample S ?k p) (fst r)"
    then have "integer_validate ?k (fst r)"
      using integer_simplest_valid [OF wf] integer_unit_valid [OF wf] sampling_soundD(1) [OF S(1) wf]
      by (auto simp: resolves_to_def dest: integer_from_prefix_Some)
    then show "lo \<le> fst r \<and> fst r \<le> hi" by (simp add: integer_validate_def)
  qed
  have drawn: "good_draw lc (draw_integer_from lc ?k (biased_integer_sample S ?k p)) (\<lambda>v. lo \<le> v \<and> v \<le> hi)" for p
    unfolding draw_integer_from_def
    by (rule good_ebind [OF resolve], rule good_ebind [OF good_record]) (auto intro: good_ret)
  show ?thesis unfolding draw_integer_def
    by (rule good_assert [OF le], rule good_state, rule good_ebind [OF drawn])
       (use good_internally in \<open>auto intro: good_weaken [OF good_internally]\<close>)
qed

lemma good_forced: "lo \<le> v \<Longrightarrow> v \<le> hi \<Longrightarrow> good_draw lc (draw_integer_forced lo hi v) (\<lambda>_. True)"
  unfolding draw_integer_forced_def
  by (intro good_assert good_ebind [OF good_pre_choice] good_record) simp

lemma good_weighted_with:
  "good_draw lc (weighted_with lc p forced sample)
     (\<lambda>b. (\<forall>v. forced = Some v \<longrightarrow> b = v) \<and> (forced = None \<longrightarrow> f64_le p f64_zero \<longrightarrow> \<not> b))"
proof -
  define fv where "fv = (case forced of Some b \<Rightarrow> Some b
      | None \<Rightarrow> if f64_le p f64_zero then Some False else if f64_le f64_one p then Some True else None)"
  let ?Q = "\<lambda>b. (\<forall>v. forced = Some v \<longrightarrow> b = v) \<and> (forced = None \<longrightarrow> f64_le p f64_zero \<longrightarrow> \<not> b)"
  have rest: "good_draw lc (ebind (record_choice n ob) (\<lambda>_. ret b)) ?Q" if "?Q b" for n ob b
    by (rule good_ebind [OF good_record]) (use that in \<open>auto intro: good_ret\<close>)
  show ?thesis
  proof (cases fv)
    case (Some b)
    have b: "?Q b" using Some by (auto simp: fv_def split: option.splits if_splits)
    have "good_draw lc (ebind pre_choice (\<lambda>_. ret (b, True)) :: ('a, bool \<times> bool) draw) (\<lambda>r. r = (b, True))"
      by (rule good_ebind [OF good_pre_choice]) (auto intro: good_ret)
    then show ?thesis unfolding weighted_with_def Let_def fv_def [symmetric] Some option.case
      by (rule good_ebind) (use b rest in auto)
  next
    case None
    then have "forced = None" "\<not> f64_le p f64_zero" by (auto simp: fv_def split: option.splits if_splits)
    then show ?thesis unfolding weighted_with_def Let_def fv_def [symmetric] None option.case
      by (intro good_ebind [OF good_resolve] rest) (auto split: prod.split)
  qed
qed

lemma good_weighted:
  "good_draw lc (weighted lc S p forced)
     (\<lambda>b. (\<forall>v. forced = Some v \<longrightarrow> b = v) \<and> (forced = None \<longrightarrow> f64_le p f64_zero \<longrightarrow> \<not> b))"
  unfolding weighted_def by (rule good_weighted_with)

lemma good_weighted_precise:
  "good_draw lc (weighted_precise lc S p forced)
     (\<lambda>b. (\<forall>v. forced = Some v \<longrightarrow> b = v) \<and> (forced = None \<longrightarrow> f64_le p f64_zero \<longrightarrow> \<not> b))"
  unfolding weighted_precise_def by (rule good_weighted_with)

lemma good_spanned: "good_draw lc m Q \<Longrightarrow> good_draw lc (spanned label m) Q"
proof (rule good_drawI)
  fix tc r t
  assume m: "good_draw lc m Q" and tc: "sourced lc tc" and run: "spanned label m tc = (r, t)"
  obtain t1 where t1: "m (snd (start_span label tc)) = (r, t1)" "t = stop_span False t1"
    using run by (auto simp: spanned_def split: prod.splits)
  have "sourced lc (snd (start_span label tc))" using tc by simp
  with m t1(1) have "sourced lc t1 \<and> (case r of Inr x \<Rightarrow> Q x | Inl e \<Rightarrow> ends_draw e)"
    unfolding good_draw_def by blast
  then show "sourced lc t \<and> (case r of Inr x \<Rightarrow> Q x | Inl e \<Rightarrow> ends_draw e)" using t1(2) by simp
qed

end
