(* ===== verification/StateMachineFacts.thy ===== *)
theory StateMachineFacts
  imports StateMachine DrawFacts
begin

text \<open>
  The scheduler never disables a whole group, so a worker can always be given a rule: the
  invariant of the flags and of the machine, kept by every operation, and what follows for the
  rules handed out and for the number of rounds.
\<close>

section \<open>Steps beside a test case\<close>

text \<open>
  \<open>good_step\<close>: from a state satisfying \<open>P\<close>, on a sourced stream, the operation ends in a state
  satisfying \<open>Q\<close> with its result, or with the error of an overrun or verdict and \<open>I\<close>.
\<close>

definition good_step ::
  "(f64 \<Rightarrow> f64) \<Rightarrow> ('m \<Rightarrow> bool) \<Rightarrow> ('m \<times> 'r test_case, engine_error, 'a) effect \<Rightarrow> ('a \<Rightarrow> 'm \<Rightarrow> bool)
   \<Rightarrow> ('m \<Rightarrow> bool) \<Rightarrow> bool" where
  "good_step lc P m Q I \<longleftrightarrow>
     triple (\<lambda>s. P (fst s) \<and> sourced lc (snd s)) m (\<lambda>x s. Q x (fst s) \<and> sourced lc (snd s))
       (\<lambda>e s. I (fst s) \<and> sourced lc (snd s) \<and> ends_draw e)"

lemma good_stepD:
  assumes "good_step lc P m Q I" "P f" "sourced lc tc" "m (f, tc) = (r, (f', tc'))"
  shows "case r of Inr x \<Rightarrow> Q x f' | Inl e \<Rightarrow> I f' \<and> ends_draw e" "sourced lc tc'"
proof -
  have P: "P (fst (f, tc)) \<and> sourced lc (snd (f, tc))" using assms(2,3) by simp
  show "case r of Inr x \<Rightarrow> Q x f' | Inl e \<Rightarrow> I f' \<and> ends_draw e" "sourced lc tc'"
    using tripleD [OF assms(1) [unfolded good_step_def] P] tripleD_error [OF assms(1) [unfolded good_step_def] P]
      assms(4) by (cases r; simp)+
qed

lemma step_ret: "(\<And>f. P f \<Longrightarrow> Q x f) \<Longrightarrow> good_step lc P (ret x) Q I"
  by (simp add: good_step_def triple_def)

lemma step_ebind:
  assumes "good_step lc P m R I" "\<And>x. good_step lc (R x) (f x) Q I"
  shows "good_step lc P (ebind m f) Q I"
  using assms unfolding good_step_def by (rule triple_ebind)

lemma step_weaken:
  "good_step lc P m Q I \<Longrightarrow> (\<And>f. P' f \<Longrightarrow> P f) \<Longrightarrow> (\<And>x f. Q x f \<Longrightarrow> Q' x f) \<Longrightarrow> good_step lc P' m Q' I"
  unfolding good_step_def by (erule triple_weaken) auto

lemma step_state:
  assumes "\<And>f tc. P f \<Longrightarrow> good_step lc (\<lambda>f'. f' = f) (g (f, tc)) Q I"
  shows "good_step lc P (ebind get_state g) Q I"
proof -
  have "case g s s of (Inl e, s') \<Rightarrow> I (fst s') \<and> sourced lc (snd s') \<and> ends_draw e
      | (Inr x, s') \<Rightarrow> Q x (fst s') \<and> sourced lc (snd s')"
    if "P (fst s)" "sourced lc (snd s)" for s
  proof -
    have "good_step lc (\<lambda>f'. f' = fst s) (g s) Q I" using assms [of "fst s" "snd s"] that(1) by simp
    from this [unfolded good_step_def triple_def, rule_format, of s] that(2) show ?thesis by simp
  qed
  then show ?thesis by (simp add: good_step_def triple_def ebind_def)
qed

lemma step_case:
  assumes "good_draw lc m D" "\<And>x f. P f \<Longrightarrow> D x \<Longrightarrow> Q x f" "\<And>f. P f \<Longrightarrow> I f"
  shows "good_step lc P (with_case m) Q I"
  unfolding good_step_def
proof (rule tripleI)
  fix s x s'
  assume P: "P (fst s) \<and> sourced lc (snd s)" and run: "with_case m s = (Inr x, s')"
  then have "m (snd s) = (Inr x, snd s')" "fst s' = fst s" by (auto simp: with_case_def split: prod.splits)
  then show "Q x (fst s') \<and> sourced lc (snd s')"
    using assms P unfolding good_draw_def by fastforce
next
  fix s e s'
  assume P: "P (fst s) \<and> sourced lc (snd s)" and run: "with_case m s = (Inl e, s')"
  then have "m (snd s) = (Inl e, snd s')" "fst s' = fst s" by (auto simp: with_case_def split: prod.splits)
  then show "I (fst s') \<and> sourced lc (snd s') \<and> ends_draw e"
    using assms P unfolding good_draw_def by fastforce
qed

lemma step_index:
  "(\<And>f. P f \<Longrightarrow> i < length xs \<and> Q (xs ! i) f) \<Longrightarrow> good_step lc P (index_at xs i) Q I"
  by (auto simp: good_step_def triple_def index_at_def)

lemma step_modify_fst: "(\<And>f. P f \<Longrightarrow> Q () (g f)) \<Longrightarrow> good_step lc P (modify (apfst g)) Q I"
  by (auto simp: good_step_def triple_def)

lemma step_modify_snd:
  "(\<And>f. P f \<Longrightarrow> Q () f) \<Longrightarrow> (\<And>tc. sourced lc (g tc) = sourced lc tc) \<Longrightarrow> good_step lc P (modify (apsnd g)) Q I"
  by (auto simp: good_step_def triple_def)

lemma step_fix:
  fixes m :: "('m \<times> 'r test_case, engine_error, 'a) effect"
  assumes "\<And>f. P f \<Longrightarrow> good_step lc (\<lambda>f'. f' = f) m Q I"
  shows "good_step lc P m Q I"
  unfolding good_step_def triple_def
proof (intro allI impI)
  fix s :: "'m \<times> 'r test_case"
  assume s: "P (fst s) \<and> sourced lc (snd s)"
  then have "good_step lc (\<lambda>f'. f' = fst s) m Q I" using assms by blast
  from this [unfolded good_step_def triple_def, rule_format, of s] s
  show "case m s of (Inl e, s') \<Rightarrow> I (fst s') \<and> sourced lc (snd s') \<and> ends_draw e
      | (Inr x, s') \<Rightarrow> Q x (fst s') \<and> sourced lc (snd s')" by simp
qed

text \<open>A step that leaves its state.\<close>

lemma step_then:
  assumes "good_step lc P m (\<lambda>x f. f = f1 \<and> C x) I" "\<And>x. C x \<Longrightarrow> good_step lc (\<lambda>f. f = f1) (k x) Q I"
  shows "good_step lc P (ebind m k) Q I"
proof (rule step_ebind [OF assms(1)])
  show "good_step lc (\<lambda>f. f = f1 \<and> C x) (k x) Q I" for x
    using assms(2) [of x] by (cases "C x") (auto simp: good_step_def triple_def)
qed

lemma step_draw:
  assumes "good_draw lc m D" "\<And>x. D x \<Longrightarrow> good_step lc P (k x) Q I" "\<And>f. P f \<Longrightarrow> I f"
  shows "good_step lc P (ebind (with_case m) k) Q I"
proof (rule step_ebind [OF step_case [OF assms(1), where P = P and Q = "\<lambda>x f. D x \<and> P f"]])
  show "good_step lc (\<lambda>f. D x \<and> P f) (k x) Q I" for x
    using assms(2) [of x] by (cases "D x") (auto simp: good_step_def triple_def)
qed (use assms(3) in simp_all)

lemma step_at:
  assumes "i < length xs" "good_step lc P (k (xs ! i)) Q I"
  shows "good_step lc P (ebind (index_at xs i) k) Q I"
  using assms by (simp add: good_step_def triple_def ebind_def index_at_def)

section \<open>Draws of the machine\<close>

lemma good_unwrap_i128:
  "to_i128 v = Some v \<Longrightarrow> good_draw lc (ebind (unwrap_i128 v) k) Q = good_draw lc (k v) Q"
  by (simp add: good_draw_def unwrap_i128_def ebind_def)

lemma as_i64_small: "- (2 ^ 63) \<le> v \<Longrightarrow> v < 2 ^ 63 \<Longrightarrow> as_i64 v = v"
  by (simp add: as_i64_def signed_of_int signed_take_bit_int_eq_self)

lemma good_index:
  assumes S: "sampling_sound S" "integers_total S" and n: "0 < n" "n < 2 ^ 63"
  shows "good_draw lc (draw_index lc S n) (\<lambda>k. k < n)"
  unfolding draw_index_def
proof (rule good_ebind [OF good_draw_integer [OF S]])
  fix v
  assume v: "0 \<le> v \<and> v \<le> int n - 1"
  have "int n < 2 ^ 63" using n(2) by (metis of_nat_less_iff of_nat_numeral of_nat_power)
  then have "to_i128 v = Some v" "as_usize v = nat v" using v by (simp_all add: to_i128_def as_usize_def)
  then show "good_draw lc (ebind (unwrap_i128 v) (\<lambda>i. ret (as_usize i))) (\<lambda>k. k < n)"
    using v by (auto simp: good_unwrap_i128 intro!: good_ret)
qed (use n in simp)

lemma good_concurrency:
  assumes S: "sampling_sound S" "integers_total S" and b: "1 \<le> lo" "lo \<le> hi" "hi < 2 ^ 63"
  shows "good_draw lc (draw_concurrency lc S lo hi) (\<lambda>c. lo \<le> c \<and> c \<le> hi)"
proof (cases "lo = hi")
  case False
  have rest: "good_draw lc (ebind (draw_integer lc S (\<lambda>_. True) lo hi) (\<lambda>v.
      ebind (unwrap_i128 v) (\<lambda>v. ret (as_i64 v)))) (\<lambda>c. lo \<le> c \<and> c \<le> hi)"
  proof (rule good_ebind [OF good_draw_integer [OF S b(2)]])
    fix v
    assume v: "lo \<le> v \<and> v \<le> hi"
    then have "to_i128 v = Some v" "as_i64 v = v" using b by (auto simp: to_i128_def intro!: as_i64_small)
    then show "good_draw lc (ebind (unwrap_i128 v) (\<lambda>v. ret (as_i64 v))) (\<lambda>c. lo \<le> c \<and> c \<le> hi)"
      using v by (auto simp: good_unwrap_i128 intro!: good_ret)
  qed
  have go: "good_draw lc (if b then ret hi else ebind (draw_integer lc S (\<lambda>_. True) lo hi) (\<lambda>v.
      ebind (unwrap_i128 v) (\<lambda>v. ret (as_i64 v)))) (\<lambda>c. lo \<le> c \<and> c \<le> hi)" for b
    using rest b(2) by (cases b) (auto intro: good_ret)
  then show ?thesis using False unfolding draw_concurrency_def
    by (simp only: if_False) (intro good_spanned good_ebind [OF good_weighted] go)
qed (simp add: draw_concurrency_def good_ret)

section \<open>Flags\<close>

definition groups_ok :: "nat list list \<Rightarrow> nat \<Rightarrow> bool" where
  "groups_ok groups n \<longleftrightarrow>
     (\<forall>g\<in>set groups. g \<noteq> [] \<and> (\<forall>i\<in>set g. i < n)) \<and> distinct (concat groups) \<and> n < 2 ^ 63"

definition group_undecided :: "nat list \<Rightarrow> bool option list \<Rightarrow> nat set \<Rightarrow> bool" where
  "group_undecided ms decided candidates \<longleftrightarrow>
     candidates \<subseteq> set ms \<and> (\<forall>i\<in>candidates. decided ! i = None)
   \<and> (if candidates = {} then \<exists>i\<in>set ms. decided ! i = Some False
      else \<forall>i\<in>set ms - candidates. decided ! i = Some True)"

definition flags_ok :: "nat list list \<Rightarrow> nat \<Rightarrow> feature_flags \<Rightarrow> bool" where
  "flags_ok groups n f \<longleftrightarrow>
     length (ff_is_disabled f) = n \<and> length (ff_at_least_one_of f) = length groups
   \<and> (\<forall>g<length groups. group_undecided (groups ! g) (ff_is_disabled f) (ff_at_least_one_of f ! g))"

definition decided :: "feature_flags \<Rightarrow> nat \<Rightarrow> bool \<Rightarrow> bool" where
  "decided f i b \<longleftrightarrow> i < length (ff_is_disabled f) \<and> ff_is_disabled f ! i = Some b"

definition flags_le :: "feature_flags \<Rightarrow> feature_flags \<Rightarrow> bool" where
  "flags_le f f' \<longleftrightarrow> (\<forall>i b. decided f i b \<longrightarrow> decided f' i b)"

lemma flags_le_refl [simp]: "flags_le f f"
  by (simp add: flags_le_def)

lemma flags_le_trans: "flags_le f g \<Longrightarrow> flags_le g h \<Longrightarrow> flags_le f h"
  by (simp add: flags_le_def)

lemma groups_disjoint:
  assumes "groups_ok groups n" "g < length groups" "h < length groups" "g \<noteq> h" "i \<in> set (groups ! g)"
  shows "i \<notin> set (groups ! h)"
proof
  assume h: "i \<in> set (groups ! h)"
  have d: "distinct (concat groups)" using assms(1) by (simp add: groups_ok_def)
  have "set (groups ! x) \<inter> set (groups ! y) = {}" if "x < y" "y < length groups" for x y
  proof -
    have "groups = take y groups @ groups ! y # drop (Suc y) groups" using that(2) by (rule id_take_nth_drop)
    then have "concat groups = concat (take y groups) @ groups ! y @ concat (drop (Suc y) groups)"
      by (metis concat.simps(2) concat_append)
    then have "set (concat (take y groups)) \<inter> set (groups ! y) = {}" using d by auto
    moreover have "groups ! x \<in> set (take y groups)"
      using that by (metis in_set_conv_nth length_take min_less_iff_conj nth_take order_less_trans)
    ultimately show ?thesis by auto
  qed
  then show False using assms h by (metis IntI empty_iff nat_neq_iff)
qed

text \<open>A group always has a rule that is enabled or undecided.\<close>

lemma group_has_rule:
  assumes "groups_ok groups n" "flags_ok groups n f" "g < length groups"
  shows "\<exists>i\<in>set (groups ! g). \<not> decided f i True"
proof -
  have u: "group_undecided (groups ! g) (ff_is_disabled f) (ff_at_least_one_of f ! g)"
    using assms(2,3) by (simp add: flags_ok_def)
  show ?thesis
  proof (cases "ff_at_least_one_of f ! g = {}")
    case True
    then obtain i where "i \<in> set (groups ! g)" "ff_is_disabled f ! i = Some False"
      using u by (auto simp: group_undecided_def)
    then show ?thesis by (intro bexI [of _ i]) (auto simp: decided_def)
  next
    case False
    then obtain i where "i \<in> ff_at_least_one_of f ! g" by blast
    then show ?thesis using u by (intro bexI [of _ i]) (auto simp: group_undecided_def decided_def)
  qed
qed

lemma flags_new_ok:
  assumes "groups_ok groups n"
  shows "flags_ok groups n \<lparr>ff_p_disabled = p, ff_is_disabled = replicate n None, ff_at_least_one_of = map set groups\<rparr>"
proof -
  have "group_undecided (groups ! g) (replicate n None) (set (groups ! g))" if "g < length groups" for g
  proof -
    have "groups ! g \<noteq> []" "\<And>i. i \<in> set (groups ! g) \<Longrightarrow> i < n"
      using assms nth_mem [OF that] by (auto simp: groups_ok_def)
    then show ?thesis by (simp add: group_undecided_def)
  qed
  then show ?thesis by (simp add: flags_ok_def)
qed

lemma group_undecided_cong:
  assumes "group_undecided ms D A" "\<And>i. i \<in> set ms \<Longrightarrow> D' ! i = D ! i"
  shows "group_undecided ms D' A"
  using assms by (simp add: group_undecided_def subset_iff split: if_splits)

lemma decide_flag_ok:
  assumes G: "groups_ok groups n" and ok: "flags_ok groups n f" and g: "g < length groups" "i \<in> set (groups ! g)"
    and last: "card (ff_at_least_one_of f ! g) = 1 \<Longrightarrow> i \<in> ff_at_least_one_of f ! g \<Longrightarrow> \<not> d"
    and kept: "\<And>b. \<not> (card (ff_at_least_one_of f ! g) = 1 \<and> i \<in> ff_at_least_one_of f ! g)
        \<Longrightarrow> ff_is_disabled f ! i = Some b \<Longrightarrow> d = b"
  shows "flags_ok groups n (decide_flag g i d f)" "flags_le f (decide_flag g i d f)" "decided (decide_flag g i d f) i d"
proof -
  let ?A = "ff_at_least_one_of f ! g" and ?D = "ff_is_disabled f"
  have len: "length ?D = n" "length (ff_at_least_one_of f) = length groups"
    and u: "\<And>h. h < length groups \<Longrightarrow> group_undecided (groups ! h) ?D (ff_at_least_one_of f ! h)"
    using ok by (auto simp: flags_ok_def)
  have i: "i < n" using G g nth_mem [OF g(1)] by (auto simp: groups_ok_def)
  have ug: "?A \<subseteq> set (groups ! g)" "\<And>j. j \<in> ?A \<Longrightarrow> ?D ! j = None"
    using u [OF g(1)] by (auto simp: group_undecided_def)
  have kept': "d = c" if "?D ! i = Some c" for c
  proof -
    have "i \<notin> ?A" using ug(2) that by auto
    then show ?thesis using kept that by blast
  qed
  show "decided (decide_flag g i d f) i d" using i len by (simp add: decided_def decide_flag_def Let_def)
  show "flags_le f (decide_flag g i d f)"
    unfolding flags_le_def
  proof (intro allI impI)
    fix j b
    assume j: "decided f j b"
    show "decided (decide_flag g i d f) j b"
      using j kept' [of b] by (cases "j = i") (auto simp: decided_def decide_flag_def Let_def)
  qed
  have "group_undecided (groups ! h) (?D[i := Some d]) ((ff_at_least_one_of f)[g := (if d then ?A else {}) - {i}] ! h)"
    if h: "h < length groups" for h
  proof (cases "h = g")
    case False
    have "i \<notin> set (groups ! h)" using groups_disjoint [OF G g(1) h _ g(2)] False by auto
    then have "group_undecided (groups ! h) (?D[i := Some d]) (ff_at_least_one_of f ! h)"
      by (intro group_undecided_cong [OF u [OF h]]) (metis nth_list_update_neq)
    then show ?thesis using False h len by (simp add: nth_list_update_neq)
  next
    case True
    show ?thesis
    proof (cases d)
      case False
      then have "\<exists>j\<in>set (groups ! g). ?D[i := Some d] ! j = Some False"
        using g(2) i len by (intro bexI [of _ i]) simp_all
      then show ?thesis using True False g len by (simp add: group_undecided_def)
    next
      case d: True
      show ?thesis
      proof (cases "i \<in> ?A")
        case iA: True
        have "?A - {i} \<noteq> {}"
        proof
          assume "?A - {i} = {}"
          then have "?A = {i}" using iA by auto
          then show False using last d by simp
        qed
        then show ?thesis using True g len i u [OF g(1)] iA d ug
          by (auto simp: group_undecided_def nth_list_update split: if_splits)
      next
        case notA: False
        show ?thesis
        proof (cases "?A = {}")
          case True
          then obtain j where j: "j \<in> set (groups ! g)" "?D ! j = Some False"
            using u [OF g(1)] by (auto simp: group_undecided_def)
          then have "j \<noteq> i" using kept' d by auto
          then have "\<exists>j\<in>set (groups ! g). ?D[i := Some d] ! j = Some False"
            using j by (intro bexI [of _ j]) simp_all
          then show ?thesis using \<open>h = g\<close> True g len d by (simp add: group_undecided_def)
        next
          case False
          then show ?thesis using \<open>h = g\<close> g len notA u [OF g(1)] d i ug
            by (auto simp: group_undecided_def nth_list_update split: if_splits)
        qed
      qed
    qed
  qed
  then show "flags_ok groups n (decide_flag g i d f)"
    using len by (simp add: flags_ok_def decide_flag_def Let_def)
qed


section \<open>Selection\<close>

text \<open>\<open>from_flags f0\<close>: the flags reached from \<open>f0\<close>, with all its decisions.\<close>

definition from_flags :: "nat list list \<Rightarrow> nat \<Rightarrow> feature_flags \<Rightarrow> feature_flags \<Rightarrow> bool" where
  "from_flags groups n f0 f \<longleftrightarrow> flags_ok groups n f \<and> flags_le f0 f"

lemma from_flagsD: "from_flags groups n f0 f \<Longrightarrow> decided f0 i b \<Longrightarrow> decided f i b"
  by (auto simp: from_flags_def flags_le_def)

lemma step_is_enabled:
  assumes G: "groups_ok groups n" and g: "g < length groups" "i \<in> set (groups ! g)"
  shows "good_step lc (\<lambda>f. f = f0 \<and> flags_ok groups n f) (is_enabled lc S g i)
     (\<lambda>enabled f. from_flags groups n f0 f \<and> decided f i (\<not> enabled)) (from_flags groups n f0)"
proof (rule step_fix)
  fix f
  assume pre: "f = f0 \<and> flags_ok groups n f"
  then have f: "f = f0" by blast
  have ok: "flags_ok groups n f0" using pre by metis
  let ?A = "ff_at_least_one_of f0 ! g" and ?D = "ff_is_disabled f0"
  have lens: "g < length (ff_at_least_one_of f0)" "i < length ?D"
    using G g nth_mem [OF g(1)] ok by (auto simp: flags_ok_def groups_ok_def)
  have I: "from_flags groups n f0 f0" using ok by (simp add: from_flags_def)
  define forced where "forced = (if card ?A = 1 \<and> i \<in> ?A then Some False else ?D ! i)"
  have decide: "from_flags groups n f0 (decide_flag g i d f0) \<and> decided (decide_flag g i d f0) i d"
    if "\<forall>v. forced = Some v \<longrightarrow> d = v" for d
    using decide_flag_ok [OF G ok g, of d] that by (auto simp: forced_def from_flags_def split: if_splits)
  have weigh: "good_step lc (\<lambda>f. f = f0) (with_case (weighted lc S (ff_p_disabled f0) forced))
      (\<lambda>d f. f = f0 \<and> (\<forall>v. forced = Some v \<longrightarrow> d = v)) (from_flags groups n f0)"
    by (rule step_case [OF good_weighted]) (use I in auto)
  have force: "good_step lc (\<lambda>f. f = f0) (if card ?A = 1 \<and> i \<in> ?A then ret (Some False) else index_at ?D i)
      (\<lambda>r f. f = f0 \<and> r = forced) (from_flags groups n f0)"
    using lens by (auto simp: forced_def intro!: step_ret step_index)
  have finish: "good_step lc (\<lambda>f. f = f0) (ebind (modify (apfst (decide_flag g i d))) (\<lambda>_.
      ebind (modify (apsnd (stop_span False))) (\<lambda>_. ret (\<not> d))))
     (\<lambda>enabled f. from_flags groups n f0 f \<and> decided f i (\<not> enabled)) (from_flags groups n f0)"
    if d: "\<forall>v. forced = Some v \<longrightarrow> d = v" for d
    by (rule step_ebind [OF step_modify_fst [where Q = "\<lambda>_ f. from_flags groups n f0 f \<and> decided f i d"]],
        use decide [OF d] in simp,
        rule step_ebind [OF step_modify_snd [where Q = "\<lambda>_ f. from_flags groups n f0 f \<and> decided f i d"]])
       (auto intro: step_ret)
  show "good_step lc (\<lambda>f'. f' = f) (is_enabled lc S g i)
     (\<lambda>enabled f. from_flags groups n f0 f \<and> decided f i (\<not> enabled)) (from_flags groups n f0)"
    unfolding is_enabled_def f Let_def
    apply (rule step_ebind [OF step_modify_snd [where Q = "\<lambda>_ f. f = f0"]], simp, simp)
    apply (rule step_state, simp only: fst_conv)
    apply (rule step_then [OF step_index [where Q = "\<lambda>A f. f = f0 \<and> A = ?A"]], simp add: lens, simp only: fst_conv)
    apply (rule step_then [OF force], simp only:)
    apply (rule step_then [OF weigh])
    apply (rule step_then [OF step_index [where Q = "\<lambda>x f. f = f0 \<and> True"]], simp add: lens)
    apply (rule finish, assumption)
    done
qed


lemma step_enabled_keep:
  assumes G: "groups_ok groups n" and g: "g < length groups" "i \<in> set (groups ! g)"
    and mono: "\<And>f f'. X f \<Longrightarrow> flags_le f f' \<Longrightarrow> X f'"
  shows "good_step lc (\<lambda>f. from_flags groups n f0 f \<and> X f) (is_enabled lc S g i)
     (\<lambda>enabled f. from_flags groups n f0 f \<and> X f \<and> decided f i (\<not> enabled)) (from_flags groups n f0)"
proof (rule step_fix)
  fix f
  assume f: "from_flags groups n f0 f \<and> X f"
  have up: "from_flags groups n f0 f' \<and> X f'" if "from_flags groups n f f'" for f'
    using f that mono flags_le_trans by (auto simp: from_flags_def)
  have "good_step lc (\<lambda>f'. f' = f) (is_enabled lc S g i)
     (\<lambda>enabled f'. from_flags groups n f f' \<and> decided f' i (\<not> enabled)) (from_flags groups n f)"
    by (rule step_weaken [OF step_is_enabled [OF G g, of lc f]]) (use f in \<open>auto simp: from_flags_def\<close>)
  then show "good_step lc (\<lambda>f'. f' = f) (is_enabled lc S g i)
     (\<lambda>enabled f. from_flags groups n f0 f \<and> X f \<and> decided f i (\<not> enabled)) (from_flags groups n f0)"
    unfolding good_step_def by (rule triple_weaken) (use up in auto)
qed

definition rejected :: "nat list \<Rightarrow> nat set \<Rightarrow> feature_flags \<Rightarrow> bool" where
  "rejected ms bad f \<longleftrightarrow> (\<forall>k\<in>bad. k < length ms \<and> decided f (ms ! k) True)"

lemma rejected_mono: "rejected ms bad f \<Longrightarrow> flags_le f f' \<Longrightarrow> rejected ms bad f'"
  by (auto simp: rejected_def flags_le_def)

lemma good_index_list:
  assumes S: "sampling_sound S" "integers_total S" and G: "groups_ok groups n" "g < length groups"
    and k: "0 < k" "k \<le> length (groups ! g)"
  shows "good_draw lc (draw_index lc S k) (\<lambda>j. j < k)"
proof (rule good_index [OF S k(1)])
  have g: "distinct (groups ! g)" "set (groups ! g) \<subseteq> {..<n}"
    using G nth_mem [OF G(2)] by (auto simp: groups_ok_def distinct_concat_iff)
  then have "length (groups ! g) \<le> n" using card_mono [OF _ g(2)] by (simp add: distinct_card)
  then show "k < 2 ^ 63" using G(1) k(2) by (simp add: groups_ok_def)
qed

lemma step_select_tries:
  assumes S: "sampling_sound S" "integers_total S" and G: "groups_ok groups n" "g < length groups"
  shows "good_step lc (\<lambda>f. from_flags groups n f0 f \<and> rejected (groups ! g) bad f)
     (select_tries lc S g (groups ! g) t bad)
     (\<lambda>r f. from_flags groups n f0 f \<and> (case r of Inl rule \<Rightarrow> rule \<in> set (groups ! g) \<and> decided f rule False
        | Inr bad \<Rightarrow> rejected (groups ! g) bad f)) (from_flags groups n f0)"
proof (induction t arbitrary: bad)
  case 0
  show ?case unfolding select_tries.simps by (rule step_ret) simp
next
  case (Suc t)
  let ?ms = "groups ! g"
  let ?P = "\<lambda>f. from_flags groups n f0 f \<and> rejected ?ms bad f"
  let ?Q = "\<lambda>r f. from_flags groups n f0 f \<and> (case r of Inl rule \<Rightarrow> rule \<in> set ?ms \<and> decided f rule False
          | Inr bad \<Rightarrow> rejected ?ms bad f)"
  have ne: "0 < length ?ms" using G nth_mem [OF G(2)] by (auto simp: groups_ok_def)
  have go: "good_step lc ?P
       (if k \<in> bad then select_tries lc S g ?ms t bad
        else ebind (index_at ?ms k) (\<lambda>rule. ebind (is_enabled lc S g rule) (\<lambda>enabled.
          if enabled then ret (Inl rule) else select_tries lc S g ?ms t (insert k bad))))
       ?Q (from_flags groups n f0)" if k: "k < length ?ms" for k
  proof (cases "k \<in> bad")
    case True
    then show ?thesis using Suc.IH by simp
  next
    case False
    have onwards: "good_step lc (\<lambda>f. from_flags groups n f0 f \<and> rejected ?ms bad f \<and> decided f (?ms ! k) (\<not> enabled))
        (if enabled then ret (Inl (?ms ! k)) else select_tries lc S g ?ms t (insert k bad))
        ?Q (from_flags groups n f0)" for enabled
    proof (cases enabled)
      case True
      have "good_step lc (\<lambda>f. from_flags groups n f0 f \<and> rejected ?ms bad f \<and> decided f (?ms ! k) (\<not> enabled))
          (ret (Inl (?ms ! k))) ?Q (from_flags groups n f0)"
        by (rule step_ret) (use True k in simp)
      then show ?thesis using True by simp
    next
      case False
      have "good_step lc (\<lambda>f. from_flags groups n f0 f \<and> rejected ?ms bad f \<and> decided f (?ms ! k) (\<not> enabled))
          (select_tries lc S g ?ms t (insert k bad)) ?Q (from_flags groups n f0)"
        by (rule step_weaken [OF Suc.IH [of "insert k bad"]]) (use False k in \<open>auto simp: rejected_def\<close>)
      then show ?thesis using False by simp
    qed
    have "good_step lc ?P (ebind (index_at ?ms k) (\<lambda>rule. ebind (is_enabled lc S g rule) (\<lambda>enabled.
          if enabled then ret (Inl rule) else select_tries lc S g ?ms t (insert k bad))))
       ?Q (from_flags groups n f0)"
      by (rule step_at [OF k], rule step_ebind [OF step_enabled_keep [OF G nth_mem [OF k]] onwards])
         (rule rejected_mono)
    then show ?thesis using False by simp
  qed
  show ?case unfolding select_tries.simps
    by (rule step_draw [OF good_index_list [OF S G ne order_refl] go]) simp_all
qed


text \<open>The enumeration of the fallback: every position seen is rejected, allowed or disabled.\<close>

definition surveyed :: "nat list \<Rightarrow> nat set \<Rightarrow> nat \<Rightarrow> nat list \<Rightarrow> feature_flags \<Rightarrow> bool" where
  "surveyed ms bad j allowed f \<longleftrightarrow>
     rejected ms bad f \<and> (\<forall>k\<in>set allowed. k < length ms \<and> decided f (ms ! k) False)
   \<and> length allowed \<le> j
   \<and> (\<forall>k<j. k < length ms \<longrightarrow> k \<in> set allowed \<or> decided f (ms ! k) True)"

lemma surveyed_mono: "surveyed ms bad j allowed f \<Longrightarrow> flags_le f f' \<Longrightarrow> surveyed ms bad j allowed f'"
  using rejected_mono [of ms bad f f'] by (auto simp: surveyed_def flags_le_def)

lemma surveyed_Suc:
  "surveyed ms bad j allowed f \<Longrightarrow> j \<in> bad \<or> decided f (ms ! j) True \<Longrightarrow> surveyed ms bad (Suc j) allowed f"
  "surveyed ms bad j allowed f \<Longrightarrow> j < length ms \<Longrightarrow> decided f (ms ! j) False
     \<Longrightarrow> surveyed ms bad (Suc j) (allowed @ [j]) f"
  by (auto simp: surveyed_def rejected_def less_Suc_eq)

lemma step_select_allowed:
  assumes G: "groups_ok groups n" "g < length groups"
    and ms: "ms = groups ! g" and j: "entries = enumerate j (drop j ms)" "j \<le> length ms"
  shows "good_step lc (\<lambda>f. from_flags groups n f0 f \<and> surveyed ms bad j allowed f)
     (select_allowed lc S g (length ms) bad speculative entries allowed)
     (\<lambda>r f. from_flags groups n f0 f \<and> (case r of Inl rule \<Rightarrow> rule \<in> set ms \<and> decided f rule False
        | Inr allowed \<Rightarrow> surveyed ms bad (length ms) allowed f)) (from_flags groups n f0)"
  using j
proof (induction entries arbitrary: j allowed)
  case Nil
  then have "j = length ms" by (metis diff_is_0_eq enumerate_simps(1) le_antisym length_drop length_enumerate list.size(3))
  then show ?case unfolding select_allowed.simps by (intro step_ret) simp
next
  case (Cons e entries)
  have jl: "j < length ms" using Cons.prems by (metis drop_all enumerate_simps(1) leI list.discI)
  have split: "drop j ms = ms ! j # drop (Suc j) ms" using jl by (simp add: Cons_nth_drop_Suc)
  have e: "e = (j, ms ! j)" and entries: "entries = enumerate (Suc j) (drop (Suc j) ms)"
    using Cons.prems(1) by (simp_all add: split)
  let ?Q = "\<lambda>r f. from_flags groups n f0 f \<and> (case r of Inl rule \<Rightarrow> rule \<in> set ms \<and> decided f rule False
        | Inr allowed \<Rightarrow> surveyed ms bad (length ms) allowed f)"
  let ?I = "from_flags groups n f0"
  note IH = Cons.IH [OF entries] 
  show ?case
  proof (cases "j \<in> bad")
    case True
    have "good_step lc (\<lambda>f. ?I f \<and> surveyed ms bad j allowed f)
        (select_allowed lc S g (length ms) bad speculative entries allowed) ?Q ?I"
      by (rule step_weaken [OF IH]) (use jl True in \<open>auto intro: surveyed_Suc\<close>)
    then show ?thesis unfolding e select_allowed.simps using True by simp
  next
    case False
    let ?P = "\<lambda>enabled f. ?I f \<and> surveyed ms bad j allowed f \<and> decided f (ms ! j) (\<not> enabled)"
    have onwards: "good_step lc (?P enabled)
        (if \<not> enabled then select_allowed lc S g (length ms) bad speculative entries allowed
         else if speculative < length (allowed @ [j])
         then ebind (with_case (draw_integer_forced 0 (int (length ms) - 1) (int j))) (\<lambda>_. ret (Inl (ms ! j)))
         else select_allowed lc S g (length ms) bad speculative entries (allowed @ [j])) ?Q ?I" for enabled
    proof (cases enabled)
      case False
      have "good_step lc (?P enabled) (select_allowed lc S g (length ms) bad speculative entries allowed) ?Q ?I"
        by (rule step_weaken [OF IH]) (use jl False in \<open>auto intro: surveyed_Suc\<close>)
      then show ?thesis using False by simp
    next
      case True
      have found: "good_step lc (?P enabled)
          (ebind (with_case (draw_integer_forced 0 (int (length ms) - 1) (int j))) (\<lambda>_. ret (Inl (ms ! j)))) ?Q ?I"
        by (rule step_draw [OF good_forced], simp, use jl in simp, rule step_ret) (use True jl in simp_all)
      have more: "good_step lc (?P enabled)
          (select_allowed lc S g (length ms) bad speculative entries (allowed @ [j])) ?Q ?I"
        by (rule step_weaken [OF IH]) (use jl True in \<open>auto intro: surveyed_Suc\<close>)
      show ?thesis using found more True by (simp only: if_False if_True not_True_eq_False split: if_split) blast
    qed
    have "good_step lc (\<lambda>f. ?I f \<and> surveyed ms bad j allowed f)
        (ebind (is_enabled lc S g (ms ! j)) (\<lambda>enabled.
         if \<not> enabled then select_allowed lc S g (length ms) bad speculative entries allowed
         else if speculative < length (allowed @ [j])
         then ebind (with_case (draw_integer_forced 0 (int (length ms) - 1) (int j))) (\<lambda>_. ret (Inl (ms ! j)))
         else select_allowed lc S g (length ms) bad speculative entries (allowed @ [j]))) ?Q ?I"
      by (rule step_ebind [OF step_enabled_keep [OF G] onwards])
         (use nth_mem [OF jl] in \<open>simp_all add: ms [symmetric] surveyed_mono\<close>)
    then show ?thesis unfolding e select_allowed.simps using False by simp
  qed
qed


text \<open>The fallback always finds a rule: its internal assertion cannot fail.\<close>

lemma step_select_fallback:
  assumes S: "sampling_sound S" "integers_total S" and G: "groups_ok groups n" "g < length groups"
    and ms: "ms = groups ! g"
  shows "good_step lc (\<lambda>f. from_flags groups n f0 f \<and> rejected ms bad f)
     (select_fallback lc S g ms bad)
     (\<lambda>rule f. from_flags groups n f0 f \<and> rule \<in> set ms \<and> decided f rule False) (from_flags groups n f0)"
proof (rule step_fix)
  fix f1
  assume f1: "from_flags groups n f0 f1 \<and> rejected ms bad f1"
  let ?I = "from_flags groups n f0"
  let ?Q = "\<lambda>rule f. ?I f \<and> rule \<in> set ms \<and> decided f rule False"
  have bad: "bad \<subseteq> {..<length ms}" using f1 by (auto simp: rejected_def)
  then have fin: "finite bad" using finite_subset by blast
  obtain k0 where k0: "k0 < length ms" "k0 \<notin> bad"
  proof -
    obtain i where i: "i \<in> set ms" "\<not> decided f1 i True"
      using group_has_rule [OF G(1) _ G(2), of f1] f1 by (auto simp: ms from_flags_def)
    then obtain k where "k < length ms" "ms ! k = i" by (auto simp: in_set_conv_nth)
    then show ?thesis using that f1 i(2) by (auto simp: rejected_def)
  qed
  have card: "0 < length ms - card bad"
  proof -
    have "card bad < card {..<length ms}" using bad k0 by (intro psubset_card_mono) auto
    then show ?thesis by simp
  qed
  have last: "good_step lc (\<lambda>f. ?I f \<and> surveyed ms bad (length ms) allowed f)
      (ebind (lift_result EngineInternal (hegel_internal_assert (allowed \<noteq> []) ''!allowed.is_empty()'')) (\<lambda>_.
       ebind (with_case (draw_index lc S (length allowed))) (\<lambda>j.
       ebind (index_at allowed j) (\<lambda>k.
       ebind (with_case (draw_integer_forced 0 (int (length ms) - 1) (int k))) (\<lambda>_.
       index_at ms k))))) ?Q ?I" for allowed
  proof (rule step_fix)
    fix f
    assume f: "?I f \<and> surveyed ms bad (length ms) allowed f"
    have ne: "allowed \<noteq> []"
    proof
      assume "allowed = []"
      then have all: "k < length ms \<Longrightarrow> decided f (ms ! k) True" for k
        using f by (auto simp: surveyed_def)
      obtain i where i: "i \<in> set ms" "\<not> decided f i True"
        using group_has_rule [OF G(1) _ G(2), of f] f by (auto simp: ms from_flags_def)
      then show False using all by (auto simp: in_set_conv_nth)
    qed
    have size: "0 < length allowed" "length allowed \<le> length (groups ! g)"
      using ne f by (auto simp: surveyed_def ms)
    have kept: "allowed ! j < length ms \<and> decided f (ms ! (allowed ! j)) False" if "j < length allowed" for j
      using f nth_mem [OF that] by (auto simp: surveyed_def)
    have pick: "good_step lc (\<lambda>f'. f' = f) (ebind (index_at allowed j) (\<lambda>k.
       ebind (with_case (draw_integer_forced 0 (int (length ms) - 1) (int k))) (\<lambda>_. index_at ms k))) ?Q ?I"
      if j: "j < length allowed" for j
      by (rule step_at [OF j], rule step_draw [OF good_forced], simp, use kept [OF j] in simp, rule step_index)
         (use kept [OF j] f in auto)
    show "good_step lc (\<lambda>f'. f' = f)
      (ebind (lift_result EngineInternal (hegel_internal_assert (allowed \<noteq> []) ''!allowed.is_empty()'')) (\<lambda>_.
       ebind (with_case (draw_index lc S (length allowed))) (\<lambda>j.
       ebind (index_at allowed j) (\<lambda>k.
       ebind (with_case (draw_integer_forced 0 (int (length ms) - 1) (int k))) (\<lambda>_.
       index_at ms k))))) ?Q ?I"
    proof -
      have "good_step lc (\<lambda>f'. f' = f) (ebind (with_case (draw_index lc S (length allowed))) (\<lambda>j.
       ebind (index_at allowed j) (\<lambda>k.
       ebind (with_case (draw_integer_forced 0 (int (length ms) - 1) (int k))) (\<lambda>_. index_at ms k)))) ?Q ?I"
        by (rule step_draw [OF good_index_list [OF S G size] pick]) (use f in simp_all)
      then show ?thesis using ne by (simp add: good_step_def triple_def ebind_def)
    qed
  qed
  have done': "good_step lc (\<lambda>f. ?I f \<and> (case r of Inl rule \<Rightarrow> rule \<in> set ms \<and> decided f rule False
        | Inr allowed \<Rightarrow> surveyed ms bad (length ms) allowed f))
      (case r of Inl rule \<Rightarrow> ret rule | Inr allowed \<Rightarrow>
          ebind (lift_result EngineInternal (hegel_internal_assert (allowed \<noteq> []) ''!allowed.is_empty()'')) (\<lambda>_.
          ebind (with_case (draw_index lc S (length allowed))) (\<lambda>j.
          ebind (index_at allowed j) (\<lambda>k.
          ebind (with_case (draw_integer_forced 0 (int (length ms) - 1) (int k))) (\<lambda>_.
          index_at ms k))))) ?Q ?I" for r
  proof (cases r)
    case (Inl rule)
    show ?thesis unfolding Inl sum.case by (rule step_ret) simp
  next
    case (Inr allowed)
    show ?thesis unfolding Inr sum.case by (rule last)
  qed
  have survey: "good_step lc (\<lambda>f'. f' = f1) (select_allowed lc S g (length ms) bad speculative (enumerate 0 ms) [])
     (\<lambda>r f. ?I f \<and> (case r of Inl rule \<Rightarrow> rule \<in> set ms \<and> decided f rule False
        | Inr allowed \<Rightarrow> surveyed ms bad (length ms) allowed f)) ?I" for speculative
    by (rule step_weaken [OF step_select_allowed [OF G ms, where j = 0]]) (use f1 in \<open>auto simp: surveyed_def\<close>)
  show "good_step lc (\<lambda>f'. f' = f1) (select_fallback lc S g ms bad) ?Q ?I"
    unfolding select_fallback_def Let_def
    by (rule step_draw [OF good_index_list [OF S G card], OF _ step_ebind [OF survey done']])
       (use f1 in \<open>simp_all add: ms\<close>)
qed

lemma step_select_in_group:
  assumes S: "sampling_sound S" "integers_total S" and G: "groups_ok groups n" "g < length groups"
  shows "good_step lc (\<lambda>f. from_flags groups n f0 f) (select_in_group lc S g (groups ! g))
     (\<lambda>rule f. from_flags groups n f0 f \<and> rule \<in> set (groups ! g) \<and> decided f rule False)
     (from_flags groups n f0)"
proof -
  let ?I = "from_flags groups n f0" and ?ms = "groups ! g"
  let ?Q = "\<lambda>rule f. ?I f \<and> rule \<in> set ?ms \<and> decided f rule False"
  have rest: "good_step lc (\<lambda>f. ?I f \<and> (case r of Inl rule \<Rightarrow> rule \<in> set ?ms \<and> decided f rule False
        | Inr bad \<Rightarrow> rejected ?ms bad f))
      (case r of Inl rule \<Rightarrow> ret rule | Inr bad \<Rightarrow> select_fallback lc S g ?ms bad) ?Q ?I" for r
  proof (cases r)
    case (Inl rule)
    show ?thesis unfolding Inl sum.case by (rule step_ret) simp
  next
    case (Inr bad)
    show ?thesis unfolding Inr sum.case by (rule step_select_fallback [OF S G refl])
  qed
  show ?thesis unfolding select_in_group_def
    by (rule step_ebind [OF step_weaken [OF step_select_tries [OF S G]] rest]) (auto simp: rejected_def)
qed

end
