(* ===== verification/MachineRuns.thy ===== *)
theory MachineRuns
  imports StateMachineFacts Replay
begin

text \<open>
  Runs of a state machine: rounds are started, rules are handed out and rejected, and
  invariants are sampled, in any order and on any streams. What holds of every machine that
  such a run reaches.
\<close>

section \<open>The invariant of a machine\<close>

definition round_bounds :: "int \<Rightarrow> worker_state \<Rightarrow> bool" where
  "round_bounds concurrency w \<longleftrightarrow>
     0 \<le> ws_steps_rejected w \<and> ws_steps_rejected w \<le> ws_steps_drawn w
   \<and> (ws_rule_outstanding w \<longrightarrow> ws_steps_rejected w < ws_steps_drawn w)
   \<and> ws_steps_drawn w \<le> (if concurrency = 1 then 1 else MAX_ROUND_RULES * ATTEMPT_MULTIPLIER)
   \<and> ws_steps_drawn w - ws_steps_rejected w \<le> (if concurrency = 1 then 1 else MAX_ROUND_RULES)"

definition counters_ok :: "int \<Rightarrow> state_machine \<Rightarrow> bool" where
  "counters_ok steps sm \<longleftrightarrow>
     0 \<le> sm_rounds_rejected sm \<and> sm_rounds_rejected sm \<le> sm_rounds_started sm
   \<and> (\<forall>w\<in>set (sm_workers sm). round_bounds (sm_concurrency sm) w)
   \<and> (if sm_concurrency sm = 1
      then \<forall>w\<in>set (sm_workers sm). ws_rule_outstanding w \<or> 0 < sm_rounds_started sm \<and> ws_steps_drawn w = 0
             \<longrightarrow> sm_rounds_rejected sm < sm_rounds_started sm
      else sm_rounds_rejected sm = 0)
   \<and> sm_rounds_started sm - sm_rounds_rejected sm \<le> max 0 steps
   \<and> sm_rounds_started sm \<le> max MIN_ATTEMPTS_WITHOUT_SUCCESS (i64_saturating_mul steps ATTEMPT_MULTIPLIER)"

definition machine_ok :: "nat \<Rightarrow> state_machine \<Rightarrow> bool" where
  "machine_ok n sm \<longleftrightarrow>
     groups_ok (sm_groups sm) n \<and> length (sm_groups sm) < 2 ^ 63
   \<and> length (sm_group_ids sm) = length (sm_groups sm) \<and> sm_current_group sm < length (sm_groups sm)
   \<and> sm_concurrency sm = int (length (sm_workers sm))
   \<and> (\<forall>w\<in>set (sm_workers sm). flags_ok (sm_groups sm) n (ws_flags w))"

text \<open>A machine keeps its rules and its workers, and a decided flag stays decided.\<close>

definition machine_le :: "state_machine \<Rightarrow> state_machine \<Rightarrow> bool" where
  "machine_le sm sm' \<longleftrightarrow>
     sm_groups sm' = sm_groups sm \<and> sm_group_ids sm' = sm_group_ids sm
   \<and> sm_concurrency sm' = sm_concurrency sm
   \<and> length (sm_workers sm') = length (sm_workers sm)
   \<and> (\<forall>w<length (sm_workers sm). flags_le (ws_flags (sm_workers sm ! w)) (ws_flags (sm_workers sm' ! w)))"

lemma machine_le_refl [simp]: "machine_le sm sm"
  by (simp add: machine_le_def)

lemma machine_le_trans: "machine_le a b \<Longrightarrow> machine_le b c \<Longrightarrow> machine_le a c"
  using flags_le_trans by (auto simp: machine_le_def)

section \<open>Creation\<close>

lemma group_position_less: "position x xs = Some g \<Longrightarrow> g < length xs"
  by (induction xs arbitrary: g) (auto split: if_splits)

lemma group_rules_ok:
  assumes "length gids = length groups" "groups_ok groups rule" "rule + length ids < 2 ^ 63"
    "group_rules rule ids gids groups = (gids', groups')"
  shows "length gids' = length groups'" "groups_ok groups' (rule + length ids)" "groups \<noteq> [] \<Longrightarrow> groups' \<noteq> []"
    "ids \<noteq> [] \<Longrightarrow> groups' \<noteq> []" "length groups' \<le> length groups + length ids"
proof -
  have "length gids' = length groups' \<and> groups_ok groups' (rule + length ids)
      \<and> (groups \<noteq> [] \<or> ids \<noteq> [] \<longrightarrow> groups' \<noteq> []) \<and> length groups' \<le> length groups + length ids"
    using assms
  proof (induction ids arbitrary: rule gids groups)
    case (Cons i ids)
    show ?case
    proof (cases "position i gids")
      case None
      have "groups_ok (groups @ [[rule]]) (Suc rule)"
        using Cons.prems(2,3) by (fastforce simp: groups_ok_def)
      then show ?thesis
        using Cons.IH [of "gids @ [i]" "groups @ [[rule]]" "Suc rule"] Cons.prems None by simp
    next
      case (Some g)
      have g: "g < length groups" using group_position_less [OF Some] Cons.prems(1) by simp
      then have "groups \<noteq> []" by auto
      let ?groups = "groups[g := groups ! g @ [rule]]"
      have split: "groups = take g groups @ groups ! g # drop (Suc g) groups" using g by (rule id_take_nth_drop)
      have upd: "?groups = take g groups @ (groups ! g @ [rule]) # drop (Suc g) groups"
        using g by (simp add: upd_conv_take_nth_drop)
      have ok: "\<And>x. x \<in> set groups \<Longrightarrow> x \<noteq> [] \<and> (\<forall>j\<in>set x. j < rule)" "distinct (concat groups)"
        using Cons.prems(2) by (auto simp: groups_ok_def)
      have fresh: "rule \<notin> set (concat groups)" using ok(1) by auto
      have c: "concat groups = concat (take g groups) @ groups ! g @ concat (drop (Suc g) groups)"
        using split by (metis concat.simps(2) concat_append)
      have "concat ?groups = concat (take g groups) @ (groups ! g @ [rule]) @ concat (drop (Suc g) groups)"
        by (simp add: upd)
      then have "distinct (concat ?groups)" using ok(2) fresh unfolding c by auto
      moreover have "x \<noteq> [] \<and> (\<forall>j\<in>set x. j < Suc rule)" if "x \<in> set ?groups" for x
      proof -
        from that have "x \<in> set groups \<or> x = groups ! g @ [rule]"
          using set_update_subset_insert by fastforce
        then show ?thesis using ok(1) nth_mem [OF g] by fastforce
      qed
      ultimately have "groups_ok ?groups (Suc rule)"
        using Cons.prems(3) by (auto simp: groups_ok_def)
      then show ?thesis
        using Cons.IH [of gids ?groups "Suc rule"] Cons.prems Some \<open>groups \<noteq> []\<close> by simp
    qed
  qed simp
  then show "length gids' = length groups'" "groups_ok groups' (rule + length ids)" "groups \<noteq> [] \<Longrightarrow> groups' \<noteq> []"
    "ids \<noteq> [] \<Longrightarrow> groups' \<noteq> []" "length groups' \<le> length groups + length ids" by auto
qed

definition fresh_worker :: "nat list list \<Rightarrow> nat \<Rightarrow> worker_state \<Rightarrow> bool" where
  "fresh_worker groups n w \<longleftrightarrow>
     flags_ok groups n (ws_flags w) \<and> ws_steps_drawn w = 0 \<and> ws_steps_rejected w = 0
   \<and> \<not> ws_rule_outstanding w \<and> \<not> ws_retry_pending w"

lemma good_flags_new:
  assumes S: "sampling_sound S" "integers_total S" and G: "groups_ok groups n"
  shows "good_draw lc (flags_new lc S groups n) (flags_ok groups n)"
  unfolding flags_new_def
proof (rule good_ebind [OF good_draw_integer [OF S]])
  fix raw :: int
  assume "0 \<le> raw \<and> raw \<le> 254"
  then have "to_i128 raw = Some raw" by (simp add: to_i128_def)
  then show "good_draw lc (ebind (unwrap_i128 raw) (\<lambda>raw. ret \<lparr>ff_p_disabled = f64_div (f64_of_int raw) 0x406FE00000000000,
      ff_is_disabled = replicate n None, ff_at_least_one_of = map set groups\<rparr>)) (flags_ok groups n)"
    by (simp only: good_unwrap_i128) (rule good_ret, rule flags_new_ok [OF G])
qed simp

lemma good_new_workers:
  assumes S: "sampling_sound S" "integers_total S" and G: "groups_ok groups n"
  shows "good_draw lc (new_workers lc S groups n k)
     (\<lambda>ws. length ws = k \<and> (\<forall>w\<in>set ws. fresh_worker groups n w))"
proof (induction k)
  case 0
  show ?case unfolding new_workers.simps by (rule good_ret) simp
next
  case (Suc k)
  show ?case unfolding new_workers.simps
    by (rule good_ebind [OF good_flags_new [OF S G]], rule good_ebind [OF Suc.IH], rule good_ret)
       (auto simp: fresh_worker_def)
qed

definition new_machine :: "nat \<Rightarrow> state_machine \<Rightarrow> bool" where
  "new_machine n sm \<longleftrightarrow> machine_ok n sm \<and> sm_workers sm \<noteq> []
     \<and> (\<forall>w\<in>set (sm_workers sm). fresh_worker (sm_groups sm) n w)
     \<and> sm_rounds_started sm = 0 \<and> sm_rounds_rejected sm = 0"

lemma good_machine_new:
  assumes S: "sampling_sound S" "integers_total S" and rules: "rule_groups \<noteq> []" "length rule_groups < 2 ^ 63"
    and bounds: "1 \<le> lo" "lo \<le> hi" "hi < 2 ^ 63"
  shows "good_draw lc (machine_new lc S rule_groups always lo hi) (new_machine (length rule_groups))"
proof -
  obtain gids groups where g: "group_rules 0 rule_groups [] [] = (gids, groups)" by fastforce
  have "groups_ok [] 0" by (simp add: groups_ok_def)
  then have ok: "length gids = length groups" "groups_ok groups (length rule_groups)"
    "rule_groups \<noteq> [] \<Longrightarrow> groups \<noteq> []" "length groups \<le> length rule_groups"
    using group_rules_ok [OF _ _ _ g] rules(2) by simp_all
  have len: "length groups < 2 ^ 63" using ok(4) rules(2) by simp
  show ?thesis unfolding machine_new_def g prod.case
  proof (intro good_assert good_ebind [OF good_concurrency [OF S bounds]]
      good_ebind [OF good_new_workers [OF S ok(2)]] good_ret)
    fix c ws
    assume "lo \<le> c \<and> c \<le> hi" "length ws = nat c \<and> (\<forall>w\<in>set ws. fresh_worker groups (length rule_groups) w)"
    then show "new_machine (length rule_groups) \<lparr>sm_groups = groups, sm_group_ids = gids, sm_concurrency = c,
            sm_current_group = 0, sm_rounds_started = 0, sm_rounds_rejected = 0,
            sm_invariant_always_check = always, sm_workers = ws\<rparr>"
      using ok rules(1) len bounds(1) by (auto simp: new_machine_def machine_ok_def fresh_worker_def)
  qed (use rules(1) bounds in simp_all)
qed

lemma new_machine_counters: "new_machine n sm \<Longrightarrow> counters_ok steps sm"
  by (auto simp: new_machine_def counters_ok_def round_bounds_def fresh_worker_def MAX_ROUND_RULES_def
      ATTEMPT_MULTIPLIER_def MIN_ATTEMPTS_WITHOUT_SUCCESS_def)


section \<open>Operations\<close>

lemma checked_workerE:
  assumes "checked_worker sm i = Inr w"
  shows "w < length (sm_workers sm)" "0 \<le> i" "w = nat i"
  using assms by (auto simp: checked_worker_def split: if_splits)

lemma machine_okD:
  assumes "machine_ok n sm"
  shows "groups_ok (sm_groups sm) n" "length (sm_groups sm) < 2 ^ 63"
    "length (sm_group_ids sm) = length (sm_groups sm)" "sm_current_group sm < length (sm_groups sm)"
    "sm_concurrency sm = int (length (sm_workers sm))"
    "w < length (sm_workers sm) \<Longrightarrow> flags_ok (sm_groups sm) n (ws_flags (sm_workers sm ! w))"
  using assms by (auto simp: machine_ok_def)

lemma set_worker_ok:
  assumes ok: "machine_ok n sm" and w: "w < length (sm_workers sm)"
    and f: "flags_ok (sm_groups sm) n (ws_flags (f (sm_workers sm ! w)))"
      "flags_le (ws_flags (sm_workers sm ! w)) (ws_flags (f (sm_workers sm ! w)))"
  shows "machine_ok n (set_worker w f sm)" "machine_le sm (set_worker w f sm)"
proof -
  have "flags_ok (sm_groups sm) n (ws_flags v)" if "v \<in> set ((sm_workers sm)[w := f (sm_workers sm ! w)])" for v
    using that set_update_subset_insert [of "sm_workers sm" w] ok f(1) by (auto simp: machine_ok_def)
  then show "machine_ok n (set_worker w f sm)" using ok by (simp add: machine_ok_def set_worker_def)
  show "machine_le sm (set_worker w f sm)"
    using f(2) w by (auto simp: machine_le_def set_worker_def nth_list_update)
qed

lemma select_rule_result:
  assumes S: "sampling_sound S" "integers_total S" and ok: "machine_ok n sm"
    and w: "w < length (sm_workers sm)" and g: "g < length (sm_groups sm)"
    and src: "sourced lc tc" and m: "select_rule lc S w g (sm, tc) = (r, (sm', tc'))"
  obtains f where "sm' = set_worker w (\<lambda>ws. ws\<lparr>ws_flags := f\<rparr>) sm" "flags_ok (sm_groups sm) n f"
    "flags_le (ws_flags (sm_workers sm ! w)) f" "sourced lc tc'"
    "case r of Inr i \<Rightarrow> 0 \<le> i \<and> nat i \<in> set (sm_groups sm ! g) \<and> decided f (nat i) False | Inl e \<Rightarrow> ends_draw e"
proof -
  let ?ms = "sm_groups sm ! g" and ?f = "ws_flags (sm_workers sm ! w)"
  note G = machine_okD(1) [OF ok] g
  have step: "good_step lc (\<lambda>f. from_flags (sm_groups sm) n ?f f) (select_in_group lc S g ?ms)
     (\<lambda>rule f. from_flags (sm_groups sm) n ?f f \<and> rule \<in> set ?ms \<and> decided f rule False)
     (from_flags (sm_groups sm) n ?f)" by (rule step_select_in_group [OF S G])
  obtain r1 f tc1 where in_group: "select_in_group lc S g ?ms (?f, tc) = (r1, (f, tc1))" by (metis prod_cases3)
  have "from_flags (sm_groups sm) n ?f ?f" using machine_okD(6) [OF ok w] by (simp add: from_flags_def)
  note D = good_stepD [OF step this src in_group]
  have sm': "sm' = set_worker w (\<lambda>ws. ws\<lparr>ws_flags := f\<rparr>) sm \<and> tc' = tc1 \<and> r = map_sum id int r1"
    using m in_group g by (cases r1) (auto simp: select_rule_def ebind_def index_at_def on_flags_def)
  have f: "from_flags (sm_groups sm) n ?f f" using D(1) by (cases r1) auto
  show ?thesis
    by (rule that [of f]) (use sm' D f in \<open>auto simp: from_flags_def split: sum.splits\<close>)
qed

lemma set_worker_counters:
  assumes ok: "counters_ok steps sm" and w: "w < length (sm_workers sm)"
    and f: "round_bounds (sm_concurrency sm) (f (sm_workers sm ! w))"
      "sm_concurrency sm = 1 \<Longrightarrow> ws_rule_outstanding (f (sm_workers sm ! w))
         \<or> 0 < sm_rounds_started sm \<and> ws_steps_drawn (f (sm_workers sm ! w)) = 0
         \<Longrightarrow> sm_rounds_rejected sm < sm_rounds_started sm"
  shows "counters_ok steps (set_worker w f sm)"
proof -
  have "v = f (sm_workers sm ! w) \<or> v \<in> set (sm_workers sm)"
    if "v \<in> set ((sm_workers sm)[w := f (sm_workers sm ! w)])" for v
    using that set_update_subset_insert [of "sm_workers sm" w "f (sm_workers sm ! w)"] by blast
  then show ?thesis using ok f unfolding counters_ok_def set_worker_def
    by (auto split: if_splits)
qed

lemma counters_worker:
  assumes "counters_ok steps sm" "w < length (sm_workers sm)"
  shows "round_bounds (sm_concurrency sm) (sm_workers sm ! w)"
    "sm_concurrency sm = 1 \<Longrightarrow> ws_rule_outstanding (sm_workers sm ! w)
       \<or> 0 < sm_rounds_started sm \<and> ws_steps_drawn (sm_workers sm ! w) = 0
       \<Longrightarrow> sm_rounds_rejected sm < sm_rounds_started sm"
  using assms nth_mem [OF assms(2)] by (auto simp: counters_ok_def)

lemma set_worker_twice:
  "w < length (sm_workers sm) \<Longrightarrow> set_worker w f (set_worker w g sm) = set_worker w (\<lambda>ws. f (g ws)) sm"
  by (simp add: set_worker_def)

lemma next_rule_ok:
  assumes S: "sampling_sound S" "integers_total S" and ok: "machine_ok n sm" and src: "sourced lc tc"
    and m: "next_rule lc S i (sm, tc) = (r, (sm', tc'))"
  shows "machine_ok n sm' \<and> machine_le sm sm'
    \<and> (case r of
         Inl e \<Rightarrow> ends_draw e \<or> (\<exists>msg. e = InvalidArgument msg)
       | Inr None \<Rightarrow> True
       | Inr (Some rule) \<Rightarrow> 0 \<le> i \<and> nat i < length (sm_workers sm) \<and> 0 \<le> rule
           \<and> nat rule \<in> set (sm_groups sm ! sm_current_group sm)
           \<and> decided (ws_flags (sm_workers sm' ! nat i)) (nat rule) False)
    \<and> (counters_ok steps sm \<longrightarrow> counters_ok steps sm')"
proof (cases "checked_worker sm i")
  case (Inl e)
  then show ?thesis using m ok by (auto simp: next_rule_def ebind_def checked_worker_def split: if_splits)
next
  case (Inr w)
  note w = checked_workerE [OF Inr]
  let ?ws = "sm_workers sm ! w" and ?g = "sm_current_group sm"
  show ?thesis
  proof (cases "sm_rounds_started sm = 0")
    case True
    then show ?thesis using m ok Inr by (auto simp: next_rule_def ebind_def)
  next
    case started: False
    let ?cont = "if sm_concurrency sm = 1 then ret (\<not> 1 \<le> ws_steps_drawn ?ws)
        else with_case (weighted lc S (p_another_rule ?ws) None)"
    have cont: "good_step lc (\<lambda>m. m = sm) ?cont
       (\<lambda>c m. m = sm \<and> (c \<longrightarrow> (if sm_concurrency sm = 1 then ws_steps_drawn ?ws < 1
           else ws_steps_drawn ?ws < MAX_ROUND_RULES * ATTEMPT_MULTIPLIER
             \<and> ws_steps_drawn ?ws - ws_steps_rejected ?ws < MAX_ROUND_RULES))) (\<lambda>m. m = sm)"
    proof (cases "sm_concurrency sm = 1")
      case True
      have "good_step lc (\<lambda>m. m = sm) (ret (\<not> 1 \<le> ws_steps_drawn ?ws))
          (\<lambda>c m. m = sm \<and> (c \<longrightarrow> ws_steps_drawn ?ws < 1)) (\<lambda>m. m = sm)" by (rule step_ret) auto
      then show ?thesis using True by simp
    next
      case False
      have zero: "f64_le f64_zero f64_zero" by code_simp
      have "good_step lc (\<lambda>m. m = sm) (with_case (weighted lc S (p_another_rule ?ws) None))
          (\<lambda>c m. m = sm \<and> (c \<longrightarrow> ws_steps_drawn ?ws < MAX_ROUND_RULES * ATTEMPT_MULTIPLIER
             \<and> ws_steps_drawn ?ws - ws_steps_rejected ?ws < MAX_ROUND_RULES)) (\<lambda>m. m = sm)"
        by (rule step_case [OF good_weighted])
           (use zero in \<open>auto simp: p_another_rule_def Let_def i64_saturating_mul_def MAX_ROUND_RULES_def
              ATTEMPT_MULTIPLIER_def split: if_splits\<close>)
      then show ?thesis using False by simp
    qed
    obtain rc sm1 tc1 where c: "?cont (sm, tc) = (rc, (sm1, tc1))" by (metis prod_cases3)
    note C = good_stepD [OF cont refl src c]
    have sm1: "sm1 = sm" using C(1) by (cases rc) auto
    have rest: "next_rule lc S i (sm, tc) = ebind ?cont (\<lambda>continue.
           if \<not> continue then ret None
           else ebind (select_rule lc S w ?g) (\<lambda>index.
                ebind (modify (apfst (set_worker w (\<lambda>ws. ws\<lparr>ws_steps_drawn := ws_steps_drawn ws + 1,
                         ws_rule_outstanding := True, ws_retry_pending := False\<rparr>)))) (\<lambda>_.
                ret (Some index)))) (sm, tc)"
      using Inr started by (simp add: next_rule_def ebind_def)
    consider (failed) e where "rc = Inl e" | (over) "rc = Inr False" | (go) "rc = Inr True"
      by (cases rc) auto
    then show ?thesis
    proof cases
      case failed
      then have "r = Inl e" "sm' = sm" using m rest c sm1 by (simp_all add: ebind_def)
      then show ?thesis using C(1) failed ok by simp
    next
      case over
      then have "r = Inr None" "sm' = sm" using m rest c sm1 by (simp_all add: ebind_def)
      then show ?thesis using ok by simp
    next
      case go
      obtain r2 sm2 tc2 where sel: "select_rule lc S w ?g (sm, tc1) = (r2, (sm2, tc2))" by (metis prod_cases3)
      show ?thesis
      proof (cases rule: select_rule_result [OF S ok w(1) machine_okD(4) [OF ok] C(2) sel])
        case (1 f)
        show ?thesis
        proof (cases r2)
          case (Inl e)
          have r: "r = Inl e" "sm' = sm2" using m rest c go sel Inl sm1 by (simp_all add: ebind_def)
          have "machine_ok n sm2" "machine_le sm sm2"
            unfolding 1(1) by (rule set_worker_ok [OF ok w(1)]; use 1(2,3) in simp)+
          moreover have "counters_ok steps sm2" if "counters_ok steps sm"
            unfolding 1(1) by (rule set_worker_counters [OF that w(1)])
              (use counters_worker [OF that w(1)] in \<open>auto simp: round_bounds_def\<close>)
          ultimately show ?thesis using r 1(5) Inl by simp
        next
          case (Inr rule)
          let ?h = "\<lambda>ws. ws\<lparr>ws_flags := f, ws_steps_drawn := ws_steps_drawn ws + 1,
              ws_rule_outstanding := True, ws_retry_pending := False\<rparr>"
          have r: "r = Inr (Some rule)" "sm' = set_worker w ?h sm"
            using m rest c go sel Inr sm1 by (simp_all add: ebind_def 1(1) set_worker_twice [OF w(1)])
          have "machine_ok n sm'" "machine_le sm sm'"
            unfolding r by (rule set_worker_ok [OF ok w(1)]; use 1(2,3) in simp)+
          moreover have "ws_flags (sm_workers sm' ! w) = f" unfolding r using w(1) by (simp add: set_worker_def)
          moreover have "counters_ok steps sm'" if k: "counters_ok steps sm"
            unfolding r
          proof (rule set_worker_counters [OF k w(1)])
            have bound: "if sm_concurrency sm = 1 then ws_steps_drawn ?ws < 1
               else ws_steps_drawn ?ws < MAX_ROUND_RULES * ATTEMPT_MULTIPLIER
                 \<and> ws_steps_drawn ?ws - ws_steps_rejected ?ws < MAX_ROUND_RULES"
              using C(1) go by simp
            note W = counters_worker [OF k w(1)]
            show "round_bounds (sm_concurrency sm) (?h ?ws)"
              using W(1) bound by (auto simp: round_bounds_def split: if_splits)
            have "0 < sm_rounds_started sm" using k started by (auto simp: counters_ok_def)
            moreover have "ws_steps_drawn ?ws = 0" if "sm_concurrency sm = 1"
              using W(1) bound that by (auto simp: round_bounds_def)
            ultimately show "sm_concurrency sm = 1 \<Longrightarrow> sm_rounds_rejected sm < sm_rounds_started sm"
              using W(2) by blast
          qed
          ultimately show ?thesis using r(1) 1(5) Inr w by simp
        qed
      qed
    qed
  qed
qed

lemma rule_rejected_ok:
  assumes ok: "machine_ok n sm" and m: "rule_rejected i sm = (r, sm')"
  shows "machine_ok n sm' \<and> machine_le sm sm' \<and> (\<forall>e. r = Inl e \<longrightarrow> (\<exists>msg. e = InvalidArgument msg))
    \<and> (counters_ok steps sm \<longrightarrow> counters_ok steps sm')"
proof (cases "checked_worker sm i")
  case (Inl e)
  then show ?thesis using m ok by (auto simp: rule_rejected_def checked_worker_def split: if_splits)
next
  case (Inr w)
  note w = checked_workerE [OF Inr]
  let ?ws = "sm_workers sm ! w"
  let ?f = "\<lambda>ws. ws\<lparr>ws_rule_outstanding := False, ws_steps_rejected := ws_steps_rejected ws + 1, ws_retry_pending := True\<rparr>"
  show ?thesis
  proof (cases "ws_rule_outstanding ?ws")
    case False
    then show ?thesis using m ok Inr by (auto simp: rule_rejected_def)
  next
    case True
    define u where "u = set_worker w ?f sm"
    have r: "r = Inr ()" "sm' = (if sm_concurrency sm = 1 then u\<lparr>sm_rounds_rejected := sm_rounds_rejected sm + 1\<rparr> else u)"
      using m Inr True by (auto simp: rule_rejected_def Let_def u_def set_worker_def)
    have u: "machine_ok n u" "machine_le sm u"
      unfolding u_def by (rule set_worker_ok [OF ok w(1)]; use machine_okD(6) [OF ok w(1)] in simp)+
    have "counters_ok steps sm'" if k: "counters_ok steps sm"
    proof -
      note W = counters_worker [OF k w(1)]
      have b: "round_bounds (sm_concurrency sm) (?f ?ws)"
        using W(1) True by (auto simp: round_bounds_def)
      have ku: "counters_ok steps u" unfolding u_def
        by (rule set_worker_counters [OF k w(1)]) (use b W(1) True in \<open>auto simp: round_bounds_def\<close>)
      show ?thesis
      proof (cases "sm_concurrency sm = 1")
        case one: True
        then have "length (sm_workers sm) = 1" using machine_okD(5) [OF ok] by simp
        then have workers: "sm_workers sm' = [?f ?ws]"
          using w(1) r one by (cases "sm_workers sm") (auto simp: u_def set_worker_def)
        have "sm_rounds_rejected sm < sm_rounds_started sm" using W(2) one True by blast
        moreover have "ws_steps_drawn ?ws \<noteq> 0" using W(1) True by (auto simp: round_bounds_def)
        ultimately show ?thesis using k b one workers r by (simp add: counters_ok_def u_def set_worker_def)
      qed (use ku r in simp)
    qed
    moreover have "machine_ok n sm'" "machine_le sm sm'" using u r by (auto simp: machine_ok_def machine_le_def)
    ultimately show ?thesis using r(1) by simp
  qed
qed


lemma next_group_ok:
  assumes S: "sampling_sound S" "integers_total S" and ok: "machine_ok n sm" and src: "sourced lc tc"
    and m: "next_group lc S (sm, tc) = (r, (sm', tc'))"
    and steps: "fc_stateful_step_count (tc_family tc) = steps"
  shows "machine_ok n sm' \<and> machine_le sm sm'
    \<and> (case r of
         Inl e \<Rightarrow> ends_draw e
       | Inr None \<Rightarrow> True
       | Inr (Some i) \<Rightarrow> i = sm_group_ids sm ! sm_current_group sm')
    \<and> (counters_ok steps sm \<longrightarrow> counters_ok steps sm')"
proof -
  obtain rc sm1 tc1 where c: "with_case (weighted_precise lc S P_CONTINUE (round_forced steps sm)) (sm, tc) = (rc, (sm1, tc1))"
    by (metis prod_cases3)
  have cont: "good_step lc (\<lambda>m. m = sm) (with_case (weighted_precise lc S P_CONTINUE (round_forced steps sm)))
       (\<lambda>c m. m = sm \<and> (c \<longrightarrow> round_forced steps sm \<noteq> Some False)) (\<lambda>m. m = sm)"
    by (rule step_case [OF good_weighted_precise]) auto
  note C = good_stepD [OF cont refl src c]
  have sm1: "sm1 = sm" using C(1) by (cases rc) auto
  let ?pick = "if length (sm_groups sm) = 1 then ret 0 else with_case (draw_index lc S (length (sm_groups sm)))"
  let ?start = "\<lambda>g sm. sm\<lparr>sm_workers := map join_point (sm_workers sm), sm_current_group := g,
      sm_rounds_started := sm_rounds_started sm + 1\<rparr>"
  have rest: "next_group lc S (sm, tc) = ebind (with_case (weighted_precise lc S P_CONTINUE (round_forced steps sm))) (\<lambda>continue.
     if \<not> continue then ret None
     else ebind ?pick (\<lambda>g. ebind (modify (apfst (?start g))) (\<lambda>_.
          ebind (index_at (sm_group_ids sm) g) (\<lambda>i. ret (Some i))))) (sm, tc)"
    by (simp add: next_group_def ebind_def steps)
  have groups: "0 < length (sm_groups sm)" using machine_okD(4) [OF ok] by auto
  consider (failed) e where "rc = Inl e" | (over) "rc = Inr False" | (go) "rc = Inr True"
    by (cases rc) auto
  then show ?thesis
  proof cases
    case failed
    then have "r = Inl e" "sm' = sm" using m rest c sm1 by (simp_all add: ebind_def)
    then show ?thesis using C(1) failed ok by simp
  next
    case over
    then have "r = Inr None" "sm' = sm" using m rest c sm1 by (simp_all add: ebind_def)
    then show ?thesis using ok by simp
  next
    case go
    obtain rp sm2 tc2 where p: "?pick (sm, tc1) = (rp, (sm2, tc2))" by (metis prod_cases3)
    have pick: "good_step lc (\<lambda>m. m = sm) ?pick (\<lambda>g m. m = sm \<and> g < length (sm_groups sm)) (\<lambda>m. m = sm)"
    proof (cases "length (sm_groups sm) = 1")
      case True
      have "good_step lc (\<lambda>m. m = sm) (ret 0) (\<lambda>g m. m = sm \<and> g < length (sm_groups sm)) (\<lambda>m. m = sm)"
        by (rule step_ret) (use groups in simp)
      then show ?thesis using True by simp
    next
      case False
      have "good_step lc (\<lambda>m. m = sm) (with_case (draw_index lc S (length (sm_groups sm))))
          (\<lambda>g m. m = sm \<and> g < length (sm_groups sm)) (\<lambda>m. m = sm)"
        by (rule step_case [OF good_index [OF S groups machine_okD(2) [OF ok]]]) auto
      then show ?thesis using False by simp
    qed
    note P = good_stepD [OF pick refl C(2) p]
    have sm2: "sm2 = sm" using P(1) by (cases rp) auto
    show ?thesis
    proof (cases rp)
      case (Inl e)
      then have "r = Inl e" "sm' = sm" using m rest c sm1 go p sm2 by (simp_all add: ebind_def)
      then show ?thesis using P(1) Inl ok by simp
    next
      case (Inr g)
      have g: "g < length (sm_groups sm)" using P(1) Inr by simp
      have r: "r = Inr (Some (sm_group_ids sm ! g))" "sm' = ?start g sm"
        using m rest c sm1 go p sm2 Inr g machine_okD(3) [OF ok]
        by (simp_all add: ebind_def index_at_def)
      have "machine_ok n sm'" "machine_le sm sm'"
        using ok g by (auto simp: r machine_ok_def machine_le_def join_point_def)
      moreover have "counters_ok steps sm'" if k: "counters_ok steps sm"
      proof -
        have nf: "round_forced steps sm \<noteq> Some False" using C(1) go by simp
        have "\<forall>w\<in>set (map join_point (sm_workers sm)). round_bounds (sm_concurrency sm) w"
          by (auto simp: round_bounds_def join_point_def MAX_ROUND_RULES_def ATTEMPT_MULTIPLIER_def)
        then show ?thesis using k nf unfolding r
          by (auto simp: counters_ok_def round_forced_def Let_def join_point_def split: if_splits)
      qed
      ultimately show ?thesis using r by simp
    qed
  qed
qed

lemma should_check_invariant_ok:
  assumes src: "sourced lc tc" and m: "should_check_invariant lc S i (sm, tc) = (r, (sm', tc'))"
  shows "sm' = sm \<and> (\<forall>e. r = Inl e \<longrightarrow> ends_draw e \<or> (\<exists>msg. e = InvalidArgument msg))"
proof -
  have "good_step lc (\<lambda>m. m = sm) (with_case (weighted_precise lc S p None)) (\<lambda>c m. m = sm) (\<lambda>m. m = sm)" for p
    by (rule step_case [OF good_weighted_precise]) auto
  note W = good_stepD [OF this refl src]
  let ?always = "sm_invariant_always_check sm"
  let ?draw = "with_case (weighted_precise lc S (f64_div f64_one (f64_of_int
      (fc_stateful_step_count (tc_family tc)))) None) (sm, tc)"
  consider (range) "\<not> (0 \<le> i \<and> nat i < length ?always)"
    | (always) "0 \<le> i \<and> nat i < length ?always" "?always ! nat i"
    | (draw) "0 \<le> i \<and> nat i < length ?always" "\<not> ?always ! nat i" by blast
  then show ?thesis
  proof cases
    case range
    then show ?thesis using m by (auto simp: should_check_invariant_def ebind_def Let_def)
  next
    case always
    then show ?thesis using m by (auto simp: should_check_invariant_def ebind_def Let_def)
  next
    case draw
    then have "?draw = (r, (sm', tc'))" using m by (simp add: should_check_invariant_def ebind_def Let_def)
    from W(1) [OF this] show ?thesis by (cases r) simp_all
  qed
qed

section \<open>Runs\<close>

datatype machine_event =
    NextGroup "engine_error + int option"
  | NextRule int "engine_error + int option"
  | RuleRejected int "engine_error + unit"
  | ShouldCheck int "engine_error + bool"

text \<open>Each operation may be called on any stream that can be drawn from.\<close>

inductive machine_step ::
  "(f64 \<Rightarrow> f64) \<Rightarrow> 'r sampling \<Rightarrow> int \<Rightarrow> state_machine \<Rightarrow> machine_event \<Rightarrow> state_machine \<Rightarrow> bool"
  for lc S steps where
  next_group: "sourced lc tc \<Longrightarrow> fc_stateful_step_count (tc_family tc) = steps
    \<Longrightarrow> next_group lc S (sm, tc) = (r, (sm', tc')) \<Longrightarrow> machine_step lc S steps sm (NextGroup r) sm'"
| next_rule: "sourced lc tc \<Longrightarrow> next_rule lc S i (sm, tc) = (r, (sm', tc'))
    \<Longrightarrow> machine_step lc S steps sm (NextRule i r) sm'"
| rule_rejected: "rule_rejected i sm = (r, sm') \<Longrightarrow> machine_step lc S steps sm (RuleRejected i r) sm'"
| should_check: "sourced lc tc \<Longrightarrow> should_check_invariant lc S i (sm, tc) = (r, (sm', tc'))
    \<Longrightarrow> machine_step lc S steps sm (ShouldCheck i r) sm'"

inductive_cases next_group_stepE: "machine_step lc S steps sm (NextGroup r) sm'"
inductive_cases next_rule_stepE: "machine_step lc S steps sm (NextRule i r) sm'"

inductive machine_run ::
  "(f64 \<Rightarrow> f64) \<Rightarrow> 'r sampling \<Rightarrow> int \<Rightarrow> state_machine \<Rightarrow> machine_event list \<Rightarrow> state_machine \<Rightarrow> bool"
  for lc S steps where
  machine_stop: "machine_run lc S steps sm [] sm"
| machine_more: "machine_step lc S steps sm e sm' \<Longrightarrow> machine_run lc S steps sm' tr sm''
    \<Longrightarrow> machine_run lc S steps sm (e # tr) sm''"

lemma machine_step_ok:
  assumes S: "sampling_sound S" "integers_total S" and step: "machine_step lc S steps sm e sm'"
    and ok: "machine_ok n sm" "counters_ok steps sm"
  shows "machine_ok n sm' \<and> counters_ok steps sm' \<and> machine_le sm sm'"
  using step
proof cases
  case (next_group tc r tc')
  then show ?thesis using next_group_ok [OF S ok(1) next_group(2,4,3)] ok(2) by blast
next
  case (next_rule tc i r tc')
  then show ?thesis using next_rule_ok [OF S ok(1) next_rule(2,3)] ok(2) by blast
next
  case (rule_rejected i r)
  then show ?thesis using rule_rejected_ok [OF ok(1) rule_rejected(2)] ok(2) by blast
next
  case (should_check tc i r tc')
  then show ?thesis using should_check_invariant_ok [OF should_check(2,3)] ok by simp
qed

lemma machine_run_ok:
  assumes S: "sampling_sound S" "integers_total S" and run: "machine_run lc S steps sm tr sm'"
  shows "machine_ok n sm \<Longrightarrow> counters_ok steps sm \<Longrightarrow> machine_ok n sm' \<and> counters_ok steps sm' \<and> machine_le sm sm'"
  using run
proof (induction rule: machine_run.induct)
  case (machine_more sm e sm' tr sm'')
  have "machine_ok n sm' \<and> counters_ok steps sm' \<and> machine_le sm sm'"
    by (rule machine_step_ok [OF S machine_more.hyps(1) machine_more.prems])
  then show ?case using machine_more.IH machine_le_trans by blast
qed simp

text \<open>A machine as \<open>NativeStateMachine::new\<close> returns it.\<close>

definition created :: "(f64 \<Rightarrow> f64) \<Rightarrow> 'r sampling \<Rightarrow> state_machine \<Rightarrow> bool" where
  "created lc S sm \<longleftrightarrow>
     (\<exists>rule_groups always lo hi tc tc'. rule_groups \<noteq> [] \<and> length rule_groups < 2 ^ 63
        \<and> 1 \<le> lo \<and> lo \<le> hi \<and> hi < 2 ^ 63 \<and> sourced lc tc
        \<and> machine_new lc S rule_groups always lo hi tc = (Inr sm, tc'))"

lemma createdI:
  "rule_groups \<noteq> [] \<Longrightarrow> length rule_groups < 2 ^ 63 \<Longrightarrow> 1 \<le> lo \<Longrightarrow> lo \<le> hi \<Longrightarrow> hi < 2 ^ 63
   \<Longrightarrow> sourced lc tc \<Longrightarrow> machine_new lc S rule_groups always lo hi tc = (Inr sm, tc') \<Longrightarrow> created lc S sm"
  unfolding created_def by blast

lemma created_ok:
  assumes S: "sampling_sound S" "integers_total S" and "created lc S sm"
  shows "\<exists>n. machine_ok n sm \<and> counters_ok steps sm"
proof -
  obtain rule_groups always lo hi tc tc' where c: "rule_groups \<noteq> []" "length rule_groups < 2 ^ 63"
      "1 \<le> lo" "lo \<le> hi" "hi < 2 ^ 63" "sourced lc tc"
      "machine_new lc S rule_groups always lo hi tc = (Inr sm, tc')"
    using assms(3) unfolding created_def by blast
  have "new_machine (length rule_groups) sm"
    using good_machine_new [OF S c(1-5), of lc always] c(6,7) unfolding good_draw_def by fastforce
  then show ?thesis using new_machine_counters by (auto simp: new_machine_def)
qed

section \<open>A sample machine\<close>

lemma sample_integers_total: "integers_total sample_sampling"
  by (simp add: integers_total_def sample_sampling_def)

lemma sample_sourced: "sourced lc sample_random_root"
  by (simp add: sourced_def sample_random_root_def with_random_and_params_def for_choices_and_template_def new_stream_def)

lemma zero_disabled: "f64_div (f64_of_int 0) 0x406FE00000000000 = f64_zero"
proof -
  have "\<not> is_nan f64_zero" "\<not> is_nan 0x406FE00000000000" "\<not> is_infinite f64_zero"
    "\<not> is_infinite 0x406FE00000000000" "\<not> is_sign_negative f64_zero" "\<not> is_sign_negative 0x406FE00000000000"
    "\<not> f64_is_zero 0x406FE00000000000" by code_simp+
  moreover obtain b where "f64_ratio f64_zero = (0, b)"
  proof -
    have "f64_significand f64_zero = 0"
      by (simp add: f64_significand_def f64_exponent_def f64_mantissa_def f64_zero_def)
    then show ?thesis using that by (cases "1075 \<le> f64_scale f64_zero") (simp_all add: f64_ratio_def)
  qed
  moreover obtain c d where "f64_ratio 0x406FE00000000000 = (c, d)" by fastforce
  ultimately show ?thesis
    by (simp add: f64_of_int_def f64_div_def f64_of_ratio_def f64_signed_def)
qed

lemma zero_comparisons: "f64_le f64_zero f64_zero = True" "f64_le f64_one f64_zero = False"
  by code_simp+

text \<open>Rules 0 and 1 are in group 7, rule 2 is in group 9; one worker.\<close>

definition sample_flags :: feature_flags where
  "sample_flags = \<lparr>ff_p_disabled = f64_zero,
     ff_is_disabled = [None, None, None], ff_at_least_one_of = [{0, 1}, {2}]\<rparr>"

definition sample_machine :: state_machine where
  "sample_machine = \<lparr>sm_groups = [[0, 1], [2]], sm_group_ids = [7, 9], sm_concurrency = 1,
     sm_current_group = 0, sm_rounds_started = 0, sm_rounds_rejected = 0, sm_invariant_always_check = [],
     sm_workers = [\<lparr>ws_flags = sample_flags, ws_steps_drawn = 0, ws_steps_rejected = 0,
       ws_rule_outstanding = False, ws_retry_pending = False\<rparr>]\<rparr>"

definition sample_round :: state_machine where
  "sample_round = sample_machine\<lparr>sm_rounds_started := 1\<rparr>"

lemmas machine_eval = sample_eval sample_random_root_def with_random_and_params_def set_budget_def
  set_generation_parameters_def draw_integer_def draw_integer_from_def from_rng_def hegel_internal_assert_def
  integer_in_def integer_validate_def unwrap_i128_def to_i128_def with_case_def

lemma sample_created: "created (\<lambda>v. v) sample_sampling sample_machine"
proof -
  have "\<exists>tc'. machine_new (\<lambda>v. v) sample_sampling [7, 7, 9] [] 1 1 sample_random_root = (Inr sample_machine, tc')"
    by (simp add: machine_new_def draw_concurrency_def flags_new_def sample_machine_def sample_flags_def
        machine_eval numeral_3_eq_3 zero_disabled)
  then obtain tc' where m: "machine_new (\<lambda>v. v) sample_sampling [7, 7, 9] [] 1 1 sample_random_root = (Inr sample_machine, tc')" ..
  show ?thesis by (rule createdI [OF _ _ _ _ _ sample_sourced m]) simp_all
qed

definition sample_given :: state_machine where
  "sample_given = snd (let s = next_rule (\<lambda>v. v) sample_sampling 0 (sample_round, sample_random_root) in (fst s, fst (snd s)))"

lemma sample_steps:
  "machine_run (\<lambda>v. v) sample_sampling 50 sample_machine [NextGroup (Inr (Some 7))] sample_round"
  "machine_step (\<lambda>v. v) sample_sampling 50 sample_round (NextRule 0 (Inr (Some 0))) sample_given"
proof -
  have steps: "fc_stateful_step_count (tc_family sample_random_root) = 50"
    by (simp add: sample_random_root_def with_random_and_params_def set_budget_def set_generation_parameters_def
        for_choices_and_template_def new_stream_def family_new_def)
  have "\<exists>tc'. next_group (\<lambda>v. v) sample_sampling (sample_machine, sample_random_root) = (Inr (Some 7), (sample_round, tc'))"
    by (simp add: next_group_def round_forced_def sample_round_def sample_machine_def i64_saturating_mul_def
        ATTEMPT_MULTIPLIER_def MIN_ATTEMPTS_WITHOUT_SUCCESS_def draw_index_def as_usize_def index_at_def
        join_point_def weighted_precise_def machine_eval numeral_2_eq_2)
  then obtain tc' where "next_group (\<lambda>v. v) sample_sampling (sample_machine, sample_random_root) = (Inr (Some 7), (sample_round, tc'))" ..
  from machine_step.next_group [OF sample_sourced steps this]
  show "machine_run (\<lambda>v. v) sample_sampling 50 sample_machine [NextGroup (Inr (Some 7))] sample_round"
    by (rule machine_more) (rule machine_stop)
  have "\<exists>sm tc'. next_rule (\<lambda>v. v) sample_sampling 0 (sample_round, sample_random_root) = (Inr (Some 0), (sm, tc'))"
    by (simp add: zero_comparisons next_rule_def checked_worker_def sample_round_def sample_machine_def sample_flags_def select_rule_def
        on_flags_def select_in_group_def numeral_3_eq_3 is_enabled_def decide_flag_def set_worker_def
        draw_index_def as_usize_def index_at_def machine_eval)
  then obtain sm tc' where given: "next_rule (\<lambda>v. v) sample_sampling 0 (sample_round, sample_random_root) = (Inr (Some 0), (sm, tc'))"
    by blast
  then have "sample_given = sm" by (simp add: sample_given_def)
  then show "machine_step (\<lambda>v. v) sample_sampling 50 sample_round (NextRule 0 (Inr (Some 0))) sample_given"
    using machine_step.next_rule [OF sample_sourced given] by simp
qed

section \<open>Properties\<close>

text \<open>C13: In every run of a state machine, a rule handed out to a worker belongs to the group of the
  current round and is enabled by the worker's flags, and was never disabled for it before; a
  request for a rule never fails with an internal error, so the flags never leave a group
  without a rule to run.\<close>
theorem rules_in_current_group:
  assumes "sampling_sound S" "integers_total S" "created lc S sm0" "machine_run lc S steps sm0 tr sm1"
    "machine_run lc S steps sm1 tr' sm2" "machine_step lc S steps sm2 (NextRule i r) sm3"
  shows "case r of
      Inr (Some rule) \<Rightarrow> 0 \<le> i \<and> nat i < length (sm_workers sm2) \<and> 0 \<le> rule
        \<and> nat rule \<in> set (sm_groups sm2 ! sm_current_group sm2)
        \<and> decided (ws_flags (sm_workers sm3 ! nat i)) (nat rule) False
        \<and> \<not> decided (ws_flags (sm_workers sm1 ! nat i)) (nat rule) True
    | Inr None \<Rightarrow> True
    | Inl e \<Rightarrow> ends_draw e \<or> (\<exists>msg. e = InvalidArgument msg)"
proof -
  obtain n where "machine_ok n sm0" "counters_ok steps sm0" using created_ok [OF assms(1-3)] by blast
  then have one: "machine_ok n sm1" "counters_ok steps sm1"
    using machine_run_ok [OF assms(1,2,4)] by blast+
  then have two: "machine_ok n sm2" "machine_le sm1 sm2"
    using machine_run_ok [OF assms(1,2,5)] by blast+
  obtain tc tc' where "sourced lc tc" "next_rule lc S i (sm2, tc) = (r, (sm3, tc'))"
    using assms(6) by (rule next_rule_stepE)
  note R = next_rule_ok [OF assms(1,2) two(1) this, of steps]
  have later: "\<not> decided (ws_flags (sm_workers sm1 ! w)) j True"
    if "w < length (sm_workers sm2)" "decided (ws_flags (sm_workers sm3 ! w)) j False" for w j
  proof
    assume d: "decided (ws_flags (sm_workers sm1 ! w)) j True"
    have "machine_le sm1 sm3" using two(2) R machine_le_trans by blast
    then have "decided (ws_flags (sm_workers sm3 ! w)) j True"
      using d that(1) two(2) by (auto simp: machine_le_def flags_le_def)
    then show False using that(2) by (simp add: decided_def)
  qed
  show ?thesis using R later by (auto split: sum.splits option.splits)
qed

text \<open>C14: The work of a state machine is bounded: with a step count of \<open>steps\<close>, at most \<open>steps\<close> rounds
  count, at most the larger of 1000 and ten times \<open>steps\<close> are started, and in a round a worker is
  handed at most one rule when it is alone and otherwise at most 50, of which at most 5 were not
  rejected.\<close>
theorem rounds_bounded:
  assumes "sampling_sound S" "integers_total S" "created lc S sm0" "machine_run lc S steps sm0 tr sm"
    "w \<in> set (sm_workers sm)"
  shows "sm_rounds_started sm - sm_rounds_rejected sm \<le> max 0 steps \<and> sm_rounds_started sm \<le> max 1000 (10 * steps)
     \<and> ws_steps_drawn w \<le> (if sm_concurrency sm = 1 then 1 else 50)
     \<and> ws_steps_drawn w - ws_steps_rejected w \<le> (if sm_concurrency sm = 1 then 1 else 5)"
proof -
  obtain n where "machine_ok n sm0" "counters_ok steps sm0" using created_ok [OF assms(1-3)] by blast
  then have "counters_ok steps sm" using machine_run_ok [OF assms(1,2,4)] by blast
  then show ?thesis using assms(5)
    by (auto simp: counters_ok_def round_bounds_def MAX_ROUND_RULES_def ATTEMPT_MULTIPLIER_def
        MIN_ATTEMPTS_WITHOUT_SUCCESS_def i64_saturating_mul_def split: if_splits)
qed

theorem rules_in_current_group_witness:
  "decided (ws_flags (sm_workers sample_given ! 0)) 0 False
     \<and> \<not> decided (ws_flags (sm_workers sample_round ! 0)) 0 True"
  using rules_in_current_group [OF sample_sampling_sound sample_integers_total sample_created
      sample_steps(1) machine_stop sample_steps(2)] by simp

theorem rounds_bounded_witness:
  "sm_rounds_started sample_round = 1 \<and> sm_rounds_started sample_round \<le> max 1000 (10 * 50)"
proof -
  let ?w = "\<lparr>ws_flags = sample_flags, ws_steps_drawn = 0, ws_steps_rejected = 0,
       ws_rule_outstanding = False, ws_retry_pending = False\<rparr>"
  have "?w \<in> set (sm_workers sample_round)" by (simp add: sample_round_def sample_machine_def)
  from rounds_bounded [OF sample_sampling_sound sample_integers_total sample_created sample_steps(1) this]
  show ?thesis by (simp add: sample_round_def)
qed

end
