(* ===== verification/Special.thy ===== *)
theory Special
  imports Draws
begin

text \<open>
  \<open>hegel-c/src/native/draws/special.rs\<close>: dates, times, UUIDs and IP addresses. The fields of a
  date and a time are integers; the casts of the source to \<open>u8\<close>, \<open>u32\<close> and \<open>i32\<close> are written
  out. The day arithmetic is on \<open>i64\<close>: within the years accepted it stays far below overflow.
\<close>

definition LABEL_DATE :: u64 where "LABEL_DATE = 21"
definition LABEL_TIME :: u64 where "LABEL_TIME = 22"
definition LABEL_DATETIME :: u64 where "LABEL_DATETIME = 23"
definition LABEL_UUID :: u64 where "LABEL_UUID = 24"
definition LABEL_IP_ADDRESS :: u64 where "LABEL_IP_ADDRESS = 25"

section \<open>Dates and times\<close>

record date =
  d_year :: int
  d_month :: int
  d_day :: int

record time =
  t_hour :: int
  t_minute :: int
  t_second :: int
  t_nanosecond :: int

record datetime =
  dt_date :: date
  dt_time :: time

definition as_u8 :: "int \<Rightarrow> int" where "as_u8 v = v mod 2 ^ 8"
definition as_u32 :: "int \<Rightarrow> int" where "as_u32 v = v mod 2 ^ 32"
definition as_i32 :: "int \<Rightarrow> int" where "as_i32 v = sint (word_of_int v :: 32 word)"

text \<open>\<open>None\<close> is the \<open>unreachable!\<close> of a month out of range.\<close>

definition is_leap :: "int \<Rightarrow> bool" where
  "is_leap year \<longleftrightarrow> year mod 4 = 0 \<and> (year mod 100 \<noteq> 0 \<or> year mod 400 = 0)"

definition days_in_month :: "int \<Rightarrow> int \<Rightarrow> int option" where
  "days_in_month year month =
     (if month \<in> {1, 3, 5, 7, 8, 10, 12} then Some 31
      else if month \<in> {4, 6, 9, 11} then Some 30
      else if month = 2 then Some (if is_leap year then 29 else 28)
      else None)"

definition MIN_YEAR :: int where "MIN_YEAR = -999999"
definition MAX_YEAR :: int where "MAX_YEAR = 999999"

text \<open>\<open>div_euclid\<close> by a positive divisor is the floor; the other divisions are of naturals.\<close>

definition days_from_civil :: "date \<Rightarrow> int" where
  "days_from_civil d =
     (let y = d_year d - of_bool (d_month d \<le> 2);
          era = y div 400;
          yoe = y - era * 400;
          mp = d_month d + (if 2 < d_month d then -3 else 9);
          doy = (153 * mp + 2) div 5 + d_day d - 1;
          doe = yoe * 365 + yoe div 4 - yoe div 100 + doy
      in era * 146097 + doe - 719468)"

definition civil_from_days :: "int \<Rightarrow> date" where
  "civil_from_days z =
     (let z = z + 719468;
          era = z div 146097;
          doe = z - era * 146097;
          yoe = (doe - doe div 1460 + doe div 36524 - doe div 146096) div 365;
          y = yoe + era * 400;
          doy = doe - (365 * yoe + yoe div 4 - yoe div 100);
          mp = (5 * doy + 2) div 153;
          day = as_u8 (doy - (153 * mp + 2) div 5 + 1);
          month = as_u8 (if mp < 10 then mp + 3 else mp - 9)
      in \<lparr>d_year = as_i32 (y + of_bool (month \<le> 2)), d_month = month, d_day = day\<rparr>)"

definition date_valid :: "date \<Rightarrow> bool" where
  "date_valid d \<longleftrightarrow> MIN_YEAR \<le> d_year d \<and> d_year d \<le> MAX_YEAR
     \<and> 1 \<le> d_month d \<and> d_month d \<le> 12 \<and> 1 \<le> d_day d
     \<and> (case days_in_month (d_year d) (d_month d) of Some n \<Rightarrow> d_day d \<le> n | None \<Rightarrow> False)"

definition time_valid :: "time \<Rightarrow> bool" where
  "time_valid t \<longleftrightarrow> t_hour t \<le> 23 \<and> t_minute t \<le> 59 \<and> t_second t \<le> 59 \<and> t_nanosecond t \<le> 999999999"

definition validate_date :: "date \<Rightarrow> ('r, unit) draw" where
  "validate_date d = invalid (\<not> date_valid d) ''not a valid date''"

definition validate_time :: "time \<Rightarrow> ('r, unit) draw" where
  "validate_time t = invalid (\<not> time_valid t) ''not a valid time''"

definition time_to_ns :: "time \<Rightarrow> int" where
  "time_to_ns t =
     ((t_hour t * 60 + t_minute t) * 60 + t_second t) * 1000000000 + t_nanosecond t"

definition time_from_ns :: "int \<Rightarrow> time" where
  "time_from_ns ns =
     \<lparr>t_hour = as_u8 (ns div 3600000000000), t_minute = as_u8 (ns div 60000000000 mod 60),
      t_second = as_u8 (ns div 1000000000 mod 60), t_nanosecond = as_u32 (ns mod 1000000000)\<rparr>"

definition LAST_NS_OF_DAY :: int where "LAST_NS_OF_DAY = 86400000000000 - 1"

definition unwrapped :: "(int \<Rightarrow> int option) \<Rightarrow> int \<Rightarrow> ('s, engine_error, int) effect" where
  "unwrapped conv v = lift_result EngineInternal (unwrap_or_panic (conv v) ''called unwrap on None'')"

definition draw_i64 :: "(f64 \<Rightarrow> f64) \<Rightarrow> 'r sampling \<Rightarrow> int \<Rightarrow> int \<Rightarrow> ('r, int) draw" where
  "draw_i64 lc S lo hi = ebind (draw_integer lc S (\<lambda>_. True) lo hi) (unwrapped to_i64)"

definition clamp :: "'a :: linorder \<Rightarrow> 'a \<Rightarrow> 'a \<Rightarrow> 'a" where
  "clamp lo hi v = (if v < lo then lo else if hi < v then hi else v)"

definition draw_date_in :: "(f64 \<Rightarrow> f64) \<Rightarrow> 'r sampling \<Rightarrow> int \<Rightarrow> int \<Rightarrow> ('r, date) draw" where
  "draw_date_in lc S min_days max_days =
     (let center = clamp min_days max_days (days_from_civil \<lparr>d_year = 2000, d_month = 1, d_day = 1\<rparr>)
      in ebind (draw_i64 lc S (min_days - center) (max_days - center)) (\<lambda>offset.
         ret (civil_from_days (center + offset))))"

definition draw_time_in :: "(f64 \<Rightarrow> f64) \<Rightarrow> 'r sampling \<Rightarrow> int \<Rightarrow> int \<Rightarrow> ('r, time) draw" where
  "draw_time_in lc S min_ns max_ns =
     ebind (draw_i64 lc S 0 (max_ns - min_ns)) (\<lambda>offset. ret (time_from_ns (min_ns + offset)))"

definition generate_date :: "(f64 \<Rightarrow> f64) \<Rightarrow> 'r sampling \<Rightarrow> date \<Rightarrow> date \<Rightarrow> ('r, date) draw" where
  "generate_date lc S lo hi =
     ebind (validate_date lo) (\<lambda>_.
     ebind (validate_date hi) (\<lambda>_.
     ebind (invalid (days_from_civil hi < days_from_civil lo)
              ''generate_date requires min_value <= max_value'') (\<lambda>_.
     spanned LABEL_DATE (draw_date_in lc S (days_from_civil lo) (days_from_civil hi)))))"

definition generate_time :: "(f64 \<Rightarrow> f64) \<Rightarrow> 'r sampling \<Rightarrow> time \<Rightarrow> time \<Rightarrow> ('r, time) draw" where
  "generate_time lc S lo hi =
     ebind (validate_time lo) (\<lambda>_.
     ebind (validate_time hi) (\<lambda>_.
     ebind (invalid (time_to_ns hi < time_to_ns lo)
              ''generate_time requires min_value <= max_value'') (\<lambda>_.
     spanned LABEL_TIME (draw_time_in lc S (time_to_ns lo) (time_to_ns hi)))))"

text \<open>The comparison of the bounds is on pairs of days and nanoseconds.\<close>

definition draw_datetime_in ::
  "(f64 \<Rightarrow> f64) \<Rightarrow> 'r sampling \<Rightarrow> int \<Rightarrow> int \<Rightarrow> int \<Rightarrow> int \<Rightarrow> ('r, datetime) draw" where
  "draw_datetime_in lc S min_days min_ns max_days max_ns =
     ebind (draw_date_in lc S min_days max_days) (\<lambda>date.
     let day = days_from_civil date;
         lo = (if day = min_days then min_ns else 0);
         hi = (if day = max_days then max_ns else LAST_NS_OF_DAY)
     in ebind (draw_time_in lc S lo hi) (\<lambda>time. ret \<lparr>dt_date = date, dt_time = time\<rparr>))"

definition generate_datetime ::
  "(f64 \<Rightarrow> f64) \<Rightarrow> 'r sampling \<Rightarrow> datetime \<Rightarrow> datetime \<Rightarrow> ('r, datetime) draw" where
  "generate_datetime lc S lo hi =
     ebind (validate_date (dt_date lo)) (\<lambda>_.
     ebind (validate_date (dt_date hi)) (\<lambda>_.
     ebind (validate_time (dt_time lo)) (\<lambda>_.
     ebind (validate_time (dt_time hi)) (\<lambda>_.
     let min_days = days_from_civil (dt_date lo); max_days = days_from_civil (dt_date hi);
         min_ns = time_to_ns (dt_time lo); max_ns = time_to_ns (dt_time hi)
     in ebind (invalid (max_days < min_days \<or> (min_days = max_days \<and> max_ns < min_ns))
                 ''generate_datetime requires min_value <= max_value'') (\<lambda>_.
        spanned LABEL_DATETIME (draw_datetime_in lc S min_days min_ns max_days max_ns))))))"

section \<open>UUIDs\<close>

type_synonym u128 = "128 word"

definition join_halves :: "int \<Rightarrow> int \<Rightarrow> u128" where
  "join_halves hi lo = push_bit 64 (word_of_int hi) OR word_of_int lo"

definition set_version :: "nat option \<Rightarrow> u128 \<Rightarrow> u128" where
  "set_version version n =
     (case version of
        Some v \<Rightarrow>
          let n = n AND NOT (push_bit 48 0xc000);
              n = n OR push_bit 48 0x8000;
              n = n AND NOT (push_bit 64 0xf000)
          in n OR push_bit 76 (of_nat v)
      | None \<Rightarrow> if n = 0 then 1 else n)"

definition be_bytes :: "u128 \<Rightarrow> u8 list" where
  "be_bytes n = rev (nat_to_le 16 (unat n))"

definition draw_u64 :: "(f64 \<Rightarrow> f64) \<Rightarrow> 'r sampling \<Rightarrow> ('r, int) draw" where
  "draw_u64 lc S = ebind (draw_integer lc S (\<lambda>_. True) 0 (2 ^ 64 - 1)) (unwrapped to_u64)"

definition generate_uuid ::
  "(f64 \<Rightarrow> f64) \<Rightarrow> 'r sampling \<Rightarrow> nat option \<Rightarrow> ('r, u8 list) draw" where
  "generate_uuid lc S version =
     ebind (invalid (case version of Some v \<Rightarrow> 15 < v | None \<Rightarrow> False)
              ''uuid version must be a single hex nibble'') (\<lambda>_.
     spanned LABEL_UUID
       (ebind (draw_u64 lc S) (\<lambda>hi.
        ebind (draw_u64 lc S) (\<lambda>lo.
        ret (be_bytes (set_version version (join_halves hi lo)))))))"

section \<open>Networks\<close>

text \<open>
  The parsers of the standard library on the texts of the two tables. A decimal octet has at most three
  digits and no leading zero; a group of an IPv6 address has one to four hexadecimal digits, and
  one double colon may stand for the missing groups (texts that end in a dotted quad are not in
  the table). \<open>None\<close> is a parse error, which the source unwraps.
\<close>

fun split_on :: "char \<Rightarrow> string \<Rightarrow> string list" where
  "split_on sep [] = [[]]"
| "split_on sep (c # cs) =
     (if c = sep then [] # split_on sep cs
      else case split_on sep cs of w # ws \<Rightarrow> (c # w) # ws | [] \<Rightarrow> [[c]])"

definition split_once :: "char \<Rightarrow> string \<Rightarrow> (string \<times> string) option" where
  "split_once sep s =
     (case dropWhile (\<lambda>c. c \<noteq> sep) s of
        [] \<Rightarrow> None
      | _ # rest \<Rightarrow> Some (takeWhile (\<lambda>c. c \<noteq> sep) s, rest))"

definition digit_value :: "char \<Rightarrow> nat option" where
  "digit_value c =
     (let n = of_char c :: nat
      in if 48 \<le> n \<and> n \<le> 57 then Some (n - 48)
         else if 97 \<le> n \<and> n \<le> 102 then Some (n - 87)
         else if 65 \<le> n \<and> n \<le> 70 then Some (n - 55)
         else None)"

fun number_from :: "nat \<Rightarrow> nat \<Rightarrow> string \<Rightarrow> nat option" where
  "number_from radix acc [] = Some acc"
| "number_from radix acc (c # cs) =
     (case digit_value c of
        Some d \<Rightarrow> if d < radix then number_from radix (acc * radix + d) cs else None
      | None \<Rightarrow> None)"

definition parse_number :: "nat \<Rightarrow> nat \<Rightarrow> string \<Rightarrow> nat option" where
  "parse_number radix max_digits s =
     (if s = [] \<or> max_digits < length s then None else number_from radix 0 s)"

definition parse_octet :: "string \<Rightarrow> nat option" where
  "parse_octet s =
     (if 1 < length s \<and> hd s = CHR ''0'' then None
      else case parse_number 10 3 s of Some n \<Rightarrow> if n < 256 then Some n else None | None \<Rightarrow> None)"

fun all_some :: "'a option list \<Rightarrow> 'a list option" where
  "all_some [] = Some []"
| "all_some (None # xs) = None"
| "all_some (Some x # xs) = map_option ((#) x) (all_some xs)"

definition parse_ipv4 :: "string \<Rightarrow> u32 option" where
  "parse_ipv4 s =
     (case all_some (map parse_octet (split_on CHR ''.'' s)) of
        Some [a, b, c, d] \<Rightarrow> Some (of_nat (((a * 256 + b) * 256 + c) * 256 + d))
      | _ \<Rightarrow> None)"

fun split_double_colon :: "string \<Rightarrow> string \<times> string option" where
  "split_double_colon (c # d # cs) =
     (if c = CHR '':'' \<and> d = CHR '':'' then ([], Some cs)
      else apfst ((#) c) (split_double_colon (d # cs)))"
| "split_double_colon s = (s, None)"

definition parse_groups :: "string \<Rightarrow> nat list option" where
  "parse_groups s =
     (if s = [] then Some [] else all_some (map (parse_number 16 4) (split_on CHR '':'' s)))"

definition groups_value :: "nat list \<Rightarrow> u128" where
  "groups_value groups = of_nat (foldl (\<lambda>acc g. acc * 2 ^ 16 + g) 0 groups)"

definition parse_ipv6 :: "string \<Rightarrow> u128 option" where
  "parse_ipv6 s =
     (case split_double_colon s of
        (whole, None) \<Rightarrow>
          (case parse_groups whole of
             Some groups \<Rightarrow> if length groups = 8 then Some (groups_value groups) else None
           | None \<Rightarrow> None)
      | (front, Some back) \<Rightarrow>
          (case (parse_groups front, parse_groups back) of
             (Some hd_groups, Some tl_groups) \<Rightarrow>
               if length hd_groups + length tl_groups \<le> 7
               then Some (groups_value (hd_groups @ replicate (8 - length hd_groups - length tl_groups) 0
                            @ tl_groups))
               else None
           | _ \<Rightarrow> None))"

record v4_network =
  v4_base :: u32
  v4_size_minus_1 :: u32

record v6_network =
  v6_base :: u128
  v6_size_minus_1 :: u128

definition parse_cidr :: "(string \<Rightarrow> 'a option) \<Rightarrow> string \<Rightarrow> ('a \<times> nat) internal_result" where
  "parse_cidr addr s =
     rbind (unwrap_or_panic (split_once CHR ''/'' s) ''called unwrap on None'') (\<lambda>(a, p).
     rbind (unwrap_or_panic (addr a) ''called unwrap on an Err'') (\<lambda>a.
     rbind (unwrap_or_panic (parse_number 10 10 p) ''called unwrap on an Err'') (\<lambda>p. Inr (a, p))))"

definition parse_v4_cidr :: "string \<Rightarrow> v4_network internal_result" where
  "parse_v4_cidr s =
     rbind (parse_cidr parse_ipv4 s) (\<lambda>(addr, p).
     rbind (hegel_internal_assert (1 \<le> p \<and> p \<le> 32) ''IPv4 prefix must be in 1..=32'') (\<lambda>_.
     let mask = push_bit (32 - p) (-1)
     in Inr \<lparr>v4_base = addr AND mask, v4_size_minus_1 = NOT mask\<rparr>))"

definition parse_v6_cidr :: "string \<Rightarrow> v6_network internal_result" where
  "parse_v6_cidr s =
     rbind (parse_cidr parse_ipv6 s) (\<lambda>(addr, p).
     rbind (hegel_internal_assert (1 \<le> p \<and> p \<le> 128) ''IPv6 prefix must be in 1..=128'') (\<lambda>_.
     let mask = push_bit (128 - p) (-1); size_minus_1 = NOT mask
     in rbind (hegel_internal_assert (unat size_minus_1 \<le> 2 ^ 127 - 1)
                 ''IPv6 special range too wide to fit offset in i128'') (\<lambda>_.
        Inr \<lparr>v6_base = addr AND mask, v6_size_minus_1 = size_minus_1\<rparr>)))"

definition SPECIAL_IPV4_CIDRS :: "string list" where
  "SPECIAL_IPV4_CIDRS =
     [''0.0.0.0/8'', ''10.0.0.0/8'', ''100.64.0.0/10'', ''127.0.0.0/8'', ''169.254.0.0/16'',
      ''172.16.0.0/12'', ''192.0.0.0/24'', ''192.0.0.0/29'', ''192.0.0.8/32'', ''192.0.0.9/32'',
      ''192.0.0.10/32'', ''192.0.0.170/32'', ''192.0.0.171/32'', ''192.0.2.0/24'',
      ''192.31.196.0/24'', ''192.52.193.0/24'', ''192.88.99.0/24'', ''192.168.0.0/16'',
      ''192.175.48.0/24'', ''198.18.0.0/15'', ''198.51.100.0/24'', ''203.0.113.0/24'',
      ''240.0.0.0/4'', ''255.255.255.255/32'']"

definition SPECIAL_IPV6_CIDRS :: "string list" where
  "SPECIAL_IPV6_CIDRS =
     [''::1/128'', ''::/128'', ''::ffff:0:0/96'', ''64:ff9b::/96'', ''64:ff9b:1::/48'', ''100::/64'',
      ''2001::/23'', ''2001::/32'', ''2001:1::1/128'', ''2001:1::2/128'', ''2001:2::/48'',
      ''2001:3::/32'', ''2001:4:112::/48'', ''2001:10::/28'', ''2001:20::/28'', ''2001:db8::/32'',
      ''2002::/16'', ''2620:4f:8000::/48'', ''fc00::/7'', ''fe80::/10'']"

text \<open>The statics memoise these results.\<close>

definition SPECIAL_IPV4_NETWORKS :: "v4_network list internal_result" where
  "SPECIAL_IPV4_NETWORKS = rmap parse_v4_cidr SPECIAL_IPV4_CIDRS"

definition SPECIAL_IPV6_NETWORKS :: "v6_network list internal_result" where
  "SPECIAL_IPV6_NETWORKS = rmap parse_v6_cidr SPECIAL_IPV6_CIDRS"

definition checked_add_word :: "'w :: len word \<Rightarrow> 'w word \<Rightarrow> ('s, engine_error, 'w word) effect" where
  "checked_add_word a b =
     (if unat a + unat b < 2 ^ LENGTH('w) then ret (a + b)
      else throw (EngineInternal (Panicked ''attempt to add with overflow'')))"

definition draw_ipv4 :: "(f64 \<Rightarrow> f64) \<Rightarrow> 'r sampling \<Rightarrow> ('r, u32) draw" where
  "draw_ipv4 lc S =
     ebind (draw_i64 lc S 0 1) (\<lambda>kind.
     if kind = 0
     then ebind (draw_i64 lc S 0 255) (\<lambda>a.
          ebind (draw_i64 lc S 0 255) (\<lambda>b.
          ebind (draw_i64 lc S 0 255) (\<lambda>c.
          ebind (draw_i64 lc S 0 255) (\<lambda>d.
          ret (push_bit 24 (word_of_int a) OR push_bit 16 (word_of_int b)
               OR push_bit 8 (word_of_int c) OR word_of_int d)))))
     else ebind (internally SPECIAL_IPV4_NETWORKS) (\<lambda>nets.
          ebind (draw_i64 lc S 0 (int (length nets) - 1)) (\<lambda>idx.
          ebind (index_at nets (nat (idx mod 2 ^ 64))) (\<lambda>net.
          ebind (draw_i64 lc S 0 (uint (v4_size_minus_1 net))) (\<lambda>offset.
          checked_add_word (v4_base net) (word_of_int offset))))))"

definition draw_ipv6 :: "(f64 \<Rightarrow> f64) \<Rightarrow> 'r sampling \<Rightarrow> ('r, u128) draw" where
  "draw_ipv6 lc S =
     ebind (draw_i64 lc S 0 1) (\<lambda>kind.
     if kind = 0
     then ebind (draw_u64 lc S) (\<lambda>hi. ebind (draw_u64 lc S) (\<lambda>lo. ret (join_halves hi lo)))
     else ebind (internally SPECIAL_IPV6_NETWORKS) (\<lambda>nets.
          ebind (draw_i64 lc S 0 (int (length nets) - 1)) (\<lambda>idx.
          ebind (index_at nets (nat (idx mod 2 ^ 64))) (\<lambda>net.
          ebind (draw_integer lc S (\<lambda>_. True) 0 (uint (v6_size_minus_1 net))) (\<lambda>offset.
          ebind (unwrapped to_u128 offset) (\<lambda>offset.
          checked_add_word (v6_base net) (word_of_int offset)))))))"

definition generate_ipv4 :: "(f64 \<Rightarrow> f64) \<Rightarrow> 'r sampling \<Rightarrow> ('r, u32) draw" where
  "generate_ipv4 lc S = spanned LABEL_IP_ADDRESS (draw_ipv4 lc S)"

definition generate_ipv6 :: "(f64 \<Rightarrow> f64) \<Rightarrow> 'r sampling \<Rightarrow> ('r, u128) draw" where
  "generate_ipv6 lc S = spanned LABEL_IP_ADDRESS (draw_ipv6 lc S)"

end
