(* ===== verification/Outcomes.thy ===== *)
theory Outcomes
  imports Procs
begin

text \<open>
  The contract of procedures whose errors matter: from a good state a procedure ends, either with
  a value, in a later state in which a postcondition holds, or with an admissible error. Where
  \<open>progress\<close> leaves errors open, a client here also learns which errors it has to expect.
\<close>

locale outcomes =
  fixes good :: "'s \<Rightarrow> bool" and step :: "'s \<Rightarrow> 's \<Rightarrow> bool" and fails :: "'s \<Rightarrow> 'e \<Rightarrow> bool"
  assumes step_refl: "good s \<Longrightarrow> step s s"
    and step_trans: "step s t \<Longrightarrow> step t u \<Longrightarrow> step s u"
    and step_good: "step s t \<Longrightarrow> good t"
    and fails_earlier: "step s t \<Longrightarrow> fails t e \<Longrightarrow> fails s e"
begin

definition ends :: "('a \<Rightarrow> 's \<Rightarrow> bool) \<Rightarrow> ('s, 'e, 'a) proc \<Rightarrow> 's \<Rightarrow> bool" where
  "ends Q m s \<longleftrightarrow>
     (\<exists>r t. m s = Some (r, t) \<and> (case r of Inr x \<Rightarrow> step s t \<and> Q x t | Inl e \<Rightarrow> fails s e))"

lemma endsI:
  "m s = Some (r, t) \<Longrightarrow> (\<And>x. r = Inr x \<Longrightarrow> step s t \<and> Q x t) \<Longrightarrow> (\<And>e. r = Inl e \<Longrightarrow> fails s e) \<Longrightarrow> ends Q m s"
  unfolding ends_def by (cases r) auto

lemma endsE:
  assumes "ends Q m s"
  obtains (failed) e t where "m s = Some (Inl e, t)" "fails s e"
  | (got) x t where "m s = Some (Inr x, t)" "step s t" "Q x t"
proof -
  obtain r t where "m s = Some (r, t)" "case r of Inr x \<Rightarrow> step s t \<and> Q x t | Inl e \<Rightarrow> fails s e"
    using assms unfolding ends_def by blast
  then show thesis using failed got by (cases r) auto
qed

lemma ends_ret: "good s \<Longrightarrow> Q x s \<Longrightarrow> ends Q (pret x) s"
  by (rule endsI) (auto intro: step_refl)

lemma ends_throw: "fails s e \<Longrightarrow> ends Q (pthrow e) s"
  by (rule endsI) auto

lemma ends_if: "(b \<Longrightarrow> ends Q m s) \<Longrightarrow> (\<not> b \<Longrightarrow> ends Q m' s) \<Longrightarrow> ends Q (if b then m else m') s"
  by simp

lemma ends_bind:
  assumes m: "ends P m s" and f: "\<And>x t. step s t \<Longrightarrow> P x t \<Longrightarrow> ends Q (f x) t"
  shows "ends Q (pbind m f) s"
  using m
proof (cases rule: endsE)
  case (failed e t)
  then show ?thesis by (intro endsI [of _ _ "Inl e" t]) (simp_all add: pbind_def)
next
  case (got x t)
  from f [OF got(2,3)] show ?thesis
  proof (cases rule: endsE)
    case (failed e u)
    then show ?thesis
      using got fails_earlier [OF got(2)] by (intro endsI [of _ _ "Inl e" u]) (simp_all add: pbind_def)
  next
    case last: (got y u)
    then show ?thesis
      using got step_trans [OF got(2)] by (intro endsI [of _ _ "Inr y" u]) (simp_all add: pbind_def)
  qed
qed

lemma ends_weaken: "ends P m s \<Longrightarrow> (\<And>x t. step s t \<Longrightarrow> P x t \<Longrightarrow> Q x t) \<Longrightarrow> ends Q m s"
  unfolding ends_def by (fastforce split: sum.splits)

lemma ends_bind_good:
  assumes "ends P m s" "\<And>x t. good t \<Longrightarrow> P x t \<Longrightarrow> ends Q (f x) t"
  shows "ends Q (pbind m f) s"
  by (rule ends_bind [OF assms(1)]) (auto intro: assms(2) step_good)

text \<open>A loop ends when every round that goes on decreases a measure of its index and the state.\<close>

lemma ends_loop:
  fixes measured :: "'i \<Rightarrow> 's \<Rightarrow> nat"
  assumes body: "\<And>i t. good t \<Longrightarrow> step s t \<Longrightarrow> I i t \<Longrightarrow>
      ends (\<lambda>r u. case r of Inl j \<Rightarrow> I j u \<and> measured j u < measured i t | Inr x \<Rightarrow> Q x u) (body i) t"
    and s: "good s" and init: "I i s"
  shows "ends Q (ploop body i) s"
proof -
  have "ends Q (ploop body i) t" if "good t" "step s t" "I i t" for i t
    using that
  proof (induction "measured i t" arbitrary: i t rule: less_induct)
    case less
    from body [OF less.prems] show ?case
    proof (cases rule: endsE)
      case (failed e u)
      then show ?thesis by (intro endsI [of _ _ "Inl e" u]) (subst ploop.simps, simp_all)
    next
      case (got y u)
      show ?thesis
      proof (cases y)
        case (Inl j)
        then have j: "I j u" "measured j u < measured i t" using got(3) by simp_all
        have again: "ploop body i t = ploop body j u" using got(1) Inl by (subst ploop.simps) simp
        have "ends Q (ploop body j) u"
          by (rule less.hyps [OF j(2) step_good [OF got(2)] step_trans [OF less.prems(2) got(2)] j(1)])
        then show ?thesis
        proof (cases rule: endsE)
          case (failed e v)
          then show ?thesis
            using again fails_earlier [OF got(2)] by (intro endsI [of _ _ "Inl e" v]) simp_all
        next
          case last: (got x v)
          then show ?thesis
            using again step_trans [OF got(2)] by (intro endsI [of _ _ "Inr x" v]) simp_all
        qed
      next
        case (Inr x)
        then show ?thesis using got by (intro endsI [of _ _ "Inr x" u]) (subst ploop.simps, simp_all)
      qed
    qed
  qed
  then show ?thesis using s init step_refl by blast
qed

lemma ends_for:
  assumes "good s" and "\<And>x t. x \<in> set xs \<Longrightarrow> good t \<Longrightarrow> step s t \<Longrightarrow> ends (\<lambda>_ _. True) (f x) t"
  shows "ends (\<lambda>_ _. True) (pfor xs f) s"
  using assms
proof (induction xs arbitrary: s)
  case (Cons x xs)
  show ?case unfolding pfor.simps
  proof (rule ends_bind [OF Cons.prems(2)])
    fix y t assume t: "step s t"
    show "ends (\<lambda>_ _. True) (pfor xs f) t"
      by (rule Cons.IH [OF step_good [OF t]]) (auto intro: Cons.prems(2) step_trans [OF t])
  qed (use Cons.prems(1) step_refl in simp_all)
qed (simp add: ends_ret)

end

end
