(* ===== verification/DrawProcs.thy ===== *)
theory DrawProcs
  imports Special DrawFacts Outcomes
begin

text \<open>
  Draws that loop: procedures on a state of the caller beside a test case. Every draw that
  succeeds records a choice, and the number of choices of a stream is bounded, so a loop that
  draws in every round ends. The contract of these procedures interprets \<open>outcomes\<close>.
\<close>

section \<open>Procedures on a test case\<close>

type_synonym ('g, 'r, 'a) drawing = "('g \<times> 'r test_case, engine_error, 'a) proc"

text \<open>A draw inside a procedure, a span around one, and the caller's own state.\<close>

definition on_case :: "('r, 'a) draw \<Rightarrow> ('g, 'r, 'a) drawing" where
  "on_case m s = (case m (snd s) of (r, tc) \<Rightarrow> Some (r, (fst s, tc)))"

definition pspanned :: "u64 \<Rightarrow> ('g, 'r, 'a) drawing \<Rightarrow> ('g, 'r, 'a) drawing" where
  "pspanned label m s =
     map_option (\<lambda>(r, t). (r, (fst t, stop_span False (snd t))))
       (m (fst s, snd (start_span label (snd s))))"

definition get_own :: "('g, 'r, 'g) drawing" where
  "get_own s = Some (Inr (fst s), s)"

definition set_own :: "('g \<Rightarrow> 'g) \<Rightarrow> ('g, 'r, unit) drawing" where
  "set_own f s = Some (Inr (), (f (fst s), snd s))"

text \<open>\<open>many_more\<close> on a collection state that the procedure holds in a local variable.\<close>

definition more ::
  "(f64 \<Rightarrow> f64) \<Rightarrow> 'r sampling \<Rightarrow> many_state \<Rightarrow> ('g, 'r, bool \<times> many_state) drawing" where
  "more lc S st s =
     (case many_more lc S (st, snd s) of
        (r, (st, tc)) \<Rightarrow> Some (map_sum id (\<lambda>b. (b, st)) r, (fst s, tc)))"

text \<open>\<open>ntc.conclude(Status::Invalid, None); return Err(EngineError::InvalidTestCase)\<close>.\<close>

definition mark_invalid :: "('g, 'r, 'a) drawing" where
  "mark_invalid s = Some (Inl InvalidTestCase, (fst s, conclude Invalid None (snd s)))"

definition pinternal :: "'a internal_result \<Rightarrow> ('g, 'r, 'a) drawing" where
  "pinternal r = on_case (internally r)"

section \<open>The choices left\<close>

definition budget :: "'r test_case \<Rightarrow> nat" where
  "budget tc = tc_max_size tc - length (tc_nodes tc)"

definition keeps_budget :: "'r test_case \<Rightarrow> 'r test_case \<Rightarrow> bool" where
  "keeps_budget tc t \<longleftrightarrow> tc_max_size t = tc_max_size tc \<and> tc_nodes t = tc_nodes tc"

text \<open>An operation that records at least one choice when it succeeds.\<close>

definition spends :: "('r, 'a) draw \<Rightarrow> bool" where
  "spends m \<longleftrightarrow> (\<forall>tc r t. m tc = (r, t) \<longrightarrow>
     tc_max_size t = tc_max_size tc \<and> budget t \<le> budget tc \<and> (\<forall>x. r = Inr x \<longrightarrow> budget t < budget tc))"

lemma keeps_refl [simp]: "keeps_budget tc tc"
  by (simp add: keeps_budget_def)

lemma keeps_conclude [simp]: "keeps_budget tc (conclude s og t) = keeps_budget tc t"
  by (simp add: keeps_budget_def)

lemma keeps_pre_choice: "pre_choice tc = (r, t) \<Longrightarrow> keeps_budget tc t"
  by (auto simp: pre_choice_def keeps_budget_def Let_def split: option.splits if_splits prod.splits)

lemma keeps_internally [simp]: "internally v tc = (r, t) \<Longrightarrow> t = tc"
  by (auto simp: lift_result_def split: sum.splits)

definition keeps :: "('r, 'a) draw \<Rightarrow> bool" where
  "keeps m \<longleftrightarrow> (\<forall>tc r t. m tc = (r, t) \<longrightarrow> keeps_budget tc t)"

lemma keeps_ebind:
  assumes "keeps m" "\<And>x. keeps (f x)"
  shows "keeps (ebind m f)"
proof -
  have "keeps_budget tc t" if run: "ebind m f tc = (r, t)" for tc r t
  proof -
    obtain r1 t1 where r1: "m tc = (r1, t1)" by fastforce
    have "keeps_budget tc t1" using assms(1) r1 unfolding keeps_def by blast
    moreover have "keeps_budget t1 t"
    proof (cases r1)
      case (Inl e)
      then show ?thesis using run r1 by (simp add: ebind_def)
    next
      case (Inr x)
      then have "f x t1 = (r, t)" using run r1 by (simp add: ebind_def)
      then show ?thesis using assms(2) unfolding keeps_def by blast
    qed
    ultimately show ?thesis by (simp add: keeps_budget_def)
  qed
  then show ?thesis unfolding keeps_def by blast
qed

lemma keeps_simple:
  "keeps (ret x)" "keeps (throw e)" "keeps get_state" "keeps (internally v)"
  "(\<And>tc. keeps_budget tc (f tc)) \<Longrightarrow> keeps (modify f)"
  by (auto simp: keeps_def dest: keeps_internally)

lemma keeps_from_rng: "keeps (from_rng random)"
  by (auto simp: keeps_def from_rng_def keeps_budget_def split: option.splits prod.splits dest!: keeps_internally)

lemma keeps_from_template: "keeps (from_template tpl s)"
  unfolding from_template_def
  by (auto intro!: keeps_ebind keeps_simple simp: keeps_budget_def)

lemma keeps_resolve:
  assumes m: "resolve_choice lc s u from_prefix random tc = (r, t)"
  shows "keeps_budget tc t" "r = Inr x \<Longrightarrow> length (tc_nodes t) < tc_max_size t"
proof -
  obtain r1 t1 where pre: "pre_choice tc = (r1, t1)" by fastforce
  have k: "keeps_budget tc t1" using keeps_pre_choice [OF pre] .
  let ?rest = "ebind get_state (\<lambda>tc. let idx = length (tc_nodes tc)
     in if idx < length (tc_prefix tc)
        then case from_prefix (tc_prefix tc ! idx) of
               Some v \<Rightarrow> ret (v, False)
             | None \<Rightarrow> ebind (internally (punned lc s u (tc_prefix tc ! idx) (prefix_node_at tc idx))) (\<lambda>v. ret (v, False))
        else case tc_template tc of
               Some template \<Rightarrow> ebind (from_template template s) (\<lambda>v. ret (v, False))
             | None \<Rightarrow> ebind (from_rng random) (\<lambda>v. ret (v, False)))"
  have rest: "keeps ?rest"
    by (intro keeps_ebind keeps_simple)
       (auto simp: Let_def split: option.split intro!: keeps_ebind keeps_simple keeps_from_template keeps_from_rng)
  have "keeps_budget t1 t \<and> (r = Inr x \<longrightarrow> length (tc_nodes t1) < tc_max_size t1)"
  proof (cases r1)
    case (Inl e)
    then show ?thesis using m pre by (auto simp: resolve_choice_def ebind_def)
  next
    case (Inr y)
    note room = pre_choice_room(1) [OF pre [unfolded Inr [simplified]]]
    have "?rest t1 = (r, t)" using m pre Inr unfolding resolve_choice_def by (simp add: ebind_def)
    then show ?thesis using rest room unfolding keeps_def by blast
  qed
  then show "keeps_budget tc t" "r = Inr x \<Longrightarrow> length (tc_nodes t) < tc_max_size t"
    using k by (auto simp: keeps_budget_def)
qed

lemma record_spends:
  assumes "record_choice n ob tc = (r, t)"
  shows "tc_max_size t = tc_max_size tc" "length (tc_nodes t) = Suc (length (tc_nodes tc))"
  using assms by (auto simp: record_choice_def push_node_def)

lemma spends_resolved:
  assumes "\<And>r. \<exists>n ob. f r = ebind (record_choice n ob) (\<lambda>_. ret (g r))"
  shows "spends (ebind (resolve_choice lc s u from_prefix random) f)"
proof -
  have "tc_max_size t = tc_max_size tc \<and> budget t \<le> budget tc \<and> (\<forall>x. r = Inr x \<longrightarrow> budget t < budget tc)"
    if m: "ebind (resolve_choice lc s u from_prefix random) f tc = (r, t)" for tc r t
  proof -
    obtain r1 t1 where r1: "resolve_choice lc s u from_prefix random tc = (r1, t1)" by fastforce
    note k = keeps_resolve [OF r1]
    show ?thesis
    proof (cases r1)
      case (Inl e)
      then show ?thesis using m r1 k(1) by (auto simp: ebind_def keeps_budget_def budget_def)
    next
      case (Inr x)
      obtain n ob where f: "f x = ebind (record_choice n ob) (\<lambda>_. ret (g x))" using assms by blast
      have "t = push_node n (notify ob t1)" using m r1 Inr f by (simp add: ebind_def record_choice_def)
      then show ?thesis using k(1) k(2) [OF Inr] by (auto simp: keeps_budget_def budget_def push_node_def)
    qed
  qed
  then show ?thesis unfolding spends_def by blast
qed

lemma spends_asserted: "spends m \<Longrightarrow> spends (ebind (internally (hegel_internal_assert b msg)) (\<lambda>_. m))"
  by (auto simp: spends_def ebind_def hegel_internal_assert_def)

lemma spends_state: "(\<And>tc. spends (f tc)) \<Longrightarrow> spends (ebind get_state f)"
  by (simp add: spends_def ebind_def)

lemma spends_then:
  assumes "spends m" "\<And>x tc r t. f x tc = (r, t) \<Longrightarrow> t = tc"
  shows "spends (ebind m f)"
proof -
  have "tc_max_size t = tc_max_size tc \<and> budget t \<le> budget tc \<and> (\<forall>x. r = Inr x \<longrightarrow> budget t < budget tc)"
    if run: "ebind m f tc = (r, t)" for tc r t
  proof -
    obtain r1 t1 where r1: "m tc = (r1, t1)" by fastforce
    have s: "tc_max_size t1 = tc_max_size tc \<and> budget t1 \<le> budget tc \<and> (\<forall>x. r1 = Inr x \<longrightarrow> budget t1 < budget tc)"
      using assms(1) r1 unfolding spends_def by blast
    show ?thesis
    proof (cases r1)
      case (Inl e)
      then show ?thesis using run r1 s by (auto simp: ebind_def)
    next
      case (Inr x)
      then have "f x t1 = (r, t)" using run r1 by (simp add: ebind_def)
      from assms(2) [OF this] show ?thesis using s Inr by simp
    qed
  qed
  then show ?thesis unfolding spends_def by blast
qed

lemma spends_draw_integer: "spends (draw_integer lc S fits lo hi)"
  unfolding draw_integer_def draw_integer_from_def
  by (intro spends_asserted spends_state spends_then spends_resolved) (auto dest: keeps_internally)

lemma spends_draw_string: "spends (draw_string lc S ivs lo hi)"
  unfolding draw_string_def Let_def
  by (intro spends_asserted spends_resolved) auto

lemma spends_weighted_with: "spends (weighted_with lc p forced sample)"
proof -
  have "spends (ebind (ebind pre_choice (\<lambda>_. ret (b, True))) (\<lambda>r.
      ebind (record_choice (n r) (ob r)) (\<lambda>_. ret (fst r))))" for b :: bool and n ob
  proof -
    have "tc_max_size t = tc_max_size tc \<and> budget t \<le> budget tc \<and> (\<forall>x. r = Inr x \<longrightarrow> budget t < budget tc)"
      if m: "ebind (ebind pre_choice (\<lambda>_. ret (b, True))) (\<lambda>r. ebind (record_choice (n r) (ob r)) (\<lambda>_. ret (fst r))) tc = (r, t)"
      for tc r t
    proof -
      obtain r1 t1 where pre: "pre_choice tc = (r1, t1)" by fastforce
      note k = keeps_pre_choice [OF pre]
      show ?thesis
      proof (cases r1)
        case (Inl e)
        then show ?thesis using m pre k by (auto simp: ebind_def keeps_budget_def budget_def)
      next
        case (Inr y)
        note room = pre_choice_room(1) [OF pre [unfolded Inr [simplified]]]
        show ?thesis
          using m pre Inr k room by (auto simp: ebind_def keeps_budget_def budget_def record_choice_def push_node_def)
      qed
    qed
    then show ?thesis unfolding spends_def by blast
  qed
  then show ?thesis
    unfolding weighted_with_def Let_def
    by (auto split: option.split intro!: spends_resolved)
qed

lemma spends_weighted: "spends (weighted lc S p forced)"
  unfolding weighted_def by (rule spends_weighted_with)

lemma good_unwrapped: "conv v = Some w \<Longrightarrow> good_draw lc (unwrapped conv v) (\<lambda>x. x = w)"
  by (simp add: good_draw_def unwrapped_def)

text \<open>Strings over a well-formed alphabet without surrogates.\<close>

definition strings_total :: "'r sampling \<Rightarrow> bool" where
  "strings_total S \<longleftrightarrow> (\<forall>k rng. string_wf k \<longrightarrow> (\<exists>v rng'. biased_string_sample S k rng = (Inr v, rng')))"

lemma printable_chars: "printable ivs \<Longrightarrow> c \<in> members (intervals ivs) \<Longrightarrow> c \<le> 0x10FFFF \<Longrightarrow> is_char c"
  by (force simp: printable_def is_char_def)

lemma good_draw_string:
  assumes S: "sampling_sound S" "strings_total S" and ivs: "iv_wf ivs" "printable ivs"
    and size: "lo \<le> hi" "hi < 2 ^ 32" "intervals ivs \<noteq> [] \<or> hi = 0"
  shows "good_draw lc (draw_string lc S ivs lo hi)
     (\<lambda>s. lo \<le> length s \<and> length s \<le> hi \<and> set s \<subseteq> members (intervals ivs))"
proof -
  have ok: "ivs_ok (intervals ivs)" "iv_size ivs = length (elements (intervals ivs))" "tables_ok ivs"
    using ivs by (simp_all add: iv_wf_def tables_ok_def)
  have "elements (intervals ivs) \<noteq> [] \<or> hi = 0"
    using ok(1) size(3) by (cases "intervals ivs") (auto simp: ivs_ok_def elements_def)
  then have pos: "iv_size ivs \<noteq> 0 \<or> hi = 0" using ok(2) by simp
  let ?k = "\<lparr>sc_intervals = ivs, sc_min_size = lo, sc_max_size = hi\<rparr>"
  have wf: "string_wf ?k" by (rule string_wf_request) (use size pos ivs in simp_all)
  obtain s where s: "string_simplest ?k = Inr s" "string_validate ?k s" using string_simplest_valid [OF wf] by blast
  obtain u where u: "string_unit ?k = Inr u" "string_validate ?k u" using string_unit_valid [OF wf] by blast
  have chars: "codepoints_to_string v = v" "set v \<subseteq> members (intervals ivs)" "lo \<le> length v" "length v \<le> hi"
    if v: "string_validate ?k v" for v
  proof -
    have m: "c \<in> members (intervals ivs)" if "c \<in> set v" for c
      using v that contains_members [OF ok(3)] by (auto simp: string_validate_def list_all_iff)
    have "is_char c" if "c \<in> set v" for c
      using printable_chars [OF ivs(2) m [OF that]] m [OF that] ok(1) by (force simp: members_def ivs_ok_def)
    then show "codepoints_to_string v = v" by (simp add: codepoints_to_string_def)
    show "set v \<subseteq> members (intervals ivs)" using m by blast
    show "lo \<le> length v" "length v \<le> hi" using v by (simp_all add: string_validate_def)
  qed
  have resolve: "good_draw lc (resolve_choice lc (string_simplest ?k) (string_unit ?k)
      (\<lambda>v. case v of VString s \<Rightarrow> if string_validate ?k s then Some s else None | _ \<Rightarrow> None)
      (biased_string_sample S ?k)) (\<lambda>r. string_validate ?k (fst r))"
    unfolding s(1) u(1)
  proof (rule good_weaken [OF good_resolve])
    show "\<exists>v rng'. biased_string_sample S ?k rng = (Inr v, rng')" for rng
      using S(2) wf by (auto simp: strings_total_def)
    fix r assume "snd r = False \<and> resolves_to (Inr s) (Inr u)
        (\<lambda>v. case v of VString s \<Rightarrow> if string_validate ?k s then Some s else None | _ \<Rightarrow> None)
        (biased_string_sample S ?k) (fst r)"
    then show "string_validate ?k (fst r)"
      using s(2) u(2) sampling_soundD(4) [OF S(1) wf]
      by (auto simp: resolves_to_def split: choice_value.splits if_splits)
  qed
  show ?thesis
    unfolding draw_string_def Let_def
    by (intro good_assert good_ebind [OF resolve] good_ebind [OF good_record] good_ret)
       (use size pos chars in auto)
qed

section \<open>The contract\<close>

definition drawing_good :: "(f64 \<Rightarrow> f64) \<Rightarrow> 'g \<times> 'r test_case \<Rightarrow> bool" where
  "drawing_good lc s \<longleftrightarrow> sourced lc (snd s)"

definition drawing_step :: "(f64 \<Rightarrow> f64) \<Rightarrow> 'g \<times> 'r test_case \<Rightarrow> 'g \<times> 'r test_case \<Rightarrow> bool" where
  "drawing_step lc s t \<longleftrightarrow> sourced lc (snd t) \<and> tc_max_size (snd t) = tc_max_size (snd s)
     \<and> budget (snd t) \<le> budget (snd s)"

interpretation drawing: outcomes "drawing_good lc" "drawing_step lc" "\<lambda>_. ends_draw" for lc
  by unfold_locales (auto simp: drawing_good_def drawing_step_def)

abbreviation draws ::
  "(f64 \<Rightarrow> f64) \<Rightarrow> ('a \<Rightarrow> 'g \<times> 'r test_case \<Rightarrow> bool) \<Rightarrow> ('g, 'r, 'a) drawing \<Rightarrow> 'g \<times> 'r test_case \<Rightarrow> bool" where
  "draws \<equiv> drawing.ends"

lemma step_budget: "drawing_step lc s t \<Longrightarrow> budget (snd t) \<le> budget (snd s)"
  by (simp add: drawing_step_def)

lemma step_sourced: "drawing_step lc s t \<Longrightarrow> drawing_good lc t"
  by (rule drawing.step_good)

text \<open>A draw keeps the caller's state and, when it succeeds, spends a choice.\<close>

lemma draws_on_case:
  assumes m: "good_draw lc m Q" "spends m" and s: "drawing_good lc s"
  shows "draws lc (\<lambda>x t. Q x \<and> fst t = fst s \<and> budget (snd t) < budget (snd s)) (on_case m) s"
proof -
  obtain r tc where r: "m (snd s) = (r, tc)" by fastforce
  have "sourced lc (snd s)" using s by (simp add: drawing_good_def)
  then have g: "sourced lc tc \<and> (case r of Inr x \<Rightarrow> Q x | Inl e \<Rightarrow> ends_draw e)"
    using m(1) r unfolding good_draw_def by blast
  have "tc_max_size tc = tc_max_size (snd s) \<and> budget tc \<le> budget (snd s) \<and> (\<forall>x. r = Inr x \<longrightarrow> budget tc < budget (snd s))"
    using m(2) r unfolding spends_def by blast
  then show ?thesis
    using g r by (intro drawing.endsI [of _ _ r "(fst s, tc)"]) (auto simp: on_case_def drawing_step_def)
qed

lemma draws_integer:
  assumes "sampling_sound S" "integers_total S" "lo \<le> hi" "drawing_good lc s"
  shows "draws lc (\<lambda>v t. (lo \<le> v \<and> v \<le> hi) \<and> fst t = fst s \<and> budget (snd t) < budget (snd s))
     (on_case (draw_integer lc S (\<lambda>_. True) lo hi)) s"
  by (rule draws_on_case [OF good_draw_integer [OF assms(1-3)] spends_draw_integer assms(4)])

lemma draws_weighted:
  "drawing_good lc s \<Longrightarrow>
     draws lc (\<lambda>b t. ((\<forall>v. forced = Some v \<longrightarrow> b = v) \<and> (forced = None \<longrightarrow> f64_le p f64_zero \<longrightarrow> \<not> b))
       \<and> fst t = fst s \<and> budget (snd t) < budget (snd s)) (on_case (weighted lc S p forced)) s"
  by (rule draws_on_case [OF good_weighted spends_weighted])

lemma draws_pure: "drawing_good lc s \<Longrightarrow> v = Inr x \<Longrightarrow> draws lc (\<lambda>y t. y = x \<and> t = s) (pinternal v) s"
  by (rule drawing.endsI) (auto simp: pinternal_def on_case_def drawing.step_refl)

lemma draws_mark_invalid: "draws lc Q mark_invalid s"
  by (rule drawing.endsI) (auto simp: mark_invalid_def ends_draw_def)

lemma draws_get_own: "drawing_good lc s \<Longrightarrow> draws lc Q (f (fst s)) s \<Longrightarrow> draws lc Q (pbind get_own f) s"
  by (rule drawing.ends_bind [of _ "\<lambda>x t. x = fst s \<and> t = s"])
     (auto simp: get_own_def intro!: drawing.endsI drawing.step_refl)

lemma draws_set_own:
  "drawing_good lc s \<Longrightarrow> draws lc (\<lambda>_ t. fst t = f (fst s) \<and> snd t = snd s) (set_own f) s"
  by (rule drawing.endsI) (auto simp: set_own_def drawing_good_def drawing_step_def)

lemma draws_spanned:
  assumes m: "\<And>t. drawing_good lc t \<Longrightarrow> fst t = fst s \<Longrightarrow> budget (snd t) = budget (snd s) \<Longrightarrow> draws lc (\<lambda>x t. Q x) m t"
    and s: "drawing_good lc s"
  shows "draws lc (\<lambda>x t. Q x) (pspanned label m) s"
proof -
  let ?t = "(fst s, snd (start_span label (snd s)))"
  have f: "tc_nodes (snd ?t) = tc_nodes (snd s)" "tc_max_size (snd ?t) = tc_max_size (snd s)"
    using start_span_fields(1,2) [of label "snd s"] by (metis prod.collapse snd_conv)+
  have "drawing_good lc ?t" using s by (simp add: drawing_good_def)
  moreover have b: "budget (snd ?t) = budget (snd s)" using f by (simp add: budget_def)
  ultimately have "draws lc (\<lambda>x t. Q x) m ?t" using m [of ?t] by simp
  then show ?thesis
  proof (cases rule: drawing.endsE)
    case (failed e t)
    then show ?thesis by (intro drawing.endsI [of _ _ "Inl e"]) (auto simp: pspanned_def)
  next
    case (got x t)
    have "budget (stop_span False (snd t)) = budget (snd t)" by (simp add: budget_def)
    then show ?thesis using got b f(2)
      by (intro drawing.endsI [of _ _ "Inr x" "(fst t, stop_span False (snd t))"]) (auto simp: pspanned_def drawing_step_def)
  qed
qed

section \<open>Collections\<close>

text \<open>
  A collection whose bounds coincide draws nothing, but counts; any other draws a choice for
  each element. So the rounds of a collection loop are bounded either way.
\<close>

definition many_fixed :: "many_state \<Rightarrow> bool" where
  "many_fixed st \<longleftrightarrow> f64_eq (usize_as_f64 (many_min_size st)) (many_max_size st)"

definition many_left :: "many_state \<Rightarrow> 'g \<times> 'r test_case \<Rightarrow> nat" where
  "many_left st s = (if many_fixed st then many_min_size st - many_count st else budget (snd s))"

definition same_many :: "many_state \<Rightarrow> many_state \<Rightarrow> bool" where
  "same_many st st' \<longleftrightarrow> many_min_size st' = many_min_size st \<and> many_max_size st' = many_max_size st
     \<and> many_fixed st' = many_fixed st \<and> many_force_stop st' = many_force_stop st"

definition advanced :: "many_state \<Rightarrow> 'g \<times> 'r test_case \<Rightarrow> bool \<times> many_state \<Rightarrow> 'g \<times> 'r test_case \<Rightarrow> bool" where
  "advanced st s r t \<longleftrightarrow> same_many st (snd r) \<and> fst t = fst s
     \<and> many_count (snd r) = many_count st + (if fst r then 1 else 0)
     \<and> (fst r \<longrightarrow> (if many_fixed st then many_count st < many_min_size st else budget (snd t) < budget (snd s)))
     \<and> (\<not> fst r \<longrightarrow> \<not> many_force_stop st \<longrightarrow> many_min_size st \<le> many_count st)"

lemma advanced_left:
  assumes "advanced st s (True, st') t" "drawing_step lc t u"
  shows "many_left st' u < many_left st s"
  using assms by (auto simp: advanced_def same_many_def many_left_def drawing_step_def split: if_splits)

lemma many_more_run:
  "many_more lc S (st, tc) =
     (case (if many_fixed st then (Inr (many_count st < many_min_size st), tc)
            else weighted lc S (many_p_continue st) (many_forced st) tc) of
        (Inl e, tc) \<Rightarrow> (Inl e, (st, tc))
      | (Inr b, tc) \<Rightarrow> (Inr b, (if b then st\<lparr>many_count := many_count st + 1\<rparr> else st, tc)))"
  by (auto simp: many_more_def ebind_def Let_def many_fixed_def with_case_def split: sum.splits prod.splits)

lemma draws_more:
  assumes s: "drawing_good lc s"
  shows "draws lc (advanced st s) (more lc S st) s"
proof (cases "many_fixed st")
  case True
  then show ?thesis using s
    by (intro drawing.endsI [of _ _ "Inr (many_count st < many_min_size st,
          if many_count st < many_min_size st then st\<lparr>many_count := many_count st + 1\<rparr> else st)" s])
       (auto simp: more_def many_more_run advanced_def same_many_def many_fixed_def drawing.step_refl)
next
  case False
  have "draws lc (\<lambda>b t. ((\<forall>v. many_forced st = Some v \<longrightarrow> b = v) \<and> (many_forced st = None \<longrightarrow> f64_le (many_p_continue st) f64_zero \<longrightarrow> \<not> b))
       \<and> fst t = fst s \<and> budget (snd t) < budget (snd s)) (on_case (weighted lc S (many_p_continue st) (many_forced st))) s"
    by (rule draws_weighted [OF s])
  then show ?thesis
  proof (cases rule: drawing.endsE)
    case (failed e t)
    then show ?thesis using False
      by (intro drawing.endsI [of _ _ "Inl e" t]) (auto simp: more_def many_more_run on_case_def split: prod.splits)
  next
    case (got b t)
    have "many_min_size st \<le> many_count st" if "\<not> b" "\<not> many_force_stop st"
      using got(3) that by (auto simp: many_forced_def split: if_splits)
    then show ?thesis using False got
      by (intro drawing.endsI [of _ _ "Inr (b, if b then st\<lparr>many_count := many_count st + 1\<rparr> else st)" t])
         (auto simp: more_def many_more_run on_case_def advanced_def same_many_def many_fixed_def split: prod.splits)
  qed
qed

text \<open>\<open>while many_more(ntc, &mut ms)? { body }\<close>, the body on a local value.\<close>

definition many_loop ::
  "(f64 \<Rightarrow> f64) \<Rightarrow> 'r sampling \<Rightarrow> many_state \<Rightarrow> ('v \<Rightarrow> ('g, 'r, 'v) drawing) \<Rightarrow> 'v \<Rightarrow> ('g, 'r, 'v) drawing" where
  "many_loop lc S st body v =
     ploop (\<lambda>(st, v). pbind (more lc S st) (\<lambda>(again, st).
       if \<not> again then pret (Inr v) else pbind (body v) (\<lambda>v. pret (Inl (st, v))))) (st, v)"

lemma draws_many_loop:
  fixes v :: 'v
  assumes body: "\<And>v t. drawing_good lc t \<Longrightarrow> drawing_step lc s t \<Longrightarrow> I v t \<Longrightarrow> draws lc I (body v) t"
    and keep: "\<And>v t u. I v t \<Longrightarrow> fst u = fst t \<Longrightarrow> drawing_step lc t u \<Longrightarrow> I v u"
    and s: "drawing_good lc s" and init: "I v s"
  shows "draws lc I (many_loop lc S st body v) s"
  unfolding many_loop_def
proof (rule drawing.ends_loop [where I = "\<lambda>p t. I (snd p) t" and measured = "\<lambda>p t. many_left (fst p) t"])
  fix p :: "many_state \<times> 'v" and t
  assume t: "drawing_good lc t" and st: "drawing_step lc s t" and Iv: "I (snd p) t"
  obtain st' w where p: "p = (st', w)" by (cases p)
  show "draws lc (\<lambda>r u. case r of Inl j \<Rightarrow> I (snd j) u \<and> many_left (fst j) u < many_left (fst p) t | Inr x \<Rightarrow> I x u)
      ((\<lambda>(st, v). pbind (more lc S st) (\<lambda>(again, st).
       if \<not> again then pret (Inr v) else pbind (body v) (\<lambda>v. pret (Inl (st, v))))) p) t"
    unfolding p prod.case
  proof (rule drawing.ends_bind [OF draws_more [OF t]])
    fix q u
    assume u: "drawing_step lc t u" and adv: "advanced st' t q u"
    obtain again st'' where q: "q = (again, st'')" by (cases q)
    have ok: "drawing_good lc u" using u by (rule step_sourced)
    have Iu: "I w u" using keep [of w t u] Iv p adv u by (simp add: advanced_def)
    show "draws lc (\<lambda>r u. case r of Inl j \<Rightarrow> I (snd j) u \<and> many_left (fst j) u < many_left (fst (st', w)) t | Inr x \<Rightarrow> I x u)
       (case q of (again, st) \<Rightarrow> if \<not> again then pret (Inr w) else pbind (body w) (\<lambda>v. pret (Inl (st, v)))) u"
      unfolding q prod.case
    proof (rule drawing.ends_if)
      show "draws lc (\<lambda>r u. case r of Inl j \<Rightarrow> I (snd j) u \<and> many_left (fst j) u < many_left (fst (st', w)) t | Inr x \<Rightarrow> I x u)
          (pret (Inr w)) u" using Iu by (intro drawing.ends_ret ok) simp
    next
      assume "\<not> \<not> again"
      then have a: "advanced st' t (True, st'') u" using adv q by simp
      have "draws lc I (body w) u" by (rule body [OF ok drawing.step_trans [OF st u] Iu])
      then show "draws lc (\<lambda>r u. case r of Inl j \<Rightarrow> I (snd j) u \<and> many_left (fst j) u < many_left (fst (st', w)) t | Inr x \<Rightarrow> I x u)
          (pbind (body w) (\<lambda>v. pret (Inl (st'', v)))) u"
        by (rule drawing.ends_bind) (use advanced_left [OF a] in \<open>auto intro!: drawing.ends_ret step_sourced\<close>)
    qed
  qed
qed (use s init in simp_all)

end
