(* ===== verification/Calendar.thy ===== *)
theory Calendar
  imports Special DrawProcs MachineRuns
begin

text \<open>
  The calendar arithmetic of \<open>Special.thy\<close>: day numbers are a strictly monotone bijection
  between the accepted dates and an interval of integers, nanoseconds between the accepted times
  and a day; and what the date, time and datetime draws return.
\<close>

section \<open>Years\<close>

text \<open>The days before the year \<open>y\<close>, counted from March.\<close>

definition year_start :: "int \<Rightarrow> int" where
  "year_start y = 365 * y + y div 4 - y div 100 + y div 400"

lemma div_succ:
  fixes n y :: int
  assumes n: "0 < n"
  shows "(y + 1) div n = y div n + of_bool ((y + 1) mod n = 0)"
proof (cases "y mod n = n - 1")
  case True
  then have "y + 1 = n * (y div n + 1)"
    using mult_div_mod_eq [of n y] unfolding distrib_left by linarith
  then show ?thesis using n by (metis mod_mult_self1_is_0 nonzero_mult_div_cancel_left of_bool_eq_1_iff less_irrefl)
next
  case False
  let ?r = "y mod n + 1"
  have r: "0 < ?r" "?r < n" using False n pos_mod_bound [of n y] pos_mod_sign [of n y] by linarith+
  have y: "y + 1 = n * (y div n) + ?r" using mult_div_mod_eq [of n y] by simp
  have "(y + 1) div n = y div n" "(y + 1) mod n = ?r"
    by (rule int_div_pos_eq [OF y] int_mod_pos_eq [OF y]; use r in simp)+
  then show ?thesis using r by simp
qed

lemma leap_count:
  "of_bool (n mod 4 = 0) - of_bool (n mod 100 = 0) + of_bool (n mod 400 = 0) = (of_bool (is_leap n) :: int)"
proof -
  have "n mod 100 = 0 \<Longrightarrow> n mod 4 = 0" "n mod 400 = 0 \<Longrightarrow> n mod 100 = 0" by presburger+
  then show ?thesis
    by (cases "n mod 400 = 0"; cases "n mod 100 = 0"; cases "n mod 4 = 0") (simp_all only: is_leap_def, simp_all)
qed

lemma year_start_Suc: "year_start (y + 1) = year_start y + 365 + of_bool (is_leap (y + 1))"
proof -
  have "(0 :: int) < 4" "(0 :: int) < 100" "(0 :: int) < 400" by simp_all
  from this [THEN div_succ [where y = y]] show ?thesis
    using leap_count [of "y + 1"] unfolding year_start_def by algebra
qed

lemma year_start_mono: "y \<le> y' \<Longrightarrow> year_start y \<le> year_start y'"
proof (induction "nat (y' - y)" arbitrary: y')
  case (Suc n)
  then have "year_start y \<le> year_start (y' - 1)" by (intro Suc.hyps(1)) auto
  then show ?case using year_start_Suc [of "y' - 1"] by (simp add: of_bool_def split: if_splits)
qed simp

lemma year_start_era: "year_start (k + 400 * era) = year_start k + 146097 * era"
proof -
  have "(k + 4 * (100 * era)) div 4 = k div 4 + 100 * era" "(k + 100 * (4 * era)) div 100 = k div 100 + 4 * era"
    "(k + 400 * era) div 400 = k div 400 + era" by (simp_all only: div_mult_self2 zero_neq_numeral not_False_eq_True add.commute)
  then show ?thesis by (simp add: year_start_def)
qed

lemma is_leap_era: "is_leap (k + 400 * era) = is_leap k"
proof -
  have "(k + 4 * (100 * era)) mod 4 = k mod 4" "(k + 100 * (4 * era)) mod 100 = k mod 100"
    "(k + 400 * era) mod 400 = k mod 400" by (simp_all only: mod_mult_self2)
  then show ?thesis by (simp add: is_leap_def)
qed

text \<open>The year of a day within an era.\<close>

definition era_guess :: "int \<Rightarrow> int" where
  "era_guess doe = doe - doe div 1460 + doe div 36524 - doe div 146096"

lemma minus_div_mono: "x \<le> y \<Longrightarrow> 0 < n \<Longrightarrow> x - x div n \<le> y - y div n" for x y n :: int
proof (induction "nat (y - x)" arbitrary: y)
  case (Suc k)
  then have "x - x div n \<le> (y - 1) - (y - 1) div n" by (intro Suc.hyps(1)) auto
  then show ?case using div_succ [of n "y - 1"] Suc.prems by (simp add: of_bool_def split: if_splits)
qed simp

lemma era_guess_mono: "x \<le> y \<Longrightarrow> era_guess x \<le> era_guess y"
proof -
  assume le: "x \<le> y"
  have split: "era_guess z = (z - z div 1460) + (z div 36524 - z div 36524 div 4)" for z
    using zdiv_zmult2_eq [of 4 z 36524] by (simp add: era_guess_def)
  show ?thesis unfolding split
    by (intro add_mono minus_div_mono zdiv_mono1 le) simp_all
qed

lemma era_guess_ends:
  "list_all (\<lambda>k. 365 * k \<le> era_guess (year_start k) \<and> era_guess (year_start (k + 1) - 1) < 365 * (k + 1)) [0..399]"
  by code_simp

lemma era_guess_year:
  assumes "0 \<le> k" "k < 400" "year_start k \<le> doe" "doe < year_start (k + 1)"
  shows "era_guess doe div 365 = k"
proof -
  have "365 * k \<le> era_guess (year_start k)" "era_guess (year_start (k + 1) - 1) < 365 * (k + 1)"
    using era_guess_ends assms(1,2) by (auto simp: list_all_iff)
  moreover have "era_guess (year_start k) \<le> era_guess doe" "era_guess doe \<le> era_guess (year_start (k + 1) - 1)"
    using assms(3,4) by (auto intro: era_guess_mono)
  ultimately show ?thesis by (intro int_div_pos_eq [of _ _ _ "era_guess doe - 365 * k"]) auto
qed

lemma year_of_day:
  assumes "0 \<le> doe" "doe < 146097"
  obtains k where "0 \<le> k" "k < 400" "year_start k \<le> doe" "doe < year_start (k + 1)"
proof -
  define k where "k = int (LEAST n. doe < year_start (int n + 1))"
  have last: "doe < year_start (int 399 + 1)" using assms(2) by (simp add: year_start_def)
  have up: "doe < year_start (k + 1)" unfolding k_def by (rule LeastI [of _ 399]) (rule last)
  have le: "k \<le> 399" unfolding k_def using Least_le [of "\<lambda>n. doe < year_start (int n + 1)", OF last] by simp
  have low: "year_start k \<le> doe"
  proof (cases "k = 0")
    case True
    then show ?thesis using assms(1) by (simp add: year_start_def)
  next
    case False
    then have "nat k - 1 < (LEAST n. doe < year_start (int n + 1))" unfolding k_def by auto
    from not_less_Least [OF this] False show ?thesis by (simp add: k_def of_nat_diff split: if_splits)
  qed
  show thesis by (rule that [OF _ _ low up]) (use le in \<open>auto simp: k_def\<close>)
qed

section \<open>Months\<close>

definition month_start :: "int \<Rightarrow> int" where "month_start mp = (153 * mp + 2) div 5"

definition march_month :: "int \<Rightarrow> int" where "march_month mp = (if mp < 10 then mp + 3 else mp - 9)"

definition month_length :: "int \<Rightarrow> int" where
  "month_length mp = (case days_in_month 0 (march_month mp) of Some n \<Rightarrow> n | None \<Rightarrow> 0)"

lemma month_of_day_table:
  "list_all (\<lambda>doy. let mp = (5 * doy + 2) div 153; day = doy - month_start mp + 1
     in 0 \<le> mp \<and> mp \<le> 11 \<and> 1 \<le> day \<and> day \<le> month_length mp \<and> (mp = 11 \<and> day = 29 \<longleftrightarrow> doy = 365)) [0..365]"
  by code_simp

lemma day_of_month_table:
  "list_all (\<lambda>mp. list_all (\<lambda>day. day \<le> month_length mp \<longrightarrow>
      (let doy = month_start mp + day - 1 in (5 * doy + 2) div 153 = mp \<and> 0 \<le> doy \<and> doy \<le> 365
         \<and> (doy = 365 \<longleftrightarrow> mp = 11 \<and> day = 29))) [1..31]) [0..11]"
  by code_simp

lemma month_start_table:
  "list_all (\<lambda>mp. month_start mp + month_length mp \<le> month_start (mp + 1) + (if mp = 11 then 1 else 0)) [0..11]"
  by code_simp

lemma month_of_day:
  assumes "0 \<le> doy" "doy \<le> 365"
  defines "mp \<equiv> (5 * doy + 2) div 153"
  shows "0 \<le> mp" "mp \<le> 11" "1 \<le> doy - month_start mp + 1" "doy - month_start mp + 1 \<le> month_length mp"
    "mp = 11 \<and> doy - month_start mp + 1 = 29 \<longleftrightarrow> doy = 365"
  using month_of_day_table assms by (simp_all add: list_all_iff Let_def)

lemma day_of_month:
  assumes "0 \<le> mp" "mp \<le> 11" "1 \<le> day" "day \<le> month_length mp"
  defines "doy \<equiv> month_start mp + day - 1"
  shows "(5 * doy + 2) div 153 = mp" "0 \<le> doy" "doy \<le> 365" "doy = 365 \<longleftrightarrow> mp = 11 \<and> day = 29"
proof -
  have "month_length mp \<le> 31"
    by (simp add: month_length_def days_in_month_def split: option.split)
  then show "(5 * doy + 2) div 153 = mp" "0 \<le> doy" "doy \<le> 365" "doy = 365 \<longleftrightarrow> mp = 11 \<and> day = 29"
    using day_of_month_table assms by (simp_all add: list_all_iff Let_def)
qed

section \<open>Day numbers\<close>

definition march_year :: "date \<Rightarrow> int" where
  "march_year d = d_year d - of_bool (d_month d \<le> 2)"

definition march_index :: "date \<Rightarrow> int" where
  "march_index d = d_month d + (if 2 < d_month d then -3 else 9)"

definition year_day :: "date \<Rightarrow> int" where
  "year_day d = month_start (march_index d) + d_day d - 1"

lemma year_start_within_era:
  "year_start y = 146097 * (y div 400) + (y mod 400 * 365 + y mod 400 div 4 - y mod 400 div 100)"
proof -
  have "year_start y = year_start (y mod 400 + 400 * (y div 400))" by simp
  also have "\<dots> = year_start (y mod 400) + 146097 * (y div 400)" by (rule year_start_era)
  also have "year_start (y mod 400) = y mod 400 * 365 + y mod 400 div 4 - y mod 400 div 100"
    by (simp add: year_start_def)
  finally show ?thesis by simp
qed

lemma days_from_civil_year:
  "days_from_civil d = year_start (march_year d) + year_day d - 719468"
proof -
  have "y - y div 400 * 400 = y mod 400" for y :: int by (simp add: minus_div_mult_eq_mod)
  then show ?thesis
    unfolding days_from_civil_def Let_def year_day_def month_start_def year_start_within_era
    by (simp add: march_year_def march_index_def)
qed

lemma civil_from_days_year:
  assumes doy: "0 \<le> doy" "year_start y + doy < year_start (y + 1)"
  defines "mp \<equiv> (5 * doy + 2) div 153"
  shows "civil_from_days (year_start y + doy - 719468) =
    \<lparr>d_year = as_i32 (y + of_bool (march_month mp \<le> 2)), d_month = march_month mp,
     d_day = doy - month_start mp + 1\<rparr>" "doy \<le> 365"
proof -
  define k era where "k = y mod 400" and "era = y div 400"
  have y: "y = k + 400 * era" and k: "0 \<le> k" "k < 400" by (auto simp: k_def era_def)
  have starts: "year_start y = year_start k + 146097 * era" "year_start (y + 1) = year_start (k + 1) + 146097 * era"
    using year_start_era [of k era] year_start_era [of "k + 1" era] by (simp_all add: y ac_simps)
  let ?doe = "year_start k + doy"
  have bounds: "year_start k \<le> ?doe" "?doe < year_start (k + 1)" using doy starts by auto
  have "year_start 0 \<le> year_start k" "year_start (k + 1) \<le> year_start 400"
    using k by (auto intro: year_start_mono)
  then have doe: "0 \<le> ?doe" "?doe < 146097"
    using doy bounds by (simp_all add: year_start_def [of 0] year_start_def [of 400])
  have z: "year_start y + doy - 719468 + 719468 = 146097 * era + ?doe" using starts by simp
  have era: "(146097 * era + ?doe) div 146097 = era" using doe by simp
  have rest: "146097 * era + ?doe - era * 146097 = ?doe" by simp
  have yoe: "(?doe - ?doe div 1460 + ?doe div 36524 - ?doe div 146096) div 365 = k"
    using era_guess_year [OF k bounds] by (simp add: era_guess_def)
  have start: "365 * k + k div 4 - k div 100 = year_start k" using k by (simp add: year_start_def)
  show le: "doy \<le> 365" using doy year_start_Suc [of y] by (auto simp: of_bool_def split: if_splits)
  note month = month_of_day [OF doy(1) le, folded mp_def]
  have "month_length mp \<le> 31"
    by (simp add: month_length_def days_in_month_def split: option.split)
  then have day: "as_u8 (doy - month_start mp + 1) = doy - month_start mp + 1"
    using month unfolding as_u8_def by (intro mod_pos_pos_trivial) auto
  have u8: "as_u8 (march_month mp) = march_month mp"
    using month by (simp add: as_u8_def march_month_def)
  show "civil_from_days (year_start y + doy - 719468) =
    \<lparr>d_year = as_i32 (y + of_bool (march_month mp \<le> 2)), d_month = march_month mp,
     d_day = doy - month_start mp + 1\<rparr>"
    unfolding civil_from_days_def Let_def z era rest yoe start add_diff_cancel_left' mp_def [symmetric]
      month_start_def [symmetric] march_month_def [symmetric] u8 day
    by (simp add: y mult.commute)
qed

section \<open>The bijection\<close>

text \<open>A date whose month and day exist, in any year.\<close>

definition date_civil :: "date \<Rightarrow> bool" where
  "date_civil d \<longleftrightarrow> 1 \<le> d_month d \<and> d_month d \<le> 12 \<and> 1 \<le> d_day d
     \<and> (case days_in_month (d_year d) (d_month d) of Some n \<Rightarrow> d_day d \<le> n | None \<Rightarrow> False)"

lemma date_valid_civil: "date_valid d \<longleftrightarrow> date_civil d \<and> MIN_YEAR \<le> d_year d \<and> d_year d \<le> MAX_YEAR"
  by (auto simp: date_valid_def date_civil_def)

lemma month_cases:
  assumes "1 \<le> m" "m \<le> 12"
  shows "m \<in> {1, 2, 3, 4, 5, 6, 7, 8, 9, 10, 11, 12 :: int}"
  using assms by (simp; presburger)

lemma month_length_year:
  assumes "0 \<le> mp" "mp \<le> 11"
  shows "days_in_month y (march_month mp) =
    Some (if mp = 11 \<and> \<not> is_leap y then 28 else month_length mp)"
proof -
  have "mp \<in> {0, 1, 2, 3, 4, 5, 6, 7, 8, 9, 10, 11}" using assms by (simp; presburger)
  moreover have "is_leap 0" by (simp add: is_leap_def)
  ultimately show ?thesis
    by (simp add: month_length_def march_month_def days_in_month_def; elim disjE; simp)
qed

lemma march_month_index:
  assumes "date_civil d"
  shows "march_month (march_index d) = d_month d" "0 \<le> march_index d" "march_index d \<le> 11"
    "d_month d \<le> 2 \<longleftrightarrow> 10 \<le> march_index d"
  using assms by (auto simp: date_civil_def march_month_def march_index_def)

lemma civil_year_day:
  assumes d: "date_civil d"
  shows "1 \<le> d_day d" "d_day d \<le> month_length (march_index d)" "0 \<le> year_day d"
    "year_start (march_year d) + year_day d < year_start (march_year d + 1)"
    "(5 * year_day d + 2) div 153 = march_index d"
proof -
  note m = march_month_index [OF d]
  show day: "1 \<le> d_day d" using d by (simp add: date_civil_def)
  have "is_leap 0" by (simp add: is_leap_def)
  then have len: "month_length 11 = 29" by (simp add: month_length_def march_month_def days_in_month_def)
  have le: "d_day d \<le> (if march_index d = 11 \<and> \<not> is_leap (d_year d) then 28 else month_length (march_index d))"
    using d month_length_year [OF m(2,3), of "d_year d"] m(1) by (simp add: date_civil_def)
  then show day': "d_day d \<le> month_length (march_index d)" using len by (auto split: if_splits)
  note yd = day_of_month [OF m(2,3) day day', folded year_day_def]
  show "0 \<le> year_day d" "(5 * year_day d + 2) div 153 = march_index d" using yd by auto
  have "year_day d \<noteq> 365" if "\<not> is_leap (march_year d + 1)"
  proof
    assume "year_day d = 365"
    then have e: "march_index d = 11" "d_day d = 29" using yd by auto
    then have "march_year d + 1 = d_year d" using m(4) by (simp add: march_year_def)
    then show False using le e that by simp
  qed
  then show "year_start (march_year d) + year_day d < year_start (march_year d + 1)"
    using yd(3) unfolding year_start_Suc by (cases "is_leap (march_year d + 1)") auto
qed

lemma as_i32_small: "- (2 ^ 31) \<le> v \<Longrightarrow> v < 2 ^ 31 \<Longrightarrow> as_i32 v = v"
  by (simp add: as_i32_def signed_of_int signed_take_bit_int_eq_self)

lemma civil_of_days:
  assumes d: "date_valid d"
  shows "civil_from_days (days_from_civil d) = d"
proof -
  have c: "date_civil d" and y: "- (2 ^ 31) \<le> d_year d" "d_year d < 2 ^ 31"
    using d by (auto simp: date_valid_civil MIN_YEAR_def MAX_YEAR_def)
  note m = march_month_index [OF c] and yd = civil_year_day [OF c]
  have "march_year d + of_bool (d_month d \<le> 2) = d_year d" by (simp add: march_year_def)
  then show ?thesis
    using civil_from_days_year(1) [OF yd(3,4)] yd(5) m as_i32_small [OF y]
    unfolding days_from_civil_year by (simp add: year_day_def)
qed

text \<open>Every day has its date.\<close>

lemma day_year:
  obtains y doy where "z = year_start y + doy - 719468" "0 \<le> doy" "year_start y + doy < year_start (y + 1)"
proof -
  let ?z = "z + 719468"
  obtain k where k: "0 \<le> k" "k < 400" "year_start k \<le> ?z mod 146097" "?z mod 146097 < year_start (k + 1)"
    by (rule year_of_day [of "?z mod 146097"]) auto
  let ?y = "k + 400 * (?z div 146097)"
  have starts: "year_start ?y = year_start k + 146097 * (?z div 146097)"
    "year_start (?y + 1) = year_start (k + 1) + 146097 * (?z div 146097)"
    using year_start_era [of k "?z div 146097"] year_start_era [of "k + 1" "?z div 146097"] by (simp_all add: ac_simps)
  have z: "146097 * (?z div 146097) + ?z mod 146097 = ?z" by (rule mult_div_mod_eq)
  show thesis
    by (rule that [of ?y "?z mod 146097 - year_start k"]) (use k starts z in linarith)+
qed

lemma civil_from_days_civil:
  assumes z: "- 366000000 \<le> z" "z \<le> 366000000"
  shows "date_civil (civil_from_days z)" "days_from_civil (civil_from_days z) = z"
proof -
  obtain y doy where zy: "z = year_start y + doy - 719468" and doy: "0 \<le> doy" "year_start y + doy < year_start (y + 1)"
    by (rule day_year)
  define mp where "mp = (5 * doy + 2) div 153"
  note c = civil_from_days_year [OF doy, folded mp_def zy]
  note month = month_of_day [OF doy(1) c(2), folded mp_def]
  have far: "year_start 1100000 = 401766750" "year_start (- 1100000) = - 401766750"
    by (simp_all add: year_start_def)
  have "y < 1100000" using year_start_mono [of 1100000 y] far(1) zy z doy by (cases "1100000 \<le> y") auto
  moreover have "- 1100000 \<le> y" using year_start_mono [of "y + 1" "- 1100000"] far(2) zy z doy by (cases "y + 1 \<le> - 1100000") auto
  ultimately have y32: "as_i32 (y + of_bool b) = y + of_bool b" for b by (intro as_i32_small) auto
  let ?d = "\<lparr>d_year = y + of_bool (march_month mp \<le> 2), d_month = march_month mp, d_day = doy - month_start mp + 1\<rparr>"
  have d: "civil_from_days z = ?d" using c(1) y32 by simp
  have mm: "1 \<le> march_month mp" "march_month mp \<le> 12" "march_month mp \<le> 2 \<longleftrightarrow> 10 \<le> mp"
    using month by (auto simp: march_month_def)
  have leap: "is_leap (y + 1)" if "doy = 365"
    using doy that unfolding year_start_Suc by (auto simp: of_bool_def split: if_splits)
  have "is_leap 0" by (simp add: is_leap_def)
  then have len: "month_length 11 = 29" by (simp add: month_length_def march_month_def days_in_month_def)
  have "doy - month_start mp + 1 \<le> 28" if "mp = 11" "\<not> is_leap (y + 1)"
    using month(4,5) leap that len by auto
  then show "date_civil (civil_from_days z)"
    using month mm month_length_year [OF month(1,2), of "y + of_bool (march_month mp \<le> 2)"]
    unfolding d by (auto simp: date_civil_def)
  have "march_index ?d = mp" using month by (auto simp: march_index_def march_month_def)
  then show "days_from_civil (civil_from_days z) = z"
    unfolding d days_from_civil_year by (simp add: zy march_year_def year_day_def)
qed

section \<open>Order\<close>

text \<open>The calendar order: by year, then month, then day.\<close>

definition date_before :: "date \<Rightarrow> date \<Rightarrow> bool" where
  "date_before a b \<longleftrightarrow> d_year a < d_year b
     \<or> (d_year a = d_year b \<and> (d_month a < d_month b \<or> (d_month a = d_month b \<and> d_day a < d_day b)))"

definition date_le :: "date \<Rightarrow> date \<Rightarrow> bool" where
  "date_le a b \<longleftrightarrow> date_before a b \<or> a = b"

lemma month_start_step:
  assumes "0 \<le> mp" "mp < mp'" "mp' \<le> 11"
  shows "month_start mp + month_length mp \<le> month_start mp'"
proof -
  have "month_start (mp + 1) \<le> month_start mp'"
    using assms unfolding month_start_def by (intro zdiv_mono1) auto
  moreover have "month_start mp + month_length mp \<le> month_start (mp + 1)"
    using month_start_table assms by (force simp: list_all_iff)
  ultimately show ?thesis by simp
qed

lemma days_strict_mono:
  assumes a: "date_civil a" and b: "date_civil b" and less: "date_before a b"
  shows "days_from_civil a < days_from_civil b"
proof -
  note ma = march_month_index [OF a] and mb = march_month_index [OF b]
  note ya = civil_year_day [OF a] and yb = civil_year_day [OF b]
  have "d_month a \<le> 12" "d_month b \<le> 12" "1 \<le> d_month a" "1 \<le> d_month b"
    using a b by (auto simp: date_civil_def)
  then have "march_year a < march_year b \<or> (march_year a = march_year b \<and>
      (march_index a < march_index b \<or> (march_index a = march_index b \<and> d_day a < d_day b)))"
    using less unfolding date_before_def march_year_def march_index_def
    by (cases "d_month a \<le> 2"; cases "d_month b \<le> 2") auto
  then consider (year) "march_year a < march_year b"
    | (month) "march_year a = march_year b" "march_index a < march_index b"
    | (day) "march_year a = march_year b" "march_index a = march_index b" "d_day a < d_day b" by blast
  then show ?thesis
  proof cases
    case year
    then have "year_start (march_year a + 1) \<le> year_start (march_year b)" by (intro year_start_mono) simp
    then show ?thesis using ya yb by (simp add: days_from_civil_year)
  next
    case month
    then show ?thesis
      using month_start_step [of "march_index a" "march_index b"] ma mb ya yb
      by (simp add: days_from_civil_year year_day_def)
  next
    case day
    then show ?thesis by (simp add: days_from_civil_year year_day_def)
  qed
qed

lemma date_total: "a = b \<or> date_before a b \<or> date_before b a"
  by (auto simp: date_before_def intro: date.equality)

lemma days_le_iff:
  assumes "date_civil a" "date_civil b"
  shows "days_from_civil a \<le> days_from_civil b \<longleftrightarrow> date_le a b"
  using days_strict_mono [OF assms] days_strict_mono [OF assms(2,1)] date_total [of a b]
  by (auto simp: date_le_def)

lemma days_inj: "date_civil a \<Longrightarrow> date_civil b \<Longrightarrow> days_from_civil a = days_from_civil b \<longleftrightarrow> a = b"
  using days_strict_mono [of a b] days_strict_mono [of b a] date_total [of a b] by auto

lemma valid_days:
  assumes "date_valid d"
  shows "- 366000000 \<le> days_from_civil d" "days_from_civil d \<le> 366000000"
proof -
  have c: "date_civil d" and y: "MIN_YEAR \<le> d_year d" "d_year d \<le> MAX_YEAR"
    using assms by (auto simp: date_valid_civil)
  note yd = civil_year_day [OF c]
  have "- 1000000 \<le> march_year d" "march_year d + 1 \<le> 1000000"
    using y by (auto simp: march_year_def MIN_YEAR_def MAX_YEAR_def)
  then have "year_start (- 1000000) \<le> year_start (march_year d)" "year_start (march_year d + 1) \<le> year_start 1000000"
    by (auto intro: year_start_mono)
  moreover have "year_start (- 1000000) = - 365242500" "year_start 1000000 = 365242500"
    by (simp_all add: year_start_def)
  ultimately show "- 366000000 \<le> days_from_civil d" "days_from_civil d \<le> 366000000"
    using yd(3,4) by (simp_all add: days_from_civil_year)
qed

lemma date_between_valid:
  assumes "date_valid lo" "date_valid hi" "date_civil d" "date_le lo d" "date_le d hi"
  shows "date_valid d"
  using assms by (auto simp: date_valid_civil date_le_def date_before_def)

lemma civil_between:
  assumes lo: "date_valid lo" and hi: "date_valid hi" and z: "days_from_civil lo \<le> z" "z \<le> days_from_civil hi"
  shows "date_valid (civil_from_days z)" "days_from_civil (civil_from_days z) = z"
proof -
  have "- 366000000 \<le> z" "z \<le> 366000000" using valid_days [OF lo] valid_days [OF hi] z by linarith+
  note c = civil_from_days_civil [OF this]
  show "days_from_civil (civil_from_days z) = z" by (rule c(2))
  have "date_civil lo" "date_civil hi" using lo hi by (simp_all add: date_valid_civil)
  then show "date_valid (civil_from_days z)"
    using date_between_valid [OF lo hi c(1)] z c days_le_iff [of lo "civil_from_days z"]
      days_le_iff [of "civil_from_days z" hi] by simp
qed

section \<open>Times\<close>

definition time_typed :: "time \<Rightarrow> bool" where
  "time_typed t \<longleftrightarrow> 0 \<le> t_hour t \<and> 0 \<le> t_minute t \<and> 0 \<le> t_second t \<and> 0 \<le> t_nanosecond t"

definition time_before :: "time \<Rightarrow> time \<Rightarrow> bool" where
  "time_before a b \<longleftrightarrow> t_hour a < t_hour b \<or> (t_hour a = t_hour b \<and>
     (t_minute a < t_minute b \<or> (t_minute a = t_minute b \<and>
     (t_second a < t_second b \<or> (t_second a = t_second b \<and> t_nanosecond a < t_nanosecond b)))))"

definition time_le :: "time \<Rightarrow> time \<Rightarrow> bool" where
  "time_le a b \<longleftrightarrow> time_before a b \<or> a = b"

lemma ns_range:
  assumes "time_typed t" "time_valid t"
  shows "0 \<le> time_to_ns t" "time_to_ns t \<le> LAST_NS_OF_DAY"
  using assms by (auto simp: time_typed_def time_valid_def time_to_ns_def LAST_NS_OF_DAY_def)

lemma ns_strict_mono:
  assumes "time_typed a" "time_valid a" "time_typed b" "time_valid b" "time_before a b"
  shows "time_to_ns a < time_to_ns b"
  using assms by (auto simp: time_typed_def time_valid_def time_to_ns_def time_before_def)

lemma time_total: "a = b \<or> time_before a b \<or> time_before b a"
  by (auto simp: time_before_def intro: time.equality)

lemma ns_le_iff:
  assumes "time_typed a" "time_valid a" "time_typed b" "time_valid b"
  shows "time_to_ns a \<le> time_to_ns b \<longleftrightarrow> time_le a b"
  using ns_strict_mono [OF assms] ns_strict_mono [OF assms(3,4,1,2)] time_total [of a b]
  by (auto simp: time_le_def)

lemma time_of_ns:
  assumes ns: "0 \<le> ns" "ns \<le> LAST_NS_OF_DAY"
  shows "time_typed (time_from_ns ns)" "time_valid (time_from_ns ns)" "time_to_ns (time_from_ns ns) = ns"
proof -
  define s n where "s = ns div 1000000000" and "n = ns mod 1000000000"
  define m c where "m = s div 60" and "c = s mod 60"
  define h k where "h = m div 60" and "k = m mod 60"
  have eqs: "ns = 1000000000 * s + n" "s = 60 * m + c" "m = 60 * h + k"
    using mult_div_mod_eq [of 1000000000 ns] mult_div_mod_eq [of 60 s] mult_div_mod_eq [of 60 m]
    by (simp_all only: s_def n_def m_def c_def h_def k_def)
  have mods: "0 \<le> n" "n < 1000000000" "0 \<le> c" "c < 60" "0 \<le> k" "k < 60"
    by (simp_all add: n_def c_def k_def)
  have h: "0 \<le> h" "h \<le> 23" using eqs mods ns unfolding LAST_NS_OF_DAY_def by linarith+
  have divs: "ns div 3600000000000 = h" "ns div 60000000000 mod 60 = k" "ns div 1000000000 mod 60 = c"
    using zdiv_zmult2_eq [of 60 ns 1000000000] zdiv_zmult2_eq [of 60 ns 60000000000]
    by (simp_all add: s_def m_def c_def h_def k_def)
  have t: "time_from_ns ns = \<lparr>t_hour = h, t_minute = k, t_second = c, t_nanosecond = n\<rparr>"
    unfolding time_from_ns_def divs n_def [symmetric] using h mods by (simp add: as_u8_def as_u32_def)
  show "time_typed (time_from_ns ns)" "time_valid (time_from_ns ns)" "time_to_ns (time_from_ns ns) = ns"
    unfolding t using h mods eqs by (simp_all add: time_typed_def time_valid_def time_to_ns_def)
qed

section \<open>Draws\<close>

lemma good_draw_i64:
  assumes S: "sampling_sound S" "integers_total S" and le: "lo \<le> hi" "- (2 ^ 63) \<le> lo" "hi < 2 ^ 63"
  shows "good_draw lc (draw_i64 lc S lo hi) (\<lambda>v. lo \<le> v \<and> v \<le> hi)"
  unfolding draw_i64_def
proof (rule good_ebind [OF good_draw_integer [OF S le(1)]])
  fix v
  assume "lo \<le> v \<and> v \<le> hi"
  then have "to_i64 v = Some v" using le by (simp add: to_i64_def)
  then show "good_draw lc (unwrapped to_i64 v) (\<lambda>v. lo \<le> v \<and> v \<le> hi)"
    using \<open>lo \<le> v \<and> v \<le> hi\<close> by (auto intro: good_weaken [OF good_unwrapped])
qed

lemma good_date_in:
  assumes S: "sampling_sound S" "integers_total S"
    and lo: "date_valid lo" and hi: "date_valid hi" and le: "days_from_civil lo \<le> days_from_civil hi"
  shows "good_draw lc (draw_date_in lc S (days_from_civil lo) (days_from_civil hi))
    (\<lambda>d. date_valid d \<and> days_from_civil lo \<le> days_from_civil d \<and> days_from_civil d \<le> days_from_civil hi)"
proof -
  define c where "c = clamp (days_from_civil lo) (days_from_civil hi) (days_from_civil \<lparr>d_year = 2000, d_month = 1, d_day = 1\<rparr>)"
  have c: "days_from_civil lo \<le> c" "c \<le> days_from_civil hi" using le by (auto simp: c_def clamp_def)
  note bounds = valid_days [OF lo] valid_days [OF hi]
  show ?thesis unfolding draw_date_in_def c_def [symmetric] Let_def
  proof (rule good_ebind [OF good_draw_i64 [OF S]])
    fix v
    assume "days_from_civil lo - c \<le> v \<and> v \<le> days_from_civil hi - c"
    then have "days_from_civil lo \<le> c + v" "c + v \<le> days_from_civil hi" by linarith+
    note civil_between [OF lo hi this]
    then show "good_draw lc (ret (civil_from_days (c + v))) (\<lambda>d. date_valid d \<and>
        days_from_civil lo \<le> days_from_civil d \<and> days_from_civil d \<le> days_from_civil hi)"
      using \<open>days_from_civil lo \<le> c + v\<close> \<open>c + v \<le> days_from_civil hi\<close> by (intro good_ret) simp
  qed (use c bounds in simp_all)
qed

lemma good_time_in:
  assumes S: "sampling_sound S" "integers_total S"
    and "0 \<le> lo" "lo \<le> hi" "hi \<le> LAST_NS_OF_DAY"
  shows "good_draw lc (draw_time_in lc S lo hi)
    (\<lambda>t. time_typed t \<and> time_valid t \<and> lo \<le> time_to_ns t \<and> time_to_ns t \<le> hi)"
  unfolding draw_time_in_def
proof (rule good_ebind [OF good_draw_i64 [OF S]])
  show "0 \<le> hi - lo" "- (2 ^ 63) \<le> (0 :: int)" "hi - lo < 2 ^ 63"
    using assms(3-5) by (simp_all add: LAST_NS_OF_DAY_def)
  fix v
  assume v: "0 \<le> v \<and> v \<le> hi - lo"
  then have "0 \<le> lo + v" "lo + v \<le> LAST_NS_OF_DAY" using assms(3-5) by linarith+
  note time_of_ns [OF this]
  then show "good_draw lc (ret (time_from_ns (lo + v)))
      (\<lambda>t. time_typed t \<and> time_valid t \<and> lo \<le> time_to_ns t \<and> time_to_ns t \<le> hi)"
    using v by (intro good_ret) simp
qed

definition datetime_valid :: "datetime \<Rightarrow> bool" where
  "datetime_valid d \<longleftrightarrow> date_valid (dt_date d) \<and> time_valid (dt_time d)"

definition datetime_le :: "datetime \<Rightarrow> datetime \<Rightarrow> bool" where
  "datetime_le a b \<longleftrightarrow> date_before (dt_date a) (dt_date b) \<or> (dt_date a = dt_date b \<and> time_le (dt_time a) (dt_time b))"

lemma good_datetime:
  assumes S: "sampling_sound S" "integers_total S"
    and lo: "datetime_valid lo" "time_typed (dt_time lo)" and hi: "datetime_valid hi" "time_typed (dt_time hi)"
    and le: "datetime_le lo hi"
  shows "good_draw lc (draw_datetime_in lc S (days_from_civil (dt_date lo)) (time_to_ns (dt_time lo))
      (days_from_civil (dt_date hi)) (time_to_ns (dt_time hi)))
    (\<lambda>d. datetime_valid d \<and> time_typed (dt_time d) \<and> datetime_le lo d \<and> datetime_le d hi)"
proof -
  have dl: "date_valid (dt_date lo)" and dh: "date_valid (dt_date hi)" and tl: "time_valid (dt_time lo)" and th: "time_valid (dt_time hi)"
    using lo hi by (auto simp: datetime_valid_def)
  have civil: "date_civil d" if "date_valid d" for d using that by (simp add: date_valid_civil)
  have dle: "days_from_civil (dt_date lo) \<le> days_from_civil (dt_date hi)"
    using le days_le_iff [OF civil [OF dl] civil [OF dh]] by (auto simp: datetime_le_def date_le_def)
  note nl = ns_range [OF lo(2) tl] and nh = ns_range [OF hi(2) th]
  have tle: "time_to_ns (dt_time lo) \<le> time_to_ns (dt_time hi)" if "dt_date lo = dt_date hi"
    using le that ns_le_iff [OF lo(2) tl hi(2) th] by (auto simp: datetime_le_def date_before_def)
  show ?thesis unfolding draw_datetime_in_def
  proof (rule good_ebind [OF good_date_in [OF S dl dh dle]], goal_cases)
    case (1 d)
    let ?lo = "if days_from_civil d = days_from_civil (dt_date lo) then time_to_ns (dt_time lo) else 0"
    let ?hi = "if days_from_civil d = days_from_civil (dt_date hi) then time_to_ns (dt_time hi) else LAST_NS_OF_DAY"
    have d: "date_valid d" using 1 by simp
    note lo_d = days_le_iff [OF civil [OF dl] civil [OF d]] and d_hi = days_le_iff [OF civil [OF d] civil [OF dh]]
    note inj = days_inj [OF civil [OF d] civil [OF dl]] days_inj [OF civil [OF d] civil [OF dh]]
    have ns: "0 \<le> ?lo" "?lo \<le> ?hi" "?hi \<le> LAST_NS_OF_DAY"
      using nl nh tle inj by auto
    have fits: "datetime_valid \<lparr>dt_date = d, dt_time = t\<rparr> \<and> time_typed t
        \<and> datetime_le lo \<lparr>dt_date = d, dt_time = t\<rparr> \<and> datetime_le \<lparr>dt_date = d, dt_time = t\<rparr> hi"
      if t: "time_typed t" "time_valid t" "?lo \<le> time_to_ns t" "time_to_ns t \<le> ?hi" for t
      using 1 t lo_d d_hi inj ns_le_iff [OF lo(2) tl t(1,2)] ns_le_iff [OF t(1,2) hi(2) th]
      by (auto simp: datetime_valid_def datetime_le_def date_le_def)
    show ?case unfolding Let_def
      by (rule good_ebind [OF good_time_in [OF S ns]]) (use fits in \<open>auto intro: good_ret\<close>)
  qed
qed

section \<open>Properties\<close>

text \<open>C26: day numbers and dates are inverse to each other: the date of the day number of an accepted
  date is that date, every day between two accepted dates is the day number of its date, which is
  accepted, and the order of day numbers is the calendar order.\<close>
theorem calendar_roundtrip:
  assumes lo: "date_valid lo" and hi: "date_valid hi"
    and z: "days_from_civil lo \<le> z" "z \<le> days_from_civil hi"
  shows "civil_from_days (days_from_civil lo) = lo \<and> date_valid (civil_from_days z)
     \<and> days_from_civil (civil_from_days z) = z
     \<and> (days_from_civil lo < days_from_civil hi) = date_before lo hi"
proof -
  have c: "date_civil lo" "date_civil hi" using lo hi by (simp_all add: date_valid_civil)
  have "days_from_civil lo < days_from_civil hi \<longleftrightarrow> date_before lo hi"
    using days_le_iff [OF c(2,1)] days_strict_mono [OF c] date_total [of lo hi]
    by (auto simp: date_le_def not_le)
  then show ?thesis using civil_of_days [OF lo] civil_between [OF lo hi z] by blast
qed

theorem calendar_roundtrip_witness:
  "civil_from_days (days_from_civil \<lparr>d_year = 2024, d_month = 2, d_day = 29\<rparr>) = \<lparr>d_year = 2024, d_month = 2, d_day = 29\<rparr>
   \<and> date_valid (civil_from_days 20000)"
  using calendar_roundtrip [of "\<lparr>d_year = 2024, d_month = 2, d_day = 29\<rparr>" "\<lparr>d_year = 2025, d_month = 1, d_day = 1\<rparr>" 20000]
  by (simp add: date_valid_def MIN_YEAR_def MAX_YEAR_def days_in_month_def is_leap_def days_from_civil_def)

lemma invalid_bounds:
  "invalid True msg tc = (Inl (InvalidArgument msg), tc)" "invalid False msg tc = (Inr (), tc)"
  by (simp_all add: invalid_def)

text \<open>C19: a datetime request either is refused as invalid, exactly when a bound is no date and time of
  the calendar or the bounds are inverted, and then draws nothing; or it ends with an overrun
  or the verdict of the test case; or it returns a date and time of the calendar within the
  bounds, boundary days included. It never fails internally.\<close>
theorem datetime_within_bounds:
  assumes S: "sampling_sound S" "integers_total S" and tc: "sourced lc tc"
    and typed: "time_typed (dt_time lo)" "time_typed (dt_time hi)"
    and run: "generate_datetime lc S lo hi tc = (r, t)"
  shows "if datetime_valid lo \<and> datetime_valid hi \<and> datetime_le lo hi
     then (case r of Inr d \<Rightarrow> datetime_valid d \<and> datetime_le lo d \<and> datetime_le d hi | Inl e \<Rightarrow> ends_draw e)
     else (\<exists>msg. r = Inl (InvalidArgument msg)) \<and> t = tc"
proof (cases "datetime_valid lo \<and> datetime_valid hi")
  case valid: True
  then have c: "date_civil (dt_date lo)" "date_civil (dt_date hi)"
    and v: "time_valid (dt_time lo)" "time_valid (dt_time hi)"
    by (auto simp: datetime_valid_def date_valid_civil)
  have inverted: "(days_from_civil (dt_date hi) < days_from_civil (dt_date lo)
      \<or> (days_from_civil (dt_date lo) = days_from_civil (dt_date hi) \<and> time_to_ns (dt_time hi) < time_to_ns (dt_time lo)))
      = (\<not> datetime_le lo hi)"
    using days_le_iff [OF c] days_inj [OF c] ns_le_iff [OF typed(1) v(1) typed(2) v(2)]
    by (auto simp: datetime_le_def date_le_def not_less date_before_def)
  let ?body = "spanned LABEL_DATETIME (draw_datetime_in lc S (days_from_civil (dt_date lo)) (time_to_ns (dt_time lo))
        (days_from_civil (dt_date hi)) (time_to_ns (dt_time hi)))"
  have go: "(ebind (invalid (\<not> datetime_le lo hi) ''generate_datetime requires min_value <= max_value'') (\<lambda>_. ?body)) tc = (r, t)"
    using run valid unfolding generate_datetime_def validate_date_def validate_time_def Let_def inverted
    by (simp add: datetime_valid_def invalid_bounds)
  show ?thesis
  proof (cases "datetime_le lo hi")
    case True
    then have "?body tc = (r, t)" using go by (simp add: invalid_bounds)
    with good_spanned [OF good_datetime [OF S _ typed(1) _ typed(2) True]] valid tc
    have "case r of Inr d \<Rightarrow> datetime_valid d \<and> time_typed (dt_time d) \<and> datetime_le lo d \<and> datetime_le d hi
        | Inl e \<Rightarrow> ends_draw e" unfolding good_draw_def by blast
    then show ?thesis using True valid by (auto split: sum.splits)
  next
    case False
    then show ?thesis using go by (auto simp: invalid_bounds)
  qed
next
  case False
  then show ?thesis
    using run by (auto simp: generate_datetime_def validate_date_def validate_time_def datetime_valid_def
        ebind_def invalid_def split: if_splits)
qed

theorem datetime_within_bounds_witness:
  "\<exists>r t. generate_datetime (\<lambda>v. v) sample_sampling
       \<lparr>dt_date = \<lparr>d_year = 2024, d_month = 2, d_day = 29\<rparr>, dt_time = \<lparr>t_hour = 23, t_minute = 0, t_second = 0, t_nanosecond = 0\<rparr>\<rparr>
       \<lparr>dt_date = \<lparr>d_year = 2024, d_month = 3, d_day = 1\<rparr>, dt_time = \<lparr>t_hour = 1, t_minute = 0, t_second = 0, t_nanosecond = 0\<rparr>\<rparr>
       sample_random_root = (r, t) \<and> (case r of Inr d \<Rightarrow> datetime_valid d | Inl e \<Rightarrow> ends_draw e)"
  (is "\<exists>r t. generate_datetime _ _ ?lo ?hi _ = _ \<and> _")
proof -
  obtain r t where run: "generate_datetime (\<lambda>v. v) sample_sampling ?lo ?hi sample_random_root = (r, t)" by fastforce
  have "datetime_valid ?lo" "datetime_valid ?hi" "datetime_le ?lo ?hi"
    by (simp_all add: datetime_valid_def date_valid_def time_valid_def MIN_YEAR_def MAX_YEAR_def days_in_month_def
        is_leap_def datetime_le_def date_before_def)
  then have "case r of Inr d \<Rightarrow> datetime_valid d \<and> datetime_le ?lo d \<and> datetime_le d ?hi | Inl e \<Rightarrow> ends_draw e"
    using datetime_within_bounds [OF sample_sampling_sound sample_integers_total sample_sourced _ _ run]
    by (simp add: time_typed_def)
  then show ?thesis using run by (auto split: sum.splits)
qed

end
