(* ===== verification/RegexParser.thy ===== *)
theory RegexParser
  imports Procs Intervals
begin

text \<open>
  \<open>hegel-c/src/native/re/constants.rs\<close> and \<open>re/parser.rs\<close>: the parser of Python-style patterns.
  A pattern is a list of codepoints; the tokenizer and the parser state, which the source passes
  as two mutable references, are one record here. A method is a procedure on it, a \<open>loop\<close> of the
  source an instance of \<open>ploop\<close>, so that the parser's termination is a theorem. The recursion of
  groups is bounded by \<open>MAX_NESTING\<close> in the source; \<open>parse_sub\<close> and \<open>parse_seq\<close> recurse on a
  depth that this bound makes sufficient. The interpolated parts of error messages are left out,
  their positions are exact. The character classes of the standard library are parameters.
\<close>

section \<open>Constants and syntax\<close>

definition MAXREPEAT :: nat where "MAXREPEAT = 2 ^ 32 - 1"
definition MAXGROUPS :: nat where "MAXGROUPS = 500"
definition MAX_NESTING :: nat where "MAX_NESTING = 100"

definition SRE_FLAG_IGNORECASE :: u32 where "SRE_FLAG_IGNORECASE = 2"
definition SRE_FLAG_LOCALE :: u32 where "SRE_FLAG_LOCALE = 4"
definition SRE_FLAG_MULTILINE :: u32 where "SRE_FLAG_MULTILINE = 8"
definition SRE_FLAG_DOTALL :: u32 where "SRE_FLAG_DOTALL = 16"
definition SRE_FLAG_UNICODE :: u32 where "SRE_FLAG_UNICODE = 32"
definition SRE_FLAG_VERBOSE :: u32 where "SRE_FLAG_VERBOSE = 64"
definition SRE_FLAG_ASCII :: u32 where "SRE_FLAG_ASCII = 256"
definition TYPE_FLAGS :: u32 where
  "TYPE_FLAGS = SRE_FLAG_ASCII OR SRE_FLAG_LOCALE OR SRE_FLAG_UNICODE"

datatype at_code = AtBeginning | AtBeginningString | AtBoundary | AtNonBoundary | AtEnd | AtEndString

datatype ch_code = ChDigit | ChNotDigit | ChSpace | ChNotSpace | ChWord | ChNotWord

datatype set_item = SetLiteral codepoint | SetNegate | SetRange codepoint codepoint | SetCategory ch_code

text \<open>\<open>SubPattern\<close> is a vector of operations.\<close>

datatype opcode =
    Literal codepoint
  | NotLiteral codepoint
  | AnyChar
  | At at_code
  | InSet "set_item list"
  | Branch "opcode list list"
  | Subpattern "nat option" u32 u32 "opcode list"
  | GroupRef nat
  | GroupRefExists nat "opcode list" "opcode list option"
  | Assert int "opcode list"
  | AssertNot int "opcode list"
  | AtomicGroup "opcode list"
  | MaxRepeat nat nat "opcode list"
  | MinRepeat nat nat "opcode list"
  | PossessiveRepeat nat nat "opcode list"
  | Failure

record parsed_pattern =
  pp_pattern :: "opcode list"
  pp_flags :: u32

record parse_error =
  pe_msg :: string
  pe_pos :: nat

record alphabetic =
  is_alphabetic :: "codepoint \<Rightarrow> bool"
  is_alphanumeric :: "codepoint \<Rightarrow> bool"

section \<open>The tokenizer\<close>

text \<open>A token is one character, or a backslash and one character.\<close>

type_synonym token = "codepoint list"

record tokenizer =
  tk_chars :: "codepoint list"
  tk_index :: nat
  tk_next :: "token option"

record parser = tokenizer +
  ps_flags :: u32
  ps_groupdict :: "codepoint list \<rightharpoonup> nat"
  ps_groupwidths :: "(nat \<times> nat) option list"
  ps_lookbehindgroups :: "nat option"
  ps_grouprefpos :: "(nat \<times> nat) list"

type_synonym 'a parsing = "(parser, parse_error, 'a) proc"

definition BACKSLASH :: codepoint where "BACKSLASH = 92"

definition nth_char :: "'a list \<Rightarrow> nat \<Rightarrow> 'a option" where
  "nth_char xs i = (if i < length xs then Some (xs ! i) else None)"

definition next_length :: "parser \<Rightarrow> nat" where
  "next_length s = (case tk_next s of Some t \<Rightarrow> length t | None \<Rightarrow> 0)"

definition tell :: "parser \<Rightarrow> nat" where
  "tell s = tk_index s - next_length s"

definition get_parser :: "parser parsing" where
  "get_parser s = Some (Inr s, s)"

definition update :: "(parser \<Rightarrow> parser) \<Rightarrow> unit parsing" where
  "update f s = Some (Inr (), f s)"

text \<open>\<open>Err(source.error(msg, offset))\<close>, and an error at a fixed position.\<close>

definition fail_at :: "nat \<Rightarrow> string \<Rightarrow> 'a parsing" where
  "fail_at pos msg = pthrow \<lparr>pe_msg = msg, pe_pos = pos\<rparr>"

definition fail :: "string \<Rightarrow> nat \<Rightarrow> 'a parsing" where
  "fail msg offset s = fail_at (tell s - offset) msg s"

text \<open>An internal assertion of the parser is a parse error at position 0.\<close>

definition internal :: "bool \<Rightarrow> unit parsing" where
  "internal c = (if c then pret () else fail_at 0 ''internal error'')"

definition advance :: "unit parsing" where
  "advance s =
     (case nth_char (tk_chars s) (tk_index s) of
        None \<Rightarrow> update (\<lambda>s. s\<lparr>tk_next := None\<rparr>) s
      | Some ch \<Rightarrow>
          if ch = BACKSLASH
          then case nth_char (tk_chars s) (tk_index s + 1) of
                 None \<Rightarrow> fail_at (length (tk_chars s) - 1) ''bad escape (end of pattern)'' s
               | Some nx \<Rightarrow> update (\<lambda>s. s\<lparr>tk_next := Some [ch, nx], tk_index := tk_index s + 2\<rparr>) s
          else update (\<lambda>s. s\<lparr>tk_next := Some [ch], tk_index := tk_index s + 1\<rparr>) s)"

definition peek_next_char :: "parser \<Rightarrow> codepoint option" where
  "peek_next_char s = (case tk_next s of Some (c # _) \<Rightarrow> Some c | _ \<Rightarrow> None)"

definition take_match :: "char \<Rightarrow> bool parsing" where
  "take_match ch =
     pbind get_parser (\<lambda>s.
     if tk_next s = Some [code ch] then pbind advance (\<lambda>_. pret True) else pret False)"

definition get_token :: "token option parsing" where
  "get_token = pbind get_parser (\<lambda>s. pbind advance (\<lambda>_. pret (tk_next s)))"

text \<open>\<open>get()?.unwrap()\<close> where the next token was just looked at.\<close>

definition get_unwrap :: "token parsing" where
  "get_unwrap = pbind get_token (\<lambda>t. case t of Some t \<Rightarrow> pret t | None \<Rightarrow> fail_at 0 ''called unwrap on None'')"

primrec getwhile :: "nat \<Rightarrow> codepoint list \<Rightarrow> codepoint list parsing" where
  "getwhile 0 charset = pret []"
| "getwhile (Suc n) charset =
     pbind get_parser (\<lambda>s.
     case tk_next s of
       Some [c] \<Rightarrow>
         if c \<in> set charset
         then pbind advance (\<lambda>_. pbind (getwhile n charset) (\<lambda>rest. pret (c # rest)))
         else pret []
     | _ \<Rightarrow> pret [])"

definition getuntil :: "char \<Rightarrow> codepoint list parsing" where
  "getuntil terminator =
     ploop (\<lambda>result.
       pbind get_token (\<lambda>t.
       case t of
         None \<Rightarrow>
           if result = [] then fail ''missing group name'' 0
           else fail ''unterminated name'' (length result)
       | Some t \<Rightarrow>
           if t = [code terminator]
           then if result = [] then fail ''missing group name'' 1 else pret (Inr result)
           else pret (Inl (result @ t)))) []"

definition seek :: "nat \<Rightarrow> unit parsing" where
  "seek i = pbind (update (\<lambda>s. s\<lparr>tk_index := i\<rparr>)) (\<lambda>_. advance)"

definition is_id_start :: "alphabetic \<Rightarrow> codepoint \<Rightarrow> bool" where
  "is_id_start U c \<longleftrightarrow> c = code CHR ''_'' \<or> is_alphabetic U c"

definition is_id_continue :: "alphabetic \<Rightarrow> codepoint \<Rightarrow> bool" where
  "is_id_continue U c \<longleftrightarrow> c = code CHR ''_'' \<or> is_alphanumeric U c"

definition is_python_identifier :: "alphabetic \<Rightarrow> codepoint list \<Rightarrow> bool" where
  "is_python_identifier U s =
     (case s of [] \<Rightarrow> False | c # cs \<Rightarrow> is_id_start U c \<and> list_all (is_id_continue U) cs)"

definition checkgroupname :: "alphabetic \<Rightarrow> codepoint list \<Rightarrow> nat \<Rightarrow> unit parsing" where
  "checkgroupname U name offset =
     (if is_python_identifier U name then pret ()
      else fail ''bad character in group name'' (length name + offset))"

section \<open>Groups\<close>

definition ps_groups :: "parser \<Rightarrow> nat" where
  "ps_groups s = length (ps_groupwidths s)"

definition opengroup :: "codepoint list option \<Rightarrow> nat parsing" where
  "opengroup name =
     pbind get_parser (\<lambda>s0. let gid = ps_groups s0 in
     pbind (update (\<lambda>s. s\<lparr>ps_groupwidths := ps_groupwidths s @ [None]\<rparr>)) (\<lambda>_.
     pbind get_parser (\<lambda>s.
     if MAXGROUPS < ps_groups s then fail_at 0 ''too many groups''
     else case name of
            None \<Rightarrow> pret gid
          | Some n \<Rightarrow>
              if ps_groupdict s n \<noteq> None then fail_at 0 ''redefinition of group name''
              else pbind (update (\<lambda>s. s\<lparr>ps_groupdict := (ps_groupdict s)(n \<mapsto> gid)\<rparr>)) (\<lambda>_. pret gid))))"

definition closegroup :: "nat \<Rightarrow> unit parsing" where
  "closegroup gid =
     update (\<lambda>s. if gid < ps_groups s
                 then s\<lparr>ps_groupwidths := (ps_groupwidths s)[gid := Some (0, 0)]\<rparr> else s)"

definition checkgroup :: "parser \<Rightarrow> nat \<Rightarrow> bool" where
  "checkgroup s gid \<longleftrightarrow> gid < ps_groups s \<and> ps_groupwidths s ! gid \<noteq> None"

definition checklookbehindgroup :: "nat \<Rightarrow> unit parsing" where
  "checklookbehindgroup gid =
     pbind get_parser (\<lambda>s.
     case ps_lookbehindgroups s of
       None \<Rightarrow> pret ()
     | Some lb \<Rightarrow>
         if \<not> checkgroup s gid then fail ''cannot refer to an open group'' 0
         else if lb \<le> gid then fail ''cannot refer to group defined in the same lookbehind subpattern'' 0
         else pret ())"

section \<open>Escapes\<close>

definition DIGITS :: "codepoint list" where "DIGITS = codes ''0123456789''"
definition OCTDIGITS :: "codepoint list" where "OCTDIGITS = codes ''01234567''"
definition HEXDIGITS :: "codepoint list" where "HEXDIGITS = codes ''0123456789abcdefABCDEF''"
definition ASCIILETTERS :: "codepoint list" where
  "ASCIILETTERS = codes ''abcdefghijklmnopqrstuvwxyzABCDEFGHIJKLMNOPQRSTUVWXYZ''"
definition WHITESPACE :: "codepoint list" where "WHITESPACE = [32, 9, 10, 13, 11, 12]"
definition SPECIAL_CHARS :: "codepoint list" where "SPECIAL_CHARS = BACKSLASH # codes ''.[{()*+?^$|''"
definition REPEAT_CHARS :: "codepoint list" where "REPEAT_CHARS = codes ''*+?{''"

datatype category_code = CategoryAt at_code | CategoryIn ch_code

definition lookup_escape_literal :: "token \<Rightarrow> codepoint option" where
  "lookup_escape_literal escape =
     map_of [([BACKSLASH, code CHR ''a''], 7), ([BACKSLASH, code CHR ''b''], 8),
             ([BACKSLASH, code CHR ''f''], 12), ([BACKSLASH, code CHR ''n''], 10),
             ([BACKSLASH, code CHR ''r''], 13), ([BACKSLASH, code CHR ''t''], 9),
             ([BACKSLASH, code CHR ''v''], 11), ([BACKSLASH, BACKSLASH], BACKSLASH)] escape"

definition lookup_category :: "token \<Rightarrow> category_code option" where
  "lookup_category escape =
     map_of [([BACKSLASH, code CHR ''A''], CategoryAt AtBeginningString),
             ([BACKSLASH, code CHR ''b''], CategoryAt AtBoundary),
             ([BACKSLASH, code CHR ''B''], CategoryAt AtNonBoundary),
             ([BACKSLASH, code CHR ''d''], CategoryIn ChDigit),
             ([BACKSLASH, code CHR ''D''], CategoryIn ChNotDigit),
             ([BACKSLASH, code CHR ''s''], CategoryIn ChSpace),
             ([BACKSLASH, code CHR ''S''], CategoryIn ChNotSpace),
             ([BACKSLASH, code CHR ''w''], CategoryIn ChWord),
             ([BACKSLASH, code CHR ''W''], CategoryIn ChNotWord),
             ([BACKSLASH, code CHR ''Z''], CategoryAt AtEndString)] escape"

definition flag_for_char :: "codepoint \<Rightarrow> u32 option" where
  "flag_for_char c =
     map_of [(code CHR ''i'', SRE_FLAG_IGNORECASE), (code CHR ''L'', SRE_FLAG_LOCALE),
             (code CHR ''m'', SRE_FLAG_MULTILINE), (code CHR ''s'', SRE_FLAG_DOTALL),
             (code CHR ''x'', SRE_FLAG_VERBOSE), (code CHR ''a'', SRE_FLAG_ASCII),
             (code CHR ''u'', SRE_FLAG_UNICODE)] c"

definition to_digit :: "nat \<Rightarrow> codepoint \<Rightarrow> nat option" where
  "to_digit radix c =
     (let d = (if 48 \<le> c \<and> c \<le> 57 then c - 48
               else if 97 \<le> c \<and> c \<le> 122 then c - 87
               else if 65 \<le> c \<and> c \<le> 90 then c - 55
               else radix)
      in if d < radix then Some d else None)"

fun digits_value :: "nat \<Rightarrow> nat \<Rightarrow> codepoint list \<Rightarrow> nat option" where
  "digits_value radix acc [] = Some acc"
| "digits_value radix acc (c # cs) =
     (case to_digit radix c of Some d \<Rightarrow> digits_value radix (acc * radix + d) cs | None \<Rightarrow> None)"

definition from_str_radix :: "nat \<Rightarrow> codepoint list \<Rightarrow> nat option" where
  "from_str_radix radix ds =
     (if ds = [] then None
      else case digits_value radix 0 ds of
             Some n \<Rightarrow> if n < 2 ^ 32 then Some n else None
           | None \<Rightarrow> None)"

definition parse_escape_value :: "token \<Rightarrow> codepoint list \<Rightarrow> nat \<Rightarrow> nat parsing" where
  "parse_escape_value escape ds radix =
     (case from_str_radix radix ds of Some n \<Rightarrow> pret n | None \<Rightarrow> fail ''bad escape'' (length escape))"

text \<open>\<open>\x\<close>, \<open>\u\<close> and \<open>\U\<close>: exactly \<open>n\<close> hexadecimal digits, a valid character for the last two.\<close>

definition hex_escape :: "nat \<Rightarrow> bool \<Rightarrow> string \<Rightarrow> token \<Rightarrow> codepoint parsing" where
  "hex_escape n checked msg escape =
     pbind (getwhile n HEXDIGITS) (\<lambda>ds. let escape = escape @ ds in
     if length escape \<noteq> n + 2 then fail ''incomplete escape'' (length escape)
     else pbind (parse_escape_value escape (drop 2 escape) 16) (\<lambda>v.
          if checked \<and> char_from_u32 v = None then fail msg (length escape) else pret v))"

text \<open>The escapes both handlers share: a code by hexadecimal digits, and the unsupported names.\<close>

definition coded_escape :: "token \<Rightarrow> codepoint \<Rightarrow> codepoint parsing option" where
  "coded_escape escape c =
     (if c = code CHR ''x'' then Some (hex_escape 2 False '''' escape)
      else if c = code CHR ''u'' then Some (hex_escape 4 True ''surrogate codepoint'' escape)
      else if c = code CHR ''U'' then Some (hex_escape 8 True ''bad escape'' escape)
      else if c = code CHR ''N'' then Some (fail ''named unicode escapes not yet supported'' 0)
      else None)"

definition octal_value :: "token \<Rightarrow> codepoint parsing" where
  "octal_value escape =
     pbind (parse_escape_value escape (drop 1 escape) 8) (\<lambda>n.
     if 255 < n then fail ''octal escape value outside of range 0-0o377'' (length escape) else pret n)"

definition literal_escape :: "token \<Rightarrow> codepoint \<Rightarrow> codepoint parsing" where
  "literal_escape escape c =
     (if c \<in> set ASCIILETTERS then fail ''bad escape'' (length escape) else pret c)"

datatype class_escape_result = ClassLiteral codepoint | ClassCategory ch_code

definition class_escape :: "token \<Rightarrow> class_escape_result parsing" where
  "class_escape escape =
     (case lookup_escape_literal escape of
        Some cp \<Rightarrow> pret (ClassLiteral cp)
      | None \<Rightarrow>
        case lookup_category escape of
          Some (CategoryIn cat) \<Rightarrow> pret (ClassCategory cat)
        | _ \<Rightarrow>
          case nth_char escape 1 of
            None \<Rightarrow> fail ''bad escape (end of pattern)'' 0
          | Some c \<Rightarrow>
              pbind (case coded_escape escape c of
                       Some m \<Rightarrow> m
                     | None \<Rightarrow>
                         if c \<in> set OCTDIGITS
                         then pbind (getwhile 2 OCTDIGITS) (\<lambda>ds. octal_value (escape @ ds))
                         else if c \<in> set DIGITS then fail ''bad escape'' (length escape)
                         else literal_escape escape c) (\<lambda>cp.
              pret (ClassLiteral cp)))"

datatype escape_result = EscLiteral codepoint | EscAt at_code | EscCategory ch_code | EscGroupRef nat

definition group_escape :: "token \<Rightarrow> escape_result parsing" where
  "group_escape escape =
     pbind (parse_escape_value escape (drop 1 escape) 10) (\<lambda>group.
     pbind get_parser (\<lambda>s.
     if group < ps_groups s
     then if \<not> checkgroup s group then fail ''cannot refer to an open group'' (length escape)
          else pbind (checklookbehindgroup group) (\<lambda>_. pret (EscGroupRef group))
     else fail ''invalid group reference'' (length escape - 1)))"

definition peeks :: "codepoint list \<Rightarrow> parser \<Rightarrow> bool" where
  "peeks charset s = (case peek_next_char s of Some c \<Rightarrow> c \<in> set charset | None \<Rightarrow> False)"

text \<open>A backslash and a digit: an octal code of three digits, or a reference by number.\<close>

definition digit_escape :: "token \<Rightarrow> codepoint \<Rightarrow> escape_result parsing" where
  "digit_escape escape c =
     pbind get_parser (\<lambda>s.
     if \<not> peeks DIGITS s then group_escape escape
     else pbind get_unwrap (\<lambda>more. let escape = escape @ more in
          pbind get_parser (\<lambda>s.
          if c \<in> set OCTDIGITS \<and> escape ! 2 \<in> set OCTDIGITS \<and> peeks OCTDIGITS s
          then pbind get_unwrap (\<lambda>more.
               pbind (octal_value (escape @ more)) (\<lambda>n. pret (EscLiteral n)))
          else group_escape escape)))"

definition escape_code :: "token \<Rightarrow> escape_result parsing" where
  "escape_code escape =
     (case lookup_category escape of
        Some (CategoryAt a) \<Rightarrow> pret (EscAt a)
      | Some (CategoryIn c) \<Rightarrow> pret (EscCategory c)
      | None \<Rightarrow>
        case lookup_escape_literal escape of
          Some cp \<Rightarrow> pret (EscLiteral cp)
        | None \<Rightarrow>
          case nth_char escape 1 of
            None \<Rightarrow> fail ''bad escape (end of pattern)'' 0
          | Some c \<Rightarrow>
              case coded_escape escape c of
                Some m \<Rightarrow> pbind m (\<lambda>cp. pret (EscLiteral cp))
              | None \<Rightarrow>
                  if c = code CHR ''0''
                  then pbind (getwhile 2 OCTDIGITS) (\<lambda>ds.
                       pbind (parse_escape_value (escape @ ds) (drop 1 (escape @ ds)) 8) (\<lambda>n.
                       pret (EscLiteral n)))
                  else if c \<in> set DIGITS then digit_escape escape c
                  else pbind (literal_escape escape c) (\<lambda>cp. pret (EscLiteral cp)))"

section \<open>Character classes\<close>

text \<open>\<open>filter(|item| seen.insert(item))\<close>: the first occurrence of each item.\<close>

definition uniq_set :: "'a list \<Rightarrow> 'a list" where
  "uniq_set items = rev (remdups (rev items))"

datatype set_code = CodeLiteral codepoint | CodeClass class_escape_result

definition push_set_code :: "set_item list \<Rightarrow> set_code \<Rightarrow> set_item list" where
  "push_set_code items c =
     items @ [case c of
                CodeLiteral cp \<Rightarrow> SetLiteral cp
              | CodeClass (ClassLiteral cp) \<Rightarrow> SetLiteral cp
              | CodeClass (ClassCategory cat) \<Rightarrow> SetCategory cat]"

definition endpoint :: "set_code \<Rightarrow> codepoint option" where
  "endpoint c =
     (case c of CodeLiteral cp \<Rightarrow> Some cp | CodeClass (ClassLiteral cp) \<Rightarrow> Some cp
      | CodeClass (ClassCategory _) \<Rightarrow> None)"

definition set_code :: "token \<Rightarrow> set_code parsing" where
  "set_code cur =
     (case cur of
        [] \<Rightarrow> fail_at 0 ''called unwrap on None''
      | c # _ \<Rightarrow>
          if c = BACKSLASH then pbind (class_escape cur) (\<lambda>r. pret (CodeClass r))
          else pret (CodeLiteral c))"

text \<open>One member of a class; \<open>Inr\<close> when the class is closed.\<close>

definition set_member :: "nat \<Rightarrow> set_item list \<Rightarrow> (set_item list + set_item list) parsing" where
  "set_member here items =
     pbind get_token (\<lambda>got. pbind get_parser (\<lambda>s.
     case got of
       None \<Rightarrow> fail ''unterminated character set'' (tell s - here)
     | Some cur \<Rightarrow>
         if cur = [code CHR '']''] \<and> items \<noteq> [] then pret (Inr items)
         else pbind (set_code cur) (\<lambda>code1.
              pbind (take_match CHR ''-'') (\<lambda>dash.
              if \<not> dash then pret (Inl (push_set_code items code1))
              else pbind get_token (\<lambda>got. pbind get_parser (\<lambda>s.
                   case got of
                     None \<Rightarrow> fail ''unterminated character set'' (tell s - here)
                   | Some that \<Rightarrow>
                       if that = [code CHR '']'']
                       then pret (Inr (push_set_code items code1 @ [SetLiteral (code CHR ''-'')]))
                       else pbind (set_code that) (\<lambda>code2.
                            case (endpoint code1, endpoint code2) of
                              (Some lo, Some hi) \<Rightarrow>
                                if hi < lo then fail ''bad character range'' (length cur + 1 + length that)
                                else pret (Inl (items @ [SetRange lo hi]))
                            | _ \<Rightarrow> fail ''bad character range'' (length cur + 1 + length that))))))))"

definition parse_set :: "opcode parsing" where
  "parse_set =
     pbind get_parser (\<lambda>s. let here = tell s - 1 in
     pbind (take_match CHR ''^'') (\<lambda>negate.
     pbind (ploop (set_member here) []) (\<lambda>items.
     let items = uniq_set items in
     pret (case items of
             [SetLiteral cp] \<Rightarrow> if negate then NotLiteral cp else Literal cp
           | _ \<Rightarrow> InSet (if negate then SetNegate # items else items)))))"

section \<open>Repetition\<close>

definition is_repeat_opcode :: "opcode \<Rightarrow> bool" where
  "is_repeat_opcode op = (case op of MinRepeat _ _ _ \<Rightarrow> True | MaxRepeat _ _ _ \<Rightarrow> True
     | PossessiveRepeat _ _ _ \<Rightarrow> True | _ \<Rightarrow> False)"

definition digit_run :: "codepoint list parsing" where
  "digit_run =
     ploop (\<lambda>ds. pbind get_parser (\<lambda>s.
       if peeks DIGITS s then pbind get_unwrap (\<lambda>t. pret (Inl (ds @ t))) else pret (Inr ds))) []"

text \<open>\<open>parse::<u64>\<close> and the comparison with \<open>MAXREPEAT\<close> fail with the same error.\<close>

definition repeat_number :: "codepoint list \<Rightarrow> nat parsing" where
  "repeat_number ds =
     (case digits_value 10 0 ds of
        Some n \<Rightarrow> if n < 2 ^ 64 \<and> n < MAXREPEAT then pret n else fail ''the repetition number is too large'' 0
      | None \<Rightarrow> fail ''the repetition number is too large'' 0)"

text \<open>The bounds of \<open>{m,n}\<close>; \<open>None\<close> when the brace is a literal.\<close>

definition brace_bounds :: "nat \<Rightarrow> (nat \<times> nat) option parsing" where
  "brace_bounds here =
     pbind get_parser (\<lambda>s.
     if peek_next_char s = Some (code CHR ''}'') then pret None
     else pbind digit_run (\<lambda>lo.
          pbind (take_match CHR '','') (\<lambda>comma.
          pbind (if comma then digit_run else pret lo) (\<lambda>hi.
          pbind (take_match CHR ''}'') (\<lambda>closed.
          if \<not> closed then pbind (seek here) (\<lambda>_. pret None)
          else pbind (if lo = [] then pret 0 else repeat_number lo) (\<lambda>mn.
               if hi = [] then pret (Some (mn, MAXREPEAT))
               else pbind (repeat_number hi) (\<lambda>mx.
                    pbind get_parser (\<lambda>s.
                    if mx < mn then fail ''min repeat greater than max repeat'' (tell s - here)
                    else pret (Some (mn, mx))))))))))"

definition repeat_bounds :: "token \<Rightarrow> nat \<Rightarrow> (nat \<times> nat) option parsing" where
  "repeat_bounds this here =
     (if this = [code CHR ''?''] then pret (Some (0, 1))
      else if this = [code CHR ''*''] then pret (Some (0, MAXREPEAT))
      else if this = [code CHR ''+''] then pret (Some (1, MAXREPEAT))
      else pbind (internal (this = [code CHR ''{''])) (\<lambda>_. brace_bounds here))"

definition repeat_operand :: "opcode \<Rightarrow> opcode list" where
  "repeat_operand op =
     (case op of
        Subpattern None add del p \<Rightarrow> if add = 0 \<and> del = 0 then p else [op]
      | _ \<Rightarrow> [op])"

definition parse_repeat :: "token \<Rightarrow> opcode list \<Rightarrow> opcode list parsing" where
  "parse_repeat this sub =
     pbind get_parser (\<lambda>s. let here = tell s in
     pbind (repeat_bounds this here) (\<lambda>bounds.
     case bounds of
       None \<Rightarrow> pret (sub @ [Literal (code CHR ''{'')])
     | Some (mn, mx) \<Rightarrow>
         pbind get_parser (\<lambda>s. let offset = tell s - here + length this in
         if sub = [] then fail ''nothing to repeat'' offset
         else case last sub of
                At _ \<Rightarrow> fail ''nothing to repeat'' offset
              | op \<Rightarrow>
                  if is_repeat_opcode op then fail ''multiple repeat'' offset
                  else let item = repeat_operand op in
                       pbind (take_match CHR ''?'') (\<lambda>lazy.
                       pbind (if lazy then pret False else take_match CHR ''+'') (\<lambda>possessive.
                       pret (butlast sub @
                         [if lazy then MinRepeat mn mx item
                          else if possessive then PossessiveRepeat mn mx item
                          else MaxRepeat mn mx item]))))))"

section \<open>Flags\<close>

definition flag_error :: "alphabetic \<Rightarrow> token \<Rightarrow> string \<Rightarrow> 'a parsing" where
  "flag_error U ch otherwise =
     (case ch of
        c # _ \<Rightarrow> fail (if is_alphabetic U c then ''unknown flag'' else otherwise) (length ch)
      | [] \<Rightarrow> fail_at 0 ''called unwrap on None'')"

definition flag_of :: "token \<Rightarrow> u32 option" where
  "flag_of ch = (case ch of c # _ \<Rightarrow> flag_for_char c | [] \<Rightarrow> None)"

definition add_flag :: "alphabetic \<Rightarrow> token \<times> u32 \<Rightarrow> (token \<times> u32 + token \<times> u32) parsing" where
  "add_flag U = (\<lambda>(ch, add_flags).
     case flag_of ch of
       None \<Rightarrow> fail_at 0 ''internal error''
     | Some flag \<Rightarrow>
         if ch = [code CHR ''L''] then fail ''bad inline flags: cannot use L'' 0
         else let add_flags = add_flags OR flag in
              if flag AND TYPE_FLAGS \<noteq> 0 \<and> add_flags AND TYPE_FLAGS \<noteq> flag
              then fail ''bad inline flags: incompatible'' 0
              else pbind get_token (\<lambda>got.
                   case got of
                     None \<Rightarrow> fail ''missing -, : or )'' 0
                   | Some ch \<Rightarrow>
                       if ch = [code CHR '')''] \<or> ch = [code CHR ''-''] \<or> ch = [code CHR '':'']
                       then pret (Inr (ch, add_flags))
                       else if flag_of ch = None then flag_error U ch ''missing -, : or )''
                       else pret (Inl (ch, add_flags))))"

definition del_flag :: "alphabetic \<Rightarrow> token \<times> u32 \<Rightarrow> (token \<times> u32 + token \<times> u32) parsing" where
  "del_flag U = (\<lambda>(ch, del_flags).
     case flag_of ch of
       None \<Rightarrow> fail_at 0 ''called unwrap on None''
     | Some flag \<Rightarrow>
         if flag AND TYPE_FLAGS \<noteq> 0 then fail ''bad inline flags: cannot turn off'' 0
         else let del_flags = del_flags OR flag in
              pbind get_token (\<lambda>got.
              case got of
                None \<Rightarrow> fail ''missing :'' 0
              | Some ch \<Rightarrow>
                  if ch = [code CHR '':''] then pret (Inr (ch, del_flags))
                  else if flag_of ch = None then flag_error U ch ''missing :''
                  else pret (Inl (ch, del_flags))))"

definition negative_flags :: "alphabetic \<Rightarrow> (token \<times> u32) parsing" where
  "negative_flags U =
     pbind get_token (\<lambda>got.
     case got of
       None \<Rightarrow> fail ''missing flag'' 0
     | Some ch \<Rightarrow>
         if flag_of ch = None then flag_error U ch ''missing flag''
         else ploop (del_flag U) (ch, 0))"

definition parse_flags :: "alphabetic \<Rightarrow> token \<Rightarrow> (u32 \<times> u32) option parsing" where
  "parse_flags U first_ch =
     pbind (if first_ch = [code CHR ''-''] then pret (first_ch, 0)
            else ploop (add_flag U) (first_ch, 0)) (\<lambda>(ch, add_flags).
     if ch = [code CHR '')'']
     then pbind (update (\<lambda>s. s\<lparr>ps_flags := ps_flags s OR add_flags\<rparr>)) (\<lambda>_. pret None)
     else pbind (if ch = [code CHR ''-''] then negative_flags U else pret (ch, 0)) (\<lambda>(ch, del_flags).
          pbind (internal (ch = [code CHR '':''])) (\<lambda>_.
          if add_flags AND del_flags \<noteq> 0 then fail ''bad inline flags: flag turned on and off'' 1
          else pret (Some (add_flags, del_flags)))))"

section \<open>Groups\<close>

text \<open>
  What a parenthesis starts: a group with its body still to come, an operation that is already
  complete, or nothing (a comment, global flags). The parser of an alternation and that of a
  sequence at the next depth are parameters here.
\<close>

datatype group_start =
    OpenGroup bool bool "codepoint list option" u32 u32
  | GroupDone "opcode list"
  | GlobalFlags

type_synonym sub_parser = "bool \<Rightarrow> opcode list parsing"

definition close_paren :: "nat \<Rightarrow> unit parsing" where
  "close_paren start =
     pbind (take_match CHR '')'') (\<lambda>closed. pbind get_parser (\<lambda>s.
     if closed then pret () else fail ''missing ), unterminated subpattern'' (tell s - start)))"

definition named_group :: "alphabetic \<Rightarrow> group_start parsing" where
  "named_group U =
     pbind (take_match CHR ''<'') (\<lambda>define.
     if define
     then pbind (getuntil CHR ''>'') (\<lambda>n.
          pbind (checkgroupname U n 1) (\<lambda>_. pret (OpenGroup True False (Some n) 0 0)))
     else pbind (take_match CHR ''='') (\<lambda>reference.
          if reference
          then pbind (getuntil CHR '')'') (\<lambda>n.
               pbind (checkgroupname U n 1) (\<lambda>_.
               pbind get_parser (\<lambda>s.
               case ps_groupdict s n of
                 None \<Rightarrow> fail ''unknown group name'' (length n + 1)
               | Some gid \<Rightarrow>
                   if \<not> checkgroup s gid then fail ''cannot refer to an open group'' (length n + 1)
                   else pbind (checklookbehindgroup gid) (\<lambda>_. pret (GroupDone [GroupRef gid])))))
          else pbind get_token (\<lambda>got.
               case got of
                 None \<Rightarrow> fail ''unexpected end of pattern'' 0
               | Some ch2 \<Rightarrow> fail ''unknown extension ?P'' (length ch2 + 2))))"

definition comment_group :: "nat \<Rightarrow> group_start parsing" where
  "comment_group start =
     ploop (\<lambda>_. pbind get_parser (\<lambda>s.
       if tk_next s = None then fail ''missing ), unterminated comment'' (tell s - start)
       else pbind get_token (\<lambda>got.
            pret (if got = Some [code CHR '')''] then Inr (GroupDone []) else Inl ())))) ()"

definition enter_lookbehind :: "parser \<Rightarrow> parser" where
  "enter_lookbehind s =
     (if ps_lookbehindgroups s = None then s\<lparr>ps_lookbehindgroups := Some (ps_groups s)\<rparr> else s)"

text \<open>The direction and marker of a look-around; \<open>(?<\<close> records the lookbehind's first group.\<close>

definition look_marker :: "token \<Rightarrow> (int \<times> token \<times> nat option option) parsing" where
  "look_marker ch =
     (if ch = [code CHR ''<'']
      then pbind get_token (\<lambda>got.
           case got of
             None \<Rightarrow> fail ''unexpected end of pattern'' 0
           | Some lookch \<Rightarrow>
               if lookch \<noteq> [code CHR ''=''] \<and> lookch \<noteq> [code CHR ''!'']
               then fail ''unknown extension ?<'' (length lookch + 2)
               else pbind get_parser (\<lambda>s.
                    pbind (update enter_lookbehind) (\<lambda>_.
                    pret (-1, lookch, Some (ps_lookbehindgroups s)))))
      else pret (1, ch, None))"

definition look_group :: "sub_parser \<Rightarrow> bool \<Rightarrow> nat \<Rightarrow> token \<Rightarrow> group_start parsing" where
  "look_group psub verbose start ch =
     pbind (look_marker ch) (\<lambda>(dir, marker, saved).
     pbind (psub verbose) (\<lambda>p.
     pbind (update (\<lambda>s. if dir < 0 \<and> saved = Some None then s\<lparr>ps_lookbehindgroups := None\<rparr> else s)) (\<lambda>_.
     pbind (close_paren start) (\<lambda>_.
     pret (GroupDone
       [if marker = [code CHR ''=''] then Assert dir p
        else if p \<noteq> [] then AssertNot dir p
        else Failure])))))"

definition condition_number :: "codepoint list \<Rightarrow> nat parsing" where
  "condition_number condname =
     (case from_str_radix 10 condname of
        None \<Rightarrow> fail ''invalid group reference'' (length condname + 1)
      | Some n \<Rightarrow>
          if n = 0 then fail ''bad group number'' (length condname + 1)
          else if MAXGROUPS \<le> n then fail ''invalid group reference'' (length condname + 1)
          else pbind (update (\<lambda>s.
                 if n \<in> fst ` set (ps_grouprefpos s) then s
                 else s\<lparr>ps_grouprefpos := ps_grouprefpos s @ [(n, tell s - (length condname + 1))]\<rparr>)) (\<lambda>_.
               pret n))"

definition condition_group :: "alphabetic \<Rightarrow> codepoint list \<Rightarrow> nat parsing" where
  "condition_group U condname =
     (if condname = [] \<or> \<not> list_all (\<lambda>c. c \<in> set DIGITS) condname
      then pbind (checkgroupname U condname 1) (\<lambda>_.
           pbind get_parser (\<lambda>s.
           case ps_groupdict s condname of
             None \<Rightarrow> fail ''unknown group name'' (length condname + 1)
           | Some g \<Rightarrow> pret g))
      else condition_number condname)"

definition conditional_group ::
  "alphabetic \<Rightarrow> sub_parser \<Rightarrow> bool \<Rightarrow> nat \<Rightarrow> group_start parsing" where
  "conditional_group U pseq verbose start =
     pbind (getuntil CHR '')'') (\<lambda>condname.
     pbind (condition_group U condname) (\<lambda>condgroup.
     pbind (checklookbehindgroup condgroup) (\<lambda>_.
     pbind (pseq verbose) (\<lambda>yes.
     pbind (take_match CHR ''|'') (\<lambda>bar.
     pbind (if \<not> bar then pret None
            else pbind (pseq verbose) (\<lambda>no.
                 pbind get_parser (\<lambda>s.
                 if peek_next_char s = Some (code CHR ''|'')
                 then fail ''conditional backref with more than two branches'' 0
                 else pret (Some no)))) (\<lambda>no.
     pbind (close_paren start) (\<lambda>_.
     pret (GroupDone [GroupRefExists condgroup yes no]))))))))"

definition flag_group ::
  "alphabetic \<Rightarrow> bool \<Rightarrow> bool \<Rightarrow> nat \<Rightarrow> token \<Rightarrow> group_start parsing" where
  "flag_group U first empty_so_far start ch =
     pbind (parse_flags U [hd ch]) (\<lambda>flags.
     pbind get_parser (\<lambda>s.
     case flags of
       None \<Rightarrow>
         if \<not> first \<or> \<not> empty_so_far
         then fail ''global flags not at the start of the expression'' (tell s - start)
         else pret GlobalFlags
     | Some (af, df) \<Rightarrow> pret (OpenGroup False False None af df)))"

definition group_extension ::
  "alphabetic \<Rightarrow> sub_parser \<Rightarrow> sub_parser \<Rightarrow> bool \<Rightarrow> bool \<Rightarrow> bool \<Rightarrow> nat \<Rightarrow> group_start parsing" where
  "group_extension U psub pseq verbose first empty_so_far start =
     pbind get_token (\<lambda>got.
     case got of
       None \<Rightarrow> fail ''unexpected end of pattern'' 0
     | Some ch \<Rightarrow>
         if ch = [code CHR ''P''] then named_group U
         else if ch = [code CHR '':''] then pret (OpenGroup False False None 0 0)
         else if ch = [code CHR ''#''] then comment_group start
         else if ch = [code CHR ''=''] \<or> ch = [code CHR ''!''] \<or> ch = [code CHR ''<'']
         then look_group psub verbose start ch
         else if ch = [code CHR ''(''] then conditional_group U pseq verbose start
         else if ch = [code CHR ''>''] then pret (OpenGroup False True None 0 0)
         else if flag_of ch \<noteq> None \<or> ch = [code CHR ''-''] then flag_group U first empty_so_far start ch
         else fail ''unknown extension ?'' (length ch + 1))"

definition has_flag :: "u32 \<Rightarrow> u32 \<Rightarrow> bool" where
  "has_flag flags flag \<longleftrightarrow> flags AND flag \<noteq> 0"

definition group_body ::
  "sub_parser \<Rightarrow> bool \<Rightarrow> nat \<Rightarrow> bool \<Rightarrow> bool \<Rightarrow> codepoint list option \<Rightarrow> u32 \<Rightarrow> u32
   \<Rightarrow> opcode parsing" where
  "group_body psub verbose start capture atomic name add_flags del_flags =
     pbind (if capture then pbind (opengroup name) (\<lambda>g. pret (Some g)) else pret None) (\<lambda>group.
     pbind (psub ((verbose \<or> has_flag add_flags SRE_FLAG_VERBOSE) \<and> \<not> has_flag del_flags SRE_FLAG_VERBOSE)) (\<lambda>p.
     pbind (close_paren start) (\<lambda>_.
     pbind (case group of Some g \<Rightarrow> closegroup g | None \<Rightarrow> pret ()) (\<lambda>_.
     if atomic then pbind (internal (group = None)) (\<lambda>_. pret (AtomicGroup p))
     else pret (Subpattern group add_flags del_flags p)))))"

text \<open>The loop state of a sequence: whether whitespace is ignored, and the operations so far.\<close>

definition parse_group ::
  "alphabetic \<Rightarrow> sub_parser \<Rightarrow> sub_parser \<Rightarrow> bool \<Rightarrow> bool \<times> opcode list \<Rightarrow> (bool \<times> opcode list) parsing" where
  "parse_group U psub pseq first = (\<lambda>(verbose, sub).
     pbind get_parser (\<lambda>s. let start = tell s - 1 in
     pbind (take_match CHR ''?'') (\<lambda>extension.
     pbind (if extension then group_extension U psub pseq verbose first (sub = []) start
            else pret (OpenGroup True False None 0 0)) (\<lambda>g.
     case g of
       GroupDone ops \<Rightarrow> pret (verbose, sub @ ops)
     | GlobalFlags \<Rightarrow> pbind get_parser (\<lambda>s. pret (has_flag (ps_flags s) SRE_FLAG_VERBOSE, sub))
     | OpenGroup capture atomic name add_flags del_flags \<Rightarrow>
         pbind (group_body psub verbose start capture atomic name add_flags del_flags) (\<lambda>op.
         pret (verbose, sub @ [op]))))))"

section \<open>Sequences and alternations\<close>

text \<open>Skipping a comment of verbose mode up to the end of the line.\<close>

definition skip_comment :: "unit parsing" where
  "skip_comment =
     ploop (\<lambda>_. pbind get_token (\<lambda>got.
       pret (if got = None \<or> got = Some [10] then Inr () else Inl ()))) ()"

definition escape_op :: "escape_result \<Rightarrow> opcode" where
  "escape_op r =
     (case r of EscLiteral cp \<Rightarrow> Literal cp | EscAt a \<Rightarrow> At a
      | EscCategory c \<Rightarrow> InSet [SetCategory c] | EscGroupRef g \<Rightarrow> GroupRef g)"

definition parse_item ::
  "alphabetic \<Rightarrow> sub_parser \<Rightarrow> sub_parser \<Rightarrow> bool \<Rightarrow> bool \<times> opcode list \<Rightarrow> token
   \<Rightarrow> (bool \<times> opcode list) parsing" where
  "parse_item U psub pseq first = (\<lambda>(verbose, sub) this. case this of
     [] \<Rightarrow> fail_at 0 ''called unwrap on None''
   | first_char # _ \<Rightarrow>
       if verbose \<and> length this = 1 \<and> first_char \<in> set WHITESPACE then pret (verbose, sub)
       else if verbose \<and> length this = 1 \<and> first_char = code CHR ''#''
       then pbind skip_comment (\<lambda>_. pret (verbose, sub))
       else if first_char = BACKSLASH
       then pbind (escape_code this) (\<lambda>r. pret (verbose, sub @ [escape_op r]))
       else if first_char \<notin> set SPECIAL_CHARS then pret (verbose, sub @ [Literal first_char])
       else if this = [code CHR ''[''] then pbind parse_set (\<lambda>op. pret (verbose, sub @ [op]))
       else if length this = 1 \<and> first_char \<in> set REPEAT_CHARS
       then pbind (parse_repeat this sub) (\<lambda>sub. pret (verbose, sub))
       else if this = [code CHR ''.''] then pret (verbose, sub @ [AnyChar])
       else if this = [code CHR ''(''] then parse_group U psub pseq first (verbose, sub)
       else if this = [code CHR ''^''] then pret (verbose, sub @ [At AtBeginning])
       else pbind (internal (this = [code CHR ''$''])) (\<lambda>_. pret (verbose, sub @ [At AtEnd])))"

text \<open>Groups without a number or flags are spliced into the sequence.\<close>

fun expand_groups :: "opcode list \<Rightarrow> opcode list" where
  "expand_groups [] = []"
| "expand_groups (op # ops) =
     (case op of
        Subpattern None add del p \<Rightarrow>
          if add = 0 \<and> del = 0 then expand_groups p @ expand_groups ops else op # expand_groups ops
      | _ \<Rightarrow> op # expand_groups ops)"

definition sequence_step ::
  "alphabetic \<Rightarrow> sub_parser \<Rightarrow> sub_parser \<Rightarrow> bool \<Rightarrow> bool \<times> opcode list
   \<Rightarrow> (bool \<times> opcode list + opcode list) parsing" where
  "sequence_step U psub pseq first st =
     pbind get_parser (\<lambda>s.
     case tk_next s of
       None \<Rightarrow> pret (Inr (snd st))
     | Some this \<Rightarrow>
         if this = [code CHR ''|''] \<or> this = [code CHR '')''] then pret (Inr (snd st))
         else pbind advance (\<lambda>_.
              pbind (parse_item U psub pseq first st this) (\<lambda>st. pret (Inl st))))"

definition sequence_body ::
  "alphabetic \<Rightarrow> sub_parser \<Rightarrow> sub_parser \<Rightarrow> bool \<Rightarrow> nat \<Rightarrow> bool \<Rightarrow> opcode list parsing" where
  "sequence_body U psub pseq verbose nested first =
     (if MAX_NESTING < nested then fail ''regex nesting too deep'' 0
      else pbind (ploop (sequence_step U psub pseq first) (verbose, [])) (\<lambda>sub.
           pret (expand_groups sub)))"

text \<open>The operations all alternatives start with are moved in front.\<close>

fun shared_head :: "opcode list list \<Rightarrow> opcode option" where
  "shared_head [] = None"
| "shared_head ([] # items) = None"
| "shared_head ((p # ops) # items) =
     (if list_all (\<lambda>item. item \<noteq> [] \<and> hd item = p) items then Some p else None)"

function factor_prefix :: "opcode list list \<Rightarrow> opcode list \<times> opcode list list" where
  "factor_prefix items =
     (case shared_head items of
        Some p \<Rightarrow> (case factor_prefix (map tl items) of (ps, rest) \<Rightarrow> (p # ps, rest))
      | None \<Rightarrow> ([], items))"
  by auto
termination
proof (relation "measure (\<lambda>items. length (hd items))")
  show "shared_head items = Some p \<Longrightarrow> (map tl items, items) \<in> measure (\<lambda>items. length (hd items))" for items p
    by (cases items rule: shared_head.cases) auto
qed simp

declare factor_prefix.simps [simp del]

definition flat_items :: "opcode list \<Rightarrow> set_item list option" where
  "flat_items item =
     (case item of
        [Literal cp] \<Rightarrow> Some [SetLiteral cp]
      | [InSet inner] \<Rightarrow> if inner \<noteq> [] \<and> hd inner = SetNegate then None else Some inner
      | _ \<Rightarrow> None)"

fun flatten_items :: "opcode list list \<Rightarrow> set_item list option" where
  "flatten_items [] = Some []"
| "flatten_items (item # items) =
     (case flat_items item of
        None \<Rightarrow> None
      | Some is \<Rightarrow> map_option (\<lambda>rest. is @ rest) (flatten_items items))"

definition merge_branches :: "opcode list list \<Rightarrow> opcode list" where
  "merge_branches items =
     (case items of
        [item] \<Rightarrow> item
      | _ \<Rightarrow>
          case factor_prefix items of
            (prefix_ops, rest) \<Rightarrow>
              prefix_ops @ [case flatten_items rest of
                              Some set_items \<Rightarrow> InSet (uniq_set set_items)
                            | None \<Rightarrow> Branch rest])"

definition alternation_step ::
  "(bool \<Rightarrow> sub_parser) \<Rightarrow> nat \<Rightarrow> bool \<times> opcode list list
   \<Rightarrow> (bool \<times> opcode list list + opcode list list) parsing" where
  "alternation_step pseq nested = (\<lambda>(verbose, items).
     pbind (pseq (nested = 0 \<and> items = []) verbose) (\<lambda>item.
     pbind (take_match CHR ''|'') (\<lambda>bar.
     if \<not> bar then pret (Inr (items @ [item]))
     else pbind get_parser (\<lambda>s.
          pret (Inl (if nested = 0 then has_flag (ps_flags s) SRE_FLAG_VERBOSE else verbose, items @ [item]))))))"

definition alternation ::
  "(bool \<Rightarrow> sub_parser) \<Rightarrow> nat \<Rightarrow> bool \<Rightarrow> opcode list parsing" where
  "alternation pseq nested verbose =
     pbind (ploop (alternation_step pseq nested) (verbose, [])) (\<lambda>items. pret (merge_branches items))"

text \<open>The recursion of the two parsers; \<open>depth\<close> bounds the calls of \<open>parse\<close>.\<close>

fun parse_seq :: "alphabetic \<Rightarrow> nat \<Rightarrow> nat \<Rightarrow> bool \<Rightarrow> bool \<Rightarrow> opcode list parsing" where
  "parse_seq U 0 nested first verbose = (\<lambda>_. None)"
| "parse_seq U (Suc depth) nested first verbose =
     sequence_body U
       (\<lambda>verbose. alternation (\<lambda>first verbose. parse_seq U depth (nested + 2) first verbose) (nested + 1) verbose)
       (\<lambda>verbose. parse_seq U depth (nested + 1) False verbose)
       verbose nested first"

definition parse_sub :: "alphabetic \<Rightarrow> nat \<Rightarrow> nat \<Rightarrow> bool \<Rightarrow> opcode list parsing" where
  "parse_sub U depth nested verbose =
     alternation (\<lambda>first verbose. parse_seq U depth (nested + 1) first verbose) nested verbose"

section \<open>Entry point\<close>

definition fix_flags :: "u32 \<Rightarrow> u32 parsing" where
  "fix_flags flags =
     (if has_flag flags SRE_FLAG_LOCALE then fail_at 0 ''cannot use LOCALE flag with a str pattern''
      else if \<not> has_flag flags SRE_FLAG_ASCII then pret (flags OR SRE_FLAG_UNICODE)
      else if has_flag flags SRE_FLAG_UNICODE then fail_at 0 ''ASCII and UNICODE flags are incompatible''
      else pret flags)"

definition parser_new :: "codepoint list \<Rightarrow> u32 \<Rightarrow> parser" where
  "parser_new pat flags =
     \<lparr>tk_chars = pat, tk_index = 0, tk_next = None, ps_flags = flags, ps_groupdict = Map.empty,
      ps_groupwidths = [None], ps_lookbehindgroups = None, ps_grouprefpos = []\<rparr>"

text \<open>
  The recorded references are checked in the order of a hash map in the source; the model reports
  the first one recorded.
\<close>

definition check_grouprefs :: "unit parsing" where
  "check_grouprefs =
     pbind get_parser (\<lambda>s.
     case filter (\<lambda>(g, _). ps_groups s \<le> g) (ps_grouprefpos s) of
       [] \<Rightarrow> pret ()
     | (_, pos) # _ \<Rightarrow> fail_at pos ''invalid group reference'')"

definition parse_whole :: "alphabetic \<Rightarrow> nat \<Rightarrow> u32 \<Rightarrow> parsed_pattern parsing" where
  "parse_whole U depth flags =
     pbind advance (\<lambda>_.
     pbind (parse_sub U depth 0 (has_flag flags SRE_FLAG_VERBOSE)) (\<lambda>p.
     pbind get_parser (\<lambda>s.
     pbind (fix_flags (ps_flags s)) (\<lambda>flags.
     pbind (update (\<lambda>s. s\<lparr>ps_flags := flags\<rparr>)) (\<lambda>_.
     pbind get_parser (\<lambda>s.
     if tk_next s \<noteq> None
     then pbind (internal (tk_next s = Some [code CHR '')''])) (\<lambda>_. fail ''unbalanced parenthesis'' 0)
     else pbind check_grouprefs (\<lambda>_. pret \<lparr>pp_pattern = p, pp_flags = flags\<rparr>)))))))"

definition PARSE_DEPTH :: nat where "PARSE_DEPTH = MAX_NESTING + 2"

definition parse_pattern :: "alphabetic \<Rightarrow> codepoint list \<Rightarrow> u32 \<Rightarrow> (parse_error + parsed_pattern) option" where
  "parse_pattern U pat flags = map_option fst (parse_whole U PARSE_DEPTH flags (parser_new pat flags))"

end
