(* ===== verification/RegexParserFacts.thy ===== *)
theory RegexParserFacts
  imports RegexParser Outcomes
begin

text \<open>
  The parser of patterns ends on every input: it returns a well-formed pattern or an error whose
  position lies within the pattern. A small calculus of parsing procedures, in which every loop
  consumes input.
\<close>

section \<open>The calculus\<close>

definition valid_cp :: "codepoint \<Rightarrow> bool" where
  "valid_cp c \<longleftrightarrow> char_from_u32 c = Some c"

definition token_ok :: "token \<Rightarrow> bool" where
  "token_ok t \<longleftrightarrow> t \<noteq> [] \<and> list_all valid_cp t
     \<and> length t = (if hd t = BACKSLASH then 2 else 1)"

definition parser_ok :: "parser \<Rightarrow> bool" where
  "parser_ok s \<longleftrightarrow> tk_index s \<le> length (tk_chars s) \<and> next_length s \<le> tk_index s
     \<and> list_all valid_cp (tk_chars s) \<and> pred_option token_ok (tk_next s)
     \<and> ps_groups s \<le> MAXGROUPS \<and> (\<forall>n g. ps_groupdict s n = Some g \<longrightarrow> g < ps_groups s)
     \<and> (\<forall>(g, pos)\<in>set (ps_grouprefpos s). pos \<le> length (tk_chars s))"

definition remaining :: "parser \<Rightarrow> nat" where
  "remaining s = length (tk_chars s) - tk_index s + next_length s"

definition parser_step :: "parser \<Rightarrow> parser \<Rightarrow> bool" where
  "parser_step s t \<longleftrightarrow> parser_ok t \<and> tk_chars t = tk_chars s \<and> remaining t \<le> remaining s
     \<and> ps_groups s \<le> ps_groups t"

text \<open>The errors that a pattern may cause; the others stand for a panic or a failed assertion.\<close>

definition reported :: "string \<Rightarrow> bool" where
  "reported msg \<longleftrightarrow> msg \<noteq> ''internal error'' \<and> msg \<noteq> ''called unwrap on None''"

definition error_ok :: "parser \<Rightarrow> parse_error \<Rightarrow> bool" where
  "error_ok s e \<longleftrightarrow> pe_pos e \<le> length (tk_chars s) \<and> reported (pe_msg e)"

interpretation reading: outcomes parser_ok parser_step error_ok
  by unfold_locales (auto simp: parser_step_def error_ok_def)

text \<open>\<open>parses Q m s\<close>: from \<open>s\<close> the procedure \<open>m\<close> returns a value and state with \<open>Q\<close>, or reports an error.\<close>

abbreviation parses :: "('a \<Rightarrow> parser \<Rightarrow> bool) \<Rightarrow> 'a parsing \<Rightarrow> parser \<Rightarrow> bool" where
  "parses \<equiv> reading.ends"

lemmas parses_def = reading.ends_def
lemmas step_refl = reading.step_refl and step_trans = reading.step_trans
lemmas parses_ret = reading.ends_ret and parses_bind = reading.ends_bind and parses_if = reading.ends_if
  and parses_weaken = reading.ends_weaken and parses_bind_ok = reading.ends_bind_good

lemma stepD:
  assumes "parser_step s t"
  shows "parser_ok t" "tk_chars t = tk_chars s" "remaining t \<le> remaining s" "ps_groups s \<le> ps_groups t"
  using assms by (simp_all add: parser_step_def)

lemma parses_get: "parser_ok s \<Longrightarrow> parses Q (f s) s \<Longrightarrow> parses Q (pbind get_parser f) s"
  by (rule parses_bind [of "\<lambda>x t. x = s \<and> t = s"]) (auto simp: parses_def get_parser_def step_refl)

lemma parses_fail_at: "pos \<le> length (tk_chars s) \<Longrightarrow> reported msg \<Longrightarrow> parses Q (fail_at pos msg) s"
  by (simp add: parses_def error_ok_def fail_at_def)

lemma parses_fail: "parser_ok s \<Longrightarrow> reported msg \<Longrightarrow> parses Q (fail msg k) s"
  unfolding fail_def by (auto simp: parses_def error_ok_def fail_at_def tell_def parser_ok_def)

declare reported_def [simp]

lemma parses_internal: "c \<Longrightarrow> parser_ok s \<Longrightarrow> Q () s \<Longrightarrow> parses Q (internal c) s"
  by (simp add: internal_def parses_ret)

lemma parses_update: "parser_step s (f s) \<Longrightarrow> Q () (f s) \<Longrightarrow> parses Q (update f) s"
  by (simp add: parses_def update_def)

text \<open>A loop whose body consumes input each time it continues.\<close>

lemma parses_loop:
  assumes body: "\<And>i t. parser_ok t \<Longrightarrow> tk_chars t = tk_chars s \<Longrightarrow> I i t \<Longrightarrow>
      parses (\<lambda>r u. case r of Inl j \<Rightarrow> I j u \<and> remaining u < remaining t | Inr x \<Rightarrow> Q x u) (body i) t"
    and ok: "parser_ok s" and init: "I i s"
  shows "parses Q (ploop body i) s"
  by (rule reading.ends_loop [where I = I and measured = "\<lambda>_. remaining"])
     (use body ok init in \<open>auto dest: stepD\<close>)

section \<open>The tokenizer\<close>

lemma parser_okD:
  assumes "parser_ok s"
  shows "tk_index s \<le> length (tk_chars s)" "next_length s \<le> tk_index s" "list_all valid_cp (tk_chars s)"
    "tk_next s = Some t \<Longrightarrow> token_ok t" "ps_groups s \<le> MAXGROUPS"
    "ps_groupdict s n = Some g \<Longrightarrow> g < ps_groups s"
  using assms by (auto simp: parser_ok_def)

lemma nth_char_Some: "nth_char xs i = Some x \<Longrightarrow> i < length xs \<and> x \<in> set xs"
  by (auto simp: nth_char_def split: if_splits)

text \<open>Moving the tokenizer keeps the rest of the state.\<close>

lemma parser_ok_token:
  assumes ok: "parser_ok s" and i: "i \<le> length (tk_chars s)" and t: "pred_option token_ok t"
    and len: "(case t of Some t \<Rightarrow> length t | None \<Rightarrow> 0) \<le> i"
  shows "parser_ok (s\<lparr>tk_next := t, tk_index := i\<rparr>)"
  using assms by (simp add: parser_ok_def next_length_def ps_groups_def)

lemma parses_advance:
  assumes ok: "parser_ok s"
  shows "parses (\<lambda>_ t. remaining t = remaining s - next_length s) advance s"
proof -
  let ?n = "length (tk_chars s)" and ?i = "tk_index s"
  have i: "?i \<le> ?n" and valid: "list_all valid_cp (tk_chars s)" using parser_okD [OF ok] by auto
  have rem: "remaining s - next_length s = ?n - ?i" by (simp add: remaining_def)
  show ?thesis
  proof (cases "nth_char (tk_chars s) ?i")
    case None
    then have "?i = ?n" using i by (simp add: nth_char_def split: if_splits)
    have same: "s\<lparr>tk_next := None, tk_index := ?i\<rparr> = s\<lparr>tk_next := None\<rparr>" by (cases s) simp
    have "parser_step s (s\<lparr>tk_next := None\<rparr>)" "remaining (s\<lparr>tk_next := None\<rparr>) = ?n - ?i"
      using parser_ok_token [OF ok, of ?i None] i \<open>?i = ?n\<close> unfolding same
      by (simp_all add: parser_step_def remaining_def next_length_def ps_groups_def)
    then show ?thesis using None by (simp add: parses_def advance_def update_def rem)
  next
    case (Some ch)
    then have ch: "valid_cp ch" "?i < ?n" using valid nth_char_Some [OF Some] by (auto simp: list_all_iff)
    show ?thesis
    proof (cases "ch = BACKSLASH")
      case False
      let ?t = "s\<lparr>tk_next := Some [ch], tk_index := ?i + 1\<rparr>"
      have "parser_step s ?t" "remaining ?t = ?n - ?i"
        using parser_ok_token [OF ok, of "?i + 1" "Some [ch]"] ch False
        by (auto simp: parser_step_def remaining_def next_length_def ps_groups_def token_ok_def)
      then show ?thesis using Some False by (simp add: parses_def advance_def update_def rem)
    next
      case True
      show ?thesis
      proof (cases "nth_char (tk_chars s) (?i + 1)")
        case None
        then show ?thesis using Some True by (simp add: parses_def error_ok_def advance_def fail_at_def)
      next
        case nx: (Some nx)
        let ?t = "s\<lparr>tk_next := Some [ch, nx], tk_index := ?i + 2\<rparr>"
        have nxv: "valid_cp nx" "?i + 1 < ?n" using valid nth_char_Some [OF nx] by (auto simp: list_all_iff)
        then have "parser_step s ?t" "remaining ?t = ?n - ?i"
          using parser_ok_token [OF ok, of "?i + 2" "Some [ch, nx]"] ch True
          by (auto simp: parser_step_def remaining_def next_length_def ps_groups_def token_ok_def)
        then show ?thesis using Some True nx by (simp add: parses_def advance_def update_def rem)
      qed
    qed
  qed
qed

lemma parses_take_match:
  assumes ok: "parser_ok s"
  shows "parses (\<lambda>b t. if b then remaining t < remaining s else t = s \<and> tk_next s \<noteq> Some [code c]) (take_match c) s"
  unfolding take_match_def
proof (rule parses_get [OF ok])
  have "parses (\<lambda>b t. if b then remaining t < remaining s else t = s \<and> tk_next s \<noteq> Some [code c]) (pbind advance (\<lambda>_. pret True)) s"
    if "tk_next s = Some [code c]"
  proof (rule parses_bind [OF parses_advance [OF ok]])
    fix x t
    assume t: "parser_step s t" "remaining t = remaining s - next_length s"
    have "0 < next_length s" "0 < remaining s" using that by (simp_all add: next_length_def remaining_def)
    then show "parses (\<lambda>b t. if b then remaining t < remaining s else t = s \<and> tk_next s \<noteq> Some [code c]) (pret True) t"
      using t stepD by (intro parses_ret) auto
  qed
  then show "parses (\<lambda>b t. if b then remaining t < remaining s else t = s \<and> tk_next s \<noteq> Some [code c])
      (if tk_next s = Some [code c] then pbind advance (\<lambda>_. pret True) else pret False) s"
    using ok by (auto intro: parses_ret)
qed

lemma next_consumed:
  assumes "parser_ok s" "tk_next s = Some t"
  shows "remaining s - next_length s < remaining s" "token_ok t"
proof -
  show t: "token_ok t" using assms parser_okD(4) by blast
  then show "remaining s - next_length s < remaining s"
    using assms(2) by (auto simp: next_length_def remaining_def token_ok_def)
qed

lemma parses_get_token:
  assumes ok: "parser_ok s"
  shows "parses (\<lambda>t u. t = tk_next s \<and> (\<forall>t'. t = Some t' \<longrightarrow> token_ok t' \<and> remaining u < remaining s)) get_token s"
  unfolding get_token_def
proof (rule parses_get [OF ok], rule parses_bind [OF parses_advance [OF ok]])
  fix x t
  assume t: "parser_step s t" "remaining t = remaining s - next_length s"
  show "parses (\<lambda>t u. t = tk_next s \<and> (\<forall>t'. t = Some t' \<longrightarrow> token_ok t' \<and> remaining u < remaining s)) (pret (tk_next s)) t"
    using t stepD next_consumed [OF ok] by (intro parses_ret) auto
qed

text \<open>Reading a token in a procedure that fails at the end of the pattern.\<close>

lemma parses_token_bind:
  assumes ok: "parser_ok s"
    and none: "\<And>t. parser_step s t \<Longrightarrow> tk_next s = None \<Longrightarrow> parses Q (f None) t"
    and some: "\<And>c t. parser_step s t \<Longrightarrow> token_ok c \<Longrightarrow> remaining t < remaining s \<Longrightarrow> parses Q (f (Some c)) t"
  shows "parses Q (pbind get_token f) s"
proof (rule parses_bind [OF parses_get_token [OF ok]])
  fix x t
  assume t: "parser_step s t" "x = tk_next s \<and> (\<forall>t'. x = Some t' \<longrightarrow> token_ok t' \<and> remaining t < remaining s)"
  show "parses Q (f x) t"
  proof (cases x)
    case None
    then show ?thesis using t none by simp
  next
    case (Some c)
    then show ?thesis using t some by simp
  qed
qed

lemma parses_match_bind:
  assumes ok: "parser_ok s"
    and yes: "\<And>t. parser_step s t \<Longrightarrow> remaining t < remaining s \<Longrightarrow> parses Q (f True) t"
    and no: "tk_next s \<noteq> Some [code c] \<Longrightarrow> parses Q (f False) s"
  shows "parses Q (pbind (take_match c) f) s"
proof (rule parses_bind [OF parses_take_match [OF ok]])
  fix x t
  assume t: "parser_step s t" "if x then remaining t < remaining s else t = s \<and> tk_next s \<noteq> Some [code c]"
  show "parses Q (f x) t" using t yes [OF t(1)] no by (cases x) auto
qed

lemma parses_get_unwrap:
  assumes ok: "parser_ok s" and peek: "peek_next_char s \<noteq> None"
  shows "parses (\<lambda>t u. token_ok t \<and> remaining u < remaining s) get_unwrap s"
  unfolding get_unwrap_def
proof (rule parses_token_bind [OF ok])
  show "parses (\<lambda>t u. token_ok t \<and> remaining u < remaining s)
      (case Some c of Some t \<Rightarrow> pret t | None \<Rightarrow> fail_at 0 ''called unwrap on None'') t"
    if "parser_step s t" "token_ok c" "remaining t < remaining s" for c t
    using that stepD(1) by (auto intro!: parses_ret)
qed (use peek in \<open>simp add: peek_next_char_def\<close>)

lemma parses_getwhile:
  "parser_ok s \<Longrightarrow> parses (\<lambda>ds t. length ds \<le> n \<and> set ds \<subseteq> set charset) (getwhile n charset) s"
proof (induction n arbitrary: s)
  case 0
  then show ?case unfolding getwhile.simps by (intro parses_ret) simp_all
next
  case (Suc n)
  show ?case unfolding getwhile.simps
  proof (rule parses_get [OF Suc.prems])
    let ?Q = "\<lambda>ds t. length ds \<le> Suc n \<and> set ds \<subseteq> set charset"
    have "parses ?Q (pbind advance (\<lambda>_. pbind (getwhile n charset) (\<lambda>rest. pret (c # rest)))) s"
      if "c \<in> set charset" for c
    proof (rule parses_bind [OF parses_advance [OF Suc.prems]])
      fix x t assume t: "parser_step s t" "remaining t = remaining s - next_length s"
      show "parses ?Q (pbind (getwhile n charset) (\<lambda>rest. pret (c # rest))) t"
        by (rule parses_bind [OF Suc.IH [OF stepD(1) [OF t(1)]]]) (use that stepD in \<open>auto intro!: parses_ret\<close>)
    qed
    moreover have "parses ?Q (pret []) s" using Suc.prems by (auto intro: parses_ret)
    ultimately show "parses ?Q (case tk_next s of
        Some [c] \<Rightarrow> if c \<in> set charset
          then pbind advance (\<lambda>_. pbind (getwhile n charset) (\<lambda>rest. pret (c # rest))) else pret []
      | _ \<Rightarrow> pret []) s"
      by (auto split: option.split list.split)
  qed
qed

lemma parses_getuntil: "parser_ok s \<Longrightarrow> parses (\<lambda>_ _. True) (getuntil c) s"
  unfolding getuntil_def
proof (rule parses_loop [where I = "\<lambda>_ _. True"])
  fix ds :: "codepoint list" and t
  assume t: "parser_ok t" "tk_chars t = tk_chars s"
  show "parses (\<lambda>r u. case r of Inl j \<Rightarrow> True \<and> remaining u < remaining t | Inr x \<Rightarrow> True)
      (pbind get_token (\<lambda>tok. case tok of
         None \<Rightarrow> if ds = [] then fail ''missing group name'' 0 else fail ''unterminated name'' (length ds)
       | Some tok \<Rightarrow> if tok = [code c]
           then if ds = [] then fail ''missing group name'' 1 else pret (Inr ds)
           else pret (Inl (ds @ tok)))) t"
    by (rule parses_token_bind [OF t(1)]) (auto intro!: parses_fail parses_ret dest: stepD)
qed auto

lemma parses_checkgroupname: "parser_ok s \<Longrightarrow> parses (\<lambda>_ t. t = s) (checkgroupname U n k) s"
  by (auto simp: checkgroupname_def intro!: parses_ret parses_fail)

text \<open>Going back to the position at which the base state stood.\<close>

definition parses_from :: "parser \<Rightarrow> ('a \<Rightarrow> parser \<Rightarrow> bool) \<Rightarrow> 'a parsing \<Rightarrow> parser \<Rightarrow> bool" where
  "parses_from s Q m t \<longleftrightarrow>
     (\<exists>r u. m t = Some (r, u) \<and>
        (case r of Inr x \<Rightarrow> parser_step s u \<and> Q x u | Inl e \<Rightarrow> error_ok s e))"

lemma parses_from_self: "parses Q m s = parses_from s Q m s"
  by (simp add: parses_def parses_from_def)

lemma parses_from_later: "parser_step s t \<Longrightarrow> parses Q m t \<Longrightarrow> parses_from s Q m t"
  unfolding parses_def parses_from_def
  by (elim exE conjE, rule exI, rule exI, rule conjI, assumption)
     (auto simp: error_ok_def stepD(2) split: sum.splits intro: step_trans)

lemma parses_from_bind:
  assumes m: "parses P m t" "parser_step s t"
    and f: "\<And>x u. parser_step s u \<Longrightarrow> P x u \<Longrightarrow> parses_from s Q (f x) u"
  shows "parses_from s Q (pbind m f) t"
proof -
  obtain r u where r: "m t = Some (r, u)"
    "case r of Inr x \<Rightarrow> parser_step t u \<and> P x u | Inl e \<Rightarrow> error_ok t e"
    using m by (auto simp: parses_def)
  show ?thesis
  proof (cases r)
    case (Inl e)
    then show ?thesis using r stepD(2) [OF m(2)] by (auto simp: parses_from_def error_ok_def pbind_def)
  next
    case (Inr x)
    then have "parser_step s u" "P x u" using r(2) step_trans [OF m(2)] by auto
    from f [OF this] show ?thesis using r(1) Inr by (auto simp: parses_from_def pbind_def)
  qed
qed

lemma parses_seek:
  assumes ok: "parser_ok s" and st: "parser_step s t"
  shows "parses_from s (\<lambda>_ u. True) (seek (tell s)) t"
proof -
  let ?t = "t\<lparr>tk_index := tell s\<rparr>"
  have s: "tell s \<le> tk_index s" "length (tk_chars s) - tell s = remaining s" "tk_index s \<le> length (tk_chars s)"
    using parser_okD(1,2) [OF ok] by (auto simp: tell_def remaining_def)
  let ?e = "t\<lparr>tk_next := None, tk_index := tell s\<rparr>"
  have e: "parser_ok ?e" using parser_ok_token [OF stepD(1) [OF st], of "tell s" None] s stepD(2) [OF st] by simp
  have same: "advance ?t = advance ?e \<or> (\<exists>e u. advance ?t = Some (Inl e, u) \<and> error_ok s e)"
    using stepD(2) [OF st] by (cases t) (auto simp: error_ok_def advance_def update_def fail_at_def split: option.split)
  obtain r u where u: "advance ?e = Some (r, u)" and c: "case r of
      Inr x \<Rightarrow> parser_step ?e u \<and> remaining u = remaining ?e - next_length ?e
    | Inl e \<Rightarrow> error_ok ?e e"
    using parses_advance [OF e] by (auto simp: parses_def)
  have "remaining ?e = remaining s" using s stepD(2) [OF st] by (simp add: remaining_def next_length_def)
  then have "case r of Inr x \<Rightarrow> parser_step s u | Inl e \<Rightarrow> error_ok s e"
    using c stepD [OF st] by (auto simp: error_ok_def parser_step_def ps_groups_def split: sum.splits)
  then show ?thesis
    using same u by (auto simp: parses_from_def seek_def pbind_def update_def split: sum.splits)
qed

section \<open>Well-formed patterns\<close>

fun item_ok :: "set_item \<Rightarrow> bool" where
  "item_ok (SetLiteral c) = valid_cp c"
| "item_ok (SetRange lo hi) = (lo \<le> hi \<and> valid_cp lo \<and> valid_cp hi)"
| "item_ok SetNegate = True"
| "item_ok (SetCategory _) = True"

definition bounds_ok :: "nat \<Rightarrow> nat \<Rightarrow> bool" where
  "bounds_ok mn mx \<longleftrightarrow> mn \<le> mx \<and> mx \<le> MAXREPEAT"

fun op_ok :: "opcode \<Rightarrow> bool" where
  "op_ok (Literal c) = valid_cp c"
| "op_ok (NotLiteral c) = valid_cp c"
| "op_ok AnyChar = True"
| "op_ok (At _) = True"
| "op_ok (InSet items) = list_all item_ok items"
| "op_ok (Branch bs) = (bs \<noteq> [] \<and> list_all (list_all op_ok) bs)"
| "op_ok (Subpattern g _ _ p) = (pred_option (\<lambda>g. g < MAXGROUPS) g \<and> list_all op_ok p)"
| "op_ok (GroupRef g) = (g < MAXGROUPS)"
| "op_ok (GroupRefExists g yes no) = (g < MAXGROUPS \<and> list_all op_ok yes \<and> pred_option (list_all op_ok) no)"
| "op_ok (Assert _ p) = list_all op_ok p"
| "op_ok (AssertNot _ p) = list_all op_ok p"
| "op_ok (AtomicGroup p) = list_all op_ok p"
| "op_ok (MaxRepeat mn mx p) = (bounds_ok mn mx \<and> list_all op_ok p)"
| "op_ok (MinRepeat mn mx p) = (bounds_ok mn mx \<and> list_all op_ok p)"
| "op_ok (PossessiveRepeat mn mx p) = (bounds_ok mn mx \<and> list_all op_ok p)"
| "op_ok Failure = True"

abbreviation pattern_ok :: "opcode list \<Rightarrow> bool" where
  "pattern_ok \<equiv> list_all op_ok"

lemma small_valid: "c < 0xD800 \<Longrightarrow> valid_cp c"
  by (simp add: valid_cp_def char_from_u32_def)

section \<open>Escapes\<close>

lemma to_digit_less: "to_digit radix c = Some d \<Longrightarrow> d < radix"
  by (auto simp: to_digit_def Let_def split: if_splits)

lemma digits_value_less: "digits_value radix acc ds = Some n \<Longrightarrow> n < (acc + 1) * radix ^ length ds"
proof (induction radix acc ds rule: digits_value.induct)
  case (2 radix acc c cs)
  then obtain d where d: "to_digit radix c = Some d" "digits_value radix (acc * radix + d) cs = Some n"
    by (auto split: option.splits)
  then have "n < (acc * radix + d + 1) * radix ^ length cs" using 2 by simp
  also have "acc * radix + d + 1 \<le> (acc + 1) * radix" using to_digit_less [OF d(1)] by simp
  then have "(acc * radix + d + 1) * radix ^ length cs \<le> (acc + 1) * radix * radix ^ length cs"
    by (rule mult_right_mono) simp
  finally show ?case by (simp only: length_Cons power_Suc mult.assoc)
qed simp

lemma from_str_radix_less: "from_str_radix radix ds = Some n \<Longrightarrow> n < radix ^ length ds"
  using digits_value_less [of radix 0 ds n] by (auto simp: from_str_radix_def split: option.splits if_splits)

lemma parses_escape_value:
  "parser_ok s \<Longrightarrow> parses (\<lambda>n t. t = s \<and> n < radix ^ length ds) (parse_escape_value escape ds radix) s"
  unfolding parse_escape_value_def
  by (cases "from_str_radix radix ds") (auto intro!: parses_ret parses_fail dest: from_str_radix_less)

lemma char_from_valid: "char_from_u32 (v :: nat) \<noteq> None \<Longrightarrow> valid_cp v"
  by (auto simp: valid_cp_def char_from_u32_def split: if_splits)

lemma parses_hex_escape:
  assumes ok: "parser_ok s" and n: "checked \<or> n = 2" and e: "length escape = 2"
    and msg: "reported msg"
  shows "parses (\<lambda>cp _. valid_cp cp) (hex_escape n checked msg escape) s"
  unfolding hex_escape_def Let_def
proof (rule parses_bind [OF parses_getwhile [OF ok]], rule parses_if)
  fix ds t
  assume st: "parser_step s t" and "length ds \<le> n \<and> set ds \<subseteq> set HEXDIGITS"
  have t: "parser_ok t" using st by (rule stepD)
  then show "parses (\<lambda>cp _. valid_cp cp) (fail ''incomplete escape'' (length (escape @ ds))) t" by (rule parses_fail) simp
  assume "\<not> length (escape @ ds) \<noteq> n + 2"
  then have len: "length (drop 2 (escape @ ds)) = n" by simp
  show "parses (\<lambda>cp _. valid_cp cp) (pbind (parse_escape_value (escape @ ds) (drop 2 (escape @ ds)) 16) (\<lambda>v.
      if checked \<and> char_from_u32 v = None then fail msg (length (escape @ ds)) else pret v)) t"
  proof (rule parses_bind [OF parses_escape_value [OF t]])
    fix v :: nat and u
    assume u: "parser_step t u" "u = t \<and> v < 16 ^ length (drop 2 (escape @ ds))"
    have "valid_cp v" if "\<not> (checked \<and> char_from_u32 v = None)"
    proof (cases checked)
      case True
      then show ?thesis using that char_from_valid by blast
    next
      case False
      then have "v < 256" using n u len by simp
      then show ?thesis by (intro small_valid) simp
    qed
    then show "parses (\<lambda>cp _. valid_cp cp)
        (if checked \<and> char_from_u32 v = None then fail msg (length (escape @ ds)) else pret v) u"
      using stepD(1) [OF u(1)] msg by (auto intro: parses_ret parses_fail)
  qed
qed

lemma parses_coded_escape:
  "parser_ok s \<Longrightarrow> length escape = 2 \<Longrightarrow> coded_escape escape c = Some m \<Longrightarrow> parses (\<lambda>cp _. valid_cp cp) m s"
  by (auto simp: coded_escape_def split: if_splits intro: parses_hex_escape parses_fail)

lemma parses_octal: "parser_ok s \<Longrightarrow> parses (\<lambda>cp _. valid_cp cp) (octal_value escape) s"
  unfolding octal_value_def
  by (rule parses_bind [OF parses_escape_value])
     (auto intro!: parses_if parses_ret parses_fail small_valid dest: stepD)

lemma parses_literal_escape: "parser_ok s \<Longrightarrow> valid_cp c \<Longrightarrow> parses (\<lambda>cp _. valid_cp cp) (literal_escape escape c) s"
  by (auto simp: literal_escape_def intro: parses_ret parses_fail)

lemma escape_literal_valid: "lookup_escape_literal escape = Some cp \<Longrightarrow> valid_cp cp"
  by (auto simp: lookup_escape_literal_def BACKSLASH_def split: if_splits intro!: small_valid)

lemma parses_class_escape:
  assumes ok: "parser_ok s" and e: "length escape = 2" "list_all valid_cp escape"
  shows "parses (\<lambda>r _. case r of ClassLiteral cp \<Rightarrow> valid_cp cp | ClassCategory _ \<Rightarrow> True) (class_escape escape) s"
proof -
  obtain c where c: "nth_char escape 1 = Some c" "valid_cp c"
    using e by (auto simp: nth_char_def list_all_length)
  let ?m = "case coded_escape escape c of Some m \<Rightarrow> m
     | None \<Rightarrow> if c \<in> set OCTDIGITS then pbind (getwhile 2 OCTDIGITS) (\<lambda>ds. octal_value (escape @ ds))
              else if c \<in> set DIGITS then fail ''bad escape'' (length escape) else literal_escape escape c"
  have m: "parses (\<lambda>cp _. valid_cp cp) ?m s"
  proof (cases "coded_escape escape c")
    case (Some m)
    then show ?thesis using parses_coded_escape [OF ok e(1)] by simp
  next
    case None
    have "parses (\<lambda>cp _. valid_cp cp) (pbind (getwhile 2 OCTDIGITS) (\<lambda>ds. octal_value (escape @ ds))) s"
      by (rule parses_bind [OF parses_getwhile [OF ok]]) (auto intro: parses_octal stepD)
    moreover have "parses (\<lambda>cp _. valid_cp cp) (if c \<in> set DIGITS then fail ''bad escape'' (length escape) else literal_escape escape c) s"
      by (auto intro: parses_literal_escape [OF ok c(2)] parses_fail [OF ok])
    ultimately show ?thesis using None by simp
  qed
  have "parses (\<lambda>r _. case r of ClassLiteral cp \<Rightarrow> valid_cp cp | ClassCategory _ \<Rightarrow> True)
      (pbind ?m (\<lambda>cp. pret (ClassLiteral cp))) s"
    by (rule parses_bind [OF m]) (auto intro!: parses_ret stepD)
  then show ?thesis
    using ok c escape_literal_valid [of escape]
    by (auto simp: class_escape_def intro!: parses_ret split: option.split category_code.split)
qed

lemma parses_checklookbehind: "parser_ok s \<Longrightarrow> parses (\<lambda>_ t. t = s) (checklookbehindgroup g) s"
  unfolding checklookbehindgroup_def
  by (rule parses_get) (auto split: option.split intro!: parses_ret parses_fail)

abbreviation escape_ok :: "escape_result \<Rightarrow> bool" where
  "escape_ok r \<equiv> op_ok (escape_op r)"

lemma parses_group_escape:
  assumes ok: "parser_ok s"
  shows "parses (\<lambda>r _. escape_ok r) (group_escape escape) s"
  unfolding group_escape_def
proof (rule parses_bind_ok [OF parses_escape_value [OF ok]], rule parses_get)
  fix g t assume t: "parser_ok t"
  have "parses (\<lambda>r _. escape_ok r) (pbind (checklookbehindgroup g) (\<lambda>_. pret (EscGroupRef g))) t"
    if "g < ps_groups t"
    by (rule parses_bind_ok [OF parses_checklookbehind [OF t]])
       (use that parser_okD(5) [OF t] in \<open>auto simp: escape_op_def intro!: parses_ret\<close>)
  then show "parses (\<lambda>r _. escape_ok r) (if g < ps_groups t
      then if \<not> checkgroup t g then fail ''cannot refer to an open group'' (length escape)
           else pbind (checklookbehindgroup g) (\<lambda>_. pret (EscGroupRef g))
      else fail ''invalid group reference'' (length escape - 1)) t"
    using t by (auto intro: parses_fail)
qed

lemma peeks_next: "peeks charset s \<Longrightarrow> peek_next_char s \<noteq> None"
  by (auto simp: peeks_def split: option.splits)

lemma parses_unwrap_bind:
  assumes "parser_ok s" "peeks charset s"
    and "\<And>c t. parser_ok t \<Longrightarrow> tk_chars t = tk_chars s \<Longrightarrow> token_ok c \<Longrightarrow> remaining t < remaining s \<Longrightarrow> parses Q (f c) t"
  shows "parses Q (pbind get_unwrap f) s"
  by (rule parses_bind [OF parses_get_unwrap [OF assms(1) peeks_next [OF assms(2)]]])
     (use assms(3) stepD in blast)

lemma parses_digit_escape:
  assumes ok: "parser_ok s"
  shows "parses (\<lambda>r _. escape_ok r) (digit_escape escape c) s"
  unfolding digit_escape_def Let_def
proof (rule parses_get [OF ok], rule parses_if [OF parses_group_escape [OF ok]])
  assume "\<not> \<not> peeks DIGITS s"
  then have "peeks DIGITS s" by simp
  then show "parses (\<lambda>r _. escape_ok r) (pbind get_unwrap (\<lambda>more. pbind get_parser (\<lambda>s.
      if c \<in> set OCTDIGITS \<and> (escape @ more) ! 2 \<in> set OCTDIGITS \<and> peeks OCTDIGITS s
      then pbind get_unwrap (\<lambda>more'. pbind (octal_value ((escape @ more) @ more')) (\<lambda>n. pret (EscLiteral n)))
      else group_escape (escape @ more)))) s"
  proof (rule parses_unwrap_bind [OF ok], goal_cases)
    case (1 more t)
    show ?case
    proof (rule parses_get [OF 1(1)], rule parses_if [OF _ parses_group_escape [OF 1(1)]], elim conjE,
        rule parses_unwrap_bind [OF 1(1)], assumption)
      show "parses (\<lambda>r _. escape_ok r) (pbind (octal_value ((escape @ more) @ c)) (\<lambda>n. pret (EscLiteral n))) u"
        if "parser_ok u" for c u
        by (rule parses_bind_ok [OF parses_octal [OF that]]) (auto simp: escape_op_def intro!: parses_ret)
    qed
  qed
qed

lemma parses_escape_code:
  assumes ok: "parser_ok s" and e: "length escape = 2" "list_all valid_cp escape"
  shows "parses (\<lambda>r _. escape_ok r) (escape_code escape) s"
proof -
  obtain c where c: "nth_char escape 1 = Some c" "valid_cp c"
    using e by (auto simp: nth_char_def list_all_length)
  have lit: "parses (\<lambda>r _. escape_ok r) (pbind m (\<lambda>cp. pret (EscLiteral cp))) s"
    if "parses (\<lambda>cp _. valid_cp cp) m s" for m
    by (rule parses_bind_ok [OF that]) (auto simp: escape_op_def intro!: parses_ret)
  have oct: "parses (\<lambda>r _. escape_ok r) (pbind (getwhile 2 OCTDIGITS) (\<lambda>ds.
      pbind (parse_escape_value (escape @ ds) (drop 1 (escape @ ds)) 8) (\<lambda>n. pret (EscLiteral n)))) s"
  proof (rule parses_bind_ok [OF parses_getwhile [OF ok]])
    fix ds t assume t: "parser_ok t" and ds: "length ds \<le> 2 \<and> set ds \<subseteq> set OCTDIGITS"
    show "parses (\<lambda>r _. escape_ok r)
      (pbind (parse_escape_value (escape @ ds) (drop 1 (escape @ ds)) 8) (\<lambda>n. pret (EscLiteral n))) t"
    proof (rule parses_bind_ok [OF parses_escape_value [OF t]], rule parses_ret, assumption)
      fix n :: nat and u assume "u = t \<and> n < 8 ^ length (drop 1 (escape @ ds))"
      moreover have "(8::nat) ^ length (drop 1 (escape @ ds)) \<le> 8 ^ 3" using ds e by (intro power_increasing) auto
      ultimately show "escape_ok (EscLiteral n)" by (auto simp: escape_op_def intro!: small_valid)
    qed
  qed
  show ?thesis
    using c ok lit [OF parses_literal_escape [OF ok c(2)]] oct parses_digit_escape [OF ok]
      lit [OF parses_coded_escape [OF ok e(1)]] escape_literal_valid [of escape]
    by (auto simp: escape_code_def escape_op_def intro!: parses_ret split: option.split category_code.split)
qed

section \<open>Character classes\<close>

definition set_code_ok :: "set_code \<Rightarrow> bool" where
  "set_code_ok c \<longleftrightarrow> (case c of CodeLiteral cp \<Rightarrow> valid_cp cp
     | CodeClass (ClassLiteral cp) \<Rightarrow> valid_cp cp | CodeClass (ClassCategory _) \<Rightarrow> True)"

lemma parses_set_code:
  assumes ok: "parser_ok s" and t: "token_ok cur"
  shows "parses (\<lambda>r _. set_code_ok r) (set_code cur) s"
proof -
  obtain c cs where cur: "cur = c # cs" "valid_cp c" "list_all valid_cp cur"
    using t by (cases cur) (auto simp: token_ok_def)
  have "parses (\<lambda>r _. set_code_ok r) (pbind (class_escape cur) (\<lambda>r. pret (CodeClass r))) s" if "c = BACKSLASH"
    by (rule parses_bind_ok [OF parses_class_escape [OF ok]])
       (use that t cur in \<open>auto simp: set_code_ok_def token_ok_def intro!: parses_ret split: class_escape_result.splits\<close>)
  then show ?thesis
    using ok cur by (auto simp: set_code_def set_code_ok_def intro!: parses_ret)
qed

lemma push_set_code_ok: "list_all item_ok items \<Longrightarrow> set_code_ok c \<Longrightarrow> list_all item_ok (push_set_code items c)"
  by (auto simp: push_set_code_def set_code_ok_def split: set_code.splits class_escape_result.splits)

lemma endpoint_valid: "set_code_ok c \<Longrightarrow> endpoint c = Some cp \<Longrightarrow> valid_cp cp"
  by (auto simp: endpoint_def set_code_ok_def split: set_code.splits class_escape_result.splits)

lemma ascii_valid: "valid_cp (code c)"
proof -
  have "code c < 256" unfolding code_def by (rule nat_of_char_less_256)
  then show ?thesis by (intro small_valid) simp
qed

definition set_progress :: "parser \<Rightarrow> set_item list + set_item list \<Rightarrow> parser \<Rightarrow> bool" where
  "set_progress s r t \<longleftrightarrow> (case r of Inl items \<Rightarrow> list_all item_ok items \<and> remaining t < remaining s
     | Inr items \<Rightarrow> list_all item_ok items)"

lemma parses_set_range:
  assumes ok: "parser_ok u" and less: "remaining u < remaining s"
    and c: "set_code_ok code1" "set_code_ok code2" and items: "list_all item_ok items"
  shows "parses (set_progress s) (case (endpoint code1, endpoint code2) of
      (Some lo, Some hi) \<Rightarrow>
        if hi < lo then fail ''bad character range'' k else pret (Inl (items @ [SetRange lo hi]))
    | _ \<Rightarrow> fail ''bad character range'' k) u"
  using ok less items endpoint_valid [OF c(1)] endpoint_valid [OF c(2)]
  by (auto simp: set_progress_def intro!: parses_ret parses_fail split: option.split)

lemma parses_set_second:
  assumes ok: "parser_ok t" and less: "remaining t < remaining s"
    and c: "set_code_ok code1" and items: "list_all item_ok items"
  shows "parses (set_progress s) (pbind get_token (\<lambda>got. pbind get_parser (\<lambda>s.
      case got of
        None \<Rightarrow> fail ''unterminated character set'' (tell s - here)
      | Some that \<Rightarrow>
          if that = [code CHR '']'']
          then pret (Inr (push_set_code items code1 @ [SetLiteral (code CHR ''-'')]))
          else pbind (set_code that) (\<lambda>code2.
               case (endpoint code1, endpoint code2) of
                 (Some lo, Some hi) \<Rightarrow>
                   if hi < lo then fail ''bad character range'' (k + length that)
                   else pret (Inl (items @ [SetRange lo hi]))
               | _ \<Rightarrow> fail ''bad character range'' (k + length that))))) t"
proof (rule parses_token_bind [OF ok], goal_cases)
  case (1 u)
  then have u: "parser_ok u" by (simp add: stepD)
  show ?case by (rule parses_get [OF u]) (simp add: parses_fail [OF u])
next
  case (2 that u)
  then have u: "parser_ok u" "remaining u < remaining s" using less by (simp_all add: stepD)
  show ?case
  proof (rule parses_get [OF u(1)], simp only: option.case, rule parses_if)
    show "parses (set_progress s) (pret (Inr (push_set_code items code1 @ [SetLiteral (code CHR ''-'')]))) u"
      using push_set_code_ok [OF items c] ascii_valid by (intro parses_ret [OF u(1)]) (simp add: set_progress_def)
  next
    show "parses (set_progress s) (pbind (set_code that) (\<lambda>code2.
               case (endpoint code1, endpoint code2) of
                 (Some lo, Some hi) \<Rightarrow>
                   if hi < lo then fail ''bad character range'' (k + length that)
                   else pret (Inl (items @ [SetRange lo hi]))
               | _ \<Rightarrow> fail ''bad character range'' (k + length that))) u"
    proof (rule parses_bind [OF parses_set_code [OF u(1) 2(2)]])
      fix code2 v
      assume v: "parser_step u v" and c2: "set_code_ok code2"
      have "remaining v < remaining s" using stepD(3) [OF v] u(2) by simp
      from parses_set_range [OF stepD(1) [OF v] this c c2 items]
      show "parses (set_progress s) (case (endpoint code1, endpoint code2) of
                 (Some lo, Some hi) \<Rightarrow>
                   if hi < lo then fail ''bad character range'' (k + length that)
                   else pret (Inl (items @ [SetRange lo hi]))
               | _ \<Rightarrow> fail ''bad character range'' (k + length that)) v" .
    qed
  qed
qed

lemma parses_set_member:
  assumes ok: "parser_ok s" and items: "list_all item_ok items"
  shows "parses (set_progress s) (set_member here items) s"
  unfolding set_member_def
proof (rule parses_token_bind [OF ok], goal_cases)
  case (1 t)
  then have t: "parser_ok t" by (simp add: stepD)
  show ?case by (rule parses_get [OF t]) (simp add: parses_fail [OF t])
next
  case (2 cur t)
  then have t: "parser_ok t" by (simp add: stepD)
  show ?case
  proof (rule parses_get [OF t], simp only: option.case, rule parses_if)
    show "parses (set_progress s) (pret (Inr items)) t"
      using items by (intro parses_ret [OF t]) (simp add: set_progress_def)
  next
    let ?second = "\<lambda>code1. pbind get_token (\<lambda>got. pbind get_parser (\<lambda>s.
      case got of
        None \<Rightarrow> fail ''unterminated character set'' (tell s - here)
      | Some that \<Rightarrow>
          if that = [code CHR '']'']
          then pret (Inr (push_set_code items code1 @ [SetLiteral (code CHR ''-'')]))
          else pbind (set_code that) (\<lambda>code2.
               case (endpoint code1, endpoint code2) of
                 (Some lo, Some hi) \<Rightarrow>
                   if hi < lo then fail ''bad character range'' (length cur + 1 + length that)
                   else pret (Inl (items @ [SetRange lo hi]))
               | _ \<Rightarrow> fail ''bad character range'' (length cur + 1 + length that))))"
    show "parses (set_progress s) (pbind (set_code cur) (\<lambda>code1.
         pbind (take_match CHR ''-'') (\<lambda>dash.
         if \<not> dash then pret (Inl (push_set_code items code1)) else ?second code1))) t"
    proof (rule parses_bind [OF parses_set_code [OF t 2(2)]])
      fix code1 u
      assume u: "parser_step t u" and c: "set_code_ok code1"
      have ok_u: "parser_ok u" and less: "remaining u < remaining s" using stepD [OF u] 2 by auto
      show "parses (set_progress s) (pbind (take_match CHR ''-'') (\<lambda>dash.
         if \<not> dash then pret (Inl (push_set_code items code1)) else ?second code1)) u"
      proof (rule parses_match_bind [OF ok_u], goal_cases)
        case (1 v)
        then have "parser_ok v" "remaining v < remaining s" using stepD(1) less by auto
        from parses_set_second [OF this c items] show ?case by simp
      next
        case 2
        show ?case using less push_set_code_ok [OF items c] by (auto simp: set_progress_def intro: parses_ret [OF ok_u])
      qed
    qed
  qed
qed

lemma uniq_set_ok: "list_all P items \<Longrightarrow> list_all P (uniq_set items)"
  by (simp add: uniq_set_def list_all_iff)

lemma parses_parse_set: "parser_ok s \<Longrightarrow> parses (\<lambda>op _. op_ok op) parse_set s"
  unfolding parse_set_def Let_def
proof (rule parses_get, assumption, rule parses_bind_ok [OF parses_take_match], assumption)
  fix negate t
  assume t: "parser_ok t"
  have loop: "parses (\<lambda>items _. list_all item_ok items) (ploop (set_member here) []) t" for here
  proof (rule parses_loop [where I = "\<lambda>items _. list_all item_ok items", OF _ t])
    fix items u
    assume "parser_ok u" "list_all item_ok items"
    from parses_set_member [OF this]
    show "parses (\<lambda>r v. case r of Inl j \<Rightarrow> list_all item_ok j \<and> remaining v < remaining u
        | Inr x \<Rightarrow> list_all item_ok x) (set_member here items) u"
      by (simp add: set_progress_def [abs_def])
  qed simp
  show "parses (\<lambda>op _. op_ok op) (pbind (ploop (set_member (tell s - 1)) []) (\<lambda>items.
      pret (case uniq_set items of
              [SetLiteral cp] \<Rightarrow> if negate then NotLiteral cp else Literal cp
            | _ \<Rightarrow> InSet (if negate then SetNegate # uniq_set items else uniq_set items)))) t"
  proof (rule parses_bind_ok [OF loop], rule parses_ret, assumption)
    fix items :: "set_item list"
    assume "list_all item_ok items"
    then have "list_all item_ok (uniq_set items)" by (rule uniq_set_ok)
    then show "op_ok (case uniq_set items of
              [SetLiteral cp] \<Rightarrow> if negate then NotLiteral cp else Literal cp
            | _ \<Rightarrow> InSet (if negate then SetNegate # uniq_set items else uniq_set items))"
      by (auto split: list.split set_item.split)
  qed
qed

section \<open>Repetition\<close>

lemma parses_digit_run: "parser_ok s \<Longrightarrow> parses (\<lambda>_ _. True) digit_run s"
  unfolding digit_run_def
proof (rule parses_loop [where I = "\<lambda>_ _. True"])
  fix ds :: "codepoint list" and t
  assume t: "parser_ok t"
  have "parses (\<lambda>r u. case r of Inl j \<Rightarrow> True \<and> remaining u < remaining t | Inr x \<Rightarrow> True)
      (pbind get_unwrap (\<lambda>c. pret (Inl (ds @ c)))) t" if "peeks DIGITS t"
    by (rule parses_unwrap_bind [OF t that]) (auto intro: parses_ret)
  then show "parses (\<lambda>r u. case r of Inl j \<Rightarrow> True \<and> remaining u < remaining t | Inr x \<Rightarrow> True)
      (pbind get_parser (\<lambda>s. if peeks DIGITS s then pbind get_unwrap (\<lambda>t. pret (Inl (ds @ t))) else pret (Inr ds))) t"
    by (intro parses_get [OF t] parses_if) (auto intro: parses_ret t)
qed auto

lemma parses_repeat_number: "parser_ok s \<Longrightarrow> parses (\<lambda>n _. n < MAXREPEAT) (repeat_number ds) s"
  by (auto simp: repeat_number_def split: option.split intro!: parses_ret parses_fail)

abbreviation repeat_ok :: "(nat \<times> nat) option \<Rightarrow> bool" where
  "repeat_ok \<equiv> pred_option (\<lambda>(mn, mx). bounds_ok mn mx)"

lemma parses_closed_bounds:
  assumes ok: "parser_ok s"
  shows "parses (\<lambda>r _. repeat_ok r)
    (pbind (if lo = [] then pret 0 else repeat_number lo) (\<lambda>mn.
       if hi = [] then pret (Some (mn, MAXREPEAT))
       else pbind (repeat_number hi) (\<lambda>mx.
            pbind get_parser (\<lambda>s.
            if mx < mn then fail ''min repeat greater than max repeat'' (tell s - here)
            else pret (Some (mn, mx)))))) s"
proof (rule parses_bind_ok [where P = "\<lambda>n _. n < MAXREPEAT"], rule parses_if)
  show "parses (\<lambda>n _. n < MAXREPEAT) (pret 0) s" by (rule parses_ret [OF ok]) (simp add: MAXREPEAT_def)
  show "parses (\<lambda>n _. n < MAXREPEAT) (repeat_number lo) s" by (rule parses_repeat_number [OF ok])
  fix mn t
  assume t: "parser_ok t" and mn: "mn < MAXREPEAT"
  have "parses (\<lambda>r _. repeat_ok r) (pbind (repeat_number hi) (\<lambda>mx. pbind get_parser (\<lambda>s.
      if mx < mn then fail ''min repeat greater than max repeat'' (tell s - here) else pret (Some (mn, mx))))) t"
    by (rule parses_bind_ok [OF parses_repeat_number [OF t]], rule parses_get)
       (auto simp: bounds_ok_def intro!: parses_ret parses_fail)
  then show "parses (\<lambda>r _. repeat_ok r) (if hi = [] then pret (Some (mn, MAXREPEAT))
      else pbind (repeat_number hi) (\<lambda>mx. pbind get_parser (\<lambda>s.
        if mx < mn then fail ''min repeat greater than max repeat'' (tell s - here)
        else pret (Some (mn, mx))))) t"
    using mn t by (auto simp: bounds_ok_def intro: parses_ret)
qed

lemma parses_from_if:
  "(b \<Longrightarrow> parses_from s Q m t) \<Longrightarrow> (\<not> b \<Longrightarrow> parses_from s Q m' t) \<Longrightarrow> parses_from s Q (if b then m else m') t"
  by simp

lemma parses_from_seek_bind:
  assumes ok: "parser_ok s" and st: "parser_step s t" and f: "\<And>u. parser_step s u \<Longrightarrow> parses_from s Q (f ()) u"
  shows "parses_from s Q (pbind (seek (tell s)) f) t"
proof -
  obtain r u where r: "seek (tell s) t = Some (r, u)"
    "case r of Inr x \<Rightarrow> parser_step s u \<and> True | Inl e \<Rightarrow> error_ok s e"
    using parses_seek [OF ok st] unfolding parses_from_def by blast
  show ?thesis
  proof (cases r)
    case (Inl e)
    then show ?thesis using r by (simp add: parses_from_def pbind_def)
  next
    case (Inr x)
    then show ?thesis using r f [of u] by (simp add: parses_from_def pbind_def)
  qed
qed

lemma parses_brace_bounds:
  assumes ok: "parser_ok s"
  shows "parses (\<lambda>r _. repeat_ok r) (brace_bounds (tell s)) s"
  unfolding brace_bounds_def
proof (rule parses_get [OF ok], rule parses_if)
  show "parses (\<lambda>r _. repeat_ok r) (pret None) s" by (rule parses_ret [OF ok]) simp
next
  let ?Q = "\<lambda>r _. repeat_ok r" and ?here = "tell s"
  let ?closed = "\<lambda>lo hi. pbind (if lo = [] then pret 0 else repeat_number lo) (\<lambda>mn.
       if hi = [] then pret (Some (mn, MAXREPEAT))
       else pbind (repeat_number hi) (\<lambda>mx.
            pbind get_parser (\<lambda>s.
            if mx < mn then fail ''min repeat greater than max repeat'' (tell s - ?here)
            else pret (Some (mn, mx)))))"
  let ?finish = "\<lambda>lo hi. pbind (take_match CHR ''}'') (\<lambda>closed.
          if \<not> closed then pbind (seek ?here) (\<lambda>_. pret None) else ?closed lo hi)"
  have last_part: "parses_from s ?Q (?finish lo hi) t" if st: "parser_step s t" for lo hi t
  proof (rule parses_from_bind [OF parses_take_match [OF stepD(1) [OF st]] st], rule parses_from_if)
    fix u assume u: "parser_step s u"
    show "parses_from s ?Q (pbind (seek ?here) (\<lambda>_. pret None)) u"
      by (rule parses_from_seek_bind [OF ok u], rule parses_from_later, assumption)
         (auto intro: parses_ret dest: stepD)
    show "parses_from s ?Q (?closed lo hi) u"
      by (rule parses_from_later [OF u parses_closed_bounds [OF stepD(1) [OF u]]])
  qed
  have "parses_from s ?Q (pbind digit_run (\<lambda>lo.
          pbind (take_match CHR '','') (\<lambda>comma.
          pbind (if comma then digit_run else pret lo) (\<lambda>hi. ?finish lo hi)))) s"
  proof (rule parses_from_bind [OF parses_digit_run [OF ok] step_refl [OF ok]])
    fix lo t assume t: "parser_step s t"
    show "parses_from s ?Q (pbind (take_match CHR '','') (\<lambda>comma.
          pbind (if comma then digit_run else pret lo) (\<lambda>hi. ?finish lo hi))) t"
    proof (rule parses_from_bind [OF parses_take_match [OF stepD(1) [OF t]] t])
      fix comma u assume u: "parser_step s u"
      have "parses (\<lambda>_ _. True) (if comma then digit_run else pret lo) u"
        by (auto intro: parses_digit_run [OF stepD(1) [OF u]] parses_ret [OF stepD(1) [OF u]])
      then show "parses_from s ?Q (pbind (if comma then digit_run else pret lo) (\<lambda>hi. ?finish lo hi)) u"
        by (rule parses_from_bind [OF _ u]) (rule last_part)
    qed
  qed
  then show "parses ?Q (pbind digit_run (\<lambda>lo.
          pbind (take_match CHR '','') (\<lambda>comma.
          pbind (if comma then digit_run else pret lo) (\<lambda>hi. ?finish lo hi)))) s"
    by (simp only: parses_from_self)
qed

lemma parses_repeat_bounds:
  assumes ok: "parser_ok s" and tok: "tok \<in> {[code CHR ''?''], [code CHR ''*''], [code CHR ''+''], [code CHR ''{'']}"
  shows "parses (\<lambda>r _. repeat_ok r) (repeat_bounds tok (tell s)) s"
proof -
  have brace: "parses (\<lambda>r _. repeat_ok r) (pbind (internal (tok = [code CHR ''{''])) (\<lambda>_. brace_bounds (tell s))) s"
    if "tok = [code CHR ''{'']"
    by (rule parses_bind [OF parses_internal [OF that ok, where Q = "\<lambda>_ t. t = s"]])
       (auto intro: parses_brace_bounds [OF ok])
  have "bounds_ok 0 1" "bounds_ok 0 MAXREPEAT" "bounds_ok 1 MAXREPEAT"
    by (simp_all add: bounds_ok_def MAXREPEAT_def)
  then have simple: "parses (\<lambda>r _. repeat_ok r) (pret (Some (0, 1))) s"
      "parses (\<lambda>r _. repeat_ok r) (pret (Some (0, MAXREPEAT))) s"
      "parses (\<lambda>r _. repeat_ok r) (pret (Some (1, MAXREPEAT))) s"
    by (auto intro: parses_ret [OF ok])
  show ?thesis
    unfolding repeat_bounds_def by (intro parses_if simple brace) (use tok in blast)
qed

lemma repeat_operand_ok: "op_ok op \<Longrightarrow> pattern_ok (repeat_operand op)"
  by (auto simp: repeat_operand_def split: opcode.split option.split)

lemma parses_parse_repeat:
  assumes ok: "parser_ok s" and sub: "pattern_ok sub"
    and tok: "tok \<in> {[code CHR ''?''], [code CHR ''*''], [code CHR ''+''], [code CHR ''{'']}"
  shows "parses (\<lambda>sub _. pattern_ok sub) (parse_repeat tok sub) s"
  unfolding parse_repeat_def Let_def
proof (rule parses_get [OF ok], rule parses_bind_ok [OF parses_repeat_bounds [OF ok tok]])
  fix bounds t
  assume t: "parser_ok t" and b: "repeat_ok bounds"
  let ?Q = "\<lambda>sub _. pattern_ok sub"
  have front: "pattern_ok (butlast sub)" using sub by (auto simp: list_all_iff dest: in_set_butlastD)
  have repeat: "parses ?Q (pbind (take_match CHR ''?'') (\<lambda>lazy.
       pbind (if lazy then pret False else take_match CHR ''+'') (\<lambda>possessive.
       pret (butlast sub @
         [if lazy then MinRepeat mn mx (repeat_operand op)
          else if possessive then PossessiveRepeat mn mx (repeat_operand op)
          else MaxRepeat mn mx (repeat_operand op)])))) t"
    if "bounds_ok mn mx" "op_ok op" for mn mx op
  proof (rule parses_bind_ok [OF parses_take_match [OF t]])
    fix lazy u assume u: "parser_ok u"
    have "parses (\<lambda>_ _. True) (if lazy then pret False else take_match CHR ''+'') u"
      by (rule parses_if) (auto intro: parses_ret u parses_weaken [OF parses_take_match [OF u]])
    then show "parses ?Q (pbind (if lazy then pret False else take_match CHR ''+'') (\<lambda>possessive.
       pret (butlast sub @
         [if lazy then MinRepeat mn mx (repeat_operand op)
          else if possessive then PossessiveRepeat mn mx (repeat_operand op)
          else MaxRepeat mn mx (repeat_operand op)]))) u"
      by (rule parses_bind_ok)
         (use that repeat_operand_ok [of op] front in \<open>auto intro!: parses_ret\<close>)
  qed
  have last: "op_ok (last sub)" if "sub \<noteq> []" using sub that by (simp add: list_all_iff)
  show "parses ?Q (case bounds of
       None \<Rightarrow> pret (sub @ [Literal (code CHR ''{'')])
     | Some (mn, mx) \<Rightarrow>
         pbind get_parser (\<lambda>s'.
         if sub = [] then fail ''nothing to repeat'' (tell s' - tell s + length tok)
         else case last sub of
                At _ \<Rightarrow> fail ''nothing to repeat'' (tell s' - tell s + length tok)
              | op \<Rightarrow>
                  if is_repeat_opcode op then fail ''multiple repeat'' (tell s' - tell s + length tok)
                  else pbind (take_match CHR ''?'') (\<lambda>lazy.
                       pbind (if lazy then pret False else take_match CHR ''+'') (\<lambda>possessive.
                       pret (butlast sub @
                         [if lazy then MinRepeat mn mx (repeat_operand op)
                          else if possessive then PossessiveRepeat mn mx (repeat_operand op)
                          else MaxRepeat mn mx (repeat_operand op)]))))) t"
  proof (cases bounds)
    case None
    then show ?thesis using sub ascii_valid by (auto intro!: parses_ret [OF t])
  next
    case (Some b')
    then obtain mn mx where bnd: "bounds = Some (mn, mx)" "bounds_ok mn mx" using b by (cases b') auto
    have "parses ?Q (case op of
                At _ \<Rightarrow> fail ''nothing to repeat'' k
              | op \<Rightarrow>
                  if is_repeat_opcode op then fail ''multiple repeat'' k
                  else pbind (take_match CHR ''?'') (\<lambda>lazy.
                       pbind (if lazy then pret False else take_match CHR ''+'') (\<lambda>possessive.
                       pret (butlast sub @
                         [if lazy then MinRepeat mn mx (repeat_operand op)
                          else if possessive then PossessiveRepeat mn mx (repeat_operand op)
                          else MaxRepeat mn mx (repeat_operand op)])))) t" if "op_ok op" for op k
      by (cases op; use repeat [OF bnd(2) that] in \<open>simp only: opcode.case\<close>; intro parses_if parses_fail t; (assumption | simp))
    then show ?thesis
      using last bnd by (simp only: option.case prod.case) (intro parses_get t parses_if parses_fail; simp)
  qed
qed

section \<open>Flags\<close>

definition flag_token :: "token \<Rightarrow> bool" where
  "flag_token ch \<longleftrightarrow> flag_of ch \<noteq> None"

lemma parses_flag_error: "parser_ok s \<Longrightarrow> token_ok ch \<Longrightarrow> reported msg \<Longrightarrow> parses Q (flag_error U ch msg) s"
  unfolding flag_error_def by (cases ch) (auto simp: token_ok_def intro!: parses_fail)

text \<open>A loop over flags reads one token a round.\<close>

definition flags_step :: "(token \<Rightarrow> bool) \<Rightarrow> parser \<Rightarrow> token \<times> u32 + token \<times> u32 \<Rightarrow> parser \<Rightarrow> bool" where
  "flags_step final s r t \<longleftrightarrow> (case r of Inl p \<Rightarrow> flag_token (fst p) \<and> remaining t < remaining s
     | Inr p \<Rightarrow> final (fst p))"

definition ends_added :: "token \<Rightarrow> bool" where
  "ends_added ch \<longleftrightarrow> ch = [code CHR '')''] \<or> ch = [code CHR ''-''] \<or> ch = [code CHR '':'']"

lemma parses_add_flag:
  assumes ok: "parser_ok s" and p: "flag_token (fst p)"
  shows "parses (flags_step ends_added s) (add_flag U p) s"
proof (cases p)
  case (Pair ch add_flags)
  then obtain flag where flag: "flag_of ch = Some flag" using p by (auto simp: flag_token_def)
  show ?thesis
    unfolding Pair add_flag_def flag prod.case option.case Let_def
  proof ((intro parses_if parses_fail ok; (simp; fail)?), rule parses_token_bind [OF ok], goal_cases)
    case (1 t)
    show ?case using stepD(1) [OF 1(3)] by (simp add: parses_fail)
  next
    case (2 ch' t)
    have t: "parser_ok t" using stepD(1) [OF 2(3)] .
    show ?case unfolding option.case
      by (intro parses_if parses_flag_error parses_ret t 2) (use 2 in \<open>auto simp: flags_step_def ends_added_def flag_token_def\<close>)
  qed
qed

lemma parses_del_flag:
  assumes ok: "parser_ok s" and p: "flag_token (fst p)"
  shows "parses (flags_step (\<lambda>ch. ch = [code CHR '':'']) s) (del_flag U p) s"
proof (cases p)
  case (Pair ch del_flags)
  then obtain flag where flag: "flag_of ch = Some flag" using p by (auto simp: flag_token_def)
  show ?thesis
    unfolding Pair del_flag_def flag prod.case option.case Let_def
  proof ((intro parses_if parses_fail ok; (simp; fail)?), rule parses_token_bind [OF ok], goal_cases)
    case (1 t)
    show ?case using stepD(1) [OF 1(2)] by (simp add: parses_fail)
  next
    case (2 ch' t)
    have t: "parser_ok t" using stepD(1) [OF 2(2)] .
    show ?case unfolding option.case
      by (intro parses_if parses_flag_error parses_ret t 2) (use 2 in \<open>auto simp: flags_step_def flag_token_def\<close>)
  qed
qed

lemma parses_flag_loop:
  assumes "\<And>p t. parser_ok t \<Longrightarrow> flag_token (fst p) \<Longrightarrow> parses (flags_step final t) (body p) t"
    and "parser_ok s" "flag_token (fst p)"
  shows "parses (\<lambda>q _. final (fst q)) (ploop body p) s"
  by (rule parses_loop [where I = "\<lambda>p _. flag_token (fst p)"])
     (use assms in \<open>auto simp: flags_step_def [abs_def]\<close>)

lemma parses_negative_flags:
  assumes ok: "parser_ok s"
  shows "parses (\<lambda>p _. fst p = [code CHR '':'']) (negative_flags U) s"
  unfolding negative_flags_def
proof (rule parses_token_bind [OF ok], goal_cases)
  case (1 t)
  show ?case using stepD(1) [OF 1(1)] by (simp add: parses_fail)
next
  case (2 ch t)
  have t: "parser_ok t" using stepD(1) [OF 2(1)] .
  show ?case unfolding option.case
    by (intro parses_if parses_flag_error t 2 parses_flag_loop parses_del_flag) (auto simp: flag_token_def)
qed

lemma parser_ok_flags: "parser_ok s \<Longrightarrow> parser_step s (s\<lparr>ps_flags := f\<rparr>)"
  by (simp add: parser_step_def parser_ok_def next_length_def ps_groups_def remaining_def)

lemma parses_parse_flags:
  assumes ok: "parser_ok s" and ch: "flag_token ch \<or> ch = [code CHR ''-'']"
  shows "parses (\<lambda>_ _. True) (parse_flags U ch) s"
  unfolding parse_flags_def
proof (rule parses_bind_ok [where P = "\<lambda>p _. ends_added (fst p)"])
  show "parses (\<lambda>p _. ends_added (fst p)) (if ch = [code CHR ''-''] then pret (ch, 0) else ploop (add_flag U) (ch, 0)) s"
    by (intro parses_if parses_ret ok parses_flag_loop parses_add_flag) (use ch in \<open>auto simp: ends_added_def\<close>)
next
  fix p :: "token \<times> u32" and t
  assume t: "parser_ok t" and p: "ends_added (fst p)"
  obtain ch' add_flags where p': "p = (ch', add_flags)" by (cases p)
  show "parses (\<lambda>_ _. True) (case p of (ch, add_flags) \<Rightarrow>
     if ch = [code CHR '')'']
     then pbind (update (\<lambda>s. s\<lparr>ps_flags := ps_flags s OR add_flags\<rparr>)) (\<lambda>_. pret None)
     else pbind (if ch = [code CHR ''-''] then negative_flags U else pret (ch, 0)) (\<lambda>(ch, del_flags).
          pbind (internal (ch = [code CHR '':''])) (\<lambda>_.
          if add_flags AND del_flags \<noteq> 0 then fail ''bad inline flags: flag turned on and off'' 1
          else pret (Some (add_flags, del_flags))))) t"
    unfolding p' prod.case
  proof (rule parses_if)
    show "parses (\<lambda>_ _. True) (pbind (update (\<lambda>s. s\<lparr>ps_flags := ps_flags s OR add_flags\<rparr>)) (\<lambda>_. pret None)) t"
      proof (rule parses_bind_ok)
      show "parses (\<lambda>_ _. True) (update (\<lambda>s. s\<lparr>ps_flags := ps_flags s OR add_flags\<rparr>)) t"
        by (rule parses_update) (simp_all add: parser_ok_flags [OF t])
    qed (auto intro: parses_ret)
  next
    assume "ch' \<noteq> [code CHR '')'']"
    then have "parses (\<lambda>p _. fst p = [code CHR '':''])
        (if ch' = [code CHR ''-''] then negative_flags U else pret (ch', 0)) t"
      using p p' by (intro parses_if parses_negative_flags parses_ret t) (auto simp: ends_added_def)
    then show "parses (\<lambda>_ _. True) (pbind (if ch' = [code CHR ''-''] then negative_flags U else pret (ch', 0)) (\<lambda>(ch, del_flags).
          pbind (internal (ch = [code CHR '':''])) (\<lambda>_.
          if add_flags AND del_flags \<noteq> 0 then fail ''bad inline flags: flag turned on and off'' 1
          else pret (Some (add_flags, del_flags))))) t"
    proof (rule parses_bind_ok, goal_cases)
      case (1 q u)
      show ?case
        unfolding case_prod_beta
        by (rule parses_bind_ok [OF parses_internal [OF 1(2) 1(1), where Q = "\<lambda>_ _. True"]])
           (auto intro!: parses_ret parses_fail)
    qed
  qed
qed

section \<open>Groups\<close>

definition group_ok :: "group_start \<Rightarrow> bool" where
  "group_ok g \<longleftrightarrow> (case g of OpenGroup capture atomic _ _ _ \<Rightarrow> \<not> (capture \<and> atomic)
     | GroupDone ops \<Rightarrow> pattern_ok ops | GlobalFlags \<Rightarrow> True)"

text \<open>A sequence stops at the end of the pattern, at a bar or at a closing parenthesis.\<close>

definition sequence_ok :: "opcode list \<Rightarrow> parser \<Rightarrow> bool" where
  "sequence_ok p t \<longleftrightarrow> pattern_ok p \<and> tk_next t \<in> {None, Some [code CHR ''|''], Some [code CHR '')'']}"

definition alternation_ok :: "opcode list \<Rightarrow> parser \<Rightarrow> bool" where
  "alternation_ok p t \<longleftrightarrow> pattern_ok p \<and> tk_next t \<in> {None, Some [code CHR '')'']}"

definition sub_ok :: "(opcode list \<Rightarrow> parser \<Rightarrow> bool) \<Rightarrow> sub_parser \<Rightarrow> bool" where
  "sub_ok Q m \<longleftrightarrow> (\<forall>verbose s. parser_ok s \<longrightarrow> parses Q (m verbose) s)"

lemma sub_okD: "sub_ok Q m \<Longrightarrow> parser_ok s \<Longrightarrow> parses Q (m verbose) s"
  by (simp add: sub_ok_def)

lemma sub_weaken:
  assumes "sub_ok P m" "\<And>p t. P p t \<Longrightarrow> Q p t"
  shows "sub_ok Q m"
  using assms parses_weaken [of P _ _ Q] by (simp add: sub_ok_def)

lemma parser_ok_opened:
  assumes ok: "parser_ok s" and g: "\<not> MAXGROUPS < Suc (ps_groups s)"
    and d: "d = ps_groupdict s \<or> d = (ps_groupdict s)(n \<mapsto> ps_groups s)"
  shows "parser_step s (s\<lparr>ps_groupdict := d, ps_groupwidths := ps_groupwidths s @ [None]\<rparr>)"
proof -
  have "g' < Suc (ps_groups s)" if "d m = Some g'" for m g'
    using that d parser_okD(6) [OF ok, of m g'] by (auto split: if_splits intro: less_SucI)
  then show ?thesis
    using ok g by (auto simp: parser_step_def parser_ok_def next_length_def ps_groups_def remaining_def)
qed

lemma parses_opengroup:
  assumes ok: "parser_ok s"
  shows "parses (\<lambda>g t. g < MAXGROUPS) (opengroup name) s"
proof -
  let ?s = "s\<lparr>ps_groupwidths := ps_groupwidths s @ [None]\<rparr>"
  have g: "ps_groups ?s = Suc (ps_groups s)" by (simp add: ps_groups_def)
  have same: "s\<lparr>ps_groupdict := ps_groupdict s, ps_groupwidths := w\<rparr> = s\<lparr>ps_groupwidths := w\<rparr>"
      "s\<lparr>ps_groupwidths := w, ps_groupdict := d\<rparr> = s\<lparr>ps_groupdict := d, ps_groupwidths := w\<rparr>" for w d
    by (cases s, simp)+
  show ?thesis
    using parser_ok_opened [OF ok, of "ps_groupdict s"] parser_ok_opened [OF ok, of "(ps_groupdict s)(the name \<mapsto> ps_groups s)" "the name"]
      less_eq_Suc_le [of "ps_groups s" MAXGROUPS]
    by (auto simp: parses_def pbind_def opengroup_def get_parser_def update_def fail_at_def error_ok_def Let_def g same
        split: option.splits)
qed

lemma parses_closegroup: "parser_ok s \<Longrightarrow> parses (\<lambda>_ _. True) (closegroup g) s"
  unfolding closegroup_def
  by (rule parses_update) (auto simp: parser_step_def parser_ok_def next_length_def ps_groups_def remaining_def)

lemma parses_close_paren: "parser_ok s \<Longrightarrow> parses (\<lambda>_ _. True) (close_paren start) s"
  unfolding close_paren_def
  by (rule parses_bind_ok [OF parses_take_match], assumption, rule parses_get)
     (auto intro: parses_ret parses_fail)

lemma parses_name_bind:
  assumes ok: "parser_ok s" and f: "\<And>n t. parser_ok t \<Longrightarrow> parses Q (f n) t"
  shows "parses Q (pbind (getuntil c) (\<lambda>n. pbind (checkgroupname U n k) (\<lambda>_. f n))) s"
  by (rule parses_bind_ok [OF parses_getuntil [OF ok]], rule parses_bind_ok [OF parses_checkgroupname])
     (auto intro: f)

lemma parses_named_reference:
  assumes ok: "parser_ok s"
  shows "parses (\<lambda>g _. group_ok g) (pbind get_parser (\<lambda>s.
      case ps_groupdict s n of
        None \<Rightarrow> fail ''unknown group name'' (length n + 1)
      | Some gid \<Rightarrow>
          if \<not> checkgroup s gid then fail ''cannot refer to an open group'' (length n + 1)
          else pbind (checklookbehindgroup gid) (\<lambda>_. pret (GroupDone [GroupRef gid])))) s"
proof (rule parses_get [OF ok])
  have "parses (\<lambda>g _. group_ok g) (pbind (checklookbehindgroup gid) (\<lambda>_. pret (GroupDone [GroupRef gid]))) s"
    if "ps_groupdict s n = Some gid" for gid
    by (rule parses_bind_ok [OF parses_checklookbehind [OF ok]])
       (use parser_okD(5,6) [OF ok] that in \<open>force simp: group_ok_def intro!: parses_ret\<close>)
  then show "parses (\<lambda>g _. group_ok g) (case ps_groupdict s n of
        None \<Rightarrow> fail ''unknown group name'' (length n + 1)
      | Some gid \<Rightarrow>
          if \<not> checkgroup s gid then fail ''cannot refer to an open group'' (length n + 1)
          else pbind (checklookbehindgroup gid) (\<lambda>_. pret (GroupDone [GroupRef gid]))) s"
    by (auto split: option.split intro: parses_fail [OF ok])
qed

lemma parses_named_group:
  assumes ok: "parser_ok s"
  shows "parses (\<lambda>g _. group_ok g) (named_group U) s"
  unfolding named_group_def
proof (rule parses_bind_ok [OF parses_take_match [OF ok]], rule parses_if)
  fix t assume t: "parser_ok t"
  show "parses (\<lambda>g _. group_ok g) (pbind (getuntil CHR ''>'') (\<lambda>n.
      pbind (checkgroupname U n 1) (\<lambda>_. pret (OpenGroup True False (Some n) 0 0)))) t"
    by (rule parses_name_bind [OF t]) (auto simp: group_ok_def intro: parses_ret)
  have unknown: "parses (\<lambda>g _. group_ok g) (pbind get_token (\<lambda>got.
      case got of None \<Rightarrow> fail ''unexpected end of pattern'' 0
                | Some ch2 \<Rightarrow> fail ''unknown extension ?P'' (length ch2 + 2))) u" if "parser_ok u" for u
    by (rule parses_token_bind [OF that]) (auto intro: parses_fail stepD)
  show "parses (\<lambda>g _. group_ok g) (pbind (take_match CHR ''='') (\<lambda>reference.
      if reference
      then pbind (getuntil CHR '')'') (\<lambda>n. pbind (checkgroupname U n 1) (\<lambda>_. pbind get_parser (\<lambda>s.
           case ps_groupdict s n of
             None \<Rightarrow> fail ''unknown group name'' (length n + 1)
           | Some gid \<Rightarrow>
               if \<not> checkgroup s gid then fail ''cannot refer to an open group'' (length n + 1)
               else pbind (checklookbehindgroup gid) (\<lambda>_. pret (GroupDone [GroupRef gid])))))
      else pbind get_token (\<lambda>got.
           case got of None \<Rightarrow> fail ''unexpected end of pattern'' 0
                     | Some ch2 \<Rightarrow> fail ''unknown extension ?P'' (length ch2 + 2)))) t"
    by (rule parses_bind_ok [OF parses_take_match [OF t]], rule parses_if)
       (rule unknown, assumption | rule parses_name_bind, assumption, rule parses_named_reference, assumption)+
qed

lemma parses_comment_group: "parser_ok s \<Longrightarrow> parses (\<lambda>g _. group_ok g) (comment_group start) s"
  unfolding comment_group_def
proof (rule parses_loop [where I = "\<lambda>_ _. True"])
  fix i :: unit and t
  assume t: "parser_ok t"
  show "parses (\<lambda>r u. case r of Inl j \<Rightarrow> True \<and> remaining u < remaining t | Inr g \<Rightarrow> group_ok g)
      (pbind get_parser (\<lambda>s.
       if tk_next s = None then fail ''missing ), unterminated comment'' (tell s - start)
       else pbind get_token (\<lambda>got.
            pret (if got = Some [code CHR '')''] then Inr (GroupDone []) else Inl ())))) t"
  proof (rule parses_get [OF t], rule parses_if)
    assume "tk_next t \<noteq> None"
    then show "parses (\<lambda>r u. case r of Inl j \<Rightarrow> True \<and> remaining u < remaining t | Inr g \<Rightarrow> group_ok g)
        (pbind get_token (\<lambda>got. pret (if got = Some [code CHR '')''] then Inr (GroupDone []) else Inl ()))) t"
      by (intro parses_token_bind [OF t]) (auto simp: group_ok_def intro!: parses_ret stepD)
  qed (simp add: parses_fail t)
qed auto

lemma parser_ok_lookbehind: "parser_ok s \<Longrightarrow> parser_step s (s\<lparr>ps_lookbehindgroups := g\<rparr>)"
  by (simp add: parser_step_def parser_ok_def next_length_def ps_groups_def remaining_def)

lemma parses_update_ok: "(\<And>s. parser_ok s \<Longrightarrow> parser_step s (f s)) \<Longrightarrow> parser_ok s \<Longrightarrow> parses (\<lambda>_ _. True) (update f) s"
  by (rule parses_update) auto

lemma parses_look_marker:
  assumes ok: "parser_ok s"
  shows "parses (\<lambda>_ _. True) (look_marker ch) s"
  unfolding look_marker_def
proof (rule parses_if, rule parses_token_bind [OF ok], goal_cases)
  case (1 t)
  then show ?case by (simp add: parses_fail stepD)
next
  case (2 c t)
  then have t: "parser_ok t" by (simp add: stepD)
  have enter: "parses (\<lambda>_ _. True) (update enter_lookbehind) t"
    by (rule parses_update_ok [OF _ t]) (simp add: enter_lookbehind_def step_refl parser_ok_lookbehind)
  have "parses (\<lambda>_ _. True) (pbind get_parser (\<lambda>s. pbind (update enter_lookbehind) (\<lambda>_.
      pret (-1, c, Some (ps_lookbehindgroups s))))) t"
    by (rule parses_get [OF t], rule parses_bind_ok [OF enter]) (auto intro: parses_ret)
  then show ?case using t by (auto intro: parses_fail)
qed (auto intro: parses_ret ok)

lemma parses_look_group:
  assumes ok: "parser_ok s" and sub: "sub_ok alternation_ok psub"
  shows "parses (\<lambda>g _. group_ok g) (look_group psub verbose start ch) s"
  unfolding look_group_def
proof (rule parses_bind_ok [OF parses_look_marker [OF ok]], goal_cases)
  case (1 m t)
  obtain dir marker saved where m: "m = (dir, marker, saved)" by (cases m)
  show ?case
    unfolding m prod.case
  proof (rule parses_bind_ok [OF sub_okD [OF sub 1(1)]])
    fix p u assume u: "parser_ok u" and p: "alternation_ok p u"
    have leave: "parses (\<lambda>_ _. True)
        (update (\<lambda>s. if dir < 0 \<and> saved = Some None then s\<lparr>ps_lookbehindgroups := None\<rparr> else s)) u"
      by (rule parses_update_ok [OF _ u]) (simp add: step_refl parser_ok_lookbehind)
    show "parses (\<lambda>g _. group_ok g)
       (pbind (update (\<lambda>s. if dir < 0 \<and> saved = Some None then s\<lparr>ps_lookbehindgroups := None\<rparr> else s)) (\<lambda>_.
        pbind (close_paren start) (\<lambda>_. pret (GroupDone
         [if marker = [code CHR ''=''] then Assert dir p
          else if p \<noteq> [] then AssertNot dir p
          else Failure])))) u"
      by (rule parses_bind_ok [OF leave], rule parses_bind_ok [OF parses_close_paren], assumption)
         (use p in \<open>auto simp: alternation_ok_def group_ok_def intro!: parses_ret\<close>)
  qed
qed

lemma parses_condition_number:
  assumes ok: "parser_ok s"
  shows "parses (\<lambda>n _. n < MAXGROUPS) (condition_number name) s"
proof -
  have "parses (\<lambda>n _. n < MAXGROUPS) (pbind (update (\<lambda>s.
      if n \<in> fst ` set (ps_grouprefpos s) then s
      else s\<lparr>ps_grouprefpos := ps_grouprefpos s @ [(n, tell s - (length name + 1))]\<rparr>)) (\<lambda>_. pret n)) s"
    if "n < MAXGROUPS" for n
  proof (rule parses_bind_ok [OF parses_update_ok [OF _ ok]])
    fix t assume t: "parser_ok t"
    then show "parser_step t (if n \<in> fst ` set (ps_grouprefpos t) then t
        else t\<lparr>ps_grouprefpos := ps_grouprefpos t @ [(n, tell t - (length name + 1))]\<rparr>)"
      using parser_okD(1) [OF t]
      by (auto simp: step_refl parser_step_def parser_ok_def next_length_def ps_groups_def remaining_def tell_def)
  qed (use that in \<open>auto intro: parses_ret\<close>)
  then show ?thesis
    by (auto simp: condition_number_def split: option.split intro!: parses_fail [OF ok])
qed

lemma parses_condition_group:
  assumes ok: "parser_ok s"
  shows "parses (\<lambda>n _. n < MAXGROUPS) (condition_group U name) s"
  unfolding condition_group_def
proof (rule parses_if, rule parses_bind_ok [OF parses_checkgroupname [OF ok]], rule parses_get, assumption)
  fix t assume t: "parser_ok t"
  show "parses (\<lambda>n _. n < MAXGROUPS) (case ps_groupdict t name of
      None \<Rightarrow> fail ''unknown group name'' (length name + 1) | Some g \<Rightarrow> pret g) t"
    using parser_okD(5,6) [OF t] by (force split: option.split intro: parses_fail [OF t] parses_ret [OF t])
qed (rule parses_condition_number [OF ok])

lemma parses_conditional_group:
  assumes ok: "parser_ok s" and seq: "sub_ok sequence_ok pseq"
  shows "parses (\<lambda>g _. group_ok g) (conditional_group U pseq verbose start) s"
  unfolding conditional_group_def
proof (rule parses_bind_ok [OF parses_getuntil [OF ok]], rule parses_bind_ok [OF parses_condition_group], assumption,
    rule parses_bind_ok [OF parses_checklookbehind], assumption, rule parses_bind_ok [OF sub_okD [OF seq]], assumption,
    rule parses_bind_ok [OF parses_take_match], assumption)
  fix g yes bar t
  assume g: "g < MAXGROUPS" and t: "parser_ok t"
  fix u assume "sequence_ok yes u"
  then have yes: "pattern_ok yes" by (simp add: sequence_ok_def)
  have no: "parses (\<lambda>no _. pred_option pattern_ok no) (if \<not> bar then pret None
      else pbind (pseq verbose) (\<lambda>no. pbind get_parser (\<lambda>s.
        if peek_next_char s = Some (code CHR ''|'')
        then fail ''conditional backref with more than two branches'' 0
        else pret (Some no)))) t"
    by (rule parses_if, rule parses_ret [OF t], simp, rule parses_bind_ok [OF sub_okD [OF seq t]], rule parses_get)
       (auto simp: sequence_ok_def intro: parses_ret parses_fail)
  show "parses (\<lambda>g _. group_ok g) (pbind (if \<not> bar then pret None
      else pbind (pseq verbose) (\<lambda>no. pbind get_parser (\<lambda>s.
        if peek_next_char s = Some (code CHR ''|'')
        then fail ''conditional backref with more than two branches'' 0
        else pret (Some no)))) (\<lambda>no. pbind (close_paren start) (\<lambda>_. pret (GroupDone [GroupRefExists g yes no])))) t"
    by (rule parses_bind_ok [OF no], rule parses_bind_ok [OF parses_close_paren], assumption)
       (use g yes in \<open>auto simp: group_ok_def intro!: parses_ret\<close>)
qed

lemma parses_flag_group:
  assumes ok: "parser_ok s" and ch: "flag_of ch \<noteq> None \<or> ch = [code CHR ''-'']"
  shows "parses (\<lambda>g _. group_ok g) (flag_group U first e start ch) s"
proof -
  have hd: "flag_token [hd ch] \<or> [hd ch] = [code CHR ''-'']"
    using ch by (auto simp: flag_token_def flag_of_def split: list.splits)
  show ?thesis
    unfolding flag_group_def
    by (rule parses_bind_ok [OF parses_parse_flags [OF ok hd]], rule parses_get)
       (auto simp: group_ok_def intro!: parses_ret parses_fail split: option.split)
qed

lemma parses_group_extension:
  assumes ok: "parser_ok s" and sub: "sub_ok alternation_ok psub" and seq: "sub_ok sequence_ok pseq"
  shows "parses (\<lambda>g _. group_ok g) (group_extension U psub pseq verbose first e start) s"
  unfolding group_extension_def
proof (rule parses_token_bind [OF ok], goal_cases)
  case (1 t)
  then show ?case by (simp add: parses_fail stepD)
next
  case (2 ch t)
  then have t: "parser_ok t" by (simp add: stepD)
  have simple: "parses (\<lambda>g _. group_ok g) (pret (OpenGroup False a None 0 0)) t" for a
    by (rule parses_ret [OF t]) (simp add: group_ok_def)
  show ?case
    unfolding option.case
    by (intro parses_if parses_named_group simple parses_comment_group parses_look_group
        parses_conditional_group parses_flag_group parses_fail t sub seq) simp_all
qed

lemma parses_group_body:
  assumes ok: "parser_ok s" and sub: "sub_ok alternation_ok psub" and a: "\<not> (capture \<and> atomic)"
  shows "parses (\<lambda>op _. op_ok op) (group_body psub verbose start capture atomic name add del) s"
  unfolding group_body_def
proof (rule parses_bind_ok)
  show "parses (\<lambda>g _. pred_option (\<lambda>g. g < MAXGROUPS) g \<and> (g = None \<longleftrightarrow> \<not> capture))
      (if capture then pbind (opengroup name) (\<lambda>g. pret (Some g)) else pret None) s"
    by (rule parses_if, rule parses_bind_ok [OF parses_opengroup [OF ok]])
       (auto intro: parses_ret ok)
next
  fix g t
  assume t: "parser_ok t" and g: "pred_option (\<lambda>g. g < MAXGROUPS) g \<and> (g = None \<longleftrightarrow> \<not> capture)"
  let ?verbose = "(verbose \<or> has_flag add SRE_FLAG_VERBOSE) \<and> \<not> has_flag del SRE_FLAG_VERBOSE"
  show "parses (\<lambda>op _. op_ok op) (pbind (psub ?verbose) (\<lambda>p.
     pbind (close_paren start) (\<lambda>_.
     pbind (case g of Some g \<Rightarrow> closegroup g | None \<Rightarrow> pret ()) (\<lambda>_.
     if atomic then pbind (internal (g = None)) (\<lambda>_. pret (AtomicGroup p))
     else pret (Subpattern g add del p))))) t"
  proof (rule parses_bind_ok [OF sub_okD [OF sub t]], rule parses_bind_ok [OF parses_close_paren], assumption)
    fix p u v
    assume p: "alternation_ok p u" and v: "parser_ok v"
    have close: "parses (\<lambda>_ _. True) (case g of Some g \<Rightarrow> closegroup g | None \<Rightarrow> pret ()) v"
      using parses_closegroup [OF v] by (auto split: option.split intro: parses_ret [OF v])
    have p: "pattern_ok p" using p by (simp add: alternation_ok_def)
    show "parses (\<lambda>op _. op_ok op) (pbind (case g of Some g \<Rightarrow> closegroup g | None \<Rightarrow> pret ()) (\<lambda>_.
       if atomic then pbind (internal (g = None)) (\<lambda>_. pret (AtomicGroup p))
       else pret (Subpattern g add del p))) v"
    proof (rule parses_bind_ok [OF close], rule parses_if)
      fix w assume w: "parser_ok w" and atomic
      then have "g = None" using g a by simp
      then show "parses (\<lambda>op _. op_ok op) (pbind (internal (g = None)) (\<lambda>_. pret (AtomicGroup p))) w"
        using p by (intro parses_bind_ok [OF parses_internal [OF _ w, where Q = "\<lambda>_ _. True"]] parses_ret) simp_all
    qed (use g p in \<open>auto intro!: parses_ret\<close>)
  qed
qed

lemma parses_parse_group:
  assumes ok: "parser_ok s" and sub: "sub_ok alternation_ok psub" and seq: "sub_ok sequence_ok pseq"
    and st: "pattern_ok (snd st)"
  shows "parses (\<lambda>st _. pattern_ok (snd st)) (parse_group U psub pseq first st) s"
proof (cases st)
  case (Pair verbose ops)
  then have ops: "pattern_ok ops" using st by simp
  show ?thesis
    unfolding Pair parse_group_def prod.case Let_def
  proof (rule parses_get [OF ok], rule parses_bind_ok [OF parses_take_match [OF ok]], rule parses_bind_ok)
    fix extension t assume t: "parser_ok t"
    show "parses (\<lambda>g _. group_ok g) (if extension
        then group_extension U psub pseq verbose first (ops = []) (tell s - 1)
        else pret (OpenGroup True False None 0 0)) t"
      by (rule parses_if, rule parses_group_extension [OF t sub seq], rule parses_ret [OF t]) (simp add: group_ok_def)
  next
    fix g t assume t: "parser_ok t" and g: "group_ok g"
    show "parses (\<lambda>st _. pattern_ok (snd st)) (case g of
       GroupDone ops' \<Rightarrow> pret (verbose, ops @ ops')
     | GlobalFlags \<Rightarrow> pbind get_parser (\<lambda>s. pret (has_flag (ps_flags s) SRE_FLAG_VERBOSE, ops))
     | OpenGroup capture atomic name add_flags del_flags \<Rightarrow>
         pbind (group_body psub verbose (tell s - 1) capture atomic name add_flags del_flags) (\<lambda>op.
         pret (verbose, ops @ [op]))) t"
    proof (cases g)
      case (OpenGroup capture atomic name add del)
      then have "\<not> (capture \<and> atomic)" using g by (simp add: group_ok_def)
      from parses_group_body [OF t sub this] show ?thesis
        unfolding OpenGroup group_start.case
        by (rule parses_bind_ok) (use ops in \<open>auto intro!: parses_ret\<close>)
    next
      case (GroupDone done_ops)
      then show ?thesis using g ops by (auto simp: group_ok_def intro!: parses_ret t)
    next
      case GlobalFlags
      then show ?thesis using ops by (auto intro!: parses_get parses_ret t)
    qed
  qed
qed

section \<open>Sequences and alternations\<close>

lemma parses_skip_comment: "parser_ok s \<Longrightarrow> parses (\<lambda>_ _. True) skip_comment s"
  unfolding skip_comment_def
proof (rule parses_loop [where I = "\<lambda>_ _. True"])
  fix i :: unit and t
  assume t: "parser_ok t"
  show "parses (\<lambda>r u. case r of Inl j \<Rightarrow> True \<and> remaining u < remaining t | Inr _ \<Rightarrow> True)
      (pbind get_token (\<lambda>got. pret (if got = None \<or> got = Some [10] then Inr () else Inl ()))) t"
    by (rule parses_token_bind [OF t]) (auto intro!: parses_ret stepD)
qed auto

text \<open>The special characters that no other branch takes leave the dollar.\<close>

lemma special_dollar:
  assumes "token_ok this_token" "this_token = c # cs" "c \<noteq> BACKSLASH" "c \<in> set SPECIAL_CHARS"
    and "this_token \<noteq> [code CHR ''['']" "\<not> (length this_token = 1 \<and> c \<in> set REPEAT_CHARS)"
    and "this_token \<noteq> [code CHR ''.'']" "this_token \<noteq> [code CHR ''('']" "this_token \<noteq> [code CHR ''^'']"
    and "this_token \<noteq> [code CHR ''|'']" "this_token \<noteq> [code CHR '')'']"
  shows "this_token = [code CHR ''$'']"
  using assms by (auto simp: token_ok_def SPECIAL_CHARS_def REPEAT_CHARS_def codes_def)

lemma repeat_token:
  assumes "length tok = 1" "tok = c # cs" "c \<in> set REPEAT_CHARS"
  shows "tok \<in> {[code CHR ''?''], [code CHR ''*''], [code CHR ''+''], [code CHR ''{'']}"
  using assms by (auto simp: REPEAT_CHARS_def codes_def)

lemma parses_parse_item:
  assumes ok: "parser_ok s" and sub: "sub_ok alternation_ok psub" and seq: "sub_ok sequence_ok pseq"
    and st: "pattern_ok (snd st)" and tok: "token_ok tok"
    and stop: "tok \<noteq> [code CHR ''|'']" "tok \<noteq> [code CHR '')'']"
  shows "parses (\<lambda>st _. pattern_ok (snd st)) (parse_item U psub pseq first st tok) s"
proof -
  obtain verbose ops where st': "st = (verbose, ops)" by (cases st)
  then have ops: "pattern_ok ops" using st by simp
  obtain c cs where tok': "tok = c # cs" and c: "valid_cp c" using tok by (cases tok) (auto simp: token_ok_def)
  let ?Q = "\<lambda>st (_ :: parser). pattern_ok (snd (st :: bool \<times> opcode list))"
  have push: "parses ?Q (pret (verbose, ops @ [op])) t" if "parser_ok t" "op_ok op" for op t
    by (rule parses_ret [OF that(1)]) (use that(2) ops in simp)
  have same: "parses ?Q (pret (verbose, ops)) t" if "parser_ok t" for t
    by (rule parses_ret [OF that]) (use ops in simp)
  have comment: "parses ?Q (pbind skip_comment (\<lambda>_. pret (verbose, ops))) s"
    by (rule parses_bind_ok [OF parses_skip_comment [OF ok] same])
  have escape: "parses ?Q (pbind (escape_code tok) (\<lambda>r. pret (verbose, ops @ [escape_op r]))) s" if "c = BACKSLASH"
    by (rule parses_bind_ok [OF parses_escape_code [OF ok] push]) (use tok tok' that in \<open>auto simp: token_ok_def\<close>)
  have members: "parses ?Q (pbind parse_set (\<lambda>op. pret (verbose, ops @ [op]))) s"
    by (rule parses_bind_ok [OF parses_parse_set [OF ok] push])
  have repeat: "parses ?Q (pbind (parse_repeat tok ops) (\<lambda>sub. pret (verbose, sub))) s"
    if "length tok = 1 \<and> c \<in> set REPEAT_CHARS"
    by (rule parses_bind_ok [OF parses_parse_repeat [OF ok ops repeat_token [OF _ tok']]])
       (use that in \<open>auto intro: parses_ret\<close>)
  have dollar: "parses ?Q (pbind (internal (tok = [code CHR ''$''])) (\<lambda>_. pret (verbose, ops @ [At AtEnd]))) s"
    if "tok = [code CHR ''$'']"
    by (rule parses_bind_ok [OF parses_internal [OF that ok, where Q = "\<lambda>_ _. True"] push]) simp_all
  show ?thesis
    unfolding parse_item_def st' prod.case tok' list.case
    unfolding tok' [symmetric]
    by (intro parses_if same ok comment escape push members repeat
        parses_parse_group [OF ok sub seq] dollar special_dollar [OF tok tok'])
       (use c ops stop in \<open>simp_all\<close>)
qed

lemma expand_groups_ok: "pattern_ok ops \<Longrightarrow> pattern_ok (expand_groups ops)"
  by (induction ops rule: expand_groups.induct) (auto split: opcode.split option.split)

lemma parses_sequence_step:
  assumes ok: "parser_ok s" and sub: "sub_ok alternation_ok psub" and seq: "sub_ok sequence_ok pseq"
    and st: "pattern_ok (snd st)"
  shows "parses (\<lambda>r t. case r of Inl st \<Rightarrow> pattern_ok (snd st) \<and> remaining t < remaining s
      | Inr ops \<Rightarrow> sequence_ok ops t) (sequence_step U psub pseq first st) s"
  unfolding sequence_step_def
proof (rule parses_get [OF ok], cases "tk_next s")
  case None
  then show "parses (\<lambda>r t. case r of Inl st \<Rightarrow> pattern_ok (snd st) \<and> remaining t < remaining s
      | Inr ops \<Rightarrow> sequence_ok ops t) (case tk_next s of None \<Rightarrow> pret (Inr (snd st))
     | Some this \<Rightarrow>
         if this = [code CHR ''|''] \<or> this = [code CHR '')''] then pret (Inr (snd st))
         else pbind advance (\<lambda>_. pbind (parse_item U psub pseq first st this) (\<lambda>st. pret (Inl st)))) s"
    using st by (auto simp: sequence_ok_def intro!: parses_ret ok)
next
  case (Some tok)
  show "parses (\<lambda>r t. case r of Inl st \<Rightarrow> pattern_ok (snd st) \<and> remaining t < remaining s
      | Inr ops \<Rightarrow> sequence_ok ops t) (case tk_next s of None \<Rightarrow> pret (Inr (snd st))
     | Some this \<Rightarrow>
         if this = [code CHR ''|''] \<or> this = [code CHR '')''] then pret (Inr (snd st))
         else pbind advance (\<lambda>_. pbind (parse_item U psub pseq first st this) (\<lambda>st. pret (Inl st)))) s"
    unfolding Some option.case
  proof (rule parses_if)
    show "parses (\<lambda>r t. case r of Inl st \<Rightarrow> pattern_ok (snd st) \<and> remaining t < remaining s
      | Inr ops \<Rightarrow> sequence_ok ops t) (pret (Inr (snd st))) s" if "tok = [code CHR ''|''] \<or> tok = [code CHR '')'']"
      using that Some st by (auto simp: sequence_ok_def intro!: parses_ret ok)
  next
    assume stop: "\<not> (tok = [code CHR ''|''] \<or> tok = [code CHR '')''])"
    show "parses (\<lambda>r t. case r of Inl st \<Rightarrow> pattern_ok (snd st) \<and> remaining t < remaining s
      | Inr ops \<Rightarrow> sequence_ok ops t) (pbind advance (\<lambda>_. pbind (parse_item U psub pseq first st tok) (\<lambda>st. pret (Inl st)))) s"
    proof (rule parses_bind [OF parses_advance [OF ok]])
      fix x t assume t: "parser_step s t" "remaining t = remaining s - next_length s"
      have tok: "token_ok tok" and less: "remaining t < remaining s"
        using next_consumed [OF ok Some] t(2) by simp_all
      have item: "parses (\<lambda>st _. pattern_ok (snd st)) (parse_item U psub pseq first st tok) t"
        using stop by (intro parses_parse_item stepD(1) [OF t(1)] sub seq st tok) simp_all
      show "parses (\<lambda>r t. case r of Inl st \<Rightarrow> pattern_ok (snd st) \<and> remaining t < remaining s
        | Inr ops \<Rightarrow> sequence_ok ops t) (pbind (parse_item U psub pseq first st tok) (\<lambda>st. pret (Inl st))) t"
        by (rule parses_bind [OF item]) (use less in \<open>auto intro!: parses_ret dest: stepD\<close>)
    qed
  qed
qed

lemma parses_sequence_body:
  assumes ok: "parser_ok s"
    and sub: "nested \<le> MAX_NESTING \<Longrightarrow> sub_ok alternation_ok psub" "nested \<le> MAX_NESTING \<Longrightarrow> sub_ok sequence_ok pseq"
  shows "parses sequence_ok (sequence_body U psub pseq verbose nested first) s"
  unfolding sequence_body_def
proof (rule parses_if)
  show "parses sequence_ok (fail ''regex nesting too deep'' 0) s" by (rule parses_fail [OF ok]) simp
next
  assume "\<not> MAX_NESTING < nested"
  then have sub: "sub_ok alternation_ok psub" "sub_ok sequence_ok pseq" using sub by simp_all
  have loop: "parses sequence_ok (ploop (sequence_step U psub pseq first) (verbose, [])) s"
    by (rule parses_loop [where I = "\<lambda>st _. pattern_ok (snd st)", OF parses_sequence_step [OF _ sub] ok]) simp_all
  show "parses sequence_ok (pbind (ploop (sequence_step U psub pseq first) (verbose, [])) (\<lambda>sub. pret (expand_groups sub))) s"
    by (rule parses_bind_ok [OF loop]) (auto simp: sequence_ok_def expand_groups_ok intro!: parses_ret)
qed

lemma shared_head_in: "shared_head items = Some p \<Longrightarrow> \<exists>ops\<in>set items. p \<in> set ops"
  by (cases items rule: shared_head.cases) (auto split: if_splits)

lemma pattern_ok_tl: "pattern_ok ops \<Longrightarrow> pattern_ok (tl ops)"
  by (cases ops) simp_all

lemma factor_prefix_ok:
  assumes "list_all pattern_ok items" "factor_prefix items = (ps, rest)"
  shows "pattern_ok ps \<and> list_all pattern_ok rest"
  using assms
proof (induction items arbitrary: ps rest rule: factor_prefix.induct)
  case (1 items)
  show ?case
  proof (cases "shared_head items")
    case None
    then show ?thesis using 1 by (subst (asm) (2) factor_prefix.simps) simp
  next
    case (Some p)
    obtain ps' rest' where r: "factor_prefix (map tl items) = (ps', rest')" by fastforce
    have "list_all pattern_ok (map tl items)" using 1(2) by (auto simp: list.pred_map comp_def elim!: list.pred_mono_strong pattern_ok_tl)
    from 1(1) [OF Some this r] have "pattern_ok ps' \<and> list_all pattern_ok rest'" .
    moreover have "factor_prefix items = (p # ps', rest')" by (subst factor_prefix.simps) (simp add: Some r)
    moreover have "op_ok p" using shared_head_in [OF Some] 1(2) by (auto simp: list_all_iff)
    ultimately show ?thesis using 1(3) by simp
  qed
qed

lemma flat_items_ok: "pattern_ok item \<Longrightarrow> flat_items item = Some is \<Longrightarrow> list_all item_ok is"
  by (auto simp: flat_items_def split: list.splits opcode.splits if_splits)

lemma flatten_items_ok: "list_all pattern_ok items \<Longrightarrow> flatten_items items = Some is \<Longrightarrow> list_all item_ok is"
  by (induction items arbitrary: "is") (auto split: option.splits dest: flat_items_ok)

lemma merge_branches_ok: "list_all pattern_ok items \<Longrightarrow> pattern_ok (merge_branches items)"
proof -
  assume items: "list_all pattern_ok items"
  obtain ps rest where r: "factor_prefix items = (ps, rest)" by fastforce
  have ok: "pattern_ok ps" "list_all pattern_ok rest" using factor_prefix_ok [OF items r] by simp_all
  have merged: "pattern_ok (ps @ [case flatten_items rest of
      Some set_items \<Rightarrow> InSet (uniq_set set_items) | None \<Rightarrow> Branch rest])"
    using ok uniq_set_ok flatten_items_ok [OF ok(2)] by (auto split: option.split)
  show ?thesis
    using items merged unfolding merge_branches_def r prod.case by (auto split: list.split)
qed

lemma parses_alternation:
  assumes ok: "parser_ok s" and seq: "\<And>first. sub_ok sequence_ok (pseq first)"
  shows "parses alternation_ok (alternation pseq nested verbose) s"
proof -
  let ?Q = "\<lambda>items t. list_all pattern_ok items \<and> tk_next t \<in> {None, Some [code CHR '')'']}"
  have loop: "parses ?Q (ploop (alternation_step pseq nested) (verbose, [])) s"
  proof (rule parses_loop [where I = "\<lambda>st _. list_all pattern_ok (snd st)", OF _ ok])
    fix st :: "bool \<times> opcode list list" and t
    assume t: "parser_ok t" and st: "list_all pattern_ok (snd st)"
    obtain verbose items where st': "st = (verbose, items)" by (cases st)
    show "parses (\<lambda>r u. case r of Inl j \<Rightarrow> list_all pattern_ok (snd j) \<and> remaining u < remaining t | Inr x \<Rightarrow> ?Q x u)
        (alternation_step pseq nested st) t"
      unfolding st' alternation_step_def prod.case
    proof (rule parses_bind [OF sub_okD [OF seq t]])
      fix item u
      assume u: "parser_step t u" and item: "sequence_ok item u"
      have le: "parser_ok u" "remaining u \<le> remaining t" using u by (simp_all add: stepD)
      have items: "list_all pattern_ok (items @ [item])" using st st' item by (simp add: sequence_ok_def)
      show "parses (\<lambda>r u. case r of Inl j \<Rightarrow> list_all pattern_ok (snd j) \<and> remaining u < remaining t | Inr x \<Rightarrow> ?Q x u)
        (pbind (take_match CHR ''|'') (\<lambda>bar.
         if \<not> bar then pret (Inr (items @ [item]))
         else pbind get_parser (\<lambda>s. pret (Inl (if nested = 0 then has_flag (ps_flags s) SRE_FLAG_VERBOSE else verbose,
                items @ [item]))))) u"
        by (rule parses_match_bind [OF le(1)])
           (use le items item in \<open>auto simp: sequence_ok_def intro!: parses_get parses_ret dest: stepD\<close>)
    qed
  qed simp
  show ?thesis
    unfolding alternation_def
    by (rule parses_bind_ok [OF loop]) (auto simp: alternation_ok_def merge_branches_ok intro!: parses_ret)
qed

lemma parses_parse_seq:
  assumes "0 < depth" "MAX_NESTING + 2 \<le> depth + nested"
  shows "sub_ok sequence_ok (parse_seq U depth nested first)"
  using assms
proof (induction depth arbitrary: nested first)
  case (Suc depth)
  show ?case
    unfolding sub_ok_def
  proof (intro allI impI)
    fix verbose s
    assume s: "parser_ok s"
    have deep: "0 < depth" if "nested \<le> MAX_NESTING" using that Suc.prems by simp
    show "parses sequence_ok (parse_seq U (Suc depth) nested first verbose) s"
      unfolding parse_seq.simps
    proof (rule parses_sequence_body [OF s])
      assume n: "nested \<le> MAX_NESTING"
      have seq: "sub_ok sequence_ok (parse_seq U depth (nested + k) f)" if "1 \<le> k" for k f
        using that Suc.prems deep [OF n] by (intro Suc.IH) simp_all
      show "sub_ok sequence_ok (\<lambda>verbose. parse_seq U depth (nested + 1) False verbose)"
        using seq [of 1] by simp
      show "sub_ok alternation_ok (\<lambda>verbose.
          alternation (\<lambda>first verbose. parse_seq U depth (nested + 2) first verbose) (nested + 1) verbose)"
        unfolding sub_ok_def using seq [of 2] by (intro allI impI parses_alternation) simp_all
    qed
  qed
qed simp

section \<open>The whole pattern\<close>

lemma parser_new_ok: "list_all valid_cp pat \<Longrightarrow> parser_ok (parser_new pat flags)"
  by (simp add: parser_ok_def parser_new_def next_length_def ps_groups_def MAXGROUPS_def)

lemma parses_fix_flags: "parser_ok s \<Longrightarrow> parses (\<lambda>_ t. t = s) (fix_flags flags) s"
  unfolding fix_flags_def by (intro parses_if parses_fail_at parses_ret) simp_all

lemma parses_check_grouprefs:
  assumes ok: "parser_ok s"
  shows "parses (\<lambda>_ _. True) check_grouprefs s"
  unfolding check_grouprefs_def
proof (rule parses_get [OF ok])
  let ?bad = "filter (\<lambda>(g, _). ps_groups s \<le> g) (ps_grouprefpos s)"
  have "pos \<le> length (tk_chars s)" if "?bad = (g, pos) # rest" for g pos rest
  proof -
    have "(g, pos) \<in> set ?bad" unfolding that by simp
    then show ?thesis using ok by (auto simp: parser_ok_def)
  qed
  then show "parses (\<lambda>_ _. True) (case ?bad of [] \<Rightarrow> pret ()
     | (_, pos) # _ \<Rightarrow> fail_at pos ''invalid group reference'') s"
    by (auto split: list.split intro!: parses_ret ok parses_fail_at)
qed

lemma parses_parse_whole:
  assumes ok: "parser_ok s" and depth: "MAX_NESTING + 2 \<le> depth"
  shows "parses (\<lambda>p _. pattern_ok (pp_pattern p)) (parse_whole U depth flags) s"
  unfolding parse_whole_def parse_sub_def
proof (rule parses_bind_ok [OF parses_advance [OF ok]])
  fix x t assume t: "parser_ok t"
  have seq: "sub_ok sequence_ok (\<lambda>verbose. parse_seq U depth (0 + 1) first verbose)" for first
    using depth parses_parse_seq [of depth 1 U first] by simp
  show "parses (\<lambda>p _. pattern_ok (pp_pattern p))
    (pbind (alternation (\<lambda>first verbose. parse_seq U depth (0 + 1) first verbose) 0 (has_flag flags SRE_FLAG_VERBOSE)) (\<lambda>p.
     pbind get_parser (\<lambda>s.
     pbind (fix_flags (ps_flags s)) (\<lambda>flags.
     pbind (update (\<lambda>s. s\<lparr>ps_flags := flags\<rparr>)) (\<lambda>_.
     pbind get_parser (\<lambda>s.
     if tk_next s \<noteq> None
     then pbind (internal (tk_next s = Some [code CHR '')''])) (\<lambda>_. fail ''unbalanced parenthesis'' 0)
     else pbind check_grouprefs (\<lambda>_. pret \<lparr>pp_pattern = p, pp_flags = flags\<rparr>))))))) t"
  proof (rule parses_bind_ok [OF parses_alternation [OF t seq]], rule parses_get, assumption,
      rule parses_bind_ok [OF parses_fix_flags], assumption)
    fix p u flags v
    assume u: "parser_ok u" and p: "alternation_ok p u" and v: "parser_ok v" "v = u"
    let ?w = "u\<lparr>ps_flags := flags\<rparr>"
    have w: "parser_ok ?w" using parser_ok_flags [OF u] by (rule stepD)
    have upd: "parses (\<lambda>_ w. w = ?w) (update (\<lambda>s. s\<lparr>ps_flags := flags\<rparr>)) u"
      by (rule parses_update) (simp_all add: parser_ok_flags [OF u])
    show "parses (\<lambda>p _. pattern_ok (pp_pattern p)) (pbind (update (\<lambda>s. s\<lparr>ps_flags := flags\<rparr>)) (\<lambda>_.
     pbind get_parser (\<lambda>s.
     if tk_next s \<noteq> None
     then pbind (internal (tk_next s = Some [code CHR '')''])) (\<lambda>_. fail ''unbalanced parenthesis'' 0)
     else pbind check_grouprefs (\<lambda>_. pret \<lparr>pp_pattern = p, pp_flags = flags\<rparr>)))) v"
      unfolding v(2)
    proof (rule parses_bind_ok [OF upd], rule parses_get, assumption, rule parses_if)
      fix y z assume z: "parser_ok z" "z = ?w" and "tk_next z \<noteq> None"
      then have "tk_next z = Some [code CHR '')'']" using p by (auto simp: alternation_ok_def)
      then show "parses (\<lambda>p _. pattern_ok (pp_pattern p)) (pbind (internal (tk_next z = Some [code CHR '')'']))
          (\<lambda>_. fail ''unbalanced parenthesis'' 0)) z"
        by (intro parses_bind_ok [OF parses_internal [OF _ z(1), where Q = "\<lambda>_ _. True"]] parses_fail) simp_all
    next
      fix y z assume z: "parser_ok z"
      show "parses (\<lambda>p _. pattern_ok (pp_pattern p))
          (pbind check_grouprefs (\<lambda>_. pret \<lparr>pp_pattern = p, pp_flags = flags\<rparr>)) z"
        by (rule parses_bind_ok [OF parses_check_grouprefs [OF z]])
           (use p in \<open>auto simp: alternation_ok_def intro!: parses_ret\<close>)
    qed
  qed
qed

lemma parse_accepted:
  assumes pat: "list_all valid_cp pat" and run: "parse_pattern U pat flags = Some (Inr p)"
  shows "pattern_ok (pp_pattern p)"
proof -
  have depth: "MAX_NESTING + 2 \<le> PARSE_DEPTH" by (simp add: PARSE_DEPTH_def)
  obtain r t where "parse_whole U PARSE_DEPTH flags (parser_new pat flags) = Some (r, t)"
    "case r of Inr p \<Rightarrow> parser_step (parser_new pat flags) t \<and> pattern_ok (pp_pattern p)
     | Inl e \<Rightarrow> error_ok (parser_new pat flags) e"
    using parses_parse_whole [OF parser_new_ok [OF pat, of flags] depth, of U flags]
    unfolding parses_def by blast
  then show ?thesis using run by (auto simp: parse_pattern_def)
qed

text \<open>C18: For every pattern and flags the parser returns (no group nesting or loop makes it run
  for ever, and the recursion depth \<open>PARSE_DEPTH\<close> is enough because of \<open>MAX_NESTING\<close>): a pattern
  whose characters are valid codepoints, whose ranges are ordered, whose alternations are not empty, whose repetition bounds satisfy
  min <= max <= MAXREPEAT and whose group numbers lie below MAXGROUPS; or an error whose position
  lies within the pattern. None of its assertions fails and no unwrap of a missing token panics.\<close>
theorem parse_pattern_total:
  assumes "list_all valid_cp pat"
  shows "case parse_pattern U pat flags of
      None \<Rightarrow> False
    | Some (Inr p) \<Rightarrow> pattern_ok (pp_pattern p)
    | Some (Inl e) \<Rightarrow> pe_pos e \<le> length pat \<and> pe_msg e \<notin> {''internal error'', ''called unwrap on None''}"
proof -
  have depth: "MAX_NESTING + 2 \<le> PARSE_DEPTH" by (simp add: PARSE_DEPTH_def)
  have chars: "tk_chars (parser_new pat flags) = pat" by (simp add: parser_new_def)
  obtain r t where "parse_whole U PARSE_DEPTH flags (parser_new pat flags) = Some (r, t)"
    "case r of Inr p \<Rightarrow> parser_step (parser_new pat flags) t \<and> pattern_ok (pp_pattern p)
     | Inl e \<Rightarrow> error_ok (parser_new pat flags) e"
    using parses_parse_whole [OF parser_new_ok [OF assms, of flags] depth, of U flags]
    unfolding parses_def by blast
  then show ?thesis by (auto simp: parse_pattern_def error_ok_def chars split: sum.splits)
qed

theorem parse_pattern_total_witness:
  "case parse_pattern \<lparr>is_alphabetic = \<lambda>_. False, is_alphanumeric = \<lambda>_. False\<rparr> (codes ''(a|b)*'') 0 of
      None \<Rightarrow> False
    | Some (Inr p) \<Rightarrow> pattern_ok (pp_pattern p)
    | Some (Inl e) \<Rightarrow> pe_pos e \<le> length (codes ''(a|b)*'')
        \<and> pe_msg e \<notin> {''internal error'', ''called unwrap on None''}"
  by (rule parse_pattern_total) (simp add: codes_def ascii_valid)

end
