(* ===== verification/TextDraws.thy ===== *)
theory TextDraws
  imports Special
begin

text \<open>
  \<open>hegel-c/src/unicodedata/mod.rs\<close> and \<open>native/draws/text.rs\<close>: general categories and the
  alphabet of a text draw. The lines of the two generated data files are parameters; so are, where
  a definition only looks a category up, the parsed ranges. A string of the source that is an
  alphabet is a list of codepoints here, a category name a string. The caches of category sets
  memoise a function of the name and are left out.
\<close>

section \<open>General categories\<close>

datatype category =
    GC_Lu | GC_Ll | GC_Lt | GC_Lm | GC_Lo | GC_Mn | GC_Mc | GC_Me | GC_Nd | GC_Nl | GC_No
  | GC_Pc | GC_Pd | GC_Ps | GC_Pe | GC_Pi | GC_Pf | GC_Po | GC_Sm | GC_Sc | GC_Sk | GC_So
  | GC_Zs | GC_Zl | GC_Zp | GC_Cc | GC_Cf | GC_Cs | GC_Co | GC_Cn

fun as_str :: "category \<Rightarrow> string" where
  "as_str GC_Lu = ''Lu''" | "as_str GC_Ll = ''Ll''" | "as_str GC_Lt = ''Lt''" | "as_str GC_Lm = ''Lm''"
| "as_str GC_Lo = ''Lo''" | "as_str GC_Mn = ''Mn''" | "as_str GC_Mc = ''Mc''" | "as_str GC_Me = ''Me''"
| "as_str GC_Nd = ''Nd''" | "as_str GC_Nl = ''Nl''" | "as_str GC_No = ''No''" | "as_str GC_Pc = ''Pc''"
| "as_str GC_Pd = ''Pd''" | "as_str GC_Ps = ''Ps''" | "as_str GC_Pe = ''Pe''" | "as_str GC_Pi = ''Pi''"
| "as_str GC_Pf = ''Pf''" | "as_str GC_Po = ''Po''" | "as_str GC_Sm = ''Sm''" | "as_str GC_Sc = ''Sc''"
| "as_str GC_Sk = ''Sk''" | "as_str GC_So = ''So''" | "as_str GC_Zs = ''Zs''" | "as_str GC_Zl = ''Zl''"
| "as_str GC_Zp = ''Zp''" | "as_str GC_Cc = ''Cc''" | "as_str GC_Cf = ''Cf''" | "as_str GC_Cs = ''Cs''"
| "as_str GC_Co = ''Co''" | "as_str GC_Cn = ''Cn''"

definition all_categories :: "category list" where
  "all_categories =
     [GC_Lu, GC_Ll, GC_Lt, GC_Lm, GC_Lo, GC_Mn, GC_Mc, GC_Me, GC_Nd, GC_Nl, GC_No,
      GC_Pc, GC_Pd, GC_Ps, GC_Pe, GC_Pi, GC_Pf, GC_Po, GC_Sm, GC_Sc, GC_Sk, GC_So,
      GC_Zs, GC_Zl, GC_Zp, GC_Cc, GC_Cf, GC_Cs, GC_Co, GC_Cn]"

definition from_code :: "string \<Rightarrow> category option" where
  "from_code s = map_of (map (\<lambda>c. (as_str c, c)) all_categories) s"

text \<open>\<open>u32::from_str_radix(_, 16)\<close> of the standard library takes a leading plus sign.\<close>

definition hex_u32 :: "string \<Rightarrow> nat option" where
  "hex_u32 s =
     (let ds = (case s of CHR ''+'' # d # rest \<Rightarrow> d # rest | _ \<Rightarrow> s)
      in if ds = [] then None
         else case number_from 16 0 ds of
                Some n \<Rightarrow> if n < 2 ^ 32 then Some n else None
              | None \<Rightarrow> None)"

type_synonym category_ranges = "(codepoint \<times> category) list"

definition category_line :: "string \<Rightarrow> (codepoint \<times> category) internal_result" where
  "category_line line =
     rbind (unwrap_or_panic (split_once CHR '' '' line) ''malformed categories.txt line'') (\<lambda>(end_text, cat).
     rbind (unwrap_or_panic (hex_u32 end_text) ''bad hex in categories.txt'') (\<lambda>last_cp.
     rbind (unwrap_or_panic (from_code cat) ''unknown category in categories.txt'') (\<lambda>cat.
     Inr (last_cp, cat))))"

definition ranges :: "string list \<Rightarrow> category_ranges internal_result" where
  "ranges categories_lines = rmap category_line categories_lines"

definition nfd_line :: "string \<Rightarrow> (codepoint \<times> codepoint) internal_result" where
  "nfd_line line =
     rbind (unwrap_or_panic (split_once CHR '' '' line) ''malformed nfd_bases.txt line'') (\<lambda>(cp, base).
     rbind (unwrap_or_panic (hex_u32 cp) ''bad hex in nfd_bases.txt'') (\<lambda>cp.
     rbind (unwrap_or_panic (hex_u32 base) ''bad hex in nfd_bases.txt'') (\<lambda>base.
     Inr (cp, base))))"

definition nfd_bases :: "string list \<Rightarrow> (codepoint \<times> codepoint) list internal_result" where
  "nfd_bases nfd_lines = rmap nfd_line nfd_lines"

text \<open>
  The comparison never answers \<open>Equal\<close>, so on ranges sorted by their ends the binary search
  gives the position of the first range that ends at \<open>cp\<close> or later; indexing past the last one
  panics. A search for a key finds the entry that has it, the keys being sorted and distinct.
\<close>

definition category_lookup :: "category_ranges \<Rightarrow> codepoint \<Rightarrow> category internal_result" where
  "category_lookup table cp =
     (let idx = length (takeWhile (\<lambda>(last_cp, _). last_cp < cp) table)
      in if idx < length table then Inr (snd (table ! idx)) else Inl (Panicked ''index out of bounds''))"

definition general_category :: "category_ranges \<Rightarrow> codepoint \<Rightarrow> category internal_result" where
  "general_category table cp =
     rbind (hegel_internal_assert (cp \<le> 0x10FFFF) ''codepoint out of range'') (\<lambda>_.
     category_lookup table cp)"

definition general_category_char :: "category_ranges \<Rightarrow> codepoint \<Rightarrow> category internal_result" where
  "general_category_char table c = category_lookup table c"

definition MAJOR_CLASSES :: "string list" where
  "MAJOR_CLASSES = [''L'', ''M'', ''N'', ''P'', ''S'', ''Z'', ''C'']"

definition group_matches :: "string \<Rightarrow> string \<Rightarrow> bool" where
  "group_matches cat grp =
     (if length grp = 2 then cat = grp
      else if length grp = 1 then take 1 cat = grp \<and> grp \<in> set MAJOR_CLASSES
      else False)"

definition is_in_group :: "category_ranges \<Rightarrow> codepoint \<Rightarrow> string \<Rightarrow> bool internal_result" where
  "is_in_group table cp grp =
     rbind (general_category table cp) (\<lambda>cat. Inr (group_matches (as_str cat) grp))"

definition is_in_group_char :: "category_ranges \<Rightarrow> codepoint \<Rightarrow> string \<Rightarrow> bool internal_result" where
  "is_in_group_char table c grp =
     rbind (general_category_char table c) (\<lambda>cat. Inr (group_matches (as_str cat) grp))"

definition nfd_base :: "(codepoint \<times> codepoint) list \<Rightarrow> codepoint \<Rightarrow> codepoint option" where
  "nfd_base table cp = map_of table cp"

section \<open>Alphabets\<close>

record text_alphabet =
  ta_codec :: "string option"
  ta_min_codepoint :: nat
  ta_max_codepoint :: nat
  ta_categories :: "string list option"
  ta_exclude_categories :: "string list option"
  ta_include_characters :: "codepoint list option"
  ta_exclude_characters :: "codepoint list option"

definition default_alphabet :: text_alphabet where
  "default_alphabet =
     \<lparr>ta_codec = None, ta_min_codepoint = 0, ta_max_codepoint = 2 ^ 32 - 1, ta_categories = None,
      ta_exclude_categories = None, ta_include_characters = None, ta_exclude_characters = None\<rparr>"

definition codec_range :: "string option \<Rightarrow> (codepoint \<times> codepoint) option" where
  "codec_range codec =
     (case codec of
        None \<Rightarrow> Some (0, 0x10FFFF)
      | Some name \<Rightarrow>
          if name = ''ascii'' then Some (0, 127)
          else if name = ''latin-1'' \<or> name = ''iso-8859-1'' then Some (0, 255)
          else if name = ''utf-8'' then Some (0, 0x10FFFF)
          else None)"

definition is_valid_category :: "string \<Rightarrow> bool" where
  "is_valid_category cat \<longleftrightarrow>
     cat \<in> set [''L'', ''M'', ''N'', ''P'', ''S'', ''Z'', ''C'',
       ''Lu'', ''Ll'', ''Lt'', ''Lm'', ''Lo'', ''Mn'', ''Mc'', ''Me'', ''Nd'', ''Nl'', ''No'',
       ''Pc'', ''Pd'', ''Ps'', ''Pe'', ''Pi'', ''Pf'', ''Po'', ''Sm'', ''Sc'', ''Sk'', ''So'',
       ''Zs'', ''Zl'', ''Zp'', ''Cc'', ''Cf'', ''Cs'', ''Co'', ''Cn'']"

definition range_minus_surrogates :: "nat \<Rightarrow> nat \<Rightarrow> interval_set internal_result" where
  "range_minus_surrogates lo hi =
     (if hi < lo then new []
      else if hi < 0xD800 \<or> 0xDFFF < lo then new [(lo, hi)]
      else new ((if lo < 0xD800 then [(lo, 0xD7FF)] else []) @ (if 0xDFFF < hi then [(0xE000, hi)] else [])))"

text \<open>The addition \<open>last.1 + 1\<close> is of a codepoint, far below the width.\<close>

definition push_codepoint :: "(codepoint \<times> codepoint) list \<Rightarrow> codepoint \<Rightarrow> (codepoint \<times> codepoint) list" where
  "push_codepoint rs cp =
     (if rs \<noteq> [] \<and> cp = snd (last rs) + 1 then butlast rs @ [(fst (last rs), cp)] else rs @ [(cp, cp)])"

definition chars_to_intervals :: "codepoint list \<Rightarrow> interval_set internal_result" where
  "chars_to_intervals chars = new (foldl push_codepoint [] (remdups_adj (sort chars)))"

text \<open>One codepoint of the scan: the finished ranges and the start of the current run.\<close>

definition end_run :: "(codepoint \<times> codepoint) list \<times> codepoint option \<Rightarrow> codepoint
    \<Rightarrow> (codepoint \<times> codepoint) list \<times> codepoint option" where
  "end_run st cp =
     (case snd st of Some start \<Rightarrow> (fst st @ [(start, cp - 1)], None) | None \<Rightarrow> st)"

definition scan_codepoint ::
  "category_ranges \<Rightarrow> string \<Rightarrow> codepoint \<Rightarrow> (codepoint \<times> codepoint) list \<times> codepoint option
   \<Rightarrow> ((codepoint \<times> codepoint) list \<times> codepoint option) internal_result" where
  "scan_codepoint table cat cp st =
     (if 0xD800 \<le> cp \<and> cp \<le> 0xDFFF then Inr (end_run st cp)
      else rbind (is_in_group table cp cat) (\<lambda>inside.
           Inr (if inside then (if snd st = None then (fst st, Some cp) else st) else end_run st cp)))"

fun scan_codepoints ::
  "category_ranges \<Rightarrow> string \<Rightarrow> codepoint list \<Rightarrow> (codepoint \<times> codepoint) list \<times> codepoint option
   \<Rightarrow> ((codepoint \<times> codepoint) list \<times> codepoint option) internal_result" where
  "scan_codepoints table cat [] st = Inr st"
| "scan_codepoints table cat (cp # cps) st =
     rbind (scan_codepoint table cat cp st) (\<lambda>st. scan_codepoints table cat cps st)"

definition category_intervalset :: "category_ranges \<Rightarrow> string \<Rightarrow> interval_set internal_result" where
  "category_intervalset table cat =
     rbind (scan_codepoints table cat [0..<0x110000] ([], None)) (\<lambda>(rs, run_start).
     new (rs @ (case run_start of Some start \<Rightarrow> [(start, 0x10FFFF)] | None \<Rightarrow> [])))"

fun union_of_categories :: "category_ranges \<Rightarrow> interval_set option \<Rightarrow> string list
    \<Rightarrow> interval_set option internal_result" where
  "union_of_categories table u [] = Inr u"
| "union_of_categories table u (cat # cats) =
     rbind (category_intervalset table cat) (\<lambda>single.
     rbind (case u of Some u \<Rightarrow> union u single | None \<Rightarrow> Inr single) (\<lambda>u.
     union_of_categories table (Some u) cats))"

definition categories_union :: "category_ranges \<Rightarrow> string list \<Rightarrow> interval_set internal_result" where
  "categories_union table cats =
     rbind (union_of_categories table None cats) (\<lambda>u. case u of Some u \<Rightarrow> Inr u | None \<Rightarrow> new [])"

text \<open>The question mark on an internal error, and the refusal of an argument.\<close>

definition engine :: "'a internal_result \<Rightarrow> engine_error + 'a" where
  "engine r = map_sum EngineInternal id r"

definition refuse :: "bool \<Rightarrow> string \<Rightarrow> engine_error + unit" where
  "refuse bad msg = (if bad then Inl (InvalidArgument msg) else Inr ())"

definition options :: "'a list option \<Rightarrow> 'a list" where
  "options xs = (case xs of Some xs \<Rightarrow> xs | None \<Rightarrow> [])"

definition restrict_categories ::
  "category_ranges \<Rightarrow> text_alphabet \<Rightarrow> interval_set \<Rightarrow> interval_set internal_result" where
  "restrict_categories table a base =
     (case (ta_categories a, ta_exclude_categories a) of
        (Some cats, _) \<Rightarrow>
          if cats = [] then new [] else rbind (categories_union table cats) (\<lambda>u. intersection base u)
      | (None, Some excl) \<Rightarrow>
          if list_all (\<lambda>c. c = ''Cs'') excl then Inr base
          else rbind (categories_union table (filter (\<lambda>c. c \<noteq> ''Cs'') excl)) (\<lambda>u. difference base u)
      | (None, None) \<Rightarrow> Inr base)"

definition apply_characters ::
  "(interval_set \<Rightarrow> interval_set \<Rightarrow> interval_set internal_result) \<Rightarrow> codepoint list option \<Rightarrow> interval_set
   \<Rightarrow> interval_set internal_result" where
  "apply_characters f chars ivs =
     (if options chars = [] then Inr ivs else rbind (chars_to_intervals (options chars)) (\<lambda>s. f ivs s))"

definition build_intervals :: "category_ranges \<Rightarrow> text_alphabet \<Rightarrow> engine_error + interval_set" where
  "build_intervals table a =
     rbind (case codec_range (ta_codec a) of
              Some r \<Rightarrow> Inr r | None \<Rightarrow> Inl (InvalidArgument ''invalid codec'')) (\<lambda>(codec_min, codec_max).
     rbind (refuse (\<not> list_all is_valid_category (options (ta_categories a) @ options (ta_exclude_categories a)))
              ''not a valid Unicode category'') (\<lambda>_.
     rbind (refuse (ta_codec a \<noteq> None
              \<and> \<not> list_all (\<lambda>c. codec_min \<le> c \<and> c \<le> codec_max) (options (ta_include_characters a)))
              ''include_characters cannot be encoded by codec'') (\<lambda>_.
     rbind (refuse (\<not> list_all (\<lambda>c. c \<notin> set (options (ta_exclude_characters a)))
                     (options (ta_include_characters a)))
              ''characters are present in both include_characters and exclude_characters'') (\<lambda>_.
     engine
       (rbind (range_minus_surrogates (max codec_min (ta_min_codepoint a)) (min codec_max (ta_max_codepoint a))) (\<lambda>base.
        rbind (restrict_categories table a base) (\<lambda>ivs.
        rbind (apply_characters difference (ta_exclude_characters a) ivs) (\<lambda>ivs.
        apply_characters union (ta_include_characters a) ivs))))))))"

end
