(* ===== verification/TextFacts.thy ===== *)
theory TextFacts
  imports TextDraws
begin

text \<open>
  The alphabet of a text draw contains exactly the characters its constraints admit, and
  building it never fails internally.
\<close>

section \<open>Specification\<close>

text \<open>A table that covers the codespace, and the codepoints of a category name by it.\<close>

definition covering :: "category_ranges \<Rightarrow> bool" where
  "covering table \<longleftrightarrow> (\<exists>(last_cp, _) \<in> set table. 0x10FFFF \<le> last_cp)"

definition surrogate :: "codepoint \<Rightarrow> bool" where
  "surrogate c \<longleftrightarrow> 0xD800 \<le> c \<and> c \<le> 0xDFFF"

definition in_category :: "category_ranges \<Rightarrow> string \<Rightarrow> codepoint \<Rightarrow> bool" where
  "in_category table cat c \<longleftrightarrow> is_in_group table c cat = Inr True"

definition admitted :: "category_ranges \<Rightarrow> text_alphabet \<Rightarrow> codepoint \<Rightarrow> bool" where
  "admitted table a c \<longleftrightarrow>
     (\<not> surrogate c \<and> ta_min_codepoint a \<le> c \<and> c \<le> ta_max_codepoint a
      \<and> (\<exists>lo hi. codec_range (ta_codec a) = Some (lo, hi) \<and> lo \<le> c \<and> c \<le> hi)
      \<and> (case (ta_categories a, ta_exclude_categories a) of
           (Some cats, _) \<Rightarrow> \<exists>cat \<in> set cats. in_category table cat c
         | (None, Some excl) \<Rightarrow> \<not> (\<exists>cat \<in> set excl. in_category table cat c)
         | (None, None) \<Rightarrow> True)
      \<and> c \<notin> set (options (ta_exclude_characters a)))
     \<or> c \<in> set (options (ta_include_characters a))"

definition acceptable :: "text_alphabet \<Rightarrow> bool" where
  "acceptable a \<longleftrightarrow> (\<exists>lo hi. codec_range (ta_codec a) = Some (lo, hi)
       \<and> (ta_codec a \<noteq> None \<longrightarrow> (\<forall>c \<in> set (options (ta_include_characters a)). lo \<le> c \<and> c \<le> hi)))
     \<and> (\<forall>cat \<in> set (options (ta_categories a)) \<union> set (options (ta_exclude_categories a)). is_valid_category cat)
     \<and> set (options (ta_include_characters a)) \<inter> set (options (ta_exclude_characters a)) = {}"

text \<open>The characters of the alphabet's strings are Unicode scalar values.\<close>

definition scalar_strings :: "text_alphabet \<Rightarrow> bool" where
  "scalar_strings a \<longleftrightarrow> list_all is_char (options (ta_include_characters a))
     \<and> list_all is_char (options (ta_exclude_characters a))"

text \<open>A set of characters built without failure.\<close>

definition denotes :: "interval_set internal_result \<Rightarrow> codepoint set \<Rightarrow> bool" where
  "denotes r A \<longleftrightarrow> (\<exists>s. r = Inr s \<and> iv_wf s \<and> members (intervals s) = A)"

section \<open>Building blocks\<close>

lemma denotes_new: "ivs_ok rs \<Longrightarrow> members rs = A \<Longrightarrow> denotes (new rs) A"
  using new_ok unfolding denotes_def by metis

lemma denotes_bind:
  "denotes r A \<Longrightarrow> (\<And>s. iv_wf s \<Longrightarrow> members (intervals s) = A \<Longrightarrow> denotes (f s) B) \<Longrightarrow> denotes (rbind r f) B"
  unfolding denotes_def by auto

lemma denotes_ops:
  assumes "iv_wf s" "iv_wf t"
  shows "denotes (union s t) (members (intervals s) \<union> members (intervals t))"
    "denotes (difference s t) (members (intervals s) - members (intervals t))"
    "denotes (intersection s t) (members (intervals s) \<inter> members (intervals t))"
  using union_ok [OF assms] difference_ok [OF assms] intersection_ok [OF assms] unfolding denotes_def by auto

lemma denotes_base:
  assumes "hi \<le> 0x10FFFF"
  shows "denotes (range_minus_surrogates lo hi) {c. \<not> surrogate c \<and> lo \<le> c \<and> c \<le> hi}"
  unfolding range_minus_surrogates_def
  using assms by (auto intro!: denotes_new simp: ivs_ok_def members_def surrogate_def)

lemma push_codepoint_ok:
  assumes "ivs_ok acc" "\<forall>x \<in> members acc. x < c" "c \<le> 0x10FFFF"
  shows "ivs_ok (push_codepoint acc c)" "members (push_codepoint acc c) = insert c (members acc)"
proof -
  have "ivs_ok (push_codepoint acc c) \<and> members (push_codepoint acc c) = insert c (members acc)"
  proof (cases acc rule: rev_cases)
    case Nil
    then show ?thesis using assms by (simp add: push_codepoint_def ivs_ok_def)
  next
    case (snoc ys y)
    obtain u v where y: "y = (u, v)" by fastforce
    have "u \<le> v" using assms(1) by (auto simp: snoc y ivs_ok_def)
    then have "v < c" using assms(2) by (auto simp: snoc y members_def)
    have below: "\<forall>(u', v') \<in> set ys. v' < u" using assms(1) by (auto simp: snoc y ivs_ok_def sorted_wrt_append)
    show ?thesis using assms(1,3) \<open>u \<le> v\<close> \<open>v < c\<close> below
      by (auto simp: snoc y push_codepoint_def ivs_ok_def sorted_wrt_append members_def) 
  qed
  then show "ivs_ok (push_codepoint acc c)" "members (push_codepoint acc c) = insert c (members acc)" by simp_all
qed

lemma push_codepoints_ok:
  assumes "sorted_wrt (<) cs" "\<forall>c \<in> set cs. c \<le> 0x10FFFF" "ivs_ok acc" "\<forall>x \<in> members acc. \<forall>c \<in> set cs. x < c"
  shows "ivs_ok (foldl push_codepoint acc cs) \<and> members (foldl push_codepoint acc cs) = members acc \<union> set cs"
  using assms
proof (induction cs arbitrary: acc)
  case (Cons c cs)
  have p: "ivs_ok (push_codepoint acc c)" "members (push_codepoint acc c) = insert c (members acc)"
    by (rule push_codepoint_ok; use Cons.prems in auto)+
  show ?case using Cons.IH [OF _ _ p(1)] Cons.prems unfolding p(2) by auto
qed simp

lemma dedup_sorted: "sorted (xs :: nat list) \<Longrightarrow> sorted_wrt (<) (remdups_adj xs)"
  by (induction xs rule: remdups_adj.induct) auto

lemma denotes_chars:
  assumes "list_all is_char cs"
  shows "denotes (chars_to_intervals cs) (set cs)"
proof -
  have "\<forall>c \<in> set cs. c \<le> 0x10FFFF" using assms by (auto simp: list_all_iff is_char_def)
  then show ?thesis
    using push_codepoints_ok [OF dedup_sorted [OF sorted_sort], of cs "[]"]
    unfolding chars_to_intervals_def by (intro denotes_new) auto
qed

section \<open>Categories\<close>

lemma covering_lookup:
  assumes "covering table" "c \<le> 0x10FFFF"
  shows "\<exists>b. is_in_group table c cat = Inr b"
proof -
  have "length (takeWhile (\<lambda>(last_cp, _). last_cp < c) table) < length table"
  proof (rule ccontr)
    assume "\<not> ?thesis"
    then have "takeWhile (\<lambda>(last_cp, _). last_cp < c) table = table"
      by (metis length_takeWhile_le linorder_less_linear not_less takeWhile_eq_take take_all)
    then have "\<forall>(last_cp, _) \<in> set table. last_cp < c" by (metis set_takeWhileD)
    then show False using assms unfolding covering_def by fastforce
  qed
  then show ?thesis
    using assms(2) by (simp add: is_in_group_def general_category_def category_lookup_def hegel_internal_assert_def Let_def)
qed

text \<open>The scan, up to a codepoint: the finished ranges end before the current run or the codepoint.\<close>

definition scanned :: "(codepoint \<Rightarrow> bool) \<Rightarrow> nat \<Rightarrow> (codepoint \<times> codepoint) list \<times> codepoint option \<Rightarrow> bool" where
  "scanned inside n st \<longleftrightarrow> ivs_ok (fst st)
     \<and> (case snd st of
          None \<Rightarrow> members (fst st) = {c. c < n \<and> inside c} \<and> (\<forall>(u, v) \<in> set (fst st). v < n)
        | Some start \<Rightarrow> start < n \<and> (\<forall>(u, v) \<in> set (fst st). v < start)
            \<and> members (fst st) \<union> {start..<n} = {c. c < n \<and> inside c})"

lemma scanned_end:
  assumes "scanned inside n st" "\<not> inside n" "n \<le> 0x110000"
  shows "scanned inside (Suc n) (end_run st n)"
proof (cases "snd st")
  case None
  then show ?thesis using assms
    by (fastforce simp: scanned_def end_run_def less_Suc_eq)
next
  case (Some start)
  then have s: "start < n" "\<forall>(u, v) \<in> set (fst st). v < start" "ivs_ok (fst st)"
    "members (fst st) \<union> {start..<n} = {c. c < n \<and> inside c}" using assms(1) by (auto simp: scanned_def)
  have "{start..n - 1} = {start..<n}" using s(1) by auto
  moreover have "{c. c < Suc n \<and> inside c} = {c. c < n \<and> inside c}" using assms(2) by (auto simp: less_Suc_eq)
  moreover have "ivs_ok (fst st @ [(start, n - 1)])"
    using s(1-3) assms(3) by (auto simp: ivs_ok_append) (auto simp: ivs_ok_def)
  moreover have "end_run st n = (fst st @ [(start, n - 1)], None)" using Some by (simp add: end_run_def)
  moreover have "\<forall>(u, v) \<in> set (fst st @ [(start, n - 1)]). v < Suc n" using s(1,2) by fastforce
  ultimately show ?thesis using s(4) by (simp add: scanned_def)
qed

lemma scanned_go:
  assumes "scanned inside n st" "inside n"
  shows "scanned inside (Suc n) (if snd st = None then (fst st, Some n) else st)"
proof -
  have e: "{c. c < Suc n \<and> inside c} = insert n {c. c < n \<and> inside c}" using assms(2) by (auto simp: less_Suc_eq)
  have "{start..<Suc n} = insert n {start..<n}" if "start < n" for start using that by auto
  then show ?thesis using assms(1) unfolding scanned_def e by (auto split: option.splits simp: atLeastLessThanSuc)
qed

lemma scan_ok:
  assumes "covering table" "scanned (\<lambda>c. \<not> surrogate c \<and> in_category table cat c) n st" "n + k \<le> 0x110000"
  shows "\<exists>st'. scan_codepoints table cat [n..<n + k] st = Inr st'
     \<and> scanned (\<lambda>c. \<not> surrogate c \<and> in_category table cat c) (n + k) st'"
  using assms(2,3)
proof (induction k arbitrary: n st)
  case (Suc k)
  let ?in = "\<lambda>c. \<not> surrogate c \<and> in_category table cat c"
  have le: "n \<le> 0x110000" "n \<le> 0x10FFFF" using Suc.prems(2) by simp_all
  obtain b where b: "is_in_group table n cat = Inr b" using covering_lookup [OF assms(1) le(2)] by blast
  have "\<exists>st'. scan_codepoint table cat n st = Inr st' \<and> scanned ?in (Suc n) st'"
  proof (cases "?in n")
    case True
    then have "scan_codepoint table cat n st = Inr (if snd st = None then (fst st, Some n) else st)"
      by (auto simp: scan_codepoint_def surrogate_def in_category_def)
    then show ?thesis using scanned_go [OF Suc.prems(1) True] by blast
  next
    case False
    then have "scan_codepoint table cat n st = Inr (end_run st n)"
      using b by (auto simp: scan_codepoint_def surrogate_def in_category_def)
    then show ?thesis using scanned_end [OF Suc.prems(1) False le(1)] by blast
  qed
  then obtain st' where st': "scan_codepoint table cat n st = Inr st'" "scanned ?in (Suc n) st'" by blast
  have "[n..<n + Suc k] = n # [Suc n..<Suc n + k]" by (simp add: upt_conv_Cons del: upt_Suc)
  then show ?case using Suc.IH [OF st'(2)] Suc.prems(2) st'(1) by simp
qed simp

lemma scan_all:
  assumes "covering table" "m \<le> 0x110000"
  shows "\<exists>rs run_start. scan_codepoints table cat [0..<m] ([], None) = Inr (rs, run_start)
     \<and> scanned (\<lambda>c. \<not> surrogate c \<and> in_category table cat c) m (rs, run_start)"
  using scan_ok [OF assms(1), of cat 0 "([], None)" m] assms(2) by (simp add: scanned_def)

lemma denotes_category:
  assumes "covering table"
  shows "denotes (category_intervalset table cat) {c. c \<le> 0x10FFFF \<and> \<not> surrogate c \<and> in_category table cat c}"
proof -
  let ?in = "\<lambda>c. \<not> surrogate c \<and> in_category table cat c"
  obtain rs run_start where st: "scan_codepoints table cat [0..<0x110000] ([], None) = Inr (rs, run_start)"
    "scanned ?in 0x110000 (rs, run_start)" using scan_all [OF assms order_refl] by blast
  have lt: "{c. c < 0x110000 \<and> ?in c} = {c. c \<le> 0x10FFFF \<and> ?in c}" by auto
  let ?rs = "rs @ (case run_start of Some start \<Rightarrow> [(start, 0x10FFFF)] | None \<Rightarrow> [])"
  have "ivs_ok ?rs \<and> members ?rs = {c. c \<le> 0x10FFFF \<and> ?in c}"
  proof (cases run_start)
    case None
    then show ?thesis using st(2) lt by (simp add: scanned_def)
  next
    case (Some start)
    have "{start..0x10FFFF} = {start..<0x110000}" by auto
    moreover have s: "ivs_ok rs" "start < 0x110000" "\<forall>(u, v) \<in> set rs. v < start"
      "members rs \<union> {start..<0x110000} = {c. c < 0x110000 \<and> ?in c}"
      using st(2) Some by (simp_all add: scanned_def)
    moreover have "ivs_ok [(start, 0x10FFFF)]" using s(2) by (simp add: ivs_ok_def)
    ultimately show ?thesis using lt Some s(3) by (simp add: ivs_ok_append)
  qed
  then show ?thesis unfolding category_intervalset_def st(1) by (auto intro: denotes_new)
qed

lemma denotes_categories:
  assumes t: "covering table"
  shows "denotes (categories_union table cats)
    {c. c \<le> 0x10FFFF \<and> \<not> surrogate c \<and> (\<exists>cat \<in> set cats. in_category table cat c)}"
proof -
  let ?set = "\<lambda>cats. {c. c \<le> 0x10FFFF \<and> \<not> surrogate c \<and> (\<exists>cat \<in> set cats. in_category table cat c)}"
  have "\<exists>u. union_of_categories table (Some s) cats = Inr (Some u) \<and> iv_wf u
      \<and> members (intervals u) = members (intervals s) \<union> ?set cats" if "iv_wf s" for s cats
    using that
  proof (induction cats arbitrary: s)
    case (Cons cat cats)
    obtain v where v: "category_intervalset table cat = Inr v" "iv_wf v"
      "members (intervals v) = {c. c \<le> 0x10FFFF \<and> \<not> surrogate c \<and> in_category table cat c}"
      using denotes_category [OF t] unfolding denotes_def by blast
    obtain w where w: "union s v = Inr w" "iv_wf w" "members (intervals w) = members (intervals s) \<union> members (intervals v)"
      using union_ok [OF Cons.prems v(2)] by blast
    from Cons.IH [OF w(2)] show ?case by (auto simp: v w)
  qed auto
  note more = this
  show ?thesis
  proof (cases cats)
    case Nil
    then show ?thesis by (auto simp: categories_union_def intro!: denotes_new)
  next
    case (Cons cat rest)
    obtain v where v: "category_intervalset table cat = Inr v" "iv_wf v"
      "members (intervals v) = {c. c \<le> 0x10FFFF \<and> \<not> surrogate c \<and> in_category table cat c}"
      using denotes_category [OF t] unfolding denotes_def by blast
    from more [OF v(2), of rest] Cons
    show ?thesis by (auto simp: categories_union_def denotes_def v)
  qed
qed

section \<open>The alphabet\<close>

definition unicode_table :: "category_ranges \<Rightarrow> bool" where
  "unicode_table table \<longleftrightarrow> covering table \<and> (\<forall>c. in_category table ''Cs'' c \<longrightarrow> surrogate c)"

definition category_allows :: "category_ranges \<Rightarrow> text_alphabet \<Rightarrow> codepoint \<Rightarrow> bool" where
  "category_allows table a c \<longleftrightarrow>
     (case (ta_categories a, ta_exclude_categories a) of
        (Some cats, _) \<Rightarrow> \<exists>cat \<in> set cats. in_category table cat c
      | (None, Some excl) \<Rightarrow> \<not> (\<exists>cat \<in> set excl. in_category table cat c)
      | (None, None) \<Rightarrow> True)"

lemma denotes_restrict:
  assumes t: "unicode_table table" and base: "iv_wf base" "\<forall>c \<in> members (intervals base). c \<le> 0x10FFFF \<and> \<not> surrogate c"
  shows "denotes (restrict_categories table a base) {c \<in> members (intervals base). category_allows table a c}"
proof -
  have cov: "covering table" and cs: "\<And>c. in_category table ''Cs'' c \<Longrightarrow> surrogate c"
    using t by (auto simp: unicode_table_def)
  have same: "denotes (Inr base) (members (intervals base))" using base(1) by (simp add: denotes_def)
  show ?thesis
  proof (cases "ta_categories a")
    case (Some cats)
    show ?thesis
    proof (cases "cats = []")
      case True
      then show ?thesis using Some by (auto simp: restrict_categories_def category_allows_def intro!: denotes_new)
    next
      case False
      have "denotes (rbind (categories_union table cats) (\<lambda>u. intersection base u))
          {c \<in> members (intervals base). category_allows table a c}"
      proof (rule denotes_bind [OF denotes_categories [OF cov]])
        fix s
        assume s: "iv_wf s" and m: "members (intervals s) = {c. c \<le> 0x10FFFF \<and> \<not> surrogate c \<and> (\<exists>cat \<in> set cats. in_category table cat c)}"
        have "members (intervals base) \<inter> members (intervals s) = {c \<in> members (intervals base). category_allows table a c}"
          unfolding m using base(2) Some by (auto simp: category_allows_def)
        then show "denotes (intersection base s) {c \<in> members (intervals base). category_allows table a c}"
          using denotes_ops(3) [OF base(1) s] by simp
      qed
      then show ?thesis using Some False by (simp add: restrict_categories_def)
    qed
  next
    case None
    show ?thesis
    proof (cases "ta_exclude_categories a")
      case no: None
      then show ?thesis using None same by (simp add: restrict_categories_def category_allows_def)
    next
      case (Some excl)
      show ?thesis
      proof (cases "list_all (\<lambda>c. c = ''Cs'') excl")
        case True
        have "{c \<in> members (intervals base). category_allows table a c} = members (intervals base)"
          using True base(2) cs None Some by (auto simp: category_allows_def list_all_iff)
        then show ?thesis using True None Some same by (simp add: restrict_categories_def)
      next
        case False
        have "denotes (rbind (categories_union table (filter (\<lambda>c. c \<noteq> ''Cs'') excl)) (\<lambda>u. difference base u))
            {c \<in> members (intervals base). category_allows table a c}"
        proof (rule denotes_bind [OF denotes_categories [OF cov]])
          fix s
          assume s: "iv_wf s" and m: "members (intervals s) = {c. c \<le> 0x10FFFF \<and> \<not> surrogate c
              \<and> (\<exists>cat \<in> set (filter (\<lambda>c. c \<noteq> ''Cs'') excl). in_category table cat c)}"
          have "members (intervals base) - members (intervals s) = {c \<in> members (intervals base). category_allows table a c}"
            unfolding m using base(2) None Some cs by (auto simp: category_allows_def)
          then show "denotes (difference base s) {c \<in> members (intervals base). category_allows table a c}"
            using denotes_ops(2) [OF base(1) s] by simp
        qed
        then show ?thesis using False None Some by (simp add: restrict_categories_def)
      qed
    qed
  qed
qed

lemma denotes_excluded:
  assumes "iv_wf s" "list_all is_char (options cs)"
  shows "denotes (apply_characters difference cs s) (members (intervals s) - set (options cs))"
proof (cases "options cs = []")
  case True
  then show ?thesis using assms(1) by (simp add: apply_characters_def denotes_def)
next
  case False
  have "denotes (rbind (chars_to_intervals (options cs)) (\<lambda>t. difference s t)) (members (intervals s) - set (options cs))"
    by (rule denotes_bind [OF denotes_chars [OF assms(2)]]) (metis denotes_ops(2) assms(1))
  then show ?thesis using False by (simp add: apply_characters_def)
qed

lemma denotes_included:
  assumes "iv_wf s" "list_all is_char (options cs)"
  shows "denotes (apply_characters union cs s) (members (intervals s) \<union> set (options cs))"
proof (cases "options cs = []")
  case True
  then show ?thesis using assms(1) by (simp add: apply_characters_def denotes_def)
next
  case False
  have "denotes (rbind (chars_to_intervals (options cs)) (\<lambda>t. union s t)) (members (intervals s) \<union> set (options cs))"
    by (rule denotes_bind [OF denotes_chars [OF assms(2)]]) (metis denotes_ops(1) assms(1))
  then show ?thesis using False by (simp add: apply_characters_def)
qed

lemma build_intervals_spec:
  assumes t: "unicode_table table" and a: "scalar_strings a"
  shows "if acceptable a
     then \<exists>s. build_intervals table a = Inr s \<and> iv_wf s \<and> printable s
            \<and> members (intervals s) = {c. admitted table a c}
     else \<exists>msg. build_intervals table a = Inl (InvalidArgument msg)"
proof (cases "acceptable a")
  case True
  then obtain lo hi where codec: "codec_range (ta_codec a) = Some (lo, hi)"
    and ok: "ta_codec a \<noteq> None \<longrightarrow> (\<forall>c \<in> set (options (ta_include_characters a)). lo \<le> c \<and> c \<le> hi)"
      "\<forall>cat \<in> set (options (ta_categories a)) \<union> set (options (ta_exclude_categories a)). is_valid_category cat"
      "set (options (ta_include_characters a)) \<inter> set (options (ta_exclude_characters a)) = {}"
    by (auto simp: acceptable_def)
  have hi: "hi \<le> 0x10FFFF" using codec by (auto simp: codec_range_def split: option.splits if_splits)
  let ?base = "{c. \<not> surrogate c \<and> max lo (ta_min_codepoint a) \<le> c \<and> c \<le> min hi (ta_max_codepoint a)}"
  let ?build = "rbind (range_minus_surrogates (max lo (ta_min_codepoint a)) (min hi (ta_max_codepoint a))) (\<lambda>base.
      rbind (restrict_categories table a base) (\<lambda>ivs.
      rbind (apply_characters difference (ta_exclude_characters a) ivs) (\<lambda>ivs.
      apply_characters union (ta_include_characters a) ivs)))"
  have set: "({c \<in> ?base. category_allows table a c} - set (options (ta_exclude_characters a)))
      \<union> set (options (ta_include_characters a)) = {c. admitted table a c}"
    by (auto simp: admitted_def category_allows_def codec)
  have "denotes ?build {c. admitted table a c}"
  proof (rule denotes_bind [OF denotes_base], goal_cases)
    case (2 base)
    note base = 2(2)
    show ?case
    proof (rule denotes_bind [OF denotes_restrict [OF t 2(1)]], goal_cases)
      case (2 s)
      show ?case
      proof (rule denotes_bind [OF denotes_excluded [OF 2(1)]])
        fix t
        assume "iv_wf t" and "members (intervals t) = members (intervals s) - set (options (ta_exclude_characters a))"
        then show "denotes (apply_characters union (ta_include_characters a) t) {c. admitted table a c}"
          using denotes_included [of t "ta_include_characters a"] a set 2(2) base by (simp add: scalar_strings_def)
      qed (use a in \<open>simp add: scalar_strings_def\<close>)
    qed (use base hi in auto)
  qed (use hi in simp)
  then obtain s where s: "?build = Inr s" "iv_wf s" "members (intervals s) = {c. admitted table a c}"
    unfolding denotes_def by blast
  have "printable s"
    using a unfolding printable_def s(3) by (auto simp: admitted_def surrogate_def scalar_strings_def list_all_iff is_char_def)
  moreover have "build_intervals table a = engine ?build"
    using codec ok by (auto simp: build_intervals_def refuse_def list_all_iff)
  ultimately show ?thesis using True s by (simp add: engine_def)
next
  case False
  then show ?thesis
    by (auto simp: acceptable_def build_intervals_def refuse_def list_all_iff split: option.splits)
qed

text \<open>C20: an alphabet request is refused as invalid exactly when its codec or a category is unknown, an
  included character is outside an explicit codec, or a character is both included and excluded.
  Any other yields, without internal error, a well-formed set of scalar values that contains
  exactly the included characters and the characters in the range and the codec, with an allowed
  category, that are not excluded.\<close>
theorem build_intervals_members:
  assumes t: "unicode_table table" and a: "scalar_strings a"
  shows "if acceptable a
     then \<exists>s. build_intervals table a = Inr s \<and> iv_wf s \<and> printable s
            \<and> members (intervals s) = {c. admitted table a c}
     else \<exists>msg. build_intervals table a = Inl (InvalidArgument msg)"
  by (rule build_intervals_spec [OF t a])

definition sample_table :: category_ranges where
  "sample_table = [(0xD7FF, GC_Ll), (0xDFFF, GC_Cs), (0x10FFFF, GC_Lu)]"

definition sample_alphabet :: text_alphabet where
  "sample_alphabet = default_alphabet\<lparr>ta_categories := Some [''Ll''], ta_max_codepoint := 99,
     ta_exclude_characters := Some [98], ta_include_characters := Some [0x1F600]\<rparr>"

lemma sample_unicode: "unicode_table sample_table"
  by (auto simp: unicode_table_def covering_def sample_table_def in_category_def is_in_group_def general_category_def
      category_lookup_def group_matches_def surrogate_def hegel_internal_assert_def Let_def split: if_splits)

theorem build_intervals_members_witness:
  "\<exists>s. build_intervals sample_table sample_alphabet = Inr s
     \<and> 97 \<in> members (intervals s) \<and> 98 \<notin> members (intervals s) \<and> 0x1F600 \<in> members (intervals s)"
proof -
  have a: "acceptable sample_alphabet" "scalar_strings sample_alphabet"
    by (simp_all add: acceptable_def scalar_strings_def sample_alphabet_def default_alphabet_def codec_range_def
        is_valid_category_def options_def is_char_def)
  have "admitted sample_table sample_alphabet 97" "\<not> admitted sample_table sample_alphabet 98"
    "admitted sample_table sample_alphabet 0x1F600"
    by (simp_all add: admitted_def sample_alphabet_def default_alphabet_def codec_range_def options_def surrogate_def
        in_category_def sample_table_def is_in_group_def general_category_def category_lookup_def group_matches_def
        hegel_internal_assert_def)
  then show ?thesis using build_intervals_members [OF sample_unicode a(2)] a(1) by auto
qed

end
