(* ===== verification/Internet.thy ===== *)
theory Internet
  imports Special DrawProcs
begin

text \<open>
  \<open>hegel-c/src/native/draws/internet.rs\<close>: domain names, email addresses and URLs. A string is a
  list of codepoints, \<open>len\<close> of the source its number of UTF-8 bytes. The lines of the vendored
  list of top-level domains are a parameter. The statics memoise the values defined here.
\<close>

section \<open>Constants\<close>

definition utf8_width :: "codepoint \<Rightarrow> nat" where
  "utf8_width c = (if c < 0x80 then 1 else if c < 0x800 then 2 else if c < 0x10000 then 3 else 4)"

definition utf8_length :: "codepoint list \<Rightarrow> nat" where
  "utf8_length s = sum_list (map utf8_width s)"

definition f64_half :: f64 where "f64_half = 0x3FE0000000000000"

definition TOP_LEVEL_DOMAINS :: "codepoint list list \<Rightarrow> codepoint list list" where
  "TOP_LEVEL_DOMAINS tlds_lines =
     codes ''COM'' # sort_key utf8_length
       (filter (\<lambda>line. \<not> (line \<noteq> [] \<and> hd line = code CHR ''#'') \<and> line \<noteq> codes ''ARPA'') tlds_lines)"

definition EMAIL_LOCAL_PART_INTERVALS :: "interval_set internal_result" where
  "EMAIL_LOCAL_PART_INTERVALS =
     new [(33, 33), (35, 39), (42, 43), (45, 45), (47, 57), (61, 61), (65, 90), (94, 96), (97, 122), (123, 126)]"

definition PRINTABLE_ASCII_INTERVALS :: "interval_set internal_result" where
  "PRINTABLE_ASCII_INTERVALS = new [(9, 13), (32, 126)]"

definition FRAGMENT_BYTE_INTERVALS :: "interval_set internal_result" where
  "FRAGMENT_BYTE_INTERVALS = new [(0, 0xFF)]"

section \<open>Domain names\<close>

record domain_spec =
  ds_max_length :: nat
  ds_eligible_tlds :: "codepoint list list"

definition domain_spec_new :: "codepoint list list \<Rightarrow> nat \<Rightarrow> engine_error + domain_spec" where
  "domain_spec_new tlds_lines max_length =
     (if 255 < max_length then Inl (InvalidArgument ''domain max_length exceeds the RFC 1035 limit of 255'')
      else let eligible = filter (\<lambda>tld. utf8_length tld + 2 \<le> max_length) (TOP_LEVEL_DOMAINS tlds_lines)
           in if eligible = [] then Inl (InvalidArgument ''domain max_length leaves no eligible TLDs'')
              else Inr \<lparr>ds_max_length = max_length, ds_eligible_tlds = eligible\<rparr>)"

definition FULL_LENGTH_DOMAIN :: "codepoint list list \<Rightarrow> domain_spec internal_result" where
  "FULL_LENGTH_DOMAIN tlds_lines =
     hegel_internal_unwrap (case domain_spec_new tlds_lines 255 of Inr spec \<Rightarrow> Some spec | Inl _ \<Rightarrow> None)
       ''the full-length domain spec failed to build''"

definition draw_i128 :: "(f64 \<Rightarrow> f64) \<Rightarrow> 'r sampling \<Rightarrow> int \<Rightarrow> int \<Rightarrow> ('r, int) draw" where
  "draw_i128 lc S lo hi = ebind (draw_integer lc S (\<lambda>_. True) lo hi) (unwrapped to_i128)"

definition to_ascii_lowercase :: "codepoint \<Rightarrow> codepoint" where
  "to_ascii_lowercase c = (if 65 \<le> c \<and> c \<le> 90 then c + 32 else c)"

definition ascii_letter :: "nat \<Rightarrow> codepoint" where
  "ascii_letter i = (if i < 26 then 97 + i else 65 + (i - 26))"

definition ascii_alnum :: "nat \<Rightarrow> codepoint" where
  "ascii_alnum i = (if i < 26 then 97 + i else if i < 52 then 65 + (i - 26) else 48 + (i - 52))"

definition ascii_alnum_or_hyphen :: "nat \<Rightarrow> codepoint" where
  "ascii_alnum_or_hyphen i =
     (if i < 26 then 97 + i else if i < 52 then 65 + (i - 26) else if i < 62 then 48 + (i - 52) else 45)"

text \<open>The cast to \<open>u8\<close> keeps values below 256.\<close>

definition draw_ascii_letter :: "(f64 \<Rightarrow> f64) \<Rightarrow> 'r sampling \<Rightarrow> ('g, 'r, codepoint) drawing" where
  "draw_ascii_letter lc S = pbind (on_case (draw_i128 lc S 0 51)) (\<lambda>i. pret (ascii_letter (nat (i mod 2 ^ 8))))"

definition draw_ascii_alnum :: "(f64 \<Rightarrow> f64) \<Rightarrow> 'r sampling \<Rightarrow> ('g, 'r, codepoint) drawing" where
  "draw_ascii_alnum lc S = pbind (on_case (draw_i128 lc S 0 61)) (\<lambda>i. pret (ascii_alnum (nat (i mod 2 ^ 8))))"

definition draw_ascii_alnum_or_hyphen :: "(f64 \<Rightarrow> f64) \<Rightarrow> 'r sampling \<Rightarrow> ('g, 'r, codepoint) drawing" where
  "draw_ascii_alnum_or_hyphen lc S =
     pbind (on_case (draw_i128 lc S 0 62)) (\<lambda>i. pret (ascii_alnum_or_hyphen (nat (i mod 2 ^ 8))))"

text \<open>The characters at the positions \<open>is\<close> of a label that starts with \<open>s\<close>.\<close>

fun dns_middle ::
  "(f64 \<Rightarrow> f64) \<Rightarrow> 'r sampling \<Rightarrow> nat list \<Rightarrow> codepoint list \<Rightarrow> ('g, 'r, codepoint list) drawing" where
  "dns_middle lc S [] s = pret s"
| "dns_middle lc S (i # is) s =
     pbind (if i = 3 \<and> s ! 2 = code CHR ''-'' then draw_ascii_alnum lc S else draw_ascii_alnum_or_hyphen lc S)
       (\<lambda>c. dns_middle lc S is (s @ [c]))"

definition draw_dns_label ::
  "(f64 \<Rightarrow> f64) \<Rightarrow> 'r sampling \<Rightarrow> nat \<Rightarrow> ('g, 'r, codepoint list) drawing" where
  "draw_dns_label lc S max_len =
     pbind (on_case (draw_i128 lc S 1 (int max_len))) (\<lambda>len.
     pbind (draw_ascii_letter lc S) (\<lambda>c.
     if 1 < nat len
     then pbind (dns_middle lc S [1..<nat len - 1] [c]) (\<lambda>s.
          pbind (draw_ascii_alnum lc S) (\<lambda>c. pret (s @ [c])))
     else pret [c]))"

fun flip_case :: "(f64 \<Rightarrow> f64) \<Rightarrow> 'r sampling \<Rightarrow> codepoint list \<Rightarrow> ('g, 'r, codepoint list) drawing" where
  "flip_case lc S [] = pret []"
| "flip_case lc S (c # cs) =
     pbind (on_case (weighted lc S f64_half None)) (\<lambda>flip.
     pbind (flip_case lc S cs) (\<lambda>rest. pret ((if flip then to_ascii_lowercase c else c) # rest)))"

definition MAX_LABEL_LEN :: nat where "MAX_LABEL_LEN = 63"

definition prepend_label ::
  "(f64 \<Rightarrow> f64) \<Rightarrow> 'r sampling \<Rightarrow> nat \<Rightarrow> codepoint list \<Rightarrow> ('g, 'r, codepoint list) drawing" where
  "prepend_label lc S max_length domain =
     pbind (draw_dns_label lc S MAX_LABEL_LEN) (\<lambda>label.
     if max_length < utf8_length domain + 1 + utf8_length label then pret domain
     else pret (label @ [code CHR ''.''] @ domain))"

definition generate_domain ::
  "(f64 \<Rightarrow> f64) \<Rightarrow> 'r sampling \<Rightarrow> domain_spec \<Rightarrow> ('g, 'r, codepoint list) drawing" where
  "generate_domain lc S spec =
     pbind (on_case (draw_i128 lc S 0 (int (length (ds_eligible_tlds spec)) - 1))) (\<lambda>idx.
     pbind (on_case (index_at (ds_eligible_tlds spec) (nat idx))) (\<lambda>tld.
     pbind (flip_case lc S tld) (\<lambda>domain.
     many_loop lc S (many_new 1 (Some 126)) (prepend_label lc S (ds_max_length spec)) domain)))"

section \<open>Email addresses\<close>

definition generate_email ::
  "(f64 \<Rightarrow> f64) \<Rightarrow> 'r sampling \<Rightarrow> codepoint list list \<Rightarrow> ('g, 'r, codepoint list) drawing" where
  "generate_email lc S tlds_lines =
     pbind (pinternal EMAIL_LOCAL_PART_INTERVALS) (\<lambda>alphabet.
     pbind (on_case (draw_string lc S alphabet 1 64)) (\<lambda>local_part.
     pbind (pinternal (FULL_LENGTH_DOMAIN tlds_lines)) (\<lambda>spec.
     pbind (generate_domain lc S spec) (\<lambda>domain.
     let address = local_part @ [code CHR ''@''] @ domain
     in if 254 < utf8_length address then mark_invalid else pret address))))"

section \<open>URLs\<close>

definition is_ascii_alphanumeric :: "codepoint \<Rightarrow> bool" where
  "is_ascii_alphanumeric c \<longleftrightarrow> (48 \<le> c \<and> c \<le> 57) \<or> (65 \<le> c \<and> c \<le> 90) \<or> (97 \<le> c \<and> c \<le> 122)"

definition is_url_safe :: "codepoint \<Rightarrow> bool" where
  "is_url_safe c \<longleftrightarrow> is_ascii_alphanumeric c \<or> c \<in> set (codes ''$-_.+!*'' @ [39] @ codes ''(),~'')"

definition is_fragment_safe :: "codepoint \<Rightarrow> bool" where
  "is_fragment_safe c \<longleftrightarrow> is_url_safe c \<or> c = code CHR ''?'' \<or> c = code CHR ''/''"

definition upper_hex :: "nat \<Rightarrow> codepoint" where
  "upper_hex d = (if d < 10 then 48 + d else 55 + d)"

definition push_percent_encoded :: "codepoint list \<Rightarrow> codepoint \<Rightarrow> codepoint list internal_result" where
  "push_percent_encoded out c =
     rbind (hegel_internal_assert (c \<le> 0xFF) ''push_percent_encoded called with codepoint > 0xFF'') (\<lambda>_.
     let b = c mod 256 in Inr (out @ [code CHR ''%'', upper_hex (b div 16), upper_hex (b mod 16)]))"

fun url_encode_path_from :: "codepoint list \<Rightarrow> codepoint list \<Rightarrow> codepoint list internal_result" where
  "url_encode_path_from out [] = Inr out"
| "url_encode_path_from out (c # cs) =
     rbind (if is_url_safe c then Inr (out @ [c]) else push_percent_encoded out c) (\<lambda>out.
     url_encode_path_from out cs)"

definition url_encode_path :: "codepoint list \<Rightarrow> codepoint list internal_result" where
  "url_encode_path s = url_encode_path_from [] s"

fun url_encode_fragment ::
  "(f64 \<Rightarrow> f64) \<Rightarrow> 'r sampling \<Rightarrow> codepoint list \<Rightarrow> codepoint list \<Rightarrow> ('g, 'r, codepoint list) drawing" where
  "url_encode_fragment lc S out [] = pret out"
| "url_encode_fragment lc S out (c # cs) =
     pbind (on_case (weighted lc S f64_half None)) (\<lambda>force_encode.
     pbind (if force_encode \<or> \<not> is_fragment_safe c then pinternal (push_percent_encoded out c)
            else pret (out @ [c])) (\<lambda>out.
     url_encode_fragment lc S out cs))"

function decimal :: "nat \<Rightarrow> codepoint list" where
  "decimal n = (if n < 10 then [48 + n] else decimal (n div 10) @ [48 + n mod 10])"
  by auto
termination by (relation "measure id") auto

declare decimal.simps [simp del]

fun join_slash :: "codepoint list list \<Rightarrow> codepoint list" where
  "join_slash [] = []"
| "join_slash [x] = x"
| "join_slash (x # xs) = x @ [code CHR ''/''] @ join_slash xs"

definition push_component ::
  "(f64 \<Rightarrow> f64) \<Rightarrow> 'r sampling \<Rightarrow> codepoint list list \<Rightarrow> ('g, 'r, codepoint list list) drawing" where
  "push_component lc S components =
     pbind (pinternal PRINTABLE_ASCII_INTERVALS) (\<lambda>alphabet.
     pbind (on_case (draw_string lc S alphabet 0 100)) (\<lambda>raw.
     pbind (pinternal (url_encode_path raw)) (\<lambda>c. pret (components @ [c]))))"

definition draw_port :: "(f64 \<Rightarrow> f64) \<Rightarrow> 'r sampling \<Rightarrow> ('g, 'r, codepoint list) drawing" where
  "draw_port lc S =
     pbind (on_case (weighted lc S f64_half None)) (\<lambda>some.
     if some then pbind (on_case (draw_i128 lc S 1 65535)) (\<lambda>n. pret (code CHR '':'' # decimal (nat n)))
     else pret [])"

definition draw_fragment :: "(f64 \<Rightarrow> f64) \<Rightarrow> 'r sampling \<Rightarrow> ('g, 'r, codepoint list) drawing" where
  "draw_fragment lc S =
     pbind (on_case (weighted lc S f64_half None)) (\<lambda>some.
     if some
     then pbind (pinternal FRAGMENT_BYTE_INTERVALS) (\<lambda>alphabet.
          pbind (on_case (draw_string lc S alphabet 1 100)) (\<lambda>raw.
          pbind (url_encode_fragment lc S [] raw) (\<lambda>s. pret (code CHR ''#'' # s))))
     else pret [])"

definition generate_url ::
  "(f64 \<Rightarrow> f64) \<Rightarrow> 'r sampling \<Rightarrow> codepoint list list \<Rightarrow> ('g, 'r, codepoint list) drawing" where
  "generate_url lc S tlds_lines =
     pbind (on_case (weighted lc S f64_half None)) (\<lambda>secure.
     pbind (pinternal (FULL_LENGTH_DOMAIN tlds_lines)) (\<lambda>spec.
     pbind (generate_domain lc S spec) (\<lambda>domain.
     pbind (draw_port lc S) (\<lambda>port.
     pbind (many_loop lc S (many_new 0 None) (push_component lc S) []) (\<lambda>components.
     pbind (draw_fragment lc S) (\<lambda>fragment.
     pret (codes (if secure then ''https'' else ''http'') @ codes ''://'' @ domain @ port @ codes ''/''
           @ join_slash components @ fragment)))))))"

end
