(* ===== verification/InternetFacts.thy ===== *)
theory InternetFacts
  imports Internet MachineRuns
begin

text \<open>
  Generated domain names, email addresses and URLs have the form their documents describe, and
  their generators end.
\<close>

section \<open>The languages\<close>

definition is_letter :: "codepoint \<Rightarrow> bool" where
  "is_letter c \<longleftrightarrow> (65 \<le> c \<and> c \<le> 90) \<or> (97 \<le> c \<and> c \<le> 122)"

definition is_ldh :: "codepoint \<Rightarrow> bool" where
  "is_ldh c \<longleftrightarrow> is_ascii_alphanumeric c \<or> c = 45"

text \<open>No label has hyphens at its third and fourth position.\<close>

definition unreserved :: "codepoint list \<Rightarrow> bool" where
  "unreserved s \<longleftrightarrow> \<not> (3 < length s \<and> s ! 2 = 45 \<and> s ! 3 = 45)"

definition label_begun :: "codepoint list \<Rightarrow> bool" where
  "label_begun s \<longleftrightarrow> s \<noteq> [] \<and> is_letter (hd s) \<and> list_all is_ldh s \<and> unreserved s"

definition dns_label :: "codepoint list \<Rightarrow> bool" where
  "dns_label s \<longleftrightarrow> label_begun s \<and> is_ascii_alphanumeric (last s) \<and> length s \<le> 63"

fun dotted :: "codepoint list list \<Rightarrow> codepoint list \<Rightarrow> codepoint list" where
  "dotted [] tld = tld"
| "dotted (l # ls) tld = l @ [46] @ dotted ls tld"

text \<open>Labels before a top-level domain of the list, in any case, within the length bound.\<close>

definition domain_name :: "codepoint list list \<Rightarrow> nat \<Rightarrow> codepoint list \<Rightarrow> bool" where
  "domain_name tlds max_length d \<longleftrightarrow>
     (\<exists>labels tld t. d = dotted labels tld \<and> list_all dns_label labels \<and> t \<in> set tlds
        \<and> map to_ascii_lowercase tld = map to_ascii_lowercase t) \<and> utf8_length d \<le> max_length"

section \<open>Characters\<close>

lemma utf8_length_simps [simp]:
  "utf8_length [] = 0" "utf8_length (c # s) = utf8_width c + utf8_length s"
  "utf8_length (s @ t) = utf8_length s + utf8_length t"
  by (simp_all add: utf8_length_def)

lemma lowercase_width [simp]: "utf8_width (to_ascii_lowercase c) = utf8_width c"
  by (simp add: utf8_width_def to_ascii_lowercase_def)

lemma lowercase_idem [simp]: "to_ascii_lowercase (to_ascii_lowercase c) = to_ascii_lowercase c"
  by (simp add: to_ascii_lowercase_def)

lemma letter_range: "i \<le> 51 \<Longrightarrow> is_letter (ascii_letter i)"
  by (auto simp: is_letter_def ascii_letter_def)

lemma alnum_range: "i \<le> 61 \<Longrightarrow> is_ascii_alphanumeric (ascii_alnum i)"
  by (auto simp: is_ascii_alphanumeric_def ascii_alnum_def)

lemma ldh_range: "i \<le> 62 \<Longrightarrow> is_ldh (ascii_alnum_or_hyphen i)"
  by (auto simp: is_ldh_def is_ascii_alphanumeric_def ascii_alnum_or_hyphen_def)

lemma char_kinds:
  "is_letter c \<Longrightarrow> is_ascii_alphanumeric c" "is_ascii_alphanumeric c \<Longrightarrow> is_ldh c"
  "is_ascii_alphanumeric c \<Longrightarrow> c \<noteq> 45" "\<not> is_ascii_alphanumeric 45"
  by (auto simp: is_letter_def is_ascii_alphanumeric_def is_ldh_def)

lemma ldh_width: "list_all is_ldh s \<Longrightarrow> utf8_length s = length s"
  by (induction s) (auto simp: utf8_width_def is_ldh_def is_ascii_alphanumeric_def)

section \<open>Draws\<close>

lemma good_draw_i128:
  assumes S: "sampling_sound S" "integers_total S" and le: "lo \<le> hi" "- (2 ^ 127) \<le> lo" "hi < 2 ^ 127"
  shows "good_draw lc (draw_i128 lc S lo hi) (\<lambda>v. lo \<le> v \<and> v \<le> hi)"
  unfolding draw_i128_def
proof (rule good_ebind [OF good_draw_integer [OF S le(1)]])
  fix v
  assume v: "lo \<le> v \<and> v \<le> hi"
  then have "to_i128 v = Some v" using le by (simp add: to_i128_def)
  then show "good_draw lc (unwrapped to_i128 v) (\<lambda>v. lo \<le> v \<and> v \<le> hi)"
    using v by (auto intro: good_weaken [OF good_unwrapped])
qed

lemma spends_draw_i128: "spends (draw_i128 lc S lo hi)"
  unfolding draw_i128_def by (rule spends_then [OF spends_draw_integer]) (auto simp: unwrapped_def split: option.splits)

lemma draws_i128:
  assumes "sampling_sound S" "integers_total S" "lo \<le> hi" "- (2 ^ 127) \<le> lo" "hi < 2 ^ 127" "drawing_good lc s"
  shows "draws lc (\<lambda>v t. (lo \<le> v \<and> v \<le> hi) \<and> fst t = fst s \<and> budget (snd t) < budget (snd s)) (on_case (draw_i128 lc S lo hi)) s"
  by (rule draws_on_case [OF good_draw_i128 [OF assms(1-5)] spends_draw_i128 assms(6)])

lemma draws_char:
  assumes S: "sampling_sound S" "integers_total S" and hi: "0 \<le> hi" "hi < 256"
    and f: "\<And>i. i \<le> nat hi \<Longrightarrow> P (f i)" and s: "drawing_good lc s"
  shows "draws lc (\<lambda>c _. P c) (pbind (on_case (draw_i128 lc S 0 hi)) (\<lambda>i. pret (f (nat (i mod 2 ^ 8))))) s"
proof (rule drawing.ends_bind_good [OF draws_i128 [OF S _ _ _ s]])
  fix v t
  assume t: "drawing_good lc t" and v: "(0 \<le> v \<and> v \<le> hi) \<and> fst t = fst s \<and> budget (snd t) < budget (snd s)"
  have "v mod 2 ^ 8 = v" using v hi by simp
  then show "draws lc (\<lambda>c _. P c) (pret (f (nat (v mod 2 ^ 8)))) t"
    using v f [of "nat v"] by (intro drawing.ends_ret t) (simp add: nat_mono)
qed (use hi in simp_all)

lemma draws_chars:
  assumes S: "sampling_sound S" "integers_total S" and s: "drawing_good lc s"
  shows "draws lc (\<lambda>c _. is_letter c) (draw_ascii_letter lc S) s"
    "draws lc (\<lambda>c _. is_ascii_alphanumeric c) (draw_ascii_alnum lc S) s"
    "draws lc (\<lambda>c _. is_ldh c) (draw_ascii_alnum_or_hyphen lc S) s"
  unfolding draw_ascii_letter_def draw_ascii_alnum_def draw_ascii_alnum_or_hyphen_def
  by (rule draws_char [OF S _ _ _ s]; simp add: letter_range alnum_range ldh_range)+

lemma label_begun_snoc:
  assumes "label_begun s" "is_ldh c" "length s = 3 \<Longrightarrow> s ! 2 = 45 \<Longrightarrow> c \<noteq> 45"
  shows "label_begun (s @ [c])"
  using assms by (auto simp: label_begun_def unreserved_def nth_append less_Suc_eq)

lemma draws_dns_middle:
  assumes S: "sampling_sound S" "integers_total S"
    and s: "drawing_good lc s" and w: "label_begun w" "length w \<le> n"
  shows "draws lc (\<lambda>v _. label_begun v \<and> length v = n) (dns_middle lc S [length w..<n] w) (s :: 'b \<times> 'a test_case)"
  using s w
proof (induction "n - length w" arbitrary: w s)
  case 0
  then have n: "length w = n" by simp
  have "draws lc (\<lambda>v _. label_begun v \<and> length v = n) (pret w) s"
    using 0 n by (intro drawing.ends_ret) simp_all
  then show ?case using n by (simp add: pret_def [abs_def])
next
  case (Suc k)
  then have lt: "length w < n" by simp
  let ?draw = "if length w = 3 \<and> w ! 2 = code CHR ''-'' then draw_ascii_alnum lc S else draw_ascii_alnum_or_hyphen lc S"
  have "draws lc (\<lambda>c _. is_ldh c \<and> (length w = 3 \<longrightarrow> w ! 2 = 45 \<longrightarrow> c \<noteq> 45)) ?draw s"
    by (rule drawing.ends_if; rule drawing.ends_weaken [OF draws_chars(2) [OF S Suc.prems(1)]]
          drawing.ends_weaken [OF draws_chars(3) [OF S Suc.prems(1)]])
       (auto simp: char_kinds code_def)
  then have "draws lc (\<lambda>v _. label_begun v \<and> length v = n)
      (pbind ?draw (\<lambda>c. dns_middle lc S [Suc (length w)..<n] (w @ [c]))) s"
  proof (rule drawing.ends_bind_good)
    fix c and t :: "'b \<times> 'a test_case"
    assume "drawing_good lc t" and c: "is_ldh c \<and> (length w = 3 \<longrightarrow> w ! 2 = 45 \<longrightarrow> c \<noteq> 45)"
    then show "draws lc (\<lambda>v _. label_begun v \<and> length v = n) (dns_middle lc S [Suc (length w)..<n] (w @ [c])) t"
      using Suc.hyps(1) [of "w @ [c]" t] Suc.hyps(2) Suc.prems(2) lt label_begun_snoc [of w c] by simp
  qed
  then show ?case using lt by (simp add: upt_conv_Cons)
qed

lemma draws_dns_label:
  assumes S: "sampling_sound S" "integers_total S" and s: "drawing_good lc s"
  shows "draws lc (\<lambda>v _. dns_label v) (draw_dns_label lc S MAX_LABEL_LEN) (s :: 'a \<times> 'b test_case)"
  unfolding draw_dns_label_def
proof (rule drawing.ends_bind_good [OF draws_i128 [OF S _ _ _ s]])
  fix len and t :: "'a \<times> 'b test_case"
  assume t: "drawing_good lc t"
    and len: "(1 \<le> len \<and> len \<le> int MAX_LABEL_LEN) \<and> fst t = fst s \<and> budget (snd t) < budget (snd s)"
  show "draws lc (\<lambda>v _. dns_label v) (pbind (draw_ascii_letter lc S) (\<lambda>c. if 1 < nat len
      then pbind (dns_middle lc S [1..<nat len - 1] [c]) (\<lambda>s. pbind (draw_ascii_alnum lc S) (\<lambda>c. pret (s @ [c])))
      else pret [c])) t"
  proof (rule drawing.ends_bind_good [OF draws_chars(1) [OF S t]], rule drawing.ends_if, goal_cases)
    case (1 c u)
    have begun: "label_begun [c]" using 1 char_kinds by (simp add: label_begun_def unreserved_def)
    have "draws lc (\<lambda>v _. label_begun v \<and> length v = nat len - 1) (dns_middle lc S [1..<nat len - 1] [c]) u"
      using draws_dns_middle [OF S 1(1) begun, of "nat len - 1"] 1(3) by simp
    then show ?case
    proof (rule drawing.ends_bind_good)
      fix w and v :: "'a \<times> 'b test_case"
      assume v: "drawing_good lc v" and w: "label_begun w \<and> length w = nat len - 1"
      show "draws lc (\<lambda>v _. dns_label v) (pbind (draw_ascii_alnum lc S) (\<lambda>c. pret (w @ [c]))) v"
        by (rule drawing.ends_bind_good [OF draws_chars(2) [OF S v]], rule drawing.ends_ret)
           (use w len in \<open>auto simp: dns_label_def char_kinds(2,4) MAX_LABEL_LEN_def intro!: label_begun_snoc\<close>)
    qed
  next
    case (2 c u)
    then show ?case
      by (intro drawing.ends_ret) (auto simp: dns_label_def label_begun_def unreserved_def char_kinds)
  qed
qed (simp_all add: MAX_LABEL_LEN_def)

lemma draws_flip_case:
  assumes "drawing_good lc s"
  shows "draws lc (\<lambda>v _. map to_ascii_lowercase v = map to_ascii_lowercase w) (flip_case lc S w) s"
  using assms
proof (induction w arbitrary: s)
  case (Cons c cs)
  show ?case unfolding flip_case.simps
    by (rule drawing.ends_bind_good [OF draws_weighted [OF Cons.prems]], rule drawing.ends_bind_good [OF Cons.IH],
        assumption, rule drawing.ends_ret) simp_all
qed (simp add: drawing.ends_ret)

lemma lowercase_length: "map to_ascii_lowercase v = map to_ascii_lowercase w \<Longrightarrow> utf8_length v = utf8_length w"
proof -
  have "map utf8_width x = map utf8_width (map to_ascii_lowercase x)" for x by simp
  then show "map to_ascii_lowercase v = map to_ascii_lowercase w \<Longrightarrow> utf8_length v = utf8_length w"
    unfolding utf8_length_def by metis
qed

lemma domain_name_tld:
  "t \<in> set tlds \<Longrightarrow> map to_ascii_lowercase v = map to_ascii_lowercase t \<Longrightarrow> utf8_length t \<le> m \<Longrightarrow> domain_name tlds m v"
  unfolding domain_name_def by (metis dotted.simps(1) list.pred_inject(1) lowercase_length)

lemma domain_name_cons:
  assumes "domain_name tlds m d" "dns_label l" "utf8_length (l @ [46] @ d) \<le> m"
  shows "domain_name tlds m (l @ [46] @ d)"
proof -
  obtain labels tld t where d: "d = dotted labels tld" "list_all dns_label labels" "t \<in> set tlds"
    "map to_ascii_lowercase tld = map to_ascii_lowercase t"
    using assms(1) unfolding domain_name_def by blast
  have "l @ [46] @ d = dotted (l # labels) tld" "list_all dns_label (l # labels)" using d assms(2) by simp_all
  then show ?thesis using d(3,4) assms(3) unfolding domain_name_def by blast
qed

lemma draws_prepend_label:
  assumes S: "sampling_sound S" "integers_total S" and s: "drawing_good lc s" and d: "domain_name tlds m d"
  shows "draws lc (\<lambda>v _. domain_name tlds m v) (prepend_label lc S m d) s"
  unfolding prepend_label_def
  by (rule drawing.ends_bind_good [OF draws_dns_label [OF S s]], rule drawing.ends_if; rule drawing.ends_ret, assumption)
     (use d domain_name_cons [OF d] in \<open>auto simp: code_def utf8_width_def\<close>)

lemma domain_spec_new_eligible:
  assumes "domain_spec_new tlds_lines max_length = Inr spec"
  shows "ds_max_length spec = max_length" "ds_eligible_tlds spec \<noteq> []"
    "set (ds_eligible_tlds spec) = {tld \<in> set (TOP_LEVEL_DOMAINS tlds_lines). utf8_length tld + 2 \<le> max_length}"
  using assms by (auto simp: domain_spec_new_def Let_def split: if_splits)


section \<open>Domain names\<close>

lemma draws_index:
  "drawing_good lc s \<Longrightarrow> i < length xs \<Longrightarrow> draws lc (\<lambda>x t. x = xs ! i \<and> t = s) (on_case (index_at xs i)) s"
  by (rule drawing.endsI [of _ _ "Inr (xs ! i)" s]) (simp_all add: on_case_def index_at_def drawing.step_refl)

lemma draws_generate_domain:
  assumes S: "sampling_sound S" "integers_total S" and good: "drawing_good lc s"
    and spec: "domain_spec_new tlds_lines max_length = Inr spec"
    and size: "length tlds_lines < 2 ^ 64"
  shows "draws lc (\<lambda>v _. domain_name (TOP_LEVEL_DOMAINS tlds_lines) max_length v) (generate_domain lc S spec) s"
proof -
  note e = domain_spec_new_eligible [OF spec]
  have n: "length (ds_eligible_tlds spec) \<noteq> 0" using e(2) by simp
  have "length (TOP_LEVEL_DOMAINS tlds_lines) \<le> Suc (length tlds_lines)" by (simp add: TOP_LEVEL_DOMAINS_def)
  moreover have "length (ds_eligible_tlds spec) \<le> length (TOP_LEVEL_DOMAINS tlds_lines)"
    using spec by (auto simp: domain_spec_new_def Let_def simp del: filter.simps split: if_splits)
  ultimately have "length (ds_eligible_tlds spec) \<le> Suc (length tlds_lines)" by simp
  then have small: "int (length (ds_eligible_tlds spec)) < 2 ^ 127" using size by simp
  show ?thesis
    unfolding generate_domain_def
  proof (rule drawing.ends_bind_good [OF draws_i128 [OF S _ _ _ good]], goal_cases)
    case (4 idx t)
    then have idx: "nat idx < length (ds_eligible_tlds spec)" by auto
    show ?case
    proof (rule drawing.ends_bind_good [OF draws_index [OF 4(1) idx]])
      fix tld u
      assume u: "drawing_good lc u" and "tld = ds_eligible_tlds spec ! nat idx \<and> u = t"
      then have "tld \<in> set (ds_eligible_tlds spec)" using idx by simp
      then have tld: "tld \<in> set (TOP_LEVEL_DOMAINS tlds_lines)" "utf8_length tld \<le> max_length" using e(3) by auto
      show "draws lc (\<lambda>v _. domain_name (TOP_LEVEL_DOMAINS tlds_lines) max_length v)
          (pbind (flip_case lc S tld) (many_loop lc S (many_new 1 (Some 126)) (prepend_label lc S (ds_max_length spec)))) u"
      proof (rule drawing.ends_bind_good [OF draws_flip_case [OF u]], goal_cases)
        case (1 d v)
        then show ?case
          unfolding e(1)
          by (intro draws_many_loop [where I = "\<lambda>v _. domain_name (TOP_LEVEL_DOMAINS tlds_lines) max_length v"])
             (auto intro: draws_prepend_label [OF S] domain_name_tld [OF tld(1) _ tld(2)])
      qed
    qed
  qed (use n small in auto)
qed

text \<open>C21: a request for a domain name, for a specification built for a length bound, ends: with an
  overrun or the verdict of the test case, or with a name that fits the bound and consists of
  labels and a top-level domain of the list that fits, in any case. Each label has at most
  63 characters, begins with a letter, ends with a letter or digit, contains letters, digits and
  hyphens, and has no hyphens at its third and fourth position.\<close>
theorem generate_domain_name:
  assumes S: "sampling_sound S" "integers_total S" and s: "sourced lc (snd s)"
    and spec: "domain_spec_new tlds_lines max_length = Inr spec"
    and size: "length tlds_lines < 2 ^ 64"
  shows "\<exists>r t. generate_domain lc S spec s = Some (r, t)
     \<and> (case r of Inr d \<Rightarrow> domain_name (TOP_LEVEL_DOMAINS tlds_lines) max_length d | Inl e \<Rightarrow> ends_draw e)"
  using draws_generate_domain [OF S _ spec size, of lc s] s
  by (cases rule: drawing.endsE) (auto simp: drawing_good_def)

theorem generate_domain_name_witness:
  "\<exists>spec r t. domain_spec_new [codes ''NET'', codes ''# comment''] 12 = Inr spec
     \<and> generate_domain (\<lambda>v. v) sample_sampling spec ((), sample_random_root) = Some (r, t)
     \<and> (case r of Inr d \<Rightarrow> domain_name [codes ''COM'', codes ''NET''] 12 d | Inl e \<Rightarrow> ends_draw e)"
proof -
  have tlds: "TOP_LEVEL_DOMAINS [codes ''NET'', codes ''# comment''] = [codes ''COM'', codes ''NET'']"
    by (simp add: TOP_LEVEL_DOMAINS_def codes_def code_def)
  obtain spec where spec: "domain_spec_new [codes ''NET'', codes ''# comment''] 12 = Inr spec"
    by (auto simp: domain_spec_new_def tlds Let_def) (simp add: codes_def code_def utf8_width_def)
  show ?thesis
    using generate_domain_name [OF sample_sampling_sound sample_integers_total _ spec, of "\<lambda>v. v" "((), sample_random_root)"]
      sample_sourced spec unfolding tlds by auto
qed

section \<open>Email addresses\<close>

text \<open>The characters of a dot-atom without dots.\<close>

definition is_atext :: "codepoint \<Rightarrow> bool" where
  "is_atext c \<longleftrightarrow> is_ascii_alphanumeric c \<or> c \<in> set (codes ''!#$%&*+-/=?^_`{|}~'' @ [39])"

definition email_address :: "codepoint list list \<Rightarrow> codepoint list \<Rightarrow> bool" where
  "email_address tlds a \<longleftrightarrow> (\<exists>local_part domain. a = local_part @ [code CHR ''@''] @ domain
     \<and> 1 \<le> length local_part \<and> length local_part \<le> 64 \<and> list_all is_atext local_part
     \<and> domain_name tlds 255 domain) \<and> utf8_length a \<le> 254"

lemma draws_text:
  assumes S: "sampling_sound S" "strings_total S" and new: "new rs = Inr ivs" "ivs_ok rs" "rs \<noteq> []"
    and low: "\<forall>p \<in> set rs. snd p < 0xD800" and size: "lo \<le> hi" "hi < 2 ^ 32" and s: "drawing_good lc s"
  shows "draws lc (\<lambda>v _. lo \<le> length v \<and> length v \<le> hi \<and> set v \<subseteq> members rs) (on_case (draw_string lc S ivs lo hi)) s"
proof -
  have i: "iv_wf ivs" "intervals ivs = rs" using new_ok [OF new(2)] new(1) by auto
  have "printable ivs" using low unfolding printable_def i(2) members_def by fastforce
  note g = good_draw_string [OF S i(1) this size, of lc, unfolded i(2), OF disjI1 [OF new(3)]]
  show ?thesis by (rule drawing.ends_weaken [OF draws_on_case [OF g spends_draw_string s]]) simp
qed

lemma alphabet_new: "ivs_ok rs \<Longrightarrow> \<exists>ivs. new rs = Inr ivs"
  using new_ok by blast

lemma full_length_domain:
  "\<exists>spec. FULL_LENGTH_DOMAIN tlds_lines = Inr spec \<and> domain_spec_new tlds_lines 255 = Inr spec"
  by (auto simp: FULL_LENGTH_DOMAIN_def domain_spec_new_def Let_def TOP_LEVEL_DOMAINS_def hegel_internal_unwrap_def
      codes_def code_def utf8_width_def)

lemma is_atext_members:
  assumes "x \<in> members [(33, 33), (35, 39), (42, 43), (45, 45), (47, 57), (61, 61), (65, 90), (94, 96), (97, 122), (123, 126)]"
  shows "is_atext x"
proof -
  have "list_all is_atext (elements [(33, 33), (35, 39), (42, 43), (45, 45), (47, 57), (61, 61), (65, 90), (94, 96), (97, 122), (123, 126)])"
    by code_simp
  then show ?thesis using assms by (simp only: list_all_iff set_elements)
qed

lemma email_alphabet:
  "ivs_ok [(33, 33), (35, 39), (42, 43), (45, 45), (47, 57), (61, 61), (65, 90), (94, 96), (97, 122), (123, 126)]"
  by (simp add: ivs_ok_def)

text \<open>An address has at most 254 octets, a local part of 1 to 64 characters that need no quoting, and a
  domain name; a longer one makes the test case invalid.\<close>

lemma draws_generate_email:
  assumes S: "sampling_sound S" "integers_total S" "strings_total S" and good: "drawing_good lc s"
    and size: "length tlds_lines < 2 ^ 64"
  shows "draws lc (\<lambda>v _. email_address (TOP_LEVEL_DOMAINS tlds_lines) v) (generate_email lc S tlds_lines) s"
proof -
  obtain ivs where ivs: "EMAIL_LOCAL_PART_INTERVALS = Inr ivs"
    using alphabet_new [OF email_alphabet] by (auto simp: EMAIL_LOCAL_PART_INTERVALS_def)
  obtain spec where spec: "FULL_LENGTH_DOMAIN tlds_lines = Inr spec" "domain_spec_new tlds_lines 255 = Inr spec"
    using full_length_domain by blast
  show ?thesis
    unfolding generate_email_def Let_def
  proof (rule drawing.ends_bind_good [OF draws_pure [OF good ivs]],
      rule drawing.ends_bind_good [OF draws_text [OF S(1,3) _ email_alphabet]],
      goal_cases)
    case (7 x t local_part u)
    show ?case
    proof (rule drawing.ends_bind_good [OF draws_pure [OF 7(3) spec(1)]],
        rule drawing.ends_bind_good [OF draws_generate_domain [where max_length = 255, OF S(1,2) _ _ size]], goal_cases)
      case (3 spec' v domain w)
      have "list_all is_atext local_part" using 7(4) is_atext_members by (auto simp: list_all_iff)
      then show ?case
        using 3 7(4) by (intro drawing.ends_if draws_mark_invalid drawing.ends_ret) (auto simp: email_address_def)
    qed (use spec in auto)
  qed (use ivs in \<open>auto simp: EMAIL_LOCAL_PART_INTERVALS_def\<close>)
qed

lemma sample_strings_total: "strings_total sample_sampling"
  by (auto simp: strings_total_def sample_sampling_def dest: string_simplest_valid)

section \<open>URLs\<close>

text \<open>What the encoders write: safe characters and escapes, and their meaning.\<close>

fun percent_decode :: "codepoint list \<Rightarrow> codepoint list" where
  "percent_decode (c # h # l # s) =
     (if c = code CHR ''%''
      then (16 * (if h < 58 then h - 48 else h - 55) + (if l < 58 then l - 48 else l - 55)) # percent_decode s
      else c # percent_decode (h # l # s))"
| "percent_decode s = s"

inductive encoding :: "(codepoint \<Rightarrow> bool) \<Rightarrow> codepoint list \<Rightarrow> codepoint list \<Rightarrow> bool" for safe where
  nothing: "encoding safe [] []"
| plain: "encoding safe v s \<Longrightarrow> safe c \<Longrightarrow> encoding safe (v @ [c]) (s @ [c])"
| escaped: "encoding safe v s \<Longrightarrow> c \<le> 0xFF \<Longrightarrow>
     encoding safe (v @ [c]) (s @ [37, upper_hex (c div 16), upper_hex (c mod 16)])"

lemma push_percent_ok: "c \<le> 0xFF \<Longrightarrow>
    push_percent_encoded out c = Inr (out @ [37, upper_hex (c div 16), upper_hex (c mod 16)])"
  by (simp add: push_percent_encoded_def hegel_internal_assert_def code_def)

lemma encode_path_from:
  assumes "list_all (\<lambda>c. c \<le> 0xFF) s" "encoding is_url_safe v out"
  shows "\<exists>e. url_encode_path_from out s = Inr e \<and> encoding is_url_safe (v @ s) e"
  using assms
proof (induction s arbitrary: v out)
  case (Cons c s)
  let ?out = "if is_url_safe c then out @ [c] else out @ [37, upper_hex (c div 16), upper_hex (c mod 16)]"
  have "encoding is_url_safe (v @ [c]) ?out" using Cons.prems by (auto intro: encoding.intros)
  from Cons.IH [OF _ this] Cons.prems show ?case by (auto simp: push_percent_ok)
qed simp

lemma encode_path:
  "list_all (\<lambda>c. c \<le> 0xFF) s \<Longrightarrow> \<exists>e. url_encode_path s = Inr e \<and> encoding is_url_safe s e"
  unfolding url_encode_path_def using encode_path_from [OF _ encoding.nothing, of s] by simp

lemma draws_encode_fragment:
  assumes "drawing_good lc s" "list_all (\<lambda>c. c \<le> 0xFF) w" "encoding is_fragment_safe v out"
  shows "draws lc (\<lambda>e _. encoding is_fragment_safe (v @ w) e) (url_encode_fragment lc S out w) s"
  using assms
proof (induction w arbitrary: v out s)
  case (Cons c w)
  show ?case unfolding url_encode_fragment.simps
  proof (rule drawing.ends_bind_good [OF draws_weighted [OF Cons.prems(1)]], goal_cases)
    case (1 force t)
    have "draws lc (\<lambda>e _. encoding is_fragment_safe (v @ [c]) e) (if force \<or> \<not> is_fragment_safe c
        then pinternal (push_percent_encoded out c) else pret (out @ [c])) t"
      by (rule drawing.ends_if; (rule drawing.ends_weaken [OF draws_pure [OF 1(1) push_percent_ok]] | rule drawing.ends_ret))
         (use 1 Cons.prems in \<open>auto intro: encoding.intros\<close>)
    then show ?case
    proof (rule drawing.ends_bind_good, goal_cases)
      case (1 out' u)
      from Cons.IH [OF 1(1) _ 1(2)] Cons.prems(2) show ?case by simp
    qed
  qed
qed (simp add: drawing.ends_ret)

lemma decode_plain: "c \<noteq> code CHR ''%'' \<Longrightarrow> percent_decode (c # t) = c # percent_decode t"
  by (cases "(c # t)" rule: percent_decode.cases) auto

lemma hex_digit: "d < 16 \<Longrightarrow> (if upper_hex d < 58 then upper_hex d - 48 else upper_hex d - 55) = d"
  by (simp add: upper_hex_def)

lemma decode_encoding:
  assumes "encoding safe v s" "\<not> safe (code CHR ''%'')"
  shows "percent_decode (s @ t) = v @ percent_decode t"
  using assms(1)
proof (induction arbitrary: t)
  case (plain v s c)
  then have "c \<noteq> code CHR ''%''" using assms(2) by auto
  then show ?case using plain.IH [of "c # t"] decode_plain by simp
next
  case (escaped v s c)
  have "percent_decode (37 # upper_hex (c div 16) # upper_hex (c mod 16) # t)
      = (16 * (c div 16) + c mod 16) # percent_decode t"
    using escaped.hyps(2) hex_digit [of "c div 16"] hex_digit [of "c mod 16"] by (simp add: code_def)
  then show ?case using escaped.IH [of "37 # upper_hex (c div 16) # upper_hex (c mod 16) # t"]
    by (simp add: mult.commute)
qed simp

lemma percent_unsafe: "\<not> is_url_safe (code CHR ''%'')" "\<not> is_fragment_safe (code CHR ''%'')"
  by code_simp+

text \<open>Decoding an encoded path component or fragment gives back the text that was drawn.\<close>

lemma decode_encoded:
  "encoding is_url_safe v s \<Longrightarrow> percent_decode s = v" "encoding is_fragment_safe v s \<Longrightarrow> percent_decode s = v"
  using decode_encoding [of is_url_safe v s "[]"] decode_encoding [of is_fragment_safe v s "[]"] percent_unsafe by auto

lemma draws_port:
  assumes S: "sampling_sound S" "integers_total S" and s: "drawing_good lc s"
  shows "draws lc (\<lambda>p _. p = [] \<or> (\<exists>n. 1 \<le> n \<and> n \<le> 65535 \<and> p = code CHR '':'' # decimal n)) (draw_port lc S) s"
  unfolding draw_port_def
proof (rule drawing.ends_bind_good [OF draws_weighted [OF s]], rule drawing.ends_if, goal_cases)
  case (1 some t)
  show ?case
  proof (rule drawing.ends_bind_good [OF draws_i128 [OF S _ _ _ 1(1)]], goal_cases)
    case (4 n u)
    then have "1 \<le> nat n" "nat n \<le> 65535" by auto
    then show ?case using 4(1) by (intro drawing.ends_ret) blast+
  qed simp_all
qed (simp add: drawing.ends_ret)

lemma printable_alphabet: "ivs_ok [(9, 13), (32, 126)]" "x \<in> members [(9, 13), (32, 126)] \<Longrightarrow> x \<le> 255"
  by (auto simp: ivs_ok_def members_def)

lemma fragment_alphabet: "ivs_ok [(0, 255)]" "x \<in> members [(0, 255)] \<Longrightarrow> x \<le> 255"
  by (auto simp: ivs_ok_def members_def)

definition path_component :: "codepoint list \<Rightarrow> bool" where
  "path_component c \<longleftrightarrow> (\<exists>v. length v \<le> 100 \<and> encoding is_url_safe v c)"

definition url_fragment :: "codepoint list \<Rightarrow> bool" where
  "url_fragment f \<longleftrightarrow> f = [] \<or> (\<exists>v e. 1 \<le> length v \<and> length v \<le> 100 \<and> encoding is_fragment_safe v e
     \<and> f = code CHR ''#'' # e)"

lemma draws_push_component:
  assumes S: "sampling_sound S" "strings_total S" and s: "drawing_good lc s" and cs: "list_all path_component cs"
  shows "draws lc (\<lambda>cs _. list_all path_component cs) (push_component lc S cs) s"
proof -
  obtain ivs where ivs: "PRINTABLE_ASCII_INTERVALS = Inr ivs"
    using alphabet_new [OF printable_alphabet(1)] by (auto simp: PRINTABLE_ASCII_INTERVALS_def)
  show ?thesis unfolding push_component_def
  proof (rule drawing.ends_bind_good [OF draws_pure [OF s ivs]],
      rule drawing.ends_bind_good [OF draws_text [OF S _ printable_alphabet(1)]], goal_cases)
    case (7 x t raw u)
    then have "list_all (\<lambda>c. c \<le> 0xFF) raw" using printable_alphabet(2) by (auto simp: list_all_iff)
    then obtain e where e: "url_encode_path raw = Inr e" "encoding is_url_safe raw e" using encode_path by blast
    show ?case
      by (rule drawing.ends_bind_good [OF draws_pure [OF 7(3) e(1)]], rule drawing.ends_ret)
         (use cs e(2) 7(4) in \<open>auto simp: path_component_def\<close>)
  qed (use ivs in \<open>auto simp: PRINTABLE_ASCII_INTERVALS_def\<close>)
qed

lemma draws_fragment:
  assumes S: "sampling_sound S" "strings_total S" and s: "drawing_good lc s"
  shows "draws lc (\<lambda>f _. url_fragment f) (draw_fragment lc S) s"
proof -
  obtain ivs where ivs: "FRAGMENT_BYTE_INTERVALS = Inr ivs"
    using alphabet_new [OF fragment_alphabet(1)] by (auto simp: FRAGMENT_BYTE_INTERVALS_def)
  show ?thesis unfolding draw_fragment_def
  proof (rule drawing.ends_bind_good [OF draws_weighted [OF s]], rule drawing.ends_if, goal_cases)
    case (1 some t)
    show ?case
    proof (rule drawing.ends_bind_good [OF draws_pure [OF 1(1) ivs]],
        rule drawing.ends_bind_good [OF draws_text [OF S _ fragment_alphabet(1)]], goal_cases)
      case (7 x t raw u)
      then have "list_all (\<lambda>c. c \<le> 0xFF) raw" using fragment_alphabet(2) by (auto simp: list_all_iff)
      from draws_encode_fragment [OF 7(3) this encoding.nothing] show ?case
      proof (rule drawing.ends_bind_good)
        fix e v
        assume "drawing_good lc v" "encoding is_fragment_safe ([] @ raw) e"
        then show "draws lc (\<lambda>f _. url_fragment f) (pret (code CHR ''#'' # e)) v"
          using 7(4) by (intro drawing.ends_ret) (auto simp: url_fragment_def)
      qed
    qed (use ivs in \<open>auto simp: FRAGMENT_BYTE_INTERVALS_def\<close>)
  qed (simp add: drawing.ends_ret url_fragment_def)
qed

definition url :: "codepoint list list \<Rightarrow> codepoint list \<Rightarrow> bool" where
  "url tlds u \<longleftrightarrow> (\<exists>scheme domain port components fragment.
     u = scheme @ codes ''://'' @ domain @ port @ codes ''/'' @ join_slash components @ fragment
     \<and> scheme \<in> {codes ''http'', codes ''https''} \<and> domain_name tlds 255 domain
     \<and> (port = [] \<or> (\<exists>n. 1 \<le> n \<and> n \<le> 65535 \<and> port = code CHR '':'' # decimal n))
     \<and> list_all path_component components \<and> url_fragment fragment)"

lemma draws_generate_url:
  assumes S: "sampling_sound S" "integers_total S" "strings_total S" and good: "drawing_good lc s"
    and size: "length tlds_lines < 2 ^ 64"
  shows "draws lc (\<lambda>v _. url (TOP_LEVEL_DOMAINS tlds_lines) v) (generate_url lc S tlds_lines) s"
proof -
  obtain spec where spec: "FULL_LENGTH_DOMAIN tlds_lines = Inr spec" "domain_spec_new tlds_lines 255 = Inr spec"
    using full_length_domain by blast
  show ?thesis
    unfolding generate_url_def
  proof (rule drawing.ends_bind_good [OF draws_weighted [OF good]],
      rule drawing.ends_bind_good [OF draws_pure [OF _ spec(1)]], assumption,
      rule drawing.ends_bind_good [OF draws_generate_domain [where max_length = 255, OF S(1,2) _ _ size]],
      assumption, goal_cases)
    case (2 secure s1 spec' s2 domain s3)
    show ?case
    proof (rule drawing.ends_bind_good [OF draws_port [OF S(1,2) 2(5)]],
        rule drawing.ends_bind_good [OF draws_many_loop [where I = "\<lambda>cs _. list_all path_component cs"]], goal_cases)
      case (5 port s4 components s5)
      show ?case
      proof (rule drawing.ends_bind_good [OF draws_fragment [OF S(1,3) 5(3)]], rule drawing.ends_ret, assumption)
        fix fragment
        assume "url_fragment fragment"
        then show "url (TOP_LEVEL_DOMAINS tlds_lines) (codes (if secure then ''https'' else ''http'') @ codes ''://''
            @ domain @ port @ codes ''/'' @ join_slash components @ fragment)"
          unfolding url_def using 2(6) 5(2,4) by (intro exI conjI) (auto simp: url_def)
      qed
    qed (auto intro: draws_push_component [OF S(1,3)])
  qed (use spec in auto)
qed



end
