(* ===== verification/Pools.thy ===== *)
theory Pools
  imports Family
begin

text \<open>
  Identifier pools. The contract \<open>id_pool\<close> says what a pool means: the list of its live
  identifiers, in the order they were added. \<open>NativeVariables\<close>, which marks consumed identifiers
  and drops them only from the end, implements it.
\<close>

section \<open>The contract\<close>

datatype pool_event = Added int | Taken int

text \<open>Histories in which an added identifier is new and a taken one is live.\<close>

fun legal :: "int set \<Rightarrow> int list \<Rightarrow> pool_event list \<Rightarrow> bool" where
  "legal used ids [] = True"
| "legal used ids (Added i # es) = (i \<notin> used \<and> legal (insert i used) (ids @ [i]) es)"
| "legal used ids (Taken i # es) = (i \<in> set ids \<and> legal used (remove1 i ids) es)"

fun live_after :: "int list \<Rightarrow> pool_event list \<Rightarrow> int list" where
  "live_after ids [] = ids"
| "live_after ids (Added i # es) = live_after (ids @ [i]) es"
| "live_after ids (Taken i # es) = live_after (remove1 i ids) es"

locale id_pool =
  fixes nothing :: 'p and add :: "int \<Rightarrow> 'p \<Rightarrow> 'p" and consume :: "int \<Rightarrow> 'p \<Rightarrow> 'p"
    and live :: "'p \<Rightarrow> int list" and known :: "'p \<Rightarrow> int set" and wf :: "'p \<Rightarrow> bool"
  assumes start: "wf nothing" "live nothing = []" "known nothing = {}"
    and add: "wf p \<Longrightarrow> i \<notin> known p \<Longrightarrow>
      wf (add i p) \<and> live (add i p) = live p @ [i] \<and> known (add i p) \<subseteq> insert i (known p)"
    and consume: "wf p \<Longrightarrow> i \<in> set (live p) \<Longrightarrow>
      wf (consume i p) \<and> live (consume i p) = remove1 i (live p) \<and> known (consume i p) \<subseteq> known p"
begin

fun run :: "'p \<Rightarrow> pool_event list \<Rightarrow> 'p" where
  "run p [] = p"
| "run p (Added i # es) = run (add i p) es"
| "run p (Taken i # es) = run (consume i p) es"

lemma run_refines:
  "wf p \<Longrightarrow> known p \<subseteq> used \<Longrightarrow> legal used (live p) es \<Longrightarrow>
     wf (run p es) \<and> live (run p es) = live_after (live p) es"
proof (induction es arbitrary: p used)
  case (Cons e es)
  show ?case
  proof (cases e)
    case (Added i)
    then have i: "i \<notin> known p" using Cons.prems by auto
    show ?thesis
      using Cons.IH [of "add i p" "insert i used"] add [OF Cons.prems(1) i] Cons.prems Added by auto
  next
    case (Taken i)
    then have i: "i \<in> set (live p)" using Cons.prems by simp
    show ?thesis
      using Cons.IH [of "consume i p" used] consume [OF Cons.prems(1) i] Cons.prems Taken by auto
  qed
qed simp

lemma history_refines: "legal {} [] es \<Longrightarrow> wf (run nothing es) \<and> live (run nothing es) = live_after [] es"
  using run_refines [OF start(1), of "{}"] start by simp

end

section \<open>The implementation\<close>

text \<open>Consumed identifiers are among the stored ones, and the last stored one is live.\<close>

definition pool_wf :: "native_variables \<Rightarrow> bool" where
  "pool_wf p \<longleftrightarrow> distinct (nv_variables p) \<and> nv_removed p \<subseteq> set (nv_variables p)
     \<and> (nv_variables p \<noteq> [] \<longrightarrow> last (nv_variables p) \<notin> nv_removed p)"

definition pool_known :: "native_variables \<Rightarrow> int set" where
  "pool_known p = set (nv_variables p)"

lemma trim_removed_ok:
  assumes "distinct vs" "rs \<subseteq> set vs" "trim_removed vs rs = (vs', rs')"
  shows "distinct vs' \<and> rs' \<subseteq> set vs' \<and> (vs' \<noteq> [] \<longrightarrow> last vs' \<notin> rs') \<and> set vs' \<subseteq> set vs
     \<and> filter (\<lambda>i. i \<notin> rs') vs' = filter (\<lambda>i. i \<notin> rs) vs"
  using assms
proof (induction vs rs rule: trim_removed.induct)
  case (1 vs rs)
  show ?case
  proof (cases "vs \<noteq> [] \<and> last vs \<in> rs")
    case True
    then obtain us x where vs: "vs = us @ [x]" "x \<in> rs" by (metis append_butlast_last_id)
    have d: "distinct us" "x \<notin> set us" "rs - {x} \<subseteq> set us" using 1(2,3) vs by auto
    have "trim_removed us (rs - {x}) = (vs', rs')"
      using 1(4) True vs(1) by (subst (asm) trim_removed.simps) simp
    then have "distinct vs' \<and> rs' \<subseteq> set vs' \<and> (vs' \<noteq> [] \<longrightarrow> last vs' \<notin> rs') \<and> set vs' \<subseteq> set us
       \<and> filter (\<lambda>i. i \<notin> rs') vs' = filter (\<lambda>i. i \<notin> rs - {x}) us"
      using 1(1) [OF True] d vs(1) by simp
    moreover have "filter (\<lambda>i. i \<notin> rs - {x}) us = filter (\<lambda>i. i \<notin> rs) us"
      by (rule filter_cong) (use d in auto)
    ultimately show ?thesis using vs by auto
  next
    case False
    then show ?thesis using 1(2-4) by (subst (asm) trim_removed.simps) (auto split: if_splits)
  qed
qed

lemma remove1_filter: "distinct vs \<Longrightarrow> remove1 i (filter P vs) = filter (\<lambda>j. P j \<and> j \<noteq> i) vs"
  by (induction vs) (auto intro: filter_cong)

interpretation native_pool: id_pool variables_new variables_add variables_consume variables_active pool_known pool_wf
proof (unfold_locales, goal_cases)
  case (4 p i)
  then show ?case
    by (auto simp: pool_wf_def pool_known_def variables_add_def variables_active_def)
next
  case (5 p i)
  then have p: "distinct (nv_variables p)" "insert i (nv_removed p) \<subseteq> set (nv_variables p)"
    by (auto simp: pool_wf_def variables_active_def)
  obtain vs rs where r: "trim_removed (nv_variables p) (insert i (nv_removed p)) = (vs, rs)" by fastforce
  have "remove1 i (variables_active p) = filter (\<lambda>j. j \<notin> insert i (nv_removed p)) (nv_variables p)"
    unfolding variables_active_def remove1_filter [OF p(1)] by (rule filter_cong) auto
  then show ?case
    using trim_removed_ok [OF p r]
    by (simp add: variables_consume_def r pool_wf_def pool_known_def variables_active_def)
qed (simp_all add: variables_new_def pool_wf_def pool_known_def variables_active_def)

text \<open>The pool a history leaves.\<close>

fun pool_run :: "native_variables \<Rightarrow> pool_event list \<Rightarrow> native_variables" where
  "pool_run p [] = p"
| "pool_run p (Added i # es) = pool_run (variables_add i p) es"
| "pool_run p (Taken i # es) = pool_run (variables_consume i p) es"

lemma pool_run_run: "native_pool.run p es = pool_run p es"
  by (induction p es rule: pool_run.induct) simp_all

text \<open>C25: the identifier pool refines the list of live identifiers: after any history in which added
  identifiers are new and taken ones are live, the active identifiers of the pool are those of
  the abstract list, in order of addition. A pool without live identifiers stores none.\<close>
theorem pool_refines_list:
  assumes "legal {} [] es"
  shows "variables_active (pool_run variables_new es) = live_after [] es
     \<and> (live_after [] es = [] \<longrightarrow> pool_run variables_new es = variables_new)"
proof (intro conjI impI)
  have r: "pool_wf (pool_run variables_new es)" "variables_active (pool_run variables_new es) = live_after [] es"
    using native_pool.history_refines [OF assms] by (simp_all add: pool_run_run)
  show "variables_active (pool_run variables_new es) = live_after [] es" using r(2) .
  show "pool_run variables_new es = variables_new" if none: "live_after [] es = []"
  proof -
    let ?p = "pool_run variables_new es"
    have "filter (\<lambda>i. i \<notin> nv_removed ?p) (nv_variables ?p) = []" using r(2) none by (simp add: variables_active_def)
    then have "nv_variables ?p = []" using r(1) unfolding pool_wf_def filter_empty_conv using last_in_set by blast
    then have "nv_variables ?p = [] \<and> nv_removed ?p = {}" using r(1) by (simp add: pool_wf_def)
    then show ?thesis by (cases ?p) (simp add: variables_new_def)
  qed
qed

theorem pool_refines_list_witness:
  "variables_active (pool_run variables_new [Added 0, Added 1, Added 2, Taken 1, Taken 2]) = [0]
     \<and> pool_run variables_new [Added 0, Added 1, Taken 0, Taken 1] = variables_new"
  using pool_refines_list [of "[Added 0, Added 1, Added 2, Taken 1, Taken 2]"]
    pool_refines_list [of "[Added 0, Added 1, Taken 0, Taken 1]"] by simp

end
