(* ===== verification/RegexMatch.thy ===== *)
theory RegexMatch
  imports RegexParser TextDraws
begin

text \<open>
  \<open>hegel-c/src/native/draws/regex.rs\<close>, first half: the characters an operation of a pattern admits,
  and the matcher that candidates are checked with. The case mappings of the standard library and
  the group test of \<open>unicodedata\<close> are a record of parameters; the caches of character sets memoise
  the functions defined here.
\<close>

unbundle bit_operations_syntax

section \<open>Characters\<close>

record char_tables =
  lowercase :: "codepoint \<Rightarrow> bool"
  uppercase :: "codepoint \<Rightarrow> bool"
  uppercase_of :: "codepoint \<Rightarrow> codepoint list"
  lowercase_of :: "codepoint \<Rightarrow> codepoint list"
  in_group :: "codepoint \<Rightarrow> string \<Rightarrow> bool"

definition is_surrogate_cp :: "codepoint \<Rightarrow> bool" where
  "is_surrogate_cp cp \<longleftrightarrow> 0xD800 \<le> cp \<and> cp \<le> 0xDFFF"

definition swapcase_chars :: "char_tables \<Rightarrow> codepoint \<Rightarrow> codepoint list" where
  "swapcase_chars u c = (if lowercase u c then uppercase_of u c else if uppercase u c then lowercase_of u c else [])"

definition char_swapcase :: "char_tables \<Rightarrow> codepoint \<Rightarrow> codepoint option" where
  "char_swapcase u c =
     (case swapcase_chars u c of [sw] \<Rightarrow> if sw \<noteq> c then Some sw else None | _ \<Rightarrow> None)"

definition chars_eq :: "char_tables \<Rightarrow> codepoint \<Rightarrow> codepoint \<Rightarrow> u32 \<Rightarrow> bool" where
  "chars_eq u a b flags \<longleftrightarrow>
     (if a = b then True
      else if has_flag flags SRE_FLAG_IGNORECASE then char_swapcase u a = Some b \<or> char_swapcase u b = Some a
      else False)"

text \<open>
  The stack of pending characters, its top at the end, and the characters found. The loop ends
  when the mappings stay within a finite set; \<open>None\<close> stands for a loop that does not.
\<close>

partial_function (option) blacklist_loop ::
  "char_tables \<Rightarrow> codepoint list \<Rightarrow> codepoint list \<Rightarrow> codepoint list option" where
  "blacklist_loop u stack blacklist =
     (if stack = [] then Some blacklist
      else if last stack \<notin> set blacklist
      then blacklist_loop u (butlast stack @ swapcase_chars u (last stack)) (blacklist @ [last stack])
      else blacklist_loop u (butlast stack) blacklist)"

definition swapcase_blacklist :: "char_tables \<Rightarrow> codepoint \<Rightarrow> u32 \<Rightarrow> codepoint list option" where
  "swapcase_blacklist u c flags =
     (if \<not> has_flag flags SRE_FLAG_IGNORECASE then Some [c] else blacklist_loop u (swapcase_chars u c) [c])"

definition is_uni_space :: "char_tables \<Rightarrow> codepoint \<Rightarrow> bool" where
  "is_uni_space u c \<longleftrightarrow> c \<in> {0x20, 9, 10, 13, 0xB, 0xC, 0x1C, 0x1D, 0x1E, 0x1F, 0x85} \<or> in_group u c ''Z''"

definition is_uni_word :: "char_tables \<Rightarrow> codepoint \<Rightarrow> bool" where
  "is_uni_word u c \<longleftrightarrow> c = code CHR ''_'' \<or> in_group u c ''L'' \<or> in_group u c ''N''"

definition in_category :: "char_tables \<Rightarrow> codepoint \<Rightarrow> ch_code \<Rightarrow> bool" where
  "in_category u c cat =
     (case cat of
        ChDigit \<Rightarrow> in_group u c ''Nd'' | ChNotDigit \<Rightarrow> \<not> in_group u c ''Nd''
      | ChSpace \<Rightarrow> is_uni_space u c | ChNotSpace \<Rightarrow> \<not> is_uni_space u c
      | ChWord \<Rightarrow> is_uni_word u c | ChNotWord \<Rightarrow> \<not> is_uni_word u c)"

section \<open>Character sets\<close>

definition alphabet_allows :: "interval_set option \<Rightarrow> codepoint \<Rightarrow> bool" where
  "alphabet_allows alphabet c =
     (case alphabet of None \<Rightarrow> \<not> is_surrogate_cp c | Some ivs \<Rightarrow> contains ivs c)"

definition gather_chars :: "interval_set option \<Rightarrow> (codepoint \<Rightarrow> bool) \<Rightarrow> codepoint list" where
  "gather_chars alphabet predicate =
     (case alphabet of
        None \<Rightarrow> filter (\<lambda>c. \<not> is_surrogate_cp c \<and> char_from_u32 c \<noteq> None \<and> predicate c) [0..<0x10000]
      | Some ivs \<Rightarrow> filter (\<lambda>c. char_from_u32 c \<noteq> None \<and> predicate c) (elements (intervals ivs)))"

definition add_with_swapcase :: "char_tables \<Rightarrow> u32 \<Rightarrow> codepoint \<Rightarrow> codepoint list" where
  "add_with_swapcase u flags c =
     c # (if has_flag flags SRE_FLAG_IGNORECASE then case char_swapcase u c of Some sw \<Rightarrow> [sw] | None \<Rightarrow> [] else [])"

definition codepoint_to_char :: "codepoint \<Rightarrow> codepoint internal_result" where
  "codepoint_to_char cp = hegel_internal_unwrap (char_from_u32 cp) ''invalid codepoint in regex AST''"

fun set_chars :: "char_tables \<Rightarrow> u32 \<Rightarrow> set_item \<Rightarrow> codepoint list internal_result" where
  "set_chars u flags SetNegate = Inr []"
| "set_chars u flags (SetLiteral cp) = rbind (codepoint_to_char cp) (\<lambda>c. Inr (add_with_swapcase u flags c))"
| "set_chars u flags (SetRange lo hi) =
     Inr (concat (map (\<lambda>cp. case char_from_u32 cp of Some c \<Rightarrow> add_with_swapcase u flags c | None \<Rightarrow> [])
       [lo..<Suc hi]))"
| "set_chars u flags (SetCategory cat) = Inr []"

definition set_categories :: "set_item list \<Rightarrow> ch_code list" where
  "set_categories items = concat (map (\<lambda>i. case i of SetCategory cat \<Rightarrow> [cat] | _ \<Rightarrow> []) items)"

definition is_negated :: "set_item list \<Rightarrow> bool" where
  "is_negated items \<longleftrightarrow> (case items of SetNegate # _ \<Rightarrow> True | _ \<Rightarrow> False)"

text \<open>The elements not seen before, in the order they come.\<close>

fun unseen :: "codepoint list \<Rightarrow> codepoint list \<Rightarrow> codepoint list" where
  "unseen seen [] = []"
| "unseen seen (c # cs) = (if c \<in> set seen then unseen seen cs else c # unseen (c # seen) cs)"

fun blacklists :: "char_tables \<Rightarrow> u32 \<Rightarrow> codepoint list \<Rightarrow> codepoint list option" where
  "blacklists u flags [] = Some []"
| "blacklists u flags (c # cs) =
     Option.bind (swapcase_blacklist u c flags) (\<lambda>b. map_option ((@) b) (blacklists u flags cs))"

definition positive_chars ::
  "char_tables \<Rightarrow> u32 \<Rightarrow> interval_set option \<Rightarrow> ch_code list \<Rightarrow> codepoint list \<Rightarrow> codepoint list" where
  "positive_chars u flags alphabet categories positive =
     (let plain = \<lambda>c. \<not> (has_flag flags SRE_FLAG_ASCII \<and> 128 \<le> c);
          cs = filter (\<lambda>c. plain c \<and> alphabet_allows alphabet c) positive;
          cat_chars = (if categories = [] then []
                       else filter plain (gather_chars alphabet (\<lambda>c. list_ex (in_category u c) categories)))
      in unseen [] (cs @ cat_chars))"

definition negative_chars ::
  "char_tables \<Rightarrow> u32 \<Rightarrow> interval_set option \<Rightarrow> ch_code list \<Rightarrow> codepoint list \<Rightarrow> codepoint list" where
  "negative_chars u flags alphabet categories excluded =
     gather_chars alphabet (\<lambda>c. \<not> (has_flag flags SRE_FLAG_ASCII \<and> 128 \<le> c) \<and> c \<notin> set excluded
       \<and> \<not> list_ex (in_category u c) categories)"

definition build_in_set ::
  "char_tables \<Rightarrow> set_item list \<Rightarrow> u32 \<Rightarrow> interval_set option \<Rightarrow> codepoint list internal_result option" where
  "build_in_set u items flags alphabet =
     (case rmap (set_chars u flags) items of
        Inl e \<Rightarrow> Some (Inl e)
      | Inr positive \<Rightarrow>
          if \<not> is_negated items
          then Some (Inr (positive_chars u flags alphabet (set_categories items) (concat positive)))
          else map_option (\<lambda>excluded. Inr (negative_chars u flags alphabet (set_categories items) excluded))
                 (blacklists u flags (concat positive)))"

definition item_contains :: "char_tables \<Rightarrow> u32 \<Rightarrow> codepoint \<Rightarrow> set_item \<Rightarrow> bool" where
  "item_contains u flags c item =
     (case item of
        SetNegate \<Rightarrow> False
      | SetLiteral cp \<Rightarrow> (case char_from_u32 cp of Some lc \<Rightarrow> chars_eq u c lc flags | None \<Rightarrow> False)
      | SetRange lo hi \<Rightarrow>
          if lo \<le> c \<and> c \<le> hi then True
          else if has_flag flags SRE_FLAG_IGNORECASE
          then (case char_swapcase u c of Some sw \<Rightarrow> lo \<le> sw \<and> sw \<le> hi | None \<Rightarrow> False)
          else False
      | SetCategory cat \<Rightarrow> in_category u c cat)"

definition char_matches_set :: "char_tables \<Rightarrow> set_item list \<Rightarrow> codepoint \<Rightarrow> u32 \<Rightarrow> bool" where
  "char_matches_set u items c flags =
     (let contained = list_ex (item_contains u flags c) items
      in if is_negated items then \<not> contained else contained)"

section \<open>Anchors\<close>

text \<open>Positions are at most the length, so the indices are in range.\<close>

definition is_word_boundary :: "char_tables \<Rightarrow> codepoint list \<Rightarrow> nat \<Rightarrow> bool" where
  "is_word_boundary u chars pos \<longleftrightarrow>
     (0 < pos \<and> is_uni_word u (chars ! (pos - 1))) \<noteq> (pos < length chars \<and> is_uni_word u (chars ! pos))"

definition at_matches :: "char_tables \<Rightarrow> at_code \<Rightarrow> codepoint list \<Rightarrow> nat \<Rightarrow> u32 \<Rightarrow> bool" where
  "at_matches u at chars pos flags =
     (case at of
        AtBeginningString \<Rightarrow> pos = 0
      | AtBeginning \<Rightarrow>
          if has_flag flags SRE_FLAG_MULTILINE then pos = 0 \<or> chars ! (pos - 1) = 10 else pos = 0
      | AtEnd \<Rightarrow>
          if has_flag flags SRE_FLAG_MULTILINE then pos = length chars \<or> chars ! pos = 10
          else pos = length chars \<or> (pos + 1 = length chars \<and> chars ! pos = 10)
      | AtEndString \<Rightarrow> pos = length chars
      | AtBoundary \<Rightarrow> is_word_boundary u chars pos
      | AtNonBoundary \<Rightarrow> \<not> is_word_boundary u chars pos)"

section \<open>The matcher\<close>

fun first_some :: "('a \<Rightarrow> 'b option) \<Rightarrow> 'a list \<Rightarrow> 'b option" where
  "first_some f [] = None"
| "first_some f (x # xs) = (case f x of Some y \<Rightarrow> Some y | None \<Rightarrow> first_some f xs)"

lemma first_some_cong [fundef_cong]:
  "xs = ys \<Longrightarrow> (\<And>x. x \<in> set ys \<Longrightarrow> f x = g x) \<Longrightarrow> first_some f xs = first_some g ys"
  by (induction xs arbitrary: ys) (auto split: option.splits)

definition char_at :: "codepoint list \<Rightarrow> nat \<Rightarrow> codepoint option" where
  "char_at chars pos = (if pos < length chars then Some (chars ! pos) else None)"

definition at_most :: "nat \<Rightarrow> nat option" where
  "at_most mx = (if mx = 2 ^ 32 - 1 then None else Some mx)"

text \<open>
  The loops of the repeats, over the matcher of the item. Each round moves to the right, so as
  many rounds as there are characters, and one, are enough (lemmas \<open>*_enough\<close>).
\<close>

fun greedy_loop :: "(nat \<Rightarrow> nat option) \<Rightarrow> nat option \<Rightarrow> nat \<Rightarrow> nat list \<Rightarrow> nat list \<times> bool" where
  "greedy_loop m mx 0 positions = (positions, False)"
| "greedy_loop m mx (Suc k) positions =
     (if (case mx of Some b \<Rightarrow> b < length positions | None \<Rightarrow> False) then (positions, False)
      else case m (last positions) of
             Some next_pos \<Rightarrow> if last positions < next_pos then greedy_loop m mx k (positions @ [next_pos])
                              else (positions, True)
           | None \<Rightarrow> (positions, False))"

fun at_least :: "(nat \<Rightarrow> nat option) \<Rightarrow> nat \<Rightarrow> nat \<Rightarrow> nat option" where
  "at_least m 0 cur = Some cur"
| "at_least m (Suc n) cur =
     (case m cur of None \<Rightarrow> None | Some next_pos \<Rightarrow> if next_pos \<le> cur then Some cur else at_least m n next_pos)"

fun lazy_loop ::
  "(nat \<Rightarrow> nat option) \<Rightarrow> (nat \<Rightarrow> nat option) \<Rightarrow> nat option \<Rightarrow> nat \<Rightarrow> nat \<Rightarrow> nat \<Rightarrow> nat option" where
  "lazy_loop rest m mx 0 count cur = None"
| "lazy_loop rest m mx (Suc k) count cur =
     (case rest cur of
        Some end_pos \<Rightarrow> Some end_pos
      | None \<Rightarrow>
          if (case mx of Some b \<Rightarrow> b \<le> count | None \<Rightarrow> False) then None
          else case m cur of
                 None \<Rightarrow> None
               | Some next_pos \<Rightarrow> if next_pos \<le> cur then None else lazy_loop rest m mx k (count + 1) next_pos)"

fun possessive_loop :: "(nat \<Rightarrow> nat option) \<Rightarrow> nat option \<Rightarrow> nat \<Rightarrow> nat \<Rightarrow> nat \<Rightarrow> nat \<times> nat \<times> bool" where
  "possessive_loop m mx 0 count cur = (count, cur, False)"
| "possessive_loop m mx (Suc k) count cur =
     (if (case mx of Some b \<Rightarrow> b \<le> count | None \<Rightarrow> False) then (count, cur, False)
      else case m cur of
             Some next_pos \<Rightarrow> if cur < next_pos then possessive_loop m mx k (count + 1) next_pos
                              else (count, cur, True)
           | None \<Rightarrow> (count, cur, False))"

text \<open>A repeat of the matcher \<open>m\<close> of its item before the matcher \<open>rest\<close> of what follows.\<close>

definition match_greedy ::
  "codepoint list \<Rightarrow> (nat \<Rightarrow> nat option) \<Rightarrow> (nat \<Rightarrow> nat option) \<Rightarrow> nat \<Rightarrow> nat \<Rightarrow> nat \<Rightarrow> nat option" where
  "match_greedy chars rest m mn mx pos =
     (let (positions, zero_width) = greedy_loop m (at_most mx) (Suc (length chars)) [pos];
          mn_eff = (if zero_width then 0 else mn)
      in if length positions - 1 < mn_eff then None
         else first_some (\<lambda>i. rest (positions ! i)) (rev [mn_eff..<length positions]))"

definition match_lazy ::
  "codepoint list \<Rightarrow> (nat \<Rightarrow> nat option) \<Rightarrow> (nat \<Rightarrow> nat option) \<Rightarrow> nat \<Rightarrow> nat \<Rightarrow> nat \<Rightarrow> nat option" where
  "match_lazy chars rest m mn mx pos =
     Option.bind (at_least m mn pos) (\<lambda>cur. lazy_loop rest m (at_most mx) (Suc (length chars)) mn cur)"

definition match_possessive ::
  "codepoint list \<Rightarrow> (nat \<Rightarrow> nat option) \<Rightarrow> (nat \<Rightarrow> nat option) \<Rightarrow> nat \<Rightarrow> nat \<Rightarrow> nat \<Rightarrow> nat option" where
  "match_possessive chars rest m mn mx pos =
     (case possessive_loop m (at_most mx) (Suc (length chars)) 0 pos of
        (count, cur, zero_width) \<Rightarrow> if count < mn \<and> \<not> zero_width then None else rest cur)"

type_synonym captures = "nat \<rightharpoonup> codepoint list"

definition match_captured ::
  "char_tables \<Rightarrow> codepoint list \<Rightarrow> codepoint list \<Rightarrow> nat \<Rightarrow> u32 \<Rightarrow> nat option" where
  "match_captured u chars val pos flags =
     (if length chars < pos + length val then None
      else if \<not> list_all2 (\<lambda>c v. chars_eq u c v flags) (take (length val) (drop pos chars)) val then None
      else Some (pos + length val))"

definition inner_flags :: "u32 \<Rightarrow> u32 \<Rightarrow> u32 \<Rightarrow> u32" where
  "inner_flags flags add_flags del_flags = (flags OR add_flags) AND NOT del_flags"

function match_seq ::
  "char_tables \<Rightarrow> captures \<Rightarrow> codepoint list \<Rightarrow> opcode list \<Rightarrow> nat \<Rightarrow> u32 \<Rightarrow> nat option" where
  "match_seq u groups chars [] pos flags = Some pos"
| "match_seq u groups chars (Literal cp # rest) pos flags =
     Option.bind (char_from_u32 cp) (\<lambda>want. Option.bind (char_at chars pos) (\<lambda>got.
     if chars_eq u got want flags then match_seq u groups chars rest (pos + 1) flags else None))"
| "match_seq u groups chars (NotLiteral cp # rest) pos flags =
     Option.bind (char_from_u32 cp) (\<lambda>banned. Option.bind (char_at chars pos) (\<lambda>got.
     if chars_eq u got banned flags then None else match_seq u groups chars rest (pos + 1) flags))"
| "match_seq u groups chars (AnyChar # rest) pos flags =
     Option.bind (char_at chars pos) (\<lambda>got.
     if got = 10 \<and> \<not> has_flag flags SRE_FLAG_DOTALL then None else match_seq u groups chars rest (pos + 1) flags)"
| "match_seq u groups chars (InSet items # rest) pos flags =
     Option.bind (char_at chars pos) (\<lambda>got.
     if char_matches_set u items got flags then match_seq u groups chars rest (pos + 1) flags else None)"
| "match_seq u groups chars (At at # rest) pos flags =
     (if at_matches u at chars pos flags then match_seq u groups chars rest pos flags else None)"
| "match_seq u groups chars (Branch branches # rest) pos flags =
     first_some (\<lambda>br. match_seq u groups chars (br @ rest) pos flags) branches"
| "match_seq u groups chars (Subpattern _ add_flags del_flags p # rest) pos flags =
     Option.bind (match_seq u groups chars p pos (inner_flags flags add_flags del_flags)) (\<lambda>end_pos.
     match_seq u groups chars rest end_pos flags)"
| "match_seq u groups chars (AtomicGroup p # rest) pos flags =
     Option.bind (match_seq u groups chars p pos flags) (\<lambda>end_pos. match_seq u groups chars rest end_pos flags)"
| "match_seq u groups chars (GroupRef gid # rest) pos flags =
     Option.bind (groups gid) (\<lambda>val. Option.bind (match_captured u chars val pos flags) (\<lambda>end_pos.
     match_seq u groups chars rest end_pos flags))"
| "match_seq u groups chars (GroupRefExists cond_group yes no # rest) pos flags =
     (if groups cond_group \<noteq> None then match_seq u groups chars (yes @ rest) pos flags
      else case no of Some n \<Rightarrow> match_seq u groups chars (n @ rest) pos flags
           | None \<Rightarrow> match_seq u groups chars rest pos flags)"
| "match_seq u groups chars (Assert _ p # rest) pos flags =
     (if match_seq u groups chars p pos flags \<noteq> None then match_seq u groups chars rest pos flags else None)"
| "match_seq u groups chars (AssertNot _ p # rest) pos flags =
     (if match_seq u groups chars p pos flags = None then match_seq u groups chars rest pos flags else None)"
| "match_seq u groups chars (Failure # rest) pos flags = None"
| "match_seq u groups chars (MaxRepeat mn mx item # rest) pos flags =
     match_greedy chars (\<lambda>p. match_seq u groups chars rest p flags)
       (\<lambda>p. match_seq u groups chars item p flags) mn mx pos"
| "match_seq u groups chars (MinRepeat mn mx item # rest) pos flags =
     match_lazy chars (\<lambda>p. match_seq u groups chars rest p flags)
       (\<lambda>p. match_seq u groups chars item p flags) mn mx pos"
| "match_seq u groups chars (PossessiveRepeat mn mx item # rest) pos flags =
     match_possessive chars (\<lambda>p. match_seq u groups chars rest p flags)
       (\<lambda>p. match_seq u groups chars item p flags) mn mx pos"
  by pat_completeness auto
termination
  by (relation "measure (\<lambda>(_, _, _, ops, _, _). size_list size ops)")
     (auto simp: size_list_append less_Suc_eq_le intro: le_SucI size_list_estimation')

end
