(* ===== verification/RegexDraws.thy ===== *)
theory RegexDraws
  imports RegexMatch Internet
begin

text \<open>
  \<open>hegel-c/src/native/draws/regex.rs\<close>, second half: drawing a string that matches a pattern. The
  state threaded through a generation, the output included, is the caller's own state of a
  \<open>drawing\<close>; offsets into the output count characters.
\<close>

section \<open>State\<close>

record pending_anchor =
  pa_char_pos :: nat
  pa_at :: at_code
  pa_flags :: u32

record pending_assert =
  pn_char_pos :: nat
  pn_direction :: int
  pn_pattern :: "opcode list"
  pn_flags :: u32
  pn_groups :: captures

record gen_state =
  gs_groups :: captures
  gs_flags :: u32
  gs_fullmatch :: bool
  gs_pending_anchors :: "pending_anchor list"
  gs_pending_asserts :: "pending_assert list"
  gs_pending_lookaheads :: "pending_assert list"
  gs_needs_whole_match :: bool
  gs_out :: "codepoint list"

type_synonym ('r, 'a) generating = "(gen_state, 'r, 'a) drawing"

definition gen_state_new :: "u32 \<Rightarrow> bool \<Rightarrow> gen_state" where
  "gen_state_new flags fullmatch =
     \<lparr>gs_groups = Map.empty, gs_flags = flags, gs_fullmatch = fullmatch, gs_pending_anchors = [],
      gs_pending_asserts = [], gs_pending_lookaheads = [], gs_needs_whole_match = False, gs_out = []\<rparr>"

definition push_out :: "codepoint list \<Rightarrow> ('r, unit) generating" where
  "push_out s = set_own (gs_out_update (\<lambda>out. out @ s))"

text \<open>Where the draws come from and what the characters mean.\<close>

record 'r regex_env =
  re_ceil :: "f64 \<Rightarrow> f64"
  re_sampling :: "'r sampling"
  re_tables :: char_tables
  re_alphabet :: "interval_set option"

definition f64_four_fifths :: f64 where "f64_four_fifths = 0x3FE999999999999A"

definition draw_number :: "'r regex_env \<Rightarrow> int \<Rightarrow> int \<Rightarrow> ('r, int) generating" where
  "draw_number R lo hi = on_case (draw_i128 (re_ceil R) (re_sampling R) lo hi)"

definition flip :: "'r regex_env \<Rightarrow> f64 \<Rightarrow> ('r, bool) generating" where
  "flip R p = on_case (weighted (re_ceil R) (re_sampling R) p None)"

text \<open>A computation that may not return.\<close>

definition pcompute :: "'a option \<Rightarrow> ('r, 'a) generating" where
  "pcompute v s = (case v of None \<Rightarrow> None | Some x \<Rightarrow> Some (Inr x, s))"

section \<open>Single characters\<close>

definition draw_any_char :: "'r regex_env \<Rightarrow> ('r, codepoint) generating" where
  "draw_any_char R =
     (case re_alphabet R of
        None \<Rightarrow>
          pbind (draw_number R 32 126) (\<lambda>cp.
          pinternal (hegel_internal_unwrap (char_from_u32 (nat (cp mod 2 ^ 32)))
            ''draw_any_char: printable-ASCII draw is not a char''))
      | Some ivs \<Rightarrow>
          if iv_size ivs = 0 then mark_invalid
          else pbind (draw_number R 0 (int (iv_size ivs) - 1)) (\<lambda>idx.
               pbind (pinternal (hegel_internal_unwrap (iv_get ivs idx)
                 ''draw_any_char: alphabet index out of bounds'')) (\<lambda>cp.
               pinternal (hegel_internal_unwrap (char_from_u32 cp)
                 ''draw_any_char: alphabet codepoint is not a char''))))"

definition emit_from_chars :: "'r regex_env \<Rightarrow> codepoint list \<Rightarrow> ('r, unit) generating" where
  "emit_from_chars R chars =
     (if chars = [] then mark_invalid
      else let n = int (length chars)
           in pbind (if 256 < n
                     then pbind (flip R f64_four_fifths) (\<lambda>low.
                          if low then draw_number R 0 255 else draw_number R 256 (n - 1))
                     else draw_number R 0 (n - 1)) (\<lambda>idx.
              pbind (on_case (index_at chars (nat idx))) (\<lambda>c. push_out [c])))"

section \<open>Padding\<close>

fun draw_chars :: "'r regex_env \<Rightarrow> nat \<Rightarrow> ('r, unit) generating" where
  "draw_chars R 0 = pret ()"
| "draw_chars R (Suc n) = pbind (draw_any_char R) (\<lambda>c. pbind (push_out [c]) (\<lambda>_. draw_chars R n))"

definition draw_pad :: "'r regex_env \<Rightarrow> ('r, unit) generating" where
  "draw_pad R = pbind (draw_number R 0 10) (\<lambda>n. draw_chars R (nat n))"

fun effective_first :: "opcode list \<Rightarrow> opcode option" where
  "effective_first [] = None"
| "effective_first (Subpattern _ _ _ p # _) = effective_first p"
| "effective_first (AtomicGroup p # _) = effective_first p"
| "effective_first (op # _) = Some op"

fun effective_last :: "opcode list \<Rightarrow> opcode option" where
  "effective_last [] = None"
| "effective_last [Subpattern _ _ _ p] = effective_last p"
| "effective_last [AtomicGroup p] = effective_last p"
| "effective_last [op] = Some op"
| "effective_last (_ # op # ops) = effective_last (op # ops)"

definition draw_prefix :: "'r regex_env \<Rightarrow> parsed_pattern \<Rightarrow> ('r, unit) generating" where
  "draw_prefix R parsed =
     (case effective_first (pp_pattern parsed) of
        Some (At AtBeginningString) \<Rightarrow> pret ()
      | Some (At AtBeginning) \<Rightarrow>
          if has_flag (pp_flags parsed) SRE_FLAG_MULTILINE \<and> alphabet_allows (re_alphabet R) 10
          then pbind (draw_pad R) (\<lambda>_.
               pbind get_own (\<lambda>g. if gs_out g \<noteq> [] then push_out [10] else pret ()))
          else pret ()
      | _ \<Rightarrow> draw_pad R)"

definition draw_suffix :: "'r regex_env \<Rightarrow> parsed_pattern \<Rightarrow> ('r, unit) generating" where
  "draw_suffix R parsed =
     (case effective_last (pp_pattern parsed) of
        Some (At AtEndString) \<Rightarrow> pret ()
      | Some (At AtEnd) \<Rightarrow>
          if \<not> alphabet_allows (re_alphabet R) 10 then pret ()
          else if has_flag (pp_flags parsed) SRE_FLAG_MULTILINE
          then pbind (flip R f64_half) (\<lambda>b.
               if b then pbind (push_out [10]) (\<lambda>_. draw_pad R) else pret ())
          else pbind (flip R f64_half) (\<lambda>b. if b then push_out [10] else pret ())
      | _ \<Rightarrow> draw_pad R)"

section \<open>Operations\<close>

definition literal_op :: "'r regex_env \<Rightarrow> codepoint \<Rightarrow> ('r, unit) generating" where
  "literal_op R cp =
     pbind (pinternal (codepoint_to_char cp)) (\<lambda>c.
     pbind get_own (\<lambda>g.
     let plain = (if \<not> alphabet_allows (re_alphabet R) c then mark_invalid else push_out [c])
     in if has_flag (gs_flags g) SRE_FLAG_IGNORECASE
        then case char_swapcase (re_tables R) c of
               Some sw \<Rightarrow>
                 pbind (draw_number R 0 1) (\<lambda>which.
                 let pick = (if which = 0 then c else sw)
                 in if \<not> alphabet_allows (re_alphabet R) pick then mark_invalid else push_out [pick])
             | None \<Rightarrow> plain
        else plain))"

definition not_literal_op :: "'r regex_env \<Rightarrow> codepoint \<Rightarrow> ('r, unit) generating" where
  "not_literal_op R cp =
     pbind (pinternal (codepoint_to_char cp)) (\<lambda>c.
     pbind get_own (\<lambda>g.
     pbind (pcompute (swapcase_blacklist (re_tables R) c (gs_flags g))) (\<lambda>blacklist.
     emit_from_chars R (gather_chars (re_alphabet R) (\<lambda>c. c \<notin> set blacklist)))))"

definition any_op :: "'r regex_env \<Rightarrow> ('r, unit) generating" where
  "any_op R =
     pbind get_own (\<lambda>g.
     emit_from_chars R (gather_chars (re_alphabet R) (\<lambda>c. has_flag (gs_flags g) SRE_FLAG_DOTALL \<or> c \<noteq> 10)))"

definition at_op :: "at_code \<Rightarrow> ('r, unit) generating" where
  "at_op at =
     pbind get_own (\<lambda>g.
     case at of
       AtBeginningString \<Rightarrow> if gs_out g \<noteq> [] then mark_invalid else pret ()
     | AtBeginning \<Rightarrow>
         if has_flag (gs_flags g) SRE_FLAG_MULTILINE
         then if gs_out g \<noteq> [] \<and> last (gs_out g) \<noteq> 10 then mark_invalid else pret ()
         else if gs_out g \<noteq> [] then mark_invalid else pret ()
     | _ \<Rightarrow> set_own (gs_pending_anchors_update (\<lambda>as. as @ [\<lparr>pa_char_pos = length (gs_out g), pa_at = at,
              pa_flags = gs_flags g\<rparr>])))"

definition in_op :: "'r regex_env \<Rightarrow> set_item list \<Rightarrow> ('r, unit) generating" where
  "in_op R items =
     pbind get_own (\<lambda>g.
     pbind (pcompute (build_in_set (re_tables R) items (gs_flags g) (re_alphabet R))) (\<lambda>r.
     pbind (pinternal r) (\<lambda>chars. emit_from_chars R chars)))"

text \<open>An assertion of a direction and a pattern, at the current position.\<close>

definition pending_here :: "gen_state \<Rightarrow> int \<Rightarrow> opcode list \<Rightarrow> pending_assert" where
  "pending_here g direction p =
     \<lparr>pn_char_pos = length (gs_out g), pn_direction = direction, pn_pattern = p, pn_flags = gs_flags g,
      pn_groups = gs_groups g\<rparr>"

definition assert_not_op :: "'r regex_env \<Rightarrow> int \<Rightarrow> opcode list \<Rightarrow> ('r, unit) generating" where
  "assert_not_op R direction p =
     pbind get_own (\<lambda>g.
     if direction < 0
     then let end_pos = length (gs_out g)
          in if list_ex (\<lambda>start. match_seq (re_tables R) (gs_groups g) (gs_out g) p start (gs_flags g) = Some end_pos)
                  [0..<Suc end_pos]
             then mark_invalid else pret ()
     else set_own (gs_pending_lookaheads_update (\<lambda>ps. ps @ [pending_here g direction p])))"

text \<open>A group: the flags of its body, and the part of the output it captures.\<close>

definition subpattern_op ::
  "nat option \<Rightarrow> u32 \<Rightarrow> u32 \<Rightarrow> ('r, unit) generating \<Rightarrow> ('r, unit) generating" where
  "subpattern_op grp add_flags del_flags body =
     pbind get_own (\<lambda>g.
     pbind (set_own (gs_flags_update (\<lambda>f. inner_flags f add_flags del_flags))) (\<lambda>_.
     pbind body (\<lambda>_.
     pbind (set_own (gs_flags_update (\<lambda>_. gs_flags g))) (\<lambda>_.
     case grp of
       Some gid \<Rightarrow> set_own (\<lambda>h. h\<lparr>gs_groups := (gs_groups h)(gid \<mapsto> drop (length (gs_out g)) (gs_out h))\<rparr>)
     | None \<Rightarrow> pret ()))))"

definition repeat_op :: "'r regex_env \<Rightarrow> nat \<Rightarrow> nat \<Rightarrow> ('r, unit) generating \<Rightarrow> ('r, unit) generating" where
  "repeat_op R mn mx body =
     many_loop (re_ceil R) (re_sampling R) (many_new mn (at_most mx)) (\<lambda>_. body) ()"

fun generate_op :: "'r regex_env \<Rightarrow> opcode \<Rightarrow> ('r, unit) generating"
  and generate_subpattern :: "'r regex_env \<Rightarrow> opcode list \<Rightarrow> ('r, unit) generating" where
  "generate_op R (Literal cp) = literal_op R cp"
| "generate_op R (NotLiteral cp) = not_literal_op R cp"
| "generate_op R AnyChar = any_op R"
| "generate_op R (At at) = at_op at"
| "generate_op R (InSet items) = in_op R items"
| "generate_op R (Branch items) =
     pbind (draw_number R 0 (int (length items) - 1)) (\<lambda>idx.
     pbind (on_case (index_at (map (generate_subpattern R) items) (nat idx))) (\<lambda>branch. branch))"
| "generate_op R (Subpattern grp add_flags del_flags p) =
     subpattern_op grp add_flags del_flags (generate_subpattern R p)"
| "generate_op R (GroupRef gid) =
     pbind get_own (\<lambda>g. case gs_groups g gid of None \<Rightarrow> mark_invalid | Some val \<Rightarrow> push_out val)"
| "generate_op R (GroupRefExists cond_group yes no) =
     pbind get_own (\<lambda>g.
     if gs_groups g cond_group \<noteq> None then generate_subpattern R yes
     else case no of Some no \<Rightarrow> generate_subpattern R no | None \<Rightarrow> pret ())"
| "generate_op R (Assert direction p) =
     pbind get_own (\<lambda>g.
     if gs_fullmatch g
     then set_own (gs_pending_asserts_update (\<lambda>ps. ps @ [pending_here g direction p]))
     else generate_subpattern R p)"
| "generate_op R (AssertNot direction p) = assert_not_op R direction p"
| "generate_op R Failure = mark_invalid"
| "generate_op R (AtomicGroup p) =
     pbind (set_own (gs_needs_whole_match_update (\<lambda>_. True))) (\<lambda>_. generate_subpattern R p)"
| "generate_op R (MaxRepeat mn mx item) = repeat_op R mn mx (generate_subpattern R item)"
| "generate_op R (MinRepeat mn mx item) = repeat_op R mn mx (generate_subpattern R item)"
| "generate_op R (PossessiveRepeat mn mx item) =
     pbind (set_own (gs_needs_whole_match_update (\<lambda>_. True))) (\<lambda>_.
     repeat_op R mn mx (generate_subpattern R item))"
| "generate_subpattern R [] = pret ()"
| "generate_subpattern R (op # ops) = pbind (generate_op R op) (\<lambda>_. generate_subpattern R ops)"

section \<open>Candidates\<close>

definition whole_match ::
  "char_tables \<Rightarrow> parsed_pattern \<Rightarrow> bool \<Rightarrow> codepoint list \<Rightarrow> captures \<Rightarrow> bool" where
  "whole_match u parsed fullmatch chars groups \<longleftrightarrow>
     (if fullmatch
      then match_seq u groups chars (pp_pattern parsed @ [At AtEndString]) 0 (pp_flags parsed) \<noteq> None
      else list_ex (\<lambda>start. match_seq u groups chars (pp_pattern parsed) start (pp_flags parsed) \<noteq> None)
             [0..<Suc (length chars)])"

definition assert_holds :: "char_tables \<Rightarrow> codepoint list \<Rightarrow> pending_assert \<Rightarrow> bool" where
  "assert_holds u chars p \<longleftrightarrow>
     (if 0 \<le> pn_direction p
      then match_seq u (pn_groups p) chars (pn_pattern p) (pn_char_pos p) (pn_flags p) \<noteq> None
      else list_ex (\<lambda>start. match_seq u (pn_groups p) chars (pn_pattern p) start (pn_flags p) = Some (pn_char_pos p))
             [0..<Suc (pn_char_pos p)])"

definition candidate_ok :: "char_tables \<Rightarrow> parsed_pattern \<Rightarrow> bool \<Rightarrow> gen_state \<Rightarrow> bool" where
  "candidate_ok u parsed fullmatch g \<longleftrightarrow>
     list_all (\<lambda>a. at_matches u (pa_at a) (gs_out g) (pa_char_pos a) (pa_flags a)) (gs_pending_anchors g)
     \<and> list_all (assert_holds u (gs_out g)) (gs_pending_asserts g)
     \<and> list_all (\<lambda>p. match_seq u (pn_groups p) (gs_out g) (pn_pattern p) (pn_char_pos p) (pn_flags p) = None)
         (gs_pending_lookaheads g)
     \<and> (gs_needs_whole_match g \<longrightarrow> whole_match u parsed fullmatch (gs_out g) (gs_groups g))"

definition generate_regex_attempt ::
  "'r regex_env \<Rightarrow> parsed_pattern \<Rightarrow> bool \<Rightarrow> ('r, codepoint list option) generating" where
  "generate_regex_attempt R parsed fullmatch =
     pbind (set_own (\<lambda>_. gen_state_new (pp_flags parsed) fullmatch)) (\<lambda>_.
     if pp_pattern parsed = []
     then pbind (if \<not> fullmatch then draw_pad R else pret ()) (\<lambda>_.
          pbind get_own (\<lambda>g. pret (Some (gs_out g))))
     else pbind (if \<not> fullmatch then draw_prefix R parsed else pret ()) (\<lambda>_.
          pbind (generate_subpattern R (pp_pattern parsed)) (\<lambda>_.
          pbind (if \<not> fullmatch then draw_suffix R parsed else pret ()) (\<lambda>_.
          pbind get_own (\<lambda>g.
          pret (if candidate_ok (re_tables R) parsed fullmatch g then Some (gs_out g) else None))))))"

definition MAX_ATTEMPTS :: nat where "MAX_ATTEMPTS = 5"

definition generate_regex :: "'r regex_env \<Rightarrow> parsed_pattern \<Rightarrow> bool \<Rightarrow> ('r, codepoint list) generating" where
  "generate_regex R parsed fullmatch =
     pbind (pfor_find [0..<MAX_ATTEMPTS] (\<lambda>_. generate_regex_attempt R parsed fullmatch)) (\<lambda>r.
     case r of Some s \<Rightarrow> pret s | None \<Rightarrow> mark_invalid)"

text \<open>\<open>CompiledRegex::compile\<close>: the parser's error becomes a diagnostic of the argument.\<close>

definition compile_regex :: "alphabetic \<Rightarrow> codepoint list \<Rightarrow> (engine_error + parsed_pattern) option" where
  "compile_regex U pattern =
     map_option (map_sum (\<lambda>_. InvalidArgument ''invalid regex pattern'') id) (parse_pattern U pattern 0)"

end
