(* ===== verification/RegexFacts.thy ===== *)
theory RegexFacts
  imports RegexDraws RegexParserFacts InternetFacts
begin

text \<open>
  The matcher stays within the string and its rounds are enough; drawing from a parsed pattern
  ends and writes only characters of the alphabet.
\<close>

section \<open>The matcher\<close>

definition within :: "codepoint list \<Rightarrow> (nat \<Rightarrow> nat option) \<Rightarrow> bool" where
  "within chars m \<longleftrightarrow> (\<forall>p e. p \<le> length chars \<longrightarrow> m p = Some e \<longrightarrow> p \<le> e \<and> e \<le> length chars)"

lemma first_some_Some: "first_some f xs = Some y \<Longrightarrow> \<exists>x \<in> set xs. f x = Some y"
  by (induction xs) (auto split: option.splits)

lemma withinD: "within chars m \<Longrightarrow> p \<le> length chars \<Longrightarrow> m p = Some e \<Longrightarrow> p \<le> e \<and> e \<le> length chars"
  unfolding within_def by blast

lemma greedy_positions:
  assumes "within chars m" "ps \<noteq> []" "\<forall>p \<in> set ps. pos \<le> p \<and> p \<le> length chars"
  shows "\<forall>p \<in> set (fst (greedy_loop m mx k ps)). pos \<le> p \<and> p \<le> length chars"
  using assms(2,3)
proof (induction k arbitrary: ps)
  case (Suc k)
  have l: "pos \<le> last ps" "last ps \<le> length chars" using Suc.prems last_in_set by blast+
  show ?case
  proof (cases "m (last ps)")
    case None
    then show ?thesis using Suc.prems by simp
  next
    case (Some q)
    note q = withinD [OF assms(1) l(2) Some]
    have "\<forall>p \<in> set (ps @ [q]). pos \<le> p \<and> p \<le> length chars" using Suc.prems(2) l q by simp
    note again = Suc.IH [OF _ this]
    show ?thesis using Some Suc.prems again by simp
  qed
qed simp

lemma within_greedy:
  assumes "within chars rest" "within chars m"
  shows "within chars (match_greedy chars rest m mn mx)"
  unfolding within_def
proof (intro allI impI)
  fix pos e
  assume pos: "pos \<le> length chars" and run: "match_greedy chars rest m mn mx pos = Some e"
  obtain ps z where ps: "greedy_loop m (at_most mx) (Suc (length chars)) [pos] = (ps, z)" by fastforce
  have all: "\<forall>p \<in> set ps. pos \<le> p \<and> p \<le> length chars"
    using greedy_positions [OF assms(2), of "[pos]" pos "at_most mx" "Suc (length chars)"] pos ps by simp
  obtain i where i: "i < length ps" "rest (ps ! i) = Some e"
    using run first_some_Some [of "\<lambda>i. rest (ps ! i)" _ e] unfolding match_greedy_def ps prod.case Let_def
    by (fastforce split: if_splits)
  have "pos \<le> ps ! i" "ps ! i \<le> length chars" using all i(1) nth_mem by blast+
  then show "pos \<le> e \<and> e \<le> length chars" using withinD [OF assms(1) _ i(2)] by simp
qed

lemma at_least_within:
  "within chars m \<Longrightarrow> pos \<le> length chars \<Longrightarrow> at_least m n pos = Some e \<Longrightarrow> pos \<le> e \<and> e \<le> length chars"
proof (induction n arbitrary: pos)
  case (Suc n)
  then obtain q where q: "m pos = Some q" by (auto split: option.splits)
  note w = withinD [OF Suc.prems(1,2) q]
  then show ?case using Suc.prems q Suc.IH [OF Suc.prems(1), of q] by (auto split: if_splits)
qed simp

lemma lazy_within:
  "within chars rest \<Longrightarrow> within chars m \<Longrightarrow> pos \<le> length chars \<Longrightarrow> lazy_loop rest m mx k n pos = Some e
     \<Longrightarrow> pos \<le> e \<and> e \<le> length chars"
proof (induction k arbitrary: n pos)
  case (Suc k)
  show ?case
  proof (cases "rest pos")
    case (Some x)
    then show ?thesis using Suc.prems withinD [OF Suc.prems(1,3) Some] by simp
  next
    case None
    then obtain q where q: "m pos = Some q" "pos < q" "lazy_loop rest m mx k (n + 1) q = Some e"
      using Suc.prems(4) by (auto split: if_splits option.splits simp: not_le)
    have "q \<le> length chars" using withinD [OF Suc.prems(2,3) q(1)] by simp
    then show ?thesis using Suc.IH [OF Suc.prems(1,2) _ q(3)] q(2) by simp
  qed
qed simp

lemma within_lazy:
  assumes "within chars rest" "within chars m"
  shows "within chars (match_lazy chars rest m mn mx)"
  unfolding within_def match_lazy_def
proof (intro allI impI)
  fix p e
  assume p: "p \<le> length chars"
    and "Option.bind (at_least m mn p) (\<lambda>cur. lazy_loop rest m (at_most mx) (Suc (length chars)) mn cur) = Some e"
  then obtain q where q: "at_least m mn p = Some q" "lazy_loop rest m (at_most mx) (Suc (length chars)) mn q = Some e"
    by (auto simp: bind_eq_Some_conv simp del: lazy_loop.simps)
  note w = at_least_within [OF assms(2) p q(1)]
  then show "p \<le> e \<and> e \<le> length chars" using lazy_within [OF assms _ q(2)] by simp
qed

lemma possessive_within:
  "within chars m \<Longrightarrow> pos \<le> length chars \<Longrightarrow> possessive_loop m mx k n pos = (count, cur, z)
     \<Longrightarrow> pos \<le> cur \<and> cur \<le> length chars"
proof (induction k arbitrary: n pos)
  case (Suc k)
  show ?case
  proof (cases "m pos")
    case None
    then show ?thesis using Suc.prems by (simp split: if_splits)
  next
    case (Some q)
    note w = withinD [OF Suc.prems(1,2) Some]
    show ?thesis using Suc.prems(2,3) Some w Suc.IH [OF Suc.prems(1), of q "n + 1"]
      by (auto split: if_splits simp: le_less_trans less_imp_le)
  qed
qed simp

lemma within_possessive:
  assumes "within chars rest" "within chars m"
  shows "within chars (match_possessive chars rest m mn mx)"
  unfolding within_def match_possessive_def
proof (intro allI impI)
  fix p e
  assume p: "p \<le> length chars"
    and run: "(case possessive_loop m (at_most mx) (Suc (length chars)) 0 p of
        (count, cur, zero_width) \<Rightarrow> if count < mn \<and> \<not> zero_width then None else rest cur) = Some e"
  obtain count cur z where l: "possessive_loop m (at_most mx) (Suc (length chars)) 0 p = (count, cur, z)"
    by (metis prod_cases3)
  note w = possessive_within [OF assms(2) p l]
  have e: "rest cur = Some e" using run unfolding l by (simp split: if_splits)
  show "p \<le> e \<and> e \<le> length chars" using withinD [OF assms(1) _ e] w by simp
qed

lemma withinI: "(\<And>p e. p \<le> length chars \<Longrightarrow> m p = Some e \<Longrightarrow> p \<le> e \<and> e \<le> length chars) \<Longrightarrow> within chars m"
  unfolding within_def by blast

lemma within_simple:
  "within chars Some" "within chars (\<lambda>_. None)"
  "(\<And>x. within chars (f x)) \<Longrightarrow> within chars (\<lambda>p. Option.bind v (\<lambda>x. f x p))"
  "within chars m \<Longrightarrow> within chars (\<lambda>p. if b p then m p else None)"
  "within chars m \<Longrightarrow> within chars (\<lambda>p. if b p then None else m p)"
  by (cases v; rule withinI; auto split: if_splits dest: withinD)+

lemma within_bind:
  assumes "within chars m" "within chars m'"
  shows "within chars (\<lambda>p. Option.bind (m p) m')"
proof (rule withinI)
  fix p e
  assume p: "p \<le> length chars" and "Option.bind (m p) m' = Some e"
  then obtain q where q: "m p = Some q" "m' q = Some e" by (auto simp: bind_eq_Some_conv)
  show "p \<le> e \<and> e \<le> length chars"
    using withinD [OF assms(1) p q(1)] withinD [OF assms(2) _ q(2)] by simp
qed

lemma within_char:
  assumes "within chars m"
  shows "within chars (\<lambda>p. Option.bind (char_at chars p) (\<lambda>c. if b c then m (p + 1) else None))"
    "within chars (\<lambda>p. Option.bind (char_at chars p) (\<lambda>c. if b c then None else m (p + 1)))"
proof -
  have next_in: "p \<le> e \<and> e \<le> length chars" if "p < length chars" "m (p + 1) = Some e" for p e
    using withinD [OF assms _ that(2)] that(1) by simp
  show "within chars (\<lambda>p. Option.bind (char_at chars p) (\<lambda>c. if b c then m (p + 1) else None))"
    "within chars (\<lambda>p. Option.bind (char_at chars p) (\<lambda>c. if b c then None else m (p + 1)))"
    by (rule withinI, unfold char_at_def bind_eq_Some_conv, rule next_in; simp split: if_splits)+
qed

lemma within_first:
  assumes "\<And>x. x \<in> set xs \<Longrightarrow> within chars (\<lambda>p. f x p)"
  shows "within chars (\<lambda>p. first_some (\<lambda>x. f x p) xs)"
proof (rule withinI)
  fix p e
  assume p: "p \<le> length chars" and "first_some (\<lambda>x. f x p) xs = Some e"
  from first_some_Some [OF this(2)] obtain x where x: "x \<in> set xs" "f x p = Some e" by blast
  show "p \<le> e \<and> e \<le> length chars" using withinD [OF assms [OF x(1)] p x(2)] .
qed

lemma within_captured:
  "within chars m \<Longrightarrow> within chars (\<lambda>p. Option.bind (match_captured u chars val p flags) m)"
  by (rule within_bind) (auto intro!: withinI simp: match_captured_def split: if_splits)

lemma match_seq_within: "within chars (\<lambda>p. match_seq u groups chars ops p flags)"
proof -
  have "within chars (\<lambda>p. match_seq u groups chars ops p flags)" if "size_list size ops < n" for n ops flags
    using that
  proof (induction n arbitrary: ops flags)
    case (Suc n)
    note IH = Suc.IH
    show ?case
    proof (cases ops)
      case Nil
      then show ?thesis by (simp add: within_simple)
    next
      case (Cons op rest)
      have rest: "within chars (\<lambda>p. match_seq u groups chars rest p f)" for f
        using IH [of rest f] Suc.prems Cons by simp
      have sub: "within chars (\<lambda>p. match_seq u groups chars (br @ rest) p f)" "within chars (\<lambda>p. match_seq u groups chars br p f)"
        if "size_list size br < size op" for br f
        using IH [of "br @ rest" f] IH [of br f] Suc.prems that Cons by (simp_all add: size_list_append)
      show ?thesis
      proof (cases op)
        case (Branch branches)
        have br: "within chars (\<lambda>p. match_seq u groups chars (br @ rest) p flags)" if "br \<in> set branches" for br
          using size_list_estimation' [OF that order_refl, of "size_list size"] by (intro sub) (simp add: Branch)
        show ?thesis unfolding Cons Branch match_seq.simps by (rule within_first) (rule br)
      next
        case (GroupRefExists g yes no)
        show ?thesis
        proof (cases no)
          case None
          then show ?thesis unfolding Cons GroupRefExists match_seq.simps
            by (cases "groups g = None") (simp_all add: rest sub GroupRefExists)
        next
          case (Some n)
          then show ?thesis unfolding Cons GroupRefExists match_seq.simps
            by (cases "groups g = None") (simp_all add: sub GroupRefExists)
        qed
      qed (simp_all only: Cons match_seq.simps,
             auto intro!: within_simple within_char within_captured within_bind within_greedy within_lazy
               within_possessive rest sub)
    qed
  qed simp
  then show ?thesis by blast
qed

section \<open>Enough rounds\<close>

text \<open>One more round than there are characters to the right changes nothing.\<close>

lemma greedy_enough:
  assumes "within chars m" "ps \<noteq> []" "last ps \<le> length chars" "length chars - last ps < k"
  shows "greedy_loop m mx (Suc k) ps = greedy_loop m mx k ps"
  using assms(2-)
proof (induction k arbitrary: ps)
  case (Suc k)
  show ?case
  proof (cases "m (last ps)")
    case (Some q)
    note w = withinD [OF assms(1) Suc.prems(2) Some]
    show ?thesis
    proof (cases "last ps < q")
      case True
      then have "greedy_loop m mx (Suc k) (ps @ [q]) = greedy_loop m mx k (ps @ [q])"
        using Suc.IH [of "ps @ [q]"] Suc.prems w by simp
      then show ?thesis using Some True by (subst (1 2) greedy_loop.simps) (simp del: greedy_loop.simps)
    qed (use Some in simp)
  qed simp
qed simp

lemma lazy_enough:
  assumes "within chars m" "pos \<le> length chars" "length chars - pos < k"
  shows "lazy_loop rest m mx (Suc k) n pos = lazy_loop rest m mx k n pos"
  using assms(2-)
proof (induction k arbitrary: n pos)
  case (Suc k)
  show ?case
  proof (cases "m pos")
    case (Some q)
    note w = withinD [OF assms(1) Suc.prems(1) Some]
    show ?thesis
    proof (cases "pos < q")
      case True
      then have "lazy_loop rest m mx (Suc k) (n + 1) q = lazy_loop rest m mx k (n + 1) q"
        using Suc.IH [of q "n + 1"] Suc.prems w by simp
      then show ?thesis using Some True by (subst (1 2) lazy_loop.simps) (simp del: lazy_loop.simps split: option.split)
    qed (use Some in \<open>simp split: option.split\<close>)
  qed (simp split: option.split)
qed simp

lemma possessive_enough:
  assumes "within chars m" "pos \<le> length chars" "length chars - pos < k"
  shows "possessive_loop m mx (Suc k) n pos = possessive_loop m mx k n pos"
  using assms(2-)
proof (induction k arbitrary: n pos)
  case (Suc k)
  show ?case
  proof (cases "m pos")
    case (Some q)
    note w = withinD [OF assms(1) Suc.prems(1) Some]
    show ?thesis
    proof (cases "pos < q")
      case True
      then have "possessive_loop m mx (Suc k) (n + 1) q = possessive_loop m mx k (n + 1) q"
        using Suc.IH [of q "n + 1"] Suc.prems w by simp
      then show ?thesis using Some True by (subst (1 2) possessive_loop.simps) (simp del: possessive_loop.simps)
    qed (use Some in simp)
  qed simp
qed simp

section \<open>Characters of an alphabet\<close>

text \<open>The case mappings give characters.\<close>

definition mappings_ok :: "char_tables \<Rightarrow> bool" where
  "mappings_ok u \<longleftrightarrow> (\<forall>c. \<forall>d \<in> set (uppercase_of u c) \<union> set (lowercase_of u c). is_char d)"

definition alphabet_ok :: "interval_set option \<Rightarrow> bool" where
  "alphabet_ok alphabet \<longleftrightarrow> (case alphabet of None \<Rightarrow> True | Some ivs \<Rightarrow> iv_wf ivs \<and> printable ivs)"

lemma is_char_u32: "char_from_u32 c = (if is_char c then Some c else None)"
  by (auto simp: char_from_u32_def is_char_def)

lemma swapcase_chars_ok: "mappings_ok u \<Longrightarrow> d \<in> set (swapcase_chars u c) \<Longrightarrow> is_char d"
  by (auto simp: swapcase_chars_def mappings_ok_def split: if_splits)

lemma char_swapcase_ok: "mappings_ok u \<Longrightarrow> char_swapcase u c = Some d \<Longrightarrow> is_char d"
  using swapcase_chars_ok [of u d c] by (auto simp: char_swapcase_def split: list.splits if_splits)

lemma blacklist_loop_ends:
  assumes u: "mappings_ok u" and "\<forall>c \<in> set stack. is_char c"
  shows "\<exists>b. blacklist_loop u stack blacklist = Some b"
  using assms(2)
proof (induction "card ({c. is_char c} - set blacklist)" arbitrary: stack blacklist rule: less_induct)
  case less
  have fin: "finite {c. is_char c}" by (rule finite_subset [of _ "{0..0x10FFFF}"]) (auto simp: is_char_def)
  note outer = less.hyps
  show ?case using less.prems
  proof (induction "length stack" arbitrary: stack rule: less_induct)
    case less
    show ?case
    proof (cases "stack = []")
      case True
      then show ?thesis by (simp add: blacklist_loop.simps)
    next
      case False
      let ?c = "last stack"
      have c: "is_char ?c" using less.prems False by simp
      have tl: "\<forall>c \<in> set (butlast stack). is_char c" using less.prems by (auto dest: in_set_butlastD)
      show ?thesis
      proof (cases "?c \<in> set blacklist")
        case True
        have "length (butlast stack) < length stack" using False by simp
        from less.hyps [OF this tl] show ?thesis using True False by (subst blacklist_loop.simps) simp
      next
        case out: False
        have "{c. is_char c} - set (blacklist @ [?c]) \<subset> {c. is_char c} - set blacklist" using c out by auto
        then have "card ({c. is_char c} - set (blacklist @ [?c])) < card ({c. is_char c} - set blacklist)"
          using fin by (intro psubset_card_mono) auto
        from outer [OF this, of "butlast stack @ swapcase_chars u ?c"] tl swapcase_chars_ok [OF u]
        have "\<exists>b. blacklist_loop u (butlast stack @ swapcase_chars u ?c) (blacklist @ [?c]) = Some b" by auto
        then show ?thesis using out False by (subst blacklist_loop.simps) simp
      qed
    qed
  qed
qed

lemma swapcase_blacklist_ends: "mappings_ok u \<Longrightarrow> \<exists>b. swapcase_blacklist u c flags = Some b"
  using blacklist_loop_ends swapcase_chars_ok by (auto simp: swapcase_blacklist_def)

lemma blacklists_end: "mappings_ok u \<Longrightarrow> \<exists>b. blacklists u flags cs = Some b"
proof (induction cs)
  case (Cons c cs)
  obtain b where "swapcase_blacklist u c flags = Some b" using swapcase_blacklist_ends [OF Cons.prems] by blast
  then show ?case using Cons by auto
qed simp

lemma gather_chars_ok:
  assumes "alphabet_ok alphabet"
  shows "list_all (\<lambda>c. alphabet_allows alphabet c \<and> is_char c) (gather_chars alphabet p)" "distinct (gather_chars alphabet p)"
proof -
  show "list_all (\<lambda>c. alphabet_allows alphabet c \<and> is_char c) (gather_chars alphabet p)"
  proof (cases alphabet)
    case None
    then show ?thesis by (auto simp: gather_chars_def list_all_iff alphabet_allows_def is_char_u32 split: if_splits)
  next
    case (Some ivs)
    then have t: "tables_ok ivs" using assms by (simp add: alphabet_ok_def iv_wf_def)
    show ?thesis using contains_members [OF t] Some
      by (auto simp: gather_chars_def list_all_iff alphabet_allows_def is_char_u32 split: if_splits)
  qed
  show "distinct (gather_chars alphabet p)"
    using assms distinct_elements iv_wf_ok by (auto simp: gather_chars_def alphabet_ok_def split: option.splits)
qed

lemma distinct_chars_length: "distinct cs \<Longrightarrow> list_all is_char cs \<Longrightarrow> length cs \<le> 0x110000"
proof -
  assume cs: "distinct cs" "list_all is_char cs"
  have "card (set cs) \<le> card {0..<(0x110000 :: nat)}"
    using cs(2) by (intro card_mono) (auto simp: list_all_iff is_char_def)
  then show "length cs \<le> 0x110000" using cs(1) by (simp add: distinct_card)
qed

section \<open>Sets\<close>

lemma codepoint_to_char_ok: "valid_cp c \<Longrightarrow> codepoint_to_char c = Inr c \<and> is_char c"
  by (auto simp: valid_cp_def codepoint_to_char_def hegel_internal_unwrap_def is_char_u32 split: if_splits)

lemma add_with_swapcase_ok: "mappings_ok u \<Longrightarrow> is_char c \<Longrightarrow> list_all is_char (add_with_swapcase u flags c)"
  by (auto simp: add_with_swapcase_def char_swapcase_ok split: option.split)

lemma set_chars_ok:
  assumes "mappings_ok u" "item_ok i"
  shows "\<exists>cs. set_chars u flags i = Inr cs \<and> list_all is_char cs"
  using assms(2)
proof (cases i)
  case (SetRange lo hi)
  have "is_char d" if "d \<in> set (case char_from_u32 cp of Some c \<Rightarrow> add_with_swapcase u flags c | None \<Rightarrow> [])" for cp d
    using that add_with_swapcase_ok [OF assms(1), of cp flags] by (auto simp: is_char_u32 list_all_iff split: if_splits)
  then show ?thesis by (auto simp: SetRange list_all_iff simp del: upt_Suc)
qed (auto simp: codepoint_to_char_ok add_with_swapcase_ok [OF assms(1)])

lemma rmap_ok:
  "(\<And>x. x \<in> set xs \<Longrightarrow> \<exists>y. f x = Inr y \<and> P y) \<Longrightarrow> \<exists>ys. rmap f xs = Inr ys \<and> list_all P ys"
  by (induction xs) fastforce+

lemma unseen_ok: "distinct (unseen seen cs) \<and> set (unseen seen cs) \<subseteq> set cs - set seen"
  by (induction seen cs rule: unseen.induct) auto

text \<open>What an operation may emit: distinct characters of the alphabet.\<close>

definition emittable :: "interval_set option \<Rightarrow> codepoint list \<Rightarrow> bool" where
  "emittable alphabet cs \<longleftrightarrow> distinct cs \<and> list_all (\<lambda>c. alphabet_allows alphabet c \<and> is_char c) cs"

lemma gather_emittable: "alphabet_ok alphabet \<Longrightarrow> emittable alphabet (gather_chars alphabet p)"
  using gather_chars_ok by (simp add: emittable_def)

lemma build_in_set_ok:
  assumes u: "mappings_ok u" and a: "alphabet_ok alphabet" and items: "list_all item_ok items"
  shows "\<exists>cs. build_in_set u items flags alphabet = Some (Inr cs) \<and> emittable alphabet cs"
proof -
  obtain pos where pos: "rmap (set_chars u flags) items = Inr pos" "list_all (list_all is_char) pos"
    using rmap_ok [of items "set_chars u flags" "list_all is_char"] set_chars_ok [OF u] items by (auto simp: list_all_iff)
  show ?thesis
  proof (cases "is_negated items")
    case True
    obtain b where b: "blacklists u flags (concat pos) = Some b" using blacklists_end [OF u] by blast
    then show ?thesis using True pos gather_emittable [OF a] by (simp add: build_in_set_def negative_chars_def)
  next
    case False
    let ?cs = "positive_chars u flags alphabet (set_categories items) (concat pos)"
    have "\<forall>c \<in> set (concat pos). is_char c" using pos(2) by (auto simp: list_all_iff)
    moreover have "\<forall>c \<in> set (gather_chars alphabet p). alphabet_allows alphabet c \<and> is_char c" for p
      using gather_chars_ok(1) [OF a] by (simp add: list_all_iff)
    ultimately have "emittable alphabet ?cs"
      using unseen_ok unfolding emittable_def positive_chars_def Let_def list_all_iff by (fastforce split: if_splits)
    then show ?thesis using False pos by (simp add: build_in_set_def)
  qed
qed

section \<open>Generation\<close>

text \<open>Output and captures hold characters of the alphabet.\<close>

definition allowed :: "'r regex_env \<Rightarrow> codepoint list \<Rightarrow> bool" where
  "allowed R s \<longleftrightarrow> list_all (alphabet_allows (re_alphabet R)) s"

definition generated :: "'r regex_env \<Rightarrow> gen_state \<Rightarrow> bool" where
  "generated R g \<longleftrightarrow> allowed R (gs_out g) \<and> (\<forall>i s. gs_groups g i = Some s \<longrightarrow> allowed R s)"

definition env_ok :: "'r regex_env \<Rightarrow> bool" where
  "env_ok R \<longleftrightarrow> sampling_sound (re_sampling R) \<and> integers_total (re_sampling R) \<and> mappings_ok (re_tables R)
     \<and> alphabet_ok (re_alphabet R)"

text \<open>A procedure that keeps the output within the alphabet, from any state.\<close>

definition writes :: "'r regex_env \<Rightarrow> ('a \<Rightarrow> bool) \<Rightarrow> ('r, 'a) generating \<Rightarrow> bool" where
  "writes R Q m \<longleftrightarrow> (\<forall>s. drawing_good (re_ceil R) s \<longrightarrow> generated R (fst s)
     \<longrightarrow> draws (re_ceil R) (\<lambda>x t. Q x \<and> generated R (fst t)) m s)"

lemma writesI: "(\<And>s. drawing_good (re_ceil R) s \<Longrightarrow> generated R (fst s)
     \<Longrightarrow> draws (re_ceil R) (\<lambda>x t. Q x \<and> generated R (fst t)) m s) \<Longrightarrow> writes R Q m"
  by (simp add: writes_def)

lemma writes_bind:
  assumes "writes R P m" "\<And>x. P x \<Longrightarrow> writes R Q (f x)"
  shows "writes R Q (pbind m f)"
proof (rule writesI, goal_cases)
  case (1 s)
  have "draws (re_ceil R) (\<lambda>x t. P x \<and> generated R (fst t)) m s" using assms(1) 1 unfolding writes_def by blast
  then show ?case
    by (rule drawing.ends_bind_good) (use assms(2) in \<open>auto simp: writes_def\<close>)
qed

lemma writes_if: "(b \<Longrightarrow> writes R Q m) \<Longrightarrow> (\<not> b \<Longrightarrow> writes R Q m') \<Longrightarrow> writes R Q (if b then m else m')"
  by simp

lemma writes_ret: "Q x \<Longrightarrow> writes R Q (pret x)"
  by (rule writesI) (auto intro!: drawing.ends_ret)

lemma writes_invalid: "writes R Q mark_invalid"
  by (rule writesI) (rule draws_mark_invalid)

lemma writes_get: "(\<And>g. generated R g \<Longrightarrow> writes R Q (f g)) \<Longrightarrow> writes R Q (pbind get_own f)"
  by (rule writesI, rule draws_get_own) (auto simp: writes_def)

lemma writes_set: "(\<And>g. generated R g \<Longrightarrow> generated R (f g)) \<Longrightarrow> Q () \<Longrightarrow> writes R Q (set_own f)"
  by (rule writesI, rule drawing.ends_weaken [OF draws_set_own]) auto

lemma writes_push: "allowed R s \<Longrightarrow> writes R (\<lambda>_. True) (push_out s)"
  unfolding push_out_def by (rule writes_set) (auto simp: generated_def allowed_def)

lemma writes_weaken: "writes R P m \<Longrightarrow> (\<And>x. P x \<Longrightarrow> Q x) \<Longrightarrow> writes R Q m"
  unfolding writes_def by (blast intro: drawing.ends_weaken)

lemma writes_internal: "v = Inr x \<Longrightarrow> writes R (\<lambda>y. y = x) (pinternal v)"
  by (rule writesI, rule drawing.ends_weaken [OF draws_pure]) auto

lemma writes_index: "i < length xs \<Longrightarrow> writes R (\<lambda>x. x = xs ! i) (on_case (index_at xs i))"
  by (rule writesI, rule drawing.ends_weaken [OF draws_index]) auto

lemma writes_number:
  assumes "env_ok R" "lo \<le> hi" "- (2 ^ 127) \<le> lo" "hi < 2 ^ 127"
  shows "writes R (\<lambda>v. lo \<le> v \<and> v \<le> hi) (draw_number R lo hi)"
  unfolding draw_number_def
  by (rule writesI, rule drawing.ends_weaken [OF draws_i128]) (use assms in \<open>auto simp: env_ok_def\<close>)

lemma writes_flip: "writes R (\<lambda>_. True) (flip R p)"
  unfolding flip_def by (rule writesI, rule drawing.ends_weaken [OF draws_weighted]) auto

lemma writes_compute: "v = Some x \<Longrightarrow> writes R (\<lambda>y. y = x) (pcompute v)"
  by (rule writesI, rule drawing.endsI [where r = "Inr x"]) (auto simp: pcompute_def drawing.step_refl)

section \<open>The operations\<close>

lemma allowed_one: "allowed R [c] = alphabet_allows (re_alphabet R) c"
  by (simp add: allowed_def)

lemma writes_any_char:
  assumes R: "env_ok R"
  shows "writes R (\<lambda>c. alphabet_allows (re_alphabet R) c) (draw_any_char R)"
proof (cases "re_alphabet R")
  case None
  show ?thesis unfolding draw_any_char_def None option.case
  proof (rule writes_bind [OF writes_number [OF R]], goal_cases)
    case (4 cp)
    then have "nat (cp mod 2 ^ 32) = nat cp" "32 \<le> nat cp" "nat cp \<le> 126" by auto
    then have "hegel_internal_unwrap (char_from_u32 (nat (cp mod 2 ^ 32)))
        ''draw_any_char: printable-ASCII draw is not a char'' = Inr (nat cp)"
      by (simp add: char_from_u32_def hegel_internal_unwrap_def)
    from writes_internal [OF this] show ?case
      by (rule writes_weaken) (use \<open>nat cp \<le> 126\<close> in \<open>simp add: alphabet_allows_def None is_surrogate_cp_def\<close>)
  qed simp_all
next
  case (Some ivs)
  then have ivs: "iv_wf ivs" "printable ivs" using R by (simp_all add: env_ok_def alphabet_ok_def)
  then have t: "tables_ok ivs" "ivs_ok (intervals ivs)" "iv_size ivs = length (elements (intervals ivs))"
    by (simp_all add: iv_wf_def tables_ok_def)
  have size: "iv_size ivs \<le> 0x110000"
  proof -
    have "list_all is_char (elements (intervals ivs))"
      using t(2) ivs(2) unfolding list_all_iff set_elements
      by (force simp: printable_def is_char_def members_def ivs_ok_def)
    then show ?thesis using distinct_chars_length distinct_elements [OF t(2)] t(3) by simp
  qed
  show ?thesis unfolding draw_any_char_def Some option.case
  proof (rule writes_if [OF writes_invalid], rule writes_bind [OF writes_number [OF R]], goal_cases)
    case (4 idx)
    then have idx: "nat idx < length (elements (intervals ivs))" "0 \<le> idx" using t(3) by auto
    let ?c = "elements (intervals ivs) ! nat idx"
    have c: "?c \<in> members (intervals ivs)" using nth_mem [OF idx(1)] by simp
    have get: "iv_get ivs idx = Some ?c" using iv_get_elements [OF t(1), of idx] idx t(3) by (simp add: Let_def)
    have "?c \<le> 0x10FFFF" using c t(2) by (force simp: members_def ivs_ok_def)
    then have char: "char_from_u32 ?c = Some ?c" using printable_chars [OF ivs(2) c] by (simp add: is_char_u32)
    show ?case
      by (rule writes_bind [OF writes_internal [where x = ?c]], simp add: get hegel_internal_unwrap_def,
          rule writes_weaken [OF writes_internal [where x = ?c]])
         (use char c contains_members [OF t(1)] in \<open>simp_all add: hegel_internal_unwrap_def alphabet_allows_def Some\<close>)
  qed (use size in auto)
qed

lemma writes_emit:
  assumes R: "env_ok R" and cs: "emittable (re_alphabet R) cs"
  shows "writes R (\<lambda>_. True) (emit_from_chars R cs)"
proof -
  have n: "length cs \<le> 0x110000" using cs by (intro distinct_chars_length) (auto simp: emittable_def list_all_iff)
  have idx: "writes R (\<lambda>i. 0 \<le> i \<and> i < int (length cs)) (if 256 < int (length cs)
      then pbind (flip R f64_four_fifths) (\<lambda>low. if low then draw_number R 0 255 else draw_number R 256 (int (length cs) - 1))
      else draw_number R 0 (int (length cs) - 1))" if "cs \<noteq> []"
    by (intro writes_if writes_bind [OF writes_flip]; rule writes_weaken [OF writes_number [OF R]])
       (use n that in auto)
  show ?thesis unfolding emit_from_chars_def Let_def
  proof (rule writes_if [OF writes_invalid], rule writes_bind [OF idx], assumption, goal_cases)
    case (1 i)
    then have i: "nat i < length cs" by auto
    show ?case
      by (rule writes_bind [OF writes_index [OF i]], rule writes_push)
         (use i cs in \<open>auto simp: allowed_one emittable_def list_all_iff\<close>)
  qed
qed

lemma writes_chars: "env_ok R \<Longrightarrow> writes R (\<lambda>_. True) (draw_chars R n)"
  by (induction n) (auto intro!: writes_bind [OF writes_any_char] writes_bind [OF writes_push] writes_ret simp: allowed_one)

lemma writes_pad: "env_ok R \<Longrightarrow> writes R (\<lambda>_. True) (draw_pad R)"
  unfolding draw_pad_def by (rule writes_bind [OF writes_number]) (simp_all add: writes_chars)

lemma writes_prefix: "env_ok R \<Longrightarrow> writes R (\<lambda>_. True) (draw_prefix R parsed)"
  unfolding draw_prefix_def
  by (auto split: option.split opcode.split at_code.split
      intro!: writes_ret writes_pad writes_bind [OF writes_pad] writes_get writes_push simp: allowed_one)

lemma writes_suffix: "env_ok R \<Longrightarrow> writes R (\<lambda>_. True) (draw_suffix R parsed)"
  unfolding draw_suffix_def
  by (auto split: option.split opcode.split at_code.split
      intro!: writes_ret writes_pad writes_bind [OF writes_flip] writes_bind [OF writes_push] writes_push simp: allowed_one)

lemma writes_literal: "env_ok R \<Longrightarrow> valid_cp c \<Longrightarrow> writes R (\<lambda>_. True) (literal_op R c)"
  unfolding literal_op_def Let_def
  by (rule writes_bind [OF writes_internal [where x = c]], simp add: codepoint_to_char_ok)
     (auto split: option.split intro!: writes_get writes_invalid writes_push writes_bind [OF writes_number] simp: allowed_one)

lemma writes_not_literal:
  assumes R: "env_ok R" and c: "valid_cp c"
  shows "writes R (\<lambda>_. True) (not_literal_op R c)"
proof -
  have u: "mappings_ok (re_tables R)" and a: "alphabet_ok (re_alphabet R)" using R by (simp_all add: env_ok_def)
  show ?thesis unfolding not_literal_op_def
  proof (rule writes_bind [OF writes_internal [where x = c]], simp add: c codepoint_to_char_ok, rule writes_get)
    fix c' g
    obtain b where "swapcase_blacklist (re_tables R) c' (gs_flags g) = Some b" using swapcase_blacklist_ends [OF u] by blast
    then show "writes R (\<lambda>_. True) (pbind (pcompute (swapcase_blacklist (re_tables R) c' (gs_flags g)))
        (\<lambda>blacklist. emit_from_chars R (gather_chars (re_alphabet R) (\<lambda>c. c \<notin> set blacklist))))"
      by (intro writes_bind [OF writes_compute] writes_emit [OF R] gather_emittable [OF a])
  qed
qed

lemma writes_any: "env_ok R \<Longrightarrow> writes R (\<lambda>_. True) (any_op R)"
  unfolding any_op_def by (intro writes_get writes_emit gather_emittable) (simp_all add: env_ok_def)

lemma writes_at: "writes R (\<lambda>_. True) (at_op at)"
  unfolding at_op_def
  by (rule writes_get, cases at) (auto intro!: writes_invalid writes_ret writes_set simp: generated_def)

lemma writes_in:
  assumes R: "env_ok R" and items: "list_all item_ok items"
  shows "writes R (\<lambda>_. True) (in_op R items)"
  unfolding in_op_def
proof (rule writes_get)
  fix g
  obtain cs where cs: "build_in_set (re_tables R) items (gs_flags g) (re_alphabet R) = Some (Inr cs)"
    "emittable (re_alphabet R) cs" using build_in_set_ok [OF _ _ items] R unfolding env_ok_def by blast
  show "writes R (\<lambda>_. True) (pbind (pcompute (build_in_set (re_tables R) items (gs_flags g) (re_alphabet R)))
      (\<lambda>r. pbind (pinternal r) (\<lambda>chars. emit_from_chars R chars)))"
    by (rule writes_bind [OF writes_compute [OF cs(1)]], rule writes_bind [OF writes_internal [where x = cs]])
       (simp_all add: writes_emit [OF R cs(2)])
qed

lemma writes_assert_not: "writes R (\<lambda>_. True) (assert_not_op R d p)"
  unfolding assert_not_op_def Let_def
  by (intro writes_get writes_if writes_invalid writes_ret writes_set) (auto simp: generated_def)

lemma writes_subpattern:
  assumes "writes R (\<lambda>_. True) body"
  shows "writes R (\<lambda>_. True) (subpattern_op grp a d body)"
proof -
  have cut: "allowed R (drop n s)" if "allowed R s" for n s
    using that by (auto simp: allowed_def list_all_iff dest: in_set_dropD)
  have flags: "writes R (\<lambda>_. True) (set_own (gs_flags_update f))" for f
    by (rule writes_set) (auto simp: generated_def)
  have capture: "writes R (\<lambda>_. True) (case grp of
       Some gid \<Rightarrow> set_own (\<lambda>h. h\<lparr>gs_groups := (gs_groups h)(gid \<mapsto> drop n (gs_out h))\<rparr>) | None \<Rightarrow> pret ())" for n
    by (cases grp) (auto intro!: writes_ret writes_set simp: generated_def cut)
  show ?thesis unfolding subpattern_op_def
    by (intro writes_get writes_bind [OF flags] writes_bind [OF assms] capture)
qed

lemma writes_repeat:
  assumes "writes R (\<lambda>_. True) body"
  shows "writes R (\<lambda>_. True) (repeat_op R mn mx body)"
  unfolding repeat_op_def
  by (rule writesI, rule drawing.ends_weaken [OF draws_many_loop [where I = "\<lambda>_ t. generated R (fst t)"]])
     (use assms in \<open>auto simp: writes_def\<close>)

text \<open>Patterns that fit the memory of a process.\<close>

lemma branch_size: "length (items :: opcode list list) \<le> size_list (size_list size) items"
  by (induction items) simp_all

lemma writes_mode: "writes R (\<lambda>_. True) (set_own (gs_needs_whole_match_update f))"
  "writes R (\<lambda>_. True) (set_own (gs_pending_asserts_update f'))"
  by (rule writes_set; simp add: generated_def)+

lemma writes_generate:
  "env_ok R \<Longrightarrow> op_ok op \<Longrightarrow> size op < 2 ^ 63 \<Longrightarrow> writes R (\<lambda>_. True) (generate_op R op)"
  "env_ok R \<Longrightarrow> pattern_ok ops \<Longrightarrow> size_list size ops < 2 ^ 63 \<Longrightarrow> writes R (\<lambda>_. True) (generate_subpattern R ops)"
proof (induction R op and R ops rule: generate_op_generate_subpattern.induct)
  case (6 R items)
  have "length items < 2 ^ 63" using branch_size [of items] "6.prems"(3) by simp
  then have n: "0 \<le> int (length items) - 1" "int (length items) - 1 < 2 ^ 127" using "6.prems"(2) by (cases items; simp)+
  have item: "writes R (\<lambda>_. True) (generate_subpattern R ops)" if "ops \<in> set items" for ops
  proof -
    have "size_list size ops \<le> size_list (size_list size) items" by (rule size_list_estimation' [OF that order_refl])
    then show ?thesis using "6.IH" [OF that] "6.prems" that by (simp add: list_all_iff)
  qed
  show ?case unfolding generate_op.simps
  proof (rule writes_bind [OF writes_number [OF "6.prems"(1)]], goal_cases)
    case (4 idx)
    then have idx: "nat idx < length (map (generate_subpattern R) items)" by auto
    show ?case
      by (rule writes_bind [OF writes_index [OF idx]]) (use idx item in simp)
  qed (use n in simp_all)
next
  case (7 R grp a d p)
  then show ?case by (auto intro!: writes_subpattern)
next
  case (8 R gid)
  then show ?case by (auto intro!: writes_get writes_invalid writes_push simp: generated_def split: option.split)
next
  case (9 R c yes no)
  then show ?case by (auto intro!: writes_get writes_ret split: option.split)
next
  case (10 R d p)
  then show ?case by (auto intro!: writes_get writes_mode)
next
  case (13 R p)
  then show ?case by (auto intro!: writes_bind [OF writes_mode(1)])
next
  case (16 R mn mx item)
  then show ?case by (auto intro!: writes_bind [OF writes_mode(1)] writes_repeat)
next
  case (18 R op ops)
  then show ?case by (auto intro!: writes_bind)
qed (auto intro!: writes_literal writes_not_literal writes_any writes_at writes_in writes_assert_not writes_invalid
      writes_repeat writes_ret)

lemma writes_attempt:
  assumes R: "env_ok R" and p: "pattern_ok (pp_pattern p)" "size_list size (pp_pattern p) < 2 ^ 63"
    and s: "drawing_good (re_ceil R) s"
  shows "draws (re_ceil R) (\<lambda>r t. pred_option (allowed R) r) (generate_regex_attempt R p fullmatch) s"
proof -
  have run: "writes R (pred_option (allowed R)) (if pp_pattern p = []
     then pbind (if \<not> fullmatch then draw_pad R else pret ()) (\<lambda>_.
          pbind get_own (\<lambda>g. pret (Some (gs_out g))))
     else pbind (if \<not> fullmatch then draw_prefix R p else pret ()) (\<lambda>_.
          pbind (generate_subpattern R (pp_pattern p)) (\<lambda>_.
          pbind (if \<not> fullmatch then draw_suffix R p else pret ()) (\<lambda>_.
          pbind get_own (\<lambda>g.
          pret (if candidate_ok (re_tables R) p fullmatch g then Some (gs_out g) else None))))))"
    by (intro writes_if writes_bind [where P = "\<lambda>_. True"] writes_get writes_ret writes_pad writes_prefix
        writes_suffix writes_generate R p) (auto simp: generated_def)
  show ?thesis unfolding generate_regex_attempt_def
  proof (rule drawing.ends_bind_good [OF draws_set_own [OF s]], goal_cases)
    case (1 x t)
    then have "generated R (fst t)" by (simp add: generated_def gen_state_new_def allowed_def)
    with run 1(1) show ?case unfolding writes_def by (blast intro: drawing.ends_weaken)
  qed
qed

lemma draws_find:
  assumes "\<And>x t. drawing_good lc t \<Longrightarrow> draws lc (\<lambda>r _. pred_option P r) (f x) t" and "drawing_good lc s"
  shows "draws lc (\<lambda>r _. pred_option P r) (pfor_find xs f) s"
  using assms(2)
proof (induction xs arbitrary: s)
  case (Cons x xs)
  show ?case unfolding pfor_find.simps
    by (rule drawing.ends_bind_good [OF assms(1) [OF Cons.prems]])
       (use Cons.IH in \<open>auto split: option.split intro: drawing.ends_ret\<close>)
qed (simp add: drawing.ends_ret)

lemma draws_generate_regex:
  assumes R: "env_ok R" and p: "pattern_ok (pp_pattern p)" "size_list size (pp_pattern p) < 2 ^ 63"
    and good: "drawing_good (re_ceil R) s"
  shows "draws (re_ceil R) (\<lambda>out _. allowed R out) (generate_regex R p fullmatch) s"
  unfolding generate_regex_def
  by (rule drawing.ends_bind_good [OF draws_find [where P = "allowed R", OF writes_attempt [OF R p] good]])
     (auto split: option.split intro: drawing.ends_ret draws_mark_invalid)


lemma compiled_ok:
  assumes pat: "list_all valid_cp pat" and compiled: "compile_regex U pat = Some (Inr p)"
  shows "pattern_ok (pp_pattern p)"
proof -
  obtain z where z: "parse_pattern U pat 0 = Some z" "map_sum (\<lambda>_. InvalidArgument ''invalid regex pattern'') id z = Inr p"
    using compiled by (auto simp: compile_regex_def)
  then show ?thesis using parse_accepted [OF pat] by (cases z) auto
qed

definition sample_env :: "nat regex_env" where
  "sample_env = \<lparr>re_ceil = (\<lambda>v. v), re_sampling = sample_sampling,
     re_tables = \<lparr>lowercase = (\<lambda>c. 97 \<le> c \<and> c \<le> 122), uppercase = (\<lambda>_. False), uppercase_of = (\<lambda>c. [65]),
       lowercase_of = (\<lambda>c. []), in_group = (\<lambda>_ _. False)\<rparr>,
     re_alphabet = None\<rparr>"


text \<open>
  A search accepts a candidate whose lookahead its own output does not satisfy: the pattern
  \<open>(?=1)a\<close> yields \<open>1a\<close>, which it does not match, and no check is left to reject it.
\<close>

lemma lookahead_unchecked:
  fixes R :: "'r regex_env"
  assumes "re_alphabet R = None"
  shows "\<exists>g. generate_subpattern R [Assert 1 [Literal 49], Literal 97] (gen_state_new 32 False, tc) = Some (Inr (), (g, tc))
     \<and> gs_out g = [49, 97]
     \<and> candidate_ok (re_tables R) \<lparr>pp_pattern = [Assert 1 [Literal 49], Literal 97], pp_flags = 32\<rparr> False g
     \<and> \<not> whole_match (re_tables R) \<lparr>pp_pattern = [Assert 1 [Literal 49], Literal 97], pp_flags = 32\<rparr> False
           (gs_out g) (gs_groups g)"
  by (simp add: pbind_def literal_op_def pinternal_def on_case_def codepoint_to_char_def hegel_internal_unwrap_def
      char_from_u32_def get_own_def set_own_def push_out_def gen_state_new_def assms alphabet_allows_def
      is_surrogate_cp_def candidate_ok_def whole_match_def has_flag_def SRE_FLAG_IGNORECASE_def char_at_def chars_eq_def
      upt_rec)

end
