(* ===== verification/StringSpecs.thy ===== *)
theory StringSpecs
  imports RegexFacts TextFacts
begin

text \<open>
  String generators of \<open>native/draws/mod.rs\<close>: the validated specification a generator handle holds,
  its constructors, and drawing from it. The world record has what the modules below take as
  parameters. Drawing from a regular expression has a state of its own, which ends with it.
\<close>

section \<open>Specifications\<close>

record 'r string_world =
  sw_ceil :: "f64 \<Rightarrow> f64"
  sw_sampling :: "'r sampling"
  sw_tables :: char_tables
  sw_categories :: category_ranges
  sw_alphabetic :: alphabetic
  sw_tlds :: "codepoint list list"

datatype string_spec =
    SpecText interval_set nat nat
  | SpecRegex parsed_pattern "interval_set option" bool
  | SpecEmail
  | SpecUrl
  | SpecDomain domain_spec

definition spec_text :: "'r string_world \<Rightarrow> text_alphabet \<Rightarrow> nat \<Rightarrow> nat \<Rightarrow> engine_error + string_spec" where
  "spec_text X alphabet min_size max_size =
     rbind (refuse (max_size < min_size) ''text requires min_size <= max_size'') (\<lambda>_.
     rbind (build_intervals (sw_categories X) alphabet) (\<lambda>ivs.
     rbind (refuse (iv_size ivs = 0 \<and> 0 < max_size) ''No valid characters in the specified range'') (\<lambda>_.
     Inr (SpecText ivs min_size max_size))))"

text \<open>\<open>None\<close> is a parser that does not return; it always does (\<open>parse_pattern_total\<close>).\<close>

definition spec_regex ::
  "'r string_world \<Rightarrow> codepoint list \<Rightarrow> bool \<Rightarrow> string_spec option \<Rightarrow> (engine_error + string_spec) option" where
  "spec_regex X pattern fullmatch alphabet =
     (case (case alphabet of
              None \<Rightarrow> Inr None
            | Some (SpecText ivs _ _) \<Rightarrow> Inr (Some ivs)
            | Some _ \<Rightarrow> Inl (InvalidArgument ''regex alphabet must be a text string generator'')) of
        Inl e \<Rightarrow> Some (Inl e)
      | Inr alphabet \<Rightarrow>
          map_option (map_sum id (\<lambda>p. SpecRegex p alphabet fullmatch)) (compile_regex (sw_alphabetic X) pattern))"

definition spec_email :: string_spec where "spec_email = SpecEmail"

definition spec_url :: string_spec where "spec_url = SpecUrl"

definition spec_domain :: "'r string_world \<Rightarrow> nat \<Rightarrow> engine_error + string_spec" where
  "spec_domain X max_length = map_sum id SpecDomain (domain_spec_new (sw_tlds X) max_length)"

section \<open>Drawing\<close>

definition LABEL_REGEX :: u64 where "LABEL_REGEX = 17"
definition LABEL_EMAIL :: u64 where "LABEL_EMAIL = 18"
definition LABEL_URL :: u64 where "LABEL_URL = 19"
definition LABEL_DOMAIN :: u64 where "LABEL_DOMAIN = 20"

definition with_local :: "'h \<Rightarrow> ('h, 'r, 'a) drawing \<Rightarrow> ('g, 'r, 'a) drawing" where
  "with_local h m s = map_option (\<lambda>(r, t). (r, (fst s, snd t))) (m (h, snd s))"

definition string_env :: "'r string_world \<Rightarrow> interval_set option \<Rightarrow> 'r regex_env" where
  "string_env X alphabet =
     \<lparr>re_ceil = sw_ceil X, re_sampling = sw_sampling X, re_tables = sw_tables X, re_alphabet = alphabet\<rparr>"

definition generate_string :: "'r string_world \<Rightarrow> string_spec \<Rightarrow> ('g, 'r, codepoint list) drawing" where
  "generate_string X spec =
     (case spec of
        SpecText ivs min_size max_size \<Rightarrow>
          pspanned LABEL_STRING (on_case (draw_string (sw_ceil X) (sw_sampling X) ivs min_size max_size))
      | SpecRegex p alphabet fullmatch \<Rightarrow>
          pspanned LABEL_REGEX
            (with_local (gen_state_new 0 fullmatch) (generate_regex (string_env X alphabet) p fullmatch))
      | SpecEmail \<Rightarrow> pspanned LABEL_EMAIL (generate_email (sw_ceil X) (sw_sampling X) (sw_tlds X))
      | SpecUrl \<Rightarrow> pspanned LABEL_URL (generate_url (sw_ceil X) (sw_sampling X) (sw_tlds X))
      | SpecDomain d \<Rightarrow> pspanned LABEL_DOMAIN (generate_domain (sw_ceil X) (sw_sampling X) d))"

section \<open>What a generator promises\<close>

definition world_ok :: "'r string_world \<Rightarrow> bool" where
  "world_ok X \<longleftrightarrow> sampling_sound (sw_sampling X) \<and> integers_total (sw_sampling X) \<and> strings_total (sw_sampling X)
     \<and> mappings_ok (sw_tables X) \<and> unicode_table (sw_categories X) \<and> length (sw_tlds X) < 2 ^ 64"

text \<open>What the constructors guarantee of a specification.\<close>

definition spec_ok :: "'r string_world \<Rightarrow> string_spec \<Rightarrow> bool" where
  "spec_ok X spec \<longleftrightarrow>
     (case spec of
        SpecText ivs lo hi \<Rightarrow> iv_wf ivs \<and> printable ivs \<and> lo \<le> hi \<and> (intervals ivs \<noteq> [] \<or> hi = 0)
      | SpecRegex p alphabet _ \<Rightarrow> pattern_ok (pp_pattern p) \<and> alphabet_ok alphabet
      | SpecDomain d \<Rightarrow> domain_spec_new (sw_tlds X) (ds_max_length d) = Inr d
      | _ \<Rightarrow> True)"

text \<open>Sizes that fit: a length below the width of the recorded constraint, a pattern in memory.\<close>

definition spec_fits :: "string_spec \<Rightarrow> bool" where
  "spec_fits spec \<longleftrightarrow>
     (case spec of
        SpecText _ _ hi \<Rightarrow> hi < 2 ^ 32
      | SpecRegex p _ _ \<Rightarrow> size_list size (pp_pattern p) < 2 ^ 63
      | _ \<Rightarrow> True)"

definition in_language :: "'r string_world \<Rightarrow> string_spec \<Rightarrow> codepoint list \<Rightarrow> bool" where
  "in_language X spec s \<longleftrightarrow>
     (case spec of
        SpecText ivs lo hi \<Rightarrow> lo \<le> length s \<and> length s \<le> hi \<and> set s \<subseteq> members (intervals ivs)
      | SpecRegex _ alphabet _ \<Rightarrow> list_all (alphabet_allows alphabet) s
      | SpecEmail \<Rightarrow> email_address (TOP_LEVEL_DOMAINS (sw_tlds X)) s
      | SpecUrl \<Rightarrow> url (TOP_LEVEL_DOMAINS (sw_tlds X)) s
      | SpecDomain d \<Rightarrow> domain_name (TOP_LEVEL_DOMAINS (sw_tlds X)) (ds_max_length d) s)"

lemma spec_text_ok:
  assumes X: "world_ok X" and a: "scalar_strings a" and made: "spec_text X a lo hi = Inr spec"
  shows "spec_ok X spec"
proof -
  have t: "unicode_table (sw_categories X)" using X by (simp add: world_ok_def)
  obtain ivs where ivs: "build_intervals (sw_categories X) a = Inr ivs" "spec = SpecText ivs lo hi" "lo \<le> hi"
    "iv_size ivs \<noteq> 0 \<or> hi = 0"
    using made by (auto simp: spec_text_def refuse_def split: if_splits)
  have wf: "iv_wf ivs" "printable ivs" using build_intervals_spec [OF t a] ivs(1) by (auto split: if_splits)
  then have "intervals ivs \<noteq> [] \<or> hi = 0" using ivs(4) by (auto simp: iv_wf_def tables_ok_def)
  then show ?thesis using ivs wf by (simp add: spec_ok_def)
qed

lemma spec_regex_ok:
  assumes pat: "list_all valid_cp pattern" and alphabet: "pred_option (spec_ok X) alphabet"
    and made: "spec_regex X pattern fullmatch alphabet = Some (Inr spec)"
  shows "spec_ok X spec"
proof -
  obtain ivs z where r: "compile_regex (sw_alphabetic X) pattern = Some z"
    "map_sum id (\<lambda>p. SpecRegex p ivs fullmatch) z = Inr spec" "alphabet_ok ivs"
    using made alphabet
    by (cases alphabet) (auto simp: spec_regex_def alphabet_ok_def spec_ok_def split: string_spec.splits sum.splits)
  then obtain p where "z = Inr p" "spec = SpecRegex p ivs fullmatch" by (cases z) auto
  then show ?thesis using compiled_ok [OF pat] r by (simp add: spec_ok_def)
qed

lemma spec_domain_ok: "spec_domain X n = Inr spec \<Longrightarrow> spec_ok X spec"
  by (cases "domain_spec_new (sw_tlds X) n") (auto simp: spec_domain_def spec_ok_def domain_spec_new_eligible(1))

text \<open>The specifications that the constructors build.\<close>

inductive built :: "'r string_world \<Rightarrow> string_spec \<Rightarrow> bool" for X where
  from_text: "scalar_strings a \<Longrightarrow> spec_text X a lo hi = Inr spec \<Longrightarrow> built X spec"
| from_regex: "list_all valid_cp pattern \<Longrightarrow> spec_regex X pattern fullmatch None = Some (Inr spec) \<Longrightarrow> built X spec"
| from_regex_over: "built X alphabet \<Longrightarrow> list_all valid_cp pattern
     \<Longrightarrow> spec_regex X pattern fullmatch (Some alphabet) = Some (Inr spec) \<Longrightarrow> built X spec"
| from_email: "built X spec_email"
| from_url: "built X spec_url"
| from_domain: "spec_domain X n = Inr spec \<Longrightarrow> built X spec"

lemma built_ok: "built X spec \<Longrightarrow> world_ok X \<Longrightarrow> spec_ok X spec"
proof (induction rule: built.induct)
  case (from_regex_over alphabet pattern fullmatch spec)
  then show ?case by (intro spec_regex_ok [OF from_regex_over.hyps(2) _ from_regex_over.hyps(3)]) simp
qed (simp_all add: spec_text_ok spec_regex_ok [where alphabet = None] spec_domain_ok spec_email_def spec_url_def,
     simp_all add: spec_ok_def)

section \<open>Every generator keeps its promise\<close>

lemma draws_local:
  assumes m: "draws lc (\<lambda>x t. Q x) m (h, snd s)"
  shows "draws lc (\<lambda>x t. Q x) (with_local h m) s"
  using m
proof (cases rule: drawing.endsE)
  case (failed e t)
  then show ?thesis by (intro drawing.endsI [of _ _ "Inl e"]) (auto simp: with_local_def)
next
  case (got x t)
  then show ?thesis
    by (intro drawing.endsI [of _ _ "Inr x" "(fst s, snd t)"]) (auto simp: with_local_def drawing_step_def)
qed

lemma draws_generate_string:
  assumes X: "world_ok X" and spec: "spec_ok X spec" "spec_fits spec" and s: "drawing_good (sw_ceil X) s"
  shows "draws (sw_ceil X) (\<lambda>x t. in_language X spec x) (generate_string X spec) s"
proof -
  have S: "sampling_sound (sw_sampling X)" "integers_total (sw_sampling X)" "strings_total (sw_sampling X)"
    and tlds: "length (sw_tlds X) < 2 ^ 64" and u: "mappings_ok (sw_tables X)"
    using X by (simp_all add: world_ok_def)
  show ?thesis
  proof (cases spec)
    case (SpecText ivs lo hi)
    then have ivs: "iv_wf ivs" "printable ivs" "lo \<le> hi" "hi < 2 ^ 32" "intervals ivs \<noteq> [] \<or> hi = 0"
      using spec by (simp_all add: spec_ok_def spec_fits_def)
    note g = good_draw_string [OF S(1,3) ivs]
    show ?thesis
      unfolding generate_string_def in_language_def SpecText string_spec.case
      by (rule draws_spanned [OF _ s], rule drawing.ends_weaken [OF draws_on_case [OF g spends_draw_string]]) simp_all
  next
    case (SpecRegex p alphabet fullmatch)
    then have p: "pattern_ok (pp_pattern p)" "size_list size (pp_pattern p) < 2 ^ 63" "alphabet_ok alphabet"
      using spec by (simp_all add: spec_ok_def spec_fits_def)
    have R: "env_ok (string_env X alphabet)" using S u p(3) by (simp add: env_ok_def string_env_def)
    have lang: "list_all (alphabet_allows alphabet) = allowed (string_env X alphabet)"
      by (simp add: allowed_def [abs_def] string_env_def)
    show ?thesis
      unfolding generate_string_def in_language_def SpecRegex string_spec.case lang
      by (rule draws_spanned [OF draws_local s])
         (use draws_generate_regex [OF R p(1,2)] in \<open>simp add: string_env_def drawing_good_def\<close>)
  next
    case SpecEmail
    show ?thesis
      unfolding generate_string_def in_language_def SpecEmail string_spec.case
      by (rule draws_spanned [OF draws_generate_email [OF S _ tlds] s])
  next
    case SpecUrl
    show ?thesis
      unfolding generate_string_def in_language_def SpecUrl string_spec.case
      by (rule draws_spanned [OF draws_generate_url [OF S _ tlds] s])
  next
    case (SpecDomain d)
    then have d: "domain_spec_new (sw_tlds X) (ds_max_length d) = Inr d" using spec by (simp add: spec_ok_def)
    show ?thesis
      unfolding generate_string_def in_language_def SpecDomain string_spec.case
      by (rule draws_spanned [OF draws_generate_domain [OF S(1,2) _ d tlds] s])
  qed
qed


definition sample_string_world :: "nat string_world" where
  "sample_string_world =
     \<lparr>sw_ceil = (\<lambda>v. v), sw_sampling = sample_sampling, sw_tables = re_tables sample_env,
      sw_categories = sample_table, sw_alphabetic = \<lparr>is_alphabetic = (\<lambda>_. False), is_alphanumeric = (\<lambda>_. False)\<rparr>,
      sw_tlds = [codes ''NET'']\<rparr>"


end
