(* ===== verification/DataSource.thy ===== *)
theory DataSource
  imports StringSpecs Calendar StateMachine Streams
begin

text \<open>
  \<open>hegel-c/src/native/data_source.rs\<close>: the operations a test body calls on a stream. A source wraps
  the handle of one stream and an abort latch; the streams of a test case live in the store of
  \<open>Streams\<close>. An operation holds the stream's lock for its whole run, so it is one step here; what
  the caller passes by mutable reference (a collection, a recursion, a machine, a pool) is the
  first component of its state. Texts of diagnostics are without their interpolated values.
\<close>

section \<open>Sources\<close>

datatype ds_error =
    StopTest
  | AssumeFailed
  | DsInvalidArgument string
  | DsInternal internal_error

text \<open>The store and the sources whose latch is set.\<close>

record 'r session =
  se_store :: "'r store"
  se_aborted :: "handle set"

type_synonym ('x, 'r, 'a) request = "('x \<times> 'r session, ds_error, 'a) proc"

definition source_new :: "'r test_case \<Rightarrow> 'r session" where
  "source_new root = \<lparr>se_store = store_of root, se_aborted = {}\<rparr>"

definition aborted_error :: "'r session \<Rightarrow> ds_error" where
  "aborted_error ss =
     (case family_status (st_family (se_store ss)) of Some Invalid \<Rightarrow> AssumeFailed | _ \<Rightarrow> StopTest)"

definition abort_source :: "handle \<Rightarrow> 'r session \<Rightarrow> 'r session" where
  "abort_source h ss = ss\<lparr>se_aborted := insert h (se_aborted ss)\<rparr>"

text \<open>The error the caller sees, and whether it sets the latch.\<close>

definition source_error :: "engine_error \<Rightarrow> ds_error \<times> bool" where
  "source_error e =
     (case e of
        Overrun \<Rightarrow> (StopTest, True)
      | InvalidTestCase \<Rightarrow> (AssumeFailed, True)
      | AssumeViolation \<Rightarrow> (AssumeFailed, False)
      | InvalidArgument msg \<Rightarrow> (DsInvalidArgument msg, False)
      | EngineInternal e \<Rightarrow> (DsInternal e, False))"

definition with_ntc :: "handle \<Rightarrow> ('x, 'r, 'a) drawing \<Rightarrow> ('x, 'r, 'a) request" where
  "with_ntc h f = (\<lambda>(x, ss).
     if h \<in> se_aborted ss then Some (Inl (aborted_error ss), (x, ss))
     else case st_streams (se_store ss) h of
            None \<Rightarrow> None
          | Some tc \<Rightarrow>
              (case f (x, locked (se_store ss) tc) of
                 None \<Rightarrow> None
               | Some (r, (x, tc)) \<Rightarrow>
                   let ss = ss\<lparr>se_store := unlock h tc (se_store ss)\<rparr>
                   in case r of
                        Inr a \<Rightarrow> Some (Inr a, (x, ss))
                      | Inl e \<Rightarrow> Some (Inl (fst (source_error e)),
                                     (x, if snd (source_error e) then abort_source h ss else ss))))"

text \<open>An operation of the engine on the caller's value and the stream.\<close>

abbreviation draw_with :: "('x \<times> 'r test_case, engine_error, 'a) effect \<Rightarrow> ('x, 'r, 'a) drawing" where
  "draw_with \<equiv> pcall"

section \<open>Draws\<close>

definition ds_generate_integer :: "'r string_world \<Rightarrow> handle \<Rightarrow> int \<Rightarrow> int \<Rightarrow> ('x, 'r, int) request" where
  "ds_generate_integer X h lo hi = with_ntc h (on_case (generate_integer (sw_ceil X) (sw_sampling X) lo hi))"

definition ds_generate_float :: "'r string_world \<Rightarrow> handle \<Rightarrow> float_spec \<Rightarrow> ('x, 'r, f64) request" where
  "ds_generate_float X h spec = with_ntc h (on_case (generate_float (sw_ceil X) (sw_sampling X) spec))"

definition ds_generate_string :: "'r string_world \<Rightarrow> handle \<Rightarrow> string_spec \<Rightarrow> ('x, 'r, codepoint list) request" where
  "ds_generate_string X h spec = with_ntc h (generate_string X spec)"

definition ds_generate_date :: "'r string_world \<Rightarrow> handle \<Rightarrow> date \<Rightarrow> date \<Rightarrow> ('x, 'r, date) request" where
  "ds_generate_date X h lo hi = with_ntc h (on_case (generate_date (sw_ceil X) (sw_sampling X) lo hi))"

definition ds_generate_time :: "'r string_world \<Rightarrow> handle \<Rightarrow> time \<Rightarrow> time \<Rightarrow> ('x, 'r, time) request" where
  "ds_generate_time X h lo hi = with_ntc h (on_case (generate_time (sw_ceil X) (sw_sampling X) lo hi))"

definition ds_generate_datetime ::
  "'r string_world \<Rightarrow> handle \<Rightarrow> datetime \<Rightarrow> datetime \<Rightarrow> ('x, 'r, datetime) request" where
  "ds_generate_datetime X h lo hi = with_ntc h (on_case (generate_datetime (sw_ceil X) (sw_sampling X) lo hi))"

definition ds_generate_uuid :: "'r string_world \<Rightarrow> handle \<Rightarrow> nat option \<Rightarrow> ('x, 'r, u8 list) request" where
  "ds_generate_uuid X h version = with_ntc h (on_case (generate_uuid (sw_ceil X) (sw_sampling X) version))"

definition ds_generate_ipv4 :: "'r string_world \<Rightarrow> handle \<Rightarrow> ('x, 'r, u32) request" where
  "ds_generate_ipv4 X h = with_ntc h (on_case (generate_ipv4 (sw_ceil X) (sw_sampling X)))"

definition ds_generate_ipv6 :: "'r string_world \<Rightarrow> handle \<Rightarrow> ('x, 'r, u128) request" where
  "ds_generate_ipv6 X h = with_ntc h (on_case (generate_ipv6 (sw_ceil X) (sw_sampling X)))"

definition ds_generate_bytes :: "'r string_world \<Rightarrow> handle \<Rightarrow> nat \<Rightarrow> nat \<Rightarrow> ('x, 'r, u8 list) request" where
  "ds_generate_bytes X h lo hi = with_ntc h (on_case (generate_bytes (sw_ceil X) (sw_sampling X) lo hi))"

definition ds_generate_boolean :: "'r string_world \<Rightarrow> handle \<Rightarrow> f64 \<Rightarrow> bool option \<Rightarrow> ('x, 'r, bool) request" where
  "ds_generate_boolean X h p forced = with_ntc h (on_case (generate_boolean (sw_ceil X) (sw_sampling X) p forced))"

definition ds_start_span :: "handle \<Rightarrow> u64 \<Rightarrow> ('x, 'r, unit) request" where
  "ds_start_span h label = with_ntc h (on_case (modify (\<lambda>tc. snd (start_span label tc))))"

definition ds_stop_span :: "handle \<Rightarrow> bool \<Rightarrow> ('x, 'r, unit) request" where
  "ds_stop_span h discard = with_ntc h (on_case (modify (stop_span discard)))"

definition ds_clone_stream :: "'r string_world \<Rightarrow> handle \<Rightarrow> ('x, 'r, handle) request" where
  "ds_clone_stream X h =
     pbind (with_ntc h (on_case (clone_child (sw_sampling X)))) (\<lambda>child (x, ss).
       Some (Inr (tc_clone_id child),
         (x, ss\<lparr>se_store := (se_store ss)\<lparr>st_streams :=
                (st_streams (se_store ss))(tc_clone_id child \<mapsto> child)\<rparr>\<rparr>)))"

section \<open>Collections, recursion, state machines\<close>

text \<open>A \<open>u64\<close> is a \<open>usize\<close> on the 64-bit targets.\<close>

definition ds_new_collection :: "handle \<Rightarrow> nat \<Rightarrow> nat option \<Rightarrow> ('x, 'r, many_state) request" where
  "ds_new_collection h min_size max_size = with_ntc h (pret (many_new min_size max_size))"

definition ds_collection_more :: "'r string_world \<Rightarrow> handle \<Rightarrow> (many_state, 'r, bool) request" where
  "ds_collection_more X h = with_ntc h (draw_with (many_more (sw_ceil X) (sw_sampling X)))"

definition ds_collection_reject :: "handle \<Rightarrow> (many_state, 'r, unit) request" where
  "ds_collection_reject h = with_ntc h (draw_with many_reject)"

definition ds_new_recursion :: "'r string_world \<Rightarrow> handle \<Rightarrow> nat \<Rightarrow> nat \<Rightarrow> ('x, 'r, recursion_state) request" where
  "ds_new_recursion X h max_depth max_leaves =
     with_ntc h (on_case (new_recursion_state (sw_ceil X) (sw_sampling X) max_depth max_leaves))"

definition ds_recursion_branch :: "'r string_world \<Rightarrow> handle \<Rightarrow> nat \<Rightarrow> (recursion_state, 'r, bool) request" where
  "ds_recursion_branch X h depth = with_ntc h (draw_with (recursion_branch (sw_ceil X) (sw_sampling X) depth))"

definition ds_recursion_leaf :: "handle \<Rightarrow> (recursion_state, 'r, bool) request" where
  "ds_recursion_leaf h = with_ntc h (\<lambda>(r, tc). case count_leaf r of (b, r) \<Rightarrow> Some (Inr b, (r, tc)))"

definition ds_recursion_retry :: "handle \<Rightarrow> (recursion_state, 'r, unit) request" where
  "ds_recursion_retry h = with_ntc h (draw_with recursion_retry)"

definition ds_recursion_finish :: "handle \<Rightarrow> (recursion_state, 'r, bool) request" where
  "ds_recursion_finish h = with_ntc h (draw_with recursion_finish)"

text \<open>The names only matter by their number.\<close>

definition machine_request_error :: "nat \<Rightarrow> int list \<Rightarrow> nat \<Rightarrow> bool list \<Rightarrow> int \<Rightarrow> int \<Rightarrow> string option" where
  "machine_request_error rules rule_groups invariants always_check min_concurrency max_concurrency =
     (if rules = 0 then Some ''cannot run a state machine with no rules''
      else if length rule_groups \<noteq> rules then Some ''rule_groups must be parallel to rule_names''
      else if length always_check \<noteq> invariants then Some ''invariant_always_check must be parallel to invariant_names''
      else if min_concurrency < 1 \<or> max_concurrency < min_concurrency
      then Some ''state machine concurrency bounds must satisfy 1 <= min <= max''
      else None)"

definition concurrent_machine :: "int \<Rightarrow> ('r, unit) draw" where
  "concurrent_machine max_concurrency =
     (if 1 < max_concurrency
      then ebind (modify (\<lambda>tc. tc\<lparr>tc_family := set_concurrent_machine (tc_family tc)\<rparr>)) (\<lambda>_.
           ebind get_state (\<lambda>tc.
           if fc_reject_concurrent_machine (tc_family tc) then throw AssumeViolation else ret ()))
      else ret ())"

definition ds_new_state_machine ::
  "'r string_world \<Rightarrow> handle \<Rightarrow> nat \<Rightarrow> int list \<Rightarrow> nat \<Rightarrow> bool list \<Rightarrow> int \<Rightarrow> int \<Rightarrow> ('x, 'r, state_machine) request" where
  "ds_new_state_machine X h rules rule_groups invariants always_check min_concurrency max_concurrency =
     (case machine_request_error rules rule_groups invariants always_check min_concurrency max_concurrency of
        Some msg \<Rightarrow> pthrow (DsInvalidArgument msg)
      | None \<Rightarrow>
          with_ntc h (on_case (ebind (concurrent_machine max_concurrency) (\<lambda>_.
            machine_new (sw_ceil X) (sw_sampling X) rule_groups always_check min_concurrency max_concurrency))))"

definition ds_next_group :: "'r string_world \<Rightarrow> handle \<Rightarrow> (state_machine, 'r, int option) request" where
  "ds_next_group X h = with_ntc h (draw_with (next_group (sw_ceil X) (sw_sampling X)))"

definition ds_next_rule :: "'r string_world \<Rightarrow> handle \<Rightarrow> int \<Rightarrow> (state_machine, 'r, int option) request" where
  "ds_next_rule X h worker = with_ntc h (draw_with (next_rule (sw_ceil X) (sw_sampling X) worker))"

definition ds_rule_rejected :: "handle \<Rightarrow> int \<Rightarrow> (state_machine, 'r, unit) request" where
  "ds_rule_rejected h worker =
     with_ntc h (\<lambda>(sm, tc). case rule_rejected worker sm of (r, sm) \<Rightarrow> Some (r, (sm, tc)))"

definition ds_should_check_invariant :: "'r string_world \<Rightarrow> handle \<Rightarrow> int \<Rightarrow> (state_machine, 'r, bool) request" where
  "ds_should_check_invariant X h i = with_ntc h (draw_with (should_check_invariant (sw_ceil X) (sw_sampling X) i))"

section \<open>Pools\<close>

definition ds_new_pool :: "handle \<Rightarrow> ('x, 'r, native_variables) request" where
  "ds_new_pool h = with_ntc h (pret variables_new)"

definition ds_pool_add :: "'r string_world \<Rightarrow> handle \<Rightarrow> (native_variables, 'r, int) request" where
  "ds_pool_add X h =
     with_ntc h (pbind (on_case (fresh_id (sw_ceil X))) (\<lambda>i.
       pbind (set_own (variables_add i)) (\<lambda>_. pret i)))"

definition ds_pool_generate :: "'r string_world \<Rightarrow> handle \<Rightarrow> bool \<Rightarrow> (native_variables, 'r, int) request" where
  "ds_pool_generate X h take_it =
     with_ntc h (pbind get_own (\<lambda>pool.
       if variables_active pool = [] then pthrow AssumeViolation
       else pbind (on_case (choose_from (sw_ceil X) (sw_sampling X) (variables_active pool))) (\<lambda>i.
            pbind (if take_it then set_own (variables_consume i) else pret ()) (\<lambda>_. pret i))))"

section \<open>Observations and outcome\<close>

definition on_family :: "(family \<Rightarrow> (ds_error + 'a) \<times> family) \<Rightarrow> ('x, 'r, 'a) request" where
  "on_family f = (\<lambda>(x, ss).
     case f (st_family (se_store ss)) of
       (r, fam) \<Rightarrow> Some (r, (x, ss\<lparr>se_store := (se_store ss)\<lparr>st_family := fam\<rparr>\<rparr>)))"

definition ds_target_observation :: "f64 \<Rightarrow> string \<Rightarrow> ('x, 'r, unit) request" where
  "ds_target_observation score label =
     (if \<not> is_finite score then pthrow (DsInvalidArgument ''tc.target requires a finite score'')
      else on_family (\<lambda>fam.
        if fc_target_observations fam label \<noteq> None
        then (Inl (DsInvalidArgument ''tc.target would overwrite a previous observation''), fam)
        else (Inr (), fam\<lparr>fc_target_observations := (fc_target_observations fam)(label \<mapsto> score)\<rparr>)))"

definition ds_event_observation :: "string \<Rightarrow> f64 option \<Rightarrow> ('x, 'r, unit) request" where
  "ds_event_observation label v =
     (if (case v of Some v \<Rightarrow> \<not> is_finite v | None \<Rightarrow> False)
      then pthrow (DsInvalidArgument ''tc.event_value requires a finite value'')
      else on_family (\<lambda>fam. (Inr (), fam\<lparr>fc_events := fc_events fam @ [(label, v)]\<rparr>)))"

datatype test_case_result = ResultValid | ResultInvalid | ResultOverrun | ResultInteresting origin

definition result_status :: "test_case_result \<Rightarrow> status \<times> origin option" where
  "result_status r =
     (case r of
        ResultValid \<Rightarrow> (Valid, None) | ResultInvalid \<Rightarrow> (Invalid, None) | ResultOverrun \<Rightarrow> (EarlyStop, None)
      | ResultInteresting o' \<Rightarrow> (Interesting, Some o'))"

definition ds_mark_complete :: "test_case_result \<Rightarrow> ('x, 'r, unit) request" where
  "ds_mark_complete result =
     on_family (\<lambda>fam. (Inr (), family_conclude (fst (result_status result)) (snd (result_status result)) fam))"

text \<open>\<open>None\<close> is the usage error of a test case that was never marked complete.\<close>

definition take_outcome :: "'r session \<Rightarrow> test_case_result option" where
  "take_outcome ss =
     map_option (\<lambda>(status, og).
       case status of
         Valid \<Rightarrow> ResultValid | Invalid \<Rightarrow> ResultInvalid | EarlyStop \<Rightarrow> ResultOverrun
       | Interesting \<Rightarrow> ResultInteresting (case og of Some og \<Rightarrow> og | None \<Rightarrow> []))
       (fc_conclusion (st_family (se_store ss)))"

definition take_nodes :: "nat \<Rightarrow> handle \<Rightarrow> ('r store, internal_error, choice_node list) proc" where
  "take_nodes fuel h =
     pbind (reassemble fuel h) (\<lambda>_ st. map_option (\<lambda>tc. (Inr (tc_nodes tc), st)) (st_streams st h))"

definition take_spans :: "handle \<Rightarrow> 'r session \<Rightarrow> spans option" where
  "take_spans h ss = map_option tc_spans (st_streams (se_store ss) h)"

definition take_target_observations :: "'r session \<Rightarrow> string \<rightharpoonup> f64" where
  "take_target_observations ss = fc_target_observations (st_family (se_store ss))"

definition take_events :: "'r session \<Rightarrow> (string \<times> f64 option) list" where
  "take_events ss = fc_events (st_family (se_store ss))"

definition ds_is_nondeterministic :: "handle \<Rightarrow> 'r session \<Rightarrow> bool option" where
  "ds_is_nondeterministic h ss = map_option tc_nondeterministic (st_streams (se_store ss) h)"

end
