(* ===== verification/Verdicts.thy ===== *)
theory Verdicts
  imports DataSource StreamFacts
begin

text \<open>
  Every engine operation settles the test case: it never changes a verdict, and it fails with an
  overrun or a rejection only when the family has one. Stated over a projection from the state of
  an operation to the family, so that draws, operations on a caller's value beside a stream and
  procedures that loop share the rules.
\<close>

section \<open>Operations that settle\<close>

definition later :: "family \<Rightarrow> family \<Rightarrow> bool" where
  "later f g \<longleftrightarrow> (mirrored f \<longrightarrow> mirrored g \<and> (family_status f \<noteq> None \<longrightarrow> family_status g = family_status f))"

definition terminal :: "engine_error \<Rightarrow> bool" where
  "terminal e \<longleftrightarrow> e = Overrun \<or> e = InvalidTestCase"

definition settled :: "family \<Rightarrow> engine_error + 'a \<Rightarrow> family \<Rightarrow> bool" where
  "settled f r g \<longleftrightarrow> later f g \<and> (mirrored f \<longrightarrow> (\<forall>e. r = Inl e \<longrightarrow> terminal e \<longrightarrow> family_status g \<noteq> None))"

definition settles :: "('s \<Rightarrow> family) \<Rightarrow> ('s, engine_error, 'a) effect \<Rightarrow> bool" where
  "settles p m \<longleftrightarrow> (\<forall>s r t. m s = (r, t) \<longrightarrow> settled (p s) r (p t))"

definition psettles :: "('s \<Rightarrow> family) \<Rightarrow> ('s, engine_error, 'a) proc \<Rightarrow> bool" where
  "psettles p m \<longleftrightarrow> (\<forall>s r t. m s = Some (r, t) \<longrightarrow> settled (p s) r (p t))"

named_theorems settling \<open>operations that settle\<close>

lemma terminal_simps [simp]:
  "terminal Overrun" "terminal InvalidTestCase" "\<not> terminal AssumeViolation" "\<not> terminal (InvalidArgument msg)"
  "\<not> terminal (EngineInternal x)"
  by (simp_all add: terminal_def)

lemma later_refl [simp]: "later f f"
  by (simp add: later_def)

lemma later_trans: "later f g \<Longrightarrow> later g h \<Longrightarrow> later f h"
  by (auto simp: later_def)

lemma later_conclude: "later f (family_conclude s og f)"
  by (auto simp: later_def mirrored_conclude status_conclude)

lemma status_concluded [simp]: "mirrored f \<Longrightarrow> \<exists>s'. family_status (family_conclude s og f) = Some s'"
  using concluded_status by blast

lemma later_quiet: "family_quiet f g \<Longrightarrow> later f g"
  using family_quiet_fields(6) family_quiet_status by (auto simp: later_def)

lemma settled_value [simp]: "settled f (Inr x) g = later f g"
  by (simp add: settled_def)

lemma settled_error: "later f g \<Longrightarrow> (mirrored f \<Longrightarrow> terminal e \<Longrightarrow> family_status g \<noteq> None) \<Longrightarrow> settled f (Inl e) g"
  by (simp add: settled_def)

lemma settled_later: "settled f r g \<Longrightarrow> later f g"
  by (simp add: settled_def)

lemma settled_trans: "later f g \<Longrightarrow> settled g r h \<Longrightarrow> settled f r h"
  by (auto simp: settled_def later_def)

lemma settled_after: "settled f r g \<Longrightarrow> later g h \<Longrightarrow> settled f r h"
  by (auto simp: settled_def later_def)

lemma settlesI: "(\<And>s r t. m s = (r, t) \<Longrightarrow> settled (p s) r (p t)) \<Longrightarrow> settles p m"
  by (simp add: settles_def)

lemma settlesD: "settles p m \<Longrightarrow> m s = (r, t) \<Longrightarrow> settled (p s) r (p t)"
  by (simp add: settles_def)

lemma psettlesI: "(\<And>s r t. m s = Some (r, t) \<Longrightarrow> settled (p s) r (p t)) \<Longrightarrow> psettles p m"
  by (simp add: psettles_def)

lemma psettlesD: "psettles p m \<Longrightarrow> m s = Some (r, t) \<Longrightarrow> settled (p s) r (p t)"
  by (simp add: psettles_def)

section \<open>Rules for effects\<close>

lemma settles_ret [settling]: "settles p (ret x)"
  by (rule settlesI) auto

lemma settles_throw [settling]: "\<not> terminal e \<Longrightarrow> settles p (throw e)"
  by (rule settlesI) (auto simp: throw_def intro: settled_error)

lemma settles_bind [settling]:
  assumes "settles p m" "\<And>x. settles p (f x)"
  shows "settles p (ebind m f)"
proof (rule settlesI)
  fix s r t assume run: "ebind m f s = (r, t)"
  obtain r1 u where m: "m s = (r1, u)" by fastforce
  note s = settlesD [OF assms(1) m]
  show "settled (p s) r (p t)"
  proof (cases r1)
    case (Inl e)
    then show ?thesis using run m s by (auto simp: ebind_def settled_def)
  next
    case (Inr x)
    then have "f x u = (r, t)" using run m by (simp add: ebind_def)
    then show ?thesis using settlesD [OF assms(2)] settled_trans [OF settled_later [OF s]] by blast
  qed
qed

lemma settles_state [settling]: "(\<And>s. settles p (f s)) \<Longrightarrow> settles p (ebind get_state f)"
  by (simp add: settles_def ebind_def)

lemma settles_modify [settling]: "(\<And>s. later (p s) (p (f s))) \<Longrightarrow> settles p (modify f)"
  by (rule settlesI) auto

lemma settles_lift [settling]: "settles p (lift_result EngineInternal v)"
  by (rule settlesI) (auto simp: lift_result_def intro: settled_error split: sum.splits)

lemma settles_reject [settling]:
  assumes "\<And>s. later (p s) (p (f s))" "\<And>s. mirrored (p s) \<Longrightarrow> family_status (p (f s)) \<noteq> None"
  shows "settles p (ebind (modify f) (\<lambda>_. throw e))"
proof (rule settlesI)
  fix s r t assume "ebind (modify f) (\<lambda>_. throw e) s = (r, t)"
  then have "r = Inl e" "t = f s" by (auto simp: ebind_def throw_def)
  then show "settled (p s) r (p t)" using assms by (auto intro: settled_error)
qed

lemma settles_index [settling]: "settles p (index_at xs i)"
  unfolding index_at_def by (auto intro: settling)

lemma settles_unwrapped [settling]: "settles p (unwrapped conv v)"
  unfolding unwrapped_def by (rule settling)

lemma settles_invalid [settling]: "settles p (invalid bad msg)"
  unfolding invalid_def by (auto intro: settling)

lemma settles_with_case [settling]: "settles tc_family m \<Longrightarrow> settles (\<lambda>s. tc_family (snd s)) (with_case m)"
  by (rule settlesI) (auto simp: with_case_def dest: settlesD split: prod.splits)

section \<open>Choices\<close>

lemma settles_pre_choice [settling]: "settles tc_family pre_choice"
proof (rule settlesI)
  fix tc :: "'a test_case" and r t
  assume "pre_choice tc = (r, t)"
  then show "settled (tc_family tc) r (tc_family t)"
    by (auto simp: pre_choice_def try_take_draw_def tc_status_def Let_def concluded_status later_def mirrored_conclude
        status_conclude intro!: settled_error split: option.splits prod.splits if_splits)
qed

lemma settles_from_rng [settling]: "settles tc_family (from_rng random)"
proof (rule settlesI)
  fix tc r t assume m: "from_rng random tc = (r, t)"
  show "settled (tc_family tc) r (tc_family t)"
  proof (cases "tc_rng tc")
    case None
    then show ?thesis using m by (auto simp: from_rng_def intro: settled_error)
  next
    case (Some rng)
    obtain v rng' where "random rng = (v, rng')" by fastforce
    then have "internally v (tc\<lparr>tc_rng := Some rng'\<rparr>) = (r, t)" using m Some by (simp add: from_rng_def)
    from settlesD [OF settles_lift, where p = tc_family, OF this] show ?thesis by simp
  qed
qed

lemma settles_from_template [settling]: "settles tc_family (from_template tpl v)"
  unfolding from_template_def
  by (auto intro!: settling simp: later_conclude concluded_status)

lemma settles_resolve [settling]: "settles tc_family (resolve_choice lc s u from_prefix random)"
  unfolding resolve_choice_def Let_def
  by (auto intro!: settling split: option.split)

lemma settles_record [settling]: "settles tc_family (record_choice n ob)"
  unfolding record_choice_def by (rule settling) (simp add: push_node_def notify_def)

lemma later_ids [simp]: "later f (f\<lparr>fc_fresh_ids := ids\<rparr>)"
  by (simp add: later_def)

lemma later_start_span: "later (tc_family tc) (tc_family (snd (start_span label tc)))"
proof -
  obtain i t where m: "start_span label tc = (i, t)" by fastforce
  show ?thesis using start_span_fields(6) [OF m] later_conclude later_trans later_refl by (metis m snd_conv)
qed

lemma later_freeze: "later (tc_family tc) (tc_family (freeze tc))"
  by (simp add: later_conclude)

lemma settles_spanned [settling]:
  assumes "settles tc_family m"
  shows "settles tc_family (spanned label m)"
proof (rule settlesI)
  fix tc r t assume run: "spanned label m tc = (r, t)"
  obtain i u where u: "start_span label tc = (i, u)" by fastforce
  obtain r1 v where v: "m u = (r1, v)" by fastforce
  have "r = r1" "t = stop_span False v" using run u v by (auto simp: spanned_def)
  moreover have "later (tc_family tc) (tc_family u)" using later_start_span [of tc label] u by simp
  ultimately show "settled (tc_family tc) r (tc_family t)"
    using settled_trans [OF _ settlesD [OF assms v]] by simp
qed

lemma settles_draws [settling]:
  "settles tc_family (draw_integer lc S fits lo hi)"
  "settles tc_family (draw_integer_uniform lc S a b)"
  "settles tc_family (draw_integer_forced lo hi v)"
  "settles tc_family (draw_fresh_id lc)"
  "settles tc_family (draw_from_set lc S ids)"
  "settles tc_family (draw_float lc S kind)"
  "settles tc_family (draw_bytes lc S a b)"
  "settles tc_family (draw_string lc S ivs a b)"
  unfolding draw_integer_def draw_integer_from_def draw_integer_uniform_def draw_integer_forced_def draw_fresh_id_def
    draw_from_set_def draw_float_def draw_bytes_def draw_string_def Let_def
  by (intro settling; simp add: register_id_def push_node_def notify_def)+

lemma settles_weighted_with [settling]: "settles tc_family (weighted_with lc p forced sample)"
  unfolding weighted_with_def Let_def by (auto intro!: settling split: option.split)

lemma settles_weighted [settling]:
  "settles tc_family (weighted lc S p forced)" "settles tc_family (weighted_precise lc S p forced)"
  unfolding weighted_def weighted_precise_def by (rule settling)+

lemma settles_clone_child [settling]: "settles tc_family (clone_child S)"
  unfolding clone_child_def Let_def
  by (auto intro!: settling later_trans [OF later_conclude later_conclude]
      simp: later_conclude concluded_status mirrored_conclude split: prod.split)

section \<open>The operations of the drawing layer\<close>

lemma settles_scalars [settling]:
  "settles tc_family (generate_integer lc S lo hi)"
  "settles tc_family (generate_float lc S spec)"
  "settles tc_family (generate_bytes lc S a b)"
  "settles tc_family (generate_boolean lc S q forced)"
  "settles tc_family (fresh_id lc)"
  "settles tc_family (choose_from lc S ids)"
  unfolding generate_integer_def generate_float_def generate_bytes_def generate_boolean_def fresh_id_def choose_from_def
    validate_float_spec_def Let_def prod.case_distrib [of "settles tc_family"]
  by (auto intro!: settling split: prod.split)

lemma settles_times [settling]:
  "settles tc_family (generate_date lc S d d')"
  "settles tc_family (generate_time lc S t t')"
  "settles tc_family (generate_datetime lc S x y)"
  unfolding generate_date_def generate_time_def generate_datetime_def validate_date_def validate_time_def
    draw_datetime_in_def draw_date_in_def draw_time_in_def draw_i64_def Let_def
  by (intro settling)+

lemma settles_addresses [settling]:
  "settles tc_family (generate_uuid lc S version)"
  "settles tc_family (generate_ipv4 lc S)"
  "settles tc_family (generate_ipv6 lc S)"
  unfolding generate_uuid_def generate_ipv4_def generate_ipv6_def draw_ipv4_def draw_ipv6_def draw_i64_def draw_u64_def
    checked_add_word_def Let_def
  by (auto intro!: settling)

lemma close_spans_to_family [simp]: "tc_family (close_spans_to depth tc) = tc_family tc"
  by (induction depth tc rule: close_spans_to.induct) (subst close_spans_to.simps, simp)

lemma settles_collections [settling]:
  "settles (\<lambda>s. tc_family (snd s)) (many_more lc S)"
  "settles (\<lambda>s. tc_family (snd s)) many_reject"
  unfolding many_more_def many_reject_def Let_def
  by (auto intro!: settling simp: later_conclude)

lemma settles_recursion [settling]:
  "settles tc_family (new_recursion_state lc S max_depth max_leaves)"
  "settles (\<lambda>s. tc_family (snd s)) (recursion_branch lc S depth)"
  "settles (\<lambda>s. tc_family (snd s)) recursion_retry"
  "settles (\<lambda>s. tc_family (snd s)) recursion_finish"
  unfolding new_recursion_state_def recursion_branch_def recursion_retry_def recursion_finish_def Let_def
  by (auto intro!: settling simp: later_conclude split: prod.split)

section \<open>State machines\<close>

lemma settles_index_draws [settling]:
  "settles tc_family (draw_index lc S n)" "settles tc_family (draw_concurrency lc S a b)"
  "settles tc_family (flags_new lc S groups n)"
  unfolding draw_index_def draw_concurrency_def flags_new_def unwrap_i128_def
  by (auto intro!: settling)

lemma settles_workers [settling]: "settles tc_family (new_workers lc S groups num n)"
  by (induction n) (simp_all only: new_workers.simps, (intro settling | assumption)+)

lemma settles_machine_new [settling]: "settles tc_family (machine_new lc S groups always a b)"
  unfolding machine_new_def by (auto intro!: settling split: prod.split)

lemma settles_is_enabled [settling]: "settles (\<lambda>s. tc_family (snd s)) (is_enabled lc S grp i)"
  unfolding is_enabled_def Let_def
  by (auto intro!: settling simp: later_start_span)

lemma settles_select_tries [settling]: "settles (\<lambda>s. tc_family (snd s)) (select_tries lc S grp ms n bad)"
  by (induction n arbitrary: bad) (auto intro!: settling)

lemma settles_select_allowed [settling]:
  "settles (\<lambda>s. tc_family (snd s)) (select_allowed lc S grp n bad speculative ks acc)"
  by (induction ks arbitrary: acc) (auto intro!: settling)

lemma settles_select [settling]: "settles (\<lambda>s. tc_family (snd s)) (select_in_group lc S grp ms)"
  unfolding select_in_group_def select_fallback_def Let_def
  by (auto intro!: settling split: sum.split)

lemma settles_on_flags [settling]:
  "settles (\<lambda>s. tc_family (snd s)) m \<Longrightarrow> settles (\<lambda>s. tc_family (snd s)) (on_flags w m)"
  by (rule settlesI) (auto simp: on_flags_def dest: settlesD split: prod.splits)

lemma settles_machine [settling]:
  "settles (\<lambda>s. tc_family (snd s)) (next_group lc S)"
  "settles (\<lambda>s. tc_family (snd s)) (next_rule lc S worker)"
  "settles (\<lambda>s. tc_family (snd s)) (should_check_invariant lc S i)"
  unfolding next_group_def next_rule_def should_check_invariant_def select_rule_def checked_worker_def Let_def
  by (auto intro!: settling split: sum.split)

section \<open>Rules for procedures\<close>

lemma psettles_ret [settling]: "psettles p (pret x)"
  by (rule psettlesI) auto

lemma psettles_value [simp]: "psettles p (\<lambda>s. Some (Inr x, s))"
  by (rule psettlesI) auto

lemma psettles_throw [settling]: "\<not> terminal e \<Longrightarrow> psettles p (pthrow e)"
  by (rule psettlesI) (auto intro: settled_error)

lemma psettles_bind [settling]:
  assumes "psettles p m" "\<And>x. psettles p (f x)"
  shows "psettles p (pbind m f)"
proof (rule psettlesI)
  fix s r t assume run: "pbind m f s = Some (r, t)"
  obtain r1 u where m: "m s = Some (r1, u)" using run by (auto simp: pbind_def split: option.splits)
  note s = psettlesD [OF assms(1) m]
  show "settled (p s) r (p t)"
  proof (cases r1)
    case (Inl e)
    then show ?thesis using run m s by (auto simp: pbind_def settled_def)
  next
    case (Inr x)
    then have "f x u = Some (r, t)" using run m by (simp add: pbind_def)
    then show ?thesis using psettlesD [OF assms(2)] settled_trans [OF settled_later [OF s]] by blast
  qed
qed

lemma psettles_call [settling]: "settles p m \<Longrightarrow> psettles p (pcall m)"
  by (rule psettlesI) (auto dest: settlesD)

lemma psettles_on_case [settling]: "settles tc_family m \<Longrightarrow> psettles (\<lambda>s. tc_family (snd s)) (on_case m)"
  by (rule psettlesI) (auto simp: on_case_def dest: settlesD split: prod.splits)

lemma psettles_own [settling]:
  "psettles (\<lambda>s. tc_family (snd s)) get_own" "psettles (\<lambda>s. tc_family (snd s)) (set_own f)"
  by (rule psettlesI, auto simp: get_own_def set_own_def)+

lemma psettles_pinternal [settling]: "psettles (\<lambda>s. tc_family (snd s)) (pinternal v)"
  unfolding pinternal_def by (intro settling)

lemma psettles_mark_invalid [settling]: "psettles (\<lambda>s. tc_family (snd s)) mark_invalid"
  by (rule psettlesI) (auto simp: mark_invalid_def intro!: settled_error later_conclude)

lemma psettles_pspanned [settling]:
  assumes "psettles (\<lambda>s. tc_family (snd s)) m"
  shows "psettles (\<lambda>s. tc_family (snd s)) (pspanned label m)"
proof (rule psettlesI)
  fix s :: "'a \<times> 'b test_case" and r t assume run: "pspanned label m s = Some (r, t)"
  then obtain u where u: "m (fst s, snd (start_span label (snd s))) = Some (r, u)" "t = (fst u, stop_span False (snd u))"
    by (auto simp: pspanned_def)
  then show "settled (tc_family (snd s)) r (tc_family (snd t))"
    using settled_trans [OF later_start_span [of "snd s" label] psettlesD [OF assms u(1), simplified]] by simp
qed

lemma psettles_more [settling]: "psettles (\<lambda>s. tc_family (snd s)) (DrawProcs.more lc S st)"
proof (rule psettlesI)
  fix s :: "'a \<times> 'b test_case" and r t assume run: "DrawProcs.more lc S st s = Some (r, t)"
  obtain r1 st1 tc where m: "many_more lc S (st, snd s) = (r1, (st1, tc))" by (metis prod.collapse)
  have "settled (tc_family (snd s)) r1 (tc_family tc)" using settlesD [OF settles_collections(1) m] by simp
  then show "settled (tc_family (snd s)) r (tc_family (snd t))"
    using run m by (cases r1) (auto simp: DrawProcs.more_def settled_def)
qed

lemma psettles_loop [settling]:
  assumes body: "\<And>i. psettles p (body i)"
  shows "psettles p (ploop body i)"
proof (rule psettlesI)
  fix s r t
  assume "ploop body i s = Some (r, t)"
  then have "settled (p s) (fst (r, t)) (p (snd (r, t)))" using body
  proof (induction rule: ploop.raw_induct [rotated, consumes 1, case_names round])
    case (round loop body i s rt)
    obtain r1 u where b: "body i s = Some (r1, u)" using round(2) by (auto simp: bind_eq_Some_conv)
    note s = psettlesD [OF round(3) b]
    show ?case
    proof (cases r1)
      case (Inl e)
      then show ?thesis using round(2) b s by (auto simp: settled_def)
    next
      case (Inr y)
      show ?thesis
      proof (cases y)
        case (Inl j)
        then have "loop body j u = Some rt" using round(2) b Inr by simp
        from settled_trans [OF settled_later [OF s] round(1) [OF this round(3)]] show ?thesis .
      next
        case (Inr x)
        then show ?thesis using round(2) b s \<open>r1 = Inr y\<close> by auto
      qed
    qed
  qed
  then show "settled (p s) r (p t)" by simp
qed

lemma psettles_find [settling]: "(\<And>x. psettles p (f x)) \<Longrightarrow> psettles p (pfor_find xs f)"
  by (induction xs) (auto intro!: settling split: option.split)

lemma psettles_many_loop [settling]:
  "(\<And>v. psettles (\<lambda>s. tc_family (snd s)) (body v)) \<Longrightarrow> psettles (\<lambda>s. tc_family (snd s)) (many_loop lc S st body v)"
  unfolding many_loop_def by (auto intro!: settling split: prod.split)

section \<open>String generators\<close>

lemma psettles_letters [settling]:
  "psettles (\<lambda>s. tc_family (snd s)) (draw_ascii_letter lc S)"
  "psettles (\<lambda>s. tc_family (snd s)) (draw_ascii_alnum lc S)"
  "psettles (\<lambda>s. tc_family (snd s)) (draw_ascii_alnum_or_hyphen lc S)"
  "psettles (\<lambda>s. tc_family (snd s)) (on_case (draw_i128 lc S lo hi))"
  unfolding draw_ascii_letter_def draw_ascii_alnum_def draw_ascii_alnum_or_hyphen_def draw_i128_def
  by (intro settling)+

lemma psettles_dns_middle [settling]: "psettles (\<lambda>s. tc_family (snd s)) (dns_middle lc S is s)"
  by (induction "is" arbitrary: s) (auto intro!: settling)

lemma psettles_flip_case [settling]: "psettles (\<lambda>s. tc_family (snd s)) (flip_case lc S cs)"
  by (induction cs) (auto intro!: settling)

lemma psettles_label [settling]: "psettles (\<lambda>s. tc_family (snd s)) (draw_dns_label lc S n)"
  unfolding draw_dns_label_def by (auto intro!: settling)

lemma psettles_domain [settling]: "psettles (\<lambda>s. tc_family (snd s)) (generate_domain lc S spec)"
  unfolding generate_domain_def prepend_label_def by (auto intro!: settling)

lemma psettles_email [settling]: "psettles (\<lambda>s. tc_family (snd s)) (generate_email lc S tlds)"
  unfolding generate_email_def Let_def by (auto intro!: settling)

lemma psettles_fragment_text [settling]: "psettles (\<lambda>s. tc_family (snd s)) (url_encode_fragment lc S out cs)"
  by (induction cs arbitrary: out) (auto intro!: settling)

lemma psettles_url [settling]: "psettles (\<lambda>s. tc_family (snd s)) (generate_url lc S tlds)"
  unfolding generate_url_def push_component_def draw_port_def draw_fragment_def by (auto intro!: settling)

lemma psettles_pcompute [settling]: "psettles (\<lambda>s. tc_family (snd s)) (pcompute v)"
  by (rule psettlesI) (auto simp: pcompute_def split: option.splits)

lemma psettles_pieces [settling]:
  "psettles (\<lambda>s. tc_family (snd s)) (draw_number R lo hi)"
  "psettles (\<lambda>s. tc_family (snd s)) (flip R q)"
  "psettles (\<lambda>s. tc_family (snd s)) (push_out cs)"
  unfolding draw_number_def flip_def push_out_def by (intro settling)+

lemma psettles_any_char [settling]: "psettles (\<lambda>s. tc_family (snd s)) (draw_any_char R)"
  unfolding draw_any_char_def by (auto intro!: settling split: option.split)

lemma psettles_emit [settling]: "psettles (\<lambda>s. tc_family (snd s)) (emit_from_chars R cs)"
  unfolding emit_from_chars_def Let_def by (auto intro!: settling)

lemma psettles_pad [settling]: "psettles (\<lambda>s. tc_family (snd s)) (draw_pad R)"
proof -
  have "psettles (\<lambda>s. tc_family (snd s)) (draw_chars R n)" for n by (induction n) (auto intro!: settling)
  then show ?thesis unfolding draw_pad_def by (intro settling)
qed

lemma psettles_ends [settling]:
  "psettles (\<lambda>s. tc_family (snd s)) (draw_prefix R p)" "psettles (\<lambda>s. tc_family (snd s)) (draw_suffix R p)"
  unfolding draw_prefix_def draw_suffix_def
  by (auto intro!: settling split: option.split opcode.split at_code.split)

lemma psettles_ops [settling]:
  "psettles (\<lambda>s. tc_family (snd s)) (literal_op R cp)"
  "psettles (\<lambda>s. tc_family (snd s)) (not_literal_op R cp)"
  "psettles (\<lambda>s. tc_family (snd s)) (any_op R)"
  "psettles (\<lambda>s. tc_family (snd s)) (at_op a)"
  "psettles (\<lambda>s. tc_family (snd s)) (in_op R items)"
  "psettles (\<lambda>s. tc_family (snd s)) (assert_not_op R d q)"
  unfolding literal_op_def not_literal_op_def any_op_def at_op_def in_op_def assert_not_op_def Let_def
  by (auto intro!: settling split: option.split at_code.split)

lemma psettles_groups [settling]:
  assumes "psettles (\<lambda>s. tc_family (snd s)) body"
  shows "psettles (\<lambda>s. tc_family (snd s)) (subpattern_op grp add_flags del_flags body)"
    "psettles (\<lambda>s. tc_family (snd s)) (repeat_op R mn mx body)"
  unfolding subpattern_op_def repeat_op_def
  by (auto intro!: settling assms split: option.split)

lemma psettles_generate [settling]:
  fixes R :: "'r regex_env"
  shows "psettles (\<lambda>s. tc_family (snd s)) (generate_op R op)"
    and "psettles (\<lambda>s. tc_family (snd s)) (generate_subpattern R ops)"
proof (induction R op and R ops rule: generate_op_generate_subpattern.induct)
  case (6 R items)
  have "psettles (\<lambda>s. tc_family (snd s))
      (pbind (on_case (index_at (map (generate_subpattern R) items) i)) (\<lambda>branch. branch))" for i
  proof (cases "i < length items")
    case True
    then have "items ! i \<in> set items" by simp
    from 6 [OF this] True show ?thesis
      by (auto simp: psettles_def pbind_def on_case_def index_at_def)
  qed (auto simp: index_at_def on_case_def pbind_def throw_def intro!: psettlesI settled_error)
  then show ?case unfolding generate_op.simps by (rule psettles_bind [OF psettles_pieces(1)])
qed (auto intro!: settling split: option.split)

lemma psettles_regex [settling]: "psettles (\<lambda>s. tc_family (snd s)) (generate_regex R p fullmatch)"
  unfolding generate_regex_def generate_regex_attempt_def
  by (auto intro!: settling split: option.split)

lemma psettles_local [settling]:
  "psettles (\<lambda>s. tc_family (snd s)) m \<Longrightarrow> psettles (\<lambda>s. tc_family (snd s)) (with_local h m)"
  by (rule psettlesI) (auto simp: with_local_def dest!: psettlesD)

lemma psettles_string [settling]: "psettles (\<lambda>s. tc_family (snd s)) (generate_string X spec)"
  unfolding generate_string_def by (auto intro!: settling split: string_spec.split)

end
