(* ===== verification/Bodies.thy ===== *)
theory Bodies
  imports Verdicts FamilyRuns
begin

text \<open>
  What a test body can do with its data sources: the calls of the trait \<open>DataSource\<close>
  (\<open>hegel-c/src/backend.rs\<close>), with the collections, recursions, state machines and pools the body
  owns and passes to them. Of an answer only the error is kept. The property at the end is about
  the abort latch: a body that is told to stop has a verdict, and its source stays aborted.
\<close>

section \<open>Calls\<close>

datatype draw_call =
    CallInteger int int
  | CallFloat float_spec
  | CallBytes nat nat
  | CallString string_spec
  | CallDate date date
  | CallTime time time
  | CallDatetime datetime datetime
  | CallUuid "nat option"
  | CallIpv4
  | CallIpv6
  | CallStartSpan u64
  | CallStopSpan bool
  | CallClone
  | CallBoolean f64 "bool option"

datatype object_call =
    CallNewCollection nat nat "nat option"
  | CallMore nat
  | CallReject nat
  | CallNewRecursion nat nat nat
  | CallBranch nat nat
  | CallLeaf nat
  | CallRetry nat
  | CallFinish nat
  | CallNewMachine nat nat "int list" nat "bool list" int int
  | CallNextGroup nat
  | CallNextRule nat int
  | CallRuleRejected nat int
  | CallShouldCheck nat int
  | CallNewPool nat
  | CallPoolAdd nat
  | CallPoolGenerate nat bool

datatype call =
    Draw draw_call
  | OnObject object_call
  | CallTarget f64 string
  | CallEvent string "f64 option"
  | CallMarkComplete test_case_result

text \<open>The session and the objects of the body, each under a number of its own.\<close>

record 'r body =
  bd_session :: "'r session"
  bd_collections :: "nat \<rightharpoonup> many_state"
  bd_recursions :: "nat \<rightharpoonup> recursion_state"
  bd_machines :: "nat \<rightharpoonup> state_machine"
  bd_pools :: "nat \<rightharpoonup> native_variables"

type_synonym 'r answer = "((ds_error + unit) \<times> 'r body) option"

definition no_value :: "'e + 'a \<Rightarrow> 'e + unit" where
  "no_value r = map_sum id (\<lambda>_. ()) r"

definition plain :: "(unit, 'r, 'a) request \<Rightarrow> 'r body \<Rightarrow> 'r answer" where
  "plain m b = map_option (\<lambda>(r, (_, ss)). (no_value r, b\<lparr>bd_session := ss\<rparr>)) (m ((), bd_session b))"

definition making :: "('o \<Rightarrow> 'r body \<Rightarrow> 'r body) \<Rightarrow> (unit, 'r, 'o) request \<Rightarrow> 'r body \<Rightarrow> 'r answer" where
  "making put m b =
     map_option (\<lambda>(r, (_, ss)).
       (no_value r, (case r of Inr x \<Rightarrow> put x | Inl _ \<Rightarrow> id) (b\<lparr>bd_session := ss\<rparr>))) (m ((), bd_session b))"

definition passing ::
  "'o option \<Rightarrow> ('o \<Rightarrow> 'r body \<Rightarrow> 'r body) \<Rightarrow> ('o, 'r, 'a) request \<Rightarrow> 'r body \<Rightarrow> 'r answer" where
  "passing x put m b =
     Option.bind x (\<lambda>x. map_option (\<lambda>(r, (y, ss)). (no_value r, put y (b\<lparr>bd_session := ss\<rparr>))) (m (x, bd_session b)))"

definition put_collection :: "nat \<Rightarrow> many_state \<Rightarrow> 'r body \<Rightarrow> 'r body" where
  "put_collection i x b = b\<lparr>bd_collections := (bd_collections b)(i \<mapsto> x)\<rparr>"

definition put_recursion :: "nat \<Rightarrow> recursion_state \<Rightarrow> 'r body \<Rightarrow> 'r body" where
  "put_recursion i x b = b\<lparr>bd_recursions := (bd_recursions b)(i \<mapsto> x)\<rparr>"

definition put_machine :: "nat \<Rightarrow> state_machine \<Rightarrow> 'r body \<Rightarrow> 'r body" where
  "put_machine i x b = b\<lparr>bd_machines := (bd_machines b)(i \<mapsto> x)\<rparr>"

definition put_pool :: "nat \<Rightarrow> native_variables \<Rightarrow> 'r body \<Rightarrow> 'r body" where
  "put_pool i x b = b\<lparr>bd_pools := (bd_pools b)(i \<mapsto> x)\<rparr>"

definition with_collection :: "nat \<Rightarrow> (many_state, 'r, 'a) request \<Rightarrow> 'r body \<Rightarrow> 'r answer" where
  "with_collection i m b = passing (bd_collections b i) (put_collection i) m b"

definition with_recursion :: "nat \<Rightarrow> (recursion_state, 'r, 'a) request \<Rightarrow> 'r body \<Rightarrow> 'r answer" where
  "with_recursion i m b = passing (bd_recursions b i) (put_recursion i) m b"

definition with_machine :: "nat \<Rightarrow> (state_machine, 'r, 'a) request \<Rightarrow> 'r body \<Rightarrow> 'r answer" where
  "with_machine i m b = passing (bd_machines b i) (put_machine i) m b"

definition with_pool :: "nat \<Rightarrow> (native_variables, 'r, 'a) request \<Rightarrow> 'r body \<Rightarrow> 'r answer" where
  "with_pool i m b = passing (bd_pools b i) (put_pool i) m b"

fun issue_draw :: "'r string_world \<Rightarrow> handle \<Rightarrow> draw_call \<Rightarrow> 'r body \<Rightarrow> 'r answer" where
  "issue_draw X h (CallInteger lo hi) = plain (ds_generate_integer X h lo hi)"
| "issue_draw X h (CallFloat spec) = plain (ds_generate_float X h spec)"
| "issue_draw X h (CallBytes lo hi) = plain (ds_generate_bytes X h lo hi)"
| "issue_draw X h (CallString spec) = plain (ds_generate_string X h spec)"
| "issue_draw X h (CallDate lo hi) = plain (ds_generate_date X h lo hi)"
| "issue_draw X h (CallTime lo hi) = plain (ds_generate_time X h lo hi)"
| "issue_draw X h (CallDatetime lo hi) = plain (ds_generate_datetime X h lo hi)"
| "issue_draw X h (CallUuid version) = plain (ds_generate_uuid X h version)"
| "issue_draw X h CallIpv4 = plain (ds_generate_ipv4 X h)"
| "issue_draw X h CallIpv6 = plain (ds_generate_ipv6 X h)"
| "issue_draw X h (CallStartSpan label) = plain (ds_start_span h label)"
| "issue_draw X h (CallStopSpan discard) = plain (ds_stop_span h discard)"
| "issue_draw X h CallClone = plain (ds_clone_stream X h)"
| "issue_draw X h (CallBoolean q forced) = plain (ds_generate_boolean X h q forced)"

fun issue_object :: "'r string_world \<Rightarrow> handle \<Rightarrow> object_call \<Rightarrow> 'r body \<Rightarrow> 'r answer" where
  "issue_object X h (CallNewCollection i lo hi) = making (put_collection i) (ds_new_collection h lo hi)"
| "issue_object X h (CallMore i) = with_collection i (ds_collection_more X h)"
| "issue_object X h (CallReject i) = with_collection i (ds_collection_reject h)"
| "issue_object X h (CallNewRecursion i depth leaves) =
     making (put_recursion i) (ds_new_recursion X h depth leaves)"
| "issue_object X h (CallBranch i depth) = with_recursion i (ds_recursion_branch X h depth)"
| "issue_object X h (CallLeaf i) = with_recursion i (ds_recursion_leaf h)"
| "issue_object X h (CallRetry i) = with_recursion i (ds_recursion_retry h)"
| "issue_object X h (CallFinish i) = with_recursion i (ds_recursion_finish h)"
| "issue_object X h (CallNewMachine i rules groups invariants always lo hi) =
     making (put_machine i) (ds_new_state_machine X h rules groups invariants always lo hi)"
| "issue_object X h (CallNextGroup i) = with_machine i (ds_next_group X h)"
| "issue_object X h (CallNextRule i worker) = with_machine i (ds_next_rule X h worker)"
| "issue_object X h (CallRuleRejected i worker) = with_machine i (ds_rule_rejected h worker)"
| "issue_object X h (CallShouldCheck i k) = with_machine i (ds_should_check_invariant X h k)"
| "issue_object X h (CallNewPool i) = making (put_pool i) (ds_new_pool h)"
| "issue_object X h (CallPoolAdd i) = with_pool i (ds_pool_add X h)"
| "issue_object X h (CallPoolGenerate i consume) = with_pool i (ds_pool_generate X h consume)"

fun issue :: "'r string_world \<Rightarrow> handle \<Rightarrow> call \<Rightarrow> 'r body \<Rightarrow> 'r answer" where
  "issue X h (Draw c) = issue_draw X h c"
| "issue X h (OnObject c) = issue_object X h c"
| "issue X h (CallTarget score label) = plain (ds_target_observation score label)"
| "issue X h (CallEvent label v) = plain (ds_event_observation label v)"
| "issue X h (CallMarkComplete result) = plain (ds_mark_complete result)"

fun issues :: "'r string_world \<Rightarrow> (handle \<times> call) list \<Rightarrow> 'r body \<Rightarrow> ((ds_error + unit) list \<times> 'r body) option" where
  "issues X [] b = Some ([], b)"
| "issues X ((h, c) # cs) b =
     Option.bind (issue X h c b) (\<lambda>(r, b). map_option (apfst ((#) r)) (issues X cs b))"

text \<open>The calls that consult the latch: all but the observations, the report of the outcome and a
  machine refused for its arguments.\<close>

definition guarded :: "call \<Rightarrow> bool" where
  "guarded c =
     (case c of
        Draw _ \<Rightarrow> True
      | OnObject (CallNewMachine _ rules groups invariants always lo hi) \<Rightarrow>
          machine_request_error rules groups invariants always lo hi = None
      | OnObject _ \<Rightarrow> True
      | _ \<Rightarrow> False)"

section \<open>Requests on a session\<close>

abbreviation verdict :: "'r session \<Rightarrow> status option" where
  "verdict ss \<equiv> family_status (st_family (se_store ss))"

text \<open>An aborted source belongs to a test case with a verdict.\<close>

definition session_ok :: "'r session \<Rightarrow> bool" where
  "session_ok ss \<longleftrightarrow> mirrored (st_family (se_store ss)) \<and> (se_aborted ss \<noteq> {} \<longrightarrow> verdict ss \<noteq> None)"

definition session_step :: "'r session \<Rightarrow> ds_error + 'a \<Rightarrow> 'r session \<Rightarrow> bool" where
  "session_step ss r ss' \<longleftrightarrow>
     session_ok ss' \<and> se_aborted ss \<subseteq> se_aborted ss' \<and> (verdict ss \<noteq> None \<longrightarrow> verdict ss' = verdict ss)
   \<and> (r = Inl StopTest \<longrightarrow> verdict ss' \<noteq> None)"

definition honours :: "bool \<Rightarrow> handle \<Rightarrow> ('x, 'r, 'a) request \<Rightarrow> bool" where
  "honours latched h m \<longleftrightarrow>
     (\<forall>x ss r x' ss'. m (x, ss) = Some (r, (x', ss')) \<longrightarrow> session_ok ss \<longrightarrow>
        session_step ss r ss'
      \<and> (latched \<longrightarrow> h \<in> se_aborted ss \<longrightarrow> r = Inl (aborted_error ss) \<and> x' = x \<and> ss' = ss))"

lemma honoursI:
  assumes "\<And>x ss r x' ss'. m (x, ss) = Some (r, (x', ss')) \<Longrightarrow> session_ok ss \<Longrightarrow>
        session_step ss r ss'
      \<and> (latched \<longrightarrow> h \<in> se_aborted ss \<longrightarrow> r = Inl (aborted_error ss) \<and> x' = x \<and> ss' = ss)"
  shows "honours latched h m"
  using assms unfolding honours_def by blast

named_theorems honouring \<open>requests that respect the latch\<close>

lemma aborted_verdict: "aborted_error ss = StopTest \<longleftrightarrow> verdict ss \<noteq> Some Invalid"
  by (auto simp: aborted_error_def split: option.split status.split)

lemma unlock_family [simp]: "st_family (unlock h tc st) = tc_family tc"
  by (simp add: unlock_def)

lemma honours_with_ntc:
  assumes f: "psettles (\<lambda>s. tc_family (snd s)) f"
  shows "honours b h (with_ntc h f)"
proof (rule honoursI)
  fix x ss r x' ss'
  assume run: "with_ntc h f (x, ss) = Some (r, (x', ss'))" and ok: "session_ok ss"
  show "session_step ss r ss' \<and> (b \<longrightarrow> h \<in> se_aborted ss \<longrightarrow> r = Inl (aborted_error ss) \<and> x' = x \<and> ss' = ss)"
  proof (cases "h \<in> se_aborted ss")
    case True
    then have "r = Inl (aborted_error ss)" "x' = x" "ss' = ss" using run by (auto simp: with_ntc_def)
    then show ?thesis using ok True by (auto simp: session_step_def session_ok_def)
  next
    case False
    let ?fam = "st_family (se_store ss)"
    obtain tc r1 t where tc: "st_streams (se_store ss) h = Some tc"
      "f (x, locked (se_store ss) tc) = Some (r1, (x', t))"
      and r: "r = map_sum (\<lambda>e. fst (source_error e)) id r1"
      and ss': "ss' = (let s = ss\<lparr>se_store := unlock h t (se_store ss)\<rparr>
        in case r1 of Inr a \<Rightarrow> s | Inl e \<Rightarrow> if snd (source_error e) then abort_source h s else s)"
      using run False by (auto simp: with_ntc_def Let_def split: option.splits sum.splits)
    have s: "settled ?fam r1 (tc_family t)" using psettlesD [OF f tc(2)] by simp
    have fam: "st_family (se_store ss') = tc_family t"
      by (simp add: ss' Let_def abort_source_def split: sum.split)
    have mir: "mirrored ?fam" using ok by (simp add: session_ok_def)
    have l: "mirrored (tc_family t)" "verdict ss \<noteq> None \<longrightarrow> family_status (tc_family t) = verdict ss"
      using settled_later [OF s] mir by (auto simp: later_def)
    have grows: "se_aborted ss \<subseteq> se_aborted ss'"
      by (auto simp: ss' Let_def abort_source_def split: sum.split)
    have t: "\<exists>e. r1 = Inl e \<and> terminal e \<Longrightarrow> family_status (tc_family t) \<noteq> None"
      using s mir by (auto simp: settled_def)
    have latched: "se_aborted ss' = se_aborted ss" if "\<nexists>e. r1 = Inl e \<and> terminal e"
      using that by (cases r1) (auto simp: ss' source_error_def split: engine_error.splits)
    have stop: "\<exists>e. r1 = Inl e \<and> terminal e" if "r = Inl StopTest"
      using that by (cases r1) (auto simp: r source_error_def split: engine_error.splits)
    have "session_ok ss'"
    proof (cases "\<exists>e. r1 = Inl e \<and> terminal e")
      case True
      then show ?thesis using t l fam by (simp add: session_ok_def)
    next
      case no: False
      then show ?thesis using latched [OF no] ok l fam by (auto simp: session_ok_def)
    qed
    then show ?thesis using False grows l(2) fam t stop by (auto simp: session_step_def)
  qed
qed

lemma honours_new_machine: "honours (machine_request_error a g i w lo hi = None) h (ds_new_state_machine X h a g i w lo hi)"
proof (cases "machine_request_error a g i w lo hi")
  case None
  have "psettles (\<lambda>s. tc_family (snd s)) (on_case (ebind (concurrent_machine hi) (\<lambda>_.
     machine_new (sw_ceil X) (sw_sampling X) g w lo hi)))"
    unfolding concurrent_machine_def
    by (auto intro!: settling simp: set_concurrent_machine_def later_def mirrored_def family_status_def)
  then show ?thesis unfolding ds_new_state_machine_def None option.case by (rule honours_with_ntc)
next
  case (Some msg)
  then show ?thesis
    by (intro honoursI) (auto simp: ds_new_state_machine_def session_step_def)
qed

lemma honours_draws [honouring]:
  "honours b h (ds_generate_integer X h lo hi)" "honours b h (ds_generate_float X h spec)"
  "honours b h (ds_generate_bytes X h m n)" "honours b h (ds_generate_string X h gen)"
  "honours b h (ds_generate_date X h d d')" "honours b h (ds_generate_time X h t t')"
  "honours b h (ds_generate_datetime X h dt dt')" "honours b h (ds_generate_uuid X h version)"
  "honours b h (ds_generate_ipv4 X h)" "honours b h (ds_generate_ipv6 X h)"
  "honours b h (ds_generate_boolean X h q forced)"
  unfolding ds_generate_integer_def ds_generate_float_def ds_generate_bytes_def ds_generate_string_def
    ds_generate_date_def ds_generate_time_def ds_generate_datetime_def ds_generate_uuid_def ds_generate_ipv4_def
    ds_generate_ipv6_def ds_generate_boolean_def
  by (intro honours_with_ntc settling)+

lemma honours_spans [honouring]:
  "honours b h (ds_start_span h label)" "honours b h (ds_stop_span h discard)"
  unfolding ds_start_span_def ds_stop_span_def
  by (intro honours_with_ntc settling; simp add: later_start_span)+

lemma honours_objects [honouring]:
  "honours b h (ds_new_collection h m n)" "honours b h (ds_collection_more X h)" "honours b h (ds_collection_reject h)"
  "honours b h (ds_new_recursion X h depth leaves)" "honours b h (ds_recursion_branch X h depth)"
  "honours b h (ds_recursion_retry h)" "honours b h (ds_recursion_finish h)"
  "honours b h (ds_next_group X h)" "honours b h (ds_next_rule X h worker)"
  "honours b h (ds_should_check_invariant X h k)" "honours b h (ds_new_pool h)"
  unfolding ds_new_collection_def ds_collection_more_def ds_collection_reject_def ds_new_recursion_def
    ds_recursion_branch_def ds_recursion_retry_def ds_recursion_finish_def ds_next_group_def ds_next_rule_def
    ds_should_check_invariant_def ds_new_pool_def
  by (intro honours_with_ntc settling)+

lemma honours_bookkeeping [honouring]:
  "honours b h (ds_recursion_leaf h)" "honours b h (ds_rule_rejected h worker)"
  unfolding ds_recursion_leaf_def ds_rule_rejected_def
  by (intro honours_with_ntc psettlesI; auto split: prod.splits simp: rule_rejected_def checked_worker_def Let_def
      intro: settled_error split: sum.splits if_splits)+

lemma honours_pools [honouring]:
  "honours b h (ds_pool_add X h)" "honours b h (ds_pool_generate X h consume)"
  unfolding ds_pool_add_def ds_pool_generate_def
  by (intro honours_with_ntc, auto intro!: settling)+

lemma honours_clone [honouring]:
  fixes X :: "'r string_world"
  shows "honours b h (ds_clone_stream X h)"
proof (rule honoursI)
  fix x :: 'x and ss :: "'r session" and r x' ss'
  assume run: "ds_clone_stream X h (x, ss) = Some (r, (x', ss'))" and ok: "session_ok ss"
  let ?m = "with_ntc h (on_case (clone_child (sw_sampling X))) :: ('x, 'r, 'r test_case) request"
  have honoured: "honours b h ?m" by (intro honours_with_ntc settling)
  obtain r1 s1 where m: "?m (x, ss) = Some (r1, (x', s1))"
    and r: "r = map_sum id tc_clone_id r1"
    and ss': "ss' = (case r1 of Inl e \<Rightarrow> s1
      | Inr child \<Rightarrow> s1\<lparr>se_store := (se_store s1)\<lparr>st_streams := (st_streams (se_store s1))(tc_clone_id child \<mapsto> child)\<rparr>\<rparr>)"
    using run by (auto simp: ds_clone_stream_def pbind_def split: option.splits sum.splits)
  have s: "session_step ss r1 s1"
    and l: "b \<longrightarrow> h \<in> se_aborted ss \<longrightarrow> r1 = Inl (aborted_error ss) \<and> x' = x \<and> s1 = ss"
    using honoured m ok unfolding honours_def by blast+
  have "session_step ss r ss'" using s by (cases r1) (simp_all add: r ss' session_step_def session_ok_def)
  then show "session_step ss r ss' \<and> (b \<longrightarrow> h \<in> se_aborted ss \<longrightarrow> r = Inl (aborted_error ss) \<and> x' = x \<and> ss' = ss)"
    using l by (auto simp: r ss')
qed

lemma honours_on_family:
  assumes "\<And>fam r fam'. f fam = (r, fam') \<Longrightarrow> later fam fam' \<and> r \<noteq> Inl StopTest"
  shows "honours False h (on_family f)"
proof (rule honoursI)
  fix x ss r x' ss' assume run: "on_family f (x, ss) = Some (r, (x', ss'))" and ok: "session_ok ss"
  obtain fam where f: "f (st_family (se_store ss)) = (r, fam)" "ss' = ss\<lparr>se_store := (se_store ss)\<lparr>st_family := fam\<rparr>\<rparr>"
    using run by (auto simp: on_family_def split: prod.splits)
  from assms [OF f(1)] ok
  show "session_step ss r ss' \<and> (False \<longrightarrow> h \<in> se_aborted ss \<longrightarrow> r = Inl (aborted_error ss) \<and> x' = x \<and> ss' = ss)"
    by (auto simp: f(2) session_step_def session_ok_def later_def)
qed

lemma later_observations [simp]:
  "later f (f\<lparr>fc_target_observations := obs\<rparr>)" "later f (f\<lparr>fc_events := es\<rparr>)"
  by (simp_all add: later_def mirrored_def family_status_def)

lemma honours_throw: "honours False h (pthrow (DsInvalidArgument msg))"
  by (rule honoursI) (auto simp: session_step_def)

lemma honours_outcome [honouring]:
  "honours False h (ds_target_observation score label)" "honours False h (ds_event_observation label v)"
  "honours False h (ds_mark_complete result)"
  unfolding ds_target_observation_def ds_event_observation_def ds_mark_complete_def
  by (auto intro!: honours_on_family honours_throw simp: later_conclude split: if_splits)

section \<open>Calls of a body\<close>

definition call_honoured :: "bool \<Rightarrow> handle \<Rightarrow> ('r body \<Rightarrow> 'r answer) \<Rightarrow> bool" where
  "call_honoured latched h m \<longleftrightarrow>
     (\<forall>b r b'. m b = Some (r, b') \<longrightarrow> session_ok (bd_session b) \<longrightarrow>
        session_step (bd_session b) r (bd_session b')
      \<and> (latched \<longrightarrow> h \<in> se_aborted (bd_session b) \<longrightarrow> r = Inl (aborted_error (bd_session b)) \<and> b' = b))"

lemma no_value_error [simp]: "no_value r = Inl e \<longleftrightarrow> r = Inl e"
  by (cases r) (auto simp: no_value_def)

lemma session_step_value: "session_step ss r ss' \<Longrightarrow> session_step ss (no_value r) ss'"
  by (simp add: session_step_def)

lemma call_plain: "honours l h m \<Longrightarrow> call_honoured l h (plain m)"
  unfolding call_honoured_def honours_def plain_def
  by (fastforce intro: session_step_value)

lemma call_making:
  assumes m: "honours l h m" and put: "\<And>x b. bd_session (put x b) = bd_session b"
  shows "call_honoured l h (making put m)"
  unfolding call_honoured_def
proof (intro allI impI)
  fix b r b' assume run: "making put m b = Some (r, b')" and ok: "session_ok (bd_session b)"
  obtain r1 ss where s: "m ((), bd_session b) = Some (r1, ((), ss))" "r = no_value r1"
    "b' = (case r1 of Inr x \<Rightarrow> put x | Inl _ \<Rightarrow> id) (b\<lparr>bd_session := ss\<rparr>)"
    using run by (auto simp: making_def)
  have "session_step (bd_session b) r1 ss"
    "l \<longrightarrow> h \<in> se_aborted (bd_session b) \<longrightarrow> r1 = Inl (aborted_error (bd_session b)) \<and> ss = bd_session b"
    using m s(1) ok unfolding honours_def by blast+
  then show "session_step (bd_session b) r (bd_session b')
      \<and> (l \<longrightarrow> h \<in> se_aborted (bd_session b) \<longrightarrow> r = Inl (aborted_error (bd_session b)) \<and> b' = b)"
    using s(2,3) put by (cases r1) (auto intro: session_step_value)
qed

lemma call_passing:
  assumes m: "honours l h m" and put: "\<And>x b. bd_session (put x b) = bd_session b"
    and same: "\<And>x b. get b = Some x \<Longrightarrow> put x b = b"
  shows "call_honoured l h (\<lambda>b. passing (get b) put m b)"
  unfolding call_honoured_def
proof (intro allI impI)
  fix b r b' assume run: "passing (get b) put m b = Some (r, b')" and ok: "session_ok (bd_session b)"
  obtain x r1 y ss where s: "get b = Some x" "m (x, bd_session b) = Some (r1, (y, ss))" "r = no_value r1"
    "b' = put y (b\<lparr>bd_session := ss\<rparr>)"
    using run by (auto simp: passing_def bind_eq_Some_conv)
  have "session_step (bd_session b) r1 ss"
    "l \<longrightarrow> h \<in> se_aborted (bd_session b) \<longrightarrow> r1 = Inl (aborted_error (bd_session b)) \<and> y = x \<and> ss = bd_session b"
    using m s(2) ok unfolding honours_def by blast+
  then show "session_step (bd_session b) r (bd_session b')
      \<and> (l \<longrightarrow> h \<in> se_aborted (bd_session b) \<longrightarrow> r = Inl (aborted_error (bd_session b)) \<and> b' = b)"
    using s(3,4) put same [OF s(1)] by (auto intro: session_step_value)
qed

lemma put_same:
  "bd_collections b i = Some x \<Longrightarrow> put_collection i x b = b"
  "bd_recursions b i = Some y \<Longrightarrow> put_recursion i y b = b"
  "bd_machines b i = Some z \<Longrightarrow> put_machine i z b = b"
  "bd_pools b i = Some p \<Longrightarrow> put_pool i p b = b"
  by (cases b, simp add: put_collection_def put_recursion_def put_machine_def put_pool_def map_upd_triv)+

lemma call_objects:
  "honours l h m \<Longrightarrow> call_honoured l h (with_collection i m)"
  "honours l h m' \<Longrightarrow> call_honoured l h (with_recursion i m')"
  "honours l h m'' \<Longrightarrow> call_honoured l h (with_machine i m'')"
  "honours l h m3 \<Longrightarrow> call_honoured l h (with_pool i m3)"
  unfolding with_collection_def [abs_def] with_recursion_def [abs_def] with_machine_def [abs_def] with_pool_def [abs_def]
  by (rule call_passing, assumption, simp add: put_collection_def put_recursion_def put_machine_def put_pool_def,
      erule put_same)+

lemma call_makes:
  "honours l h m \<Longrightarrow> call_honoured l h (making (put_collection i) m)"
  "honours l h m' \<Longrightarrow> call_honoured l h (making (put_recursion i) m')"
  "honours l h m'' \<Longrightarrow> call_honoured l h (making (put_machine i) m'')"
  "honours l h m3 \<Longrightarrow> call_honoured l h (making (put_pool i) m3)"
  by (rule call_making; simp add: put_collection_def put_recursion_def put_machine_def put_pool_def)+

lemma issue_draw_honoured: "call_honoured True h (issue_draw X h c)"
  by (cases c) (simp_all add: call_plain honouring)

lemma issue_object_honoured: "call_honoured (guarded (OnObject c)) h (issue_object X h c)"
proof (cases c)
  case (CallNewMachine i a g k w lo hi)
  show ?thesis unfolding CallNewMachine issue_object.simps guarded_def call.case object_call.case
    by (rule call_makes(3) [OF honours_new_machine])
qed (simp_all add: call_objects call_makes honouring)

lemma issue_honoured: "call_honoured (guarded c) h (issue X h c)"
  by (cases c) (simp_all add: issue_object_honoured, simp_all add: guarded_def issue_draw_honoured call_plain honouring)

text \<open>A run of a body.\<close>

lemma issues_step:
  assumes "issues X cs b = Some (rs, b')" "session_ok (bd_session b)"
  shows "session_ok (bd_session b') \<and> se_aborted (bd_session b) \<subseteq> se_aborted (bd_session b')
     \<and> (verdict (bd_session b) \<noteq> None \<longrightarrow> verdict (bd_session b') = verdict (bd_session b))
     \<and> (Inl StopTest \<in> set rs \<longrightarrow> verdict (bd_session b') \<noteq> None)"
  using assms
proof (induction cs arbitrary: b rs)
  case (Cons hc cs)
  obtain h c where hc: "hc = (h, c)" by (cases hc)
  obtain r b1 rs' where s: "issue X h c b = Some (r, b1)" "issues X cs b1 = Some (rs', b')" "rs = r # rs'"
    using Cons.prems(1) by (auto simp: hc bind_eq_Some_conv)
  have "session_step (bd_session b) r (bd_session b1)"
    using issue_honoured [of c h X] s(1) Cons.prems(2) unfolding call_honoured_def by blast
  then have st: "session_ok (bd_session b1)" "se_aborted (bd_session b) \<subseteq> se_aborted (bd_session b1)"
    "verdict (bd_session b) \<noteq> None \<Longrightarrow> verdict (bd_session b1) = verdict (bd_session b)"
    "r = Inl StopTest \<Longrightarrow> verdict (bd_session b1) \<noteq> None"
    by (simp_all add: session_step_def)
  from Cons.IH [OF s(2) st(1)] st(2-) s(3) show ?case by auto
qed simp

lemma issues_length: "issues X cs b = Some (rs, b') \<Longrightarrow> length rs = length cs"
  by (induction cs arbitrary: b rs) (auto simp: bind_eq_Some_conv)

lemma issues_latched:
  assumes "issues X cs b = Some (rs, b')" "session_ok (bd_session b)" "h \<in> se_aborted (bd_session b)"
    and "verdict (bd_session b) = Some s" "i < length cs" "fst (cs ! i) = h" "guarded (snd (cs ! i))"
  shows "rs ! i = Inl (if s = Invalid then AssumeFailed else StopTest)"
  using assms
proof (induction cs arbitrary: b rs i)
  case (Cons hc cs)
  obtain h' c where hc: "hc = (h', c)" by (cases hc)
  obtain r b1 rs' where run: "issue X h' c b = Some (r, b1)" "issues X cs b1 = Some (rs', b')" "rs = r # rs'"
    using Cons.prems(1) by (auto simp: hc bind_eq_Some_conv)
  have H: "session_step (bd_session b) r (bd_session b1)"
    "guarded c \<Longrightarrow> h' \<in> se_aborted (bd_session b) \<Longrightarrow> r = Inl (aborted_error (bd_session b))"
    using issue_honoured [of c h' X] run(1) Cons.prems(2) unfolding call_honoured_def by blast+
  show ?case
  proof (cases i)
    case 0
    then have "r = Inl (aborted_error (bd_session b))" using Cons.prems(3,6,7) H(2) hc by simp
    then show ?thesis using 0 run(3) Cons.prems(4) by (simp add: aborted_error_def split: status.split)
  next
    case (Suc k)
    have "session_ok (bd_session b1)" "h \<in> se_aborted (bd_session b1)" "verdict (bd_session b1) = Some s"
      using H(1) Cons.prems(3,4) by (auto simp: session_step_def)
    from Cons.IH [OF run(2) this, of k] show ?thesis using Cons.prems(5-7) Suc run(3) by simp
  qed
qed simp

definition sample_stopped_body :: "nat body" where
  "sample_stopped_body =
     \<lparr>bd_session = source_new (for_choices_and_template [] None None 0 None), bd_collections = Map.empty,
      bd_recursions = Map.empty, bd_machines = Map.empty, bd_pools = Map.empty\<rparr>"

definition sample_stopped :: "nat body" where
  "sample_stopped = snd (the (issues sample_string_world [([], Draw (CallInteger 0 5))] sample_stopped_body))"

lemmas body_eval = plain_def ds_generate_integer_def ds_start_span_def with_ntc_def on_case_def generate_integer_def
  invalid_def spanned_def start_span_def draw_integer_def draw_integer_from_def ebind_def hegel_internal_assert_def
  lift_result_def resolve_choice_def pre_choice_def tc_status_def family_status_def conclude_def family_conclude_def
  try_take_draw_def stop_span_def promote_labels_def source_error_def abort_source_def no_value_def
  source_new_def store_of_def locked_def unlock_def for_choices_and_template_def new_stream_def family_new_def
  STATUS_UNSET_def USIZE_MAX_def MAX_DEPTH_def Let_def aborted_error_def

lemma sample_stopped_run:
  "issues sample_string_world [([], Draw (CallInteger 0 5))] sample_stopped_body = Some ([Inl StopTest], sample_stopped)
   \<and> [] \<in> se_aborted (bd_session sample_stopped) \<and> verdict (bd_session sample_stopped) = Some EarlyStop"
  unfolding sample_stopped_def by (simp add: sample_stopped_body_def body_eval)

lemma two_elements: "length xs = 2 \<Longrightarrow> xs = [xs ! 0, xs ! 1]"
  by (cases xs; cases "tl xs") auto

definition sample_later :: "(handle \<times> call) list" where
  "sample_later = [([], Draw CallIpv4), ([], Draw (CallStartSpan 3))]"

lemma sample_later:
  "length sample_later = 2" "i < 2 \<Longrightarrow> fst (sample_later ! i) = [] \<and> guarded (snd (sample_later ! i))"
  by (simp_all add: sample_later_def nth_Cons guarded_def split: nat.split)

lemma sample_stopped_more: "\<exists>rs b. issues sample_string_world sample_later sample_stopped = Some (rs, b)"
  using sample_stopped_run by (simp add: sample_later_def plain_def ds_generate_ipv4_def ds_start_span_def with_ntc_def)



end
