(* ===== verification/Spec2Isabelle.thy ===== *)
theory Spec2Isabelle
  imports Base64 FloatIndex Intervals Constraints FloatChoice Choices ChoiceFacts Bignum Database
    Blob Search Ordering Shrinker ExecCache FloatRatio Scheduling
    FamilyRuns Reassembly Replay MachineRuns Calendar RegexParserFacts TextFacts InternetFacts
    Pools Bodies
begin

text \<open>
  A model of the engine of hegel-rust, a property-based testing library. A test body draws
  choices (integers, booleans, floats, bytes, strings, and clones of whole streams); a run is
  the sequence of choice nodes it drew, each a constraint with a value. The engine generates
  runs, shrinks failing ones to a simplest run, and stores them. The files named below are
  under \<open>src/hegel-c/src/native/\<close>.

  Data. \<open>Intervals\<close> (\<open>intervalsets.rs\<close>) has sets of codepoints; \<open>FloatIndex\<close>
  (\<open>core/float_index.rs\<close>, \<open>floats.rs\<close>) the order of floats, on bit patterns; \<open>Constraints\<close> and
  \<open>FloatChoice\<close> (\<open>core/choices.rs\<close>) the five constraint types with validation, simplest values,
  sort keys and dense indices; \<open>Choices\<close> and \<open>ChoiceFacts\<close> (\<open>core/choices.rs\<close>) values, kinds,
  nodes, streams, clone records, equality, hashing and the shortlex sort key. The lemmas show
  that indices are bijections in the order of the sort key, that equality is equality of value
  trees, and that the sort key is a well-founded order on validated sequences.

  Storage. \<open>Bignum\<close> (\<open>bignum.rs\<close>), \<open>Base64\<close> (\<open>base64.rs\<close>), \<open>Database\<close> (\<open>database.rs\<close>) and \<open>Blob\<close>
  (\<open>blob.rs\<close>) have the encodings, with round trips in both directions and bounded recursion.
  \<open>ExecCache\<close> (\<open>exec_cache.rs\<close>) is the two-tier cache of conclusions and the ledger of kinds.

  Shrinking (\<open>shrinker/\<close>). \<open>Search\<close> has the search machines, \<open>Ordering\<close> the reordering
  primitive with its judge, \<open>Shrinker\<close> the shrinker's state and the operations all passes are
  built from. \<open>Procs\<close> adds procedures that may loop, and the locale \<open>progress\<close>: the contract
  that from a good state a procedure ends in a state reached by steps only. \<open>PassBase\<close>
  interprets it twice, for passes that adopt strictly simpler targets and for the float pass,
  which may also install an equally simple one; \<open>PassClones\<close> a third time, for targets of
  bounded size. The passes are in \<open>PassDeletion\<close>, \<open>PassSequence\<close>, \<open>PassSpans\<close>, \<open>PassIndex\<close>,
  \<open>PassMutation\<close> (\<open>mutation.rs\<close>, \<open>coarse.rs\<close>), \<open>PassIntegers\<close>, \<open>PassBytes\<close>, \<open>PassStrings\<close>,
  \<open>PassFloats\<close> and \<open>PassClones\<close>; \<open>FloatRatio\<close> is about the float pass's integer ratios;
  \<open>Scheduling\<close> (\<open>scheduling.rs\<close>, \<open>mod.rs\<close>) runs all passes to a fixed point and shows that the
  whole shrink ends with a validated, interesting target no larger than its start.

  Test cases (\<open>core/state.rs\<close>). \<open>Family\<close> has the state the streams of one test case share, with
  the bookkeeping of collections, recursive draws, identifier pools and spans; \<open>TestCase\<close> one
  stream, \<open>NativeTestCase\<close>, with its draws, spans and freezing; \<open>Streams\<close> the streams of a family
  over one store, cloning and reassembly. \<open>TestCaseFacts\<close> and \<open>StreamFacts\<close> show what every
  request records and that it keeps the invariant of its stream; \<open>FamilyRuns\<close> has the step
  relation of a family whose streams are driven in any order, with the invariant of all reachable
  stores, the uniqueness of fresh identifiers and the finality of the verdict; \<open>Reassembly\<close>
  shows that putting the streams together ends and gives the whole tree of choices; \<open>Replay\<close> that
  a body run again on recorded values repeats its first run.

  Drawing. \<open>Draws\<close> (\<open>draws/mod.rs\<close>) has the draws of the API surface, collections and recursive
  values; \<open>DrawFacts\<close> shows when a draw cannot fail internally. \<open>StateMachine\<close>
  (\<open>core/state_machine.rs\<close>) schedules the rules of stateful tests; \<open>StateMachineFacts\<close> has the
  invariant of its flags and the correctness of rule selection, and \<open>MachineRuns\<close> the step relation
  of a machine, with bounds on its rounds.

  Dates and patterns. \<open>Special\<close> (\<open>draws/special.rs\<close>) draws dates, times, UUIDs and addresses;
  \<open>Calendar\<close> shows that day numbers are a calendar and that drawn datetimes stay within their
  bounds. \<open>RegexParser\<close> (\<open>re/parser.rs\<close>, \<open>re/constants.rs\<close>) parses Python-style patterns;
  \<open>RegexParserFacts\<close> has a calculus of parsing procedures in which every loop consumes input and
  shows that the parser ends on every pattern, with a well-formed result or an error inside it.

  Strings. \<open>TextDraws\<close> (\<open>draws/text.rs\<close>, \<open>unicodedata\<close>) computes the alphabet of a text request,
  \<open>Internet\<close> (\<open>draws/internet.rs\<close>) draws domain names, email addresses and URLs; \<open>TextFacts\<close> and
  \<open>InternetFacts\<close> show that alphabets have exactly the requested members and that the names have
  the forms the standards require. \<open>RegexMatch\<close> and \<open>RegexDraws\<close> (\<open>draws/regex.rs\<close>) have the
  character sets and the matcher of patterns, and the drawing of candidates; \<open>RegexFacts\<close> shows
  that a draw ends with characters of the alphabet only. \<open>StringSpecs\<close> (\<open>draws/mod.rs\<close>) has the
  string generators with their constructors, and what each promises of the strings it draws.
  \<open>Outcomes\<close> has the contract these proofs are stated in, a locale of procedures that end well or
  fail in an expected way; \<open>DrawProcs\<close> interprets it on draws and bounds loops by the choices
  that are left.

  Interfaces. \<open>Pools\<close> states what an identifier pool means and shows that \<open>NativeVariables\<close>
  implements it. \<open>DataSource\<close> (\<open>data_source.rs\<close>) has every request a test body can make on a
  stream, with the abort latch, and the read-out of a finished test case. \<open>Verdicts\<close> shows of every
  operation of the engine that it keeps a verdict and only fails terminally when there is one;
  \<open>Bodies\<close> has a test body as any sequence of calls on its sources (\<open>backend.rs\<close>), and shows that
  an aborted source stays aborted with one error.

  Conventions. An \<open>InternalError\<close> or a panic is a value of \<open>internal_error\<close>; a step of the
  shrinker is a function to an outcome and the state reached, so that an error keeps the state;
  a procedure that does not end is \<open>None\<close>. Asynchronous functions are sequential: every await is
  of a call made and finished before the next one. The test function, the clock and everything
  behind them (test body, randomness, cache) act on an environment the shrinker threads through.
  Debug assertions are taken as enabled. A hash map that is iterated over is listed in an order
  the source then fixes by sorting, or whose choice the operation does not depend on. Code of
  other crates is a parameter: dashu's byte conversions, zlib, libm, the FxHash of repeats, the
  Unicode tables and case mappings, the list of top-level domains, each with the documented laws
  used, as hypotheses, where any are.

  Bounds. Integers are unbounded where the source uses big integers, and words or checked
  arithmetic where it uses machine integers and overflow can matter: \<open>i128\<close> midpoints of
  \<open>BinSearchDown\<close>, \<open>usize\<close> doubling of \<open>FindInteger\<close>, \<open>u128\<close> shifts of the float ratios, the
  saturating stall budget. Indices into sequences in memory are natural numbers. \<open>shrink\<close>
  takes fuel; it bounds the nesting of cloned streams, and one more than the flattened length of
  the starting target is enough, since a nested stream is strictly smaller than what holds it.
  \<open>reassemble\<close> takes fuel for the depth of clones, and one more than \<open>MAX_CLONE_DEPTH\<close> is enough.
  Identifiers are \<open>i64\<close> in the source; they are dense, so runs of fewer than \<open>2^61\<close> steps cannot
  overflow them.
  All other loops are proved to end.

  Not modelled: the debug report of the shrinker; the mask of string constants of
  \<open>intervalsets.rs\<close>; the operator forwarding of \<open>bignum.rs\<close>, which is arithmetic on \<open>int\<close>; the
  directory database over a file system; the random samplers of \<open>core/state.rs\<close>, which are
  parameters under a contract; the asynchronous test runner with targeting, statistics and events;
  the printer; and, for good, the C ABI, the platform layer, generated tables, random number
  generators, the client library and the procedural macros, which are glue around the engine.
\<close>

end
